(* ===== verification/Prelude.thy ===== *)
theory Prelude
  imports Main "HOL-Library.Word"
begin

text \<open>
  The prelude of the development: the machine types, the outcome of a kernel
  routine, the table scans the kernel is full of, and the generic list and
  word lemmas the components share.

  A C routine either returns, calls \<^verbatim>\<open>panic\<close>, goes to sleep or
  spins until some other actor changes the state, or does something C leaves
  undefined (a null dereference, an access outside an array).  The type
  \<open>outcome\<close> has one constructor for each.
\<close>

type_synonym u8 = "8 word"
type_synonym u16 = "16 word"
type_synonym u32 = "32 word"

text \<open>\<^verbatim>\<open>n++\<close> on an \<^verbatim>\<open>int\<close> of 32 bits.\<close>

definition int_inc :: "int \<Rightarrow> int" where
  "int_inc n = sint (word_of_int (n + 1) :: u32)"

lemma int_inc_eq:
  assumes "- (2 ^ 31) \<le> n" "n < 2 ^ 31"
  shows "int_inc n = (if n = 2 ^ 31 - 1 then - (2 ^ 31) else n + 1)"
proof -
  have e: "sint (word_of_int k :: u32) = signed_take_bit 31 k" for k by transfer simp
  show ?thesis
  proof (cases "n = 2 ^ 31 - 1")
    case True
    then have "int_inc n = sint (word_of_int (2 ^ 31) :: u32)" by (simp add: int_inc_def)
    then show ?thesis using True by (simp add: e signed_take_bit_eq_if_negative bit_simps)
  next
    case False
    then show ?thesis unfolding int_inc_def e using assms by (simp add: signed_take_bit_int_eq_self)
  qed
qed

lemma int_inc_positive: "0 < n \<Longrightarrow> n < 2 ^ 31 \<Longrightarrow> 0 < int_inc n \<Longrightarrow> int_inc n = n + 1 \<and> int_inc n < 2 ^ 31"
  using int_inc_eq [of n] by (auto split: if_splits)

named_theorems outcome_simps \<open>case analysis on the outcome of a routine\<close>
named_theorems table_simps \<open>table scans and table updates\<close>

subsection \<open>Outcomes\<close>

datatype 'a outcome =
    Done 'a
  | Panic string
  | Wait
  | Fault

fun and_then :: "'a outcome \<Rightarrow> ('a \<Rightarrow> 'b outcome) \<Rightarrow> 'b outcome" where
  "and_then (Done x) f = f x"
| "and_then (Panic m) f = Panic m"
| "and_then Wait f = Wait"
| "and_then Fault f = Fault"

lemma and_then_Done_iff [outcome_simps]:
  "and_then m f = Done y \<longleftrightarrow> (\<exists>x. m = Done x \<and> f x = Done y)"
  by (cases m) auto

lemma and_then_assoc:
  "and_then (and_then m f) g = and_then m (\<lambda>x. and_then (f x) g)"
  by (cases m) auto

lemma and_then_cong [fundef_cong]:
  "m = m' \<Longrightarrow> (\<And>x. m' = Done x \<Longrightarrow> f x = f' x) \<Longrightarrow> and_then m f = and_then m' f'"
  by (cases m') auto

lemma and_then_DoneE:
  assumes "and_then m f = Done y"
  obtains x where "m = Done x" and "f x = Done y"
  using assms by (auto simp: and_then_Done_iff)

text \<open>
  An array access: \<open>Fault\<close> outside the bounds, where C leaves the behaviour
  undefined.
\<close>

definition at_index :: "'a list \<Rightarrow> nat \<Rightarrow> 'a outcome" where
  "at_index xs i = (if i < length xs then Done (xs ! i) else Fault)"

lemma at_index_Done [outcome_simps]:
  "at_index xs i = Done x \<longleftrightarrow> i < length xs \<and> x = xs ! i"
  by (auto simp: at_index_def)

lemma at_index_in [simp]: "i < length xs \<Longrightarrow> at_index xs i = Done (xs ! i)"
  by (simp add: at_index_def)

subsection \<open>Table scans\<close>

text \<open>
  \<open>find_index P xs\<close> is the loop
  \<^verbatim>\<open>for(p = tab; p < &tab[N]; p++) if(P(p)) goto found;\<close>
  of the kernel: the index of the first entry that satisfies \<open>P\<close>.
\<close>

fun find_index :: "('a \<Rightarrow> bool) \<Rightarrow> 'a list \<Rightarrow> nat option" where
  "find_index P [] = None"
| "find_index P (x # xs) = (if P x then Some 0 else map_option Suc (find_index P xs))"

lemma find_index_Some_iff [table_simps]:
  "find_index P xs = Some j \<longleftrightarrow> j < length xs \<and> P (xs ! j) \<and> (\<forall>k<j. \<not> P (xs ! k))"
proof (induction xs arbitrary: j)
  case Nil
  then show ?case by simp
next
  case (Cons x xs)
  then show ?case by (cases j) (auto simp: All_less_Suc2)
qed

lemma find_index_None_iff [table_simps]:
  "find_index P xs = None \<longleftrightarrow> (\<forall>x\<in>set xs. \<not> P x)"
  by (induction xs) auto

lemma find_index_None_nth:
  "find_index P xs = None \<longleftrightarrow> (\<forall>j<length xs. \<not> P (xs ! j))"
  by (simp add: find_index_None_iff all_set_conv_all_nth)

lemma find_index_less: "find_index P xs = Some j \<Longrightarrow> j < length xs"
  by (simp add: find_index_Some_iff)

lemma find_index_exists:
  assumes "j < length xs" "P (xs ! j)"
  obtains k where "find_index P xs = Some k" "k \<le> j"
proof -
  have "find_index P xs \<noteq> None" using assms by (auto simp: find_index_None_nth)
  then obtain k where k: "find_index P xs = Some k" by auto
  then have "k \<le> j" using assms by (auto simp: find_index_Some_iff not_less [symmetric])
  with k show ?thesis by (rule that)
qed

subsection \<open>Table updates\<close>

text \<open>
  \<open>upd_at i f xs\<close> applies \<open>f\<close> to the entry at index \<open>i\<close>: an assignment through
  a pointer into a table.
\<close>

definition upd_at :: "nat \<Rightarrow> ('a \<Rightarrow> 'a) \<Rightarrow> 'a list \<Rightarrow> 'a list" where
  "upd_at i f xs = xs[i := f (xs ! i)]"

lemma length_upd_at [simp]: "length (upd_at i f xs) = length xs"
  by (simp add: upd_at_def)

lemma nth_upd_at [table_simps]:
  "j < length xs \<Longrightarrow> upd_at i f xs ! j = (if j = i then f (xs ! j) else xs ! j)"
  by (auto simp: upd_at_def)

lemma nth_upd_at_same [simp]: "i < length xs \<Longrightarrow> upd_at i f xs ! i = f (xs ! i)"
  by (simp add: upd_at_def)

lemma nth_upd_at_other [simp]: "i \<noteq> j \<Longrightarrow> upd_at i f xs ! j = xs ! j"
  by (simp add: upd_at_def)

lemma nth_list_update_if [table_simps]:
  "j < length xs \<Longrightarrow> xs[i := v] ! j = (if j = i then v else xs ! j)"
  by auto

lemma map_upd_at_unchanged:
  "(\<And>x. g (f x) = g x) \<Longrightarrow> map g (upd_at i f xs) = map g xs"
  by (cases "i < length xs")
    (simp_all add: upd_at_def map_update list_update_beyond list_update_same_conv)

lemma set_upd_at_subset: "set (upd_at i f xs) \<subseteq> insert (f (xs ! i)) (set xs)"
  by (simp add: upd_at_def set_update_subset_insert)

subsection \<open>Loops over a table\<close>

text \<open>\<open>each f xs s\<close> runs the body \<open>f\<close> on every element in order and stops at the first that does not return.\<close>

primrec each :: "('a \<Rightarrow> 's \<Rightarrow> 's outcome) \<Rightarrow> 'a list \<Rightarrow> 's \<Rightarrow> 's outcome" where
  "each f [] s = Done s"
| "each f (x # xs) s = and_then (f x s) (each f xs)"

lemma each_append: "each f (xs @ ys) s = and_then (each f xs s) (each f ys)"
  by (induction xs arbitrary: s) (auto simp: and_then_assoc intro: and_then_cong)

lemma each_cong [fundef_cong]:
  "xs = ys \<Longrightarrow> s = t \<Longrightarrow> (\<And>x u. x \<in> set ys \<Longrightarrow> f x u = g x u) \<Longrightarrow> each f xs s = each g ys t"
proof (induction xs arbitrary: ys s t)
  case Nil
  then show ?case by auto
next
  case (Cons x xs)
  have "each f xs u = each g xs u" for u using Cons.IH [of xs u u] Cons.prems by auto
  then show ?case using Cons.prems by (auto intro!: and_then_cong)
qed

lemma each_invariant:
  assumes "P s" "\<And>x u. x \<in> set xs \<Longrightarrow> P u \<Longrightarrow> \<exists>v. f x u = Done v \<and> P v"
  shows "\<exists>v. each f xs s = Done v \<and> P v"
  using assms
proof (induction xs arbitrary: s)
  case Nil
  then show ?case by simp
next
  case (Cons x xs)
  then obtain u where "f x s = Done u" "P u" by (metis list.set_intros(1))
  then show ?case using Cons.IH [of u] Cons.prems(2) by simp
qed

lemma each_preserves:
  assumes "each f xs s = Done v" "P s" "\<And>x u w. x \<in> set xs \<Longrightarrow> P u \<Longrightarrow> f x u = Done w \<Longrightarrow> P w"
  shows "P v"
  using assms
  by (induction xs arbitrary: s) (auto simp: outcome_simps)

text \<open>A loop whose body at \<open>i\<close> changes only what \<open>get i\<close> sees acts on each \<open>get i\<close> once.\<close>

lemma each_local:
  assumes "each f xs s = Done t" "distinct xs" "P s"
    and "\<And>i u v. i \<in> set xs \<Longrightarrow> P u \<Longrightarrow> f i u = Done v \<Longrightarrow> P v \<and> get i v = g i (get i u)"
    and "\<And>i j u v. i \<in> set xs \<Longrightarrow> P u \<Longrightarrow> f i u = Done v \<Longrightarrow> j \<noteq> i \<Longrightarrow> get j v = get j u"
  shows "get j t = (if j \<in> set xs then g j (get j s) else get j s)"
  using assms
proof (induction xs arbitrary: s)
  case Nil
  then show ?case by simp
next
  case (Cons x xs)
  from Cons.prems(1) obtain u where u: "f x s = Done u" "each f xs u = Done t"
    by (auto simp: outcome_simps)
  have "P u" "get x u = g x (get x s)" using Cons.prems(3) Cons.prems(4) [OF _ _ u(1)] by auto
  moreover have "get j u = get j s" if "j \<noteq> x" using Cons.prems(3) Cons.prems(5) [OF _ _ u(1) that] by simp
  moreover have "get j t = (if j \<in> set xs then g j (get j u) else get j u)"
  proof (rule Cons.IH [OF u(2) _ \<open>P u\<close>])
    show "distinct xs" using Cons.prems(2) by simp
    show "P w \<and> get i w = g i (get i v)" if "i \<in> set xs" "P v" "f i v = Done w" for i v w
      using Cons.prems(4) [of i v w] that by simp
    show "get k w = get k v" if "i \<in> set xs" "P v" "f i v = Done w" "k \<noteq> i" for i k v w
      using Cons.prems(5) [of i v w k] that by simp
  qed
  ultimately show ?case using Cons.prems(2) by (cases "j = x") auto
qed

end
