(* ===== verification/Layout.thy ===== *)
theory Layout
  imports Prelude
begin

text \<open>
  The constants and address macros of \<^verbatim>\<open>param.h\<close>,
  \<^verbatim>\<open>memlayout.h\<close> and \<^verbatim>\<open>mmu.h\<close>, on 32-bit words, and the
  arithmetic of page addresses: rounding, the two-level index, the split of a
  page table entry into address and flags, and the kernel's direct map.
\<close>

unbundle bit_operations_syntax

named_theorems layout_defs \<open>the constants of the memory layout\<close>

subsection \<open>Constants\<close>

definition NPROC :: nat where [layout_defs]: "NPROC = 64"
definition NCPU :: nat where [layout_defs]: "NCPU = 4"
definition NOFILE :: nat where [layout_defs]: "NOFILE = 16"
definition NFILE :: nat where [layout_defs]: "NFILE = 100"
definition NINODE :: nat where [layout_defs]: "NINODE = 50"
definition NDEV :: nat where [layout_defs]: "NDEV = 10"
definition ROOTDEV :: u32 where [layout_defs]: "ROOTDEV = 1"
definition MAXARG :: nat where [layout_defs]: "MAXARG = 32"
definition MAXOPBLOCKS :: nat where [layout_defs]: "MAXOPBLOCKS = 10"
definition LOGSIZE :: nat where [layout_defs]: "LOGSIZE = MAXOPBLOCKS * 3"
definition NBUF :: nat where [layout_defs]: "NBUF = MAXOPBLOCKS * 3"
definition FSSIZE :: nat where [layout_defs]: "FSSIZE = 4000"
definition KSTACKSIZE :: u32 where [layout_defs]: "KSTACKSIZE = 4096"

definition EXTMEM :: u32 where [layout_defs]: "EXTMEM = 0x100000"
definition PHYSTOP :: u32 where [layout_defs]: "PHYSTOP = 0x20000000"
definition DEVSPACE :: u32 where [layout_defs]: "DEVSPACE = 0xFE000000"
definition KERNBASE :: u32 where [layout_defs]: "KERNBASE = 0x80000000"
definition KERNLINK :: u32 where [layout_defs]: "KERNLINK = KERNBASE + EXTMEM"
definition PCI_BAR_BASE :: u32 where [layout_defs]: "PCI_BAR_BASE = 0x80000000"
definition PCI_VP_OFFSET :: u32 where [layout_defs]: "PCI_VP_OFFSET = 0x40000000"

definition O_RDONLY :: u32 where "O_RDONLY = 0"
definition O_WRONLY :: u32 where "O_WRONLY = 1"
definition O_RDWR :: u32 where "O_RDWR = 2"
definition O_CREATE :: u32 where "O_CREATE = 0x200"

definition PGSIZE :: u32 where [layout_defs]: "PGSIZE = 4096"
definition NPDENTRIES :: nat where [layout_defs]: "NPDENTRIES = 1024"
definition PTE_P :: u32 where [layout_defs]: "PTE_P = 1"
definition PTE_W :: u32 where [layout_defs]: "PTE_W = 2"
definition PTE_U :: u32 where [layout_defs]: "PTE_U = 4"

subsection \<open>Address macros\<close>

definition V2P :: "u32 \<Rightarrow> u32" where "V2P a = a - KERNBASE"
definition P2V :: "u32 \<Rightarrow> u32" where "P2V a = a + KERNBASE"

definition PGROUNDUP :: "u32 \<Rightarrow> u32" where
  "PGROUNDUP sz = (sz + PGSIZE - 1) AND NOT (PGSIZE - 1)"

definition PGROUNDDOWN :: "u32 \<Rightarrow> u32" where
  "PGROUNDDOWN a = a AND NOT (PGSIZE - 1)"

definition PDX :: "u32 \<Rightarrow> u32" where "PDX va = drop_bit 22 va AND 0x3FF"
definition PTX :: "u32 \<Rightarrow> u32" where "PTX va = drop_bit 12 va AND 0x3FF"

definition PGADDR :: "u32 \<Rightarrow> u32 \<Rightarrow> u32 \<Rightarrow> u32" where
  "PGADDR d t off = push_bit 22 d OR push_bit 12 t OR off"

definition PTE_ADDR :: "u32 \<Rightarrow> u32" where "PTE_ADDR pte = pte AND NOT 0xFFF"
definition PTE_FLAGS :: "u32 \<Rightarrow> u32" where "PTE_FLAGS pte = pte AND 0xFFF"

definition page_aligned :: "u32 \<Rightarrow> bool" where
  "page_aligned a \<longleftrightarrow> unat a mod 4096 = 0"

subsection \<open>The direct map\<close>

lemma P2V_V2P [simp]: "P2V (V2P a) = a" by (simp add: P2V_def V2P_def)
lemma V2P_P2V [simp]: "V2P (P2V a) = a" by (simp add: P2V_def V2P_def)

lemma P2V_eq_iff [simp]: "P2V a = P2V b \<longleftrightarrow> a = b" by (simp add: P2V_def)
lemma V2P_eq_iff [simp]: "V2P a = V2P b \<longleftrightarrow> a = b" by (simp add: V2P_def)

subsection \<open>Masks as arithmetic\<close>

lemma unat_less_32: "unat (a :: u32) < 4294967296"
  using unsigned_less [of a] by simp

lemma unat_add_32:
  "unat (a :: u32) + unat b < 4294967296 \<Longrightarrow> unat (a + b) = unat a + unat b"
  by (simp add: unat_word_ariths)

lemma mask_10: "(0x3FF :: u32) = mask 10" by (simp add: mask_eq_exp_minus_1)
lemma mask_12: "(0xFFF :: u32) = mask 12" by (simp add: mask_eq_exp_minus_1)

lemma word_mask_split: "(w :: 'a::len word) AND NOT m = w - (w AND m)"
proof -
  have "(w AND NOT m) + (w AND m) = (w AND NOT m) OR (w AND m)"
    by (rule disjunctive_add) (auto simp: bit_simps)
  also have "\<dots> = w" by (rule bit_word_eqI) (auto simp: bit_simps)
  finally show ?thesis by (simp add: algebra_simps)
qed

lemma unat_low12: "unat (w AND 0xFFF :: u32) = unat w mod 4096"
  unfolding mask_12
  by (simp add: take_bit_eq_mask [symmetric] unsigned_take_bit_eq take_bit_nat_def)

lemma high20: "(w :: u32) AND - 4096 = w - (w AND 0xFFF)"
  using word_mask_split [of w "0xFFF"] by simp

lemma unat_high20: "unat (w AND - 4096 :: u32) = unat w div 4096 * 4096"
  unfolding high20
  by (subst unat_sub) (auto simp: unat_low12 word_le_nat_alt minus_mod_eq_div_mult)

subsection \<open>Page rounding\<close>

lemma unat_PGROUNDDOWN: "unat (PGROUNDDOWN a) = unat a div 4096 * 4096"
  by (simp add: PGROUNDDOWN_def PGSIZE_def unat_high20)

lemma PGROUNDDOWN_aligned [simp]: "page_aligned (PGROUNDDOWN a)"
  by (simp add: page_aligned_def unat_PGROUNDDOWN)

lemma PGROUNDDOWN_le: "PGROUNDDOWN a \<le> a"
  by (simp add: word_le_nat_alt unat_PGROUNDDOWN)

lemma PGROUNDDOWN_id: "page_aligned a \<Longrightarrow> PGROUNDDOWN a = a"
  by (auto simp: word_unat_eq_iff unat_PGROUNDDOWN page_aligned_def)

lemma PGROUNDDOWN_offset: "unat (a - PGROUNDDOWN a) = unat a mod 4096"
  by (simp add: unat_sub PGROUNDDOWN_le unat_PGROUNDDOWN minus_div_mult_eq_mod)

lemma unat_PGROUNDUP:
  assumes "unat a \<le> 4294963200"
  shows "unat (PGROUNDUP a) = (unat a + 4095) div 4096 * 4096"
proof -
  have up: "PGROUNDUP a = PGROUNDDOWN (a + 4095)"
    by (simp add: PGROUNDUP_def PGROUNDDOWN_def PGSIZE_def add.commute)
  have "unat (a + 4095) = unat a + 4095"
    using assms by (subst unat_add_32) simp_all
  then show ?thesis by (simp add: up unat_PGROUNDDOWN)
qed

lemma PGROUNDUP_aligned [simp]: "page_aligned (PGROUNDUP a)"
proof -
  have "PGROUNDUP a = PGROUNDDOWN (a + 4095)"
    by (simp add: PGROUNDUP_def PGROUNDDOWN_def PGSIZE_def add.commute)
  then show ?thesis by simp
qed

subsection \<open>The two-level page index\<close>

lemma unat_PDX: "unat (PDX va) = unat va div 4194304"
  using unat_less_32 [of va]
  by (simp add: PDX_def mask_10 take_bit_eq_mask [symmetric] unsigned_take_bit_eq
      take_bit_nat_def unsigned_drop_bit_eq drop_bit_nat_def)

lemma unat_PTX: "unat (PTX va) = unat va div 4096 mod 1024"
  using unat_less_32 [of va]
  by (simp add: PTX_def mask_10 take_bit_eq_mask [symmetric] unsigned_take_bit_eq
      take_bit_nat_def unsigned_drop_bit_eq drop_bit_nat_def)

lemma PDX_less: "unat (PDX va) < 1024"
  using unat_less_32 [of va] by (simp add: unat_PDX)

lemma PTX_less: "unat (PTX va) < 1024" by (simp add: unat_PTX)

lemma PGADDR_split: "PGADDR (PDX va) (PTX va) (va AND 0xFFF) = va"
proof (rule bit_word_eqI)
  fix n assume "n < LENGTH(32)"
  then show "bit (PGADDR (PDX va) (PTX va) (va AND 0xFFF)) n = bit va n"
    by (cases "n < 12"; cases "n < 22")
      (auto simp: PGADDR_def PDX_def PTX_def mask_10 mask_12 bit_simps not_less)
qed

lemma same_page_iff:
  "PDX a = PDX b \<and> PTX a = PTX b \<longleftrightarrow> unat a div 4096 = unat b div 4096"
proof
  assume "PDX a = PDX b \<and> PTX a = PTX b"
  then have "unat a div 4096 div 1024 = unat b div 4096 div 1024"
    and "unat a div 4096 mod 1024 = unat b div 4096 mod 1024"
    by (simp_all add: unat_PDX unat_PTX word_unat_eq_iff div_mult2_eq [symmetric])
  then show "unat a div 4096 = unat b div 4096"
    by (metis div_mult_mod_eq)
next
  assume eq: "unat a div 4096 = unat b div 4096"
  then have "unat a div 4096 div 1024 = unat b div 4096 div 1024" by simp
  then have "unat a div 4194304 = unat b div 4194304" by (simp add: div_mult2_eq [symmetric])
  with eq show "PDX a = PDX b \<and> PTX a = PTX b"
    by (simp add: word_unat_eq_iff unat_PDX unat_PTX)
qed

lemma PGROUNDDOWN_same_index [simp]:
  "PDX (PGROUNDDOWN a) = PDX a" "PTX (PGROUNDDOWN a) = PTX a"
proof -
  have "PDX (PGROUNDDOWN a) = PDX a \<and> PTX (PGROUNDDOWN a) = PTX a"
    by (subst same_page_iff) (simp add: unat_PGROUNDDOWN)
  then show "PDX (PGROUNDDOWN a) = PDX a" "PTX (PGROUNDDOWN a) = PTX a" by auto
qed

subsection \<open>Page table entries\<close>

lemma PTE_split: "PTE_ADDR pte OR PTE_FLAGS pte = pte"
  by (rule bit_word_eqI) (auto simp: PTE_ADDR_def PTE_FLAGS_def bit_simps)

lemma PTE_ADDR_aligned [simp]: "page_aligned (PTE_ADDR pte)"
  by (simp add: PTE_ADDR_def page_aligned_def unat_high20)

text \<open>A page-aligned address has no bit in the flag positions.\<close>

lemma page_aligned_low0: "page_aligned a \<longleftrightarrow> a AND 0xFFF = 0"
  by (simp add: page_aligned_def word_unat_eq_iff unat_low12)

lemma page_aligned_bits: "page_aligned a \<Longrightarrow> n < 12 \<Longrightarrow> \<not> bit a n"
proof -
  assume "page_aligned a" "n < 12"
  then have "\<not> bit (a AND 0xFFF) n" by (simp add: page_aligned_low0)
  with \<open>n < 12\<close> show ?thesis by (simp add: mask_12 bit_simps)
qed

lemma PTE_ADDR_make:
  "page_aligned pa \<Longrightarrow> f AND NOT 0xFFF = 0 \<Longrightarrow> PTE_ADDR (pa OR f) = pa"
proof -
  assume al: "page_aligned pa" and f: "f AND NOT 0xFFF = 0"
  have "PTE_ADDR (pa OR f) = (pa AND NOT 0xFFF) OR (f AND NOT 0xFFF)"
    by (simp add: PTE_ADDR_def bit.conj_disj_distrib2)
  also have "pa AND NOT 0xFFF = pa" using al by (simp add: high20 page_aligned_low0)
  finally show ?thesis using f by simp
qed

lemma PTE_FLAGS_make:
  "page_aligned pa \<Longrightarrow> f AND NOT 0xFFF = 0 \<Longrightarrow> PTE_FLAGS (pa OR f) = f"
proof -
  assume al: "page_aligned pa" and f: "f AND NOT 0xFFF = 0"
  have "f AND 0xFFF = f" using f by (simp add: high20)
  then show ?thesis using al
    by (simp add: PTE_FLAGS_def bit.conj_disj_distrib2 page_aligned_low0)
qed

subsection \<open>Addresses inside a page\<close>

lemma page_aligned_top: "page_aligned v \<Longrightarrow> unat v \<le> 4294963200"
proof -
  assume "page_aligned v"
  then obtain q where q: "unat v = 4096 * q" by (auto simp: page_aligned_def elim: dvdE)
  with unat_less_32 [of v] have "q < 1048576" by simp
  with q show ?thesis by simp
qed

lemma unat_page_offset:
  assumes "page_aligned v" "k < 4096"
  shows "unat (v + of_nat k) = unat v + k"
  using page_aligned_top [OF assms(1)] assms(2) by (simp add: unat_add_32 unat_of_nat)

lemma in_page_iff:
  assumes "page_aligned v"
  shows "unat (a - v) < 4096 \<longleftrightarrow> PGROUNDDOWN a = v"
proof
  assume off: "unat (a - v) < 4096"
  have "unat a = unat (v + of_nat (unat (a - v)))" by (simp add: of_nat_unat)
  also have "\<dots> = unat v + unat (a - v)" using assms off by (rule unat_page_offset)
  finally show "PGROUNDDOWN a = v"
    using assms off by (auto simp: word_unat_eq_iff unat_PGROUNDDOWN page_aligned_def)
next
  assume "PGROUNDDOWN a = v"
  then show "unat (a - v) < 4096" using PGROUNDDOWN_offset [of a] by simp
qed

lemma page_next:
  assumes "page_aligned v" "unat v < 4294963200"
  shows "unat (v + 4096) = unat v + 4096" "page_aligned (v + 4096)"
proof -
  show u: "unat (v + 4096) = unat v + 4096" using assms(2) by (simp add: unat_add_32)
  show "page_aligned (v + 4096)" using assms(1) by (simp add: page_aligned_def u)
qed

end
