(* ===== verification/Cstring.thy ===== *)
theory Cstring
  imports Layout
begin

text \<open>
  Byte-addressed memory and the routines of \<^verbatim>\<open>string.c\<close>.
  Memory is a total map from 32-bit addresses to bytes and addresses wrap.
  A routine that writes takes and returns the memory; a routine that only
  reads takes the bytes from its pointer on, as a function of the offset
  (\<open>bytes_at m a\<close> for a pointer into memory, \<open>nth buf\<close> for one into a buffer).
\<close>

unbundle bit_operations_syntax

type_synonym mem = "u32 \<Rightarrow> u8"

definition bytes_at :: "mem \<Rightarrow> u32 \<Rightarrow> nat \<Rightarrow> u8" where
  "bytes_at m a i = m (a + of_nat i)"

definition load32 :: "mem \<Rightarrow> u32 \<Rightarrow> u32" where
  "load32 m a = ucast (m a) OR push_bit 8 (ucast (m (a + 1)))
     OR push_bit 16 (ucast (m (a + 2))) OR push_bit 24 (ucast (m (a + 3)))"

definition store32 :: "mem \<Rightarrow> u32 \<Rightarrow> u32 \<Rightarrow> mem" where
  "store32 m a v = m(a := ucast v, a + 1 := ucast (drop_bit 8 v),
     a + 2 := ucast (drop_bit 16 v), a + 3 := ucast (drop_bit 24 v))"

subsection \<open>The routines\<close>

text \<open>The string instructions \<^verbatim>\<open>rep stosb\<close> and \<^verbatim>\<open>rep stosl\<close> of x86.h.\<close>

fun stosb :: "mem \<Rightarrow> u32 \<Rightarrow> u8 \<Rightarrow> nat \<Rightarrow> mem" where
  "stosb m d c 0 = m"
| "stosb m d c (Suc n) = stosb (m(d := c)) (d + 1) c n"

fun stosl :: "mem \<Rightarrow> u32 \<Rightarrow> u32 \<Rightarrow> nat \<Rightarrow> mem" where
  "stosl m d v 0 = m"
| "stosl m d v (Suc n) = stosl (store32 m d v) (d + 4) v n"

definition memset :: "mem \<Rightarrow> u32 \<Rightarrow> u32 \<Rightarrow> u32 \<Rightarrow> mem" where
  "memset m dst c n =
     (if unat dst mod 4 = 0 \<and> unat n mod 4 = 0
      then let c = c AND 0xFF in
        stosl m dst (push_bit 24 c OR push_bit 16 c OR push_bit 8 c OR c) (unat n div 4)
      else stosb m dst (ucast c) (unat n))"

fun memcmp :: "(nat \<Rightarrow> u8) \<Rightarrow> (nat \<Rightarrow> u8) \<Rightarrow> nat \<Rightarrow> int" where
  "memcmp s1 s2 0 = 0"
| "memcmp s1 s2 (Suc n) =
     (if s1 0 \<noteq> s2 0 then uint (s1 0) - uint (s2 0)
      else memcmp (\<lambda>i. s1 (Suc i)) (\<lambda>i. s2 (Suc i)) n)"

fun copy_backward :: "mem \<Rightarrow> u32 \<Rightarrow> u32 \<Rightarrow> nat \<Rightarrow> mem" where
  "copy_backward m d s 0 = m"
| "copy_backward m d s (Suc n) = copy_backward (m(d - 1 := m (s - 1))) (d - 1) (s - 1) n"

fun copy_forward :: "mem \<Rightarrow> u32 \<Rightarrow> u32 \<Rightarrow> nat \<Rightarrow> mem" where
  "copy_forward m d s 0 = m"
| "copy_forward m d s (Suc n) = copy_forward (m(d := m s)) (d + 1) (s + 1) n"

definition memmove :: "mem \<Rightarrow> u32 \<Rightarrow> u32 \<Rightarrow> u32 \<Rightarrow> mem" where
  "memmove m dst src n =
     (if src < dst \<and> src + n > dst
      then copy_backward m (dst + n) (src + n) (unat n)
      else copy_forward m dst src (unat n))"

fun strncmp :: "(nat \<Rightarrow> u8) \<Rightarrow> (nat \<Rightarrow> u8) \<Rightarrow> nat \<Rightarrow> int" where
  "strncmp p q 0 = 0"
| "strncmp p q (Suc n) =
     (if p 0 \<noteq> 0 \<and> p 0 = q 0
      then strncmp (\<lambda>i. p (Suc i)) (\<lambda>i. q (Suc i)) n
      else uint (p 0) - uint (q 0))"

text \<open>
  \<^verbatim>\<open>strncpy\<close>: the first loop copies up to and including a NUL, the second
  pads with zeros.  Every iteration of either loop consumes one of \<open>n\<close>.
\<close>

fun strncpy :: "mem \<Rightarrow> u32 \<Rightarrow> u32 \<Rightarrow> nat \<Rightarrow> mem" where
  "strncpy m s t 0 = m"
| "strncpy m s t (Suc n) =
     (let c = m t; m = m(s := c) in
      if c \<noteq> 0 then strncpy m (s + 1) (t + 1) n else stosb m (s + 1) 0 n)"

text \<open>
  \<^verbatim>\<open>safestrcpy\<close>: \<^verbatim>\<open>while(--n > 0 && (*s++ = *t++) != 0); *s = 0\<close>.  When a
  NUL has been copied, \<^verbatim>\<open>s\<close> is one past it and the final store
  writes a second NUL there.
\<close>

fun safestrcpy_loop :: "mem \<Rightarrow> u32 \<Rightarrow> u32 \<Rightarrow> nat \<Rightarrow> mem" where
  "safestrcpy_loop m s t 0 = m(s := 0)"
| "safestrcpy_loop m s t (Suc n) =
     (let c = m t; m = m(s := c) in
      if c \<noteq> 0 then safestrcpy_loop m (s + 1) (t + 1) n else m(s + 1 := 0))"

definition safestrcpy :: "mem \<Rightarrow> u32 \<Rightarrow> u32 \<Rightarrow> int \<Rightarrow> mem" where
  "safestrcpy m s t n = (if n \<le> 0 then m else safestrcpy_loop m s t (nat (n - 1)))"

text \<open>\<^verbatim>\<open>strlen\<close> scans without a bound: \<open>None\<close> when there is no NUL to stop it.\<close>

partial_function (option) strlen_from :: "(nat \<Rightarrow> u8) \<Rightarrow> nat \<Rightarrow> nat option" where
  "strlen_from s n = (if s n \<noteq> 0 then strlen_from s (Suc n) else Some n)"

definition strlen :: "(nat \<Rightarrow> u8) \<Rightarrow> nat option" where
  "strlen s = strlen_from s 0"

subsection \<open>Words in memory\<close>

lemma load32_store32_same [simp]: "load32 (store32 m a v) a = v"
proof (rule bit_word_eqI)
  fix n assume "n < LENGTH(32)"
  then show "bit (load32 (store32 m a v) a) n = bit v n"
    by (cases "n < 8"; cases "n < 16"; cases "n < 24")
      (auto simp: load32_def store32_def bit_simps not_less)
qed

lemma store32_other:
  assumes "4 \<le> unat (b - a)"
  shows "store32 m a v b = m b"
proof -
  have "b \<noteq> a + of_nat k" if "k < 4" for k
  proof
    assume "b = a + of_nat k"
    then have "unat (b - a) = unat (of_nat k :: u32)" by simp
    also have "\<dots> = k" using that by (simp add: unat_of_nat)
    finally show False using assms that by simp
  qed
  from this [of 0] this [of 1] this [of 2] this [of 3] show ?thesis
    by (simp add: store32_def)
qed

subsection \<open>Filling memory\<close>

definition fill :: "mem \<Rightarrow> u32 \<Rightarrow> u8 \<Rightarrow> nat \<Rightarrow> mem" where
  "fill m d c n = (\<lambda>a. if unat (a - d) < n then c else m a)"

lemma unat_dec: "(x :: u32) \<noteq> 0 \<Longrightarrow> unat (x - 1) = unat x - 1"
  by (metis unat_minus_one)

lemma stosb_fill: "stosb m d c n = fill m d c n"
proof (induction n arbitrary: m d)
  case 0
  then show ?case by (simp add: fill_def)
next
  case (Suc n)
  have "stosb m d c (Suc n) = fill (m(d := c)) (d + 1) c n"
    unfolding stosb.simps by (rule Suc.IH)
  also have "\<dots> = fill m d c (Suc n)"
  proof
    fix a
    show "fill (m(d := c)) (d + 1) c n a = fill m d c (Suc n) a"
    proof (cases "a = d")
      case True
      then show ?thesis by (simp add: fill_def)
    next
      case False
      then have "a - d \<noteq> 0" by simp
      then have "unat (a - (d + 1)) = unat (a - d) - 1" "0 < unat (a - d)"
        using unat_dec [of "a - d"] by (simp_all add: diff_diff_eq unat_gt_0)
      with False show ?thesis by (auto simp: fill_def)
    qed
  qed
  finally show ?case .
qed

lemma byte_pattern_store32:
  fixes c :: u32
  assumes "v = push_bit 24 (c AND 0xFF) OR push_bit 16 (c AND 0xFF) OR push_bit 8 (c AND 0xFF) OR (c AND 0xFF)"
  shows "store32 m d v = stosb m d (ucast c) 4"
proof -
  have m8: "(0xFF :: u32) = mask 8" by (simp add: mask_eq_exp_minus_1)
  have b: "(ucast v :: u8) = ucast c" "(ucast (drop_bit 8 v) :: u8) = ucast c"
    "(ucast (drop_bit 16 v) :: u8) = ucast c" "(ucast (drop_bit 24 v) :: u8) = ucast c"
    unfolding assms m8 by (rule bit_word_eqI, auto simp: bit_simps)+
  have "stosb m d (ucast c) 4 = stosb m d (ucast c) (Suc (Suc (Suc (Suc 0))))"
    by (simp add: numeral_eq_Suc)
  then show ?thesis by (simp add: store32_def b add.assoc)
qed

lemma stosb_append: "stosb (stosb m d c k) (d + of_nat k) c n = stosb m d c (k + n)"
  by (induction k arbitrary: m d) (simp_all add: add.assoc [symmetric])

lemma stosl_stosb:
  fixes c :: u32
  assumes "v = push_bit 24 (c AND 0xFF) OR push_bit 16 (c AND 0xFF) OR push_bit 8 (c AND 0xFF) OR (c AND 0xFF)"
  shows "stosl m d v n = stosb m d (ucast c) (4 * n)"
proof (induction n arbitrary: m d)
  case 0
  then show ?case by simp
next
  case (Suc n)
  have "stosl m d v (Suc n) = stosb (stosb m d (ucast c) 4) (d + 4) (ucast c) (4 * n)"
    using byte_pattern_store32 [OF assms] by (simp add: Suc.IH)
  also have "\<dots> = stosb m d (ucast c) (4 + 4 * n)"
    using stosb_append [of m d "ucast c" 4 "4 * n"] by simp
  finally show ?case by simp
qed

lemma memset_fill [simp]: "memset m dst c n = fill m dst (ucast c) (unat n)"
proof (cases "unat dst mod 4 = 0 \<and> unat n mod 4 = 0")
  case True
  then have n4: "4 * (unat n div 4) = unat n" by auto
  have "memset m dst c n = stosb m dst (ucast c) (4 * (unat n div 4))"
    using True stosl_stosb [OF refl, of m dst c "unat n div 4"]
    by (simp add: memset_def Let_def)
  then show ?thesis by (simp add: n4 stosb_fill)
next
  case False
  then show ?thesis by (auto simp: memset_def stosb_fill)
qed

subsection \<open>Copying memory\<close>

definition copied :: "mem \<Rightarrow> u32 \<Rightarrow> u32 \<Rightarrow> nat \<Rightarrow> mem" where
  "copied m d s n = (\<lambda>a. if unat (a - d) < n then m (s + (a - d)) else m a)"

lemma unat_of_nat_32: "k < 2 ^ 32 \<Longrightarrow> unat (of_nat k :: u32) = k"
  by (simp add: unat_of_nat)

lemma copy_forward_copied:
  assumes "n \<le> 2 ^ 32"
    and "\<And>i j. i < j \<Longrightarrow> j < n \<Longrightarrow> s + of_nat j \<noteq> d + of_nat i"
  shows "copy_forward m d s n = copied m d s n"
  using assms
proof (induction n arbitrary: m d s)
  case 0
  then show ?case by (simp add: copied_def)
next
  case (Suc n)
  have keep: "s + 1 + of_nat j \<noteq> d + 1 + of_nat i" if "i < j" "j < n" for i j
    using Suc.prems(2) [of "Suc i" "Suc j"] that by (simp add: algebra_simps)
  have "copy_forward m d s (Suc n) = copied (m(d := m s)) (d + 1) (s + 1) n"
    unfolding copy_forward.simps by (rule Suc.IH) (use Suc.prems(1) keep in simp_all)
  also have "\<dots> = copied m d s (Suc n)"
  proof
    fix a
    show "copied (m(d := m s)) (d + 1) (s + 1) n a = copied m d s (Suc n) a"
    proof (cases "a = d")
      case True
      have "unat (- 1 :: u32) = 2 ^ 32 - 1" by (simp add: unsigned_minus_1_eq_mask mask_eq_exp_minus_1)
      then show ?thesis using True Suc.prems(1) by (simp add: copied_def)
    next
      case False
      then have nz: "a - d \<noteq> 0" by simp
      then have u: "unat (a - (d + 1)) = unat (a - d) - 1" "0 < unat (a - d)"
        using unat_dec [of "a - d"] by (simp_all add: diff_diff_eq unat_gt_0)
      have src: "s + (a - d) \<noteq> d" if "unat (a - d) < Suc n"
        using Suc.prems(2) [of 0 "unat (a - d)"] u(2) that by simp
      show ?thesis using False u src by (auto simp: copied_def algebra_simps)
    qed
  qed
  finally show ?case .
qed

lemma copy_backward_copied:
  assumes "n \<le> 2 ^ 32"
    and "\<And>i j. i < j \<Longrightarrow> j < n \<Longrightarrow> s + of_nat i \<noteq> d + of_nat j"
  shows "copy_backward m (d + of_nat n) (s + of_nat n) n = copied m d s n"
  using assms
proof (induction n arbitrary: m)
  case 0
  then show ?case by (simp add: copied_def)
next
  case (Suc n)
  let ?m = "m(d + of_nat n := m (s + of_nat n))"
  have "copy_backward m (d + of_nat (Suc n)) (s + of_nat (Suc n)) (Suc n) = copied ?m d s n"
  proof -
    have "copy_backward m (d + of_nat (Suc n)) (s + of_nat (Suc n)) (Suc n)
        = copy_backward ?m (d + of_nat n) (s + of_nat n) n"
      by (simp only: copy_backward.simps) (simp add: algebra_simps)
    also have "\<dots> = copied ?m d s n"
      by (rule Suc.IH) (use Suc.prems in simp_all)
    finally show ?thesis .
  qed
  also have "\<dots> = copied m d s (Suc n)"
  proof
    fix a
    have un: "unat (of_nat n :: u32) = n" using Suc.prems(1) by (simp add: unat_of_nat_32)
    have eq: "a = d + of_nat n \<longleftrightarrow> unat (a - d) = n"
      using un by (metis add_diff_cancel_left' diff_add_cancel add.commute word_unat_eq_iff)
    have src: "s + (a - d) \<noteq> d + of_nat n" if "unat (a - d) < n"
      using Suc.prems(2) [of "unat (a - d)" n] that by simp
    have at: "s + (a - d) = s + of_nat n" if "unat (a - d) = n"
      using that by (auto simp: of_nat_unat)
    show "copied ?m d s n a = copied m d s (Suc n) a"
      using eq src at by (auto simp: copied_def less_Suc_eq)
  qed
  finally show ?case .
qed

text \<open>Overlapping or not, \<^verbatim>\<open>memmove\<close> leaves at the destination what the source held before the call.\<close>

lemma memmove_copied:
  assumes "unat src + unat n < 2 ^ 32" and "unat dst + unat n < 2 ^ 32"
  shows "memmove m dst src n = copied m dst src (unat n)"
proof -
  have off: "unat (p + of_nat k) = unat p + k" if "k \<le> unat n" "unat p + unat n < 2 ^ 32" for p :: u32 and k
    using that by (simp add: unat_add_32 unat_of_nat_32)
  have n32: "unat n \<le> 2 ^ 32" using unat_less_32 [of n] by simp
  show ?thesis
  proof (cases "src < dst \<and> src + n > dst")
    case True
    have "src + of_nat i \<noteq> dst + of_nat j" if "i < j" "j < unat n" for i j
      using that True off [of i src] off [of j dst] assms by (auto simp: word_less_nat_alt)
    then have "copy_backward m (dst + of_nat (unat n)) (src + of_nat (unat n)) (unat n) = copied m dst src (unat n)"
      using n32 by (intro copy_backward_copied) auto
    with True show ?thesis by (simp add: memmove_def)
  next
    case False
    have "src + of_nat j \<noteq> dst + of_nat i" if "i < j" "j < unat n" for i j
    proof
      assume "src + of_nat j = dst + of_nat i"
      then have "unat src + j = unat dst + i"
        using that off [of j src] off [of i dst] assms by (metis less_imp_le less_trans)
      moreover have "unat (src + n) = unat src + unat n"
        using off [of "unat n" src] assms by simp
      ultimately show False using False that by (auto simp: word_less_nat_alt)
    qed
    then have "copy_forward m dst src (unat n) = copied m dst src (unat n)"
      using n32 by (intro copy_forward_copied) auto
    with False show ?thesis by (auto simp: memmove_def)
  qed
qed

end
