(* ===== verification/Kalloc.thy ===== *)
theory Kalloc
  imports Cstring
begin

text \<open>
  The physical page allocator, \<^verbatim>\<open>kalloc.c\<close>.  The free pages form a linked
  list threaded through their own first words, starting at
  \<^verbatim>\<open>kmem.freelist\<close>; the list lives in memory, exactly as in the source.
  \<open>kend\<close> is the linker symbol \<^verbatim>\<open>end\<close>, the first address after the
  kernel image.  The lock only serialises the two list operations, which are
  single steps here, so \<^verbatim>\<open>use_lock\<close> is kept as state but guards nothing.
\<close>

record kmem =
  kmem_mem :: mem
  use_lock :: bool
  freelist :: u32

definition kfree_ok :: "u32 \<Rightarrow> u32 \<Rightarrow> bool" where
  "kfree_ok kend v \<longleftrightarrow> \<not> (unat v mod unat PGSIZE \<noteq> 0 \<or> v < kend \<or> V2P v \<ge> PHYSTOP)"

definition kfree :: "u32 \<Rightarrow> kmem \<Rightarrow> u32 \<Rightarrow> kmem outcome" where
  "kfree kend k v =
     (if \<not> kfree_ok kend v then Panic ''kfree''
      else let m = memset (kmem_mem k) v 1 PGSIZE
           in Done (k\<lparr>kmem_mem := store32 m v (freelist k), freelist := v\<rparr>))"

definition kalloc :: "kmem \<Rightarrow> kmem \<times> u32" where
  "kalloc k =
     (let r = freelist k in
      if r \<noteq> 0 then (k\<lparr>freelist := load32 (kmem_mem k) r\<rparr>, r) else (k, 0))"

lemma kfree_Done_iff: "(\<exists>k'. kfree kend k v = Done k') \<longleftrightarrow> kfree_ok kend v"
  by (simp add: kfree_def Let_def)

subsection \<open>Well-formed page addresses\<close>

lemma kfree_okD:
  assumes "kfree_ok kend v"
  shows "page_aligned v" "kend \<le> v" "2147483648 \<le> unat v" "unat v < 2684354560" "v \<noteq> 0"
proof -
  show "page_aligned v" "kend \<le> v"
    using assms by (auto simp: kfree_ok_def PGSIZE_def page_aligned_def)
  have lt: "V2P v < PHYSTOP" using assms by (simp add: kfree_ok_def not_le)
  then have V: "unat (v - 0x80000000) < 536870912"
    by (simp add: V2P_def KERNBASE_def PHYSTOP_def word_less_nat_alt)
  have "0x80000000 \<le> v"
  proof (rule ccontr)
    assume "\<not> 0x80000000 \<le> v"
    then have "unat v < 2147483648" by (simp add: word_le_nat_alt not_le)
    then have "unat (v + 0x80000000) = unat v + 2147483648"
      using unat_add_32 [of v "0x80000000"] by simp
    moreover have "v - 0x80000000 = v + 0x80000000"
      by (simp only: diff_conv_add_uminus) simp
    ultimately have "unat (v - 0x80000000) = unat v + 2147483648" by metis
    with V show False by simp
  qed
  with V show "2147483648 \<le> unat v" "unat v < 2684354560"
    by (simp_all add: unat_sub word_le_nat_alt)
  then show "v \<noteq> 0" by auto
qed

lemma kfree_okI:
  assumes "page_aligned v" "kend \<le> v" "2147483648 \<le> unat v" "unat v < 2684354560"
  shows "kfree_ok kend v"
proof -
  have "0x80000000 \<le> v" using assms(3) by (simp add: word_le_nat_alt)
  then have "unat (v - 0x80000000) = unat v - 2147483648" by (simp add: unat_sub)
  then have "V2P v < PHYSTOP"
    using assms(4) by (simp add: V2P_def KERNBASE_def PHYSTOP_def word_less_nat_alt)
  then show ?thesis
    using assms(1,2) by (simp add: kfree_ok_def PGSIZE_def page_aligned_def not_le not_less)
qed

subsection \<open>Initialisation\<close>

text \<open>
  The loop of \<^verbatim>\<open>freerange\<close> stops because \<^verbatim>\<open>kfree\<close> panics on every page
  above physical memory, long before the address could wrap around.
\<close>

function freerange_loop :: "u32 \<Rightarrow> kmem \<Rightarrow> u32 \<Rightarrow> u32 \<Rightarrow> kmem outcome" where
  "freerange_loop kend k p vend =
     (if p + PGSIZE \<le> vend
      then and_then (kfree kend k p) (\<lambda>k'. freerange_loop kend k' (p + PGSIZE) vend)
      else Done k)"
  by pat_completeness auto
termination
proof (relation "measure (\<lambda>(kend, k, p, vend). 4294967296 - unat p)")
  show "wf (measure (\<lambda>(kend :: u32, k :: kmem, p :: u32, vend :: u32). 4294967296 - unat p))"
    by simp
next
  fix kend k p vend k'
  assume "kfree kend k p = Done k'"
  then have ok: "kfree_ok kend p" using kfree_Done_iff by blast
  then have "unat (p + PGSIZE) = unat p + 4096"
    using page_next(1) [of p] kfree_okD [OF ok] by (simp add: PGSIZE_def)
  then show "((kend, k', p + PGSIZE, vend), kend, k, p, vend)
      \<in> measure (\<lambda>(kend, k, p, vend). 4294967296 - unat p)"
    using kfree_okD(4) [OF ok] by simp
qed

declare freerange_loop.simps [simp del]

definition freerange :: "u32 \<Rightarrow> kmem \<Rightarrow> u32 \<Rightarrow> u32 \<Rightarrow> kmem outcome" where
  "freerange kend k vstart vend = freerange_loop kend k (PGROUNDUP vstart) vend"

definition kinit1 :: "u32 \<Rightarrow> kmem \<Rightarrow> u32 \<Rightarrow> u32 \<Rightarrow> kmem outcome" where
  "kinit1 kend k vstart vend = freerange kend (k\<lparr>use_lock := False\<rparr>) vstart vend"

definition kinit2 :: "u32 \<Rightarrow> kmem \<Rightarrow> u32 \<Rightarrow> u32 \<Rightarrow> kmem outcome" where
  "kinit2 kend k vstart vend =
     and_then (freerange kend k vstart vend) (\<lambda>k'. Done (k'\<lparr>use_lock := True\<rparr>))"

subsection \<open>The free list\<close>

fun list_at :: "mem \<Rightarrow> u32 \<Rightarrow> u32 list \<Rightarrow> bool" where
  "list_at m p [] \<longleftrightarrow> p = 0"
| "list_at m p (q # qs) \<longleftrightarrow> p = q \<and> q \<noteq> 0 \<and> list_at m (load32 m q) qs"

definition kmem_rep :: "u32 \<Rightarrow> kmem \<Rightarrow> u32 list \<Rightarrow> bool" where
  "kmem_rep kend k ps \<longleftrightarrow>
     list_at (kmem_mem k) (freelist k) ps \<and> distinct ps \<and> (\<forall>p\<in>set ps. kfree_ok kend p)"

text \<open>The list only depends on the bytes of its own pages.\<close>

lemma load32_page_cong:
  assumes "page_aligned p" "\<And>a. PGROUNDDOWN a = p \<Longrightarrow> m' a = m a"
  shows "load32 m' p = load32 m p"
proof -
  have "m' (p + of_nat k) = m (p + of_nat k)" if "k < 4096" for k
    using that assms unat_page_offset [OF assms(1) that]
    by (intro assms(2)) (simp add: in_page_iff [symmetric] unat_of_nat)
  from this [of 0] this [of 1] this [of 2] this [of 3] show ?thesis
    by (simp add: load32_def)
qed

lemma list_at_cong:
  assumes "\<And>p. p \<in> set ps \<Longrightarrow> page_aligned p"
    and "\<And>a. PGROUNDDOWN a \<in> set ps \<Longrightarrow> m' a = m a"
  shows "list_at m' r ps = list_at m r ps"
  using assms
proof (induction ps arbitrary: r)
  case Nil
  then show ?case by simp
next
  case (Cons q qs)
  have "load32 m' q = load32 m q" using Cons.prems by (intro load32_page_cong) auto
  then show ?case using Cons.IH [of "load32 m q"] Cons.prems by auto
qed

lemma kmem_rep_frame:
  assumes "kmem_rep kend k ps" "\<And>a. PGROUNDDOWN a \<in> set ps \<Longrightarrow> m a = kmem_mem k a"
  shows "kmem_rep kend (k\<lparr>kmem_mem := m\<rparr>) ps"
proof -
  have "list_at m (freelist k) ps = list_at (kmem_mem k) (freelist k) ps"
    by (rule list_at_cong) (use assms(1) kfree_okD(1) in \<open>auto simp: kmem_rep_def assms(2)\<close>)
  with assms(1) show ?thesis by (simp add: kmem_rep_def)
qed

lemma kfree_mem:
  assumes "kfree kend k v = Done k'" "PGROUNDDOWN a \<noteq> v"
  shows "kmem_mem k' a = kmem_mem k a"
proof -
  have ok: "kfree_ok kend v" and
    k': "kmem_mem k' = store32 (fill (kmem_mem k) v 1 4096) v (freelist k)"
    using assms(1) by (auto simp: kfree_def Let_def PGSIZE_def split: if_splits)
  have off: "4096 \<le> unat (a - v)"
    using in_page_iff [OF kfree_okD(1) [OF ok], of a] assms(2) by simp
  then show ?thesis by (simp add: k' store32_other fill_def)
qed

lemma kfree_rep:
  assumes rep: "kmem_rep kend k ps" and "kfree_ok kend v" and new: "v \<notin> set ps"
  shows "\<exists>k'. kfree kend k v = Done k' \<and> kmem_rep kend k' (v # ps)"
proof -
  from \<open>kfree_ok kend v\<close> obtain k' where k': "kfree kend k v = Done k'"
    using kfree_Done_iff by blast
  have fl: "freelist k' = v" "load32 (kmem_mem k') v = freelist k"
    using k' by (auto simp: kfree_def Let_def split: if_splits)
  have "list_at (kmem_mem k') (freelist k) ps = list_at (kmem_mem k) (freelist k) ps"
  proof (rule list_at_cong)
    show "page_aligned p" if "p \<in> set ps" for p
      using rep that by (auto simp: kmem_rep_def dest: kfree_okD(1))
    show "kmem_mem k' a = kmem_mem k a" if "PGROUNDDOWN a \<in> set ps" for a
      using new that by (intro kfree_mem [OF k']) auto
  qed
  then have "kmem_rep kend k' (v # ps)"
    using rep new fl kfree_okD(5) [OF \<open>kfree_ok kend v\<close>] \<open>kfree_ok kend v\<close>
    by (simp add: kmem_rep_def)
  with k' show ?thesis by blast
qed

lemma kalloc_rep:
  assumes "kmem_rep kend k ps"
  shows "ps = [] \<Longrightarrow> kalloc k = (k, 0)"
    and "ps = p # qs \<Longrightarrow> snd (kalloc k) = p \<and> p \<noteq> 0 \<and> kmem_rep kend (fst (kalloc k)) qs"
proof -
  show "kalloc k = (k, 0)" if "ps = []"
    using assms that by (simp add: kmem_rep_def kalloc_def)
  show "snd (kalloc k) = p \<and> p \<noteq> 0 \<and> kmem_rep kend (fst (kalloc k)) qs" if "ps = p # qs"
    using assms that by (simp add: kmem_rep_def kalloc_def)
qed

lemma kalloc_mem [simp]: "kmem_mem (fst (kalloc k)) = kmem_mem k"
  by (simp add: kalloc_def Let_def)

lemma kmem_rep_use_lock [simp]: "kmem_rep kend (k\<lparr>use_lock := b\<rparr>) ps = kmem_rep kend k ps"
  by (simp add: kmem_rep_def)

definition whole_pages :: "u32 \<Rightarrow> u32 \<Rightarrow> u32 set" where
  "whole_pages p vend = {v. page_aligned v \<and> p \<le> v \<and> unat v + 4096 \<le> unat vend}"

lemma whole_pages_step:
  assumes "page_aligned p" "unat p + 4096 \<le> unat vend" "unat p < 2684354560"
  shows "whole_pages p vend = insert p (whole_pages (p + 4096) vend)" "p \<notin> whole_pages (p + 4096) vend"
proof -
  have u: "unat (p + 4096) = unat p + 4096" using page_next [of p] assms by simp
  have gap: "unat p + 4096 \<le> unat v" if "page_aligned v" "p < v" for v
  proof -
    obtain i j where ij: "unat v = 4096 * i" "unat p = 4096 * j"
      using \<open>page_aligned v\<close> assms(1) by (auto simp: page_aligned_def elim!: dvdE)
    with \<open>p < v\<close> have "Suc j \<le> i" by (simp add: word_less_nat_alt)
    then have "4096 * Suc j \<le> 4096 * i" by (rule mult_le_mono2)
    with ij show ?thesis by simp
  qed
  have "p \<le> v \<longleftrightarrow> v = p \<or> p + 4096 \<le> v" if "page_aligned v" for v
    using gap [OF that] u
    by (cases "unat p" "unat v" rule: linorder_cases)
      (auto simp: word_le_nat_alt word_less_nat_alt word_unat_eq_iff)
  then show "whole_pages p vend = insert p (whole_pages (p + 4096) vend)"
    using assms by (auto simp: whole_pages_def)
  show "p \<notin> whole_pages (p + 4096) vend" using u by (simp add: whole_pages_def word_le_nat_alt)
qed

lemma freerange_loop_rep:
  assumes "kmem_rep kend k ps" "page_aligned p" "kend \<le> p" "2147483648 \<le> unat p"
    and "unat vend \<le> 2684354560" "unat p \<le> 2684354560" "set ps \<inter> whole_pages p vend = {}"
  shows "\<exists>k' qs. freerange_loop kend k p vend = Done k' \<and> kmem_rep kend k' (qs @ ps)
           \<and> set qs = whole_pages p vend"
  using assms
proof (induction kend k p vend arbitrary: ps rule: freerange_loop.induct)
  case (1 kend k p vend)
  have u: "unat (p + PGSIZE) = unat p + 4096"
    using page_next [of p] "1.prems" by (simp add: PGSIZE_def)
  show ?case
  proof (cases "p + PGSIZE \<le> vend")
    case True
    then have le: "unat p + 4096 \<le> unat vend" using u by (simp add: word_le_nat_alt)
    have ok: "kfree_ok kend p" using "1.prems" le by (intro kfree_okI) simp_all
    note ws = whole_pages_step [OF \<open>page_aligned p\<close> le kfree_okD(4) [OF ok]]
    have "p \<notin> set ps" using "1.prems"(7) ws by auto
    then obtain k1 where k1: "kfree kend k p = Done k1" "kmem_rep kend k1 (p # ps)"
      using kfree_rep [OF "1.prems"(1) ok] by blast
    have "\<exists>k' qs. freerange_loop kend k1 (p + PGSIZE) vend = Done k'
        \<and> kmem_rep kend k' (qs @ p # ps) \<and> set qs = whole_pages (p + PGSIZE) vend"
    proof (rule "1.IH" [OF True k1])
      show "page_aligned (p + PGSIZE)"
        using page_next(2) [of p] "1.prems" kfree_okD(4) [OF ok] by (simp add: PGSIZE_def)
      show "kend \<le> p + PGSIZE" using "1.prems"(3) u by (simp add: word_le_nat_alt)
      show "set (p # ps) \<inter> whole_pages (p + PGSIZE) vend = {}"
        using "1.prems"(7) ws by (auto simp: PGSIZE_def)
    qed (use "1.prems" u le in simp_all)
    then obtain k' qs where k': "freerange_loop kend k1 (p + PGSIZE) vend = Done k'"
        "kmem_rep kend k' (qs @ p # ps)" "set qs = whole_pages (p + PGSIZE) vend" by blast
    have "freerange_loop kend k p vend = Done k'"
      using True k1(1) k'(1) by (subst freerange_loop.simps) simp
    moreover have "kmem_rep kend k' ((qs @ [p]) @ ps)" "set (qs @ [p]) = whole_pages p vend"
      using k' ws by (simp_all add: PGSIZE_def)
    ultimately show ?thesis by blast
  next
    case False
    then have "whole_pages p vend = {}"
      using u by (auto simp: whole_pages_def word_le_nat_alt)
    with False "1.prems"(1) show ?thesis
      by (subst freerange_loop.simps) (auto intro!: exI [of _ k] exI [of _ "[]"])
  qed
qed

lemma freerange_rep:
  assumes "kmem_rep kend k ps" "kend \<le> vstart" "2147483648 \<le> unat vstart"
    and "unat vstart \<le> 2684354560" "unat vend \<le> 2684354560"
    and "set ps \<inter> whole_pages vstart vend = {}"
  shows "\<exists>k' qs. freerange kend k vstart vend = Done k' \<and> kmem_rep kend k' (qs @ ps)
           \<and> set qs = whole_pages vstart vend"
proof -
  have up: "unat (PGROUNDUP vstart) = (unat vstart + 4095) div 4096 * 4096"
    using assms(4) by (intro unat_PGROUNDUP) simp
  have "(unat vstart + 4095) div 4096 \<le> (2684354560 + 4095) div 4096"
    using assms(4) by (intro div_le_mono) simp
  then have "(unat vstart + 4095) div 4096 \<le> 655360" by simp
  with up have bounds: "unat vstart \<le> unat (PGROUNDUP vstart)" "unat (PGROUNDUP vstart) \<le> 2684354560"
    by linarith+
  have least: "PGROUNDUP vstart \<le> v \<longleftrightarrow> vstart \<le> v" if v: "page_aligned v" for v
  proof -
    obtain i where "unat v = 4096 * i" using v by (auto simp: page_aligned_def elim!: dvdE)
    then show ?thesis using bounds up by (auto simp: word_le_nat_alt)
  qed
  then have ws: "whole_pages (PGROUNDUP vstart) vend = whole_pages vstart vend"
    by (auto simp: whole_pages_def)
  have "kend \<le> PGROUNDUP vstart" using assms(2) bounds by (simp add: word_le_nat_alt)
  then show ?thesis
    unfolding freerange_def ws [symmetric]
    by (intro freerange_loop_rep) (use assms bounds ws in auto)
qed

subsection \<open>The allocator as an interface\<close>

text \<open>
  What the rest of the kernel relies on: pages handed out are valid and no
  longer free, freeing puts them back, neither call touches the bytes of any
  other page, and writing to pages that are not free leaves the allocator
  alone.
\<close>

locale page_allocator =
  fixes rep :: "'s \<Rightarrow> u32 list \<Rightarrow> bool"
    and alloc :: "'s \<Rightarrow> 's \<times> u32"
    and free :: "'s \<Rightarrow> u32 \<Rightarrow> 's outcome"
    and ok :: "u32 \<Rightarrow> bool"
    and bytes :: "'s \<Rightarrow> mem"
    and set_bytes :: "'s \<Rightarrow> mem \<Rightarrow> 's"
  assumes alloc_empty: "rep s [] \<Longrightarrow> alloc s = (s, 0)"
    and alloc_cons: "rep s (p # ps) \<Longrightarrow> snd (alloc s) = p \<and> rep (fst (alloc s)) ps"
    and alloc_bytes: "bytes (fst (alloc s)) = bytes s"
    and free_ok: "rep s ps \<Longrightarrow> ok p \<Longrightarrow> p \<notin> set ps \<Longrightarrow> \<exists>s'. free s p = Done s' \<and> rep s' (p # ps)"
    and free_bytes: "free s p = Done s' \<Longrightarrow> PGROUNDDOWN a \<noteq> p \<Longrightarrow> bytes s' a = bytes s a"
    and rep_pages: "rep s ps \<Longrightarrow> distinct ps \<and> 0 \<notin> set ps \<and> (\<forall>p\<in>set ps. ok p)"
    and rep_frame: "rep s ps \<Longrightarrow> (\<And>a. PGROUNDDOWN a \<in> set ps \<Longrightarrow> m a = bytes s a) \<Longrightarrow> rep (set_bytes s m) ps"

text \<open>\<open>alloc_many\<close> calls an allocator repeatedly; \<open>free_many\<close> gives pages back.\<close>

primrec alloc_many :: "('s \<Rightarrow> 's \<times> u32) \<Rightarrow> nat \<Rightarrow> 's \<Rightarrow> 's \<times> u32 list" where
  "alloc_many al 0 s = (s, [])"
| "alloc_many al (Suc n) s =
     (let (s1, p) = al s; (s2, ps) = alloc_many al n s1 in (s2, p # ps))"

primrec free_many :: "('s \<Rightarrow> u32 \<Rightarrow> 's outcome) \<Rightarrow> 's \<Rightarrow> u32 list \<Rightarrow> 's outcome" where
  "free_many fr s [] = Done s"
| "free_many fr s (p # ps) = and_then (fr s p) (\<lambda>s'. free_many fr s' ps)"

context page_allocator
begin

lemma alloc_some:
  assumes "rep s ps" "snd (alloc s) \<noteq> 0"
  obtains p qs where "ps = p # qs" "alloc s = (fst (alloc s), p)" "rep (fst (alloc s)) qs" "ok p" "p \<notin> set qs"
proof (cases ps)
  case Nil
  then show ?thesis using assms alloc_empty by auto
next
  case (Cons p qs)
  then show ?thesis
    using assms alloc_cons [of s p qs] rep_pages [of s ps] that [of p qs]
    by (metis distinct.simps(2) list.set_intros(1) prod.collapse)
qed

lemma alloc_none:
  assumes "rep s ps" "snd (alloc s) = 0"
  shows "ps = []" "fst (alloc s) = s"
proof -
  show *: "ps = []"
    using assms alloc_cons [of s] rep_pages [of s ps] by (cases ps) auto
  with assms show "fst (alloc s) = s" by (simp add: alloc_empty)
qed

lemma alloc_all:
  "rep s ps \<Longrightarrow> snd (alloc_many alloc (length ps + n) s) = ps @ replicate n 0"
proof (induction ps arbitrary: s)
  case Nil
  then have "alloc s = (s, 0)" by (rule alloc_empty)
  then show ?case by (induction n) (simp_all add: split_beta)
next
  case (Cons p ps)
  then show ?case using alloc_cons [of s p ps] by (simp add: split_beta)
qed

lemma alloc_many_bytes: "bytes (fst (alloc_many alloc n s)) = bytes s"
  by (induction n arbitrary: s) (simp_all add: split_beta alloc_bytes)

lemma free_many_bytes:
  "free_many free s qs = Done s' \<Longrightarrow> PGROUNDDOWN a \<notin> set qs \<Longrightarrow> bytes s' a = bytes s a"
  by (induction qs arbitrary: s) (auto simp: outcome_simps free_bytes)

lemma alloc_prefix:
  "rep s (ps @ qs) \<Longrightarrow> snd (alloc_many alloc (length ps) s) = ps"
proof (induction ps arbitrary: s)
  case Nil
  then show ?case by simp
next
  case (Cons p ps)
  then show ?case using alloc_cons [of s p "ps @ qs"] by (simp add: split_beta)
qed

lemma free_then_alloc:
  assumes "rep s ps" "set qs \<inter> set ps = {}" "distinct qs" "\<forall>q\<in>set qs. ok q"
  shows "\<exists>s'. free_many free s qs = Done s' \<and> rep s' (rev qs @ ps)"
  using assms
proof (induction qs arbitrary: s ps)
  case Nil
  then show ?case by simp
next
  case (Cons q qs)
  then obtain s1 where s1: "free s q = Done s1" "rep s1 (q # ps)"
    using free_ok [of s ps q] by auto
  then show ?case using Cons.IH [of s1 "q # ps"] Cons.prems by auto
qed

end

interpretation kmem: page_allocator "kmem_rep kend" kalloc "kfree kend" "kfree_ok kend"
  kmem_mem "\<lambda>k m. k\<lparr>kmem_mem := m\<rparr>" for kend
proof
  fix s ps p m
  show "kmem_rep kend s [] \<Longrightarrow> kalloc s = (s, 0)" by (rule kalloc_rep(1)) simp_all
  show "kmem_rep kend s (p # ps) \<Longrightarrow> snd (kalloc s) = p \<and> kmem_rep kend (fst (kalloc s)) ps"
    using kalloc_rep(2) by blast
  show "kmem_rep kend s ps \<Longrightarrow> kfree_ok kend p \<Longrightarrow> p \<notin> set ps
      \<Longrightarrow> \<exists>s'. kfree kend s p = Done s' \<and> kmem_rep kend s' (p # ps)"
    by (rule kfree_rep)
  show "kmem_rep kend s ps \<Longrightarrow> distinct ps \<and> 0 \<notin> set ps \<and> (\<forall>p\<in>set ps. kfree_ok kend p)"
    using kfree_okD(5) by (auto simp: kmem_rep_def)
  show "kmem_rep kend s ps \<Longrightarrow> (\<And>a. PGROUNDDOWN a \<in> set ps \<Longrightarrow> m a = kmem_mem s a)
      \<Longrightarrow> kmem_rep kend (s\<lparr>kmem_mem := m\<rparr>) ps"
    by (rule kmem_rep_frame)
qed (simp_all add: kfree_mem)

subsection \<open>Properties\<close>

text \<open>
  C11: \<^verbatim>\<open>kalloc\<close> hands out every free page exactly once: from a free list
  \<open>ps\<close>, any number of calls returns the pages of \<open>ps\<close> in list order, all of
  them distinct, and then 0 for ever.  No byte of memory is touched.
\<close>

theorem kalloc_each_page_once:
  assumes "kmem_rep kend k ps"
  shows "snd (alloc_many kalloc (length ps + n) k) = ps @ replicate n 0
    \<and> distinct ps \<and> 0 \<notin> set ps
    \<and> kmem_mem (fst (alloc_many kalloc (length ps + n) k)) = kmem_mem k"
  using kmem.alloc_all [OF assms] kmem.rep_pages [OF assms] kmem.alloc_many_bytes by blast

theorem kalloc_each_page_once_witness:
  "snd (alloc_many kalloc 3 \<lparr>kmem_mem = (\<lambda>_. 0), use_lock = True, freelist = 0x80400000\<rparr>)
     = [0x80400000, 0, 0]"
proof -
  have "kmem_rep 0x80100000 \<lparr>kmem_mem = (\<lambda>_. 0), use_lock = True, freelist = 0x80400000\<rparr> [0x80400000]"
    by (simp add: kmem_rep_def load32_def kfree_ok_def PGSIZE_def V2P_def KERNBASE_def PHYSTOP_def)
  from kalloc_each_page_once [OF this, of 2] show ?thesis by (simp add: numeral_eq_Suc)
qed

text \<open>
  C12: Freeing pages that are not already free never panics, and allocating
  again returns them, last freed first, before any other page; the bytes of
  every page that was not freed are unchanged.
\<close>

theorem kfree_kalloc_round_trip:
  assumes "kmem_rep kend k ps" "distinct qs" "set qs \<inter> set ps = {}" "\<forall>q\<in>set qs. kfree_ok kend q"
  shows "\<exists>k'. free_many (kfree kend) k qs = Done k' \<and> kmem_rep kend k' (rev qs @ ps)
    \<and> snd (alloc_many kalloc (length qs) k') = rev qs
    \<and> (\<forall>a. PGROUNDDOWN a \<notin> set qs \<longrightarrow> kmem_mem k' a = kmem_mem k a)"
proof -
  obtain k' where k': "free_many (kfree kend) k qs = Done k'" "kmem_rep kend k' (rev qs @ ps)"
    using kmem.free_then_alloc [OF assms(1,3,2,4)] by blast
  then have "snd (alloc_many kalloc (length qs) k') = rev qs"
    using kmem.alloc_prefix [of kend k' "rev qs" ps] by simp
  with k' kmem.free_many_bytes [OF k'(1)] show ?thesis by blast
qed

theorem kfree_kalloc_round_trip_witness:
  "\<exists>k'. free_many (kfree 0x80100000) \<lparr>kmem_mem = (\<lambda>_. 7), use_lock = True, freelist = 0\<rparr>
      [0x80400000, 0x80200000] = Done k' \<and> snd (alloc_many kalloc 2 k') = [0x80200000, 0x80400000]"
proof -
  let ?k = "\<lparr>kmem_mem = (\<lambda>_. 7), use_lock = True, freelist = 0\<rparr> :: kmem"
  let ?qs = "[0x80400000, 0x80200000] :: u32 list"
  have "kmem_rep 0x80100000 ?k []" "distinct ?qs" "set ?qs \<inter> set [] = {}"
    "\<forall>q\<in>set ?qs. kfree_ok 0x80100000 q"
    by (simp_all add: kmem_rep_def kfree_ok_def PGSIZE_def V2P_def KERNBASE_def PHYSTOP_def)
  from kfree_kalloc_round_trip [OF this] obtain k' where
    "free_many (kfree 0x80100000) ?k ?qs = Done k'" "snd (alloc_many kalloc (length ?qs) k') = rev ?qs"
    by blast
  then show ?thesis by (intro exI [of _ k']) (simp add: numeral_eq_Suc del: alloc_many.simps)
qed

text \<open>
  \<^verbatim>\<open>kinit2\<close> terminates without a panic for every range of the direct map
  above the kernel, and adds to the free list exactly the whole pages of the
  range: none is skipped and none is added twice.
\<close>

theorem kinit2_frees_range:
  assumes "kmem_rep kend k ps" "kend \<le> vstart" "P2V 0 \<le> vstart" "vstart \<le> P2V PHYSTOP"
    and "vend \<le> P2V PHYSTOP" "set ps \<inter> whole_pages vstart vend = {}"
  shows "\<exists>k' qs. kinit2 kend k vstart vend = Done k' \<and> use_lock k'
    \<and> kmem_rep kend k' (qs @ ps) \<and> set qs = whole_pages vstart vend"
proof -
  have "\<exists>k' qs. freerange kend k vstart vend = Done k' \<and> kmem_rep kend k' (qs @ ps)
      \<and> set qs = whole_pages vstart vend"
    by (rule freerange_rep [OF assms(1,2) _ _ _ assms(6)])
      (use assms in \<open>simp_all add: P2V_def KERNBASE_def PHYSTOP_def word_le_nat_alt\<close>)
  then obtain k' qs where "freerange kend k vstart vend = Done k'" "kmem_rep kend k' (qs @ ps)"
    "set qs = whole_pages vstart vend" by blast
  then show ?thesis
    by (intro exI [of _ "k'\<lparr>use_lock := True\<rparr>"] exI [of _ qs]) (simp add: kinit2_def)
qed

theorem kinit2_frees_range_witness:
  "\<exists>k' qs. kinit2 0x80100000 \<lparr>kmem_mem = (\<lambda>_. 7), use_lock = False, freelist = 0\<rparr>
       0x80400000 0xA0000000 = Done k'
     \<and> kmem_rep 0x80100000 k' qs \<and> set qs = whole_pages 0x80400000 0xA0000000"
  using kinit2_frees_range [of "0x80100000" "\<lparr>kmem_mem = (\<lambda>_. 7), use_lock = False, freelist = 0\<rparr>"
      "[]" "0x80400000" "0xA0000000"]
  by (auto simp: kmem_rep_def P2V_def KERNBASE_def PHYSTOP_def)

end
