(* ===== verification/Vm.thy ===== *)
theory Vm
  imports Kalloc
begin

text \<open>
  Page tables, \<^verbatim>\<open>vm.c\<close>.  Page directories and page tables are pages of the
  allocator and their entries are words in memory, read and written with
  \<open>load32\<close> and \<open>store32\<close> at the addresses the source computes.  Messages on the
  console are not part of the state.
\<close>

unbundle bit_operations_syntax

text \<open>Addresses the linker chooses, and the frame buffer the boot loader reports.\<close>

record ksyms =
  kend :: u32
  kdata :: u32
  forkret_pc :: u32
  trapret_pc :: u32
  vram_size :: u32
  pvram_addr :: u32

subsection \<open>Loops over pages\<close>

text \<open>
  \<open>page_loop f a e s\<close> is \<^verbatim>\<open>for(; a < e; a += PGSIZE) f\<close>, where the body either
  goes on or returns from the routine.  When \<open>a + PGSIZE\<close> wraps around below an
  end \<open>e\<close> above the last page boundary, the source starts again at the bottom
  and never leaves the loop: that is \<open>Wait\<close>.
\<close>

datatype ('s, 'r) ctl = Next 's | Return 's 'r

function page_loop :: "(u32 \<Rightarrow> 's \<Rightarrow> ('s, 'r) ctl outcome) \<Rightarrow> u32 \<Rightarrow> u32 \<Rightarrow> 's \<Rightarrow> ('s, 'r) ctl outcome" where
  "page_loop f a e s =
     (if a < e
      then and_then (f a s) (\<lambda>c. case c of
             Return t r \<Rightarrow> Done (Return t r)
           | Next t \<Rightarrow> if a + PGSIZE < a then Wait else page_loop f (a + PGSIZE) e t)
      else Done (Next s))"
  by pat_completeness auto
termination
proof (relation "measure (\<lambda>(f, a, e, s). 4294967296 - unat a)")
  fix a e :: u32
  assume "a < e" "\<not> a + PGSIZE < a"
  then have "a \<le> a + 4096" by (simp add: PGSIZE_def)
  moreover have "a + 4096 \<noteq> a" by simp
  ultimately have "a < a + 4096" by (metis order_le_less)
  then show "((f, a + PGSIZE, e, t), f, a, e, s) \<in> measure (\<lambda>(f, a, e, s). 4294967296 - unat a)"
    for f :: "u32 \<Rightarrow> 's \<Rightarrow> ('s, 'r) ctl outcome" and t s
    using unat_less_32 [of "a + 4096"] by (simp add: PGSIZE_def word_less_nat_alt)
qed simp

declare page_loop.simps [simp del]

subsection \<open>Walking and mapping\<close>

definition walkpgdir :: "kmem \<Rightarrow> u32 \<Rightarrow> u32 \<Rightarrow> bool \<Rightarrow> kmem \<times> u32" where
  "walkpgdir k d va al =
     (let pde = d + 4 * PDX va; e = load32 (kmem_mem k) pde in
      if e AND PTE_P \<noteq> 0 then (k, P2V (PTE_ADDR e) + 4 * PTX va)
      else if \<not> al then (k, 0)
      else let (k, pgtab) = kalloc k in
        if pgtab = 0 then (k, 0)
        else let m = memset (kmem_mem k) pgtab 0 PGSIZE;
                 m = store32 m pde (V2P pgtab OR PTE_P OR PTE_W OR PTE_U)
             in (k\<lparr>kmem_mem := m\<rparr>, pgtab + 4 * PTX va))"

definition set_pte :: "kmem \<Rightarrow> u32 \<Rightarrow> u32 \<Rightarrow> kmem" where
  "set_pte k pte v = k\<lparr>kmem_mem := store32 (kmem_mem k) pte v\<rparr>"

abbreviation get_pte :: "kmem \<Rightarrow> u32 \<Rightarrow> u32" where
  "get_pte k pte \<equiv> load32 (kmem_mem k) pte"

text \<open>
  The loop of \<^verbatim>\<open>mappages\<close> tests for the last page after mapping it.  The first
  argument bounds the iterations by the number of pages in the range.
\<close>

fun mappages_loop :: "nat \<Rightarrow> kmem \<Rightarrow> u32 \<Rightarrow> u32 \<Rightarrow> u32 \<Rightarrow> u32 \<Rightarrow> u32 \<Rightarrow> (kmem \<times> int) outcome" where
  "mappages_loop 0 k d a lastp pa perm = Fault"
| "mappages_loop (Suc n) k d a lastp pa perm =
     (let (k, pte) = walkpgdir k d a True in
      if pte = 0 then Done (k, - 1)
      else if get_pte k pte AND PTE_P \<noteq> 0 then Panic ''remap''
      else let k = set_pte k pte (pa OR perm OR PTE_P) in
        if a = lastp then Done (k, 0)
        else mappages_loop n k d (a + PGSIZE) lastp (pa + PGSIZE) perm)"

definition mappages :: "kmem \<Rightarrow> u32 \<Rightarrow> u32 \<Rightarrow> u32 \<Rightarrow> u32 \<Rightarrow> u32 \<Rightarrow> (kmem \<times> int) outcome" where
  "mappages k d va nbytes pa perm =
     (let a = PGROUNDDOWN va; lastp = PGROUNDDOWN (va + nbytes - 1)
      in mappages_loop (Suc (unat (lastp - a) div 4096)) k d a lastp pa perm)"

subsection \<open>Freeing\<close>

definition deallocuvm_page :: "u32 \<Rightarrow> u32 \<Rightarrow> u32 \<Rightarrow> kmem \<Rightarrow> (kmem, unit) ctl outcome" where
  "deallocuvm_page ke d a k =
     (let pte = snd (walkpgdir k d a False) in
      if pte = 0 then Done (Next k)
      else if get_pte k pte AND PTE_P \<noteq> 0
      then let pa = PTE_ADDR (get_pte k pte) in
        if pa = 0 then Panic ''kfree''
        else and_then (kfree ke k (P2V pa)) (\<lambda>k. Done (Next (set_pte k pte 0)))
      else Done (Next k))"

definition deallocuvm :: "u32 \<Rightarrow> kmem \<Rightarrow> u32 \<Rightarrow> u32 \<Rightarrow> u32 \<Rightarrow> (kmem \<times> u32) outcome" where
  "deallocuvm ke k d oldsz newsz =
     (if newsz \<ge> oldsz then Done (k, oldsz)
      else and_then (page_loop (deallocuvm_page ke d) (PGROUNDDOWN newsz) oldsz k) (\<lambda>c.
        case c of Next k \<Rightarrow> Done (k, newsz) | Return k u \<Rightarrow> Done (k, newsz)))"

definition freevm :: "u32 \<Rightarrow> kmem \<Rightarrow> u32 \<Rightarrow> kmem outcome" where
  "freevm ke k d =
     (if d = 0 then Panic ''freevm: no pgdir''
      else and_then (deallocuvm ke k d KERNBASE 0) (\<lambda>(k, sz).
        and_then (each (\<lambda>i k.
            let e = get_pte k (d + 4 * of_nat i) in
            if e AND PTE_P \<noteq> 0 then kfree ke k (P2V (PTE_ADDR e)) else Done k)
          [0..<1024] k)
        (\<lambda>k. kfree ke k d)))"

subsection \<open>Address spaces\<close>

record kmap_entry =
  virt :: u32
  phys_start :: u32
  phys_end :: u32
  kperm :: u32

definition kmap :: "ksyms \<Rightarrow> kmap_entry list" where
  "kmap sy =
    [\<lparr>virt = KERNBASE, phys_start = 0, phys_end = EXTMEM, kperm = PTE_W\<rparr>,
     \<lparr>virt = KERNLINK, phys_start = V2P KERNLINK, phys_end = V2P (kdata sy), kperm = 0\<rparr>,
     \<lparr>virt = kdata sy, phys_start = V2P (kdata sy), phys_end = PHYSTOP, kperm = PTE_W\<rparr>,
     \<lparr>virt = DEVSPACE - vram_size sy, phys_start = pvram_addr sy,
       phys_end = pvram_addr sy + vram_size sy, kperm = PTE_W\<rparr>,
     \<lparr>virt = PCI_BAR_BASE + PCI_VP_OFFSET, phys_start = PCI_BAR_BASE,
       phys_end = 0x10000000 + PCI_BAR_BASE, kperm = PTE_W\<rparr>,
     \<lparr>virt = DEVSPACE, phys_start = DEVSPACE, phys_end = 0, kperm = PTE_W\<rparr>]"

fun map_kernel :: "ksyms \<Rightarrow> kmap_entry list \<Rightarrow> kmem \<Rightarrow> u32 \<Rightarrow> (kmem \<times> u32) outcome" where
  "map_kernel sy [] k d = Done (k, d)"
| "map_kernel sy (e # es) k d =
     and_then (mappages k d (virt e) (phys_end e - phys_start e) (phys_start e) (kperm e)) (\<lambda>(k, r).
       if r < 0 then and_then (freevm (kend sy) k d) (\<lambda>k. Done (k, 0))
       else map_kernel sy es k d)"

definition setupkvm :: "ksyms \<Rightarrow> kmem \<Rightarrow> (kmem \<times> u32) outcome" where
  "setupkvm sy k =
     (let (k, d) = kalloc k in
      if d = 0 then Done (k, 0)
      else let k = k\<lparr>kmem_mem := memset (kmem_mem k) d 0 PGSIZE\<rparr> in
        if P2V PHYSTOP > DEVSPACE then Panic ''PHYSTOP too high''
        else map_kernel sy (kmap sy) k d)"

text \<open>
  \<^verbatim>\<open>inituvm\<close> does not test the result of \<^verbatim>\<open>kalloc\<close>; with no memory left it
  writes through a null pointer.
\<close>

definition inituvm :: "kmem \<Rightarrow> u32 \<Rightarrow> u32 \<Rightarrow> u32 \<Rightarrow> kmem outcome" where
  "inituvm k d init sz =
     (if sz \<ge> PGSIZE then Panic ''inituvm: more than a page''
      else let (k, mem) = kalloc k in
        if mem = 0 then Fault
        else let k = k\<lparr>kmem_mem := memset (kmem_mem k) mem 0 PGSIZE\<rparr> in
          and_then (mappages k d 0 PGSIZE (V2P mem) (PTE_W OR PTE_U)) (\<lambda>(k, r).
          Done (k\<lparr>kmem_mem := memmove (kmem_mem k) mem init sz\<rparr>)))"

definition allocuvm_page :: "u32 \<Rightarrow> u32 \<Rightarrow> u32 \<Rightarrow> u32 \<Rightarrow> u32 \<Rightarrow> kmem \<Rightarrow> (kmem, u32) ctl outcome" where
  "allocuvm_page ke d oldsz newsz a k =
     (let (k, mem) = kalloc k in
      if mem = 0 then and_then (deallocuvm ke k d newsz oldsz) (\<lambda>(k, sz). Done (Return k 0))
      else let k = k\<lparr>kmem_mem := memset (kmem_mem k) mem 0 PGSIZE\<rparr> in
        and_then (mappages k d a PGSIZE (V2P mem) (PTE_W OR PTE_U)) (\<lambda>(k, r).
        if r < 0
        then and_then (deallocuvm ke k d newsz oldsz) (\<lambda>(k, sz).
             and_then (kfree ke k mem) (\<lambda>k. Done (Return k 0)))
        else Done (Next k)))"

definition allocuvm :: "u32 \<Rightarrow> kmem \<Rightarrow> u32 \<Rightarrow> u32 \<Rightarrow> u32 \<Rightarrow> (kmem \<times> u32) outcome" where
  "allocuvm ke k d oldsz newsz =
     (if newsz \<ge> KERNBASE then Done (k, 0)
      else if newsz < oldsz then Done (k, oldsz)
      else and_then (page_loop (allocuvm_page ke d oldsz newsz) (PGROUNDUP oldsz) newsz k) (\<lambda>c.
        case c of Next k \<Rightarrow> Done (k, newsz) | Return k r \<Rightarrow> Done (k, r)))"

definition clearpteu :: "kmem \<Rightarrow> u32 \<Rightarrow> u32 \<Rightarrow> kmem outcome" where
  "clearpteu k d uva =
     (let pte = snd (walkpgdir k d uva False) in
      if pte = 0 then Panic ''clearpteu''
      else Done (set_pte k pte (get_pte k pte AND NOT PTE_U)))"

definition copyuvm_page :: "u32 \<Rightarrow> u32 \<Rightarrow> u32 \<Rightarrow> u32 \<Rightarrow> kmem \<Rightarrow> (kmem, u32) ctl outcome" where
  "copyuvm_page ke src d i k =
     (let pte = snd (walkpgdir k src i False) in
      if pte = 0 then Done (Next k)
      else if get_pte k pte AND PTE_P = 0 then Done (Next k)
      else let pa = PTE_ADDR (get_pte k pte); flags = PTE_FLAGS (get_pte k pte);
               (k, mem) = kalloc k in
        if mem = 0 then and_then (freevm ke k d) (\<lambda>k. Done (Return k 0))
        else let k = k\<lparr>kmem_mem := memmove (kmem_mem k) mem (P2V pa) PGSIZE\<rparr> in
          and_then (mappages k d i PGSIZE (V2P mem) flags) (\<lambda>(k, r).
          if r < 0 then and_then (freevm ke k d) (\<lambda>k. Done (Return k 0))
          else Done (Next k)))"

definition copyuvm :: "ksyms \<Rightarrow> kmem \<Rightarrow> u32 \<Rightarrow> u32 \<Rightarrow> (kmem \<times> u32) outcome" where
  "copyuvm sy k src sz =
     and_then (setupkvm sy k) (\<lambda>(k, d).
     if d = 0 then Done (k, 0)
     else and_then (page_loop (copyuvm_page (kend sy) src d) 0 KERNBASE k) (\<lambda>c.
       case c of Next k \<Rightarrow> Done (k, d) | Return k r \<Rightarrow> Done (k, r)))"

text \<open>\<^verbatim>\<open>uva2ka\<close> dereferences the entry without a null test.\<close>

definition uva2ka :: "kmem \<Rightarrow> u32 \<Rightarrow> u32 \<Rightarrow> u32 outcome" where
  "uva2ka k d uva =
     (let pte = snd (walkpgdir k d uva False) in
      if pte = 0 then Fault
      else if get_pte k pte AND PTE_P = 0 then Done 0
      else if get_pte k pte AND PTE_U = 0 then Done 0
      else Done (P2V (PTE_ADDR (get_pte k pte))))"

text \<open>
  The loop of \<^verbatim>\<open>copyout\<close>; every iteration copies at least one of the \<open>len\<close>
  bytes, so \<open>len\<close> iterations are enough.
\<close>

fun copyout_loop :: "nat \<Rightarrow> kmem \<Rightarrow> u32 \<Rightarrow> u32 \<Rightarrow> u32 \<Rightarrow> u32 \<Rightarrow> (kmem \<times> int) outcome" where
  "copyout_loop fuel k d va buf len =
     (if len = 0 then Done (k, 0)
      else case fuel of
        0 \<Rightarrow> Fault
      | Suc fuel \<Rightarrow>
          let va0 = PGROUNDDOWN va in
          and_then (uva2ka k d va0) (\<lambda>pa0.
          if pa0 = 0 then Done (k, - 1)
          else let n = PGSIZE - (va - va0); n = (if n > len then len else n);
                   k = k\<lparr>kmem_mem := memmove (kmem_mem k) (pa0 + (va - va0)) buf n\<rparr>
               in copyout_loop fuel k d (va0 + PGSIZE) (buf + n) (len - n)))"

definition copyout :: "kmem \<Rightarrow> u32 \<Rightarrow> u32 \<Rightarrow> u32 \<Rightarrow> u32 \<Rightarrow> (kmem \<times> int) outcome" where
  "copyout k d va p len = copyout_loop (unat len) k d va p len"

end
