(* ===== verification/Spinlock.thy ===== *)
theory Spinlock
  imports Layout
begin

text \<open>
  Processors and spin locks: the per-CPU record of \<^verbatim>\<open>proc.h\<close>,
  \<^verbatim>\<open>mycpu\<close> of \<^verbatim>\<open>proc.c\<close> and \<^verbatim>\<open>spinlock.c\<close>.

  The routines come first as sequential functions of the machine, executed by
  the processor whose local APIC identifier is \<open>a\<close>; spinning on a lock held
  elsewhere is the outcome \<open>Wait\<close>.  The second half splits
  \<^verbatim>\<open>acquire\<close> and \<^verbatim>\<open>release\<close> at every access to the shared lock word and lets
  all processors interleave.
\<close>

subsection \<open>State\<close>

text \<open>
  \<open>cproc\<close> is \<^verbatim>\<open>c->proc\<close>, an index into the process table; \<open>ts_esp0\<close> is the
  one field of the task state the kernel changes.  \<open>hw\<close> holds the registers of
  each processor by APIC identifier: the interrupt flag and the page directory
  base.
\<close>

record cpu =
  apicid :: u8
  ts_esp0 :: u32
  started :: u32
  ncli :: int
  intena :: bool
  cproc :: "nat option"
  sched_policy :: int

record hwregs =
  flag_if :: bool
  cr3 :: u32

text \<open>
  \<open>stack_word\<close> and \<open>lk_arg\<close> are the kernel stack as \<^verbatim>\<open>getcallerpcs\<close> reads it
  and the address of the argument of \<^verbatim>\<open>acquire\<close> on it.
\<close>

record machine =
  cpus :: "cpu list"
  hw :: "u8 \<Rightarrow> hwregs"
  stack_word :: "u32 \<Rightarrow> u32"
  lk_arg :: "u8 \<Rightarrow> u32"

record spinlock =
  locked :: u32
  lkname :: string
  lkcpu :: "nat option"
  pcs :: "u32 list"

subsection \<open>Interrupt flag and the current processor\<close>

definition cli :: "machine \<Rightarrow> u8 \<Rightarrow> machine" where
  "cli M a = M\<lparr>hw := (hw M)(a := (hw M a)\<lparr>flag_if := False\<rparr>)\<rparr>"

definition sti :: "machine \<Rightarrow> u8 \<Rightarrow> machine" where
  "sti M a = M\<lparr>hw := (hw M)(a := (hw M a)\<lparr>flag_if := True\<rparr>)\<rparr>"

definition mycpu :: "machine \<Rightarrow> u8 \<Rightarrow> nat outcome" where
  "mycpu M a =
     (if flag_if (hw M a) then Panic ''mycpu called with interrupts enabled''
      else case find_index (\<lambda>c. apicid c = a) (cpus M) of
             Some i \<Rightarrow> Done i
           | None \<Rightarrow> Panic ''unknown apicid'')"

definition cpuid :: "machine \<Rightarrow> u8 \<Rightarrow> nat outcome" where
  "cpuid M a = mycpu M a"

definition set_cpu :: "nat \<Rightarrow> (cpu \<Rightarrow> cpu) \<Rightarrow> machine \<Rightarrow> machine" where
  "set_cpu i f M = M\<lparr>cpus := upd_at i f (cpus M)\<rparr>"

definition pushcli :: "machine \<Rightarrow> u8 \<Rightarrow> machine outcome" where
  "pushcli M a =
     (let eflags = flag_if (hw M a); M = cli M a in
      and_then (mycpu M a) (\<lambda>i.
        let M = (if ncli (cpus M ! i) = 0 then set_cpu i (\<lambda>c. c\<lparr>intena := eflags\<rparr>) M else M)
        in Done (set_cpu i (\<lambda>c. c\<lparr>ncli := ncli c + 1\<rparr>) M)))"

definition popcli :: "machine \<Rightarrow> u8 \<Rightarrow> machine outcome" where
  "popcli M a =
     (if flag_if (hw M a) then Panic ''popcli - interruptible''
      else and_then (mycpu M a) (\<lambda>i.
        let M = set_cpu i (\<lambda>c. c\<lparr>ncli := ncli c - 1\<rparr>) M in
        if ncli (cpus M ! i) < 0 then Panic ''popcli''
        else if ncli (cpus M ! i) = 0 \<and> intena (cpus M ! i) then Done (sti M a)
        else Done M))"

definition myproc :: "machine \<Rightarrow> u8 \<Rightarrow> (machine \<times> nat option) outcome" where
  "myproc M a =
     and_then (pushcli M a) (\<lambda>M.
     and_then (mycpu M a) (\<lambda>i.
     let p = cproc (cpus M ! i) in
     and_then (popcli M a) (\<lambda>M. Done (M, p))))"

subsection \<open>Locks\<close>

definition initlock :: "string \<Rightarrow> spinlock \<Rightarrow> spinlock" where
  "initlock name lk = lk\<lparr>lkname := name, locked := 0, lkcpu := None\<rparr>"

definition holding :: "machine \<Rightarrow> spinlock \<Rightarrow> u8 \<Rightarrow> bool outcome" where
  "holding M lk a =
     (if locked lk = 0 then Done False
      else and_then (mycpu M a) (\<lambda>i. Done (lkcpu lk = Some i)))"

text \<open>
  The first loop of \<^verbatim>\<open>getcallerpcs\<close> follows the saved frame pointers while they
  stay in kernel memory, at most ten times; the second fills up with zeros.
\<close>

fun callerpcs_loop :: "(u32 \<Rightarrow> u32) \<Rightarrow> u32 \<Rightarrow> nat \<Rightarrow> u32 list" where
  "callerpcs_loop st ebp 0 = []"
| "callerpcs_loop st ebp (Suc n) =
     (if ebp = 0 \<or> ebp < KERNBASE \<or> ebp = 0xffffffff then replicate (Suc n) 0
      else st (ebp + 4) # callerpcs_loop st (st ebp) n)"

definition getcallerpcs :: "(u32 \<Rightarrow> u32) \<Rightarrow> u32 \<Rightarrow> u32 list" where
  "getcallerpcs st v = callerpcs_loop st (v - 8) 10"

definition acquire :: "machine \<Rightarrow> spinlock \<Rightarrow> u8 \<Rightarrow> (machine \<times> spinlock) outcome" where
  "acquire M lk a =
     and_then (pushcli M a) (\<lambda>M.
     and_then (holding M lk a) (\<lambda>h.
     if h then Panic ''acquire''
     else if locked lk \<noteq> 0 then Wait
     else let lk = lk\<lparr>locked := 1\<rparr> in
       and_then (mycpu M a) (\<lambda>i.
       Done (M, lk\<lparr>lkcpu := Some i, pcs := getcallerpcs (stack_word M) (lk_arg M a)\<rparr>))))"

definition release :: "machine \<Rightarrow> spinlock \<Rightarrow> u8 \<Rightarrow> (machine \<times> spinlock) outcome" where
  "release M lk a =
     and_then (holding M lk a) (\<lambda>h.
     if \<not> h then Panic ''release''
     else let lk = lk\<lparr>pcs := (pcs lk)[0 := 0], lkcpu := None\<rparr>;
              lk = lk\<lparr>locked := 0\<rparr>
          in and_then (popcli M a) (\<lambda>M. Done (M, lk)))"

subsection \<open>Which processor executes\<close>

text \<open>\<open>runs_on M a i\<close>: APIC identifier \<open>a\<close> belongs to \<open>cpus[i]\<close> and to no other entry.\<close>

definition runs_on :: "machine \<Rightarrow> u8 \<Rightarrow> nat \<Rightarrow> bool" where
  "runs_on M a i \<longleftrightarrow> i < length (cpus M) \<and> apicid (cpus M ! i) = a \<and> distinct (map apicid (cpus M))"

lemma runs_on_find:
  assumes "runs_on M a i"
  shows "find_index (\<lambda>c. apicid c = a) (cpus M) = Some i"
proof -
  have "apicid (cpus M ! k) \<noteq> a" if "k < i" for k
    using assms that nth_eq_iff_index_eq [of "map apicid (cpus M)" k i]
    by (auto simp: runs_on_def)
  then show ?thesis using assms by (simp add: runs_on_def find_index_Some_iff)
qed

lemma mycpu_runs_on: "runs_on M a i \<Longrightarrow> \<not> flag_if (hw M a) \<Longrightarrow> mycpu M a = Done i"
  by (simp add: mycpu_def runs_on_find)

lemma hw_cli_sti [simp]:
  "hw (cli M a) b = (if b = a then (hw M a)\<lparr>flag_if := False\<rparr> else hw M b)"
  "hw (sti M a) b = (if b = a then (hw M a)\<lparr>flag_if := True\<rparr> else hw M b)"
  "cpus (cli M a) = cpus M" "cpus (sti M a) = cpus M"
  "stack_word (cli M a) = stack_word M" "stack_word (sti M a) = stack_word M"
  "lk_arg (cli M a) = lk_arg M" "lk_arg (sti M a) = lk_arg M"
  by (simp_all add: cli_def sti_def)

lemma set_cpu_simps [simp]:
  "hw (set_cpu i f M) = hw M" "cpus (set_cpu i f M) = upd_at i f (cpus M)"
  "stack_word (set_cpu i f M) = stack_word M" "lk_arg (set_cpu i f M) = lk_arg M"
  by (simp_all add: set_cpu_def)

lemma runs_on_cong:
  "map apicid (cpus M') = map apicid (cpus M) \<Longrightarrow> runs_on M' a i = runs_on M a i"
  by (auto simp: runs_on_def dest: map_eq_imp_length_eq) (metis length_map nth_map)+

lemma runs_on_simps [simp]:
  "runs_on (cli M a) b i = runs_on M b i" "runs_on (sti M a) b i = runs_on M b i"
  by (simp_all add: runs_on_def)

lemma runs_on_set_cpu:
  "(\<And>c. apicid (f c) = apicid c) \<Longrightarrow> runs_on (set_cpu j f M) b i = runs_on M b i"
  by (rule runs_on_cong) (simp add: map_upd_at_unchanged)

lemma pushcli_runs_on:
  assumes "runs_on M a i"
  shows "pushcli M a = Done (set_cpu i (\<lambda>c. c\<lparr>intena := (if ncli c = 0 then flag_if (hw M a) else intena c),
      ncli := ncli c + 1\<rparr>) (cli M a))"
proof -
  have "mycpu (cli M a) a = Done i" using assms by (simp add: mycpu_runs_on)
  with assms show ?thesis by (simp add: pushcli_def Let_def set_cpu_def upd_at_def runs_on_def)
qed

lemma popcli_runs_on:
  assumes "runs_on M a i" "\<not> flag_if (hw M a)" "0 < ncli (cpus M ! i)"
  shows "popcli M a = Done ((if ncli (cpus M ! i) = 1 \<and> intena (cpus M ! i) then (\<lambda>M. sti M a) else id)
      (set_cpu i (\<lambda>c. c\<lparr>ncli := ncli c - 1\<rparr>) M))"
proof -
  have "mycpu M a = Done i" using assms by (simp add: mycpu_runs_on)
  with assms show ?thesis by (simp add: popcli_def Let_def runs_on_def)
qed

lemma acquire_free:
  assumes "runs_on M a i" "locked lk = 0" "pushcli M a = Done M'"
  shows "acquire M lk a = Done (M', lk\<lparr>locked := 1, lkcpu := Some i,
           pcs := getcallerpcs (stack_word M) (lk_arg M a)\<rparr>)"
proof -
  have M': "M' = set_cpu i (\<lambda>c. c\<lparr>intena := (if ncli c = 0 then flag_if (hw M a) else intena c),
      ncli := ncli c + 1\<rparr>) (cli M a)"
    using assms(3) pushcli_runs_on [OF assms(1)] by simp
  have "runs_on M' a i" using assms(1) by (simp add: M' runs_on_set_cpu)
  then have "mycpu M' a = Done i" by (rule mycpu_runs_on) (simp add: M')
  then show ?thesis using assms by (simp add: acquire_def holding_def Let_def) (simp add: M')
qed

lemma acquire_taken:
  assumes "runs_on M a i" "locked lk \<noteq> 0"
  shows "acquire M lk a = (if lkcpu lk = Some i then Panic ''acquire'' else Wait)"
proof -
  obtain M' where p: "pushcli M a = Done M'" and "runs_on M' a i" "\<not> flag_if (hw M' a)"
    using pushcli_runs_on [OF assms(1)] assms(1) by (simp add: runs_on_set_cpu)
  then have "mycpu M' a = Done i" by (simp add: mycpu_runs_on)
  with p assms(2) show ?thesis by (simp add: acquire_def holding_def)
qed

lemma release_held:
  assumes "runs_on M a i" "locked lk \<noteq> 0" "lkcpu lk = Some i" "\<not> flag_if (hw M a)"
    and "popcli M a = Done M'"
  shows "release M lk a = Done (M', lk\<lparr>locked := 0, lkcpu := None, pcs := (pcs lk)[0 := 0]\<rparr>)"
proof -
  have "mycpu M a = Done i" using assms(1,4) by (rule mycpu_runs_on)
  with assms show ?thesis by (simp add: release_def holding_def Let_def)
qed

lemma length_callerpcs_loop: "length (callerpcs_loop st ebp n) = n"
  by (induction st ebp n rule: callerpcs_loop.induct) auto

subsection \<open>Nested critical sections\<close>

primrec nested :: "nat \<Rightarrow> u8 \<Rightarrow> machine \<Rightarrow> machine outcome" where
  "nested 0 a M = Done M"
| "nested (Suc n) a M =
     and_then (pushcli M a) (\<lambda>M. and_then (nested n a M) (\<lambda>M. popcli M a))"

lemma popcli_pushcli:
  assumes "runs_on M a i" "0 \<le> ncli (cpus M ! i)" "0 < ncli (cpus M ! i) \<Longrightarrow> \<not> flag_if (hw M a)"
  shows "and_then (pushcli M a) (\<lambda>M. popcli M a)
    = Done (if ncli (cpus M ! i) = 0 then set_cpu i (\<lambda>c. c\<lparr>intena := flag_if (hw M a)\<rparr>) M else M)"
proof -
  define M1 where "M1 = set_cpu i (\<lambda>c. c\<lparr>intena := (if ncli c = 0 then flag_if (hw M a) else intena c),
      ncli := ncli c + 1\<rparr>) (cli M a)"
  have i: "i < length (cpus M)" using assms(1) by (simp add: runs_on_def)
  have push: "pushcli M a = Done M1" using pushcli_runs_on [OF assms(1)] by (simp add: M1_def)
  have "runs_on M1 a i" "\<not> flag_if (hw M1 a)" "0 < ncli (cpus M1 ! i)"
    using assms i by (simp_all add: M1_def runs_on_set_cpu)
  then have pop: "popcli M1 a = Done ((if ncli (cpus M1 ! i) = 1 \<and> intena (cpus M1 ! i)
      then (\<lambda>M. sti M a) else id) (set_cpu i (\<lambda>c. c\<lparr>ncli := ncli c - 1\<rparr>) M1))"
    by (rule popcli_runs_on)
  have fl: "(hw M)(a := (hw M a)\<lparr>flag_if := b\<rparr>) = hw M" if "flag_if (hw M a) = b" for b
    using that by (auto simp: fun_eq_iff)
  show ?thesis
    unfolding push and_then.simps pop
    using i assms(2,3) fl [OF refl]
    by (cases "flag_if (hw M a)") (auto simp: M1_def set_cpu_def cli_def sti_def upd_at_def)
qed

lemma nested_matched:
  assumes "runs_on M a i" "0 \<le> ncli (cpus M ! i)" "0 < ncli (cpus M ! i) \<Longrightarrow> \<not> flag_if (hw M a)"
  shows "nested n a M = Done (if n = 0 \<or> ncli (cpus M ! i) \<noteq> 0 then M
           else set_cpu i (\<lambda>c. c\<lparr>intena := flag_if (hw M a)\<rparr>) M)"
  using assms
proof (induction n arbitrary: M)
  case 0
  then show ?case by simp
next
  case (Suc n)
  have i: "i < length (cpus M)" using Suc.prems(1) by (simp add: runs_on_def)
  obtain M1 where M1: "pushcli M a = Done M1" "runs_on M1 a i" "0 < ncli (cpus M1 ! i)"
      "\<not> flag_if (hw M1 a)"
    using pushcli_runs_on [OF Suc.prems(1)] Suc.prems i by (simp add: runs_on_set_cpu)
  then have "nested n a M1 = Done M1" using Suc.IH [OF M1(2)] by simp
  then show ?case
    using popcli_pushcli [OF Suc.prems] M1(1) by simp
qed

subsection \<open>All processors at once\<close>

text \<open>
  \<open>lpc\<close> says where a processor is inside \<^verbatim>\<open>acquire\<close> or \<^verbatim>\<open>release\<close>: spinning on
  the \<^verbatim>\<open>xchg\<close>, past a successful \<^verbatim>\<open>xchg\<close> but before \<^verbatim>\<open>lk->cpu\<close> is set, past
  the reset of \<^verbatim>\<open>lk->cpu\<close> but before the store of 0, or before the final
  \<^verbatim>\<open>popcli\<close>.  \<open>held\<close> is the list of locks for which a processor's calls of
  \<^verbatim>\<open>acquire\<close> have returned and \<^verbatim>\<open>release\<close> has not been called.
\<close>

datatype lockpc = Outside | Spinning nat | Won nat | Releasing nat | Unlocked

record lockstate =
  lmach :: machine
  locks :: "spinlock list"
  lpc :: "nat \<Rightarrow> lockpc"
  held :: "nat \<Rightarrow> nat list"

abbreviation lapicid :: "lockstate \<Rightarrow> nat \<Rightarrow> u8" where
  "lapicid s i \<equiv> apicid (cpus (lmach s) ! i)"

definition set_lock :: "nat \<Rightarrow> (spinlock \<Rightarrow> spinlock) \<Rightarrow> lockstate \<Rightarrow> lockstate" where
  "set_lock l f s = s\<lparr>locks := upd_at l f (locks s)\<rparr>"

definition goto :: "nat \<Rightarrow> lockpc \<Rightarrow> lockstate \<Rightarrow> lockstate" where
  "goto i pc s = s\<lparr>lpc := (lpc s)(i := pc)\<rparr>"

inductive lock_step :: "lockstate \<Rightarrow> lockstate \<Rightarrow> bool" where
  acq_enter: "\<lbrakk>i < length (cpus (lmach s)); lpc s i = Outside; l < length (locks s); l \<notin> set (held s i);
      pushcli (lmach s) (lapicid s i) = Done M; holding M (locks s ! l) (lapicid s i) = Done False\<rbrakk>
    \<Longrightarrow> lock_step s (goto i (Spinning l) (s\<lparr>lmach := M\<rparr>))"
| acq_spin: "\<lbrakk>i < length (cpus (lmach s)); lpc s i = Spinning l; locked (locks s ! l) \<noteq> 0\<rbrakk>
    \<Longrightarrow> lock_step s (set_lock l (\<lambda>lk. lk\<lparr>locked := 1\<rparr>) s)"
| acq_win: "\<lbrakk>i < length (cpus (lmach s)); lpc s i = Spinning l; locked (locks s ! l) = 0\<rbrakk>
    \<Longrightarrow> lock_step s (goto i (Won l) (set_lock l (\<lambda>lk. lk\<lparr>locked := 1\<rparr>) s))"
| acq_return: "\<lbrakk>i < length (cpus (lmach s)); lpc s i = Won l; mycpu (lmach s) (lapicid s i) = Done c\<rbrakk>
    \<Longrightarrow> lock_step s (goto i Outside (set_lock l (\<lambda>lk. lk\<lparr>lkcpu := Some c,
          pcs := getcallerpcs (stack_word (lmach s)) (lk_arg (lmach s) (lapicid s i))\<rparr>)
          (s\<lparr>held := (held s)(i := l # held s i)\<rparr>)))"
| rel_enter: "\<lbrakk>i < length (cpus (lmach s)); lpc s i = Outside; l \<in> set (held s i);
      holding (lmach s) (locks s ! l) (lapicid s i) = Done True\<rbrakk>
    \<Longrightarrow> lock_step s (goto i (Releasing l) (set_lock l (\<lambda>lk. lk\<lparr>pcs := (pcs lk)[0 := 0], lkcpu := None\<rparr>)
          (s\<lparr>held := (held s)(i := remove1 l (held s i))\<rparr>)))"
| rel_store: "\<lbrakk>i < length (cpus (lmach s)); lpc s i = Releasing l\<rbrakk>
    \<Longrightarrow> lock_step s (goto i Unlocked (set_lock l (\<lambda>lk. lk\<lparr>locked := 0\<rparr>) s))"
| rel_return: "\<lbrakk>i < length (cpus (lmach s)); lpc s i = Unlocked; popcli (lmach s) (lapicid s i) = Done M\<rbrakk>
    \<Longrightarrow> lock_step s (goto i Outside (s\<lparr>lmach := M\<rparr>))"

inductive lock_reachable :: "lockstate \<Rightarrow> bool" where
  boot: "\<lbrakk>distinct (map apicid (cpus (lmach s))); \<forall>c\<in>set (cpus (lmach s)). ncli c = 0;
      \<forall>lk\<in>set (locks s). locked lk = 0 \<and> lkcpu lk = None; lpc s = (\<lambda>_. Outside); held s = (\<lambda>_. [])\<rbrakk>
    \<Longrightarrow> lock_reachable s"
| step: "lock_reachable s \<Longrightarrow> lock_step s s' \<Longrightarrow> lock_reachable s'"

text \<open>A processor owns a lock from its successful \<^verbatim>\<open>xchg\<close> to its store of 0.\<close>

definition owns :: "lockstate \<Rightarrow> nat \<Rightarrow> nat \<Rightarrow> bool" where
  "owns s i l \<longleftrightarrow> l \<in> set (held s i) \<or> lpc s i = Won l \<or> lpc s i = Releasing l"

text \<open>The word of each lock agrees with its owner.\<close>

definition lock_words :: "lockstate \<Rightarrow> bool" where
  "lock_words s \<longleftrightarrow> (\<forall>l<length (locks s).
      (locked (locks s ! l) \<noteq> 0 \<longleftrightarrow> (\<exists>i<length (cpus (lmach s)). owns s i l)) \<and>
      (\<forall>c. lkcpu (locks s ! l) = Some c \<longleftrightarrow> c < length (cpus (lmach s)) \<and> l \<in> set (held s c)))"

definition lock_owners :: "lockstate \<Rightarrow> bool" where
  "lock_owners s \<longleftrightarrow>
     (\<forall>i<length (cpus (lmach s)). \<forall>j<length (cpus (lmach s)). \<forall>l. owns s i l \<and> owns s j l \<longrightarrow> i = j) \<and>
     (\<forall>i<length (cpus (lmach s)). distinct (held s i) \<and> set (held s i) \<subseteq> {..<length (locks s)} \<and>
        (\<forall>l. lpc s i = Spinning l \<or> lpc s i = Won l \<or> lpc s i = Releasing l
           \<longrightarrow> l < length (locks s) \<and> l \<notin> set (held s i)))"

text \<open>The nesting depth of a processor counts its locks, and interrupts are off while it is positive.\<close>

definition lock_depth :: "lockstate \<Rightarrow> bool" where
  "lock_depth s \<longleftrightarrow> distinct (map apicid (cpus (lmach s))) \<and>
     (\<forall>i<length (cpus (lmach s)).
        ncli (cpus (lmach s) ! i) = int (length (held s i)) + (if lpc s i = Outside then 0 else 1) \<and>
        (0 < ncli (cpus (lmach s) ! i) \<longrightarrow> \<not> flag_if (hw (lmach s) (lapicid s i))))"

definition lock_inv :: "lockstate \<Rightarrow> bool" where
  "lock_inv s \<longleftrightarrow> lock_words s \<and> lock_owners s \<and> lock_depth s"

lemma goto_set_lock_simps [simp]:
  "lmach (goto i pc s) = lmach s" "locks (goto i pc s) = locks s" "held (goto i pc s) = held s"
  "lpc (goto i pc s) = (lpc s)(i := pc)"
  "lmach (set_lock l f s) = lmach s" "locks (set_lock l f s) = upd_at l f (locks s)"
  "held (set_lock l f s) = held s" "lpc (set_lock l f s) = lpc s"
  by (simp_all add: goto_def set_lock_def)

lemma pushcli_effect:
  assumes "runs_on M a i" "pushcli M a = Done M'"
  shows "map apicid (cpus M') = map apicid (cpus M)" "length (cpus M') = length (cpus M)"
    "j < length (cpus M) \<Longrightarrow> ncli (cpus M' ! j) = ncli (cpus M ! j) + (if j = i then 1 else 0)"
    "\<not> flag_if (hw M' a)" "b \<noteq> a \<Longrightarrow> hw M' b = hw M b"
  using assms pushcli_runs_on [OF assms(1)]
  by (auto simp: map_upd_at_unchanged nth_upd_at)

lemma popcli_effect:
  assumes "runs_on M a i" "popcli M a = Done M'" "\<not> flag_if (hw M a)" "0 < ncli (cpus M ! i)"
  shows "map apicid (cpus M') = map apicid (cpus M)" "length (cpus M') = length (cpus M)"
    "j < length (cpus M) \<Longrightarrow> ncli (cpus M' ! j) = ncli (cpus M ! j) - (if j = i then 1 else 0)"
    "1 < ncli (cpus M ! i) \<Longrightarrow> \<not> flag_if (hw M' a)" "b \<noteq> a \<Longrightarrow> hw M' b = hw M b"
  using assms popcli_runs_on [OF assms(1,3,4)]
  by (auto simp: map_upd_at_unchanged nth_upd_at split: if_splits)

lemma lock_inv_runs_on:
  "lock_depth s \<Longrightarrow> i < length (cpus (lmach s)) \<Longrightarrow> runs_on (lmach s) (lapicid s i) i"
  by (simp add: lock_depth_def runs_on_def)

lemma lapicid_inj:
  "lock_depth s \<Longrightarrow> i < length (cpus (lmach s)) \<Longrightarrow> j < length (cpus (lmach s)) \<Longrightarrow>
   lapicid s i = lapicid s j \<longleftrightarrow> i = j"
  using nth_eq_iff_index_eq [of "map apicid (cpus (lmach s))" i j] by (simp add: lock_depth_def)

lemma same_apicids:
  assumes "map apicid (cpus M') = map apicid (cpus M)" "j < length (cpus M)"
  shows "apicid (cpus M' ! j) = apicid (cpus M ! j)"
  using assms by (metis length_map nth_map)

lemma owner_unique:
  assumes "lock_owners s" "i < length (cpus (lmach s))" "j < length (cpus (lmach s))"
    and "owns s i l" "owns s j l"
  shows "i = j"
  using assms unfolding lock_owners_def by blast

lemma depth_step:
  assumes "lock_step s s'" "lock_depth s" "lock_owners s"
  shows "lock_depth s'"
  using assms(1)
proof cases
  case (acq_enter i l M)
  note e = pushcli_effect [OF lock_inv_runs_on [OF assms(2) acq_enter(2)] acq_enter(6)]
  show ?thesis
    unfolding lock_depth_def
  proof (intro conjI allI impI)
    show "distinct (map apicid (cpus (lmach s')))" using e(1) assms(2) by (simp add: acq_enter lock_depth_def)
    fix j assume "j < length (cpus (lmach s'))"
    then have j: "j < length (cpus (lmach s))" using e(2) acq_enter by simp
    show "ncli (cpus (lmach s') ! j) = int (length (held s' j)) + (if lpc s' j = Outside then 0 else 1)"
      using e(3) [OF j] assms(2) j acq_enter by (auto simp: lock_depth_def)
    show "\<not> flag_if (hw (lmach s') (lapicid s' j))" if "0 < ncli (cpus (lmach s') ! j)"
      using that e(3) [OF j] e(4) e(5) [of "lapicid s j"] same_apicids [OF e(1) j] lapicid_inj [OF assms(2) acq_enter(2) j]
        assms(2) j acq_enter by (cases "j = i") (auto simp: lock_depth_def)
  qed
next
  case (rel_return i M)
  have n: "0 < ncli (cpus (lmach s) ! i)" "\<not> flag_if (hw (lmach s) (lapicid s i))"
    using assms(2) rel_return by (auto simp: lock_depth_def)
  note e = popcli_effect [OF lock_inv_runs_on [OF assms(2) rel_return(2)] rel_return(4) n(2,1)]
  show ?thesis
    unfolding lock_depth_def
  proof (intro conjI allI impI)
    show "distinct (map apicid (cpus (lmach s')))" using e(1) assms(2) by (simp add: rel_return lock_depth_def)
    fix j assume "j < length (cpus (lmach s'))"
    then have j: "j < length (cpus (lmach s))" using e(2) rel_return by simp
    show "ncli (cpus (lmach s') ! j) = int (length (held s' j)) + (if lpc s' j = Outside then 0 else 1)"
      using e(3) [OF j] assms(2) j rel_return by (auto simp: lock_depth_def)
    show "\<not> flag_if (hw (lmach s') (lapicid s' j))" if "0 < ncli (cpus (lmach s') ! j)"
      using that e(3) [OF j] e(4) e(5) [of "lapicid s j"] same_apicids [OF e(1) j] lapicid_inj [OF assms(2) rel_return(2) j]
        assms(2) j rel_return by (cases "j = i") (auto simp: lock_depth_def)
  qed
next
  case (rel_enter i l)
  then have "length (held s i) = Suc (length (remove1 l (held s i)))"
    by (simp add: length_remove1) (metis Suc_pred length_pos_if_in_set)
  with rel_enter assms(2) show ?thesis by (auto simp: lock_depth_def)
qed (use assms(2) in \<open>auto simp: lock_depth_def\<close>)

lemma owners_step:
  assumes "lock_step s s'" "lock_inv s"
  shows "lock_owners s'"
proof -
  have w: "lock_words s" and o: "lock_owners s" and d: "lock_depth s"
    using assms(2) by (simp_all add: lock_inv_def)
  from assms(1) show ?thesis
  proof cases
    case (acq_enter i l M)
    note e = pushcli_effect [OF lock_inv_runs_on [OF d acq_enter(2)] acq_enter(6)]
    show ?thesis using o e(2) acq_enter by (auto simp: lock_owners_def owns_def)
  next
    case (acq_win i l)
    have "l < length (locks s)" using o acq_win by (auto simp: lock_owners_def)
    then have "\<not> owns s j l" if "j < length (cpus (lmach s))" for j
      using w acq_win(4) that by (auto simp: lock_words_def)
    then show ?thesis using o acq_win by (auto simp: lock_owners_def owns_def)
  next
    case (acq_return i l c)
    then show ?thesis using o by (auto simp: lock_owners_def owns_def)
  next
    case (rel_enter i l)
    then show ?thesis using o by (auto simp: lock_owners_def owns_def set_remove1_eq)
  next
    case (rel_return i M)
    have n: "0 < ncli (cpus (lmach s) ! i)" "\<not> flag_if (hw (lmach s) (lapicid s i))"
      using d rel_return by (auto simp: lock_depth_def)
    note e = popcli_effect [OF lock_inv_runs_on [OF d rel_return(2)] rel_return(4) n(2,1)]
    show ?thesis using o e(2) rel_return by (auto simp: lock_owners_def owns_def)
  qed (use o in \<open>auto simp: lock_owners_def owns_def\<close>)
qed

text \<open>
  The shape of every step: lock \<open>l\<close> changes to \<open>f\<close> of itself, every other lock
  keeps its owner and its \<open>held\<close> entries.
\<close>

lemma lock_words_update:
  assumes "lock_words s" "l < length (locks s)" "locks s' = upd_at l f (locks s)"
    and "length (cpus (lmach s')) = length (cpus (lmach s))"
    and "\<And>j k. k \<noteq> l \<Longrightarrow> owns s' j k = owns s j k"
    and "\<And>j k. k \<noteq> l \<Longrightarrow> k \<in> set (held s' j) \<longleftrightarrow> k \<in> set (held s j)"
    and "locked (f (locks s ! l)) \<noteq> 0 \<longleftrightarrow> (\<exists>i<length (cpus (lmach s)). owns s' i l)"
    and "\<And>c. lkcpu (f (locks s ! l)) = Some c \<longleftrightarrow> c < length (cpus (lmach s)) \<and> l \<in> set (held s' c)"
  shows "lock_words s'"
  unfolding lock_words_def
proof (intro allI impI)
  fix k assume k: "k < length (locks s')"
  show "(locked (locks s' ! k) \<noteq> 0 \<longleftrightarrow> (\<exists>i<length (cpus (lmach s')). owns s' i k)) \<and>
      (\<forall>c. (lkcpu (locks s' ! k) = Some c) = (c < length (cpus (lmach s')) \<and> k \<in> set (held s' c)))"
  proof (cases "k = l")
    case True
    then show ?thesis using assms(2-4,7,8) by simp
  next
    case False
    have "locks s' ! k = locks s ! k" using False assms(3) by simp
    moreover have "k < length (locks s)" using k assms(3) by simp
    ultimately show ?thesis
      using assms(1,4,5,6) False unfolding lock_words_def by metis
  qed
qed

lemma words_step:
  assumes "lock_step s s'" "lock_inv s"
  shows "lock_words s'"
proof -
  have w: "lock_words s" and o: "lock_owners s" and d: "lock_depth s"
    using assms(2) by (simp_all add: lock_inv_def)
  note own = owner_unique [OF o]
  have wl: "locked (locks s ! l) \<noteq> 0 \<longleftrightarrow> (\<exists>i<length (cpus (lmach s)). owns s i l)"
    "lkcpu (locks s ! l) = Some c \<longleftrightarrow> c < length (cpus (lmach s)) \<and> l \<in> set (held s c)"
    if "l < length (locks s)" for l c
    using w that unfolding lock_words_def by blast+
  from assms(1) show ?thesis
  proof cases
    case (acq_enter i l M)
    note e = pushcli_effect [OF lock_inv_runs_on [OF d acq_enter(2)] acq_enter(6)]
    have "owns s' j k = owns s j k" for j k using acq_enter by (auto simp: owns_def)
    then show ?thesis using w e(2) acq_enter(1) by (simp add: lock_words_def)
  next
    case (acq_spin i l)
    have f: "locks s' = upd_at l (\<lambda>lk. lk\<lparr>locked := 1\<rparr>) (locks s)"
      by (simp add: acq_spin)
    have l: "l < length (locks s)" using o acq_spin by (auto simp: lock_owners_def)
    have "owns s' j k = owns s j k" for j k using acq_spin by (auto simp: owns_def)
    then show ?thesis
      using wl [OF l] acq_spin
      by (intro lock_words_update [OF w l f]) auto
  next
    case (acq_win i l)
    have f: "locks s' = upd_at l (\<lambda>lk. lk\<lparr>locked := 1\<rparr>) (locks s)"
      by (simp add: acq_win)
    have l: "l < length (locks s)" using o acq_win by (auto simp: lock_owners_def)
    have "owns s' j k = (owns s j k \<or> j = i \<and> k = l)" for j k
      using acq_win by (auto simp: owns_def)
    then show ?thesis
      using wl [OF l] acq_win by (intro lock_words_update [OF w l f]) auto
  next
    case (acq_return i l c)
    have f: "locks s' = upd_at l (\<lambda>lk. lk\<lparr>lkcpu := Some c, pcs := getcallerpcs (stack_word (lmach s)) (lk_arg (lmach s) (lapicid s i))\<rparr>) (locks s)"
      by (simp add: acq_return)
    have l: "l < length (locks s)" using o acq_return by (auto simp: lock_owners_def)
    have c: "c = i" using acq_return d lock_inv_runs_on [OF d acq_return(2)]
      by (auto simp: lock_depth_def mycpu_def runs_on_find split: if_splits)
    have i: "owns s i l" using acq_return by (simp add: owns_def)
    have "owns s' j k = owns s j k" for j k using acq_return by (auto simp: owns_def)
    moreover have "l \<notin> set (held s j)" if "j < length (cpus (lmach s))" "j \<noteq> i" for j
      using own [OF that(1) acq_return(2) _ i] that(2) by (auto simp: owns_def)
    ultimately show ?thesis
      using wl [OF l] acq_return i by (intro lock_words_update [OF w l f]) (auto simp: c)
  next
    case (rel_enter i l)
    have f: "locks s' = upd_at l (\<lambda>lk. lk\<lparr>pcs := (pcs lk)[0 := 0], lkcpu := None\<rparr>) (locks s)"
      by (simp add: rel_enter)
    have l: "l < length (locks s)" "distinct (held s i)" using o rel_enter by (auto simp: lock_owners_def)
    have i: "owns s i l" using rel_enter by (simp add: owns_def)
    have "owns s' j k = owns s j k" for j k using rel_enter l by (auto simp: owns_def)
    moreover have "l \<notin> set (held s j)" if "j < length (cpus (lmach s))" "j \<noteq> i" for j
      using own [OF that(1) rel_enter(2) _ i] that(2) by (auto simp: owns_def)
    ultimately show ?thesis
      using wl [OF l(1)] rel_enter i l(2) by (intro lock_words_update [OF w l(1) f]) auto
  next
    case (rel_store i l)
    have f: "locks s' = upd_at l (\<lambda>lk. lk\<lparr>locked := 0\<rparr>) (locks s)"
      by (simp add: rel_store)
    have l: "l < length (locks s)" "l \<notin> set (held s i)" using o rel_store by (auto simp: lock_owners_def)
    have i: "owns s i l" using rel_store by (simp add: owns_def)
    have "owns s' j k = (owns s j k \<and> \<not> (j = i \<and> k = l))" for j k
      using rel_store l by (auto simp: owns_def)
    moreover have "j = i" if "j < length (cpus (lmach s))" "owns s j l" for j
      using own [OF that(1) rel_store(2) that(2) i] .
    ultimately show ?thesis
      using wl [OF l(1)] rel_store by (intro lock_words_update [OF w l(1) f]) auto
  next
    case (rel_return i M)
    have n: "0 < ncli (cpus (lmach s) ! i)" "\<not> flag_if (hw (lmach s) (lapicid s i))"
      using d rel_return by (auto simp: lock_depth_def)
    note e = popcli_effect [OF lock_inv_runs_on [OF d rel_return(2)] rel_return(4) n(2,1)]
    have "owns s' j k = owns s j k" for j k using rel_return by (auto simp: owns_def)
    then show ?thesis using w e(2) rel_return(1) by (simp add: lock_words_def)
  qed
qed

lemma lock_inv_reachable: "lock_reachable s \<Longrightarrow> lock_inv s"
proof (induction rule: lock_reachable.induct)
  case (boot s)
  then show ?case
    by (auto simp: lock_inv_def lock_words_def lock_owners_def lock_depth_def owns_def)
next
  case (step s s')
  then have "lock_depth s" "lock_owners s" by (simp_all add: lock_inv_def)
  then show ?case
    using depth_step owners_step words_step step by (auto simp: lock_inv_def)
qed

subsection \<open>Properties\<close>

text \<open>
  C7: Mutual exclusion.  However the processors interleave inside
  \<^verbatim>\<open>acquire\<close> and \<^verbatim>\<open>release\<close>, no lock is ever held by two of them; a processor
  that holds locks has interrupts off and its \<^verbatim>\<open>ncli\<close> counts them.
\<close>

theorem spinlock_mutual_exclusion:
  assumes "lock_reachable s" "i < length (cpus (lmach s))" "j < length (cpus (lmach s))" "i \<noteq> j"
  shows "set (held s i) \<inter> set (held s j) = {}
    \<and> (held s i \<noteq> [] \<longrightarrow> \<not> flag_if (hw (lmach s) (lapicid s i)))
    \<and> int (length (held s i)) \<le> ncli (cpus (lmach s) ! i)"
proof -
  have "lock_owners s" "lock_depth s"
    using lock_inv_reachable [OF assms(1)] by (simp_all add: lock_inv_def)
  then show ?thesis
    using assms(2-4) by (auto simp: lock_owners_def lock_depth_def owns_def)
qed

definition two_cpus :: lockstate where
  "two_cpus = \<lparr>lmach = \<lparr>cpus = map (\<lambda>a. \<lparr>apicid = a, ts_esp0 = 0, started = 1, ncli = 0, intena = False,
      cproc = None, sched_policy = 0\<rparr>) [0, 1], hw = (\<lambda>_. \<lparr>flag_if = True, cr3 = 0\<rparr>),
      stack_word = (\<lambda>_. 0), lk_arg = (\<lambda>_. 0)\<rparr>,
      locks = [\<lparr>locked = 0, lkname = ''ptable'', lkcpu = None, pcs = []\<rparr>],
      lpc = (\<lambda>_. Outside), held = (\<lambda>_. [])\<rparr>"

lemma two_cpus_reachable: "lock_reachable two_cpus"
  by (rule lock_reachable.boot) (simp_all add: two_cpus_def)

theorem spinlock_mutual_exclusion_witness:
  "\<exists>s. lock_reachable s \<and> held s 0 = [0] \<and> set (held s 0) \<inter> set (held s 1) = {}"
proof -
  obtain M where M: "pushcli (lmach two_cpus) 0 = Done M" "cpus M \<noteq> []" "length (cpus M) = 2"
      "mycpu M 0 = Done 0" "apicid (cpus M ! 0) = 0"
    by (simp add: two_cpus_def pushcli_def mycpu_def Let_def set_cpu_def upd_at_def)
  let ?s1 = "goto 0 (Spinning 0) (two_cpus\<lparr>lmach := M\<rparr>)"
  let ?s2 = "goto 0 (Won 0) (set_lock 0 (\<lambda>lk. lk\<lparr>locked := 1\<rparr>) ?s1)"
  have "lock_step two_cpus ?s1"
    using acq_enter [of 0 two_cpus 0 M] M(1)
    by (simp add: two_cpus_def holding_def)
  then have "lock_reachable ?s1" using two_cpus_reachable by (rule lock_reachable.step [rotated])
  moreover have "lock_step ?s1 ?s2"
    using M by (intro acq_win) (simp_all add: two_cpus_def)
  ultimately have "lock_reachable ?s2" by (rule lock_reachable.step)
  moreover have "lock_step ?s2 (goto 0 Outside (set_lock 0 (\<lambda>lk. lk\<lparr>lkcpu := Some 0,
      pcs := getcallerpcs (stack_word (lmach ?s2)) (lk_arg (lmach ?s2) (lapicid ?s2 0))\<rparr>)
      (?s2\<lparr>held := (held ?s2)(0 := 0 # held ?s2 0)\<rparr>)))" (is "lock_step _ ?s3")
    using M by (intro acq_return) simp_all
  ultimately have "lock_reachable ?s3" by (rule lock_reachable.step)
  from spinlock_mutual_exclusion [OF this, of 0 1] this M(3) show ?thesis
    by (intro exI [of _ ?s3]) (simp add: two_cpus_def)
qed

text \<open>
  C9: In every reachable state the panics of \<^verbatim>\<open>spinlock.c\<close> cannot fire for
  code that does not acquire a lock it holds and releases only locks it
  holds: \<^verbatim>\<open>acquire\<close> passes its \<^verbatim>\<open>holding\<close> test, \<^verbatim>\<open>release\<close> finds the lock held by
  this processor, and the final \<^verbatim>\<open>popcli\<close> succeeds.
\<close>

theorem spinlock_no_panic:
  assumes "lock_reachable s" "i < length (cpus (lmach s))"
  shows "(l < length (locks s) \<and> l \<notin> set (held s i) \<longrightarrow>
      (\<exists>M. pushcli (lmach s) (lapicid s i) = Done M \<and> holding M (locks s ! l) (lapicid s i) = Done False))
    \<and> (l \<in> set (held s i) \<longrightarrow> holding (lmach s) (locks s ! l) (lapicid s i) = Done True)
    \<and> (lpc s i = Unlocked \<longrightarrow> (\<exists>M. popcli (lmach s) (lapicid s i) = Done M))"
proof -
  have w: "lock_words s" and o: "lock_owners s" and d: "lock_depth s"
    using lock_inv_reachable [OF assms(1)] by (simp_all add: lock_inv_def)
  note r = lock_inv_runs_on [OF d assms(2)]
  have "\<exists>M. pushcli (lmach s) (lapicid s i) = Done M \<and> holding M (locks s ! l) (lapicid s i) = Done False"
    if "l < length (locks s)" "l \<notin> set (held s i)"
  proof -
    obtain M where M: "pushcli (lmach s) (lapicid s i) = Done M" "runs_on M (lapicid s i) i"
        "\<not> flag_if (hw M (lapicid s i))"
      using pushcli_runs_on [OF r] r by (simp add: runs_on_set_cpu)
    then have "mycpu M (lapicid s i) = Done i" by (simp add: mycpu_runs_on)
    with M(1) w that show ?thesis by (auto simp: holding_def lock_words_def)
  qed
  moreover have "holding (lmach s) (locks s ! l) (lapicid s i) = Done True" if "l \<in> set (held s i)"
  proof -
    have "0 < length (held s i)" using that by (auto simp: length_pos_if_in_set)
    then have "\<not> flag_if (hw (lmach s) (lapicid s i))"
      using d assms(2) by (auto simp: lock_depth_def split: if_splits)
    then have "mycpu (lmach s) (lapicid s i) = Done i" using r by (simp add: mycpu_runs_on)
    moreover have "l < length (locks s)" using o assms(2) that by (auto simp: lock_owners_def)
    ultimately show ?thesis
      using w assms(2) that by (auto simp: holding_def lock_words_def owns_def)
  qed
  moreover have "\<exists>M. popcli (lmach s) (lapicid s i) = Done M" if "lpc s i = Unlocked"
    using popcli_runs_on [OF r] d assms(2) that by (auto simp: lock_depth_def)
  ultimately show ?thesis by blast
qed

theorem spinlock_no_panic_witness:
  "\<exists>M. pushcli (lmach two_cpus) 0 = Done M \<and> holding M (locks two_cpus ! 0) 0 = Done False"
  using spinlock_no_panic [OF two_cpus_reachable, of 0 0] by (simp add: two_cpus_def)

end
