(* ===== verification/Proc.thy ===== *)
theory Proc
  imports Vm Spinlock
begin

text \<open>
  The process table of \<^verbatim>\<open>proc.c\<close> and the operations that move a process
  between states.  A \<^verbatim>\<open>struct proc *\<close> is an index into \<open>procs\<close>.  Kernel stacks
  are pages of the allocator, and the trap frame and the saved context are
  written into that memory at the addresses the source computes.

  \<^verbatim>\<open>ptable.lock\<close> is explicit, because \<^verbatim>\<open>sched\<close> checks it.  A routine that
  switches to the scheduler is cut at the call of \<^verbatim>\<open>swtch\<close>: \<open>sched_enter\<close> is what
  runs before, \<open>sched_leave\<close> what runs when the process is resumed.
\<close>

datatype procstate = UNUSED | EMBRYO | SLEEPING | RUNNABLE | RUNNING | ZOMBIE

text \<open>The addresses the kernel sleeps on.\<close>

datatype chan =
    Chan_proc nat
  | Chan_ticks
  | Chan_log
  | Chan_buf nat
  | Chan_sleeplock nat
  | Chan_nread nat
  | Chan_nwrite nat
  | Chan_input

record proc =
  sz :: u32
  pgdir :: u32
  kstack :: u32
  state :: procstate
  pid :: int
  parent :: "nat option"
  tf :: u32
  pcontext :: u32
  chan :: "chan option"
  killed :: bool
  ofile :: "nat option list"
  cwd :: "nat option"
  pname :: string
  scheduler_entry :: u32
  check_thread :: int

record pstate =
  mach :: machine
  ptlock :: spinlock
  procs :: "proc list"
  initproc :: "nat option"
  nextpid :: int
  proc_priority :: "int list"
  proc_ticks :: "int list list"
  proc_wait_ticks :: "int list list"
  kpgdir :: u32
  km :: kmem

abbreviation set_proc :: "nat \<Rightarrow> (proc \<Rightarrow> proc) \<Rightarrow> pstate \<Rightarrow> pstate" where
  "set_proc i f s \<equiv> s\<lparr>procs := upd_at i f (procs s)\<rparr>"

abbreviation state_of :: "pstate \<Rightarrow> nat \<Rightarrow> procstate" where
  "state_of s i \<equiv> state (procs s ! i)"

subsection \<open>The table lock\<close>

definition acquire_pt :: "u8 \<Rightarrow> pstate \<Rightarrow> pstate outcome" where
  "acquire_pt a s = and_then (acquire (mach s) (ptlock s) a) (\<lambda>(M, lk). Done (s\<lparr>mach := M, ptlock := lk\<rparr>))"

definition release_pt :: "u8 \<Rightarrow> pstate \<Rightarrow> pstate outcome" where
  "release_pt a s = and_then (release (mach s) (ptlock s) a) (\<lambda>(M, lk). Done (s\<lparr>mach := M, ptlock := lk\<rparr>))"

definition pinit :: "pstate \<Rightarrow> pstate" where
  "pinit s = s\<lparr>ptlock := initlock ''ptable'' (ptlock s)\<rparr>"

definition myproc_pt :: "u8 \<Rightarrow> pstate \<Rightarrow> (pstate \<times> nat option) outcome" where
  "myproc_pt a s = and_then (myproc (mach s) a) (\<lambda>(M, p). Done (s\<lparr>mach := M\<rparr>, p))"

subsection \<open>Creating a process\<close>

text \<open>\<^verbatim>\<open>sizeof(struct trapframe)\<close> and \<^verbatim>\<open>sizeof(struct context)\<close>, and offsets of their fields.\<close>

definition sizeof_trapframe :: u32 where [layout_defs]: "sizeof_trapframe = 76"
definition sizeof_context :: u32 where [layout_defs]: "sizeof_context = 20"
definition context_eip :: u32 where [layout_defs]: "context_eip = 16"

text \<open>The critical section of \<^verbatim>\<open>allocproc\<close>: claim the first unused slot.\<close>

definition claim_slot :: "pstate \<Rightarrow> pstate \<times> nat option" where
  "claim_slot s =
     (case find_index (\<lambda>p. state p = UNUSED) (procs s) of
        None \<Rightarrow> (s, None)
      | Some i \<Rightarrow>
          let s = set_proc i (\<lambda>p. p\<lparr>state := EMBRYO, pid := nextpid s\<rparr>) s;
              s = s\<lparr>nextpid := int_inc (nextpid s),
                    proc_priority := (proc_priority s)[i := 3],
                    proc_ticks := (proc_ticks s)[i := replicate 4 0],
                    proc_wait_ticks := (proc_wait_ticks s)[i := replicate 4 0]\<rparr>
          in (s, Some i))"

text \<open>The rest of \<^verbatim>\<open>allocproc\<close>: the kernel stack with a trap frame and a first context.\<close>

definition setup_kstack :: "ksyms \<Rightarrow> nat \<Rightarrow> pstate \<Rightarrow> pstate \<times> nat option" where
  "setup_kstack sy i s =
     (let (k, st) = kalloc (km s); s = set_proc i (\<lambda>p. p\<lparr>kstack := st\<rparr>) (s\<lparr>km := k\<rparr>) in
      if st = 0 then (set_proc i (\<lambda>p. p\<lparr>state := UNUSED\<rparr>) s, None)
      else
        let sp = st + KSTACKSIZE;
            sp = sp - sizeof_trapframe;
            s = set_proc i (\<lambda>p. p\<lparr>tf := sp\<rparr>) s;
            sp = sp - 4;
            m = store32 (kmem_mem (km s)) sp (trapret_pc sy);
            sp = sp - sizeof_context;
            s = set_proc i (\<lambda>p. p\<lparr>pcontext := sp\<rparr>) s;
            m = memset m sp 0 sizeof_context;
            m = store32 m (sp + context_eip) (forkret_pc sy)
        in (s\<lparr>km := (km s)\<lparr>kmem_mem := m\<rparr>\<rparr>, Some i))"

definition allocproc :: "ksyms \<Rightarrow> u8 \<Rightarrow> pstate \<Rightarrow> (pstate \<times> nat option) outcome" where
  "allocproc sy a s =
     and_then (acquire_pt a s) (\<lambda>s.
     case claim_slot s of
       (s, None) \<Rightarrow> and_then (release_pt a s) (\<lambda>s. Done (s, None))
     | (s, Some i) \<Rightarrow> and_then (release_pt a s) (\<lambda>s. Done (setup_kstack sy i s)))"

subsection \<open>Switching address spaces\<close>

definition lcr3 :: "u8 \<Rightarrow> u32 \<Rightarrow> pstate \<Rightarrow> pstate" where
  "lcr3 a v s = s\<lparr>mach := (mach s)\<lparr>hw := (hw (mach s))(a := (hw (mach s) a)\<lparr>cr3 := v\<rparr>)\<rparr>\<rparr>"

definition switchkvm :: "u8 \<Rightarrow> pstate \<Rightarrow> pstate" where
  "switchkvm a s = lcr3 a (V2P (kpgdir s)) s"

definition switchuvm :: "u8 \<Rightarrow> nat option \<Rightarrow> pstate \<Rightarrow> pstate outcome" where
  "switchuvm a p s =
     (case p of
        None \<Rightarrow> Panic ''switchuvm: no process''
      | Some i \<Rightarrow>
          if kstack (procs s ! i) = 0 then Panic ''switchuvm: no kstack''
          else if pgdir (procs s ! i) = 0 then Panic ''switchuvm: no pgdir''
          else
            and_then (pushcli (mach s) a) (\<lambda>M.
            and_then (mycpu M a) (\<lambda>c.
            let M = set_cpu c (\<lambda>cp. cp\<lparr>ts_esp0 := kstack (procs s ! i) + KSTACKSIZE\<rparr>) M;
                s = lcr3 a (V2P (pgdir (procs s ! i))) (s\<lparr>mach := M\<rparr>)
            in and_then (popcli (mach s) a) (\<lambda>M. Done (s\<lparr>mach := M\<rparr>)))))"

subsection \<open>Giving up the processor\<close>

text \<open>\<^verbatim>\<open>sched\<close> up to the call of \<^verbatim>\<open>swtch\<close>; the result carries the saved \<^verbatim>\<open>intena\<close>.\<close>

definition sched_enter :: "u8 \<Rightarrow> pstate \<Rightarrow> (pstate \<times> bool) outcome" where
  "sched_enter a s =
     and_then (myproc_pt a s) (\<lambda>(s, p).
     and_then (holding (mach s) (ptlock s) a) (\<lambda>h.
     if \<not> h then Panic ''sched ptable.lock''
     else and_then (mycpu (mach s) a) (\<lambda>c.
     if ncli (cpus (mach s) ! c) \<noteq> 1 then Panic ''sched locks''
     else case p of
       None \<Rightarrow> Fault
     | Some i \<Rightarrow>
         if state_of s i = RUNNING then Panic ''sched running''
         else if flag_if (hw (mach s) a) then Panic ''sched interruptible''
         else Done (s, intena (cpus (mach s) ! c)))))"

text \<open>\<^verbatim>\<open>sched\<close> after \<^verbatim>\<open>swtch\<close> has returned, possibly on another processor.\<close>

definition sched_leave :: "u8 \<Rightarrow> bool \<Rightarrow> pstate \<Rightarrow> pstate outcome" where
  "sched_leave a ena s =
     and_then (mycpu (mach s) a) (\<lambda>c. Done (s\<lparr>mach := set_cpu c (\<lambda>cp. cp\<lparr>intena := ena\<rparr>) (mach s)\<rparr>))"

text \<open>
  \<^verbatim>\<open>proc_ticks[idx][proc_priority[idx]]++\<close>: C leaves the access undefined when
  the priority is not one of the four levels.
\<close>

definition count_tick :: "nat \<Rightarrow> pstate \<Rightarrow> pstate outcome" where
  "count_tick i s =
     (if 0 \<le> proc_priority s ! i \<and> proc_priority s ! i < 4
      then Done (s\<lparr>proc_ticks := upd_at i (upd_at (nat (proc_priority s ! i)) (\<lambda>t. t + 1)) (proc_ticks s)\<rparr>)
      else Fault)"

definition yield_enter :: "u8 \<Rightarrow> pstate \<Rightarrow> (pstate \<times> bool) outcome" where
  "yield_enter a s =
     and_then (acquire_pt a s) (\<lambda>s.
     and_then (myproc_pt a s) (\<lambda>(s, p).
     case p of
       None \<Rightarrow> Fault
     | Some i \<Rightarrow>
         and_then (count_tick i s) (\<lambda>s.
         and_then (myproc_pt a s) (\<lambda>(s, q).
         case q of
           None \<Rightarrow> Fault
         | Some j \<Rightarrow> sched_enter a (set_proc j (\<lambda>p. p\<lparr>state := RUNNABLE\<rparr>) s)))))"

definition yield_leave :: "u8 \<Rightarrow> bool \<Rightarrow> pstate \<Rightarrow> pstate outcome" where
  "yield_leave a ena s = and_then (sched_leave a ena s) (release_pt a)"

text \<open>The lock argument of \<^verbatim>\<open>sleep\<close>: null, the table lock itself, or some other lock.\<close>

datatype lockref = Null_lock | Ptable_lock | Other_lock spinlock

definition sleep_enter :: "u8 \<Rightarrow> chan \<Rightarrow> lockref \<Rightarrow> pstate \<Rightarrow> (pstate \<times> lockref \<times> bool) outcome" where
  "sleep_enter a ch lk s =
     and_then (myproc_pt a s) (\<lambda>(s, p).
     case p of
       None \<Rightarrow> Panic ''sleep''
     | Some i \<Rightarrow>
         and_then (case lk of
             Null_lock \<Rightarrow> Panic ''sleep without lk''
           | Ptable_lock \<Rightarrow> Done (s, lk)
           | Other_lock l \<Rightarrow>
               and_then (acquire_pt a s) (\<lambda>s.
               and_then (release (mach s) l a) (\<lambda>(M, l). Done (s\<lparr>mach := M\<rparr>, Other_lock l))))
         (\<lambda>(s, lk).
           let s = set_proc i (\<lambda>p. p\<lparr>chan := Some ch, state := SLEEPING\<rparr>) s
           in and_then (sched_enter a s) (\<lambda>(s, ena). Done (s, lk, ena))))"

definition sleep_leave :: "u8 \<Rightarrow> nat \<Rightarrow> lockref \<Rightarrow> bool \<Rightarrow> pstate \<Rightarrow> (pstate \<times> lockref) outcome" where
  "sleep_leave a i lk ena s =
     and_then (sched_leave a ena s) (\<lambda>s.
     let s = set_proc i (\<lambda>p. p\<lparr>chan := None\<rparr>) s in
     case lk of
       Other_lock l \<Rightarrow>
         and_then (release_pt a s) (\<lambda>s.
         and_then (acquire (mach s) l a) (\<lambda>(M, l). Done (s\<lparr>mach := M\<rparr>, Other_lock l)))
     | _ \<Rightarrow> Done (s, lk))"

subsection \<open>Waking and killing\<close>

text \<open>A null channel (\<open>None\<close>) is what \<^verbatim>\<open>exit\<close> passes for a process without a parent.\<close>

definition wakeup1 :: "chan option \<Rightarrow> pstate \<Rightarrow> pstate" where
  "wakeup1 ch s = s\<lparr>procs := map (\<lambda>p. if state p = SLEEPING \<and> chan p = ch
      then p\<lparr>state := RUNNABLE\<rparr> else p) (procs s)\<rparr>"

definition wakeup :: "u8 \<Rightarrow> chan \<Rightarrow> pstate \<Rightarrow> pstate outcome" where
  "wakeup a ch s = and_then (acquire_pt a s) (\<lambda>s. release_pt a (wakeup1 (Some ch) s))"

definition kill :: "u8 \<Rightarrow> int \<Rightarrow> pstate \<Rightarrow> (pstate \<times> int) outcome" where
  "kill a n s =
     and_then (acquire_pt a s) (\<lambda>s.
     case find_index (\<lambda>p. pid p = n) (procs s) of
       Some i \<Rightarrow>
         let s = set_proc i (\<lambda>p. p\<lparr>killed := True\<rparr>) s;
             s = (if state_of s i = SLEEPING then set_proc i (\<lambda>p. p\<lparr>state := RUNNABLE\<rparr>) s else s)
         in and_then (release_pt a s) (\<lambda>s. Done (s, 0))
     | None \<Rightarrow> and_then (release_pt a s) (\<lambda>s. Done (s, - 1)))"

definition find_proc_by_pid :: "int \<Rightarrow> pstate \<Rightarrow> nat option" where
  "find_proc_by_pid n s = find_index (\<lambda>p. pid p = n) (procs s)"

subsection \<open>Birth, exit and wait: the parts that touch the table\<close>

text \<open>The offset of \<^verbatim>\<open>eax\<close> in a trap frame.\<close>

definition trapframe_eax :: u32 where [layout_defs]: "trapframe_eax = 28"

text \<open>
  The part of \<^verbatim>\<open>fork\<close> between \<^verbatim>\<open>copyuvm\<close> and the open files, for a new address
  space \<open>d\<close>: size, parent, and the trap frame with a zero result.
\<close>

definition fork_copy :: "nat \<Rightarrow> nat \<Rightarrow> u32 \<Rightarrow> pstate \<Rightarrow> pstate" where
  "fork_copy cur np d s =
     (let s = set_proc np (\<lambda>p. p\<lparr>pgdir := d, sz := sz (procs s ! cur), parent := Some cur\<rparr>) s;
          m = memmove (kmem_mem (km s)) (tf (procs s ! np)) (tf (procs s ! cur)) sizeof_trapframe;
          m = store32 m (tf (procs s ! np) + trapframe_eax) 0
      in s\<lparr>km := (km s)\<lparr>kmem_mem := m\<rparr>\<rparr>)"

text \<open>\<^verbatim>\<open>fork\<close> when \<^verbatim>\<open>copyuvm\<close> has failed: give back the stack and the slot.\<close>

definition fork_abort :: "u32 \<Rightarrow> nat \<Rightarrow> pstate \<Rightarrow> pstate outcome" where
  "fork_abort ke np s =
     (let s = set_proc np (\<lambda>p. p\<lparr>pgdir := 0\<rparr>) s in
      and_then (kfree ke (km s) (kstack (procs s ! np))) (\<lambda>k.
      Done (set_proc np (\<lambda>p. p\<lparr>kstack := 0, state := UNUSED\<rparr>) (s\<lparr>km := k\<rparr>))))"

text \<open>The end of \<^verbatim>\<open>fork\<close> and of \<^verbatim>\<open>userinit\<close>: let the scheduler see the new process.\<close>

definition publish :: "u8 \<Rightarrow> nat \<Rightarrow> pstate \<Rightarrow> pstate outcome" where
  "publish a np s =
     and_then (acquire_pt a s) (\<lambda>s. release_pt a (set_proc np (\<lambda>p. p\<lparr>state := RUNNABLE\<rparr>) s))"

definition reparent :: "nat \<Rightarrow> nat \<Rightarrow> pstate \<Rightarrow> pstate" where
  "reparent cur j s =
     (if parent (procs s ! j) = Some cur
      then let s = set_proc j (\<lambda>p. p\<lparr>parent := initproc s\<rparr>) s
           in if state_of s j = ZOMBIE then wakeup1 (map_option Chan_proc (initproc s)) s else s
      else s)"

text \<open>\<^verbatim>\<open>exit\<close> from its \<^verbatim>\<open>acquire(&ptable.lock)\<close> on: it ends in \<^verbatim>\<open>sched\<close> and never comes back.\<close>

definition exit_enter :: "u8 \<Rightarrow> nat \<Rightarrow> pstate \<Rightarrow> (pstate \<times> bool) outcome" where
  "exit_enter a cur s =
     and_then (acquire_pt a s) (\<lambda>s.
     let s = wakeup1 (map_option Chan_proc (parent (procs s ! cur))) s;
         s = fold (reparent cur) [0..<length (procs s)] s
     in and_then (myproc_pt a s) (\<lambda>(s, p).
        case p of
          None \<Rightarrow> Fault
        | Some i \<Rightarrow>
            and_then (count_tick i s) (\<lambda>s.
            sched_enter a (set_proc cur (\<lambda>p. p\<lparr>state := ZOMBIE\<rparr>) s))))"

definition wait_reap :: "u32 \<Rightarrow> nat \<Rightarrow> pstate \<Rightarrow> pstate outcome" where
  "wait_reap ke j s =
     and_then (kfree ke (km s) (kstack (procs s ! j))) (\<lambda>k.
     let s = set_proc j (\<lambda>p. p\<lparr>kstack := 0\<rparr>) (s\<lparr>km := k\<rparr>) in
     and_then (freevm ke (km s) (pgdir (procs s ! j))) (\<lambda>k.
     Done (set_proc j (\<lambda>p. p\<lparr>pid := 0, parent := None, pname := [], killed := False, state := UNUSED\<rparr>)
       (s\<lparr>km := k\<rparr>))))"

text \<open>One turn of the loop of \<^verbatim>\<open>wait\<close>, entered with the table lock held: it returns a pid or sleeps.\<close>

datatype wait_result = Wait_returns int | Wait_sleeps bool

definition wait_turn :: "u32 \<Rightarrow> u8 \<Rightarrow> nat \<Rightarrow> pstate \<Rightarrow> (pstate \<times> wait_result) outcome" where
  "wait_turn ke a cur s =
     (case find_index (\<lambda>p. parent p = Some cur \<and> state p = ZOMBIE) (procs s) of
        Some j \<Rightarrow>
          let n = pid (procs s ! j) in
          and_then (wait_reap ke j s) (\<lambda>s.
          and_then (release_pt a s) (\<lambda>s. Done (s, Wait_returns n)))
      | None \<Rightarrow>
          let havekids = list_ex (\<lambda>p. parent p = Some cur) (procs s) in
          if \<not> havekids \<or> killed (procs s ! cur)
          then and_then (release_pt a s) (\<lambda>s. Done (s, Wait_returns (- 1)))
          else and_then (sleep_enter a (Chan_proc cur) Ptable_lock s) (\<lambda>(s, lk, ena).
               Done (s, Wait_sleeps ena)))"

end
