(* ===== verification/Sched.thy ===== *)
theory Sched
  imports Proc
begin

text \<open>
  The scheduler of \<^verbatim>\<open>proc.c\<close>: round robin (policy 0) and the multi-level
  feedback queue (any other policy; policy 3 without boosting).  Like the
  routines of \<^verbatim>\<open>Proc\<close>, the loop of \<^verbatim>\<open>scheduler\<close> is cut at its two calls of
  \<^verbatim>\<open>swtch\<close>; \<open>sched_local\<close> is what its local variables hold meanwhile.
\<close>

datatype sched_local = Rr nat | Mlfq int nat

text \<open>Where the scheduler is after a run: back at the head of its loop, or inside \<^verbatim>\<open>swtch\<close>.\<close>

datatype sched_at = At_top | Switched nat sched_local

subsection \<open>Choosing\<close>

fun choose_level :: "int list \<Rightarrow> pstate \<Rightarrow> nat option" where
  "choose_level [] s = None"
| "choose_level (l # ls) s =
     (case find_index (\<lambda>i. state_of s i = RUNNABLE \<and> proc_priority s ! i = l) [0..<length (procs s)] of
        Some i \<Rightarrow> Some i
      | None \<Rightarrow> choose_level ls s)"

definition mlfq_choose :: "pstate \<Rightarrow> nat option" where
  "mlfq_choose s = choose_level [3, 2, 1, 0] s"

definition rr_choose :: "nat \<Rightarrow> pstate \<Rightarrow> nat option" where
  "rr_choose j s = map_option (\<lambda>n. j + n)
     (find_index (\<lambda>i. state_of s i = RUNNABLE) [j..<length (procs s)])"

definition dispatch :: "u8 \<Rightarrow> nat \<Rightarrow> nat \<Rightarrow> pstate \<Rightarrow> pstate outcome" where
  "dispatch a c i s =
     and_then (switchuvm a (Some i) (s\<lparr>mach := set_cpu c (\<lambda>cp. cp\<lparr>cproc := Some i\<rparr>) (mach s)\<rparr>))
       (\<lambda>s. Done (set_proc i (\<lambda>p. p\<lparr>state := RUNNING\<rparr>) s))"

subsection \<open>Accounting\<close>

definition time_slices :: "int list" where "time_slices = [0, 32, 16, 8]"

text \<open>After a process has run: count the tick and demote it when its slice is used up.\<close>

definition mlfq_account :: "nat \<Rightarrow> pstate \<Rightarrow> pstate outcome" where
  "mlfq_account i s =
     and_then (count_tick i s) (\<lambda>s.
     let q = proc_priority s ! i in
     if proc_ticks s ! i ! nat q \<ge> time_slices ! nat q \<and> q > 0
     then Done (s\<lparr>proc_priority := (proc_priority s)[i := q - 1],
                  proc_wait_ticks := (proc_wait_ticks s)[i := replicate 4 0]\<rparr>)
     else Done s)"

definition age_one :: "nat option \<Rightarrow> nat \<Rightarrow> pstate \<Rightarrow> pstate outcome" where
  "age_one chosen i s =
     (if state_of s i = RUNNABLE \<and> chosen \<noteq> Some i
      then let q = proc_priority s ! i in
        if 0 \<le> q \<and> q < 4
        then Done (s\<lparr>proc_wait_ticks := upd_at i (upd_at (nat q) (\<lambda>t. t + 1)) (proc_wait_ticks s)\<rparr>)
        else Fault
      else Done s)"

definition mlfq_age :: "nat option \<Rightarrow> pstate \<Rightarrow> pstate outcome" where
  "mlfq_age chosen s = each (age_one chosen) [0..<length (procs s)] s"

text \<open>The waiting time after which level \<open>q\<close> is boosted.\<close>

definition boost_after :: "int \<Rightarrow> int" where
  "boost_after q = (if q = 0 then 500 else 10 * (time_slices ! nat q))"

definition boost_one :: "nat \<Rightarrow> pstate \<Rightarrow> pstate outcome" where
  "boost_one i s =
     (let q = proc_priority s ! i in
      if state_of s i = RUNNABLE \<and> q < 3
      then if 0 \<le> q
        then if proc_wait_ticks s ! i ! nat q \<ge> boost_after q
          then Done (s\<lparr>proc_priority := (proc_priority s)[i := q + 1],
                       proc_wait_ticks := (proc_wait_ticks s)[i := replicate 4 0]\<rparr>)
          else Done s
        else Fault
      else Done s)"

definition mlfq_boost :: "int \<Rightarrow> pstate \<Rightarrow> pstate outcome" where
  "mlfq_boost policy s = (if policy \<noteq> 3 then each boost_one [0..<length (procs s)] s else Done s)"

subsection \<open>The loop\<close>

text \<open>The tail of the loop body, after the process ran or when none was runnable.\<close>

definition mlfq_finish :: "u8 \<Rightarrow> int \<Rightarrow> nat option \<Rightarrow> pstate \<Rightarrow> (pstate \<times> sched_at) outcome" where
  "mlfq_finish a policy chosen s =
     and_then (mlfq_age chosen s) (\<lambda>s.
     and_then (mlfq_boost policy s) (\<lambda>s.
     and_then (release_pt a s) (\<lambda>s. Done (s, At_top))))"

definition rr_next :: "u8 \<Rightarrow> nat \<Rightarrow> nat \<Rightarrow> pstate \<Rightarrow> (pstate \<times> sched_at) outcome" where
  "rr_next a c j s =
     (case rr_choose j s of
        Some i \<Rightarrow> and_then (dispatch a c i s) (\<lambda>s. Done (s, Switched i (Rr i)))
      | None \<Rightarrow> and_then (release_pt a s) (\<lambda>s. Done (s, At_top)))"

text \<open>The entry of \<^verbatim>\<open>scheduler\<close>, before its loop.\<close>

definition scheduler_start :: "u8 \<Rightarrow> pstate \<Rightarrow> (pstate \<times> nat) outcome" where
  "scheduler_start a s =
     and_then (mycpu (mach s) a) (\<lambda>c.
     Done (s\<lparr>mach := set_cpu c (\<lambda>cp. cp\<lparr>cproc := None\<rparr>) (mach s)\<rparr>, c))"

text \<open>From the head of the loop to \<^verbatim>\<open>swtch\<close>, or once around the loop when nothing is runnable.\<close>

definition scheduler_top :: "u8 \<Rightarrow> nat \<Rightarrow> pstate \<Rightarrow> (pstate \<times> sched_at) outcome" where
  "scheduler_top a c s =
     and_then (acquire_pt a (s\<lparr>mach := sti (mach s) a\<rparr>)) (\<lambda>s.
     let policy = sched_policy (cpus (mach s) ! c) in
     if policy = 0 then rr_next a c 0 s
     else case mlfq_choose s of
       Some i \<Rightarrow> and_then (dispatch a c i s) (\<lambda>s. Done (s, Switched i (Mlfq policy i)))
     | None \<Rightarrow> mlfq_finish a policy None s)"

text \<open>From the return of \<^verbatim>\<open>swtch\<close> to the head of the loop, or to the next \<^verbatim>\<open>swtch\<close> of round robin.\<close>

definition scheduler_resume :: "u8 \<Rightarrow> nat \<Rightarrow> sched_local \<Rightarrow> pstate \<Rightarrow> (pstate \<times> sched_at) outcome" where
  "scheduler_resume a c loc s =
     (let s = switchkvm a s;
          idle = (\<lambda>s. s\<lparr>mach := set_cpu c (\<lambda>cp. cp\<lparr>cproc := None\<rparr>) (mach s)\<rparr>)
      in case loc of
           Rr j \<Rightarrow> rr_next a c (Suc j) (idle s)
         | Mlfq policy i \<Rightarrow>
             and_then (mlfq_account i s) (\<lambda>s. mlfq_finish a policy (Some i) (idle s)))"

subsection \<open>Well-formed tables\<close>

text \<open>The arrays have their sizes and every priority is one of the four levels.\<close>

definition table_wf :: "pstate \<Rightarrow> bool" where
  "table_wf s \<longleftrightarrow> length (procs s) = NPROC
     \<and> length (proc_priority s) = NPROC \<and> length (proc_ticks s) = NPROC \<and> length (proc_wait_ticks s) = NPROC
     \<and> (\<forall>i<NPROC. 0 \<le> proc_priority s ! i \<and> proc_priority s ! i < 4
          \<and> length (proc_ticks s ! i) = 4 \<and> length (proc_wait_ticks s ! i) = 4)"

lemma table_wfD:
  assumes "table_wf s"
  shows "length (procs s) = NPROC" "length (proc_priority s) = NPROC"
    "length (proc_ticks s) = NPROC" "length (proc_wait_ticks s) = NPROC"
    "i < NPROC \<Longrightarrow> 0 \<le> proc_priority s ! i" "i < NPROC \<Longrightarrow> proc_priority s ! i < 4"
    "i < NPROC \<Longrightarrow> length (proc_ticks s ! i) = 4" "i < NPROC \<Longrightarrow> length (proc_wait_ticks s ! i) = 4"
  using assms by (simp_all add: table_wf_def)

lemma table_wf_cong:
  "length (procs t) = length (procs s) \<Longrightarrow> proc_priority t = proc_priority s \<Longrightarrow>
   proc_ticks t = proc_ticks s \<Longrightarrow> proc_wait_ticks t = proc_wait_ticks s \<Longrightarrow> table_wf t = table_wf s"
  by (simp add: table_wf_def)

lemma table_wf_ticks:
  "table_wf s \<Longrightarrow> length ts = NPROC \<Longrightarrow> (\<And>j. j < NPROC \<Longrightarrow> length (ts ! j) = 4) \<Longrightarrow> table_wf (s\<lparr>proc_ticks := ts\<rparr>)"
  by (simp add: table_wf_def)

lemma table_wf_row:
  assumes "table_wf s" "0 \<le> q" "q < 4" "length w = 4"
  shows "table_wf (s\<lparr>proc_priority := (proc_priority s)[i := q], proc_wait_ticks := (proc_wait_ticks s)[i := w]\<rparr>)"
  using assms by (auto simp: table_wf_def nth_list_update_if)

lemma count_tick_wf:
  assumes "table_wf s" "i < NPROC"
  shows "\<exists>t. count_tick i s = Done t \<and> table_wf t"
  using assms table_wfD(5-6) [OF assms]
  by (auto simp: count_tick_def nth_upd_at table_wfD intro!: table_wf_ticks)

lemma mlfq_account_wf:
  assumes "table_wf s" "i < NPROC"
  shows "\<exists>t. mlfq_account i s = Done t \<and> table_wf t"
proof -
  obtain u where u: "count_tick i s = Done u" "table_wf u" using count_tick_wf [OF assms] by blast
  have "0 \<le> proc_priority u ! i" "proc_priority u ! i < 4" using u(2) assms(2) by (simp_all add: table_wfD)
  then show ?thesis using u by (auto simp: mlfq_account_def Let_def intro!: table_wf_row)
qed

lemma age_one_wf:
  assumes "table_wf s" "i < NPROC"
  shows "\<exists>t. age_one ch i s = Done t \<and> table_wf t"
  using assms by (auto simp: age_one_def Let_def table_wf_def nth_upd_at)

lemma boost_one_wf:
  assumes "table_wf s" "i < NPROC"
  shows "\<exists>t. boost_one i s = Done t \<and> table_wf t"
  using assms table_wfD(5) [OF assms] by (auto simp: boost_one_def Let_def intro!: table_wf_row)

lemma mlfq_age_wf: "table_wf s \<Longrightarrow> \<exists>t. mlfq_age ch s = Done t \<and> table_wf t"
  unfolding mlfq_age_def
  by (rule each_invariant) (auto simp: table_wfD(1) intro: age_one_wf)

lemma mlfq_boost_wf: "table_wf s \<Longrightarrow> \<exists>t. mlfq_boost policy s = Done t \<and> table_wf t"
  unfolding mlfq_boost_def
  by (auto simp: table_wfD(1) intro!: each_invariant boost_one_wf)

subsection \<open>Which process is chosen\<close>

lemma find_index_upt:
  "find_index P [j..<n] = Some k \<longleftrightarrow> j + k < n \<and> P (j + k) \<and> (\<forall>i. j \<le> i \<and> i < j + k \<longrightarrow> \<not> P i)"
  (is "_ \<longleftrightarrow> ?R")
proof
  assume "find_index P [j..<n] = Some k"
  then have "k < n - j" "P (j + k)" "\<forall>m<k. \<not> P (j + m)" by (auto simp: find_index_Some_iff)
  moreover have "\<not> P i" if "j \<le> i" "i < j + k" for i
    using \<open>\<forall>m<k. \<not> P (j + m)\<close> that by (metis le_add_diff_inverse nat_add_left_cancel_less)
  ultimately show ?R by auto
next
  assume ?R
  then show "find_index P [j..<n] = Some k" by (auto simp: find_index_Some_iff)
qed

lemma choose_level_None:
  "choose_level ls s = None \<longleftrightarrow>
     (\<forall>i<length (procs s). state_of s i = RUNNABLE \<longrightarrow> proc_priority s ! i \<notin> set ls)"
  by (induction ls) (auto simp: find_index_None_iff find_index_upt split: option.splits)

lemma choose_level_Some:
  assumes "choose_level ls s = Some i" "sorted_wrt (>) ls"
  shows "i < length (procs s) \<and> state_of s i = RUNNABLE \<and> proc_priority s ! i \<in> set ls
    \<and> (\<forall>j<length (procs s). state_of s j = RUNNABLE \<and> proc_priority s ! j \<in> set ls \<longrightarrow>
         proc_priority s ! j < proc_priority s ! i \<or> proc_priority s ! j = proc_priority s ! i \<and> i \<le> j)"
  using assms
proof (induction ls)
  case Nil
  then show ?case by simp
next
  case (Cons l ls)
  show ?case
  proof (cases "find_index (\<lambda>i. state_of s i = RUNNABLE \<and> proc_priority s ! i = l) [0..<length (procs s)]")
    case None
    then have "choose_level ls s = Some i" using Cons.prems by simp
    with Cons None show ?thesis by (fastforce simp: find_index_None_iff)
  next
    case (Some k)
    then have "k = i" using Cons.prems by simp
    with Some have "i < length (procs s)" "state_of s i = RUNNABLE" "proc_priority s ! i = l"
        "\<forall>j<i. \<not> (state_of s j = RUNNABLE \<and> proc_priority s ! j = l)"
      by (auto simp: find_index_upt)
    then show ?thesis using Cons.prems(2) by (auto simp: not_less [symmetric])
  qed
qed

lemma rr_choose_Some:
  "rr_choose j s = Some i \<longleftrightarrow> j \<le> i \<and> i < length (procs s) \<and> state_of s i = RUNNABLE
     \<and> (\<forall>k. j \<le> k \<and> k < i \<longrightarrow> state_of s k \<noteq> RUNNABLE)"
proof
  assume "rr_choose j s = Some i"
  then obtain n where "i = j + n" "find_index (\<lambda>i. state_of s i = RUNNABLE) [j..<length (procs s)] = Some n"
    by (auto simp: rr_choose_def)
  then show "j \<le> i \<and> i < length (procs s) \<and> state_of s i = RUNNABLE
     \<and> (\<forall>k. j \<le> k \<and> k < i \<longrightarrow> state_of s k \<noteq> RUNNABLE)" by (auto simp: find_index_upt)
next
  assume R: "j \<le> i \<and> i < length (procs s) \<and> state_of s i = RUNNABLE
     \<and> (\<forall>k. j \<le> k \<and> k < i \<longrightarrow> state_of s k \<noteq> RUNNABLE)"
  then have "find_index (\<lambda>i. state_of s i = RUNNABLE) [j..<length (procs s)] = Some (i - j)"
    by (auto simp: find_index_upt)
  with R show "rr_choose j s = Some i" by (simp add: rr_choose_def)
qed

lemma rr_choose_None:
  "rr_choose j s = None \<longleftrightarrow> (\<forall>i. j \<le> i \<and> i < length (procs s) \<longrightarrow> state_of s i \<noteq> RUNNABLE)"
  by (auto simp: rr_choose_def find_index_None_iff)

subsection \<open>The effect of ageing and boosting\<close>

text \<open>What the two loops do to the priority and waiting times of one process.\<close>

definition aged_row :: "procstate \<Rightarrow> bool \<Rightarrow> int \<Rightarrow> int list \<Rightarrow> int list" where
  "aged_row st other q w = (if st = RUNNABLE \<and> other then upd_at (nat q) (\<lambda>t. t + 1) w else w)"

definition boosted :: "procstate \<Rightarrow> int \<Rightarrow> int list \<Rightarrow> bool" where
  "boosted st q w \<longleftrightarrow> st = RUNNABLE \<and> q < 3 \<and> w ! nat q \<ge> boost_after q"

text \<open>Everything but the three arrays of the feedback queue.\<close>

definition same_rest :: "pstate \<Rightarrow> pstate \<Rightarrow> bool" where
  "same_rest s t \<longleftrightarrow> procs t = procs s \<and> mach t = mach s \<and> ptlock t = ptlock s \<and> initproc t = initproc s
     \<and> nextpid t = nextpid s \<and> kpgdir t = kpgdir s \<and> km t = km s"

lemma same_rest_refl: "same_rest s s" by (simp add: same_rest_def)

lemma same_rest_trans: "same_rest s t \<Longrightarrow> same_rest t u \<Longrightarrow> same_rest s u"
  by (simp add: same_rest_def)

lemma count_tick_frame: "count_tick i s = Done t \<Longrightarrow> same_rest s t"
  by (auto simp: count_tick_def same_rest_def split: if_splits)

lemma mlfq_account_frame:
  assumes "mlfq_account i s = Done t"
  shows "same_rest s t"
proof -
  from assms obtain u where u: "count_tick i s = Done u" and
    t: "(let q = proc_priority u ! i in
      if proc_ticks u ! i ! nat q \<ge> time_slices ! nat q \<and> q > 0
      then Done (u\<lparr>proc_priority := (proc_priority u)[i := q - 1],
                   proc_wait_ticks := (proc_wait_ticks u)[i := replicate 4 0]\<rparr>)
      else Done u) = Done t"
    unfolding mlfq_account_def by (rule and_then_DoneE)
  from t have "same_rest u t" by (auto simp: Let_def same_rest_def split: if_splits)
  with count_tick_frame [OF u] show ?thesis by (rule same_rest_trans)
qed

lemma age_one_frame:
  "age_one ch i s = Done t \<Longrightarrow> same_rest s t \<and> proc_priority t = proc_priority s \<and> proc_ticks t = proc_ticks s"
  by (auto simp: age_one_def Let_def same_rest_def split: if_splits)

lemma mlfq_age_frame:
  assumes "mlfq_age ch s = Done t"
  shows "same_rest s t \<and> proc_priority t = proc_priority s \<and> proc_ticks t = proc_ticks s"
  by (rule each_preserves [OF assms [unfolded mlfq_age_def]])
    (auto simp: same_rest_def dest!: age_one_frame)

lemma mlfq_age_row:
  assumes "mlfq_age ch s = Done t" "table_wf s" "i < NPROC"
  shows "proc_wait_ticks t ! i
    = aged_row (state_of s i) (ch \<noteq> Some i) (proc_priority s ! i) (proc_wait_ticks s ! i)"
proof -
  let ?P = "\<lambda>u. table_wf u \<and> procs u = procs s \<and> proc_priority u = proc_priority s"
  let ?g = "\<lambda>i. aged_row (state_of s i) (ch \<noteq> Some i) (proc_priority s ! i)"
  have "proc_wait_ticks t ! i = (if i \<in> set [0..<length (procs s)] then ?g i (proc_wait_ticks s ! i)
      else proc_wait_ticks s ! i)"
  proof (rule each_local [OF assms(1) [unfolded mlfq_age_def], where P = ?P and get = "\<lambda>i u. proc_wait_ticks u ! i" and g = ?g])
    show "?P s" using assms(2) by simp
    fix j u v assume j: "j \<in> set [0..<length (procs s)]" and P: "?P u" and v: "age_one ch j u = Done v"
    have jn: "j < NPROC" using j assms(2) by (simp add: table_wfD)
    have "table_wf v" using age_one_wf [of u j ch] P jn v by auto
    moreover have "procs v = procs s \<and> proc_priority v = proc_priority s"
      using age_one_frame [OF v] P by (simp add: same_rest_def)
    moreover have "j < length (proc_wait_ticks u)" using P jn by (auto dest: table_wfD)
    ultimately show "?P v \<and> proc_wait_ticks v ! j = ?g j (proc_wait_ticks u ! j)"
      using v P by (auto simp: age_one_def aged_row_def Let_def split: if_splits)
  next
    fix j k u v assume "age_one ch j u = Done v" "k \<noteq> j"
    then show "proc_wait_ticks v ! k = proc_wait_ticks u ! k"
      by (auto simp: age_one_def Let_def split: if_splits)
  qed simp
  then show ?thesis using assms by (simp add: table_wfD)
qed

lemma boost_one_frame: "boost_one i s = Done t \<Longrightarrow> same_rest s t \<and> proc_ticks t = proc_ticks s"
  by (auto simp: boost_one_def Let_def same_rest_def split: if_splits)

lemma mlfq_boost_frame:
  assumes "mlfq_boost policy s = Done t"
  shows "same_rest s t \<and> proc_ticks t = proc_ticks s"
proof (cases "policy = 3")
  case True
  then show ?thesis using assms by (simp add: mlfq_boost_def same_rest_refl)
next
  case False
  then have "each boost_one [0..<length (procs s)] s = Done t" using assms by (simp add: mlfq_boost_def)
  then show ?thesis
    by (rule each_preserves) (auto simp: same_rest_def dest!: boost_one_frame)
qed

lemma mlfq_boost_row:
  assumes "mlfq_boost policy s = Done t" "policy \<noteq> 3" "table_wf s" "i < NPROC"
  shows "(proc_priority t ! i, proc_wait_ticks t ! i)
    = (if boosted (state_of s i) (proc_priority s ! i) (proc_wait_ticks s ! i)
       then (proc_priority s ! i + 1, replicate 4 0) else (proc_priority s ! i, proc_wait_ticks s ! i))"
proof -
  let ?P = "\<lambda>u. table_wf u \<and> procs u = procs s"
  let ?get = "\<lambda>i u. (proc_priority u ! i, proc_wait_ticks u ! i)"
  let ?g = "\<lambda>i (q, w). if boosted (state_of s i) q w then (q + 1, replicate 4 0) else (q, w)"
  have "each boost_one [0..<length (procs s)] s = Done t" using assms by (simp add: mlfq_boost_def)
  then have "?get i t = (if i \<in> set [0..<length (procs s)] then ?g i (?get i s) else ?get i s)"
  proof (rule each_local [where P = ?P])
    show "?P s" using assms(3) by simp
    fix j u v assume j: "j \<in> set [0..<length (procs s)]" and P: "?P u" and v: "boost_one j u = Done v"
    have jn: "j < NPROC" using j assms(3) by (simp add: table_wfD)
    have "table_wf v" using boost_one_wf [of u j] P jn v by auto
    moreover have "procs v = procs s" using boost_one_frame [OF v] P by (simp add: same_rest_def)
    moreover have "j < length (proc_priority u)" "j < length (proc_wait_ticks u)"
      using P jn by (auto simp: table_wfD)
    ultimately show "?P v \<and> ?get j v = ?g j (?get j u)"
      using v P by (auto simp: boost_one_def boosted_def Let_def split: if_splits)
  next
    fix j k u v assume "boost_one j u = Done v" "k \<noteq> j"
    then show "?get k v = ?get k u" by (auto simp: boost_one_def Let_def split: if_splits)
  qed simp
  then show ?thesis using assms by (simp add: table_wfD)
qed

subsection \<open>One pass over the queue\<close>

lemma release_pt_frame:
  assumes "release_pt a s = Done t"
  shows "procs t = procs s \<and> proc_priority t = proc_priority s \<and> proc_ticks t = proc_ticks s
    \<and> proc_wait_ticks t = proc_wait_ticks s \<and> nextpid t = nextpid s \<and> km t = km s"
  using assms by (auto simp: release_pt_def outcome_simps)

lemma mlfq_finish_split:
  assumes "mlfq_finish a policy ch s = Done (t, at)"
  obtains u v where "mlfq_age ch s = Done u" "mlfq_boost policy u = Done v" "release_pt a v = Done t" "at = At_top"
  using assms by (auto simp: mlfq_finish_def outcome_simps)

lemma mlfq_finish_rows:
  assumes "mlfq_finish a policy ch s = Done (t, at)" "table_wf s"
  shows "table_wf t \<and> procs t = procs s \<and> proc_ticks t = proc_ticks s"
proof -
  from assms(1) obtain u v where u: "mlfq_age ch s = Done u" and v: "mlfq_boost policy u = Done v"
    and t: "release_pt a v = Done t" by (rule mlfq_finish_split)
  have "table_wf u" using mlfq_age_wf [OF assms(2), of ch] u by auto
  then have "table_wf v" using mlfq_boost_wf [of u policy] v by auto
  moreover have "table_wf t = table_wf v"
    using release_pt_frame [OF t] by (intro table_wf_cong) simp_all
  ultimately show ?thesis
    using mlfq_age_frame [OF u] mlfq_boost_frame [OF v] release_pt_frame [OF t]
    by (simp add: same_rest_def)
qed

lemma mlfq_finish_Done:
  assumes "table_wf s" "runs_on (mach s) a c" "locked (ptlock s) \<noteq> 0" "lkcpu (ptlock s) = Some c"
    and "\<not> flag_if (hw (mach s) a)" "0 < ncli (cpus (mach s) ! c)"
  shows "\<exists>t. mlfq_finish a policy ch s = Done (t, At_top)"
proof -
  obtain u where u: "mlfq_age ch s = Done u" "table_wf u" using mlfq_age_wf [OF assms(1)] by blast
  obtain v where v: "mlfq_boost policy u = Done v" using mlfq_boost_wf [OF u(2)] by blast
  have same: "mach v = mach s" "ptlock v = ptlock s"
    using mlfq_age_frame [OF u(1)] mlfq_boost_frame [OF v] by (simp_all add: same_rest_def)
  obtain M where "popcli (mach s) a = Done M" using popcli_runs_on [OF assms(2,5,6)] by blast
  then have "\<exists>t. release_pt a v = Done t"
    using release_held [OF assms(2,3,4,5)] by (simp add: release_pt_def same)
  then show ?thesis using u v by (auto simp: mlfq_finish_def)
qed

text \<open>Accounting adds one tick at the current level and demotes when the slice is used up.\<close>

lemma mlfq_account_row:
  assumes "mlfq_account i s = Done t" "table_wf s" "i < NPROC"
  shows "j < NPROC \<Longrightarrow> proc_priority t ! j = proc_priority s ! j - (if j = i \<and> proc_priority s ! i > 0
      \<and> proc_ticks s ! i ! nat (proc_priority s ! i) + 1 \<ge> time_slices ! nat (proc_priority s ! i) then 1 else 0)"
    and "proc_ticks t ! i ! nat (proc_priority s ! i) = proc_ticks s ! i ! nat (proc_priority s ! i) + 1"
proof -
  let ?q = "proc_priority s ! i"
  define u where "u = s\<lparr>proc_ticks := upd_at i (upd_at (nat ?q) (\<lambda>t. t + 1)) (proc_ticks s)\<rparr>"
  have b: "0 \<le> ?q" "?q < 4" "nat ?q < length (proc_ticks s ! i)" "i < length (proc_ticks s)"
      "length (proc_priority s) = NPROC"
    using table_wfD(1-4) [OF assms(2)] table_wfD(5-8) [OF assms(2,3)] assms(3) by auto
  have "count_tick i s = Done u" using b by (simp add: count_tick_def u_def)
  moreover have tick: "proc_ticks u ! i ! nat ?q = proc_ticks s ! i ! nat ?q + 1" using b by (simp add: u_def)
  moreover have "proc_priority u = proc_priority s" by (simp add: u_def)
  ultimately have t: "t = (if time_slices ! nat ?q \<le> proc_ticks s ! i ! nat ?q + 1 \<and> 0 < ?q
      then u\<lparr>proc_priority := (proc_priority s)[i := ?q - 1], proc_wait_ticks := (proc_wait_ticks u)[i := replicate 4 0]\<rparr>
      else u)"
    using assms(1) by (auto simp: mlfq_account_def Let_def split: if_splits)
  show "proc_ticks t ! i ! nat ?q = proc_ticks s ! i ! nat ?q + 1" using tick by (simp add: t)
  show "proc_priority t ! j = proc_priority s ! j - (if j = i \<and> ?q > 0
      \<and> proc_ticks s ! i ! nat ?q + 1 \<ge> time_slices ! nat ?q then 1 else 0)" if "j < NPROC"
    using that b(5) by (auto simp: t u_def nth_list_update_if)
qed

text \<open>A runnable process that was not chosen has waited one pass longer, and is raised when that is enough.\<close>

lemma mlfq_finish_waiting:
  assumes "mlfq_finish a policy ch s = Done (t, at)" "table_wf s" "i < NPROC"
    and "policy \<noteq> 3" "state_of s i = RUNNABLE" "ch \<noteq> Some i"
  shows "let q = proc_priority s ! i; w = proc_wait_ticks s ! i ! nat q + 1 in
    if q < 3 \<and> w \<ge> boost_after q
    then proc_priority t ! i = q + 1 \<and> proc_wait_ticks t ! i = replicate 4 0
    else proc_priority t ! i = q \<and> proc_wait_ticks t ! i ! nat q = w"
proof -
  from assms(1) obtain u v where u: "mlfq_age ch s = Done u" and v: "mlfq_boost policy u = Done v"
    and t: "release_pt a v = Done t" by (rule mlfq_finish_split)
  have wu: "table_wf u" using mlfq_age_wf [OF assms(2), of ch] u by auto
  have fu: "state_of u i = RUNNABLE" "proc_priority u ! i = proc_priority s ! i"
    using mlfq_age_frame [OF u] assms(5) by (simp_all add: same_rest_def)
  have "proc_wait_ticks u ! i = upd_at (nat (proc_priority s ! i)) (\<lambda>t. t + 1) (proc_wait_ticks s ! i)"
    using mlfq_age_row [OF u assms(2,3)] assms(5,6) by (simp add: aged_row_def)
  moreover have "nat (proc_priority s ! i) < length (proc_wait_ticks s ! i)"
    using table_wfD(5,6,8) [OF assms(2,3)] by simp
  ultimately have "proc_wait_ticks u ! i ! nat (proc_priority s ! i)
      = proc_wait_ticks s ! i ! nat (proc_priority s ! i) + 1" by simp
  then show ?thesis
    using mlfq_boost_row [OF v assms(4) wu assms(3)] release_pt_frame [OF t] fu
    by (auto simp: boosted_def Let_def)
qed

text \<open>How many more passes a process at level \<open>q\<close> that has waited \<open>w\<close> of them can be kept below level 3.\<close>

definition passes_left :: "int \<Rightarrow> int \<Rightarrow> int" where
  "passes_left q w = (if q = 0 then max 1 (500 - w) + 320 + 160 else if q = 1 then max 1 (320 - w) + 160
     else if q = 2 then max 1 (160 - w) else 0)"

definition waited :: "nat \<Rightarrow> pstate \<Rightarrow> int" where
  "waited i s = proc_wait_ticks s ! i ! nat (proc_priority s ! i)"

text \<open>
  \<open>passed_over i n s t\<close>: from \<open>s\<close> to \<open>t\<close> process \<open>i\<close> stays runnable while \<open>n\<close> passes
  of a boosting scheduler choose some other process or none; in between
  anything may happen that leaves the priority and waiting times of \<open>i\<close> alone.
\<close>

inductive passed_over :: "nat \<Rightarrow> nat \<Rightarrow> pstate \<Rightarrow> pstate \<Rightarrow> bool" for i :: nat where
  start: "\<lbrakk>table_wf s; state_of s i = RUNNABLE\<rbrakk> \<Longrightarrow> passed_over i 0 s s"
| other: "\<lbrakk>passed_over i n s t; table_wf u; state_of u i = RUNNABLE;
     proc_priority u ! i = proc_priority t ! i; proc_wait_ticks u ! i = proc_wait_ticks t ! i\<rbrakk>
   \<Longrightarrow> passed_over i n s u"
| pass: "\<lbrakk>passed_over i n s t; policy \<noteq> 3; ch \<noteq> Some i; mlfq_finish a policy ch t = Done (u, at)\<rbrakk>
   \<Longrightarrow> passed_over i (Suc n) s u"

lemma passes_left_pass:
  assumes "mlfq_finish a policy ch s = Done (t, at)" "table_wf s" "i < NPROC"
    and "policy \<noteq> 3" "state_of s i = RUNNABLE" "ch \<noteq> Some i" "0 \<le> waited i s"
  shows "0 \<le> waited i t \<and>
    (passes_left (proc_priority t ! i) (waited i t) \<le> passes_left (proc_priority s ! i) (waited i s) - 1
     \<or> proc_priority t ! i = 3)"
proof -
  have q: "proc_priority s ! i = 0 \<or> proc_priority s ! i = 1 \<or> proc_priority s ! i = 2 \<or> proc_priority s ! i = 3"
    using table_wfD(5,6) [OF assms(2,3)] by linarith
  show ?thesis
    using q assms(7) mlfq_finish_waiting [OF assms(1-6)]
    by (auto simp: waited_def passes_left_def boost_after_def time_slices_def Let_def numeral_2_eq_2 numeral_3_eq_3
        split: if_splits)
qed

lemma passed_over_bound:
  assumes "passed_over i n s t" "i < NPROC" "0 \<le> waited i s"
  shows "table_wf t \<and> state_of t i = RUNNABLE \<and> 0 \<le> waited i t \<and>
    (int n \<le> passes_left (proc_priority s ! i) (waited i s) - passes_left (proc_priority t ! i) (waited i t)
     \<or> proc_priority t ! i = 3)"
  using assms
proof (induction rule: passed_over.induct)
  case (start s)
  then show ?case by simp
next
  case (other n s t u)
  then show ?case by (simp add: waited_def)
next
  case (pass n s t policy ch a u at)
  then have IH: "table_wf t" "state_of t i = RUNNABLE" "0 \<le> waited i t"
    "int n \<le> passes_left (proc_priority s ! i) (waited i s) - passes_left (proc_priority t ! i) (waited i t)
     \<or> proc_priority t ! i = 3" by auto
  have r: "table_wf u" "state_of u i = RUNNABLE"
    using mlfq_finish_rows [OF pass(4) IH(1)] IH(2) by simp_all
  have "proc_priority u ! i = 3" if "proc_priority t ! i = 3"
    using mlfq_finish_waiting [OF pass(4) IH(1) pass.prems(1) pass(2) IH(2) pass(3)] that by (simp add: Let_def)
  then show ?case
    using passes_left_pass [OF pass(4) IH(1) pass.prems(1) pass(2) IH(2) pass(3) IH(3)] IH(4) r by auto
qed

subsection \<open>Properties of the feedback queue\<close>

text \<open>
  C5: The feedback queue chooses a runnable process of the highest occupied
  priority, and among those the one with the lowest index in the table; it
  chooses none only when no process is runnable.
\<close>

theorem mlfq_choose_highest:
  assumes "table_wf s"
  shows "mlfq_choose s = Some i \<longleftrightarrow>
      i < NPROC \<and> state_of s i = RUNNABLE \<and>
      (\<forall>j<NPROC. state_of s j = RUNNABLE \<longrightarrow>
         proc_priority s ! j < proc_priority s ! i \<or>
         proc_priority s ! j = proc_priority s ! i \<and> i \<le> j)"
    (is "?L \<longleftrightarrow> ?R i")
proof -
  have lev: "proc_priority s ! j \<in> set [3, 2, 1, 0]" if "j < NPROC" for j
    using table_wfD(5,6) [OF assms that] by auto
  have some: "?R k" if "mlfq_choose s = Some k" for k
    using choose_level_Some [of "[3, 2, 1, 0]" s k] that lev
    by (simp add: mlfq_choose_def table_wfD(1) [OF assms])
  show ?thesis
  proof
    assume R: "?R i"
    then have "choose_level [3, 2, 1, 0] s \<noteq> None"
      using lev [of i] choose_level_None [of "[3, 2, 1, 0]" s] table_wfD(1) [OF assms] by metis
    then obtain k where k: "mlfq_choose s = Some k" by (auto simp: mlfq_choose_def)
    then have "k = i" using some [OF k] R by (metis less_asym nle_le)
    with k show ?L by simp
  qed (rule some)
qed

definition three_procs :: pstate where
  "three_procs = \<lparr>mach = \<lparr>cpus = [\<lparr>apicid = 0, ts_esp0 = 0, started = 1, ncli = 0, intena = True, cproc = None,
        sched_policy = 1\<rparr>], hw = (\<lambda>_. \<lparr>flag_if = False, cr3 = 0\<rparr>), stack_word = (\<lambda>_. 0), lk_arg = (\<lambda>_. 0)\<rparr>,
     ptlock = \<lparr>locked = 0, lkname = ''ptable'', lkcpu = None, pcs = []\<rparr>,
     procs = (replicate NPROC \<lparr>sz = 0, pgdir = 0, kstack = 0, state = UNUSED, pid = 0, parent = None, tf = 0,
        pcontext = 0, chan = None, killed = False, ofile = replicate NOFILE None, cwd = None, pname = [],
        scheduler_entry = 0, check_thread = 0\<rparr>)
       [0 := \<lparr>sz = 4096, pgdir = 0x80400000, kstack = 0x80401000, state = SLEEPING, pid = 1, parent = None, tf = 0,
          pcontext = 0, chan = Some (Chan_proc 0), killed = False, ofile = replicate NOFILE None, cwd = None,
          pname = ''init'', scheduler_entry = 0, check_thread = 0\<rparr>,
        1 := \<lparr>sz = 4096, pgdir = 0x80402000, kstack = 0x80403000, state = RUNNABLE, pid = 2, parent = Some 0, tf = 0,
          pcontext = 0, chan = None, killed = False, ofile = replicate NOFILE None, cwd = None,
          pname = ''sh'', scheduler_entry = 0, check_thread = 0\<rparr>,
        2 := \<lparr>sz = 4096, pgdir = 0x80404000, kstack = 0x80405000, state = RUNNABLE, pid = 3, parent = Some 1, tf = 0,
          pcontext = 0, chan = None, killed = False, ofile = replicate NOFILE None, cwd = None,
          pname = ''cat'', scheduler_entry = 0, check_thread = 0\<rparr>],
     initproc = Some 0, nextpid = 4,
     proc_priority = (replicate NPROC 0)[0 := 3, 1 := 1, 2 := 2],
     proc_ticks = replicate NPROC (replicate 4 0),
     proc_wait_ticks = replicate NPROC (replicate 4 0),
     kpgdir = 0x803FF000, km = \<lparr>kmem_mem = (\<lambda>_. 0), use_lock = True, freelist = 0\<rparr>\<rparr>"

lemma three_procs_wf: "table_wf three_procs"
  by (simp add: table_wf_def three_procs_def nth_list_update_if NPROC_def)

theorem mlfq_choose_highest_witness: "mlfq_choose three_procs = Some 2"
proof -
  have "\<forall>j<NPROC. state_of three_procs j = RUNNABLE \<longrightarrow> proc_priority three_procs ! j < proc_priority three_procs ! 2
      \<or> proc_priority three_procs ! j = proc_priority three_procs ! 2 \<and> 2 \<le> j"
    by (simp add: three_procs_def nth_list_update_if NPROC_def)
  then show ?thesis
    using mlfq_choose_highest [OF three_procs_wf, of 2] by (simp add: three_procs_def NPROC_def)
qed

text \<open>
  C6: Anti-starvation under the boosting policies.  A process that stays
  runnable while 980 passes of the scheduler pick others is at the top level
  by then, whatever level it started at: 500 passes at level 0, 320 at level
  1 and 160 at level 2 are the longest it can be kept there.
\<close>

theorem mlfq_no_starvation:
  assumes "passed_over i n s t" "i < NPROC" "0 \<le> waited i s"
    and "passes_left (proc_priority s ! i) (waited i s) \<le> int n"
  shows "proc_priority t ! i = 3 \<and> passes_left (proc_priority s ! i) (waited i s) \<le> 980"
proof -
  have b: "table_wf t" "int n \<le> passes_left (proc_priority s ! i) (waited i s)
      - passes_left (proc_priority t ! i) (waited i t) \<or> proc_priority t ! i = 3"
    using passed_over_bound [OF assms(1-3)] by simp_all
  have "1 \<le> passes_left (proc_priority t ! i) (waited i t) \<or> proc_priority t ! i = 3"
    using table_wfD(5,6) [OF b(1) assms(2)] by (auto simp: passes_left_def)
  moreover have "passes_left (proc_priority s ! i) (waited i s) \<le> 980"
    using assms(3) by (simp add: passes_left_def)
  ultimately show ?thesis using b(2) assms(4) by linarith
qed

definition about_to_boost :: pstate where
  "about_to_boost = three_procs\<lparr>
     ptlock := \<lparr>locked = 1, lkname = ''ptable'', lkcpu = Some 0, pcs = []\<rparr>,
     mach := set_cpu 0 (\<lambda>c. c\<lparr>ncli := 1\<rparr>) (mach three_procs),
     proc_wait_ticks := (replicate NPROC (replicate 4 0))[2 := [0, 0, 159, 0]]\<rparr>"

theorem mlfq_no_starvation_witness:
  "\<exists>t. passed_over 2 1 about_to_boost t \<and> proc_priority about_to_boost ! 2 = 2 \<and> proc_priority t ! 2 = 3"
proof -
  have wf: "table_wf about_to_boost"
    by (simp add: table_wf_def about_to_boost_def three_procs_def nth_list_update_if NPROC_def)
  have two: "state_of about_to_boost 2 = RUNNABLE" "proc_priority about_to_boost ! 2 = 2"
      "waited 2 about_to_boost = 159"
    by (simp_all add: about_to_boost_def three_procs_def waited_def NPROC_def)
  obtain t where t: "mlfq_finish 0 1 (Some 1) about_to_boost = Done (t, At_top)"
    using mlfq_finish_Done [OF wf, of 0 0 1 "Some 1"]
    by (auto simp: about_to_boost_def three_procs_def runs_on_def set_cpu_def upd_at_def)
  have run: "passed_over 2 1 about_to_boost t"
    using passed_over.pass [OF passed_over.start [OF wf two(1)] _ _ t] by simp
  from mlfq_no_starvation [OF run] two run show ?thesis by (auto simp: NPROC_def passes_left_def)
qed

text \<open>The scheduler after a process has run under the feedback queue.\<close>

lemma scheduler_resume_mlfq:
  assumes "scheduler_resume a c (Mlfq policy i) s = Done (t, at)" "table_wf s" "i < NPROC"
  obtains u v where "mlfq_account i (switchkvm a s) = Done u" "table_wf (switchkvm a s)"
    "v = u\<lparr>mach := set_cpu c (\<lambda>cp. cp\<lparr>cproc := None\<rparr>) (mach u)\<rparr>" "table_wf v"
    "mlfq_finish a policy (Some i) v = Done (t, at)"
proof -
  let ?s = "switchkvm a s"
  have wf: "table_wf ?s" using assms(2) by (simp add: switchkvm_def lcr3_def table_wf_def)
  then obtain u where u: "mlfq_account i ?s = Done u" "table_wf u" using mlfq_account_wf assms(3) by blast
  let ?v = "u\<lparr>mach := set_cpu c (\<lambda>cp. cp\<lparr>cproc := None\<rparr>) (mach u)\<rparr>"
  have "table_wf ?v" using u(2) by (simp add: table_wf_def)
  moreover have "mlfq_finish a policy (Some i) ?v = Done (t, at)"
    using assms(1) u(1) by (simp add: scheduler_resume_def Let_def)
  ultimately show ?thesis using that u(1) wf by blast
qed

lemma scheduler_resume_mlfq_Done:
  assumes "table_wf s" "i < NPROC" "runs_on (mach s) a c" "locked (ptlock s) \<noteq> 0" "lkcpu (ptlock s) = Some c"
    and "\<not> flag_if (hw (mach s) a)" "0 < ncli (cpus (mach s) ! c)"
  shows "\<exists>t. scheduler_resume a c (Mlfq policy i) s = Done (t, At_top)"
proof -
  let ?s = "switchkvm a s"
  have wf: "table_wf ?s" using assms(1) by (simp add: switchkvm_def lcr3_def table_wf_def)
  then obtain u where u: "mlfq_account i ?s = Done u" "table_wf u" using mlfq_account_wf assms(2) by blast
  let ?v = "u\<lparr>mach := set_cpu c (\<lambda>cp. cp\<lparr>cproc := None\<rparr>) (mach u)\<rparr>"
  have "mach u = mach ?s" "ptlock u = ptlock s"
    using mlfq_account_frame [OF u(1)] by (simp_all add: same_rest_def switchkvm_def lcr3_def)
  moreover have "runs_on (mach ?s) a c" using assms(3) by (simp add: switchkvm_def lcr3_def runs_on_def)
  moreover have "c < length (cpus (mach s))" using assms(3) by (simp add: runs_on_def)
  moreover have "table_wf ?v" using u(2) by (simp add: table_wf_def)
  ultimately have "\<exists>t. mlfq_finish a policy (Some i) ?v = Done (t, At_top)"
    using assms(4-7)
    by (intro mlfq_finish_Done) (simp_all add: runs_on_set_cpu, simp_all add: switchkvm_def lcr3_def)
  then show ?thesis using u(1) by (simp add: scheduler_resume_def Let_def)
qed

lemma switchkvm_simps [simp]:
  "procs (switchkvm a s) = procs s" "proc_priority (switchkvm a s) = proc_priority s"
  "proc_ticks (switchkvm a s) = proc_ticks s" "proc_wait_ticks (switchkvm a s) = proc_wait_ticks s"
  by (simp_all add: switchkvm_def lcr3_def)

text \<open>
  Demotion, and policy 3.  When a process comes back from a run under
  policy 3, its tick is counted at its level and it drops exactly one level
  when that level's slice (32, 16 and 8 ticks for levels 1, 2 and 3) is used
  up; at level 0 it stays.  No other priority changes: nothing is boosted.
\<close>

theorem policy3_only_demotes:
  assumes "scheduler_resume a c (Mlfq 3 i) s = Done (t, at)" "table_wf s" "i < NPROC" "j < NPROC"
  shows "proc_priority t ! j = proc_priority s ! j - (if j = i \<and> proc_priority s ! i > 0
    \<and> proc_ticks s ! i ! nat (proc_priority s ! i) + 1 \<ge> [0, 32, 16, 8] ! nat (proc_priority s ! i) then 1 else 0)"
proof -
  obtain u v where u: "mlfq_account i (switchkvm a s) = Done u" "table_wf (switchkvm a s)"
    and v: "v = u\<lparr>mach := set_cpu c (\<lambda>cp. cp\<lparr>cproc := None\<rparr>) (mach u)\<rparr>"
    and f: "mlfq_finish a 3 (Some i) v = Done (t, at)"
    using scheduler_resume_mlfq [OF assms(1-3)] by metis
  obtain w x where w: "mlfq_age (Some i) v = Done w" and x: "mlfq_boost 3 w = Done x"
    and t: "release_pt a x = Done t" using f by (rule mlfq_finish_split)
  have "proc_priority t = proc_priority u"
    using mlfq_age_frame [OF w] x release_pt_frame [OF t] by (simp add: mlfq_boost_def v)
  then show ?thesis
    using mlfq_account_row(1) [OF u assms(3,4)] by (simp add: time_slices_def)
qed

theorem policy3_only_demotes_witness:
  "\<exists>t. scheduler_resume 0 0 (Mlfq 3 2) (about_to_boost\<lparr>proc_ticks := (replicate NPROC (replicate 4 0))[2 := [0, 0, 15, 0]]\<rparr>)
     = Done (t, At_top) \<and> proc_priority t ! 2 = 1 \<and> proc_priority t ! 1 = 1"
proof -
  let ?s = "about_to_boost\<lparr>proc_ticks := (replicate NPROC (replicate 4 0))[2 := [0, 0, 15, 0]]\<rparr>"
  have wf: "table_wf ?s"
    by (simp add: table_wf_def about_to_boost_def three_procs_def nth_list_update_if NPROC_def)
  have pr: "proc_priority ?s ! 2 = 2" "proc_priority ?s ! 1 = 1" "proc_ticks ?s ! 2 = [0, 0, 15, 0]"
    by (simp_all add: about_to_boost_def three_procs_def NPROC_def)
  obtain t where t: "scheduler_resume 0 0 (Mlfq 3 2) ?s = Done (t, At_top)"
    using scheduler_resume_mlfq_Done [OF wf, of 2 0 0 3]
    by (auto simp: about_to_boost_def three_procs_def runs_on_def set_cpu_def upd_at_def NPROC_def)
  have "proc_priority t ! 2 = 1" "proc_priority t ! 1 = 1"
    using policy3_only_demotes [OF t wf, of 2] policy3_only_demotes [OF t wf, of 1] pr
    by (simp_all add: NPROC_def)
  with t show ?thesis by blast
qed

end
