(* ===== verification/Proc_Effects.thy ===== *)
theory Proc_Effects
  imports Sched
begin

text \<open>
  What the routines of \<^verbatim>\<open>proc.c\<close> do to the machine: how deep the executing
  processor is nested in critical sections, which process it runs, whether
  its interrupts are off, and who holds the table lock.
\<close>

text \<open>
  \<open>mach_eff M M' a c d p\<close>: the nesting depth of processor \<open>c\<close> (identifier \<open>a\<close>)
  went up by \<open>d\<close>, it now runs \<open>p\<close>, and nothing else that matters changed.
\<close>

definition mach_eff :: "machine \<Rightarrow> machine \<Rightarrow> u8 \<Rightarrow> nat \<Rightarrow> int \<Rightarrow> nat option \<Rightarrow> bool" where
  "mach_eff M M' a c d p \<longleftrightarrow>
     map apicid (cpus M') = map apicid (cpus M)
   \<and> (\<forall>j<length (cpus M). j \<noteq> c \<longrightarrow> ncli (cpus M' ! j) = ncli (cpus M ! j) \<and> cproc (cpus M' ! j) = cproc (cpus M ! j))
   \<and> ncli (cpus M' ! c) = ncli (cpus M ! c) + d \<and> cproc (cpus M' ! c) = p
   \<and> (\<forall>b. b \<noteq> a \<longrightarrow> flag_if (hw M' b) = flag_if (hw M b))
   \<and> (0 < ncli (cpus M' ! c) \<longrightarrow> \<not> flag_if (hw M' a))"

text \<open>Interrupts are off whenever processor \<open>c\<close> is inside a critical section.\<close>

definition cpu_ok :: "machine \<Rightarrow> u8 \<Rightarrow> nat \<Rightarrow> bool" where
  "cpu_ok M a c \<longleftrightarrow> runs_on M a c \<and> 0 \<le> ncli (cpus M ! c) \<and> (0 < ncli (cpus M ! c) \<longrightarrow> \<not> flag_if (hw M a))"

lemma mach_eff_refl: "cpu_ok M a c \<Longrightarrow> mach_eff M M a c 0 (cproc (cpus M ! c))"
  by (simp add: mach_eff_def cpu_ok_def)

lemma mach_eff_trans:
  assumes "mach_eff M M1 a c d p" "mach_eff M1 M2 a c e q"
  shows "mach_eff M M2 a c (d + e) q"
proof -
  have "length (cpus M1) = length (cpus M)"
    using assms(1) by (metis mach_eff_def length_map)
  with assms show ?thesis by (auto simp: mach_eff_def)
qed

lemma mach_eff_runs_on: "mach_eff M M' a c d p \<Longrightarrow> runs_on M' b j = runs_on M b j"
  by (rule runs_on_cong) (simp add: mach_eff_def)

lemma mach_eff_ok:
  "mach_eff M M' a c d p \<Longrightarrow> cpu_ok M a c \<Longrightarrow> 0 \<le> ncli (cpus M ! c) + d \<Longrightarrow> cpu_ok M' a c"
  by (auto simp: cpu_ok_def mach_eff_runs_on) (auto simp: mach_eff_def)

lemma pushcli_eff:
  assumes "cpu_ok M a c"
  shows "\<exists>M'. pushcli M a = Done M' \<and> mach_eff M M' a c 1 (cproc (cpus M ! c))"
proof -
  have r: "runs_on M a c" "c < length (cpus M)" using assms by (simp_all add: cpu_ok_def runs_on_def)
  show ?thesis
    unfolding pushcli_runs_on [OF r(1)]
    using r by (simp add: mach_eff_def map_upd_at_unchanged nth_upd_at)
qed

lemma popcli_eff:
  assumes "cpu_ok M a c" "0 < ncli (cpus M ! c)"
  shows "\<exists>M'. popcli M a = Done M' \<and> mach_eff M M' a c (- 1) (cproc (cpus M ! c))"
proof -
  have r: "runs_on M a c" "c < length (cpus M)" "\<not> flag_if (hw M a)"
    using assms by (simp_all add: cpu_ok_def runs_on_def)
  show ?thesis
    unfolding popcli_runs_on [OF r(1,3) assms(2)]
    using r assms(2) by (auto simp: mach_eff_def map_upd_at_unchanged nth_upd_at)
qed

lemma set_cpu_eff:
  assumes "cpu_ok M a c" "\<And>cp. apicid (f cp) = apicid cp \<and> ncli (f cp) = ncli cp"
  shows "mach_eff M (set_cpu c f M) a c 0 (cproc (f (cpus M ! c)))"
  using assms by (auto simp: mach_eff_def cpu_ok_def runs_on_def map_upd_at_unchanged)

lemma mycpu_ok: "cpu_ok M a c \<Longrightarrow> 0 < ncli (cpus M ! c) \<Longrightarrow> mycpu M a = Done c"
  by (simp add: cpu_ok_def mycpu_runs_on)

lemma myproc_eff:
  assumes "cpu_ok M a c"
  shows "\<exists>M'. myproc M a = Done (M', cproc (cpus M ! c)) \<and> mach_eff M M' a c 0 (cproc (cpus M ! c))"
proof -
  obtain M1 where M1: "pushcli M a = Done M1" "mach_eff M M1 a c 1 (cproc (cpus M ! c))"
    using pushcli_eff [OF assms] by blast
  have ok: "cpu_ok M1 a c" "0 < ncli (cpus M1 ! c)" "cproc (cpus M1 ! c) = cproc (cpus M ! c)"
    using M1(2) assms mach_eff_ok [OF M1(2) assms] by (auto simp: mach_eff_def cpu_ok_def)
  obtain M2 where M2: "popcli M1 a = Done M2" "mach_eff M1 M2 a c (- 1) (cproc (cpus M1 ! c))"
    using popcli_eff [OF ok(1,2)] by blast
  show ?thesis
    using M1 M2 mycpu_ok [OF ok(1,2)] mach_eff_trans [OF M1(2) M2(2)] ok(3)
    by (simp add: myproc_def)
qed

subsection \<open>The table lock\<close>

text \<open>Everything in the state but the machine and the table lock.\<close>

definition same_table :: "pstate \<Rightarrow> pstate \<Rightarrow> bool" where
  "same_table s t \<longleftrightarrow> procs t = procs s \<and> initproc t = initproc s \<and> nextpid t = nextpid s
     \<and> proc_priority t = proc_priority s \<and> proc_ticks t = proc_ticks s \<and> proc_wait_ticks t = proc_wait_ticks s
     \<and> kpgdir t = kpgdir s \<and> km t = km s"

lemma same_table_trans: "same_table s t \<Longrightarrow> same_table t u \<Longrightarrow> same_table s u"
  by (simp add: same_table_def)

lemma same_table_wf: "same_table s t \<Longrightarrow> table_wf t = table_wf s"
  by (simp add: same_table_def table_wf_def)

definition holds_pt :: "nat \<Rightarrow> pstate \<Rightarrow> bool" where
  "holds_pt c s \<longleftrightarrow> locked (ptlock s) \<noteq> 0 \<and> lkcpu (ptlock s) = Some c"

lemma acquire_pt_eff:
  assumes "cpu_ok (mach s) a c" "locked (ptlock s) = 0"
  shows "\<exists>t. acquire_pt a s = Done t \<and> mach_eff (mach s) (mach t) a c 1 (cproc (cpus (mach s) ! c))
    \<and> holds_pt c t \<and> same_table s t"
proof -
  obtain M where M: "pushcli (mach s) a = Done M" "mach_eff (mach s) M a c 1 (cproc (cpus (mach s) ! c))"
    using pushcli_eff [OF assms(1)] by blast
  have "runs_on (mach s) a c" using assms(1) by (simp add: cpu_ok_def)
  from acquire_free [OF this assms(2) M(1)] M(2) show ?thesis
    by (simp add: acquire_pt_def holds_pt_def same_table_def)
qed

lemma acquire_pt_DoneD:
  assumes "acquire_pt a s = Done t" "cpu_ok (mach s) a c"
  shows "locked (ptlock s) = 0"
proof (rule ccontr)
  assume "locked (ptlock s) \<noteq> 0"
  then show False
    using assms acquire_taken [of "mach s" a c "ptlock s"]
    by (auto simp: acquire_pt_def cpu_ok_def split: if_splits)
qed

lemma release_pt_eff:
  assumes "cpu_ok (mach s) a c" "0 < ncli (cpus (mach s) ! c)" "holds_pt c s"
  shows "\<exists>t. release_pt a s = Done t \<and> mach_eff (mach s) (mach t) a c (- 1) (cproc (cpus (mach s) ! c))
    \<and> locked (ptlock t) = 0 \<and> same_table s t"
proof -
  obtain M where M: "popcli (mach s) a = Done M" "mach_eff (mach s) M a c (- 1) (cproc (cpus (mach s) ! c))"
    using popcli_eff [OF assms(1,2)] by blast
  have "runs_on (mach s) a c" "\<not> flag_if (hw (mach s) a)" using assms(1,2) by (simp_all add: cpu_ok_def)
  with release_held [OF this(1) _ _ this(2) M(1)] M(2) assms(3) show ?thesis
    by (simp add: release_pt_def holds_pt_def same_table_def)
qed

text \<open>A routine that takes and releases the table lock around a change of the table.\<close>

lemma critical_section:
  assumes "cpu_ok (mach s) a c" "locked (ptlock s) = 0"
    and f: "\<And>u. mach (f u) = mach u \<and> ptlock (f u) = ptlock u"
  shows "\<exists>u t. acquire_pt a s = Done u \<and> release_pt a (f u) = Done t \<and> same_table s u
    \<and> mach_eff (mach s) (mach t) a c 0 (cproc (cpus (mach s) ! c)) \<and> locked (ptlock t) = 0 \<and> same_table (f u) t"
proof -
  let ?p = "cproc (cpus (mach s) ! c)"
  obtain u where u: "acquire_pt a s = Done u" "mach_eff (mach s) (mach u) a c 1 ?p" "holds_pt c u" "same_table s u"
    using acquire_pt_eff [OF assms(1,2)] by blast
  have n: "ncli (cpus (mach u) ! c) = ncli (cpus (mach s) ! c) + 1" "cproc (cpus (mach u) ! c) = ?p"
    using u(2) by (simp_all add: mach_eff_def)
  have ok: "cpu_ok (mach u) a c" using mach_eff_ok [OF u(2) assms(1)] assms(1) by (simp add: cpu_ok_def)
  have "0 < ncli (cpus (mach u) ! c)" using n assms(1) by (simp add: cpu_ok_def)
  with ok u(3) obtain t where t: "release_pt a (f u) = Done t"
    "mach_eff (mach u) (mach t) a c (- 1) (cproc (cpus (mach u) ! c))" "locked (ptlock t) = 0" "same_table (f u) t"
    using release_pt_eff [of "f u" a c] f [of u] by (auto simp: holds_pt_def)
  show ?thesis using u t mach_eff_trans [OF u(2) t(2)] n(2) by auto
qed

subsection \<open>Giving up the processor\<close>

lemma holding_pt:
  "cpu_ok (mach s) a c \<Longrightarrow> 0 < ncli (cpus (mach s) ! c) \<Longrightarrow> holds_pt c s \<Longrightarrow> holding (mach s) (ptlock s) a = Done True"
  by (simp add: holding_def holds_pt_def mycpu_ok)

lemma myproc_pt_eff:
  assumes "cpu_ok (mach s) a c"
  shows "\<exists>t. myproc_pt a s = Done (t, cproc (cpus (mach s) ! c)) \<and> ptlock t = ptlock s \<and> same_table s t
    \<and> mach_eff (mach s) (mach t) a c 0 (cproc (cpus (mach s) ! c))"
  using myproc_eff [OF assms] by (auto simp: myproc_pt_def same_table_def)

lemma sched_enter_eff:
  assumes "cpu_ok (mach s) a c" "ncli (cpus (mach s) ! c) = 1" "holds_pt c s"
    and "cproc (cpus (mach s) ! c) = Some i" "state_of s i \<noteq> RUNNING"
  shows "\<exists>t ena. sched_enter a s = Done (t, ena) \<and> holds_pt c t \<and> same_table s t
    \<and> mach_eff (mach s) (mach t) a c 0 (Some i)"
proof -
  obtain t where t: "myproc_pt a s = Done (t, Some i)" "ptlock t = ptlock s" "same_table s t"
      "mach_eff (mach s) (mach t) a c 0 (Some i)"
    using myproc_pt_eff [OF assms(1)] assms(4) by auto
  have ok: "cpu_ok (mach t) a c" using mach_eff_ok [OF t(4) assms(1)] assms(2) by simp
  have n: "ncli (cpus (mach t) ! c) = 1" using t(4) assms(2) by (simp add: mach_eff_def)
  have h: "holds_pt c t" using t(2) assms(3) by (simp add: holds_pt_def)
  have "holding (mach t) (ptlock t) a = Done True" "mycpu (mach t) a = Done c" "\<not> flag_if (hw (mach t) a)"
    using holding_pt [OF ok _ h] mycpu_ok [OF ok] ok n by (simp_all add: cpu_ok_def)
  moreover have "state_of t i \<noteq> RUNNING" using t(3) assms(5) by (simp add: same_table_def)
  ultimately show ?thesis using t n h by (simp add: sched_enter_def)
qed

lemma sched_leave_eff:
  assumes "cpu_ok (mach s) a c" "0 < ncli (cpus (mach s) ! c)"
  shows "\<exists>t. sched_leave a ena s = Done t \<and> ptlock t = ptlock s \<and> same_table s t
    \<and> mach_eff (mach s) (mach t) a c 0 (cproc (cpus (mach s) ! c))"
  using set_cpu_eff [OF assms(1), of "\<lambda>cp. cp\<lparr>intena := ena\<rparr>"] mycpu_ok [OF assms]
  by (auto simp: sched_leave_def same_table_def)

text \<open>A change of the table that keeps the machine and the table lock.\<close>

lemma sched_enter_set_proc:
  assumes "cpu_ok (mach s) a c" "ncli (cpus (mach s) ! c) = 1" "holds_pt c s"
    and "cproc (cpus (mach s) ! c) = Some i" "i < length (procs s)" "\<And>p. state (f p) \<noteq> RUNNING"
  shows "\<exists>t ena. sched_enter a (set_proc i f s) = Done (t, ena) \<and> holds_pt c t
    \<and> same_table (set_proc i f s) t \<and> mach_eff (mach s) (mach t) a c 0 (Some i)"
  using sched_enter_eff [of "set_proc i f s" a c i] assms by (simp add: holds_pt_def)

lemma yield_enter_eff:
  assumes "cpu_ok (mach s) a c" "ncli (cpus (mach s) ! c) = 0" "locked (ptlock s) = 0"
    and "cproc (cpus (mach s) ! c) = Some i" "i < NPROC" "table_wf s"
  shows "\<exists>u t ena. yield_enter a s = Done (t, ena) \<and> mach_eff (mach s) (mach t) a c 1 (Some i) \<and> holds_pt c t
    \<and> count_tick i s = Done u \<and> same_table (set_proc i (\<lambda>p. p\<lparr>state := RUNNABLE\<rparr>) u) t"
proof -
  obtain s1 where s1: "acquire_pt a s = Done s1" "mach_eff (mach s) (mach s1) a c 1 (Some i)" "holds_pt c s1"
      "same_table s s1" using acquire_pt_eff [OF assms(1,3)] assms(4) by auto
  have ok1: "cpu_ok (mach s1) a c" "cproc (cpus (mach s1) ! c) = Some i"
    using mach_eff_ok [OF s1(2) assms(1)] s1(2) assms(2) by (simp_all add: mach_eff_def)
  obtain s2 where s2: "myproc_pt a s1 = Done (s2, Some i)" "ptlock s2 = ptlock s1" "same_table s1 s2"
      "mach_eff (mach s1) (mach s2) a c 0 (Some i)"
    using myproc_pt_eff [OF ok1(1)] ok1(2) by auto
  note e2 = mach_eff_trans [OF s1(2) s2(4)] and same = same_table_trans [OF s1(4) s2(3)]
  have wf2: "table_wf s2" using same_table_wf [OF same] assms(6) by simp
  obtain s3 where s3: "count_tick i s2 = Done s3" "table_wf s3"
    using count_tick_wf [OF wf2 assms(5)] by blast
  have f3: "mach s3 = mach s2" "ptlock s3 = ptlock s2" "procs s3 = procs s2"
    using count_tick_frame [OF s3(1)] by (simp_all add: same_rest_def)
  have ok3: "cpu_ok (mach s3) a c" "cproc (cpus (mach s3) ! c) = Some i"
    using mach_eff_ok [OF e2 assms(1)] e2 assms(2) f3(1) by (auto simp: mach_eff_def)
  obtain s4 where s4: "myproc_pt a s3 = Done (s4, Some i)" "ptlock s4 = ptlock s3" "same_table s3 s4"
      "mach_eff (mach s3) (mach s4) a c 0 (Some i)"
    using myproc_pt_eff [OF ok3(1)] ok3(2) by auto
  have e4: "mach_eff (mach s) (mach s4) a c 1 (Some i)"
    using mach_eff_trans [OF e2, of "mach s4" 0 "Some i"] s4(4) f3(1) by simp
  have ok4: "cpu_ok (mach s4) a c" "ncli (cpus (mach s4) ! c) = 1" "holds_pt c s4" "cproc (cpus (mach s4) ! c) = Some i"
      "i < length (procs s4)"
    using mach_eff_ok [OF e4 assms(1)] e4 assms(2,5) s4(2,3) f3(2) s2(2) s1(3) table_wfD(1) [OF s3(2)]
    by (auto simp: mach_eff_def holds_pt_def same_table_def)
  obtain t ena where t: "sched_enter a (set_proc i (\<lambda>p. p\<lparr>state := RUNNABLE\<rparr>) s4) = Done (t, ena)"
      "holds_pt c t" "same_table (set_proc i (\<lambda>p. p\<lparr>state := RUNNABLE\<rparr>) s4) t" "mach_eff (mach s4) (mach t) a c 0 (Some i)"
    using sched_enter_set_proc [OF ok4, of "\<lambda>p. p\<lparr>state := RUNNABLE\<rparr>"] by auto
  obtain u where u: "count_tick i s = Done u" using count_tick_wf [OF assms(6,5)] by blast
  have "same_table u s3" using u s3(1) same by (auto simp: count_tick_def same_table_def split: if_splits)
  then have "same_table (set_proc i (\<lambda>p. p\<lparr>state := RUNNABLE\<rparr>) u) t"
    using t(3) s4(3) by (simp add: same_table_def)
  moreover have "mach_eff (mach s) (mach t) a c 1 (Some i)" using mach_eff_trans [OF e4 t(4)] by simp
  moreover have "yield_enter a s = Done (t, ena)" using s1(1) s2(1) s3(1) s4(1) t(1) by (simp add: yield_enter_def)
  ultimately show ?thesis using t(2) u by blast
qed

subsection \<open>Sleeping\<close>

lemma acquire_other_eff:
  assumes "cpu_ok M a c" "locked l = 0"
  shows "\<exists>M' l'. acquire M l a = Done (M', l') \<and> mach_eff M M' a c 1 (cproc (cpus M ! c))
    \<and> locked l' \<noteq> 0 \<and> lkcpu l' = Some c"
proof -
  obtain M' where M': "pushcli M a = Done M'" "mach_eff M M' a c 1 (cproc (cpus M ! c))"
    using pushcli_eff [OF assms(1)] by blast
  moreover have "runs_on M a c" using assms(1) by (simp add: cpu_ok_def)
  ultimately show ?thesis using acquire_free [OF _ assms(2) M'(1)] by simp
qed

lemma acquire_other_DoneD:
  assumes "acquire M l a = Done r" "cpu_ok M a c"
  shows "locked l = 0"
proof (rule ccontr)
  assume "locked l \<noteq> 0"
  then show False
    using assms acquire_taken [of M a c l] by (auto simp: cpu_ok_def split: if_splits)
qed

lemma release_other_eff:
  assumes "cpu_ok M a c" "0 < ncli (cpus M ! c)" "locked l \<noteq> 0" "lkcpu l = Some c"
  shows "\<exists>M' l'. release M l a = Done (M', l') \<and> mach_eff M M' a c (- 1) (cproc (cpus M ! c)) \<and> locked l' = 0"
proof -
  obtain M' where M': "popcli M a = Done M'" "mach_eff M M' a c (- 1) (cproc (cpus M ! c))"
    using popcli_eff [OF assms(1,2)] by blast
  moreover have "runs_on M a c" "\<not> flag_if (hw M a)" using assms(1,2) by (simp_all add: cpu_ok_def)
  ultimately show ?thesis using release_held [OF _ assms(3,4) _ M'(1)] by simp
qed

text \<open>Going to sleep on a channel with the table lock held, as \<^verbatim>\<open>wait\<close> does.\<close>

lemma sleep_enter_pt_eff:
  assumes "cpu_ok (mach s) a c" "ncli (cpus (mach s) ! c) = 1" "holds_pt c s"
    and "cproc (cpus (mach s) ! c) = Some i" "i < length (procs s)"
  shows "\<exists>t ena. sleep_enter a ch Ptable_lock s = Done (t, Ptable_lock, ena) \<and> holds_pt c t
    \<and> mach_eff (mach s) (mach t) a c 0 (Some i)
    \<and> same_table (set_proc i (\<lambda>p. p\<lparr>chan := Some ch, state := SLEEPING\<rparr>) s) t"
proof -
  obtain s1 where s1: "myproc_pt a s = Done (s1, Some i)" "ptlock s1 = ptlock s" "same_table s s1"
      "mach_eff (mach s) (mach s1) a c 0 (Some i)"
    using myproc_pt_eff [OF assms(1)] assms(4) by auto
  have ok: "cpu_ok (mach s1) a c" "ncli (cpus (mach s1) ! c) = 1" "holds_pt c s1" "cproc (cpus (mach s1) ! c) = Some i"
    "i < length (procs s1)"
    using mach_eff_ok [OF s1(4) assms(1)] s1 assms(2,3,5) by (auto simp: mach_eff_def holds_pt_def same_table_def)
  obtain t ena where t: "sched_enter a (set_proc i (\<lambda>p. p\<lparr>chan := Some ch, state := SLEEPING\<rparr>) s1) = Done (t, ena)"
      "holds_pt c t" "same_table (set_proc i (\<lambda>p. p\<lparr>chan := Some ch, state := SLEEPING\<rparr>) s1) t"
      "mach_eff (mach s1) (mach t) a c 0 (Some i)"
    using sched_enter_set_proc [OF ok, of "\<lambda>p. p\<lparr>chan := Some ch, state := SLEEPING\<rparr>"] by auto
  then show ?thesis
    using s1 mach_eff_trans [OF s1(4) t(4)] by (simp add: sleep_enter_def Let_def same_table_def)
qed

text \<open>Going to sleep with some other lock held, which is released on the way.\<close>

lemma sleep_enter_other_eff:
  assumes "cpu_ok (mach s) a c" "ncli (cpus (mach s) ! c) = 1" "locked (ptlock s) = 0"
    and "locked l \<noteq> 0" "lkcpu l = Some c"
    and "cproc (cpus (mach s) ! c) = Some i" "i < length (procs s)"
  shows "\<exists>t l' ena. sleep_enter a ch (Other_lock l) s = Done (t, Other_lock l', ena) \<and> holds_pt c t
    \<and> mach_eff (mach s) (mach t) a c 0 (Some i) \<and> locked l' = 0
    \<and> same_table (set_proc i (\<lambda>p. p\<lparr>chan := Some ch, state := SLEEPING\<rparr>) s) t"
proof -
  obtain s1 where s1: "myproc_pt a s = Done (s1, Some i)" "ptlock s1 = ptlock s" "same_table s s1"
      "mach_eff (mach s) (mach s1) a c 0 (Some i)"
    using myproc_pt_eff [OF assms(1)] assms(6) by auto
  have ok1: "cpu_ok (mach s1) a c" "cproc (cpus (mach s1) ! c) = Some i"
    using mach_eff_ok [OF s1(4) assms(1)] s1(4) assms(2) by (auto simp: mach_eff_def)
  obtain s2 where s2: "acquire_pt a s1 = Done s2" "mach_eff (mach s1) (mach s2) a c 1 (Some i)" "holds_pt c s2"
      "same_table s1 s2" using acquire_pt_eff [OF ok1(1)] s1(2) assms(3) ok1(2) by auto
  note e2 = mach_eff_trans [OF s1(4) s2(2)]
  have ok2: "cpu_ok (mach s2) a c" "0 < ncli (cpus (mach s2) ! c)" "cproc (cpus (mach s2) ! c) = Some i"
    using mach_eff_ok [OF e2 assms(1)] e2 assms(2) by (auto simp: mach_eff_def)
  obtain M l' where M: "release (mach s2) l a = Done (M, l')" "mach_eff (mach s2) M a c (- 1) (Some i)" "locked l' = 0"
    using release_other_eff [OF ok2(1,2) assms(4,5)] ok2(3) by auto
  let ?s3 = "s2\<lparr>mach := M\<rparr>"
  note e3 = mach_eff_trans [OF e2 M(2)]
  have ok3: "cpu_ok (mach ?s3) a c" "ncli (cpus (mach ?s3) ! c) = 1" "holds_pt c ?s3" "cproc (cpus (mach ?s3) ! c) = Some i"
    "i < length (procs ?s3)"
    using mach_eff_ok [OF e3 assms(1)] e3 assms(2,7) s2(3,4) s1(3) by (auto simp: mach_eff_def holds_pt_def same_table_def)
  obtain t ena where t: "sched_enter a (set_proc i (\<lambda>p. p\<lparr>chan := Some ch, state := SLEEPING\<rparr>) ?s3) = Done (t, ena)"
      "holds_pt c t" "same_table (set_proc i (\<lambda>p. p\<lparr>chan := Some ch, state := SLEEPING\<rparr>) ?s3) t"
      "mach_eff M (mach t) a c 0 (Some i)"
    using sched_enter_set_proc [OF ok3, of "\<lambda>p. p\<lparr>chan := Some ch, state := SLEEPING\<rparr>"] by auto
  then show ?thesis
    using s1 s2 M mach_eff_trans [OF e3, of "mach t" 0 "Some i"]
    by (simp add: sleep_enter_def Let_def same_table_def)
qed

lemma sleep_leave_pt_eff:
  assumes "cpu_ok (mach s) a c" "0 < ncli (cpus (mach s) ! c)"
  shows "\<exists>t. sleep_leave a i Ptable_lock ena s = Done (t, Ptable_lock) \<and> ptlock t = ptlock s
    \<and> mach_eff (mach s) (mach t) a c 0 (cproc (cpus (mach s) ! c))
    \<and> same_table (set_proc i (\<lambda>p. p\<lparr>chan := None\<rparr>) s) t"
  using sched_leave_eff [OF assms, of ena] by (auto simp: sleep_leave_def Let_def same_table_def)

lemma sleep_leave_other_eff:
  assumes "cpu_ok (mach s) a c" "ncli (cpus (mach s) ! c) = 1" "holds_pt c s" "locked l = 0"
  shows "\<exists>t l'. sleep_leave a i (Other_lock l) ena s = Done (t, Other_lock l') \<and> locked (ptlock t) = 0
    \<and> mach_eff (mach s) (mach t) a c 0 (cproc (cpus (mach s) ! c)) \<and> locked l' \<noteq> 0 \<and> lkcpu l' = Some c
    \<and> same_table (set_proc i (\<lambda>p. p\<lparr>chan := None\<rparr>) s) t"
proof -
  let ?p = "cproc (cpus (mach s) ! c)"
  obtain s1 where s1: "sched_leave a ena s = Done s1" "ptlock s1 = ptlock s" "same_table s s1"
      "mach_eff (mach s) (mach s1) a c 0 ?p"
    using sched_leave_eff [OF assms(1)] assms(2) by auto
  let ?s2 = "set_proc i (\<lambda>p. p\<lparr>chan := None\<rparr>) s1"
  have ok2: "cpu_ok (mach ?s2) a c" "0 < ncli (cpus (mach ?s2) ! c)" "holds_pt c ?s2" "cproc (cpus (mach ?s2) ! c) = ?p"
    using mach_eff_ok [OF s1(4) assms(1)] s1 assms(2,3) by (auto simp: mach_eff_def holds_pt_def)
  obtain s3 where s3: "release_pt a ?s2 = Done s3" "mach_eff (mach s1) (mach s3) a c (- 1) ?p"
      "locked (ptlock s3) = 0" "same_table ?s2 s3"
    using release_pt_eff [OF ok2(1-3)] ok2(4) by auto
  note e3 = mach_eff_trans [OF s1(4) s3(2)]
  have ok3: "cpu_ok (mach s3) a c" "cproc (cpus (mach s3) ! c) = ?p"
    using mach_eff_ok [OF e3 assms(1)] e3 assms(2) by (auto simp: mach_eff_def)
  obtain M l' where M: "acquire (mach s3) l a = Done (M, l')" "mach_eff (mach s3) M a c 1 ?p"
      "locked l' \<noteq> 0" "lkcpu l' = Some c"
    using acquire_other_eff [OF ok3(1) assms(4)] ok3(2) by auto
  show ?thesis
    using s1 s3 M mach_eff_trans [OF e3 M(2)]
    by (simp add: sleep_leave_def Let_def same_table_def)
qed

subsection \<open>Changing address spaces and dispatching\<close>

lemma lcr3_eff:
  assumes "cpu_ok (mach s) a c"
  shows "mach_eff (mach s) (mach (lcr3 a v s)) a c 0 (cproc (cpus (mach s) ! c))"
    and "ptlock (lcr3 a v s) = ptlock s" and "same_table s (lcr3 a v s)"
  using assms by (auto simp: lcr3_def mach_eff_def cpu_ok_def same_table_def)

lemma switchuvm_eff:
  assumes "cpu_ok (mach s) a c" "kstack (procs s ! i) \<noteq> 0" "pgdir (procs s ! i) \<noteq> 0"
  shows "\<exists>t. switchuvm a (Some i) s = Done t \<and> ptlock t = ptlock s \<and> same_table s t
    \<and> mach_eff (mach s) (mach t) a c 0 (cproc (cpus (mach s) ! c))"
proof -
  let ?p = "cproc (cpus (mach s) ! c)"
  obtain M where M: "pushcli (mach s) a = Done M" "mach_eff (mach s) M a c 1 ?p"
    using pushcli_eff [OF assms(1)] by blast
  have ok: "cpu_ok M a c" "0 < ncli (cpus M ! c)" "cproc (cpus M ! c) = ?p"
    using mach_eff_ok [OF M(2) assms(1)] M(2) assms(1) by (auto simp: mach_eff_def cpu_ok_def)
  define M1 where "M1 = set_cpu c (\<lambda>cp. cp\<lparr>ts_esp0 := kstack (procs s ! i) + KSTACKSIZE\<rparr>) M"
  have e1: "mach_eff M M1 a c 0 ?p" unfolding M1_def using set_cpu_eff [OF ok(1), of "\<lambda>cp. cp\<lparr>ts_esp0 := kstack (procs s ! i) + KSTACKSIZE\<rparr>"] ok(3) by simp
  have ok1: "cpu_ok M1 a c" "cproc (cpus M1 ! c) = ?p" "0 < ncli (cpus M1 ! c)"
    using mach_eff_ok [OF e1 ok(1)] ok e1 by (auto simp: mach_eff_def)
  let ?s2 = "lcr3 a (V2P (pgdir (procs s ! i))) (s\<lparr>mach := M1\<rparr>)"
  have e2: "mach_eff M1 (mach ?s2) a c 0 ?p" "ptlock ?s2 = ptlock s" "same_table s ?s2"
    using lcr3_eff [of "s\<lparr>mach := M1\<rparr>" a c] ok1 by (simp_all add: same_table_def)
  have ok2: "cpu_ok (mach ?s2) a c" "cproc (cpus (mach ?s2) ! c) = ?p" "0 < ncli (cpus (mach ?s2) ! c)"
    using mach_eff_ok [OF e2(1) ok1(1)] ok1 e2(1) by (auto simp: mach_eff_def)
  obtain M3 where M3: "popcli (mach ?s2) a = Done M3" "mach_eff (mach ?s2) M3 a c (- 1) ?p"
    using popcli_eff [OF ok2(1,3)] ok2(2) by auto
  have "mach_eff (mach s) M3 a c 0 ?p"
    using mach_eff_trans [OF mach_eff_trans [OF mach_eff_trans [OF M(2) e1] e2(1)] M3(2)] by simp
  moreover have "switchuvm a (Some i) s = Done (?s2\<lparr>mach := M3\<rparr>)"
    using assms(2,3) M(1) mycpu_ok [OF ok(1,2)] M3(1) by (simp add: switchuvm_def Let_def M1_def)
  ultimately show ?thesis using e2 by (auto simp: same_table_def)
qed

lemma dispatch_eff:
  assumes "cpu_ok (mach s) a c" "kstack (procs s ! i) \<noteq> 0" "pgdir (procs s ! i) \<noteq> 0"
  shows "\<exists>t. dispatch a c i s = Done t \<and> ptlock t = ptlock s
    \<and> same_table (set_proc i (\<lambda>p. p\<lparr>state := RUNNING\<rparr>) s) t \<and> mach_eff (mach s) (mach t) a c 0 (Some i)"
proof -
  let ?s1 = "s\<lparr>mach := set_cpu c (\<lambda>cp. cp\<lparr>cproc := Some i\<rparr>) (mach s)\<rparr>"
  have e1: "mach_eff (mach s) (mach ?s1) a c 0 (Some i)"
    using set_cpu_eff [OF assms(1), of "\<lambda>cp. cp\<lparr>cproc := Some i\<rparr>"] by simp
  have ok1: "cpu_ok (mach ?s1) a c" "cproc (cpus (mach ?s1) ! c) = Some i"
    using mach_eff_ok [OF e1 assms(1)] e1 assms(1) by (simp_all add: mach_eff_def cpu_ok_def)
  obtain t where t: "switchuvm a (Some i) ?s1 = Done t" "ptlock t = ptlock s" "same_table s t"
      "mach_eff (mach ?s1) (mach t) a c 0 (Some i)"
    using switchuvm_eff [OF ok1(1), of i] ok1(2) assms(2,3) by (auto simp: same_table_def)
  then show ?thesis
    using mach_eff_trans [OF e1 t(4)] by (simp add: dispatch_def same_table_def)
qed

subsection \<open>The scheduler\<close>

text \<open>Every process the scheduler could pick has a kernel stack and an address space.\<close>

definition ready_ok :: "pstate \<Rightarrow> bool" where
  "ready_ok s \<longleftrightarrow> (\<forall>i<length (procs s). state_of s i = RUNNABLE
     \<longrightarrow> kstack (procs s ! i) \<noteq> 0 \<and> pgdir (procs s ! i) \<noteq> 0)"

text \<open>
  The two ways a run of the scheduler ends: back at the head of the loop with
  the table lock free and no change of the table, or switched to a runnable
  process, which is now running, with the table lock held.
\<close>

definition sched_idle :: "u8 \<Rightarrow> nat \<Rightarrow> int \<Rightarrow> pstate \<Rightarrow> pstate \<Rightarrow> bool" where
  "sched_idle a c d s t \<longleftrightarrow> mach_eff (mach s) (mach t) a c d None \<and> locked (ptlock t) = 0
     \<and> procs t = procs s \<and> nextpid t = nextpid s \<and> initproc t = initproc s \<and> km t = km s \<and> table_wf t"

definition sched_switched :: "u8 \<Rightarrow> nat \<Rightarrow> int \<Rightarrow> nat \<Rightarrow> pstate \<Rightarrow> pstate \<Rightarrow> bool" where
  "sched_switched a c d i s t \<longleftrightarrow> i < NPROC \<and> state_of s i = RUNNABLE
     \<and> mach_eff (mach s) (mach t) a c d (Some i) \<and> holds_pt c t
     \<and> same_table (set_proc i (\<lambda>p. p\<lparr>state := RUNNING\<rparr>) s) t"

fun local_ok :: "sched_local \<Rightarrow> bool" where
  "local_ok (Rr j) \<longleftrightarrow> True"
| "local_ok (Mlfq policy i) \<longleftrightarrow> i < NPROC"

lemma mlfq_finish_eff:
  assumes "cpu_ok (mach s) a c" "0 < ncli (cpus (mach s) ! c)" "holds_pt c s" "table_wf s"
    and "cproc (cpus (mach s) ! c) = None"
  shows "\<exists>t. mlfq_finish a policy ch s = Done (t, At_top) \<and> sched_idle a c (- 1) s t"
proof -
  obtain u where u: "mlfq_age ch s = Done u" "table_wf u" using mlfq_age_wf [OF assms(4)] by blast
  obtain v where v: "mlfq_boost policy u = Done v" "table_wf v" using mlfq_boost_wf [OF u(2)] by blast
  have same: "same_rest s v"
    using mlfq_age_frame [OF u(1)] mlfq_boost_frame [OF v(1)] same_rest_trans by blast
  have "cpu_ok (mach v) a c" "0 < ncli (cpus (mach v) ! c)" "holds_pt c v" "cproc (cpus (mach v) ! c) = None"
    using same assms by (simp_all add: same_rest_def holds_pt_def)
  then obtain t where t: "release_pt a v = Done t" "mach_eff (mach v) (mach t) a c (- 1) None"
      "locked (ptlock t) = 0" "same_table v t"
    using release_pt_eff [of v a c] by auto
  have "table_wf t" using same_table_wf [OF t(4)] v(2) by simp
  with t same u v show ?thesis
    by (auto simp: mlfq_finish_def sched_idle_def same_rest_def same_table_def)
qed

lemma rr_next_eff:
  assumes "cpu_ok (mach s) a c" "0 < ncli (cpus (mach s) ! c)" "holds_pt c s" "table_wf s" "ready_ok s"
    and "cproc (cpus (mach s) ! c) = None"
  shows "(\<exists>t. rr_next a c j s = Done (t, At_top) \<and> sched_idle a c (- 1) s t)
    \<or> (\<exists>t i l. rr_next a c j s = Done (t, Switched i l) \<and> local_ok l \<and> sched_switched a c 0 i s t)"
proof (cases "rr_choose j s")
  case None
  obtain t where t: "release_pt a s = Done t" "mach_eff (mach s) (mach t) a c (- 1) None"
      "locked (ptlock t) = 0" "same_table s t"
    using release_pt_eff [OF assms(1-3)] assms(6) by auto
  then have "sched_idle a c (- 1) s t"
    using same_table_wf [OF t(4)] assms(4) by (simp add: sched_idle_def same_table_def)
  then show ?thesis using None t(1) by (simp add: rr_next_def)
next
  case (Some i)
  then have i: "i < NPROC" "state_of s i = RUNNABLE" using assms(4) by (simp_all add: rr_choose_Some table_wfD)
  then have "kstack (procs s ! i) \<noteq> 0" "pgdir (procs s ! i) \<noteq> 0"
    using assms(4,5) by (simp_all add: ready_ok_def table_wfD)
  then obtain t where t: "dispatch a c i s = Done t" "ptlock t = ptlock s"
      "same_table (set_proc i (\<lambda>p. p\<lparr>state := RUNNING\<rparr>) s) t" "mach_eff (mach s) (mach t) a c 0 (Some i)"
    using dispatch_eff [OF assms(1)] by blast
  then have "sched_switched a c 0 i s t" using i assms(3) by (simp add: sched_switched_def holds_pt_def)
  then show ?thesis using Some t(1) by (auto simp: rr_next_def)
qed

lemma scheduler_top_eff:
  assumes "cpu_ok (mach s) a c" "ncli (cpus (mach s) ! c) = 0" "locked (ptlock s) = 0" "table_wf s" "ready_ok s"
    and "cproc (cpus (mach s) ! c) = None"
  shows "(\<exists>t. scheduler_top a c s = Done (t, At_top) \<and> sched_idle a c 0 s t)
    \<or> (\<exists>t i l. scheduler_top a c s = Done (t, Switched i l) \<and> local_ok l \<and> sched_switched a c 1 i s t)"
proof -
  let ?s0 = "s\<lparr>mach := sti (mach s) a\<rparr>"
  have e0: "mach_eff (mach s) (mach ?s0) a c 0 None" using assms by (simp add: mach_eff_def)
  have ok0: "cpu_ok (mach ?s0) a c" using mach_eff_ok [OF e0 assms(1)] assms(2) by simp
  obtain u where u: "acquire_pt a ?s0 = Done u" "mach_eff (mach ?s0) (mach u) a c 1 None" "holds_pt c u" "same_table s u"
    using acquire_pt_eff [OF ok0] assms(3,6) by (auto simp: same_table_def)
  note e = mach_eff_trans [OF e0 u(2)]
  have ok: "cpu_ok (mach u) a c" "0 < ncli (cpus (mach u) ! c)" "cproc (cpus (mach u) ! c) = None" "table_wf u" "ready_ok u"
    using mach_eff_ok [OF e assms(1)] e assms(2,4,5) u(4) same_table_wf [OF u(4)]
    by (auto simp: mach_eff_def ready_ok_def same_table_def)
  let ?pol = "sched_policy (cpus (mach u) ! c)"
  have idle: "sched_idle a c 0 s t" if "sched_idle a c (- 1) u t" for t
    using that u(4) mach_eff_trans [OF e, of "mach t" "- 1" None] by (simp add: sched_idle_def same_table_def)
  have switched: "sched_switched a c 1 i s t" if "sched_switched a c 0 i u t" for i t
    using that u(4) mach_eff_trans [OF e, of "mach t" 0 "Some i"]
    by (simp add: sched_switched_def same_table_def)
  consider (rr) "?pol = 0" | (none) "?pol \<noteq> 0" "mlfq_choose u = None" | (some) i where "?pol \<noteq> 0" "mlfq_choose u = Some i"
    by (cases "?pol = 0"; cases "mlfq_choose u") auto
  then show ?thesis
  proof cases
    case rr
    then have "scheduler_top a c s = rr_next a c 0 u" using u(1) by (simp add: scheduler_top_def)
    then show ?thesis using rr_next_eff [OF ok(1,2) u(3) ok(4,5,3), of 0] idle switched by metis
  next
    case none
    then have "scheduler_top a c s = mlfq_finish a ?pol None u" using u(1) by (simp add: scheduler_top_def)
    then show ?thesis using mlfq_finish_eff [OF ok(1,2) u(3) ok(4,3), of ?pol None] idle by metis
  next
    case some
    then have i: "i < NPROC" "state_of u i = RUNNABLE"
      using choose_level_Some [of "[3, 2, 1, 0]" u i] ok(4) by (simp_all add: mlfq_choose_def table_wfD)
    then have "kstack (procs u ! i) \<noteq> 0" "pgdir (procs u ! i) \<noteq> 0"
      using ok(4,5) by (simp_all add: ready_ok_def table_wfD)
    then obtain t where t: "dispatch a c i u = Done t" "ptlock t = ptlock u"
        "same_table (set_proc i (\<lambda>p. p\<lparr>state := RUNNING\<rparr>) u) t" "mach_eff (mach u) (mach t) a c 0 (Some i)"
      using dispatch_eff [OF ok(1)] by blast
    then have "sched_switched a c 0 i u t" using i u(3) by (simp add: sched_switched_def holds_pt_def)
    then show ?thesis using switched some u(1) t(1) i(1) by (auto simp: scheduler_top_def)
  qed
qed

lemma choose_level_cong:
  "procs t = procs s \<Longrightarrow> proc_priority t = proc_priority s \<Longrightarrow> choose_level ls t = choose_level ls s"
  by (induction ls) (simp_all cong: option.case_cong)

text \<open>When the feedback queue has a candidate, the scheduler switches to it.\<close>

lemma scheduler_top_picks:
  assumes "cpu_ok (mach s) a c" "ncli (cpus (mach s) ! c) = 0" "locked (ptlock s) = 0" "table_wf s" "ready_ok s"
    and "cproc (cpus (mach s) ! c) = None" "sched_policy (cpus (mach s) ! c) \<noteq> 0" "mlfq_choose s = Some i"
  shows "\<exists>t l. scheduler_top a c s = Done (t, Switched i l)"
proof -
  let ?s0 = "s\<lparr>mach := sti (mach s) a\<rparr>"
  have e0: "mach_eff (mach s) (mach ?s0) a c 0 None" using assms by (simp add: mach_eff_def)
  have ok0: "cpu_ok (mach ?s0) a c" "c < length (cpus (mach s))"
    using mach_eff_ok [OF e0 assms(1)] assms(1,2) by (simp_all add: cpu_ok_def runs_on_def)
  obtain M where M: "pushcli (mach ?s0) a = Done M" "mach_eff (mach ?s0) M a c 1 None"
    using pushcli_eff [OF ok0(1)] assms(6) by auto
  have pol: "sched_policy (cpus M ! c) = sched_policy (cpus (mach s) ! c)"
    using M(1) pushcli_runs_on [of "mach ?s0" a c] ok0 by (auto simp: cpu_ok_def)
  let ?u = "?s0\<lparr>mach := M, ptlock := (ptlock s)\<lparr>locked := 1, lkcpu := Some c,
      pcs := getcallerpcs (stack_word (mach ?s0)) (lk_arg (mach ?s0) a)\<rparr>\<rparr>"
  have u: "acquire_pt a ?s0 = Done ?u"
    using acquire_free [of "mach ?s0" a c "ptlock s" M] ok0(1) assms(3) M(1) by (simp add: acquire_pt_def cpu_ok_def)
  have ch: "mlfq_choose ?u = Some i"
    using assms(8) choose_level_cong [of ?u s "[3, 2, 1, 0]"] by (simp add: mlfq_choose_def)
  have i: "kstack (procs s ! i) \<noteq> 0" "pgdir (procs s ! i) \<noteq> 0"
    using choose_level_Some [of "[3, 2, 1, 0]" s i] assms(5,8) by (simp_all add: mlfq_choose_def ready_ok_def)
  have "cpu_ok (mach ?u) a c" using mach_eff_ok [OF mach_eff_trans [OF e0 M(2)] assms(1)] assms(2) by simp
  then obtain t where "dispatch a c i ?u = Done t" using dispatch_eff [of ?u a c i] i by auto
  then show ?thesis using u ch pol assms(7) by (simp add: scheduler_top_def)
qed

lemma scheduler_resume_eff:
  assumes "cpu_ok (mach s) a c" "ncli (cpus (mach s) ! c) = 1" "holds_pt c s" "table_wf s" "ready_ok s" "local_ok l"
  shows "(\<exists>t. scheduler_resume a c l s = Done (t, At_top) \<and> sched_idle a c (- 1) s t)
    \<or> (\<exists>t i l'. scheduler_resume a c l s = Done (t, Switched i l') \<and> local_ok l' \<and> sched_switched a c 0 i s t)"
proof -
  let ?s0 = "switchkvm a s"
  let ?idle = "\<lambda>s :: pstate. s\<lparr>mach := set_cpu c (\<lambda>cp. cp\<lparr>cproc := None\<rparr>) (mach s)\<rparr>"
  have e0: "mach_eff (mach s) (mach ?s0) a c 0 (cproc (cpus (mach s) ! c))" "ptlock ?s0 = ptlock s" "same_table s ?s0"
    using lcr3_eff [OF assms(1)] by (simp_all add: switchkvm_def)
  have ok0: "cpu_ok (mach ?s0) a c" "ncli (cpus (mach ?s0) ! c) = 1"
    using mach_eff_ok [OF e0(1) assms(1)] e0(1) assms(2) by (simp_all add: mach_eff_def)
  have e1: "mach_eff (mach s) (mach (?idle u)) a c 0 None" if "mach u = mach ?s0" for u
    using mach_eff_trans [OF e0(1), of "mach (?idle u)" 0 None] set_cpu_eff [OF ok0(1), of "\<lambda>cp. cp\<lparr>cproc := None\<rparr>"] that
    by simp
  have ok1: "cpu_ok (mach (?idle u)) a c" "0 < ncli (cpus (mach (?idle u)) ! c)" "cproc (cpus (mach (?idle u)) ! c) = None"
    if "mach u = mach ?s0" for u
    using mach_eff_ok [OF e1 [OF that] assms(1)] e1 [OF that] assms(2) by (auto simp: mach_eff_def)
  show ?thesis
  proof (cases l)
    case (Rr j)
    have h: "holds_pt c (?idle ?s0)" "table_wf (?idle ?s0)" "ready_ok (?idle ?s0)"
      using assms(3-5) e0(2,3) by (simp_all add: holds_pt_def table_wf_def ready_ok_def)
    have "sched_idle a c (- 1) s t" if "sched_idle a c (- 1) (?idle ?s0) t" for t
      using that e0(3) mach_eff_trans [OF e1 [of ?s0, OF refl], of "mach t" "- 1" None]
      by (simp add: sched_idle_def same_table_def)
    moreover have "sched_switched a c 0 i s t" if "sched_switched a c 0 i (?idle ?s0) t" for i t
      using that e0(3) mach_eff_trans [OF e1 [of ?s0, OF refl], of "mach t" 0 "Some i"]
      by (simp add: sched_switched_def same_table_def)
    moreover have "scheduler_resume a c l s = rr_next a c (Suc j) (?idle ?s0)"
      using Rr by (simp add: scheduler_resume_def Let_def)
    ultimately show ?thesis
      using rr_next_eff [OF ok1(1,2) [OF refl] h ok1(3) [OF refl], of "Suc j"] by metis
  next
    case (Mlfq pol i)
    then have "i < NPROC" using assms(6) by simp
    moreover have "table_wf ?s0" using same_table_wf [OF e0(3)] assms(4) by simp
    ultimately obtain u where u: "mlfq_account i ?s0 = Done u" "table_wf u" using mlfq_account_wf by blast
    have same: "same_rest ?s0 u" using mlfq_account_frame [OF u(1)] .
    then have mu: "mach u = mach ?s0" by (simp add: same_rest_def)
    have h: "holds_pt c (?idle u)" "table_wf (?idle u)"
      using assms(3) e0(2) same u(2) by (simp_all add: holds_pt_def table_wf_def same_rest_def)
    obtain t where t: "mlfq_finish a pol (Some i) (?idle u) = Done (t, At_top)" "sched_idle a c (- 1) (?idle u) t"
      using mlfq_finish_eff [OF ok1(1,2) [OF mu] h ok1(3) [OF mu]] by blast
    then have "sched_idle a c (- 1) s t"
      using e0(3) same mach_eff_trans [OF e1 [OF mu], of "mach t" "- 1" None]
      by (simp add: sched_idle_def same_table_def same_rest_def)
    moreover have "scheduler_resume a c l s = Done (t, At_top)"
      using Mlfq u(1) t(1) by (simp add: scheduler_resume_def Let_def)
    ultimately show ?thesis by blast
  qed
qed

subsection \<open>Waking, killing and exiting\<close>

text \<open>Sleepers may have become runnable; nothing else about any process that matters here changed.\<close>

definition woken :: "proc list \<Rightarrow> proc list \<Rightarrow> bool" where
  "woken ps qs \<longleftrightarrow> length qs = length ps \<and> (\<forall>j<length ps.
      pid (qs ! j) = pid (ps ! j) \<and> kstack (qs ! j) = kstack (ps ! j) \<and> pgdir (qs ! j) = pgdir (ps ! j) \<and>
      (state (qs ! j) = state (ps ! j) \<or> state (ps ! j) = SLEEPING \<and> state (qs ! j) = RUNNABLE))"

lemma woken_refl: "woken ps ps" by (simp add: woken_def)

lemma woken_trans: "woken ps qs \<Longrightarrow> woken qs rs \<Longrightarrow> woken ps rs"
  by (auto simp: woken_def) metis+

lemma wakeup1_frame [simp]:
  "mach (wakeup1 ch s) = mach s" "ptlock (wakeup1 ch s) = ptlock s" "nextpid (wakeup1 ch s) = nextpid s"
  "proc_priority (wakeup1 ch s) = proc_priority s" "proc_ticks (wakeup1 ch s) = proc_ticks s"
  "proc_wait_ticks (wakeup1 ch s) = proc_wait_ticks s" "length (procs (wakeup1 ch s)) = length (procs s)"
  "initproc (wakeup1 ch s) = initproc s" "km (wakeup1 ch s) = km s"
  by (simp_all add: wakeup1_def)

lemma wakeup1_woken: "woken (procs s) (procs (wakeup1 ch s))"
  by (auto simp: woken_def wakeup1_def)

lemma reparent_frame:
  "mach (reparent cur j s) = mach s \<and> ptlock (reparent cur j s) = ptlock s \<and> nextpid (reparent cur j s) = nextpid s
   \<and> proc_priority (reparent cur j s) = proc_priority s \<and> proc_ticks (reparent cur j s) = proc_ticks s
   \<and> proc_wait_ticks (reparent cur j s) = proc_wait_ticks s \<and> woken (procs s) (procs (reparent cur j s))"
proof -
  let ?s = "set_proc j (\<lambda>p. p\<lparr>parent := initproc s\<rparr>) s"
  have "woken (procs s) (procs ?s)" by (auto simp: woken_def nth_upd_at)
  then have "woken (procs s) (procs (wakeup1 ch ?s))" for ch using wakeup1_woken woken_trans by blast
  with \<open>woken (procs s) (procs ?s)\<close> show ?thesis by (simp add: reparent_def Let_def woken_refl)
qed

lemma fold_reparent_frame:
  "let t = fold (reparent cur) js s in mach t = mach s \<and> ptlock t = ptlock s \<and> nextpid t = nextpid s
   \<and> proc_priority t = proc_priority s \<and> proc_ticks t = proc_ticks s
   \<and> proc_wait_ticks t = proc_wait_ticks s \<and> woken (procs s) (procs t)"
proof (induction js arbitrary: s)
  case Nil
  then show ?case by (simp add: woken_refl)
next
  case (Cons j js)
  then show ?case using reparent_frame [of cur j s] woken_trans by (auto simp: Let_def)
qed

lemma exit_enter_eff:
  assumes "cpu_ok (mach s) a c" "ncli (cpus (mach s) ! c) = 0" "locked (ptlock s) = 0"
    and "cproc (cpus (mach s) ! c) = Some i" "i < NPROC" "table_wf s"
  shows "\<exists>t ena qs. exit_enter a i s = Done (t, ena) \<and> mach_eff (mach s) (mach t) a c 1 (Some i) \<and> holds_pt c t
    \<and> woken (procs s) qs \<and> procs t = upd_at i (\<lambda>p. p\<lparr>state := ZOMBIE\<rparr>) qs \<and> nextpid t = nextpid s \<and> table_wf t"
proof -
  obtain s1 where s1: "acquire_pt a s = Done s1" "mach_eff (mach s) (mach s1) a c 1 (Some i)" "holds_pt c s1"
      "same_table s s1" using acquire_pt_eff [OF assms(1,3)] assms(4) by auto
  define s2 where "s2 = fold (reparent i) [0..<length (procs s1)]
      (wakeup1 (map_option Chan_proc (parent (procs s1 ! i))) s1)"
  have f2: "mach s2 = mach s1" "ptlock s2 = ptlock s1" "nextpid s2 = nextpid s1"
      "proc_priority s2 = proc_priority s1" "proc_ticks s2 = proc_ticks s1" "proc_wait_ticks s2 = proc_wait_ticks s1"
      "woken (procs s1) (procs s2)"
    using fold_reparent_frame [of i "[0..<length (procs s1)]" "wakeup1 (map_option Chan_proc (parent (procs s1 ! i))) s1"]
      woken_trans [OF wakeup1_woken] by (auto simp: Let_def s2_def)
  have ok2: "cpu_ok (mach s2) a c" "cproc (cpus (mach s2) ! c) = Some i" "holds_pt c s2"
    using mach_eff_ok [OF s1(2) assms(1)] s1(2,3) assms(2) f2 by (simp_all add: mach_eff_def holds_pt_def)
  obtain s3 where s3: "myproc_pt a s2 = Done (s3, Some i)" "ptlock s3 = ptlock s2" "same_table s2 s3"
      "mach_eff (mach s2) (mach s3) a c 0 (Some i)"
    using myproc_pt_eff [OF ok2(1)] ok2(2) by auto
  have e3: "mach_eff (mach s) (mach s3) a c 1 (Some i)"
    using mach_eff_trans [OF s1(2), of "mach s3" 0 "Some i"] s3(4) f2(1) by simp
  have len: "length (procs s2) = NPROC" using f2(7) s1(4) assms(6) by (simp add: woken_def same_table_def table_wfD)
  have wf3: "table_wf s3"
    using assms(6) s1(4) s3(3) f2 len by (simp add: table_wf_def same_table_def)
  obtain s4 where s4: "count_tick i s3 = Done s4" "table_wf s4" using count_tick_wf [OF wf3 assms(5)] by blast
  have f4: "same_rest s3 s4" using count_tick_frame [OF s4(1)] .
  have ok4: "cpu_ok (mach s4) a c" "ncli (cpus (mach s4) ! c) = 1" "holds_pt c s4" "cproc (cpus (mach s4) ! c) = Some i"
      "i < length (procs s4)"
    using mach_eff_ok [OF e3 assms(1)] e3 assms(2,5) f4 s3(2) ok2(3) table_wfD(1) [OF wf3]
    by (auto simp: mach_eff_def same_rest_def holds_pt_def)
  obtain t ena where t: "sched_enter a (set_proc i (\<lambda>p. p\<lparr>state := ZOMBIE\<rparr>) s4) = Done (t, ena)"
      "holds_pt c t" "same_table (set_proc i (\<lambda>p. p\<lparr>state := ZOMBIE\<rparr>) s4) t" "mach_eff (mach s4) (mach t) a c 0 (Some i)"
    using sched_enter_set_proc [OF ok4, of "\<lambda>p. p\<lparr>state := ZOMBIE\<rparr>"] by auto
  have "exit_enter a i s = Done (t, ena)"
    using s1(1) s3(1) s4(1) t(1) by (simp add: exit_enter_def Let_def s2_def [symmetric])
  moreover have "mach_eff (mach s) (mach t) a c 1 (Some i)"
    using mach_eff_trans [OF e3, of "mach t" 0 "Some i"] t(4) f4 by (simp add: same_rest_def)
  moreover have "procs t = upd_at i (\<lambda>p. p\<lparr>state := ZOMBIE\<rparr>) (procs s2)" "nextpid t = nextpid s"
    using t(3) f4 s3(3) f2(3) s1(4) by (simp_all add: same_table_def same_rest_def)
  moreover have "woken (procs s) (procs s2)" using f2(7) s1(4) by (simp add: same_table_def)
  moreover have "table_wf t" using same_table_wf [OF t(3)] s4(2) by (simp add: table_wf_def)
  ultimately show ?thesis using t(2) by blast
qed

text \<open>\<^verbatim>\<open>wakeup\<close> and \<^verbatim>\<open>kill\<close> from a processor that holds no lock.\<close>

definition table_step :: "u8 \<Rightarrow> nat \<Rightarrow> pstate \<Rightarrow> pstate \<Rightarrow> bool" where
  "table_step a c s t \<longleftrightarrow> mach_eff (mach s) (mach t) a c 0 (cproc (cpus (mach s) ! c)) \<and> locked (ptlock t) = 0
     \<and> nextpid t = nextpid s \<and> woken (procs s) (procs t) \<and> (table_wf s \<longrightarrow> table_wf t)"

lemma wakeup_eff:
  assumes "cpu_ok (mach s) a c" "locked (ptlock s) = 0"
  shows "\<exists>t. wakeup a ch s = Done t \<and> table_step a c s t"
proof -
  obtain u t where u: "acquire_pt a s = Done u" "release_pt a (wakeup1 (Some ch) u) = Done t" "same_table s u"
     "mach_eff (mach s) (mach t) a c 0 (cproc (cpus (mach s) ! c))" "locked (ptlock t) = 0"
     "same_table (wakeup1 (Some ch) u) t"
    using critical_section [OF assms, of "wakeup1 (Some ch)"] by auto
  have "table_wf s \<longrightarrow> table_wf t" using u(3,6) by (simp add: table_wf_def same_table_def)
  then show ?thesis
    using u wakeup1_woken [of u "Some ch"] by (simp add: wakeup_def table_step_def same_table_def)
qed

definition kill_mark :: "int \<Rightarrow> pstate \<Rightarrow> pstate" where
  "kill_mark n s = (case find_index (\<lambda>p. pid p = n) (procs s) of
       Some i \<Rightarrow>
         let s = set_proc i (\<lambda>p. p\<lparr>killed := True\<rparr>) s
         in if state_of s i = SLEEPING then set_proc i (\<lambda>p. p\<lparr>state := RUNNABLE\<rparr>) s else s
     | None \<Rightarrow> s)"

lemma kill_split:
  "kill a n s = and_then (acquire_pt a s) (\<lambda>s. and_then (release_pt a (kill_mark n s))
     (\<lambda>t. Done (t, if find_index (\<lambda>p. pid p = n) (procs s) = None then - 1 else 0)))"
  unfolding kill_def by (rule and_then_cong) (auto simp: kill_mark_def Let_def split: option.splits)

lemma kill_mark_frame:
  "mach (kill_mark n s) = mach s \<and> ptlock (kill_mark n s) = ptlock s \<and> nextpid (kill_mark n s) = nextpid s
   \<and> proc_priority (kill_mark n s) = proc_priority s \<and> proc_ticks (kill_mark n s) = proc_ticks s
   \<and> proc_wait_ticks (kill_mark n s) = proc_wait_ticks s \<and> woken (procs s) (procs (kill_mark n s))"
  by (auto simp: kill_mark_def Let_def woken_def nth_upd_at find_index_Some_iff split: option.splits)

lemma kill_eff:
  assumes "cpu_ok (mach s) a c" "locked (ptlock s) = 0"
  shows "\<exists>t r. kill a n s = Done (t, r) \<and> table_step a c s t"
proof -
  obtain u t where u: "acquire_pt a s = Done u" "release_pt a (kill_mark n u) = Done t" "same_table s u"
     "mach_eff (mach s) (mach t) a c 0 (cproc (cpus (mach s) ! c))" "locked (ptlock t) = 0"
     "same_table (kill_mark n u) t"
    using critical_section [OF assms, of "kill_mark n"] kill_mark_frame by auto
  have "length (procs (kill_mark n u)) = length (procs u)" using kill_mark_frame [of n u] by (simp add: woken_def)
  then have "table_wf s \<longrightarrow> table_wf t"
    using u(3,6) kill_mark_frame [of n u] by (simp add: table_wf_def same_table_def)
  then show ?thesis
    using u kill_mark_frame [of n u] by (simp add: kill_split table_step_def same_table_def)
qed

subsection \<open>Birth and death\<close>

text \<open>
  \<open>allocproc\<close> either changes only an unused slot (or nothing), or turns the
  first unused slot into an embryo with a fresh pid and a kernel stack.
\<close>

definition alloc_eff :: "pstate \<Rightarrow> pstate \<Rightarrow> nat option \<Rightarrow> bool" where
  "alloc_eff s t r \<longleftrightarrow> length (procs t) = length (procs s) \<and>
     (case r of
        None \<Rightarrow> (nextpid t = nextpid s \<or> nextpid t = int_inc (nextpid s)) \<and>
          (\<forall>j<length (procs s). procs t ! j = procs s ! j \<or> state_of s j = UNUSED \<and> state_of t j = UNUSED)
      | Some i \<Rightarrow> i < length (procs s) \<and> state_of s i = UNUSED \<and> state_of t i = EMBRYO
          \<and> pid (procs t ! i) = nextpid s \<and> nextpid t = int_inc (nextpid s) \<and> kstack (procs t ! i) \<noteq> 0
          \<and> (\<forall>j<length (procs s). j \<noteq> i \<longrightarrow> procs t ! j = procs s ! j))"

lemma setup_kstack_frame:
  assumes "setup_kstack sy i s = (t, r)"
  shows "mach t = mach s \<and> ptlock t = ptlock s \<and> nextpid t = nextpid s \<and> proc_priority t = proc_priority s
    \<and> proc_ticks t = proc_ticks s \<and> proc_wait_ticks t = proc_wait_ticks s \<and> initproc t = initproc s
    \<and> length (procs t) = length (procs s) \<and> (\<forall>j. j \<noteq> i \<longrightarrow> procs t ! j = procs s ! j)
    \<and> (i < length (procs s) \<longrightarrow> pid (procs t ! i) = pid (procs s ! i) \<and> r = (if kstack (procs t ! i) = 0 then None else Some i)
        \<and> state_of t i = (if r = None then UNUSED else state_of s i))"
  using assms by (auto simp: setup_kstack_def Let_def split: prod.splits if_splits)

lemma claim_slot_frame: "mach (fst (claim_slot u)) = mach u \<and> ptlock (fst (claim_slot u)) = ptlock u"
  by (simp add: claim_slot_def Let_def split: option.splits)

lemma allocproc_eff:
  assumes "cpu_ok (mach s) a c" "locked (ptlock s) = 0" "table_wf s"
  shows "\<exists>t r. allocproc sy a s = Done (t, r) \<and> mach_eff (mach s) (mach t) a c 0 (cproc (cpus (mach s) ! c))
    \<and> locked (ptlock t) = 0 \<and> table_wf t \<and> alloc_eff s t r"
proof -
  obtain u t where u: "acquire_pt a s = Done u" "release_pt a (fst (claim_slot u)) = Done t" "same_table s u"
     "mach_eff (mach s) (mach t) a c 0 (cproc (cpus (mach s) ! c))" "locked (ptlock t) = 0"
     "same_table (fst (claim_slot u)) t"
    using critical_section [OF assms(1,2), of "\<lambda>u. fst (claim_slot u)"] claim_slot_frame by auto
  show ?thesis
  proof (cases "find_index (\<lambda>p. state p = UNUSED) (procs u)")
    case None
    then have cs: "claim_slot u = (u, None)" by (simp add: claim_slot_def)
    have st: "same_table s t" using u(3,6) by (simp add: cs same_table_def)
    have "table_wf t" using same_table_wf [OF st] assms(3) by simp
    moreover have "alloc_eff s t None" using st by (simp add: alloc_eff_def same_table_def)
    moreover have "allocproc sy a s = Done (t, None)" using u(1,2) by (simp add: allocproc_def cs)
    ultimately show ?thesis using u(4,5) by blast
  next
    case (Some i)
    then have i: "i < length (procs s)" "state_of s i = UNUSED"
      using u(3) by (simp_all add: find_index_Some_iff same_table_def)
    obtain v r where v: "setup_kstack sy i t = (v, r)" by (cases "setup_kstack sy i t")
    have cs: "snd (claim_slot u) = Some i" using Some by (simp add: claim_slot_def Let_def)
    have t: "procs t = upd_at i (\<lambda>p. p\<lparr>state := EMBRYO, pid := nextpid s\<rparr>) (procs s)" "nextpid t = int_inc (nextpid s)"
        "proc_priority t = (proc_priority s)[i := 3]" "proc_ticks t = (proc_ticks s)[i := replicate 4 0]"
        "proc_wait_ticks t = (proc_wait_ticks s)[i := replicate 4 0]"
      using u(3,6) Some by (simp_all add: claim_slot_def Let_def same_table_def)
    have f: "mach v = mach t" "ptlock v = ptlock t" "nextpid v = nextpid t" "proc_priority v = proc_priority t"
        "proc_ticks v = proc_ticks t" "proc_wait_ticks v = proc_wait_ticks t" "length (procs v) = length (procs t)"
        "\<And>j. j \<noteq> i \<Longrightarrow> procs v ! j = procs t ! j" "pid (procs v ! i) = pid (procs t ! i)"
        "r = (if kstack (procs v ! i) = 0 then None else Some i)" "state_of v i = (if r = None then UNUSED else state_of t i)"
      using setup_kstack_frame [OF v] i t by simp_all
    have "table_wf v" using assms(3) t f i by (auto simp: table_wf_def nth_list_update_if)
    moreover have "alloc_eff s v r"
    proof (cases r)
      case None
      then have "procs v ! j = procs s ! j \<or> state_of s j = UNUSED \<and> state_of v j = UNUSED" for j
        using t f i by (cases "j = i") auto
      then show ?thesis using t f None by (simp add: alloc_eff_def)
    next
      case (Some k)
      then show ?thesis using t f i by (auto simp: alloc_eff_def split: if_splits)
    qed
    moreover have "allocproc sy a s = Done (v, r)"
      using u(1,2) cs v by (cases "claim_slot u") (simp add: allocproc_def)
    ultimately show ?thesis using u(4,5) f(1,2) by auto
  qed
qed

lemma publish_eff:
  assumes "cpu_ok (mach s) a c" "locked (ptlock s) = 0"
  shows "\<exists>t. publish a np s = Done t \<and> mach_eff (mach s) (mach t) a c 0 (cproc (cpus (mach s) ! c))
    \<and> locked (ptlock t) = 0 \<and> same_table (set_proc np (\<lambda>p. p\<lparr>state := RUNNABLE\<rparr>) s) t"
proof -
  obtain u t where u: "acquire_pt a s = Done u" "release_pt a (set_proc np (\<lambda>p. p\<lparr>state := RUNNABLE\<rparr>) u) = Done t"
     "same_table s u" "mach_eff (mach s) (mach t) a c 0 (cproc (cpus (mach s) ! c))" "locked (ptlock t) = 0"
     "same_table (set_proc np (\<lambda>p. p\<lparr>state := RUNNABLE\<rparr>) u) t"
    using critical_section [OF assms, of "set_proc np (\<lambda>p. p\<lparr>state := RUNNABLE\<rparr>)"] by auto
  then show ?thesis by (simp add: publish_def same_table_def)
qed

text \<open>One turn of \<^verbatim>\<open>wait\<close>: a zombie child is gone, nothing changed, or the caller sleeps.\<close>

definition reaped :: "proc list \<Rightarrow> proc list \<Rightarrow> bool" where
  "reaped ps qs \<longleftrightarrow> length qs = length ps \<and> (\<forall>j<length ps. qs ! j = ps ! j \<or> state (ps ! j) = ZOMBIE \<and> state (qs ! j) = UNUSED)"

lemma wait_reap_frame:
  assumes "wait_reap ke j s = Done t" "state_of s j = ZOMBIE" "j < length (procs s)"
  shows "mach t = mach s \<and> ptlock t = ptlock s \<and> nextpid t = nextpid s \<and> proc_priority t = proc_priority s
    \<and> proc_ticks t = proc_ticks s \<and> proc_wait_ticks t = proc_wait_ticks s \<and> reaped (procs s) (procs t)"
  using assms by (auto simp: wait_reap_def outcome_simps Let_def reaped_def nth_upd_at split: if_splits)

lemma wait_turn_eff:
  assumes "cpu_ok (mach s) a c" "ncli (cpus (mach s) ! c) = 1" "holds_pt c s"
    and "cproc (cpus (mach s) ! c) = Some i" "i < length (procs s)" "wait_turn ke a i s = Done (t, r)" "table_wf s"
  shows "(\<exists>n. r = Wait_returns n \<and> mach_eff (mach s) (mach t) a c (- 1) (Some i) \<and> locked (ptlock t) = 0
        \<and> nextpid t = nextpid s \<and> table_wf t \<and> reaped (procs s) (procs t))
    \<or> (\<exists>ena. r = Wait_sleeps ena \<and> mach_eff (mach s) (mach t) a c 0 (Some i) \<and> holds_pt c t
        \<and> same_table (set_proc i (\<lambda>p. p\<lparr>chan := Some (Chan_proc i), state := SLEEPING\<rparr>) s) t)"
proof -
  have rel: "\<exists>t. release_pt a u = Done t \<and> mach_eff (mach u) (mach t) a c (- 1) (Some i) \<and> locked (ptlock t) = 0
      \<and> same_table u t" if "mach u = mach s" "ptlock u = ptlock s" for u
    using release_pt_eff [of u a c] that assms(1-4) by (simp add: holds_pt_def)
  show ?thesis
  proof (cases "find_index (\<lambda>p. parent p = Some i \<and> state p = ZOMBIE) (procs s)")
    case (Some j)
    then have j: "j < length (procs s)" "state_of s j = ZOMBIE" by (simp_all add: find_index_Some_iff)
    from Some assms(6) obtain u where u: "wait_reap ke j s = Done u" "release_pt a u = Done t"
        "r = Wait_returns (pid (procs s ! j))"
      by (auto simp: wait_turn_def Let_def outcome_simps)
    note f = wait_reap_frame [OF u(1) j(2,1)]
    have "mach_eff (mach s) (mach t) a c (- 1) (Some i)" "locked (ptlock t) = 0" "same_table u t"
      using rel [of u] f u(2) by auto
    moreover have "length (procs u) = length (procs s)" using f by (simp add: reaped_def)
    ultimately show ?thesis using f u(3) assms(7) by (simp add: same_table_def table_wf_def)
  next
    case None
    show ?thesis
    proof (cases "\<not> list_ex (\<lambda>p. parent p = Some i) (procs s) \<or> killed (procs s ! i)")
      case True
      then have "release_pt a s = Done t" "r = Wait_returns (- 1)"
        using None assms(6) by (auto simp: wait_turn_def Let_def outcome_simps)
      then show ?thesis
        using rel [of s] assms(7) by (auto simp: same_table_def table_wf_def reaped_def)
    next
      case False
      then have "\<exists>lk ena. sleep_enter a (Chan_proc i) Ptable_lock s = Done (t, lk, ena) \<and> r = Wait_sleeps ena"
        using None assms(6) by (auto simp: wait_turn_def Let_def outcome_simps)
      then show ?thesis using sleep_enter_pt_eff [OF assms(1-5), of "Chan_proc i"] by auto
    qed
  qed
qed

end
