(* ===== verification/Ksystem.thy ===== *)
theory Ksystem
  imports Proc_Effects
begin

text \<open>
  All processors at once: every processor runs either its scheduler or a
  process, and the routines of \<^verbatim>\<open>proc.c\<close> interleave at the granularity of the
  table lock.  A step executes one processor up to its next
  \<^verbatim>\<open>swtch\<close> or to the end of a critical section; a routine that finds the
  table lock taken has no step until the lock is free.
\<close>

text \<open>
  Where a processor is: in its scheduler outside the critical section; just
  switched to a process, which still holds the table lock; running a process
  that does not hold it; in the loop of \<^verbatim>\<open>wait\<close>; creating a child in a given
  slot; or back in the scheduler's \<^verbatim>\<open>swtch\<close> with the table lock held.
\<close>

datatype cpc =
    In_scheduler
  | Resumed nat
  | In_process nat
  | In_wait nat
  | Creating nat nat
  | Switching nat

text \<open>Where a process that is not running will continue.\<close>

datatype cont = At_forkret | At_yield bool | At_sleep bool | At_wait bool

record ksys =
  ps :: pstate
  pc :: "nat \<Rightarrow> cpc"
  loc :: "nat \<Rightarrow> sched_local"
  cont :: "nat \<Rightarrow> cont"

abbreviation ncpu :: "ksys \<Rightarrow> nat" where "ncpu S \<equiv> length (cpus (mach (ps S)))"
abbreviation aid :: "ksys \<Rightarrow> nat \<Rightarrow> u8" where "aid S c \<equiv> apicid (cpus (mach (ps S)) ! c)"

definition at :: "nat \<Rightarrow> cpc \<Rightarrow> pstate \<Rightarrow> ksys \<Rightarrow> ksys" where
  "at c x t S = S\<lparr>ps := t, pc := (pc S)(c := x)\<rparr>"

definition set_cont :: "nat \<Rightarrow> cont \<Rightarrow> ksys \<Rightarrow> ksys" where
  "set_cont i k S = S\<lparr>cont := (cont S)(i := k)\<rparr>"

definition set_loc :: "nat \<Rightarrow> sched_local \<Rightarrow> ksys \<Rightarrow> ksys" where
  "set_loc c l S = S\<lparr>loc := (loc S)(c := l)\<rparr>"

inductive kstep :: "ksyms \<Rightarrow> ksys \<Rightarrow> ksys \<Rightarrow> bool" for sy :: ksyms where
  sched_idles: "\<lbrakk>c < ncpu S; pc S c = In_scheduler; scheduler_top (aid S c) c (ps S) = Done (t, At_top)\<rbrakk>
    \<Longrightarrow> kstep sy S (at c In_scheduler t S)"
| sched_picks: "\<lbrakk>c < ncpu S; pc S c = In_scheduler; scheduler_top (aid S c) c (ps S) = Done (t, Switched i l)\<rbrakk>
    \<Longrightarrow> kstep sy S (set_loc c l (at c (Resumed i) t S))"
| back_idles: "\<lbrakk>c < ncpu S; pc S c = Switching i; scheduler_resume (aid S c) c (loc S c) (ps S) = Done (t, At_top)\<rbrakk>
    \<Longrightarrow> kstep sy S (at c In_scheduler t S)"
| back_picks: "\<lbrakk>c < ncpu S; pc S c = Switching i;
      scheduler_resume (aid S c) c (loc S c) (ps S) = Done (t, Switched j l)\<rbrakk>
    \<Longrightarrow> kstep sy S (set_loc c l (at c (Resumed j) t S))"
| resume_forkret: "\<lbrakk>c < ncpu S; pc S c = Resumed i; cont S i = At_forkret; release_pt (aid S c) (ps S) = Done t\<rbrakk>
    \<Longrightarrow> kstep sy S (at c (In_process i) t S)"
| resume_yield: "\<lbrakk>c < ncpu S; pc S c = Resumed i; cont S i = At_yield ena; yield_leave (aid S c) ena (ps S) = Done t\<rbrakk>
    \<Longrightarrow> kstep sy S (at c (In_process i) t S)"
| resume_sleep: "\<lbrakk>c < ncpu S; pc S c = Resumed i; cont S i = At_sleep ena; locked l = 0;
      sleep_leave (aid S c) i (Other_lock l) ena (ps S) = Done (t, Other_lock l1);
      release (mach t) l1 (aid S c) = Done (M, l2)\<rbrakk>
    \<Longrightarrow> kstep sy S (at c (In_process i) (t\<lparr>mach := M\<rparr>) S)"
| resume_wait: "\<lbrakk>c < ncpu S; pc S c = Resumed i; cont S i = At_wait ena;
      sleep_leave (aid S c) i Ptable_lock ena (ps S) = Done (t, Ptable_lock)\<rbrakk>
    \<Longrightarrow> kstep sy S (at c (In_wait i) t S)"
| yields: "\<lbrakk>c < ncpu S; pc S c = In_process i; yield_enter (aid S c) (ps S) = Done (t, ena)\<rbrakk>
    \<Longrightarrow> kstep sy S (set_cont i (At_yield ena) (at c (Switching i) t S))"
| sleeps: "\<lbrakk>c < ncpu S; pc S c = In_process i; locked l = 0; acquire (mach (ps S)) l (aid S c) = Done (M, l1);
      sleep_enter (aid S c) ch (Other_lock l1) ((ps S)\<lparr>mach := M\<rparr>) = Done (t, lk, ena)\<rbrakk>
    \<Longrightarrow> kstep sy S (set_cont i (At_sleep ena) (at c (Switching i) t S))"
| exits: "\<lbrakk>c < ncpu S; pc S c = In_process i; initproc (ps S) \<noteq> Some i; exit_enter (aid S c) i (ps S) = Done (t, ena)\<rbrakk>
    \<Longrightarrow> kstep sy S (at c (Switching i) t S)"
| wakes: "\<lbrakk>c < ncpu S; pc S c = In_process i; wakeup (aid S c) ch (ps S) = Done t\<rbrakk>
    \<Longrightarrow> kstep sy S (at c (In_process i) t S)"
| kills: "\<lbrakk>c < ncpu S; pc S c = In_process i; kill (aid S c) n (ps S) = Done (t, r)\<rbrakk>
    \<Longrightarrow> kstep sy S (at c (In_process i) t S)"
| waits: "\<lbrakk>c < ncpu S; pc S c = In_process i; acquire_pt (aid S c) (ps S) = Done t\<rbrakk>
    \<Longrightarrow> kstep sy S (at c (In_wait i) t S)"
| wait_returns: "\<lbrakk>c < ncpu S; pc S c = In_wait i; wait_turn (kend sy) (aid S c) i (ps S) = Done (t, Wait_returns n)\<rbrakk>
    \<Longrightarrow> kstep sy S (at c (In_process i) t S)"
| wait_sleeps: "\<lbrakk>c < ncpu S; pc S c = In_wait i; wait_turn (kend sy) (aid S c) i (ps S) = Done (t, Wait_sleeps ena)\<rbrakk>
    \<Longrightarrow> kstep sy S (set_cont i (At_wait ena) (at c (Switching i) t S))"
| fork_fails: "\<lbrakk>c < ncpu S; pc S c = In_process i; allocproc sy (aid S c) (ps S) = Done (t, None)\<rbrakk>
    \<Longrightarrow> kstep sy S (at c (In_process i) t S)"
| fork_allocates: "\<lbrakk>c < ncpu S; pc S c = In_process i; allocproc sy (aid S c) (ps S) = Done (t, Some j)\<rbrakk>
    \<Longrightarrow> kstep sy S (at c (Creating i j) t S)"
| fork_aborts: "\<lbrakk>c < ncpu S; pc S c = Creating i j; fork_abort (kend sy) j (ps S) = Done t\<rbrakk>
    \<Longrightarrow> kstep sy S (at c (In_process i) t S)"
| fork_publishes: "\<lbrakk>c < ncpu S; pc S c = Creating i j; d \<noteq> 0; publish (aid S c) j (fork_copy i j d (ps S)) = Done t\<rbrakk>
    \<Longrightarrow> kstep sy S (set_cont j At_forkret (at c (In_process i) t S))"

subsection \<open>The invariant\<close>

fun proc_of :: "cpc \<Rightarrow> nat option" where
  "proc_of In_scheduler = None"
| "proc_of (Resumed i) = Some i"
| "proc_of (In_process i) = Some i"
| "proc_of (In_wait i) = Some i"
| "proc_of (Creating i j) = Some i"
| "proc_of (Switching i) = Some i"

fun has_lock :: "cpc \<Rightarrow> bool" where
  "has_lock (Resumed i) \<longleftrightarrow> True"
| "has_lock (In_wait i) \<longleftrightarrow> True"
| "has_lock (Switching i) \<longleftrightarrow> True"
| "has_lock _ \<longleftrightarrow> False"

fun is_switching :: "cpc \<Rightarrow> bool" where
  "is_switching (Switching i) \<longleftrightarrow> True"
| "is_switching _ \<longleftrightarrow> False"

fun embryo_of :: "cpc \<Rightarrow> nat option" where
  "embryo_of (Creating i j) = Some j"
| "embryo_of _ = None"

definition live :: "proc \<Rightarrow> bool" where
  "live p \<longleftrightarrow> state p \<noteq> UNUSED \<and> state p \<noteq> EMBRYO"

text \<open>
  Live processes have a stack and an address space.  As long as \<^verbatim>\<open>nextpid\<close> has not overflowed, which
  \<open>nw\<close> stands for, used slots have distinct positive pids below it.
\<close>

definition procs_inv :: "bool \<Rightarrow> proc list \<Rightarrow> int \<Rightarrow> bool" where
  "procs_inv nw qs n \<longleftrightarrow>
     (nw \<longrightarrow> 0 < n \<and> n < 2 ^ 31 \<and>
       (\<forall>i<length qs. state (qs ! i) \<noteq> UNUSED \<longrightarrow> 0 < pid (qs ! i) \<and> pid (qs ! i) < n) \<and>
       (\<forall>i<length qs. \<forall>j<length qs. state (qs ! i) \<noteq> UNUSED \<and> state (qs ! j) \<noteq> UNUSED
          \<and> pid (qs ! i) = pid (qs ! j) \<longrightarrow> i = j)) \<and>
     (\<forall>i<length qs. live (qs ! i) \<longrightarrow> kstack (qs ! i) \<noteq> 0 \<and> pgdir (qs ! i) \<noteq> 0)"

definition cpus_inv :: "ksys \<Rightarrow> bool" where
  "cpus_inv S \<longleftrightarrow> distinct (map apicid (cpus (mach (ps S)))) \<and>
     (\<forall>c<ncpu S. cproc (cpus (mach (ps S)) ! c) = proc_of (pc S c)
        \<and> ncli (cpus (mach (ps S)) ! c) = (if has_lock (pc S c) then 1 else 0)
        \<and> (has_lock (pc S c) \<longrightarrow> \<not> flag_if (hw (mach (ps S)) (aid S c)))
        \<and> local_ok (loc S c))"

definition runs_inv :: "ksys \<Rightarrow> bool" where
  "runs_inv S \<longleftrightarrow>
     (\<forall>c<ncpu S. \<forall>i. proc_of (pc S c) = Some i \<longrightarrow> i < NPROC \<and> live (procs (ps S) ! i)
        \<and> (state_of (ps S) i = RUNNING \<longleftrightarrow> \<not> is_switching (pc S c))) \<and>
     (\<forall>c<ncpu S. \<forall>c'<ncpu S. proc_of (pc S c) \<noteq> None \<and> proc_of (pc S c) = proc_of (pc S c') \<longrightarrow> c = c') \<and>
     (\<forall>i<NPROC. state_of (ps S) i = RUNNING \<longrightarrow> (\<exists>c<ncpu S. proc_of (pc S c) = Some i))"

definition embryo_inv :: "ksys \<Rightarrow> bool" where
  "embryo_inv S \<longleftrightarrow>
     (\<forall>c<ncpu S. \<forall>j. embryo_of (pc S c) = Some j \<longrightarrow> j < NPROC \<and> state_of (ps S) j = EMBRYO
        \<and> kstack (procs (ps S) ! j) \<noteq> 0) \<and>
     (\<forall>c<ncpu S. \<forall>c'<ncpu S. embryo_of (pc S c) \<noteq> None \<and> embryo_of (pc S c) = embryo_of (pc S c') \<longrightarrow> c = c')"

definition ptlock_inv :: "ksys \<Rightarrow> bool" where
  "ptlock_inv S \<longleftrightarrow>
     (if locked (ptlock (ps S)) = 0 then \<forall>c<ncpu S. \<not> has_lock (pc S c)
      else \<exists>c<ncpu S. lkcpu (ptlock (ps S)) = Some c \<and> has_lock (pc S c)
             \<and> (\<forall>c'<ncpu S. has_lock (pc S c') \<longrightarrow> c' = c))"

definition kinv :: "bool \<Rightarrow> ksys \<Rightarrow> bool" where
  "kinv nw S \<longleftrightarrow> table_wf (ps S) \<and> procs_inv nw (procs (ps S)) (nextpid (ps S)) \<and> cpus_inv S \<and> runs_inv S
     \<and> embryo_inv S \<and> ptlock_inv S"

subsection \<open>One processor moves\<close>

lemma at_simps [simp]:
  "ps (at c x t S) = t" "pc (at c x t S) = (pc S)(c := x)" "loc (at c x t S) = loc S" "cont (at c x t S) = cont S"
  "ps (set_loc c l S) = ps S" "pc (set_loc c l S) = pc S" "loc (set_loc c l S) = (loc S)(c := l)"
  "ps (set_cont i k S) = ps S" "pc (set_cont i k S) = pc S" "loc (set_cont i k S) = loc S"
  by (simp_all add: at_def set_loc_def set_cont_def)

lemma kinv_set_cont [simp]: "kinv nw (set_cont i k S) = kinv nw S"
  by (simp add: kinv_def cpus_inv_def runs_inv_def embryo_inv_def ptlock_inv_def)

lemma ptlock_inv_set_loc [simp]: "ptlock_inv (set_loc c l S) = ptlock_inv S"
  by (simp add: ptlock_inv_def)

lemma set_loc_same: "set_loc c (loc S c) (at c x t S) = at c x t S"
  by (simp add: set_loc_def at_def)

lemma kinv_cpu:
  assumes "kinv nw S" "c < ncpu S"
  shows "cpu_ok (mach (ps S)) (aid S c) c" "cproc (cpus (mach (ps S)) ! c) = proc_of (pc S c)"
    "ncli (cpus (mach (ps S)) ! c) = (if has_lock (pc S c) then 1 else 0)" "local_ok (loc S c)"
  using assms by (auto simp: kinv_def cpus_inv_def cpu_ok_def runs_on_def)

lemma kinv_holds: "kinv nw S \<Longrightarrow> c < ncpu S \<Longrightarrow> has_lock (pc S c) \<Longrightarrow> holds_pt c (ps S)"
  by (auto simp: kinv_def ptlock_inv_def holds_pt_def split: if_splits)

lemma kinv_runs:
  assumes "kinv nw S" "c < ncpu S" "proc_of (pc S c) = Some i"
  shows "i < NPROC" "live (procs (ps S) ! i)" "state_of (ps S) i = RUNNING \<longleftrightarrow> \<not> is_switching (pc S c)"
  using assms by (auto simp: kinv_def runs_inv_def)

lemma kinv_ready: "kinv nw S \<Longrightarrow> ready_ok (ps S)"
  by (auto simp: kinv_def procs_inv_def ready_ok_def live_def)

lemma aid_eff: "mach_eff (mach (ps S)) M a c d p \<Longrightarrow> j < ncpu S \<Longrightarrow> apicid (cpus M ! j) = aid S j"
  by (simp add: mach_eff_def) (metis length_map nth_map)

lemma ncpu_eff: "mach_eff (mach (ps S)) M a c d p \<Longrightarrow> length (cpus M) = ncpu S"
  by (simp add: mach_eff_def) (metis length_map)

text \<open>\<open>mine S c\<close>: the table lock is free or processor \<open>c\<close> holds it.\<close>

definition mine :: "ksys \<Rightarrow> nat \<Rightarrow> bool" where
  "mine S c \<longleftrightarrow> locked (ptlock (ps S)) = 0 \<or> has_lock (pc S c)"

lemma mine_others: "kinv nw S \<Longrightarrow> c < ncpu S \<Longrightarrow> mine S c \<Longrightarrow> c' < ncpu S \<Longrightarrow> c' \<noteq> c \<Longrightarrow> \<not> has_lock (pc S c')"
  unfolding kinv_def ptlock_inv_def mine_def by (metis (full_types))

lemma not_has_lock_switching: "\<not> has_lock x \<Longrightarrow> \<not> is_switching x"
  by (cases x) auto

lemma cpus_inv_at:
  assumes "cpus_inv S" "c < ncpu S" "mach_eff (mach (ps S)) (mach t) (aid S c) c d (proc_of x)"
    and "(if has_lock (pc S c) then 1 else 0) + d = (if has_lock x then 1 else 0)" "local_ok l"
  shows "cpus_inv (set_loc c l (at c x t S))"
proof -
  note e = assms(3) and n = ncpu_eff [OF assms(3)] and ai = aid_eff [OF assms(3)]
  have inj: "aid S c' = aid S c \<longleftrightarrow> c' = c" if "c' < ncpu S" for c'
    using assms(1,2) that nth_eq_iff_index_eq [of "map apicid (cpus (mach (ps S)))" c' c] by (simp add: cpus_inv_def)
  have "distinct (map apicid (cpus (mach t)))" using e assms(1) by (simp add: mach_eff_def cpus_inv_def)
  moreover have "cproc (cpus (mach t) ! c') = proc_of (((pc S)(c := x)) c')
      \<and> ncli (cpus (mach t) ! c') = (if has_lock (((pc S)(c := x)) c') then 1 else 0)
      \<and> (has_lock (((pc S)(c := x)) c') \<longrightarrow> \<not> flag_if (hw (mach t) (apicid (cpus (mach t) ! c'))))
      \<and> local_ok (((loc S)(c := l)) c')" if c': "c' < ncpu S" for c'
  proof (cases "c' = c")
    case True
    have "ncli (cpus (mach t) ! c) = (if has_lock x then 1 else 0)"
      using e assms(1,2,4) by (simp add: mach_eff_def cpus_inv_def)
    then show ?thesis using True e ai [OF assms(2)] assms(5) by (auto simp: mach_eff_def split: if_splits)
  next
    case False
    then show ?thesis
      using e assms(1) c' ai [OF c'] inj [OF c'] by (auto simp: mach_eff_def cpus_inv_def)
  qed
  ultimately show ?thesis unfolding cpus_inv_def at_simps n by blast
qed

lemma ptlock_inv_at:
  assumes "kinv nw S" "c < ncpu S" "mine S c" "length (cpus (mach t)) = ncpu S"
    and "if has_lock x then holds_pt c t else locked (ptlock t) = 0"
  shows "ptlock_inv (at c x t S)"
  using assms mine_others [OF assms(1-3)]
  by (auto simp: ptlock_inv_def holds_pt_def split: if_splits)

text \<open>
  A processor that may change the table moves to \<open>x\<close> and leaves the table as \<open>t\<close>.
\<close>

lemma kinv_move:
  assumes inv: "kinv nw S" and c: "c < ncpu S" and mine: "mine S c"
    and e: "mach_eff (mach (ps S)) (mach t) (aid S c) c d (proc_of x)"
    and d: "(if has_lock (pc S c) then 1 else 0) + d = (if has_lock x then 1 else 0)" and l: "local_ok l"
    and lk: "if has_lock x then holds_pt c t else locked (ptlock t) = 0"
    and wf: "table_wf t" and pi: "procs_inv nw (procs t) (nextpid t)"
    and keep: "\<And>j. j < NPROC \<Longrightarrow> state_of (ps S) j = RUNNING \<Longrightarrow> proc_of (pc S c) \<noteq> Some j \<Longrightarrow> state_of t j = RUNNING"
    and run: "\<And>j. j < NPROC \<Longrightarrow> state_of t j = RUNNING \<Longrightarrow>
      proc_of x = Some j \<or> state_of (ps S) j = RUNNING \<and> proc_of (pc S c) \<noteq> Some j"
    and own: "\<And>i. proc_of x = Some i \<Longrightarrow> i < NPROC \<and> live (procs t ! i) \<and> (state_of t i = RUNNING \<longleftrightarrow> \<not> is_switching x)
      \<and> (proc_of (pc S c) = Some i \<or> state_of (ps S) i \<noteq> RUNNING)"
    and emb: "\<And>j. j < NPROC \<Longrightarrow> state_of (ps S) j = EMBRYO \<Longrightarrow> kstack (procs (ps S) ! j) \<noteq> 0 \<Longrightarrow>
      embryo_of (pc S c) \<noteq> Some j \<Longrightarrow> state_of t j = EMBRYO \<and> kstack (procs t ! j) \<noteq> 0"
    and new: "\<And>j. embryo_of x = Some j \<Longrightarrow> j < NPROC \<and> state_of t j = EMBRYO \<and> kstack (procs t ! j) \<noteq> 0
      \<and> state_of (ps S) j \<noteq> EMBRYO"
  shows "kinv nw (set_loc c l (at c x t S))"
proof -
  note n = ncpu_eff [OF e]
  have ri: "runs_inv S" and ei: "embryo_inv S" and ci: "cpus_inv S" using inv by (simp_all add: kinv_def)
  have other_runs: "state_of (ps S) j = RUNNING \<and> j < NPROC \<and> proc_of (pc S c) \<noteq> Some j"
    if "c' < ncpu S" "c' \<noteq> c" "proc_of (pc S c') = Some j" for c' j
    using that ri c mine_others [OF inv c mine that(1,2)] not_has_lock_switching
    unfolding runs_inv_def by (metis option.distinct(1))
  have other_emb: "state_of (ps S) j = EMBRYO \<and> j < NPROC \<and> kstack (procs (ps S) ! j) \<noteq> 0 \<and> embryo_of (pc S c) \<noteq> Some j"
    if "c' < ncpu S" "c' \<noteq> c" "embryo_of (pc S c') = Some j" for c' j
    using that ei c unfolding embryo_inv_def by (metis option.distinct(1))
  have "runs_inv (set_loc c l (at c x t S))"
    unfolding runs_inv_def at_simps n
  proof (intro conjI allI impI)
    fix c' i assume c': "c' < ncpu S" and p: "proc_of (((pc S)(c := x)) c') = Some i"
    show "i < NPROC" "live (procs t ! i)" "state_of t i = RUNNING \<longleftrightarrow> \<not> is_switching (((pc S)(c := x)) c')"
      using p own [of i] other_runs [OF c', of i] keep [of i]
        not_has_lock_switching mine_others [OF inv c mine c']
      by (cases "c' = c"; auto simp: live_def)+
  next
    fix c1 c2 assume "c1 < ncpu S" "c2 < ncpu S"
      "proc_of (((pc S)(c := x)) c1) \<noteq> None \<and> proc_of (((pc S)(c := x)) c1) = proc_of (((pc S)(c := x)) c2)"
    then show "c1 = c2"
      using own other_runs ri unfolding runs_inv_def by (auto split: if_splits) (metis option.distinct(1))+
  next
    fix i assume "i < NPROC" "state_of t i = RUNNING"
    then consider "proc_of x = Some i" | "state_of (ps S) i = RUNNING" "proc_of (pc S c) \<noteq> Some i" using run by blast
    then show "\<exists>c'<ncpu S. proc_of (((pc S)(c := x)) c') = Some i"
    proof cases
      case 1
      then show ?thesis using c by (intro exI [of _ c]) simp
    next
      case 2
      then obtain c' where "c' < ncpu S" "proc_of (pc S c') = Some i"
        using ri \<open>i < NPROC\<close> unfolding runs_inv_def by blast
      then show ?thesis using 2 by (intro exI [of _ c']) auto
    qed
  qed
  moreover have "embryo_inv (set_loc c l (at c x t S))"
    unfolding embryo_inv_def at_simps n
  proof (intro conjI allI impI)
    fix c' j assume c': "c' < ncpu S" and p: "embryo_of (((pc S)(c := x)) c') = Some j"
    show "j < NPROC" "state_of t j = EMBRYO" "kstack (procs t ! j) \<noteq> 0"
      using p new [of j] other_emb [OF c', of j] emb [of j] by (cases "c' = c"; auto)+
  next
    fix c1 c2 assume "c1 < ncpu S" "c2 < ncpu S"
      "embryo_of (((pc S)(c := x)) c1) \<noteq> None \<and> embryo_of (((pc S)(c := x)) c1) = embryo_of (((pc S)(c := x)) c2)"
    then show "c1 = c2"
      using new other_emb ei unfolding embryo_inv_def by (auto split: if_splits) (metis option.distinct(1))+
  qed
  ultimately show ?thesis
    using cpus_inv_at [OF ci c e d l] ptlock_inv_at [OF inv c mine n lk] wf pi
    by (simp add: kinv_def)
qed

subsection \<open>What the steps do to the table\<close>

lemma procs_inv_mono: "procs_inv nw qs n \<Longrightarrow> (nw' \<Longrightarrow> nw) \<Longrightarrow> procs_inv nw' qs n"
  by (auto simp: procs_inv_def)

lemma procs_invI:
  assumes "procs_inv nw qs n" "nw \<Longrightarrow> n \<le> m \<and> m < 2 ^ 31" "length rs = length qs"
    and "\<And>j. j < length qs \<Longrightarrow> state (rs ! j) = UNUSED
      \<or> state (qs ! j) \<noteq> UNUSED \<and> pid (rs ! j) = pid (qs ! j)
        \<and> (live (rs ! j) \<longrightarrow> kstack (rs ! j) \<noteq> 0 \<and> pgdir (rs ! j) \<noteq> 0)"
  shows "procs_inv nw rs m"
  unfolding procs_inv_def assms(3)
proof (intro conjI allI impI)
  show "0 < m" "m < 2 ^ 31" if nw using assms(1,2) that by (auto simp: procs_inv_def)
next
  fix j assume nw and j: "j < length qs" "state (rs ! j) \<noteq> UNUSED"
  then show "0 < pid (rs ! j)" "pid (rs ! j) < m"
    using assms(1,2) assms(4) [of j] by (auto simp: procs_inv_def)
next
  fix j k assume nw "j < length qs" "k < length qs"
    "state (rs ! j) \<noteq> UNUSED \<and> state (rs ! k) \<noteq> UNUSED \<and> pid (rs ! j) = pid (rs ! k)"
  then show "j = k"
    using assms(1) assms(4) [of j] assms(4) [of k] unfolding procs_inv_def by metis
next
  fix j assume "j < length qs" "live (rs ! j)"
  then show "kstack (rs ! j) \<noteq> 0" "pgdir (rs ! j) \<noteq> 0"
    using assms(4) [of j] by (auto simp: live_def)
qed

lemma procs_invI_same:
  assumes "procs_inv nw qs n" "m = n" "length rs = length qs"
    and "\<And>j. j < length qs \<Longrightarrow> state (rs ! j) = UNUSED
      \<or> state (qs ! j) \<noteq> UNUSED \<and> pid (rs ! j) = pid (qs ! j)
        \<and> (live (rs ! j) \<longrightarrow> kstack (rs ! j) \<noteq> 0 \<and> pgdir (rs ! j) \<noteq> 0)"
  shows "procs_inv nw rs m"
  by (rule procs_invI [OF assms(1) _ assms(3,4)]) (use assms(1,2) in \<open>simp_all add: procs_inv_def\<close>)

lemma procs_invD:
  assumes "procs_inv nw qs n" "j < length qs"
  shows "nw \<Longrightarrow> state (qs ! j) \<noteq> UNUSED \<Longrightarrow> pid (qs ! j) < n" "live (qs ! j) \<Longrightarrow> kstack (qs ! j) \<noteq> 0"
    "live (qs ! j) \<Longrightarrow> pgdir (qs ! j) \<noteq> 0"
  using assms by (simp_all add: procs_inv_def)

lemma procs_inv_woken:
  assumes "procs_inv nw qs n" "woken qs rs"
  shows "procs_inv nw rs n"
  by (rule procs_invI_same [OF assms(1)])
    (use assms(2) procs_invD [OF assms(1)] in \<open>auto simp: woken_def live_def\<close>)

lemma procs_inv_upd:
  assumes "procs_inv nw qs n" "i < length qs" "live (qs ! i)"
    and "\<And>p. pid (f p) = pid p \<and> kstack (f p) = kstack p \<and> pgdir (f p) = pgdir p"
  shows "procs_inv nw (upd_at i f qs) n"
  by (rule procs_invI_same [OF assms(1)])
    (use assms(2-4) procs_invD [OF assms(1)] in \<open>auto simp: nth_upd_at live_def\<close>)

lemma procs_inv_reaped:
  assumes "procs_inv nw qs n" "reaped qs rs"
  shows "procs_inv nw rs n"
proof (rule procs_invI_same [OF assms(1) refl])
  show "length rs = length qs" using assms(2) by (simp add: reaped_def)
  fix j assume j: "j < length qs"
  then have "rs ! j = qs ! j \<or> state (qs ! j) = ZOMBIE \<and> state (rs ! j) = UNUSED"
    using assms(2) by (simp add: reaped_def)
  then show "state (rs ! j) = UNUSED \<or> state (qs ! j) \<noteq> UNUSED \<and> pid (rs ! j) = pid (qs ! j)
        \<and> (live (rs ! j) \<longrightarrow> kstack (rs ! j) \<noteq> 0 \<and> pgdir (rs ! j) \<noteq> 0)"
    using procs_invD [OF assms(1) j] by auto
qed

text \<open>A fresh pid in an unused slot.\<close>

lemma procs_inv_claim:
  assumes "procs_inv nw qs n" "i < length qs" "length rs = length qs" "\<And>j. j < length qs \<Longrightarrow> j \<noteq> i \<Longrightarrow> rs ! j = qs ! j"
    and "pid (rs ! i) = n" "state (rs ! i) = EMBRYO" "nw \<Longrightarrow> m = n + 1 \<and> m < 2 ^ 31"
  shows "procs_inv nw rs m"
  unfolding procs_inv_def assms(3)
proof (intro conjI allI impI)
  show "0 < m" "m < 2 ^ 31" if nw using assms(1,7) that by (auto simp: procs_inv_def)
next
  fix j assume nw "j < length qs" "state (rs ! j) \<noteq> UNUSED"
  then show "0 < pid (rs ! j)" "pid (rs ! j) < m"
    using assms by (cases "j = i"; fastforce simp: procs_inv_def)+
next
  fix j k assume nw and jk: "j < length qs" "k < length qs"
    "state (rs ! j) \<noteq> UNUSED \<and> state (rs ! k) \<noteq> UNUSED \<and> pid (rs ! j) = pid (rs ! k)"
  have low: "pid (rs ! m) < n" if "m < length qs" "m \<noteq> i" "state (rs ! m) \<noteq> UNUSED" for m
    using procs_invD(1) [OF assms(1) that(1) \<open>nw\<close>] that assms(4) by simp
  consider "j = i" "k = i" | "j \<noteq> i" "k \<noteq> i" | "j = i" "k \<noteq> i" | "j \<noteq> i" "k = i" by blast
  then show "j = k"
  proof cases
    case 2
    then show ?thesis using jk assms(1,4) \<open>nw\<close> unfolding procs_inv_def by metis
  qed (use jk low [of j] low [of k] assms(5) in auto)
next
  fix j assume "j < length qs" "live (rs ! j)"
  then show "kstack (rs ! j) \<noteq> 0" "pgdir (rs ! j) \<noteq> 0"
    using assms procs_invD(2,3) [OF assms(1), of j] by (cases "j = i"; auto simp: live_def)+
qed

text \<open>After an allocation the pids are still unique if \<^verbatim>\<open>nextpid\<close> has not overflowed.\<close>

lemma procs_inv_alloc:
  assumes "procs_inv nw (procs s) (nextpid s)" "alloc_eff s t r" "nw \<Longrightarrow> 0 < nextpid t"
  shows "procs_inv nw (procs t) (nextpid t)"
proof -
  have n: "nextpid t = nextpid s + 1 \<and> nextpid t < 2 ^ 31" if nw "nextpid t = int_inc (nextpid s)"
    using int_inc_positive [of "nextpid s"] that assms(1,3) by (auto simp: procs_inv_def)
  show ?thesis
  proof (cases r)
    case None
    have a: "procs t ! j = procs s ! j \<or> state_of t j = UNUSED" if "j < length (procs s)" for j
      using assms(2) that None by (auto simp: alloc_eff_def)
    have "nextpid s \<le> nextpid t \<and> nextpid t < 2 ^ 31" if nw
      using n [OF that] assms that None by (auto simp: alloc_eff_def procs_inv_def)
    then show ?thesis
      by (rule procs_invI [OF assms(1)])
        (use assms(2) a procs_invD [OF assms(1)] in \<open>auto simp: alloc_eff_def, metis+\<close>)
  next
    case (Some i)
    then show ?thesis
      using assms(2) n by (intro procs_inv_claim [OF assms(1), of i "procs t"]) (auto simp: alloc_eff_def)
  qed
qed

subsection \<open>Every step keeps the invariant\<close>

lemma kinv_wf: "kinv nw S \<Longrightarrow> table_wf (ps S)" by (simp add: kinv_def)

lemma kinv_procs: "kinv nw S \<Longrightarrow> procs_inv nw (procs (ps S)) (nextpid (ps S))" by (simp add: kinv_def)

lemma kinv_NPROC: "kinv nw S \<Longrightarrow> length (procs (ps S)) = NPROC" by (simp add: kinv_def table_wfD)

text \<open>The scheduler found nothing to run.\<close>

lemma kinv_idle:
  assumes "kinv nw S" "c < ncpu S" "mine S c" "sched_idle (aid S c) c d (ps S) t"
    and "d = (if has_lock (pc S c) then - 1 else 0)" "proc_of (pc S c) = None \<or> is_switching (pc S c)"
  shows "kinv nw (at c In_scheduler t S)"
proof -
  note f = assms(4) [unfolded sched_idle_def]
  have "kinv nw (set_loc c (loc S c) (at c In_scheduler t S))"
  proof (rule kinv_move [OF assms(1-3)])
    show "mach_eff (mach (ps S)) (mach t) (aid S c) c d (proc_of In_scheduler)" using f by simp
    show "procs_inv nw (procs t) (nextpid t)" using f kinv_procs [OF assms(1)] by simp
    show "proc_of In_scheduler = Some j \<or> state_of (ps S) j = RUNNING \<and> proc_of (pc S c) \<noteq> Some j"
      if "state_of t j = RUNNING" for j
      using that f assms(6) kinv_runs(3) [OF assms(1,2), of j] by auto
  qed (use f assms(5) kinv_cpu(4) [OF assms(1,2)] in auto)
  then show ?thesis by (simp only: set_loc_same)
qed

text \<open>The scheduler switched to process \<open>i\<close>.\<close>

lemma kinv_switched:
  assumes "kinv nw S" "c < ncpu S" "mine S c" "sched_switched (aid S c) c d i (ps S) t" "local_ok l"
    and "d = (if has_lock (pc S c) then 0 else 1)" "proc_of (pc S c) = None \<or> is_switching (pc S c)"
  shows "kinv nw (set_loc c l (at c (Resumed i) t S))"
proof -
  note f = assms(4) [unfolded sched_switched_def same_table_def]
  have len: "i < length (procs (ps S))" using f kinv_NPROC [OF assms(1)] by simp
  then have st: "state_of t j = (if j = i then RUNNING else state_of (ps S) j)" for j
    using f by (cases "j = i") auto
  have pi: "procs_inv nw (procs t) (nextpid t)"
    using f procs_inv_upd [OF kinv_procs [OF assms(1)] len, of "\<lambda>p. p\<lparr>state := RUNNING\<rparr>"] by (simp add: live_def)
  show ?thesis
  proof (rule kinv_move [OF assms(1-3)])
    show "mach_eff (mach (ps S)) (mach t) (aid S c) c d (proc_of (Resumed i))" using f by simp
    show "table_wf t" using f kinv_wf [OF assms(1)] by (simp add: table_wf_def)
    show "proc_of (Resumed i) = Some j \<or> state_of (ps S) j = RUNNING \<and> proc_of (pc S c) \<noteq> Some j"
      if "state_of t j = RUNNING" for j
      using that st assms(7) kinv_runs(3) [OF assms(1,2), of j] by (auto split: if_splits)
    show "state_of t j = EMBRYO \<and> kstack (procs t ! j) \<noteq> 0"
      if "j < NPROC" "state_of (ps S) j = EMBRYO" "kstack (procs (ps S) ! j) \<noteq> 0" for j
      using that f by (cases "j = i") auto
  qed (use f st pi assms(5,6) in \<open>auto simp: live_def\<close>)
qed

lemma kinv_scheduler:
  assumes inv: "kinv nw S" and c: "c < ncpu S" and free: "locked (ptlock (ps S)) = 0" and pc: "pc S c = In_scheduler"
  shows "(\<exists>t. scheduler_top (aid S c) c (ps S) = Done (t, At_top) \<and> kinv nw (at c In_scheduler t S))
    \<or> (\<exists>t i l. scheduler_top (aid S c) c (ps S) = Done (t, Switched i l) \<and> kinv nw (set_loc c l (at c (Resumed i) t S)))"
proof -
  have m: "mine S c" using free by (simp add: mine_def)
  note cpu = kinv_cpu [OF inv c]
  have "ncli (cpus (mach (ps S)) ! c) = 0" "cproc (cpus (mach (ps S)) ! c) = None" using cpu pc by simp_all
  from scheduler_top_eff [OF cpu(1) this(1) free kinv_wf [OF inv] kinv_ready [OF inv] this(2)]
  show ?thesis
    using kinv_idle [OF inv c m, of 0] kinv_switched [OF inv c m, of 1] pc by auto
qed

lemma kinv_back:
  assumes inv: "kinv nw S" and c: "c < ncpu S" and pc: "pc S c = Switching i"
  shows "(\<exists>t. scheduler_resume (aid S c) c (loc S c) (ps S) = Done (t, At_top) \<and> kinv nw (at c In_scheduler t S))
    \<or> (\<exists>t j l. scheduler_resume (aid S c) c (loc S c) (ps S) = Done (t, Switched j l)
         \<and> kinv nw (set_loc c l (at c (Resumed j) t S)))"
proof -
  have m: "mine S c" using pc by (simp add: mine_def)
  note cpu = kinv_cpu [OF inv c]
  have "ncli (cpus (mach (ps S)) ! c) = 1" "holds_pt c (ps S)" using cpu pc kinv_holds [OF inv c] by simp_all
  from scheduler_resume_eff [OF cpu(1) this kinv_wf [OF inv] kinv_ready [OF inv] cpu(4)]
  show ?thesis
    using kinv_idle [OF inv c m, of "- 1"] kinv_switched [OF inv c m, of 0] pc by auto
qed

text \<open>A process goes on running and has not started or stopped another one.\<close>

lemma kinv_stay:
  assumes "kinv nw S" "c < ncpu S" "mine S c" "proc_of (pc S c) = Some i" "\<not> is_switching (pc S c)"
    and "proc_of x = Some i" "\<not> is_switching x" "embryo_of x = None"
    and "mach_eff (mach (ps S)) (mach t) (aid S c) c d (Some i)"
    and "(if has_lock (pc S c) then 1 else 0) + d = (if has_lock x then 1 else 0)"
    and "if has_lock x then holds_pt c t else locked (ptlock t) = 0"
    and "table_wf t" "procs_inv nw (procs t) (nextpid t)"
    and run: "\<And>j. j < NPROC \<Longrightarrow> state_of t j = RUNNING \<longleftrightarrow> state_of (ps S) j = RUNNING"
    and emb: "\<And>j. j < NPROC \<Longrightarrow> state_of (ps S) j = EMBRYO \<Longrightarrow> embryo_of (pc S c) \<noteq> Some j \<Longrightarrow>
      state_of t j = EMBRYO \<and> kstack (procs t ! j) = kstack (procs (ps S) ! j)"
  shows "kinv nw (at c x t S)"
proof -
  note r = kinv_runs [OF assms(1,2,4)]
  have i: "state_of (ps S) i = RUNNING" "i < NPROC" using r assms(5) by simp_all
  have "kinv nw (set_loc c (loc S c) (at c x t S))"
  proof (rule kinv_move [OF assms(1-3)])
    show "mach_eff (mach (ps S)) (mach t) (aid S c) c d (proc_of x)" using assms(6,9) by simp
    show "k < NPROC \<and> live (procs t ! k) \<and> (state_of t k = RUNNING \<longleftrightarrow> \<not> is_switching x)
      \<and> (proc_of (pc S c) = Some k \<or> state_of (ps S) k \<noteq> RUNNING)" if "proc_of x = Some k" for k
      using that assms(4,6,7) i run [of i] by (auto simp: live_def)
    show "proc_of x = Some j \<or> state_of (ps S) j = RUNNING \<and> proc_of (pc S c) \<noteq> Some j"
      if "j < NPROC" "state_of t j = RUNNING" for j
      using that run [of j] assms(4,6) by auto
  qed (use assms run kinv_cpu(4) [OF assms(1,2)] in auto)
  then show ?thesis by (simp only: set_loc_same)
qed

text \<open>A process stops running and the processor is about to enter its scheduler.\<close>

lemma kinv_leave:
  assumes "kinv nw S" "c < ncpu S" "mine S c" "proc_of (pc S c) = Some i" "\<not> is_switching (pc S c)" "embryo_of (pc S c) = None"
    and "mach_eff (mach (ps S)) (mach t) (aid S c) c d (Some i)" "(if has_lock (pc S c) then 1 else 0) + d = 1"
    and "holds_pt c t" "table_wf t" "procs_inv nw (procs t) (nextpid t)"
    and own: "live (procs t ! i)" "state_of t i \<noteq> RUNNING"
    and run: "\<And>j. j < NPROC \<Longrightarrow> j \<noteq> i \<Longrightarrow> state_of t j = RUNNING \<longleftrightarrow> state_of (ps S) j = RUNNING"
    and emb: "\<And>j. j < NPROC \<Longrightarrow> state_of (ps S) j = EMBRYO \<Longrightarrow>
      state_of t j = EMBRYO \<and> kstack (procs t ! j) = kstack (procs (ps S) ! j)"
  shows "kinv nw (at c (Switching i) t S)"
proof -
  have i: "i < NPROC" using kinv_runs(1) [OF assms(1,2,4)] .
  have "kinv nw (set_loc c (loc S c) (at c (Switching i) t S))"
  proof (rule kinv_move [OF assms(1-3)])
    show "mach_eff (mach (ps S)) (mach t) (aid S c) c d (proc_of (Switching i))" using assms(7) by simp
    show "proc_of (Switching i) = Some j \<or> state_of (ps S) j = RUNNING \<and> proc_of (pc S c) \<noteq> Some j"
      if "j < NPROC" "state_of t j = RUNNING" for j
      using that run [of j] own(2) assms(4) by (cases "j = i") auto
    show "state_of t j = RUNNING" if "j < NPROC" "state_of (ps S) j = RUNNING" "proc_of (pc S c) \<noteq> Some j" for j
      using that run [of j] assms(4) by (cases "j = i") auto
  qed (use assms i kinv_cpu(4) [OF assms(1,2)] in auto)
  then show ?thesis by (simp only: set_loc_same)
qed

lemma woken_states:
  assumes "woken qs rs" "j < length qs"
  shows "state (rs ! j) = RUNNING \<longleftrightarrow> state (qs ! j) = RUNNING"
    "state (qs ! j) = EMBRYO \<Longrightarrow> state (rs ! j) = EMBRYO \<and> kstack (rs ! j) = kstack (qs ! j)"
  using assms by (auto simp: woken_def)

lemma kinv_table_step:
  assumes "kinv nw S" "c < ncpu S" "locked (ptlock (ps S)) = 0" "pc S c = In_process i"
    and "table_step (aid S c) c (ps S) t"
  shows "kinv nw (at c (In_process i) t S)"
proof -
  note f = assms(5) [unfolded table_step_def]
  note n = kinv_NPROC [OF assms(1)]
  have m: "mine S c" using assms(3) by (simp add: mine_def)
  show ?thesis
    by (rule kinv_stay [OF assms(1,2) m])
      (use f assms(4) kinv_cpu [OF assms(1,2)] kinv_wf [OF assms(1)] n
         procs_inv_woken [OF kinv_procs [OF assms(1)]] woken_states [of "procs (ps S)" "procs t"]
       in auto)
qed

text \<open>Sleepers may be woken, then process \<open>i\<close> stops running in the state that \<open>f\<close> gives it.\<close>

lemma kinv_leave_upd:
  assumes inv: "kinv nw S" and c: "c < ncpu S" and m: "mine S c"
    and pc: "proc_of (pc S c) = Some i" "\<not> is_switching (pc S c)" "embryo_of (pc S c) = None"
    and e: "mach_eff (mach (ps S)) (mach t) (aid S c) c d (Some i)" "(if has_lock (pc S c) then 1 else 0) + d = 1"
    and t: "holds_pt c t" "table_wf t" "woken (procs (ps S)) qs" "procs t = upd_at i f qs" "nextpid t = nextpid (ps S)"
    and f: "\<And>p. pid (f p) = pid p \<and> kstack (f p) = kstack p \<and> pgdir (f p) = pgdir p \<and> live (f p) \<and> state (f p) \<noteq> RUNNING"
  shows "kinv nw (at c (Switching i) t S)"
proof -
  note n = kinv_NPROC [OF inv]
  have i: "i < NPROC" "live (procs (ps S) ! i)" using kinv_runs [OF inv c pc(1)] by simp_all
  have len: "length qs = NPROC" using t(3) n by (simp add: woken_def)
  have lq: "live (qs ! i)" using t(3) i n by (auto simp: woken_def live_def)
  show ?thesis
  proof (rule kinv_leave [OF inv c m pc e t(1,2)])
    show "procs_inv nw (procs t) (nextpid t)"
      unfolding t(4,5) using i len f lq
      by (intro procs_inv_upd [OF procs_inv_woken [OF kinv_procs [OF inv] t(3)]]) simp_all
    show "live (procs t ! i)" "state_of t i \<noteq> RUNNING" using i len f by (simp_all add: t(4))
    show "state_of t j = RUNNING \<longleftrightarrow> state_of (ps S) j = RUNNING" if "j < NPROC" "j \<noteq> i" for j
      using that woken_states(1) [OF t(3)] n by (simp add: t(4))
    show "state_of t j = EMBRYO \<and> kstack (procs t ! j) = kstack (procs (ps S) ! j)"
      if "j < NPROC" "state_of (ps S) j = EMBRYO" for j
      using that woken_states(2) [OF t(3)] n i by (cases "j = i") (auto simp: t(4) live_def)
  qed
qed

lemma kinv_yields:
  assumes inv: "kinv nw S" and c: "c < ncpu S" and free: "locked (ptlock (ps S)) = 0" and pc: "pc S c = In_process i"
  shows "\<exists>t ena. yield_enter (aid S c) (ps S) = Done (t, ena) \<and> kinv nw (at c (Switching i) t S)"
proof -
  have m: "mine S c" using free by (simp add: mine_def)
  note cpu = kinv_cpu [OF inv c]
  have i: "i < NPROC" using kinv_runs [OF inv c, of i] pc by simp
  have z: "ncli (cpus (mach (ps S)) ! c) = 0" "cproc (cpus (mach (ps S)) ! c) = Some i" using cpu pc by simp_all
  obtain u t ena where t: "yield_enter (aid S c) (ps S) = Done (t, ena)"
      "mach_eff (mach (ps S)) (mach t) (aid S c) c 1 (Some i)" "holds_pt c t"
      "count_tick i (ps S) = Done u" "same_table (set_proc i (\<lambda>p. p\<lparr>state := RUNNABLE\<rparr>) u) t"
    using yield_enter_eff [OF cpu(1) z(1) free z(2) i kinv_wf [OF inv]] by blast
  have u: "table_wf u" "same_rest (ps S) u"
    using count_tick_wf [OF kinv_wf [OF inv] i] count_tick_frame [OF t(4)] t(4) by auto
  have "kinv nw (at c (Switching i) t S)"
  proof (rule kinv_leave_upd [OF inv c m])
    show "table_wf t" using same_table_wf [OF t(5)] u(1) by (simp add: table_wf_def)
    show "procs t = upd_at i (\<lambda>p. p\<lparr>state := RUNNABLE\<rparr>) (procs (ps S))"
      using t(5) u(2) by (simp add: same_table_def same_rest_def)
  qed (use pc t u in \<open>auto simp: woken_refl live_def same_table_def same_rest_def\<close>)
  with t(1) show ?thesis by blast
qed

lemma kinv_sleeps:
  assumes inv: "kinv nw S" and c: "c < ncpu S" and free: "locked (ptlock (ps S)) = 0" and pc: "pc S c = In_process i"
    and l: "locked l = 0"
  shows "\<exists>M l1 t lk ena. acquire (mach (ps S)) l (aid S c) = Done (M, l1)
    \<and> sleep_enter (aid S c) ch (Other_lock l1) ((ps S)\<lparr>mach := M\<rparr>) = Done (t, lk, ena)
    \<and> kinv nw (at c (Switching i) t S)"
proof -
  have m: "mine S c" using free by (simp add: mine_def)
  note cpu = kinv_cpu [OF inv c]
  have i: "i < length (procs (ps S))" using kinv_runs [OF inv c, of i] pc kinv_NPROC [OF inv] by simp
  have z: "ncli (cpus (mach (ps S)) ! c) = 0" "cproc (cpus (mach (ps S)) ! c) = Some i" using cpu pc by simp_all
  obtain M l1 where M: "acquire (mach (ps S)) l (aid S c) = Done (M, l1)"
      "mach_eff (mach (ps S)) M (aid S c) c 1 (Some i)" "locked l1 \<noteq> 0" "lkcpu l1 = Some c"
    using acquire_other_eff [OF cpu(1) l] z(2) by auto
  let ?s = "(ps S)\<lparr>mach := M\<rparr>"
  have ok: "cpu_ok (mach ?s) (aid S c) c" "ncli (cpus (mach ?s) ! c) = 1" "cproc (cpus (mach ?s) ! c) = Some i"
    using mach_eff_ok [OF M(2) cpu(1)] M(2) z(1) by (auto simp: mach_eff_def)
  obtain t l' ena where t: "sleep_enter (aid S c) ch (Other_lock l1) ?s = Done (t, Other_lock l', ena)" "holds_pt c t"
      "mach_eff (mach ?s) (mach t) (aid S c) c 0 (Some i)"
      "same_table (set_proc i (\<lambda>p. p\<lparr>chan := Some ch, state := SLEEPING\<rparr>) ?s) t"
    using sleep_enter_other_eff [OF ok(1,2) _ M(3,4) ok(3), of ch] free i by auto
  have e: "mach_eff (mach (ps S)) (mach t) (aid S c) c 1 (Some i)"
    using mach_eff_trans [OF M(2), of "mach t" 0 "Some i"] t(3) by simp
  have "kinv nw (at c (Switching i) t S)"
  proof (rule kinv_leave_upd [OF inv c m])
    show "table_wf t" using same_table_wf [OF t(4)] kinv_wf [OF inv] by (simp add: table_wf_def)
    show "procs t = upd_at i (\<lambda>p. p\<lparr>chan := Some ch, state := SLEEPING\<rparr>) (procs (ps S))"
      using t(4) by (simp add: same_table_def)
  qed (use pc t e in \<open>auto simp: woken_refl live_def same_table_def\<close>)
  with M(1) t(1) show ?thesis by blast
qed

lemma kinv_exits:
  assumes inv: "kinv nw S" and c: "c < ncpu S" and free: "locked (ptlock (ps S)) = 0" and pc: "pc S c = In_process i"
  shows "\<exists>t ena. exit_enter (aid S c) i (ps S) = Done (t, ena) \<and> kinv nw (at c (Switching i) t S)"
proof -
  have m: "mine S c" using free by (simp add: mine_def)
  note cpu = kinv_cpu [OF inv c]
  have i: "i < NPROC" using kinv_runs [OF inv c, of i] pc by simp
  have z: "ncli (cpus (mach (ps S)) ! c) = 0" "cproc (cpus (mach (ps S)) ! c) = Some i" using cpu pc by simp_all
  obtain t ena qs where t: "exit_enter (aid S c) i (ps S) = Done (t, ena)"
      "mach_eff (mach (ps S)) (mach t) (aid S c) c 1 (Some i)" "holds_pt c t" "woken (procs (ps S)) qs"
      "procs t = upd_at i (\<lambda>p. p\<lparr>state := ZOMBIE\<rparr>) qs" "nextpid t = nextpid (ps S)" "table_wf t"
    using exit_enter_eff [OF cpu(1) z(1) free z(2) i kinv_wf [OF inv]] by blast
  have "kinv nw (at c (Switching i) t S)"
    by (rule kinv_leave_upd [OF inv c m _ _ _ t(2) _ t(3,7,4,5,6)]) (use pc in \<open>auto simp: live_def\<close>)
  with t(1) show ?thesis by blast
qed

text \<open>The first instructions of a process after \<^verbatim>\<open>swtch\<close>: nothing but its channel changes.\<close>

lemma kinv_resumed:
  assumes inv: "kinv nw S" and c: "c < ncpu S" and pc: "pc S c = Resumed i" and x: "x = In_process i \<or> x = In_wait i"
    and e: "mach_eff (mach (ps S)) (mach t) (aid S c) c d (Some i)" "1 + d = (if has_lock x then 1 else 0)"
    and lk: "if has_lock x then holds_pt c t else locked (ptlock t) = 0"
    and t: "same_table u t" "table_wf u = table_wf (ps S)" "nextpid u = nextpid (ps S)" "woken (procs (ps S)) (procs u)"
  shows "kinv nw (at c x t S)"
proof (rule kinv_stay [OF inv c _ _ _ _ _ _ e(1)])
  show "mine S c" using pc by (simp add: mine_def)
  show "table_wf t" using same_table_wf [OF t(1)] t(2) kinv_wf [OF inv] by simp
  have w: "woken (procs (ps S)) (procs t)" using t(1,4) by (simp add: same_table_def)
  show "procs_inv nw (procs t) (nextpid t)"
    using procs_inv_woken [OF kinv_procs [OF inv] w] t(1,3) by (simp add: same_table_def)
  show "state_of t j = RUNNING \<longleftrightarrow> state_of (ps S) j = RUNNING" if "j < NPROC" for j
    using woken_states(1) [OF w] that kinv_NPROC [OF inv] by simp
  show "state_of t j = EMBRYO \<and> kstack (procs t ! j) = kstack (procs (ps S) ! j)"
    if "j < NPROC" "state_of (ps S) j = EMBRYO" for j
    using woken_states(2) [OF w] that kinv_NPROC [OF inv] by simp
qed (use pc x e(2) lk in auto)

lemma woken_chan: "woken qs (upd_at i (\<lambda>p. p\<lparr>chan := v\<rparr>) qs)"
  by (auto simp: woken_def nth_upd_at)

lemma kinv_resumes:
  assumes inv: "kinv nw S" and c: "c < ncpu S" and pc: "pc S c = Resumed i"
  shows "\<exists>t. release_pt (aid S c) (ps S) = Done t \<and> kinv nw (at c (In_process i) t S)"
    and "\<exists>t. yield_leave (aid S c) ena (ps S) = Done t \<and> kinv nw (at c (In_process i) t S)"
    and "locked l = 0 \<Longrightarrow> \<exists>t l1 M l2. sleep_leave (aid S c) i (Other_lock l) ena (ps S) = Done (t, Other_lock l1)
      \<and> release (mach t) l1 (aid S c) = Done (M, l2) \<and> kinv nw (at c (In_process i) (t\<lparr>mach := M\<rparr>) S)"
    and "\<exists>t. sleep_leave (aid S c) i Ptable_lock ena (ps S) = Done (t, Ptable_lock) \<and> kinv nw (at c (In_wait i) t S)"
proof -
  note cpu = kinv_cpu [OF inv c]
  have z: "ncli (cpus (mach (ps S)) ! c) = 1" "cproc (cpus (mach (ps S)) ! c) = Some i" "holds_pt c (ps S)"
    using cpu pc kinv_holds [OF inv c] by simp_all
  note w = woken_chan [of "procs (ps S)" i None] and res = kinv_resumed [OF inv c pc]
  let ?u = "set_proc i (\<lambda>p. p\<lparr>chan := None\<rparr>) (ps S)"
  have wu: "table_wf ?u = table_wf (ps S)" by (simp add: table_wf_def)
  obtain t where t: "release_pt (aid S c) (ps S) = Done t" "mach_eff (mach (ps S)) (mach t) (aid S c) c (- 1) (Some i)"
      "locked (ptlock t) = 0" "same_table (ps S) t"
    using release_pt_eff [OF cpu(1) _ z(3)] z by auto
  show "\<exists>t. release_pt (aid S c) (ps S) = Done t \<and> kinv nw (at c (In_process i) t S)"
    using t res [of "In_process i" t "- 1" "ps S"] by (auto simp: woken_refl)
  obtain v where v: "sched_leave (aid S c) ena (ps S) = Done v" "ptlock v = ptlock (ps S)" "same_table (ps S) v"
      "mach_eff (mach (ps S)) (mach v) (aid S c) c 0 (Some i)"
    using sched_leave_eff [OF cpu(1)] z by auto
  have okv: "cpu_ok (mach v) (aid S c) c" "0 < ncli (cpus (mach v) ! c)" "holds_pt c v" "cproc (cpus (mach v) ! c) = Some i"
    using mach_eff_ok [OF v(4) cpu(1)] v z by (auto simp: mach_eff_def holds_pt_def)
  obtain t where t: "release_pt (aid S c) v = Done t" "mach_eff (mach v) (mach t) (aid S c) c (- 1) (Some i)"
      "locked (ptlock t) = 0" "same_table v t"
    using release_pt_eff [OF okv(1-3)] okv(4) by auto
  show "\<exists>t. yield_leave (aid S c) ena (ps S) = Done t \<and> kinv nw (at c (In_process i) t S)"
    using t v(1) mach_eff_trans [OF v(4) t(2)] res [of "In_process i" t "- 1" "ps S"] same_table_trans [OF v(3) t(4)]
    by (auto simp: yield_leave_def woken_refl)
  show "\<exists>t. sleep_leave (aid S c) i Ptable_lock ena (ps S) = Done (t, Ptable_lock) \<and> kinv nw (at c (In_wait i) t S)"
    using sleep_leave_pt_eff [OF cpu(1), of i ena] z w wu res [of "In_wait i" _ 0 ?u] by (auto simp: holds_pt_def)
  assume l: "locked l = 0"
  obtain t l1 where t: "sleep_leave (aid S c) i (Other_lock l) ena (ps S) = Done (t, Other_lock l1)"
      "locked (ptlock t) = 0" "mach_eff (mach (ps S)) (mach t) (aid S c) c 0 (Some i)" "locked l1 \<noteq> 0"
      "lkcpu l1 = Some c" "same_table ?u t"
    using sleep_leave_other_eff [OF cpu(1) z(1,3) l, of i ena] z(2) by auto
  have okt: "cpu_ok (mach t) (aid S c) c" "0 < ncli (cpus (mach t) ! c)" "cproc (cpus (mach t) ! c) = Some i"
    using mach_eff_ok [OF t(3) cpu(1)] t(3) z by (auto simp: mach_eff_def)
  obtain M l2 where M: "release (mach t) l1 (aid S c) = Done (M, l2)" "mach_eff (mach t) M (aid S c) c (- 1) (Some i)"
    using release_other_eff [OF okt(1,2) t(4,5)] okt(3) by auto
  have "kinv nw (at c (In_process i) (t\<lparr>mach := M\<rparr>) S)"
    using t M mach_eff_trans [OF t(3) M(2)] w wu res [of "In_process i" "t\<lparr>mach := M\<rparr>" "- 1" ?u]
    by (auto simp: same_table_def)
  then show "\<exists>t l1 M l2. sleep_leave (aid S c) i (Other_lock l) ena (ps S) = Done (t, Other_lock l1)
      \<and> release (mach t) l1 (aid S c) = Done (M, l2) \<and> kinv nw (at c (In_process i) (t\<lparr>mach := M\<rparr>) S)"
    using t(1) M(1) by blast
qed

lemma kinv_wait_turn:
  assumes inv: "kinv nw S" and c: "c < ncpu S" and pc: "pc S c = In_wait i"
    and turn: "wait_turn ke (aid S c) i (ps S) = Done (t, r)"
  shows "(\<exists>n. r = Wait_returns n \<and> kinv nw (at c (In_process i) t S)) \<or> (\<exists>ena. r = Wait_sleeps ena \<and> kinv nw (at c (Switching i) t S))"
proof -
  have m: "mine S c" using pc by (simp add: mine_def)
  note cpu = kinv_cpu [OF inv c] and n = kinv_NPROC [OF inv]
  have z: "ncli (cpus (mach (ps S)) ! c) = 1" "cproc (cpus (mach (ps S)) ! c) = Some i" "holds_pt c (ps S)"
    using cpu pc kinv_holds [OF inv c] by simp_all
  have i: "i < length (procs (ps S))" using kinv_runs [OF inv c, of i] pc n by simp
  consider (ret) k where "r = Wait_returns k" "mach_eff (mach (ps S)) (mach t) (aid S c) c (- 1) (Some i)"
      "locked (ptlock t) = 0" "nextpid t = nextpid (ps S)" "table_wf t" "reaped (procs (ps S)) (procs t)"
    | (sleep) ena where "r = Wait_sleeps ena" "mach_eff (mach (ps S)) (mach t) (aid S c) c 0 (Some i)" "holds_pt c t"
      "same_table (set_proc i (\<lambda>p. p\<lparr>chan := Some (Chan_proc i), state := SLEEPING\<rparr>) (ps S)) t"
    using wait_turn_eff [OF cpu(1) z(1,3,2) i turn kinv_wf [OF inv]] by blast
  then show ?thesis
  proof cases
    case ret
    have st: "procs t ! j = procs (ps S) ! j \<or> state_of (ps S) j = ZOMBIE \<and> state_of t j = UNUSED" if "j < NPROC" for j
      using ret(6) n that by (auto simp: reaped_def)
    have "kinv nw (at c (In_process i) t S)"
    proof (rule kinv_stay [OF inv c m _ _ _ _ _ ret(2)])
      show "procs_inv nw (procs t) (nextpid t)" using procs_inv_reaped [OF kinv_procs [OF inv] ret(6)] ret(4) by simp
      show "state_of t j = RUNNING \<longleftrightarrow> state_of (ps S) j = RUNNING" if "j < NPROC" for j
        using st [OF that] by auto
      show "state_of t j = EMBRYO \<and> kstack (procs t ! j) = kstack (procs (ps S) ! j)"
        if "j < NPROC" "state_of (ps S) j = EMBRYO" for j
        using st [OF that(1)] that(2) by auto
    qed (use pc ret in auto)
    with ret(1) show ?thesis by blast
  next
    case sleep
    have "kinv nw (at c (Switching i) t S)"
    proof (rule kinv_leave_upd [OF inv c m])
      show "table_wf t" using same_table_wf [OF sleep(4)] kinv_wf [OF inv] by (simp add: table_wf_def)
      show "procs t = upd_at i (\<lambda>p. p\<lparr>chan := Some (Chan_proc i), state := SLEEPING\<rparr>) (procs (ps S))"
        using sleep(4) by (simp add: same_table_def)
    qed (use pc sleep in \<open>auto simp: woken_refl live_def same_table_def\<close>)
    with sleep(1) show ?thesis by blast
  qed
qed

lemma kinv_allocates:
  assumes inv: "kinv nw S" and c: "c < ncpu S" and free: "locked (ptlock (ps S)) = 0" and pc: "pc S c = In_process i"
  shows "\<exists>t r. allocproc sy (aid S c) (ps S) = Done (t, r)
    \<and> ((nw \<longrightarrow> 0 < nextpid t) \<longrightarrow> kinv nw (at c (case r of None \<Rightarrow> In_process i | Some j \<Rightarrow> Creating i j) t S))"
proof -
  have m: "mine S c" using free by (simp add: mine_def)
  note cpu = kinv_cpu [OF inv c] and n = kinv_NPROC [OF inv]
  have i: "i < NPROC" "state_of (ps S) i = RUNNING" using kinv_runs [OF inv c, of i] pc by simp_all
  obtain t r where t: "allocproc sy (aid S c) (ps S) = Done (t, r)"
      "mach_eff (mach (ps S)) (mach t) (aid S c) c 0 (Some i)" "locked (ptlock t) = 0" "table_wf t" "alloc_eff (ps S) t r"
    using allocproc_eff [OF cpu(1) free kinv_wf [OF inv], of sy] cpu(2) pc by auto
  have "kinv nw (at c (case r of None \<Rightarrow> In_process i | Some j \<Rightarrow> Creating i j) t S)" if nxt: "nw \<longrightarrow> 0 < nextpid t"
  proof (cases r)
    case None
    note pi = procs_inv_alloc [OF kinv_procs [OF inv] t(5) nxt [rule_format]]
    have st: "procs t ! j = procs (ps S) ! j \<or> state_of (ps S) j = UNUSED \<and> state_of t j = UNUSED" if "j < NPROC" for j
      using t(5) None that n by (simp add: alloc_eff_def)
    have "kinv nw (at c (In_process i) t S)"
    proof (rule kinv_stay [OF inv c m _ _ _ _ _ t(2) _ _ t(4) pi])
      show "state_of t k = RUNNING \<longleftrightarrow> state_of (ps S) k = RUNNING" if "k < NPROC" for k
        using st [OF that] by auto
      show "state_of t k = EMBRYO \<and> kstack (procs t ! k) = kstack (procs (ps S) ! k)"
        if "k < NPROC" "state_of (ps S) k = EMBRYO" for k
        using st [OF that(1)] that(2) by auto
    qed (use pc t(3) in auto)
    with None show ?thesis by simp
  next
    case (Some j)
    note pi = procs_inv_alloc [OF kinv_procs [OF inv] t(5) nxt [rule_format]]
    have j: "j < NPROC" "state_of (ps S) j = UNUSED" "state_of t j = EMBRYO" "kstack (procs t ! j) \<noteq> 0"
      and st: "\<And>k. k < NPROC \<Longrightarrow> k \<noteq> j \<Longrightarrow> procs t ! k = procs (ps S) ! k"
      using t(5) Some n by (auto simp: alloc_eff_def)
    have ij: "i \<noteq> j" using i j by auto
    have "kinv nw (set_loc c (loc S c) (at c (Creating i j) t S))"
    proof (rule kinv_move [OF inv c m])
      show "mach_eff (mach (ps S)) (mach t) (aid S c) c 0 (proc_of (Creating i j))" using t(2) by simp
      show "state_of t k = RUNNING" if "k < NPROC" "state_of (ps S) k = RUNNING" for k
        using that st [of k] j by (cases "k = j") auto
      show "proc_of (Creating i j) = Some k \<or> state_of (ps S) k = RUNNING \<and> proc_of (pc S c) \<noteq> Some k"
        if "k < NPROC" "state_of t k = RUNNING" for k
        using that st [of k] j pc by (cases "k = j") auto
      show "state_of t k = EMBRYO \<and> kstack (procs t ! k) \<noteq> 0"
        if "k < NPROC" "state_of (ps S) k = EMBRYO" "kstack (procs (ps S) ! k) \<noteq> 0" for k
        using that st [of k] j by (cases "k = j") auto
      show "k < NPROC \<and> live (procs t ! k) \<and> (state_of t k = RUNNING \<longleftrightarrow> \<not> is_switching (Creating i j))
          \<and> (proc_of (pc S c) = Some k \<or> state_of (ps S) k \<noteq> RUNNING)" if "proc_of (Creating i j) = Some k" for k
        using that i ij st [of i] pc by (auto simp: live_def)
    qed (use pc t pi j cpu(4) in auto)
    with Some show ?thesis by (simp add: set_loc_same)
  qed
  then show ?thesis using t(1) by blast
qed

lemma fork_copy_frame:
  "mach (fork_copy i j d s) = mach s \<and> ptlock (fork_copy i j d s) = ptlock s \<and> nextpid (fork_copy i j d s) = nextpid s
   \<and> proc_priority (fork_copy i j d s) = proc_priority s \<and> proc_ticks (fork_copy i j d s) = proc_ticks s
   \<and> proc_wait_ticks (fork_copy i j d s) = proc_wait_ticks s
   \<and> procs (fork_copy i j d s) = upd_at j (\<lambda>p. p\<lparr>pgdir := d, sz := sz (procs s ! i), parent := Some i\<rparr>) (procs s)"
  by (simp add: fork_copy_def Let_def)

lemma kinv_publishes:
  assumes inv: "kinv nw S" and c: "c < ncpu S" and free: "locked (ptlock (ps S)) = 0" and pc: "pc S c = Creating i j"
    and d: "d \<noteq> 0"
  shows "\<exists>t. publish (aid S c) j (fork_copy i j d (ps S)) = Done t \<and> kinv nw (at c (In_process i) t S)"
proof -
  have m: "mine S c" using free by (simp add: mine_def)
  note cpu = kinv_cpu [OF inv c] and n = kinv_NPROC [OF inv]
  have j: "j < NPROC" "state_of (ps S) j = EMBRYO" "kstack (procs (ps S) ! j) \<noteq> 0"
    using inv c pc by (auto simp: kinv_def embryo_inv_def)
  let ?u = "fork_copy i j d (ps S)"
  note u = fork_copy_frame [of i j d "ps S"]
  obtain t where t: "publish (aid S c) j ?u = Done t" "mach_eff (mach (ps S)) (mach t) (aid S c) c 0 (Some i)"
      "locked (ptlock t) = 0" "same_table (set_proc j (\<lambda>p. p\<lparr>state := RUNNABLE\<rparr>) ?u) t"
    using publish_eff [of ?u "aid S c" c j] u free cpu(1,2) pc by auto
  have pt: "length (procs t) = NPROC" "nextpid t = nextpid (ps S)"
      "\<And>k. k \<noteq> j \<Longrightarrow> procs t ! k = procs (ps S) ! k"
      "state_of t j = RUNNABLE" "pid (procs t ! j) = pid (procs (ps S) ! j)" "kstack (procs t ! j) \<noteq> 0" "pgdir (procs t ! j) = d"
    using t(4) u n j by (auto simp: same_table_def)
  have "kinv nw (at c (In_process i) t S)"
  proof (rule kinv_stay [OF inv c m _ _ _ _ _ t(2)])
    show "table_wf t" using kinv_wf [OF inv] t(4) u pt(1) by (simp add: table_wf_def same_table_def)
    show "procs_inv nw (procs t) (nextpid t)"
    proof (rule procs_invI_same [OF kinv_procs [OF inv]])
      fix k assume k: "k < length (procs (ps S))"
      show "state_of t k = UNUSED \<or> state_of (ps S) k \<noteq> UNUSED \<and> pid (procs t ! k) = pid (procs (ps S) ! k)
        \<and> (live (procs t ! k) \<longrightarrow> kstack (procs t ! k) \<noteq> 0 \<and> pgdir (procs t ! k) \<noteq> 0)"
        using pt j d procs_invD [OF kinv_procs [OF inv] k] by (cases "k = j") auto
    qed (use pt n in auto)
    show "state_of t k = RUNNING \<longleftrightarrow> state_of (ps S) k = RUNNING" if "k < NPROC" for k
      using pt(3,4) j by (cases "k = j") auto
  qed (use pc t(3) pt(3) in auto)
  with t(1) show ?thesis by blast
qed

lemma fork_abort_frame:
  assumes "fork_abort ke j s = Done t" "j < length (procs s)"
  shows "mach t = mach s \<and> ptlock t = ptlock s \<and> nextpid t = nextpid s
   \<and> proc_priority t = proc_priority s \<and> proc_ticks t = proc_ticks s \<and> proc_wait_ticks t = proc_wait_ticks s
   \<and> length (procs t) = length (procs s) \<and> (\<forall>k. k \<noteq> j \<longrightarrow> procs t ! k = procs s ! k) \<and> state_of t j = UNUSED"
  using assms by (auto simp: fork_abort_def Let_def outcome_simps)

lemma kinv_aborts:
  assumes inv: "kinv nw S" and c: "c < ncpu S" and pc: "pc S c = Creating i j" and t: "fork_abort ke j (ps S) = Done t"
  shows "kinv nw (at c (In_process i) t S)"
proof -
  note n = kinv_NPROC [OF inv]
  have ei: "embryo_inv S" and ri: "runs_inv S" and ci: "cpus_inv S" and li: "ptlock_inv S" using inv by (simp_all add: kinv_def)
  have j: "j < NPROC" "state_of (ps S) j = EMBRYO" using ei c pc by (auto simp: embryo_inv_def)
  have f: "mach t = mach (ps S)" "ptlock t = ptlock (ps S)" "nextpid t = nextpid (ps S)"
      "\<And>k. k \<noteq> j \<Longrightarrow> procs t ! k = procs (ps S) ! k" "state_of t j = UNUSED" "length (procs t) = NPROC" "table_wf t"
    using fork_abort_frame [OF t] n j(1) kinv_wf [OF inv] by (auto simp: table_wf_def)
  have on: "k \<noteq> j" if "c' < ncpu S" "proc_of (pc S c') = Some k" for c' k
    using ri that j by (auto simp: runs_inv_def live_def)
  have emb: "k \<noteq> j" if "c' < ncpu S" "c' \<noteq> c" "embryo_of (pc S c') = Some k" for c' k
    using ei that c pc unfolding embryo_inv_def by (metis embryo_of.simps(1) option.distinct(1))
  have "procs_inv nw (procs t) (nextpid t)"
  proof (rule procs_invI_same [OF kinv_procs [OF inv]])
    fix k assume k: "k < length (procs (ps S))"
    show "state_of t k = UNUSED \<or> state_of (ps S) k \<noteq> UNUSED \<and> pid (procs t ! k) = pid (procs (ps S) ! k)
      \<and> (live (procs t ! k) \<longrightarrow> kstack (procs t ! k) \<noteq> 0 \<and> pgdir (procs t ! k) \<noteq> 0)"
      using f(4,5) procs_invD [OF kinv_procs [OF inv] k] by (cases "k = j") auto
  qed (use f n in auto)
  moreover have "cpus_inv (at c (In_process i) t S)" using ci pc by (auto simp: cpus_inv_def f(1))
  moreover have "has_lock (((pc S)(c := In_process i)) c') = has_lock (pc S c')" for c' using pc by simp
  then have "ptlock_inv (at c (In_process i) t S)"
    using li unfolding ptlock_inv_def at_simps f(1,2) by simp
  moreover have "runs_inv (at c (In_process i) t S)"
    unfolding runs_inv_def at_simps f
  proof (intro conjI allI impI)
    fix c' k assume c': "c' < ncpu S" and p: "proc_of (((pc S)(c := In_process i)) c') = Some k"
    have "proc_of (pc S c') = Some k \<and> (is_switching (((pc S)(c := In_process i)) c') \<longleftrightarrow> is_switching (pc S c'))"
      using p pc by (auto split: if_splits)
    then show "k < NPROC" "live (procs t ! k)" "state_of t k = RUNNING \<longleftrightarrow> \<not> is_switching (((pc S)(c := In_process i)) c')"
      using kinv_runs [OF inv c', of k] on [OF c', of k] f(4) [of k] by auto
  next
    fix c1 c2 assume "c1 < ncpu S" "c2 < ncpu S" "proc_of (((pc S)(c := In_process i)) c1) \<noteq> None
      \<and> proc_of (((pc S)(c := In_process i)) c1) = proc_of (((pc S)(c := In_process i)) c2)"
    then show "c1 = c2" using ri pc c unfolding runs_inv_def by (metis fun_upd_apply proc_of.simps(3,5))
  next
    fix k assume "k < NPROC" "state_of t k = RUNNING"
    then have "state_of (ps S) k = RUNNING" using f(4,5) by (cases "k = j") auto
    then obtain c' where "c' < ncpu S" "proc_of (pc S c') = Some k" using ri \<open>k < NPROC\<close> by (auto simp: runs_inv_def)
    then show "\<exists>c'<ncpu S. proc_of (((pc S)(c := In_process i)) c') = Some k"
      using pc by (intro exI [of _ c']) auto
  qed
  moreover have "embryo_inv (at c (In_process i) t S)"
    using ei emb f(4) unfolding embryo_inv_def at_simps f(1) by (auto split: if_splits) (metis option.distinct(1))+
  ultimately show ?thesis using f(7) by (simp add: kinv_def)
qed

text \<open>A routine that returned has found the table lock free.\<close>

lemma acquired_free:
  assumes "and_then (acquire_pt (aid S c) (ps S)) f = Done r" "kinv nw S" "c < ncpu S"
  shows "locked (ptlock (ps S)) = 0"
  using assms(1) by (rule and_then_DoneE) (rule acquire_pt_DoneD [OF _ kinv_cpu(1) [OF assms(2,3)]])

lemma step_free:
  assumes "kinv nw S" "c < ncpu S"
  shows "yield_enter (aid S c) (ps S) = Done r \<Longrightarrow> locked (ptlock (ps S)) = 0"
    and "exit_enter (aid S c) i (ps S) = Done r \<Longrightarrow> locked (ptlock (ps S)) = 0"
    and "wakeup (aid S c) ch (ps S) = Done t \<Longrightarrow> locked (ptlock (ps S)) = 0"
    and "kill (aid S c) n (ps S) = Done r' \<Longrightarrow> locked (ptlock (ps S)) = 0"
    and "allocproc sy (aid S c) (ps S) = Done r'' \<Longrightarrow> locked (ptlock (ps S)) = 0"
    and "acquire_pt (aid S c) (ps S) = Done t \<Longrightarrow> locked (ptlock (ps S)) = 0"
  unfolding yield_enter_def exit_enter_def wakeup_def kill_def allocproc_def
  by (erule acquired_free [OF _ assms])+ (erule acquire_pt_DoneD [OF _ kinv_cpu(1) [OF assms]])

lemma scheduler_top_free:
  assumes "kinv nw S" "c < ncpu S" "pc S c = In_scheduler" "scheduler_top (aid S c) c (ps S) = Done r"
  shows "locked (ptlock (ps S)) = 0"
proof -
  note cpu = kinv_cpu [OF assms(1,2)]
  have "cpu_ok (sti (mach (ps S)) (aid S c)) (aid S c) c"
    using cpu assms(3) by (simp add: cpu_ok_def)
  then show ?thesis
    using assms(4) acquire_pt_DoneD [of "aid S c" "(ps S)\<lparr>mach := sti (mach (ps S)) (aid S c)\<rparr>"]
    by (auto simp: scheduler_top_def outcome_simps)
qed

lemma sleep_free:
  assumes "kinv nw S" "c < ncpu S" "pc S c = In_process i" "acquire (mach (ps S)) l (aid S c) = Done (M, l1)"
    and "sleep_enter (aid S c) ch (Other_lock l1) ((ps S)\<lparr>mach := M\<rparr>) = Done r" "locked l = 0"
  shows "locked (ptlock (ps S)) = 0"
proof -
  note cpu = kinv_cpu [OF assms(1,2)]
  have M: "mach_eff (mach (ps S)) M (aid S c) c 1 (Some i)"
    using acquire_other_eff [OF cpu(1) assms(6)] assms(3,4) cpu(2) by auto
  have ok: "cpu_ok M (aid S c) c" using mach_eff_ok [OF M cpu(1)] cpu(3) by simp
  let ?s = "(ps S)\<lparr>mach := M\<rparr>"
  obtain u where u: "myproc_pt (aid S c) ?s = Done (u, Some i)" "ptlock u = ptlock (ps S)"
      "mach_eff M (mach u) (aid S c) c 0 (Some i)"
    using myproc_pt_eff [of ?s "aid S c" c] ok M by (auto simp: mach_eff_def)
  have "cpu_ok (mach u) (aid S c) c" using mach_eff_ok [OF u(3) ok] ok by (simp add: cpu_ok_def)
  with assms(5) u show ?thesis
    using acquire_pt_DoneD [of "aid S c" u] by (auto simp: sleep_enter_def outcome_simps)
qed

lemma publish_free:
  assumes "kinv nw S" "c < ncpu S" "publish (aid S c) j (fork_copy i j d (ps S)) = Done t"
  shows "locked (ptlock (ps S)) = 0"
  using assms(3) acquire_pt_DoneD [of "aid S c" "fork_copy i j d (ps S)" _ c] kinv_cpu(1) [OF assms(1,2)]
    fork_copy_frame [of i j d "ps S"]
  by (auto simp: publish_def outcome_simps)

lemma kinv_waits:
  assumes inv: "kinv nw S" and c: "c < ncpu S" and pc: "pc S c = In_process i" and t: "acquire_pt (aid S c) (ps S) = Done t"
  shows "kinv nw (at c (In_wait i) t S)"
proof -
  note free = step_free(6) [OF inv c t] and cpu = kinv_cpu [OF inv c]
  have f: "mach_eff (mach (ps S)) (mach t) (aid S c) c 1 (Some i)" "holds_pt c t" "same_table (ps S) t"
    using acquire_pt_eff [OF cpu(1) free] t cpu(2) pc by auto
  show ?thesis
    by (rule kinv_stay [OF inv c _ _ _ _ _ _ f(1)])
      (use pc free f kinv_wf [OF inv] kinv_procs [OF inv] same_table_wf [OF f(3)]
       in \<open>auto simp: mine_def same_table_def\<close>)
qed

theorem kinv_step: "kstep sy S S' \<Longrightarrow> kinv nw S \<Longrightarrow> (nw \<longrightarrow> 0 < nextpid (ps S')) \<Longrightarrow> kinv nw S'"
proof (induction rule: kstep.induct)
  case (sched_idles c S t)
  then show ?case using kinv_scheduler [of nw S c] scheduler_top_free [of nw S c] by auto
next
  case (sched_picks c S t i l)
  then show ?case using kinv_scheduler [of nw S c] scheduler_top_free [of nw S c] by auto
next
  case (back_idles c S i t)
  then show ?case using kinv_back [of nw S c i] by auto
next
  case (back_picks c S i t j l)
  then show ?case using kinv_back [of nw S c i] by auto
next
  case (resume_forkret c S i t)
  then show ?case using kinv_resumes(1) [of nw S c i] by auto
next
  case (resume_yield c S i ena t)
  then show ?case using kinv_resumes(2) [of nw S c i ena] by auto
next
  case (resume_sleep c S i ena l t l1 M l2)
  then show ?case using kinv_resumes(3) [of nw S c i l ena] by auto
next
  case (resume_wait c S i ena t)
  then show ?case using kinv_resumes(4) [of nw S c i ena] by auto
next
  case (yields c S i t ena)
  then show ?case using kinv_yields [of nw S c i] step_free(1) [of nw S c] by auto
next
  case (sleeps c S i l M l1 ch t lk ena)
  then show ?case using kinv_sleeps [of nw S c i l ch] sleep_free [of nw S c i l M l1 ch] by auto
next
  case (exits c S i t ena)
  then show ?case using kinv_exits [of nw S c i] step_free(2) [of nw S c i] by auto
next
  case (wakes c S i ch t)
  then have free: "locked (ptlock (ps S)) = 0" using step_free(3) [of nw S c ch] by auto
  obtain t' where "wakeup (aid S c) ch (ps S) = Done t'" "table_step (aid S c) c (ps S) t'"
    using wakeup_eff [OF kinv_cpu(1) [OF \<open>kinv nw S\<close> \<open>c < ncpu S\<close>] free, of ch] by auto
  then show ?case using kinv_table_step [OF \<open>kinv nw S\<close> \<open>c < ncpu S\<close> free] wakes by auto
next
  case (kills c S i n t r)
  then have free: "locked (ptlock (ps S)) = 0" using step_free(4) [of nw S c n] by auto
  obtain t' r' where "kill (aid S c) n (ps S) = Done (t', r')" "table_step (aid S c) c (ps S) t'"
    using kill_eff [OF kinv_cpu(1) [OF \<open>kinv nw S\<close> \<open>c < ncpu S\<close>] free, of n] by auto
  then show ?case using kinv_table_step [OF \<open>kinv nw S\<close> \<open>c < ncpu S\<close> free] kills by auto
next
  case (waits c S i t)
  then show ?case using kinv_waits by blast
next
  case (wait_returns c S i t n)
  then show ?case using kinv_wait_turn [of nw S c i] by auto
next
  case (wait_sleeps c S i t ena)
  then show ?case using kinv_wait_turn [of nw S c i] by auto
next
  case (fork_fails c S i t)
  then show ?case using kinv_allocates [of nw S c i sy] step_free(5) [of nw S c] by auto
next
  case (fork_allocates c S i t j)
  then show ?case using kinv_allocates [of nw S c i sy] step_free(5) [of nw S c] by auto
next
  case (fork_aborts c S i j t)
  then show ?case using kinv_aborts by blast
next
  case (fork_publishes c S i j d t)
  then show ?case using kinv_publishes [of nw S c i j d] publish_free [of nw S c j i d] by auto
qed

subsection \<open>Reachable states\<close>

text \<open>
  When \<^verbatim>\<open>main\<close> has set up the first process, every processor enters its scheduler.
\<close>

definition booted :: "ksys \<Rightarrow> bool" where
  "booted S \<longleftrightarrow> table_wf (ps S) \<and> procs_inv True (procs (ps S)) (nextpid (ps S))
     \<and> distinct (map apicid (cpus (mach (ps S)))) \<and> locked (ptlock (ps S)) = 0
     \<and> (\<forall>c<ncpu S. cproc (cpus (mach (ps S)) ! c) = None \<and> ncli (cpus (mach (ps S)) ! c) = 0
          \<and> pc S c = In_scheduler \<and> local_ok (loc S c))
     \<and> (\<forall>i<NPROC. state_of (ps S) i \<noteq> RUNNING)"

inductive kreach :: "ksyms \<Rightarrow> ksys \<Rightarrow> bool" for sy :: ksyms where
  boot: "booted S \<Longrightarrow> kreach sy S"
| step: "kreach sy S \<Longrightarrow> kstep sy S S' \<Longrightarrow> kreach sy S'"

text \<open>The runs in which \<^verbatim>\<open>nextpid\<close> has not overflowed: fewer than 2147483648 pids have been handed out.\<close>

inductive kreach_no_wrap :: "ksyms \<Rightarrow> ksys \<Rightarrow> bool" for sy :: ksyms where
  boot_nw: "booted S \<Longrightarrow> kreach_no_wrap sy S"
| step_nw: "kreach_no_wrap sy S \<Longrightarrow> kstep sy S S' \<Longrightarrow> 0 < nextpid (ps S') \<Longrightarrow> kreach_no_wrap sy S'"

lemma kinv_boot: "booted S \<Longrightarrow> kinv nw S"
  by (auto simp: booted_def kinv_def cpus_inv_def runs_inv_def embryo_inv_def ptlock_inv_def elim: procs_inv_mono)

lemma kinv_reach: "kreach sy S \<Longrightarrow> kinv False S"
  by (induction rule: kreach.induct) (auto intro: kinv_boot kinv_step)

lemma kinv_no_wrap: "kreach_no_wrap sy S \<Longrightarrow> kinv True S"
  by (induction rule: kreach_no_wrap.induct) (auto intro: kinv_boot kinv_step)

subsection \<open>Properties\<close>

text \<open>
  C1: A process runs on at most one processor.  In every reachable state of
  the whole machine a process is marked \<^verbatim>\<open>RUNNING\<close> exactly when one processor
  has it as its current process and is not on its way out of it, and no two
  processors ever have the same current process.
\<close>

theorem running_on_one_cpu:
  assumes "kreach sy S" "i < NPROC"
  shows "(state_of (ps S) i = RUNNING \<longrightarrow> (\<exists>!c. c < ncpu S \<and> cproc (cpus (mach (ps S)) ! c) = Some i))
    \<and> (\<forall>c<ncpu S. \<forall>c'<ncpu S. cproc (cpus (mach (ps S)) ! c) = Some i
         \<and> cproc (cpus (mach (ps S)) ! c') = Some i \<longrightarrow> c = c')
    \<and> (\<forall>c<ncpu S. cproc (cpus (mach (ps S)) ! c) = Some i \<and> \<not> is_switching (pc S c)
         \<longrightarrow> state_of (ps S) i = RUNNING)"
proof -
  have inv: "kinv False S" using kinv_reach [OF assms(1)] .
  have cp: "cproc (cpus (mach (ps S)) ! c) = proc_of (pc S c)" if "c < ncpu S" for c
    using kinv_cpu(2) [OF inv that] .
  have ri: "runs_inv S" using inv by (simp add: kinv_def)
  have uniq: "c = c'" if "c < ncpu S" "c' < ncpu S" "proc_of (pc S c) = Some i" "proc_of (pc S c') = Some i" for c c'
    using ri that unfolding runs_inv_def by (metis option.distinct(1))
  have ex: "\<exists>!c. c < ncpu S \<and> cproc (cpus (mach (ps S)) ! c) = Some i" if r: "state_of (ps S) i = RUNNING"
  proof -
    obtain c where "c < ncpu S" "proc_of (pc S c) = Some i"
      using ri r assms(2) unfolding runs_inv_def by blast
    then show ?thesis using cp uniq by (intro ex1I [of _ c]) auto
  qed
  have "state_of (ps S) i = RUNNING" if "c < ncpu S" "proc_of (pc S c) = Some i" "\<not> is_switching (pc S c)" for c
    using kinv_runs(3) [OF inv that(1,2)] that(3) by simp
  then show ?thesis using ex cp uniq by auto
qed

definition boot_three :: ksys where
  "boot_three = \<lparr>ps = three_procs, pc = (\<lambda>_. In_scheduler), loc = (\<lambda>_. Rr 0), cont = (\<lambda>_. At_forkret)\<rparr>"

lemma boot_three_booted: "booted boot_three"
proof -
  have "procs_inv True (procs three_procs) (nextpid three_procs)"
    by (auto simp: procs_inv_def three_procs_def NPROC_def nth_list_update_if live_def)
  moreover have "\<forall>i<NPROC. state_of three_procs i \<noteq> RUNNING"
    by (simp add: three_procs_def NPROC_def nth_list_update_if)
  ultimately show ?thesis
    using three_procs_wf by (simp add: booted_def boot_three_def) (simp add: three_procs_def)
qed

text \<open>One step of the machine from there: the scheduler switches to process 2.\<close>

lemma boot_three_runs:
  "\<exists>t l. kreach sy (set_loc 0 l (at 0 (Resumed 2) t boot_three)) \<and> state_of t 2 = RUNNING
    \<and> length (cpus (mach t)) = 1"
proof -
  have inv: "kinv False boot_three" using kinv_reach [OF kreach.boot [OF boot_three_booted]] .
  have n: "0 < ncpu boot_three" by (simp add: boot_three_def three_procs_def)
  note cpu = kinv_cpu [OF inv n]
  have b: "ps boot_three = three_procs" "ncpu boot_three = 1" "pc boot_three 0 = In_scheduler"
      "sched_policy (cpus (mach three_procs) ! 0) = 1" "locked (ptlock three_procs) = 0"
    by (simp_all add: boot_three_def three_procs_def)
  have ch: "mlfq_choose three_procs = Some 2"
  proof -
    have "find_index (\<lambda>i. state_of three_procs i = RUNNABLE \<and> proc_priority three_procs ! i = 3)
        [0..<length (procs three_procs)] = None"
      by (auto simp: find_index_None_iff three_procs_def NPROC_def nth_list_update_if)
    moreover have "find_index (\<lambda>i. state_of three_procs i = RUNNABLE \<and> proc_priority three_procs ! i = 2)
        [0..<length (procs three_procs)] = Some 2"
      by (auto simp: find_index_upt three_procs_def NPROC_def nth_list_update_if)
    ultimately show ?thesis by (simp add: mlfq_choose_def)
  qed
  have a: "aid boot_three 0 = 0" by (simp add: boot_three_def three_procs_def)
  obtain t l where t: "scheduler_top 0 0 three_procs = Done (t, Switched 2 l)"
    using scheduler_top_picks [of three_procs 0 0 2] cpu b ch kinv_wf [OF inv] kinv_ready [OF inv] a by auto
  have "kstep sy boot_three (set_loc 0 l (at 0 (Resumed 2) t boot_three))"
    by (rule kstep.sched_picks) (use b t a in simp_all)
  then have r: "kreach sy (set_loc 0 l (at 0 (Resumed 2) t boot_three))"
    using kreach.boot [OF boot_three_booted] by (rule kreach.step [rotated])
  have inv': "kinv False (set_loc 0 l (at 0 (Resumed 2) t boot_three))" using kinv_reach [OF r] .
  have "sched_switched 0 0 1 2 three_procs t"
    using scheduler_top_eff [of three_procs 0 0] cpu b kinv_wf [OF inv] kinv_ready [OF inv] a t by auto
  then have "state_of t 2 = RUNNING" "length (cpus (mach t)) = 1"
    using ncpu_eff [of boot_three "mach t" 0 0 1 "Some 2"] b
    by (auto simp: sched_switched_def same_table_def three_procs_def NPROC_def)
  with r show ?thesis by blast
qed

definition some_syms :: ksyms where
  "some_syms = \<lparr>kend = 0x80120000, kdata = 0x80110000, forkret_pc = 0x80103000, trapret_pc = 0x80105000,
     vram_size = 0x300000, pvram_addr = 0xC0000000\<rparr>"

theorem running_on_one_cpu_witness:
  "\<exists>S. kreach some_syms S \<and> state_of (ps S) 2 = RUNNING \<and> (\<exists>!c. c < ncpu S \<and> cproc (cpus (mach (ps S)) ! c) = Some 2)"
proof -
  obtain t l where r: "kreach some_syms (set_loc 0 l (at 0 (Resumed 2) t boot_three))" "state_of t 2 = RUNNING"
    using boot_three_runs by blast
  from running_on_one_cpu [OF r(1), of 2] r show ?thesis
    by (intro exI [of _ "set_loc 0 l (at 0 (Resumed 2) t boot_three)"]) (simp add: NPROC_def)
qed

text \<open>
  C2: The kernel never panics in the scheduler.  In every reachable state,
  whenever the table lock is available, the scheduler loop, \<^verbatim>\<open>yield\<close>, \<^verbatim>\<open>exit\<close>,
  \<^verbatim>\<open>wakeup\<close>, \<^verbatim>\<open>kill\<close> and \<^verbatim>\<open>allocproc\<close> run to the end of their critical section: none
  of the checks of \<^verbatim>\<open>sched\<close>, \<^verbatim>\<open>switchuvm\<close>, \<^verbatim>\<open>acquire\<close>, \<^verbatim>\<open>release\<close> and
  \<^verbatim>\<open>popcli\<close> fires, and no array is indexed outside its bounds.
\<close>

theorem kernel_no_panic:
  assumes "kreach sy S" "c < ncpu S"
  shows "(pc S c = In_scheduler \<and> locked (ptlock (ps S)) = 0 \<longrightarrow> (\<exists>r. scheduler_top (aid S c) c (ps S) = Done r))
    \<and> (pc S c = Switching i \<longrightarrow> (\<exists>r. scheduler_resume (aid S c) c (loc S c) (ps S) = Done r))
    \<and> (pc S c = Resumed i \<longrightarrow> (\<exists>t. release_pt (aid S c) (ps S) = Done t)
        \<and> (\<exists>t. yield_leave (aid S c) ena (ps S) = Done t) \<and> (\<exists>r. sleep_leave (aid S c) i Ptable_lock ena (ps S) = Done r))
    \<and> (pc S c = In_process i \<and> locked (ptlock (ps S)) = 0 \<longrightarrow>
        (\<exists>r. yield_enter (aid S c) (ps S) = Done r) \<and> (\<exists>r. exit_enter (aid S c) i (ps S) = Done r)
        \<and> (\<exists>t. wakeup (aid S c) ch (ps S) = Done t) \<and> (\<exists>r. kill (aid S c) n (ps S) = Done r)
        \<and> (\<exists>r. allocproc sy (aid S c) (ps S) = Done r))"
proof -
  have inv: "kinv False S" using kinv_reach [OF assms(1)] .
  note cpu = kinv_cpu(1) [OF inv assms(2)]
  show ?thesis
    using kinv_scheduler [OF inv assms(2)] kinv_back [OF inv assms(2), of i]
      kinv_resumes(1,2,4) [OF inv assms(2), of i] kinv_yields [OF inv assms(2)] kinv_exits [OF inv assms(2)]
      wakeup_eff [OF cpu, of ch] kill_eff [OF cpu, of n] kinv_allocates [OF inv assms(2), of i sy]
    by blast
qed

theorem kernel_no_panic_witness: "\<exists>r. scheduler_top 0 0 three_procs = Done r"
  using kernel_no_panic [OF kreach.boot [OF boot_three_booted], of 0]
  by (simp add: boot_three_def three_procs_def)

text \<open>
  C10: Process identifiers are unique until \<^verbatim>\<open>nextpid\<close> overflows.  In every state reached before 2147483648 pids
  have been handed out, no two used slots of the table have the same pid and all pids are positive and
  below \<^verbatim>\<open>nextpid\<close>.  The allocation at the largest \<^verbatim>\<open>int\<close> makes \<^verbatim>\<open>nextpid\<close> negative.  In every reachable
  state, overflow or not, a process that can run, sleep or be reaped has a kernel stack and a page directory.
\<close>

theorem pids_unique:
  assumes "kreach sy S" "i < NPROC" "state_of (ps S) i \<noteq> UNUSED"
  shows "(kreach_no_wrap sy S \<longrightarrow>
      0 < pid (procs (ps S) ! i) \<and> pid (procs (ps S) ! i) < nextpid (ps S) \<and> nextpid (ps S) < 2 ^ 31
      \<and> (\<forall>j<NPROC. state_of (ps S) j \<noteq> UNUSED \<and> pid (procs (ps S) ! j) = pid (procs (ps S) ! i) \<longrightarrow> j = i))
    \<and> (nextpid s = 2 ^ 31 - 1 \<and> claim_slot s = (t, Some k) \<longrightarrow> nextpid t = - (2 ^ 31))
    \<and> (state_of (ps S) i \<noteq> EMBRYO \<longrightarrow> kstack (procs (ps S) ! i) \<noteq> 0 \<and> pgdir (procs (ps S) ! i) \<noteq> 0)"
proof -
  have inv: "kinv False S" using kinv_reach [OF assms(1)] .
  have n: "i < length (procs (ps S))" "length (procs (ps S)) = NPROC" using kinv_NPROC [OF inv] assms(2) by simp_all
  have "procs_inv True (procs (ps S)) (nextpid (ps S))" if "kreach_no_wrap sy S"
    using kinv_procs [OF kinv_no_wrap [OF that]] .
  then have "0 < pid (procs (ps S) ! i) \<and> pid (procs (ps S) ! i) < nextpid (ps S) \<and> nextpid (ps S) < 2 ^ 31
      \<and> (\<forall>j<NPROC. state_of (ps S) j \<noteq> UNUSED \<and> pid (procs (ps S) ! j) = pid (procs (ps S) ! i) \<longrightarrow> j = i)"
    if "kreach_no_wrap sy S"
    using that n assms(3) by (auto simp: procs_inv_def)
  moreover have "nextpid t = - (2 ^ 31)" if "nextpid s = 2 ^ 31 - 1" "claim_slot s = (t, Some k)"
    using that int_inc_eq [of "nextpid s"] by (auto simp: claim_slot_def Let_def split: option.splits)
  moreover have "kstack (procs (ps S) ! i) \<noteq> 0 \<and> pgdir (procs (ps S) ! i) \<noteq> 0" if "state_of (ps S) i \<noteq> EMBRYO"
    using kinv_procs [OF inv] n assms(3) that by (auto simp: procs_inv_def live_def)
  ultimately show ?thesis by blast
qed

theorem pids_unique_witness:
  "0 < pid (procs three_procs ! 2) \<and> pid (procs three_procs ! 2) < nextpid three_procs"
  using pids_unique [OF kreach.boot [OF boot_three_booted], of 2] kreach_no_wrap.boot_nw [OF boot_three_booted]
  by (simp add: boot_three_def three_procs_def NPROC_def)

end
