(* ===== verification/Bio.thy ===== *)
theory Bio
  imports Layout
begin

text \<open>
  The buffer cache, \<^verbatim>\<open>bio.c\<close>, over the disk of \<^verbatim>\<open>memide.c\<close>.  Buffers are
  addressed by their index in \<^verbatim>\<open>bcache.buf\<close>; the list head is the extra node
  \<open>NBUF\<close>.  The \<^verbatim>\<open>prev\<close> and \<^verbatim>\<open>next\<close> fields of all nodes are the two
  lists \<open>bprev\<close> and \<open>bnext\<close>, so that the pointer surgery of \<^verbatim>\<open>brelse\<close> is
  translated assignment by assignment.

  A routine that would sleep on a buffer somebody else has locked has the
  outcome \<open>Wait\<close>.  \<open>curpid\<close> is \<^verbatim>\<open>myproc()->pid\<close>.  \<open>writes\<close> is a history
  variable: the block writes the disk has performed, in order.  No routine
  reads it; the crash theorems of the log are stated with it.
\<close>

unbundle bit_operations_syntax

subsection \<open>State\<close>

type_synonym block = "u8 list"

definition BSIZE :: nat where [layout_defs]: "BSIZE = 512"

record sleeplock =
  sl_locked :: bool
  sl_pid :: int

record buf =
  b_valid :: bool
  b_dirty :: bool
  bdev :: u32
  blockno :: u32
  block_lock :: sleeplock
  refcnt :: u32
  bdata :: block

record bstate =
  bufs :: "buf list"
  bnext :: "nat list"
  bprev :: "nat list"
  disk :: "u32 \<Rightarrow> block"
  writes :: "(u32 \<times> block) list"
  disksize :: u32
  curpid :: int

abbreviation set_buf :: "nat \<Rightarrow> (buf \<Rightarrow> buf) \<Rightarrow> 'a bstate_scheme \<Rightarrow> 'a bstate_scheme" where
  "set_buf i f s \<equiv> s\<lparr>bufs := upd_at i f (bufs s)\<rparr>"

abbreviation HEAD :: nat where "HEAD \<equiv> NBUF"

subsection \<open>Sleep locks\<close>

definition initsleeplock :: sleeplock where
  "initsleeplock = \<lparr>sl_locked = False, sl_pid = 0\<rparr>"

definition acquiresleep :: "int \<Rightarrow> sleeplock \<Rightarrow> sleeplock outcome" where
  "acquiresleep p lk = (if sl_locked lk then Wait else Done (lk\<lparr>sl_locked := True, sl_pid := p\<rparr>))"

definition releasesleep :: "sleeplock \<Rightarrow> sleeplock" where
  "releasesleep lk = lk\<lparr>sl_locked := False, sl_pid := 0\<rparr>"

definition holdingsleep :: "sleeplock \<Rightarrow> bool" where
  "holdingsleep lk = sl_locked lk"

subsection \<open>The disk\<close>

definition iderw :: "nat \<Rightarrow> 'a bstate_scheme \<Rightarrow> 'a bstate_scheme outcome" where
  "iderw i s =
     (let b = bufs s ! i in
      if \<not> holdingsleep (block_lock b) then Panic ''iderw: buf not locked''
      else if b_valid b \<and> \<not> b_dirty b then Panic ''iderw: nothing to do''
      else if bdev b \<noteq> 1 then Panic ''iderw: request not for disk 1''
      else if blockno b \<ge> disksize s then Panic ''iderw: block out of range''
      else if b_dirty b
      then Done (set_buf i (\<lambda>b. b\<lparr>b_valid := True\<rparr>)
             (set_buf i (\<lambda>b. b\<lparr>b_dirty := False\<rparr>)
               (s\<lparr>disk := (disk s)(blockno b := bdata b), writes := writes s @ [(blockno b, bdata b)]\<rparr>)))
      else Done (set_buf i (\<lambda>c. c\<lparr>bdata := disk s (blockno b), b_valid := True\<rparr>) s))"

subsection \<open>The cache\<close>

definition set_next :: "nat \<Rightarrow> nat \<Rightarrow> 'a bstate_scheme \<Rightarrow> 'a bstate_scheme" where
  "set_next x y s = s\<lparr>bnext := (bnext s)[x := y]\<rparr>"

definition set_prev :: "nat \<Rightarrow> nat \<Rightarrow> 'a bstate_scheme \<Rightarrow> 'a bstate_scheme" where
  "set_prev x y s = s\<lparr>bprev := (bprev s)[x := y]\<rparr>"

text \<open>Insert buffer \<open>b\<close> right after the head, as \<^verbatim>\<open>binit\<close> and \<^verbatim>\<open>brelse\<close> do.\<close>

definition link_front :: "nat \<Rightarrow> 'a bstate_scheme \<Rightarrow> 'a bstate_scheme" where
  "link_front b s =
     (let s = set_next b (bnext s ! HEAD) s;
          s = set_prev b HEAD s;
          s = set_prev (bnext s ! HEAD) b s
      in set_next HEAD b s)"

definition binit :: "'a bstate_scheme \<Rightarrow> 'a bstate_scheme" where
  "binit s =
     (let s = set_prev HEAD HEAD s;
          s = set_next HEAD HEAD s
      in fold (\<lambda>b s. link_front b (set_buf b (\<lambda>c. c\<lparr>block_lock := initsleeplock\<rparr>) s)) [0..<NBUF] s)"

text \<open>
  The nodes met by \<^verbatim>\<open>for(b = head.next; b != &head; b = b->next)\<close>, or along
  \<^verbatim>\<open>prev\<close>; a list of \<open>NBUF\<close> buffers ends after \<open>NBUF\<close> iterations.
\<close>

fun chase :: "nat list \<Rightarrow> nat \<Rightarrow> nat \<Rightarrow> nat list" where
  "chase link x 0 = []"
| "chase link x (Suc n) = (if x = HEAD then [] else x # chase link (link ! x) n)"

definition lock_buf :: "nat \<Rightarrow> 'a bstate_scheme \<Rightarrow> ('a bstate_scheme \<times> nat) outcome" where
  "lock_buf i s =
     and_then (acquiresleep (curpid s) (block_lock (bufs s ! i))) (\<lambda>lk.
     Done (set_buf i (\<lambda>b. b\<lparr>block_lock := lk\<rparr>) s, i))"

definition bget :: "u32 \<Rightarrow> u32 \<Rightarrow> 'a bstate_scheme \<Rightarrow> ('a bstate_scheme \<times> nat) outcome" where
  "bget dev n s =
     (case find (\<lambda>i. bdev (bufs s ! i) = dev \<and> blockno (bufs s ! i) = n) (chase (bnext s) (bnext s ! HEAD) NBUF) of
        Some i \<Rightarrow> lock_buf i (set_buf i (\<lambda>b. b\<lparr>refcnt := refcnt b + 1\<rparr>) s)
      | None \<Rightarrow>
          (case find (\<lambda>i. refcnt (bufs s ! i) = 0 \<and> \<not> b_dirty (bufs s ! i)) (chase (bprev s) (bprev s ! HEAD) NBUF) of
             Some i \<Rightarrow> lock_buf i (set_buf i (\<lambda>b. b\<lparr>bdev := dev, blockno := n, b_valid := False, b_dirty := False,
                          refcnt := 1\<rparr>) s)
           | None \<Rightarrow> Panic ''bget: no buffers''))"

definition bread :: "u32 \<Rightarrow> u32 \<Rightarrow> 'a bstate_scheme \<Rightarrow> ('a bstate_scheme \<times> nat) outcome" where
  "bread dev n s =
     and_then (bget dev n s) (\<lambda>(s, i).
     if \<not> b_valid (bufs s ! i) then and_then (iderw i s) (\<lambda>s. Done (s, i)) else Done (s, i))"

definition bwrite :: "nat \<Rightarrow> 'a bstate_scheme \<Rightarrow> 'a bstate_scheme outcome" where
  "bwrite i s =
     (if \<not> holdingsleep (block_lock (bufs s ! i)) then Panic ''bwrite''
      else iderw i (set_buf i (\<lambda>b. b\<lparr>b_dirty := True\<rparr>) s))"

text \<open>Take \<open>i\<close> out of the list: the first two pointer assignments of \<^verbatim>\<open>brelse\<close>.\<close>

definition unlink :: "nat \<Rightarrow> 'a bstate_scheme \<Rightarrow> 'a bstate_scheme" where
  "unlink i s =
     (let s = set_prev (bnext s ! i) (bprev s ! i) s
      in set_next (bprev s ! i) (bnext s ! i) s)"

definition brelse :: "nat \<Rightarrow> 'a bstate_scheme \<Rightarrow> 'a bstate_scheme outcome" where
  "brelse i s =
     (if \<not> holdingsleep (block_lock (bufs s ! i)) then Panic ''brelse''
      else let s = set_buf i (\<lambda>b. b\<lparr>block_lock := releasesleep (block_lock b)\<rparr>) s;
               s = set_buf i (\<lambda>b. b\<lparr>refcnt := refcnt b - 1\<rparr>) s
           in if refcnt (bufs s ! i) = 0
              then Done (link_front i (unlink i s))
              else Done s)"


text \<open>Access to \<^verbatim>\<open>b->data\<close> by the clients of the cache.\<close>

definition data_of :: "'a bstate_scheme \<Rightarrow> nat \<Rightarrow> block" where
  "data_of s i = bdata (bufs s ! i)"

definition edit :: "nat \<Rightarrow> (block \<Rightarrow> block) \<Rightarrow> 'a bstate_scheme \<Rightarrow> 'a bstate_scheme" where
  "edit i f s = set_buf i (\<lambda>b. b\<lparr>bdata := f (bdata b)\<rparr>) s"

definition pin :: "nat \<Rightarrow> 'a bstate_scheme \<Rightarrow> 'a bstate_scheme" where
  "pin i s = set_buf i (\<lambda>b. b\<lparr>b_dirty := True\<rparr>) s"

subsection \<open>The list of buffers\<close>

text \<open>
  \<open>chain nx pv a xs z\<close>: following \<open>nx\<close> from \<open>a\<close> visits exactly \<open>xs\<close> and then
  reaches \<open>z\<close>, and \<open>pv\<close> leads back the same way.
\<close>

fun chain :: "nat list \<Rightarrow> nat list \<Rightarrow> nat \<Rightarrow> nat list \<Rightarrow> nat \<Rightarrow> bool" where
  "chain nx pv a [] z \<longleftrightarrow> nx ! a = z \<and> pv ! z = a"
| "chain nx pv a (x # xs) z \<longleftrightarrow> nx ! a = x \<and> pv ! x = a \<and> chain nx pv x xs z"

definition linked :: "'a bstate_scheme \<Rightarrow> nat list \<Rightarrow> bool" where
  "linked s xs \<longleftrightarrow> chain (bnext s) (bprev s) HEAD xs HEAD \<and> distinct xs \<and> set xs \<subseteq> {..<NBUF} \<and>
     length (bnext s) = Suc NBUF \<and> length (bprev s) = Suc NBUF"

lemma chain_append:
  "chain nx pv a (xs @ y # ys) z \<longleftrightarrow> chain nx pv a xs y \<and> chain nx pv y ys z"
  by (induction xs arbitrary: a) auto

lemma chain_next_other: "k \<notin> set (a # xs) \<Longrightarrow> chain (nx[k := v]) pv a xs z = chain nx pv a xs z"
  by (induction xs arbitrary: a) auto

lemma chain_prev_other: "k \<notin> set (xs @ [z]) \<Longrightarrow> chain nx (pv[k := v]) a xs z = chain nx pv a xs z"
  by (induction xs arbitrary: a) auto

lemma chain_first: "chain nx pv a xs z \<Longrightarrow> nx ! a = hd (xs @ [z])"
  by (cases xs) auto

lemma chain_last: "chain nx pv a xs z \<Longrightarrow> pv ! z = last (a # xs)"
  by (induction xs arbitrary: a) auto

lemma chase_next:
  assumes "chain nx pv a xs HEAD" "HEAD \<notin> set xs"
  shows "chase nx (nx ! a) n = take n xs"
  using assms
proof (induction xs arbitrary: a n)
  case Nil
  then show ?case by (cases n) auto
next
  case (Cons x xs)
  then show ?case by (cases n) auto
qed

lemma chase_prev:
  assumes "chain nx pv HEAD xs z" "HEAD \<notin> set xs"
  shows "chase pv (pv ! z) n = take n (rev xs)"
  using assms
proof (induction xs arbitrary: z n rule: rev_induct)
  case Nil
  then show ?case by (cases n) auto
next
  case (snoc x xs)
  then show ?case by (cases n) (auto simp: chain_append)
qed

lemma linked_length: "linked s xs \<Longrightarrow> length xs \<le> NBUF"
  unfolding linked_def using card_mono [of "{..<NBUF}" "set xs"] by (simp add: distinct_card)

lemma linked_scan:
  assumes "linked s xs"
  shows "chase (bnext s) (bnext s ! HEAD) NBUF = xs" "chase (bprev s) (bprev s ! HEAD) NBUF = rev xs"
proof -
  have "HEAD \<notin> set xs" using assms by (auto simp: linked_def)
  then show "chase (bnext s) (bnext s ! HEAD) NBUF = xs" "chase (bprev s) (bprev s ! HEAD) NBUF = rev xs"
    using chase_next [of "bnext s" "bprev s" HEAD xs NBUF] chase_prev [of "bnext s" "bprev s" xs HEAD NBUF]
      linked_length [OF assms] assms
    by (auto simp: linked_def)
qed

lemma link_front_linked:
  assumes "linked s xs" "b < NBUF" "b \<notin> set xs"
  shows "linked (link_front b s) (b # xs)"
proof -
  have H: "HEAD \<notin> set xs" using assms(1) by (auto simp: linked_def)
  show ?thesis
  proof (cases xs)
    case Nil
    then show ?thesis using assms
      by (simp add: linked_def link_front_def set_next_def set_prev_def nth_list_update)
  next
    case (Cons x ys)
    then show ?thesis using assms H
      by (auto simp: linked_def link_front_def set_next_def set_prev_def nth_list_update
          chain_next_other chain_prev_other)
  qed
qed

lemma unlink_linked:
  assumes "linked s (xs @ b # ys)"
  shows "linked (unlink b s) (xs @ ys)"
proof -
  let ?nx = "bnext s" and ?pv = "bprev s"
  have P: "chain ?nx ?pv HEAD xs b" "chain ?nx ?pv b ys HEAD" using assms by (simp_all add: linked_def chain_append)
  have D: "distinct (HEAD # xs @ b # ys)" and L: "length ?nx = Suc NBUF" "length ?pv = Suc NBUF"
    and S: "set (xs @ b # ys) \<subseteq> {..<NBUF}"
    using assms by (auto simp: linked_def)
  define p where "p = last (HEAD # xs)"
  define n where "n = hd (ys @ [HEAD])"
  have pn: "?pv ! b = p" "?nx ! b = n" using chain_first [OF P(2)] chain_last [OF P(1)] by (simp_all add: p_def n_def)
  have pm: "p \<in> set (HEAD # xs)" unfolding p_def by (rule last_in_set) simp
  have nm: "n \<in> set (ys @ [HEAD])" unfolding n_def by (rule hd_in_set) simp
  have lt: "p \<le> NBUF" "n \<le> NBUF" using pm nm S by auto
  have nb: "n \<noteq> b" "p \<noteq> b" using pm nm D by auto
  have chain: "chain (?nx[p := n]) (?pv[n := p]) HEAD (xs @ ys) HEAD"
    using P D L lt unfolding p_def n_def
  proof (cases xs rule: rev_cases; cases ys)
    case (snoc xs' x)
    fix y ys' assume y: "ys = y # ys'"
    show "chain (?nx[last (HEAD # xs) := hd (ys @ [HEAD])]) (?pv[hd (ys @ [HEAD]) := last (HEAD # xs)]) HEAD (xs @ ys) HEAD"
      using P D L S unfolding snoc y
      by (auto simp: chain_append chain_next_other chain_prev_other nth_list_update)
  qed (auto simp: chain_append chain_next_other chain_prev_other nth_list_update)
  have "bnext (unlink b s) = ?nx[p := n]" "bprev (unlink b s) = ?pv[n := p]"
    using pn nb by (simp_all add: unlink_def set_next_def set_prev_def)
  then show ?thesis using chain D L S by (auto simp: linked_def)
qed


lemma move_to_front:
  assumes "linked s xs" "i \<in> set xs"
  shows "linked (link_front i (unlink i s)) (i # remove1 i xs)"
proof -
  obtain ys zs where xs: "xs = ys @ i # zs" and "i \<notin> set ys" using split_list_first [OF assms(2)] by auto
  then have "remove1 i xs = ys @ zs" by (simp add: remove1_append)
  moreover have "i < NBUF" "i \<notin> set (ys @ zs)" using assms xs by (auto simp: linked_def)
  ultimately show ?thesis using unlink_linked [of s ys i zs] link_front_linked assms(1) xs by metis
qed

lemma relink_frame:
  "bufs (link_front i s) = bufs s" "bufs (unlink i s) = bufs s" "bufs (set_next x y s) = bufs s" "bufs (set_prev x y s) = bufs s"
  "disk (link_front i s) = disk s" "disk (unlink i s) = disk s"
  "writes (link_front i s) = writes s" "writes (unlink i s) = writes s"
  "disksize (link_front i s) = disksize s" "disksize (unlink i s) = disksize s"
  "curpid (link_front i s) = curpid s" "curpid (unlink i s) = curpid s"
  "bstate.more (link_front i s) = bstate.more s" "bstate.more (unlink i s) = bstate.more s"
  by (simp_all add: link_front_def unlink_def set_next_def set_prev_def Let_def)

lemma set_buf_linked [simp]: "linked (s\<lparr>bufs := bs\<rparr>) xs = linked s xs"
  by (simp add: linked_def)

lemma set_buf_chase [simp]: "bnext (s\<lparr>bufs := bs\<rparr>) = bnext s" "bprev (s\<lparr>bufs := bs\<rparr>) = bprev s"
  by simp_all

subsection \<open>What the cache holds\<close>

abbreviation locked :: "buf \<Rightarrow> bool" where "locked b \<equiv> sl_locked (block_lock b)"

definition caches :: "u32 \<Rightarrow> buf \<Rightarrow> bool" where
  "caches n b \<longleftrightarrow> bdev b = 1 \<and> blockno b = n"

definition content :: "'a bstate_scheme \<Rightarrow> u32 \<Rightarrow> block" where
  "content s n = (case find (\<lambda>b. caches n b \<and> b_valid b) (bufs s) of Some b \<Rightarrow> bdata b | None \<Rightarrow> disk s n)"

definition holds :: "'a bstate_scheme \<Rightarrow> nat \<Rightarrow> u32 \<Rightarrow> bool" where
  "holds s i n \<longleftrightarrow> i < NBUF \<and> caches n (bufs s ! i) \<and> locked (bufs s ! i)"

definition held :: "'a bstate_scheme \<Rightarrow> u32 set" where
  "held s = {n. \<exists>i. holds s i n}"

definition dirty :: "'a bstate_scheme \<Rightarrow> u32 set" where
  "dirty s = {n. \<exists>i<NBUF. caches n (bufs s ! i) \<and> b_dirty (bufs s ! i)}"

definition buf_ok :: "(u32 \<Rightarrow> block) \<Rightarrow> buf \<Rightarrow> bool" where
  "buf_ok d b \<longleftrightarrow> length (bdata b) = BSIZE \<and> refcnt b = (if locked b then 1 else 0) \<and>
     (b_dirty b \<or> locked b \<longrightarrow> b_valid b \<and> bdev b = 1) \<and>
     (bdev b = 1 \<and> b_valid b \<and> \<not> b_dirty b \<and> \<not> locked b \<longrightarrow> bdata b = d (blockno b))"

definition uniq :: "buf list \<Rightarrow> bool" where
  "uniq bs \<longleftrightarrow> (\<forall>i<length bs. \<forall>j<length bs. \<forall>n. caches n (bs ! i) \<longrightarrow> caches n (bs ! j) \<longrightarrow> i = j)"

definition cache_wf :: "'a bstate_scheme \<Rightarrow> bool" where
  "cache_wf s \<longleftrightarrow> length (bufs s) = NBUF \<and> (\<exists>xs. linked s xs \<and> set xs = {..<NBUF}) \<and> uniq (bufs s) \<and>
     (\<forall>i<NBUF. buf_ok (disk s) (bufs s ! i)) \<and> (\<forall>n. length (disk s n) = BSIZE)"

definition same_env :: "'a bstate_scheme \<Rightarrow> 'a bstate_scheme \<Rightarrow> bool" where
  "same_env s t \<longleftrightarrow> disksize t = disksize s \<and> curpid t = curpid s \<and> bstate.more t = bstate.more s"

lemma uniqD: "uniq bs \<Longrightarrow> caches n (bs ! i) \<Longrightarrow> caches n (bs ! j) \<Longrightarrow> i < length bs \<Longrightarrow> j < length bs \<Longrightarrow> i = j"
  by (auto simp: uniq_def)

lemma content_cached:
  assumes "uniq (bufs s)" "i < length (bufs s)" "caches n (bufs s ! i)" "b_valid (bufs s ! i)"
  shows "content s n = bdata (bufs s ! i)"
proof -
  have "find (\<lambda>b. caches n b \<and> b_valid b) (bufs s) \<noteq> None" using assms by (auto simp: find_None_iff)
  then obtain b where b: "find (\<lambda>b. caches n b \<and> b_valid b) (bufs s) = Some b" by auto
  then obtain j where "j < length (bufs s)" "b = bufs s ! j" "caches n b" by (auto simp: find_Some_iff)
  then have "b = bufs s ! i" using uniqD [OF assms(1), of n j i] assms by auto
  then show ?thesis using b by (simp add: content_def)
qed

lemma content_uncached:
  assumes "\<And>i. i < length (bufs s) \<Longrightarrow> \<not> (caches n (bufs s ! i) \<and> b_valid (bufs s ! i))"
  shows "content s n = disk s n"
proof -
  have "find (\<lambda>b. caches n b \<and> b_valid b) (bufs s) = None"
    using assms by (auto simp: find_None_iff in_set_conv_nth)
  then show ?thesis by (simp add: content_def)
qed

text \<open>
  Replacing buffer \<open>i\<close> by \<open>B\<close> changes the content of the blocks the old and
  the new buffer cache, and of no other.
\<close>

lemma content_replace:
  assumes "uniq (bufs s)" "i < length (bufs s)" "uniq ((bufs s)[i := B])"
    and "disk t = disk s" "bufs t = (bufs s)[i := B]" "\<not> caches n B \<or> \<not> b_valid B" "\<not> caches n (bufs s ! i) \<or> \<not> b_valid (bufs s ! i)"
  shows "content t n = content s n"
proof (cases "\<exists>j<length (bufs s). j \<noteq> i \<and> caches n (bufs s ! j) \<and> b_valid (bufs s ! j)")
  case True
  then obtain j where j: "j < length (bufs s)" "j \<noteq> i" "caches n (bufs s ! j)" "b_valid (bufs s ! j)" by auto
  then show ?thesis using content_cached [of s j n] content_cached [of t j n] assms by simp
next
  case False
  then have "content s n = disk s n" using assms(7) by (intro content_uncached) auto
  moreover have "content t n = disk t n"
    using False assms by (intro content_uncached) (auto simp: nth_list_update)
  ultimately show ?thesis using assms(4) by simp
qed


lemma cache_wfD:
  assumes "cache_wf s"
  shows "length (bufs s) = NBUF" "uniq (bufs s)" "i < NBUF \<Longrightarrow> buf_ok (disk s) (bufs s ! i)" "length (disk s n) = BSIZE"
  using assms by (simp_all add: cache_wf_def)

lemma caches_unique:
  "cache_wf s \<Longrightarrow> i < NBUF \<Longrightarrow> j < NBUF \<Longrightarrow> caches n (bufs s ! i) \<Longrightarrow> caches n (bufs s ! j) \<Longrightarrow> i = j"
  using uniqD [of "bufs s" n i j] by (simp add: cache_wf_def)

lemma content_valid:
  "cache_wf s \<Longrightarrow> i < NBUF \<Longrightarrow> caches n (bufs s ! i) \<Longrightarrow> b_valid (bufs s ! i) \<Longrightarrow> content s n = bdata (bufs s ! i)"
  using content_cached [of s i n] by (simp add: cache_wf_def)

lemma uniq_replace:
  assumes "uniq bs" "\<And>j n. j < length bs \<Longrightarrow> j \<noteq> i \<Longrightarrow> caches n B \<Longrightarrow> \<not> caches n (bs ! j)"
  shows "uniq (bs[i := B])"
  unfolding uniq_def
proof (intro allI impI)
  fix j k n assume "j < length (bs[i := B])" "k < length (bs[i := B])" "caches n (bs[i := B] ! j)" "caches n (bs[i := B] ! k)"
  then show "j = k" using assms(2) uniqD [OF assms(1), of n j k] by (cases "j = i"; cases "k = i") auto
qed

lemma cache_wf_replace:
  assumes "cache_wf s" "i < NBUF" "buf_ok (disk s) B"
    and "\<And>j n. j < NBUF \<Longrightarrow> j \<noteq> i \<Longrightarrow> caches n B \<Longrightarrow> \<not> caches n (bufs s ! j)"
  shows "cache_wf (s\<lparr>bufs := (bufs s)[i := B]\<rparr>)"
proof -
  have "uniq ((bufs s)[i := B])" using assms by (intro uniq_replace) (auto simp: cache_wf_def)
  then show ?thesis using assms by (auto simp: cache_wf_def nth_list_update)
qed

lemma dirty_in: "cache_wf s \<Longrightarrow> i < NBUF \<Longrightarrow> caches n (bufs s ! i) \<Longrightarrow> n \<in> dirty s \<longleftrightarrow> b_dirty (bufs s ! i)"
  unfolding dirty_def by (blast dest: caches_unique)

lemma held_in: "cache_wf s \<Longrightarrow> i < NBUF \<Longrightarrow> caches n (bufs s ! i) \<Longrightarrow> n \<in> held s \<longleftrightarrow> locked (bufs s ! i)"
  unfolding held_def holds_def by (blast dest: caches_unique)

lemma finite_pinned: "finite (dirty s \<union> held s)"
proof (rule finite_subset)
  show "dirty s \<union> held s \<subseteq> (\<lambda>i. blockno (bufs s ! i)) ` {..<NBUF}"
    by (auto simp: dirty_def held_def holds_def caches_def)
qed simp

lemma free_buffer:
  assumes "cache_wf s" "card (dirty s \<union> held s) < NBUF"
  shows "\<exists>i<NBUF. refcnt (bufs s ! i) = 0 \<and> \<not> b_dirty (bufs s ! i)"
proof (rule ccontr)
  assume none: "\<not> ?thesis"
  let ?f = "\<lambda>i. blockno (bufs s ! i)"
  have c: "caches (?f i) (bufs s ! i)" "b_dirty (bufs s ! i) \<or> locked (bufs s ! i)" if "i < NBUF" for i
  proof -
    have "b_dirty (bufs s ! i) \<or> refcnt (bufs s ! i) \<noteq> 0" using none that by auto
    then show "b_dirty (bufs s ! i) \<or> locked (bufs s ! i)"
      using cache_wfD(3) [OF assms(1) that] by (auto simp: buf_ok_def split: if_splits)
    then show "caches (?f i) (bufs s ! i)"
      using cache_wfD(3) [OF assms(1) that] by (auto simp: caches_def buf_ok_def)
  qed
  have "inj_on ?f {..<NBUF}"
  proof (rule inj_onI)
    fix i j assume "i \<in> {..<NBUF}" "j \<in> {..<NBUF}" "?f i = ?f j"
    then show "i = j" using c(1) [of i] c(1) [of j] caches_unique [OF assms(1), of i j "?f i"] by simp
  qed
  moreover have "?f ` {..<NBUF} \<subseteq> dirty s \<union> held s"
    using c by (fastforce simp: dirty_def held_def holds_def)
  ultimately have "NBUF \<le> card (dirty s \<union> held s)"
    using card_mono [OF finite_pinned] card_image by (metis card_lessThan)
  then show False using assms(2) by simp
qed

lemma find_Some_in: "find P xs = Some x \<Longrightarrow> x \<in> set xs \<and> P x"
  by (metis find_Some_iff nth_mem)

lemma cache_order: "cache_wf s \<Longrightarrow> \<exists>xs. set xs = {..<NBUF} \<and> chase (bnext s) (bnext s ! HEAD) NBUF = xs \<and>
  chase (bprev s) (bprev s ! HEAD) NBUF = rev xs"
  using linked_scan [of s] by (auto simp: cache_wf_def)

lemma bget_hit:
  assumes "cache_wf s" "i < NBUF" "caches n (bufs s ! i)" "\<not> locked (bufs s ! i)"
  shows "bget 1 n s = Done (s\<lparr>bufs := (bufs s)[i := (bufs s ! i)\<lparr>refcnt := 1, block_lock := \<lparr>sl_locked = True, sl_pid = curpid s\<rparr>\<rparr>]\<rparr>, i)"
proof -
  obtain xs where xs: "set xs = {..<NBUF}" "chase (bnext s) (bnext s ! HEAD) NBUF = xs" using cache_order [OF assms(1)] by auto
  have "find (\<lambda>i. bdev (bufs s ! i) = 1 \<and> blockno (bufs s ! i) = n) xs \<noteq> None"
    using assms xs(1) by (auto simp: find_None_iff caches_def)
  then obtain j where j: "find (\<lambda>i. bdev (bufs s ! i) = 1 \<and> blockno (bufs s ! i) = n) xs = Some j" by auto
  then have "j = i" using find_Some_in [OF j] xs(1) caches_unique [OF assms(1), of i j n] assms(2,3) by (auto simp: caches_def)
  moreover have "refcnt (bufs s ! i) = 0" using cache_wfD(3) [OF assms(1,2)] assms(4) by (simp add: buf_ok_def)
  ultimately show ?thesis using j xs(2) assms(2,4) cache_wfD(1) [OF assms(1)]
    by (cases "block_lock (bufs s ! i)") (simp add: bget_def lock_buf_def acquiresleep_def upd_at_def)
qed

lemma bget_miss:
  assumes "cache_wf s" "\<And>i. i < NBUF \<Longrightarrow> \<not> caches n (bufs s ! i)" "card (dirty s \<union> held s) < NBUF"
  obtains i where "i < NBUF" "\<not> locked (bufs s ! i)" "\<not> b_dirty (bufs s ! i)"
    "bget 1 n s = Done (s\<lparr>bufs := (bufs s)[i := (bufs s ! i)\<lparr>bdev := 1, blockno := n, b_valid := False, b_dirty := False,
       refcnt := 1, block_lock := \<lparr>sl_locked = True, sl_pid = curpid s\<rparr>\<rparr>]\<rparr>, i)"
proof -
  obtain xs where xs: "set xs = {..<NBUF}" "chase (bnext s) (bnext s ! HEAD) NBUF = xs"
    "chase (bprev s) (bprev s ! HEAD) NBUF = rev xs"
    using cache_order [OF assms(1)] by auto
  have miss: "find (\<lambda>i. bdev (bufs s ! i) = 1 \<and> blockno (bufs s ! i) = n) xs = None"
    using assms(2) xs(1) by (auto simp: find_None_iff caches_def)
  have "find (\<lambda>i. refcnt (bufs s ! i) = 0 \<and> \<not> b_dirty (bufs s ! i)) (rev xs) \<noteq> None"
    using free_buffer [OF assms(1,3)] xs(1) by (auto simp: find_None_iff)
  then obtain i where i: "find (\<lambda>i. refcnt (bufs s ! i) = 0 \<and> \<not> b_dirty (bufs s ! i)) (rev xs) = Some i" by auto
  have lt: "i < NBUF" and clean: "refcnt (bufs s ! i) = 0" "\<not> b_dirty (bufs s ! i)" using find_Some_in [OF i] xs(1) by auto
  have unl: "\<not> locked (bufs s ! i)" using cache_wfD(3) [OF assms(1) lt] clean by (simp add: buf_ok_def split: if_splits)
  show ?thesis
  proof (rule that [OF lt unl clean(2)])
    show "bget 1 n s = Done (s\<lparr>bufs := (bufs s)[i := (bufs s ! i)\<lparr>bdev := 1, blockno := n, b_valid := False, b_dirty := False,
       refcnt := 1, block_lock := \<lparr>sl_locked = True, sl_pid = curpid s\<rparr>\<rparr>]\<rparr>, i)"
      using i miss xs(2,3) lt unl cache_wfD(1) [OF assms(1)]
      by (cases "block_lock (bufs s ! i)") (simp add: bget_def lock_buf_def acquiresleep_def upd_at_def)
  qed
qed


lemma binit_linked:
  assumes "length (bnext s) = Suc NBUF" "length (bprev s) = Suc NBUF"
  shows "linked (binit s) (rev [0..<NBUF])"
proof -
  let ?f = "\<lambda>b s. link_front b (set_buf b (\<lambda>c. c\<lparr>block_lock := initsleeplock\<rparr>) s)"
  let ?s = "set_next HEAD HEAD (set_prev HEAD HEAD s)"
  have "linked (fold ?f [0..<k] ?s) (rev [0..<k])" if "k \<le> NBUF" for k
    using that
  proof (induction k)
    case 0
    then show ?case using assms by (simp add: linked_def set_next_def set_prev_def)
  next
    case (Suc k)
    then show ?case using link_front_linked [of "set_buf k (\<lambda>c. c\<lparr>block_lock := initsleeplock\<rparr>) (fold ?f [0..<k] ?s)" "rev [0..<k]" k] by simp
  qed
  from this [of NBUF] show ?thesis by (simp add: binit_def)
qed

lemma binit_frame:
  assumes "length (bufs s) = NBUF"
  shows "bufs (binit s) = map (\<lambda>c. c\<lparr>block_lock := initsleeplock\<rparr>) (bufs s)"
    and "disk (binit s) = disk s" "writes (binit s) = writes s" "disksize (binit s) = disksize s" "curpid (binit s) = curpid s"
      "bstate.more (binit s) = bstate.more s"
proof -
  let ?g = "\<lambda>c :: buf. c\<lparr>block_lock := initsleeplock\<rparr>"
  let ?f = "\<lambda>b s. link_front b (set_buf b ?g s)"
  let ?s = "set_next HEAD HEAD (set_prev HEAD HEAD s)"
  have "bufs (fold ?f [0..<k] ?s) = map ?g (take k (bufs s)) @ drop k (bufs s) \<and> disk (fold ?f [0..<k] ?s) = disk s \<and>
      writes (fold ?f [0..<k] ?s) = writes s \<and> disksize (fold ?f [0..<k] ?s) = disksize s \<and> curpid (fold ?f [0..<k] ?s) = curpid s \<and>
      bstate.more (fold ?f [0..<k] ?s) = bstate.more s" if "k \<le> NBUF" for k
    using that
  proof (induction k)
    case 0
    then show ?case by (simp add: set_next_def set_prev_def)
  next
    case (Suc k)
    have k: "k < length (bufs s)" using Suc assms by simp
    have "upd_at k ?g (map ?g (take k (bufs s)) @ drop k (bufs s)) = map ?g (take (Suc k) (bufs s)) @ drop (Suc k) (bufs s)"
      using k by (simp add: upd_at_def take_Suc_conv_app_nth list_update_append nth_append Cons_nth_drop_Suc [symmetric])
    then show ?case using Suc by (simp add: relink_frame)
  qed
  from this [of NBUF] show "bufs (binit s) = map ?g (bufs s)"
    and "disk (binit s) = disk s" "writes (binit s) = writes s" "disksize (binit s) = disksize s" "curpid (binit s) = curpid s"
      "bstate.more (binit s) = bstate.more s"
    using assms by (simp_all add: binit_def)
qed

text \<open>The view of a state after one buffer was replaced.\<close>

lemma holds_replace:
  "cache_wf s \<Longrightarrow> i < NBUF \<Longrightarrow> bufs t = (bufs s)[i := B] \<Longrightarrow>
     holds t j m \<longleftrightarrow> (if j = i then caches m B \<and> locked B else holds s j m)"
  using cache_wfD(1) [of s] by (auto simp: holds_def)

lemma dirty_replace:
  assumes "cache_wf s" "i < NBUF" "bufs t = (bufs s)[i := B]"
  shows "dirty t = {n \<in> dirty s. \<not> caches n (bufs s ! i)} \<union> {n. caches n B \<and> b_dirty B}"
proof -
  have b: "bufs t ! j = (if j = i then B else bufs s ! j)" if "j < NBUF" for j
    using assms cache_wfD(1) [OF assms(1)] that by auto
  show ?thesis
    unfolding dirty_def using b assms(2) caches_unique [OF assms(1,2)]
    by (auto simp: split: if_splits; metis)
qed

lemma held_replace:
  assumes "cache_wf s" "i < NBUF" "bufs t = (bufs s)[i := B]"
  shows "held t = {n \<in> held s. \<not> caches n (bufs s ! i)} \<union> {n. caches n B \<and> locked B}"
proof -
  have b: "bufs t ! j = (if j = i then B else bufs s ! j)" if "j < NBUF" for j
    using assms cache_wfD(1) [OF assms(1)] that by auto
  show ?thesis
    unfolding held_def holds_def using b assms(2) caches_unique [OF assms(1,2)]
    by (auto simp: split: if_splits; metis)
qed

lemma content_replace_same:
  assumes "cache_wf s" "cache_wf t" "i < NBUF" "bufs t = (bufs s)[i := B]" "caches n B" "b_valid B"
  shows "content t n = bdata B"
  using content_valid [OF assms(2,3), of n] assms cache_wfD(1) [OF assms(1)] by simp

lemma content_replace_other:
  assumes "cache_wf s" "cache_wf t" "i < NBUF" "bufs t = (bufs s)[i := B]" "\<And>m. m \<noteq> n \<Longrightarrow> disk t m = disk s m"
    and "caches n B" "m \<noteq> n" "caches m (bufs s ! i) \<Longrightarrow> b_valid (bufs s ! i) \<Longrightarrow> bdata (bufs s ! i) = disk s m"
  shows "content t m = content s m"
proof -
  have L: "length (bufs s) = NBUF" using assms by (simp add: cache_wf_def)
  have nB: "\<not> caches m B" using assms(6,7) by (simp add: caches_def)
  have b: "bufs t ! j = (if j = i then B else bufs s ! j)" if "j < NBUF" for j using assms(4) L that by auto
  have Lt: "length (bufs t) = NBUF" using assms(2) by (simp add: cache_wf_def)
  consider (old) "caches m (bufs s ! i)" "b_valid (bufs s ! i)"
    | (other) j where "j < NBUF" "j \<noteq> i" "caches m (bufs s ! j)" "b_valid (bufs s ! j)"
    | (none) "\<And>j. j < NBUF \<Longrightarrow> \<not> (caches m (bufs s ! j) \<and> b_valid (bufs s ! j))"
    using assms(3) by blast
  then show ?thesis
  proof cases
    case old
    have "\<not> caches m (bufs t ! j)" if "j < NBUF" for j
      using b [OF that] nB caches_unique [OF assms(1,3) that old(1)] by auto
    then have "content t m = disk t m" using Lt by (intro content_uncached) auto
    then show ?thesis using content_valid [OF assms(1,3) old] assms(8) [OF old] assms(5,7) by simp
  next
    case other
    then show ?thesis using content_valid [OF assms(1) other(1,3,4)] content_valid [OF assms(2) other(1), of m] b by simp
  next
    case none
    have "content t m = disk t m" using Lt b nB none by (intro content_uncached) auto
    then show ?thesis using content_uncached [of s m] none L assms(5,7) by simp
  qed
qed


text \<open>\<^verbatim>\<open>bread\<close> replaces one unlocked buffer by a locked, valid copy of the block.\<close>

definition fetched :: "'a bstate_scheme \<Rightarrow> u32 \<Rightarrow> nat \<Rightarrow> buf \<Rightarrow> bool" where
  "fetched s n i B \<longleftrightarrow> i < NBUF \<and> \<not> locked (bufs s ! i) \<and> caches n B \<and> b_valid B \<and> locked B \<and> refcnt B = 1 \<and>
     bdata B = content s n \<and> (b_dirty B \<longleftrightarrow> n \<in> dirty s) \<and>
     (caches n (bufs s ! i) \<or> (\<forall>j<NBUF. \<not> caches n (bufs s ! j)) \<and> \<not> b_dirty (bufs s ! i))"

lemma bread_fetches:
  assumes wf: "cache_wf s" and n: "n \<notin> held s" "n < disksize s" and room: "n \<in> dirty s \<or> card (dirty s \<union> held s) < NBUF"
  shows "\<exists>i B. bread 1 n s = Done (s\<lparr>bufs := (bufs s)[i := B]\<rparr>, i) \<and> fetched s n i B"
proof (cases "\<exists>i<NBUF. caches n (bufs s ! i)")
  case True
  then obtain i where i: "i < NBUF" "caches n (bufs s ! i)" by auto
  have unl: "\<not> locked (bufs s ! i)" using held_in [OF wf i] n(1) by simp
  let ?L = "\<lparr>sl_locked = True, sl_pid = curpid s\<rparr>"
  note get = bget_hit [OF wf i unl] and d = dirty_in [OF wf i] and ok = cache_wfD(3) [OF wf i(1)]
  note L = cache_wfD(1) [OF wf]
  show ?thesis
  proof (cases "b_valid (bufs s ! i)")
    case True
    then show ?thesis using get d i unl content_valid [OF wf i True] L
      by (intro exI [of _ i] exI [of _ "(bufs s ! i)\<lparr>refcnt := 1, block_lock := ?L\<rparr>"])
        (simp add: bread_def fetched_def caches_def)
  next
    case False
    have "content s n = disk s n" using False caches_unique [OF wf i(1) _ i(2)] L
      by (intro content_uncached) auto
    moreover have "\<not> b_dirty (bufs s ! i)" using ok False by (simp add: buf_ok_def)
    ultimately show ?thesis using get d i unl L n(2) False
      by (intro exI [of _ i] exI [of _ "(bufs s ! i)\<lparr>refcnt := 1, block_lock := ?L, bdata := disk s n, b_valid := True\<rparr>"])
        (simp add: bread_def fetched_def caches_def iderw_def holdingsleep_def upd_at_def Let_def linorder_not_le)
  qed
next
  case False
  then have none: "\<not> caches n (bufs s ! i)" if "i < NBUF" for i using that by auto
  have nd: "n \<notin> dirty s" using none by (auto simp: dirty_def)
  with room have "card (dirty s \<union> held s) < NBUF" by simp
  then obtain i where i: "i < NBUF" "\<not> locked (bufs s ! i)" "\<not> b_dirty (bufs s ! i)"
    and get: "bget 1 n s = Done (s\<lparr>bufs := (bufs s)[i := (bufs s ! i)\<lparr>bdev := 1, blockno := n, b_valid := False, b_dirty := False,
       refcnt := 1, block_lock := \<lparr>sl_locked = True, sl_pid = curpid s\<rparr>\<rparr>]\<rparr>, i)"
    using bget_miss [OF wf none] by blast
  have "content s n = disk s n" using none cache_wfD(1) [OF wf] by (intro content_uncached) auto
  then show ?thesis using get i none nd n(2) cache_wfD(1) [OF wf]
    by (intro exI [of _ i] exI [of _ "(bufs s ! i)\<lparr>bdev := 1, blockno := n, b_dirty := False,
       refcnt := 1, block_lock := \<lparr>sl_locked = True, sl_pid = curpid s\<rparr>, bdata := disk s n, b_valid := True\<rparr>"])
      (simp add: bread_def fetched_def caches_def iderw_def holdingsleep_def upd_at_def Let_def linorder_not_le)
qed

lemma fetched_view:
  assumes wf: "cache_wf s" and f: "fetched s n i B"
  defines "t \<equiv> s\<lparr>bufs := (bufs s)[i := B]\<rparr>"
  shows "cache_wf t" "content t = content s" "dirty t = dirty s" "held t = insert n (held s)" "holds t i n"
    "holds s j m \<Longrightarrow> holds t j m"
proof -
  have i: "i < NBUF" "\<not> locked (bufs s ! i)" and B: "caches n B" "b_valid B" "locked B" "bdata B = content s n"
    and dB: "b_dirty B \<longleftrightarrow> n \<in> dirty s"
    using f by (simp_all add: fetched_def)
  have L: "length (bufs s) = NBUF" using wf by (simp add: cache_wf_def)
  have bt: "bufs t = (bufs s)[i := B]" by (simp add: t_def)
  have old: "caches n (bufs s ! i) \<or> (\<forall>j<NBUF. \<not> caches n (bufs s ! j)) \<and> \<not> b_dirty (bufs s ! i)"
    using f by (simp add: fetched_def)
  have lenB: "length (bdata B) = BSIZE"
    using B(4) wf by (auto simp: content_def cache_wf_def buf_ok_def find_Some_iff split: option.splits)
  have "buf_ok (disk s) B" using f lenB by (auto simp: buf_ok_def fetched_def caches_def)
  moreover have "\<not> caches m (bufs s ! j)" if "j < NBUF" "j \<noteq> i" "caches m B" for j m
  proof -
    have "m = n" using that(3) B(1) by (simp add: caches_def)
    then show ?thesis using old caches_unique [OF wf i(1) that(1)] that(1,2) by auto
  qed
  ultimately show wt: "cache_wf t" unfolding t_def by (intro cache_wf_replace [OF wf i(1)])
  show "content t = content s"
  proof
    fix m show "content t m = content s m"
    proof (cases "m = n")
      case True
      then show ?thesis using content_replace_same [OF wf wt i(1) bt B(1,2)] B(4) by simp
    next
      case False
      show ?thesis
      proof (rule content_replace_other [OF wf wt i(1) bt _ B(1) False])
        show "bdata (bufs s ! i) = disk s m" if "caches m (bufs s ! i)" "b_valid (bufs s ! i)"
          using that old False i(2) cache_wfD(3) [OF wf i(1)] by (auto simp: caches_def buf_ok_def)
      qed (simp add: t_def)
    qed
  qed
  have own: "caches m B \<longleftrightarrow> m = n" for m using B(1) by (auto simp: caches_def)
  show "dirty t = dirty s"
  proof (rule set_eqI)
    fix m show "m \<in> dirty t \<longleftrightarrow> m \<in> dirty s"
      using dirty_in [OF wf i(1), of m] old dB own [of m]
      by (cases "caches m (bufs s ! i)") (auto simp: dirty_replace [OF wf i(1) bt] caches_def)
  qed
  show "held t = insert n (held s)"
  proof (rule set_eqI)
    fix m show "m \<in> held t \<longleftrightarrow> m \<in> insert n (held s)"
      using held_in [OF wf i(1), of m] B(3) own [of m] i(2)
      by (cases "caches m (bufs s ! i)") (auto simp: held_replace [OF wf i(1) bt])
  qed
  show "holds t i n" using holds_replace [OF wf i(1) bt] B by simp
  show "holds t j m" if "holds s j m" using that i(2) holds_replace [OF wf i(1) bt, of j m] by (auto simp: holds_def)
qed


text \<open>An operation on a held buffer replaces that buffer, and the disk block it writes.\<close>

definition replaces :: "'a bstate_scheme \<Rightarrow> nat \<Rightarrow> u32 \<Rightarrow> buf \<Rightarrow> 'a bstate_scheme \<Rightarrow> bool" where
  "replaces s i n B t \<longleftrightarrow> holds s i n \<and> bufs t = (bufs s)[i := B] \<and> caches n B \<and> b_valid B \<and> buf_ok (disk t) B \<and>
     (\<forall>m. m \<noteq> n \<longrightarrow> disk t m = disk s m) \<and> length (disk t n) = BSIZE \<and> (\<exists>xs. linked t xs \<and> set xs = {..<NBUF})"

lemma replaces_view:
  assumes wf: "cache_wf s" and r: "replaces s i n B t"
  shows "cache_wf t" "content t = (content s)(n := bdata B)" "dirty t = (if b_dirty B then insert n (dirty s) else dirty s - {n})"
    "held t = (if locked B then held s else held s - {n})" "holds t j m \<longleftrightarrow> (if j = i then m = n \<and> locked B else holds s j m)"
proof -
  have i: "i < NBUF" "caches n (bufs s ! i)" "locked (bufs s ! i)" and bt: "bufs t = (bufs s)[i := B]" and B: "caches n B" "b_valid B"
    and d: "\<And>m. m \<noteq> n \<Longrightarrow> disk t m = disk s m"
    using r by (auto simp: replaces_def holds_def)
  have L: "length (bufs s) = NBUF" using wf by (simp add: cache_wf_def)
  have own: "caches m B \<longleftrightarrow> m = n" "caches m (bufs s ! i) \<longleftrightarrow> m = n" for m using B(1) i(2) by (auto simp: caches_def)
  have oth: "\<not> caches n (bufs s ! j)" if "j < NBUF" "j \<noteq> i" for j using caches_unique [OF wf i(1) that(1) i(2)] that(2) by auto
  have "uniq (bufs t)" unfolding bt
    using wf oth own L by (intro uniq_replace) (auto simp: cache_wf_def)
  moreover have "buf_ok (disk t) (bufs t ! j)" if j: "j < NBUF" for j
  proof (cases "j = i")
    case False
    then have "buf_ok (disk s) (bufs t ! j)" "\<not> caches n (bufs t ! j)" using cache_wfD(3) [OF wf j] oth [OF j False] bt by simp_all
    then show ?thesis using d by (auto simp: buf_ok_def caches_def)
  qed (use r bt L i in \<open>simp add: replaces_def\<close>)
  moreover have "length (disk t m) = BSIZE" for m
    using r d [of m] cache_wfD(4) [OF wf] by (cases "m = n") (auto simp: replaces_def)
  ultimately show wt: "cache_wf t" using r L bt by (auto simp: cache_wf_def replaces_def)
  show "content t = (content s)(n := bdata B)"
  proof
    fix m show "content t m = ((content s)(n := bdata B)) m"
      using content_replace_same [OF wf wt i(1) bt B]
        content_replace_other [OF wf wt i(1) bt d B(1), of m] own by (cases "m = n") auto
  qed
  have "n \<in> held s" using i by (auto simp: held_def holds_def)
  then show "held t = (if locked B then held s else held s - {n})"
    using held_replace [OF wf i(1) bt] own by auto
  show "dirty t = (if b_dirty B then insert n (dirty s) else dirty s - {n})"
    using dirty_replace [OF wf i(1) bt] own by auto
  show "holds t j m \<longleftrightarrow> (if j = i then m = n \<and> locked B else holds s j m)"
    using holds_replace [OF wf i(1) bt] own by simp
qed

lemma holdsD:
  assumes "cache_wf s" "holds s i n"
  shows "i < length (bufs s)" "caches n (bufs s ! i)" "locked (bufs s ! i)" "b_valid (bufs s ! i)" "bdev (bufs s ! i) = 1"
    "blockno (bufs s ! i) = n" "refcnt (bufs s ! i) = 1" "length (bdata (bufs s ! i)) = BSIZE" "bdata (bufs s ! i) = content s n"
  using assms cache_wfD(3) [OF assms(1), of i] content_valid [OF assms(1), of i n]
  by (auto simp: holds_def caches_def buf_ok_def cache_wf_def)

lemma edit_replaces:
  assumes "cache_wf s" "holds s i n" "length (f (content s n)) = BSIZE"
  shows "replaces s i n ((bufs s ! i)\<lparr>bdata := f (content s n)\<rparr>) (edit i f s)"
  using assms holdsD [OF assms(1,2)]
  by (auto simp: replaces_def edit_def upd_at_def caches_def buf_ok_def cache_wf_def)

lemma bwrite_replaces:
  assumes "cache_wf s" "holds s i n" "n < disksize s"
  shows "\<exists>t. bwrite i s = Done t \<and> replaces s i n ((bufs s ! i)\<lparr>b_dirty := False, b_valid := True\<rparr>) t \<and>
    disk t = (disk s)(n := content s n) \<and> writes t = writes s @ [(n, content s n)] \<and> same_env s t"
  using assms holdsD [OF assms(1,2)]
  by (auto simp: bwrite_def iderw_def holdingsleep_def Let_def upd_at_def replaces_def caches_def buf_ok_def same_env_def
      cache_wf_def linked_def)

lemma brelse_replaces:
  assumes "cache_wf s" "holds s i n" "n \<in> dirty s \<or> content s n = disk s n"
  shows "\<exists>t. brelse i s = Done t \<and> replaces s i n ((bufs s ! i)\<lparr>block_lock := \<lparr>sl_locked = False, sl_pid = 0\<rparr>, refcnt := 0\<rparr>) t \<and>
    disk t = disk s \<and> writes t = writes s \<and> same_env s t"
proof -
  note h = holdsD [OF assms(1,2)]
  let ?B = "(bufs s ! i)\<lparr>block_lock := \<lparr>sl_locked = False, sl_pid = 0\<rparr>, refcnt := 0\<rparr>"
  define u where "u = s\<lparr>bufs := (bufs s)[i := ?B]\<rparr>"
  obtain xs where xs: "linked s xs" "set xs = {..<NBUF}" using assms(1) by (auto simp: cache_wf_def)
  have i: "i \<in> set xs" using xs(2) h(1) assms(1) by (simp add: cache_wf_def)
  have "linked (link_front i (unlink i u)) (i # remove1 i xs)" by (rule move_to_front [OF _ i]) (simp add: u_def xs(1))
  moreover have "set (i # remove1 i xs) = {..<NBUF}"
    using xs i by (auto simp: linked_def)
  moreover have "brelse i s = Done (link_front i (unlink i u))" using h
    by (cases "block_lock (bufs s ! i)") (simp add: brelse_def holdingsleep_def releasesleep_def Let_def upd_at_def u_def)
  moreover have "buf_ok (disk s) ?B" using assms h dirty_in [OF assms(1), of i n]
    by (auto simp: buf_ok_def holds_def caches_def)
  ultimately show ?thesis using h assms(2)
    by (intro exI [of _ "link_front i (unlink i u)"])
      (auto simp: replaces_def relink_frame u_def caches_def same_env_def cache_wfD(4) [OF assms(1)])
qed


lemma pin_replaces:
  assumes "cache_wf s" "holds s i n"
  shows "replaces s i n ((bufs s ! i)\<lparr>b_dirty := True\<rparr>) (pin i s)"
  using assms holdsD [OF assms]
  by (auto simp: replaces_def pin_def upd_at_def caches_def buf_ok_def cache_wf_def)

subsection \<open>The contract of the cache\<close>

text \<open>
  What the log and the file system rely on.  \<open>content\<close> is what a reader of a
  block sees, \<open>store\<close> what is on the disk; they differ on dirty blocks and on
  blocks held by somebody.  A read needs a buffer: either the block is dirty,
  hence cached, or fewer than \<open>capacity\<close> buffers are pinned.
\<close>

locale block_cache =
  fixes inv :: "'s \<Rightarrow> bool"
    and content :: "'s \<Rightarrow> u32 \<Rightarrow> block"
    and store :: "'s \<Rightarrow> u32 \<Rightarrow> block"
    and hist :: "'s \<Rightarrow> (u32 \<times> block) list"
    and dirty :: "'s \<Rightarrow> u32 set"
    and held :: "'s \<Rightarrow> u32 set"
    and holds :: "'s \<Rightarrow> nat \<Rightarrow> u32 \<Rightarrow> bool"
    and env :: "'s \<Rightarrow> 'e"
    and nblocks :: "'e \<Rightarrow> u32"
    and capacity :: nat
    and data :: "'s \<Rightarrow> nat \<Rightarrow> block"
    and read :: "u32 \<Rightarrow> 's \<Rightarrow> ('s \<times> nat) outcome"
    and modify :: "nat \<Rightarrow> (block \<Rightarrow> block) \<Rightarrow> 's \<Rightarrow> 's"
    and sync :: "nat \<Rightarrow> 's \<Rightarrow> 's outcome"
    and mark :: "nat \<Rightarrow> 's \<Rightarrow> 's"
    and release :: "nat \<Rightarrow> 's \<Rightarrow> 's outcome"
  assumes read_law: "\<lbrakk>inv s; n \<notin> held s; n < nblocks (env s); n \<in> dirty s \<or> card (dirty s \<union> held s) < capacity\<rbrakk> \<Longrightarrow>
      \<exists>t i. read n s = Done (t, i) \<and> inv t \<and> holds t i n \<and> content t = content s \<and> store t = store s \<and> hist t = hist s \<and> dirty t = dirty s \<and>
        held t = insert n (held s) \<and> env t = env s \<and> (\<forall>j m. holds s j m \<longrightarrow> holds t j m)"
    and modify_law: "\<lbrakk>inv s; holds s i n; length (f (content s n)) = BSIZE\<rbrakk> \<Longrightarrow>
      inv (modify i f s) \<and> content (modify i f s) = (content s)(n := f (content s n)) \<and> store (modify i f s) = store s \<and> hist (modify i f s) = hist s \<and>
      dirty (modify i f s) = dirty s \<and> held (modify i f s) = held s \<and> env (modify i f s) = env s \<and>
      holds (modify i f s) = holds s"
    and sync_law: "\<lbrakk>inv s; holds s i n; n < nblocks (env s)\<rbrakk> \<Longrightarrow>
      \<exists>t. sync i s = Done t \<and> inv t \<and> content t = content s \<and> store t = (store s)(n := content s n) \<and> hist t = hist s @ [(n, content s n)] \<and>
        dirty t = dirty s - {n} \<and> held t = held s \<and> env t = env s \<and> holds t = holds s"
    and mark_law: "\<lbrakk>inv s; holds s i n\<rbrakk> \<Longrightarrow>
      inv (mark i s) \<and> content (mark i s) = content s \<and> store (mark i s) = store s \<and> hist (mark i s) = hist s \<and>
      dirty (mark i s) = insert n (dirty s) \<and> held (mark i s) = held s \<and> env (mark i s) = env s \<and> holds (mark i s) = holds s"
    and release_law: "\<lbrakk>inv s; holds s i n; n \<in> dirty s \<or> content s n = store s n\<rbrakk> \<Longrightarrow>
      \<exists>t. release i s = Done t \<and> inv t \<and> content t = content s \<and> store t = store s \<and> hist t = hist s \<and> dirty t = dirty s \<and>
        held t = held s - {n} \<and> env t = env s \<and> (\<forall>j m. m \<noteq> n \<longrightarrow> holds s j m \<longrightarrow> holds t j m)"
    and data_law: "\<lbrakk>inv s; holds s i n\<rbrakk> \<Longrightarrow> data s i = content s n"
    and content_length: "inv s \<Longrightarrow> length (content s n) = BSIZE"
    and clean_law: "\<lbrakk>inv s; n \<notin> held s; n \<notin> dirty s\<rbrakk> \<Longrightarrow> content s n = store s n"
    and pinned_finite: "finite (dirty s \<union> held s)"
begin

text \<open>Read a block, change it, write it through and release it.\<close>

lemma rewrite_block:
  assumes "inv s" "held s = {}" "n < nblocks (env s)" "n \<in> dirty s \<or> card (dirty s) < capacity" "length (f (content s n)) = BSIZE"
  shows "\<exists>t. and_then (read n s) (\<lambda>(s, i). and_then (sync i (modify i f s)) (release i)) = Done t \<and> inv t \<and> held t = {} \<and>
    content t = (content s)(n := f (content s n)) \<and> store t = (store s)(n := f (content s n)) \<and> hist t = hist s @ [(n, f (content s n))] \<and> dirty t = dirty s - {n} \<and> env t = env s"
proof -
  obtain u i where u: "read n s = Done (u, i)" "inv u" "holds u i n" "content u = content s" "store u = store s" "dirty u = dirty s"
    "held u = {n}" "env u = env s" "hist u = hist s"
    using read_law [of s n] assms by auto
  obtain v where v: "sync i (modify i f u) = Done v" "inv v" "content v = (content s)(n := f (content s n))"
    "store v = (store s)(n := f (content s n))" "dirty v = dirty s - {n}" "held v = {n}" "env v = env s" "holds v = holds u" "hist v = hist s @ [(n, f (content s n))]"
    using modify_law [OF u(2,3), of f] sync_law [of "modify i f u" i n] assms(3,5) u by auto
  obtain w where w: "release i v = Done w" "inv w" "content w = content v" "store w = store v" "dirty w = dirty v" "held w = {}" "env w = env v" "hist w = hist v"
    using release_law [OF v(2), of i n] v u(3) by auto
  show ?thesis using u v w by simp
qed

text \<open>Read a block and release it unchanged.\<close>

lemma read_release:
  assumes "inv s" "held s = {}" "n < nblocks (env s)" "n \<in> dirty s \<or> card (dirty s) < capacity"
  shows "\<exists>u i. read n s = Done (u, i) \<and> data u i = content s n \<and> inv u \<and> holds u i n \<and> held u = {n} \<and> content u = content s \<and>
    store u = store s \<and> hist u = hist s \<and> dirty u = dirty s \<and> env u = env s \<and> (n \<in> dirty u \<or> content u n = store u n)"
proof -
  obtain u i where u: "read n s = Done (u, i)" "inv u" "holds u i n" "content u = content s" "store u = store s" "dirty u = dirty s"
    "held u = {n}" "env u = env s" "hist u = hist s"
    using read_law [of s n] assms by auto
  then show ?thesis using data_law [OF u(2,3)] clean_law [of s n] assms by auto
qed

text \<open>Copy block \<open>src\<close> over block \<open>dst\<close>, with both buffers held.\<close>

lemma copy_held:
  assumes "inv u" "holds u j src" "holds u i dst" "src \<noteq> dst" "dst < nblocks (env u)"
    and "held u = {src, dst}" "src \<in> dirty u \<or> content u src = store u src"
  shows "\<exists>v. sync i (modify i (\<lambda>_. data u j) u) = Done v \<and> inv v \<and> content v = (content u)(dst := content u src) \<and>
    store v = (store u)(dst := content u src) \<and> hist v = hist u @ [(dst, content u src)] \<and> dirty v = dirty u - {dst} \<and> env v = env u \<and>
    (\<exists>t. and_then (release i v) (release j) = Done t \<and> inv t \<and> held t = {} \<and> content t = content v \<and> store t = store v \<and> hist t = hist v \<and>
       dirty t = dirty v \<and> env t = env v) \<and>
    (\<exists>t. and_then (release j v) (release i) = Done t \<and> inv t \<and> held t = {} \<and> content t = content v \<and> store t = store v \<and> hist t = hist v \<and>
       dirty t = dirty v \<and> env t = env v)"
proof -
  have d: "data u j = content u src" using data_law assms by blast
  obtain v where v: "sync i (modify i (\<lambda>_. data u j) u) = Done v" "inv v" "content v = (content u)(dst := content u src)"
    "store v = (store u)(dst := content u src)" "dirty v = dirty u - {dst}" "held v = {src, dst}" "env v = env u" "holds v = holds u" "hist v = hist u @ [(dst, content u src)]"
    using modify_law [OF assms(1,3), of "\<lambda>_. data u j"] sync_law [of "modify i (\<lambda>_. data u j) u" i dst] assms content_length d by auto
  have two: "\<exists>t. and_then (release i' v) (release j') = Done t \<and> inv t \<and> held t = {} \<and> content t = content v \<and>
     store t = store v \<and> hist t = hist v \<and> dirty t = dirty v \<and> env t = env v"
    if h: "holds v i' a" "holds v j' b" "a \<noteq> b" "{a, b} = {src, dst}" for i' j' a b
  proof -
    have coh: "m \<in> dirty v \<or> content v m = store v m" if "m \<in> {src, dst}" for m
      using that v(3-5) assms(4,7) by auto
    have a: "a \<in> dirty v \<or> content v a = store v a" and b: "b \<in> dirty v \<or> content v b = store v b" using coh h(4) by blast+
    have hd: "held v = {a, b}" using v(6) h(4) by simp
    obtain w where w: "release i' v = Done w" "inv w" "content w = content v" "store w = store v" "dirty w = dirty v" "held w = {b}"
      "env w = env v" "holds w j' b" "hist w = hist v"
      using release_law [OF v(2) h(1) a] h(2,3) hd by auto
    show ?thesis using release_law [OF w(2) w(8)] b w by auto
  qed
  show ?thesis
    using v(1-5,7,9) two [of i dst j src] two [of j src i dst] assms(2-4) v(8) by auto
qed

lemma copy_to_first:
  assumes "inv s" "held s = {}" "dst \<noteq> src" "dst < nblocks (env s)" "src < nblocks (env s)"
    and "dst \<in> dirty s \<or> card (dirty s) < capacity" "src \<in> dirty s \<or> card (insert dst (dirty s)) < capacity"
  shows "\<exists>t. and_then (read dst s) (\<lambda>(s, i). and_then (read src s) (\<lambda>(s, j).
      and_then (sync i (modify i (\<lambda>_. data s j) s)) (\<lambda>s. and_then (release j s) (release i)))) = Done t \<and> inv t \<and> held t = {} \<and>
    content t = (content s)(dst := content s src) \<and> store t = (store s)(dst := content s src) \<and> hist t = hist s @ [(dst, content s src)] \<and> dirty t = dirty s - {dst} \<and> env t = env s"
proof -
  obtain u i where u: "read dst s = Done (u, i)" "inv u" "holds u i dst" "content u = content s" "store u = store s" "dirty u = dirty s"
    "held u = {dst}" "env u = env s" "hist u = hist s"
    using read_law [of s dst] assms by auto
  obtain v j where v: "read src u = Done (v, j)" "inv v" "holds v j src" "content v = content s" "store v = store s" "dirty v = dirty s"
    "held v = {src, dst}" "env v = env s" "holds v i dst" "hist v = hist s"
    using read_law [of u src] assms u by auto
  have "src \<in> dirty v \<or> content v src = store v src" using clean_law [OF assms(1), of src] assms(2) v by auto
  with copy_held [OF v(2,3,9)] assms v obtain w t where "sync i (modify i (\<lambda>_. data v j) v) = Done w"
    "and_then (release j w) (release i) = Done t" "inv t" "held t = {}" "content t = (content s)(dst := content s src)"
    "store t = (store s)(dst := content s src)" "dirty t = dirty s - {dst}" "env t = env s" "hist t = hist s @ [(dst, content s src)]" by auto
  then show ?thesis using u(1) v(1) by simp
qed

lemma copy_to_second:
  assumes "inv s" "held s = {}" "dst \<noteq> src" "dst < nblocks (env s)" "src < nblocks (env s)"
    and "src \<in> dirty s \<or> card (dirty s) < capacity" "dst \<in> dirty s \<or> card (insert src (dirty s)) < capacity"
  shows "\<exists>t. and_then (read src s) (\<lambda>(s, j). and_then (read dst s) (\<lambda>(s, i).
      and_then (sync i (modify i (\<lambda>_. data s j) s)) (\<lambda>s. and_then (release j s) (release i)))) = Done t \<and> inv t \<and> held t = {} \<and>
    content t = (content s)(dst := content s src) \<and> store t = (store s)(dst := content s src) \<and> hist t = hist s @ [(dst, content s src)] \<and> dirty t = dirty s - {dst} \<and> env t = env s"
proof -
  obtain u j where u: "read src s = Done (u, j)" "inv u" "holds u j src" "content u = content s" "store u = store s" "dirty u = dirty s"
    "held u = {src}" "env u = env s" "hist u = hist s"
    using read_law [of s src] assms by auto
  obtain v i where v: "read dst u = Done (v, i)" "inv v" "holds v i dst" "content v = content s" "store v = store s" "dirty v = dirty s"
    "held v = {src, dst}" "env v = env s" "holds v j src" "hist v = hist s"
    using read_law [of u dst] assms u by (auto simp: insert_commute)
  have "src \<in> dirty v \<or> content v src = store v src" using clean_law [OF assms(1), of src] assms(2) v by auto
  with copy_held [OF v(2,9,3)] assms v obtain w t where "sync i (modify i (\<lambda>_. data v j) v) = Done w"
    "and_then (release j w) (release i) = Done t" "inv t" "held t = {}" "content t = (content s)(dst := content s src)"
    "store t = (store s)(dst := content s src)" "dirty t = dirty s - {dst}" "env t = env s" "hist t = hist s @ [(dst, content s src)]" by auto
  then show ?thesis using u(1) v(1) by simp
qed

end


lemma same_env_refl [simp]: "same_env s s"
  by (simp add: same_env_def)

lemma env_edit [simp]: "disk (edit i f s) = disk s" "writes (edit i f s) = writes s" "disksize (edit i f s) = disksize s" "curpid (edit i f s) = curpid s"
  "bstate.more (edit i f s) = bstate.more s"
  by (simp_all add: edit_def)

lemma env_pin [simp]: "disk (pin i s) = disk s" "writes (pin i s) = writes s" "disksize (pin i s) = disksize s" "curpid (pin i s) = curpid s"
  "bstate.more (pin i s) = bstate.more s"
  by (simp_all add: pin_def)

lemma held_holds: "holds s i n \<Longrightarrow> n \<in> held s"
  by (auto simp: held_def)

lemma holds_unique: "cache_wf s \<Longrightarrow> holds s i n \<Longrightarrow> holds s j n \<Longrightarrow> i = j"
  using caches_unique [of s i j n] by (simp add: holds_def)

lemma holds_block: "holds s i n \<Longrightarrow> holds s i m \<Longrightarrow> m = n"
  by (auto simp: holds_def caches_def)

interpretation bc: block_cache cache_wf content disk writes dirty held holds
  "\<lambda>s. (disksize s, curpid s, bstate.more s)" fst NBUF data_of "bread 1" edit bwrite pin brelse
proof unfold_locales
  fix s :: "'a bstate_scheme" and n i and f :: "block \<Rightarrow> block"
  show "finite (dirty s \<union> held s)" by (rule finite_pinned)
  assume wf: "cache_wf s"
  show "length (content s n) = BSIZE"
    using wf by (auto simp: content_def cache_wf_def buf_ok_def find_Some_iff split: option.splits)
  show "\<exists>t i. bread 1 n s = Done (t, i) \<and> cache_wf t \<and> holds t i n \<and> content t = content s \<and> disk t = disk s \<and> writes t = writes s \<and> dirty t = dirty s \<and>
      held t = insert n (held s) \<and> (disksize t, curpid t, bstate.more t) = (disksize s, curpid s, bstate.more s) \<and>
      (\<forall>j m. holds s j m \<longrightarrow> holds t j m)"
    if pre: "n \<notin> held s" "n < fst (disksize s, curpid s, bstate.more s)" "n \<in> dirty s \<or> card (dirty s \<union> held s) < NBUF"
  proof -
    obtain i B where b: "bread 1 n s = Done (s\<lparr>bufs := (bufs s)[i := B]\<rparr>, i)" "fetched s n i B"
      using bread_fetches [OF wf pre(1) _ pre(3)] pre(2) by auto
    show ?thesis using b fetched_view [OF wf b(2)]
      by (intro exI [of _ "s\<lparr>bufs := (bufs s)[i := B]\<rparr>"] exI [of _ i]) simp
  qed
  show "content s n = disk s n" if "n \<notin> held s" "n \<notin> dirty s"
  proof (cases "\<exists>i<NBUF. caches n (bufs s ! i) \<and> b_valid (bufs s ! i)")
    case True
    then obtain i where i: "i < NBUF" "caches n (bufs s ! i)" "b_valid (bufs s ! i)" by auto
    then show ?thesis using content_valid [OF wf i] dirty_in [OF wf i(1,2)] held_in [OF wf i(1,2)] that cache_wfD(3) [OF wf i(1)]
      by (auto simp: buf_ok_def caches_def)
  next
    case False
    then show ?thesis using cache_wfD(1) [OF wf] by (intro content_uncached) auto
  qed
  assume h: "holds s i n"
  note hd = holdsD [OF wf h]
  show "data_of s i = content s n" using hd by (simp add: data_of_def)
  show "cache_wf (edit i f s) \<and> content (edit i f s) = (content s)(n := f (content s n)) \<and> disk (edit i f s) = disk s \<and> writes (edit i f s) = writes s \<and>
      dirty (edit i f s) = dirty s \<and> held (edit i f s) = held s \<and>
      (disksize (edit i f s), curpid (edit i f s), bstate.more (edit i f s)) = (disksize s, curpid s, bstate.more s) \<and>
      holds (edit i f s) = holds s" if "length (f (content s n)) = BSIZE"
    using replaces_view [OF wf edit_replaces [where f = f, OF wf h that]] hd h dirty_in [OF wf, of i n]
    by (auto simp: fun_eq_iff holds_def caches_def)
  show "cache_wf (pin i s) \<and> content (pin i s) = content s \<and> disk (pin i s) = disk s \<and> writes (pin i s) = writes s \<and>
      dirty (pin i s) = insert n (dirty s) \<and> held (pin i s) = held s \<and>
      (disksize (pin i s), curpid (pin i s), bstate.more (pin i s)) = (disksize s, curpid s, bstate.more s) \<and> holds (pin i s) = holds s"
    using replaces_view [OF wf pin_replaces [OF wf h]] hd h by (auto simp: fun_eq_iff holds_def caches_def)
  show "\<exists>t. bwrite i s = Done t \<and> cache_wf t \<and> content t = content s \<and> disk t = (disk s)(n := content s n) \<and> writes t = writes s @ [(n, content s n)] \<and>
      dirty t = dirty s - {n} \<and> held t = held s \<and>
      (disksize t, curpid t, bstate.more t) = (disksize s, curpid s, bstate.more s) \<and> holds t = holds s"
    if lt: "n < fst (disksize s, curpid s, bstate.more s)"
  proof -
    obtain t where t: "bwrite i s = Done t" "replaces s i n ((bufs s ! i)\<lparr>b_dirty := False, b_valid := True\<rparr>) t"
      "disk t = (disk s)(n := content s n)" "writes t = writes s @ [(n, content s n)]" "same_env s t"
      using bwrite_replaces [OF wf h] lt by auto
    show ?thesis using t replaces_view [OF wf t(2)] hd h
      by (intro exI [of _ t]) (auto simp: fun_eq_iff holds_def caches_def same_env_def)
  qed
  show "\<exists>t. brelse i s = Done t \<and> cache_wf t \<and> content t = content s \<and> disk t = disk s \<and> writes t = writes s \<and> dirty t = dirty s \<and> held t = held s - {n} \<and>
      (disksize t, curpid t, bstate.more t) = (disksize s, curpid s, bstate.more s) \<and> (\<forall>j m. m \<noteq> n \<longrightarrow> holds s j m \<longrightarrow> holds t j m)"
    if co: "n \<in> dirty s \<or> content s n = disk s n"
  proof -
    obtain t where t: "brelse i s = Done t"
      "replaces s i n ((bufs s ! i)\<lparr>block_lock := \<lparr>sl_locked = False, sl_pid = 0\<rparr>, refcnt := 0\<rparr>) t" "disk t = disk s" "writes t = writes s" "same_env s t"
      using brelse_replaces [OF wf h co] by auto
    note v = replaces_view [OF wf t(2)]
    have "holds t j m" if "m \<noteq> n" "holds s j m" for j m using v(5) that holds_block [OF h] by auto
    moreover have "n \<in> dirty s \<longleftrightarrow> b_dirty (bufs s ! i)" using dirty_in [OF wf, of i n] hd h by (simp add: holds_def)
    ultimately show ?thesis using t v(1-4) hd by (intro exI [of _ t]) (auto simp: same_env_def)
  qed
qed

end
