(* ===== verification/Bytes.thy ===== *)
theory Bytes
  imports Prelude
begin

text \<open>
  Integers inside an array of bytes, little endian as on the i386: what a cast
  of \<^verbatim>\<open>b->data\<close> to a structure pointer reads and writes.  Every on-disk
  structure of the file system (log header, superblock, inode, directory
  entry, indirect block) is accessed with these.
\<close>

unbundle bit_operations_syntax

definition get16 :: "u8 list \<Rightarrow> nat \<Rightarrow> u16" where
  "get16 d k = ucast (d ! k) OR push_bit 8 (ucast (d ! Suc k))"

definition put16 :: "u8 list \<Rightarrow> nat \<Rightarrow> u16 \<Rightarrow> u8 list" where
  "put16 d k v = d[k := ucast v, Suc k := ucast (drop_bit 8 v)]"

definition get32 :: "u8 list \<Rightarrow> nat \<Rightarrow> u32" where
  "get32 d k = ucast (d ! k) OR push_bit 8 (ucast (d ! (k + 1))) OR push_bit 16 (ucast (d ! (k + 2)))
     OR push_bit 24 (ucast (d ! (k + 3)))"

definition put32 :: "u8 list \<Rightarrow> nat \<Rightarrow> u32 \<Rightarrow> u8 list" where
  "put32 d k v = d[k := ucast v, k + 1 := ucast (drop_bit 8 v), k + 2 := ucast (drop_bit 16 v), k + 3 := ucast (drop_bit 24 v)]"

text \<open>\<^verbatim>\<open>memmove\<close> into and out of the array.\<close>

definition put_bytes :: "u8 list \<Rightarrow> nat \<Rightarrow> u8 list \<Rightarrow> u8 list" where
  "put_bytes d k bs = take k d @ bs @ drop (k + length bs) d"

definition get_bytes :: "u8 list \<Rightarrow> nat \<Rightarrow> nat \<Rightarrow> u8 list" where
  "get_bytes d k n = take n (drop k d)"

lemma length_put [simp]: "length (put16 d k v) = length d" "length (put32 d k w) = length d"
  by (simp_all add: put16_def put32_def)

lemma length_put_bytes [simp]: "k + length bs \<le> length d \<Longrightarrow> length (put_bytes d k bs) = length d"
  by (simp add: put_bytes_def)

lemma length_get_bytes [simp]: "k + n \<le> length d \<Longrightarrow> length (get_bytes d k n) = n"
  by (simp add: get_bytes_def)

lemma get16_put16_same [simp]: "k + 2 \<le> length d \<Longrightarrow> get16 (put16 d k v) k = v"
proof (rule bit_word_eqI)
  fix n assume "n < LENGTH(16)" "k + 2 \<le> length d"
  then show "bit (get16 (put16 d k v) k) n = bit v n"
    by (cases "n < 8") (auto simp: get16_def put16_def bit_simps not_less)
qed

lemma get32_put32_same [simp]: "k + 4 \<le> length d \<Longrightarrow> get32 (put32 d k v) k = v"
proof (rule bit_word_eqI)
  fix n assume "n < LENGTH(32)" "k + 4 \<le> length d"
  then show "bit (get32 (put32 d k v) k) n = bit v n"
    by (cases "n < 8"; cases "n < 16"; cases "n < 24") (auto simp: get32_def put32_def bit_simps not_less)
qed

lemma nth_put32_other: "j < k \<or> k + 4 \<le> j \<Longrightarrow> put32 d k v ! j = d ! j"
  by (auto simp: put32_def)

lemma nth_put16_other: "j < k \<or> k + 2 \<le> j \<Longrightarrow> put16 d k v ! j = d ! j"
  by (auto simp: put16_def)

lemma get32_put32_other [simp]: "j + 4 \<le> k \<or> k + 4 \<le> j \<Longrightarrow> get32 (put32 d k v) j = get32 d j"
  by (auto simp: get32_def nth_put32_other)

lemma get16_put16_other [simp]: "j + 2 \<le> k \<or> k + 2 \<le> j \<Longrightarrow> get16 (put16 d k v) j = get16 d j"
  by (auto simp: get16_def nth_put16_other)

lemma get32_put16_other [simp]: "j + 4 \<le> k \<or> k + 2 \<le> j \<Longrightarrow> get32 (put16 d k v) j = get32 d j"
  by (auto simp: get32_def nth_put16_other)

lemma get16_put32_other [simp]: "j + 2 \<le> k \<or> k + 4 \<le> j \<Longrightarrow> get16 (put32 d k v) j = get16 d j"
  by (auto simp: get16_def nth_put32_other)

lemma get_put_bytes_same [simp]: "k + length bs \<le> length d \<Longrightarrow> get_bytes (put_bytes d k bs) k (length bs) = bs"
  by (simp add: get_bytes_def put_bytes_def)

lemma nth_put_bytes: "k + length bs \<le> length d \<Longrightarrow> j < length d \<Longrightarrow>
    put_bytes d k bs ! j = (if k \<le> j \<and> j < k + length bs then bs ! (j - k) else d ! j)"
  by (auto simp: put_bytes_def nth_append)

lemma nth_get_bytes [simp]: "k + n \<le> length d \<Longrightarrow> j < n \<Longrightarrow> get_bytes d k n ! j = d ! (k + j)"
  by (simp add: get_bytes_def)

text \<open>An array of 32-bit integers at offset \<open>k\<close>, written entry by entry.\<close>

definition put_array :: "u8 list \<Rightarrow> nat \<Rightarrow> u32 list \<Rightarrow> u8 list" where
  "put_array d k ws = fold (\<lambda>i d. put32 d (k + 4 * i) (ws ! i)) [0..<length ws] d"

definition get_array :: "u8 list \<Rightarrow> nat \<Rightarrow> nat \<Rightarrow> u32 list" where
  "get_array d k n = map (\<lambda>i. get32 d (k + 4 * i)) [0..<n]"

lemma fold_put32_length: "length (fold (\<lambda>i d. put32 d (k + 4 * i) (f i)) xs d) = length d"
  by (induction xs arbitrary: d) auto

lemma length_put_array [simp]: "length (put_array d k ws) = length d"
  by (simp add: put_array_def fold_put32_length)

lemma fold_put32_get:
  "k + 4 * n \<le> length d \<Longrightarrow> get32 (fold (\<lambda>i d. put32 d (k + 4 * i) (f i)) [0..<n] d) (k + 4 * j) =
     (if j < n then f j else get32 d (k + 4 * j))"
proof (induction n)
  case (Suc n)
  let ?d = "fold (\<lambda>i d. put32 d (k + 4 * i) (f i)) [0..<n] d"
  have L: "length ?d = length d" by (rule fold_put32_length)
  show ?case
  proof (cases "j = n")
    case True
    then show ?thesis using Suc.prems L by simp
  next
    case False
    then have "get32 (put32 ?d (k + 4 * n) (f n)) (k + 4 * j) = get32 ?d (k + 4 * j)"
      by (intro get32_put32_other) auto
    then show ?thesis using Suc False by auto
  qed
qed simp

lemma fold_put32_below: "j + 4 \<le> k \<Longrightarrow> get32 (fold (\<lambda>i d. put32 d (k + 4 * i) (f i)) xs d) j = get32 d j"
  by (induction xs arbitrary: d) auto

lemma get_put_array [simp]: "k + 4 * length ws \<le> length d \<Longrightarrow> get_array (put_array d k ws) k (length ws) = ws"
  by (rule nth_equalityI) (simp_all add: get_array_def put_array_def fold_put32_get)

lemma get32_put_array_below [simp]: "j + 4 \<le> k \<Longrightarrow> get32 (put_array d k ws) j = get32 d j"
  by (simp add: put_array_def fold_put32_below)

end
