(* ===== verification/Log.thy ===== *)
theory Log
  imports Bio Bytes
begin

text \<open>
  The redo log of the file system, \<^verbatim>\<open>log.c\<close>, with \<^verbatim>\<open>readsb\<close> of
  \<^verbatim>\<open>fs.c\<close>, which \<^verbatim>\<open>initlog\<close> calls.  The state extends the cache state
  by \<^verbatim>\<open>struct log\<close>; \<^verbatim>\<open>int\<close> fields are integers, block numbers are words.
  A routine that sleeps has the outcome \<open>Wait\<close>; the wake-ups, which change no
  field of this state, are left to the process model.
\<close>

subsection \<open>State\<close>

record superblock =
  sb_size :: u32
  sb_nblocks :: u32
  sb_ninodes :: u32
  sb_nlog :: u32
  sb_logstart :: u32
  sb_inodestart :: u32
  sb_bmapstart :: u32

record lstate = bstate +
  log_start :: u32
  log_size :: int
  outstanding :: int
  committing :: bool
  log_dev :: u32
  lh_n :: int
  lh_block :: "u32 list"

subsection \<open>Operations\<close>

definition sb_of :: "block \<Rightarrow> superblock" where
  "sb_of d = \<lparr>sb_size = get32 d 0, sb_nblocks = get32 d 4, sb_ninodes = get32 d 8, sb_nlog = get32 d 12,
     sb_logstart = get32 d 16, sb_inodestart = get32 d 20, sb_bmapstart = get32 d 24\<rparr>"

definition readsb :: "u32 \<Rightarrow> 'a bstate_scheme \<Rightarrow> ('a bstate_scheme \<times> superblock) outcome" where
  "readsb dev s =
     and_then (bread dev 1 s) (\<lambda>(s, b).
     let sb = sb_of (data_of s b) in
     and_then (brelse b s) (\<lambda>s. Done (s, sb)))"

definition install_one :: "nat \<Rightarrow> 'a lstate_scheme \<Rightarrow> 'a lstate_scheme outcome" where
  "install_one tail s =
     and_then (bread (log_dev s) (log_start s + of_nat tail + 1) s) (\<lambda>(s, lbuf).
     and_then (at_index (lh_block s) tail) (\<lambda>n.
     and_then (bread (log_dev s) n s) (\<lambda>(s, dbuf).
     and_then (bwrite dbuf (edit dbuf (\<lambda>_. data_of s lbuf) s)) (\<lambda>s.
     and_then (brelse lbuf s) (brelse dbuf)))))"

definition install_trans :: "'a lstate_scheme \<Rightarrow> 'a lstate_scheme outcome" where
  "install_trans s = each install_one [0..<nat (lh_n s)] s"

text \<open>The header block: \<^verbatim>\<open>n\<close> and then the block numbers.\<close>

definition read_head :: "'a lstate_scheme \<Rightarrow> 'a lstate_scheme outcome" where
  "read_head s =
     and_then (bread (log_dev s) (log_start s) s) (\<lambda>(s, b).
     let d = data_of s b; s = s\<lparr>lh_n := sint (get32 d 0)\<rparr>; n = nat (lh_n s) in
     if n > LOGSIZE then Fault
     else brelse b (s\<lparr>lh_block := get_array d 4 n @ drop n (lh_block s)\<rparr>))"

definition head_bytes :: "int \<Rightarrow> u32 list \<Rightarrow> block \<Rightarrow> block" where
  "head_bytes n bs d = put_array (put32 d 0 (word_of_int n)) 4 (take (nat n) bs)"

definition write_head :: "'a lstate_scheme \<Rightarrow> 'a lstate_scheme outcome" where
  "write_head s =
     and_then (bread (log_dev s) (log_start s) s) (\<lambda>(s, b).
     if nat (lh_n s) > LOGSIZE then Fault
     else and_then (bwrite b (edit b (head_bytes (lh_n s) (lh_block s)) s)) (brelse b))"

definition recover_from_log :: "'a lstate_scheme \<Rightarrow> 'a lstate_scheme outcome" where
  "recover_from_log s =
     and_then (read_head s) (\<lambda>s.
     and_then (install_trans s) (\<lambda>s.
     write_head (s\<lparr>lh_n := 0\<rparr>)))"

definition initlog :: "u32 \<Rightarrow> 'a lstate_scheme \<Rightarrow> 'a lstate_scheme outcome" where
  "initlog dev s =
     (if 4 + 4 * LOGSIZE \<ge> BSIZE then Panic ''initlog: too big logheader''
      else and_then (readsb dev s) (\<lambda>(s, sb).
           recover_from_log (s\<lparr>log_start := sb_logstart sb, log_size := sint (sb_nlog sb), log_dev := dev\<rparr>)))"

definition begin_op :: "'a lstate_scheme \<Rightarrow> 'a lstate_scheme outcome" where
  "begin_op s =
     (if committing s then Wait
      else if lh_n s + (outstanding s + 1) * int MAXOPBLOCKS > int LOGSIZE then Wait
      else Done (s\<lparr>outstanding := outstanding s + 1\<rparr>))"

definition write_log_one :: "nat \<Rightarrow> 'a lstate_scheme \<Rightarrow> 'a lstate_scheme outcome" where
  "write_log_one tail s =
     and_then (bread (log_dev s) (log_start s + of_nat tail + 1) s) (\<lambda>(s, to).
     and_then (at_index (lh_block s) tail) (\<lambda>n.
     and_then (bread (log_dev s) n s) (\<lambda>(s, from).
     and_then (bwrite to (edit to (\<lambda>_. data_of s from) s)) (\<lambda>s.
     and_then (brelse from s) (brelse to)))))"

definition write_log :: "'a lstate_scheme \<Rightarrow> 'a lstate_scheme outcome" where
  "write_log s = each write_log_one [0..<nat (lh_n s)] s"

definition commit :: "'a lstate_scheme \<Rightarrow> 'a lstate_scheme outcome" where
  "commit s =
     (if lh_n s > 0
      then and_then (write_log s) (\<lambda>s.
           and_then (write_head s) (\<lambda>s.
           and_then (install_trans s) (\<lambda>s.
           write_head (s\<lparr>lh_n := 0\<rparr>))))
      else Done s)"

definition end_op :: "'a lstate_scheme \<Rightarrow> 'a lstate_scheme outcome" where
  "end_op s =
     (let s = s\<lparr>outstanding := outstanding s - 1\<rparr> in
      if committing s then Panic ''log.committing''
      else if outstanding s = 0
      then and_then (commit (s\<lparr>committing := True\<rparr>)) (\<lambda>s. Done (s\<lparr>committing := False\<rparr>))
      else Done s)"

definition log_write :: "nat \<Rightarrow> 'a lstate_scheme \<Rightarrow> 'a lstate_scheme outcome" where
  "log_write b s =
     (if lh_n s \<ge> int LOGSIZE \<or> lh_n s \<ge> log_size s - 1 then Panic ''too big a transaction''
      else if outstanding s < 1 then Panic ''log_write outside of trans''
      else let n = blockno (bufs s ! b);
               i = (case find_index (\<lambda>m. m = n) (take (nat (lh_n s)) (lh_block s)) of
                      Some i \<Rightarrow> i | None \<Rightarrow> nat (lh_n s));
               s = s\<lparr>lh_block := (lh_block s)[i := n]\<rparr>;
               s = (if int i = lh_n s then s\<lparr>lh_n := lh_n s + 1\<rparr> else s)
           in Done (pin b s))"


subsection \<open>Sequences of disk writes\<close>

definition apply_writes :: "(u32 \<times> block) list \<Rightarrow> (u32 \<Rightarrow> block) \<Rightarrow> u32 \<Rightarrow> block" where
  "apply_writes W d = fold (\<lambda>(n, v) d. d(n := v)) W d"

lemma apply_writes_simps [simp]:
  "apply_writes [] d = d" "apply_writes ((n, v) # W) d = apply_writes W (d(n := v))"
  "apply_writes (V @ W) d = apply_writes W (apply_writes V d)"
  by (simp_all add: apply_writes_def)

lemma apply_writes_other: "n \<notin> fst ` set W \<Longrightarrow> apply_writes W d n = d n"
  by (induction W arbitrary: d) auto

lemma apply_writes_in: "distinct (map fst W) \<Longrightarrow> (n, v) \<in> set W \<Longrightarrow> apply_writes W d n = v"
proof (induction W arbitrary: d)
  case (Cons a W)
  then show ?case
    by (cases a) (auto simp: apply_writes_other)
qed simp

text \<open>\<open>wrote s W t\<close>: a routine took the quiescent state \<open>s\<close> to \<open>t\<close> by the write-through of \<open>W\<close>.\<close>

definition wrote :: "'a lstate_scheme \<Rightarrow> (u32 \<times> block) list \<Rightarrow> 'a lstate_scheme \<Rightarrow> bool" where
  "wrote s W t \<longleftrightarrow> cache_wf t \<and> held t = {} \<and> content t = apply_writes W (content s) \<and> disk t = apply_writes W (disk s) \<and>
     writes t = writes s @ W \<and> dirty t = dirty s - fst ` set W \<and> same_env s t"

lemma same_env_log:
  assumes "same_env s t"
  shows "log_start t = log_start s" "log_size t = log_size s" "outstanding t = outstanding s" "committing t = committing s"
    "log_dev t = log_dev s" "lh_n t = lh_n s" "lh_block t = lh_block s"
  using assms by (cases s; cases t; simp add: same_env_def)+

lemma same_env_trans: "same_env s t \<Longrightarrow> same_env t u \<Longrightarrow> same_env s u"
  by (simp add: same_env_def)

lemma wrote_append: "wrote s V t \<Longrightarrow> wrote t W u \<Longrightarrow> wrote s (V @ W) u"
  by (auto simp: wrote_def intro: same_env_trans)

lemma wrote_refl: "cache_wf s \<Longrightarrow> held s = {} \<Longrightarrow> wrote s [] s"
  by (simp add: wrote_def)

lemma each_wrote:
  assumes "cache_wf s" "held s = {}"
    and "\<And>i u. i < n \<Longrightarrow> wrote s (map w [0..<i]) u \<Longrightarrow> \<exists>v. f i u = Done v \<and> wrote u [w i] v"
  shows "\<exists>t. each f [0..<n] s = Done t \<and> wrote s (map w [0..<n]) t"
  using assms(3)
proof (induction n)
  case 0
  then show ?case using assms(1,2) by (simp add: wrote_refl)
next
  case (Suc n)
  have "\<exists>t. each f [0..<n] s = Done t \<and> wrote s (map w [0..<n]) t" using Suc by simp
  then obtain t where t: "each f [0..<n] s = Done t" "wrote s (map w [0..<n]) t" by auto
  obtain v where v: "f n t = Done v" "wrote t [w n] v" using Suc.prems [OF _ t(2)] by auto
  have "each f [0..<Suc n] s = Done v" using t(1) v(1) by (simp add: each_append)
  moreover have "wrote s (map w [0..<Suc n]) v" using wrote_append [OF t(2) v(2)] by simp
  ultimately show ?case by blast
qed

lemma bread_env: "bread dev n s = Done (t, i) \<Longrightarrow> same_env s t"
  by (auto simp: bread_def bget_def lock_buf_def iderw_def same_env_def Let_def outcome_simps split: option.splits if_splits prod.splits)

text \<open>Both copy loops read the block number from the header between the two reads.\<close>

lemma install_one_eq:
  assumes "tail < length (lh_block s)" "log_dev s = 1"
  shows "install_one tail s = and_then (bread 1 (log_start s + of_nat tail + 1) s) (\<lambda>(s', j). and_then (bread 1 (lh_block s ! tail) s') (\<lambda>(s', i).
      and_then (bwrite i (edit i (\<lambda>_. data_of s' j) s')) (\<lambda>s'. and_then (brelse j s') (brelse i))))"
  unfolding install_one_def assms(2)
proof (rule and_then_cong [OF refl], clarify)
  fix t j assume "bread 1 (log_start s + of_nat tail + 1) s = Done (t, j)"
  then have "same_env s t" by (rule bread_env)
  from same_env_log [OF this] show "and_then (at_index (lh_block t) tail) (\<lambda>n. and_then (bread (log_dev t) n t) (\<lambda>(s, dbuf).
      and_then (bwrite dbuf (edit dbuf (\<lambda>_. data_of s j) s)) (\<lambda>s. and_then (brelse j s) (brelse dbuf)))) =
    and_then (bread 1 (lh_block s ! tail) t) (\<lambda>(s', i).
      and_then (bwrite i (edit i (\<lambda>_. data_of s' j) s')) (\<lambda>s'. and_then (brelse j s') (brelse i)))"
    using assms by simp
qed

lemma write_log_one_eq:
  assumes "tail < length (lh_block s)" "log_dev s = 1"
  shows "write_log_one tail s = and_then (bread 1 (log_start s + of_nat tail + 1) s) (\<lambda>(s', i). and_then (bread 1 (lh_block s ! tail) s') (\<lambda>(s', j).
      and_then (bwrite i (edit i (\<lambda>_. data_of s' j) s')) (\<lambda>s'. and_then (brelse j s') (brelse i))))"
  unfolding write_log_one_def assms(2)
proof (rule and_then_cong [OF refl], clarify)
  fix t i assume "bread 1 (log_start s + of_nat tail + 1) s = Done (t, i)"
  then have "same_env s t" by (rule bread_env)
  from same_env_log [OF this] show "and_then (at_index (lh_block t) tail) (\<lambda>n. and_then (bread (log_dev t) n t) (\<lambda>(s, from).
      and_then (bwrite i (edit i (\<lambda>_. data_of s from) s)) (\<lambda>s. and_then (brelse from s) (brelse i)))) =
    and_then (bread 1 (lh_block s ! tail) t) (\<lambda>(s', j).
      and_then (bwrite i (edit i (\<lambda>_. data_of s' j) s')) (\<lambda>s'. and_then (brelse j s') (brelse i)))"
    using assms by simp
qed


subsection \<open>The log area and the transaction\<close>

definition logged :: "'a lstate_scheme \<Rightarrow> u32 list" where
  "logged s = take (nat (lh_n s)) (lh_block s)"

definition log_block :: "'a lstate_scheme \<Rightarrow> nat \<Rightarrow> u32" where
  "log_block s i = log_start s + of_nat i + 1"

definition log_area :: "'a lstate_scheme \<Rightarrow> u32 set" where
  "log_area s = {n. unat (log_start s) \<le> unat n \<and> unat n < unat (log_start s) + nat (log_size s)}"

definition log_ok :: "'a lstate_scheme \<Rightarrow> bool" where
  "log_ok s \<longleftrightarrow> log_dev s = 1 \<and> length (lh_block s) = LOGSIZE \<and> 0 < log_size s \<and> log_size s \<le> int LOGSIZE \<and>
     unat (log_start s) + nat (log_size s) \<le> unat (disksize s)"

definition home_ok :: "'a lstate_scheme \<Rightarrow> u32 list \<Rightarrow> bool" where
  "home_ok s B \<longleftrightarrow> (\<forall>n\<in>set B. n < disksize s \<and> n \<notin> log_area s)"

definition trans_ok :: "'a lstate_scheme \<Rightarrow> bool" where
  "trans_ok s \<longleftrightarrow> 0 \<le> lh_n s \<and> lh_n s < log_size s \<and> distinct (logged s) \<and> dirty s = set (logged s) \<and> home_ok s (logged s)"

lemma NBUF_LOGSIZE: "NBUF = LOGSIZE"
  by (simp add: layout_defs)

lemma logged_length: "log_ok s \<Longrightarrow> lh_n s \<le> log_size s \<Longrightarrow> length (logged s) = nat (lh_n s)"
  by (auto simp: logged_def log_ok_def min_def)

lemma log_block_unat:
  assumes "log_ok s" "int i + 1 < log_size s"
  shows "unat (log_block s i) = unat (log_start s) + i + 1"
proof -
  have "i + 1 < nat (log_size s)" using assms(2) by simp
  then have lt: "unat (log_start s) + i + 1 < 4294967296"
    using assms(1) unsigned_less [of "disksize s", where 'a = nat] by (auto simp: log_ok_def)
  have i: "unat (of_nat i + 1 :: u32) = i + 1"
  proof -
    have "of_nat i + 1 = (of_nat (i + 1) :: u32)" by simp
    moreover have "unat (of_nat (i + 1) :: u32) = i + 1" using lt by (subst unat_of_nat) simp
    ultimately show ?thesis by presburger
  qed
  show ?thesis using unat_add_32 [of "log_start s" "of_nat i + 1"] i lt by (simp add: log_block_def add.assoc)
qed

lemma log_block_in:
  assumes "log_ok s" "int i + 1 < log_size s"
  shows "log_block s i \<in> log_area s" "log_block s i < disksize s" "log_block s i \<noteq> log_start s"
proof -
  note u = log_block_unat [OF assms]
  have "i + 1 < nat (log_size s)" using assms(2) by simp
  then show "log_block s i \<in> log_area s" "log_block s i < disksize s"
    using u assms(1) by (auto simp: log_area_def word_less_nat_alt log_ok_def)
  show "log_block s i \<noteq> log_start s" using u by auto
qed

lemma log_block_inj:
  assumes "log_ok s" "int i + 1 < log_size s" "int j + 1 < log_size s" "log_block s i = log_block s j"
  shows "i = j"
  using log_block_unat [OF assms(1,2)] log_block_unat [OF assms(1,3)] unfolding assms(4) by linarith

lemma log_start_in: "log_ok s \<Longrightarrow> log_start s \<in> log_area s \<and> log_start s < disksize s"
  by (auto simp: log_area_def log_ok_def word_less_nat_alt)

lemma wrote_same:
  assumes "wrote s W u"
  shows "log_start u = log_start s" "log_dev u = log_dev s" "lh_n u = lh_n s" "lh_block u = lh_block s" "disksize u = disksize s"
    "cache_wf u" "held u = {}" "dirty u = dirty s - fst ` set W" "log_size u = log_size s" "outstanding u = outstanding s"
    "committing u = committing s" "disk u = apply_writes W (disk s)" "content u = apply_writes W (content s)" "writes u = writes s @ W"
  using assms same_env_log [of s u] by (auto simp: wrote_def same_env_def)

definition install_writes :: "'a lstate_scheme \<Rightarrow> (u32 \<times> block) list" where
  "install_writes s = map (\<lambda>i. (lh_block s ! i, content s (log_block s i))) [0..<nat (lh_n s)]"

definition log_writes :: "'a lstate_scheme \<Rightarrow> (u32 \<times> block) list" where
  "log_writes s = map (\<lambda>i. (log_block s i, content s (lh_block s ! i))) [0..<nat (lh_n s)]"

lemma logged_nth: "i < nat (lh_n s) \<Longrightarrow> nat (lh_n s) \<le> length (lh_block s) \<Longrightarrow> lh_block s ! i \<in> set (logged s)"
  unfolding logged_def by (metis length_take min.absorb2 nth_mem nth_take)

lemma install_trans_wrote:
  assumes wf: "cache_wf s" "held s = {}" "log_ok s" and n: "lh_n s < log_size s"
    and home: "home_ok s (logged s)" and clean: "dirty s \<inter> log_area s = {}"
    and room: "distinct (logged s) \<and> set (logged s) \<subseteq> dirty s \<and> card (dirty s) < NBUF \<or> dirty s = {}"
  shows "\<exists>t. install_trans s = Done t \<and> wrote s (install_writes s) t"
  unfolding install_trans_def install_writes_def
proof (rule each_wrote [OF wf(1,2)])
  fix i u
  assume i: "i < nat (lh_n s)" and w: "wrote s (map (\<lambda>i. (lh_block s ! i, content s (log_block s i))) [0..<i]) u"
  let ?src = "log_block s i" and ?dst = "lh_block s ! i"
  note u = wrote_same [OF w]
  have len: "i < length (lh_block u)" "log_dev u = 1" "nat (lh_n s) \<le> length (lh_block s)" using wf(3) i n u by (auto simp: log_ok_def)
  have lt: "int i + 1 < log_size s" using i n by simp
  note lb = log_block_in [OF wf(3) lt]
  have dst: "?dst < disksize s" "?dst \<notin> log_area s" using home logged_nth [OF i len(3)] by (auto simp: home_ok_def)
  have "finite (dirty s)" using finite_pinned [of s] by simp
  then have card: "card (dirty u) \<le> card (dirty s)" unfolding u(8) by (intro card_mono) auto
  have "NBUF > 1" by (simp add: layout_defs)
  have src: "?src \<notin> dirty u" using clean lb(1) u(8) by auto
  have dst_in: "?dst \<in> dirty u \<or> card (insert ?src (dirty u)) < NBUF"
  proof (cases "dirty s = {}")
    case True
    then show ?thesis using u(8) \<open>NBUF > 1\<close> by simp
  next
    case False
    then have r: "distinct (logged s)" "set (logged s) \<subseteq> dirty s" using room by auto
    have "?dst \<noteq> lh_block s ! j" if "j < i" for j
      using r(1) that i len(3) by (auto simp: logged_def distinct_conv_nth)
    then show ?thesis using r(2) logged_nth [OF i len(3)] u(8) by force
  qed
  have "?src \<notin> fst ` set (map (\<lambda>i. (lh_block s ! i, content s (log_block s i))) [0..<i])"
    using lb(1) home logged_nth [of _ s] len(3) i by (force simp: home_ok_def)
  then have "content u ?src = content s ?src" by (simp add: u(13) apply_writes_other)
  moreover have eq: "install_one i u = and_then (bread 1 ?src u) (\<lambda>(s', j). and_then (bread 1 ?dst s') (\<lambda>(s', i).
      and_then (bwrite i (edit i (\<lambda>_. data_of s' j) s')) (\<lambda>s'. and_then (brelse j s') (brelse i))))"
    using install_one_eq [OF len(1,2)] unfolding u(1,4) log_block_def .
  moreover have "?dst \<noteq> ?src" "card (dirty u) < NBUF" using dst(2) lb(1) card room \<open>NBUF > 1\<close> by auto
  ultimately show "\<exists>v. install_one i u = Done v \<and> wrote u [(?dst, content s ?src)] v"
    using bc.copy_to_second [OF u(6,7), of ?dst ?src] dst(1) lb(2) dst_in u(5) unfolding eq
    by (auto simp: wrote_def same_env_def)
qed


lemma write_log_wrote:
  assumes wf: "cache_wf s" "held s = {}" "log_ok s" and tr: "trans_ok s"
  shows "\<exists>t. write_log s = Done t \<and> wrote s (log_writes s) t"
  unfolding write_log_def log_writes_def
proof (rule each_wrote [OF wf(1,2)])
  fix i u
  assume i: "i < nat (lh_n s)" and w: "wrote s (map (\<lambda>i. (log_block s i, content s (lh_block s ! i))) [0..<i]) u"
  let ?dst = "log_block s i" and ?src = "lh_block s ! i"
  note u = wrote_same [OF w]
  have n: "lh_n s < log_size s" "nat (lh_n s) \<le> length (lh_block s)" using tr wf(3) by (auto simp: trans_ok_def log_ok_def)
  have len: "i < length (lh_block u)" "log_dev u = 1" using wf(3) i n u by (auto simp: log_ok_def)
  have lt: "int j + 1 < log_size s" if "j \<le> i" for j using i n that by simp
  note lb = log_block_in [OF wf(3) lt]
  have src: "?src < disksize s" "?src \<notin> log_area s" "?src \<in> dirty s"
    using tr logged_nth [OF i n(2)] by (auto simp: trans_ok_def home_ok_def)
  have ne: "?src \<noteq> log_block s j" if "j \<le> i" for j using lb(1) [OF that] src(2) by auto
  have "?src \<notin> fst ` set (map (\<lambda>i. (log_block s i, content s (lh_block s ! i))) [0..<i])"
  proof
    assume "?src \<in> fst ` set (map (\<lambda>i. (log_block s i, content s (lh_block s ! i))) [0..<i])"
    then obtain j where "j < i" "?src = log_block s j" by auto
    then show False using ne [of j] by simp
  qed
  then have src_u: "?src \<in> dirty u" "content u ?src = content s ?src"
    unfolding u(8,13) using src(3) by (blast, intro apply_writes_other)
  have "card (dirty s) < NBUF"
    using card_length [of "logged s"] logged_length [OF wf(3)] tr wf(3) by (auto simp: trans_ok_def NBUF_LOGSIZE log_ok_def)
  moreover have "card (dirty u) \<le> card (dirty s)" unfolding u(8) using finite_pinned [of s] by (intro card_mono) auto
  ultimately have card: "card (dirty u) < NBUF" by simp
  have eq: "write_log_one i u = and_then (bread 1 ?dst u) (\<lambda>(s', i). and_then (bread 1 ?src s') (\<lambda>(s', j).
      and_then (bwrite i (edit i (\<lambda>_. data_of s' j) s')) (\<lambda>s'. and_then (brelse j s') (brelse i))))"
    using write_log_one_eq [OF len(1,2)] unfolding u(1,4) log_block_def .
  show "\<exists>v. write_log_one i u = Done v \<and> wrote u [(?dst, content s ?src)] v"
    using bc.copy_to_first [OF u(6,7), of ?dst ?src] ne [of i] src(1) lb(2) [of i] src_u card u(5) unfolding eq
    by (auto simp: wrote_def same_env_def)
qed

lemma length_head_bytes [simp]: "length (head_bytes n bs d) = length d"
  by (simp add: head_bytes_def)

lemma write_head_wrote:
  assumes wf: "cache_wf s" "held s = {}" "log_ok s" and n: "lh_n s < log_size s" and room: "card (dirty s) < NBUF"
  shows "\<exists>t. write_head s = Done t \<and> wrote s [(log_start s, head_bytes (lh_n s) (lh_block s) (content s (log_start s)))] t"
proof -
  let ?f = "head_bytes (lh_n s) (lh_block s)"
  have "\<not> nat (lh_n s) > LOGSIZE" using wf(3) n by (auto simp: log_ok_def)
  then have eq: "write_head s = and_then (bread 1 (log_start s) s) (\<lambda>(t, i). and_then (bwrite i (edit i ?f t)) (brelse i))"
    unfolding write_head_def using wf(3)
    by (auto simp: log_ok_def same_env_log dest!: bread_env intro!: and_then_cong)
  show ?thesis
    using bc.rewrite_block [OF wf(1,2), of "log_start s" ?f] log_start_in [OF wf(3)] room bc.content_length [OF wf(1)]
    unfolding eq by (auto simp: wrote_def same_env_def)
qed

lemma log_field_updates [simp]:
  "cache_wf (s\<lparr>lh_n := a\<rparr>) = cache_wf s" "held (s\<lparr>lh_n := a\<rparr>) = held s" "dirty (s\<lparr>lh_n := a\<rparr>) = dirty s"
  "content (s\<lparr>lh_n := a\<rparr>) = content s"
  "holds (s\<lparr>lh_n := a\<rparr>) = holds s" "holds (s\<lparr>lh_block := b\<rparr>) = holds s"
  "cache_wf (s\<lparr>lh_block := b\<rparr>) = cache_wf s" "held (s\<lparr>lh_block := b\<rparr>) = held s" "dirty (s\<lparr>lh_block := b\<rparr>) = dirty s"
  "content (s\<lparr>lh_block := b\<rparr>) = content s"
  "cache_wf (s\<lparr>outstanding := c\<rparr>) = cache_wf s" "held (s\<lparr>outstanding := c\<rparr>) = held s" "dirty (s\<lparr>outstanding := c\<rparr>) = dirty s"
  "content (s\<lparr>outstanding := c\<rparr>) = content s"
  "cache_wf (s\<lparr>committing := d\<rparr>) = cache_wf s" "held (s\<lparr>committing := d\<rparr>) = held s" "dirty (s\<lparr>committing := d\<rparr>) = dirty s"
  "content (s\<lparr>committing := d\<rparr>) = content s"
  "cache_wf (s\<lparr>log_start := e\<rparr>) = cache_wf s" "held (s\<lparr>log_start := e\<rparr>) = held s" "dirty (s\<lparr>log_start := e\<rparr>) = dirty s"
  "content (s\<lparr>log_start := e\<rparr>) = content s"
  "cache_wf (s\<lparr>log_size := f\<rparr>) = cache_wf s" "held (s\<lparr>log_size := f\<rparr>) = held s" "dirty (s\<lparr>log_size := f\<rparr>) = dirty s"
  "content (s\<lparr>log_size := f\<rparr>) = content s"
  "cache_wf (s\<lparr>log_dev := g\<rparr>) = cache_wf s" "held (s\<lparr>log_dev := g\<rparr>) = held s" "dirty (s\<lparr>log_dev := g\<rparr>) = dirty s"
  "content (s\<lparr>log_dev := g\<rparr>) = content s"
  by (auto simp: cache_wf_def held_def holds_def dirty_def content_def linked_def fun_eq_iff split: option.split)

subsection \<open>Commit\<close>

definition home_writes :: "'a lstate_scheme \<Rightarrow> (u32 \<times> block) list" where
  "home_writes s = map (\<lambda>n. (n, content s n)) (logged s)"

definition full_head :: "'a lstate_scheme \<Rightarrow> block" where
  "full_head s = head_bytes (lh_n s) (lh_block s) (content s (log_start s))"

definition empty_head :: "'a lstate_scheme \<Rightarrow> block" where
  "empty_head s = head_bytes 0 (lh_block s) (full_head s)"

definition commit_writes :: "'a lstate_scheme \<Rightarrow> (u32 \<times> block) list" where
  "commit_writes s = log_writes s @ [(log_start s, full_head s)] @ home_writes s @ [(log_start s, empty_head s)]"

lemma wrote_ok:
  assumes "wrote s W t" "log_ok s"
  shows "log_ok t" "log_block t i = log_block s i" "log_area t = log_area s" "logged t = logged s" "home_ok t B = home_ok s B"
  using assms wrote_same [OF assms(1)] by (simp_all add: log_ok_def log_block_def log_area_def logged_def home_ok_def)

lemma trans_card: "log_ok s \<Longrightarrow> trans_ok s \<Longrightarrow> card (dirty s) < NBUF"
  using card_length [of "logged s"] logged_length [of s] by (auto simp: trans_ok_def NBUF_LOGSIZE log_ok_def)

lemma wrote_lh_n: "wrote s W t \<Longrightarrow> wrote (s\<lparr>lh_n := a\<rparr>) W (t\<lparr>lh_n := a\<rparr>)"
proof -
  have "same_env s t \<Longrightarrow> same_env (s\<lparr>lh_n := a\<rparr>) (t\<lparr>lh_n := a\<rparr>)"
    by (cases s; cases t) (simp add: same_env_def)
  then show "wrote s W t \<Longrightarrow> wrote (s\<lparr>lh_n := a\<rparr>) W (t\<lparr>lh_n := a\<rparr>)" by (simp add: wrote_def)
qed

lemma commit_performs:
  assumes wf: "cache_wf s" "held s = {}" "log_ok s" and tr: "trans_ok s" and pos: "0 < lh_n s"
  shows "\<exists>t. commit s = Done t \<and> wrote (s\<lparr>lh_n := 0\<rparr>) (commit_writes s) t"
proof -
  let ?n = "nat (lh_n s)"
  have n: "lh_n s < log_size s" "?n \<le> length (lh_block s)" using tr wf(3) by (auto simp: trans_ok_def log_ok_def)
  have lt: "int j + 1 < log_size s" if "j < ?n" for j using n that by simp
  have home: "m \<notin> log_area s" if "m \<in> set (logged s)" for m using tr that by (auto simp: trans_ok_def home_ok_def)
  obtain a where a: "write_log s = Done a" "wrote s (log_writes s) a" using write_log_wrote [OF wf tr] by auto
  note sa = wrote_same [OF a(2)] and oa = wrote_ok [OF a(2) wf(3)]
  have lw: "fst ` set (log_writes s) = log_block s ` {..<?n}" by (force simp: log_writes_def)
  have "log_block s ` {..<?n} \<inter> dirty s = {}" using log_block_in(1) [OF wf(3) lt] home tr by (auto simp: trans_ok_def)
  then have da: "dirty a = dirty s" using sa(8) lw by auto
  have "log_start s \<notin> fst ` set (log_writes s)" using log_block_in(3) [OF wf(3) lt] unfolding lw by force
  then have ha: "content a (log_start s) = content s (log_start s)" by (simp add: sa(13) apply_writes_other)
  obtain b where b: "write_head a = Done b" "wrote a [(log_start s, full_head s)] b"
    using write_head_wrote [OF sa(6,7) oa(1)] n(1) trans_card [OF wf(3) tr] da ha sa by (auto simp: full_head_def)
  note ab = wrote_append [OF a(2) b(2)] note sb = wrote_same [OF ab] and ob = wrote_ok [OF ab wf(3)]
  have start: "log_start s \<notin> dirty s" using log_start_in [OF wf(3)] home tr by (auto simp: trans_ok_def)
  have db: "dirty b = dirty s" using wrote_same(8) [OF b(2)] da start by simp
  have inst: "install_writes b = home_writes s"
  proof -
    have "content b (log_block s i) = content s (lh_block s ! i)" if i: "i < ?n" for i
    proof -
      have "distinct (map fst (log_writes s))"
        using log_block_inj [OF wf(3) lt lt] by (auto simp: log_writes_def comp_def distinct_map inj_on_def)
      moreover have "(log_block s i, content s (lh_block s ! i)) \<in> set (log_writes s)" using i by (auto simp: log_writes_def)
      ultimately show ?thesis using log_block_in(3) [OF wf(3) lt [OF i]] apply_writes_in sb(13) by simp
    qed
    then have "install_writes b = map (\<lambda>i. (lh_block s ! i, content s (lh_block s ! i))) [0..<?n]"
      unfolding install_writes_def by (simp add: sb ob)
    also have "\<dots> = home_writes s" using n(2)
      by (intro nth_equalityI) (auto simp: home_writes_def logged_def)
    finally show ?thesis .
  qed
  have "lh_n b < log_size b" "home_ok b (logged b)" "dirty b \<inter> log_area b = {}"
    "distinct (logged b) \<and> set (logged b) \<subseteq> dirty b \<and> card (dirty b) < NBUF"
    using n(1) tr db home trans_card [OF wf(3) tr] sb ob by (auto simp: trans_ok_def)
  then obtain c where c: "install_trans b = Done c" "wrote b (home_writes s) c"
    using install_trans_wrote [OF sb(6,7) ob(1)] inst by auto
  note abc = wrote_append [OF ab c(2)] note sc = wrote_same [OF abc]
  let ?c = "c\<lparr>lh_n := 0\<rparr>"
  have oc: "log_ok ?c" using wrote_ok(1) [OF abc wf(3)] by (simp add: log_ok_def)
  have "log_start s \<notin> fst ` set (home_writes s)" using log_start_in [OF wf(3)] home by (auto simp: home_writes_def)
  then have hc: "content c (log_start s) = full_head s" by (simp add: wrote_same(13) [OF c(2)] apply_writes_other wrote_same(13) [OF b(2)])
  have "card (dirty c) < NBUF" using wrote_same(8) [OF c(2)] db trans_card [OF wf(3) tr]
    by (metis finite_pinned Diff_subset card_mono finite_Un le_less_trans)
  then have "\<exists>e. write_head ?c = Done e \<and> wrote ?c [(log_start ?c, head_bytes (lh_n ?c) (lh_block ?c) (content ?c (log_start ?c)))] e"
    using oc sc(6,7) by (intro write_head_wrote) (simp_all add: log_ok_def)
  then obtain e where e: "write_head ?c = Done e" "wrote ?c [(log_start s, empty_head s)] e"
    using hc sc(1,4) by (auto simp: empty_head_def)
  have "wrote (s\<lparr>lh_n := 0\<rparr>) ((log_writes s @ [(log_start s, full_head s)]) @ home_writes s) ?c"
    using wrote_lh_n [OF abc] .
  from wrote_append [OF this e(2)] show ?thesis
    using a(1) b(1) c(1) e(1) pos by (auto simp: commit_def commit_writes_def)
qed

end
