(* ===== verification/Fs.thy ===== *)
theory Fs
  imports Log Cstring
begin

text \<open>
  The file system proper, \<^verbatim>\<open>fs.c\<close>: block allocation, the inode cache, file
  contents, directories and path names.  Pointers into \<^verbatim>\<open>icache.inode\<close> are
  indices; a null pointer that a routine may return is \<open>None\<close>.  The on-disk
  structures are read from and written to the bytes of a block at the offsets
  the C structures have on the i386.

  \<^verbatim>\<open>devsw\<close> is an argument of the routines that call through it, because the
  device routines in turn call \<^verbatim>\<open>ilock\<close> and \<^verbatim>\<open>iunlock\<close>.  A routine that
  copies into a caller's buffer returns the bytes it copies.
\<close>

unbundle bit_operations_syntax

subsection \<open>Constants and state\<close>

definition NDIRECT :: nat where [layout_defs]: "NDIRECT = 12"
definition NINDIRECT :: nat where [layout_defs]: "NINDIRECT = BSIZE div 4"
definition MAXFILE :: nat where [layout_defs]: "MAXFILE = NDIRECT + NINDIRECT"
definition DINODE_SIZE :: nat where [layout_defs]: "DINODE_SIZE = 64"
definition IPB :: nat where [layout_defs]: "IPB = BSIZE div DINODE_SIZE"
definition BPB :: nat where [layout_defs]: "BPB = BSIZE * 8"
definition DIRSIZ :: nat where [layout_defs]: "DIRSIZ = 14"
definition DIRENT_SIZE :: nat where [layout_defs]: "DIRENT_SIZE = 16"
definition ROOTINO :: u32 where "ROOTINO = 1"
definition T_DIR :: u16 where "T_DIR = 1"
definition T_FILE :: u16 where "T_FILE = 2"
definition T_DEV :: u16 where "T_DEV = 3"

record dinode =
  di_type :: u16
  di_major :: u16
  di_minor :: u16
  di_nlink :: u16
  di_size :: u32
  di_addrs :: "u32 list"

record inode =
  idev :: u32
  inum :: u32
  iref :: int
  ilk :: sleeplock
  ivalid :: bool
  itype :: u16
  imajor :: u16
  iminor :: u16
  inlink :: u16
  isize :: u32
  iaddrs :: "u32 list"

record stat =
  st_type :: u16
  st_dev :: u32
  st_ino :: u32
  st_nlink :: u16
  st_size :: u32

record dirent =
  de_inum :: u16
  de_name :: "u8 list"

record fstate = lstate +
  sb :: superblock
  inodes :: "inode list"

abbreviation set_inode :: "nat \<Rightarrow> (inode \<Rightarrow> inode) \<Rightarrow> 'a fstate_scheme \<Rightarrow> 'a fstate_scheme" where
  "set_inode i f s \<equiv> s\<lparr>inodes := upd_at i f (inodes s)\<rparr>"

text \<open>\<^verbatim>\<open>struct devsw\<close>: the read and write routine of each major number, where there is one.\<close>

record 's devsw =
  dev_read :: "int \<Rightarrow> (nat \<Rightarrow> u32 \<Rightarrow> 's \<Rightarrow> ('s \<times> int \<times> u8 list) outcome) option"
  dev_write :: "int \<Rightarrow> (nat \<Rightarrow> u8 list \<Rightarrow> u32 \<Rightarrow> 's \<Rightarrow> ('s \<times> int) outcome) option"

definition IBLOCK :: "u32 \<Rightarrow> superblock \<Rightarrow> u32" where
  "IBLOCK i b = i div of_nat IPB + sb_inodestart b"

definition BBLOCK :: "u32 \<Rightarrow> superblock \<Rightarrow> u32" where
  "BBLOCK n b = n div of_nat BPB + sb_bmapstart b"

subsection \<open>Blocks\<close>

definition bzero :: "u32 \<Rightarrow> u32 \<Rightarrow> 'a fstate_scheme \<Rightarrow> 'a fstate_scheme outcome" where
  "bzero dev bno s =
     and_then (bread dev bno s) (\<lambda>(s, bp).
     and_then (log_write bp (edit bp (\<lambda>d. replicate BSIZE 0) s)) (brelse bp))"

definition bit_free :: "block \<Rightarrow> nat \<Rightarrow> bool" where
  "bit_free d bi \<longleftrightarrow> d ! (bi div 8) AND push_bit (bi mod 8) 1 = 0"

definition mark_used :: "nat \<Rightarrow> block \<Rightarrow> block" where
  "mark_used bi d = d[bi div 8 := d ! (bi div 8) OR push_bit (bi mod 8) 1]"

definition mark_free :: "nat \<Rightarrow> block \<Rightarrow> block" where
  "mark_free bi d = d[bi div 8 := d ! (bi div 8) AND NOT (push_bit (bi mod 8) 1)]"

text \<open>One bitmap block per iteration: \<open>b = k * BPB\<close>.\<close>

fun balloc_loop :: "u32 \<Rightarrow> nat list \<Rightarrow> 'a fstate_scheme \<Rightarrow> ('a fstate_scheme \<times> u32) outcome" where
  "balloc_loop dev [] s = Panic ''balloc: out of blocks''"
| "balloc_loop dev (k # ks) s =
     (let b = k * BPB in
      and_then (bread dev (BBLOCK (of_nat b) (sb s)) s) (\<lambda>(s, bp).
      case find (bit_free (data_of s bp)) [0..<min BPB (unat (sb_size (sb s)) - b)] of
        Some bi \<Rightarrow>
          and_then (log_write bp (edit bp (mark_used bi) s)) (\<lambda>s.
          and_then (brelse bp s) (\<lambda>s.
          and_then (bzero dev (of_nat (b + bi)) s) (\<lambda>s.
          Done (s, of_nat (b + bi)))))
      | None \<Rightarrow> and_then (brelse bp s) (balloc_loop dev ks)))"

definition balloc :: "u32 \<Rightarrow> 'a fstate_scheme \<Rightarrow> ('a fstate_scheme \<times> u32) outcome" where
  "balloc dev s = balloc_loop dev [0..<(unat (sb_size (sb s)) + BPB - 1) div BPB] s"

definition bfree :: "u32 \<Rightarrow> u32 \<Rightarrow> 'a fstate_scheme \<Rightarrow> 'a fstate_scheme outcome" where
  "bfree dev b s =
     and_then (readsb dev s) (\<lambda>(s, sb').
     let s = s\<lparr>sb := sb'\<rparr> in
     and_then (bread dev (BBLOCK b (sb s)) s) (\<lambda>(s, bp).
     let bi = unat b mod BPB in
     if bit_free (data_of s bp) bi then Panic ''freeing free block''
     else and_then (log_write bp (edit bp (mark_free bi) s)) (brelse bp)))"

subsection \<open>Inodes on the disk\<close>

definition dinode_of :: "block \<Rightarrow> nat \<Rightarrow> dinode" where
  "dinode_of d k = \<lparr>di_type = get16 d k, di_major = get16 d (k + 2), di_minor = get16 d (k + 4), di_nlink = get16 d (k + 6),
     di_size = get32 d (k + 8), di_addrs = get_array d (k + 12) (NDIRECT + 1)\<rparr>"

definition put_dinode :: "dinode \<Rightarrow> nat \<Rightarrow> block \<Rightarrow> block" where
  "put_dinode di k d = put_array (put32 (put16 (put16 (put16 (put16 d k (di_type di)) (k + 2) (di_major di)) (k + 4) (di_minor di))
     (k + 6) (di_nlink di)) (k + 8) (di_size di)) (k + 12) (di_addrs di)"

definition dinode_offset :: "u32 \<Rightarrow> nat" where
  "dinode_offset i = (unat i mod IPB) * DINODE_SIZE"

subsection \<open>The inode cache\<close>

definition iinit :: "u32 \<Rightarrow> 'a fstate_scheme \<Rightarrow> 'a fstate_scheme outcome" where
  "iinit dev s =
     (let s = s\<lparr>inodes := map (\<lambda>ip. ip\<lparr>ilk := initsleeplock\<rparr>) (inodes s)\<rparr> in
      and_then (readsb dev s) (\<lambda>(s, sb'). Done (s\<lparr>sb := sb'\<rparr>)))"

definition iget :: "u32 \<Rightarrow> u32 \<Rightarrow> 'a fstate_scheme \<Rightarrow> ('a fstate_scheme \<times> nat) outcome" where
  "iget dev n s =
     (case find_index (\<lambda>ip. iref ip > 0 \<and> idev ip = dev \<and> inum ip = n) (inodes s) of
        Some i \<Rightarrow> Done (set_inode i (\<lambda>ip. ip\<lparr>iref := iref ip + 1\<rparr>) s, i)
      | None \<Rightarrow>
          (case find_index (\<lambda>ip. iref ip = 0) (inodes s) of
             None \<Rightarrow> Panic ''iget: no inodes''
           | Some i \<Rightarrow> Done (set_inode i (\<lambda>ip. ip\<lparr>idev := dev, inum := n, iref := 1, ivalid := False\<rparr>) s, i)))"

fun ialloc_loop :: "u32 \<Rightarrow> u16 \<Rightarrow> nat list \<Rightarrow> 'a fstate_scheme \<Rightarrow> ('a fstate_scheme \<times> nat) outcome" where
  "ialloc_loop dev ty [] s = Panic ''ialloc: no inodes''"
| "ialloc_loop dev ty (n # ns) s =
     (let k = dinode_offset (of_nat n) in
      and_then (bread dev (IBLOCK (of_nat n) (sb s)) s) (\<lambda>(s, bp).
      if get16 (data_of s bp) k = 0
      then let s = edit bp (\<lambda>d. put16 (put_bytes d k (replicate DINODE_SIZE 0)) k ty) s in
           and_then (log_write bp s) (\<lambda>s.
           and_then (brelse bp s) (iget dev (of_nat n)))
      else and_then (brelse bp s) (ialloc_loop dev ty ns)))"

definition ialloc :: "u32 \<Rightarrow> u16 \<Rightarrow> 'a fstate_scheme \<Rightarrow> ('a fstate_scheme \<times> nat) outcome" where
  "ialloc dev ty s = ialloc_loop dev ty [1..<unat (sb_ninodes (sb s))] s"

definition dinode_view :: "inode \<Rightarrow> dinode" where
  "dinode_view ip = \<lparr>di_type = itype ip, di_major = imajor ip, di_minor = iminor ip, di_nlink = inlink ip, di_size = isize ip,
     di_addrs = iaddrs ip\<rparr>"

definition iupdate :: "nat \<Rightarrow> 'a fstate_scheme \<Rightarrow> 'a fstate_scheme outcome" where
  "iupdate i s =
     (let ip = inodes s ! i in
      and_then (bread (idev ip) (IBLOCK (inum ip) (sb s)) s) (\<lambda>(s, bp).
      and_then (log_write bp (edit bp (put_dinode (dinode_view ip) (dinode_offset (inum ip))) s)) (brelse bp)))"

definition idup :: "nat \<Rightarrow> 'a fstate_scheme \<Rightarrow> 'a fstate_scheme" where
  "idup i s = set_inode i (\<lambda>ip. ip\<lparr>iref := iref ip + 1\<rparr>) s"

definition load_inode :: "dinode \<Rightarrow> inode \<Rightarrow> inode" where
  "load_inode d ip = ip\<lparr>itype := di_type d, imajor := di_major d, iminor := di_minor d, inlink := di_nlink d, isize := di_size d,
     iaddrs := di_addrs d\<rparr>"

definition ilock :: "nat \<Rightarrow> 'a fstate_scheme \<Rightarrow> 'a fstate_scheme outcome" where
  "ilock i s =
     (if iref (inodes s ! i) < 1 then Panic ''ilock''
      else and_then (acquiresleep (curpid s) (ilk (inodes s ! i))) (\<lambda>lk.
           let s = set_inode i (\<lambda>ip. ip\<lparr>ilk := lk\<rparr>) s; ip = inodes s ! i in
           if \<not> ivalid ip
           then and_then (bread (idev ip) (IBLOCK (inum ip) (sb s)) s) (\<lambda>(s, bp).
                let s = set_inode i (load_inode (dinode_of (data_of s bp) (dinode_offset (inum ip)))) s in
                and_then (brelse bp s) (\<lambda>s.
                let s = set_inode i (\<lambda>ip. ip\<lparr>ivalid := True\<rparr>) s in
                if itype (inodes s ! i) = 0 then Panic ''ilock: no type'' else Done s))
           else Done s))"

definition iunlock :: "nat \<Rightarrow> 'a fstate_scheme \<Rightarrow> 'a fstate_scheme outcome" where
  "iunlock i s =
     (if \<not> holdingsleep (ilk (inodes s ! i)) \<or> iref (inodes s ! i) < 1 then Panic ''iunlock''
      else Done (set_inode i (\<lambda>ip. ip\<lparr>ilk := releasesleep (ilk ip)\<rparr>) s))"


subsection \<open>Inode content\<close>

definition bmap :: "nat \<Rightarrow> u32 \<Rightarrow> 'a fstate_scheme \<Rightarrow> ('a fstate_scheme \<times> u32) outcome" where
  "bmap i bn s =
     (if bn < of_nat NDIRECT
      then let addr = iaddrs (inodes s ! i) ! unat bn in
           if addr = 0
           then and_then (balloc (idev (inodes s ! i)) s) (\<lambda>(s, addr).
                Done (set_inode i (\<lambda>ip. ip\<lparr>iaddrs := (iaddrs ip)[unat bn := addr]\<rparr>) s, addr))
           else Done (s, addr)
      else let bn = bn - of_nat NDIRECT in
      if bn < of_nat NINDIRECT
      then let addr = iaddrs (inodes s ! i) ! NDIRECT in
           and_then
             (if addr = 0
              then and_then (balloc (idev (inodes s ! i)) s) (\<lambda>(s, addr).
                   Done (set_inode i (\<lambda>ip. ip\<lparr>iaddrs := (iaddrs ip)[NDIRECT := addr]\<rparr>) s, addr))
              else Done (s, addr)) (\<lambda>(s, addr).
           and_then (bread (idev (inodes s ! i)) addr s) (\<lambda>(s, bp).
           let addr = get32 (data_of s bp) (4 * unat bn) in
           and_then
             (if addr = 0
              then and_then (balloc (idev (inodes s ! i)) s) (\<lambda>(s, addr).
                   and_then (log_write bp (edit bp (\<lambda>d. put32 d (4 * unat bn) addr) s)) (\<lambda>s. Done (s, addr)))
              else Done (s, addr)) (\<lambda>(s, addr).
           and_then (brelse bp s) (\<lambda>s. Done (s, addr)))))
      else Panic ''bmap: out of range'')"

definition itrunc_direct :: "nat \<Rightarrow> nat \<Rightarrow> 'a fstate_scheme \<Rightarrow> 'a fstate_scheme outcome" where
  "itrunc_direct i j s =
     (let ip = inodes s ! i in
      if iaddrs ip ! j \<noteq> 0
      then and_then (bfree (idev ip) (iaddrs ip ! j) s) (\<lambda>s.
           Done (set_inode i (\<lambda>ip. ip\<lparr>iaddrs := (iaddrs ip)[j := 0]\<rparr>) s))
      else Done s)"

definition itrunc_indirect :: "nat \<Rightarrow> nat \<Rightarrow> nat \<Rightarrow> 'a fstate_scheme \<Rightarrow> 'a fstate_scheme outcome" where
  "itrunc_indirect i bp j s =
     (let a = get32 (data_of s bp) (4 * j) in
      if a \<noteq> 0 then bfree (idev (inodes s ! i)) a s else Done s)"

definition itrunc :: "nat \<Rightarrow> 'a fstate_scheme \<Rightarrow> 'a fstate_scheme outcome" where
  "itrunc i s =
     and_then (each (itrunc_direct i) [0..<NDIRECT] s) (\<lambda>s.
     and_then
       (let ip = inodes s ! i; addr = iaddrs ip ! NDIRECT in
        if addr \<noteq> 0
        then and_then (bread (idev ip) addr s) (\<lambda>(s, bp).
             and_then (each (itrunc_indirect i bp) [0..<NINDIRECT] s) (\<lambda>s.
             and_then (brelse bp s) (\<lambda>s.
             and_then (bfree (idev (inodes s ! i)) (iaddrs (inodes s ! i) ! NDIRECT) s) (\<lambda>s.
             Done (set_inode i (\<lambda>ip. ip\<lparr>iaddrs := (iaddrs ip)[NDIRECT := 0]\<rparr>) s)))))
        else Done s) (\<lambda>s.
     iupdate i (set_inode i (\<lambda>ip. ip\<lparr>isize := 0\<rparr>) s)))"

definition iput :: "nat \<Rightarrow> 'a fstate_scheme \<Rightarrow> 'a fstate_scheme outcome" where
  "iput i s =
     and_then (acquiresleep (curpid s) (ilk (inodes s ! i))) (\<lambda>lk.
     let s = set_inode i (\<lambda>ip. ip\<lparr>ilk := lk\<rparr>) s in
     and_then
       (if ivalid (inodes s ! i) \<and> inlink (inodes s ! i) = 0 \<and> iref (inodes s ! i) = 1
        then and_then (itrunc i s) (\<lambda>s.
             and_then (iupdate i (set_inode i (\<lambda>ip. ip\<lparr>itype := 0\<rparr>) s)) (\<lambda>s.
             Done (set_inode i (\<lambda>ip. ip\<lparr>ivalid := False\<rparr>) s)))
        else Done s) (\<lambda>s.
     let s = set_inode i (\<lambda>ip. ip\<lparr>ilk := releasesleep (ilk ip)\<rparr>) s in
     Done (set_inode i (\<lambda>ip. ip\<lparr>iref := iref ip - 1\<rparr>) s)))"

definition iunlockput :: "nat \<Rightarrow> 'a fstate_scheme \<Rightarrow> 'a fstate_scheme outcome" where
  "iunlockput i s = and_then (iunlock i s) (iput i)"

definition stati :: "nat \<Rightarrow> 'a fstate_scheme \<Rightarrow> stat" where
  "stati i s = (let ip = inodes s ! i in
     \<lparr>st_type = itype ip, st_dev = idev ip, st_ino = inum ip, st_nlink = inlink ip, st_size = isize ip\<rparr>)"

text \<open>
  The copy loops: \<open>rem\<close> is \<^verbatim>\<open>n - tot\<close>.  At least one byte is copied in every
  iteration, so the loops end.
\<close>

definition chunk :: "nat \<Rightarrow> u32 \<Rightarrow> nat" where
  "chunk rem off = min rem (BSIZE - unat off mod BSIZE)"

lemma chunk_pos: "0 < rem \<Longrightarrow> 0 < chunk rem off"
  by (simp add: chunk_def layout_defs)

function readi_loop :: "nat \<Rightarrow> u32 \<Rightarrow> nat \<Rightarrow> u8 list \<Rightarrow> 'a fstate_scheme \<Rightarrow> ('a fstate_scheme \<times> u8 list) outcome" where
  "readi_loop i off rem acc s =
     (if rem = 0 then Done (s, acc)
      else and_then (bmap i (off div of_nat BSIZE) s) (\<lambda>(s, addr).
           and_then (bread (idev (inodes s ! i)) addr s) (\<lambda>(s, bp).
           let m = chunk rem off;
               bytes = get_bytes (data_of s bp) (unat off mod BSIZE) m in
           and_then (brelse bp s) (\<lambda>s.
           readi_loop i (off + of_nat m) (rem - m) (acc @ bytes) s))))"
  by pat_completeness auto
termination by (relation "measure (\<lambda>(i, off, rem, acc, s). rem)") (auto simp: chunk_pos)

definition readi :: "'a fstate_scheme devsw \<Rightarrow> nat \<Rightarrow> u32 \<Rightarrow> u32 \<Rightarrow> 'a fstate_scheme \<Rightarrow> ('a fstate_scheme \<times> int \<times> u8 list) outcome" where
  "readi dv i off n s =
     (let ip = inodes s ! i in
      if itype ip = T_DEV
      then if sint (imajor ip) < 0 \<or> sint (imajor ip) \<ge> int NDEV then Done (s, -1, [])
           else (case dev_read dv (sint (imajor ip)) of
                   None \<Rightarrow> Done (s, -1, [])
                 | Some f \<Rightarrow> f i n s)
      else if off > isize ip \<or> off + n < off then Done (s, -1, [])
      else let n = (if off + n > isize ip then isize ip - off else n) in
           and_then (readi_loop i off (unat n) [] s) (\<lambda>(s, bytes). Done (s, sint n, bytes)))"

function writei_loop :: "nat \<Rightarrow> u8 list \<Rightarrow> u32 \<Rightarrow> nat \<Rightarrow> 'a fstate_scheme \<Rightarrow> ('a fstate_scheme \<times> u32) outcome" where
  "writei_loop i src off rem s =
     (if rem = 0 then Done (s, off)
      else and_then (bmap i (off div of_nat BSIZE) s) (\<lambda>(s, addr).
           and_then (bread (idev (inodes s ! i)) addr s) (\<lambda>(s, bp).
           let m = chunk rem off in
           and_then (log_write bp (edit bp (\<lambda>d. put_bytes d (unat off mod BSIZE) (take m src)) s)) (\<lambda>s.
           and_then (brelse bp s) (\<lambda>s.
           writei_loop i (drop m src) (off + of_nat m) (rem - m) s)))))"
  by pat_completeness auto
termination by (relation "measure (\<lambda>(i, src, off, rem, s). rem)") (auto simp: chunk_pos)

definition writei :: "'a fstate_scheme devsw \<Rightarrow> nat \<Rightarrow> u8 list \<Rightarrow> u32 \<Rightarrow> u32 \<Rightarrow> 'a fstate_scheme \<Rightarrow> ('a fstate_scheme \<times> int) outcome" where
  "writei dv i src off n s =
     (let ip = inodes s ! i in
      if itype ip = T_DEV
      then if sint (imajor ip) < 0 \<or> sint (imajor ip) \<ge> int NDEV then Done (s, -1)
           else (case dev_write dv (sint (imajor ip)) of
                   None \<Rightarrow> Done (s, -1)
                 | Some f \<Rightarrow> f i src n s)
      else if off > isize ip \<or> off + n < off then Done (s, -1)
      else if off + n > of_nat (MAXFILE * BSIZE) then Done (s, -1)
      else and_then (writei_loop i src off (unat n) s) (\<lambda>(s, off).
           and_then
             (if n > 0 \<and> off > isize (inodes s ! i)
              then iupdate i (set_inode i (\<lambda>ip. ip\<lparr>isize := off\<rparr>) s)
              else Done s) (\<lambda>s.
           Done (s, sint n))))"


declare readi_loop.simps [simp del] writei_loop.simps [simp del]

subsection \<open>Directories\<close>

text \<open>A character array as a C string: what lies beyond the list is NUL.\<close>

definition cstr :: "u8 list \<Rightarrow> nat \<Rightarrow> u8" where
  "cstr xs k = (if k < length xs then xs ! k else 0)"

definition namecmp :: "u8 list \<Rightarrow> u8 list \<Rightarrow> int" where
  "namecmp s t = strncmp (cstr s) (cstr t) DIRSIZ"

definition dirent_of :: "u8 list \<Rightarrow> dirent" where
  "dirent_of d = \<lparr>de_inum = get16 d 0, de_name = get_bytes d 2 DIRSIZ\<rparr>"

definition dirent_bytes :: "dirent \<Rightarrow> u8 list" where
  "dirent_bytes de = [ucast (de_inum de), ucast (drop_bit 8 (de_inum de))] @ de_name de"

definition dir_offsets :: "u32 \<Rightarrow> nat list" where
  "dir_offsets n = map (\<lambda>k. k * DIRENT_SIZE) [0..<(unat n + DIRENT_SIZE - 1) div DIRENT_SIZE]"

fun dirlookup_loop :: "'a fstate_scheme devsw \<Rightarrow> nat \<Rightarrow> u8 list \<Rightarrow> nat list \<Rightarrow> 'a fstate_scheme \<Rightarrow>
    ('a fstate_scheme \<times> (nat \<times> u32) option) outcome" where
  "dirlookup_loop dv dp name [] s = Done (s, None)"
| "dirlookup_loop dv dp name (off # offs) s =
     and_then (readi dv dp (of_nat off) (of_nat DIRENT_SIZE) s) (\<lambda>(s, r, bytes).
     if r \<noteq> int DIRENT_SIZE then Panic ''dirlookup read''
     else let de = dirent_of bytes in
       if de_inum de = 0 then dirlookup_loop dv dp name offs s
       else if namecmp name (de_name de) = 0
       then and_then (iget (idev (inodes s ! dp)) (ucast (de_inum de)) s) (\<lambda>(s, ip). Done (s, Some (ip, of_nat off)))
       else dirlookup_loop dv dp name offs s)"

definition dirlookup :: "'a fstate_scheme devsw \<Rightarrow> nat \<Rightarrow> u8 list \<Rightarrow> 'a fstate_scheme \<Rightarrow>
    ('a fstate_scheme \<times> (nat \<times> u32) option) outcome" where
  "dirlookup dv dp name s =
     (if itype (inodes s ! dp) \<noteq> T_DIR then Panic ''dirlookup not DIR''
      else dirlookup_loop dv dp name (dir_offsets (isize (inodes s ! dp))) s)"

fun dirlink_slot :: "'a fstate_scheme devsw \<Rightarrow> nat \<Rightarrow> nat list \<Rightarrow> nat \<Rightarrow> 'a fstate_scheme \<Rightarrow> ('a fstate_scheme \<times> nat) outcome" where
  "dirlink_slot dv dp [] end s = Done (s, end)"
| "dirlink_slot dv dp (off # offs) end s =
     and_then (readi dv dp (of_nat off) (of_nat DIRENT_SIZE) s) (\<lambda>(s, r, bytes).
     if r \<noteq> int DIRENT_SIZE then Panic ''dirlink read''
     else if de_inum (dirent_of bytes) = 0 then Done (s, off)
     else dirlink_slot dv dp offs end s)"

definition dirlink :: "'a fstate_scheme devsw \<Rightarrow> nat \<Rightarrow> u8 list \<Rightarrow> u32 \<Rightarrow> 'a fstate_scheme \<Rightarrow> ('a fstate_scheme \<times> int) outcome" where
  "dirlink dv dp name n s =
     and_then (dirlookup dv dp name s) (\<lambda>(s, r).
     case r of
       Some (ip, off) \<Rightarrow> and_then (iput ip s) (\<lambda>s. Done (s, -1))
     | None \<Rightarrow>
         let offs = dir_offsets (isize (inodes s ! dp)) in
         and_then (dirlink_slot dv dp offs (length offs * DIRENT_SIZE) s) (\<lambda>(s, off).
         let de = \<lparr>de_inum = ucast n, de_name = take DIRSIZ (name @ replicate DIRSIZ 0)\<rparr> in
         and_then (writei dv dp (dirent_bytes de) (of_nat off) (of_nat DIRENT_SIZE) s) (\<lambda>(s, r).
         if r \<noteq> int DIRENT_SIZE then Panic ''dirlink'' else Done (s, 0))))"

subsection \<open>Paths\<close>

definition slash :: u8 where "slash = 47"

definition skipelem :: "u8 list \<Rightarrow> (u8 list \<times> u8 list) option" where
  "skipelem path =
     (let path = dropWhile (\<lambda>c. c = slash) path in
      if path = [] then None
      else let elem = takeWhile (\<lambda>c. c \<noteq> slash) path;
               path = dropWhile (\<lambda>c. c \<noteq> slash) path;
               name = (if length elem \<ge> DIRSIZ then take DIRSIZ elem else elem)
           in Some (dropWhile (\<lambda>c. c = slash) path, name))"

lemma skipelem_shorter: "skipelem path = Some (rest, name) \<Longrightarrow> length rest < length path"
proof -
  assume s: "skipelem path = Some (rest, name)"
  let ?p = "dropWhile (\<lambda>c. c = slash) path"
  have ne: "?p \<noteq> []" and r: "rest = dropWhile (\<lambda>c. c = slash) (dropWhile (\<lambda>c. c \<noteq> slash) ?p)"
    using s by (auto simp: skipelem_def Let_def split: if_splits)
  obtain c q where p: "?p = c # q" using ne by (cases ?p) auto
  have "c \<noteq> slash" using hd_dropWhile [OF ne] p by simp
  then have "length (dropWhile (\<lambda>c. c \<noteq> slash) ?p) \<le> length q" unfolding p by (simp add: length_dropWhile_le)
  moreover have "length rest \<le> length (dropWhile (\<lambda>c. c \<noteq> slash) ?p)" unfolding r by (rule length_dropWhile_le)
  ultimately have "length rest \<le> length q" by (rule le_trans [rotated])
  also have "length q < length ?p" using p by simp
  also have "length ?p \<le> length path" by (rule length_dropWhile_le)
  finally show "length rest < length path" .
qed

text \<open>
  \<^verbatim>\<open>namex\<close>: the inode and the last path element copied to \<^verbatim>\<open>name\<close>.  \<open>cwd\<close> is
  \<^verbatim>\<open>myproc()->cwd\<close>.
\<close>

function namex_loop :: "'a fstate_scheme devsw \<Rightarrow> bool \<Rightarrow> u8 list \<Rightarrow> u8 list \<Rightarrow> nat \<Rightarrow> 'a fstate_scheme \<Rightarrow>
    ('a fstate_scheme \<times> (nat \<times> u8 list) option) outcome" where
  "namex_loop dv parent path name ip s =
     (case skipelem path of
        None \<Rightarrow> if parent then and_then (iput ip s) (\<lambda>s. Done (s, None)) else Done (s, Some (ip, name))
      | Some (path', name) \<Rightarrow>
          and_then (ilock ip s) (\<lambda>s.
          if itype (inodes s ! ip) \<noteq> T_DIR then and_then (iunlockput ip s) (\<lambda>s. Done (s, None))
          else if parent \<and> path' = [] then and_then (iunlock ip s) (\<lambda>s. Done (s, Some (ip, name)))
          else and_then (dirlookup dv ip name s) (\<lambda>(s, r).
               case r of
                 None \<Rightarrow> and_then (iunlockput ip s) (\<lambda>s. Done (s, None))
               | Some (nxt, off) \<Rightarrow> and_then (iunlockput ip s) (\<lambda>s. namex_loop dv parent path' name nxt s))))"
  by pat_completeness auto
termination by (relation "measure (\<lambda>(dv, parent, path, name, ip, s). length path)") (auto dest: skipelem_shorter)

declare namex_loop.simps [simp del]

definition namex :: "'a fstate_scheme devsw \<Rightarrow> nat \<Rightarrow> u8 list \<Rightarrow> bool \<Rightarrow> 'a fstate_scheme \<Rightarrow>
    ('a fstate_scheme \<times> (nat \<times> u8 list) option) outcome" where
  "namex dv cwd path parent s =
     and_then
       (if path \<noteq> [] \<and> hd path = slash then iget ROOTDEV ROOTINO s else Done (idup cwd s, cwd)) (\<lambda>(s, ip).
     namex_loop dv parent path [] ip s)"

definition namei :: "'a fstate_scheme devsw \<Rightarrow> nat \<Rightarrow> u8 list \<Rightarrow> 'a fstate_scheme \<Rightarrow> ('a fstate_scheme \<times> nat option) outcome" where
  "namei dv cwd path s =
     and_then (namex dv cwd path False s) (\<lambda>(s, r). Done (s, map_option fst r))"

definition nameiparent :: "'a fstate_scheme devsw \<Rightarrow> nat \<Rightarrow> u8 list \<Rightarrow> 'a fstate_scheme \<Rightarrow>
    ('a fstate_scheme \<times> (nat \<times> u8 list) option) outcome" where
  "nameiparent dv cwd path s = namex dv cwd path True s"

end
