(* ===== verification/Crash.thy ===== *)
theory Crash
  imports Log
begin

text \<open>
  Crash safety of the log.  The disk performs block writes one at a time, in
  the order the kernel issues them; a crash keeps a prefix of them.  After a
  crash the kernel starts with an empty cache and \<^verbatim>\<open>initlog\<close> replays the log.
\<close>

subsection \<open>A machine after power-up\<close>

definition zero_buf :: buf where
  "zero_buf = \<lparr>b_valid = False, b_dirty = False, bdev = 0, blockno = 0, block_lock = \<lparr>sl_locked = False, sl_pid = 0\<rparr>,
     refcnt = 0, bdata = replicate BSIZE 0\<rparr>"

definition powerup :: "(u32 \<Rightarrow> block) \<Rightarrow> u32 \<Rightarrow> int \<Rightarrow> lstate" where
  "powerup d n p = binit
     \<lparr>bufs = replicate NBUF zero_buf, bnext = replicate (Suc NBUF) 0, bprev = replicate (Suc NBUF) 0, disk = d, writes = [],
      disksize = n, curpid = p, log_start = 0, log_size = 0, outstanding = 0, committing = False, log_dev = 0, lh_n = 0,
      lh_block = replicate LOGSIZE 0\<rparr>"

lemma powerup_linked: "linked (powerup d n p) (rev [0..<NBUF])"
  unfolding powerup_def by (rule binit_linked) simp_all

lemma powerup_state:
  assumes "\<And>m. length (d m) = BSIZE"
  shows "cache_wf (powerup d n p)" "held (powerup d n p) = {}" "dirty (powerup d n p) = {}" "content (powerup d n p) = d"
    "disk (powerup d n p) = d" "writes (powerup d n p) = []" "disksize (powerup d n p) = n" "lh_block (powerup d n p) = replicate LOGSIZE 0"
proof -
  let ?s = "\<lparr>bufs = replicate NBUF zero_buf, bnext = replicate (Suc NBUF) 0, bprev = replicate (Suc NBUF) 0, disk = d, writes = [],
      disksize = n, curpid = p, log_start = 0, log_size = 0, outstanding = 0, committing = False, log_dev = 0, lh_n = 0,
      lh_block = replicate LOGSIZE 0\<rparr>"
  have z: "zero_buf\<lparr>block_lock := initsleeplock\<rparr> = zero_buf" by (simp add: zero_buf_def initsleeplock_def)
  have b: "bufs (powerup d n p) = replicate NBUF zero_buf" using binit_frame(1) [of ?s] z by (simp add: powerup_def)
  show d: "disk (powerup d n p) = d" and w: "writes (powerup d n p) = []" and s: "disksize (powerup d n p) = n"
    using binit_frame [of ?s] by (simp_all add: powerup_def)
  have m: "bstate.more (powerup d n p) = bstate.more ?s" using binit_frame(6) [of ?s] by (simp add: powerup_def)
  then show "lh_block (powerup d n p) = replicate LOGSIZE 0" by (cases "powerup d n p") simp
  have c: "\<not> caches m (bufs (powerup d n p) ! i)" if "i < NBUF" for m i using that by (simp add: b caches_def zero_buf_def)
  note L = powerup_linked [of d n p]
  have u: "uniq (bufs (powerup d n p))" using c by (auto simp: uniq_def b)
  show "cache_wf (powerup d n p)"
    using L u assms d unfolding cache_wf_def by (auto simp: b buf_ok_def zero_buf_def intro!: exI [of _ "rev [0..<NBUF]"])
  show "held (powerup d n p) = {}" "dirty (powerup d n p) = {}" using c by (auto simp: held_def holds_def dirty_def)
  show "content (powerup d n p) = d"
  proof
    fix m show "content (powerup d n p) m = d m" using content_uncached [of "powerup d n p" m] c by (simp add: b d)
  qed
qed

subsection \<open>Recovery\<close>

text \<open>What recovery makes of a disk image, as a function of the image alone.\<close>

definition head_n :: "u32 \<Rightarrow> (u32 \<Rightarrow> block) \<Rightarrow> nat" where
  "head_n st d = nat (sint (get32 (d st) 0))"

definition redo_writes :: "u32 \<Rightarrow> (u32 \<Rightarrow> block) \<Rightarrow> (u32 \<times> block) list" where
  "redo_writes st d = map (\<lambda>i. (get32 (d st) (4 + 4 * i), d (st + of_nat i + 1))) [0..<head_n st d]"

definition area :: "u32 \<Rightarrow> int \<Rightarrow> u32 set" where
  "area st sz = {n. unat st \<le> unat n \<and> unat n < unat st + nat sz}"

definition image_ok :: "u32 \<Rightarrow> int \<Rightarrow> u32 \<Rightarrow> (u32 \<Rightarrow> block) \<Rightarrow> bool" where
  "image_ok st sz N d \<longleftrightarrow> (\<forall>m. length (d m) = BSIZE) \<and> 0 < sz \<and> sz \<le> int LOGSIZE \<and> unat st + nat sz \<le> unat N \<and> 1 < N \<and>
     sb_logstart (sb_of (d 1)) = st \<and> sint (sb_nlog (sb_of (d 1))) = sz \<and>
     1 \<notin> area st sz \<and> sint (get32 (d st) 0) < sz \<and>
     (\<forall>(n, v) \<in> set (redo_writes st d). n < N \<and> n \<notin> area st sz \<and> n \<noteq> 1)"

lemma read_head_state:
  assumes "cache_wf s" "held s = {}" "dirty s = {}" "log_ok s" "sint (get32 (content s (log_start s)) 0) < log_size s"
  shows "\<exists>t. read_head s = Done t \<and> cache_wf t \<and> held t = {} \<and> dirty t = {} \<and> content t = content s \<and> disk t = disk s \<and>
    writes t = writes s \<and> disksize t = disksize s \<and> log_ok t \<and> log_start t = log_start s \<and> log_size t = log_size s \<and>
    lh_n t = sint (get32 (content s (log_start s)) 0) \<and>
    logged t = get_array (content s (log_start s)) 4 (head_n (log_start s) (content s))"
proof -
  let ?h = "content s (log_start s)"
  let ?n = "nat (sint (get32 ?h 0))"
  have n: "?n \<le> LOGSIZE" using assms(4,5) by (auto simp: log_ok_def)
  have "0 < NBUF" by (simp add: layout_defs)
  then obtain u i where u: "bread 1 (log_start s) s = Done (u, i)" "data_of u i = ?h" "cache_wf u" "holds u i (log_start s)"
    "held u = {log_start s}" "content u = content s" "disk u = disk s" "writes u = writes s" "dirty u = {}"
    "(disksize u, curpid u, bstate.more u) = (disksize s, curpid s, bstate.more s)" "content u (log_start s) = disk u (log_start s)"
    using bc.read_release [OF assms(1,2), of "log_start s"] log_start_in [OF assms(4)] assms(3) by auto
  have env: "same_env s u" using u(10) by (simp add: same_env_def)
  note l = same_env_log [OF env]
  let ?u = "u\<lparr>lh_n := sint (get32 ?h 0), lh_block := get_array ?h 4 ?n @ drop ?n (lh_block u)\<rparr>"
  obtain t where t: "brelse i ?u = Done t" "cache_wf t" "content t = content ?u" "disk t = disk ?u" "writes t = writes ?u" "dirty t = dirty ?u"
    "held t = held ?u - {log_start s}" "(disksize t, curpid t, bstate.more t) = (disksize ?u, curpid ?u, bstate.more ?u)"
    using bc.release_law [of ?u i "log_start s"] u by auto
  have "same_env ?u t" using t(8) by (simp add: same_env_def)
  note lt = same_env_log [OF this]
  have "read_head s = Done t" using u(1,2) t(1) n assms(4) by (simp add: read_head_def log_ok_def Let_def linorder_not_less)
  moreover have "log_ok t" using assms(4) lt l n t(8) u(10) by (auto simp: log_ok_def get_array_def)
  moreover have "logged t = get_array ?h 4 (head_n (log_start s) (content s))"
    using lt by (simp add: logged_def get_array_def head_n_def)
  ultimately show ?thesis using t u lt l by (intro exI [of _ t]) auto
qed

lemma recover_performs:
  assumes wf: "cache_wf s" "held s = {}" "dirty s = {}" "log_ok s" and n: "sint (get32 (content s (log_start s)) 0) < log_size s"
    and home: "\<forall>(n, v) \<in> set (redo_writes (log_start s) (content s)). n < disksize s \<and> n \<notin> log_area s"
  shows "\<exists>t h. recover_from_log s = Done t \<and> get32 h 0 = 0 \<and> length h = BSIZE \<and>
    disk t = apply_writes (redo_writes (log_start s) (content s) @ [(log_start s, h)]) (disk s) \<and>
    writes t = writes s @ redo_writes (log_start s) (content s) @ [(log_start s, h)]"
proof -
  let ?h = "content s (log_start s)" and ?st = "log_start s"
  obtain a where a: "read_head s = Done a" "cache_wf a" "held a = {}" "dirty a = {}" "content a = content s" "disk a = disk s"
    "writes a = writes s" "disksize a = disksize s" "log_ok a" "log_start a = ?st" "log_size a = log_size s" "lh_n a = sint (get32 ?h 0)"
    "logged a = get_array ?h 4 (head_n ?st (content s))"
    using read_head_state [OF wf n] by auto
  have area: "log_area a = log_area s" by (simp add: log_area_def a)
  have len: "nat (lh_n a) \<le> length (lh_block a)" using a(9,11,12) n by (auto simp: log_ok_def)
  have blk: "lh_block a ! i = get32 ?h (4 + 4 * i)" if "i < nat (lh_n a)" for i
  proof -
    have "lh_block a ! i = logged a ! i" using that len by (simp add: logged_def)
    then show ?thesis using that a(12,13) by (simp add: get_array_def head_n_def)
  qed
  have iw: "install_writes a = redo_writes ?st (content s)"
    using blk by (simp add: install_writes_def redo_writes_def head_n_def log_block_def a(5,10,12))
  have "home_ok a (logged a)" using home
    by (auto simp: home_ok_def a(8,13) area redo_writes_def get_array_def)
  then obtain b where b: "install_trans a = Done b" "wrote a (redo_writes ?st (content s)) b"
    using install_trans_wrote [OF a(2,3,9)] n a(4,11,12) iw by auto
  note sb = wrote_same [OF b(2)]
  let ?b = "b\<lparr>lh_n := 0\<rparr>"
  have "log_ok ?b" using wrote_ok(1) [OF b(2) a(9)] by (simp add: log_ok_def)
  moreover have "0 < NBUF" by (simp add: layout_defs)
  ultimately have "\<exists>e. write_head ?b = Done e \<and> wrote ?b [(log_start ?b, head_bytes (lh_n ?b) (lh_block ?b) (content ?b (log_start ?b)))] e"
    using sb(6,7,8) a(4) by (intro write_head_wrote) (simp_all add: log_ok_def)
  then obtain e where e: "write_head ?b = Done e" "wrote ?b [(?st, head_bytes 0 (lh_block b) (content b ?st))] e"
    using sb(1) a(10) by auto
  have "4 \<le> length (content b ?st)" "length (content b ?st) = BSIZE" using bc.content_length [OF sb(6)] by (simp_all add: layout_defs)
  moreover from this have "get32 (head_bytes 0 (lh_block b) (content b ?st)) 0 = 0"
    by (simp add: head_bytes_def)
  ultimately show ?thesis using a(1) b(1) e(1) wrote_same [OF e(2)] sb a
    by (intro exI [of _ e] exI [of _ "head_bytes 0 (lh_block b) (content b ?st)"]) (simp add: recover_from_log_def)
qed


lemma readsb_state:
  assumes "cache_wf s" "held s = {}" "dirty s = {}" "1 < disksize s"
  shows "\<exists>t. readsb 1 s = Done (t, sb_of (content s 1)) \<and> cache_wf t \<and> held t = {} \<and> dirty t = {} \<and> content t = content s \<and>
    disk t = disk s \<and> writes t = writes s \<and> same_env s t"
proof -
  have "0 < NBUF" by (simp add: layout_defs)
  then obtain u i where u: "bread 1 1 s = Done (u, i)" "data_of u i = content s 1" "cache_wf u" "holds u i 1"
    "held u = {1}" "content u = content s" "disk u = disk s" "writes u = writes s" "dirty u = {}"
    "(disksize u, curpid u, bstate.more u) = (disksize s, curpid s, bstate.more s)" "content u 1 = disk u 1"
    using bc.read_release [OF assms(1,2), of 1] assms(3,4) by auto
  obtain t where "brelse i u = Done t" "cache_wf t" "content t = content u" "disk t = disk u" "writes t = writes u" "dirty t = dirty u"
    "held t = held u - {1}" "(disksize t, curpid t, bstate.more t) = (disksize u, curpid u, bstate.more u)"
    using bc.release_law [of u i 1] u by auto
  then show ?thesis using u by (intro exI [of _ t]) (auto simp: readsb_def same_env_def)
qed

lemma initlog_performs:
  assumes "image_ok st sz N d"
  shows "\<exists>r h. initlog 1 (powerup d N p) = Done r \<and> get32 h 0 = 0 \<and> length h = BSIZE \<and>
    disk r = apply_writes (redo_writes st d @ [(st, h)]) d \<and> writes r = redo_writes st d @ [(st, h)]"
proof -
  let ?s = "powerup d N p"
  have len: "\<And>m. length (d m) = BSIZE" and N: "1 < N" using assms by (auto simp: image_ok_def)
  note s = powerup_state [of d N p, OF len]
  obtain t where t: "readsb 1 ?s = Done (t, sb_of (d 1))" "cache_wf t" "held t = {}" "dirty t = {}" "content t = d" "disk t = d" "writes t = []"
    "same_env ?s t"
    using readsb_state [OF s(1,2,3)] s N by auto
  let ?t = "t\<lparr>log_start := st, log_size := sz, log_dev := 1\<rparr>"
  have n: "disksize t = N" "lh_block t = replicate LOGSIZE 0" using t(8) same_env_log(7) [OF t(8)] s by (simp_all add: same_env_def)
  have ok: "log_ok ?t" using assms n by (auto simp: log_ok_def image_ok_def)
  have ar: "log_area ?t = area st sz" by (simp add: log_area_def area_def)
  have "initlog 1 ?s = recover_from_log ?t"
    using t(1) assms by (simp add: initlog_def layout_defs image_ok_def)
  moreover have "\<exists>r h. recover_from_log ?t = Done r \<and> get32 h 0 = 0 \<and> length h = BSIZE \<and>
    disk r = apply_writes (redo_writes (log_start ?t) (content ?t) @ [(log_start ?t, h)]) (disk ?t) \<and>
    writes r = writes ?t @ redo_writes (log_start ?t) (content ?t) @ [(log_start ?t, h)]"
  proof (rule recover_performs)
    show "cache_wf ?t" "held ?t = {}" "dirty ?t = {}" "log_ok ?t" using t ok by simp_all
    show "sint (get32 (content ?t (log_start ?t)) 0) < log_size ?t" using assms t(5) by (simp add: image_ok_def)
    show "\<forall>(n, v)\<in>set (redo_writes (log_start ?t) (content ?t)). n < disksize ?t \<and> n \<notin> log_area ?t"
      using assms t(5) n(1) ar by (auto simp: image_ok_def)
  qed
  ultimately show ?thesis using t by simp
qed

subsection \<open>Prefixes of a write sequence\<close>

lemma apply_writes_cong: "(\<And>n. n \<notin> fst ` set W \<Longrightarrow> d n = e n) \<Longrightarrow> apply_writes W d = apply_writes W e"
proof (induction W arbitrary: d e)
  case Nil
  then show ?case by auto
next
  case (Cons a W)
  obtain n v where a: "a = (n, v)" by (cases a)
  have "apply_writes W (d(n := v)) = apply_writes W (e(n := v))"
  proof (rule Cons.IH)
    fix m assume "m \<notin> fst ` set W"
    then show "(d(n := v)) m = (e(n := v)) m" using Cons.prems [of m] a by (cases "m = n") simp_all
  qed
  then show ?case by (simp add: a)
qed

lemma apply_writes_absorb: "fst ` set V \<subseteq> fst ` set W \<Longrightarrow> apply_writes W (apply_writes V d) = apply_writes W d"
  by (rule apply_writes_cong) (auto intro!: apply_writes_other)

lemma apply_writes_length:
  "(\<And>m. length (d m) = BSIZE) \<Longrightarrow> (\<And>n v. (n, v) \<in> set W \<Longrightarrow> length v = BSIZE) \<Longrightarrow> length (apply_writes W d m) = BSIZE"
proof (induction W arbitrary: d)
  case (Cons a W)
  obtain n v where a: "a = (n, v)" by (cases a)
  have "length (apply_writes W (d(n := v)) m) = BSIZE"
  proof (rule Cons.IH)
    show "length ((d(n := v)) k) = BSIZE" for k using Cons.prems(1) Cons.prems(2) [of n v] a by simp
    show "length w = BSIZE" if "(k, w) \<in> set W" for k w using Cons.prems(2) [of k w] that by simp
  qed
  then show ?case by (simp add: a)
qed simp

lemma redo_writes_cong:
  assumes "d st = e st" "\<And>i. i < head_n st e \<Longrightarrow> d (st + of_nat i + 1) = e (st + of_nat i + 1)"
  shows "redo_writes st d = redo_writes st e"
  using assms by (simp add: redo_writes_def head_n_def)

lemma area_block:
  assumes "unat st + nat sz \<le> unat (N :: u32)" "int i + 1 < sz"
  shows "st + of_nat i + 1 \<in> area st sz"
proof -
  have "i + 1 < nat sz" using assms(2) by simp
  then have lt: "unat st + i + 1 < 4294967296" using assms(1) unsigned_less [of N, where 'a = nat] by auto
  have e: "of_nat i + 1 = (of_nat (i + 1) :: u32)" by simp
  have "unat (of_nat (i + 1) :: u32) = i + 1" using lt by (subst unat_of_nat) simp
  then have "unat (st + of_nat (i + 1)) = unat st + i + 1" using unat_add_32 [of st "of_nat (i + 1)"] lt by linarith
  then have "unat (st + of_nat i + 1) = unat st + i + 1" unfolding add.assoc e .
  then show ?thesis using \<open>i + 1 < nat sz\<close> by (simp add: area_def)
qed


lemma image_okD:
  assumes "image_ok st sz N d"
  shows "length (d m) = BSIZE" "st \<in> area st sz" "1 \<notin> area st sz" "(n, v) \<in> set (redo_writes st d) \<Longrightarrow> n \<notin> area st sz \<and> n \<noteq> 1 \<and> length v = BSIZE"
    "i < head_n st d \<Longrightarrow> st + of_nat i + 1 \<in> area st sz"
proof -
  show "i < head_n st d \<Longrightarrow> st + of_nat i + 1 \<in> area st sz"
    using assms area_block [of st sz N i] by (auto simp: image_ok_def head_n_def)
qed (use assms in \<open>auto simp: image_ok_def area_def redo_writes_def\<close>)

text \<open>An image that differs from a good one only outside the log area and the superblock is good, with the same redo.\<close>

lemma image_ok_outside:
  assumes "image_ok st sz N d" "\<And>m. m \<in> insert 1 (area st sz) \<Longrightarrow> e m = d m" "\<And>m. length (e m) = BSIZE"
  shows "redo_writes st e = redo_writes st d" "image_ok st sz N e"
proof -
  note D = image_okD [OF assms(1)]
  show r: "redo_writes st e = redo_writes st d"
    using D assms(2) by (intro redo_writes_cong) auto
  show "image_ok st sz N e" using assms r D by (auto simp: image_ok_def)
qed

text \<open>An image with an empty log, whatever the rest of the log area holds.\<close>

lemma image_ok_empty:
  assumes "image_ok st sz N d" "e 1 = d 1" "\<And>m. length (e m) = BSIZE" "get32 (e st) 0 = 0"
  shows "redo_writes st e = []" "image_ok st sz N e"
proof -
  show r: "redo_writes st e = []" using assms(4) by (simp add: redo_writes_def head_n_def)
  show "image_ok st sz N e" using assms r by (auto simp: image_ok_def)
qed

definition recovered :: "u32 \<Rightarrow> (u32 \<Rightarrow> block) \<Rightarrow> u32 \<Rightarrow> block" where
  "recovered st d = apply_writes (redo_writes st d) d"

lemma initlog_recovers:
  assumes "image_ok st sz N d" "initlog 1 (powerup d N p) = Done r" "b \<notin> area st sz"
  shows "disk r b = recovered st d b"
proof -
  have "b \<noteq> st" using assms(3) image_okD(2) [OF assms(1)] by auto
  then show ?thesis using initlog_performs [OF assms(1), of p] assms(2) by (auto simp: recovered_def)
qed

lemma recovery_prefix:
  fixes k :: nat
  assumes ok: "image_ok st sz N d" and h: "get32 h 0 = 0" "length h = BSIZE"
  defines "e \<equiv> apply_writes (take k (redo_writes st d @ [(st, h)])) d"
  shows "image_ok st sz N e \<and> (\<forall>b. b \<notin> area st sz \<longrightarrow> recovered st e b = recovered st d b)"
proof -
  note D = image_okD [OF ok]
  have len: "length (e m) = BSIZE" for m
    unfolding e_def using D(1,4) h(2) by (intro apply_writes_length) (auto dest!: in_set_takeD)
  show ?thesis
  proof (cases "k \<le> length (redo_writes st d)")
    case True
    then have e: "e = apply_writes (take k (redo_writes st d)) d" by (simp add: e_def)
    have eq: "e m = d m" if "m \<in> insert 1 (area st sz)" for m
      unfolding e using that D(4) by (intro apply_writes_other) (auto dest!: in_set_takeD)
    have o: "redo_writes st e = redo_writes st d" "image_ok st sz N e"
      by (rule image_ok_outside [OF ok eq len], assumption)+
    have "recovered st e = apply_writes (redo_writes st d) e" by (simp only: recovered_def o(1))
    also have "\<dots> = recovered st d"
      unfolding recovered_def e by (rule apply_writes_absorb) (intro image_mono set_take_subset)
    finally show ?thesis using o(2) by simp
  next
    case False
    then have e: "e = (recovered st d)(st := h)" by (simp add: e_def recovered_def)
    have "1 \<notin> fst ` set (redo_writes st d)" "1 \<noteq> st" using D(2,3,4) by force+
    then have "e 1 = d 1" by (simp add: e recovered_def apply_writes_other)
    then have o: "redo_writes st e = []" "image_ok st sz N e"
      using image_ok_empty [where e = e, OF ok _ len] h(1) by (simp_all add: e)
    have "recovered st e b = recovered st d b" if "b \<notin> area st sz" for b
      using that D(2) by (simp add: recovered_def [of st e] o(1)) (auto simp: e)
    then show ?thesis using o(2) by simp
  qed
qed


subsection \<open>Crashes during commit\<close>

lemma full_head_fields:
  assumes "log_ok s" "trans_ok s" "length (content s (log_start s)) = BSIZE"
  shows "nat (sint (get32 (full_head s) 0)) = nat (lh_n s)" "sint (get32 (full_head s) 0) = lh_n s"
    "i < nat (lh_n s) \<Longrightarrow> get32 (full_head s) (4 + 4 * i) = lh_block s ! i"
    "get32 (empty_head s) 0 = 0" "length (full_head s) = BSIZE" "length (empty_head s) = BSIZE"
proof -
  let ?d = "put32 (content s (log_start s)) 0 (word_of_int (lh_n s))" and ?ws = "take (nat (lh_n s)) (lh_block s)"
  have n: "0 \<le> lh_n s" "lh_n s < 30" "nat (lh_n s) \<le> 30" using assms by (auto simp: log_ok_def trans_ok_def layout_defs)
  have L: "length ?ws = nat (lh_n s)" using assms n by (auto simp: log_ok_def layout_defs)
  show f: "sint (get32 (full_head s) 0) = lh_n s"
  proof -
    have "get32 (full_head s) 0 = word_of_int (lh_n s)"
      using assms(3) by (simp add: full_head_def head_bytes_def BSIZE_def)
    moreover have "sint (word_of_int (lh_n s) :: u32) = lh_n s" using n by (simp add: int_word_sint)
    ultimately show ?thesis by simp
  qed
  then show "nat (sint (get32 (full_head s) 0)) = nat (lh_n s)" by simp
  show len: "length (full_head s) = BSIZE" "length (empty_head s) = BSIZE" using assms(3) by (simp_all add: full_head_def empty_head_def)
  show "get32 (empty_head s) 0 = 0" using len(1) by (simp add: empty_head_def head_bytes_def BSIZE_def)
  show "get32 (full_head s) (4 + 4 * i) = lh_block s ! i" if "i < nat (lh_n s)"
  proof -
    have "get_array (put_array ?d 4 ?ws) 4 (length ?ws) = ?ws" using assms(3) L n by (intro get_put_array) (simp add: BSIZE_def)
    then have "get_array (full_head s) 4 (nat (lh_n s)) ! i = ?ws ! i" using L by (simp add: full_head_def head_bytes_def)
    then show ?thesis using that by (simp add: get_array_def)
  qed
qed

text \<open>The precondition of a commit on a formatted disk.\<close>

definition commit_ready :: "'a lstate_scheme \<Rightarrow> bool" where
  "commit_ready s \<longleftrightarrow> cache_wf s \<and> held s = {} \<and> log_ok s \<and> trans_ok s \<and> 1 \<notin> set (logged s) \<and>
     image_ok (log_start s) (log_size s) (disksize s) (disk s) \<and> get32 (disk s (log_start s)) 0 = 0"

lemma commit_readyD:
  assumes "commit_ready s"
  shows "cache_wf s" "held s = {}" "log_ok s" "trans_ok s" "1 \<notin> set (logged s)"
    "image_ok (log_start s) (log_size s) (disksize s) (disk s)" "get32 (disk s (log_start s)) 0 = 0" "log_area s = area (log_start s) (log_size s)"
  using assms by (simp_all add: commit_ready_def log_area_def area_def)

lemma commit_write_blocks:
  assumes "commit_ready s"
  shows "fst ` set (log_writes s) = log_block s ` {..<nat (lh_n s)}" "fst ` set (log_writes s) \<subseteq> log_area s"
    "fst ` set (home_writes s) = set (logged s)" "set (logged s) \<inter> log_area s = {}" "log_start s \<notin> fst ` set (log_writes s)"
    "(n, v) \<in> set (commit_writes s) \<Longrightarrow> length v = BSIZE"
    "i < nat (lh_n s) \<Longrightarrow> apply_writes (log_writes s) d (log_block s i) = content s (lh_block s ! i)"
    "m \<notin> log_area s \<Longrightarrow> apply_writes (home_writes s) d m = (if m \<in> set (logged s) then content s m else d m)"
proof -
  note c = commit_readyD [OF assms]
  have lt: "int j + 1 < log_size s" if "j < nat (lh_n s)" for j using c(4) that by (auto simp: trans_ok_def)
  note lb = log_block_in [OF c(3) lt]
  show lw: "fst ` set (log_writes s) = log_block s ` {..<nat (lh_n s)}" by (force simp: log_writes_def)
  show "fst ` set (log_writes s) \<subseteq> log_area s" unfolding lw using lb(1) by (intro image_subsetI) simp
  show "log_start s \<notin> fst ` set (log_writes s)" unfolding lw
  proof
    assume "log_start s \<in> log_block s ` {..<nat (lh_n s)}"
    then obtain j where "j < nat (lh_n s)" "log_start s = log_block s j" by auto
    then show False using lb(3) [of j] by simp
  qed
  show "fst ` set (home_writes s) = set (logged s)" by (force simp: home_writes_def)
  show "set (logged s) \<inter> log_area s = {}" using c(4) by (auto simp: trans_ok_def home_ok_def)
  show "(n, v) \<in> set (commit_writes s) \<Longrightarrow> length v = BSIZE"
    using bc.content_length [OF c(1)] full_head_fields(5,6) [OF c(3,4)] by (auto simp: commit_writes_def log_writes_def home_writes_def)
  show "apply_writes (log_writes s) d (log_block s i) = content s (lh_block s ! i)" if "i < nat (lh_n s)"
  proof (rule apply_writes_in)
    show "distinct (map fst (log_writes s))"
      using log_block_inj [OF c(3) lt lt] by (auto simp: log_writes_def comp_def distinct_map inj_on_def)
    show "(log_block s i, content s (lh_block s ! i)) \<in> set (log_writes s)" using that by (auto simp: log_writes_def)
  qed
  show "apply_writes (home_writes s) d m = (if m \<in> set (logged s) then content s m else d m)"
  proof (cases "m \<in> set (logged s)")
    case True
    have "distinct (map fst (home_writes s))" using c(4) by (simp add: home_writes_def comp_def trans_ok_def)
    moreover have "(m, content s m) \<in> set (home_writes s)" using True by (auto simp: home_writes_def)
    ultimately show ?thesis using True apply_writes_in by metis
  next
    case False
    then show ?thesis by (simp add: apply_writes_other home_writes_def image_image)
  qed
qed


lemma content_clean: "commit_ready s \<Longrightarrow> m \<notin> set (logged s) \<Longrightarrow> content s m = disk s m"
  using bc.clean_law [of s m] commit_readyD [of s] by (auto simp: trans_ok_def)

text \<open>Before the header is written recovery sees the old blocks.\<close>

lemma commit_prefix_old:
  fixes k :: nat
  assumes c: "commit_ready s" and k: "k \<le> length (log_writes s)"
  defines "e \<equiv> apply_writes (take k (commit_writes s)) (disk s)"
  shows "image_ok (log_start s) (log_size s) (disksize s) e"
    and "b \<notin> log_area s \<Longrightarrow> recovered (log_start s) e b = disk s b"
proof -
  note C = commit_readyD [OF c] and W = commit_write_blocks [OF c] and D = image_okD [OF C(6)]
  have e: "e = apply_writes (take k (log_writes s)) (disk s)" using k by (simp add: e_def commit_writes_def)
  have sub: "fst ` set (take k (log_writes s)) \<subseteq> fst ` set (log_writes s)" by (intro image_mono set_take_subset)
  have out: "e m = disk s m" if "m \<notin> fst ` set (log_writes s)" for m unfolding e using that sub by (intro apply_writes_other) auto
  have len: "length (e m) = BSIZE" for m
    unfolding e_def using D(1) W(6) by (intro apply_writes_length) (auto dest!: in_set_takeD)
  have "e 1 = disk s 1" using out [of 1] W(2) C(8) D(3) by auto
  moreover have "e (log_start s) = disk s (log_start s)" using out [of "log_start s"] W(5) by simp
  ultimately have o: "redo_writes (log_start s) e = []" "image_ok (log_start s) (log_size s) (disksize s) e"
    using image_ok_empty [where e = e, OF C(6) _ len] C(7) by simp_all
  show "image_ok (log_start s) (log_size s) (disksize s) e" by (rule o(2))
  show "recovered (log_start s) e b = disk s b" if "b \<notin> log_area s"
    using out [of b] W(2) that by (auto simp: recovered_def o(1))
qed

text \<open>Once it is written recovery sees the new ones.\<close>

lemma commit_prefix_new:
  fixes k :: nat
  assumes c: "commit_ready s" and k: "length (log_writes s) < k"
  defines "e \<equiv> apply_writes (take k (commit_writes s)) (disk s)"
  shows "image_ok (log_start s) (log_size s) (disksize s) e"
    and "b \<notin> log_area s \<Longrightarrow> recovered (log_start s) e b = content s b"
proof -
  let ?st = "log_start s" and ?n = "nat (lh_n s)"
  note C = commit_readyD [OF c] and W = commit_write_blocks [OF c] and D = image_okD [OF C(6)]
  note F = full_head_fields [OF C(3,4) bc.content_length [OF C(1)]]
  define j where "j = k - length (log_writes s) - 1"
  define g where "g = (apply_writes (log_writes s) (disk s))(?st := full_head s)"
  have len: "length (e m) = BSIZE" for m
    unfolding e_def using D(1) W(6) by (intro apply_writes_length) (auto dest!: in_set_takeD)
  have st: "?st \<in> log_area s" using D(2) C(8) by simp
  have one: "1 \<notin> log_area s" using D(3) C(8) by simp
  have g_out: "g m = disk s m" if "m \<notin> log_area s" for m
  proof -
    have "m \<notin> fst ` set (log_writes s)" "m \<noteq> ?st" using that st W(2) by blast+
    then show ?thesis by (simp add: g_def apply_writes_other)
  qed
  have app: "apply_writes (home_writes s) g m = content s m" if "m \<notin> log_area s" for m
    using that g_out [of m] W(8) [of m g] content_clean [OF c, of m] by auto
  have split: "e = apply_writes (take j (home_writes s @ [(?st, empty_head s)])) g"
    using k by (simp add: e_def commit_writes_def j_def g_def take_Cons')
  have *: "image_ok ?st (log_size s) (disksize s) e \<and> (\<forall>b. b \<notin> log_area s \<longrightarrow> recovered ?st e b = content s b)"
  proof (cases "j \<le> length (home_writes s)")
    case True
    then have e: "e = apply_writes (take j (home_writes s)) g" by (simp add: split)
    have sub: "fst ` set (take j (home_writes s)) \<subseteq> fst ` set (home_writes s)" by (intro image_mono set_take_subset)
    have same: "e m = g m" if "m \<notin> set (logged s)" for m unfolding e using that sub W(3) by (intro apply_writes_other) auto
    have est: "e ?st = full_head s" using same [of ?st] st W(4) by (auto simp: g_def)
    have lt: "int i + 1 < log_size s" if "i < ?n" for i using C(4) that by (auto simp: trans_ok_def)
    have elog: "e (log_block s i) = content s (lh_block s ! i)" if "i < ?n" for i
      using same [of "log_block s i"] log_block_in(1,3) [OF C(3) lt [OF that]] W(4) W(7) [OF that] by (auto simp: g_def)
    have nl: "?n \<le> length (lh_block s)" using C(3,4) by (auto simp: log_ok_def trans_ok_def)
    have redo: "redo_writes ?st e = home_writes s"
    proof -
      have "redo_writes ?st e = map (\<lambda>i. (lh_block s ! i, content s (lh_block s ! i))) [0..<?n]"
        using F(3) elog by (simp add: redo_writes_def head_n_def est F(1) log_block_def)
      also have "\<dots> = home_writes s" using nl by (intro nth_equalityI) (auto simp: home_writes_def logged_def)
      finally show ?thesis .
    qed
    have "e 1 = disk s 1" using same [of 1] g_out [OF one] C(5) by simp
    moreover have "\<forall>(n, v)\<in>set (home_writes s). n < disksize s \<and> n \<notin> area ?st (log_size s) \<and> n \<noteq> 1"
      using C(4,5,8) by (auto simp: home_writes_def trans_ok_def home_ok_def)
    ultimately have "image_ok ?st (log_size s) (disksize s) e"
      using C(4,6) len redo est F(2) by (auto simp: image_ok_def trans_ok_def)
    moreover have "recovered ?st e = apply_writes (home_writes s) g"
      unfolding recovered_def redo unfolding e by (rule apply_writes_absorb [OF sub])
    ultimately show ?thesis using app by simp
  next
    case False
    then have e: "e = (apply_writes (home_writes s) g)(?st := empty_head s)" by (simp add: split)
    have "e 1 = disk s 1" using app [OF one] content_clean [OF c C(5)] st one by (auto simp: e)
    then have o: "redo_writes ?st e = []" "image_ok ?st (log_size s) (disksize s) e"
      using image_ok_empty [where e = e, OF C(6) _ len] F(4) by (simp_all add: e)
    have "recovered ?st e b = content s b" if "b \<notin> log_area s" for b
      using app [OF that] that st by (auto simp: recovered_def o(1)) (auto simp: e)
    then show ?thesis using o(2) by simp
  qed
  then show "image_ok ?st (log_size s) (disksize s) e" by simp
  show "recovered ?st e b = content s b" if "b \<notin> log_area s" using * that by simp
qed


subsection \<open>Logging a block\<close>

lemma log_write_logs:
  assumes wf: "cache_wf s" "log_ok s" "trans_ok s" and h: "holds s i n" "n < disksize s" "n \<notin> log_area s"
    and room: "lh_n s < log_size s - 1" "1 \<le> outstanding s"
  shows "\<exists>t. log_write i s = Done t \<and> cache_wf t \<and> log_ok t \<and> trans_ok t \<and> content t = content s \<and> disk t = disk s \<and>
    writes t = writes s \<and> dirty t = insert n (dirty s) \<and> held t = held s \<and> holds t = holds s \<and> disksize t = disksize s \<and>
    log_start t = log_start s \<and> log_size t = log_size s \<and> outstanding t = outstanding s \<and> committing t = committing s \<and>
    logged t = (if n \<in> set (logged s) then logged s else logged s @ [n])"
proof -
  let ?k = "nat (lh_n s)"
  have b: "blockno (bufs s ! i) = n" using holdsD(6) [OF wf(1) h(1)] .
  have n0: "0 \<le> lh_n s" "?k < length (lh_block s)" "lh_n s < int LOGSIZE" using wf(2,3) room by (auto simp: log_ok_def trans_ok_def)
  have lg: "logged s = take ?k (lh_block s)" by (simp add: logged_def)
  obtain u where u: "log_write i s = Done (pin i u)" "bufs u = bufs s" "u = s\<lparr>lh_block := lh_block u, lh_n := lh_n u\<rparr>"
    "logged u = (if n \<in> set (logged s) then logged s else logged s @ [n])" "length (lh_block u) = length (lh_block s)"
    "0 \<le> lh_n u" "lh_n u < log_size s"
  proof (cases "find_index (\<lambda>m. m = n) (take ?k (lh_block s))")
    case None
    then have "n \<notin> set (logged s)" by (auto simp: lg find_index_None_iff)
    moreover have "take (nat (lh_n s + 1)) ((lh_block s)[?k := n]) = take ?k (lh_block s) @ [n]"
      using n0 by (simp add: nat_add_distrib take_Suc_conv_app_nth)
    ultimately show ?thesis
      using None n0 room b
      by (intro that [of "s\<lparr>lh_block := (lh_block s)[?k := n], lh_n := lh_n s + 1\<rparr>"])
        (simp_all add: log_write_def Let_def logged_def)
  next
    case (Some j)
    then have j: "j < ?k" "lh_block s ! j = n" using n0 by (auto simp: find_index_Some_iff)
    then have "n \<in> set (logged s)" using logged_nth [of j s] n0 by simp
    moreover have "(lh_block s)[j := n] = lh_block s" using list_update_id [of "lh_block s" j] j(2) by simp
    ultimately show ?thesis
      using Some n0 room b j
      by (intro that [of s]) (simp_all add: log_write_def Let_def logged_def)
  qed
  have frame: "cache_wf u = cache_wf s" "content u = content s" "dirty u = dirty s" "held u = held s" "holds u = holds s" "disk u = disk s"
    "writes u = writes s" "disksize u = disksize s" "log_start u = log_start s" "log_size u = log_size s" "outstanding u = outstanding s"
    "log_dev u = log_dev s" "committing u = committing s"
    by (subst u(3), simp)+
  have p: "cache_wf (pin i u)" "content (pin i u) = content s" "disk (pin i u) = disk s" "writes (pin i u) = writes s"
    "dirty (pin i u) = insert n (dirty s)" "held (pin i u) = held s" "holds (pin i u) = holds s" "same_env u (pin i u)"
    using bc.mark_law [of u i n] wf(1) h(1) frame by (simp_all add: same_env_def)
  note l = same_env_log [OF p(8)]
  have lp: "logged (pin i u) = logged u" "log_area (pin i u) = log_area s" "disksize (pin i u) = disksize s"
    using l frame p(8) by (simp_all add: logged_def log_area_def same_env_def)
  have "log_ok (pin i u)" using wf(2) l lp(3) frame u(5) by (simp add: log_ok_def)
  moreover have "trans_ok (pin i u)"
    using wf(3) h(2,3) u(4,6,7) l(2,6) lp p(5) frame by (auto simp: trans_ok_def home_ok_def)
  ultimately show ?thesis using u(1,4) p l lp frame by (intro exI [of _ "pin i u"]) simp
qed


subsection \<open>A sample machine\<close>

definition demo_disk :: "u32 \<Rightarrow> block" where
  "demo_disk n = (if n = 1 then put32 (put32 (replicate BSIZE 0) 12 30) 16 2 else replicate BSIZE 0)"

definition demo :: lstate where
  "demo = (powerup demo_disk 4000 1)\<lparr>log_start := 2, log_size := 30, log_dev := 1\<rparr>"

definition demo_buf :: buf where
  "demo_buf = zero_buf\<lparr>bdev := 1, blockno := 100, b_valid := True, b_dirty := True, bdata := replicate BSIZE 7\<rparr>"

definition demo_trans :: lstate where
  "demo_trans = demo\<lparr>bufs := (bufs demo)[0 := demo_buf], lh_block := (lh_block demo)[0 := 100], lh_n := 1\<rparr>"

lemma get32_zeros [simp]: "k + 4 \<le> n \<Longrightarrow> get32 (replicate n 0) k = 0"
  by (simp add: get32_def)

lemma demo_disk_fields:
  "length (demo_disk m) = BSIZE" "get32 (demo_disk 2) 0 = 0" "sb_logstart (sb_of (demo_disk 1)) = 2" "sb_nlog (sb_of (demo_disk 1)) = 30"
  by (simp_all add: demo_disk_def sb_of_def layout_defs)

lemma demo_image: "image_ok 2 30 4000 demo_disk"
  using demo_disk_fields by (simp add: image_ok_def redo_writes_def head_n_def area_def layout_defs)

lemma powerup_fields:
  "log_start (powerup d n p) = 0" "lh_n (powerup d n p) = 0" "outstanding (powerup d n p) = 0" "committing (powerup d n p) = False"
  "bufs (powerup d n p) = replicate NBUF zero_buf"
proof -
  let ?s = "\<lparr>bufs = replicate NBUF zero_buf, bnext = replicate (Suc NBUF) 0, bprev = replicate (Suc NBUF) 0, disk = d, writes = [],
      disksize = n, curpid = p, log_start = 0, log_size = 0, outstanding = 0, committing = False, log_dev = 0, lh_n = 0,
      lh_block = replicate LOGSIZE 0\<rparr>"
  have "zero_buf\<lparr>block_lock := initsleeplock\<rparr> = zero_buf" by (simp add: zero_buf_def initsleeplock_def)
  then show "bufs (powerup d n p) = replicate NBUF zero_buf" using binit_frame(1) [of ?s] by (simp add: powerup_def)
  have "bstate.more (powerup d n p) = bstate.more ?s" using binit_frame(6) [of ?s] by (simp add: powerup_def)
  then show "log_start (powerup d n p) = 0" "lh_n (powerup d n p) = 0" "outstanding (powerup d n p) = 0" "committing (powerup d n p) = False"
    by (cases "powerup d n p", simp)+
qed

lemma demo_state:
  "cache_wf demo" "held demo = {}" "dirty demo = {}" "content demo = demo_disk" "disk demo = demo_disk" "disksize demo = 4000"
  "lh_block demo = replicate LOGSIZE 0" "lh_n demo = 0" "outstanding demo = 0" "committing demo = False" "log_start demo = 2" "log_size demo = 30"
  "log_dev demo = 1" "bufs demo = replicate NBUF zero_buf"
  using powerup_state [of demo_disk 4000 1, OF demo_disk_fields(1)] powerup_fields [of demo_disk 4000 1] by (simp_all add: demo_def)

lemma demo_ready: "commit_ready demo"
proof -
  have "log_ok demo" by (simp add: log_ok_def demo_state layout_defs)
  moreover have "trans_ok demo" by (simp add: trans_ok_def demo_state logged_def home_ok_def)
  ultimately show ?thesis using demo_image demo_disk_fields(2) by (simp add: commit_ready_def demo_state logged_def)
qed

lemma demo_trans_ready: "commit_ready demo_trans" "lh_n demo_trans = 1"
proof -
  let ?t = "demo\<lparr>bufs := (bufs demo)[0 := demo_buf]\<rparr>"
  have N: "0 < NBUF" by (simp add: layout_defs)
  have c: "caches m demo_buf \<longleftrightarrow> m = 100" "\<not> caches m (bufs demo ! i)" if "i < NBUF" for m i
    using that by (auto simp: caches_def demo_buf_def zero_buf_def demo_state)
  have "buf_ok (disk demo) demo_buf" by (simp add: buf_ok_def demo_buf_def zero_buf_def)
  then have wf: "cache_wf ?t" using c(2) by (intro cache_wf_replace [OF demo_state(1) N]) auto
  have "dirty ?t = {100}" "held ?t = {}"
    using dirty_replace [OF demo_state(1) N, of ?t demo_buf] held_replace [OF demo_state(1) N, of ?t demo_buf] c N
    by (auto simp: demo_state demo_buf_def zero_buf_def)
  then have v: "cache_wf demo_trans" "dirty demo_trans = {100}" "held demo_trans = {}" using wf by (simp_all add: demo_trans_def)
  have L: "logged demo_trans = [100]" by (simp add: logged_def demo_trans_def demo_state layout_defs take_Suc hd_conv_nth)
  have f: "log_start demo_trans = 2" "log_size demo_trans = 30" "disksize demo_trans = 4000" "disk demo_trans = demo_disk"
    "log_dev demo_trans = 1" "length (lh_block demo_trans) = LOGSIZE"
    by (simp_all add: demo_trans_def demo_state)
  show n: "lh_n demo_trans = 1" by (simp add: demo_trans_def)
  have "log_ok demo_trans" by (simp add: log_ok_def f layout_defs)
  moreover have "trans_ok demo_trans" by (simp add: trans_ok_def home_ok_def L v f n log_area_def)
  ultimately show "commit_ready demo_trans" using v L demo_image demo_disk_fields(2) by (simp add: commit_ready_def f)
qed


subsection \<open>Properties\<close>

text \<open>
  C14: Reading through the cache.  For a block of the disk that nobody holds,
  with a buffer to spare (the block is pinned in the cache, or fewer than
  \<open>NBUF\<close> buffers are pinned or held), \<^verbatim>\<open>bread\<close> returns a locked buffer with
  the block's current content, be it the disk's or a newer one that is only
  cached, and \<^verbatim>\<open>brelse\<close> gives the buffer back; neither changes the content
  of any block or the disk, and the cache invariant (one buffer per block,
  clean idle buffers equal to the disk, a list of all buffers) is kept.
\<close>

theorem bread_coherent:
  assumes "cache_wf s" "n \<notin> held s" "n < disksize s" "n \<in> dirty s \<or> card (dirty s \<union> held s) < NBUF"
  shows "\<exists>t i u. bread 1 n s = Done (t, i) \<and> cache_wf t \<and> holds t i n \<and> data_of t i = content s n \<and> content t = content s \<and> disk t = disk s \<and>
    brelse i t = Done u \<and> cache_wf u \<and> held u = held s \<and> content u = content s \<and> disk u = disk s"
proof -
  obtain t i where t: "bread 1 n s = Done (t, i)" "cache_wf t" "holds t i n" "content t = content s" "disk t = disk s" "dirty t = dirty s"
    "held t = insert n (held s)"
    using bc.read_law [OF assms(1,2) _ assms(4)] assms(3) by auto
  have "n \<in> dirty t \<or> content t n = disk t n" using bc.clean_law [OF assms(1,2)] t by auto
  then obtain u where "brelse i t = Done u" "cache_wf u" "content u = content t" "disk u = disk t" "held u = held t - {n}"
    using bc.release_law [OF t(2,3)] by auto
  then show ?thesis using t bc.data_law [OF t(2,3)] assms(2) by (intro exI [of _ t] exI [of _ i] exI [of _ u]) auto
qed

theorem bread_coherent_witness:
  "\<exists>t i u. bread 1 100 demo_trans = Done (t, i) \<and> cache_wf t \<and> holds t i 100 \<and> data_of t i = content demo_trans 100 \<and>
    content t = content demo_trans \<and> disk t = disk demo_trans \<and>
    brelse i t = Done u \<and> cache_wf u \<and> held u = held demo_trans \<and> content u = content demo_trans \<and> disk u = disk demo_trans"
proof (rule bread_coherent)
  note c = commit_readyD [OF demo_trans_ready(1)]
  show "cache_wf demo_trans" "100 \<notin> held demo_trans" using c by simp_all
  show "100 < disksize demo_trans" by (simp add: demo_trans_def demo_state)
  have "logged demo_trans = [100]" by (simp add: logged_def demo_trans_def demo_state layout_defs take_Suc hd_conv_nth)
  then show "100 \<in> dirty demo_trans \<or> card (dirty demo_trans \<union> held demo_trans) < NBUF" using c(4) by (simp add: trans_ok_def)
qed

text \<open>
  C15: The cache replaces the least recently used buffer.  With the buffers
  linked in the order \<open>xs\<close>, \<^verbatim>\<open>brelse\<close> of a buffer nobody else refers to
  relinks it to the front and keeps the others in order; \<^verbatim>\<open>bget\<close> of a block
  that is not cached takes the last buffer in that order that is neither
  referenced nor dirty, and panics exactly when there is none.
\<close>

theorem cache_replaces_lru:
  assumes "linked s xs" "set xs = {..<NBUF}" "length (bufs s) = NBUF"
  shows "(i < NBUF \<and> sl_locked (block_lock (bufs s ! i)) \<and> refcnt (bufs s ! i) = 1 \<longrightarrow>
        (\<exists>t. brelse i s = Done t \<and> linked t (i # remove1 i xs))) \<and>
    ((\<forall>j<NBUF. \<not> (bdev (bufs s ! j) = dev \<and> blockno (bufs s ! j) = n)) \<longrightarrow>
        (case find (\<lambda>j. refcnt (bufs s ! j) = 0 \<and> \<not> b_dirty (bufs s ! j)) (rev xs) of
           None \<Rightarrow> bget dev n s = Panic ''bget: no buffers''
         | Some j \<Rightarrow> \<not> sl_locked (block_lock (bufs s ! j)) \<longrightarrow> (\<exists>t. bget dev n s = Done (t, j) \<and> linked t xs)))"
proof (intro conjI impI)
  assume i: "i < NBUF \<and> sl_locked (block_lock (bufs s ! i)) \<and> refcnt (bufs s ! i) = 1"
  let ?u = "s\<lparr>bufs := upd_at i (\<lambda>b. b\<lparr>refcnt := refcnt b - 1\<rparr>) (upd_at i (\<lambda>b. b\<lparr>block_lock := releasesleep (block_lock b)\<rparr>) (bufs s))\<rparr>"
  have "linked (link_front i (unlink i ?u)) (i # remove1 i xs)" using assms i by (intro move_to_front) auto
  moreover have "brelse i s = Done (link_front i (unlink i ?u))"
    using i assms(3) by (simp add: brelse_def holdingsleep_def Let_def)
  ultimately show "\<exists>t. brelse i s = Done t \<and> linked t (i # remove1 i xs)" by blast
next
  assume "\<forall>j<NBUF. \<not> (bdev (bufs s ! j) = dev \<and> blockno (bufs s ! j) = n)"
  then have miss: "find (\<lambda>j. bdev (bufs s ! j) = dev \<and> blockno (bufs s ! j) = n) xs = None" using assms(2) by (auto simp: find_None_iff)
  let ?f = "find (\<lambda>j. refcnt (bufs s ! j) = 0 \<and> \<not> b_dirty (bufs s ! j)) (rev xs)"
  show "case ?f of None \<Rightarrow> bget dev n s = Panic ''bget: no buffers''
     | Some j \<Rightarrow> \<not> sl_locked (block_lock (bufs s ! j)) \<longrightarrow> (\<exists>t. bget dev n s = Done (t, j) \<and> linked t xs)"
  proof (cases ?f)
    case None
    then show ?thesis using miss linked_scan [OF assms(1)] by (simp add: bget_def)
  next
    case (Some j)
    then have "j < NBUF" using find_Some_in [OF Some] assms(2) by auto
    then show ?thesis using miss Some linked_scan [OF assms(1)] assms(1,3)
      by (auto simp: bget_def lock_buf_def acquiresleep_def)
  qed
qed

theorem cache_replaces_lru_witness:
  "\<exists>t. bget 1 9 demo_trans = Done (t, 1) \<and> linked t (rev [0..<NBUF])"
proof -
  have "linked demo_trans xs = linked (powerup demo_disk 4000 1) xs" for xs by (simp add: demo_trans_def demo_def linked_def)
  then have l: "linked demo_trans (rev [0..<NBUF])" using powerup_linked by simp
  have b: "bufs demo_trans = demo_buf # replicate 29 zero_buf"
    by (simp add: demo_trans_def demo_state layout_defs numeral_eq_Suc)
  have none: "\<forall>j<NBUF. \<not> (bdev (bufs demo_trans ! j) = 1 \<and> blockno (bufs demo_trans ! j) = 9)"
    unfolding b by (simp add: layout_defs nth_Cons' zero_buf_def demo_buf_def)
  have "find (\<lambda>j. refcnt (bufs demo_trans ! j) = 0 \<and> \<not> b_dirty (bufs demo_trans ! j)) [0..<NBUF] = Some 1"
    unfolding b by (simp add: layout_defs upt_rec zero_buf_def demo_buf_def)
  then show ?thesis
    using cache_replaces_lru [OF l, where dev = 1 and n = 9 and i = 0] none b by (simp add: layout_defs zero_buf_def demo_buf_def atLeast0LessThan)
qed

lemma commit_result:
  assumes c: "commit_ready s" and n: "0 < lh_n s"
  shows "\<exists>t. commit s = Done t \<and> lh_n t = 0 \<and> cache_wf t \<and> held t = {} \<and> dirty t = {} \<and> writes t = writes s @ commit_writes s \<and>
    (\<forall>b. b \<notin> log_area s \<longrightarrow> disk t b = content s b \<and> content t b = content s b)"
proof -
  note C = commit_readyD [OF c] and W = commit_write_blocks [OF c]
  obtain t where t: "commit s = Done t" "wrote (s\<lparr>lh_n := 0\<rparr>) (commit_writes s) t" using commit_performs [OF C(1-4) n] by auto
  note w = wrote_same [OF t(2)]
  have st: "log_start s \<in> log_area s" using log_start_in [OF C(3)] by simp
  have all: "apply_writes (commit_writes s) d b = content s b" if "b \<notin> log_area s" "b \<notin> set (logged s) \<longrightarrow> d b = content s b" for b d
  proof -
    have "b \<notin> fst ` set (log_writes s)" "b \<noteq> log_start s" using that(1) st W(2) by blast+
    then show ?thesis using that W(8) [OF that(1)] by (simp add: commit_writes_def apply_writes_other)
  qed
  have "dirty t = {}" using w(8) W(3) C(4) by (auto simp: commit_writes_def trans_ok_def image_Un)
  moreover have "disk t b = content s b \<and> content t b = content s b" if "b \<notin> log_area s" for b
    using all [OF that, of "disk s"] all [OF that, of "content s"] content_clean [OF c, of b] w(12,13) by simp
  ultimately show ?thesis using t(1) w by (intro exI [of _ t]) simp
qed

text \<open>
  C3: \<^verbatim>\<open>commit\<close> is atomic with respect to crashes.  On a formatted disk with an
  empty log, \<^verbatim>\<open>commit\<close> of a transaction returns with the logged blocks
  installed, and if the machine crashes after any number \<open>k\<close> of its block
  writes, \<^verbatim>\<open>initlog\<close> on the next boot returns with every block outside the
  log as it was before the transaction, or every block as the transaction left
  it: never a mixture.
\<close>

theorem commit_crash_safe:
  assumes "commit_ready s" "0 < lh_n s"
  shows "\<exists>t W. commit s = Done t \<and> lh_n t = 0 \<and> writes t = writes s @ W \<and>
    (\<forall>b. b \<notin> log_area s \<longrightarrow> disk t b = content s b) \<and>
    (\<forall>k. \<exists>r. initlog 1 (powerup (apply_writes (take k W) (disk s)) (disksize s) p) = Done r \<and>
       ((\<forall>b. b \<notin> log_area s \<longrightarrow> disk r b = disk s b) \<or> (\<forall>b. b \<notin> log_area s \<longrightarrow> disk r b = content s b)))"
proof -
  obtain t where t: "commit s = Done t" "lh_n t = 0" "writes t = writes s @ commit_writes s"
    "\<forall>b. b \<notin> log_area s \<longrightarrow> disk t b = content s b"
    using commit_result [OF assms] by auto
  have "\<exists>r. initlog 1 (powerup (apply_writes (take k (commit_writes s)) (disk s)) (disksize s) p) = Done r \<and>
       ((\<forall>b. b \<notin> log_area s \<longrightarrow> disk r b = disk s b) \<or> (\<forall>b. b \<notin> log_area s \<longrightarrow> disk r b = content s b))" for k
  proof -
    let ?e = "apply_writes (take k (commit_writes s)) (disk s)"
    have ok: "image_ok (log_start s) (log_size s) (disksize s) ?e"
      using commit_prefix_old(1) [OF assms(1), of k] commit_prefix_new(1) [OF assms(1), of k] by linarith
    obtain r where r: "initlog 1 (powerup ?e (disksize s) p) = Done r" using initlog_performs [OF ok, of p] by auto
    have "disk r b = recovered (log_start s) ?e b" if "b \<notin> log_area s" for b
      using initlog_recovers [OF ok r] that commit_readyD(8) [OF assms(1)] by simp
    then show ?thesis
      using r commit_prefix_old(2) [OF assms(1), of k] commit_prefix_new(2) [OF assms(1), of k]
      by (cases "k \<le> length (log_writes s)") auto
  qed
  then show ?thesis using t by blast
qed

theorem commit_crash_safe_witness:
  "0 < lh_n demo_trans \<and> (\<exists>t W. commit demo_trans = Done t \<and> lh_n t = 0 \<and> writes t = writes demo_trans @ W \<and>
    (\<forall>b. b \<notin> log_area demo_trans \<longrightarrow> disk t b = content demo_trans b) \<and>
    (\<forall>k. \<exists>r. initlog 1 (powerup (apply_writes (take k W) (disk demo_trans)) (disksize demo_trans) 1) = Done r \<and>
       ((\<forall>b. b \<notin> log_area demo_trans \<longrightarrow> disk r b = disk demo_trans b) \<or>
        (\<forall>b. b \<notin> log_area demo_trans \<longrightarrow> disk r b = content demo_trans b))))"
  using commit_crash_safe [OF demo_trans_ready(1), of 1] demo_trans_ready(2) by simp

text \<open>
  C4: Recovery can itself be interrupted.  From a good disk image \<^verbatim>\<open>initlog\<close>
  returns; if the machine crashes after any number \<open>k\<close> of the writes of that
  recovery, the next \<^verbatim>\<open>initlog\<close> returns too and leaves every block outside
  the log as the uninterrupted recovery would have.
\<close>

theorem recovery_crash_safe:
  assumes "image_ok st sz N d"
  shows "\<exists>r. initlog 1 (powerup d N p) = Done r \<and> get32 (disk r st) 0 = 0 \<and>
    (\<forall>k. \<exists>r'. initlog 1 (powerup (apply_writes (take k (writes r)) d) N p) = Done r' \<and>
       (\<forall>b. b \<notin> area st sz \<longrightarrow> disk r' b = disk r b))"
proof -
  obtain r h where r: "initlog 1 (powerup d N p) = Done r" "get32 h 0 = 0" "length h = BSIZE"
    "disk r = apply_writes (redo_writes st d @ [(st, h)]) d" "writes r = redo_writes st d @ [(st, h)]"
    using initlog_performs [OF assms, of p] by auto
  have "\<exists>r'. initlog 1 (powerup (apply_writes (take k (writes r)) d) N p) = Done r' \<and>
       (\<forall>b. b \<notin> area st sz \<longrightarrow> disk r' b = disk r b)" for k
  proof -
    let ?e = "apply_writes (take k (writes r)) d"
    have e: "image_ok st sz N ?e" "\<forall>b. b \<notin> area st sz \<longrightarrow> recovered st ?e b = recovered st d b"
      using recovery_prefix [OF assms r(2,3), of k] unfolding r(5) by simp_all
    obtain r' where r': "initlog 1 (powerup ?e N p) = Done r'" using initlog_performs [OF e(1), of p] by auto
    show ?thesis using initlog_recovers [OF e(1) r'] initlog_recovers [OF assms r(1)] e(2) r' by auto
  qed
  then show ?thesis using r by simp
qed

theorem recovery_crash_safe_witness:
  "\<exists>r. initlog 1 (powerup demo_disk 4000 1) = Done r \<and> get32 (disk r 2) 0 = 0 \<and>
    (\<forall>k. \<exists>r'. initlog 1 (powerup (apply_writes (take k (writes r)) demo_disk) 4000 1) = Done r' \<and>
       (\<forall>b. b \<notin> area 2 30 \<longrightarrow> disk r' b = disk r b))"
  using recovery_crash_safe [OF demo_image, of 1] .


lemma same_env_trans_ok:
  assumes "same_env s t" "dirty t = dirty s"
  shows "trans_ok t = trans_ok s" "log_ok t = log_ok s" "log_area t = log_area s" "logged t = logged s"
  using same_env_log [OF assms(1)] assms by (simp_all add: trans_ok_def log_ok_def log_area_def logged_def home_ok_def same_env_def)

lemma commit_ready_flags [simp]:
  "commit_ready (s\<lparr>outstanding := c\<rparr>) = commit_ready s" "commit_ready (s\<lparr>committing := d\<rparr>) = commit_ready s"
  "log_area (s\<lparr>outstanding := c\<rparr>) = log_area s" "log_area (s\<lparr>committing := d\<rparr>) = log_area s"
  by (simp_all add: commit_ready_def log_ok_def trans_ok_def logged_def home_ok_def log_area_def)

lemma commit_flags:
  assumes "commit_ready s" "0 < lh_n s" "commit s = Done t"
  shows "outstanding t = outstanding s" "committing t = committing s"
  using commit_performs [of s] commit_readyD [OF assms(1)] assms(2,3) wrote_same [of "s\<lparr>lh_n := 0\<rparr>" "commit_writes s" t] by auto

text \<open>
  C13: A logged update is durable.  The use of the log that \<^verbatim>\<open>log.c\<close> describes
  (\<^verbatim>\<open>begin_op\<close>, read a block, modify it, \<^verbatim>\<open>log_write\<close>, \<^verbatim>\<open>brelse\<close>, \<^verbatim>\<open>end_op\<close>)
  by the only active operation returns without sleeping or panicking, with the
  modified block on the disk, every other block outside the log unchanged, and
  the log empty again.
\<close>

theorem logged_update_durable:
  assumes c: "commit_ready s" and idle: "lh_n s = 0" "outstanding s = 0" "\<not> committing s" "2 \<le> log_size s"
    and n: "n < disksize s" "n \<notin> log_area s" "n \<noteq> 1" "length (f (disk s n)) = BSIZE"
  shows "\<exists>t. and_then (begin_op s) (\<lambda>s. and_then (bread 1 n s) (\<lambda>(s, b). and_then (log_write b (edit b f s)) (\<lambda>s.
        and_then (brelse b s) end_op))) = Done t \<and> lh_n t = 0 \<and> outstanding t = 0 \<and> \<not> committing t \<and>
      (\<forall>m. m \<notin> log_area s \<longrightarrow> disk t m = (if m = n then f (disk s n) else disk s m))"
proof -
  note C = commit_readyD [OF c]
  let ?a = "s\<lparr>outstanding := 1\<rparr>"
  have a: "begin_op s = Done ?a" "dirty s = {}" "logged s = []" using idle C(4) by (auto simp: begin_op_def layout_defs trans_ok_def logged_def)
  have cs: "content s m = disk s m" for m using content_clean [OF c] a(3) by simp
  have "0 < NBUF" by (simp add: layout_defs)
  then obtain u i where u: "bread 1 n ?a = Done (u, i)" "cache_wf u" "holds u i n" "held u = {n}" "content u = disk s" "disk u = disk s"
    "writes u = writes s" "dirty u = {}" "same_env ?a u"
    using bc.read_release [of ?a n] C(1,2) n(1) a(2) cs by (auto simp: same_env_def fun_eq_iff)
  let ?v = "edit i f u"
  have v: "cache_wf ?v" "holds ?v = holds u" "held ?v = {n}" "content ?v = (disk s)(n := f (disk s n))" "disk ?v = disk s" "dirty ?v = {}"
    "same_env ?a ?v"
    using bc.modify_law [OF u(2,3), of f] u n(4) by (auto simp: same_env_def)
  note lv = same_env_log [OF v(7)] and tv = same_env_trans_ok [OF v(7)]
  have vv: "trans_ok ?v" "log_ok ?v" "log_area ?v = log_area s" "logged ?v = []" "disksize ?v = disksize s"
    using tv v(6,7) C(3,4) a(2,3) by (simp_all add: trans_ok_def log_ok_def logged_def home_ok_def log_area_def same_env_def)
  obtain w where w: "log_write i ?v = Done w" "cache_wf w" "log_ok w" "trans_ok w" "content w = (disk s)(n := f (disk s n))" "disk w = disk s"
    "dirty w = {n}" "held w = {n}" "holds w = holds u" "disksize w = disksize s" "log_start w = log_start s" "log_size w = log_size s"
    "outstanding w = 1" "\<not> committing w" "logged w = [n]"
    using log_write_logs [OF v(1) vv(2,1), of i n] v u(3) n vv lv idle by auto
  obtain x where x: "brelse i w = Done x" "cache_wf x" "content x = content w" "disk x = disk w" "dirty x = {n}" "held x = {}" "same_env w x"
    using bc.release_law [OF w(2), of i n] w u(3) by (auto simp: same_env_def)
  note lx = same_env_log [OF x(7)] and tx = same_env_trans_ok [OF x(7)]
  have X: "commit_ready x" "log_area x = log_area s" "0 < lh_n x"
    using tx lx x w C n(3) x(7)
    by (auto simp: commit_ready_def same_env_def log_area_def logged_def split: if_splits)
  let ?y = "x\<lparr>outstanding := 0, committing := True\<rparr>"
  have Y: "commit_ready ?y" "0 < lh_n ?y" "log_area ?y = log_area s" "content ?y = (disk s)(n := f (disk s n))" using X w x by simp_all
  obtain z where z: "commit ?y = Done z" "lh_n z = 0" "\<forall>b. b \<notin> log_area ?y \<longrightarrow> disk z b = content ?y b"
    using commit_result [OF Y(1,2)] by auto
  have "end_op x = Done (z\<lparr>committing := False\<rparr>)" using z(1) lx w by (simp add: end_op_def Let_def)
  then show ?thesis
    using a(1) u(1) w(1) x(1) z commit_flags [OF Y(1,2) z(1)] Y by (intro exI [of _ "z\<lparr>committing := False\<rparr>"]) simp
qed

theorem logged_update_durable_witness:
  "\<exists>t. and_then (begin_op demo) (\<lambda>s. and_then (bread 1 500 s) (\<lambda>(s, b). and_then (log_write b (edit b (\<lambda>d. d[3 := 9]) s)) (\<lambda>s.
        and_then (brelse b s) end_op))) = Done t \<and> lh_n t = 0 \<and> outstanding t = 0 \<and> \<not> committing t \<and>
      (\<forall>m. m \<notin> log_area demo \<longrightarrow> disk t m = (if m = 500 then (disk demo 500)[3 := 9] else disk demo m))"
  by (rule logged_update_durable [OF demo_ready]) (simp_all add: demo_state log_area_def demo_disk_def)

end
