(* ===== verification/Fs_Blocks.thy ===== *)
theory Fs_Blocks
  imports Fs Crash
begin

text \<open>
  Block allocation and logged updates inside a transaction.  \<open>in_op\<close> is the
  state of a file-system operation between \<^verbatim>\<open>begin_op\<close> and \<^verbatim>\<open>end_op\<close>;
  \<open>content\<close>, what a reader sees through the cache, is the file system's view
  of the disk.
\<close>

unbundle bit_operations_syntax

subsection \<open>Reads and logged updates\<close>

definition in_op :: "'a lstate_scheme \<Rightarrow> bool" where
  "in_op s \<longleftrightarrow> cache_wf s \<and> log_ok s \<and> trans_ok s \<and> 1 \<le> outstanding s"

text \<open>Room for \<open>k\<close> more logged blocks, the held buffers taken into account.\<close>

definition room :: "'a lstate_scheme \<Rightarrow> nat \<Rightarrow> bool" where
  "room s k \<longleftrightarrow> lh_n s + int k + int (card (held s)) < log_size s"

definition same_op :: "'a lstate_scheme \<Rightarrow> 'a lstate_scheme \<Rightarrow> bool" where
  "same_op s t \<longleftrightarrow> disksize t = disksize s \<and> curpid t = curpid s \<and> log_start t = log_start s \<and> log_size t = log_size s \<and>
     outstanding t = outstanding s \<and> committing t = committing s \<and> log_dev t = log_dev s \<and> lstate.more t = lstate.more s \<and>
     disk t = disk s \<and> writes t = writes s"

lemma same_op_refl [simp]: "same_op s s"
  by (simp add: same_op_def)

lemma same_op_trans: "same_op s t \<Longrightarrow> same_op t u \<Longrightarrow> same_op s u"
  by (simp add: same_op_def)

lemma same_env_op:
  assumes "same_env s t" "disk t = disk s" "writes t = writes s"
  shows "same_op s t" "lh_n t = lh_n s" "lh_block t = lh_block s"
proof -
  have "lstate.more t = lstate.more s" using assms(1) by (cases s; cases t; simp add: same_env_def)
  then show "same_op s t" "lh_n t = lh_n s" "lh_block t = lh_block s"
    using same_env_log [OF assms(1)] assms by (simp_all add: same_op_def same_env_def)
qed

lemma same_op_area: "same_op s t \<Longrightarrow> log_area t = log_area s"
  by (simp add: same_op_def log_area_def)

lemma fs_fields:
  fixes s t :: "'a fstate_scheme"
  assumes "same_op s t"
  shows "sb t = sb s" "inodes t = inodes s" "fstate.more t = fstate.more s"
  using assms by (cases s; cases t; simp add: same_op_def)+

lemma dirty_count:
  assumes "in_op s" shows "card (dirty s) \<le> nat (lh_n s)" "0 \<le> lh_n s" "lh_n s < int NBUF" "log_size s \<le> int NBUF"
proof -
  have t: "log_ok s" "trans_ok s" using assms by (simp_all add: in_op_def)
  then show "card (dirty s) \<le> nat (lh_n s)" "0 \<le> lh_n s" "lh_n s < int NBUF" "log_size s \<le> int NBUF"
    using card_length [of "logged s"] logged_length [of s] by (auto simp: trans_ok_def NBUF_LOGSIZE log_ok_def)
qed

lemma room_buffers:
  assumes "in_op s" "room s k"
  shows "card (dirty s \<union> held s) < NBUF"
proof -
  have "card (dirty s \<union> held s) \<le> card (dirty s) + card (held s)" by (rule card_Un_le)
  then show ?thesis using dirty_count [OF assms(1)] assms(2) by (auto simp: room_def)
qed

text \<open>Reading a block and giving the buffer back changes nothing a client can see.\<close>

definition viewed :: "'a bstate_scheme \<Rightarrow> 'a bstate_scheme \<Rightarrow> bool" where
  "viewed s t \<longleftrightarrow> cache_wf t \<and> held t = held s \<and> content t = content s \<and> disk t = disk s \<and> writes t = writes s \<and> dirty t = dirty s \<and>
     same_env s t \<and> (\<forall>j m. holds s j m \<longrightarrow> holds t j m)"

definition readable :: "'a bstate_scheme \<Rightarrow> bool" where
  "readable s \<longleftrightarrow> cache_wf s \<and> card (dirty s \<union> held s) < NBUF"

lemma viewed_refl: "cache_wf s \<Longrightarrow> viewed s s"
  by (simp add: viewed_def)

lemma viewed_trans: "viewed s t \<Longrightarrow> viewed t u \<Longrightarrow> viewed s u"
  by (auto simp: viewed_def intro: same_env_trans)

lemma viewed_readable: "viewed s t \<Longrightarrow> readable s \<Longrightarrow> readable t"
  by (simp add: viewed_def readable_def)

lemma read_viewed:
  assumes r: "readable s" and n: "n < disksize s" "n \<notin> held s"
  shows "\<exists>t i u. bread 1 n s = Done (t, i) \<and> data_of t i = content s n \<and> cache_wf t \<and> held t = insert n (held s) \<and> content t = content s \<and>
    disk t = disk s \<and> writes t = writes s \<and> dirty t = dirty s \<and> same_env s t \<and> holds t i n \<and> (\<forall>j m. holds s j m \<longrightarrow> holds t j m) \<and>
    brelse i t = Done u \<and> viewed s u"
proof -
  have wf: "cache_wf s" "card (dirty s \<union> held s) < NBUF" using r by (simp_all add: readable_def)
  obtain t i where t: "bread 1 n s = Done (t, i)" "cache_wf t" "holds t i n" "content t = content s" "disk t = disk s" "dirty t = dirty s"
    "held t = insert n (held s)" "writes t = writes s" "same_env s t" "\<forall>j m. holds s j m \<longrightarrow> holds t j m"
    using bc.read_law [OF wf(1) n(2) _ disjI2 [OF wf(2)]] n(1) by (auto simp: same_env_def)
  have "n \<in> dirty t \<or> content t n = disk t n" using bc.clean_law [OF wf(1) n(2)] t by auto
  then obtain u where u: "brelse i t = Done u" "cache_wf u" "content u = content t" "disk u = disk t" "writes u = writes t" "dirty u = dirty t"
    "held u = held t - {n}" "same_env t u" "\<forall>j m. m \<noteq> n \<longrightarrow> holds t j m \<longrightarrow> holds u j m"
    using bc.release_law [OF t(2,3)] by (auto simp: same_env_def)
  have "holds u j m" if "holds s j m" for j m
  proof -
    have "m \<noteq> n" using n(2) held_holds [OF that] by auto
    then show ?thesis using that t(10) u(9) by simp
  qed
  then have "viewed s u" using same_env_trans [OF t(9) u(8)] t u n(2) by (auto simp: viewed_def)
  then show ?thesis using t u(1) bc.data_law [OF t(2,3)] by (intro exI [of _ t] exI [of _ i] exI [of _ u]) simp
qed

lemma viewed_op:
  fixes s t :: "'a lstate_scheme"
  assumes "same_env s t" "dirty t = dirty s" "disk t = disk s" "writes t = writes s" "cache_wf t" "in_op s"
  shows "same_op s t" "lh_n t = lh_n s" "in_op t"
  using assms same_env_op [OF assms(1,3,4)] same_env_trans_ok [OF assms(1,2)] same_env_log [OF assms(1)] by (auto simp: in_op_def)

lemma read_in_op:
  assumes op: "in_op s" "room s 0" and n: "n < disksize s" "n \<notin> held s"
  shows "\<exists>t i u. bread 1 n s = Done (t, i) \<and> data_of t i = content s n \<and> same_op s t \<and> lh_n t = lh_n s \<and> in_op t \<and> held t = insert n (held s) \<and>
    content t = content s \<and> dirty t = dirty s \<and> holds t i n \<and> (\<forall>j m. holds s j m \<longrightarrow> holds t j m) \<and>
    brelse i t = Done u \<and> same_op s u \<and> lh_n u = lh_n s \<and> in_op u \<and> held u = held s \<and> content u = content s \<and> dirty u = dirty s \<and>
    (\<forall>j m. holds s j m \<longrightarrow> holds u j m)"
proof -
  have "readable s" using op room_buffers [OF op] by (simp add: readable_def in_op_def)
  then obtain t i u where t: "bread 1 n s = Done (t, i)" "data_of t i = content s n" "cache_wf t" "held t = insert n (held s)" "content t = content s"
    "disk t = disk s" "writes t = writes s" "dirty t = dirty s" "same_env s t" "holds t i n" "\<forall>j m. holds s j m \<longrightarrow> holds t j m"
    and u: "brelse i t = Done u" "viewed s u"
    using read_viewed [OF _ n] by blast
  show ?thesis
    using t u(1) viewed_op [OF t(9,8,6,7,3) op(1)] u(2) viewed_op [of s u] op(1)
    by (intro exI [of _ t] exI [of _ i] exI [of _ u]) (auto simp: viewed_def)
qed

lemma log_write_more: "log_write i s = Done t \<Longrightarrow> lstate.more t = lstate.more s \<and> curpid t = curpid s \<and> log_dev t = log_dev s"
  by (auto simp: log_write_def Let_def pin_def split: if_splits)

lemma logged_length_n: "log_ok s \<Longrightarrow> trans_ok s \<Longrightarrow> lh_n s = int (length (logged s))"
  using logged_length [of s] by (simp add: trans_ok_def)

text \<open>Change a held buffer and log it.\<close>

lemma edit_log_in_op:
  assumes op: "in_op s" "room s 0" and h: "holds s i n" "n < disksize s" "n \<notin> log_area s" "length (f (content s n)) = BSIZE"
  shows "\<exists>t. log_write i (edit i f s) = Done t \<and> same_op s t \<and> lh_n t \<le> lh_n s + 1 \<and> in_op t \<and> held t = held s \<and> holds t = holds s \<and>
    content t = (content s)(n := f (content s n)) \<and> dirty t = insert n (dirty s)"
proof -
  have wf: "cache_wf s" "log_ok s" "trans_ok s" "1 \<le> outstanding s" using op by (simp_all add: in_op_def)
  have v: "cache_wf (edit i f s)" "content (edit i f s) = (content s)(n := f (content s n))" "dirty (edit i f s) = dirty s"
    "held (edit i f s) = held s" "holds (edit i f s) = holds s" "same_env s (edit i f s)"
    using bc.modify_law [OF wf(1) h(1), of f] h(4) by (auto simp: same_env_def)
  note sv = same_env_op [OF v(6)] and lv = same_env_log [OF v(6)] and tv = same_env_trans_ok [OF v(6,3)]
  have "n \<in> held s" by (rule held_holds [OF h(1)])
  moreover have "finite (held s)" using finite_pinned [of s] by simp
  ultimately have c: "1 \<le> card (held s)" by (metis One_nat_def Suc_leI card_gt_0_iff empty_iff)
  obtain t where t: "log_write i (edit i f s) = Done t" "cache_wf t" "log_ok t" "trans_ok t" "content t = content (edit i f s)"
    "disk t = disk s" "writes t = writes s" "dirty t = insert n (dirty s)" "held t = held s" "holds t = holds s" "disksize t = disksize s"
    "log_start t = log_start s" "log_size t = log_size s" "outstanding t = outstanding s" "committing t = committing s"
    "logged t = (if n \<in> set (logged s) then logged s else logged s @ [n])"
    using log_write_logs [OF v(1), of i n] tv wf v lv h op(2) c by (auto simp: room_def)
  have n: "lh_n t \<le> lh_n s + 1" using logged_length_n [OF t(3,4)] logged_length_n [OF wf(2,3)] t(16) by simp
  have "same_op s t" using t log_write_more [OF t(1)] sv lv by (simp add: same_op_def)
  then show ?thesis using t n wf(4) v(2) by (intro exI [of _ t]) (auto simp: in_op_def)
qed

text \<open>Release a buffer that has been logged, or not been changed.\<close>

lemma release_in_op:
  assumes op: "in_op s" and h: "holds s i n" "n \<in> dirty s \<or> content s n = disk s n"
  shows "\<exists>t. brelse i s = Done t \<and> same_op s t \<and> lh_n t = lh_n s \<and> in_op t \<and> held t = held s - {n} \<and> content t = content s \<and> dirty t = dirty s \<and>
    (\<forall>j m. m \<noteq> n \<longrightarrow> holds s j m \<longrightarrow> holds t j m)"
proof -
  have wf: "cache_wf s" using op by (simp add: in_op_def)
  obtain t where t: "brelse i s = Done t" "cache_wf t" "content t = content s" "disk t = disk s" "writes t = writes s" "dirty t = dirty s"
    "held t = held s - {n}" "same_env s t" "\<forall>j m. m \<noteq> n \<longrightarrow> holds s j m \<longrightarrow> holds t j m"
    using bc.release_law [OF wf h] by (auto simp: same_env_def)
  then show ?thesis
    using same_env_op [OF t(8,4,5)] same_env_trans_ok [OF t(8,6)] same_env_log [OF t(8)] op
    by (intro exI [of _ t]) (auto simp: in_op_def)
qed


subsection \<open>The free map\<close>

lemma bit_free_bit: "bit_free d k \<longleftrightarrow> \<not> bit (d ! (k div 8)) (k mod 8)"
  by (simp add: bit_free_def push_bit_of_1 and_exp_eq_0_iff_not_bit)

lemma same_bit: "k div 8 = j div 8 \<Longrightarrow> k mod 8 = j mod 8 \<longleftrightarrow> (k :: nat) = j"
  by (metis div_mult_mod_eq)

lemma bit_free_mark_used:
  assumes "k < 8 * length d" shows "bit_free (mark_used k d) j \<longleftrightarrow> bit_free d j \<and> j \<noteq> k"
proof (cases "j div 8 = k div 8")
  case True
  have "k div 8 < length d" using assms by auto
  moreover have "j mod 8 < 8" by simp
  ultimately show ?thesis using True same_bit [of k j] unfolding bit_free_bit mark_used_def
    by (auto simp: bit_simps)
next
  case False
  then show ?thesis unfolding bit_free_bit mark_used_def by auto
qed

lemma bit_free_mark_free:
  assumes "k < 8 * length d" shows "bit_free (mark_free k d) j \<longleftrightarrow> bit_free d j \<or> j = k"
proof (cases "j div 8 = k div 8")
  case True
  have "k div 8 < length d" using assms by auto
  moreover have "j mod 8 < 8" by simp
  ultimately show ?thesis using True same_bit [of k j] unfolding bit_free_bit mark_free_def
    by (auto simp: bit_simps)
next
  case False
  then show ?thesis unfolding bit_free_bit mark_free_def by auto
qed

lemma length_mark [simp]: "length (mark_used k d) = length d" "length (mark_free k d) = length d"
  by (simp_all add: mark_used_def mark_free_def)

definition used :: "'a fstate_scheme \<Rightarrow> u32 \<Rightarrow> bool" where
  "used s b \<longleftrightarrow> \<not> bit_free (content s (BBLOCK b (sb s))) (unat b mod BPB)"

definition fs_size :: "'a fstate_scheme \<Rightarrow> nat" where
  "fs_size s = unat (sb_size (sb s))"

text \<open>
  The layout of the disk: the free map lies inside the file system and outside
  the log, and the blocks of the log and of the free map are in use.
\<close>

definition alloc_wf :: "'a fstate_scheme \<Rightarrow> bool" where
  "alloc_wf s \<longleftrightarrow> fs_size s \<le> unat (disksize s) \<and> used s 1 \<and>
     (\<forall>b. unat b < fs_size s \<longrightarrow> unat (BBLOCK b (sb s)) < fs_size s \<and> BBLOCK b (sb s) \<notin> log_area s \<and> BBLOCK b (sb s) \<noteq> 1 \<and>
        used s (BBLOCK b (sb s)) \<and> (b \<in> log_area s \<longrightarrow> used s b))"

lemma BBLOCK_eq:
  "unat a div BPB = unat b div BPB \<Longrightarrow> BBLOCK a x = BBLOCK b x"
proof -
  assume "unat a div BPB = unat b div BPB"
  then have "a div 4096 = b div (4096 :: u32)" by (simp add: word_arith_nat_div layout_defs)
  then show ?thesis by (simp add: BBLOCK_def layout_defs)
qed

lemma BBLOCK_inj: "BBLOCK a x = BBLOCK b x \<Longrightarrow> unat a div BPB = unat b div BPB"
proof -
  assume "BBLOCK a x = BBLOCK b x"
  then have "a div 4096 = b div (4096 :: u32)" by (simp add: BBLOCK_def layout_defs)
  then have "unat (a div 4096) = unat (b div (4096 :: u32))" by simp
  then show ?thesis by (simp add: unat_div layout_defs)
qed

lemma used_update:
  assumes c: "content t = (content s)(BBLOCK b (sb s) := d)" and sb: "sb t = sb s"
  shows "used t c \<longleftrightarrow> (if unat c div BPB = unat b div BPB then \<not> bit_free d (unat c mod BPB) else used s c)"
  using BBLOCK_eq [of c b "sb s"] BBLOCK_inj [of c "sb s" b] by (auto simp: used_def c sb)

lemma mark_used_used:
  assumes c: "content t = (content s)(BBLOCK b (sb s) := mark_used (unat b mod BPB) (content s (BBLOCK b (sb s))))" and sb: "sb t = sb s"
    and len: "length (content s (BBLOCK b (sb s))) = BSIZE"
  shows "used t c \<longleftrightarrow> used s c \<or> c = b"
proof -
  have k: "unat b mod BPB < 8 * length (content s (BBLOCK b (sb s)))" using len by (simp add: layout_defs)
  have eq: "c = b" if "unat c div BPB = unat b div BPB" "unat c mod BPB = unat b mod BPB"
    using that by (metis div_mult_mod_eq unsigned_word_eqI)
  show ?thesis
    unfolding used_update [OF c sb] bit_free_mark_used [OF k]
    using eq BBLOCK_eq [of c b "sb s"] by (auto simp: used_def)
qed

lemma mark_free_used:
  assumes c: "content t = (content s)(BBLOCK b (sb s) := mark_free (unat b mod BPB) (content s (BBLOCK b (sb s))))" and sb: "sb t = sb s"
    and len: "length (content s (BBLOCK b (sb s))) = BSIZE"
  shows "used t c \<longleftrightarrow> used s c \<and> c \<noteq> b"
proof -
  have k: "unat b mod BPB < 8 * length (content s (BBLOCK b (sb s)))" using len by (simp add: layout_defs)
  have eq: "c = b" if "unat c div BPB = unat b div BPB" "unat c mod BPB = unat b mod BPB"
    using that by (metis div_mult_mod_eq unsigned_word_eqI)
  show ?thesis
    unfolding used_update [OF c sb] bit_free_mark_free [OF k]
    using eq BBLOCK_eq [of c b "sb s"] by (auto simp: used_def)
qed


subsection \<open>Allocation\<close>

lemma held_finite: "finite (held s)"
  using finite_pinned [of s] by simp

lemma update_in_op:
  assumes op: "in_op s" "room s 1" and n: "n < disksize s" "n \<notin> held s" "n \<notin> log_area s" "length (f (content s n)) = BSIZE"
  shows "\<exists>t. and_then (bread 1 n s) (\<lambda>(s, b). and_then (log_write b (edit b f s)) (brelse b)) = Done t \<and> same_op s t \<and>
    lh_n t \<le> lh_n s + 1 \<and> in_op t \<and> held t = held s \<and> (\<forall>j m. holds s j m \<longrightarrow> holds t j m) \<and>
    content t = (content s)(n := f (content s n)) \<and> dirty t = insert n (dirty s)"
proof -
  have "room s 0" using op(2) by (simp add: room_def)
  then obtain u i where u: "bread 1 n s = Done (u, i)" "same_op s u" "lh_n u = lh_n s" "in_op u" "held u = insert n (held s)" "content u = content s"
    "dirty u = dirty s" "holds u i n" "\<forall>j m. holds s j m \<longrightarrow> holds u j m"
    using read_in_op [OF op(1) _ n(1,2)] by blast
  have "room u 0" using op(2) u(2,3,5) n(2) held_finite [of s] by (simp add: room_def same_op_def)
  moreover have "log_area u = log_area s" "disksize u = disksize s" using u(2) same_op_area by (auto simp: same_op_def)
  ultimately obtain v where v: "log_write i (edit i f u) = Done v" "same_op u v" "lh_n v \<le> lh_n u + 1" "in_op v" "held v = held u" "holds v = holds u"
    "content v = (content u)(n := f (content u n))" "dirty v = insert n (dirty u)"
    using edit_log_in_op [OF u(4) _ u(8), of f] n u(6) by auto
  obtain w where w: "brelse i v = Done w" "same_op v w" "lh_n w = lh_n v" "in_op w" "held w = held v - {n}" "content w = content v" "dirty w = dirty v"
    "\<forall>j m. m \<noteq> n \<longrightarrow> holds v j m \<longrightarrow> holds w j m"
    using release_in_op [OF v(4), of i n] v(6,8) u(8) by auto
  have "holds w j m" if h: "holds s j m" for j m
  proof -
    have "m \<noteq> n" using n(2) held_holds [OF h] by auto
    then show ?thesis using h u(9) v(6) w(8) by simp
  qed
  moreover have "same_op s w" using same_op_trans u(2) v(2) w(2) by blast
  ultimately show ?thesis using u v w n(2) by (intro exI [of _ w]) auto
qed

lemma bzero_in_op:
  assumes "in_op s" "room s 1" "b < disksize s" "b \<notin> held s" "b \<notin> log_area s"
  shows "\<exists>t. bzero 1 b s = Done t \<and> same_op s t \<and> lh_n t \<le> lh_n s + 1 \<and> in_op t \<and> held t = held s \<and> (\<forall>j m. holds s j m \<longrightarrow> holds t j m) \<and>
    content t = (content s)(b := replicate BSIZE 0) \<and> dirty t = insert b (dirty s)"
  unfolding bzero_def using update_in_op [OF assms, of "\<lambda>_. replicate BSIZE 0"] by simp

text \<open>\<open>allocated s b t\<close>: the effect of a successful \<^verbatim>\<open>balloc\<close> that returned \<open>b\<close>.\<close>

definition allocated :: "'a fstate_scheme \<Rightarrow> u32 \<Rightarrow> 'a fstate_scheme \<Rightarrow> bool" where
  "allocated s b t \<longleftrightarrow> unat b < fs_size s \<and> \<not> used s b \<and> (\<forall>c. unat c < unat b \<longrightarrow> used s c) \<and> (\<forall>c. unat c < fs_size s \<longrightarrow> (used t c \<longleftrightarrow> used s c \<or> c = b)) \<and>
     content t = (content s)(BBLOCK b (sb s) := mark_used (unat b mod BPB) (content s (BBLOCK b (sb s))), b := replicate BSIZE 0) \<and>
     same_op s t \<and> lh_n t \<le> lh_n s + 2 \<and> in_op t \<and> held t = held s \<and> (\<forall>j m. holds s j m \<longrightarrow> holds t j m) \<and>
     dirty t = insert b (insert (BBLOCK b (sb s)) (dirty s))"

text \<open>No buffer of the free map, nor of a free block, is held.\<close>

definition map_unheld :: "'a fstate_scheme \<Rightarrow> bool" where
  "map_unheld s \<longleftrightarrow> (\<forall>b. unat b < fs_size s \<longrightarrow> BBLOCK b (sb s) \<notin> held s \<and> (b \<in> held s \<longrightarrow> used s b))"

lemma used_content: "content t = content s \<Longrightarrow> sb t = sb s \<Longrightarrow> used t b = used s b"
  by (simp add: used_def)

lemma alloc_wf_same:
  assumes "alloc_wf s" "same_op s t" "\<And>b. used s b \<Longrightarrow> used t b"
  shows "alloc_wf t"
  using assms fs_fields [OF assms(2)] same_op_area [OF assms(2)]
  by (auto simp: alloc_wf_def fs_size_def same_op_def)

lemma map_block:
  assumes "alloc_wf s" "k * BPB + bi < fs_size s" "bi < BPB"
  defines "b \<equiv> of_nat (k * BPB + bi) :: u32"
  shows "unat b = k * BPB + bi" "BBLOCK b (sb s) = BBLOCK (of_nat (k * BPB)) (sb s)" "BBLOCK b (sb s) < disksize s" "b < disksize s"
    "BBLOCK b (sb s) \<notin> log_area s" "unat b mod BPB = bi" "unat b div BPB = k"
proof -
  have "fs_size s < 2 ^ 32" unfolding fs_size_def using unsigned_less [of "sb_size (sb s)", where 'a = nat] by simp
  then have lt: "k * BPB + bi < 2 ^ 32" using assms(2) by simp
  show u: "unat b = k * BPB + bi" unfolding b_def by (subst unat_of_nat) (use lt in simp)
  have u0: "unat (of_nat (k * BPB) :: u32) = k * BPB" by (subst unat_of_nat) (use lt in simp)
  have P: "0 < BPB" by (simp add: layout_defs)
  show m: "unat b mod BPB = bi" "unat b div BPB = k" using u assms(3) P by simp_all
  show "BBLOCK b (sb s) = BBLOCK (of_nat (k * BPB)) (sb s)" by (rule BBLOCK_eq) (use u0 m P in simp)
  have "unat b < fs_size s" using u assms(2) by simp
  then show "BBLOCK b (sb s) < disksize s" "b < disksize s" "BBLOCK b (sb s) \<notin> log_area s"
    using assms(1) by (auto simp: alloc_wf_def word_less_nat_alt)
qed

lemma balloc_step:
  assumes op: "in_op s" "room s 2" "alloc_wf s" "map_unheld s" and k: "k * BPB < fs_size s"
    and below: "\<And>c. unat c < k * BPB \<Longrightarrow> used s c"
  shows "(\<exists>b t. balloc_loop 1 (k # ks) s = Done (t, b) \<and> allocated s b t) \<or>
    (\<exists>u. balloc_loop 1 (k # ks) s = balloc_loop 1 ks u \<and> same_op s u \<and> lh_n u = lh_n s \<and> in_op u \<and> held u = held s \<and> content u = content s \<and>
      dirty u = dirty s \<and> (\<forall>j m. holds s j m \<longrightarrow> holds u j m) \<and> (\<forall>c. unat c < min (Suc k * BPB) (fs_size s) \<longrightarrow> used s c))"
proof -
  let ?bb = "BBLOCK (of_nat (k * BPB)) (sb s)" and ?lim = "min BPB (fs_size s - k * BPB)"
  have P: "0 < BPB" by (simp add: layout_defs)
  note mb0 = map_block [OF op(3), of k 0] 
  have bb: "?bb < disksize s" "?bb \<notin> log_area s" "?bb \<notin> held s"
    using mb0 k P op(4) by (auto simp: map_unheld_def)
  have r0: "room s 0" using op(2) by (simp add: room_def)
  obtain u i w where u: "bread 1 ?bb s = Done (u, i)" "data_of u i = content s ?bb" "same_op s u" "lh_n u = lh_n s" "in_op u" "held u = insert ?bb (held s)"
    "content u = content s" "dirty u = dirty s" "holds u i ?bb" "\<forall>j m. holds s j m \<longrightarrow> holds u j m"
    and w: "brelse i u = Done w" "same_op s w" "lh_n w = lh_n s" "in_op w" "held w = held s" "content w = content s" "dirty w = dirty s"
      "\<forall>j m. holds s j m \<longrightarrow> holds w j m"
    using read_in_op [OF op(1) r0 bb(1,3)] by blast
  note fu = fs_fields [OF u(3)]
  have usd: "used s (of_nat (k * BPB + bi)) \<longleftrightarrow> \<not> bit_free (content s ?bb) bi" if "bi < ?lim" for bi
  proof -
    have "k * BPB + bi < fs_size s" "bi < BPB" using that by auto
    note m = map_block [OF op(3) this]
    show ?thesis unfolding used_def m(2,6) ..
  qed
  show ?thesis
  proof (cases "find (bit_free (content s ?bb)) [0..<?lim]")
    case None
    have "used s c" if c: "unat c < min (Suc k * BPB) (fs_size s)" for c
    proof (cases "unat c < k * BPB")
      case False
      define bi where "bi = unat c - k * BPB"
      have "bi < ?lim" "c = of_nat (k * BPB + bi)" using c False by (auto simp: bi_def)
      then show ?thesis using usd [of bi] None by (auto simp: find_None_iff)
    qed (rule below)
    moreover have "balloc_loop 1 (k # ks) s = balloc_loop 1 ks w"
      using u(1,2) w(1) None fu by (simp add: Let_def fs_size_def)
    ultimately show ?thesis using w by (intro disjI2 exI [of _ w]) auto
  next
    case (Some bi)
    have bi: "bi < ?lim" "bit_free (content s ?bb) bi" using find_Some_in [OF Some] by auto
    have first: "\<not> bit_free (content s ?bb) j" if "j < bi" for j
      using Some that by (auto simp: find_Some_iff)
    define b where "b = (of_nat (k * BPB + bi) :: u32)"
    note mb = map_block [OF op(3), of k bi, folded b_def]
    have b: "unat b = k * BPB + bi" "BBLOCK b (sb s) = ?bb" "b < disksize s" "unat b mod BPB = bi" "unat b < fs_size s" using mb bi(1) by auto
    have free: "\<not> used s b" using usd [OF bi(1)] bi(2) by (simp add: b_def)
    have "used s (BBLOCK b (sb s))" using op(3) b(5) by (simp add: alloc_wf_def)
    then have nb: "b \<noteq> ?bb" "b \<notin> log_area s" "b \<notin> held s"
      using free op(3,4) b(2,5) by (metis, auto simp: alloc_wf_def map_unheld_def)
    have ru: "room u 0" "log_area u = log_area s" "disksize u = disksize s"
      using op(2) u(3,4,6) bb(3) held_finite [of s] same_op_area [OF u(3)] by (auto simp: room_def same_op_def)
    obtain v where v: "log_write i (edit i (mark_used bi) u) = Done v" "same_op u v" "lh_n v \<le> lh_n u + 1" "in_op v" "held v = held u" "holds v = holds u"
      "content v = (content u)(?bb := mark_used bi (content u ?bb))" "dirty v = insert ?bb (dirty u)"
      using edit_log_in_op [OF u(5) ru(1) u(9), of "mark_used bi"] ru bb bc.content_length [of u ?bb] u(5) by (auto simp: in_op_def)
    obtain x where x: "brelse i v = Done x" "same_op v x" "lh_n x = lh_n v" "in_op x" "held x = held v - {?bb}" "content x = content v" "dirty x = dirty v"
      "\<forall>j m. m \<noteq> ?bb \<longrightarrow> holds v j m \<longrightarrow> holds x j m"
      using release_in_op [OF v(4), of i ?bb] v(6,8) u(9) by auto
    have sx: "same_op s x" using same_op_trans u(3) v(2) x(2) by blast
    have hx: "held x = held s" using x(5) v(5) u(6) bb(3) by auto
    have rx: "room x 1" "b < disksize x" "b \<notin> held x" "b \<notin> log_area x"
      using op(2) sx x(3) v(3) u(4) hx nb b(3) same_op_area [OF sx] by (auto simp: room_def same_op_def)
    obtain y where y: "bzero 1 b x = Done y" "same_op x y" "lh_n y \<le> lh_n x + 1" "in_op y" "held y = held x" "\<forall>j m. holds x j m \<longrightarrow> holds y j m"
      "content y = (content x)(b := replicate BSIZE 0)" "dirty y = insert b (dirty x)"
      using bzero_in_op [OF x(4) rx] by auto
    have sy: "same_op s y" using same_op_trans sx y(2) by blast
    have "balloc_loop 1 (k # ks) s = Done (y, b)"
      using u(1,2) v(1) x(1) y(1) Some fu by (simp add: Let_def fs_size_def b_def)
    moreover have "allocated s b y"
    proof -
      have "used s c" if "unat c < unat b" for c
      proof (cases "unat c < k * BPB")
        case False
        define j where "j = unat c - k * BPB"
        have "j < bi" "j < ?lim" "c = of_nat (k * BPB + j)" using that b(1) False bi(1) by (auto simp: j_def)
        then show ?thesis using usd [of j] first [of j] by simp
      qed (rule below)
      moreover have "used y c \<longleftrightarrow> used s c \<or> c = b" if c: "unat c < fs_size s" for c
      proof -
        have "content x = (content s)(BBLOCK b (sb s) := mark_used (unat b mod BPB) (content s (BBLOCK b (sb s))))"
          using x(6) v(7) u(7) b by simp
        note mu = mark_used_used [OF this fs_fields(1) [OF sx]]
        have len: "length (content s (BBLOCK b (sb s))) = BSIZE" using bc.content_length [of s] op(1) by (simp add: in_op_def)
        have "BBLOCK c (sb s) \<noteq> b" using c op(3) free by (auto simp: alloc_wf_def)
        then have "used y c = used x c"
          using y(7) fs_fields(1) [OF sy] fs_fields(1) [OF sx] by (simp add: used_def)
        then show ?thesis using mu [OF len] by simp
      qed
      moreover have "holds y j m" if h: "holds s j m" for j m
      proof -
        have "m \<noteq> ?bb" using bb(3) held_holds [OF h] by auto
        then show ?thesis using h u(10) v(6) x(8) y(6) by simp
      qed
      ultimately show ?thesis
        using b free sy y x v u hx nb(1) by (auto simp: allocated_def)
    qed
    ultimately show ?thesis by blast
  qed
qed


lemma allocated_from:
  assumes "same_op s u" "lh_n u = lh_n s" "held u = held s" "content u = content s" "dirty u = dirty s" "\<forall>j m. holds s j m \<longrightarrow> holds u j m"
    and "allocated u b t"
  shows "allocated s b t"
proof -
  have "used u c = used s c" for c using assms(4) fs_fields(1) [OF assms(1)] by (rule used_content)
  moreover have "fs_size u = fs_size s" using fs_fields(1) [OF assms(1)] by (simp add: fs_size_def)
  moreover have "same_op s t" using same_op_trans assms(1,7) by (auto simp: allocated_def)
  ultimately show ?thesis using assms fs_fields(1) [OF assms(1)] by (simp add: allocated_def)
qed

lemma balloc_loop_result:
  assumes "in_op s" "room s 2" "alloc_wf s" "map_unheld s" "K = (fs_size s + BPB - 1) div BPB" "k \<le> K"
    and "\<And>c. unat c < min (k * BPB) (fs_size s) \<Longrightarrow> used s c"
  shows "(\<forall>c. unat c < fs_size s \<longrightarrow> used s c) \<and> balloc_loop 1 [k..<K] s = Panic ''balloc: out of blocks'' \<or>
    (\<exists>b t. balloc_loop 1 [k..<K] s = Done (t, b) \<and> allocated s b t)"
  using assms
proof (induction "K - k" arbitrary: k s)
  case 0
  have "fs_size s \<le> K * BPB" using 0(6) by (simp add: layout_defs)
  then show ?case using 0 by (auto simp: min_def)
next
  case (Suc d)
  have kK: "k < K" "[k..<K] = k # [Suc k..<K]" using Suc(2) by (simp_all add: upt_conv_Cons)
  have lt: "k * BPB < fs_size s" using kK(1) Suc.prems(5) by (auto simp: layout_defs)
  have "(\<exists>b t. balloc_loop 1 (k # [Suc k..<K]) s = Done (t, b) \<and> allocated s b t) \<or>
    (\<exists>u. balloc_loop 1 (k # [Suc k..<K]) s = balloc_loop 1 [Suc k..<K] u \<and> same_op s u \<and> lh_n u = lh_n s \<and> in_op u \<and> held u = held s \<and>
      content u = content s \<and> dirty u = dirty s \<and> (\<forall>j m. holds s j m \<longrightarrow> holds u j m) \<and>
      (\<forall>c. unat c < min (Suc k * BPB) (fs_size s) \<longrightarrow> used s c))"
    using Suc.prems lt by (intro balloc_step) auto
  then show ?case
  proof
    assume "\<exists>b t. balloc_loop 1 (k # [Suc k..<K]) s = Done (t, b) \<and> allocated s b t"
    then show ?thesis using kK(2) by auto
  next
    assume "\<exists>u. balloc_loop 1 (k # [Suc k..<K]) s = balloc_loop 1 [Suc k..<K] u \<and> same_op s u \<and> lh_n u = lh_n s \<and> in_op u \<and> held u = held s \<and>
      content u = content s \<and> dirty u = dirty s \<and> (\<forall>j m. holds s j m \<longrightarrow> holds u j m) \<and>
      (\<forall>c. unat c < min (Suc k * BPB) (fs_size s) \<longrightarrow> used s c)"
    then obtain u where u: "balloc_loop 1 [k..<K] s = balloc_loop 1 [Suc k..<K] u" "same_op s u" "lh_n u = lh_n s" "in_op u" "held u = held s"
      "content u = content s" "dirty u = dirty s" "\<forall>j m. holds s j m \<longrightarrow> holds u j m"
      "\<forall>c. unat c < min (Suc k * BPB) (fs_size s) \<longrightarrow> used s c"
      unfolding kK(2) by blast
    have us: "used u c = used s c" "fs_size u = fs_size s" for c
      using used_content [OF u(6) fs_fields(1) [OF u(2)]] fs_fields(1) [OF u(2)] by (auto simp: fs_size_def)
    have "(\<forall>c. unat c < fs_size u \<longrightarrow> used u c) \<and> balloc_loop 1 [Suc k..<K] u = Panic ''balloc: out of blocks'' \<or>
      (\<exists>b t. balloc_loop 1 [Suc k..<K] u = Done (t, b) \<and> allocated u b t)"
    proof (rule Suc.hyps(1))
      show "d = K - Suc k" "Suc k \<le> K" using Suc(2) kK(1) by simp_all
      show "in_op u" by (rule u(4))
      show "room u 2" using Suc.prems(2) u(2,3,5) by (simp add: room_def same_op_def)
      show "alloc_wf u" using alloc_wf_same [OF Suc.prems(3) u(2)] us by blast
      show "map_unheld u" using Suc.prems(4) us u(5) fs_fields(1) [OF u(2)] by (simp add: map_unheld_def)
      show "K = (fs_size u + BPB - 1) div BPB" using Suc.prems(5) us by simp
      show "used u c" if "unat c < min (Suc k * BPB) (fs_size u)" for c using u(9) us that by auto
    qed
    then show ?thesis using u(1) us allocated_from [OF u(2,3,5,6,7,8)] by auto
  qed
qed

lemma balloc_result:
  assumes "in_op s" "room s 2" "alloc_wf s" "map_unheld s"
  shows "(\<forall>c. unat c < fs_size s \<longrightarrow> used s c) \<and> balloc 1 s = Panic ''balloc: out of blocks'' \<or>
    (\<exists>b t. balloc 1 s = Done (t, b) \<and> allocated s b t)"
  using balloc_loop_result [OF assms refl, of 0] by (simp add: balloc_def fs_size_def)

text \<open>The superblock in memory is that of the disk, as after \<^verbatim>\<open>iinit\<close>.\<close>

definition sb_current :: "'a fstate_scheme \<Rightarrow> bool" where
  "sb_current s \<longleftrightarrow> sb_of (content s 1) = sb s \<and> 1 < disksize s"

definition freed :: "'a fstate_scheme \<Rightarrow> u32 \<Rightarrow> 'a fstate_scheme \<Rightarrow> bool" where
  "freed s b t \<longleftrightarrow> (\<forall>c. used t c \<longleftrightarrow> used s c \<and> c \<noteq> b) \<and>
     content t = (content s)(BBLOCK b (sb s) := mark_free (unat b mod BPB) (content s (BBLOCK b (sb s)))) \<and>
     same_op s t \<and> lh_n t \<le> lh_n s + 1 \<and> in_op t \<and> held t = held s \<and> (\<forall>j m. holds s j m \<longrightarrow> holds t j m)"

lemma fs_sb_id: "sb s = x \<Longrightarrow> s\<lparr>sb := x\<rparr> = (s :: 'a fstate_scheme)"
  by auto


lemma readsb_in_op:
  assumes op: "in_op s" "room s 0" "sb_current s" "1 \<notin> held s"
  shows "\<exists>u. readsb 1 s = Done (u, sb s) \<and> same_op s u \<and> lh_n u = lh_n s \<and> in_op u \<and> held u = held s \<and> content u = content s \<and> dirty u = dirty s \<and>
    (\<forall>j m. holds s j m \<longrightarrow> holds u j m)"
proof -
  have "1 < disksize s" using op(3) by (simp add: sb_current_def)
  then obtain t i u where "bread 1 1 s = Done (t, i)" "data_of t i = content s 1" "brelse i t = Done u" "same_op s u" "lh_n u = lh_n s" "in_op u"
    "held u = held s" "content u = content s" "dirty u = dirty s" "\<forall>j m. holds s j m \<longrightarrow> holds u j m"
    using read_in_op [OF op(1,2) _ op(4)] by blast
  then show ?thesis using op(3) by (simp add: readsb_def sb_current_def)
qed

lemma bfree_result:
  assumes op: "in_op s" "room s 1" "sb_current s" "1 \<notin> held s"
    and b: "BBLOCK b (sb s) < disksize s" "BBLOCK b (sb s) \<notin> held s" "BBLOCK b (sb s) \<notin> log_area s"
  shows "if used s b then \<exists>t. bfree 1 b s = Done t \<and> freed s b t else bfree 1 b s = Panic ''freeing free block''"
proof -
  let ?bb = "BBLOCK b (sb s)" and ?bi = "unat b mod BPB"
  have r0: "room s 0" using op(2) by (simp add: room_def)
  obtain r where r: "readsb 1 s = Done (r, sb s)" "same_op s r" "lh_n r = lh_n s" "in_op r" "held r = held s" "content r = content s" "dirty r = dirty s"
    "\<forall>j m. holds s j m \<longrightarrow> holds r j m"
    using readsb_in_op [OF op(1) r0 op(3,4)] by blast
  have fr: "sb r = sb s" "r\<lparr>sb := sb s\<rparr> = r" using fs_fields(1) [OF r(2)] fs_sb_id by auto
  have rr: "room r 1" "room r 0" "?bb < disksize r" "?bb \<notin> held r" "?bb \<notin> log_area r" "used r b = used s b"
    using op(2) r b same_op_area [OF r(2)] fr(1) by (auto simp: room_def same_op_def used_def)
  have len: "length (content s ?bb) = BSIZE" using bc.content_length [of s] op(1) by (simp add: in_op_def)
  obtain u i where u: "bread 1 ?bb r = Done (u, i)" "data_of u i = content r ?bb" using read_in_op [OF r(4) rr(2,3,4)] by blast
  have eq: "bfree 1 b s = (if bit_free (content s ?bb) ?bi then Panic ''freeing free block''
      else and_then (log_write i (edit i (mark_free ?bi) u)) (brelse i))"
    using r(1,6) u by (simp add: bfree_def Let_def fr)
  show ?thesis
  proof (cases "used s b")
    case False
    then show ?thesis using eq by (simp add: used_def)
  next
    case True
    obtain t where t: "and_then (bread 1 ?bb r) (\<lambda>(s, b). and_then (log_write b (edit b (mark_free ?bi) s)) (brelse b)) = Done t" "same_op r t"
      "lh_n t \<le> lh_n r + 1" "in_op t" "held t = held r" "\<forall>j m. holds r j m \<longrightarrow> holds t j m"
      "content t = (content r)(?bb := mark_free ?bi (content r ?bb))"
      using update_in_op [OF r(4) rr(1,3,4,5), of "mark_free ?bi"] len r(6) by auto
    have st: "same_op s t" using same_op_trans r(2) t(2) by blast
    have "bfree 1 b s = Done t" using eq True t(1) u(1) by (simp add: used_def)
    moreover have "content t = (content s)(?bb := mark_free ?bi (content s ?bb))" using t(7) r(6) by simp
    ultimately show ?thesis
      using True mark_free_used [OF _ fs_fields(1) [OF st] len] st t r by (auto simp: freed_def)
  qed
qed


subsection \<open>A sample file system\<close>

text \<open>A small image with the layout \<^verbatim>\<open>mkfs\<close> gives it: log from 2, inodes from 32, free map at 58, data from 59.\<close>

definition fs_sb :: superblock where
  "fs_sb = \<lparr>sb_size = 200, sb_nblocks = 141, sb_ninodes = 200, sb_nlog = 30, sb_logstart = 2, sb_inodestart = 32, sb_bmapstart = 58\<rparr>"

definition fs_disk :: "u32 \<Rightarrow> block" where
  "fs_disk n =
     (if n = 1 then put_array (replicate BSIZE 0) 0 [200, 141, 200, 30, 2, 32, 58]
      else if n = 58 then put_bytes (replicate BSIZE 0) 0 [255, 255, 255, 255, 255, 255, 255, 7]
      else replicate BSIZE 0)"

definition fs_inode :: inode where
  "fs_inode = \<lparr>idev = 1, inum = 5, iref = 1, ilk = \<lparr>sl_locked = True, sl_pid = 1\<rparr>, ivalid = True, itype = T_FILE, imajor = 0, iminor = 0,
     inlink = 1, isize = 600, iaddrs = [60, 61] @ replicate 11 0\<rparr>"

definition fs_demo :: fstate where
  "fs_demo = lstate.extend ((powerup fs_disk 200 1)\<lparr>log_start := 2, log_size := 30, log_dev := 1, outstanding := 1\<rparr>)
     (fstate.fields fs_sb [fs_inode])"

lemma extend_view [simp]:
  "cache_wf (lstate.extend s m) = cache_wf s" "held (lstate.extend s m) = held s" "dirty (lstate.extend s m) = dirty s"
  "content (lstate.extend s m) = content s" "disk (lstate.extend s m) = disk s" "disksize (lstate.extend s m) = disksize s"
  "log_start (lstate.extend s m) = log_start s" "log_size (lstate.extend s m) = log_size s" "outstanding (lstate.extend s m) = outstanding s"
  "log_dev (lstate.extend s m) = log_dev s" "lh_n (lstate.extend s m) = lh_n s" "lh_block (lstate.extend s m) = lh_block s"
  "committing (lstate.extend s m) = committing s" "curpid (lstate.extend s m) = curpid s"
  by (auto simp: lstate.extend_def cache_wf_def held_def holds_def dirty_def content_def linked_def fun_eq_iff split: option.split)

lemma fs_disk_length: "length (fs_disk n) = BSIZE"
  by (simp add: fs_disk_def layout_defs)

lemma fs_disk_sb: "sb_of (fs_disk 1) = fs_sb"
proof -
  let ?ws = "[200, 141, 200, 30, 2, 32, 58] :: u32 list"
  have "get_array (put_array (replicate BSIZE 0) 0 ?ws) 0 (length ?ws) = ?ws" by (rule get_put_array) (simp add: layout_defs)
  moreover have "length ?ws = 7" by simp
  ultimately have a: "get_array (fs_disk 1) 0 7 = ?ws" by (simp only: fs_disk_def if_True refl)
  have "get_array (fs_disk 1) 0 7 ! k = get32 (fs_disk 1) (4 * k)" if "k < 7" for k using that by (simp add: get_array_def)
  from this [of 0] this [of 1] this [of 2] this [of 3] this [of 4] this [of 5] this [of 6] show ?thesis
    unfolding a by (simp add: sb_of_def fs_sb_def)
qed

lemma fs_demo_state:
  "cache_wf fs_demo" "held fs_demo = {}" "dirty fs_demo = {}" "content fs_demo = fs_disk" "disk fs_demo = fs_disk" "disksize fs_demo = 200"
  "lh_block fs_demo = replicate LOGSIZE 0" "lh_n fs_demo = 0" "outstanding fs_demo = 1" "log_start fs_demo = 2" "log_size fs_demo = 30"
  "log_dev fs_demo = 1" "sb fs_demo = fs_sb" "inodes fs_demo = [fs_inode]"
  using powerup_state [of fs_disk 200 1, OF fs_disk_length] powerup_fields [of fs_disk 200 1]
  by (simp_all add: fs_demo_def) (simp_all add: lstate.extend_def fstate.fields_def)

lemma fs_demo_op: "in_op fs_demo" "room fs_demo 20" "sb_current fs_demo" "log_area fs_demo = {n. 2 \<le> unat n \<and> unat n < 32}"
proof -
  have "log_ok fs_demo" by (simp add: log_ok_def fs_demo_state layout_defs)
  moreover have "trans_ok fs_demo" by (simp add: trans_ok_def fs_demo_state logged_def home_ok_def)
  ultimately show "in_op fs_demo" by (simp add: in_op_def fs_demo_state)
  show "room fs_demo 20" "sb_current fs_demo" "log_area fs_demo = {n. 2 \<le> unat n \<and> unat n < 32}"
    using fs_disk_sb by (auto simp: room_def fs_demo_state sb_current_def log_area_def)
qed

lemma fs_demo_used: "unat b < 200 \<Longrightarrow> used fs_demo b \<longleftrightarrow> unat b < 59"
proof -
  assume b: "unat b < 200"
  have bb: "BBLOCK b fs_sb = 58"
  proof -
    have "b div 4096 = 0" using b by (simp add: word_arith_nat_div)
    then show ?thesis by (simp add: BBLOCK_def fs_sb_def layout_defs)
  qed
  have byte: "fs_disk 58 ! q = (if q < 7 then 255 else if q = 7 then 7 else 0)" if "q < 512" for q
  proof -
    have "q = 0 \<or> q = 1 \<or> q = 2 \<or> q = 3 \<or> q = 4 \<or> q = 5 \<or> q = 6 \<or> q = 7 \<or> 8 \<le> q" by arith
    then show ?thesis using that by (auto simp: fs_disk_def nth_put_bytes BSIZE_def)
  qed
  have bits: "bit (255 :: u8) j" "bit (7 :: u8) j \<longleftrightarrow> j < 3" if "j < 8" for j
  proof -
    have "j = 0 \<or> j = 1 \<or> j = 2 \<or> j = 3 \<or> j = 4 \<or> j = 5 \<or> j = 6 \<or> j = 7" using that by arith
    then show "bit (255 :: u8) j" "bit (7 :: u8) j \<longleftrightarrow> j < 3" by (elim disjE; simp)+
  qed
  have "bit_free (fs_disk 58) k \<longleftrightarrow> \<not> k < 59" if "k < 200" for k
  proof -
    define q r where "q = k div 8" and "r = k mod 8"
    have k: "k = 8 * q + r" "r < 8" by (simp_all add: q_def r_def)
    have "q < 512" "k div 8 = q" "k mod 8 = r" using that k by auto
    then show ?thesis unfolding bit_free_bit using byte [of q] bits [of r] k
      by (cases "q < 7"; cases "q = 7") auto
  qed
  then show ?thesis using b bb by (simp add: used_def fs_demo_state layout_defs)
qed


lemma fs_demo_alloc: "alloc_wf fs_demo" "map_unheld fs_demo" "fs_size fs_demo = 200"
proof -
  have bb: "BBLOCK b fs_sb = 58" if "unat b < 200" for b
  proof -
    have "b div 4096 = 0" using that by (simp add: word_arith_nat_div)
    then show ?thesis by (simp add: BBLOCK_def fs_sb_def layout_defs)
  qed
  show sz: "fs_size fs_demo = 200" by (simp add: fs_size_def fs_demo_state fs_sb_def)
  show "map_unheld fs_demo" by (simp add: map_unheld_def fs_demo_state)
  have "used fs_demo 1" "used fs_demo 58" using fs_demo_used [of 1] fs_demo_used [of 58] by simp_all
  moreover have "58 \<notin> log_area fs_demo" by (simp add: fs_demo_op)
  moreover have "used fs_demo b" if "unat b < 200" "b \<in> log_area fs_demo" for b using fs_demo_used [OF that(1)] that(2) by (simp add: fs_demo_op)
  ultimately show "alloc_wf fs_demo" using bb by (simp add: alloc_wf_def sz fs_demo_state)
qed

subsection \<open>Properties\<close>

text \<open>
  C20: \<^verbatim>\<open>balloc\<close> allocates.  Inside a transaction with room for two more
  blocks, on a disk whose log and free map are marked in use, \<^verbatim>\<open>balloc\<close>
  panics exactly when every block is in use; otherwise it returns the lowest
  free block, marked in use and zeroed, and changes no other bit of the free
  map and no other block.
\<close>

theorem balloc_lowest_free:
  assumes "in_op s" "room s 2" "alloc_wf s" "held s = {}"
  shows "if \<forall>c. unat c < fs_size s \<longrightarrow> used s c then balloc 1 s = Panic ''balloc: out of blocks''
    else \<exists>b t. balloc 1 s = Done (t, b) \<and> unat b < fs_size s \<and> \<not> used s b \<and> (\<forall>c. unat c < unat b \<longrightarrow> used s c) \<and>
      (\<forall>c. unat c < fs_size s \<longrightarrow> (used t c \<longleftrightarrow> used s c \<or> c = b)) \<and> content t b = replicate BSIZE 0 \<and>
      (\<forall>m. m \<noteq> b \<longrightarrow> m \<noteq> BBLOCK b (sb s) \<longrightarrow> content t m = content s m) \<and> held t = {} \<and> disk t = disk s"
proof -
  have "map_unheld s" using assms(4) by (simp add: map_unheld_def)
  from balloc_result [OF assms(1-3) this] show ?thesis
  proof
    assume "\<exists>b t. balloc 1 s = Done (t, b) \<and> allocated s b t"
    then obtain b t where "balloc 1 s = Done (t, b)" "allocated s b t" by blast
    then show ?thesis using assms(4) by (auto simp: allocated_def same_op_def)
  qed simp
qed

theorem balloc_lowest_free_witness:
  "\<exists>b t. balloc 1 fs_demo = Done (t, b) \<and> b = 59 \<and> used t 59 \<and> content t 59 = replicate BSIZE 0 \<and> disk t = disk fs_demo"
proof -
  have r: "room fs_demo 2" using fs_demo_op(2) by (simp add: room_def)
  have "\<not> used fs_demo 59" using fs_demo_used [of 59] by simp
  then have n: "\<not> (\<forall>c. unat c < fs_size fs_demo \<longrightarrow> used fs_demo c)" by (auto simp: fs_demo_alloc intro!: exI [of _ 59])
  obtain b t where b: "balloc 1 fs_demo = Done (t, b)" "unat b < fs_size fs_demo" "\<not> used fs_demo b" "\<forall>c. unat c < unat b \<longrightarrow> used fs_demo c"
    "\<forall>c. unat c < fs_size fs_demo \<longrightarrow> (used t c \<longleftrightarrow> used fs_demo c \<or> c = b)" "content t b = replicate BSIZE 0" "disk t = disk fs_demo"
    using balloc_lowest_free [OF fs_demo_op(1) r fs_demo_alloc(1) fs_demo_state(2)] n by auto
  have "\<not> unat b < 59" using fs_demo_used [of b] b(2,3) fs_demo_alloc(3) by simp
  moreover have "\<not> 59 < unat b" using b(4) \<open>\<not> used fs_demo 59\<close> by force
  ultimately have "unat b = unat (59 :: u32)" by simp
  then have "b = 59" by (rule unsigned_word_eqI)
  then show ?thesis using b fs_demo_alloc(3) by auto
qed

text \<open>
  \<^verbatim>\<open>bfree\<close> undoes \<^verbatim>\<open>balloc\<close>.  Freeing the block that \<^verbatim>\<open>balloc\<close> returned
  succeeds and restores the free map; freeing it again panics.
\<close>

theorem balloc_bfree_round_trip:
  assumes "in_op s" "room s 4" "alloc_wf s" "sb_current s" "held s = {}" "balloc 1 s = Done (t, b)"
  shows "\<exists>u. bfree 1 b t = Done u \<and> (\<forall>c. unat c < fs_size s \<longrightarrow> used u c = used s c) \<and>
    bfree 1 b u = Panic ''freeing free block''"
proof -
  have "map_unheld s" "room s 2" using assms(2,5) by (simp_all add: map_unheld_def room_def)
  then have a: "allocated s b t" using balloc_result [OF assms(1) _ assms(3)] assms(6) by auto
  let ?bb = "BBLOCK b (sb s)"
  have b: "unat b < fs_size s" "\<not> used s b" "same_op s t" "in_op t" "held t = {}" "lh_n t \<le> lh_n s + 2"
    and ut: "\<And>c. unat c < fs_size s \<Longrightarrow> used t c \<longleftrightarrow> used s c \<or> c = b"
    and ct: "content t = (content s)(?bb := mark_used (unat b mod BPB) (content s ?bb), b := replicate BSIZE 0)"
    using a assms(5) by (auto simp: allocated_def)
  have bb: "?bb < disksize s" "?bb \<notin> log_area s" "?bb \<noteq> 1" "b \<noteq> 1"
    using assms(3) b(1,2) by (auto simp: alloc_wf_def word_less_nat_alt)
  have sbt: "sb t = sb s" by (rule fs_fields(1) [OF b(3)])
  have ready: "room x 1 \<and> sb_current x \<and> ?bb < disksize x \<and> ?bb \<notin> held x \<and> ?bb \<notin> log_area x \<and> sb x = sb s"
    if "same_op s x" "held x = {}" "lh_n x \<le> lh_n s + 3" "content x 1 = content s 1" for x
    using that assms(2,4,5) bb same_op_area [OF that(1)] fs_fields(1) [OF that(1)]
    by (auto simp: room_def sb_current_def same_op_def)
  have "content t 1 = content s 1" using ct bb by auto
  then have rt: "room t 1" "sb_current t" "?bb < disksize t" "?bb \<notin> held t" "?bb \<notin> log_area t" using ready [of t] b by auto
  obtain u where u: "bfree 1 b t = Done u" "freed t b u"
    using bfree_result [OF b(4) rt(1,2), of b] rt b(5) sbt ut [OF b(1)] by auto
  have U: "\<And>c. used u c \<longleftrightarrow> used t c \<and> c \<noteq> b" "same_op s u" "in_op u" "held u = {}" "lh_n u \<le> lh_n s + 3" "content u 1 = content s 1"
    using u(2) same_op_trans [OF b(3)] b(5,6) ct bb sbt by (auto simp: freed_def)
  have ru: "room u 1" "sb_current u" "?bb < disksize u" "?bb \<notin> held u" "?bb \<notin> log_area u" "sb u = sb s" using ready [of u] U by auto
  have "bfree 1 b u = Panic ''freeing free block''"
    using bfree_result [OF U(3) ru(1,2), of b] ru U by auto
  then show ?thesis using u(1) U(1) ut b(2) by auto
qed

theorem balloc_bfree_round_trip_witness:
  "\<exists>t u. balloc 1 fs_demo = Done (t, 59) \<and> bfree 1 59 t = Done u \<and> (\<forall>c. unat c < 200 \<longrightarrow> used u c = used fs_demo c) \<and>
    bfree 1 59 u = Panic ''freeing free block''"
proof -
  have r: "room fs_demo 2" "room fs_demo 4" using fs_demo_op(2) by (simp_all add: room_def)
  have n: "\<not> used fs_demo 59" using fs_demo_used [of 59] by simp
  then have "\<not> (\<forall>c. unat c < fs_size fs_demo \<longrightarrow> used fs_demo c)" by (auto simp: fs_demo_alloc intro!: exI [of _ 59])
  then obtain b t where b: "balloc 1 fs_demo = Done (t, b)" "allocated fs_demo b t"
    using balloc_result [OF fs_demo_op(1) r(1) fs_demo_alloc(1,2)] by auto
  have "\<not> unat b < 59" using fs_demo_used [of b] b(2) fs_demo_alloc(3) by (simp add: allocated_def)
  moreover have "\<not> 59 < unat b" using b(2) n by (force simp: allocated_def)
  ultimately have "unat b = unat (59 :: u32)" by simp
  then have "b = 59" by (rule unsigned_word_eqI)
  then show ?thesis
    using balloc_bfree_round_trip [OF fs_demo_op(1) r(2) fs_demo_alloc(1) fs_demo_op(3) fs_demo_state(2) b(1)] b(1) fs_demo_alloc(3) by auto
qed

end
