(* ===== verification/Log_Space.thy ===== *)
theory Log_Space
  imports Fs_Blocks
begin

text \<open>
  The space reservation of \<^verbatim>\<open>begin_op\<close>: every admitted operation may log
  \<open>MAXOPBLOCKS\<close> blocks.  The runs of the log are an inductive predicate over
  the model's operations; the list holds what each active operation may still
  log.
\<close>

definition log_fields :: "lstate \<Rightarrow> u32 \<times> int \<times> int \<times> bool \<times> u32 \<times> int \<times> u32 list" where
  "log_fields s = (log_start s, log_size s, outstanding s, committing s, log_dev s, lh_n s, lh_block s)"

inductive log_run :: "lstate \<Rightarrow> nat list \<Rightarrow> bool" where
  start: "lh_n s = 0 \<Longrightarrow> outstanding s = 0 \<Longrightarrow> \<not> committing s \<Longrightarrow> log_run s []"
| cache: "log_run s bs \<Longrightarrow> log_fields t = log_fields s \<Longrightarrow> log_run t bs"
| begins: "log_run s bs \<Longrightarrow> begin_op s = Done t \<Longrightarrow> log_run t (MAXOPBLOCKS # bs)"
| logs: "log_run s bs \<Longrightarrow> k < length bs \<Longrightarrow> 0 < bs ! k \<Longrightarrow> log_write b s = Done t \<Longrightarrow> log_run t (bs[k := bs ! k - 1])"
| ends: "log_run s bs \<Longrightarrow> k < length bs \<Longrightarrow> end_op s = Done t \<Longrightarrow> log_run t (take k bs @ drop (Suc k) bs)"

lemma bwrite_env: "bwrite i s = Done t \<Longrightarrow> same_env s t"
  by (auto simp: bwrite_def iderw_def same_env_def Let_def split: if_splits)

lemma brelse_env: "brelse i s = Done t \<Longrightarrow> same_env s t"
  by (auto simp: brelse_def same_env_def Let_def relink_frame split: if_splits)

lemma edit_env: "same_env s (edit i f s)"
  by (simp add: same_env_def)

lemmas cache_env = bread_env bwrite_env brelse_env

lemma install_one_env: "install_one k s = Done t \<Longrightarrow> same_env s t"
  by (auto simp: install_one_def outcome_simps dest!: cache_env) (auto simp: same_env_def)

lemma write_log_one_env: "write_log_one k s = Done t \<Longrightarrow> same_env s t"
  by (auto simp: write_log_one_def outcome_simps dest!: cache_env) (auto simp: same_env_def)

lemma write_head_env: "write_head s = Done t \<Longrightarrow> same_env s t"
  by (auto simp: write_head_def outcome_simps dest!: cache_env split: if_splits) (auto simp: same_env_def)

lemma loop_env:
  assumes "each f xs s = Done t" "\<And>x u v. f x u = Done v \<Longrightarrow> same_env u v"
  shows "same_env s t"
  by (rule each_preserves [OF assms(1)]) (use assms(2) same_env_trans in \<open>auto intro: same_env_trans\<close>)

lemma commit_fields:
  assumes "commit s = Done t" "0 \<le> lh_n s"
  shows "log_fields t = log_fields (s\<lparr>lh_n := 0\<rparr>)"
proof (cases "0 < lh_n s")
  case True
  then obtain a b c where s: "write_log s = Done a" "write_head a = Done b" "install_trans b = Done c" "write_head (c\<lparr>lh_n := 0\<rparr>) = Done t"
    using assms(1) by (auto simp: commit_def outcome_simps)
  have "same_env s a" using s(1) loop_env write_log_one_env unfolding write_log_def by blast
  moreover have "same_env b c" using s(3) loop_env install_one_env unfolding install_trans_def by blast
  ultimately have "same_env s c" using write_head_env [OF s(2)] same_env_trans by blast
  then show ?thesis using same_env_log [of s c] same_env_log [OF write_head_env [OF s(4)]] by (simp add: log_fields_def)
next
  case False
  then show ?thesis using assms by (simp add: commit_def log_fields_def)
qed

lemma sum_list_dec: "k < length (bs :: nat list) \<Longrightarrow> 0 < bs ! k \<Longrightarrow> sum_list (bs[k := bs ! k - 1]) + 1 = sum_list bs"
  using elem_le_sum_list [of k bs] by (simp add: sum_list_update)

lemma log_run_inv:
  "log_run s bs \<Longrightarrow> 0 \<le> lh_n s \<and> outstanding s = int (length bs) \<and> (\<forall>b\<in>set bs. b \<le> MAXOPBLOCKS) \<and>
     lh_n s + int (sum_list bs) \<le> int LOGSIZE"
proof (induction rule: log_run.induct)
  case (start s)
  then show ?case by simp
next
  case (cache s bs t)
  then show ?case by (simp add: log_fields_def)
next
  case (begins s bs t)
  have "sum_list bs \<le> length bs * MAXOPBLOCKS" using begins.IH sum_list_mono [of bs id "\<lambda>_. MAXOPBLOCKS"] by (simp add: sum_list_triv)
  then have "int (sum_list bs) \<le> outstanding s * int MAXOPBLOCKS" using begins.IH by (metis of_nat_mono of_nat_mult)
  then show ?case using begins by (auto simp: begin_op_def algebra_simps split: if_splits)
next
  case (logs s bs k b t)
  have b: "c \<le> MAXOPBLOCKS" if "c \<in> set (bs[k := bs ! k - 1])" for c
    using that logs.IH logs.hyps(2) set_update_subset_insert [of bs k "bs ! k - 1"] nth_mem [of k bs] by fastforce
  have l: "0 \<le> lh_n t" "lh_n t \<le> lh_n s + 1" "outstanding t = outstanding s"
    using logs.hyps(4) logs.IH by (auto simp: log_write_def Let_def pin_def split: if_splits)
  then show ?case using logs.IH b sum_list_dec [OF logs.hyps(2,3)] by auto
next
  case (ends s bs k t)
  have b: "sum_list (take k bs @ drop (Suc k) bs) \<le> sum_list bs"
    by (subst (3) id_take_nth_drop [OF ends.hyps(2)]) simp
  have f: "outstanding t = outstanding s - 1" "lh_n t = lh_n s \<or> lh_n t = 0"
    using ends.hyps(3) ends.IH commit_fields
    by (auto simp: end_op_def Let_def outcome_simps log_fields_def split: if_splits)
  have "set (take k bs @ drop (Suc k) bs) \<subseteq> set bs" by (auto dest: in_set_takeD in_set_dropD)
  then show ?case using ends.IH ends.hyps(2) b f by auto
qed


text \<open>
  C16: The reservation is enough when the log has room for \<open>LOGSIZE\<close> blocks
  besides its header: in every run, an operation that has not used up its
  \<open>MAXOPBLOCKS\<close> blocks can log another one, \<^verbatim>\<open>log_write\<close> does not panic.
\<close>

theorem log_space_reserved:
  assumes "log_run s bs" "k < length bs" "0 < bs ! k" "int LOGSIZE < log_size s"
  shows "\<exists>t. log_write b s = Done t"
proof -
  note i = log_run_inv [OF assms(1)]
  have "0 < sum_list bs" using assms(2,3) elem_le_sum_list [OF assms(2)] by simp
  then have "lh_n s < int LOGSIZE" "1 \<le> outstanding s" using i assms(2) by auto
  then show ?thesis using assms(4) by (simp add: log_write_def Let_def)
qed

lemma demo_begins: "log_run (demo\<lparr>outstanding := 1, log_size := n\<rparr>) [MAXOPBLOCKS]"
proof -
  have "log_run (demo\<lparr>log_size := n\<rparr>) []" by (rule log_run.start) (simp_all add: demo_state)
  moreover have "begin_op (demo\<lparr>log_size := n\<rparr>) = Done (demo\<lparr>log_size := n, outstanding := 1\<rparr>)"
    by (simp add: begin_op_def demo_state layout_defs)
  ultimately have "log_run (demo\<lparr>log_size := n, outstanding := 1\<rparr>) [MAXOPBLOCKS]" by (rule log_run.begins)
  then show ?thesis by (rule log_run.cache) (simp add: log_fields_def)
qed

theorem log_space_reserved_witness:
  "0 < [MAXOPBLOCKS] ! 0 \<and> (\<exists>t. log_write 0 (demo\<lparr>outstanding := 1, log_size := 31\<rparr>) = Done t)"
  using log_space_reserved [OF demo_begins [of 31], of 0 0] by (simp add: layout_defs)

subsection \<open>Where the reservation is short\<close>

text \<open>What an operation does to a block: read it, change it, log it, release it.\<close>

definition log_update :: "(block \<Rightarrow> block) \<Rightarrow> u32 \<Rightarrow> 'a lstate_scheme \<Rightarrow> 'a lstate_scheme outcome" where
  "log_update f n s = and_then (bread 1 n s) (\<lambda>(s, b). and_then (log_write b (edit b f s)) (brelse b))"

lemma trans_count: "in_op s \<Longrightarrow> lh_n s = int (card (dirty s))"
  using logged_length [of s] distinct_card [of "logged s"] by (auto simp: in_op_def trans_ok_def)

text \<open>As long as fewer than 29 blocks are logged, another one is.\<close>

lemma log_updates:
  assumes "in_op s" "held s = {}" "log_size s = 30" "\<And>d. length (f d) = length d"
    and "distinct bs" "\<forall>n\<in>set bs. n < disksize s \<and> n \<notin> log_area s \<and> n \<notin> dirty s" "lh_n s + int (length bs) < 30"
  shows "\<exists>t. each (log_update f) bs s = Done t \<and> same_op s t \<and> in_op t \<and> held t = {} \<and> lh_n t = lh_n s + int (length bs)"
  using assms(1-3,5-7)
proof (induction bs arbitrary: s)
  case Nil
  then show ?case by simp
next
  case (Cons n bs)
  have "length (content s n) = BSIZE" using bc.content_length [of s] Cons.prems(1) by (simp add: in_op_def)
  moreover have "room s 1" using Cons.prems(2,3,6) by (simp add: room_def)
  ultimately obtain t where t: "log_update f n s = Done t" "same_op s t" "in_op t" "held t = {}" "dirty t = insert n (dirty s)"
    using update_in_op [OF Cons.prems(1), of n f] Cons.prems(2,5) assms(4) by (auto simp: log_update_def)
  have "finite (dirty s)" using Cons.prems(1) by (simp add: in_op_def trans_ok_def)
  then have n: "lh_n t = lh_n s + 1" using trans_count [OF t(3)] trans_count [OF Cons.prems(1)] t(5) Cons.prems(5) by simp
  have ar: "log_area t = log_area s" "disksize t = disksize s" "log_size t = 30"
    using t(2) same_op_area [of s t] Cons.prems(3) by (auto simp: same_op_def)
  obtain u where "each (log_update f) bs t = Done u" "same_op t u" "in_op u" "held u = {}" "lh_n u = lh_n t + int (length bs)"
    using Cons.IH [OF t(3,4) ar(3)] Cons.prems(4-6) t(5) ar n by auto
  then show ?case using t(1,2) n same_op_trans by auto
qed

text \<open>
  C17: With the log the image is formatted with (\<open>nlog = LOGSIZE\<close>, header included) the reservation of
  \<^verbatim>\<open>begin_op\<close> is one block short.  From every idle state with an empty log, three operations are
  admitted one after the other; then 29 different blocks are read, changed, logged and released without an
  error, and when the 30th, still within the \<open>MAXOPBLOCKS\<close> blocks of each of the three operations, is
  logged, \<^verbatim>\<open>log_write\<close> panics.
\<close>

theorem log_space_short:
  fixes s :: "'a lstate_scheme"
  assumes "cache_wf s" "log_ok s" "trans_ok s" "held s = {}" "lh_n s = 0" "outstanding s = 0" "\<not> committing s"
    and "log_size s = int LOGSIZE" "\<And>d. length (f d) = length d"
    and "distinct bs" "length bs + 1 = 3 * MAXOPBLOCKS" "n \<notin> set bs" "\<forall>m\<in>insert n (set bs). m < disksize s \<and> m \<notin> log_area s"
  shows "\<exists>t u. and_then (begin_op s) (\<lambda>s. and_then (begin_op s) begin_op) = Done t \<and> outstanding t = 3 \<and>
    each (log_update f) bs t = Done u \<and> outstanding u = 3 \<and> log_update f n u = Panic ''too big a transaction''"
proof -
  let ?t = "s\<lparr>outstanding := 3\<rparr>"
  have t: "and_then (begin_op s) (\<lambda>s. and_then (begin_op s) begin_op) = Done ?t" using assms(5-7) by (simp add: begin_op_def layout_defs)
  have d: "dirty s = {}" using assms(3,5) by (simp add: trans_ok_def logged_def)
  have op: "in_op ?t" using assms(1-3) by (simp add: in_op_def log_ok_def trans_ok_def logged_def home_ok_def log_area_def)
  have ar: "log_area ?t = log_area s" by (simp add: log_area_def)
  have "\<exists>u. each (log_update f) bs ?t = Done u \<and> same_op ?t u \<and> in_op u \<and> held u = {} \<and> lh_n u = lh_n ?t + int (length bs)"
    using assms(4,5,8-13) d ar by (intro log_updates [OF op]) (auto simp: layout_defs)
  then obtain u where u: "each (log_update f) bs ?t = Done u" "same_op ?t u" "in_op u" "held u = {}" "lh_n u = 29"
    using assms(5,11) by (auto simp: layout_defs)
  have s: "log_size u = 30" "outstanding u = 3" "disksize u = disksize s" using u(2) assms(8) by (simp_all add: same_op_def layout_defs)
  obtain v i where v: "bread 1 n u = Done (v, i)" "lh_n v = 29" "log_size v = 30"
    using read_in_op [OF u(3), of n] u(4,5) s assms(13) by (auto simp: room_def same_op_def)
  then have "log_write i (edit i f v) = Panic ''too big a transaction''" using same_env_log [OF edit_env [of v i f]] by (simp add: log_write_def)
  then have "log_update f n u = Panic ''too big a transaction''" using v(1) by (simp add: log_update_def)
  then show ?thesis using t u(1) s(2) by (intro exI [of _ ?t] exI [of _ u]) simp
qed

lemma word_range:
  assumes "b \<le> 4294967296"
  shows "distinct (map of_nat [a..<b] :: u32 list)" "\<forall>m\<in>set (map of_nat [a..<b] :: u32 list). a \<le> unat m \<and> unat m < b"
proof -
  have u: "unat (of_nat k :: u32) = k" if "k < b" for k using that assms by (simp add: unat_of_nat)
  have "inj_on (of_nat :: nat \<Rightarrow> u32) {a..<b}" by (rule inj_onI) (metis atLeastLessThan_iff u)
  then show "distinct (map of_nat [a..<b] :: u32 list)" by (simp add: distinct_map)
  show "\<forall>m\<in>set (map of_nat [a..<b] :: u32 list). a \<le> unat m \<and> unat m < b" using u by auto
qed

text \<open>From the state after boot, with blocks 100 to 129.\<close>

theorem log_space_short_witness:
  "\<exists>t u. and_then (begin_op demo) (\<lambda>s. and_then (begin_op s) begin_op) = Done t \<and> outstanding t = 3 \<and>
    each (log_update (\<lambda>d. d[0 := 1])) (map of_nat [100..<129]) t = Done u \<and> outstanding u = 3 \<and>
    log_update (\<lambda>d. d[0 := 1]) 129 u = Panic ''too big a transaction''"
proof -
  define bs :: "u32 list" where "bs = map of_nat [100..<129]"
  have c: "log_ok demo" "trans_ok demo" using demo_ready by (simp_all add: commit_ready_def)
  have d: "distinct bs" "\<forall>m\<in>set bs. 100 \<le> unat m \<and> unat m < 129" unfolding bs_def by (rule word_range, simp)+
  have l: "length bs + 1 = 3 * MAXOPBLOCKS" unfolding bs_def by (simp only: length_map length_upt) (simp add: layout_defs)
  have n: "129 \<notin> set bs" using d(2) by auto
  have "100 \<le> unat m \<and> unat m \<le> 129" if "m \<in> insert 129 (set bs)" for m using that d(2) by auto
  then have "\<forall>m\<in>insert 129 (set bs). m < disksize demo \<and> m \<notin> log_area demo"
    by (simp add: demo_state log_area_def word_less_nat_alt) fastforce
  then show ?thesis unfolding bs_def [symmetric]
    by (intro log_space_short [OF demo_state(1) c demo_state(2,8,9) _ _ _ d(1) l n]) (simp_all add: demo_state layout_defs)
qed

end
