(* ===== verification/Fs_Files.thy ===== *)
theory Fs_Files
  imports Fs_Blocks
begin

text \<open>
  File contents.  A file is the sequence of bytes its block addresses lead to;
  \<^verbatim>\<open>readi\<close> returns a slice of it and \<^verbatim>\<open>writei\<close> replaces one, for the part of
  a file whose blocks are allocated.
\<close>

unbundle bit_operations_syntax

subsection \<open>The bytes of a file\<close>

definition faddr :: "'a fstate_scheme \<Rightarrow> nat \<Rightarrow> nat \<Rightarrow> u32" where
  "faddr s i k = (let ip = inodes s ! i in
     if k < NDIRECT then iaddrs ip ! k else get32 (content s (iaddrs ip ! NDIRECT)) (4 * (k - NDIRECT)))"

definition fbyte :: "'a fstate_scheme \<Rightarrow> nat \<Rightarrow> nat \<Rightarrow> u8" where
  "fbyte s i j = content s (faddr s i (j div BSIZE)) ! (j mod BSIZE)"

definition nblocks :: "nat \<Rightarrow> nat" where
  "nblocks n = (n + BSIZE - 1) div BSIZE"

lemma nblocks_iff: "k < nblocks n \<longleftrightarrow> k * BSIZE < n"
  by (auto simp: nblocks_def layout_defs)

text \<open>The first \<open>n\<close> bytes of the file lie in allocated blocks that nobody holds.\<close>

definition mapped :: "'a fstate_scheme \<Rightarrow> nat \<Rightarrow> nat \<Rightarrow> bool" where
  "mapped s i n \<longleftrightarrow> i < length (inodes s) \<and> idev (inodes s ! i) = 1 \<and> n \<le> MAXFILE * BSIZE \<and>
     (\<forall>k<nblocks n. faddr s i k \<noteq> 0 \<and> faddr s i k < disksize s \<and> faddr s i k \<notin> held s) \<and>
     (NDIRECT < nblocks n \<longrightarrow>
        (let a = iaddrs (inodes s ! i) ! NDIRECT in a \<noteq> 0 \<and> a < disksize s \<and> a \<notin> held s))"

lemma viewed_fs:
  fixes s t :: "'a fstate_scheme"
  assumes "viewed s t"
  shows "sb t = sb s" "inodes t = inodes s" "content t = content s" "held t = held s" "disksize t = disksize s"
    "faddr t i k = faddr s i k" "mapped t i n = mapped s i n" "fbyte t i j = fbyte s i j"
proof -
  have e: "same_env s t" "content t = content s" "held t = held s" using assms by (simp_all add: viewed_def)
  show f: "sb t = sb s" "inodes t = inodes s" using e(1) by (cases s; cases t; simp add: same_env_def)+
  show "content t = content s" "held t = held s" by fact+
  show d: "disksize t = disksize s" using e(1) by (simp add: same_env_def)
  show a: "faddr t i k = faddr s i k" for k using f e by (simp add: faddr_def Let_def)
  show "mapped t i n = mapped s i n" "fbyte t i j = fbyte s i j" using f e d a by (simp_all add: mapped_def fbyte_def Let_def)
qed

lemma unat_block: "unat (off div of_nat BSIZE :: u32) = unat off div BSIZE"
  by (simp add: unat_div layout_defs)

lemma bmap_mapped:
  assumes r: "readable s" and m: "mapped s i n" and k: "unat bn < nblocks n"
  shows "\<exists>t. bmap i bn s = Done (t, faddr s i (unat bn)) \<and> viewed s t"
proof (cases "unat bn < NDIRECT")
  case True
  then have "bn < of_nat NDIRECT" by (simp add: word_less_nat_alt layout_defs)
  moreover have "faddr s i (unat bn) = iaddrs (inodes s ! i) ! unat bn" using True by (simp add: faddr_def)
  moreover have "faddr s i (unat bn) \<noteq> 0" using m k by (simp add: mapped_def)
  ultimately show ?thesis using r by (auto simp: bmap_def readable_def Let_def viewed_refl)
next
  case False
  let ?a = "iaddrs (inodes s ! i) ! NDIRECT" and ?k = "unat bn - NDIRECT"
  have nd: "unat (of_nat NDIRECT :: u32) = NDIRECT" "unat (of_nat NINDIRECT :: u32) = NINDIRECT" by (simp_all add: layout_defs)
  have lt: "unat bn < MAXFILE" using m k by (auto simp: mapped_def nblocks_iff layout_defs)
  have c: "\<not> bn < of_nat NDIRECT" using False nd by (simp add: word_less_nat_alt)
  have kk: "unat (bn - of_nat NDIRECT) = ?k" using False nd by (simp add: unat_sub_if')
  then have ci: "bn - of_nat NDIRECT < of_nat NINDIRECT" using lt nd False by (simp add: word_less_nat_alt MAXFILE_def less_diff_conv2)
  have a: "?a \<noteq> 0" "?a < disksize s" "?a \<notin> held s" using m k False by (auto simp: mapped_def Let_def)
  have d: "idev (inodes s ! i) = 1" using m by (simp add: mapped_def)
  obtain t j u where t: "bread 1 ?a s = Done (t, j)" "data_of t j = content s ?a" "same_env s t" and u: "brelse j t = Done u" "viewed s u"
    using read_viewed [OF r a(2,3)] by blast
  have it: "inodes t = inodes s" using t(3) by (cases s; cases t; simp add: same_env_def)
  have f: "faddr s i (unat bn) = get32 (content s ?a) (4 * ?k)" using False by (simp add: faddr_def)
  have "faddr s i (unat bn) \<noteq> 0" using m k by (simp add: mapped_def)
  then show ?thesis using c ci a(1) t(1,2) u d it f kk by (auto simp: bmap_def Let_def)
qed

lemma in_block:
  assumes "x mod B + j < (B :: nat)"
  shows "(x + j) div B = x div B" "(x + j) mod B = x mod B + j"
proof -
  have "x + j = (x mod B + j) + B * (x div B)" using mod_mult_div_eq [of x B] by linarith
  moreover have "((x mod B + j) + B * (x div B)) div B = x div B" "((x mod B + j) + B * (x div B)) mod B = x mod B + j"
    using assms by (simp_all only: div_mult_self2 mod_mult_self2 div_less mod_less)
  ultimately show "(x + j) div B = x div B" "(x + j) mod B = x mod B + j" by simp_all
qed

lemma readi_loop_reads:
  assumes "readable s" "mapped s i n" "unat off + rem \<le> n"
  shows "\<exists>t. readi_loop i off rem acc s = Done (t, acc @ map (fbyte s i) [unat off..<unat off + rem]) \<and> viewed s t"
  using assms
proof (induction rem arbitrary: off acc s rule: less_induct)
  case (less rem)
  show ?case
  proof (cases "rem = 0")
    case True
    then show ?thesis using less.prems(1) by (subst readi_loop.simps) (simp add: readable_def viewed_refl)
  next
    case False
    let ?k = "unat off div BSIZE" and ?o = "unat off mod BSIZE" and ?m = "chunk rem off"
    let ?a = "faddr s i ?k"
    have B: "0 < BSIZE" by (simp add: layout_defs)
    have m: "0 < ?m" "?m \<le> rem" "?o + ?m \<le> BSIZE" using False chunk_pos [of rem off] by (auto simp: chunk_def layout_defs)
    have k: "?k < nblocks n"
      unfolding nblocks_iff using less.prems(3) False div_times_less_eq_dividend [of "unat off" BSIZE] by linarith
    have N: "n < 2 ^ 31" using less.prems(2) by (simp add: mapped_def layout_defs)
    obtain t where t: "bmap i (off div of_nat BSIZE) s = Done (t, ?a)" "viewed s t"
      using bmap_mapped [OF less.prems(1,2), of "off div of_nat BSIZE"] k unat_block by auto
    note vt = viewed_fs [OF t(2)]
    have a: "?a < disksize t" "?a \<notin> held t" "idev (inodes t ! i) = 1" using less.prems(2) k vt by (auto simp: mapped_def)
    obtain u j v where u: "bread 1 ?a t = Done (u, j)" "data_of u j = content t ?a" and v: "brelse j u = Done v" "viewed t v"
      using read_viewed [OF viewed_readable [OF t(2) less.prems(1)] a(1,2)] by blast
    have sv: "viewed s v" using viewed_trans t(2) v(2) by blast
    note vv = viewed_fs [OF sv]
    have off: "unat (off + of_nat ?m) = unat off + ?m"
    proof -
      have mm: "unat (of_nat ?m :: u32) = ?m" using m(2) less.prems(3) N by (subst unat_of_nat) simp
      then show ?thesis using unat_add_32 [of off "of_nat ?m"] m(2) less.prems(3) N by simp
    qed
    have len: "length (content s ?a) = BSIZE" using bc.content_length [of s] less.prems(1) by (simp add: readable_def)
    let ?bytes = "get_bytes (content s ?a) ?o ?m"
    have bytes: "?bytes = map (fbyte s i) [unat off..<unat off + ?m]"
    proof (rule nth_equalityI)
      show "length ?bytes = length (map (fbyte s i) [unat off..<unat off + ?m])" using m(3) len by simp
      fix j assume "j < length ?bytes"
      then have j: "j < ?m" using m(3) len by simp
      have "?o + j < BSIZE" using j m(3) by simp
      from in_block [OF this] show "?bytes ! j = map (fbyte s i) [unat off..<unat off + ?m] ! j" using j m(3) len by (simp add: fbyte_def)
    qed
    have "\<exists>w. readi_loop i (off + of_nat ?m) (rem - ?m) (acc @ ?bytes) v =
        Done (w, (acc @ ?bytes) @ map (fbyte v i) [unat (off + of_nat ?m)..<unat (off + of_nat ?m) + (rem - ?m)]) \<and> viewed v w"
    proof (rule less.IH)
      show "rem - ?m < rem" using m False by simp
      show "readable v" using viewed_readable [OF sv less.prems(1)] .
      show "mapped v i n" using vv(7) less.prems(2) by simp
      show "unat (off + of_nat ?m) + (rem - ?m) \<le> n" using off m less.prems(3) by simp
    qed
    then obtain w where w: "readi_loop i (off + of_nat ?m) (rem - ?m) (acc @ ?bytes) v =
        Done (w, (acc @ ?bytes) @ map (fbyte s i) [unat off + ?m..<unat off + rem])" "viewed v w"
      using off m(2) vv(8) by auto
    have "[unat off..<unat off + rem] = [unat off..<unat off + ?m] @ [unat off + ?m..<unat off + rem]"
      using m(2) by (metis le_add1 le_add_diff_inverse upt_add_eq_append add.assoc)
    then have "(acc @ ?bytes) @ map (fbyte s i) [unat off + ?m..<unat off + rem] = acc @ map (fbyte s i) [unat off..<unat off + rem]"
      using bytes by simp
    moreover have "readi_loop i off rem acc s = readi_loop i (off + of_nat ?m) (rem - ?m) (acc @ ?bytes) v"
      using False t(1) u v(1) a(3) vt(3) by (subst readi_loop.simps) (simp add: Let_def)
    ultimately show ?thesis using w viewed_trans [OF sv w(2)] by simp
  qed
qed


subsection \<open>Writing\<close>

definition wfile :: "'a fstate_scheme \<Rightarrow> nat \<Rightarrow> nat \<Rightarrow> bool" where
  "wfile s i n \<longleftrightarrow> mapped s i n \<and> inj_on (faddr s i) {..<nblocks n} \<and>
     (\<forall>k<nblocks n. faddr s i k \<notin> log_area s \<and> (NDIRECT < nblocks n \<longrightarrow> faddr s i k \<noteq> iaddrs (inodes s ! i) ! NDIRECT))"

definition touched :: "nat \<Rightarrow> nat \<Rightarrow> nat" where
  "touched off rem = (if rem = 0 then 0 else nblocks (off + rem) - off div BSIZE)"

definition file_blocks :: "'a fstate_scheme \<Rightarrow> nat \<Rightarrow> nat \<Rightarrow> u32 set" where
  "file_blocks s i n = faddr s i ` {..<nblocks n}"

text \<open>The content of one data block changed.\<close>

lemma data_update:
  assumes w: "wfile s i n" and k: "k < nblocks n" and t: "same_op s t" "held t = held s" "content t = (content s)(faddr s i k := d)"
  shows "faddr t i j = faddr s i j \<or> \<not> j < nblocks n" "wfile t i n" "inodes t = inodes s"
    "j < nblocks n \<Longrightarrow> content t (faddr s i j) = (if j = k then d else content s (faddr s i j))"
    "b \<notin> file_blocks s i n \<Longrightarrow> content t b = content s b"
proof -
  show f: "inodes t = inodes s" by (rule fs_fields(2) [OF t(1)])
  have fa: "faddr t i j = faddr s i j" if "j < nblocks n" for j
  proof (cases "j < NDIRECT")
    case False
    then have "faddr s i k \<noteq> iaddrs (inodes s ! i) ! NDIRECT" using w k that by (auto simp: wfile_def)
    then show ?thesis using False f t(3) by (simp add: faddr_def Let_def)
  qed (simp add: faddr_def f)
  then show "faddr t i j = faddr s i j \<or> \<not> j < nblocks n" by blast
  have "inj_on (faddr t i) {..<nblocks n} = inj_on (faddr s i) {..<nblocks n}" by (rule inj_on_cong) (simp add: fa)
  then have img: "inj_on (faddr t i) {..<nblocks n}" using w by (simp add: wfile_def)
  show "wfile t i n" using w fa img f t(1,2) same_op_area [OF t(1)] by (auto simp: wfile_def mapped_def same_op_def Let_def)
  show "content t (faddr s i j) = (if j = k then d else content s (faddr s i j))" if "j < nblocks n"
    using w k that t(3) by (auto simp: wfile_def inj_on_def)
  show "content t b = content s b" if "b \<notin> file_blocks s i n" using that k t(3) by (auto simp: file_blocks_def)
qed

lemma touched_step:
  assumes "0 < rem" "m = chunk rem off" "unat off + rem < 2 ^ 32"
  shows "Suc (touched (unat off + m) (rem - m)) \<le> touched (unat off) rem"
proof -
  let ?q = "unat off div BSIZE" and ?o = "unat off mod BSIZE"
  have off: "unat off = BSIZE * ?q + ?o" by simp
  have B: "BSIZE = 512" by (simp add: layout_defs)
  have "?q * BSIZE < unat off + rem" using assms(1) div_times_less_eq_dividend [of "unat off" BSIZE] by linarith
  then have lt: "?q < nblocks (unat off + rem)" by (simp add: nblocks_iff)
  show ?thesis
  proof (cases "rem \<le> BSIZE - ?o")
    case True
    then show ?thesis using assms(1,2) lt by (simp add: chunk_def touched_def)
  next
    case False
    then have m: "m = BSIZE - ?o" "m \<le> rem" using assms(2) by (auto simp: chunk_def)
    have "?o < BSIZE" by (simp add: B)
    then have "unat off + m = BSIZE * ?q + BSIZE" using off m(1) by linarith
    then have "(unat off + m) div BSIZE = ?q + 1" by (simp add: B)
    then show ?thesis using m(2) lt assms(1) by (auto simp: touched_def)
  qed
qed

lemma block_range:
  assumes "off mod B + m \<le> (B :: nat)"
  shows "j div B = off div B \<and> off mod B \<le> j mod B \<and> j mod B < off mod B + m \<longleftrightarrow> off \<le> j \<and> j < off + m"
proof
  assume a: "j div B = off div B \<and> off mod B \<le> j mod B \<and> j mod B < off mod B + m"
  have "j = B * (off div B) + j mod B" using mult_div_mod_eq [of B j] a by simp
  moreover have "off = B * (off div B) + off mod B" by simp
  ultimately show "off \<le> j \<and> j < off + m" using a by linarith
next
  assume a: "off \<le> j \<and> j < off + m"
  have "off mod B + (j - off) < B" using a assms by linarith
  from in_block [OF this] show "j div B = off div B \<and> off mod B \<le> j mod B \<and> j mod B < off mod B + m" using a by auto
qed

lemma writei_loop_writes:
  assumes "in_op s" "room s (touched (unat off) rem)" "wfile s i n" "unat off + rem \<le> n" "length src = rem"
  shows "\<exists>t. writei_loop i src off rem s = Done (t, off + of_nat rem) \<and> same_op s t \<and> in_op t \<and> held t = held s \<and> wfile t i n \<and>
    (\<forall>j<n. fbyte t i j = (if unat off \<le> j \<and> j < unat off + rem then src ! (j - unat off) else fbyte s i j)) \<and>
    (\<forall>b. b \<notin> file_blocks s i n \<longrightarrow> content t b = content s b) \<and> lh_n t \<le> lh_n s + int (touched (unat off) rem)"
  using assms
proof (induction rem arbitrary: off src s rule: less_induct)
  case (less rem)
  show ?case
  proof (cases "rem = 0")
    case True
    then show ?thesis using less.prems by (subst writei_loop.simps) auto
  next
    case False
    let ?k = "unat off div BSIZE" and ?o = "unat off mod BSIZE" and ?m = "chunk rem off"
    let ?a = "faddr s i ?k" and ?f = "\<lambda>d. put_bytes d ?o (take ?m src)"
    have m: "0 < ?m" "?m \<le> rem" "?o + ?m \<le> BSIZE" using False chunk_pos [of rem off] by (auto simp: chunk_def layout_defs)
    have mp: "mapped s i n" using less.prems(3) by (simp add: wfile_def)
    have N: "n < 2 ^ 31" using mp by (simp add: mapped_def layout_defs)
    have k: "?k < nblocks n"
      unfolding nblocks_iff using less.prems(4) False div_times_less_eq_dividend [of "unat off" BSIZE] by linarith
    have tp: "Suc (touched (unat off + ?m) (rem - ?m)) \<le> touched (unat off) rem"
      using touched_step [of rem ?m off] False less.prems(4) N by auto
    have rd: "readable s" using less.prems(1) room_buffers [OF less.prems(1,2)] by (simp add: readable_def in_op_def)
    obtain t where t: "bmap i (off div of_nat BSIZE) s = Done (t, ?a)" "viewed s t"
      using bmap_mapped [OF rd mp, of "off div of_nat BSIZE"] k unat_block by auto
    note vt = viewed_fs [OF t(2)]
    have ot: "same_op s t" "lh_n t = lh_n s" "in_op t" using viewed_op [of s t] t(2) less.prems(1) by (auto simp: viewed_def)
    have a: "?a < disksize t" "?a \<notin> held t" "?a \<notin> log_area t" "idev (inodes t ! i) = 1"
      using less.prems(3) k vt same_op_area [OF ot(1)] by (auto simp: wfile_def mapped_def)
    have rt: "room t 1" using less.prems(2) tp ot vt(4) by (auto simp: room_def same_op_def)
    have len: "length (content t ?a) = BSIZE" using bc.content_length [of t] ot(3) by (simp add: in_op_def)
    have tk: "length (take ?m src) = ?m" using m(2) less.prems(5) by simp
    have lf: "length (?f (content t ?a)) = BSIZE" using len m(3) tk by simp
    obtain u where u: "and_then (bread 1 ?a t) (\<lambda>(s, b). and_then (log_write b (edit b ?f s)) (brelse b)) = Done u" "same_op t u"
      "lh_n u \<le> lh_n t + 1" "in_op u" "held u = held t" "content u = (content t)(?a := ?f (content t ?a))"
      using update_in_op [where f = ?f, OF ot(3) rt a(1-3) lf] by auto
    have su: "same_op s u" "held u = held s" "content u = (content s)(?a := ?f (content s ?a))"
      using same_op_trans [OF ot(1) u(2)] u vt by auto
    note du = data_update [OF less.prems(3) k su]
    have step: "writei_loop i src off rem s = writei_loop i (drop ?m src) (off + of_nat ?m) (rem - ?m) u"
      using False t(1) u(1) a(4) by (subst writei_loop.simps) (auto simp: Let_def outcome_simps split: prod.splits)
    have off: "unat (off + of_nat ?m) = unat off + ?m"
    proof -
      have "unat (of_nat ?m :: u32) = ?m" using m(2) less.prems(4) N by (subst unat_of_nat) simp
      then show ?thesis using unat_add_32 [of off "of_nat ?m"] m(2) less.prems(4) N by simp
    qed
    have "\<exists>v. writei_loop i (drop ?m src) (off + of_nat ?m) (rem - ?m) u = Done (v, off + of_nat ?m + of_nat (rem - ?m)) \<and> same_op u v \<and> in_op v \<and>
      held v = held u \<and> wfile v i n \<and>
      (\<forall>j<n. fbyte v i j = (if unat (off + of_nat ?m) \<le> j \<and> j < unat (off + of_nat ?m) + (rem - ?m) then drop ?m src ! (j - unat (off + of_nat ?m)) else fbyte u i j)) \<and>
      (\<forall>b. b \<notin> file_blocks u i n \<longrightarrow> content v b = content u b) \<and>
      lh_n v \<le> lh_n u + int (touched (unat (off + of_nat ?m)) (rem - ?m))"
    proof (rule less.IH)
      show "rem - ?m < rem" using m False by simp
      show "in_op u" by (rule u(4))
      show "room u (touched (unat (off + of_nat ?m)) (rem - ?m))"
        using less.prems(2) tp ot(2) u(3) su off by (auto simp: room_def same_op_def)
      show "wfile u i n" by (rule du(2))
      show "unat (off + of_nat ?m) + (rem - ?m) \<le> n" using off m less.prems(4) by simp
      show "length (drop ?m src) = rem - ?m" using less.prems(5) by simp
    qed
    then obtain v where v: "writei_loop i (drop ?m src) (off + of_nat ?m) (rem - ?m) u = Done (v, off + of_nat ?m + of_nat (rem - ?m))"
      "same_op u v" "in_op v" "held v = held u" "wfile v i n"
      "\<And>j. j < n \<Longrightarrow> fbyte v i j = (if unat off + ?m \<le> j \<and> j < unat off + rem then drop ?m src ! (j - (unat off + ?m)) else fbyte u i j)"
      "\<And>b. b \<notin> file_blocks u i n \<Longrightarrow> content v b = content u b"
      "lh_n v \<le> lh_n u + int (touched (unat off + ?m) (rem - ?m))"
      using off m(2) by auto
    have fu: "fbyte u i j = (if unat off \<le> j \<and> j < unat off + ?m then src ! (j - unat off) else fbyte s i j)" if j: "j < n" for j
    proof -
      have jk: "j div BSIZE < nblocks n" unfolding nblocks_iff using j div_times_less_eq_dividend [of j BSIZE] by linarith
      have "fbyte u i j = (if j div BSIZE = ?k then ?f (content s ?a) ! (j mod BSIZE) else fbyte s i j)"
        using du(1) [of "j div BSIZE"] du(4) [OF jk] jk by (simp add: fbyte_def)
      moreover have "?f (content s ?a) ! (j mod BSIZE) = (if ?o \<le> j mod BSIZE \<and> j mod BSIZE < ?o + ?m then src ! (j mod BSIZE - ?o) else content s ?a ! (j mod BSIZE))"
        using m(3) tk len vt(3) by (subst nth_put_bytes) (auto simp: layout_defs less_diff_conv2)
      moreover have "j div BSIZE = ?k \<and> ?o \<le> j mod BSIZE \<and> j mod BSIZE < ?o + ?m \<longleftrightarrow> unat off \<le> j \<and> j < unat off + ?m"
        by (rule block_range [OF m(3)])
      moreover have "j mod BSIZE - ?o = j - unat off" if "j div BSIZE = ?k"
        using that mult_div_mod_eq [of BSIZE j] mult_div_mod_eq [of BSIZE "unat off"] by (metis add_diff_cancel_left)
      ultimately show ?thesis by (auto simp: fbyte_def)
    qed
    have "file_blocks u i n = file_blocks s i n" unfolding file_blocks_def using du(1) by (intro image_cong) auto
    moreover have "drop ?m src ! (j - (unat off + ?m)) = src ! (j - unat off)" if "unat off + ?m \<le> j" for j
      using that less.prems(5) m(2) by simp
    moreover have "off + of_nat ?m + of_nat (rem - ?m) = off + of_nat rem" using m(2) by (simp add: of_nat_diff)
    ultimately show ?thesis
      using v step su ot(2) u(3) tp same_op_trans [OF su(1) v(2)] fu du(5) m(2)
      by (intro exI [of _ v]) auto
  qed
qed


subsection \<open>Properties\<close>

lemma sint_small: "n < 2 ^ 31 \<Longrightarrow> sint (of_nat n :: u32) = int n"
  using int_word_sint [of "int n", where 'a = 32] by simp

lemma sint_unat: "unat (w :: u32) < 2 ^ 31 \<Longrightarrow> sint w = int (unat w)"
  using sint_small [of "unat w"] by simp

lemma unat_small: "n < 2 ^ 32 \<Longrightarrow> unat (of_nat n :: u32) = n"
  by (subst unat_of_nat) simp

lemma readi_within:
  assumes "readable s" "mapped s i (unat (isize (inodes s ! i)))" "itype (inodes s ! i) \<noteq> T_DEV"
    "unat off + n \<le> unat (isize (inodes s ! i))"
  shows "\<exists>t. readi dv i off (of_nat n) s = Done (t, int n, map (fbyte s i) [unat off..<unat off + n]) \<and> viewed s t"
proof -
  let ?z = "isize (inodes s ! i)"
  have Z: "unat ?z \<le> 71680" using assms(2) by (simp add: mapped_def layout_defs)
  have n: "unat (of_nat n :: u32) = n" "sint (of_nat n :: u32) = int n" using assms(4) Z by (simp_all add: unat_small sint_small)
  have on: "unat (off + of_nat n) = unat off + n" using unat_add_32 [of off "of_nat n"] n(1) assms(4) Z by simp
  have g: "\<not> (?z < off \<or> off + of_nat n < off)" "\<not> off + of_nat n > ?z" using assms(4) on by (auto simp: word_less_nat_alt)
  obtain t where "readi_loop i off n [] s = Done (t, map (fbyte s i) [unat off..<unat off + n])" "viewed s t"
    using readi_loop_reads [OF assms(1,2,4), of "[]"] by auto
  then show ?thesis using g n assms(3) by (auto simp: readi_def Let_def)
qed

lemma writei_within:
  assumes op: "in_op s" "room s (touched (unat off) (length src))" and f: "wfile s i (unat (isize (inodes s ! i)))" "itype (inodes s ! i) \<noteq> T_DEV"
    and fit: "unat off + length src \<le> unat (isize (inodes s ! i))"
  shows "\<exists>t. writei dv i src off (of_nat (length src)) s = Done (t, int (length src)) \<and> same_op s t \<and> in_op t \<and> held t = held s \<and>
    wfile t i (unat (isize (inodes s ! i))) \<and> readable t \<and>
    (\<forall>j < unat (isize (inodes s ! i)). fbyte t i j = (if unat off \<le> j \<and> j < unat off + length src then src ! (j - unat off) else fbyte s i j)) \<and>
    (\<forall>b. b \<notin> file_blocks s i (unat (isize (inodes s ! i))) \<longrightarrow> content t b = content s b)"
proof -
  let ?z = "isize (inodes s ! i)" and ?n = "of_nat (length src) :: u32"
  have mp: "mapped s i (unat ?z)" using f(1) by (simp add: wfile_def)
  have Z: "unat ?z \<le> 71680" using mp by (simp add: mapped_def layout_defs)
  have n: "unat ?n = length src" "sint ?n = int (length src)" using fit Z by (simp_all add: unat_small sint_small)
  have on: "unat (off + ?n) = unat off + length src" using unat_add_32 [of off ?n] n(1) fit Z by simp
  obtain t where t: "writei_loop i src off (length src) s = Done (t, off + ?n)" "same_op s t" "in_op t" "held t = held s" "wfile t i (unat ?z)"
    "\<And>j. j < unat ?z \<Longrightarrow> fbyte t i j = (if unat off \<le> j \<and> j < unat off + length src then src ! (j - unat off) else fbyte s i j)"
    "\<And>b. b \<notin> file_blocks s i (unat ?z) \<Longrightarrow> content t b = content s b" "lh_n t \<le> lh_n s + int (touched (unat off) (length src))"
    using writei_loop_writes [OF op f(1) fit refl] by blast
  have it: "inodes t = inodes s" by (rule fs_fields(2) [OF t(2)])
  have g: "\<not> (?z < off \<or> off + ?n < off)" "\<not> off + ?n > of_nat (MAXFILE * BSIZE)" "\<not> off + ?n > ?z"
    using fit on Z by (auto simp: word_less_nat_alt layout_defs)
  have w: "writei dv i src off ?n s = Done (t, int (length src))"
    using t(1) f(2) g n it by (simp add: writei_def Let_def)
  have "lh_n t + int (card (held t)) < log_size t" using op(2) t(2,4,8) by (auto simp: room_def same_op_def)
  then have "room t 0" by (simp add: room_def)
  then have "readable t" using room_buffers [OF t(3)] t(3) by (simp add: readable_def in_op_def)
  then show ?thesis using w t(2-7) by (intro exI [of _ t]) simp
qed

text \<open>
  C19: \<^verbatim>\<open>readi\<close> reads the file.  For a regular file or directory whose blocks
  are allocated, \<^verbatim>\<open>readi\<close> returns \<open>-1\<close> exactly when the offset is beyond the
  end or \<^verbatim>\<open>off + n\<close> overflows; otherwise it returns the bytes of the file
  from \<^verbatim>\<open>off\<close>, \<open>n\<close> of them or as many as there are before the end, and
  changes nothing a client of the cache can see.
\<close>

theorem readi_returns_slice:
  assumes "readable s" "mapped s i (unat (isize (inodes s ! i)))" "itype (inodes s ! i) \<noteq> T_DEV"
  shows "if isize (inodes s ! i) < off \<or> 2 ^ 32 \<le> unat off + unat n then readi dv i off n s = Done (s, -1, [])
    else \<exists>t. let m = min (unat n) (unat (isize (inodes s ! i)) - unat off) in
      readi dv i off n s = Done (t, int m, map (fbyte s i) [unat off..<unat off + m]) \<and> viewed s t"
proof -
  let ?z = "isize (inodes s ! i)"
  have Z: "unat ?z \<le> MAXFILE * BSIZE" using assms(2) by (simp add: mapped_def)
  have ovf: "off + n < off \<longleftrightarrow> 2 ^ 32 \<le> unat off + unat n"
    unfolding word_less_nat_alt using unat_plus_if' [of off n] unsigned_less [of off, where 'a = nat] unsigned_less [of n, where 'a = nat]
    by auto
  show ?thesis
  proof (cases "?z < off \<or> 2 ^ 32 \<le> unat off + unat n")
    case True
    then show ?thesis using assms(3) ovf by (auto simp: readi_def Let_def)
  next
    case False
    let ?n = "if off + n > ?z then ?z - off else n"
    have le: "unat off \<le> unat ?z" "unat (off + n) = unat off + unat n" using False by (auto simp: word_le_nat_alt not_less unat_plus_if')
    then have m: "unat ?n = min (unat n) (unat ?z - unat off)" by (auto simp: word_less_nat_alt unat_sub_if' min_def)
    then have "unat off + unat ?n \<le> unat ?z" using le by auto
    then obtain t where t: "readi_loop i off (unat ?n) [] s = Done (t, map (fbyte s i) [unat off..<unat off + unat ?n])" "viewed s t"
      using readi_loop_reads [OF assms(1,2), of off "unat ?n" "[]"] by auto
    have "unat ?n < 2 ^ 31" unfolding m using Z by (auto simp: layout_defs min_less_iff_disj)
    then have "sint ?n = int (unat ?n)" by (rule sint_unat)
    then show ?thesis using False t ovf assms(3) m by (auto simp: readi_def Let_def)
  qed
qed

lemma fs_demo_mapped: "mapped fs_demo 0 600" "wfile fs_demo 0 600" "nblocks 600 = 2"
proof -
  show n: "nblocks 600 = 2" by (simp add: nblocks_def layout_defs)
  have f: "faddr fs_demo 0 0 = 60" "faddr fs_demo 0 1 = 61" by (simp_all add: faddr_def fs_demo_state fs_inode_def layout_defs)
  have all: "(\<forall>k<2. P k) \<longleftrightarrow> P 0 \<and> P (1 :: nat)" for P by (auto simp: less_2_cases_iff)
  show m: "mapped fs_demo 0 600"
    using f by (simp add: mapped_def n all fs_demo_state fs_inode_def layout_defs)
  have "inj_on (faddr fs_demo 0) {..<2}" using f by (auto simp: inj_on_def less_2_cases_iff)
  then show "wfile fs_demo 0 600" using m f by (simp add: wfile_def n all fs_demo_op layout_defs)
qed

definition no_devices :: "'s devsw" where
  "no_devices = \<lparr>dev_read = \<lambda>_. None, dev_write = \<lambda>_. None\<rparr>"

theorem readi_returns_slice_witness:
  "\<exists>t. readi no_devices 0 590 100 fs_demo = Done (t, 10, map (fbyte fs_demo 0) [590..<600]) \<and> viewed fs_demo t"
proof -
  have "readable fs_demo" by (simp add: readable_def fs_demo_state layout_defs)
  moreover have z: "isize (inodes fs_demo ! 0) = 600" "itype (inodes fs_demo ! 0) \<noteq> T_DEV"
    by (simp_all add: fs_demo_state fs_inode_def T_FILE_def T_DEV_def)
  ultimately show ?thesis
    using readi_returns_slice [of fs_demo 0 590 100 no_devices] fs_demo_mapped(1) by (simp add: Let_def)
qed


text \<open>
  C18: What \<^verbatim>\<open>writei\<close> writes, \<^verbatim>\<open>readi\<close> reads back.  Inside a transaction with
  room for the blocks the range touches, writing \<open>src\<close> within a file whose
  blocks are allocated and distinct returns the number of bytes; reading the
  same range then returns \<open>src\<close>.  The other bytes of the file, and every block
  that is not one of the file's, keep their content; nothing reaches the disk
  before the commit.
\<close>

theorem writei_readi_round_trip:
  assumes op: "in_op s" "room s (touched (unat off) (length src))" and f: "wfile s i (unat (isize (inodes s ! i)))" "itype (inodes s ! i) \<noteq> T_DEV"
    and fit: "unat off + length src \<le> unat (isize (inodes s ! i))"
  shows "\<exists>t u. writei dv i src off (of_nat (length src)) s = Done (t, int (length src)) \<and>
    readi dv i off (of_nat (length src)) t = Done (u, int (length src), src) \<and>
    (\<forall>j < unat (isize (inodes s ! i)). j < unat off \<or> unat off + length src \<le> j \<longrightarrow> fbyte t i j = fbyte s i j) \<and>
    (\<forall>b. b \<notin> file_blocks s i (unat (isize (inodes s ! i))) \<longrightarrow> content t b = content s b) \<and> disk t = disk s"
proof -
  let ?z = "isize (inodes s ! i)"
  obtain t where t: "writei dv i src off (of_nat (length src)) s = Done (t, int (length src))" "same_op s t" "wfile t i (unat ?z)" "readable t"
    "\<forall>j < unat ?z. fbyte t i j = (if unat off \<le> j \<and> j < unat off + length src then src ! (j - unat off) else fbyte s i j)"
    "\<forall>b. b \<notin> file_blocks s i (unat ?z) \<longrightarrow> content t b = content s b"
    using writei_within [OF assms] by blast
  have it: "inodes t = inodes s" by (rule fs_fields(2) [OF t(2)])
  have "mapped t i (unat (isize (inodes t ! i)))" "itype (inodes t ! i) \<noteq> T_DEV" "unat off + length src \<le> unat (isize (inodes t ! i))"
    using t(3) f(2) fit it by (simp_all add: wfile_def)
  from readi_within [OF t(4) this] obtain u where
    u: "readi dv i off (of_nat (length src)) t = Done (u, int (length src), map (fbyte t i) [unat off..<unat off + length src])" by blast
  have "map (fbyte t i) [unat off..<unat off + length src] = src"
    using t(5) fit by (intro nth_equalityI) auto
  then show ?thesis using u t(1,2,5,6) by (intro exI [of _ t] exI [of _ u]) (auto simp: same_op_def)
qed

theorem writei_readi_round_trip_witness:
  "\<exists>t u. writei no_devices 0 [1, 2, 3, 4] 510 4 fs_demo = Done (t, 4) \<and> readi no_devices 0 510 4 t = Done (u, 4, [1, 2, 3, 4]) \<and>
    fbyte t 0 3 = fbyte fs_demo 0 3 \<and> disk t = disk fs_demo"
proof -
  have z: "isize (inodes fs_demo ! 0) = 600" "itype (inodes fs_demo ! 0) \<noteq> T_DEV"
    by (simp_all add: fs_demo_state fs_inode_def T_FILE_def T_DEV_def)
  have "room fs_demo (touched 510 (Suc (Suc (Suc (Suc 0)))))" using fs_demo_op(2) by (simp add: room_def touched_def nblocks_def layout_defs)
  then show ?thesis
    using writei_readi_round_trip [of fs_demo 510 "[1, 2, 3, 4]" 0 no_devices] fs_demo_op(1) fs_demo_mapped(2) z by auto
qed

end
