(* ===== verification/Fs_Names.thy ===== *)
theory Fs_Names
  imports Fs_Files
begin

text \<open>
  Path names, the inode cache, inodes on the disk and directories.
\<close>

unbundle bit_operations_syntax

subsection \<open>Path elements\<close>

text \<open>The elements of a path, defined independently of \<^verbatim>\<open>skipelem\<close>: split at every slash, drop the empty pieces.\<close>

fun split_slash :: "u8 list \<Rightarrow> u8 list list" where
  "split_slash [] = [[]]"
| "split_slash (c # cs) = (if c = slash then [] # split_slash cs else (c # hd (split_slash cs)) # tl (split_slash cs))"

definition components :: "u8 list \<Rightarrow> u8 list list" where
  "components path = filter (\<lambda>e. e \<noteq> []) (split_slash path)"

text \<open>The names that the loop of \<^verbatim>\<open>namex\<close> sees.\<close>

function path_names :: "u8 list \<Rightarrow> u8 list list" where
  "path_names path = (case skipelem path of None \<Rightarrow> [] | Some (rest, name) \<Rightarrow> name # path_names rest)"
  by pat_completeness auto
termination by (relation "measure length") (auto dest: skipelem_shorter)

declare path_names.simps [simp del]

lemma split_slash_nonempty [simp]: "split_slash p \<noteq> []"
  by (cases p) auto

lemma components_slash [simp]: "components (slash # p) = components p"
  by (simp add: components_def)

lemma components_skip: "components (dropWhile (\<lambda>c. c = slash) p) = components p"
  by (induction p) auto

lemma split_slash_append:
  assumes "slash \<notin> set e"
  shows "split_slash (e @ q) = (e @ hd (split_slash q)) # tl (split_slash q)"
  using assms by (induction e) auto

lemma components_elem:
  assumes "slash \<notin> set e" "e \<noteq> []" "q = [] \<or> hd q = slash"
  shows "components (e @ q) = e # components q"
proof (cases q)
  case Nil
  then show ?thesis using assms(2) split_slash_append [OF assms(1), of q] by (simp add: components_def)
next
  case (Cons c cs)
  then show ?thesis using assms split_slash_append [OF assms(1), of q] by (simp add: components_def)
qed

lemma takeWhile_slash_free: "slash \<notin> set (takeWhile (\<lambda>c. c \<noteq> slash) p)"
  using set_takeWhileD [of slash "\<lambda>c. c \<noteq> slash" p] by blast

lemma components_first:
  assumes "p \<noteq> []" "hd p \<noteq> slash"
  shows "components p = takeWhile (\<lambda>c. c \<noteq> slash) p # components (dropWhile (\<lambda>c. c \<noteq> slash) p)" "takeWhile (\<lambda>c. c \<noteq> slash) p \<noteq> []"
proof -
  let ?e = "takeWhile (\<lambda>c. c \<noteq> slash) p" and ?q = "dropWhile (\<lambda>c. c \<noteq> slash) p"
  show e: "?e \<noteq> []" using assms by (cases p) simp_all
  have q: "?q = [] \<or> hd ?q = slash" using hd_dropWhile [of "\<lambda>c. c \<noteq> slash" p] by blast
  show "components p = ?e # components ?q"
    using components_elem [OF takeWhile_slash_free e q] unfolding takeWhile_dropWhile_id .
qed

lemma skipelem_components:
  "case skipelem path of None \<Rightarrow> components path = []
   | Some (rest, name) \<Rightarrow> \<exists>e. components path = e # components rest \<and> name = take DIRSIZ e \<and> e \<noteq> [] \<and>
       (rest = [] \<or> hd rest \<noteq> slash) \<and> (rest = [] \<longleftrightarrow> components rest = [])"
proof -
  let ?p = "dropWhile (\<lambda>c. c = slash) path"
  have c: "components path = components ?p" by (rule components_skip [symmetric])
  show ?thesis
  proof (cases "?p = []")
    case True
    have "components ?p = []" unfolding True by (simp add: components_def)
    with c have "components path = []" by (rule trans)
    moreover have "skipelem path = None" unfolding skipelem_def Let_def True by simp
    ultimately show ?thesis by simp
  next
    case False
    define e where "e = takeWhile (\<lambda>c. c \<noteq> slash) ?p"
    define q where "q = dropWhile (\<lambda>c. c \<noteq> slash) ?p"
    define r where "r = dropWhile (\<lambda>c. c = slash) q"
    have "hd ?p \<noteq> slash" using hd_dropWhile [OF False] .
    from components_first [OF False this] have f: "components ?p = e # components q" "e \<noteq> []" unfolding e_def q_def .
    have "components r = components q" unfolding r_def by (rule components_skip)
    with trans [OF c f(1)] have comps: "components path = e # components r" by simp
    have hd: "r = [] \<or> hd r \<noteq> slash" unfolding r_def using hd_dropWhile [of "\<lambda>c. c = slash" q] by blast
    have "r = [] \<longleftrightarrow> components r = []" using hd components_first(1) [of r] by (cases "r = []") (auto simp: components_def)
    moreover have "skipelem path = Some (r, take DIRSIZ e)"
      unfolding skipelem_def Let_def r_def q_def e_def using False by simp
    ultimately show ?thesis using comps f(2) hd by auto
  qed
qed

text \<open>
  C22: Path parsing.  The names that \<^verbatim>\<open>namex\<close> looks up for a path are the
  non-empty pieces between its slashes, in order, each cut to \<open>DIRSIZ\<close>
  characters; the loop over \<^verbatim>\<open>skipelem\<close> ends for every path.
\<close>

theorem path_names_components: "path_names path = map (take DIRSIZ) (components path)"
proof (induction path rule: path_names.induct)
  case (1 path)
  show ?case
  proof (cases "skipelem path")
    case None
    then show ?thesis using skipelem_components [of path] by (simp add: path_names.simps)
  next
    case (Some r)
    obtain rest name where r: "r = (rest, name)" by (cases r)
    obtain e where "components path = e # components rest" "name = take DIRSIZ e"
      using skipelem_components [of path] Some r by auto
    then show ?thesis using 1 Some r by (subst path_names.simps) auto
  qed
qed

subsection \<open>Inodes on the disk\<close>

lemma get16_put_array_below: "j + 2 \<le> k \<Longrightarrow> get16 (put_array d k ws) j = get16 d j"
proof -
  have "get16 (fold (\<lambda>i d. put32 d (k + 4 * i) (ws ! i)) xs d) j = get16 d j" if "j + 2 \<le> k" for xs d
    using that by (induction xs arbitrary: d) auto
  then show "j + 2 \<le> k \<Longrightarrow> get16 (put_array d k ws) j = get16 d j" by (simp add: put_array_def)
qed

lemma dinode_round_trip:
  assumes "k + DINODE_SIZE \<le> length d" "length (di_addrs di) = NDIRECT + 1"
  shows "dinode_of (put_dinode di k d) k = di"
proof -
  have "get_array (put_dinode di k d) (k + 12) (length (di_addrs di)) = di_addrs di"
    unfolding put_dinode_def by (rule get_put_array) (use assms in \<open>simp add: layout_defs\<close>)
  then show ?thesis using assms
    by (cases di) (simp add: dinode_of_def put_dinode_def get16_put_array_below layout_defs)
qed

text \<open>Bytes outside \<open>[k, k + 64)\<close> are not touched.\<close>

lemma nth_put_array_other:
  "j < k \<or> k + 4 * length ws \<le> j \<Longrightarrow> put_array d k ws ! j = d ! j"
proof -
  have "fold (\<lambda>i d. put32 d (k + 4 * i) (f i)) [0..<n] d ! j = d ! j" if "j < k \<or> k + 4 * n \<le> j" for n and f :: "nat \<Rightarrow> u32"
    using that by (induction n) (auto simp: nth_put32_other)
  then show "j < k \<or> k + 4 * length ws \<le> j \<Longrightarrow> put_array d k ws ! j = d ! j" by (simp add: put_array_def)
qed

lemma nth_put_dinode_other:
  "length (di_addrs di) = NDIRECT + 1 \<Longrightarrow> j < k \<or> k + DINODE_SIZE \<le> j \<Longrightarrow> put_dinode di k d ! j = d ! j"
  unfolding put_dinode_def
  by (auto simp: nth_put_array_other nth_put32_other nth_put16_other layout_defs)

lemma length_put_dinode [simp]: "length (put_dinode di k d) = length d"
  by (simp add: put_dinode_def)

lemma dinode_of_cong:
  assumes "\<And>j. k \<le> j \<Longrightarrow> j < k + DINODE_SIZE \<Longrightarrow> d ! j = e ! j"
  shows "dinode_of d k = dinode_of e k"
  using assms by (simp add: dinode_of_def get16_def get32_def get_array_def layout_defs)


definition dinode_at :: "'a fstate_scheme \<Rightarrow> u32 \<Rightarrow> dinode" where
  "dinode_at s n = dinode_of (content s (IBLOCK n (sb s))) (dinode_offset n)"

lemma dinode_offset_fits: "dinode_offset n + DINODE_SIZE \<le> BSIZE"
proof -
  have "unat n mod IPB < IPB" by (simp add: layout_defs)
  then show ?thesis by (simp add: dinode_offset_def layout_defs)
qed

lemma IBLOCK_inj: "IBLOCK a x = IBLOCK b x \<Longrightarrow> unat a div IPB = unat b div IPB"
proof -
  assume "IBLOCK a x = IBLOCK b x"
  then have "a div 8 = b div (8 :: u32)" by (simp add: IBLOCK_def layout_defs)
  then have "unat (a div 8) = unat (b div (8 :: u32))" by simp
  then show ?thesis by (simp add: unat_div layout_defs)
qed

lemma dinode_disjoint:
  assumes "a \<noteq> b" "IBLOCK a x = IBLOCK b x"
  shows "dinode_offset a + DINODE_SIZE \<le> dinode_offset b \<or> dinode_offset b + DINODE_SIZE \<le> dinode_offset a"
proof -
  have "unat a div IPB = unat b div IPB" using IBLOCK_inj assms(2) .
  moreover have "unat a \<noteq> unat b" using assms(1) unsigned_word_eqI by blast
  ultimately have "unat a mod IPB \<noteq> unat b mod IPB" by (metis div_mult_mod_eq)
  then show ?thesis by (auto simp: dinode_offset_def layout_defs)
qed

definition inode_block_ok :: "'a fstate_scheme \<Rightarrow> u32 \<Rightarrow> bool" where
  "inode_block_ok s n \<longleftrightarrow> IBLOCK n (sb s) < disksize s \<and> IBLOCK n (sb s) \<notin> held s \<and> IBLOCK n (sb s) \<notin> log_area s"

lemma iupdate_in_op:
  assumes op: "in_op s" "room s 1" and ip: "idev (inodes s ! i) = 1" "length (iaddrs (inodes s ! i)) = NDIRECT + 1"
    "inode_block_ok s (inum (inodes s ! i))"
  shows "\<exists>t. iupdate i s = Done t \<and> same_op s t \<and> in_op t \<and> held t = held s \<and> lh_n t \<le> lh_n s + 1 \<and> (\<forall>j m. holds s j m \<longrightarrow> holds t j m) \<and>
    (\<forall>n. dinode_at t n = (if n = inum (inodes s ! i) then dinode_view (inodes s ! i) else dinode_at s n)) \<and>
    (\<forall>b. b \<noteq> IBLOCK (inum (inodes s ! i)) (sb s) \<longrightarrow> content t b = content s b)"
proof -
  let ?ip = "inodes s ! i" let ?n = "inum ?ip" let ?bb = "IBLOCK ?n (sb s)"
  let ?f = "put_dinode (dinode_view ?ip) (dinode_offset ?n)"
  have len: "length (content s m) = BSIZE" for m using bc.content_length [of s] op(1) by (simp add: in_op_def)
  obtain t where t: "and_then (bread 1 ?bb s) (\<lambda>(s, b). and_then (log_write b (edit b ?f s)) (brelse b)) = Done t" "same_op s t" "lh_n t \<le> lh_n s + 1"
    "in_op t" "held t = held s" "\<forall>j m. holds s j m \<longrightarrow> holds t j m" "content t = (content s)(?bb := ?f (content s ?bb))"
    using update_in_op [OF op, of ?bb ?f] ip(3) len by (auto simp: inode_block_ok_def)
  have al: "length (di_addrs (dinode_view ?ip)) = NDIRECT + 1" using ip(2) by (simp add: dinode_view_def)
  have "dinode_at t n = (if n = ?n then dinode_view ?ip else dinode_at s n)" for n
  proof (cases "IBLOCK n (sb s) = ?bb")
    case True
    show ?thesis
    proof (cases "n = ?n")
      case True
      then show ?thesis using dinode_round_trip [of "dinode_offset ?n" "content s ?bb" "dinode_view ?ip"] dinode_offset_fits [of ?n] len al
        by (simp add: dinode_at_def t(7) fs_fields(1) [OF t(2)])
    next
      case False
      have "dinode_of (?f (content s ?bb)) (dinode_offset n) = dinode_of (content s ?bb) (dinode_offset n)"
        using dinode_disjoint [OF False True] by (intro dinode_of_cong nth_put_dinode_other [OF al]) auto
      then show ?thesis using False True by (simp add: dinode_at_def t(7) fs_fields(1) [OF t(2)])
    qed
  next
    case False
    then show ?thesis by (auto simp: dinode_at_def t(7) fs_fields(1) [OF t(2)])
  qed
  moreover have "iupdate i s = Done t" using t(1) ip(1) by (simp add: iupdate_def Let_def)
  ultimately show ?thesis using t by (intro exI [of _ t]) auto
qed

lemma inode_updates_view [simp]:
  "cache_wf (s\<lparr>inodes := x\<rparr>) = cache_wf s" "held (s\<lparr>inodes := x\<rparr>) = held s" "dirty (s\<lparr>inodes := x\<rparr>) = dirty s"
  "content (s\<lparr>inodes := x\<rparr>) = content s" "holds (s\<lparr>inodes := x\<rparr>) = holds s" "readable (s\<lparr>inodes := x\<rparr>) = readable s"
  "data_of (s\<lparr>inodes := x\<rparr>) = data_of s"
  by (auto simp: cache_wf_def held_def holds_def dirty_def content_def linked_def fun_eq_iff readable_def data_of_def split: option.split)

text \<open>The result of a successful \<^verbatim>\<open>ilock\<close> of an entry that is not valid yet.\<close>

lemma ilock_loads:
  assumes r: "readable s" and j: "j < length (inodes s)" "idev (inodes s ! j) = 1" "1 \<le> iref (inodes s ! j)" "\<not> sl_locked (ilk (inodes s ! j))"
    "\<not> ivalid (inodes s ! j)" "inode_block_ok s (inum (inodes s ! j))"
  shows "let d = dinode_at s (inum (inodes s ! j)) in
    if di_type d = 0 then ilock j s = Panic ''ilock: no type''
    else \<exists>t. ilock j s = Done t \<and> content t = content s \<and> held t = held s \<and> readable t \<and>
      inodes t = (inodes s)[j := (load_inode d ((inodes s ! j)\<lparr>ilk := \<lparr>sl_locked = True, sl_pid = curpid s\<rparr>\<rparr>))\<lparr>ivalid := True\<rparr>]"
proof -
  let ?n = "inum (inodes s ! j)" let ?bb = "IBLOCK ?n (sb s)" and ?L = "\<lparr>sl_locked = True, sl_pid = curpid s\<rparr>"
  let ?s = "s\<lparr>inodes := (inodes s)[j := (inodes s ! j)\<lparr>ilk := ?L\<rparr>]\<rparr>"
  have lk: "acquiresleep (curpid s) (ilk (inodes s ! j)) = Done ?L" using j(4) by (cases "ilk (inodes s ! j)") (simp add: acquiresleep_def)
  have rs: "readable ?s" "?bb < disksize ?s" "?bb \<notin> held ?s" using r j(6) by (simp_all add: inode_block_ok_def)
  obtain t i u where t: "bread 1 ?bb ?s = Done (t, i)" "data_of t i = content s ?bb" "same_env ?s t" "cache_wf t" "holds t i ?bb" "content t = content s"
    "held t = insert ?bb (held s)" "disk t = disk s" "dirty t = dirty s" and u: "brelse i t = Done u" "viewed ?s u"
    using read_viewed [OF rs] by auto
  have it: "inodes t = inodes ?s" using t(3) by (cases s; cases t; simp add: same_env_def)
  let ?d = "dinode_of (content s ?bb) (dinode_offset ?n)"
  let ?t = "t\<lparr>inodes := (inodes ?s)[j := load_inode ?d ((inodes s ! j)\<lparr>ilk := ?L\<rparr>)]\<rparr>"
  have nh: "?bb \<notin> held s" using j(6) by (simp add: inode_block_ok_def)
  have co: "?bb \<in> dirty ?t \<or> content ?t ?bb = disk ?t ?bb"
    using bc.clean_law [of s ?bb] r nh t(6,8,9) by (auto simp: readable_def)
  obtain v where v: "brelse i ?t = Done v" "cache_wf v" "content v = content s" "held v = held s" "dirty v = dirty s" "same_env ?t v"
    using bc.release_law [of ?t i ?bb] co t(4-9) nh by (auto simp: same_env_def)
  have iv: "inodes v = inodes ?t" using v(6) by (cases t; cases v; simp add: same_env_def)
  let ?v = "v\<lparr>inodes := upd_at j (\<lambda>ip. ip\<lparr>ivalid := True\<rparr>) (inodes v)\<rparr>"
  have eq: "ilock j s = (if itype (inodes ?v ! j) = 0 then Panic ''ilock: no type'' else Done ?v)"
    using j lk t(1,2) it v(1) by (simp add: ilock_def Let_def upd_at_def)
  have ty: "itype (inodes ?v ! j) = di_type ?d" using j(1) iv by (simp add: load_inode_def)
  have "inodes ?v = (inodes s)[j := (load_inode ?d ((inodes s ! j)\<lparr>ilk := ?L\<rparr>))\<lparr>ivalid := True\<rparr>]"
    using j(1) iv by (simp add: upd_at_def load_inode_def)
  moreover have "readable ?v" using r v by (simp add: readable_def)
  ultimately show ?thesis using eq ty v by (auto simp: Let_def dinode_at_def)
qed

text \<open>
  C21: An inode written by \<^verbatim>\<open>iupdate\<close> is the inode \<^verbatim>\<open>ilock\<close> reads.  Inside a
  transaction with room for one block, \<^verbatim>\<open>iupdate\<close> returns; when the cache
  entry is later recycled for the same inode (\<open>e\<close>, not valid yet), \<^verbatim>\<open>ilock\<close>
  returns with the type, device numbers, link count, size and block addresses
  that were written, and with the lock taken.  Every other inode on the disk
  is unchanged.
\<close>

theorem iupdate_ilock_round_trip:
  assumes op: "in_op s" "room s 1" and i: "i < length (inodes s)" "idev (inodes s ! i) = 1" "length (iaddrs (inodes s ! i)) = NDIRECT + 1"
    "itype (inodes s ! i) \<noteq> 0" "inode_block_ok s (inum (inodes s ! i))"
    and e: "idev e = 1" "inum e = inum (inodes s ! i)" "1 \<le> iref e" "\<not> sl_locked (ilk e)" "\<not> ivalid e"
  shows "\<exists>t u. iupdate i s = Done t \<and> ilock i (t\<lparr>inodes := (inodes t)[i := e]\<rparr>) = Done u \<and>
    dinode_view (inodes u ! i) = dinode_view (inodes s ! i) \<and> ivalid (inodes u ! i) \<and> sl_locked (ilk (inodes u ! i)) \<and>
    (\<forall>n. n \<noteq> inum (inodes s ! i) \<longrightarrow> dinode_at t n = dinode_at s n)"
proof -
  obtain t where t: "iupdate i s = Done t" "same_op s t" "in_op t" "held t = held s" "lh_n t \<le> lh_n s + 1"
    "\<And>n. dinode_at t n = (if n = inum (inodes s ! i) then dinode_view (inodes s ! i) else dinode_at s n)"
    using iupdate_in_op [OF op i(2,3,5)] by blast
  let ?t = "t\<lparr>inodes := (inodes t)[i := e]\<rparr>"
  have f: "sb t = sb s" "inodes t = inodes s" using fs_fields [OF t(2)] by auto
  have "room t 0" using op(2) t(2,4,5) by (auto simp: room_def same_op_def)
  then have rd: "readable ?t" using room_buffers [OF t(3)] t(3) by (simp add: readable_def in_op_def)
  have ok: "inode_block_ok ?t (inum (inodes ?t ! i))"
    using i(1,5) e(2) f t(2,4) by (simp add: inode_block_ok_def log_area_def same_op_def)
  have d: "dinode_at ?t (inum (inodes ?t ! i)) = dinode_view (inodes s ! i)"
    using t(6) [of "inum (inodes s ! i)"] i(1) e(2) f by (simp add: dinode_at_def)
  obtain u where u: "ilock i ?t = Done u"
    "inodes u = (inodes ?t)[i := (load_inode (dinode_view (inodes s ! i)) ((inodes ?t ! i)\<lparr>ilk := \<lparr>sl_locked = True, sl_pid = curpid ?t\<rparr>\<rparr>))\<lparr>ivalid := True\<rparr>]"
    using ilock_loads [OF rd _ _ _ _ _ ok] e i(1,4) d f by (auto simp: Let_def dinode_view_def)
  then show ?thesis using t(1,6) i(1) f by (intro exI [of _ t] exI [of _ u]) (simp add: load_inode_def dinode_view_def)
qed

theorem iupdate_ilock_round_trip_witness:
  "\<exists>t u. iupdate 0 fs_demo = Done t \<and>
    ilock 0 (t\<lparr>inodes := (inodes t)[0 := fs_inode\<lparr>ilk := \<lparr>sl_locked = False, sl_pid = 0\<rparr>, ivalid := False, isize := 0\<rparr>]\<rparr>) = Done u \<and>
    isize (inodes u ! 0) = 600 \<and> dinode_at t 6 = dinode_at fs_demo 6"
proof -
  let ?e = "fs_inode\<lparr>ilk := \<lparr>sl_locked = False, sl_pid = 0\<rparr>, ivalid := False, isize := 0\<rparr>"
  have r: "room fs_demo 1" using fs_demo_op(2) by (simp add: room_def)
  have h: "inode_block_ok fs_demo 5"
    by (simp add: inode_block_ok_def fs_demo_state fs_demo_op IBLOCK_def fs_sb_def layout_defs)
  have f: "length (inodes fs_demo) = 1" "inodes fs_demo ! 0 = fs_inode" "idev fs_inode = 1" "inum fs_inode = 5" "itype fs_inode \<noteq> 0"
    "length (iaddrs fs_inode) = NDIRECT + 1"
    by (simp_all add: fs_demo_state fs_inode_def T_FILE_def layout_defs)
  have "\<exists>t u. iupdate 0 fs_demo = Done t \<and> ilock 0 (t\<lparr>inodes := (inodes t)[0 := ?e]\<rparr>) = Done u \<and>
    dinode_view (inodes u ! 0) = dinode_view (inodes fs_demo ! 0) \<and> ivalid (inodes u ! 0) \<and> sl_locked (ilk (inodes u ! 0)) \<and>
    (\<forall>n. n \<noteq> inum (inodes fs_demo ! 0) \<longrightarrow> dinode_at t n = dinode_at fs_demo n)"
    using fs_demo_op(1) r f h by (intro iupdate_ilock_round_trip) (simp_all add: fs_inode_def)
  then obtain t u where tu: "iupdate 0 fs_demo = Done t" "ilock 0 (t\<lparr>inodes := (inodes t)[0 := ?e]\<rparr>) = Done u"
    "dinode_view (inodes u ! 0) = dinode_view fs_inode" "\<forall>n. n \<noteq> 5 \<longrightarrow> dinode_at t n = dinode_at fs_demo n" using f by auto
  have "isize (inodes u ! 0) = 600" using tu(3) by (simp add: dinode_view_def fs_inode_def)
  then show ?thesis using tu by auto
qed

end
