(* ===== verification/Fs_Refs.thy ===== *)
theory Fs_Refs
  imports Fs_Names "HOL-Library.Multiset"
begin

text \<open>
  Reference counts of the inode cache.  The multiset \<open>M\<close> of \<open>owns s0 s M\<close> holds
  the references an activity has taken since the state \<open>s0\<close>: every routine
  that returns an inode adds it, \<^verbatim>\<open>iput\<close> removes it, and everything else
  keeps it.  As long as \<open>M\<close> is accounted for, no entry that was in use in
  \<open>s0\<close> is given to another inode, and no inode has two entries.
\<close>

subsection \<open>What the block layer leaves alone\<close>

named_theorems frame_dest \<open>routines that leave the inode cache alone\<close>

definition beyond :: "'a fstate_scheme \<Rightarrow> inode list \<times> 'a" where
  "beyond s = (inodes s, fstate.more s)"

lemma beyond_more: "bstate.more t = bstate.more s \<Longrightarrow> beyond t = beyond (s :: 'a fstate_scheme)"
  by (cases s; cases t; simp add: beyond_def)

lemma bread_inodes [frame_dest]: "bread dev n s = Done (t, i) \<Longrightarrow> beyond t = beyond s"
  by (rule beyond_more) (simp add: bread_env [unfolded same_env_def])

lemma edit_inodes [simp]: "beyond (edit i f s) = beyond s" "inodes (edit i f s) = inodes s" "fstate.more (edit i f s) = fstate.more s"
  by (simp_all add: edit_def beyond_def)

lemma pin_inodes [simp]: "beyond (pin i s) = beyond s"
  by (simp add: pin_def beyond_def)

lemma brelse_inodes [frame_dest]: "brelse i s = Done t \<Longrightarrow> beyond t = beyond s"
  by (auto simp: brelse_def Let_def link_front_def unlink_def set_next_def set_prev_def beyond_def split: if_splits)

lemma log_write_inodes [frame_dest]: "log_write i s = Done t \<Longrightarrow> beyond t = beyond s"
  by (auto simp: log_write_def Let_def pin_def beyond_def split: if_splits)

lemma readsb_inodes [frame_dest]: "readsb dev s = Done (t, b) \<Longrightarrow> beyond t = beyond s"
  by (auto simp: readsb_def outcome_simps dest!: frame_dest)

lemma bzero_inodes [frame_dest]: "bzero dev n s = Done t \<Longrightarrow> beyond t = beyond s"
  by (auto simp: bzero_def outcome_simps dest!: frame_dest)

lemma balloc_loop_inodes: "balloc_loop dev ks s = Done (t, b) \<Longrightarrow> beyond t = beyond s"
  by (induction ks arbitrary: s) (auto simp: outcome_simps Let_def split: option.splits dest!: frame_dest)

lemma balloc_inodes [frame_dest]: "balloc dev s = Done (t, b) \<Longrightarrow> beyond t = beyond s"
  by (auto simp: balloc_def dest: balloc_loop_inodes)

lemma bfree_inodes [frame_dest]: "bfree dev b s = Done t \<Longrightarrow> beyond t = beyond s"
  by (auto simp: bfree_def outcome_simps Let_def beyond_def split: if_splits dest!: frame_dest)

lemma iupdate_inodes [frame_dest]: "iupdate i s = Done t \<Longrightarrow> beyond t = beyond s"
  by (auto simp: iupdate_def outcome_simps Let_def dest!: frame_dest)

text \<open>The identity, the reference count and the type of every entry.\<close>

definition face :: "inode \<Rightarrow> u32 \<times> u32 \<times> int \<times> u16" where
  "face ip = (idev ip, inum ip, iref ip, itype ip)"

definition faces :: "'a fstate_scheme \<Rightarrow> (u32 \<times> u32 \<times> int \<times> u16) list \<times> 'a" where
  "faces s = (map face (inodes s), fstate.more s)"

lemma faces_eq: "beyond t = beyond s \<Longrightarrow> faces t = faces s"
  by (simp add: faces_def beyond_def)

lemma faces_edit [simp]: "faces (edit i f s) = faces s"
  by (simp add: faces_def)

lemma faces_set [simp]: "(\<And>ip. face (f ip) = face ip) \<Longrightarrow> faces (set_inode i f s) = faces s"
  by (simp add: faces_def map_upd_at_unchanged)

lemma face_updates [simp]:
  "face (ip\<lparr>iaddrs := a\<rparr>) = face ip" "face (ip\<lparr>isize := z\<rparr>) = face ip" "face (ip\<lparr>ilk := l\<rparr>) = face ip" "face (ip\<lparr>ivalid := v\<rparr>) = face ip"
  by (simp_all add: face_def)

lemma bmap_faces: "bmap i bn s = Done (t, a) \<Longrightarrow> faces t = faces s"
  by (auto simp: bmap_def outcome_simps Let_def split: if_splits dest!: frame_dest faces_eq)

lemma readi_loop_faces: "readi_loop i off rem acc s = Done (t, bs) \<Longrightarrow> faces t = faces s"
proof (induction i off rem acc s arbitrary: t bs rule: readi_loop.induct)
  case (1 i off rem acc s)
  show ?case
  proof (cases "rem = 0")
    case True
    then show ?thesis using "1.prems" by (subst (asm) readi_loop.simps) simp
  next
    case False
    obtain u a v j w where u: "bmap i (off div of_nat BSIZE) s = Done (u, a)" "bread (idev (inodes u ! i)) a u = Done (v, j)" "brelse j v = Done w"
      "readi_loop i (off + of_nat (chunk rem off)) (rem - chunk rem off) (acc @ get_bytes (data_of v j) (unat off mod BSIZE) (chunk rem off)) w = Done (t, bs)"
      using "1.prems" False by (subst (asm) readi_loop.simps) (auto simp: outcome_simps Let_def)
    have "faces t = faces w" using "1.IH" [OF False u(1) refl u(2) refl refl refl u(3) u(4)] .
    then show ?thesis using u(1-3) by (auto dest!: frame_dest faces_eq bmap_faces)
  qed
qed


lemma writei_loop_faces: "writei_loop i src off rem s = Done (t, z) \<Longrightarrow> faces t = faces s"
proof (induction i src off rem s arbitrary: t z rule: writei_loop.induct)
  case (1 i src off rem s)
  show ?case
  proof (cases "rem = 0")
    case True
    then show ?thesis using "1.prems" by (subst (asm) writei_loop.simps) simp
  next
    case False
    let ?m = "chunk rem off"
    obtain u a v j x w where u: "bmap i (off div of_nat BSIZE) s = Done (u, a)" "bread (idev (inodes u ! i)) a u = Done (v, j)"
      "log_write j (edit j (\<lambda>d. put_bytes d (unat off mod BSIZE) (take ?m src)) v) = Done x" "brelse j x = Done w"
      "writei_loop i (drop ?m src) (off + of_nat ?m) (rem - ?m) w = Done (t, z)"
      using "1.prems" False by (subst (asm) writei_loop.simps) (auto simp: outcome_simps Let_def)
    have "faces t = faces w" using "1.IH" [OF False u(1) refl u(2) refl refl u(3) u(4) u(5)] .
    then show ?thesis using u(1-4) by (auto dest!: frame_dest faces_eq bmap_faces)
  qed
qed

lemma readi_faces: "readi dv i off n s = Done (t, r) \<Longrightarrow> itype (inodes s ! i) \<noteq> T_DEV \<Longrightarrow> faces t = faces s"
  by (auto simp: readi_def Let_def outcome_simps split: if_splits dest: readi_loop_faces)

lemma writei_faces: "writei dv i src off n s = Done (t, r) \<Longrightarrow> itype (inodes s ! i) \<noteq> T_DEV \<Longrightarrow> faces t = faces s"
  by (auto simp: writei_def Let_def outcome_simps split: if_splits dest!: writei_loop_faces frame_dest faces_eq)

lemma itrunc_faces:
  assumes "itrunc i s = Done t" shows "faces t = faces s"
proof -
  obtain u v where u: "each (itrunc_direct i) [0..<NDIRECT] s = Done u"
    and v: "(let ip = inodes u ! i; addr = iaddrs ip ! NDIRECT in
        if addr \<noteq> 0
        then and_then (bread (idev ip) addr u) (\<lambda>(s, bp).
             and_then (each (itrunc_indirect i bp) [0..<NINDIRECT] s) (\<lambda>s.
             and_then (brelse bp s) (\<lambda>s.
             and_then (bfree (idev (inodes s ! i)) (iaddrs (inodes s ! i) ! NDIRECT) s) (\<lambda>s.
             Done (set_inode i (\<lambda>ip. ip\<lparr>iaddrs := (iaddrs ip)[NDIRECT := 0]\<rparr>) s)))))
        else Done u) = Done v"
    and t: "iupdate i (set_inode i (\<lambda>ip. ip\<lparr>isize := 0\<rparr>) v) = Done t"
    using assms by (auto simp: itrunc_def outcome_simps)
  have ind: "faces y = faces x" if "each (itrunc_indirect i bp) js x = Done y" for bp js x y
    using that
    by (rule each_preserves [where P = "\<lambda>w. faces w = faces x"])
      (auto simp: itrunc_indirect_def Let_def split: if_splits dest!: frame_dest faces_eq)
  have "faces u = faces s"
    using u by (rule each_preserves [where P = "\<lambda>w. faces w = faces s"])
      (auto simp: itrunc_direct_def Let_def outcome_simps split: if_splits dest!: frame_dest faces_eq)
  moreover have "faces v = faces u"
    using v by (auto simp: Let_def outcome_simps split: if_splits dest!: ind frame_dest faces_eq)
  moreover have "faces t = faces v"
    using t by (auto dest!: iupdate_inodes faces_eq)
  ultimately show ?thesis by simp
qed


subsection \<open>Ownership of references\<close>

definition icache_wf :: "'a fstate_scheme \<Rightarrow> bool" where
  "icache_wf s \<longleftrightarrow> (\<forall>k<length (inodes s). 0 \<le> iref (inodes s ! k)) \<and>
     (\<forall>j<length (inodes s). \<forall>k<length (inodes s). 0 < iref (inodes s ! j) \<and> 0 < iref (inodes s ! k) \<and>
        idev (inodes s ! j) = idev (inodes s ! k) \<and> inum (inodes s ! j) = inum (inodes s ! k) \<longrightarrow> j = k)"

definition owns :: "'a fstate_scheme \<Rightarrow> 'a fstate_scheme \<Rightarrow> nat multiset \<Rightarrow> bool" where
  "owns s0 s M \<longleftrightarrow> fstate.more s = fstate.more s0 \<and> icache_wf s0 \<and> icache_wf s \<and> length (inodes s) = length (inodes s0) \<and> (\<forall>k\<in>#M. k < length (inodes s)) \<and>
     (\<forall>k<length (inodes s). iref (inodes s ! k) = iref (inodes s0 ! k) + int (count M k) \<and>
        (0 < iref (inodes s0 ! k) \<longrightarrow> idev (inodes s ! k) = idev (inodes s0 ! k) \<and> inum (inodes s ! k) = inum (inodes s0 ! k)))"

lemma owns_refl: "icache_wf s \<Longrightarrow> owns s s {#}"
  by (simp add: owns_def)

lemma owns_length: "owns s0 s M \<Longrightarrow> length (inodes s) = length (inodes s0)"
  by (simp add: owns_def)

lemma owns_ref: "owns s0 s M \<Longrightarrow> k \<in># M \<Longrightarrow> 1 \<le> iref (inodes s ! k) \<and> k < length (inodes s)"
proof -
  assume o: "owns s0 s M" and k: "k \<in># M"
  then have l: "k < length (inodes s)" by (auto simp: owns_def)
  then have "iref (inodes s ! k) = iref (inodes s0 ! k) + int (count M k)" "0 \<le> iref (inodes s0 ! k)"
    using o by (auto simp: owns_def icache_wf_def)
  moreover have "0 < count M k" using k by simp
  ultimately show ?thesis using l by linarith
qed

text \<open>Only identities and counts matter.\<close>

definition ids :: "'a fstate_scheme \<Rightarrow> (u32 \<times> u32 \<times> int) list \<times> 'a" where
  "ids s = (map (\<lambda>ip. (idev ip, inum ip, iref ip)) (inodes s), fstate.more s)"

lemma ids_nth:
  assumes "ids t = ids s"
  shows "length (inodes t) = length (inodes s)" "fstate.more t = fstate.more s"
    "k < length (inodes s) \<Longrightarrow> idev (inodes t ! k) = idev (inodes s ! k) \<and> inum (inodes t ! k) = inum (inodes s ! k) \<and> iref (inodes t ! k) = iref (inodes s ! k)"
proof -
  show l: "length (inodes t) = length (inodes s)" using arg_cong [OF assms, of "\<lambda>x. length (fst x)"] by (simp add: ids_def)
  show "fstate.more t = fstate.more s" using assms by (simp add: ids_def)
  assume k: "k < length (inodes s)"
  have "fst (ids t) ! k = fst (ids s) ! k" using assms by simp
  then show "idev (inodes t ! k) = idev (inodes s ! k) \<and> inum (inodes t ! k) = inum (inodes s ! k) \<and> iref (inodes t ! k) = iref (inodes s ! k)"
    using k l by (simp add: ids_def)
qed

lemma ids_faces: "faces t = faces s \<Longrightarrow> ids t = ids s"
proof -
  assume "faces t = faces s"
  then have "map (\<lambda>(a, b, c, d). (a, b, c)) (fst (faces t)) = map (\<lambda>(a, b, c, d). (a, b, c)) (fst (faces s))" "snd (faces t) = snd (faces s)" by simp_all
  then show ?thesis by (simp add: faces_def ids_def face_def o_def)
qed

lemma owns_ids:
  assumes i: "ids t = ids s" and o: "owns s0 s M"
  shows "owns s0 t M"
proof -
  note l = ids_nth(1) [OF i] and m = ids_nth(2) [OF i] and n = ids_nth(3) [OF i]
  have "icache_wf t" using o unfolding owns_def icache_wf_def l by (auto simp: n)
  then show ?thesis using o unfolding owns_def l m by (auto simp: n)
qed

lemma ids_set: "(\<And>ip. idev (f ip) = idev ip \<and> inum (f ip) = inum ip \<and> iref (f ip) = iref ip) \<Longrightarrow> ids (set_inode i f s) = ids s"
  by (simp add: ids_def map_upd_at_unchanged)

text \<open>Changing the entry at \<open>i\<close>: its new count has to be accounted for, and its identity must be nobody else's.\<close>

lemma owns_change:
  assumes o: "owns s0 s M" and i: "i < length (inodes s)"
    and t: "t = s\<lparr>inodes := (inodes s)[i := e]\<rparr>"
    and c: "iref e = iref (inodes s0 ! i) + int (count M' i)" and m: "\<And>k. k \<noteq> i \<Longrightarrow> count M' k = count M k"
    and id: "0 < iref (inodes s0 ! i) \<Longrightarrow> idev e = idev (inodes s ! i) \<and> inum e = inum (inodes s ! i)"
    and u: "\<And>k. k < length (inodes s) \<Longrightarrow> k \<noteq> i \<Longrightarrow> 0 < iref (inodes s ! k) \<Longrightarrow> 0 < iref e \<Longrightarrow>
      \<not> (idev (inodes s ! k) = idev e \<and> inum (inodes s ! k) = inum e)"
  shows "owns s0 t M'"
proof -
  have n: "inodes t ! k = (if k = i then e else inodes s ! k)" for k using i by (simp add: t)
  have l: "length (inodes t) = length (inodes s)" "length (inodes s) = length (inodes s0)" "fstate.more t = fstate.more s0" using o by (simp_all add: t owns_def)
  have w: "icache_wf s" "icache_wf s0" using o by (simp_all add: owns_def)
  have "0 \<le> iref (inodes s0 ! i)" using w(2) i l by (simp add: icache_wf_def)
  then have wt: "icache_wf t" using w(1) i u c unfolding icache_wf_def l n by (smt (verit) of_nat_0_le_iff)
  have "k < length (inodes t)" if "k \<in># M'" for k
  proof (cases "k = i")
    case True
    then show ?thesis using i l by simp
  next
    case False
    then have "count M k = count M' k" using m by simp
    then have "k \<in># M" using that unfolding count_greater_zero_iff [symmetric] by simp
    then show ?thesis using o l by (simp add: owns_def)
  qed
  moreover have "iref (inodes t ! k) = iref (inodes s0 ! k) + int (count M' k) \<and>
        (0 < iref (inodes s0 ! k) \<longrightarrow> idev (inodes t ! k) = idev (inodes s0 ! k) \<and> inum (inodes t ! k) = inum (inodes s0 ! k))"
    if "k < length (inodes t)" for k
    using that o c m [of k] id l(1) unfolding n owns_def by (cases "k = i") auto
  ultimately show ?thesis using w wt l by (simp add: owns_def)
qed

lemma owns_unique: "owns s0 s M \<Longrightarrow> icache_wf s"
  by (simp add: owns_def)

lemma icache_unique: "icache_wf s \<Longrightarrow> j < length (inodes s) \<Longrightarrow> k < length (inodes s) \<Longrightarrow> 0 < iref (inodes s ! j) \<Longrightarrow> 0 < iref (inodes s ! k) \<Longrightarrow>
    idev (inodes s ! j) = idev (inodes s ! k) \<Longrightarrow> inum (inodes s ! j) = inum (inodes s ! k) \<Longrightarrow> j = k"
  by (simp add: icache_wf_def)

lemma owns_count: "owns s0 s M \<Longrightarrow> k < length (inodes s) \<Longrightarrow> iref (inodes s ! k) = iref (inodes s0 ! k) + int (count M k) \<and> 0 \<le> iref (inodes s0 ! k)"
  by (simp add: owns_def icache_wf_def)

lemma owns_take:
  assumes o: "owns s0 s M" and i: "i < length (inodes s)" "0 < iref (inodes s ! i)"
  shows "owns s0 (set_inode i (\<lambda>ip. ip\<lparr>iref := iref ip + 1\<rparr>) s) (add_mset i M)"
proof (rule owns_change [OF o i(1)])
  show "s\<lparr>inodes := upd_at i (\<lambda>ip. ip\<lparr>iref := iref ip + 1\<rparr>) (inodes s)\<rparr> = s\<lparr>inodes := (inodes s)[i := (inodes s ! i)\<lparr>iref := iref (inodes s ! i) + 1\<rparr>]\<rparr>"
    by (simp add: upd_at_def)
  show "\<not> (idev (inodes s ! k) = idev ((inodes s ! i)\<lparr>iref := iref (inodes s ! i) + 1\<rparr>) \<and> inum (inodes s ! k) = inum ((inodes s ! i)\<lparr>iref := iref (inodes s ! i) + 1\<rparr>))"
    if "k < length (inodes s)" "k \<noteq> i" "0 < iref (inodes s ! k)" for k
    using icache_unique [OF owns_unique [OF o] that(1) i(1) that(3) i(2)] that(2) by auto
qed (use owns_count [OF o i(1)] in auto)

lemma owns_drop:
  assumes o: "owns s0 s (add_mset i M)"
  shows "owns s0 (set_inode i (\<lambda>ip. ip\<lparr>iref := iref ip - 1\<rparr>) s) M"
proof -
  have i: "i < length (inodes s)" "0 < iref (inodes s ! i)" using owns_ref [OF o, of i] by auto
  show ?thesis
  proof (rule owns_change [OF o i(1)])
    show "s\<lparr>inodes := upd_at i (\<lambda>ip. ip\<lparr>iref := iref ip - 1\<rparr>) (inodes s)\<rparr> = s\<lparr>inodes := (inodes s)[i := (inodes s ! i)\<lparr>iref := iref (inodes s ! i) - 1\<rparr>]\<rparr>"
      by (simp add: upd_at_def)
    show "\<not> (idev (inodes s ! k) = idev ((inodes s ! i)\<lparr>iref := iref (inodes s ! i) - 1\<rparr>) \<and> inum (inodes s ! k) = inum ((inodes s ! i)\<lparr>iref := iref (inodes s ! i) - 1\<rparr>))"
      if "k < length (inodes s)" "k \<noteq> i" "0 < iref (inodes s ! k)" for k
      using icache_unique [OF owns_unique [OF o] that(1) i(1) that(3) i(2)] that(2) by auto
  qed (use owns_count [OF o i(1)] in auto)
qed

lemma iget_owns:
  assumes "iget dev n s = Done (t, i)" "owns s0 s M"
  shows "owns s0 t (add_mset i M) \<and> i < length (inodes t) \<and> idev (inodes t ! i) = dev \<and> inum (inodes t ! i) = n \<and>
    (\<forall>k. k \<noteq> i \<longrightarrow> inodes t ! k = inodes s ! k) \<and> (0 < iref (inodes s ! i) \<longrightarrow> itype (inodes t ! i) = itype (inodes s ! i))"
proof (cases "find_index (\<lambda>ip. iref ip > 0 \<and> idev ip = dev \<and> inum ip = n) (inodes s)")
  case (Some j)
  then have j: "j < length (inodes s)" "0 < iref (inodes s ! j)" "idev (inodes s ! j) = dev" "inum (inodes s ! j) = n"
    by (auto simp: find_index_Some_iff)
  have t: "t = set_inode j (\<lambda>ip. ip\<lparr>iref := iref ip + 1\<rparr>) s" "i = j" using assms(1) Some by (auto simp: iget_def)
  show ?thesis using owns_take [OF assms(2) j(1,2)] j t by (auto simp: table_simps)
next
  case None
  then have other: "\<not> (0 < iref (inodes s ! k) \<and> idev (inodes s ! k) = dev \<and> inum (inodes s ! k) = n)" if "k < length (inodes s)" for k
    using that by (simp add: find_index_None_nth)
  let ?new = "\<lambda>ip. ip\<lparr>idev := dev, inum := n, iref := 1, ivalid := False\<rparr>"
  have "find_index (\<lambda>ip. iref ip = 0) (inodes s) \<noteq> None" using assms(1) None unfolding iget_def by (intro notI) simp
  then obtain j where f: "find_index (\<lambda>ip. iref ip = 0) (inodes s) = Some j" by blast
  have "iget dev n s = Done (set_inode j ?new s, j)" using None f by (simp add: iget_def)
  then have "Done (t, i) = Done (set_inode j ?new s, j)" by (rule trans [OF sym [OF assms(1)]])
  then have t: "t = set_inode j ?new s" "i = j" by (simp_all only: outcome.inject prod.inject)
  have j: "j < length (inodes s)" "iref (inodes s ! j) = 0" using f by (auto simp: find_index_Some_iff)
  have z: "iref (inodes s0 ! j) = 0" "count M j = 0" using owns_count [OF assms(2) j(1)] j(2) by auto
  have "owns s0 t (add_mset j M)"
  proof (rule owns_change [OF assms(2) j(1)])
    show "t = s\<lparr>inodes := (inodes s)[j := (inodes s ! j)\<lparr>idev := dev, inum := n, iref := 1, ivalid := False\<rparr>]\<rparr>"
      by (simp add: t upd_at_def)
  qed (use z other in auto)
  then show ?thesis using j t by (auto simp: table_simps)
qed

lemma ids_eq: "beyond t = beyond s \<Longrightarrow> ids t = ids s"
  by (simp add: ids_def beyond_def)

lemma ilock_ids:
  assumes "ilock i s = Done t" shows "ids t = ids s"
proof -
  obtain lk where "acquiresleep (curpid s) (ilk (inodes s ! i)) = Done lk"
    and k: "(let s = set_inode i (\<lambda>ip. ip\<lparr>ilk := lk\<rparr>) s; ip = inodes s ! i in
           if \<not> ivalid ip
           then and_then (bread (idev ip) (IBLOCK (inum ip) (sb s)) s) (\<lambda>(s, bp).
                let s = set_inode i (load_inode (dinode_of (data_of s bp) (dinode_offset (inum ip)))) s in
                and_then (brelse bp s) (\<lambda>s.
                let s = set_inode i (\<lambda>ip. ip\<lparr>ivalid := True\<rparr>) s in
                if itype (inodes s ! i) = 0 then Panic ''ilock: no type'' else Done s))
           else Done s) = Done t"
    using assms by (auto simp: ilock_def outcome_simps split: if_splits)
  let ?s = "set_inode i (\<lambda>ip. ip\<lparr>ilk := lk\<rparr>) s"
  have s: "ids ?s = ids s" by (simp add: ids_set)
  show ?thesis
  proof (cases "ivalid (inodes ?s ! i)")
    case True
    then show ?thesis using k s by simp
  next
    case False
    obtain u b v where u: "bread (idev (inodes ?s ! i)) (IBLOCK (inum (inodes ?s ! i)) (sb ?s)) ?s = Done (u, b)"
      "brelse b (set_inode i (load_inode (dinode_of (data_of u b) (dinode_offset (inum (inodes ?s ! i))))) u) = Done v"
      "t = set_inode i (\<lambda>ip. ip\<lparr>ivalid := True\<rparr>) v"
      using k False by (auto simp: outcome_simps Let_def split: if_splits)
    have "ids u = ids s" using ids_eq [OF bread_inodes [OF u(1)]] s by simp
    moreover have "ids v = ids u" using ids_eq [OF brelse_inodes [OF u(2)]] by (simp add: ids_set load_inode_def)
    moreover have "ids t = ids v" unfolding u(3) by (simp add: ids_set)
    ultimately show ?thesis by simp
  qed
qed

lemma iunlock_ids: "iunlock i s = Done t \<Longrightarrow> ids t = ids s"
  by (auto simp: iunlock_def ids_set split: if_splits)

lemma iput_owns:
  assumes "iput i s = Done t" "owns s0 s (add_mset i M)"
  shows "owns s0 t M"
proof -
  obtain lk u where lk: "acquiresleep (curpid s) (ilk (inodes s ! i)) = Done lk"
    and u: "(let s = set_inode i (\<lambda>ip. ip\<lparr>ilk := lk\<rparr>) s in
       if ivalid (inodes s ! i) \<and> inlink (inodes s ! i) = 0 \<and> iref (inodes s ! i) = 1
        then and_then (itrunc i s) (\<lambda>s.
             and_then (iupdate i (set_inode i (\<lambda>ip. ip\<lparr>itype := 0\<rparr>) s)) (\<lambda>s.
             Done (set_inode i (\<lambda>ip. ip\<lparr>ivalid := False\<rparr>) s)))
        else Done s) = Done u"
    and t: "t = set_inode i (\<lambda>ip. ip\<lparr>iref := iref ip - 1\<rparr>) (set_inode i (\<lambda>ip. ip\<lparr>ilk := releasesleep (ilk ip)\<rparr>) u)"
    using assms(1) by (auto simp: iput_def outcome_simps Let_def)
  let ?s = "set_inode i (\<lambda>ip. ip\<lparr>ilk := lk\<rparr>) s"
  have s: "ids ?s = ids s" by (simp add: ids_set)
  have "ids u = ids s"
  proof (cases "u = ?s")
    case False
    then obtain v w where v: "itrunc i ?s = Done v" "iupdate i (set_inode i (\<lambda>ip. ip\<lparr>itype := 0\<rparr>) v) = Done w"
      "u = set_inode i (\<lambda>ip. ip\<lparr>ivalid := False\<rparr>) w"
      using u by (auto simp: Let_def outcome_simps split: if_splits)
    have "ids v = ids s" using ids_faces [OF itrunc_faces [OF v(1)]] s by simp
    moreover have "ids w = ids v" using ids_eq [OF iupdate_inodes [OF v(2)]] by (simp add: ids_set)
    moreover have "ids u = ids w" unfolding v(3) by (simp add: ids_set)
    ultimately show ?thesis by simp
  qed (use s in simp)
  then have "ids (set_inode i (\<lambda>ip. ip\<lparr>ilk := releasesleep (ilk ip)\<rparr>) u) = ids s" by (simp add: ids_set)
  from owns_ids [OF this assms(2)] show ?thesis unfolding t by (rule owns_drop)
qed

lemma iunlockput_owns: "iunlockput i s = Done t \<Longrightarrow> owns s0 s (add_mset i M) \<Longrightarrow> owns s0 t M"
  by (auto simp: iunlockput_def outcome_simps intro: iput_owns owns_ids iunlock_ids)

lemma idup_owns: "owns s0 s M \<Longrightarrow> i < length (inodes s) \<Longrightarrow> 0 < iref (inodes s ! i) \<Longrightarrow> owns s0 (idup i s) (add_mset i M)"
  by (simp add: idup_def owns_take)

lemma faces_length: "faces t = faces s \<Longrightarrow> length (inodes t) = length (inodes s)"
  by (auto simp: faces_def dest: map_eq_imp_length_eq)

lemma faces_type: "faces t = faces s \<Longrightarrow> i < length (inodes s) \<Longrightarrow> itype (inodes t ! i) = itype (inodes s ! i)"
proof -
  assume f: "faces t = faces s" and i: "i < length (inodes s)"
  have l: "length (inodes t) = length (inodes s)" using f by (rule faces_length)
  have "fst (faces t) ! i = fst (faces s) ! i" using f by simp
  then show ?thesis using i l by (simp add: faces_def face_def)
qed

lemma dirlookup_loop_owns:
  assumes "dirlookup_loop dv dp name offs s = Done (t, r)" "itype (inodes s ! dp) = T_DIR" "dp < length (inodes s)" "owns s0 s M"
  shows "case r of None \<Rightarrow> faces t = faces s | Some (ip, off) \<Rightarrow> owns s0 t (add_mset ip M)"
  using assms
proof (induction offs arbitrary: s)
  case Nil
  then show ?case by auto
next
  case (Cons off offs)
  obtain u n bs where u: "readi dv dp (of_nat off) (of_nat DIRENT_SIZE) s = Done (u, n, bs)"
    and k: "(if n \<noteq> int DIRENT_SIZE then Panic ''dirlookup read''
     else let de = dirent_of bs in
       if de_inum de = 0 then dirlookup_loop dv dp name offs u
       else if namecmp name (de_name de) = 0
       then and_then (iget (idev (inodes u ! dp)) (ucast (de_inum de)) u) (\<lambda>(s, ip). Done (s, Some (ip, of_nat off)))
       else dirlookup_loop dv dp name offs u) = Done (t, r)"
    using Cons.prems(1) by (auto simp: outcome_simps)
  have f: "faces u = faces s" using readi_faces [OF u] Cons.prems(2) by (simp add: T_DIR_def T_DEV_def)
  have o: "owns s0 u M" using owns_ids [OF ids_faces [OF f] Cons.prems(4)] .
  have l: "dp < length (inodes u)" "itype (inodes u ! dp) = T_DIR"
    using owns_length [OF o] owns_length [OF Cons.prems(4)] Cons.prems(2,3) faces_type [OF f] by auto
  show ?case
  proof (cases "dirlookup_loop dv dp name offs u = Done (t, r)")
    case True
    then show ?thesis using Cons.IH [OF True l(2,1) o] f by (auto split: option.splits)
  next
    case False
    then obtain ip where "iget (idev (inodes u ! dp)) (ucast (de_inum (dirent_of bs))) u = Done (t, ip)" "r = Some (ip, of_nat off)"
      using k by (auto simp: Let_def outcome_simps split: if_splits)
    then show ?thesis using iget_owns [OF _ o] by auto
  qed
qed

lemma dirlookup_owns:
  assumes "dirlookup dv dp name s = Done (t, r)" "dp < length (inodes s)" "owns s0 s M"
  shows "case r of None \<Rightarrow> faces t = faces s \<and> owns s0 t M | Some (ip, off) \<Rightarrow> owns s0 t (add_mset ip M)"
  using dirlookup_loop_owns [OF _ _ assms(2,3)] assms(1) owns_ids [OF ids_faces assms(3)]
  by (fastforce simp: dirlookup_def split: if_splits option.splits)

lemma namex_loop_owns:
  assumes "namex_loop dv parent path name ip s = Done (t, r)" "owns s0 s (add_mset ip M)"
  shows "case r of None \<Rightarrow> owns s0 t M | Some (ip, nm) \<Rightarrow> owns s0 t (add_mset ip M)"
  using assms
proof (induction dv parent path name ip s arbitrary: t r rule: namex_loop.induct)
  case (1 dv parent path name ip s)
  show ?case
  proof (cases "skipelem path")
    case None
    then show ?thesis using "1.prems" iput_owns [OF _ "1.prems"(2)]
      by (subst (asm) namex_loop.simps) (auto simp: outcome_simps split: if_splits)
  next
    case (Some p)
    obtain path' nm where p: "p = (path', nm)" by (cases p)
    obtain u where u: "ilock ip s = Done u"
      and k: "(if itype (inodes u ! ip) \<noteq> T_DIR then and_then (iunlockput ip u) (\<lambda>s. Done (s, None))
          else if parent \<and> path' = [] then and_then (iunlock ip u) (\<lambda>s. Done (s, Some (ip, nm)))
          else and_then (dirlookup dv ip nm u) (\<lambda>(s, r).
               case r of
                 None \<Rightarrow> and_then (iunlockput ip s) (\<lambda>s. Done (s, None))
               | Some (nxt, off) \<Rightarrow> and_then (iunlockput ip s) (\<lambda>s. namex_loop dv parent path' nm nxt s))) = Done (t, r)"
      using "1.prems"(1) Some p by (subst (asm) namex_loop.simps) (auto simp: outcome_simps)
    have o: "owns s0 u (add_mset ip M)" using owns_ids [OF ilock_ids [OF u] "1.prems"(2)] .
    have l: "ip < length (inodes u)" using owns_ref [OF o, of ip] by simp
    show ?thesis
    proof (cases "itype (inodes u ! ip) = T_DIR \<and> \<not> (parent \<and> path' = [])")
      case False
      then show ?thesis using k iunlockput_owns [OF _ o] owns_ids [OF iunlock_ids o]
        by (auto simp: outcome_simps split: if_splits)
    next
      case True
      obtain v q where v: "dirlookup dv ip nm u = Done (v, q)"
        and k2: "(case q of None \<Rightarrow> and_then (iunlockput ip v) (\<lambda>s. Done (s, None))
               | Some (nxt, off) \<Rightarrow> and_then (iunlockput ip v) (\<lambda>s. namex_loop dv parent path' nm nxt s)) = Done (t, r)"
        using k True by (auto simp: outcome_simps)
      note dv = dirlookup_owns [OF v l o]
      show ?thesis
      proof (cases q)
        case None
        then show ?thesis using dv k2 iunlockput_owns [of ip v _ s0 M] by (auto simp: outcome_simps)
      next
        case (Some q2)
        obtain nxt off w where q: "q2 = (nxt, off)" and w: "iunlockput ip v = Done w" "namex_loop dv parent path' nm nxt w = Done (t, r)"
          using k2 Some by (cases q2) (auto simp: outcome_simps)
        have "owns s0 v (add_mset ip (add_mset nxt M))" using dv Some q by (simp add: add_mset_commute)
        from iunlockput_owns [OF w(1) this] have "owns s0 w (add_mset nxt M)" .
        then show ?thesis
          using "1.IH" [OF \<open>skipelem path = Some p\<close> p [symmetric] u _ _ v refl Some q [symmetric] w(1) w(2)] True by blast
      qed
    qed
  qed
qed


lemma namex_owns:
  assumes "namex dv cwd path parent s = Done (t, r)" "owns s0 s M" "cwd < length (inodes s)" "0 < iref (inodes s ! cwd)"
  shows "case r of None \<Rightarrow> owns s0 t M | Some (ip, nm) \<Rightarrow> owns s0 t (add_mset ip M)"
proof -
  obtain u ip where u: "(if path \<noteq> [] \<and> hd path = slash then iget ROOTDEV ROOTINO s else Done (idup cwd s, cwd)) = Done (u, ip)"
    "namex_loop dv parent path [] ip u = Done (t, r)"
    using assms(1) unfolding namex_def by (auto simp: and_then_Done_iff)
  have "owns s0 u (add_mset ip M)"
    using u(1) iget_owns [OF _ assms(2)] idup_owns [OF assms(2-4)] by (auto split: if_splits)
  from namex_loop_owns [OF u(2) this] show ?thesis .
qed

lemma dirlink_slot_faces:
  "dirlink_slot dv dp offs e s = Done (t, r) \<Longrightarrow> itype (inodes s ! dp) = T_DIR \<Longrightarrow> dp < length (inodes s) \<Longrightarrow> faces t = faces s"
proof (induction offs arbitrary: s)
  case (Cons off offs)
  obtain u n bs where u: "readi dv dp (of_nat off) (of_nat DIRENT_SIZE) s = Done (u, n, bs)"
    "(if n \<noteq> int DIRENT_SIZE then Panic ''dirlink read'' else if de_inum (dirent_of bs) = 0 then Done (u, off)
     else dirlink_slot dv dp offs e u) = Done (t, r)"
    using Cons.prems(1) by (auto simp: outcome_simps)
  have f: "faces u = faces s" using readi_faces [OF u(1)] Cons.prems(2) by (simp add: T_DIR_def T_DEV_def)
  then have "itype (inodes u ! dp) = T_DIR" "dp < length (inodes u)"
    using faces_type [OF f Cons.prems(3)] Cons.prems(2,3) faces_length [OF f] by simp_all
  then show ?case using u(2) f Cons.IH [of u] by (auto split: if_splits)
qed simp

lemma dirlink_owns:
  assumes "dirlink dv dp name n s = Done (t, r)" "dp < length (inodes s)" "owns s0 s M"
  shows "owns s0 t M"
proof -
  obtain u q where u: "dirlookup dv dp name s = Done (u, q)" using assms(1) by (auto simp: dirlink_def outcome_simps)
  note d = dirlookup_owns [OF u assms(2,3)]
  show ?thesis
  proof (cases q)
    case (Some p)
    then show ?thesis using assms(1) u d iput_owns by (fastforce simp: dirlink_def outcome_simps)
  next
    case None
    let ?offs = "dir_offsets (isize (inodes u ! dp))"
    obtain v off where v: "dirlink_slot dv dp ?offs (length ?offs * DIRENT_SIZE) u = Done (v, off)"
      "and_then (writei dv dp (dirent_bytes \<lparr>de_inum = ucast n, de_name = take DIRSIZ (name @ replicate DIRSIZ 0)\<rparr>) (of_nat off)
         (of_nat DIRENT_SIZE) v) (\<lambda>(s, r). if r \<noteq> int DIRENT_SIZE then Panic ''dirlink'' else Done (s, 0)) = Done (t, r)"
      using assms(1) u None by (auto simp: dirlink_def Let_def and_then_Done_iff)
    obtain z where w: "writei dv dp (dirent_bytes \<lparr>de_inum = ucast n, de_name = take DIRSIZ (name @ replicate DIRSIZ 0)\<rparr>) (of_nat off)
         (of_nat DIRENT_SIZE) v = Done (t, z)"
      using v(2) by (auto simp: and_then_Done_iff split: if_splits)
    have T: "itype (inodes s ! dp) = T_DIR" using u by (auto simp: dirlookup_def split: if_splits)
    have f: "faces u = faces s" "owns s0 u M" using d None by simp_all
    have Tu: "itype (inodes u ! dp) = T_DIR" "dp < length (inodes u)"
      using faces_type [OF f(1) assms(2)] T owns_length [OF f(2)] owns_length [OF assms(3)] assms(2) by simp_all
    have fv: "faces v = faces u" using dirlink_slot_faces [OF v(1) Tu] .
    have "itype (inodes v ! dp) = T_DIR" using faces_type [OF fv Tu(2)] Tu by simp
    then have "faces t = faces v" using writei_faces [OF w] by (simp add: T_DIR_def T_DEV_def)
    then have "ids t = ids u" using fv ids_faces by metis
    then show ?thesis using owns_ids f(2) by blast
  qed
qed

lemma ialloc_loop_owns: "ialloc_loop dev ty ns s = Done (t, i) \<Longrightarrow> owns s0 s M \<Longrightarrow> owns s0 t (add_mset i M)"
proof (induction ns arbitrary: s)
  case (Cons n ns)
  obtain u b where u: "bread dev (IBLOCK (of_nat n) (sb s)) s = Done (u, b)" using Cons.prems(1) by (auto simp: outcome_simps Let_def)
  have o: "owns s0 u M" using owns_ids [OF ids_eq [OF bread_inodes [OF u]] Cons.prems(2)] .
  show ?case
  proof (cases "get16 (data_of u b) (dinode_offset (of_nat n)) = 0")
    case True
    then obtain v w where v: "log_write b (edit b (\<lambda>d. put16 (put_bytes d (dinode_offset (of_nat n)) (replicate DINODE_SIZE 0)) (dinode_offset (of_nat n)) ty) u) = Done v"
      "brelse b v = Done w" "iget dev (of_nat n) w = Done (t, i)"
      using Cons.prems(1) u by (auto simp: and_then_Done_iff Let_def)
    have "beyond w = beyond u" using log_write_inodes [OF v(1)] brelse_inodes [OF v(2)] by simp
    from owns_ids [OF ids_eq [OF this] o] show ?thesis using iget_owns [OF v(3)] by blast
  next
    case False
    then obtain w where w: "brelse b u = Done w" "ialloc_loop dev ty ns w = Done (t, i)"
      using Cons.prems(1) u by (auto simp: and_then_Done_iff Let_def)
    have "owns s0 w M" using owns_ids [OF ids_eq [OF brelse_inodes [OF w(1)]] o] .
    then show ?thesis using Cons.IH w(2) by blast
  qed
qed simp

end
