(* ===== verification/Fs_Dirs.thy ===== *)
theory Fs_Dirs
  imports Fs_Refs
begin

text \<open>
  Directories.  A directory is a file whose bytes are an array of entries;
  \<^verbatim>\<open>dirlookup\<close> finds the first entry in use with the given name and
  \<^verbatim>\<open>dirlink\<close> fills the first free one.  With the reference counts of
  \<open>Fs_Refs\<close> this gives the contract of path lookup.
\<close>

subsection \<open>Names\<close>

text \<open>The C string in an array of \<open>DIRSIZ\<close> characters.\<close>

definition cname :: "u8 list \<Rightarrow> u8 list" where
  "cname xs = takeWhile (\<lambda>c. c \<noteq> 0) (take DIRSIZ xs)"

lemma strncmp_zero:
  "strncmp p q n = 0 \<longleftrightarrow> takeWhile (\<lambda>c. c \<noteq> 0) (map p [0..<n]) = takeWhile (\<lambda>c. c \<noteq> 0) (map q [0..<n])"
proof (induction n arbitrary: p q)
  case (Suc n)
  have u: "map f [0..<Suc n] = f 0 # map (\<lambda>i. f (Suc i)) [0..<n]" for f :: "nat \<Rightarrow> u8"
    unfolding map_upt_Suc by simp
  show ?case using Suc.IH [of "\<lambda>i. p (Suc i)" "\<lambda>i. q (Suc i)"] unfolding u by (auto simp: word_uint_eq_iff [symmetric] unsigned_eq_0_iff)
qed simp

lemma takeWhile_zeros: "takeWhile (\<lambda>c. c \<noteq> 0) (xs @ replicate n (0 :: u8)) = takeWhile (\<lambda>c. c \<noteq> 0) xs"
  by (cases n) (simp_all add: takeWhile_tail)

lemma cstr_map: "takeWhile (\<lambda>c. c \<noteq> 0) (map (cstr xs) [0..<n]) = takeWhile (\<lambda>c. c \<noteq> 0) (take n xs)"
proof -
  have "map (cstr xs) [0..<n] = take n xs @ replicate (n - length xs) 0"
    by (rule nth_equalityI) (auto simp: cstr_def nth_append)
  then show ?thesis by (simp only: takeWhile_zeros)
qed

lemma namecmp_zero: "namecmp a b = 0 \<longleftrightarrow> cname a = cname b"
  by (simp add: namecmp_def strncmp_zero cstr_map cname_def)

lemma cname_padded: "cname (take DIRSIZ name @ replicate (DIRSIZ - length name) 0) = cname name"
  by (simp add: cname_def takeWhile_zeros)


subsection \<open>Entries\<close>

definition entry :: "'a fstate_scheme \<Rightarrow> nat \<Rightarrow> nat \<Rightarrow> dirent" where
  "entry s dp k = dirent_of (map (fbyte s dp) [DIRENT_SIZE * k..<DIRENT_SIZE * k + DIRENT_SIZE])"

definition entries :: "'a fstate_scheme \<Rightarrow> nat \<Rightarrow> nat" where
  "entries s dp = unat (isize (inodes s ! dp)) div DIRENT_SIZE"

definition names :: "'a fstate_scheme \<Rightarrow> nat \<Rightarrow> u8 list \<Rightarrow> nat \<Rightarrow> bool" where
  "names s dp name k \<longleftrightarrow> de_inum (entry s dp k) \<noteq> 0 \<and> cname (de_name (entry s dp k)) = cname name"

text \<open>A directory whose blocks are allocated.\<close>

definition is_dir :: "'a fstate_scheme \<Rightarrow> nat \<Rightarrow> bool" where
  "is_dir s dp \<longleftrightarrow> itype (inodes s ! dp) = T_DIR \<and> DIRENT_SIZE dvd unat (isize (inodes s ! dp)) \<and>
     mapped s dp (unat (isize (inodes s ! dp)))"

lemma dir_offsets_entries:
  assumes "is_dir s dp" shows "dir_offsets (isize (inodes s ! dp)) = map (\<lambda>k. k * DIRENT_SIZE) [0..<entries s dp]"
proof -
  have "(a * DIRENT_SIZE + DIRENT_SIZE - 1) div DIRENT_SIZE = a" for a by (simp add: layout_defs)
  then have "(unat (isize (inodes s ! dp)) + DIRENT_SIZE - 1) div DIRENT_SIZE = entries s dp"
    using assms by (auto simp: is_dir_def entries_def elim!: dvdE) (metis mult.commute)
  then show ?thesis by (simp add: dir_offsets_def)
qed

lemma viewed_dir:
  assumes "viewed s t" shows "is_dir t dp = is_dir s dp" "entry t dp k = entry s dp k" "entries t dp = entries s dp"
  using viewed_fs [OF assms] by (simp_all add: is_dir_def entry_def entries_def cong: map_cong)

lemma read_entry:
  assumes "readable s" "is_dir s dp" "k < entries s dp"
  shows "\<exists>t bs. readi dv dp (of_nat (k * DIRENT_SIZE)) (of_nat DIRENT_SIZE) s = Done (t, int DIRENT_SIZE, bs) \<and> dirent_of bs = entry s dp k \<and> viewed s t"
proof -
  have z: "unat (isize (inodes s ! dp)) \<le> 71680" using assms(2) by (simp add: is_dir_def mapped_def layout_defs)
  have "Suc k * DIRENT_SIZE \<le> entries s dp * DIRENT_SIZE" using assms(3) by (intro mult_le_mono1) simp
  then have fit: "k * DIRENT_SIZE + DIRENT_SIZE \<le> unat (isize (inodes s ! dp))" using assms(2) by (simp add: entries_def is_dir_def)
  then have u: "unat (of_nat (k * DIRENT_SIZE) :: u32) = k * DIRENT_SIZE" using z by (intro unat_small) simp
  obtain t where "readi dv dp (of_nat (k * DIRENT_SIZE)) (of_nat DIRENT_SIZE) s =
      Done (t, int DIRENT_SIZE, map (fbyte s dp) [k * DIRENT_SIZE..<k * DIRENT_SIZE + DIRENT_SIZE])" "viewed s t"
    using readi_within [OF assms(1), of dp "of_nat (k * DIRENT_SIZE)" DIRENT_SIZE] assms(2) fit u by (auto simp: is_dir_def T_DIR_def T_DEV_def)
  then show ?thesis by (auto simp: entry_def mult.commute)
qed

lemma dirlookup_loop_finds:
  assumes "readable s" "is_dir s dp" "\<forall>k\<in>set ks. k < entries s dp"
  shows "\<exists>t. viewed s t \<and> dirlookup_loop dv dp name (map (\<lambda>k. k * DIRENT_SIZE) ks) s =
    (case find (names s dp name) ks of
       None \<Rightarrow> Done (t, None)
     | Some k \<Rightarrow> and_then (iget (idev (inodes s ! dp)) (ucast (de_inum (entry s dp k))) t) (\<lambda>(u, ip). Done (u, Some (ip, of_nat (k * DIRENT_SIZE)))))"
  using assms
proof (induction ks arbitrary: s)
  case Nil
  then show ?case using viewed_refl [of s] by (auto simp: readable_def)
next
  case (Cons k ks)
  obtain t bs where t: "readi dv dp (of_nat (k * DIRENT_SIZE)) (of_nat DIRENT_SIZE) s = Done (t, int DIRENT_SIZE, bs)" "dirent_of bs = entry s dp k" "viewed s t"
    using read_entry [OF Cons.prems(1,2), of k dv] Cons.prems(3) by auto
  note v = viewed_dir [OF t(3)] viewed_fs(2) [OF t(3)]
  show ?case
  proof (cases "names s dp name k")
    case True
    then have "de_inum (entry s dp k) \<noteq> 0" "namecmp name (de_name (entry s dp k)) = 0" by (auto simp: names_def namecmp_zero)
    then show ?thesis using t True v by (intro exI [of _ t]) (simp add: Let_def)
  next
    case False
    obtain u where u: "viewed t u" "dirlookup_loop dv dp name (map (\<lambda>k. k * DIRENT_SIZE) ks) t =
      (case find (names t dp name) ks of
         None \<Rightarrow> Done (u, None)
       | Some k \<Rightarrow> and_then (iget (idev (inodes t ! dp)) (ucast (de_inum (entry t dp k))) u) (\<lambda>(u, ip). Done (u, Some (ip, of_nat (k * DIRENT_SIZE)))))"
      using Cons.IH [of t] viewed_readable [OF t(3) Cons.prems(1)] Cons.prems v by auto
    have n: "names t dp name = names s dp name" by (simp add: names_def fun_eq_iff v)
    have "de_inum (entry s dp k) = 0 \<or> namecmp name (de_name (entry s dp k)) \<noteq> 0" using False by (auto simp: names_def namecmp_zero)
    then show ?thesis using t(1,2) u(2) viewed_trans [OF t(3) u(1)] False
      by (intro exI [of _ u]) (auto simp: Let_def v n split: option.splits)
  qed
qed

lemma dirlookup_finds:
  assumes "readable s" "is_dir s dp"
  shows "\<exists>t. viewed s t \<and> dirlookup dv dp name s =
    (case find (names s dp name) [0..<entries s dp] of
       None \<Rightarrow> Done (t, None)
     | Some k \<Rightarrow> and_then (iget (idev (inodes s ! dp)) (ucast (de_inum (entry s dp k))) t) (\<lambda>(u, ip). Done (u, Some (ip, of_nat (k * DIRENT_SIZE)))))"
  using dirlookup_loop_finds [OF assms, of "[0..<entries s dp]" dv name] assms(2)
  by (simp add: dirlookup_def dir_offsets_entries is_dir_def)

lemma dirlink_slot_finds:
  assumes "readable s" "is_dir s dp" "\<forall>k\<in>set ks. k < entries s dp"
  shows "\<exists>t. viewed s t \<and> dirlink_slot dv dp (map (\<lambda>k. k * DIRENT_SIZE) ks) e s =
    Done (t, case find (\<lambda>k. de_inum (entry s dp k) = 0) ks of None \<Rightarrow> e | Some k \<Rightarrow> k * DIRENT_SIZE)"
  using assms
proof (induction ks arbitrary: s)
  case Nil
  then show ?case using viewed_refl [of s] by (auto simp: readable_def)
next
  case (Cons k ks)
  obtain t bs where t: "readi dv dp (of_nat (k * DIRENT_SIZE)) (of_nat DIRENT_SIZE) s = Done (t, int DIRENT_SIZE, bs)" "dirent_of bs = entry s dp k" "viewed s t"
    using read_entry [OF Cons.prems(1,2), of k dv] Cons.prems(3) by auto
  note v = viewed_dir [OF t(3)]
  obtain u where u: "viewed t u" "dirlink_slot dv dp (map (\<lambda>k. k * DIRENT_SIZE) ks) e t =
      Done (u, case find (\<lambda>k. de_inum (entry t dp k) = 0) ks of None \<Rightarrow> e | Some k \<Rightarrow> k * DIRENT_SIZE)"
    using Cons.IH [of t] viewed_readable [OF t(3) Cons.prems(1)] Cons.prems v by auto
  show ?case
  proof (cases "de_inum (entry s dp k) = 0")
    case True
    then show ?thesis using t by (intro exI [of _ t]) simp
  next
    case False
    then show ?thesis using t(1,2) u(2) viewed_trans [OF t(3) u(1)] v by (intro exI [of _ u]) simp
  qed
qed


subsection \<open>Linking and looking up\<close>

lemma iget_room:
  assumes "k < length (inodes s)" "iref (inodes s ! k) = 0"
  shows "\<exists>t i. iget dev n s = Done (t, i)"
proof -
  have "find_index (\<lambda>ip. iref ip = 0) (inodes s) \<noteq> None" using assms by (auto simp: find_index_None_nth)
  then show ?thesis by (auto simp: iget_def split: option.split)
qed

lemma dirent_round_trip: "length (de_name de) = DIRSIZ \<Longrightarrow> dirent_of (dirent_bytes de) = de \<and> length (dirent_bytes de) = DIRENT_SIZE"
proof -
  assume l: "length (de_name de) = DIRSIZ"
  have "get16 (put16 [0, 0] 0 (de_inum de)) 0 = de_inum de" by (rule get16_put16_same) simp
  then have "get16 (dirent_bytes de) 0 = de_inum de" by (simp add: get16_def put16_def dirent_bytes_def)
  then show ?thesis using l by (simp add: dirent_of_def dirent_bytes_def get_bytes_def layout_defs)
qed

lemma find_first:
  "k < n \<Longrightarrow> P k \<Longrightarrow> (\<And>j. j < k \<Longrightarrow> \<not> P j) \<Longrightarrow> find P [0..<n] = Some k"
  by (auto simp: find_Some_iff intro!: exI [of _ k])

lemma touched_entry: "touched (k * DIRENT_SIZE) DIRENT_SIZE = 1"
  by (simp add: touched_def nblocks_def layout_defs)

lemma viewed_in_op:
  fixes s t :: "'a fstate_scheme"
  assumes "viewed s t" "in_op s" shows "in_op t" "same_op s t" "room t k = room s k" "wfile t i n = wfile s i n"
proof -
  show o: "in_op t" "same_op s t" using viewed_op [of s t] assms by (auto simp: viewed_def)
  have "lh_n t = lh_n s" "held t = held s" using viewed_op [of s t] assms by (auto simp: viewed_def)
  then show "room t k = room s k" using o(2) by (simp add: room_def same_op_def)
  show "wfile t i n = wfile s i n"
    using viewed_fs [OF assms(1)] o(2) by (simp add: wfile_def same_op_def log_area_def inj_on_def)
qed

lemma dirlink_fills:
  assumes op: "in_op s" "room s 1" and d: "is_dir s dp" "wfile s dp (unat (isize (inodes s ! dp)))"
    and new: "\<forall>k<entries s dp. \<not> names s dp name k"
    and free: "k < entries s dp" "de_inum (entry s dp k) = 0" "\<forall>j<k. de_inum (entry s dp j) \<noteq> 0"
  shows "\<exists>t. dirlink dv dp name n s = Done (t, 0) \<and> same_op s t \<and> in_op t \<and> readable t \<and> is_dir t dp \<and>
    (\<forall>j<entries s dp. entry t dp j = (if j = k then \<lparr>de_inum = ucast n, de_name = take DIRSIZ (name @ replicate DIRSIZ 0)\<rparr> else entry s dp j))"
proof -
  let ?z = "unat (isize (inodes s ! dp))" and ?de = "\<lparr>de_inum = ucast n, de_name = take DIRSIZ (name @ replicate DIRSIZ 0)\<rparr>"
  let ?bs = "dirent_bytes ?de" and ?off = "of_nat (k * DIRENT_SIZE) :: u32"
  have rs: "readable s" using room_buffers [OF op] op(1) by (simp add: readable_def in_op_def)
  have "find (names s dp name) [0..<entries s dp] = None" using new by (simp add: find_None_iff)
  then obtain t where t: "viewed s t" "dirlookup dv dp name s = Done (t, None)" using dirlookup_finds [OF rs d(1), of dv name] by auto
  note vt = viewed_dir [OF t(1)] viewed_fs(2) [OF t(1)]
  let ?offs = "dir_offsets (isize (inodes t ! dp))"
  have "find (\<lambda>k. de_inum (entry t dp k) = 0) [0..<entries t dp] = Some k" using free by (intro find_first) (auto simp: vt)
  then obtain u where u: "viewed t u" "dirlink_slot dv dp ?offs (length ?offs * DIRENT_SIZE) t = Done (u, k * DIRENT_SIZE)"
    using dirlink_slot_finds [OF viewed_readable [OF t(1) rs], of dp "[0..<entries t dp]" dv "length ?offs * DIRENT_SIZE"]
      d(1) vt dir_offsets_entries [of t dp] by auto
  have su: "viewed s u" using viewed_trans t(1) u(1) by blast
  note vu = viewed_dir [OF su] viewed_fs [OF su] and ou = viewed_in_op [OF su op(1)]
  have z: "?z \<le> 71680" using d(1) by (simp add: is_dir_def mapped_def layout_defs)
  have "Suc k * DIRENT_SIZE \<le> entries s dp * DIRENT_SIZE" using free(1) by (intro mult_le_mono1) simp
  then have fit: "k * DIRENT_SIZE + DIRENT_SIZE \<le> ?z" using d(1) by (simp add: entries_def is_dir_def)
  have o: "unat ?off = k * DIRENT_SIZE" using z fit by (intro unat_small) simp
  have de: "dirent_of ?bs = ?de" "length ?bs = DIRENT_SIZE" using dirent_round_trip [of ?de] by simp_all
  obtain w where w: "writei dv dp ?bs ?off (of_nat (length ?bs)) u = Done (w, int (length ?bs))" "same_op u w" "in_op w"
    "wfile w dp ?z" "readable w"
    "\<forall>j<?z. fbyte w dp j = (if unat ?off \<le> j \<and> j < unat ?off + length ?bs then ?bs ! (j - unat ?off) else fbyte u dp j)"
    using writei_within [of u ?off ?bs dp dv] ou op d fit o touched_entry [of k] de(2) vu by (auto simp: is_dir_def T_DIR_def T_DEV_def)
  have iw: "inodes w = inodes s" using fs_fields(2) [OF w(2)] vu by simp
  have "dirlink dv dp name n s = Done (w, 0)"
    using t(2) u(2) w(1) de(2) vt by (simp add: dirlink_def Let_def)
  moreover have "is_dir w dp" using d(1) w(4) iw by (simp add: is_dir_def wfile_def)
  moreover have "entry w dp j = (if j = k then ?de else entry s dp j)" if j: "j < entries s dp" for j
  proof -
    have "Suc j * DIRENT_SIZE \<le> entries s dp * DIRENT_SIZE" using j by (intro mult_le_mono1) simp
    then have fj: "j * DIRENT_SIZE + DIRENT_SIZE \<le> ?z" using d(1) by (simp add: entries_def is_dir_def)
    show ?thesis
    proof (cases "j = k")
      case True
      have "map (fbyte w dp) [DIRENT_SIZE * k..<DIRENT_SIZE * k + DIRENT_SIZE] = ?bs"
        using w(6) o de(2) fit by (intro nth_equalityI) (auto simp: mult.commute)
      then show ?thesis using True de(1) by (simp add: entry_def)
    next
      case False
      then have "Suc j * DIRENT_SIZE \<le> k * DIRENT_SIZE \<or> Suc k * DIRENT_SIZE \<le> j * DIRENT_SIZE"
        using mult_le_mono1 [of "Suc j" k DIRENT_SIZE] mult_le_mono1 [of "Suc k" j DIRENT_SIZE] by linarith
      then have "map (fbyte w dp) [DIRENT_SIZE * j..<DIRENT_SIZE * j + DIRENT_SIZE] = map (fbyte s dp) [DIRENT_SIZE * j..<DIRENT_SIZE * j + DIRENT_SIZE]"
        using w(6) o de(2) fj vu by (intro map_cong refl) (auto simp: mult.commute)
      then show ?thesis using False by (simp only: entry_def if_False)
    qed
  qed
  ultimately show ?thesis using same_op_trans [OF ou(2) w(2)] w(3,5) by (intro exI [of _ w]) simp
qed

text \<open>
  C23: What \<^verbatim>\<open>dirlink\<close> links, \<^verbatim>\<open>dirlookup\<close> finds.  For a directory whose blocks
  are allocated, in which the name does not occur and the first free entry is
  entry \<open>k\<close>, \<^verbatim>\<open>dirlink\<close> returns 0 and puts the name and the inode number
  there; every other entry is unchanged and nothing reaches the disk before
  the commit.  \<^verbatim>\<open>dirlookup\<close> of the name then returns an inode with the number
  that was linked and the offset of entry \<open>k\<close>.
\<close>

theorem dirlink_dirlookup_round_trip:
  assumes op: "in_op s" "room s 1" and d: "is_dir s dp" "wfile s dp (unat (isize (inodes s ! dp)))"
    and new: "\<forall>j<entries s dp. \<not> names s dp name j"
    and free: "k < entries s dp" "de_inum (entry s dp k) = 0" "\<forall>j<k. de_inum (entry s dp j) \<noteq> 0"
    and n: "unat n < 2 ^ 16" "n \<noteq> 0" and c: "icache_wf s" "i < length (inodes s)" "iref (inodes s ! i) = 0"
  shows "\<exists>t u ip. dirlink dv dp name n s = Done (t, 0) \<and> dirlookup dv dp name t = Done (u, Some (ip, of_nat (k * DIRENT_SIZE))) \<and>
    idev (inodes u ! ip) = 1 \<and> inum (inodes u ! ip) = n \<and>
    (\<forall>j<entries s dp. j \<noteq> k \<longrightarrow> entry t dp j = entry s dp j) \<and> disk t = disk s"
proof -
  let ?de = "\<lparr>de_inum = ucast n :: u16, de_name = take DIRSIZ (name @ replicate DIRSIZ 0)\<rparr>"
  have "unat (ucast (ucast n :: u16) :: u32) = unat n" using n(1) by (simp add: unsigned_ucast_eq unsigned_take_bit_eq take_bit_nat_eq_self)
  then have un: "ucast (ucast n :: u16) = n" by (simp add: word_unat_eq_iff)
  obtain t where t: "dirlink dv dp name n s = Done (t, 0)" "same_op s t" "in_op t" "readable t" "is_dir t dp"
    "\<forall>j<entries s dp. entry t dp j = (if j = k then ?de else entry s dp j)"
    using dirlink_fills [OF op d new free] by blast
  have it: "inodes t = inodes s" by (rule fs_fields(2) [OF t(2)])
  have et: "entries t dp = entries s dp" by (simp add: entries_def it)
  have nz: "(ucast n :: u16) \<noteq> 0" using un n(2) by auto
  have "find (names t dp name) [0..<entries t dp] = Some k"
    using free(1) new t(6) nz by (intro find_first) (auto simp: et names_def cname_padded)
  then obtain v where v: "viewed t v" "dirlookup dv dp name t =
      and_then (iget (idev (inodes t ! dp)) (ucast (de_inum (entry t dp k))) v) (\<lambda>(u, ip). Done (u, Some (ip, of_nat (k * DIRENT_SIZE))))"
    using dirlookup_finds [OF t(4,5), of dv name] by auto
  have iv: "inodes v = inodes s" using viewed_fs(2) [OF v(1)] it by simp
  have e: "ucast (de_inum (entry t dp k)) = n" "idev (inodes t ! dp) = 1" using t(6) free(1) un d(1) it by (auto simp: is_dir_def mapped_def)
  obtain u ip where u: "iget 1 n v = Done (u, ip)" using iget_room [of i v 1 n] c(2,3) iv by auto
  have "owns v v {#}" using c(1) iv by (intro owns_refl) (simp add: icache_wf_def)
  from iget_owns [OF u this] have "idev (inodes u ! ip) = 1" "inum (inodes u ! ip) = n" by simp_all
  then show ?thesis using t(1,2,6) v(2) u e
    by (intro exI [of _ t] exI [of _ u] exI [of _ ip]) (auto simp: same_op_def)
qed


text \<open>The sample image with a root directory of three entries: two in use, one free.\<close>

definition dir_disk :: "u32 \<Rightarrow> block" where
  "dir_disk = fs_disk(62 := put_bytes (replicate BSIZE 0) 0
     (dirent_bytes \<lparr>de_inum = 1, de_name = 46 # replicate 13 0\<rparr> @ dirent_bytes \<lparr>de_inum = 1, de_name = 46 # 46 # replicate 12 0\<rparr>))"

definition root_inode :: inode where
  "root_inode = \<lparr>idev = 1, inum = 1, iref = 1, ilk = \<lparr>sl_locked = False, sl_pid = 0\<rparr>, ivalid = True, itype = T_DIR, imajor = 0, iminor = 0,
     inlink = 1, isize = 48, iaddrs = 62 # replicate 12 0\<rparr>"

definition dir_demo :: fstate where
  "dir_demo = lstate.extend ((powerup dir_disk 200 1)\<lparr>log_start := 2, log_size := 30, log_dev := 1, outstanding := 1\<rparr>)
     (fstate.fields fs_sb [root_inode, root_inode\<lparr>inum := 9, iref := 0, ivalid := False\<rparr>])"

lemma dir_disk_length: "length (dir_disk n) = BSIZE"
  using fs_disk_length [of n] by (simp add: dir_disk_def dirent_bytes_def layout_defs)

lemma dir_demo_state:
  "cache_wf dir_demo" "held dir_demo = {}" "dirty dir_demo = {}" "content dir_demo = dir_disk" "disk dir_demo = dir_disk" "disksize dir_demo = 200"
  "lh_block dir_demo = replicate LOGSIZE 0" "lh_n dir_demo = 0" "outstanding dir_demo = 1" "log_start dir_demo = 2" "log_size dir_demo = 30"
  "log_dev dir_demo = 1" "inodes dir_demo = [root_inode, root_inode\<lparr>inum := 9, iref := 0, ivalid := False\<rparr>]"
  using powerup_state [of dir_disk 200 1, OF dir_disk_length] powerup_fields [of dir_disk 200 1]
  by (simp_all add: dir_demo_def) (simp_all add: lstate.extend_def fstate.fields_def)

lemma dir_demo_op: "in_op dir_demo" "room dir_demo 1" "readable dir_demo" "log_area dir_demo = {n. 2 \<le> unat n \<and> unat n < 32}" "icache_wf dir_demo"
proof -
  have "log_ok dir_demo" by (simp add: log_ok_def dir_demo_state layout_defs)
  moreover have "trans_ok dir_demo" by (simp add: trans_ok_def dir_demo_state logged_def home_ok_def)
  ultimately show "in_op dir_demo" by (simp add: in_op_def dir_demo_state)
  show "room dir_demo 1" "readable dir_demo" "log_area dir_demo = {n. 2 \<le> unat n \<and> unat n < 32}"
    by (auto simp: room_def readable_def dir_demo_state log_area_def layout_defs)
  have all: "(\<forall>k<Suc (Suc 0). P k) \<longleftrightarrow> P 0 \<and> P (Suc 0)" for P by (auto simp: less_Suc_eq)
  show "icache_wf dir_demo" by (simp add: icache_wf_def dir_demo_state root_inode_def all)
qed

lemma dir_demo_dir: "is_dir dir_demo 0" "wfile dir_demo 0 48" "entries dir_demo 0 = 3" "isize (inodes dir_demo ! 0) = 48"
proof -
  have n: "nblocks 48 = 1" by (simp add: nblocks_def layout_defs)
  have f: "faddr dir_demo 0 0 = 62" by (simp add: faddr_def dir_demo_state root_inode_def layout_defs)
  have m: "mapped dir_demo 0 48" using f by (simp add: mapped_def n dir_demo_state root_inode_def layout_defs)
  then show "is_dir dir_demo 0" by (simp add: is_dir_def dir_demo_state root_inode_def layout_defs)
  show "wfile dir_demo 0 48" using m f by (simp add: wfile_def n dir_demo_op layout_defs inj_on_def)
  show "entries dir_demo 0 = 3" "isize (inodes dir_demo ! 0) = 48" by (simp_all add: entries_def dir_demo_state root_inode_def layout_defs)
qed

lemma dir_demo_entry:
  "entry dir_demo 0 0 = \<lparr>de_inum = 1, de_name = 46 # replicate 13 0\<rparr>"
  "entry dir_demo 0 1 = \<lparr>de_inum = 1, de_name = 46 # 46 # replicate 12 0\<rparr>"
  "entry dir_demo 0 2 = \<lparr>de_inum = 0, de_name = replicate 14 0\<rparr>"
proof -
  have b: "fbyte dir_demo 0 j = dir_disk 62 ! j" if "j < 48" for j
    using that by (simp add: fbyte_def faddr_def dir_demo_state root_inode_def layout_defs)
  have "entry dir_demo 0 k = dirent_of (map (\<lambda>j. dir_disk 62 ! j) [16 * k..<16 * k + 16])" if "k < 3" for k
    unfolding entry_def by (intro arg_cong [of _ _ dirent_of] map_cong) (use that b in \<open>auto simp: layout_defs\<close>)
  from this [of 0] this [of 1] this [of 2] show
    "entry dir_demo 0 0 = \<lparr>de_inum = 1, de_name = 46 # replicate 13 0\<rparr>"
    "entry dir_demo 0 1 = \<lparr>de_inum = 1, de_name = 46 # 46 # replicate 12 0\<rparr>"
    "entry dir_demo 0 2 = \<lparr>de_inum = 0, de_name = replicate 14 0\<rparr>"
    by (simp_all add: dir_disk_def dirent_bytes_def dirent_of_def get16_def get_bytes_def put_bytes_def layout_defs
      upt_rec numeral_eq_Suc nth_append)
qed


theorem dirlink_dirlookup_round_trip_witness:
  "\<exists>t u ip. dirlink no_devices 0 [97, 98] 7 dir_demo = Done (t, 0) \<and>
    dirlookup no_devices 0 [97, 98] t = Done (u, Some (ip, 32)) \<and> inum (inodes u ! ip) = 7"
proof -
  have three: "(\<forall>j<3. P j) \<longleftrightarrow> P 0 \<and> P 1 \<and> P (2 :: nat)" "(\<forall>j<2. P j) \<longleftrightarrow> P 0 \<and> P (1 :: nat)" for P
    by (auto simp: less_Suc_eq numeral_eq_Suc)
  have "\<exists>t u ip. dirlink no_devices 0 [97, 98] 7 dir_demo = Done (t, 0) \<and>
    dirlookup no_devices 0 [97, 98] t = Done (u, Some (ip, of_nat (2 * DIRENT_SIZE))) \<and>
    idev (inodes u ! ip) = 1 \<and> inum (inodes u ! ip) = 7 \<and>
    (\<forall>j<entries dir_demo 0. j \<noteq> 2 \<longrightarrow> entry t 0 j = entry dir_demo 0 j) \<and> disk t = disk dir_demo"
  proof (rule dirlink_dirlookup_round_trip [where i = 1])
    show "room dir_demo 1" by (rule dir_demo_op)
    show "wfile dir_demo 0 (unat (isize (inodes dir_demo ! 0)))" using dir_demo_dir by simp
    show "\<forall>j<entries dir_demo 0. \<not> names dir_demo 0 [97, 98] j" "\<forall>j<2. de_inum (entry dir_demo 0 j) \<noteq> 0"
      "2 < entries dir_demo 0" "de_inum (entry dir_demo 0 2) = 0"
      using dir_demo_entry by (simp_all add: dir_demo_dir three names_def cname_def layout_defs)
  qed (simp_all add: dir_demo_op dir_demo_dir dir_demo_state)
  then show ?thesis by (auto simp: layout_defs)
qed

text \<open>
  C24: Path lookup leaks no inode.  Whenever \<^verbatim>\<open>namei\<close> or \<^verbatim>\<open>nameiparent\<close>
  returns, the reference count of every cache entry is what it was, except
  that the inode returned, if any, has one reference more; every entry that
  was in use still stands for the same inode, and no inode has two entries.
  This covers all ways out: a missing element, a path through a file, an
  empty path.
\<close>

theorem namex_references:
  assumes "icache_wf s" "cwd < length (inodes s)" "0 < iref (inodes s ! cwd)" "namex dv cwd path parent s = Done (t, r)"
  shows "icache_wf t \<and> length (inodes t) = length (inodes s) \<and>
    (\<forall>k<length (inodes s). iref (inodes t ! k) = iref (inodes s ! k) + (if map_option fst r = Some k then 1 else 0) \<and>
       (0 < iref (inodes s ! k) \<longrightarrow> idev (inodes t ! k) = idev (inodes s ! k) \<and> inum (inodes t ! k) = inum (inodes s ! k)))"
proof -
  have "case r of None \<Rightarrow> owns s t {#} | Some (ip, nm) \<Rightarrow> owns s t {#ip#}"
    by (rule namex_owns [OF assms(4) owns_refl [OF assms(1)] assms(2,3)])
  then show ?thesis by (auto simp: owns_def split: option.splits)
qed

lemma dir_demo_missing: "\<exists>t. namex no_devices 0 [97] False dir_demo = Done (t, None)"
proof -
  let ?ip = "root_inode\<lparr>iref := 2, ilk := \<lparr>sl_locked = True, sl_pid = curpid dir_demo\<rparr>\<rparr>"
  let ?s = "dir_demo\<lparr>inodes := [?ip, root_inode\<lparr>inum := 9, iref := 0, ivalid := False\<rparr>]\<rparr>"
  have l: "ilock 0 (idup 0 dir_demo) = Done ?s"
    by (simp add: ilock_def idup_def upd_at_def dir_demo_state root_inode_def acquiresleep_def)
  have R: "itype root_inode = T_DIR" "idev root_inode = 1" "isize root_inode = 48" "iaddrs root_inode = 62 # replicate 12 0"
    by (simp_all add: root_inode_def)
  have f: "faddr ?s 0 k = faddr dir_demo 0 k" for k by (simp add: faddr_def dir_demo_state root_inode_def Let_def)
  have e: "entry ?s 0 k = entry dir_demo 0 k" for k by (simp add: entry_def fbyte_def f cong: map_cong)
  have d: "is_dir ?s 0" "entries ?s 0 = 3"
    using dir_demo_dir(1,3) by (simp_all add: is_dir_def mapped_def f entries_def dir_demo_state R)
  have "\<not> names ?s 0 [97] 0" "\<not> names ?s 0 [97] 1" "\<not> names ?s 0 [97] 2"
    unfolding names_def e dir_demo_entry by (simp_all add: cname_def layout_defs)
  moreover have "k = 0 \<or> k = 1 \<or> k = 2" if "k < 3" for k :: nat using that by auto
  ultimately have "\<not> names ?s 0 [97] k" if "k < 3" for k using that by metis
  then have "find (names ?s 0 [97]) [0..<entries ?s 0] = None" by (simp add: find_None_iff d)
  then obtain t where t: "viewed ?s t" "dirlookup no_devices 0 [97] ?s = Done (t, None)"
    using dirlookup_finds [of ?s 0 no_devices "[97]"] d dir_demo_op by auto
  have it: "inodes t = inodes ?s" using viewed_fs(2) [OF t(1)] .
  have "\<exists>u. iunlockput 0 t = Done u"
    by (simp add: iunlockput_def iunlock_def iput_def it holdingsleep_def root_inode_def upd_at_def acquiresleep_def releasesleep_def)
  then obtain u where u: "iunlockput 0 t = Done u" by blast
  have s: "skipelem [97] = Some ([], [97])" by (simp add: skipelem_def slash_def layout_defs)
  have "namex_loop no_devices False [97] [] 0 (idup 0 dir_demo) = Done (u, None)"
    by (subst namex_loop.simps) (simp add: s l t(2) u, simp add: root_inode_def)
  then show ?thesis by (simp add: namex_def slash_def)
qed

theorem namex_references_witness:
  "\<exists>t. namex no_devices 0 [97] False dir_demo = Done (t, None) \<and> (\<forall>k<2. iref (inodes t ! k) = iref (inodes dir_demo ! k))"
proof -
  obtain t where t: "namex no_devices 0 [97] False dir_demo = Done (t, None)" using dir_demo_missing by blast
  have "0 < length (inodes dir_demo)" "0 < iref (inodes dir_demo ! 0)" "length (inodes dir_demo) = 2"
    by (simp_all add: dir_demo_state root_inode_def)
  then show ?thesis using namex_references [OF dir_demo_op(5) _ _ t] t by auto
qed

end
