(* ===== verification/Pipe.thy ===== *)
theory Pipe
  imports Layout
begin

text \<open>
  Pipes, \<^verbatim>\<open>pipe.c\<close>: a ring of \<^verbatim>\<open>PIPESIZE\<close> bytes with two counters that are
  never reset, so they wrap at \<open>2 ^ 32\<close>.  \<^verbatim>\<open>p->lock\<close> makes what runs between
  two sleeps one step; such a step is a \<^emph>\<open>turn\<close> here.  A turn of
  \<^verbatim>\<open>pipewrite\<close> ends asleep with the bytes that are still to be written, or
  with the value it returns; \<^verbatim>\<open>piperead\<close> accordingly.  The wake-ups change no
  field of the pipe.
\<close>

definition PIPESIZE :: nat where [layout_defs]: "PIPESIZE = 512"

record pipe =
  pdata :: "u8 list"
  nread :: u32
  nwrite :: u32
  readopen :: bool
  writeopen :: bool

subsection \<open>Operations\<close>

text \<open>What \<^verbatim>\<open>pipealloc\<close> makes of the page it gets; the data is whatever was there.\<close>

definition pipe_init :: "u8 list \<Rightarrow> pipe" where
  "pipe_init d = \<lparr>pdata = d, nread = 0, nwrite = 0, readopen = True, writeopen = True\<rparr>"

text \<open>\<^verbatim>\<open>pipeclose\<close>: the pipe afterwards, or \<open>None\<close> when its page is freed.\<close>

definition pipeclose :: "pipe \<Rightarrow> bool \<Rightarrow> pipe option" where
  "pipeclose p writable =
     (let p = (if writable then p\<lparr>writeopen := False\<rparr> else p\<lparr>readopen := False\<rparr>) in
      if \<not> readopen p \<and> \<not> writeopen p then None else Some p)"

datatype 'a turn = Asleep 'a | Returns int

fun pipewrite_loop :: "bool \<Rightarrow> u8 list \<Rightarrow> pipe \<Rightarrow> pipe \<times> u8 list option" where
  "pipewrite_loop kill [] p = (p, Some [])"
| "pipewrite_loop kill (c # cs) p =
     (if nwrite p = nread p + of_nat PIPESIZE
      then if \<not> readopen p \<or> kill then (p, None) else (p, Some (c # cs))
      else pipewrite_loop kill cs
             (p\<lparr>pdata := (pdata p)[unat (nwrite p) mod PIPESIZE := c], nwrite := nwrite p + 1\<rparr>))"

definition pipewrite :: "int \<Rightarrow> bool \<Rightarrow> u8 list \<Rightarrow> pipe \<Rightarrow> pipe \<times> u8 list turn" where
  "pipewrite n kill cs p =
     (case pipewrite_loop kill cs p of
        (p, None) \<Rightarrow> (p, Returns (-1))
      | (p, Some []) \<Rightarrow> (p, Returns n)
      | (p, Some rest) \<Rightarrow> (p, Asleep rest))"

fun piperead_loop :: "nat \<Rightarrow> pipe \<Rightarrow> pipe \<times> u8 list" where
  "piperead_loop 0 p = (p, [])"
| "piperead_loop (Suc n) p =
     (if nread p = nwrite p then (p, [])
      else let c = pdata p ! (unat (nread p) mod PIPESIZE);
               (p, cs) = piperead_loop n (p\<lparr>nread := nread p + 1\<rparr>)
           in (p, c # cs))"

definition piperead :: "nat \<Rightarrow> bool \<Rightarrow> pipe \<Rightarrow> pipe \<times> unit turn \<times> u8 list" where
  "piperead n kill p =
     (if nread p = nwrite p \<and> writeopen p
      then (p, if kill then Returns (-1) else Asleep (), [])
      else let (p, cs) = piperead_loop n p in (p, Returns (int (length cs)), cs))"


subsection \<open>The queue a pipe implements\<close>

definition pipe_wf :: "pipe \<Rightarrow> bool" where
  "pipe_wf p \<longleftrightarrow> length (pdata p) = PIPESIZE \<and> unat (nwrite p - nread p) \<le> PIPESIZE"

definition queued :: "pipe \<Rightarrow> u8 list" where
  "queued p = map (\<lambda>k. pdata p ! (unat (nread p + of_nat k) mod PIPESIZE)) [0..<unat (nwrite p - nread p)]"

lemma length_queued: "length (queued p) = unat (nwrite p - nread p)"
  by (simp add: queued_def)

lemma pipe_empty: "queued p = [] \<longleftrightarrow> nread p = nwrite p"
  using length_queued [of p] by (auto simp: unat_eq_0)

lemma pipe_full:
  assumes "pipe_wf p" shows "nwrite p = nread p + of_nat PIPESIZE \<longleftrightarrow> length (queued p) = PIPESIZE"
proof -
  have "unat (nwrite p - nread p) = PIPESIZE \<longleftrightarrow> nwrite p - nread p = of_nat PIPESIZE"
    by (simp add: word_unat_eq_iff layout_defs)
  then show ?thesis by (auto simp: length_queued algebra_simps diff_eq_eq)
qed

text \<open>Positions are taken modulo a divisor of \<open>2 ^ 32\<close>, so the wrap of the counters does not show.\<close>

lemma slot_add: "unat (r + of_nat k :: u32) mod PIPESIZE = (unat r + k) mod PIPESIZE"
proof -
  have "unat (r + of_nat k :: u32) = (unat r + k) mod 2 ^ 32" by (simp add: unat_word_ariths unat_of_nat mod_simps)
  moreover have "PIPESIZE dvd 2 ^ 32" by (simp add: layout_defs)
  ultimately show ?thesis by (simp only: mod_mod_cancel)
qed

lemma slot_distinct:
  assumes "j < k" "k < PIPESIZE" shows "(r + j) mod PIPESIZE \<noteq> (r + k) mod PIPESIZE"
proof
  assume "(r + j) mod PIPESIZE = (r + k) mod PIPESIZE"
  then have "PIPESIZE dvd (r + k) - (r + j)" using assms(1) mod_eq_dvd_iff_nat [of "r + j" "r + k" PIPESIZE] by simp
  then show False using assms by (auto dest: dvd_imp_le)
qed

lemma put_byte:
  fixes c :: u8
  assumes w: "pipe_wf p" and f: "length (queued p) < PIPESIZE"
  defines "q \<equiv> p\<lparr>pdata := (pdata p)[unat (nwrite p) mod PIPESIZE := c], nwrite := nwrite p + 1\<rparr>"
  shows "pipe_wf q \<and> queued q = queued p @ [c]"
proof -
  let ?n = "unat (nwrite p - nread p)"
  have n: "?n < PIPESIZE" using f by (simp add: length_queued)
  have "nwrite q - nread q = (nwrite p - nread p) + 1" by (simp add: q_def)
  moreover have "unat ((nwrite p - nread p) + 1) = Suc ?n" using n by (subst unat_plus_simple [THEN iffD1]) (auto simp: word_le_nat_alt unat_word_ariths layout_defs)
  ultimately have n': "unat (nwrite q - nread q) = Suc ?n" by metis
  have w1: "nwrite p = nread p + of_nat ?n" by simp
  have s: "unat (nwrite p) mod PIPESIZE = (unat (nread p) + ?n) mod PIPESIZE" using slot_add [of "nread p" ?n] by simp
  have L: "length (pdata p) = PIPESIZE" "0 < PIPESIZE" using w by (simp_all add: pipe_wf_def layout_defs)
  have "queued q ! k = (queued p @ [c]) ! k" if "k < Suc ?n" for k
  proof (cases "k = ?n")
    case True
    then show ?thesis using s L n' by (simp add: queued_def nth_append) (simp add: q_def slot_add)
  next
    case False
    then have k: "k < ?n" using that by simp
    then have "(unat (nread p) + k) mod PIPESIZE \<noteq> (unat (nread p) + ?n) mod PIPESIZE" using slot_distinct [OF k n] by simp
    then show ?thesis using k n' s by (simp add: queued_def nth_append) (simp add: q_def slot_add)
  qed
  then have "queued q = queued p @ [c]" by (intro nth_equalityI) (simp_all add: length_queued n')
  moreover have "pipe_wf q" using w n n' by (simp add: pipe_wf_def) (simp add: q_def)
  ultimately show ?thesis by simp
qed

lemma get_byte:
  assumes w: "pipe_wf p" and ne: "nread p \<noteq> nwrite p"
  shows "pipe_wf (p\<lparr>nread := nread p + 1\<rparr>) \<and>
    queued p = pdata p ! (unat (nread p) mod PIPESIZE) # queued (p\<lparr>nread := nread p + 1\<rparr>)"
proof -
  let ?q = "p\<lparr>nread := nread p + 1\<rparr>" let ?n = "unat (nwrite p - nread p)"
  have "nwrite p - nread p \<noteq> 0" using ne by simp
  then have n: "0 < ?n" by (simp add: unat_gt_0)
  have "nwrite ?q - nread ?q = (nwrite p - nread p) - 1" by simp
  moreover have "unat ((nwrite p - nread p) - 1) = ?n - 1" by (rule unat_minus_one) fact
  ultimately have n': "unat (nwrite ?q - nread ?q) = ?n - 1" by metis
  have "[0..<?n] = 0 # map Suc [0..<?n - 1]" using n by (simp add: upt_conv_Cons map_Suc_upt)
  then have "queued p = pdata p ! (unat (nread p) mod PIPESIZE) # map (\<lambda>k. pdata p ! (unat (nread p + of_nat (Suc k)) mod PIPESIZE)) [0..<?n - 1]"
    by (simp add: queued_def o_def)
  moreover have "queued ?q = map (\<lambda>k. pdata p ! (unat (nread p + of_nat (Suc k)) mod PIPESIZE)) [0..<?n - 1]"
    unfolding queued_def n' by (simp add: algebra_simps)
  moreover have "pipe_wf ?q" using w n' by (auto simp: pipe_wf_def)
  ultimately show ?thesis by simp
qed


subsection \<open>Turns\<close>

lemma pipewrite_loop_queue:
  assumes "pipe_wf p" "pipewrite_loop kill cs p = (q, r)"
  shows "let k = min (length cs) (PIPESIZE - length (queued p)) in
    pipe_wf q \<and> queued q = queued p @ take k cs \<and> readopen q = readopen p \<and> writeopen q = writeopen p \<and> nread q = nread p \<and>
    r = (if k = length cs then Some [] else if \<not> readopen p \<or> kill then None else Some (drop k cs))"
  using assms
proof (induction kill cs p rule: pipewrite_loop.induct)
  case (1 kill p)
  then show ?case by auto
next
  case (2 kill c cs p)
  show ?case
  proof (cases "nwrite p = nread p + of_nat PIPESIZE")
    case True
    then have "length (queued p) = PIPESIZE" using pipe_full [OF "2.prems"(1)] by simp
    then show ?thesis using "2.prems" True by (auto simp: Let_def split: if_splits)
  next
    case False
    let ?p = "p\<lparr>pdata := (pdata p)[unat (nwrite p) mod PIPESIZE := c], nwrite := nwrite p + 1\<rparr>"
    have "length (queued p) \<noteq> PIPESIZE" using False pipe_full [OF "2.prems"(1)] by simp
    then have lt: "length (queued p) < PIPESIZE" using "2.prems"(1) by (simp add: pipe_wf_def length_queued)
    note pb = put_byte [OF "2.prems"(1) lt, of c]
    have s: "pipewrite_loop kill cs ?p = (q, r)" using "2.prems"(2) False by simp
    have IH: "let k = min (length cs) (PIPESIZE - length (queued ?p)) in
      pipe_wf q \<and> queued q = queued ?p @ take k cs \<and> readopen q = readopen ?p \<and> writeopen q = writeopen ?p \<and> nread q = nread ?p \<and>
      r = (if k = length cs then Some [] else if \<not> readopen ?p \<or> kill then None else Some (drop k cs))"
      by (rule "2.IH" [OF False _ s]) (use pb in simp)
    define k where "k = min (length cs) (PIPESIZE - length (queued ?p))"
    have k: "min (length (c # cs)) (PIPESIZE - length (queued p)) = Suc k" using pb lt by (auto simp: k_def min_def)
    have q: "queued ?p = queued p @ [c]" using pb by simp
    show ?thesis using IH unfolding k Let_def k_def [symmetric] unfolding q by auto
  qed
qed

lemma piperead_loop_queue:
  assumes "pipe_wf p" "piperead_loop n p = (q, cs)"
  shows "pipe_wf q \<and> cs = take n (queued p) \<and> queued q = drop n (queued p) \<and> readopen q = readopen p \<and> writeopen q = writeopen p \<and>
    nwrite q = nwrite p"
  using assms
proof (induction n p arbitrary: q cs rule: piperead_loop.induct)
  case (1 p)
  then show ?case by simp
next
  case (2 n p)
  show ?case
  proof (cases "nread p = nwrite p")
    case True
    then have "queued p = []" by (simp add: pipe_empty)
    then show ?thesis using "2.prems" True by auto
  next
    case False
    note gb = get_byte [OF "2.prems"(1) False]
    obtain ds where ds: "piperead_loop n (p\<lparr>nread := nread p + 1\<rparr>) = (q, ds)" "cs = pdata p ! (unat (nread p) mod PIPESIZE) # ds"
      using "2.prems"(2) False by (auto simp: Let_def split: prod.splits)
    show ?thesis using "2.IH" [OF False refl _ ds(1)] gb ds(2) by simp
  qed
qed

text \<open>
  All turns of readers and writers on one pipe, in any order: \<open>pipe_run p put got\<close>
  relates a reachable pipe to the bytes writers have put into it and the bytes
  readers have taken out.
\<close>

inductive pipe_run :: "pipe \<Rightarrow> u8 list \<Rightarrow> u8 list \<Rightarrow> bool" where
  opened: "length d = PIPESIZE \<Longrightarrow> pipe_run (pipe_init d) [] []"
| wrote: "pipe_run p put got \<Longrightarrow> pipewrite (int (length cs)) kill cs p = (q, r) \<Longrightarrow>
    pipe_run q (put @ take (unat (nwrite q - nwrite p)) cs) got"
| read: "pipe_run p put got \<Longrightarrow> piperead n kill p = (q, r, cs) \<Longrightarrow> pipe_run q put (got @ cs)"
| closed: "pipe_run p put got \<Longrightarrow> pipeclose p w = Some q \<Longrightarrow> pipe_run q put got"

lemma written_count:
  assumes "pipe_wf p" "pipe_wf q" "queued q = queued p @ xs" "nread q = nread p"
  shows "unat (nwrite q - nwrite p) = length xs"
proof -
  have l: "unat (nwrite q - nread p) = unat (nwrite p - nread p) + length xs"
    using arg_cong [OF assms(3), of length] assms(4) by (simp add: length_queued)
  have "nwrite q - nwrite p = (nwrite q - nread p) - (nwrite p - nread p)" by simp
  then show ?thesis using l by (metis add_diff_cancel_left' le_add1 unat_sub word_le_nat_alt)
qed

lemma pipewrite_queue:
  assumes w: "pipe_wf p" and t: "pipewrite (int (length cs)) kill cs p = (q, r)"
  defines "k \<equiv> min (length cs) (PIPESIZE - length (queued p))"
  shows "pipe_wf q \<and> queued q = queued p @ take k cs \<and> unat (nwrite q - nwrite p) = k \<and>
    r = (if k = length cs then Returns (int (length cs)) else if \<not> readopen p \<or> kill then Returns (-1) else Asleep (drop k cs))"
proof -
  obtain x where x: "pipewrite_loop kill cs p = (q, x)" "r = (case x of None \<Rightarrow> Returns (-1) | Some [] \<Rightarrow> Returns (int (length cs)) | Some rest \<Rightarrow> Asleep rest)"
    using t by (auto simp: pipewrite_def split: prod.splits option.splits list.splits)
  note a = pipewrite_loop_queue [OF w x(1), folded k_def, unfolded Let_def]
  have "unat (nwrite q - nwrite p) = k" using written_count [OF w, of q "take k cs"] a by (simp add: k_def)
  moreover have "drop k cs \<noteq> []" if "k \<noteq> length cs" using that by (simp add: k_def)
  ultimately show ?thesis using a x(2) by (auto split: list.splits if_splits)
qed

lemma piperead_queue:
  assumes w: "pipe_wf p" and t: "piperead n kill p = (q, r, cs)"
  shows "pipe_wf q \<and> queued p = cs @ queued q \<and>
    (case r of Asleep u \<Rightarrow> queued p = [] \<and> writeopen p \<and> \<not> kill
     | Returns v \<Rightarrow> if queued p = [] \<and> writeopen p then kill \<and> v = -1 else cs = take n (queued p) \<and> v = int (length cs))"
proof (cases "queued p = [] \<and> writeopen p")
  case True
  then show ?thesis using t w by (auto simp: piperead_def pipe_empty split: if_splits)
next
  case False
  then have "piperead_loop n p = (q, cs)" "r = Returns (int (length cs))" using t by (auto simp: piperead_def pipe_empty split: prod.splits if_splits)
  then show ?thesis using piperead_loop_queue [OF w, of n q cs] False by auto
qed

lemma pipe_init_wf: "length d = PIPESIZE \<Longrightarrow> pipe_wf (pipe_init d) \<and> queued (pipe_init d) = []"
  by (simp add: pipe_wf_def pipe_init_def queued_def)

lemma pipeclose_queue: "pipeclose p w = Some q \<Longrightarrow> pipe_wf q = pipe_wf p \<and> queued q = queued p"
  by (auto simp: pipeclose_def Let_def pipe_wf_def queued_def split: if_splits)

lemma pipe_run_queue:
  "pipe_run p put got \<Longrightarrow> pipe_wf p \<and> put = got @ queued p"
proof (induction rule: pipe_run.induct)
  case (opened d)
  then show ?case using pipe_init_wf by simp
next
  case (wrote p put got cs kill q r)
  then show ?case using pipewrite_queue [of p cs kill q r] by simp
next
  case (read p put got n kill q r cs)
  then show ?case using piperead_queue [of p n kill q r cs] by simp
next
  case (closed p put got w q)
  then show ?case using pipeclose_queue by simp
qed

text \<open>
  C25: A pipe is a bounded queue of bytes, under every interleaving of readers
  and writers and across the wrap of its 32-bit counters.  The bytes written
  are the bytes read so far followed by the bytes queued, of which there are
  at most \<^verbatim>\<open>PIPESIZE\<close>: nothing is lost, duplicated or reordered.  The next
  turn of a writer enters as many bytes as fit and returns the full count
  exactly when all fit, otherwise it fails if the read end is closed or the
  process killed, and sleeps if not.  The next turn of a reader takes the
  oldest bytes, sleeps or fails only if there are none and the write end is
  open.
\<close>

theorem pipe_fifo:
  assumes "pipe_run p put got"
  shows "put = got @ queued p \<and> length (queued p) \<le> PIPESIZE \<and>
    (\<forall>cs kill q r. pipewrite (int (length cs)) kill cs p = (q, r) \<longrightarrow>
      (let k = min (length cs) (PIPESIZE - length (queued p)) in queued q = queued p @ take k cs \<and>
        r = (if k = length cs then Returns (int (length cs)) else if \<not> readopen p \<or> kill then Returns (-1) else Asleep (drop k cs)))) \<and>
    (\<forall>n kill q r cs. piperead n kill p = (q, r, cs) \<longrightarrow> queued p = cs @ queued q \<and>
      (case r of Asleep u \<Rightarrow> queued p = [] \<and> writeopen p \<and> \<not> kill
       | Returns v \<Rightarrow> if queued p = [] \<and> writeopen p then kill \<and> v = -1 else cs = take n (queued p) \<and> v = int (length cs)))"
proof -
  have w: "pipe_wf p" and h: "put = got @ queued p" using pipe_run_queue [OF assms] by auto
  have "length (queued p) \<le> PIPESIZE" using w by (simp add: pipe_wf_def length_queued)
  moreover have "let k = min (length cs) (PIPESIZE - length (queued p)) in queued q = queued p @ take k cs \<and>
        r = (if k = length cs then Returns (int (length cs)) else if \<not> readopen p \<or> kill then Returns (-1) else Asleep (drop k cs))"
    if "pipewrite (int (length cs)) kill cs p = (q, r)" for cs kill q r
    unfolding Let_def using pipewrite_queue [OF w that] by blast
  moreover have "queued p = cs @ queued q \<and> (case r of Asleep u \<Rightarrow> queued p = [] \<and> writeopen p \<and> \<not> kill
       | Returns v \<Rightarrow> if queued p = [] \<and> writeopen p then kill \<and> v = -1 else cs = take n (queued p) \<and> v = int (length cs))"
    if "piperead n kill p = (q, r, cs)" for n kill q r cs
    using piperead_queue [OF w that] by (rule conjunct2)
  ultimately show ?thesis using h by (intro conjI allI impI) blast+
qed

theorem pipe_fifo_witness:
  "\<exists>p. pipe_run p [1, 2, 3] [1, 2] \<and> queued p = [3]"
proof -
  let ?p = "pipe_init (replicate PIPESIZE 0)"
  have 0: "pipe_run ?p [] []" by (rule opened) simp
  obtain q r where q: "pipewrite (int (length [1 :: u8, 2, 3])) False [1, 2, 3] ?p = (q, r)" by fastforce
  note w = pipewrite_queue [OF _ q] pipe_init_wf [of "replicate PIPESIZE 0"]
  have k: "unat (nwrite q - nwrite ?p) = 3" "queued q = [1, 2, 3]" "pipe_wf q" using w by (simp_all add: layout_defs)
  have 1: "pipe_run q [1, 2, 3] []" using wrote [OF 0 q] k(1) by simp
  obtain u x cs where u: "piperead 2 False q = (u, x, cs)" by (cases "piperead 2 False q") auto
  have "cs = [1, 2]" using piperead_queue [OF k(3) u] k(2) by (cases x) (simp_all split: if_splits)
  then have 2: "pipe_run u [1, 2, 3] [1, 2]" using read [OF 1 u] by simp
  from pipe_fifo [OF this] have "queued u = [3]" by simp
  with 2 show ?thesis by blast
qed

end
