(* ===== verification/File.thy ===== *)
theory File
  imports Fs Kalloc Pipe
begin

text \<open>
  Open files, \<^verbatim>\<open>file.c\<close>, and the part of \<^verbatim>\<open>pipe.c\<close> that deals with them.
  The state extends the file system by \<^verbatim>\<open>ftable\<close>, the pipes and the page
  allocator.  A \<^verbatim>\<open>struct file *\<close> is an index into \<open>files\<close>.  A pipe is an object
  at the address of its page: \<open>pipes\<close> maps the addresses of pipes to them.
  \<open>is_killed\<close> is \<^verbatim>\<open>myproc()->killed\<close>.

  A call that puts the process to sleep has the outcome \<open>Wait\<close>; what pipes do
  across sleeps is the subject of \<open>Pipe\<close>.
\<close>


datatype fdtype = FD_NONE | FD_PIPE | FD_INODE

record kfile =
  ftype :: fdtype
  fref :: int
  freadable :: bool
  fwritable :: bool
  fpipe :: u32
  fip :: nat
  foff :: u32

record kstate = fstate +
  files :: "kfile list"
  pipes :: "u32 \<Rightarrow> pipe option"
  pages :: kmem
  is_killed :: bool

abbreviation set_file :: "nat \<Rightarrow> (kfile \<Rightarrow> kfile) \<Rightarrow> 'a kstate_scheme \<Rightarrow> 'a kstate_scheme" where
  "set_file f g s \<equiv> s\<lparr>files := upd_at f g (files s)\<rparr>"

subsection \<open>The file table\<close>

definition filealloc :: "'a kstate_scheme \<Rightarrow> 'a kstate_scheme \<times> nat option" where
  "filealloc s =
     (case find_index (\<lambda>f. fref f = 0) (files s) of
        Some i \<Rightarrow> (set_file i (\<lambda>f. f\<lparr>fref := 1\<rparr>) s, Some i)
      | None \<Rightarrow> (s, None))"

definition filedup :: "nat \<Rightarrow> 'a kstate_scheme \<Rightarrow> 'a kstate_scheme outcome" where
  "filedup i s =
     (if fref (files s ! i) < 1 then Panic ''filedup''
      else Done (set_file i (\<lambda>f. f\<lparr>fref := fref f + 1\<rparr>) s))"

text \<open>\<^verbatim>\<open>pipeclose\<close> on the pipe at \<open>a\<close>.\<close>

definition close_pipe :: "u32 \<Rightarrow> u32 \<Rightarrow> bool \<Rightarrow> 'a kstate_scheme \<Rightarrow> 'a kstate_scheme outcome" where
  "close_pipe ke a writable s =
     (case pipes s a of
        None \<Rightarrow> Fault
      | Some p \<Rightarrow>
          (case pipeclose p writable of
             Some q \<Rightarrow> Done (s\<lparr>pipes := (pipes s)(a \<mapsto> q)\<rparr>)
           | None \<Rightarrow> and_then (kfree ke (pages s) a) (\<lambda>k. Done (s\<lparr>pipes := (pipes s)(a := None), pages := k\<rparr>))))"

definition fileclose :: "u32 \<Rightarrow> nat \<Rightarrow> 'a kstate_scheme \<Rightarrow> 'a kstate_scheme outcome" where
  "fileclose ke i s =
     (if fref (files s ! i) < 1 then Panic ''fileclose''
      else let s = set_file i (\<lambda>f. f\<lparr>fref := fref f - 1\<rparr>) s in
        if fref (files s ! i) > 0 then Done s
        else let ff = files s ! i; s = set_file i (\<lambda>f. f\<lparr>ftype := FD_NONE, fref := 0\<rparr>) s in
          case ftype ff of
            FD_PIPE \<Rightarrow> close_pipe ke (fpipe ff) (fwritable ff) s
          | FD_INODE \<Rightarrow> and_then (begin_op s) (\<lambda>s. and_then (iput (fip ff) s) end_op)
          | FD_NONE \<Rightarrow> Done s)"

definition filestat :: "nat \<Rightarrow> 'a kstate_scheme \<Rightarrow> ('a kstate_scheme \<times> stat option) outcome" where
  "filestat i s =
     (let f = files s ! i in
      if ftype f = FD_INODE
      then and_then (ilock (fip f) s) (\<lambda>s.
           let st = stati (fip f) s in
           and_then (iunlock (fip f) s) (\<lambda>s. Done (s, Some st)))
      else Done (s, None))"

text \<open>Reading returns the result and the bytes for the caller's buffer.\<close>

definition read_pipe :: "u32 \<Rightarrow> nat \<Rightarrow> 'a kstate_scheme \<Rightarrow> ('a kstate_scheme \<times> int \<times> u8 list) outcome" where
  "read_pipe a n s =
     (case pipes s a of
        None \<Rightarrow> Fault
      | Some p \<Rightarrow>
          (case piperead n (is_killed s) p of
             (q, Returns r, cs) \<Rightarrow> Done (s\<lparr>pipes := (pipes s)(a \<mapsto> q)\<rparr>, r, cs)
           | (q, Asleep u, cs) \<Rightarrow> Wait))"

definition fileread :: "'a kstate_scheme devsw \<Rightarrow> nat \<Rightarrow> nat \<Rightarrow> 'a kstate_scheme \<Rightarrow> ('a kstate_scheme \<times> int \<times> u8 list) outcome" where
  "fileread dv i n s =
     (let f = files s ! i in
      if \<not> freadable f then Done (s, -1, [])
      else case ftype f of
        FD_PIPE \<Rightarrow> read_pipe (fpipe f) n s
      | FD_INODE \<Rightarrow>
          and_then (ilock (fip f) s) (\<lambda>s.
          and_then (readi dv (fip f) (foff f) (of_nat n) s) (\<lambda>(s, r, cs).
          let s = (if r > 0 then set_file i (\<lambda>f. f\<lparr>foff := foff f + word_of_int r\<rparr>) s else s) in
          and_then (iunlock (fip f) s) (\<lambda>s. Done (s, r, cs))))
      | FD_NONE \<Rightarrow> Panic ''fileread'')"

definition write_pipe :: "u32 \<Rightarrow> u8 list \<Rightarrow> 'a kstate_scheme \<Rightarrow> ('a kstate_scheme \<times> int) outcome" where
  "write_pipe a cs s =
     (case pipes s a of
        None \<Rightarrow> Fault
      | Some p \<Rightarrow>
          (case pipewrite (int (length cs)) (is_killed s) cs p of
             (q, Returns r) \<Rightarrow> Done (s\<lparr>pipes := (pipes s)(a \<mapsto> q)\<rparr>, r)
           | (q, Asleep rest) \<Rightarrow> Wait))"

definition filewrite_max :: nat where [layout_defs]: "filewrite_max = ((MAXOPBLOCKS - 1 - 1 - 2) div 2) * 512"

text \<open>The loop of \<^verbatim>\<open>filewrite\<close>: \<open>cs\<close> is what is left to write; the result tells whether all of it was.\<close>

function filewrite_loop :: "'a kstate_scheme devsw \<Rightarrow> nat \<Rightarrow> u8 list \<Rightarrow> 'a kstate_scheme \<Rightarrow> ('a kstate_scheme \<times> bool) outcome" where
  "filewrite_loop dv i cs s =
     (if cs = [] then Done (s, True)
      else let n1 = min (length cs) filewrite_max; ip = fip (files s ! i) in
        and_then (begin_op s) (\<lambda>s.
        and_then (ilock ip s) (\<lambda>s.
        and_then (writei dv ip (take n1 cs) (foff (files s ! i)) (of_nat n1) s) (\<lambda>(s, r).
        let s = (if r > 0 then set_file i (\<lambda>f. f\<lparr>foff := foff f + word_of_int r\<rparr>) s else s) in
        and_then (iunlock ip s) (\<lambda>s.
        and_then (end_op s) (\<lambda>s.
        if r < 0 then Done (s, False)
        else if r \<noteq> int n1 then Panic ''short filewrite''
        else filewrite_loop dv i (drop n1 cs) s))))))"
  by pat_completeness auto
termination by (relation "measure (\<lambda>(dv, i, cs, s). length cs)") (auto simp: layout_defs)

declare filewrite_loop.simps [simp del]

definition filewrite :: "'a kstate_scheme devsw \<Rightarrow> nat \<Rightarrow> u8 list \<Rightarrow> 'a kstate_scheme \<Rightarrow> ('a kstate_scheme \<times> int) outcome" where
  "filewrite dv i cs s =
     (let f = files s ! i in
      if \<not> fwritable f then Done (s, -1)
      else case ftype f of
        FD_PIPE \<Rightarrow> write_pipe (fpipe f) cs s
      | FD_INODE \<Rightarrow> and_then (filewrite_loop dv i cs s) (\<lambda>(s, all). Done (s, if all then int (length cs) else -1))
      | FD_NONE \<Rightarrow> Panic ''filewrite'')"

subsection \<open>Making a pipe\<close>

text \<open>
  \<^verbatim>\<open>pipealloc\<close>: the two files, or \<open>None\<close> on failure.  The page holds
  arbitrary bytes; the pipe's buffer starts after its lock, which takes 52
  bytes.
\<close>

definition pipe_bytes :: "kmem \<Rightarrow> u32 \<Rightarrow> u8 list" where
  "pipe_bytes k a = map (bytes_at (kmem_mem k) (a + 52)) [0..<PIPESIZE]"

definition pipealloc :: "u32 \<Rightarrow> 'a kstate_scheme \<Rightarrow> ('a kstate_scheme \<times> (nat \<times> nat) option) outcome" where
  "pipealloc ke s =
     (case filealloc s of
        (s, None) \<Rightarrow> Done (s, None)
      | (s, Some f0) \<Rightarrow>
          (case filealloc s of
             (s, None) \<Rightarrow> and_then (fileclose ke f0 s) (\<lambda>s. Done (s, None))
           | (s, Some f1) \<Rightarrow>
               (let (k, a) = kalloc (pages s); s = s\<lparr>pages := k\<rparr> in
                if a = 0
                then and_then (fileclose ke f0 s) (\<lambda>s. and_then (fileclose ke f1 s) (\<lambda>s. Done (s, None)))
                else let s = s\<lparr>pipes := (pipes s)(a \<mapsto> pipe_init (pipe_bytes k a))\<rparr>;
                         s = set_file f0 (\<lambda>f. f\<lparr>ftype := FD_PIPE, freadable := True, fwritable := False, fpipe := a\<rparr>) s;
                         s = set_file f1 (\<lambda>f. f\<lparr>ftype := FD_PIPE, freadable := False, fwritable := True, fpipe := a\<rparr>) s
                     in Done (s, Some (f0, f1)))))"

end
