(* ===== verification/Syscall_Args.thy ===== *)
theory Syscall_Args
  imports Cstring
begin

text \<open>
  System call arguments, \<^verbatim>\<open>syscall.c\<close>: the kernel reads them from user
  memory, which it shares the address space with, and has to check every
  address before it uses it.  \<open>m\<close> is memory as the current process sees it;
  a page that is not there yet is made by the page fault handler and reads as
  zeros.  \<open>None\<close> stands for the return value \<open>-1\<close>.
\<close>

definition fetchint :: "mem \<Rightarrow> u32 \<Rightarrow> u32 option" where
  "fetchint m addr = (if addr \<ge> KERNBASE \<or> addr + 4 > KERNBASE then None else Some (load32 m addr))"

text \<open>The loop of \<^verbatim>\<open>fetchstr\<close> from \<open>s\<close> on: the characters up to the NUL.\<close>

function fetchstr_loop :: "mem \<Rightarrow> u32 \<Rightarrow> u8 list option" where
  "fetchstr_loop m s =
     (if s < KERNBASE
      then if m s = 0 then Some [] else map_option (Cons (m s)) (fetchstr_loop m (s + 1))
      else None)"
  by pat_completeness auto
termination
proof (relation "measure (\<lambda>(m, s). 4294967296 - unat s)")
  fix m :: mem and s :: u32
  assume "s < KERNBASE"
  then have "unat s < 2147483648" by (simp add: word_less_nat_alt KERNBASE_def)
  then show "((m, s + 1), m, s) \<in> measure (\<lambda>(m, s). 4294967296 - unat s)"
    using unat_add_32 [of s 1] by simp
qed simp

declare fetchstr_loop.simps [simp del]

definition fetchstr :: "mem \<Rightarrow> u32 \<Rightarrow> (u32 \<times> u8 list) option" where
  "fetchstr m addr = (if addr \<ge> KERNBASE then None else map_option (Pair addr) (fetchstr_loop m addr))"

definition argint :: "mem \<Rightarrow> u32 \<Rightarrow> nat \<Rightarrow> u32 option" where
  "argint m esp n = fetchint m (esp + 4 + 4 * of_nat n)"

definition argptr :: "mem \<Rightarrow> u32 \<Rightarrow> nat \<Rightarrow> int \<Rightarrow> u32 option" where
  "argptr m esp n len =
     (case argint m esp n of
        None \<Rightarrow> None
      | Some i \<Rightarrow> if len < 0 \<or> i \<ge> KERNBASE \<or> i + word_of_int len > KERNBASE then None else Some i)"

definition argstr :: "mem \<Rightarrow> u32 \<Rightarrow> nat \<Rightarrow> (u32 \<times> u8 list) option" where
  "argstr m esp n = (case argint m esp n of None \<Rightarrow> None | Some a \<Rightarrow> fetchstr m a)"


subsection \<open>Nothing above \<^verbatim>\<open>KERNBASE\<close> is read or accepted\<close>

definition same_user :: "mem \<Rightarrow> mem \<Rightarrow> bool" where
  "same_user m m' \<longleftrightarrow> (\<forall>a<KERNBASE. m a = m' a)"

lemma fetchint_user:
  assumes "same_user m m'" shows "fetchint m a = fetchint m' a"
proof (cases "a \<ge> KERNBASE \<or> a + 4 > KERNBASE")
  case False
  then have a: "unat a < 2147483648" "unat (a + 4) \<le> 2147483648"
    by (auto simp: word_le_nat_alt word_less_nat_alt KERNBASE_def)
  have "unat (a + 4) = unat a + 4" using unat_add_32 [of a 4] a(1) by simp
  then have "a < KERNBASE" "a + 1 < KERNBASE" "a + 2 < KERNBASE" "a + 3 < KERNBASE"
    using a unat_add_32 [of a 1] unat_add_32 [of a 2] unat_add_32 [of a 3] by (auto simp: word_less_nat_alt KERNBASE_def)
  then show ?thesis using assms by (simp add: fetchint_def load32_def same_user_def)
qed (simp add: fetchint_def)

lemma fetchstr_loop_user: "same_user m m' \<Longrightarrow> fetchstr_loop m s = fetchstr_loop m' s"
proof (induction m s rule: fetchstr_loop.induct)
  case (1 m s)
  then show ?case by (subst (1 2) fetchstr_loop.simps) (auto simp: same_user_def)
qed

lemma fetchstr_loop_string:
  "fetchstr_loop m s = Some cs \<Longrightarrow> unat s + length cs < unat KERNBASE \<and> 0 \<notin> set cs \<and>
     (\<forall>k<length cs. cs ! k = m (s + of_nat k)) \<and> m (s + of_nat (length cs)) = 0"
proof (induction m s arbitrary: cs rule: fetchstr_loop.induct)
  case (1 m s)
  show ?case
  proof (cases "s < KERNBASE")
    case True
    then have s: "unat s < unat KERNBASE" "unat s < 2147483648" by (simp_all add: word_less_nat_alt KERNBASE_def)
    show ?thesis
    proof (cases "m s = 0")
      case True
      then show ?thesis using "1.prems" s by (subst (asm) fetchstr_loop.simps) (auto simp: word_less_nat_alt split: if_splits)
    next
      case False
      obtain ds where d: "fetchstr_loop m (s + 1) = Some ds" "cs = m s # ds"
        using "1.prems" False True by (subst (asm) fetchstr_loop.simps) auto
      have IH: "unat (s + 1) + length ds < unat KERNBASE" "0 \<notin> set ds" "\<forall>k<length ds. ds ! k = m (s + 1 + of_nat k)"
        "m (s + 1 + of_nat (length ds)) = 0" using "1.IH" [OF True False d(1)] by auto
      have "unat (s + 1) = unat s + 1" using unat_add_32 [of s 1] s by simp
      moreover have "cs ! k = m (s + of_nat k)" if "k < length cs" for k
        using that IH(3) d(2) by (cases k) (auto simp: algebra_simps)
      ultimately show ?thesis using IH d(2) False by (auto simp: algebra_simps)
    qed
  next
    case False
    then show ?thesis using "1.prems" by (subst (asm) fetchstr_loop.simps) simp
  qed
qed

text \<open>
  C26: System call arguments come from user memory and point into user memory.
  \<^verbatim>\<open>argint\<close>, \<^verbatim>\<open>argptr\<close> and \<^verbatim>\<open>argstr\<close> give the same result for any two memories
  that agree below \<^verbatim>\<open>KERNBASE\<close>, so they read nothing of the kernel.  A block
  that \<^verbatim>\<open>argptr\<close> accepts, for any length an \<^verbatim>\<open>int\<close> can hold, and a string that
  \<^verbatim>\<open>argstr\<close> accepts lie entirely below \<^verbatim>\<open>KERNBASE\<close> and do not wrap around; the
  string is what is there up to the first NUL.
\<close>

theorem syscall_args_user_memory:
  assumes "len < 2 ^ 31"
  shows "(same_user m m' \<longrightarrow> argint m esp n = argint m' esp n \<and> argptr m esp n len = argptr m' esp n len \<and> argstr m esp n = argstr m' esp n) \<and>
    (argptr m esp n len = Some a \<longrightarrow> 0 \<le> len \<and> a < KERNBASE \<and> unat a + nat len \<le> unat KERNBASE) \<and>
    (argstr m esp n = Some (b, cs) \<longrightarrow> unat b + length cs < unat KERNBASE \<and> 0 \<notin> set cs \<and>
      (\<forall>k<length cs. cs ! k = m (b + of_nat k)) \<and> m (b + of_nat (length cs)) = 0)"
proof -
  have "argptr m esp n len = argptr m' esp n len" "argint m esp n = argint m' esp n" "argstr m esp n = argstr m' esp n" if "same_user m m'"
    using fetchint_user [OF that] fetchstr_loop_user [OF that] by (simp_all add: argptr_def argint_def argstr_def fetchstr_def split: option.split)
  moreover have "0 \<le> len \<and> a < KERNBASE \<and> unat a + nat len \<le> unat KERNBASE" if "argptr m esp n len = Some a"
  proof -
    have h: "0 \<le> len" "a < KERNBASE" "a + word_of_int len \<le> KERNBASE"
      using that by (auto simp: argptr_def not_le not_less split: option.splits if_splits)
    have l: "unat (word_of_int len :: u32) = nat len" using h(1) assms by (simp add: unat_eq_nat_uint uint_word_of_int)
    have "unat a < 2147483648" using h(2) by (simp add: word_less_nat_alt KERNBASE_def)
    then have "unat (a + word_of_int len) = unat a + nat len" using unat_add_32 [of a "word_of_int len"] l h(1) assms by simp
    then show ?thesis using h by (simp add: word_le_nat_alt)
  qed
  moreover have "unat b + length cs < unat KERNBASE \<and> 0 \<notin> set cs \<and> (\<forall>k<length cs. cs ! k = m (b + of_nat k)) \<and> m (b + of_nat (length cs)) = 0"
    if "argstr m esp n = Some (b, cs)"
    using that fetchstr_loop_string [of m b cs] by (auto simp: argstr_def fetchstr_def split: option.splits if_splits)
  ultimately show ?thesis by blast
qed

text \<open>A stack at address 1000 with a pointer to the string \<open>hi\<close> and a block of 8 bytes.\<close>

definition arg_demo :: mem where
  "arg_demo = (\<lambda>a. 0)(1004 := 0xD0, 1005 := 7, 1008 := 0xD8, 1009 := 7, 2000 := 104, 2001 := 105)"

theorem syscall_args_user_memory_witness:
  "argstr arg_demo 1000 0 = Some (2000, [104, 105]) \<and> argptr arg_demo 1000 1 8 = Some 2008 \<and> unat (2008 :: u32) + 8 \<le> unat KERNBASE"
proof -
  have "argint arg_demo 1000 0 = Some 2000" "argint arg_demo 1000 1 = Some 2008"
    by (simp_all add: argint_def fetchint_def arg_demo_def load32_def KERNBASE_def)
  moreover have "fetchstr_loop arg_demo 2000 = Some [104, 105]"
    by (subst fetchstr_loop.simps, subst fetchstr_loop.simps, subst fetchstr_loop.simps) (simp add: arg_demo_def KERNBASE_def)
  ultimately have "argstr arg_demo 1000 0 = Some (2000, [104, 105])" "argptr arg_demo 1000 1 8 = Some 2008"
    by (simp_all add: argstr_def argptr_def fetchstr_def KERNBASE_def)
  then show ?thesis using syscall_args_user_memory [of 8 arg_demo arg_demo 1000 1 2008 0 "[]"] by simp
qed

end
