(* ===== verification/Sysfile.thy ===== *)
theory Sysfile
  imports File Syscall_Args
begin

text \<open>
  The file system calls, \<^verbatim>\<open>sysfile.c\<close>.  The state adds what they use of the
  current process: its descriptor table \<open>ofiles\<close>, its working directory
  \<open>cwd_ip\<close>, its memory and its stack pointer.  Every call returns the value it
  leaves in \<^verbatim>\<open>eax\<close>.
\<close>

unbundle bit_operations_syntax

record ustate = kstate +
  ofiles :: "nat option list"
  cwd_ip :: nat
  umem :: mem
  uesp :: u32

abbreviation arg_int :: "nat \<Rightarrow> 'a ustate_scheme \<Rightarrow> u32 option" where
  "arg_int n s \<equiv> argint (umem s) (uesp s) n"

abbreviation arg_str :: "nat \<Rightarrow> 'a ustate_scheme \<Rightarrow> u8 list option" where
  "arg_str n s \<equiv> map_option snd (argstr (umem s) (uesp s) n)"

abbreviation arg_ptr :: "nat \<Rightarrow> int \<Rightarrow> 'a ustate_scheme \<Rightarrow> u32 option" where
  "arg_ptr n len s \<equiv> argptr (umem s) (uesp s) n len"

text \<open>Bytes copied to a buffer in user memory.\<close>

definition put_user :: "u32 \<Rightarrow> u8 list \<Rightarrow> mem \<Rightarrow> mem" where
  "put_user a cs m = fold (\<lambda>k m. m(a + of_nat k := cs ! k)) [0..<length cs] m"

definition get_user :: "mem \<Rightarrow> u32 \<Rightarrow> nat \<Rightarrow> u8 list" where
  "get_user m a n = map (bytes_at m a) [0..<n]"

subsection \<open>Descriptors\<close>

definition argfd :: "nat \<Rightarrow> 'a ustate_scheme \<Rightarrow> (nat \<times> nat) option" where
  "argfd n s =
     (case arg_int n s of
        None \<Rightarrow> None
      | Some fd \<Rightarrow>
          if sint fd < 0 \<or> sint fd \<ge> int NOFILE then None
          else map_option (Pair (unat fd)) (ofiles s ! unat fd))"

definition fdalloc :: "nat \<Rightarrow> 'a ustate_scheme \<Rightarrow> 'a ustate_scheme \<times> int" where
  "fdalloc f s =
     (case find_index (\<lambda>e. e = None) (ofiles s) of
        Some fd \<Rightarrow> (s\<lparr>ofiles := (ofiles s)[fd := Some f]\<rparr>, int fd)
      | None \<Rightarrow> (s, -1))"

definition sys_dup :: "'a ustate_scheme \<Rightarrow> ('a ustate_scheme \<times> int) outcome" where
  "sys_dup s =
     (case argfd 0 s of
        None \<Rightarrow> Done (s, -1)
      | Some (_, f) \<Rightarrow>
          let (s, fd) = fdalloc f s in
          if fd < 0 then Done (s, -1)
          else and_then (filedup f s) (\<lambda>s. Done (s, fd)))"

definition sys_read :: "'a ustate_scheme devsw \<Rightarrow> 'a ustate_scheme \<Rightarrow> ('a ustate_scheme \<times> int) outcome" where
  "sys_read dv s =
     (case argfd 0 s of
        None \<Rightarrow> Done (s, -1)
      | Some (_, f) \<Rightarrow>
     (case arg_int 2 s of
        None \<Rightarrow> Done (s, -1)
      | Some n \<Rightarrow>
     (case arg_ptr 1 (sint n) s of
        None \<Rightarrow> Done (s, -1)
      | Some p \<Rightarrow>
          and_then (fileread dv f (nat (sint n)) s) (\<lambda>(s, r, cs).
          Done (s\<lparr>umem := put_user p cs (umem s)\<rparr>, r)))))"

definition sys_write :: "'a ustate_scheme devsw \<Rightarrow> 'a ustate_scheme \<Rightarrow> ('a ustate_scheme \<times> int) outcome" where
  "sys_write dv s =
     (case argfd 0 s of
        None \<Rightarrow> Done (s, -1)
      | Some (_, f) \<Rightarrow>
     (case arg_int 2 s of
        None \<Rightarrow> Done (s, -1)
      | Some n \<Rightarrow>
     (case arg_ptr 1 (sint n) s of
        None \<Rightarrow> Done (s, -1)
      | Some p \<Rightarrow> filewrite dv f (get_user (umem s) p (nat (sint n))) s)))"

definition sys_close :: "u32 \<Rightarrow> 'a ustate_scheme \<Rightarrow> ('a ustate_scheme \<times> int) outcome" where
  "sys_close ke s =
     (case argfd 0 s of
        None \<Rightarrow> Done (s, -1)
      | Some (fd, f) \<Rightarrow>
          and_then (fileclose ke f (s\<lparr>ofiles := (ofiles s)[fd := None]\<rparr>)) (\<lambda>s. Done (s, 0)))"

text \<open>\<^verbatim>\<open>struct stat\<close> in memory: \<^verbatim>\<open>short type; int dev; uint ino; short nlink; uint size\<close>.\<close>

definition stat_bytes :: "stat \<Rightarrow> u8 list" where
  "stat_bytes st = put32 (put16 (put32 (put32 (put16 (replicate 20 0) 0 (st_type st)) 4 (st_dev st)) 8 (st_ino st)) 12 (st_nlink st)) 16 (st_size st)"

definition sys_fstat :: "'a ustate_scheme \<Rightarrow> ('a ustate_scheme \<times> int) outcome" where
  "sys_fstat s =
     (case argfd 0 s of
        None \<Rightarrow> Done (s, -1)
      | Some (_, f) \<Rightarrow>
     (case arg_ptr 1 20 s of
        None \<Rightarrow> Done (s, -1)
      | Some p \<Rightarrow>
          and_then (filestat f s) (\<lambda>(s, st).
          case st of
            None \<Rightarrow> Done (s, -1)
          | Some st \<Rightarrow> Done (s\<lparr>umem := put_user p (stat_bytes st) (umem s)\<rparr>, 0))))"

subsection \<open>Names\<close>

text \<open>\<^verbatim>\<open>end_op(); return v;\<close>\<close>

definition leave :: "int \<Rightarrow> 'a ustate_scheme \<Rightarrow> ('a ustate_scheme \<times> int) outcome" where
  "leave v s = and_then (end_op s) (\<lambda>s. Done (s, v))"

definition link_bad :: "nat \<Rightarrow> 'a ustate_scheme \<Rightarrow> ('a ustate_scheme \<times> int) outcome" where
  "link_bad ip s =
     and_then (ilock ip s) (\<lambda>s.
     and_then (iupdate ip (set_inode ip (\<lambda>i. i\<lparr>inlink := inlink i - 1\<rparr>) s)) (\<lambda>s.
     and_then (iunlockput ip s) (leave (-1))))"

text \<open>\<^verbatim>\<open>sys_link\<close> with the inode of the old name and the directory of the new one.\<close>

definition link_into :: "'a ustate_scheme devsw \<Rightarrow> nat \<Rightarrow> nat \<Rightarrow> u8 list \<Rightarrow> 'a ustate_scheme \<Rightarrow> ('a ustate_scheme \<times> int) outcome" where
  "link_into dv ip dp name s =
     and_then (ilock dp s) (\<lambda>s.
     and_then
       (if idev (inodes s ! dp) \<noteq> idev (inodes s ! ip) then Done (s, -1)
        else dirlink dv dp name (inum (inodes s ! ip)) s) (\<lambda>(s, r).
     if r < 0 then and_then (iunlockput dp s) (link_bad ip)
     else and_then (iunlockput dp s) (\<lambda>s. and_then (iput ip s) (leave 0))))"

definition sys_link :: "'a ustate_scheme devsw \<Rightarrow> 'a ustate_scheme \<Rightarrow> ('a ustate_scheme \<times> int) outcome" where
  "sys_link dv s =
     (case (arg_str 0 s, arg_str 1 s) of
        (Some old, Some new) \<Rightarrow>
          and_then (begin_op s) (\<lambda>s.
          and_then (namei dv (cwd_ip s) old s) (\<lambda>(s, r).
          case r of
            None \<Rightarrow> leave (-1) s
          | Some ip \<Rightarrow>
              and_then (ilock ip s) (\<lambda>s.
              if itype (inodes s ! ip) = T_DIR then and_then (iunlockput ip s) (leave (-1))
              else
              and_then (iupdate ip (set_inode ip (\<lambda>i. i\<lparr>inlink := inlink i + 1\<rparr>) s)) (\<lambda>s.
              and_then (iunlock ip s) (\<lambda>s.
              and_then (nameiparent dv (cwd_ip s) new s) (\<lambda>(s, r).
              case r of
                None \<Rightarrow> link_bad ip s
              | Some (dp, name) \<Rightarrow> link_into dv ip dp name s))))))
      | _ \<Rightarrow> Done (s, -1))"

fun isdirempty_loop :: "'a fstate_scheme devsw \<Rightarrow> nat \<Rightarrow> nat list \<Rightarrow> 'a fstate_scheme \<Rightarrow> ('a fstate_scheme \<times> bool) outcome" where
  "isdirempty_loop dv dp [] s = Done (s, True)"
| "isdirempty_loop dv dp (off # offs) s =
     and_then (readi dv dp (of_nat off) (of_nat DIRENT_SIZE) s) (\<lambda>(s, r, bytes).
     if r \<noteq> int DIRENT_SIZE then Panic ''isdirempty: readi''
     else if de_inum (dirent_of bytes) \<noteq> 0 then Done (s, False)
     else isdirempty_loop dv dp offs s)"

definition isdirempty :: "'a fstate_scheme devsw \<Rightarrow> nat \<Rightarrow> 'a fstate_scheme \<Rightarrow> ('a fstate_scheme \<times> bool) outcome" where
  "isdirempty dv dp s = isdirempty_loop dv dp (drop 2 (dir_offsets (isize (inodes s ! dp)))) s"

definition dot :: "u8 list" where "dot = [46]"
definition dotdot :: "u8 list" where "dotdot = [46, 46]"

definition unlink_bad :: "nat \<Rightarrow> 'a ustate_scheme \<Rightarrow> ('a ustate_scheme \<times> int) outcome" where
  "unlink_bad dp s = and_then (iunlockput dp s) (leave (-1))"

text \<open>\<^verbatim>\<open>sys_unlink\<close> from the test of \<^verbatim>\<open>ip->nlink\<close> on: both inodes are locked.\<close>

definition unlink_entry :: "'a ustate_scheme devsw \<Rightarrow> nat \<Rightarrow> nat \<Rightarrow> u32 \<Rightarrow> 'a ustate_scheme \<Rightarrow> ('a ustate_scheme \<times> int) outcome" where
  "unlink_entry dv dp ip off s =
     (if sint (inlink (inodes s ! ip)) < 1 then Panic ''unlink: nlink < 1''
      else and_then (if itype (inodes s ! ip) = T_DIR then isdirempty dv ip s else Done (s, True)) (\<lambda>(s, empty).
      if \<not> empty then and_then (iunlockput ip s) (unlink_bad dp)
      else and_then (writei dv dp (replicate DIRENT_SIZE 0) off (of_nat DIRENT_SIZE) s) (\<lambda>(s, r).
      if r \<noteq> int DIRENT_SIZE then Panic ''unlink: writei''
      else and_then
        (if itype (inodes s ! ip) = T_DIR
         then iupdate dp (set_inode dp (\<lambda>i. i\<lparr>inlink := inlink i - 1\<rparr>) s) else Done s) (\<lambda>s.
      and_then (iunlockput dp s) (\<lambda>s.
      and_then (iupdate ip (set_inode ip (\<lambda>i. i\<lparr>inlink := inlink i - 1\<rparr>) s)) (\<lambda>s.
      and_then (iunlockput ip s) (leave 0)))))))"

definition sys_unlink :: "'a ustate_scheme devsw \<Rightarrow> 'a ustate_scheme \<Rightarrow> ('a ustate_scheme \<times> int) outcome" where
  "sys_unlink dv s =
     (case arg_str 0 s of
        None \<Rightarrow> Done (s, -1)
      | Some path \<Rightarrow>
          and_then (begin_op s) (\<lambda>s.
          and_then (nameiparent dv (cwd_ip s) path s) (\<lambda>(s, r).
          case r of
            None \<Rightarrow> leave (-1) s
          | Some (dp, name) \<Rightarrow>
              and_then (ilock dp s) (\<lambda>s.
              if namecmp name dot = 0 \<or> namecmp name dotdot = 0 then unlink_bad dp s
              else and_then (dirlookup dv dp name s) (\<lambda>(s, r).
              case r of
                None \<Rightarrow> unlink_bad dp s
              | Some (ip, off) \<Rightarrow> and_then (ilock ip s) (unlink_entry dv dp ip off))))))"

text \<open>\<^verbatim>\<open>create\<close> returns the locked inode.\<close>

definition create_new :: "'a fstate_scheme devsw \<Rightarrow> nat \<Rightarrow> u8 list \<Rightarrow> u16 \<Rightarrow> u16 \<Rightarrow> u16 \<Rightarrow> 'a fstate_scheme \<Rightarrow> ('a fstate_scheme \<times> nat option) outcome" where
  "create_new dv dp name ty major minor s =
     and_then (ialloc (idev (inodes s ! dp)) ty s) (\<lambda>(s, ip).
     and_then (ilock ip s) (\<lambda>s.
     and_then (iupdate ip (set_inode ip (\<lambda>i. i\<lparr>imajor := major, iminor := minor, inlink := 1\<rparr>) s)) (\<lambda>s.
     and_then
       (if ty = T_DIR
        then and_then (iupdate dp (set_inode dp (\<lambda>i. i\<lparr>inlink := inlink i + 1\<rparr>) s)) (\<lambda>s.
             and_then (dirlink dv ip dot (inum (inodes s ! ip)) s) (\<lambda>(s, r).
             if r < 0 then Panic ''create dots''
             else and_then (dirlink dv ip dotdot (inum (inodes s ! dp)) s) (\<lambda>(s, r).
             if r < 0 then Panic ''create dots'' else Done s)))
        else Done s) (\<lambda>s.
     and_then (dirlink dv dp name (inum (inodes s ! ip)) s) (\<lambda>(s, r).
     if r < 0 then Panic ''create: dirlink''
     else and_then (iunlockput dp s) (\<lambda>s. Done (s, Some ip)))))))"

definition create :: "'a fstate_scheme devsw \<Rightarrow> nat \<Rightarrow> u8 list \<Rightarrow> u16 \<Rightarrow> u16 \<Rightarrow> u16 \<Rightarrow> 'a fstate_scheme \<Rightarrow> ('a fstate_scheme \<times> nat option) outcome" where
  "create dv cwd path ty major minor s =
     and_then (nameiparent dv cwd path s) (\<lambda>(s, r).
     case r of
       None \<Rightarrow> Done (s, None)
     | Some (dp, name) \<Rightarrow>
         and_then (ilock dp s) (\<lambda>s.
         and_then (dirlookup dv dp name s) (\<lambda>(s, r).
         case r of
           Some (ip, off) \<Rightarrow>
             and_then (iunlockput dp s) (\<lambda>s.
             and_then (ilock ip s) (\<lambda>s.
             if ty = T_FILE \<and> itype (inodes s ! ip) = T_FILE then Done (s, Some ip)
             else and_then (iunlockput ip s) (\<lambda>s. Done (s, None))))
         | None \<Rightarrow> create_new dv dp name ty major minor s)))"

text \<open>The inode \<^verbatim>\<open>sys_open\<close> opens, locked.\<close>

definition open_inode :: "'a fstate_scheme devsw \<Rightarrow> nat \<Rightarrow> u8 list \<Rightarrow> u32 \<Rightarrow> 'a fstate_scheme \<Rightarrow> ('a fstate_scheme \<times> nat option) outcome" where
  "open_inode dv cwd path omode s =
     (if omode AND O_CREATE \<noteq> 0 then create dv cwd path T_FILE 0 0 s
      else and_then (namei dv cwd path s) (\<lambda>(s, r).
        case r of
          None \<Rightarrow> Done (s, None)
        | Some ip \<Rightarrow>
            and_then (ilock ip s) (\<lambda>s.
            if itype (inodes s ! ip) = T_DIR \<and> omode \<noteq> 0 then and_then (iunlockput ip s) (\<lambda>s. Done (s, None))
            else Done (s, Some ip))))"

text \<open>\<^verbatim>\<open>sys_open\<close> with the locked inode.\<close>

definition open_file :: "u32 \<Rightarrow> nat \<Rightarrow> u32 \<Rightarrow> 'a ustate_scheme \<Rightarrow> ('a ustate_scheme \<times> int) outcome" where
  "open_file ke ip omode s =
     (case filealloc s of
        (s, None) \<Rightarrow> and_then (iunlockput ip s) (leave (-1))
      | (s, Some f) \<Rightarrow>
          let (s, fd) = fdalloc f s in
          if fd < 0 then and_then (fileclose ke f s) (\<lambda>s. and_then (iunlockput ip s) (leave (-1)))
          else and_then (iunlock ip s) (\<lambda>s.
               and_then (end_op s) (\<lambda>s.
               Done (set_file f (\<lambda>x. x\<lparr>ftype := FD_INODE, freadable := omode AND O_WRONLY = 0,
                   fwritable := omode AND O_WRONLY \<noteq> 0 \<or> omode AND O_RDWR \<noteq> 0, fip := ip, foff := 0\<rparr>) s, fd))))"

definition sys_open :: "u32 \<Rightarrow> 'a ustate_scheme devsw \<Rightarrow> 'a ustate_scheme \<Rightarrow> ('a ustate_scheme \<times> int) outcome" where
  "sys_open ke dv s =
     (case (arg_str 0 s, arg_int 1 s) of
        (Some path, Some omode) \<Rightarrow>
          and_then (begin_op s) (\<lambda>s.
          and_then (open_inode dv (cwd_ip s) path omode s) (\<lambda>(s, r).
          case r of
            None \<Rightarrow> leave (-1) s
          | Some ip \<Rightarrow> open_file ke ip omode s))
      | _ \<Rightarrow> Done (s, -1))"

definition sys_mkdir :: "'a ustate_scheme devsw \<Rightarrow> 'a ustate_scheme \<Rightarrow> ('a ustate_scheme \<times> int) outcome" where
  "sys_mkdir dv s =
     and_then (begin_op s) (\<lambda>s.
     case arg_str 0 s of
       None \<Rightarrow> leave (-1) s
     | Some path \<Rightarrow>
         and_then (create dv (cwd_ip s) path T_DIR 0 0 s) (\<lambda>(s, r).
         case r of
           None \<Rightarrow> leave (-1) s
         | Some ip \<Rightarrow> and_then (iunlockput ip s) (leave 0)))"

definition sys_mknod :: "'a ustate_scheme devsw \<Rightarrow> 'a ustate_scheme \<Rightarrow> ('a ustate_scheme \<times> int) outcome" where
  "sys_mknod dv s =
     and_then (begin_op s) (\<lambda>s.
     case (arg_str 0 s, arg_int 1 s, arg_int 2 s) of
       (Some path, Some major, Some minor) \<Rightarrow>
         and_then (create dv (cwd_ip s) path T_DEV (ucast major) (ucast minor) s) (\<lambda>(s, r).
         case r of
           None \<Rightarrow> leave (-1) s
         | Some ip \<Rightarrow> and_then (iunlockput ip s) (leave 0))
     | _ \<Rightarrow> leave (-1) s)"

definition sys_chdir :: "'a ustate_scheme devsw \<Rightarrow> 'a ustate_scheme \<Rightarrow> ('a ustate_scheme \<times> int) outcome" where
  "sys_chdir dv s =
     and_then (begin_op s) (\<lambda>s.
     case arg_str 0 s of
       None \<Rightarrow> leave (-1) s
     | Some path \<Rightarrow>
         and_then (namei dv (cwd_ip s) path s) (\<lambda>(s, r).
         case r of
           None \<Rightarrow> leave (-1) s
         | Some ip \<Rightarrow>
             and_then (ilock ip s) (\<lambda>s.
             if itype (inodes s ! ip) \<noteq> T_DIR then and_then (iunlockput ip s) (leave (-1))
             else and_then (iunlock ip s) (\<lambda>s.
                  and_then (iput (cwd_ip s) s) (\<lambda>s.
                  and_then (end_op s) (\<lambda>s. Done (s\<lparr>cwd_ip := ip\<rparr>, 0)))))))"

definition word_bytes :: "u32 \<Rightarrow> u8 list" where
  "word_bytes w = put32 (replicate 4 0) 0 w"

text \<open>\<^verbatim>\<open>sys_pipe\<close> after \<^verbatim>\<open>pipealloc\<close>.\<close>

definition pipe_fds :: "u32 \<Rightarrow> u32 \<Rightarrow> nat \<Rightarrow> nat \<Rightarrow> 'a ustate_scheme \<Rightarrow> ('a ustate_scheme \<times> int) outcome" where
  "pipe_fds ke p rf wrf s =
     (let (s, fd0) = fdalloc rf s;
          (s, fd1) = (if fd0 < 0 then (s, -1) else fdalloc wrf s) in
      if fd0 < 0 \<or> fd1 < 0
      then let s = (if fd0 \<ge> 0 then s\<lparr>ofiles := (ofiles s)[nat fd0 := None]\<rparr> else s) in
           and_then (fileclose ke rf s) (\<lambda>s. and_then (fileclose ke wrf s) (\<lambda>s. Done (s, -1)))
      else Done (s\<lparr>umem := put_user p (word_bytes (word_of_int fd0) @ word_bytes (word_of_int fd1)) (umem s)\<rparr>, 0))"

definition sys_pipe :: "u32 \<Rightarrow> 'a ustate_scheme \<Rightarrow> ('a ustate_scheme \<times> int) outcome" where
  "sys_pipe ke s =
     (case arg_ptr 0 8 s of
        None \<Rightarrow> Done (s, -1)
      | Some p \<Rightarrow>
          and_then (pipealloc ke s) (\<lambda>(s, r).
          case r of
            None \<Rightarrow> Done (s, -1)
          | Some (rf, wrf) \<Rightarrow> pipe_fds ke p rf wrf s))"

subsection \<open>Files of a new and of an exiting process\<close>

text \<open>The part of \<^verbatim>\<open>fork\<close> that copies the descriptors; \<open>np\<close> is the child's table before.\<close>

definition fork_files :: "nat option list \<Rightarrow> 'a ustate_scheme \<Rightarrow> ('a ustate_scheme \<times> nat option list \<times> nat) outcome" where
  "fork_files np s =
     and_then (each (\<lambda>i s. case ofiles s ! i of None \<Rightarrow> Done s | Some f \<Rightarrow> filedup f s) [0..<NOFILE] s) (\<lambda>t.
     Done (idup (cwd_ip t) t, map (\<lambda>i. if ofiles s ! i \<noteq> None then ofiles s ! i else np ! i) [0..<NOFILE], cwd_ip t))"

text \<open>The part of \<^verbatim>\<open>exit\<close> before the process table is touched.\<close>

definition exit_files :: "u32 \<Rightarrow> 'a ustate_scheme \<Rightarrow> 'a ustate_scheme outcome" where
  "exit_files ke s =
     and_then (each (\<lambda>fd s.
         case ofiles s ! fd of
           None \<Rightarrow> Done s
         | Some f \<Rightarrow> and_then (fileclose ke f s) (\<lambda>s. Done (s\<lparr>ofiles := (ofiles s)[fd := None]\<rparr>)))
       [0..<NOFILE] s) (\<lambda>s.
     and_then (begin_op s) (\<lambda>s.
     and_then (iput (cwd_ip s) s) end_op))"

end
