(* ===== verification/File_Refs.thy ===== *)
theory File_Refs
  imports Fs_Refs Sysfile
begin

text \<open>
  Reference counting across the whole kernel: descriptors refer to open files,
  open files and working directories to inodes.  Every system call of
  \<^verbatim>\<open>sysfile.c\<close> keeps both kinds of counts equal to the number of
  references, on every path that returns.
\<close>

subsection \<open>Partial correctness\<close>

text \<open>\<open>ensures m Q\<close>: if \<open>m\<close> returns, its result satisfies \<open>Q\<close>.\<close>

definition ensures :: "'a outcome \<Rightarrow> ('a \<Rightarrow> bool) \<Rightarrow> bool" where
  "ensures m Q \<longleftrightarrow> (\<forall>x. m = Done x \<longrightarrow> Q x)"

lemma ensures_simps [simp]: "ensures (Done x) Q = Q x" "ensures (Panic e) Q" "ensures Wait Q" "ensures Fault Q"
  by (auto simp: ensures_def)

lemma ensures_then: "ensures m R \<Longrightarrow> (\<And>x. R x \<Longrightarrow> ensures (f x) Q) \<Longrightarrow> ensures (and_then m f) Q"
  by (cases m) (auto simp: ensures_def)

lemma ensures_then2:
  "ensures m (\<lambda>(x, y). R x y) \<Longrightarrow> (\<And>x y. R x y \<Longrightarrow> ensures (f x y) Q) \<Longrightarrow> ensures (and_then m (\<lambda>(x, y). f x y)) Q"
  by (cases m) (auto simp: ensures_def)

lemma ensures_if: "(c \<Longrightarrow> ensures a Q) \<Longrightarrow> (\<not> c \<Longrightarrow> ensures b Q) \<Longrightarrow> ensures (if c then a else b) Q"
  by simp

lemma ensures_mono: "ensures m R \<Longrightarrow> (\<And>x. R x \<Longrightarrow> Q x) \<Longrightarrow> ensures m Q"
  by (auto simp: ensures_def)

lemma ensuresI: "(\<And>x. m = Done x \<Longrightarrow> Q x) \<Longrightarrow> ensures m Q"
  by (simp add: ensures_def)

lemma ensures_Done: "ensures m Q \<Longrightarrow> m = Done x \<Longrightarrow> Q x"
  by (simp add: ensures_def)

subsection \<open>Inode references\<close>

definition counted :: "'a fstate_scheme \<Rightarrow> nat multiset \<Rightarrow> bool" where
  "counted s M \<longleftrightarrow> icache_wf s \<and> (\<forall>k\<in>#M. k < length (inodes s)) \<and> (\<forall>k<length (inodes s). iref (inodes s ! k) = int (count M k))"

definition zeroed :: "'a fstate_scheme \<Rightarrow> 'a fstate_scheme" where
  "zeroed s = s\<lparr>inodes := map (\<lambda>ip. ip\<lparr>iref := 0\<rparr>) (inodes s)\<rparr>"

lemma counted_owns: "counted s M \<longleftrightarrow> owns (zeroed s) s M"
  by (auto simp: counted_def owns_def zeroed_def icache_wf_def)

lemma owns_counted: "owns (zeroed s) t M \<Longrightarrow> counted t M \<and> fstate.more t = fstate.more s"
  by (auto simp: counted_def owns_def zeroed_def)

lemma counted_ids: "ids t = ids s \<Longrightarrow> counted s M \<Longrightarrow> counted t M \<and> fstate.more t = fstate.more s"
  unfolding counted_owns using owns_ids owns_counted counted_owns by blast

lemma counted_in: "counted s M \<Longrightarrow> k \<in># M \<Longrightarrow> k < length (inodes s) \<and> 0 < iref (inodes s ! k)"
  unfolding counted_owns using owns_ref by fastforce

text \<open>The log layer.\<close>

lemma bwrite_beyond [frame_dest]: "bwrite i s = Done t \<Longrightarrow> beyond t = beyond s"
  by (auto simp: bwrite_def iderw_def Let_def beyond_def split: if_splits)

lemma install_one_beyond [frame_dest]: "install_one k s = Done t \<Longrightarrow> beyond t = beyond s"
  by (auto simp: install_one_def outcome_simps dest!: frame_dest)

lemma write_log_one_beyond [frame_dest]: "write_log_one k s = Done t \<Longrightarrow> beyond t = beyond s"
  by (auto simp: write_log_one_def outcome_simps dest!: frame_dest)

lemma write_head_beyond [frame_dest]: "write_head s = Done t \<Longrightarrow> beyond t = beyond s"
  by (auto simp: write_head_def outcome_simps split: if_splits dest!: frame_dest)

lemma write_log_beyond [frame_dest]: "write_log s = Done t \<Longrightarrow> beyond t = beyond s"
  unfolding write_log_def by (rule each_preserves [where P = "\<lambda>u. beyond u = beyond s"]) (auto dest: frame_dest)

lemma install_trans_beyond [frame_dest]: "install_trans s = Done t \<Longrightarrow> beyond t = beyond s"
  unfolding install_trans_def by (rule each_preserves [where P = "\<lambda>u. beyond u = beyond s"]) (auto dest: frame_dest)

lemma log_fields_beyond [simp]: "beyond (s\<lparr>lh_n := a\<rparr>) = beyond s" "beyond (s\<lparr>committing := b\<rparr>) = beyond s" "beyond (s\<lparr>outstanding := c\<rparr>) = beyond s"
  by (simp_all add: beyond_def)

lemma commit_beyond [frame_dest]: "commit s = Done t \<Longrightarrow> beyond t = beyond s"
  by (auto simp: commit_def outcome_simps split: if_splits dest!: frame_dest)

lemma end_op_beyond [frame_dest]: "end_op s = Done t \<Longrightarrow> beyond t = beyond s"
  by (auto simp: end_op_def Let_def outcome_simps split: if_splits dest!: frame_dest)

lemma begin_op_beyond [frame_dest]: "begin_op s = Done t \<Longrightarrow> beyond t = beyond s"
  by (auto simp: begin_op_def split: if_splits)


subsection \<open>The account\<close>

definition fd_ref :: "nat option \<Rightarrow> nat multiset" where
  "fd_ref e = (case e of None \<Rightarrow> {#} | Some f \<Rightarrow> {#f#})"

definition ino_ref :: "kfile \<Rightarrow> nat multiset" where
  "ino_ref f = (if 0 < fref f \<and> ftype f = FD_INODE then {#fip f#} else {#})"

definition fd_refs :: "nat option list \<Rightarrow> nat multiset" where
  "fd_refs es = sum_list (map fd_ref es)"

definition ino_refs :: "kfile list \<Rightarrow> nat multiset" where
  "ino_refs fs = sum_list (map ino_ref fs)"

lemma sum_list_replicate_empty [simp]: "sum_list (replicate n {#}) = {#}"
  by (induction n) simp_all

lemma sum_list_update_add:
  fixes c :: "'a \<Rightarrow> 'b :: comm_monoid_add"
  shows "i < length xs \<Longrightarrow> sum_list (map c (xs[i := y])) + c (xs ! i) = sum_list (map c xs) + c y"
proof (induction xs arbitrary: i)
  case (Cons x xs)
  then show ?case by (cases i) (simp_all add: ac_simps)
qed simp

lemma ino_refs_update: "i < length fs \<Longrightarrow> ino_refs (fs[i := g]) + ino_ref (fs ! i) = ino_refs fs + ino_ref g"
  unfolding ino_refs_def by (rule sum_list_update_add)

lemma fd_refs_update: "i < length es \<Longrightarrow> fd_refs (es[i := e]) + fd_ref (es ! i) = fd_refs es + fd_ref e"
  unfolding fd_refs_def by (rule sum_list_update_add)

text \<open>
  \<open>acc F I W s\<close>: the file counts are those of \<open>F\<close>; the inode counts are those
  of the open files and of \<open>I\<close>; free file slots have no type; \<open>W\<close> is the
  descriptor table and working directory of the current process.
\<close>

definition acc :: "nat multiset \<Rightarrow> nat multiset \<Rightarrow> nat option list \<times> nat \<Rightarrow> 'a ustate_scheme \<Rightarrow> bool" where
  "acc F I W s \<longleftrightarrow> (ofiles s, cwd_ip s) = W \<and> (\<forall>i\<in>#F. i < length (files s)) \<and>
     (\<forall>i<length (files s). fref (files s ! i) = int (count F i) \<and> (fref (files s ! i) = 0 \<longrightarrow> ftype (files s ! i) = FD_NONE)) \<and>
     counted s (ino_refs (files s) + I)"

lemma more_user:
  fixes s t :: "'a ustate_scheme"
  assumes "fstate.more t = fstate.more s"
  shows "files t = files s" "ofiles t = ofiles s" "cwd_ip t = cwd_ip s" "pipes t = pipes s" "pages t = pages s"
  using assms by (cases s; cases t; simp)+

lemma acc_counted: "acc F I W s \<Longrightarrow> counted s (ino_refs (files s) + I)"
  by (simp add: acc_def)

lemma acc_change: "acc F I W s \<Longrightarrow> counted t (ino_refs (files s) + J) \<and> fstate.more t = fstate.more s \<Longrightarrow> acc F J W t"
  using more_user [of t s] by (simp add: acc_def)

lemma acc_ids: "ids t = ids s \<Longrightarrow> acc F I W s \<Longrightarrow> acc F I W t"
  by (rule acc_change) (auto intro: counted_ids acc_counted dest: counted_ids [OF _ acc_counted])

lemma acc_beyond: "beyond t = beyond s \<Longrightarrow> acc F I W s \<Longrightarrow> acc F I W t"
  by (blast intro: acc_ids ids_eq)

lemma acc_in: "acc F I W s \<Longrightarrow> k \<in># I \<Longrightarrow> k < length (inodes s) \<and> 0 < iref (inodes s ! k)"
  using counted_in [of s "ino_refs (files s) + I" k] acc_counted [of F I W s] by auto

named_theorems acc_rules \<open>what the routines do to the account\<close>

lemma begin_op_acc [acc_rules]: "acc F I W s \<Longrightarrow> ensures (begin_op s) (acc F I W)"
  by (auto intro!: ensuresI intro: acc_beyond begin_op_beyond)

lemma end_op_acc [acc_rules]: "acc F I W s \<Longrightarrow> ensures (end_op s) (acc F I W)"
  by (auto intro!: ensuresI intro: acc_beyond end_op_beyond)

lemma ilock_acc [acc_rules]: "acc F I W s \<Longrightarrow> ensures (ilock i s) (acc F I W)"
  by (auto intro!: ensuresI intro: acc_ids ilock_ids)

lemma iunlock_acc [acc_rules]: "acc F I W s \<Longrightarrow> ensures (iunlock i s) (acc F I W)"
  by (auto intro!: ensuresI intro: acc_ids iunlock_ids)

lemma iupdate_acc [acc_rules]: "acc F I W s \<Longrightarrow> ensures (iupdate i s) (acc F I W)"
  by (auto intro!: ensuresI intro: acc_beyond iupdate_inodes)

lemma set_inode_acc: "acc F I W s \<Longrightarrow> (\<And>ip. idev (f ip) = idev ip \<and> inum (f ip) = inum ip \<and> iref (f ip) = iref ip) \<Longrightarrow> acc F I W (set_inode i f s)"
  by (rule acc_ids [OF ids_set])

lemma acc_owns: "acc F I W s \<Longrightarrow> owns (zeroed s) s (ino_refs (files s) + I)"
  by (simp add: counted_owns [symmetric] acc_counted)

lemma owns_acc: "owns (zeroed s) t (ino_refs (files s) + J) \<Longrightarrow> acc F I W s \<Longrightarrow> acc F J W t"
  using acc_change owns_counted by blast

lemma iput_acc [acc_rules]: "acc F (add_mset i I) W s \<Longrightarrow> ensures (iput i s) (acc F I W)"
  using acc_owns [of F "add_mset i I" W s] by (auto intro!: ensuresI intro: owns_acc iput_owns)

lemma iunlockput_acc [acc_rules]: "acc F (add_mset i I) W s \<Longrightarrow> ensures (iunlockput i s) (acc F I W)"
  using acc_owns [of F "add_mset i I" W s] by (auto intro!: ensuresI intro: owns_acc iunlockput_owns)

lemma ialloc_acc [acc_rules]: "acc F I W s \<Longrightarrow> ensures (ialloc dev ty s) (\<lambda>(t, i). acc F (add_mset i I) W t)"
proof (rule ensuresI, clarify)
  fix t i assume a: "acc F I W s" "ialloc dev ty s = Done (t, i)"
  have "owns (zeroed s) t (add_mset i (ino_refs (files s) + I))" using ialloc_loop_owns a acc_owns unfolding ialloc_def by blast
  then show "acc F (add_mset i I) W t" using owns_acc [OF _ a(1), of t "add_mset i I"] by simp
qed

lemma dirlookup_acc [acc_rules]:
  assumes "acc F I W s" "dp \<in># I"
  shows "ensures (dirlookup dv dp name s) (\<lambda>(t, r). case r of None \<Rightarrow> acc F I W t | Some (ip, off) \<Rightarrow> acc F (add_mset ip I) W t)"
proof (rule ensuresI, clarify)
  fix t r assume d: "dirlookup dv dp name s = Done (t, r)"
  have l: "dp < length (inodes s)" using acc_in [OF assms] by simp
  from dirlookup_owns [OF d l acc_owns [OF assms(1)]]
  show "case r of None \<Rightarrow> acc F I W t | Some (ip, off) \<Rightarrow> acc F (add_mset ip I) W t"
    using owns_acc [OF _ assms(1), of t] by (auto split: option.splits)
qed

lemma dirlink_acc [acc_rules]:
  assumes "acc F I W s" "dp \<in># I"
  shows "ensures (dirlink dv dp name n s) (\<lambda>(t, r). acc F I W t)"
  using dirlink_owns [OF _ _ acc_owns [OF assms(1)]] acc_in [OF assms] owns_acc [OF _ assms(1)]
  by (auto intro!: ensuresI)

lemma namex_acc:
  assumes "acc F I W s" "cwd \<in># I"
  shows "ensures (namex dv cwd path parent s) (\<lambda>(t, r). case r of None \<Rightarrow> acc F I W t | Some (ip, nm) \<Rightarrow> acc F (add_mset ip I) W t)"
proof (rule ensuresI, clarify)
  fix t r assume d: "namex dv cwd path parent s = Done (t, r)"
  have l: "cwd < length (inodes s)" "0 < iref (inodes s ! cwd)" using acc_in [OF assms] by auto
  from namex_owns [OF d acc_owns [OF assms(1)] l]
  show "case r of None \<Rightarrow> acc F I W t | Some (ip, nm) \<Rightarrow> acc F (add_mset ip I) W t"
    using owns_acc [OF _ assms(1), of t] by (auto split: option.splits)
qed

lemma nameiparent_acc [acc_rules]:
  "acc F I W s \<Longrightarrow> cwd \<in># I \<Longrightarrow> ensures (nameiparent dv cwd path s) (\<lambda>(t, r). case r of None \<Rightarrow> acc F I W t | Some (ip, nm) \<Rightarrow> acc F (add_mset ip I) W t)"
  unfolding nameiparent_def by (rule namex_acc)

lemma namei_acc [acc_rules]:
  "acc F I W s \<Longrightarrow> cwd \<in># I \<Longrightarrow> ensures (namei dv cwd path s) (\<lambda>(t, r). case r of None \<Rightarrow> acc F I W t | Some ip \<Rightarrow> acc F (add_mset ip I) W t)"
  unfolding namei_def by (rule ensures_then [OF namex_acc]) (auto split: option.splits)

text \<open>A device routine may do anything that keeps inode references, open files and the process.\<close>

definition same_refs :: "'a ustate_scheme \<Rightarrow> 'a ustate_scheme \<Rightarrow> bool" where
  "same_refs s t \<longleftrightarrow> fst (ids t) = fst (ids s) \<and> files t = files s \<and> ofiles t = ofiles s \<and> cwd_ip t = cwd_ip s"

definition dev_ok :: "'a ustate_scheme devsw \<Rightarrow> bool" where
  "dev_ok dv \<longleftrightarrow> (\<forall>m f i n s t r. dev_read dv m = Some f \<longrightarrow> f i n s = Done (t, r) \<longrightarrow> same_refs s t) \<and>
     (\<forall>m f i cs n s t r. dev_write dv m = Some f \<longrightarrow> f i cs n s = Done (t, r) \<longrightarrow> same_refs s t)"

lemma same_refs_acc: "same_refs s t \<Longrightarrow> acc F I W s \<Longrightarrow> acc F I W t"
proof -
  assume r: "same_refs s t" and a: "acc F I W s"
  let ?t = "t\<lparr>files := files t\<rparr>"
  have m: "map (\<lambda>ip. (idev ip, inum ip, iref ip)) (inodes t) = map (\<lambda>ip. (idev ip, inum ip, iref ip)) (inodes s)"
    using r by (simp add: same_refs_def ids_def)
  have l: "length (inodes t) = length (inodes s)" using arg_cong [OF m, of length] by simp
  have n: "idev (inodes t ! k) = idev (inodes s ! k) \<and> inum (inodes t ! k) = inum (inodes s ! k) \<and> iref (inodes t ! k) = iref (inodes s ! k)"
    if "k < length (inodes s)" for k using arg_cong [OF m, of "\<lambda>xs. xs ! k"] that l by simp
  have "counted t M" if "counted s M" for M using that l n by (simp add: counted_def icache_wf_def)
  then show ?thesis using a r by (simp add: acc_def same_refs_def)
qed

lemma readi_acc [acc_rules]: "dev_ok dv \<Longrightarrow> acc F I W s \<Longrightarrow> ensures (readi dv i off n s) (\<lambda>(t, r, cs). acc F I W t)"
proof (rule ensuresI, clarify)
  fix t r cs assume d: "dev_ok dv" "acc F I W s" "readi dv i off n s = Done (t, r, cs)"
  show "acc F I W t"
  proof (cases "itype (inodes s ! i) = T_DEV")
    case True
    then have "t = s \<or> same_refs s t" using d(1,3) by (auto simp: readi_def Let_def dev_ok_def split: if_splits option.splits) blast
    then show ?thesis using same_refs_acc d(2) by blast
  next
    case False
    then show ?thesis using acc_ids [OF ids_faces [OF readi_faces [OF d(3)]] d(2)] by simp
  qed
qed

lemma writei_acc [acc_rules]: "dev_ok dv \<Longrightarrow> acc F I W s \<Longrightarrow> ensures (writei dv i src off n s) (\<lambda>(t, r). acc F I W t)"
proof (rule ensuresI, clarify)
  fix t r assume d: "dev_ok dv" "acc F I W s" "writei dv i src off n s = Done (t, r)"
  show "acc F I W t"
  proof (cases "itype (inodes s ! i) = T_DEV")
    case True
    then have "t = s \<or> same_refs s t" using d(1,3) by (auto simp: writei_def Let_def dev_ok_def split: if_splits option.splits) blast
    then show ?thesis using same_refs_acc d(2) by blast
  next
    case False
    then show ?thesis using acc_ids [OF ids_faces [OF writei_faces [OF d(3)]] d(2)] by simp
  qed
qed


subsection \<open>Files\<close>

lemma acc_set_file:
  assumes a: "acc F I W s" and i: "i < length (files s)" and t: "t = s\<lparr>files := (files s)[i := g]\<rparr>"
    and c: "fref g = int (count F' i)" "\<And>k. k \<noteq> i \<Longrightarrow> count F' k = count F k" "fref g = 0 \<Longrightarrow> ftype g = FD_NONE"
    and r: "ino_ref g + J = ino_ref (files s ! i) + I"
  shows "acc F' J W t"
proof -
  have "ino_refs ((files s)[i := g]) + J + ino_ref (files s ! i) = ino_refs (files s) + I + ino_ref (files s ! i)"
    using ino_refs_update [OF i, of g] r by (metis add.assoc add.commute)
  then have e: "ino_refs ((files s)[i := g]) + J = ino_refs (files s) + I" by simp
  have "k < length (files s)" if "k \<in># F'" for k
  proof (cases "k = i")
    case False
    then have "k \<in># F" using that c(2) [of k] unfolding count_greater_zero_iff [symmetric] by simp
    then show ?thesis using a by (simp add: acc_def)
  qed (use i in simp)
  moreover have "counted t M = counted s M" for M by (simp add: counted_def icache_wf_def t)
  ultimately show ?thesis using a i c e unfolding acc_def by (simp add: t nth_list_update)
qed

lemma acc_file: "acc F I W s \<Longrightarrow> i \<in># F \<Longrightarrow> i < length (files s) \<and> fref (files s ! i) = int (count F i) \<and> 1 \<le> fref (files s ! i)"
proof -
  assume a: "acc F I W s" and i: "i \<in># F"
  then have "i < length (files s)" "fref (files s ! i) = int (count F i)" by (auto simp: acc_def)
  moreover have "0 < count F i" using i by simp
  ultimately show ?thesis by linarith
qed

lemma filealloc_acc:
  assumes a: "acc F I W s"
  shows "case filealloc s of (t, None) \<Rightarrow> t = s
    | (t, Some i) \<Rightarrow> acc (add_mset i F) I W t \<and> ftype (files t ! i) = FD_NONE \<and> i < length (files t) \<and> fref (files t ! i) = 1 \<and> count F i = 0"
proof (cases "find_index (\<lambda>f. fref f = 0) (files s)")
  case (Some i)
  then have i: "i < length (files s)" "fref (files s ! i) = 0" by (auto simp: find_index_Some_iff)
  have n: "ftype (files s ! i) = FD_NONE" "count F i = 0" using a i by (auto simp: acc_def)
  have "acc (add_mset i F) I W (set_file i (\<lambda>f. f\<lparr>fref := 1\<rparr>) s)"
    by (rule acc_set_file [OF a i(1), where g = "(files s ! i)\<lparr>fref := 1\<rparr>"]) (use n i in \<open>auto simp: upd_at_def ino_ref_def\<close>)
  then show ?thesis using Some n i by (simp add: filealloc_def)
qed (simp add: filealloc_def)

lemma filedup_acc [acc_rules]:
  assumes a: "acc F I W s" and i: "i \<in># F"
  shows "ensures (filedup i s) (acc (add_mset i F) I W)"
proof -
  have f: "i < length (files s)" "fref (files s ! i) = int (count F i)" "1 \<le> fref (files s ! i)" using acc_file [OF a i] by auto
  have "acc (add_mset i F) I W (set_file i (\<lambda>f. f\<lparr>fref := fref f + 1\<rparr>) s)"
    by (rule acc_set_file [OF a f(1), where g = "(files s ! i)\<lparr>fref := fref (files s ! i) + 1\<rparr>"]) (use f in \<open>auto simp: upd_at_def ino_ref_def\<close>)
  then show ?thesis by (simp add: filedup_def)
qed

lemma pipe_fields_acc [simp]: "acc F I W (s\<lparr>pipes := p\<rparr>) = acc F I W s" "acc F I W (s\<lparr>pages := k\<rparr>) = acc F I W s"
    "acc F I W (s\<lparr>umem := m\<rparr>) = acc F I W s"
  by (simp_all add: acc_def counted_def icache_wf_def)

lemma close_pipe_acc [acc_rules]: "acc F I W s \<Longrightarrow> ensures (close_pipe ke a w s) (acc F I W)"
  by (rule ensuresI) (auto simp: close_pipe_def outcome_simps split: option.splits)

lemma fileclose_acc [acc_rules]:
  assumes a: "acc (add_mset i F) I W s"
  shows "ensures (fileclose ke i s) (acc F I W)"
proof -
  let ?f = "files s ! i"
  have f: "i < length (files s)" "fref ?f = int (count F i) + 1" "\<not> fref ?f < 1" using acc_file [OF a, of i] by auto
  show ?thesis
  proof (cases "fref ?f - 1 > 0")
    case True
    have "acc F I W (set_file i (\<lambda>f. f\<lparr>fref := fref f - 1\<rparr>) s)"
      by (rule acc_set_file [OF a f(1), where g = "?f\<lparr>fref := fref ?f - 1\<rparr>"]) (use f True in \<open>auto simp: upd_at_def ino_ref_def\<close>)
    then show ?thesis using f True by (simp add: fileclose_def)
  next
    case False
    let ?s = "set_file i (\<lambda>f. f\<lparr>ftype := FD_NONE, fref := 0\<rparr>) (set_file i (\<lambda>f. f\<lparr>fref := fref f - 1\<rparr>) s)"
    have u: "?s = s\<lparr>files := (files s)[i := ?f\<lparr>ftype := FD_NONE, fref := 0\<rparr>]\<rparr>" using f(1) by (simp add: upd_at_def)
    have one: "fref ?f = 1" "count F i = 0" using False f by linarith+
    have s: "acc F (ino_ref ?f + I) W ?s"
      by (rule acc_set_file [OF a f(1) u]) (use one in \<open>auto simp: ino_ref_def\<close>)
    show ?thesis
    proof (cases "ftype ?f")
      case FD_NONE
      then show ?thesis using s f False one by (simp add: fileclose_def ino_ref_def)
    next
      case FD_PIPE
      then have "acc F I W ?s" using s by (simp add: ino_ref_def)
      then show ?thesis using close_pipe_acc f False FD_PIPE by (simp add: fileclose_def)
    next
      case FD_INODE
      then have "acc F (add_mset (fip ?f) I) W ?s" using s one by (simp add: ino_ref_def)
      then have "ensures (and_then (begin_op ?s) (\<lambda>s. and_then (iput (fip ?f) s) end_op)) (acc F I W)"
        by (intro ensures_then [OF begin_op_acc] ensures_then [OF iput_acc] end_op_acc)
      then show ?thesis using f False FD_INODE by (simp add: fileclose_def)
    qed
  qed
qed

lemma filestat_acc [acc_rules]: "acc F I W s \<Longrightarrow> ensures (filestat i s) (\<lambda>(t, r). acc F I W t)"
  by (auto simp: filestat_def Let_def intro!: ensures_then [OF ilock_acc] ensures_then [OF iunlock_acc])

lemma foff_acc: "acc F I W s \<Longrightarrow> acc F I W (set_file i (\<lambda>f. f\<lparr>foff := h f\<rparr>) s)"
proof (cases "i < length (files s)")
  case True
  assume a: "acc F I W s"
  show ?thesis
    by (rule acc_set_file [OF a True, where g = "(files s ! i)\<lparr>foff := h (files s ! i)\<rparr>"]) (use a True in \<open>auto simp: upd_at_def ino_ref_def acc_def\<close>)
qed (simp add: upd_at_def list_update_beyond)

lemma fileread_acc [acc_rules]:
  assumes d: "dev_ok dv" and a: "acc F I W s"
  shows "ensures (fileread dv i n s) (\<lambda>(t, r, cs). acc F I W t)"
proof -
  have p: "ensures (read_pipe x n s) (\<lambda>(t, r, cs). acc F I W t)" for x
    using a by (auto simp: read_pipe_def split: option.split prod.split turn.split)
  have "ensures (and_then (ilock ip s) (\<lambda>s. and_then (readi dv ip off (of_nat n) s) (\<lambda>(s, r, cs).
          let s = (if r > 0 then set_file i (\<lambda>f. f\<lparr>foff := foff f + word_of_int r\<rparr>) s else s) in
          and_then (iunlock ip s) (\<lambda>s. Done (s, r, cs))))) (\<lambda>(t, r, cs). acc F I W t)" for ip off
    using d a by (intro ensures_then [OF ilock_acc] ensures_then [OF readi_acc])
      (auto simp: Let_def intro!: ensures_then [OF iunlock_acc] foff_acc)
  then show ?thesis using a p by (auto simp: fileread_def Let_def split: fdtype.split)
qed

lemma filewrite_loop_acc:
  assumes d: "dev_ok dv"
  shows "acc F I W s \<Longrightarrow> ensures (filewrite_loop dv i cs s) (\<lambda>(t, r). acc F I W t)"
proof (induction "length cs" arbitrary: cs s rule: less_induct)
  case less
  show ?case
  proof (cases "cs = []")
    case True
    then show ?thesis using less.prems by (subst filewrite_loop.simps) simp
  next
    case False
    then have l: "length (drop (min (length cs) filewrite_max) cs) < length cs" by (simp add: layout_defs)
    show ?thesis
      by (subst filewrite_loop.simps)
        (auto simp: Let_def False intro!: ensures_then [OF begin_op_acc [OF less.prems]] ensures_then [OF ilock_acc] ensures_then [OF writei_acc [OF d]]
          ensures_then [OF iunlock_acc] ensures_then [OF end_op_acc] less.hyps [OF l] foff_acc)
  qed
qed

lemma filewrite_acc [acc_rules]:
  assumes d: "dev_ok dv" and a: "acc F I W s"
  shows "ensures (filewrite dv i cs s) (\<lambda>(t, r). acc F I W t)"
proof -
  have p: "ensures (write_pipe x cs s) (\<lambda>(t, r). acc F I W t)" for x
    using a by (auto simp: write_pipe_def split: option.split prod.split turn.split)
  then show ?thesis using a by (auto simp: filewrite_def Let_def split: fdtype.split intro!: ensures_then [OF filewrite_loop_acc [OF d a]])
qed

lemma pipealloc_acc:
  assumes a: "acc F I W s"
  shows "ensures (pipealloc ke s) (\<lambda>(t, r). case r of None \<Rightarrow> acc F I W t | Some (f0, f1) \<Rightarrow> acc (add_mset f0 (add_mset f1 F)) I W t)"
proof -
  obtain u a0 where u: "filealloc s = (u, a0)" by (cases "filealloc s")
  show ?thesis
  proof (cases a0)
    case None
    then show ?thesis using u filealloc_acc [OF a] a by (simp add: pipealloc_def)
  next
    case (Some f0)
    have U: "acc (add_mset f0 F) I W u" using u Some filealloc_acc [OF a] by simp
    obtain v a1 where v: "filealloc u = (v, a1)" by (cases "filealloc u")
    show ?thesis
    proof (cases a1)
      case None
      then have "v = u" using v filealloc_acc [OF U] by simp
      then show ?thesis using u v Some None U by (auto simp: pipealloc_def intro!: ensures_then [OF fileclose_acc])
    next
      case (Some f1)
      have V: "acc (add_mset f1 (add_mset f0 F)) I W v" "ftype (files v ! f1) = FD_NONE" "f1 < length (files v)" "count (add_mset f0 F) f1 = 0"
        using v Some filealloc_acc [OF U] by auto
      obtain k b where k: "kalloc (pages v) = (k, b)" by (cases "kalloc (pages v)")
      have ne: "f0 \<noteq> f1" using V(4) by auto
      have f0: "f0 < length (files v)" "ftype (files v ! f0) = FD_NONE"
      proof -
        have "ftype (files u ! f0) = FD_NONE" "f0 < length (files u)" using u \<open>a0 = Some f0\<close> filealloc_acc [OF a] by auto
        moreover have "v = set_file f1 (\<lambda>f. f\<lparr>fref := 1\<rparr>) u" using v Some by (auto simp: filealloc_def split: option.splits)
        ultimately show "f0 < length (files v)" "ftype (files v ! f0) = FD_NONE" using ne by simp_all
      qed
      have V': "acc (add_mset f0 (add_mset f1 F)) I W v" using V(1) by (simp add: add_mset_commute)
      show ?thesis
      proof (cases "b = 0")
        case True
        have "acc (add_mset f0 (add_mset f1 F)) I W (v\<lparr>pages := k\<rparr>)" using V' by simp
        then show ?thesis using True u v k \<open>a0 = Some f0\<close> Some
          by (auto simp: pipealloc_def intro!: ensures_then [OF fileclose_acc] fileclose_acc)
      next
        case False
        let ?G = "add_mset f0 (add_mset f1 F)" and ?v = "v\<lparr>pages := k, pipes := (pipes v)(b \<mapsto> pipe_init (pipe_bytes k b))\<rparr>"
        let ?w = "set_file f0 (\<lambda>f. f\<lparr>ftype := FD_PIPE, freadable := True, fwritable := False, fpipe := b\<rparr>) ?v"
        have c: "fref (files v ! f0) = int (count ?G f0)" "fref (files v ! f1) = int (count ?G f1)" using V' f0 V(3) by (auto simp: acc_def)
        have v0: "acc ?G I W ?v" using V' by simp
        have w: "acc ?G I W ?w"
          by (rule acc_set_file [OF v0, where i = f0 and g = "(files v ! f0)\<lparr>ftype := FD_PIPE, freadable := True, fwritable := False, fpipe := b\<rparr>"])
            (use f0 c in \<open>auto simp: upd_at_def ino_ref_def\<close>)
        have "acc ?G I W (set_file f1 (\<lambda>f. f\<lparr>ftype := FD_PIPE, freadable := False, fwritable := True, fpipe := b\<rparr>) ?w)"
          by (rule acc_set_file [OF w, where i = f1 and g = "(files v ! f1)\<lparr>ftype := FD_PIPE, freadable := False, fwritable := True, fpipe := b\<rparr>"])
            (use ne V(2,3) c in \<open>auto simp: upd_at_def ino_ref_def\<close>)
        then show ?thesis using False u v k \<open>a0 = Some f0\<close> Some by (simp add: pipealloc_def)
      qed
    qed
  qed
qed


subsection \<open>System calls\<close>

lemma acc_user: "acc F I W s \<Longrightarrow> ofiles s = fst W \<and> cwd_ip s = snd W"
  by (auto simp: acc_def)

lemma acc_cwd: "acc F J W s \<Longrightarrow> snd W \<in># I \<Longrightarrow> cwd_ip s \<in># I" "acc F J W s \<Longrightarrow> snd W \<in># I \<Longrightarrow> cwd_ip s \<in># add_mset x I"
  by (auto simp: acc_def)

lemma acc_swap: "acc F (add_mset a (add_mset b I)) W s \<Longrightarrow> acc F (add_mset b (add_mset a I)) W s"
  by (simp add: add_mset_commute)

lemma found_then:
  fixes m :: "('a ustate_scheme \<times> 'b option) outcome"
  assumes "ensures m (\<lambda>(t, r). case r of None \<Rightarrow> acc F I W t | Some x \<Rightarrow> acc F (add_mset (g x) I) W t)"
    "\<And>t. acc F I W t \<Longrightarrow> ensures (f (t, None)) Q" "\<And>t x. acc F (add_mset (g x) I) W t \<Longrightarrow> ensures (f (t, Some x)) Q"
  shows "ensures (and_then m f) Q"
proof (rule ensures_then [OF assms(1)])
  fix x :: "'a ustate_scheme \<times> 'b option"
  assume "case x of (t, r) \<Rightarrow> case r of None \<Rightarrow> acc F I W t | Some x \<Rightarrow> acc F (add_mset (g x) I) W t"
  then show "ensures (f x) Q" using assms(2,3) by (cases x; cases "snd x") auto
qed

lemma pair_case: "(case r of None \<Rightarrow> A | Some (x, y) \<Rightarrow> B x) = (case r of None \<Rightarrow> A | Some p \<Rightarrow> B (fst p))"
  by (auto split: option.split)

lemma namei_then:
  assumes "acc F I W s" "cwd \<in># I" "\<And>t. acc F I W t \<Longrightarrow> ensures (f (t, None)) Q"
    "\<And>t ip. acc F (add_mset ip I) W t \<Longrightarrow> ensures (f (t, Some ip)) Q"
  shows "ensures (and_then (namei dv cwd path s) f) Q"
  using found_then [where g = "\<lambda>x. x", OF namei_acc [OF assms(1,2)] assms(3,4)] by simp

lemma nameiparent_then:
  assumes "acc F I W s" "cwd \<in># I" "\<And>t. acc F I W t \<Longrightarrow> ensures (f (t, None)) Q"
    "\<And>t ip nm. acc F (add_mset ip I) W t \<Longrightarrow> ensures (f (t, Some (ip, nm))) Q"
  shows "ensures (and_then (nameiparent dv cwd path s) f) Q"
  by (rule found_then [where g = fst, OF nameiparent_acc [OF assms(1,2), unfolded pair_case]]) (auto intro: assms(3,4))

lemma dirlookup_then:
  assumes "acc F I W s" "dp \<in># I" "\<And>t. acc F I W t \<Longrightarrow> ensures (f (t, None)) Q"
    "\<And>t ip off. acc F (add_mset ip I) W t \<Longrightarrow> ensures (f (t, Some (ip, off))) Q"
  shows "ensures (and_then (dirlookup dv dp name s) f) Q"
  by (rule found_then [where g = fst, OF dirlookup_acc [OF assms(1,2), unfolded pair_case]]) (auto intro: assms(3,4))

lemma leave_acc: "acc F I W s \<Longrightarrow> ensures (leave v s) (\<lambda>(t, r). acc F I W t)"
  by (auto simp: leave_def intro!: ensures_then [OF end_op_acc])

lemma put_leave_acc: "acc F (add_mset i I) W s \<Longrightarrow> ensures (and_then (iunlockput i s) (leave v)) (\<lambda>(t, r). acc F I W t)"
  by (rule ensures_then [OF iunlockput_acc]) (auto intro: leave_acc)

lemma sys_read_acc: "dev_ok dv \<Longrightarrow> acc F I W s \<Longrightarrow> ensures (sys_read dv s) (\<lambda>(t, r). acc F I W t)"
  by (auto simp: sys_read_def split: option.split intro!: ensures_then [OF fileread_acc])

lemma sys_write_acc: "dev_ok dv \<Longrightarrow> acc F I W s \<Longrightarrow> ensures (sys_write dv s) (\<lambda>(t, r). acc F I W t)"
  by (auto simp: sys_write_def split: option.split intro!: filewrite_acc)

lemma sys_fstat_acc: "acc F I W s \<Longrightarrow> ensures (sys_fstat s) (\<lambda>(t, r). acc F I W t)"
  by (auto simp: sys_fstat_def split: option.split intro!: ensures_then [OF filestat_acc])

lemma link_bad_acc: "acc F (add_mset ip I) W s \<Longrightarrow> ensures (link_bad ip s) (\<lambda>(t, r). acc F I W t)"
  unfolding link_bad_def
  by (intro ensures_then [OF ilock_acc] ensures_then [OF iupdate_acc] set_inode_acc put_leave_acc) auto

lemma link_into_acc:
  assumes a: "acc F (add_mset dp (add_mset ip I)) W s"
  shows "ensures (link_into dv ip dp name s) (\<lambda>(t, r). acc F I W t)"
proof -
  have d: "ensures (if idev (inodes u ! dp) \<noteq> idev (inodes u ! ip) then Done (u, -1) else dirlink dv dp name (inum (inodes u ! ip)) u)
      (\<lambda>(v, r). acc F (add_mset dp (add_mset ip I)) W v)" if u: "acc F (add_mset dp (add_mset ip I)) W u" for u
    using u dirlink_acc [OF u, of dp] by auto
  show ?thesis unfolding link_into_def
    by (rule ensures_then [OF ilock_acc [OF a]], rule ensures_then [OF d], assumption)
      (auto intro!: ensures_then [OF iunlockput_acc] link_bad_acc ensures_then [OF iput_acc] leave_acc)
qed

lemma sys_link_acc:
  assumes a: "acc F I W s" and c: "snd W \<in># I"
  shows "ensures (sys_link dv s) (\<lambda>(t, r). acc F I W t)"
  unfolding sys_link_def
  apply (clarsimp split: option.split simp: a)
  apply (rule ensures_then [OF begin_op_acc [OF a]])
  apply (rule namei_then, assumption, erule acc_cwd(1), rule c, simp add: leave_acc, simp)
  apply (rule ensures_then [OF ilock_acc], assumption)
  apply (clarsimp simp: put_leave_acc)
  apply (rule ensures_then [OF iupdate_acc], erule set_inode_acc, simp)
  apply (rule ensures_then [OF iunlock_acc], assumption)
  apply (rule nameiparent_then, assumption, erule acc_cwd(2), rule c)
  apply (simp_all add: link_bad_acc link_into_acc)
  done

lemma isdirempty_loop_acc:
  "dev_ok dv \<Longrightarrow> acc F I W s \<Longrightarrow> ensures (isdirempty_loop dv dp offs s) (\<lambda>(t, r). acc F I W t)"
  by (induction offs arbitrary: s) (auto intro!: ensures_then [OF readi_acc])

lemma unlink_bad_acc: "acc F (add_mset dp I) W s \<Longrightarrow> ensures (unlink_bad dp s) (\<lambda>(t, r). acc F I W t)"
  unfolding unlink_bad_def by (rule put_leave_acc)

lemma unlink_entry_acc:
  assumes d: "dev_ok dv" and a: "acc F (add_mset ip (add_mset dp I)) W s"
  shows "ensures (unlink_entry dv dp ip off s) (\<lambda>(t, r). acc F I W t)"
proof -
  let ?A = "acc F (add_mset ip (add_mset dp I)) W"
  have e: "ensures (if itype (inodes s ! ip) = T_DIR then isdirempty dv ip s else Done (s, True)) (\<lambda>(t, r). ?A t)"
    using a isdirempty_loop_acc [OF d a] by (auto simp: isdirempty_def)
  have n: "ensures (if itype (inodes u ! ip) = T_DIR then iupdate dp (set_inode dp (\<lambda>i. i\<lparr>inlink := inlink i - 1\<rparr>) u) else Done u)
      (acc F (add_mset dp (add_mset ip I)) W)" if "?A u" for u
    using acc_swap [OF that] by (auto intro!: iupdate_acc set_inode_acc)
  have w: "ensures (and_then (iunlockput dp u) (\<lambda>s.
      and_then (iupdate ip (set_inode ip (\<lambda>i. i\<lparr>inlink := inlink i - 1\<rparr>) s)) (\<lambda>s. and_then (iunlockput ip s) (leave 0)))) (\<lambda>(t, r). acc F I W t)"
    if "acc F (add_mset dp (add_mset ip I)) W u" for u
    using that by (intro ensures_then [OF iunlockput_acc] ensures_then [OF iupdate_acc] set_inode_acc put_leave_acc) auto
  show ?thesis unfolding unlink_entry_def
    apply (rule ensures_if, simp, rule ensures_then2 [OF e], rule ensures_if)
     apply (rule ensures_then [OF iunlockput_acc], assumption, erule unlink_bad_acc)
    apply (rule ensures_then2 [OF writei_acc [OF d]], assumption, rule ensures_if, simp)
    apply (rule ensures_then [OF n], assumption, erule w)
    done
qed

lemma sys_unlink_acc:
  assumes d: "dev_ok dv" and a: "acc F I W s" and c: "snd W \<in># I"
  shows "ensures (sys_unlink dv s) (\<lambda>(t, r). acc F I W t)"
  unfolding sys_unlink_def
  apply (clarsimp split: option.split simp: a)
  apply (rule ensures_then [OF begin_op_acc [OF a]])
  apply (rule nameiparent_then, assumption, erule acc_cwd(1), rule c, simp add: leave_acc, clarsimp)
  apply (rule ensures_then [OF ilock_acc], assumption)
  apply (clarsimp simp: unlink_bad_acc)
  apply (rule dirlookup_then, assumption, simp, simp add: unlink_bad_acc, clarsimp)
  apply (rule ensures_then [OF ilock_acc], assumption)
  apply (erule unlink_entry_acc [OF d])
  done

text \<open>\<^verbatim>\<open>create\<close> and \<^verbatim>\<open>open\<close>.\<close>

lemma create_new_acc:
  assumes a: "acc F (add_mset dp I) W s"
  shows "ensures (create_new dv dp name ty major minor s) (\<lambda>(t, r). case r of None \<Rightarrow> acc F I W t | Some ip \<Rightarrow> acc F (add_mset ip I) W t)"
proof -
  let ?A = "\<lambda>ip. acc F (add_mset ip (add_mset dp I)) W"
  have d: "ensures (if ty = T_DIR
        then and_then (iupdate dp (set_inode dp (\<lambda>i. i\<lparr>inlink := inlink i + 1\<rparr>) u)) (\<lambda>s.
             and_then (dirlink dv ip dot (inum (inodes s ! ip)) s) (\<lambda>(s, r).
             if r < 0 then Panic ''create dots''
             else and_then (dirlink dv ip dotdot (inum (inodes s ! dp)) s) (\<lambda>(s, r).
             if r < 0 then Panic ''create dots'' else Done s)))
        else Done u) (?A ip)" if "?A ip u" for u ip
    apply (rule ensures_if)
     apply (rule ensures_then [OF iupdate_acc], rule set_inode_acc, rule that, simp)
     apply (rule ensures_then2 [OF dirlink_acc], assumption, simp, rule ensures_if, simp)
     apply (rule ensures_then2 [OF dirlink_acc], assumption, simp, rule ensures_if, simp, simp)
    using that by simp
  show ?thesis unfolding create_new_def
    apply (rule ensures_then2 [OF ialloc_acc [OF a]])
    apply (rule ensures_then [OF ilock_acc], assumption)
    apply (rule ensures_then [OF iupdate_acc], erule set_inode_acc, simp)
    apply (rule ensures_then [OF d], assumption)
    apply (rule ensures_then2 [OF dirlink_acc], assumption, simp, rule ensures_if, simp)
    apply (rule ensures_then [OF iunlockput_acc], erule acc_swap, simp)
    done
qed

lemma create_acc:
  assumes a: "acc F I W s" and c: "cwd \<in># I"
  shows "ensures (create dv cwd path ty major minor s) (\<lambda>(t, r). case r of None \<Rightarrow> acc F I W t | Some ip \<Rightarrow> acc F (add_mset ip I) W t)"
  unfolding create_def
  apply (rule nameiparent_then [OF a c], simp, clarsimp)
  apply (rule ensures_then [OF ilock_acc], assumption)
  apply (rule dirlookup_then, assumption, simp, simp add: create_new_acc, clarsimp)
  apply (rule ensures_then [OF iunlockput_acc], erule acc_swap)
  apply (rule ensures_then [OF ilock_acc], assumption, clarsimp)
  apply (rule ensures_then [OF iunlockput_acc], assumption, simp)
  done

lemma open_inode_acc:
  assumes a: "acc F I W s" and c: "cwd \<in># I"
  shows "ensures (open_inode dv cwd path omode s) (\<lambda>(t, r). case r of None \<Rightarrow> acc F I W t | Some ip \<Rightarrow> acc F (add_mset ip I) W t)"
  unfolding open_inode_def
  apply (clarsimp simp: create_acc [OF a c])
  apply (rule namei_then [OF a c], simp, simp)
  apply (rule ensures_then [OF ilock_acc], assumption, clarsimp)
  apply (rule ensures_then [OF iunlockput_acc], assumption, simp)
  done

lemma create_then:
  assumes "acc F I W s" "cwd \<in># I" "\<And>t. acc F I W t \<Longrightarrow> ensures (f (t, None)) Q"
    "\<And>t ip. acc F (add_mset ip I) W t \<Longrightarrow> ensures (f (t, Some ip)) Q"
  shows "ensures (and_then (create dv cwd path ty major minor s) f) Q"
  using found_then [where g = "\<lambda>x. x", OF create_acc [OF assms(1,2)] assms(3,4)] by simp

lemma sys_mkdir_acc:
  assumes a: "acc F I W s" and c: "snd W \<in># I"
  shows "ensures (sys_mkdir dv s) (\<lambda>(t, r). acc F I W t)"
  unfolding sys_mkdir_def
  apply (rule ensures_then [OF begin_op_acc [OF a]])
  apply (clarsimp split: option.split simp: leave_acc)
  apply (rule create_then, assumption, erule acc_cwd(1), rule c)
  apply (simp_all add: leave_acc put_leave_acc)
  done

lemma sys_mknod_acc:
  assumes a: "acc F I W s" and c: "snd W \<in># I"
  shows "ensures (sys_mknod dv s) (\<lambda>(t, r). acc F I W t)"
  unfolding sys_mknod_def
  apply (rule ensures_then [OF begin_op_acc [OF a]])
  apply (clarsimp split: option.split simp: leave_acc)
  apply (rule create_then, assumption, erule acc_cwd(1), rule c)
  apply (simp_all add: leave_acc put_leave_acc)
  done


subsection \<open>Calls that change the descriptor table\<close>

definition accounted :: "nat multiset \<Rightarrow> nat multiset \<Rightarrow> 'a ustate_scheme \<Rightarrow> bool" where
  "accounted D P s \<longleftrightarrow> length (ofiles s) = NOFILE \<and> acc (fd_refs (ofiles s) + D) (add_mset (cwd_ip s) P) (ofiles s, cwd_ip s) s"

lemma accountedI: "acc (fd_refs es + D) (add_mset c P) (es, c) t \<Longrightarrow> length es = NOFILE \<Longrightarrow> accounted D P t"
  using acc_user [of "fd_refs es + D" "add_mset c P" "(es, c)" t] by (simp add: accounted_def)

lemma accounted_same:
  "accounted D P s \<Longrightarrow> (acc (fd_refs (ofiles s) + D) (add_mset (cwd_ip s) P) (ofiles s, cwd_ip s) s \<Longrightarrow>
      ensures m (\<lambda>(t, r). acc (fd_refs (ofiles s) + D) (add_mset (cwd_ip s) P) (ofiles s, cwd_ip s) t)) \<Longrightarrow> ensures m (\<lambda>(t, r). accounted D P t)"
  by (auto simp: accounted_def [of D P s] intro: accountedI elim!: ensures_mono)

lemma set_ofiles_acc: "acc F I (es, c) s \<Longrightarrow> acc F I (fs, d) (s\<lparr>ofiles := fs, cwd_ip := d\<rparr>)"
  by (simp add: acc_def counted_def icache_wf_def)

lemma set_ofiles_acc1: "acc F I (es, c) s \<Longrightarrow> acc F I (fs, c) (s\<lparr>ofiles := fs\<rparr>)"
  by (simp add: acc_def counted_def icache_wf_def)

lemma set_user_acc: "acc F I W s \<Longrightarrow> acc F I W (s\<lparr>umem := m, uesp := e\<rparr>)"
  by (simp add: acc_def counted_def icache_wf_def)

lemma set_cwd_acc: "acc F I (es, c) s \<Longrightarrow> acc F I (es, d) (s\<lparr>cwd_ip := d\<rparr>)"
  by (simp add: acc_def counted_def icache_wf_def)

lemma fd_refs_set: "fd < length es \<Longrightarrow> es ! fd = None \<Longrightarrow> fd_refs (es[fd := Some f]) = add_mset f (fd_refs es)"
  using fd_refs_update [of fd es "Some f"] by (simp add: fd_ref_def)

lemma fd_refs_clear: "fd < length es \<Longrightarrow> es ! fd = Some f \<Longrightarrow> fd_refs es = add_mset f (fd_refs (es[fd := None]))"
  using fd_refs_update [of fd es None] by (simp add: fd_ref_def)

lemma fdalloc_acc:
  assumes "acc F I (es, c) s" "fdalloc f s = (t, fd)"
  shows "if fd < 0 then t = s
    else nat fd < length es \<and> es ! nat fd = None \<and> acc F I (es[nat fd := Some f], c) t"
proof (cases "find_index (\<lambda>e. e = None) (ofiles s)")
  case None
  then show ?thesis using assms(2) by (simp add: fdalloc_def)
next
  case (Some k)
  have es: "ofiles s = es" using acc_user [OF assms(1)] by simp
  have "k < length es" "es ! k = None" using Some es by (auto simp: find_index_Some_iff)
  then show ?thesis using assms Some es set_ofiles_acc1 [OF assms(1)] by (auto simp: fdalloc_def)
qed

lemma sint_nonneg: "0 \<le> sint (w :: u32) \<Longrightarrow> int (unat w) = sint w"
proof -
  assume "0 \<le> sint w"
  moreover have "sint w = (uint w + 2 ^ 31) mod 2 ^ 32 - 2 ^ 31" using int_word_sint [of "uint w", where 'a = 32] by simp
  moreover have "0 \<le> uint w" "uint w < 2 ^ 32" using uint_lt2p [of w] by simp_all
  ultimately have w: "0 \<le> (uint w + 2 ^ 31) mod 2 ^ 32 - 2 ^ 31" "sint w = (uint w + 2 ^ 31) mod 2 ^ 32 - 2 ^ 31" "0 \<le> uint w" "uint w < 2 ^ 32" by simp_all
  have "uint w < 2 ^ 31"
  proof (rule ccontr)
    assume "\<not> uint w < 2 ^ 31"
    then have "(uint w - 2 ^ 31 + 2 ^ 32) mod 2 ^ 32 = uint w - 2 ^ 31" using w(4) by (simp only: mod_add_self2) (simp add: mod_pos_pos_trivial)
    then show False using w(1,4) by (simp add: add.commute)
  qed
  then have "(uint w + 2 ^ 31) mod 2 ^ 32 = uint w + 2 ^ 31" using w(3) by (intro mod_pos_pos_trivial) auto
  then show ?thesis using w(2) by simp
qed

lemma argfd_acc: "argfd n s = Some (fd, f) \<Longrightarrow> length (ofiles s) = NOFILE \<Longrightarrow> fd < length (ofiles s) \<and> ofiles s ! fd = Some f"
proof -
  assume a: "argfd n s = Some (fd, f)" and l: "length (ofiles s) = NOFILE"
  obtain w :: u32 where w: "0 \<le> sint w" "sint w < int NOFILE" "fd = unat w" "ofiles s ! fd = Some f"
    using a by (auto simp: argfd_def not_less not_le split: option.splits if_splits)
  have "int (unat w) < int NOFILE" unfolding sint_nonneg [OF w(1)] by (rule w(2))
  then have "unat w < NOFILE" by (simp only: of_nat_less_iff)
  then show ?thesis using w(3,4) l by simp
qed


lemma fd_in_refs: "fd < length es \<Longrightarrow> es ! fd = Some f \<Longrightarrow> f \<in># fd_refs es"
  using fd_refs_clear [of fd es f] by simp

lemma sys_dup_acc:
  assumes a: "accounted D P s"
  shows "ensures (sys_dup s) (\<lambda>(t, r). accounted D P t)"
proof (cases "argfd 0 s")
  case (Some x)
  obtain fd0 f where x: "x = (fd0, f)" by (cases x)
  obtain t fd where t: "fdalloc f s = (t, fd)" by (cases "fdalloc f s")
  let ?es = "ofiles s"
  have l: "length ?es = NOFILE" and A: "acc (fd_refs ?es + D) (add_mset (cwd_ip s) P) (?es, cwd_ip s) s" using a by (auto simp: accounted_def)
  have f: "f \<in># fd_refs ?es + D" using argfd_acc [of 0 s fd0 f] Some x l fd_in_refs by fastforce
  show ?thesis
  proof (cases "fd < 0")
    case True
    then show ?thesis using Some x t a fdalloc_acc [OF A t] by (simp add: sys_dup_def)
  next
    case False
    then have T: "nat fd < length ?es" "?es ! nat fd = None" "acc (fd_refs ?es + D) (add_mset (cwd_ip s) P) (?es[nat fd := Some f], cwd_ip s) t"
      using fdalloc_acc [OF A t] by auto
    have "ensures (filedup f t) (accounted D P)"
      using filedup_acc [OF T(3) f] fd_refs_set [OF T(1,2), of f] l by (auto intro!: accountedI [of "?es[nat fd := Some f]"] elim!: ensures_mono)
    then show ?thesis using Some x t False by (auto simp: sys_dup_def intro: ensures_then)
  qed
qed (use a in \<open>simp add: sys_dup_def\<close>)

lemma sys_close_acc:
  assumes a: "accounted D P s"
  shows "ensures (sys_close ke s) (\<lambda>(t, r). accounted D P t)"
proof (cases "argfd 0 s")
  case (Some x)
  obtain fd f where x: "x = (fd, f)" by (cases x)
  let ?es = "ofiles s"
  have l: "length ?es = NOFILE" and A: "acc (fd_refs ?es + D) (add_mset (cwd_ip s) P) (?es, cwd_ip s) s" using a by (auto simp: accounted_def)
  have f: "fd < length ?es" "?es ! fd = Some f" using argfd_acc [of 0 s fd f] Some x l by auto
  have "acc (add_mset f (fd_refs (?es[fd := None]) + D)) (add_mset (cwd_ip s) P) (?es[fd := None], cwd_ip s) (s\<lparr>ofiles := ?es[fd := None]\<rparr>)"
    using set_ofiles_acc1 [OF A, of "?es[fd := None]"] fd_refs_clear [OF f] by simp
  from fileclose_acc [OF this, of ke] have "ensures (fileclose ke f (s\<lparr>ofiles := ?es[fd := None]\<rparr>)) (accounted D P)"
    using l by (auto intro!: accountedI [of "?es[fd := None]"] elim!: ensures_mono)
  then show ?thesis using Some x by (auto simp: sys_close_def intro: ensures_then)
qed (use a in \<open>simp add: sys_close_def\<close>)

lemma two_closed:
  assumes "acc (add_mset rf (add_mset wrf (fd_refs es + D))) (add_mset c P) (es, c) u" "length es = NOFILE"
  shows "ensures (and_then (fileclose ke rf u) (\<lambda>s. and_then (fileclose ke wrf s) (\<lambda>s. Done (s, -1)))) (\<lambda>(t, r). accounted D P t)"
  apply (rule ensures_then [OF fileclose_acc [OF assms(1)]])
  apply (rule ensures_then [OF fileclose_acc], assumption)
  using assms(2) by (simp add: accountedI)

lemma pipe_fds_acc:
  assumes u: "acc (add_mset rf (add_mset wrf (fd_refs es + D))) (add_mset c P) (es, c) u" and l: "length es = NOFILE"
  shows "ensures (pipe_fds ke p rf wrf u) (\<lambda>(t, r). accounted D P t)"
proof -
  let ?F = "add_mset rf (add_mset wrf (fd_refs es + D))" and ?I = "add_mset c P"
  obtain t fd0 where t: "fdalloc rf u = (t, fd0)" by (cases "fdalloc rf u")
  show ?thesis
  proof (cases "fd0 < 0")
    case True
    then show ?thesis using t fdalloc_acc [OF u t] two_closed [OF u l] by (simp add: pipe_fds_def)
  next
    case False
    then have T: "nat fd0 < length es" "es ! nat fd0 = None" "acc ?F ?I (es[nat fd0 := Some rf], c) t"
      using fdalloc_acc [OF u t] by auto
    let ?e1 = "es[nat fd0 := Some rf]"
    obtain v fd1 where v: "fdalloc wrf t = (v, fd1)" by (cases "fdalloc wrf t")
    show ?thesis
    proof (cases "fd1 < 0")
      case True
      have "v = t" "ofiles t = ?e1" using True fdalloc_acc [OF T(3) v] acc_user [OF T(3)] by auto
      moreover have "?e1[nat fd0 := None] = es" using T(1,2) by (simp add: list_update_same_conv [THEN iffD2])
      ultimately show ?thesis using t v False True two_closed [OF set_ofiles_acc1 [OF T(3), of es] l] by (simp add: pipe_fds_def)
    next
      case False
      then have V: "nat fd1 < length ?e1" "?e1 ! nat fd1 = None" "acc ?F ?I (?e1[nat fd1 := Some wrf], c) v"
        using fdalloc_acc [OF T(3) v] by auto
      have "accounted D P v"
        using V(3) fd_refs_set [OF V(1,2), of wrf] fd_refs_set [OF T(1,2), of rf] l
        by (intro accountedI [of "?e1[nat fd1 := Some wrf]" D c]) (simp_all add: add_mset_commute)
      then show ?thesis using t v False \<open>\<not> fd0 < 0\<close> by (simp add: pipe_fds_def accounted_def)
    qed
  qed
qed

lemma sys_pipe_acc:
  assumes a: "accounted D P s"
  shows "ensures (sys_pipe ke s) (\<lambda>(t, r). accounted D P t)"
proof -
  have l: "length (ofiles s) = NOFILE" and A: "acc (fd_refs (ofiles s) + D) (add_mset (cwd_ip s) P) (ofiles s, cwd_ip s) s"
    using a by (auto simp: accounted_def)
  show ?thesis unfolding sys_pipe_def
    apply (clarsimp split: option.split simp: a)
    apply (rule ensures_then2 [OF pipealloc_acc [OF A]])
    apply (auto split: option.splits intro: accountedI pipe_fds_acc l)
    done
qed

lemma open_file_acc:
  assumes a: "acc (fd_refs es + D) (add_mset ip (add_mset c P)) (es, c) s" and l: "length es = NOFILE"
  shows "ensures (open_file ke ip omode s) (\<lambda>(t, r). accounted D P t)"
proof -
  let ?F = "fd_refs es + D" and ?I = "add_mset c P"
  have out: "ensures (and_then (iunlockput ip u) (leave (-1))) (\<lambda>(t, r). accounted D P t)" if "acc ?F (add_mset ip ?I) (es, c) u" for u
    using put_leave_acc [OF that, of "-1"] l by (auto intro: accountedI elim!: ensures_mono)
  obtain t r where t: "filealloc s = (t, r)" by (cases "filealloc s")
  show ?thesis
  proof (cases r)
    case None
    then show ?thesis using t filealloc_acc [OF a] out [OF a] by (simp add: open_file_def)
  next
    case (Some f)
    have T: "acc (add_mset f ?F) (add_mset ip ?I) (es, c) t" "ftype (files t ! f) = FD_NONE" "f < length (files t)" "fref (files t ! f) = 1"
      using t Some filealloc_acc [OF a] by auto
    obtain u fd where u: "fdalloc f t = (u, fd)" by (cases "fdalloc f t")
    show ?thesis
    proof (cases "fd < 0")
      case True
      have "ensures (and_then (fileclose ke f t) (\<lambda>s. and_then (iunlockput ip s) (leave (-1)))) (\<lambda>(t, r). accounted D P t)"
        by (rule ensures_then [OF fileclose_acc [OF T(1)]]) (rule out)
      then show ?thesis using True fdalloc_acc [OF T(1) u] t Some u by (simp add: open_file_def)
    next
      case False
      let ?e = "es[nat fd := Some f]"
      have U: "nat fd < length es" "es ! nat fd = None" "acc (add_mset f ?F) (add_mset ip ?I) (?e, c) u"
        using False fdalloc_acc [OF T(1) u] by auto
      have fu: "files u = files t" using u by (auto simp: fdalloc_def split: option.splits)
      define g :: "kfile \<Rightarrow> kfile" where "g = (\<lambda>x. x\<lparr>ftype := FD_INODE, freadable := omode AND O_WRONLY = 0,
                   fwritable := omode AND O_WRONLY \<noteq> 0 \<or> omode AND O_RDWR \<noteq> 0, fip := ip, foff := 0\<rparr>)"
      have fin: "accounted D P (set_file f g w)"
        if w: "acc (add_mset f ?F) (add_mset ip ?I) (?e, c) w" "files w = files t" for w
      proof (rule accountedI [of ?e D c])
        show "acc (fd_refs ?e + D) ?I (?e, c) (set_file f g w)"
          by (rule acc_set_file [OF w(1), where i = f and g = "g (files t ! f)"])
            (use T w U w(1) fd_refs_set [OF U(1,2), of f] in \<open>auto simp: upd_at_def ino_ref_def g_def acc_def\<close>)
      qed (use l in simp)
      have "ensures (and_then (iunlock ip u) (\<lambda>s. and_then (end_op s) (\<lambda>s. Done (set_file f g s, fd)))) (\<lambda>(t, r). accounted D P t)"
      proof (rule ensuresI, clarify)
        fix x y assume "and_then (iunlock ip u) (\<lambda>s. and_then (end_op s) (\<lambda>s. Done (set_file f g s, fd))) = Done (x, y)"
        then obtain v w where v: "iunlock ip u = Done v" "end_op v = Done w" "x = set_file f g w" by (auto simp: outcome_simps)
        have vw: "ids v = ids u" "ids w = ids v" using iunlock_ids [OF v(1)] ids_eq [OF end_op_beyond [OF v(2)]] by auto
        then have "acc (add_mset f ?F) (add_mset ip ?I) (?e, c) w" using acc_ids [OF _ U(3), of w] by simp
        moreover have "files w = files t" using vw fu more_user(1) [of w u] by (simp add: ids_def)
        ultimately show "accounted D P x" unfolding v(3) by (rule fin)
      qed
      then show ?thesis using False t Some u by (simp add: open_file_def g_def)
    qed
  qed
qed

lemma open_then:
  assumes "acc F I W s" "cwd \<in># I" "\<And>t. acc F I W t \<Longrightarrow> ensures (f (t, None)) Q"
    "\<And>t ip. acc F (add_mset ip I) W t \<Longrightarrow> ensures (f (t, Some ip)) Q"
  shows "ensures (and_then (open_inode dv cwd path omode s) f) Q"
  using found_then [where g = "\<lambda>x. x", OF open_inode_acc [OF assms(1,2)] assms(3,4)] by simp

lemma leave_accounted: "acc (fd_refs es + D) (add_mset c P) (es, c) s \<Longrightarrow> length es = NOFILE \<Longrightarrow> ensures (leave v s) (\<lambda>(t, r). accounted D P t)"
  by (drule leave_acc [where v = v]) (auto intro: accountedI elim!: ensures_mono)

lemma sys_open_acc:
  assumes a: "accounted D P s"
  shows "ensures (sys_open ke dv s) (\<lambda>(t, r). accounted D P t)"
proof -
  have l: "length (ofiles s) = NOFILE" and A: "acc (fd_refs (ofiles s) + D) (add_mset (cwd_ip s) P) (ofiles s, cwd_ip s) s"
    using a by (auto simp: accounted_def)
  show ?thesis unfolding sys_open_def
    apply (clarsimp split: option.split simp: a)
    apply (rule ensures_then [OF begin_op_acc [OF A]])
    apply (rule open_then, assumption, erule acc_cwd(1), simp)
    using l by (simp_all add: leave_accounted open_file_acc)
qed

lemma sys_chdir_acc:
  assumes a: "accounted D P s"
  shows "ensures (sys_chdir dv s) (\<lambda>(t, r). accounted D P t)"
proof -
  let ?es = "ofiles s" and ?c = "cwd_ip s"
  let ?F = "fd_refs ?es + D"
  have l: "length ?es = NOFILE" and A: "acc ?F (add_mset ?c P) (?es, ?c) s" using a by (auto simp: accounted_def)
  have fin: "ensures (and_then (iput (cwd_ip u) u) (\<lambda>s. and_then (end_op s) (\<lambda>s. Done (s\<lparr>cwd_ip := ip\<rparr>, 0)))) (\<lambda>(t, r). accounted D P t)"
    if u: "acc ?F (add_mset ip (add_mset ?c P)) (?es, ?c) u" for u ip
    apply (rule ensures_then [OF iput_acc])
     apply (rule acc_swap, simp add: acc_user [OF u], rule u)
    apply (rule ensures_then [OF end_op_acc], assumption, simp)
    using l by (auto intro!: accountedI [of ?es D ip] set_cwd_acc)
  have bad: "ensures (and_then (iunlockput ip u) (leave (-1))) (\<lambda>(t, r). accounted D P t)" if "acc ?F (add_mset ip (add_mset ?c P)) (?es, ?c) u" for u ip
    using put_leave_acc [OF that, of "-1"] l by (auto intro: accountedI elim!: ensures_mono)
  show ?thesis unfolding sys_chdir_def
    apply (rule ensures_then [OF begin_op_acc [OF A]])
    apply (clarsimp split: option.split simp: leave_accounted l)
    apply (rule namei_then, assumption, erule acc_cwd(1), simp, simp add: leave_accounted l, simp)
    apply (rule ensures_then [OF ilock_acc], assumption)
    apply (clarsimp simp: bad)
    apply (rule ensures_then [OF iunlock_acc], assumption, erule fin)
    done
qed


subsection \<open>Processes come and go\<close>

lemma idup_acc: "acc F I W s \<Longrightarrow> i \<in># I \<Longrightarrow> acc F (add_mset i I) W (idup i s)"
  using acc_in [of F I W s i] idup_owns [OF acc_owns, of F I W s i] owns_acc [of s "idup i s" "add_mset i I" F I W] by simp

lemma fd_refs_take: "n < length es \<Longrightarrow> fd_refs (take (Suc n) es) = fd_refs (take n es) + fd_ref (es ! n)"
  by (simp add: fd_refs_def take_Suc_conv_app_nth)

lemma fd_refs_drop: "n < length es \<Longrightarrow> fd_refs (drop n es) = fd_ref (es ! n) + fd_refs (drop (Suc n) es)"
  by (simp add: fd_refs_def Cons_nth_drop_Suc [symmetric])

lemma ensures_each_upt:
  assumes "ensures (each f [0..<n] s) A" "\<And>u. A u \<Longrightarrow> ensures (f n u) B"
  shows "ensures (each f [0..<Suc n] s) B"
  unfolding upt_Suc_append [OF le0] each_append
  by (rule ensures_then [OF assms(1)], simp, rule ensures_then [OF assms(2)]) simp_all

lemma fork_loop_acc:
  assumes a: "acc (fd_refs es + D) I (es, c) s" and n: "n \<le> length es"
  shows "ensures (each (\<lambda>i s. case ofiles s ! i of None \<Rightarrow> Done s | Some f \<Rightarrow> filedup f s) [0..<n] s)
    (acc (fd_refs (take n es) + (fd_refs es + D)) I (es, c))"
  using n
proof (induction n)
  case 0
  then show ?case using a by (simp add: fd_refs_def)
next
  case (Suc n)
  let ?A = "acc (fd_refs (take n es) + (fd_refs es + D)) I (es, c)"
  have "ensures (case ofiles u ! n of None \<Rightarrow> Done u | Some f \<Rightarrow> filedup f u) (acc (fd_refs (take (Suc n) es) + (fd_refs es + D)) I (es, c))" if u: "?A u" for u
  proof (cases "es ! n")
    case None
    then show ?thesis using u Suc.prems acc_user [OF u] fd_refs_take [of n es] by (simp add: fd_ref_def)
  next
    case (Some f)
    have "f \<in># fd_refs (take n es) + (fd_refs es + D)" using fd_in_refs [OF _ Some] Suc.prems by simp
    from filedup_acc [OF u this] show ?thesis using Some Suc.prems acc_user [OF u] fd_refs_take [of n es] by (simp add: fd_ref_def)
  qed
  then show ?case using Suc by (intro ensures_each_upt [where A = ?A]) simp_all
qed

lemma fork_files_acc:
  assumes a: "accounted D P s"
  shows "ensures (fork_files (replicate NOFILE None) s) (\<lambda>(t, es, c). es = ofiles s \<and> c = cwd_ip s \<and>
    accounted (fd_refs (ofiles s) + D) (add_mset (cwd_ip s) P) t)"
proof -
  let ?es = "ofiles s" and ?c = "cwd_ip s"
  have l: "length ?es = NOFILE" and A: "acc (fd_refs ?es + D) (add_mset ?c P) (?es, ?c) s" using a by (auto simp: accounted_def)
  have m: "map (\<lambda>i. if ?es ! i \<noteq> None then ?es ! i else replicate NOFILE None ! i) [0..<NOFILE] = ?es"
    using l by (intro nth_equalityI) auto
  show ?thesis unfolding fork_files_def
  proof (rule ensures_then [OF fork_loop_acc [OF A, of NOFILE]])
    fix t assume t: "acc (fd_refs (take NOFILE ?es) + (fd_refs ?es + D)) (add_mset ?c P) (?es, ?c) t"
    then have "acc (fd_refs ?es + (fd_refs ?es + D)) (add_mset ?c (add_mset ?c P)) (?es, ?c) (idup ?c t)"
      using idup_acc [OF t, of ?c] l by simp
    then show "ensures (Done (idup (cwd_ip t) t, map (\<lambda>i. if ?es ! i \<noteq> None then ?es ! i else replicate NOFILE None ! i) [0..<NOFILE], cwd_ip t))
      (\<lambda>(t, es, c). es = ?es \<and> c = ?c \<and> accounted (fd_refs ?es + D) (add_mset ?c P) t)"
      unfolding m using acc_user [OF t] l by (auto intro: accountedI)
  qed (use l in simp)
qed

lemma exit_loop_acc:
  assumes a: "acc (fd_refs es + D) I (es, c) s" and n: "n \<le> length es"
  shows "ensures (each (\<lambda>fd s. case ofiles s ! fd of None \<Rightarrow> Done s
         | Some f \<Rightarrow> and_then (fileclose ke f s) (\<lambda>s. Done (s\<lparr>ofiles := (ofiles s)[fd := None]\<rparr>))) [0..<n] s)
    (acc (fd_refs (drop n es) + D) I (replicate n None @ drop n es, c))"
  using n
proof (induction n)
  case 0
  then show ?case using a by simp
next
  case (Suc n)
  let ?A = "acc (fd_refs (drop n es) + D) I (replicate n None @ drop n es, c)"
  let ?B = "acc (fd_refs (drop (Suc n) es) + D) I (replicate (Suc n) None @ drop (Suc n) es, c)"
  have "ensures (case ofiles u ! n of None \<Rightarrow> Done u
         | Some f \<Rightarrow> and_then (fileclose ke f u) (\<lambda>s. Done (s\<lparr>ofiles := (ofiles s)[n := None]\<rparr>))) ?B" if u: "?A u" for u
  proof -
    have e: "ofiles u = replicate n None @ es ! n # drop (Suc n) es" using acc_user [OF u] Suc.prems by (simp add: Cons_nth_drop_Suc)
    have r: "replicate (Suc n) None = replicate n None @ [None]" for n by (simp add: replicate_append_same)
    show ?thesis
    proof (cases "es ! n")
      case None
      have "?B u" using u e acc_user [OF u] fd_refs_drop [of n es] Suc.prems None by (simp add: fd_ref_def r del: replicate_Suc)
      then show ?thesis using e None by (simp add: nth_append)
    next
      case (Some f)
      have "acc (add_mset f (fd_refs (drop (Suc n) es) + D)) I (replicate n None @ es ! n # drop (Suc n) es, c) u"
        using u e acc_user [OF u] fd_refs_drop [of n es] Suc.prems Some by (simp add: fd_ref_def)
      from fileclose_acc [OF this, of ke] show ?thesis unfolding e using Some
        by (simp add: nth_append r del: replicate_Suc)
          (rule ensures_then, assumption, use acc_user set_ofiles_acc1 in \<open>fastforce simp: list_update_append\<close>)
    qed
  qed
  then show ?case using Suc by (intro ensures_each_upt [where A = ?A]) simp_all
qed

lemma exit_files_acc:
  assumes a: "accounted D P s"
  shows "ensures (exit_files ke s) (acc D P (replicate NOFILE None, cwd_ip s))"
proof -
  have l: "length (ofiles s) = NOFILE" and A: "acc (fd_refs (ofiles s) + D) (add_mset (cwd_ip s) P) (ofiles s, cwd_ip s) s" using a by (auto simp: accounted_def)
  have e: "fd_refs (drop NOFILE (ofiles s)) + D = D" "replicate NOFILE None @ drop NOFILE (ofiles s) = replicate NOFILE None" using l by (simp_all add: fd_refs_def)
  show ?thesis unfolding exit_files_def
    apply (rule ensures_then [OF exit_loop_acc [OF A, of NOFILE, unfolded e]])
     apply (simp add: l)
    apply (rule ensures_then [OF begin_op_acc], assumption)
    apply (rule ensures_then [OF iput_acc])
     apply (subst acc_user [THEN conjunct2], assumption, simp)
    apply (erule end_op_acc)
    done
qed

text \<open>
  The file system calls of all processes.  The current process is the one in
  the state; \<open>D\<close> and \<open>P\<close> are the descriptors and the working directories of all
  others.
\<close>

inductive file_call :: "u32 \<Rightarrow> 'a ustate_scheme devsw \<Rightarrow> 'a ustate_scheme \<Rightarrow> 'a ustate_scheme \<Rightarrow> bool" for ke dv where
  "sys_dup s = Done (t, r) \<Longrightarrow> file_call ke dv s t"
| "sys_read dv s = Done (t, r) \<Longrightarrow> file_call ke dv s t"
| "sys_write dv s = Done (t, r) \<Longrightarrow> file_call ke dv s t"
| "sys_close ke s = Done (t, r) \<Longrightarrow> file_call ke dv s t"
| "sys_fstat s = Done (t, r) \<Longrightarrow> file_call ke dv s t"
| "sys_link dv s = Done (t, r) \<Longrightarrow> file_call ke dv s t"
| "sys_unlink dv s = Done (t, r) \<Longrightarrow> file_call ke dv s t"
| "sys_open ke dv s = Done (t, r) \<Longrightarrow> file_call ke dv s t"
| "sys_mkdir dv s = Done (t, r) \<Longrightarrow> file_call ke dv s t"
| "sys_mknod dv s = Done (t, r) \<Longrightarrow> file_call ke dv s t"
| "sys_chdir dv s = Done (t, r) \<Longrightarrow> file_call ke dv s t"
| "sys_pipe ke s = Done (t, r) \<Longrightarrow> file_call ke dv s t"

inductive file_run :: "u32 \<Rightarrow> 'a ustate_scheme devsw \<Rightarrow> nat multiset \<Rightarrow> nat multiset \<Rightarrow> 'a ustate_scheme \<Rightarrow> bool" for ke dv where
  start: "accounted D P s \<Longrightarrow> file_run ke dv D P s"
| call: "file_run ke dv D P s \<Longrightarrow> file_call ke dv s t \<Longrightarrow> file_run ke dv D P t"
| user: "file_run ke dv D P s \<Longrightarrow> file_run ke dv D P (s\<lparr>umem := m, uesp := e\<rparr>)"
| fork: "file_run ke dv D P s \<Longrightarrow> fork_files (replicate NOFILE None) s = Done (t, es, c) \<Longrightarrow>
    file_run ke dv (fd_refs es + D) (add_mset c P) t"
| exit: "file_run ke dv (fd_refs es + D) (add_mset c P) s \<Longrightarrow> exit_files ke s = Done t \<Longrightarrow> length es = NOFILE \<Longrightarrow>
    file_run ke dv D P (t\<lparr>ofiles := es, cwd_ip := c\<rparr>)"
| switch: "file_run ke dv (fd_refs es + D) (add_mset c P) s \<Longrightarrow> length es = NOFILE \<Longrightarrow>
    file_run ke dv (fd_refs (ofiles s) + D) (add_mset (cwd_ip s) P) (s\<lparr>ofiles := es, cwd_ip := c\<rparr>)"

lemma file_call_accounted:
  assumes "file_call ke dv s t" "dev_ok dv" "accounted D P s"
  shows "accounted D P t"
proof -
  let ?F = "fd_refs (ofiles s) + D" and ?I = "add_mset (cwd_ip s) P" and ?W = "(ofiles s, cwd_ip s)"
  have same: "accounted D P t" if "ensures m (\<lambda>(t, r). acc ?F ?I ?W t)" "m = Done (t, r)" for m r
    using that assms(3) by (auto simp: ensures_def accounted_def [of D P s] intro: accountedI)
  have A: "acc ?F ?I ?W s" and c: "snd ?W \<in># ?I" using assms(3) by (auto simp: accounted_def)
  show ?thesis using assms(1)
  proof cases
    case (1 r) then show ?thesis using sys_dup_acc [OF assms(3)] by (auto dest: ensures_Done)
  next
    case (2 r) show ?thesis by (rule same [OF sys_read_acc [OF assms(2) A] 2])
  next
    case (3 r) show ?thesis by (rule same [OF sys_write_acc [OF assms(2) A] 3])
  next
    case (4 r) then show ?thesis using sys_close_acc [OF assms(3)] by (auto dest: ensures_Done)
  next
    case (5 r) show ?thesis by (rule same [OF sys_fstat_acc [OF A] 5])
  next
    case (6 r) show ?thesis by (rule same [OF sys_link_acc [OF A c] 6])
  next
    case (7 r) show ?thesis by (rule same [OF sys_unlink_acc [OF assms(2) A c] 7])
  next
    case (8 r) then show ?thesis using sys_open_acc [OF assms(3)] by (auto dest: ensures_Done)
  next
    case (9 r) show ?thesis by (rule same [OF sys_mkdir_acc [OF A c] 9])
  next
    case (10 r) show ?thesis by (rule same [OF sys_mknod_acc [OF A c] 10])
  next
    case (11 r) then show ?thesis using sys_chdir_acc [OF assms(3)] by (auto dest: ensures_Done)
  next
    case (12 r) then show ?thesis using sys_pipe_acc [OF assms(3)] by (auto dest: ensures_Done)
  qed
qed

lemma file_run_accounted:
  assumes "file_run ke dv D P s" "dev_ok dv" shows "accounted D P s"
  using assms(1)
proof induction
  case (call D P s t)
  show ?case by (rule file_call_accounted [OF call.hyps(2) assms(2) call.IH])
next
  case (user D P s m e)
  from user.IH have "accounted D P s" .
  then show ?case unfolding accounted_def by (auto intro: set_user_acc)
next
  case (fork D P s t es c)
  from ensures_Done [OF fork_files_acc [OF fork.IH] fork.hyps(2)] show ?case by simp
next
  case (exit es D c P s t)
  from set_ofiles_acc [OF ensures_Done [OF exit_files_acc [OF exit.IH] exit.hyps(2)], of es c] exit.hyps(3)
  show ?case by (simp add: accounted_def)
next
  case (switch es D c P s)
  have "acc (fd_refs (ofiles s) + (fd_refs es + D)) (add_mset (cwd_ip s) (add_mset c P)) (ofiles s, cwd_ip s) s"
    using switch.IH by (simp add: accounted_def)
  from set_ofiles_acc [OF this, of es c] switch.hyps(2) show ?case
    by (simp add: accounted_def ac_simps add_mset_commute)
qed simp


text \<open>
  C27: References are counted exactly, in every state that any sequence of file
  system calls, forks, exits and context switches of any number of processes
  reaches.  The count of an open file is the number of descriptors on it, over
  the current process and all others (\<open>D\<close>); a file without descriptors is free.
  The count of a cached inode is the number of open files on it plus the number
  of processes whose working directory it is (\<open>P\<close> for the others).  So no
  descriptor is ever left on a file that was freed, no open file on an inode
  slot that was recycled, and no error path leaks a reference.  The hypothesis is that
  device routines leave the tables alone.
\<close>

theorem references_counted:
  assumes "file_run ke dv D P s" "dev_ok dv"
  shows "(\<forall>i<length (files s). fref (files s ! i) = int (count (fd_refs (ofiles s) + D) i) \<and>
      (fref (files s ! i) = 0 \<longrightarrow> ftype (files s ! i) = FD_NONE)) \<and>
    (\<forall>i\<in>#fd_refs (ofiles s) + D. i < length (files s)) \<and>
    (\<forall>k<length (inodes s). iref (inodes s ! k) = int (count (ino_refs (files s) + add_mset (cwd_ip s) P) k)) \<and>
    (\<forall>k\<in>#ino_refs (files s) + add_mset (cwd_ip s) P. k < length (inodes s))"
  using file_run_accounted [OF assms] unfolding accounted_def acc_def counted_def by blast

definition fd_demo :: ustate where
  "fd_demo = \<lparr>bufs = [], bnext = [], bprev = [], disk = \<lambda>_. [], writes = [], disksize = 0, curpid = 1,
     log_start = 2, log_size = 30, outstanding = 0, committing = False, log_dev = 1, lh_n = 0, lh_block = [],
     sb = fs_sb, inodes = [\<lparr>idev = 1, inum = 1, iref = 2, ilk = \<lparr>sl_locked = False, sl_pid = 0\<rparr>, ivalid = False,
       itype = 0, imajor = 0, iminor = 0, inlink = 0, isize = 0, iaddrs = []\<rparr>],
     files = [\<lparr>ftype = FD_INODE, fref = 1, freadable = True, fwritable = False, fpipe = 0, fip = 0, foff = 0\<rparr>],
     pipes = \<lambda>_. None, pages = \<lparr>kmem_mem = \<lambda>_. 0, use_lock = True, freelist = 0\<rparr>, is_killed = False,
     ofiles = Some 0 # replicate 15 None, cwd_ip = 0, umem = \<lambda>_. 0, uesp = 0\<rparr>"

theorem references_counted_witness:
  "\<exists>t. sys_dup fd_demo = Done (t, 1) \<and> fref (files t ! 0) = int (count (fd_refs (ofiles t)) 0)"
proof -
  let ?t = "(fd_demo\<lparr>ofiles := Some 0 # Some 0 # replicate 14 None\<rparr>)\<lparr>files := [(files fd_demo ! 0)\<lparr>fref := 2\<rparr>]\<rparr>"
  have r: "replicate 15 None = None # replicate 14 None" by (simp add: numeral_eq_Suc)
  have "arg_int 0 fd_demo = Some 0" by (simp add: argint_def fetchint_def fd_demo_def load32_def KERNBASE_def)
  then have d: "sys_dup fd_demo = Done (?t, 1)"
    by (simp add: sys_dup_def argfd_def layout_defs) (simp add: fd_demo_def r fdalloc_def filedup_def upd_at_def)
  have "accounted {#} {#} fd_demo"
    by (simp add: accounted_def acc_def counted_def icache_wf_def fd_demo_def fd_refs_def ino_refs_def fd_ref_def ino_ref_def layout_defs)
  then have "file_run 0 no_devices {#} {#} ?t" by (intro file_run.call [OF file_run.start file_call.intros(1) [OF d]])
  from references_counted [OF this] d show ?thesis by (auto simp: dev_ok_def no_devices_def)
qed

end
