(* ===== verification/Shell.thy ===== *)
theory Shell
  imports Layout
begin

text \<open>
  The shell's parser, \<^verbatim>\<open>sh.c\<close>.  The line is a string \<open>b\<close>, the characters of
  \<^verbatim>\<open>buf\<close> before its NUL; pointers into it are positions, \<^verbatim>\<open>es\<close> is
  \<open>length b\<close>, and a read at \<^verbatim>\<open>es\<close> finds the NUL.  A command node keeps the
  positions where its words begin and end until \<^verbatim>\<open>nulterminate\<close> cuts the
  line into C strings.  \<open>Panic\<close> is the shell's own \<^verbatim>\<open>panic\<close>: a message and
  \<^verbatim>\<open>exit\<close>.  Memory for the nodes is taken to be available.
\<close>

type_synonym pos = nat

abbreviation NUL :: char where "NUL \<equiv> CHR 0x00"

definition MAXARGS :: nat where "MAXARGS = 10"

definition whitespace :: string where
  "whitespace = [CHR '' '', CHR 0x09, CHR 0x0D, CHR 0x0A, CHR 0x0B]"

definition symbols :: string where "symbols = ''<|>&;()''"

datatype cmd =
    EXEC "(pos \<times> pos) list"
  | REDIR cmd pos pos u32 nat
  | PIPE cmd cmd
  | LIST cmd cmd
  | BACK cmd

definition execcmd :: cmd where
  [simp]: "execcmd = EXEC []"

definition redircmd :: "cmd \<Rightarrow> pos \<Rightarrow> pos \<Rightarrow> u32 \<Rightarrow> nat \<Rightarrow> cmd" where
  [simp]: "redircmd subcmd file efile mode fd = REDIR subcmd file efile mode fd"

definition pipecmd :: "cmd \<Rightarrow> cmd \<Rightarrow> cmd" where
  [simp]: "pipecmd left right = PIPE left right"

definition listcmd :: "cmd \<Rightarrow> cmd \<Rightarrow> cmd" where
  [simp]: "listcmd left right = LIST left right"

definition backcmd :: "cmd \<Rightarrow> cmd" where
  [simp]: "backcmd subcmd = BACK subcmd"

subsection \<open>Tokens\<close>

fun strchr :: "string \<Rightarrow> char \<Rightarrow> bool" where
  "strchr [] c \<longleftrightarrow> False"
| "strchr (x # s) c \<longleftrightarrow> x = c \<or> strchr s c"

definition char_at :: "string \<Rightarrow> pos \<Rightarrow> char" where
  "char_at b s = (if s < length b then b ! s else NUL)"

text \<open>\<^verbatim>\<open>while(s < es && P(*s)) s++;\<close>\<close>

function skip :: "(char \<Rightarrow> bool) \<Rightarrow> string \<Rightarrow> pos \<Rightarrow> pos" where
  "skip P b s = (if s < length b \<and> P (char_at b s) then skip P b (Suc s) else s)"
  by pat_completeness auto
termination by (relation "measure (\<lambda>(P, b, s). length b - s)") auto

declare skip.simps [simp del]

text \<open>The \<^verbatim>\<open>switch\<close> of \<^verbatim>\<open>gettoken\<close>: the token at \<open>s\<close> and where it ends.\<close>

definition token :: "string \<Rightarrow> pos \<Rightarrow> char \<times> pos" where
  "token b s =
     (if char_at b s = NUL then (NUL, s)
      else if strchr ''|();&<'' (char_at b s) then (char_at b s, Suc s)
      else if char_at b s = CHR ''>''
      then if char_at b (Suc s) = CHR ''>'' then (CHR ''+'', Suc (Suc s)) else (CHR ''>'', Suc s)
      else (CHR ''a'', skip (\<lambda>c. \<not> strchr whitespace c \<and> \<not> strchr symbols c) b s))"

definition gettoken :: "string \<Rightarrow> pos \<Rightarrow> char \<times> pos \<times> pos \<times> pos" where
  "gettoken b s =
     (let q = skip (strchr whitespace) b s;
          (ret, eq) = token b q
      in (ret, q, eq, skip (strchr whitespace) b eq))"

definition peek :: "string \<Rightarrow> pos \<Rightarrow> string \<Rightarrow> bool \<times> pos" where
  "peek b s toks =
     (let s = skip (strchr whitespace) b s
      in (char_at b s \<noteq> NUL \<and> strchr toks (char_at b s), s))"

lemma strchr_iff [simp]: "strchr s c \<longleftrightarrow> c \<in> set s"
  by (induction s) auto

abbreviation (input) space :: "char \<Rightarrow> bool" where "space \<equiv> \<lambda>c. c \<in> set whitespace"

definition plain :: "char \<Rightarrow> bool" where
  "plain c \<longleftrightarrow> c \<notin> set whitespace \<and> c \<notin> set symbols"

lemma skip_takeWhile: "skip P b s = s + length (takeWhile P (drop s b))"
proof (induction P b s rule: skip.induct)
  case (1 P b s)
  show ?case
  proof (cases "s < length b")
    case True
    then have "drop s b = b ! s # drop (Suc s) b" by (rule Cons_nth_drop_Suc [symmetric])
    then show ?thesis using 1 True by (subst skip.simps) (auto simp: char_at_def)
  qed (subst skip.simps, simp)
qed

lemma skip_ge: "s \<le> skip P b s"
  by (simp add: skip_takeWhile)

lemma skip_le: "s \<le> length b \<Longrightarrow> skip P b s \<le> length b"
  using length_takeWhile_le [of P "drop s b"] by (simp add: skip_takeWhile)

lemma skip_all: "s \<le> j \<Longrightarrow> j < skip P b s \<Longrightarrow> P (b ! j)"
proof -
  assume j: "s \<le> j" "j < skip P b s"
  then have k: "j - s < length (takeWhile P (drop s b))" by (simp add: skip_takeWhile)
  then have "takeWhile P (drop s b) ! (j - s) = drop s b ! (j - s)" by (rule takeWhile_nth)
  moreover have "P (takeWhile P (drop s b) ! (j - s))" using k nth_mem set_takeWhileD by metis
  moreover have "s + (j - s) = j" "j - s < length b - s"
    using j k length_takeWhile_le [of P "drop s b"] by simp_all
  ultimately show ?thesis using j by (simp add: nth_drop)
qed

lemma skip_stop: "skip P b s < length b \<Longrightarrow> \<not> P (b ! skip P b s)"
  using nth_length_takeWhile [of P "drop s b"] by (simp add: skip_takeWhile)

lemma skip_skip [simp]: "skip P b (skip P b s) = skip P b s"
proof (cases "skip P b s < length b")
  case True
  then show ?thesis using skip_stop [OF True] by (subst skip.simps) (simp add: char_at_def)
qed (subst skip.simps, simp)

text \<open>Parsing starts by skipping white space, so positions matter only up to white space.\<close>

abbreviation skipws :: "string \<Rightarrow> pos \<Rightarrow> pos" where "skipws \<equiv> skip (strchr whitespace)"

lemma gettoken_skipws: "skipws b s = skipws b t \<Longrightarrow> gettoken b s = gettoken b t"
  by (simp add: gettoken_def)

lemma peek_skipws: "skipws b s = skipws b t \<Longrightarrow> peek b s = peek b t"
  by (auto simp: peek_def fun_eq_iff)

definition nextc :: "string \<Rightarrow> pos \<Rightarrow> char" where
  "nextc b s = char_at b (skipws b s)"

lemma peek_nextc: "peek b s toks = (nextc b s \<noteq> NUL \<and> nextc b s \<in> set toks, skipws b s)"
  by (simp add: peek_def nextc_def Let_def)

text \<open>A word of the line: a maximal run of plain characters.\<close>

definition word_ok :: "string \<Rightarrow> pos \<times> pos \<Rightarrow> bool" where
  "word_ok b w \<longleftrightarrow> fst w < snd w \<and> snd w \<le> length b \<and> (\<forall>j. fst w \<le> j \<and> j < snd w \<longrightarrow> plain (b ! j)) \<and>
     (snd w < length b \<longrightarrow> \<not> plain (b ! snd w))"

lemma char_at_in: "char_at b s \<noteq> NUL \<Longrightarrow> s < length b \<and> char_at b s = b ! s"
  by (auto simp: char_at_def split: if_splits)

lemma plain_run [simp]: "skip (\<lambda>c. c \<notin> set whitespace \<and> c \<notin> set symbols) = skip plain"
  by (simp add: plain_def [abs_def])

lemma token_pos:
  assumes "token b s = (tok, e)" "s \<le> length b" "skipws b s = s"
  shows "e \<le> length b" "tok \<noteq> NUL \<Longrightarrow> s < e" "tok = NUL \<Longrightarrow> e = s \<and> char_at b s = NUL" "s \<le> e"
    and "tok = CHR ''a'' \<Longrightarrow> word_ok b (s, e)"
proof -
  have *: "e \<le> length b \<and> (tok \<noteq> NUL \<longrightarrow> s < e) \<and> (tok = NUL \<longrightarrow> e = s \<and> char_at b s = NUL) \<and> s \<le> e \<and>
    (tok = CHR ''a'' \<longrightarrow> word_ok b (s, e))"
  proof (cases "char_at b s = NUL \<or> char_at b s \<in> set ''|();&<>''")
    case True
    then show ?thesis using assms(1,2) char_at_in [of b s] char_at_in [of b "Suc s"] by (auto simp: token_def split: if_splits)
  next
    case False
    then have s: "s < length b" "char_at b s = b ! s" using char_at_in by auto
    then have p: "plain (b ! s)" using False skip_stop [of "strchr whitespace" b s] assms(3) by (auto simp: plain_def symbols_def)
    have e: "e = skip plain b s" "tok = CHR ''a''" using False assms(1) by (auto simp: token_def)
    have "s < e" using s p skip_ge [of "Suc s" plain b] e by (subst (asm) (2) skip.simps) simp
    then show ?thesis using e s skip_le [of s b plain] skip_all [of s _ plain b] skip_stop [of plain b s] by (auto simp: word_ok_def)
  qed
  then show "e \<le> length b" "tok \<noteq> NUL \<Longrightarrow> s < e" "tok = NUL \<Longrightarrow> e = s \<and> char_at b s = NUL" "s \<le> e"
    "tok = CHR ''a'' \<Longrightarrow> word_ok b (s, e)" by auto
qed

lemma gettoken_pos:
  assumes "gettoken b s = (tok, q, e, t)" "s \<le> length b"
  shows "s \<le> t" "t \<le> length b" "tok \<noteq> NUL \<Longrightarrow> s < t" "tok = NUL \<Longrightarrow> t = skipws b s \<and> nextc b s = NUL"
    and "tok = CHR ''a'' \<Longrightarrow> word_ok b (q, e)"
proof -
  have q: "q = skipws b s" "token b q = (tok, e)" "t = skipws b e" using assms(1) by (auto simp: gettoken_def Let_def split: prod.splits)
  have l: "s \<le> q" "q \<le> length b" "skipws b q = q" using q(1) skip_ge skip_le [OF assms(2)] by auto
  note T = token_pos [OF q(2) l(2,3)]
  show "s \<le> t" "t \<le> length b" "tok \<noteq> NUL \<Longrightarrow> s < t" "tok = NUL \<Longrightarrow> t = skipws b s \<and> nextc b s = NUL"
    using T(1-4) l q skip_ge [of e "strchr whitespace" b] skip_le [of e b "strchr whitespace"]
    by (auto simp: nextc_def)
  show "tok = CHR ''a'' \<Longrightarrow> word_ok b (q, e)" by (rule T(5))
qed

lemma gettoken_progress:
  assumes "fst (peek b s toks)" "gettoken b s = (tok, q, e, t)"
  shows "s < length b" "s < t" "t \<le> length b"
proof -
  have n: "nextc b s \<noteq> NUL" "skipws b s < length b"
    using assms char_at_in [of b "skipws b s"] by (auto simp: peek_nextc nextc_def)
  then show s: "s < length b" using skip_ge [of s "strchr whitespace" b] by simp
  have "tok \<noteq> NUL" using gettoken_pos(4) [OF assms(2)] n s by auto
  then show "s < t" "t \<le> length b" using gettoken_pos(2,3) [OF assms(2)] s by auto
qed

subsection \<open>The grammar\<close>

function parseredirs :: "string \<Rightarrow> cmd \<Rightarrow> pos \<Rightarrow> (cmd \<times> pos) outcome" where
  "parseredirs b cmd s =
     (if fst (peek b s ''<>'')
      then case gettoken b s of (tok, _, _, s1) \<Rightarrow>
           case gettoken b s1 of (ret, q, eq, s2) \<Rightarrow>
             if ret \<noteq> CHR ''a'' then Panic ''missing file for redirection''
             else parseredirs b
               (if tok = CHR ''<'' then redircmd cmd q eq O_RDONLY 0
                else if tok = CHR ''>'' then redircmd cmd q eq (O_WRONLY OR O_CREATE) 1
                else if tok = CHR ''+'' then redircmd cmd q eq (O_WRONLY OR O_CREATE) 1
                else cmd) s2
      else Done (cmd, snd (peek b s ''<>'')))"
  by pat_completeness auto
termination
proof (relation "measure (\<lambda>(b, cmd, s). length b - s)", goal_cases)
  case (2 b cmd s tok y q1 z e1 s1 ret y' q z' e s2)
  then show ?case using gettoken_progress [of b s "''<>''" tok q1 e1 s1] gettoken_pos(1) [of b s1 ret q e s2] by auto
qed simp

declare parseredirs.simps [simp del]

text \<open>
  While \<^verbatim>\<open>parseexec\<close> fills in its node \<^verbatim>\<open>cmd\<close>, \<^verbatim>\<open>ret\<close> is that node
  under the redirections read so far: \<open>add_arg\<close> is the assignment to
  \<^verbatim>\<open>cmd->argv[argc]\<close> and \<^verbatim>\<open>cmd->eargv[argc]\<close>.
\<close>

fun add_arg :: "pos \<times> pos \<Rightarrow> cmd \<Rightarrow> cmd" where
  "add_arg w (EXEC ws) = EXEC (ws @ [w])"
| "add_arg w (REDIR c q e m fd) = REDIR (add_arg w c) q e m fd"
| "add_arg w c = c"

function parse_args :: "string \<Rightarrow> cmd \<Rightarrow> nat \<Rightarrow> pos \<Rightarrow> (cmd \<times> pos) outcome" where
  "parse_args b ret argc s =
     (if fst (peek b s ''|)&;'') then Done (ret, snd (peek b s ''|)&;''))
      else case gettoken b s of (tok, q, eq, s) \<Rightarrow>
        if tok = NUL then Done (ret, s)
        else if tok \<noteq> CHR ''a'' then Panic ''syntax''
        else if argc + 1 \<ge> MAXARGS then Panic ''too many args''
        else and_then (parseredirs b (add_arg (q, eq) ret) s) (\<lambda>(ret, s). parse_args b ret (argc + 1) s))"
  by pat_completeness auto
termination by (relation "measure (\<lambda>(b, ret, argc, s). MAXARGS - argc)") auto

declare parse_args.simps [simp del]

text \<open>\<^verbatim>\<open>while(peek(ps, es, "&")){ gettoken(ps, es, 0, 0); cmd = backcmd(cmd); }\<close>\<close>

function parse_backs :: "string \<Rightarrow> cmd \<Rightarrow> pos \<Rightarrow> cmd \<times> pos" where
  "parse_backs b cmd s =
     (if fst (peek b s ''&'')
      then case gettoken b s of (_, _, _, s) \<Rightarrow> parse_backs b (backcmd cmd) s
      else (cmd, snd (peek b s ''&'')))"
  by pat_completeness auto
termination
proof (relation "measure (\<lambda>(b, cmd, s). length b - s)", goal_cases)
  case (2 b cmd s tok y q z e s1)
  then show ?case using gettoken_progress [of b s "''&''" tok q e s1] by auto
qed simp

declare parse_backs.simps [simp del]

text \<open>
  The recursive descent.  The first argument bounds the depth of the calls;
  \<open>parsecmd\<close> passes four times the length of the line and a little, which
  \<open>parse_fuel\<close> below shows to be enough for every line.
\<close>

fun parseline :: "nat \<Rightarrow> string \<Rightarrow> pos \<Rightarrow> (cmd \<times> pos) outcome"
  and parsepipe :: "nat \<Rightarrow> string \<Rightarrow> pos \<Rightarrow> (cmd \<times> pos) outcome"
  and parseexec :: "nat \<Rightarrow> string \<Rightarrow> pos \<Rightarrow> (cmd \<times> pos) outcome"
  and parseblock :: "nat \<Rightarrow> string \<Rightarrow> pos \<Rightarrow> (cmd \<times> pos) outcome" where
  "parseline 0 b s = Fault"
| "parseline (Suc n) b s =
     and_then (parsepipe n b s) (\<lambda>(cmd, s).
     case parse_backs b cmd s of (cmd, s) \<Rightarrow>
       if fst (peek b s '';'')
       then case gettoken b s of (_, _, _, s) \<Rightarrow>
              and_then (parseline n b s) (\<lambda>(right, s). Done (listcmd cmd right, s))
       else Done (cmd, snd (peek b s '';'')))"
| "parsepipe 0 b s = Fault"
| "parsepipe (Suc n) b s =
     and_then (parseexec n b s) (\<lambda>(cmd, s).
       if fst (peek b s ''|'')
       then case gettoken b s of (_, _, _, s) \<Rightarrow>
              and_then (parsepipe n b s) (\<lambda>(right, s). Done (pipecmd cmd right, s))
       else Done (cmd, snd (peek b s ''|'')))"
| "parseexec 0 b s = Fault"
| "parseexec (Suc n) b s =
     (if fst (peek b s ''('') then parseblock n b s
      else and_then (parseredirs b execcmd s) (\<lambda>(ret, s). parse_args b ret 0 s))"
| "parseblock 0 b s = Fault"
| "parseblock (Suc n) b s =
     (if \<not> fst (peek b s ''('') then Panic ''parseblock''
      else case gettoken b s of (_, _, _, s) \<Rightarrow>
        and_then (parseline n b s) (\<lambda>(cmd, s).
          if \<not> fst (peek b s '')'') then Panic ''syntax - missing )''
          else case gettoken b s of (_, _, _, s) \<Rightarrow> parseredirs b cmd s))"

text \<open>\<^verbatim>\<open>nulterminate\<close> on the buffer, the line with its NUL.\<close>

fun nulterminate :: "cmd \<Rightarrow> string \<Rightarrow> string" where
  "nulterminate (EXEC ws) buf = fold (\<lambda>(q, e) buf. buf[e := NUL]) ws buf"
| "nulterminate (REDIR c q e m fd) buf = (nulterminate c buf)[e := NUL]"
| "nulterminate (PIPE l r) buf = nulterminate r (nulterminate l buf)"
| "nulterminate (LIST l r) buf = nulterminate r (nulterminate l buf)"
| "nulterminate (BACK c) buf = nulterminate c buf"

definition parsecmd :: "string \<Rightarrow> (string \<times> cmd) outcome" where
  "parsecmd b =
     and_then (parseline (4 * length b + 4) b 0) (\<lambda>(cmd, s).
       if snd (peek b s []) \<noteq> length b then Panic ''syntax''
       else Done (nulterminate cmd (b @ [NUL]), cmd))"

subsection \<open>Running a command\<close>

text \<open>
  \<^verbatim>\<open>runcmd\<close> sets up the descriptors of the programs it runs.  A descriptor
  table has \<^verbatim>\<open>NOFILE\<close> entries; \<^verbatim>\<open>open\<close>, \<^verbatim>\<open>pipe\<close> and \<^verbatim>\<open>dup\<close>
  take the lowest free one, as \<^verbatim>\<open>fdalloc\<close> does.  A descriptor is one the shell
  started with, a file opened by name, or an end of the pipe made by the process
  named \<open>pid\<close>, where a process is named by the path of forks that leads to it.
  \<open>env\<close> says which of the calls succeed.  The result lists how each process of
  the command ends: in \<^verbatim>\<open>exec\<close> with its arguments and table, in \<^verbatim>\<open>exit\<close>,
  or in the shell's \<^verbatim>\<open>panic\<close>.
\<close>

type_synonym path = "nat list"

datatype desc = Inherited nat | Opened string u32 | PipeR path | PipeW path

type_synonym tab = "desc option list"

datatype fate = Execs "string list" tab | Exits | Dies string

record env =
  fork_ok :: "path \<Rightarrow> bool"
  pipe_ok :: "path \<Rightarrow> bool"
  open_ok :: "path \<Rightarrow> string \<Rightarrow> u32 \<Rightarrow> bool"

definition tab_alloc :: "desc \<Rightarrow> tab \<Rightarrow> (nat \<times> tab) option" where
  "tab_alloc d t = (case find_index (\<lambda>e. e = None) t of None \<Rightarrow> None | Some fd \<Rightarrow> Some (fd, t[fd := Some d]))"

definition tab_close :: "nat \<Rightarrow> tab \<Rightarrow> tab" where
  "tab_close fd t = t[fd := None]"

definition tab_dup :: "nat \<Rightarrow> tab \<Rightarrow> tab" where
  "tab_dup fd t =
     (case t ! fd of None \<Rightarrow> t
      | Some d \<Rightarrow> (case tab_alloc d t of None \<Rightarrow> t | Some (_, t) \<Rightarrow> t))"

definition tab_pipe :: "path \<Rightarrow> tab \<Rightarrow> (nat \<times> nat \<times> tab) option" where
  "tab_pipe pid t =
     (case tab_alloc (PipeR pid) t of None \<Rightarrow> None
      | Some (p0, t) \<Rightarrow> (case tab_alloc (PipeW pid) t of None \<Rightarrow> None | Some (p1, t) \<Rightarrow> Some (p0, p1, t)))"

fun runcmd :: "env \<Rightarrow> (pos \<Rightarrow> string) \<Rightarrow> path \<Rightarrow> cmd \<Rightarrow> tab \<Rightarrow> fate list" where
  "runcmd E r pid (EXEC ws) t = (if ws = [] then [Exits] else [Execs (map (\<lambda>(q, e). r q) ws) t])"
| "runcmd E r pid (REDIR c q e m fd) t =
     (let t = tab_close fd t in
      if \<not> open_ok E pid (r q) m then [Exits]
      else case tab_alloc (Opened (r q) m) t of
        None \<Rightarrow> [Exits]
      | Some (_, t) \<Rightarrow> runcmd E r (2 # pid) c t)"
| "runcmd E r pid (LIST x y) t =
     (if \<not> fork_ok E (0 # pid) then [Dies ''fork'']
      else runcmd E r (0 # pid) x t @ runcmd E r (2 # pid) y t)"
| "runcmd E r pid (PIPE x y) t =
     (if \<not> pipe_ok E pid then [Dies ''pipe'']
      else case tab_pipe pid t of
        None \<Rightarrow> [Dies ''pipe'']
      | Some (p0, p1, t) \<Rightarrow>
          if \<not> fork_ok E (0 # pid) then [Dies ''fork'']
          else runcmd E r (0 # pid) x (tab_close p1 (tab_close p0 (tab_dup p1 (tab_close 1 t)))) @
            (if \<not> fork_ok E (1 # pid) then [Dies ''fork'']
             else runcmd E r (1 # pid) y (tab_close p1 (tab_close p0 (tab_dup p0 (tab_close 0 t)))) @ [Exits]))"
| "runcmd E r pid (BACK c) t =
     (if \<not> fork_ok E (0 # pid) then [Dies ''fork''] else runcmd E r (0 # pid) c t @ [Exits])"

text \<open>One line in the loop of \<^verbatim>\<open>main\<close>: a change of directory or a command.\<close>

datatype line = Chdir string | Run "(string \<times> cmd) outcome"

definition shell_line :: "string \<Rightarrow> line" where
  "shell_line buf = (if take 3 buf = ''cd '' then Chdir (drop 3 (butlast buf)) else Run (parsecmd buf))"

subsection \<open>The parser returns on every line\<close>

fun cmd_words :: "cmd \<Rightarrow> (pos \<times> pos) set" where
  "cmd_words (EXEC ws) = set ws"
| "cmd_words (REDIR c q e m fd) = insert (q, e) (cmd_words c)"
| "cmd_words (PIPE l r) = cmd_words l \<union> cmd_words r"
| "cmd_words (LIST l r) = cmd_words l \<union> cmd_words r"
| "cmd_words (BACK c) = cmd_words c"

text \<open>Redirections concern standard input or output.\<close>

fun std_redirs :: "cmd \<Rightarrow> bool" where
  "std_redirs (EXEC ws) \<longleftrightarrow> True"
| "std_redirs (REDIR c q e m fd) \<longleftrightarrow> fd \<le> 1 \<and> std_redirs c"
| "std_redirs (PIPE c d) \<longleftrightarrow> std_redirs c \<and> std_redirs d"
| "std_redirs (LIST c d) \<longleftrightarrow> std_redirs c \<and> std_redirs d"
| "std_redirs (BACK c) \<longleftrightarrow> std_redirs c"

definition cmd_ok :: "string \<Rightarrow> cmd \<Rightarrow> bool" where
  "cmd_ok b c \<longleftrightarrow> (\<forall>w\<in>cmd_words c. word_ok b w) \<and> std_redirs c"

lemma cmd_ok_simps [simp]:
  "cmd_ok b (EXEC ws) \<longleftrightarrow> (\<forall>w\<in>set ws. word_ok b w)"
  "cmd_ok b (REDIR c q e m fd) \<longleftrightarrow> cmd_ok b c \<and> word_ok b (q, e) \<and> fd \<le> 1"
  "cmd_ok b (PIPE c d) \<longleftrightarrow> cmd_ok b c \<and> cmd_ok b d"
  "cmd_ok b (LIST c d) \<longleftrightarrow> cmd_ok b c \<and> cmd_ok b d"
  "cmd_ok b (BACK c) \<longleftrightarrow> cmd_ok b c"
  by (auto simp: cmd_ok_def)

definition syntax_errors :: "string set" where
  "syntax_errors = {''missing file for redirection'', ''syntax'', ''too many args'', ''syntax - missing )''}"

definition parsed :: "string \<Rightarrow> pos \<Rightarrow> (cmd \<times> pos) outcome \<Rightarrow> bool" where
  "parsed b s m \<longleftrightarrow>
     (case m of Done (c, t) \<Rightarrow> s \<le> t \<and> t \<le> length b \<and> (cmd_ok b c)
      | Panic e \<Rightarrow> e \<in> syntax_errors
      | _ \<Rightarrow> False)"

lemma parsed_Done: "parsed b s (Done (c, t)) \<longleftrightarrow> s \<le> t \<and> t \<le> length b \<and> (cmd_ok b c)"
  by (simp add: parsed_def)

lemma parsed_Panic: "parsed b s (Panic e) \<longleftrightarrow> e \<in> syntax_errors"
  by (simp add: parsed_def)

lemma parsed_then:
  assumes "parsed b s m" "\<And>c t. m = Done (c, t) \<Longrightarrow> s \<le> t \<Longrightarrow> t \<le> length b \<Longrightarrow> cmd_ok b c \<Longrightarrow> parsed b t (f (c, t))"
  shows "parsed b s (and_then m f)"
proof (cases m)
  case (Done x)
  obtain c t where x: "x = (c, t)" by (cases x)
  then have "s \<le> t" "parsed b t (f (c, t))" using assms Done by (auto simp: parsed_def)
  then show ?thesis using Done x by (auto simp: parsed_def split: outcome.splits prod.splits)
qed (use assms(1) in \<open>auto simp: parsed_def\<close>)

lemma parsed_mono: "parsed b t m \<Longrightarrow> s \<le> t \<Longrightarrow> parsed b s m"
  by (auto simp: parsed_def split: outcome.splits prod.splits)

lemma peek_pos: "s \<le> length b \<Longrightarrow> s \<le> snd (peek b s ts) \<and> snd (peek b s ts) \<le> length b"
  by (simp add: peek_nextc skip_ge skip_le)

lemma parseredirs_parsed:
  "s \<le> length b \<Longrightarrow> cmd_ok b cmd \<Longrightarrow> parsed b s (parseredirs b cmd s)"
proof (induction b cmd s rule: parseredirs.induct)
  case (1 b cmd s)
  show ?case
  proof (cases "fst (peek b s ''<>'')")
    case True
    obtain tok q1 e1 s1 where g: "gettoken b s = (tok, q1, e1, s1)" by (metis prod_cases4)
    obtain ret q e s2 where h: "gettoken b s1 = (ret, q, e, s2)" by (metis prod_cases4)
    note P = gettoken_progress [OF True g] and Q = gettoken_pos [OF h P(3)]
    show ?thesis
    proof (cases "ret = CHR ''a''")
      case a: True
      let ?c = "if tok = CHR ''<'' then redircmd cmd q e O_RDONLY 0
                else if tok = CHR ''>'' then redircmd cmd q e (O_WRONLY OR O_CREATE) 1
                else if tok = CHR ''+'' then redircmd cmd q e (O_WRONLY OR O_CREATE) 1
                else cmd"
      have "parsed b s (parseredirs b ?c s2)"
        using parsed_mono [of b s2 _ s] P(2) Q(1) "1.IH" [OF True g [symmetric] refl refl h [symmetric] refl refl] a Q "1.prems" by simp
      then show ?thesis using True g h a by (subst parseredirs.simps) simp
    qed (use True g h in \<open>subst parseredirs.simps, simp add: parsed_Panic syntax_errors_def\<close>)
  qed (use 1 peek_pos in \<open>subst parseredirs.simps, simp add: parsed_Done\<close>)
qed

lemma add_arg_ok: "cmd_ok b c \<Longrightarrow> word_ok b w \<Longrightarrow> cmd_ok b (add_arg w c)"
  by (induction c) auto

lemma parse_args_parsed:
  "s \<le> length b \<Longrightarrow> cmd_ok b ret \<Longrightarrow> parsed b s (parse_args b ret argc s)"
proof (induction b ret argc s rule: parse_args.induct)
  case (1 b ret argc s)
  obtain tok q e s1 where g: "gettoken b s = (tok, q, e, s1)" by (metis prod_cases4)
  note P = gettoken_pos [OF g "1.prems"(1)]
  show ?case
  proof (cases "fst (peek b s ''|)&;'') \<or> tok \<noteq> CHR ''a'' \<or> argc + 1 \<ge> MAXARGS")
    case True
    then show ?thesis using g P "1.prems" peek_pos
      by (subst parse_args.simps) (auto simp: parsed_Done parsed_Panic syntax_errors_def)
  next
    case False
    have "cmd_ok b (add_arg (q, e) ret)" using False P(5) "1.prems"(2) add_arg_ok by auto
    then have "parsed b s1 (and_then (parseredirs b (add_arg (q, e) ret) s1) (\<lambda>(ret, s). parse_args b ret (argc + 1) s))"
      using "1.IH" g False P(2) by (intro parsed_then [OF parseredirs_parsed]) auto
    from parsed_mono [OF this P(1)] show ?thesis using False g by (subst parse_args.simps) simp
  qed
qed

lemma parse_backs_parsed:
  "s \<le> length b \<Longrightarrow> cmd_ok b cmd \<Longrightarrow> parsed b s (Done (parse_backs b cmd s))"
proof (induction b cmd s rule: parse_backs.induct)
  case (1 b cmd s)
  obtain tok q e s1 where g: "gettoken b s = (tok, q, e, s1)" by (metis prod_cases4)
  show ?case
  proof (cases "fst (peek b s ''&'')")
    case True
    note P = gettoken_progress [OF True g]
    have "parsed b s1 (Done (parse_backs b (BACK cmd) s1))" using "1.IH" True g P "1.prems" by auto
    from parsed_mono [OF this, of s] show ?thesis using True g P by (subst parse_backs.simps) simp
  qed (use 1 peek_pos in \<open>subst parse_backs.simps, simp add: parsed_Done\<close>)
qed

lemma parse_fuel:
  "s \<le> length b \<Longrightarrow> 4 * (length b - s) + 4 \<le> n \<Longrightarrow> parsed b s (parseline n b s)"
  "s \<le> length b \<Longrightarrow> 4 * (length b - s) + 3 \<le> n \<Longrightarrow> parsed b s (parsepipe n b s)"
  "s \<le> length b \<Longrightarrow> 4 * (length b - s) + 2 \<le> n \<Longrightarrow> parsed b s (parseexec n b s)"
  "fst (peek b s ''('') \<Longrightarrow> 4 * (length b - s) + 1 \<le> n \<Longrightarrow> parsed b s (parseblock n b s)"
proof (induction n b s and n b s and n b s and n b s rule: parseline_parsepipe_parseexec_parseblock.induct)
  case (2 n b s)
  show ?case unfolding parseline.simps
  proof (rule parsed_then [OF "2.IH"(1)], goal_cases)
    case (3 c t)
    obtain d u where d: "parse_backs b c t = (d, u)" by (cases "parse_backs b c t")
    have D: "t \<le> u" "u \<le> length b" "cmd_ok b d" using parse_backs_parsed [of t b c] 3 d by (auto simp: parsed_Done)
    obtain tok q e v where g: "gettoken b u = (tok, q, e, v)" by (metis prod_cases4)
    have "parsed b u (if fst (peek b u '';'') then and_then (parseline n b v) (\<lambda>(r, s). Done (LIST d r, s)) else Done (d, snd (peek b u '';'')))"
    proof (cases "fst (peek b u '';'')")
      case True
      note P = gettoken_progress [OF True g]
      have "parsed b v (parseline n b v)" using "2.IH"(2) [OF 3(1) refl d [symmetric] True g [symmetric] refl refl] P "2.prems" 3 D by auto
      then have "parsed b v (and_then (parseline n b v) (\<lambda>(r, s). Done (LIST d r, s)))" using D by (intro parsed_then) (auto simp: parsed_Done)
      from parsed_mono [OF this, of u] show ?thesis using True P by simp
    qed (use D peek_pos in \<open>auto simp: parsed_Done\<close>)
    from parsed_mono [OF this D(1)] show ?case using d g by (simp split: if_splits)
  qed (use 2 in auto)
next
  case (4 n b s)
  show ?case unfolding parsepipe.simps
  proof (rule parsed_then [OF "4.IH"(1)], goal_cases)
    case (3 d u)
    obtain tok q e v where g: "gettoken b u = (tok, q, e, v)" by (metis prod_cases4)
    have "parsed b u (if fst (peek b u ''|'') then and_then (parsepipe n b v) (\<lambda>(r, s). Done (PIPE d r, s)) else Done (d, snd (peek b u ''|'')))"
    proof (cases "fst (peek b u ''|'')")
      case True
      note P = gettoken_progress [OF True g]
      have "parsed b v (parsepipe n b v)" using "4.IH"(2) [OF 3(1) refl True g [symmetric] refl refl] P "4.prems" 3 by auto
      then have "parsed b v (and_then (parsepipe n b v) (\<lambda>(r, s). Done (PIPE d r, s)))" using 3 by (intro parsed_then) (auto simp: parsed_Done)
      from parsed_mono [OF this, of u] show ?thesis using True P by simp
    qed (use 3 peek_pos in \<open>auto simp: parsed_Done\<close>)
    then show ?case using g by (simp split: if_splits)
  qed (use 4 in auto)
next
  case (6 n b s)
  show ?case unfolding parseexec.simps using 6
    by (auto intro!: parsed_then [OF parseredirs_parsed] parse_args_parsed)
next
  case (8 n b s)
  obtain tok q e t where g: "gettoken b s = (tok, q, e, t)" by (metis prod_cases4)
  note P = gettoken_progress [OF "8.prems"(1) g]
  have L: "parsed b t (parseline n b t)" using "8.IH" [OF _ g [symmetric] refl refl] P "8.prems" by auto
  have "parsed b t (and_then (parseline n b t) (\<lambda>(cmd, s).
          if \<not> fst (peek b s '')'') then Panic ''syntax - missing )''
          else case gettoken b s of (_, _, _, s) \<Rightarrow> parseredirs b cmd s))"
  proof (rule parsed_then [OF L], goal_cases)
    case (1 c u)
    obtain tok q e v where h: "gettoken b u = (tok, q, e, v)" by (metis prod_cases4)
    show ?case using 1 gettoken_progress [of b u "'')''", OF _ h] h parsed_mono [OF parseredirs_parsed [of v b c], of u]
      by (auto simp: parsed_Panic syntax_errors_def)
  qed
  from parsed_mono [OF this, of s] show ?case using "8.prems" g P by simp
qed auto

subsection \<open>Cutting the line into strings\<close>

definition wtext :: "string \<Rightarrow> pos \<times> pos \<Rightarrow> string" where
  "wtext b w = take (snd w - fst w) (drop (fst w) b)"

text \<open>The C string at \<open>q\<close> in a buffer.\<close>

definition cstr :: "string \<Rightarrow> pos \<Rightarrow> string" where
  "cstr buf q = takeWhile (\<lambda>c. c \<noteq> NUL) (drop q buf)"

lemma nth_cut: "j < length xs \<Longrightarrow> xs[i := x] ! j = (if i = j then x else xs ! j)"
  by auto

lemma fold_cut_length [simp]: "length (fold (\<lambda>(q, e) buf. buf[e := NUL]) ws buf) = length buf"
  by (induction ws arbitrary: buf) auto

lemma fold_cut_nth:
  "j < length buf \<Longrightarrow> fold (\<lambda>(q, e) buf. buf[e := NUL]) ws buf ! j = (if j \<in> snd ` set ws then NUL else buf ! j)"
  by (induction ws arbitrary: buf) (auto simp: nth_cut image_iff, force)

lemma nulterminate_length [simp]: "length (nulterminate c buf) = length buf"
  by (induction c arbitrary: buf) auto

lemma nulterminate_nth:
  "j < length buf \<Longrightarrow> nulterminate c buf ! j = (if j \<in> snd ` cmd_words c then NUL else buf ! j)"
  by (induction c arbitrary: buf) (auto simp: nth_cut fold_cut_nth)

lemma nulterminate_cstr:
  assumes w: "\<forall>w\<in>cmd_words c. word_ok b w" and b: "NUL \<notin> set b" and m: "(q, e) \<in> cmd_words c"
  shows "cstr (nulterminate c (b @ [NUL])) q = wtext b (q, e)"
proof -
  let ?n = "nulterminate c (b @ [NUL])"
  have q: "q < e" "e \<le> length b" using w m by (auto simp: word_ok_def)
  have keep: "j \<notin> snd ` cmd_words c" if "q \<le> j" "j < e" for j
  proof
    assume "j \<in> snd ` cmd_words c"
    then obtain p where "(p, j) \<in> cmd_words c" by auto
    then have "\<not> plain (b ! j)" using w that q by (auto simp: word_ok_def)
    then show False using w m that by (auto simp: word_ok_def)
  qed
  have n: "?n ! j = b ! j" if "q \<le> j" "j < e" for j
    using that q keep [OF that] nulterminate_nth [of j "b @ [NUL]" c] by (simp add: nth_append)
  have z: "?n ! e = NUL" using m q nulterminate_nth [of e "b @ [NUL]" c] by (auto simp: image_iff nth_append)
  have l: "e < length ?n" using q by simp
  let ?w = "wtext b (q, e)"
  have "take (e - q) (drop q ?n) = ?w"
    unfolding wtext_def using n q l by (intro nth_equalityI) auto
  moreover have "drop (e - q) (drop q ?n) = NUL # drop (Suc e) ?n"
    using z l q Cons_nth_drop_Suc [of e ?n] by simp
  ultimately have d: "drop q ?n = ?w @ NUL # drop (Suc e) ?n" by (metis append_take_drop_id)
  have "NUL \<notin> set ?w" using b by (auto simp: wtext_def dest: in_set_takeD in_set_dropD)
  then show ?thesis unfolding cstr_def d by (simp add: takeWhile_append)
qed

end
