(* ===== verification/Shell_Trip.thy ===== *)
theory Shell_Trip
  imports Shell
begin

text \<open>
  What the parser of the shell accepts and what it makes of it.  A printer for
  abstract commands, parentheses where the grammar needs them, and the proof
  that parsing and cutting its output gives the command back.
\<close>

subsection \<open>Abstract commands and their text\<close>

datatype scmd =
    SExec "string list"
  | SRedir scmd string u32 nat
  | SPipe scmd scmd
  | SList scmd scmd
  | SBack scmd

fun tree :: "(pos \<times> pos \<Rightarrow> string) \<Rightarrow> cmd \<Rightarrow> scmd" where
  "tree r (EXEC ws) = SExec (map r ws)"
| "tree r (REDIR c q e m fd) = SRedir (tree r c) (r (q, e)) m fd"
| "tree r (PIPE x y) = SPipe (tree r x) (tree r y)"
| "tree r (LIST x y) = SList (tree r x) (tree r y)"
| "tree r (BACK c) = SBack (tree r c)"

definition bracket :: "bool \<Rightarrow> string \<Rightarrow> string" where
  "bracket p x = (if p then ''('' @ x @ '')'' else x)"

definition redir_text :: "string \<Rightarrow> nat \<Rightarrow> string" where
  "redir_text f fd = (if fd = 0 then CHR ''<'' else CHR ''>'') # f"

text \<open>Level 0 is a line, 1 a chain of \<open>&\<close>, 2 a pipeline and 3 a single command.\<close>

primrec show_cmd :: "nat \<Rightarrow> scmd \<Rightarrow> string" where
  "show_cmd k (SExec ws) = concat (map (Cons (CHR '' '')) ws)"
| "show_cmd k (SRedir c f m fd) = show_cmd 3 c @ redir_text f fd"
| "show_cmd k (SPipe x y) = bracket (2 < k) (show_cmd 3 x @ CHR ''|'' # show_cmd 2 y)"
| "show_cmd k (SBack c) = bracket (1 < k) (show_cmd 1 c @ ''&'')"
| "show_cmd k (SList x y) = bracket (0 < k) (show_cmd 1 x @ CHR '';'' # show_cmd 0 y)"

definition is_word :: "string \<Rightarrow> bool" where
  "is_word w \<longleftrightarrow> w \<noteq> [] \<and> (\<forall>c\<in>set w. plain c \<and> c \<noteq> NUL)"

definition is_redir :: "string \<Rightarrow> u32 \<Rightarrow> nat \<Rightarrow> bool" where
  "is_redir f m fd \<longleftrightarrow> is_word f \<and> (m = O_RDONLY \<and> fd = 0 \<or> m = O_WRONLY OR O_CREATE \<and> fd = 1)"

primrec scmd_ok :: "scmd \<Rightarrow> bool" where
  "scmd_ok (SExec ws) \<longleftrightarrow> length ws < MAXARGS \<and> (\<forall>w\<in>set ws. is_word w)"
| "scmd_ok (SRedir c f m fd) \<longleftrightarrow> scmd_ok c \<and> is_redir f m fd"
| "scmd_ok (SPipe x y) \<longleftrightarrow> scmd_ok x \<and> scmd_ok y"
| "scmd_ok (SBack c) \<longleftrightarrow> scmd_ok c"
| "scmd_ok (SList x y) \<longleftrightarrow> scmd_ok x \<and> scmd_ok y"

subsection \<open>Tokens of a printed line\<close>

text \<open>The first character of \<open>x\<close> that is not white space.\<close>

definition nc :: "string \<Rightarrow> char" where
  "nc x = (case dropWhile space x of [] \<Rightarrow> NUL | c # _ \<Rightarrow> c)"

abbreviation here :: "string \<Rightarrow> pos \<Rightarrow> string \<Rightarrow> bool" where
  "here b s u \<equiv> skipws b s = skipws b (length u)"

lemma space_simps [simp]: "space (CHR '' '')" "\<not> space (CHR ''|'')" "\<not> space (CHR ''('')" "\<not> space (CHR '')'')"
  "\<not> space (CHR '';'')" "\<not> space (CHR ''&'')" "\<not> space (CHR ''<'')" "\<not> space (CHR ''>'')" "\<not> space NUL"
  by (simp_all add: whitespace_def)

lemma plain_simps [simp]: "\<not> plain (CHR '' '')" "\<not> plain (CHR ''|'')" "\<not> plain (CHR ''('')" "\<not> plain (CHR '')'')"
  "\<not> plain (CHR '';'')" "\<not> plain (CHR ''&'')" "\<not> plain (CHR ''<'')" "\<not> plain (CHR ''>'')"
  by (simp_all add: plain_def whitespace_def symbols_def)

lemma strchr_set: "strchr s = (\<lambda>c. c \<in> set s)"
  by (simp add: fun_eq_iff)

lemma skip_strchr [simp]: "skip (\<lambda>c. c \<in> set s) = skip (strchr s)"
  by (simp add: strchr_set)

lemma skipws_append: "skipws (u @ x) (length u) = length u + length (takeWhile space x)"
  by (simp add: skip_takeWhile strchr_set del: skip_strchr)

lemma nextc_here:
  assumes "b = u @ x" "here b s u" shows "nextc b s = nc x"
proof -
  let ?t = "takeWhile space x" and ?d = "dropWhile space x"
  have x: "b = (u @ ?t) @ ?d" using assms(1) by simp
  have "nextc b s = char_at b (length (u @ ?t))"
    using assms skipws_append [of u x] by (simp add: nextc_def)
  then show ?thesis unfolding x nc_def char_at_def by (cases ?d) (auto simp only: length_append nth_append_length list.case, auto)
qed

lemma here_refl: "here b (length u) u"
  by simp

lemma here_space: "b = u @ CHR '' '' # x \<Longrightarrow> here b s u \<Longrightarrow> here b s (u @ '' '')"
  using skipws_append [of u "CHR '' '' # x"] skipws_append [of "u @ '' ''" x] by simp

lemma gettoken_symbol:
  assumes "b = u @ c # x" "here b s u" "c \<in> set ''|();&<''"
  shows "\<exists>q e t. gettoken b s = (c, q, e, t) \<and> here b t (u @ [c])"
proof -
  have "skipws b s = length u" using assms skipws_append [of u "c # x"] by auto
  moreover have "char_at b (length u) = c" using assms(1) by (simp add: char_at_def)
  ultimately show ?thesis using assms(3) by (auto simp: gettoken_def token_def Let_def)
qed

lemma gettoken_redir:
  assumes "b = u @ redir_text f fd @ x" "here b s u" "is_word f"
  shows "\<exists>q e t. gettoken b s = (if fd = 0 then CHR ''<'' else CHR ''>'', q, e, t) \<and>
    here b t (u @ [if fd = 0 then CHR ''<'' else CHR ''>''])"
proof (cases "fd = 0")
  case True
  then show ?thesis using gettoken_symbol [of b u "CHR ''<''"] assms by (simp add: redir_text_def)
next
  case False
  have "skipws b s = length u" using assms False skipws_append [of u "CHR ''>'' # f @ x"] by (auto simp: redir_text_def)
  moreover have "char_at b (length u) = CHR ''>''" using assms(1) False by (simp add: char_at_def redir_text_def)
  moreover have "char_at b (Suc (length u)) \<noteq> CHR ''>''"
  proof -
    obtain c f' where f: "f = c # f'" "plain c" using assms(3) by (cases f) (auto simp: is_word_def)
    then have "b = (u @ ''>'') @ c # f' @ x" using assms(1) False by (simp add: redir_text_def)
    then have "b ! length (u @ ''>'') = c" "length (u @ ''>'') < length b" by (simp_all only: nth_append_length) simp
    then show ?thesis using f(2) by (auto simp: char_at_def)
  qed
  ultimately show ?thesis using False by (auto simp: gettoken_def token_def Let_def)
qed

definition cut :: "string \<Rightarrow> bool" where
  "cut x \<longleftrightarrow> x = [] \<or> \<not> plain (hd x)"

lemma gettoken_word:
  assumes "b = u @ w @ x" "here b s u" "is_word w" "cut x"
  shows "\<exists>q e t. gettoken b s = (CHR ''a'', q, e, t) \<and> here b t (u @ w) \<and> wtext b (q, e) = w"
proof -
  obtain c w' where w: "w = c # w'" "plain c" "c \<noteq> NUL" using assms(3) by (cases w) (auto simp: is_word_def)
  then have "skipws b s = length u" using assms(1,2) skipws_append [of u "w @ x"] by (auto simp: plain_def)
  moreover have "char_at b (length u) = c" using assms(1) w by (simp add: char_at_def)
  moreover have "c \<notin> set ''|();&<>''" using w(2) by (auto simp: plain_def symbols_def)
  moreover have "skip plain b (length u) = length u + length w"
  proof -
    have "takeWhile plain (w @ x) = w" using assms(3,4) by (cases x) (auto simp: is_word_def cut_def takeWhile_append)
    then show ?thesis using assms(1) by (simp add: skip_takeWhile)
  qed
  ultimately show ?thesis using w(3) assms(1) by (auto simp: gettoken_def token_def Let_def wtext_def)
qed

subsection \<open>Redirections and arguments\<close>

type_synonym redirs = "(string \<times> u32 \<times> nat) list"

definition wrap :: "redirs \<Rightarrow> scmd \<Rightarrow> scmd" where
  "wrap rs c = foldl (\<lambda>c (f, m, fd). SRedir c f m fd) c rs"

definition rtext :: "redirs \<Rightarrow> string" where
  "rtext rs = concat (map (\<lambda>(f, m, fd). redir_text f fd) rs)"

definition redirs_ok :: "redirs \<Rightarrow> bool" where
  "redirs_ok rs \<longleftrightarrow> (\<forall>(f, m, fd)\<in>set rs. is_redir f m fd)"

lemma redirs_simps [simp]:
  "wrap [] c = c" "wrap ((f, m, fd) # rs) c = wrap rs (SRedir c f m fd)"
  "rtext [] = []" "rtext ((f, m, fd) # rs) = redir_text f fd @ rtext rs"
  "redirs_ok []" "redirs_ok ((f, m, fd) # rs) \<longleftrightarrow> is_redir f m fd \<and> redirs_ok rs"
  by (simp_all add: wrap_def rtext_def redirs_ok_def)

definition ends :: "string \<Rightarrow> string \<Rightarrow> bool" where
  "ends ts v \<longleftrightarrow> v = [] \<or> hd v \<in> set ts"

lemma ends_nc: "ends ts v \<Longrightarrow> set ts \<subseteq> set ''|)&;'' \<Longrightarrow> nc v = NUL \<or> nc v \<in> set ts"
  by (cases v) (auto simp: ends_def nc_def)

lemma ends_cut: "ends ts v \<Longrightarrow> set ts \<subseteq> set ''|)&;'' \<Longrightarrow> cut v"
  by (cases v) (auto simp: ends_def cut_def)

lemma cut_rtext: "cut v \<Longrightarrow> cut (rtext rs @ v)"
  by (cases rs) (auto simp: cut_def redir_text_def rtext_def split: prod.splits)

lemma nc_word: "is_word w \<Longrightarrow> nc (w @ x) \<noteq> NUL \<and> plain (nc (w @ x))"
  by (cases w) (auto simp: nc_def is_word_def plain_def)

lemma nc_symbol [simp]: "\<not> space c \<Longrightarrow> nc (c # x) = c"
  by (simp add: nc_def)

lemma nc_redir [simp]: "nc (redir_text f fd @ x) = (if fd = 0 then CHR ''<'' else CHR ''>'')"
  by (simp add: redir_text_def)

lemma nc_rtext: "rs \<noteq> [] \<Longrightarrow> nc (rtext rs @ v) = CHR ''<'' \<or> nc (rtext rs @ v) = CHR ''>''"
  by (cases rs) (auto split: if_splits)

lemma nc_space: "nc (CHR '' '' # x) = nc x"
  by (simp add: nc_def)

lemma parseredirs_none: "nextc b s \<noteq> CHR ''<'' \<Longrightarrow> nextc b s \<noteq> CHR ''>'' \<Longrightarrow> parseredirs b c s = Done (c, skipws b s)"
  by (subst parseredirs.simps) (simp add: peek_nextc)

lemma parseredirs_text:
  assumes "b = u @ rtext rs @ v" "here b s u" "redirs_ok rs" "cut v" "nc v \<noteq> CHR ''<''" "nc v \<noteq> CHR ''>''"
  shows "\<exists>d t. parseredirs b c s = Done (d, t) \<and> here b t (u @ rtext rs) \<and> tree (wtext b) d = wrap rs (tree (wtext b) c)"
  using assms(1-3)
proof (induction rs arbitrary: u s c)
  case Nil
  then have "nextc b s = nc v" by (intro nextc_here) auto
  then show ?case using Nil assms(5,6) parseredirs_none [of b s c] by simp
next
  case (Cons r rs)
  obtain f m fd where r: "r = (f, m, fd)" by (cases r)
  let ?r = "if fd = 0 then CHR ''<'' else CHR ''>''"
  have w: "is_word f" and mf: "m = O_RDONLY \<and> fd = 0 \<or> m = O_WRONLY OR O_CREATE \<and> fd = 1"
    using Cons.prems r by (auto simp: is_redir_def)
  have b: "b = u @ redir_text f fd @ rtext rs @ v" "b = (u @ [?r]) @ f @ rtext rs @ v" using Cons.prems r by (simp_all add: redir_text_def)
  obtain q1 e1 t1 where g: "gettoken b s = (?r, q1, e1, t1)" "here b t1 (u @ [?r])" using gettoken_redir [OF b(1) Cons.prems(2) w] by auto
  obtain q e t2 where h: "gettoken b t1 = (CHR ''a'', q, e, t2)" "here b t2 ((u @ [?r]) @ f)" "wtext b (q, e) = f"
    using gettoken_word [OF b(2) g(2) w cut_rtext [OF assms(4)]] by auto
  have "nextc b s = ?r" using nextc_here [OF b(1) Cons.prems(2)] by simp
  then have "fst (peek b s ''<>'')" by (auto simp: peek_nextc)
  then have "parseredirs b c s = parseredirs b (REDIR c q e m fd) t2"
    using g(1) h(1) mf by (subst parseredirs.simps) auto
  moreover have "\<exists>d t. parseredirs b (REDIR c q e m fd) t2 = Done (d, t) \<and> here b t (((u @ [?r]) @ f) @ rtext rs) \<and>
    tree (wtext b) d = wrap rs (tree (wtext b) (REDIR c q e m fd))"
    by (rule Cons.IH [OF _ h(2)]) (use b(2) Cons.prems(3) r in simp_all)
  ultimately show ?case using r h(3) by (simp add: redir_text_def)
qed

abbreviation args_text :: "string list \<Rightarrow> string" where
  "args_text ws \<equiv> concat (map (Cons (CHR '' '')) ws)"

lemma gettoken_end: "nextc b s = NUL \<Longrightarrow> gettoken b s = (NUL, skipws b s, skipws b s, skipws b s)"
  by (simp add: gettoken_def token_def nextc_def Let_def)

lemma parse_args_end: "nextc b s = NUL \<or> nextc b s \<in> set ''|)&;'' \<Longrightarrow> parse_args b ret argc s = Done (ret, skipws b s)"
  by (subst parse_args.simps) (auto simp: peek_nextc gettoken_end)

lemma parse_args_text:
  assumes "b = u @ args_text ws @ rtext rs @ v" "here b s u" "ends ''|)&;'' v" "redirs_ok rs" "\<forall>w\<in>set ws. is_word w"
    "argc + length ws < MAXARGS" "ws \<noteq> []"
  shows "\<exists>d t. parse_args b (EXEC W) argc s = Done (d, t) \<and> here b t (u @ args_text ws @ rtext rs) \<and>
    tree (wtext b) d = wrap rs (SExec (map (wtext b) W @ ws))"
  using assms(1,2,5-7)
proof (induction ws arbitrary: u s argc W)
  case Nil
  then show ?case by simp
next
  case (Cons w ws)
  let ?x = "args_text ws @ rtext rs @ v"
  have v: "nc v = NUL \<or> nc v \<in> set ''|)&;''" "cut v" using ends_nc [OF assms(3)] ends_cut [OF assms(3)] by auto
  have b: "b = u @ CHR '' '' # (w @ ?x)" "b = (u @ '' '') @ w @ ?x" using Cons.prems(1) by simp_all
  have w: "is_word w" using Cons.prems by simp
  have "cut ?x" using cut_rtext [OF v(2), of rs] by (cases ws) (simp_all add: cut_def)
  from gettoken_word [OF b(2) here_space [OF b(1) Cons.prems(2)] w this]
  obtain q e t where g: "gettoken b s = (CHR ''a'', q, e, t)" "here b t ((u @ '' '') @ w)" "wtext b (q, e) = w" by auto
  have "nextc b s = nc (w @ ?x)" using nextc_here [OF b(1) Cons.prems(2)] nc_space by simp
  then have p: "\<not> fst (peek b s ''|)&;'')" using nc_word [OF w, of ?x] by (auto simp: peek_nextc)
  have s: "parse_args b (EXEC W) argc s =
    and_then (parseredirs b (EXEC (W @ [(q, e)])) t) (\<lambda>(ret, s). parse_args b ret (argc + 1) s)"
    using p g(1) Cons.prems(4) by (subst parse_args.simps) simp
  have x: "b = ((u @ '' '') @ w) @ ?x" using b by simp
  show ?case
  proof (cases ws)
    case Nil
    have "\<exists>d t'. parseredirs b (EXEC (W @ [(q, e)])) t = Done (d, t') \<and> here b t' (((u @ '' '') @ w) @ rtext rs) \<and>
      tree (wtext b) d = wrap rs (tree (wtext b) (EXEC (W @ [(q, e)])))"
      using v x Nil by (intro parseredirs_text [OF _ g(2) assms(4)]) auto
    then obtain d t' where d: "parseredirs b (EXEC (W @ [(q, e)])) t = Done (d, t')" "here b t' (((u @ '' '') @ w) @ rtext rs)"
      "tree (wtext b) d = wrap rs (SExec (map (wtext b) W @ [w]))" using g(3) by auto
    have "nextc b t' = nc v" using x Nil by (intro nextc_here [OF _ d(2)]) simp
    then show ?thesis using s d parse_args_end [of b t' d] v(1) Nil by simp
  next
    case ws: (Cons w2 ws')
    have "nextc b t = nc (w2 @ args_text ws' @ rtext rs @ v)" using nextc_here [OF x g(2)] ws nc_space by simp
    then have "plain (nextc b t)" using nc_word Cons.prems(3) ws by simp
    then have "parseredirs b (EXEC (W @ [(q, e)])) t = Done (EXEC (W @ [(q, e)]), skipws b t)"
      by (intro parseredirs_none) (auto simp: plain_def symbols_def)
    then show ?thesis using s Cons.IH [OF x, of "skipws b t" "argc + 1" "W @ [(q, e)]"] g Cons.prems ws by simp
  qed
qed

subsection \<open>Commands\<close>

definition reads :: "string \<Rightarrow> string \<Rightarrow> scmd \<Rightarrow> (cmd \<times> pos) outcome \<Rightarrow> bool" where
  "reads b w c m \<longleftrightarrow> (\<exists>d t. m = Done (d, t) \<and> here b t w \<and> tree (wtext b) d = c)"

lemma readsE:
  assumes "reads b w c m" obtains d t where "m = Done (d, t)" "here b t w" "tree (wtext b) d = c"
  using assms by (auto simp: reads_def)

text \<open>What the four routines make of the text of a command, one predicate per level.\<close>

definition reads3 :: "scmd \<Rightarrow> bool" where
  "reads3 c \<longleftrightarrow> (\<forall>n b u v s rs. b = u @ show_cmd 3 c @ rtext rs @ v \<longrightarrow> here b s u \<longrightarrow> ends ''|)&;'' v \<longrightarrow> redirs_ok rs \<longrightarrow>
     4 * (length b - length u) + 2 \<le> n \<longrightarrow> reads b (u @ show_cmd 3 c @ rtext rs) (wrap rs c) (parseexec n b s))"

definition reads2 :: "scmd \<Rightarrow> bool" where
  "reads2 c \<longleftrightarrow> (\<forall>n b u v s. b = u @ show_cmd 2 c @ v \<longrightarrow> here b s u \<longrightarrow> ends '')&;'' v \<longrightarrow>
     4 * (length b - length u) + 3 \<le> n \<longrightarrow> reads b (u @ show_cmd 2 c) c (parsepipe n b s))"

definition reads1 :: "scmd \<Rightarrow> bool" where
  "reads1 c \<longleftrightarrow> (\<forall>n b u v s. b = u @ show_cmd 1 c @ v \<longrightarrow> here b s u \<longrightarrow> ends '')&;'' v \<longrightarrow>
     4 * (length b - length u) + 3 \<le> n \<longrightarrow>
     (\<exists>d0 t0 d t. parsepipe n b s = Done (d0, t0) \<and> parse_backs b d0 t0 = parse_backs b d t \<and>
        here b t (u @ show_cmd 1 c) \<and> tree (wtext b) d = c))"

definition reads0 :: "scmd \<Rightarrow> bool" where
  "reads0 c \<longleftrightarrow> (\<forall>n b u v s. b = u @ show_cmd 0 c @ v \<longrightarrow> here b s u \<longrightarrow> ends '')'' v \<longrightarrow>
     4 * (length b - length u) + 4 \<le> n \<longrightarrow> reads b (u @ show_cmd 0 c) c (parseline n b s))"

lemma snd_peek: "snd (peek b s ts) = skipws b s"
  by (simp add: peek_nextc)

lemma ends_more: "ends ts v \<Longrightarrow> set ts \<subseteq> set us \<Longrightarrow> ends us v"
  by (auto simp: ends_def)

lemma no_bar: "b = u @ x @ v \<Longrightarrow> here b t (u @ x) \<Longrightarrow> ends '')&;'' v \<Longrightarrow> \<not> fst (peek b t ''|'')"
  using ends_nc [of "'')&;''" v] nextc_here [of b "u @ x" v t] by (auto simp: peek_nextc)

lemma backs_end: "b = u @ x @ v \<Longrightarrow> here b t (u @ x) \<Longrightarrow> ends '');'' v \<Longrightarrow> parse_backs b d t = (d, skipws b t)"
  using ends_nc [of "'');''" v] nextc_here [of b "u @ x" v t] by (subst parse_backs.simps) (auto simp: peek_nextc)

lemma no_semi: "b = u @ x @ v \<Longrightarrow> here b t (u @ x) \<Longrightarrow> ends '')'' v \<Longrightarrow> \<not> fst (peek b t '';'')"
  using ends_nc [of "'')''" v] nextc_here [of b "u @ x" v t] by (auto simp: peek_nextc)

lemma reads2_lift:
  assumes "reads3 c" "show_cmd 2 c = show_cmd 3 c" shows "reads2 c"
  unfolding reads2_def
proof (intro allI impI)
  fix n b u v s assume *: "b = u @ show_cmd 2 c @ v" "here b s u" "ends '')&;'' v" "4 * (length b - length u) + 3 \<le> n"
  obtain n' where n: "n = Suc n'" using *(4) by (cases n) auto
  have "reads b (u @ show_cmd 3 c @ rtext []) (wrap [] c) (parseexec n' b s)"
    using assms(1) [unfolded reads3_def, rule_format, of b u "[]" v s n'] * n assms(2) ends_more [OF *(3), of "''|)&;''"] by simp
  then obtain d t where d: "parseexec n' b s = Done (d, t)" "here b t (u @ show_cmd 2 c)" "tree (wtext b) d = c"
    using assms(2) by (auto simp: reads_def)
  then show "reads b (u @ show_cmd 2 c) c (parsepipe n b s)"
    using no_bar [OF *(1) d(2) *(3)] n by (simp add: reads_def snd_peek)
qed

lemma reads1_lift:
  assumes "reads2 c" "show_cmd 1 c = show_cmd 2 c" shows "reads1 c"
  using assms unfolding reads1_def reads2_def reads_def by metis

lemma reads0_lift:
  assumes "reads1 c" "show_cmd 0 c = show_cmd 1 c" shows "reads0 c"
  unfolding reads0_def
proof (intro allI impI)
  fix n b u v s assume *: "b = u @ show_cmd 0 c @ v" "here b s u" "ends '')'' v" "4 * (length b - length u) + 4 \<le> n"
  obtain n' where n: "n = Suc n'" using *(4) by (cases n) auto
  obtain d0 t0 d t where d: "parsepipe n' b s = Done (d0, t0)" "parse_backs b d0 t0 = parse_backs b d t"
      "here b t (u @ show_cmd 0 c)" "tree (wtext b) d = c"
    using assms(1) [unfolded reads1_def, rule_format, of b u v s n'] * n assms(2) ends_more [OF *(3), of "'')&;''"] by auto
  have "parse_backs b d t = (d, skipws b t)" by (rule backs_end [OF *(1) d(3) ends_more [OF *(3)]]) simp
  then show "reads b (u @ show_cmd 0 c) c (parseline n b s)"
    using no_semi [OF *(1) _ *(3), of "skipws b t"] n d by (simp add: reads_def snd_peek)
qed

lemma reads3_block:
  assumes "reads0 c" "show_cmd 3 c = ''('' @ show_cmd 0 c @ '')''" shows "reads3 c"
  unfolding reads3_def
proof (intro allI impI)
  fix n b u v s rs
  assume *: "b = u @ show_cmd 3 c @ rtext rs @ v" "here b s u" "ends ''|)&;'' v" "redirs_ok rs" "4 * (length b - length u) + 2 \<le> n"
  let ?u = "u @ ''(''" and ?x = "show_cmd 0 c"
  have b: "b = u @ CHR ''('' # (?x @ '')'' @ rtext rs @ v)" "b = ?u @ ?x @ '')'' @ rtext rs @ v"
    "b = (?u @ ?x) @ CHR '')'' # (rtext rs @ v)" "b = ((?u @ ?x) @ '')'') @ rtext rs @ v" using *(1) assms(2) by simp_all
  have "length b - length u = Suc (length b - length ?u)" using b(1) by simp
  then obtain n' where n: "n = Suc (Suc n')" "4 * (length b - length ?u) + 4 \<le> n'" using *(5) by (cases n; cases "n - 1") auto
  have "nextc b s = CHR ''(''" using nextc_here [OF b(1) *(2)] by simp
  then have p: "fst (peek b s ''('')" by (simp add: peek_nextc)
  obtain q e t1 where g: "gettoken b s = (CHR ''('', q, e, t1)" "here b t1 ?u" using gettoken_symbol [OF b(1) *(2)] by auto
  have "ends '')'' ('')'' @ rtext rs @ v)" by (simp add: ends_def)
  then have "reads b (?u @ ?x) c (parseline n' b t1)"
    using assms(1) [unfolded reads0_def, rule_format, OF b(2) g(2)] n(2) by blast
  then obtain d t2 where d: "parseline n' b t1 = Done (d, t2)" "here b t2 (?u @ ?x)" "tree (wtext b) d = c" by (rule readsE)
  have "nextc b t2 = CHR '')''" using nextc_here [OF b(3) d(2)] by simp
  then have p2: "fst (peek b t2 '')'')" by (simp add: peek_nextc)
  obtain q2 e2 t3 where h: "gettoken b t2 = (CHR '')'', q2, e2, t3)" "here b t3 ((?u @ ?x) @ '')'')"
    using gettoken_symbol [OF b(3) d(2)] by auto
  have v: "cut v" "nc v \<noteq> CHR ''<''" "nc v \<noteq> CHR ''>''" using ends_nc [OF *(3)] ends_cut [OF *(3)] by auto
  from parseredirs_text [OF b(4) h(2) *(4) v, of d] show "reads b (u @ show_cmd 3 c @ rtext rs) (wrap rs c) (parseexec n b s)"
    using n(1) p g(1) d p2 h(1) assms(2) by (simp add: reads_def)
qed

lemma reads3_exec:
  assumes "length ws < MAXARGS" "\<forall>w\<in>set ws. is_word w" shows "reads3 (SExec ws)"
  unfolding reads3_def
proof (intro allI impI)
  fix n b u v s rs
  assume *: "b = u @ show_cmd 3 (SExec ws) @ rtext rs @ v" "here b s u" "ends ''|)&;'' v" "redirs_ok rs" "4 * (length b - length u) + 2 \<le> n"
  obtain n' where n: "n = Suc n'" using *(5) by (cases n) auto
  have b: "b = u @ args_text ws @ rtext rs @ v" using *(1) by simp
  have v: "cut v" "nc v = NUL \<or> nc v \<in> set ''|)&;''" "nc v \<noteq> CHR ''<''" "nc v \<noteq> CHR ''>''" using ends_nc [OF *(3)] ends_cut [OF *(3)] by auto
  show "reads b (u @ show_cmd 3 (SExec ws) @ rtext rs) (wrap rs (SExec ws)) (parseexec n b s)"
  proof (cases ws)
    case Nil
    have "nextc b s = nc (rtext rs @ v)" using nextc_here [OF b *(2)] Nil by simp
    then have p: "\<not> fst (peek b s ''('')" using nc_rtext [of rs v] v by (cases "rs = []") (auto simp: peek_nextc)
    obtain d t where d: "parseredirs b (EXEC []) s = Done (d, t)" "here b t (u @ rtext rs)" "tree (wtext b) d = wrap rs (SExec [])"
      using parseredirs_text [of b u rs v s "EXEC []"] b Nil * v by auto
    have "nextc b t = nc v" using b Nil by (intro nextc_here [OF _ d(2)]) simp
    then show ?thesis using n p d parse_args_end [of b t d 0] v(2) Nil by (simp add: reads_def)
  next
    case (Cons w ws')
    have "nextc b s = nc (w @ args_text ws' @ rtext rs @ v)" using nextc_here [OF b *(2)] Cons nc_space by simp
    then have "plain (nextc b s)" using nc_word assms(2) Cons by simp
    then have p: "\<not> fst (peek b s ''('')" "parseredirs b (EXEC []) s = Done (EXEC [], skipws b s)"
      by (auto simp: peek_nextc plain_def symbols_def intro!: parseredirs_none)
    from parse_args_text [OF b _ *(3,4) assms(2), of "skipws b s" 0 "[]"] show ?thesis
      using n p *(2) assms(1) Cons by (simp add: reads_def)
  qed
qed

lemma reads3_redir:
  assumes "reads3 c" "is_redir f m fd" shows "reads3 (SRedir c f m fd)"
  unfolding reads3_def
proof (intro allI impI)
  fix n b u v s rs
  assume *: "b = u @ show_cmd 3 (SRedir c f m fd) @ rtext rs @ v" "here b s u" "ends ''|)&;'' v" "redirs_ok rs" "4 * (length b - length u) + 2 \<le> n"
  then show "reads b (u @ show_cmd 3 (SRedir c f m fd) @ rtext rs) (wrap rs (SRedir c f m fd)) (parseexec n b s)"
    using assms(1) [unfolded reads3_def, rule_format, of b u "(f, m, fd) # rs" v s n] assms(2) by simp
qed

lemma reads2_pipe:
  assumes "reads3 x" "reads2 y" shows "reads2 (SPipe x y)"
  unfolding reads2_def
proof (intro allI impI)
  fix n b u v s
  assume *: "b = u @ show_cmd 2 (SPipe x y) @ v" "here b s u" "ends '')&;'' v" "4 * (length b - length u) + 3 \<le> n"
  let ?x = "show_cmd 3 x" and ?y = "show_cmd 2 y"
  have b: "b = u @ ?x @ rtext [] @ CHR ''|'' # ?y @ v" "b = (u @ ?x) @ CHR ''|'' # (?y @ v)" "b = ((u @ ?x) @ ''|'') @ ?y @ v"
    using *(1) by (simp_all add: bracket_def)
  obtain n' where n: "n = Suc n'" "4 * (length b - length u) + 2 \<le> n'" using *(4) by (cases n) auto
  have "reads b (u @ ?x) x (parseexec n' b s)"
    using assms(1) [unfolded reads3_def, rule_format, OF b(1) *(2)] n(2) by (simp add: ends_def)
  then obtain d t where d: "parseexec n' b s = Done (d, t)" "here b t (u @ ?x)" "tree (wtext b) d = x" by (rule readsE)
  have p: "fst (peek b t ''|'')" using nextc_here [OF b(2) d(2)] by (simp add: peek_nextc)
  obtain q e t2 where g: "gettoken b t = (CHR ''|'', q, e, t2)" "here b t2 ((u @ ?x) @ ''|'')" using gettoken_symbol [OF b(2) d(2)] by auto
  have "4 * (length b - length ((u @ ?x) @ ''|'')) + 3 \<le> n'" using n(2) b(1) by simp
  from assms(2) [unfolded reads2_def, rule_format, OF b(3) g(2) *(3) this] obtain d2 t3 where
    "parsepipe n' b t2 = Done (d2, t3)" "here b t3 (((u @ ?x) @ ''|'') @ ?y)" "tree (wtext b) d2 = y" by (rule readsE)
  then show "reads b (u @ show_cmd 2 (SPipe x y)) (SPipe x y) (parsepipe n b s)"
    using n(1) d p g(1) by (simp add: reads_def bracket_def)
qed

lemma reads1_back:
  assumes "reads1 c" shows "reads1 (SBack c)"
  unfolding reads1_def
proof (intro allI impI)
  fix n b u v s
  assume *: "b = u @ show_cmd 1 (SBack c) @ v" "here b s u" "ends '')&;'' v" "4 * (length b - length u) + 3 \<le> n"
  let ?x = "show_cmd 1 c"
  have b: "b = u @ ?x @ CHR ''&'' # v" "b = (u @ ?x) @ CHR ''&'' # v" using *(1) by (simp_all add: bracket_def)
  have "ends '')&;'' (CHR ''&'' # v)" by (simp add: ends_def)
  from assms [unfolded reads1_def, rule_format, OF b(1) *(2) this *(4)] obtain d0 t0 d t where
    d: "parsepipe n b s = Done (d0, t0)" "parse_backs b d0 t0 = parse_backs b d t" "here b t (u @ ?x)" "tree (wtext b) d = c" by auto
  have p: "fst (peek b t ''&'')" using nextc_here [OF b(2) d(3)] by (simp add: peek_nextc)
  obtain q e t2 where g: "gettoken b t = (CHR ''&'', q, e, t2)" "here b t2 ((u @ ?x) @ ''&'')" using gettoken_symbol [OF b(2) d(3)] by auto
  have "parse_backs b d t = parse_backs b (BACK d) t2" using p g(1) by (subst parse_backs.simps) simp
  then show "\<exists>d0 t0 d t. parsepipe n b s = Done (d0, t0) \<and> parse_backs b d0 t0 = parse_backs b d t \<and>
    here b t (u @ show_cmd 1 (SBack c)) \<and> tree (wtext b) d = SBack c"
    using d g(2) by (intro exI [of _ d0] exI [of _ t0] exI [of _ "BACK d"] exI [of _ t2]) (simp add: bracket_def)
qed

lemma reads0_list:
  assumes "reads1 x" "reads0 y" shows "reads0 (SList x y)"
  unfolding reads0_def
proof (intro allI impI)
  fix n b u v s
  assume *: "b = u @ show_cmd 0 (SList x y) @ v" "here b s u" "ends '')'' v" "4 * (length b - length u) + 4 \<le> n"
  let ?x = "show_cmd 1 x" and ?y = "show_cmd 0 y"
  have b: "b = u @ ?x @ CHR '';'' # ?y @ v" "b = (u @ ?x) @ CHR '';'' # (?y @ v)" "b = ((u @ ?x) @ '';'') @ ?y @ v"
    using *(1) by (simp_all add: bracket_def)
  obtain n' where n: "n = Suc n'" "4 * (length b - length u) + 3 \<le> n'" using *(4) by (cases n) auto
  have "ends '')&;'' (CHR '';'' # ?y @ v)" by (simp add: ends_def)
  from assms(1) [unfolded reads1_def, rule_format, OF b(1) *(2) this n(2)] obtain d0 t0 d t where
    d: "parsepipe n' b s = Done (d0, t0)" "parse_backs b d0 t0 = parse_backs b d t" "here b t (u @ ?x)" "tree (wtext b) d = x" by auto
  have e: "parse_backs b d t = (d, skipws b t)" by (rule backs_end [OF b(1) d(3)]) (simp add: ends_def)
  have s: "here b (skipws b t) (u @ ?x)" using d(3) by simp
  have p: "fst (peek b (skipws b t) '';'')" using nextc_here [OF b(2) s] by (simp add: peek_nextc)
  obtain q e t2 where g: "gettoken b (skipws b t) = (CHR '';'', q, e, t2)" "here b t2 ((u @ ?x) @ '';'')" using gettoken_symbol [OF b(2) s] by auto
  have "4 * (length b - length ((u @ ?x) @ '';'')) + 4 \<le> n'" using n(2) b(1) by simp
  from assms(2) [unfolded reads0_def, rule_format, OF b(3) g(2) *(3) this] obtain d2 t3 where
    "parseline n' b t2 = Done (d2, t3)" "here b t3 (((u @ ?x) @ '';'') @ ?y)" "tree (wtext b) d2 = y" by (rule readsE)
  then show "reads b (u @ show_cmd 0 (SList x y)) (SList x y) (parseline n b s)"
    using n(1) d e p g(1) by (simp add: reads_def bracket_def)
qed

lemma reads_all: "scmd_ok c \<Longrightarrow> reads3 c \<and> reads2 c \<and> reads1 c \<and> reads0 c"
proof (induction c)
  case (SExec ws)
  then have "reads3 (SExec ws)" by (simp add: reads3_exec)
  then show ?case using reads2_lift reads1_lift reads0_lift by (metis show_cmd.simps(1))
next
  case (SRedir c f m fd)
  then have "reads3 (SRedir c f m fd)" by (simp add: reads3_redir)
  then show ?case using reads2_lift reads1_lift reads0_lift by (metis show_cmd.simps(2))
next
  case (SPipe x y)
  then have 2: "reads2 (SPipe x y)" by (simp add: reads2_pipe)
  then have 1: "reads1 (SPipe x y)" by (rule reads1_lift) (simp add: bracket_def)
  then have 0: "reads0 (SPipe x y)" by (rule reads0_lift) (simp add: bracket_def)
  then have "reads3 (SPipe x y)" by (rule reads3_block) (simp add: bracket_def)
  with 0 1 2 show ?case by simp
next
  case (SList x y)
  then have 0: "reads0 (SList x y)" by (simp add: reads0_list)
  then have 3: "reads3 (SList x y)" by (rule reads3_block) (simp add: bracket_def)
  then have 2: "reads2 (SList x y)" by (rule reads2_lift) (simp add: bracket_def)
  then have "reads1 (SList x y)" by (rule reads1_lift) (simp add: bracket_def)
  with 0 2 3 show ?case by simp
next
  case (SBack c)
  then have 1: "reads1 (SBack c)" by (simp add: reads1_back)
  then have 0: "reads0 (SBack c)" by (rule reads0_lift) (simp add: bracket_def)
  then have 3: "reads3 (SBack c)" by (rule reads3_block) (simp add: bracket_def)
  then have "reads2 (SBack c)" by (rule reads2_lift) (simp add: bracket_def)
  with 0 1 3 show ?case by simp
qed

lemma show_no_NUL: "scmd_ok c \<Longrightarrow> NUL \<notin> set (show_cmd k c)"
  by (induction c arbitrary: k) (auto simp: bracket_def redir_text_def is_redir_def is_word_def split: if_splits)

lemma tree_cong: "(\<And>w. w \<in> cmd_words d \<Longrightarrow> r w = r' w) \<Longrightarrow> tree r d = tree r' d"
  by (induction d) auto

subsection \<open>The properties\<close>

text \<open>
  C29: The shell's parser returns on every line.  Whatever the input, \<^verbatim>\<open>parsecmd\<close>
  either reports one of four errors or delivers a command and the line cut into
  strings, in which every word of the command is a non-empty, maximal run of
  characters of the line and is what a C string function reads at its address:
  cutting one word never damages another.
\<close>

theorem parsecmd_total:
  assumes "NUL \<notin> set b"
  shows "(\<exists>m\<in>syntax_errors. parsecmd b = Panic m) \<or>
    (\<exists>buf c. parsecmd b = Done (buf, c) \<and> length buf = Suc (length b) \<and>
       (\<forall>(q, e)\<in>cmd_words c. word_ok b (q, e) \<and> cstr buf q = wtext b (q, e)))"
proof -
  have "parsed b 0 (parseline (4 * length b + 4) b 0)" by (rule parse_fuel(1)) simp_all
  then show ?thesis using nulterminate_cstr [of _ b] assms
    by (auto simp: parsecmd_def parsed_def cmd_ok_def syntax_errors_def split: outcome.splits prod.splits)
qed

theorem parsecmd_total_witness:
  "NUL \<notin> set ''ls|wc>out'' \<and> ((\<exists>m\<in>syntax_errors. parsecmd ''ls|wc>out'' = Panic m) \<or>
    (\<exists>buf c. parsecmd ''ls|wc>out'' = Done (buf, c) \<and> length buf = Suc (length ''ls|wc>out'') \<and>
       (\<forall>(q, e)\<in>cmd_words c. word_ok ''ls|wc>out'' (q, e) \<and> cstr buf q = wtext ''ls|wc>out'' (q, e))))"
  using parsecmd_total [of "''ls|wc>out''"] by simp

text \<open>
  C30: Printing and parsing a command is the identity.  Every command built from
  words of plain characters, at most nine arguments each, redirections of
  standard input and output, pipelines, sequences and background commands in any
  nesting, is what \<^verbatim>\<open>parsecmd\<close> makes of its text, when the strings are read
  back from the line it has cut.
\<close>

theorem parsecmd_round_trip:
  assumes "scmd_ok c"
  shows "\<exists>buf d. parsecmd (show_cmd 0 c) = Done (buf, d) \<and> tree (\<lambda>(q, e). cstr buf q) d = c"
proof -
  let ?b = "show_cmd 0 c"
  have "reads0 c" using reads_all [OF assms] by simp
  from this [unfolded reads0_def, rule_format, of ?b "[]" "[]" 0 "4 * length ?b + 4"]
  obtain d t where d: "parseline (4 * length ?b + 4) ?b 0 = Done (d, t)" "here ?b t ?b" "tree (wtext ?b) d = c"
    by (auto simp: ends_def reads_def)
  have w: "\<forall>w\<in>cmd_words d. word_ok ?b w" using parse_fuel(1) [of 0 ?b "4 * length ?b + 4"] d(1) by (simp add: parsed_Done cmd_ok_def)
  have "skipws ?b t = length ?b" using d(2) skip_takeWhile [of "strchr whitespace" ?b "length ?b"] by simp
  moreover have "tree (\<lambda>(q, e). cstr (nulterminate d (?b @ [NUL])) q) d = c"
    using nulterminate_cstr [OF w show_no_NUL [OF assms]] d(3) tree_cong [of d "\<lambda>(q, e). cstr (nulterminate d (?b @ [NUL])) q" "wtext ?b"] by auto
  ultimately show ?thesis using d(1) by (simp add: parsecmd_def snd_peek)
qed

theorem parsecmd_round_trip_witness:
  "\<exists>buf d. parsecmd '' ls| wc -l>out;( a&)<b'' = Done (buf, d) \<and> tree (\<lambda>(q, e). cstr buf q) d =
    SList (SPipe (SExec [''ls'']) (SRedir (SExec [''wc'', ''-l'']) ''out'' (O_WRONLY OR O_CREATE) 1))
      (SRedir (SBack (SExec [''a''])) ''b'' O_RDONLY 0)"
  using parsecmd_round_trip [of "SList (SPipe (SExec [''ls'']) (SRedir (SExec [''wc'', ''-l'']) ''out'' (O_WRONLY OR O_CREATE) 1))
      (SRedir (SBack (SExec [''a''])) ''b'' O_RDONLY 0)"]
  by (simp add: is_redir_def is_word_def plain_def whitespace_def symbols_def MAXARGS_def bracket_def redir_text_def)

subsection \<open>Descriptors of the programs\<close>

text \<open>The table of a program with standard input, output and error, and nothing else.\<close>

definition std :: "desc \<Rightarrow> desc \<Rightarrow> desc \<Rightarrow> tab" where
  "std i x e = Some i # Some x # Some e # replicate 13 None"

text \<open>What a command means: who runs, and where its standard input and output go.\<close>

fun run_spec :: "env \<Rightarrow> (pos \<Rightarrow> string) \<Rightarrow> path \<Rightarrow> cmd \<Rightarrow> desc \<Rightarrow> desc \<Rightarrow> desc \<Rightarrow> fate list" where
  "run_spec E r pid (EXEC ws) i x e = (if ws = [] then [Exits] else [Execs (map (\<lambda>(q, e). r q) ws) (std i x e)])"
| "run_spec E r pid (REDIR c q _ m fd) i x e =
     (if \<not> open_ok E pid (r q) m then [Exits]
      else if fd = 0 then run_spec E r (2 # pid) c (Opened (r q) m) x e
      else run_spec E r (2 # pid) c i (Opened (r q) m) e)"
| "run_spec E r pid (LIST c d) i x e =
     (if \<not> fork_ok E (0 # pid) then [Dies ''fork''] else run_spec E r (0 # pid) c i x e @ run_spec E r (2 # pid) d i x e)"
| "run_spec E r pid (PIPE c d) i x e =
     (if \<not> pipe_ok E pid then [Dies ''pipe'']
      else if \<not> fork_ok E (0 # pid) then [Dies ''fork'']
      else run_spec E r (0 # pid) c i (PipeW pid) e @
        (if \<not> fork_ok E (1 # pid) then [Dies ''fork''] else run_spec E r (1 # pid) d (PipeR pid) x e @ [Exits]))"
| "run_spec E r pid (BACK c) i x e =
     (if \<not> fork_ok E (0 # pid) then [Dies ''fork''] else run_spec E r (0 # pid) c i x e @ [Exits])"

lemma std_calls:
  "tab_alloc d (tab_close 0 (std i x e)) = Some (0, std d x e)"
  "tab_alloc d (tab_close (Suc 0) (std i x e)) = Some (1, std i d e)"
  "\<exists>t. tab_pipe pid (std i x e) = Some (3, 4, t) \<and>
     tab_close 4 (tab_close 3 (tab_dup 4 (tab_close (Suc 0) t))) = std i (PipeW pid) e \<and>
     tab_close 4 (tab_close 3 (tab_dup 3 (tab_close 0 t))) = std (PipeR pid) x e"
proof -
  have r: "replicate 13 None = [None, None, None, None, None, None, None, None, None, None, None, None, None]"
    by (simp add: numeral_eq_Suc)
  show "tab_alloc d (tab_close 0 (std i x e)) = Some (0, std d x e)" "tab_alloc d (tab_close (Suc 0) (std i x e)) = Some (1, std i d e)"
    by (simp_all add: tab_alloc_def tab_close_def std_def)
  show "\<exists>t. tab_pipe pid (std i x e) = Some (3, 4, t) \<and>
     tab_close 4 (tab_close 3 (tab_dup 4 (tab_close (Suc 0) t))) = std i (PipeW pid) e \<and>
     tab_close 4 (tab_close 3 (tab_dup 3 (tab_close 0 t))) = std (PipeR pid) x e"
    by (simp add: tab_pipe_def tab_dup_def tab_alloc_def tab_close_def std_def r)
qed

lemma runcmd_std:
  assumes "std_redirs c"
  shows "runcmd E r pid c (std i x e) = run_spec E r pid c i x e"
  using assms
proof (induction c arbitrary: pid i x e)
  case (REDIR c q w m fd)
  then have "fd = 0 \<or> fd = 1" by auto
  then show ?case using REDIR by (auto simp: std_calls)
next
  case (PIPE c d)
  obtain t where "tab_pipe pid (std i x e) = Some (3, 4, t)" "tab_close 4 (tab_close 3 (tab_dup 4 (tab_close (Suc 0) t))) = std i (PipeW pid) e"
     "tab_close 4 (tab_close 3 (tab_dup 3 (tab_close 0 t))) = std (PipeR pid) x e" using std_calls(3) by blast
  then show ?case using PIPE by simp
qed auto

text \<open>
  C31: The closing, duplicating and opening of descriptors in \<^verbatim>\<open>runcmd\<close> wires
  programs the way the command says.  Started with standard input, output and
  error and nothing else, every program the shell runs gets exactly these three:
  in a pipeline the output of each program is the write end and the input of the
  next the read end of the same pipe, a redirected stream is the file opened, and no
  end of any pipe is left over in a program that does not use it.
\<close>

theorem runcmd_wiring:
  assumes "parsecmd b = Done (buf, c)"
  shows "runcmd E (cstr buf) pid c (std i x e) = run_spec E (cstr buf) pid c i x e"
proof -
  have "parsed b 0 (parseline (4 * length b + 4) b 0)" by (rule parse_fuel(1)) simp_all
  then have "std_redirs c" using assms by (auto simp: parsecmd_def parsed_def cmd_ok_def outcome_simps split: if_splits)
  then show ?thesis by (rule runcmd_std)
qed

theorem runcmd_wiring_witness:
  "\<exists>buf c. parsecmd ''ls|wc'' = Done (buf, c) \<and>
     runcmd \<lparr>fork_ok = \<lambda>_. True, pipe_ok = \<lambda>_. True, open_ok = \<lambda>_ _ _. True\<rparr> (cstr buf) [] c
       (std (Inherited 0) (Inherited 1) (Inherited 2)) =
     [Execs [''ls''] (std (Inherited 0) (PipeW []) (Inherited 2)),
      Execs [''wc''] (std (PipeR []) (Inherited 1) (Inherited 2)), Exits]"
proof -
  have d: "parsecmd ''ls|wc'' = Done (''ls'' @ [NUL] @ ''wc'' @ [NUL], PIPE (EXEC [(0, 2)]) (EXEC [(3, 5)]))" by code_simp
  show ?thesis by (intro exI conjI, rule d, subst runcmd_wiring [OF d]) (simp add: cstr_def)
qed

end
