(* ===== verification/Vm_Space.thy ===== *)
theory Vm_Space
  imports Vm
begin

text \<open>
  Address spaces.  A page directory and its page tables are read as a map from
  page numbers to page table entries; the pages an address space consists of
  (the directory, the tables, the frames of user memory) are its own, disjoint
  from the free list and from each other.  Mapping, freeing and copying are
  proved correct against this view.
\<close>

subsection \<open>Words in pages\<close>

definition slot :: "u32 \<Rightarrow> nat \<Rightarrow> u32" where
  "slot p i = p + 4 * of_nat i"

lemma slot_byte:
  assumes "page_aligned p" "i < 1024" "j < 4"
  shows "unat (slot p i + of_nat j) = unat p + 4 * i + j" "PGROUNDDOWN (slot p i + of_nat j) = p"
proof -
  have s: "slot p i + of_nat j = p + of_nat (4 * i + j)" by (simp add: slot_def)
  show u: "unat (slot p i + of_nat j) = unat p + 4 * i + j"
    unfolding s using assms unat_page_offset [of p "4 * i + j"] by simp
  show "PGROUNDDOWN (slot p i + of_nat j) = p"
  proof -
    obtain q where "unat p = 4096 * q" using assms(1) by (auto simp: page_aligned_def elim: dvdE)
    then show ?thesis using u assms(2,3) by (simp add: word_unat_eq_iff unat_PGROUNDDOWN)
  qed
qed

lemma load32_slot_cong:
  assumes "page_aligned p" "i < 1024" "\<And>a. PGROUNDDOWN a = p \<Longrightarrow> m' a = m a"
  shows "load32 m' (slot p i) = load32 m (slot p i)"
proof -
  have "m' (slot p i + of_nat j) = m (slot p i + of_nat j)" if "j < 4" for j
    using slot_byte(2) [OF assms(1,2) that] assms(3) by blast
  from this [of 0] this [of 1] this [of 2] this [of 3] show ?thesis by (simp add: load32_def)
qed

lemma store32_slot_other:
  assumes "page_aligned p" "i < 1024" "PGROUNDDOWN a \<noteq> p"
  shows "store32 m (slot p i) v a = m a"
proof -
  have "a \<noteq> slot p i + of_nat j" if "j < 4" for j using slot_byte(2) [OF assms(1,2) that] assms(3) by auto
  from this [of 0] this [of 1] this [of 2] this [of 3] show ?thesis by (simp add: store32_def)
qed

lemma load32_store32_slot:
  assumes "page_aligned p" "page_aligned q" "i < 1024" "j < 1024"
  shows "load32 (store32 m (slot p i) v) (slot q j) = (if p = q \<and> i = j then v else load32 m (slot q j))"
proof (cases "p = q")
  case True
  show ?thesis
  proof (cases "i = j")
    case False
    have ne: "slot p j + of_nat b \<noteq> slot p i + of_nat a" if "a < 4" "b < 4" for a b
    proof
      assume "slot p j + of_nat b = slot p i + of_nat a"
      then have "4 * i + a = 4 * j + b" using slot_byte(1) [OF assms(1,3) that(1)] slot_byte(1) [OF assms(1,4) that(2)] by simp
      then show False using False that by arith
    qed
    have o: "store32 m (slot p i) v (slot p j + of_nat b) = m (slot p j + of_nat b)" if "b < 4" for b
      using that ne [of 0 b] ne [of 1 b] ne [of 2 b] ne [of 3 b] by (simp add: store32_def)
    show ?thesis using True False o [of 0] o [of 1] o [of 2] o [of 3] by (simp add: load32_def)
  qed (simp add: True)
next
  case False
  have "load32 (store32 m (slot p i) v) (slot q j) = load32 m (slot q j)"
    using False by (intro load32_slot_cong assms store32_slot_other) auto
  then show ?thesis using False by simp
qed

lemma load32_fill_zero:
  assumes "page_aligned p" "i < 1024" shows "load32 (fill m p 0 4096) (slot p i) = 0"
proof -
  have "fill m p 0 4096 (slot p i + of_nat j) = 0" if "j < 4" for j
    using slot_byte(2) [OF assms that] in_page_iff [OF assms(1)] by (simp add: fill_def)
  from this [of 0] this [of 1] this [of 2] this [of 3] show ?thesis by (simp add: load32_def)
qed

lemma fill_other: "page_aligned p \<Longrightarrow> PGROUNDDOWN a \<noteq> p \<Longrightarrow> fill m p c 4096 a = m a"
  using in_page_iff [of p a] by (simp add: fill_def)

subsection \<open>The view of an address space\<close>

text \<open>The page table for directory entry \<open>i\<close>, and the entry for page number \<open>n\<close>, 0 where there is no table.\<close>

definition frame_of :: "u32 \<Rightarrow> u32 option" where
  "frame_of e = (if e AND PTE_P \<noteq> 0 then Some (P2V (PTE_ADDR e)) else None)"

definition tab :: "kmem \<Rightarrow> u32 \<Rightarrow> nat \<Rightarrow> u32 option" where
  "tab k d i = frame_of (load32 (kmem_mem k) (slot d i))"

definition pte :: "kmem \<Rightarrow> u32 \<Rightarrow> nat \<Rightarrow> u32" where
  "pte k d n = (case tab k d (n div 1024) of None \<Rightarrow> 0 | Some t \<Rightarrow> load32 (kmem_mem k) (slot t (n mod 1024)))"

abbreviation frame :: "kmem \<Rightarrow> u32 \<Rightarrow> nat \<Rightarrow> u32 option" where
  "frame k d n \<equiv> frame_of (pte k d n)"

definition tabs :: "kmem \<Rightarrow> u32 \<Rightarrow> u32 set" where
  "tabs k d = {t. \<exists>i<1024. tab k d i = Some t}"

definition frames :: "kmem \<Rightarrow> u32 \<Rightarrow> u32 set" where
  "frames k d = {p. \<exists>n<524288. frame k d n = Some p}"

definition own :: "kmem \<Rightarrow> u32 \<Rightarrow> u32 set" where
  "own k d = insert d (tabs k d \<union> frames k d)"

definition space :: "u32 \<Rightarrow> kmem \<Rightarrow> u32 \<Rightarrow> bool" where
  "space ke k d \<longleftrightarrow> (\<forall>x\<in>own k d. kfree_ok ke x) \<and> d \<notin> tabs k d \<and> d \<notin> frames k d \<and> tabs k d \<inter> frames k d = {} \<and>
     (\<forall>i<1024. \<forall>j<1024. \<forall>t. tab k d i = Some t \<and> tab k d j = Some t \<longrightarrow> i = j) \<and>
     (\<forall>m<524288. \<forall>n<524288. \<forall>p. frame k d m = Some p \<and> frame k d n = Some p \<longrightarrow> m = n)"

text \<open>\<open>only S k k'\<close>: at most the pages in \<open>S\<close> differ.\<close>

definition only :: "u32 set \<Rightarrow> kmem \<Rightarrow> kmem \<Rightarrow> bool" where
  "only S k k' \<longleftrightarrow> (\<forall>a. PGROUNDDOWN a \<notin> S \<longrightarrow> kmem_mem k' a = kmem_mem k a)"

lemma only_mono: "only S k k' \<Longrightarrow> S \<subseteq> T \<Longrightarrow> only T k k'"
  by (auto simp: only_def)

lemma only_trans: "only S k k' \<Longrightarrow> only T k' k'' \<Longrightarrow> only (S \<union> T) k k''"
  by (simp add: only_def)

lemma only_refl [simp]: "only S k k"
  by (simp add: only_def)

lemma tab_in: "tab k d i = Some t \<Longrightarrow> i < 1024 \<Longrightarrow> t \<in> tabs k d"
  by (auto simp: tabs_def)

lemma frame_in: "frame k d n = Some p \<Longrightarrow> n < 524288 \<Longrightarrow> p \<in> frames k d"
  by (auto simp: frames_def)

lemma space_ok:
  assumes "space ke k d"
  shows "kfree_ok ke d" "page_aligned d" "t \<in> tabs k d \<Longrightarrow> kfree_ok ke t" "t \<in> tabs k d \<Longrightarrow> page_aligned t"
    "p \<in> frames k d \<Longrightarrow> kfree_ok ke p" "p \<in> frames k d \<Longrightarrow> page_aligned p" "x \<in> own k d \<Longrightarrow> kfree_ok ke x"
  using assms kfree_okD(1) by (auto simp: space_def own_def)

text \<open>The view depends only on the directory and the tables.\<close>

lemma view_cong:
  assumes "space ke k d" "only S k k'" "S \<inter> insert d (tabs k d) = {}"
  shows "i < 1024 \<Longrightarrow> tab k' d i = tab k d i" "n < 1048576 \<Longrightarrow> pte k' d n = pte k d n"
proof -
  have same: "kmem_mem k' a = kmem_mem k a" if "PGROUNDDOWN a \<in> insert d (tabs k d)" for a
    using assms(2,3) that by (auto simp: only_def)
  show T: "tab k' d i = tab k d i" if "i < 1024" for i
    unfolding tab_def using load32_slot_cong [OF space_ok(2) [OF assms(1)] that, of "kmem_mem k'" "kmem_mem k"] same by simp
  show "pte k' d n = pte k d n" if "n < 1048576"
  proof (cases "tab k d (n div 1024)")
    case (Some t)
    have "t \<in> tabs k d" using Some that by (auto intro: tab_in)
    then have "load32 (kmem_mem k') (slot t (n mod 1024)) = load32 (kmem_mem k) (slot t (n mod 1024))"
      using same space_ok(4) [OF assms(1)] by (intro load32_slot_cong) auto
    then show ?thesis using Some T that by (simp add: pte_def)
  qed (use T that in \<open>simp add: pte_def\<close>)
qed

lemma view_sets_cong:
  assumes "\<And>i. i < 1024 \<Longrightarrow> tab k' d i = tab k d i" "\<And>n. n < 524288 \<Longrightarrow> frame k' d n = frame k d n"
  shows "tabs k' d = tabs k d" "frames k' d = frames k d" "own k' d = own k d" "space ke k' d = space ke k d"
proof -
  show "tabs k' d = tabs k d" "frames k' d = frames k d" using assms by (auto simp: tabs_def frames_def)
  then show "own k' d = own k d" by (simp add: own_def)
  with assms \<open>tabs k' d = tabs k d\<close> \<open>frames k' d = frames k d\<close> show "space ke k' d = space ke k d"
    by (simp add: space_def)
qed

lemma space_frame_rule:
  assumes "space ke k d" "only S k k'" "S \<inter> own k d = {}"
  shows "space ke k' d" "own k' d = own k d"
proof -
  have S: "S \<inter> insert d (tabs k d) = {}" using assms(3) by (auto simp: own_def)
  note v = view_cong [OF assms(1,2) S]
  show "space ke k' d" "own k' d = own k d"
    using view_sets_cong [of k' d k] v assms(1) by simp_all
qed

subsection \<open>Walking\<close>

lemma index_split: "d + 4 * PDX va = slot d (unat va div 4096 div 1024)" "t + 4 * PTX va = slot t (unat va div 4096 mod 1024)"
proof -
  have "PDX va = of_nat (unat va div 4096 div 1024)" "PTX va = of_nat (unat va div 4096 mod 1024)"
    using unat_PDX [of va] unat_PTX [of va] unat_less_32 [of va] by (simp_all add: word_unat_eq_iff unat_of_nat div_mult2_eq [symmetric])
  then show "d + 4 * PDX va = slot d (unat va div 4096 div 1024)" "t + 4 * PTX va = slot t (unat va div 4096 mod 1024)"
    by (simp_all add: slot_def)
qed

abbreviation vpn :: "u32 \<Rightarrow> nat" where "vpn va \<equiv> unat va div 4096"

lemma vpn_less: "vpn va < 1048576" "vpn va div 1024 < 1024"
  using unat_less_32 [of va] by simp_all

lemma walk_present: "tab k d (vpn va div 1024) = Some t \<Longrightarrow> walkpgdir k d va al = (k, slot t (vpn va mod 1024))"
  by (auto simp: walkpgdir_def index_split tab_def frame_of_def Let_def split: if_splits)

lemma walk_absent: "tab k d (vpn va div 1024) = None \<Longrightarrow> walkpgdir k d va False = (k, 0)"
  by (auto simp: walkpgdir_def index_split tab_def frame_of_def Let_def split: if_splits)

lemma walk_full:
  assumes "kmem_rep ke k []" "tab k d (vpn va div 1024) = None"
  shows "walkpgdir k d va True = (k, 0)"
  using assms kalloc_rep(1) [OF assms(1)] by (auto simp: walkpgdir_def index_split tab_def frame_of_def Let_def split: if_splits)

lemma slot_nonzero: "kfree_ok ke p \<Longrightarrow> i < 1024 \<Longrightarrow> slot p i \<noteq> 0"
  using slot_byte(1) [of p i 0] kfree_okD [of ke p] by auto

subsection \<open>Changing one entry\<close>

lemma V2P_aligned: "kfree_ok ke p \<Longrightarrow> page_aligned (V2P p)"
proof -
  assume ok: "kfree_ok ke p"
  have "unat (V2P p) = unat p - 2147483648"
    using kfree_okD(3) [OF ok] by (simp add: V2P_def KERNBASE_def unat_sub word_le_nat_alt)
  moreover obtain q where q: "unat p = 4096 * q" using kfree_okD(1) [OF ok] by (auto simp: page_aligned_def elim: dvdE)
  moreover have "4096 * q - 2147483648 = 4096 * (q - 524288)" by simp
  ultimately show ?thesis by (simp add: page_aligned_def)
qed

lemma frame_of_make:
  assumes "page_aligned pa" "f AND NOT 0xFFF = 0" shows "frame_of (pa OR f OR PTE_P) = Some (P2V pa)"
proof -
  have f: "(f OR PTE_P) AND NOT 0xFFF = 0" using assms(2) by (simp add: PTE_P_def bit.conj_disj_distrib2)
  have "bit ((pa OR f OR PTE_P) AND PTE_P) 0" by (simp add: PTE_P_def bit_simps)
  then have "(pa OR f OR PTE_P) AND PTE_P \<noteq> 0" by auto
  moreover have "PTE_ADDR (pa OR f OR PTE_P) = pa" using PTE_ADDR_make [OF assms(1) f] by (simp add: or.assoc)
  ultimately show ?thesis by (simp add: frame_of_def)
qed

lemma frame_of_0 [simp]: "frame_of 0 = None"
  by (simp add: frame_of_def)

lemma set_pte_view:
  assumes s: "space ke k d" and t: "tab k d (n div 1024) = Some t" and n: "n < 1048576"
  shows "i < 1024 \<Longrightarrow> tab (set_pte k (slot t (n mod 1024)) v) d i = tab k d i"
    and "m < 1048576 \<Longrightarrow> pte (set_pte k (slot t (n mod 1024)) v) d m = (if m = n then v else pte k d m)"
    and "only {t} k (set_pte k (slot t (n mod 1024)) v)"
proof -
  let ?k = "set_pte k (slot t (n mod 1024)) v"
  have tt: "t \<in> tabs k d" using t n by (auto intro: tab_in)
  have al: "page_aligned t" "page_aligned d" using space_ok [OF s] tt by auto
  have "t \<noteq> d" using tt s by (auto simp: space_def)
  then show T: "tab ?k d i = tab k d i" if "i < 1024" for i
    using load32_store32_slot [OF al, of "n mod 1024" i] that by (simp add: tab_def set_pte_def)
  show "only {t} k ?k" using store32_slot_other [OF al(1)] by (auto simp: only_def set_pte_def)
  show "pte ?k d m = (if m = n then v else pte k d m)" if m: "m < 1048576"
  proof (cases "tab k d (m div 1024)")
    case None
    then have "m \<noteq> n" using t by auto
    then show ?thesis using None T m by (simp add: pte_def)
  next
    case (Some u)
    have u: "u \<in> tabs k d" using Some m by (auto intro: tab_in)
    have "(t = u \<and> n mod 1024 = m mod 1024) = (m = n)"
    proof
      assume *: "t = u \<and> n mod 1024 = m mod 1024"
      then have "n div 1024 = m div 1024" using s t Some n m by (auto simp: space_def)
      then show "m = n" using * by (metis div_mult_mod_eq)
    qed (use t Some in auto)
    then show ?thesis using Some T [of "m div 1024"] m load32_store32_slot [OF al(1) space_ok(4) [OF s u], of "n mod 1024" "m mod 1024"]
      by (simp add: pte_def set_pte_def)
  qed
qed

lemma new_table_view:
  assumes s: "space ke k d" and i: "tab k d i = None" "i < 1024" and q: "kfree_ok ke q" "q \<notin> own k d"
    and k': "kmem_mem k' = store32 (fill (kmem_mem k) q 0 4096) (slot d i) (V2P q OR PTE_P OR PTE_W OR PTE_U)"
  shows "j < 1024 \<Longrightarrow> tab k' d j = (if j = i then Some q else tab k d j)"
    and "m < 1048576 \<Longrightarrow> pte k' d m = pte k d m"
    and "only {d, q} k k'"
proof -
  have al: "page_aligned d" "page_aligned q" using space_ok(2) [OF s] kfree_okD(1) [OF q(1)] by auto
  have ne: "q \<noteq> d" "q \<notin> tabs k d" using q(2) by (auto simp: own_def)
  have fl: "load32 (fill (kmem_mem k) q 0 4096) (slot p j) = load32 (kmem_mem k) (slot p j)"
    if "page_aligned p" "p \<noteq> q" "j < 1024" for p j
    using that al fill_other by (intro load32_slot_cong) auto
  have e: "frame_of (V2P q OR PTE_P OR PTE_W OR PTE_U) = Some q"
  proof -
    have "V2P q OR PTE_P OR PTE_W OR PTE_U = V2P q OR 7 OR PTE_P" by (simp add: PTE_P_def PTE_W_def PTE_U_def or.assoc)
    then show ?thesis using frame_of_make [OF V2P_aligned [OF q(1)], of 7] by simp
  qed
  show T: "tab k' d j = (if j = i then Some q else tab k d j)" if "j < 1024" for j
    using load32_store32_slot [OF al(1) al(1), of i j] that i(2) ne fl [of d j] e al by (simp add: tab_def k')
  show "only {d, q} k k'"
    using store32_slot_other [OF al(1) i(2)] fill_other [OF al(2)] by (auto simp: only_def k')
  show "pte k' d m = pte k d m" if m: "m < 1048576"
  proof (cases "m div 1024 = i")
    case True
    have "load32 (kmem_mem k') (slot q (m mod 1024)) = 0"
      using load32_store32_slot [OF al, of i "m mod 1024"] i(2) ne load32_fill_zero [OF al(2)] by (simp add: k')
    then show ?thesis using T [of i] i True by (simp add: pte_def)
  next
    case False
    show ?thesis
    proof (cases "tab k d (m div 1024)")
      case (Some u)
      have u: "u \<in> tabs k d" using Some m by (auto intro: tab_in)
      then have "u \<noteq> q" "u \<noteq> d" "page_aligned u" using ne s space_ok(4) [OF s] by (auto simp: space_def)
      then have "load32 (kmem_mem k') (slot u (m mod 1024)) = load32 (kmem_mem k) (slot u (m mod 1024))"
        using load32_store32_slot [OF al(1), of u i "m mod 1024"] i(2) fl [of u "m mod 1024"] by (simp add: k')
      then show ?thesis using Some T [of "m div 1024"] False m by (simp add: pte_def)
    qed (use T [of "m div 1024"] False m in \<open>simp add: pte_def\<close>)
  qed
qed

lemma new_table_space:
  assumes s: "space ke k d" and i: "tab k d i = None" "i < 1024" and q: "kfree_ok ke q" "q \<notin> own k d"
    and T: "\<And>j. j < 1024 \<Longrightarrow> tab k' d j = (if j = i then Some q else tab k d j)"
    and P: "\<And>m. m < 1048576 \<Longrightarrow> pte k' d m = pte k d m"
  shows "space ke k' d" "own k' d = insert q (own k d)"
proof -
  have "x \<in> tabs k' d \<longleftrightarrow> x \<in> insert q (tabs k d)" for x
    unfolding tabs_def mem_Collect_eq insert_iff using T i by (metis option.inject option.distinct(1))
  then have t: "tabs k' d = insert q (tabs k d)" by blast
  have f: "frames k' d = frames k d" using P by (auto simp: frames_def)
  show o: "own k' d = insert q (own k d)" using t f by (auto simp: own_def)
  have q': "q \<noteq> d" "q \<notin> tabs k d" "q \<notin> frames k d" using q(2) by (auto simp: own_def)
  have "tab k d j \<noteq> Some q" if "j < 1024" for j using q'(2) that by (auto simp: tabs_def)
  then have "\<forall>i<1024. \<forall>j<1024. \<forall>t. tab k' d i = Some t \<and> tab k' d j = Some t \<longrightarrow> i = j"
    using s T i by (auto simp: space_def)
  moreover have "\<forall>m<524288. \<forall>n<524288. \<forall>p. frame k' d m = Some p \<and> frame k' d n = Some p \<longrightarrow> m = n"
    using s P by (auto simp: space_def)
  ultimately show "space ke k' d" using s t f o q q' unfolding space_def by auto
qed

text \<open>A new frame, a removed frame, and an entry of the kernel part.\<close>

lemma set_pte_space:
  assumes s: "space ke k d" and T: "\<And>i. i < 1024 \<Longrightarrow> tab k' d i = tab k d i"
    and P: "\<And>m. m < 1048576 \<Longrightarrow> pte k' d m = (if m = n then v else pte k d m)"
  shows "524288 \<le> n \<Longrightarrow> space ke k' d \<and> own k' d = own k d"
    and "n < 524288 \<Longrightarrow> frame k d n = None \<Longrightarrow> frame_of v = Some p \<Longrightarrow> kfree_ok ke p \<Longrightarrow> p \<notin> own k d \<Longrightarrow>
      space ke k' d \<and> own k' d = insert p (own k d)"
    and "n < 524288 \<Longrightarrow> frame k d n = Some p \<Longrightarrow> frame_of v = None \<Longrightarrow> space ke k' d \<and> own k' d = own k d - {p}"
proof -
  have t: "tabs k' d = tabs k d" using T by (auto simp: tabs_def)
  have inj: "\<forall>i<1024. \<forall>j<1024. \<forall>t. tab k' d i = Some t \<and> tab k' d j = Some t \<longrightarrow> i = j"
    using s T by (auto simp: space_def)
  show "space ke k' d \<and> own k' d = own k d" if "524288 \<le> n"
    using view_sets_cong(3) [of k' d k] view_sets_cong(4) [of k' d k ke] T P that s by simp
  show "space ke k' d \<and> own k' d = insert p (own k d)"
    if n: "n < 524288" "frame k d n = None" "frame_of v = Some p" "kfree_ok ke p" "p \<notin> own k d"
  proof -
    have p: "p \<noteq> d" "p \<notin> tabs k d" "p \<notin> frames k d" using n(5) by (auto simp: own_def)
    have F: "frame k' d m = (if m = n then Some p else frame k d m)" if "m < 524288" for m using P that n by simp
    have "x \<in> frames k' d \<longleftrightarrow> x \<in> insert p (frames k d)" for x
      unfolding frames_def mem_Collect_eq insert_iff using F n by (metis option.inject option.distinct(1))
    then have f: "frames k' d = insert p (frames k d)" by blast
    have "frame k d m \<noteq> Some p" if "m < 524288" for m using p(3) that by (auto simp: frames_def)
    then have "\<forall>m<524288. \<forall>n<524288. \<forall>p. frame k' d m = Some p \<and> frame k' d n = Some p \<longrightarrow> m = n"
      using s F n by (auto simp: space_def)
    then show ?thesis using s t f p n(4) inj by (auto simp: space_def own_def)
  qed
  show "space ke k' d \<and> own k' d = own k d - {p}" if n: "n < 524288" "frame k d n = Some p" "frame_of v = None"
  proof -
    have p: "p \<in> frames k d" using n by (auto intro: frame_in)
    then have p': "p \<noteq> d" "p \<notin> tabs k d" using s by (auto simp: space_def)
    have F: "frame k' d m = (if m = n then None else frame k d m)" if "m < 524288" for m using P that n by simp
    have u: "m = n" if "frame k d m = Some p" "m < 524288" for m using s n that by (auto simp: space_def)
    have "x \<in> frames k' d \<longleftrightarrow> x \<in> frames k d \<and> x \<noteq> p" for x
      unfolding frames_def mem_Collect_eq using F n u by (metis option.inject option.distinct(1))
    then have f: "frames k' d = frames k d - {p}" by blast
    have "\<forall>m<524288. \<forall>n<524288. \<forall>p. frame k' d m = Some p \<and> frame k' d n = Some p \<longrightarrow> m = n"
      using s F by (auto simp: space_def)
    then show ?thesis using s t f p' inj by (auto simp: space_def own_def)
  qed
qed

subsection \<open>Mapping\<close>

text \<open>An address space beside the free list \<open>ps\<close> of the allocator.\<close>

definition managed :: "u32 \<Rightarrow> kmem \<Rightarrow> u32 \<Rightarrow> u32 list \<Rightarrow> bool" where
  "managed ke k d ps \<longleftrightarrow> KERNBASE < ke \<and> kmem_rep ke k ps \<and> space ke k d \<and> own k d \<inter> set ps = {}"

lemma kmem_rep_only:
  assumes "kmem_rep ke k ps" "only S k k'" "S \<inter> set ps = {}" "freelist k' = freelist k"
  shows "kmem_rep ke k' ps"
proof -
  have "list_at (kmem_mem k') (freelist k) ps = list_at (kmem_mem k) (freelist k) ps"
    using assms by (intro list_at_cong) (auto simp: kmem_rep_def only_def dest: kfree_okD(1))
  with assms show ?thesis by (simp add: kmem_rep_def)
qed

lemma walk_ok:
  assumes m: "managed ke k d ps" and w: "tab k d (vpn va div 1024) \<noteq> None \<or> ps \<noteq> []"
  shows "\<exists>k' t ps'. walkpgdir k d va True = (k', slot t (vpn va mod 1024)) \<and> tab k' d (vpn va div 1024) = Some t \<and>
    slot t (vpn va mod 1024) \<noteq> 0 \<and> managed ke k' d ps' \<and> (\<forall>n<1048576. pte k' d n = pte k d n) \<and>
    only (insert d (set ps)) k k' \<and> set ps' \<subseteq> set ps \<and> own k' d = own k d \<union> (set ps - set ps') \<and>
    length ps \<le> Suc (length ps') \<and> (tab k d (vpn va div 1024) \<noteq> None \<longrightarrow> ps' = ps) \<and> tabs k' d \<subseteq> tabs k d \<union> set ps"
proof (cases "tab k d (vpn va div 1024)")
  case (Some t)
  have "kfree_ok ke t" using m Some vpn_less(2) by (auto simp: managed_def intro!: space_ok(3) tab_in)
  then have "slot t (vpn va mod 1024) \<noteq> 0" by (intro slot_nonzero) auto
  then show ?thesis using walk_present [OF Some, of True] Some m
    by (intro exI [of _ k] exI [of _ t] exI [of _ ps]) auto
next
  case None
  then obtain q qs where ps: "ps = q # qs" using w by (cases ps) auto
  let ?m = "store32 (fill (kmem_mem k) q 0 4096) (slot d (vpn va div 1024)) (V2P q OR PTE_P OR PTE_W OR PTE_U)"
  let ?k = "(fst (kalloc k))\<lparr>kmem_mem := ?m\<rparr>"
  have rep: "kmem_rep ke k ps" and s: "space ke k d" and dis: "own k d \<inter> set ps = {}" using m by (auto simp: managed_def)
  have a: "snd (kalloc k) = q" "q \<noteq> 0" "kmem_rep ke (fst (kalloc k)) qs" using kalloc_rep(2) [OF rep ps] by auto
  have q: "kfree_ok ke q" "q \<notin> own k d" "q \<notin> set qs" using rep dis ps by (auto simp: kmem_rep_def)
  have W: "walkpgdir k d va True = (?k, slot q (vpn va mod 1024))"
    using None a by (auto simp: walkpgdir_def index_split tab_def frame_of_def Let_def PGSIZE_def case_prod_beta split: if_splits)
  note V = new_table_view [OF s None vpn_less(2) q(1,2), of ?k]
  have T: "tab ?k d j = (if j = vpn va div 1024 then Some q else tab k d j)" if "j < 1024" for j using V(1) that by simp
  have P: "pte ?k d n = pte k d n" if "n < 1048576" for n using V(2) that by simp
  have O: "only {d, q} k ?k" using V(3) by simp
  note S = new_table_space [OF s None vpn_less(2) q(1,2) T P]
  have "kmem_rep ke ?k qs"
    using O dis ps q(3) by (intro kmem_rep_only [OF a(3), of "{d, q}"]) (auto simp: only_def own_def)
  then have "managed ke ?k d qs" using m S dis ps q(3) by (auto simp: managed_def)
  moreover have "slot q (vpn va mod 1024) \<noteq> 0" using q(1) by (intro slot_nonzero) auto
  moreover have "own ?k d = own k d \<union> (set ps - set qs)" using S(2) ps q(3) by auto
  moreover have "tabs ?k d \<subseteq> tabs k d \<union> set ps" using T ps by (auto simp: tabs_def split: if_splits)
  ultimately show ?thesis using W T [of "vpn va div 1024"] vpn_less(2) [of va] P only_mono [OF O, of "insert d (set ps)"] ps None
    by (intro exI [of _ ?k] exI [of _ q] exI [of _ qs]) (auto simp: own_def)
qed

lemma get_entry: "tab k d (n div 1024) = Some t \<Longrightarrow> get_pte k (slot t (n mod 1024)) = pte k d n"
  by (simp add: pte_def)

lemma put_entry:
  assumes m: "managed ke k d ps" and t: "tab k d (n div 1024) = Some t" "n < 1048576" and k': "k' = set_pte k (slot t (n mod 1024)) v"
  shows "524288 \<le> n \<Longrightarrow> managed ke k' d ps \<and> own k' d = own k d"
    and "n < 524288 \<Longrightarrow> frame k d n = None \<Longrightarrow> frame_of v = Some p \<Longrightarrow> kfree_ok ke p \<Longrightarrow> p \<notin> own k d \<Longrightarrow> p \<notin> set ps \<Longrightarrow>
      managed ke k' d ps \<and> own k' d = insert p (own k d)"
    and "n < 524288 \<Longrightarrow> frame k d n = Some p \<Longrightarrow> frame_of v = None \<Longrightarrow> managed ke k' d ps \<and> own k' d = own k d - {p}"
    and "\<forall>j<1048576. pte k' d j = (if j = n then v else pte k d j)"
    and "only (tabs k d) k k'"
    and "\<forall>i<1024. tab k' d i = tab k d i"
proof -
  have s: "space ke k d" and rep: "kmem_rep ke k ps" and dis: "own k d \<inter> set ps = {}" using m by (auto simp: managed_def)
  note V = set_pte_view(1) [OF s t, of _ v, folded k'] set_pte_view(2) [OF s t, of _ v, folded k']
  have tt: "t \<in> tabs k d" using t by (auto intro: tab_in)
  then show O: "only (tabs k d) k k'" using set_pte_view(3) [OF s t, of v] only_mono k' by blast
  have "kmem_rep ke k' ps" using dis by (intro kmem_rep_only [OF rep O]) (auto simp: k' set_pte_def own_def)
  then show "524288 \<le> n \<Longrightarrow> managed ke k' d ps \<and> own k' d = own k d"
    "n < 524288 \<Longrightarrow> frame k d n = None \<Longrightarrow> frame_of v = Some p \<Longrightarrow> kfree_ok ke p \<Longrightarrow> p \<notin> own k d \<Longrightarrow> p \<notin> set ps \<Longrightarrow>
      managed ke k' d ps \<and> own k' d = insert p (own k d)"
    "n < 524288 \<Longrightarrow> frame k d n = Some p \<Longrightarrow> frame_of v = None \<Longrightarrow> managed ke k' d ps \<and> own k' d = own k d - {p}"
    using set_pte_space [OF s V(1,2)] m dis by (auto simp: managed_def)
  show "\<forall>j<1048576. pte k' d j = (if j = n then v else pte k d j)" "\<forall>i<1024. tab k' d i = tab k d i" using V by auto
qed

lemma mappages_page:
  assumes "page_aligned va"
  shows "mappages k d va PGSIZE pa perm =
    (let (k, pte) = walkpgdir k d va True in
     if pte = 0 then Done (k, - 1)
     else if get_pte k pte AND PTE_P \<noteq> 0 then Panic ''remap''
     else Done (set_pte k pte (pa OR perm OR PTE_P), 0))"
proof -
  have "PGROUNDDOWN (va + 4096 - 1) = va"
  proof -
    have "unat (va + of_nat 4095) = unat va + 4095" by (rule unat_page_offset [OF assms]) simp
    moreover obtain q where "unat va = 4096 * q" using assms by (auto simp: page_aligned_def elim: dvdE)
    ultimately have "unat (PGROUNDDOWN (va + 4095)) = unat va" by (simp add: unat_PGROUNDDOWN)
    then show ?thesis by (simp add: word_unat_eq_iff add.commute)
  qed
  then show ?thesis using PGROUNDDOWN_id [OF assms] by (simp add: mappages_def PGSIZE_def case_prod_beta Let_def)
qed

lemma map_user_page:
  assumes m: "managed ke k d ps" and va: "page_aligned va" "vpn va < 524288" and n: "frame k d (vpn va) = None"
    and p: "kfree_ok ke p" "p \<notin> own k d" "p \<notin> set ps" and perm: "perm AND NOT 0xFFF = 0"
  shows "tab k d (vpn va div 1024) = None \<Longrightarrow> ps = [] \<Longrightarrow> mappages k d va PGSIZE (V2P p) perm = Done (k, - 1)"
    and "tab k d (vpn va div 1024) \<noteq> None \<or> ps \<noteq> [] \<Longrightarrow>
      \<exists>k' ps'. mappages k d va PGSIZE (V2P p) perm = Done (k', 0) \<and> managed ke k' d ps' \<and>
        (\<forall>n<1048576. pte k' d n = (if n = vpn va then V2P p OR perm OR PTE_P else pte k d n)) \<and>
        only (insert d (tabs k d) \<union> set ps) k k' \<and> set ps' \<subseteq> set ps \<and> own k' d = insert p (own k d \<union> (set ps - set ps')) \<and>
        length ps \<le> Suc (length ps') \<and> (tab k d (vpn va div 1024) \<noteq> None \<longrightarrow> ps' = ps)"
proof -
  show "mappages k d va PGSIZE (V2P p) perm = Done (k, - 1)" if "tab k d (vpn va div 1024) = None" "ps = []"
    using walk_full [of ke k d va] that m mappages_page [OF va(1)] by (simp add: managed_def)
  assume w: "tab k d (vpn va div 1024) \<noteq> None \<or> ps \<noteq> []"
  obtain k1 t ps' where W: "walkpgdir k d va True = (k1, slot t (vpn va mod 1024))" "tab k1 d (vpn va div 1024) = Some t"
    "slot t (vpn va mod 1024) \<noteq> 0" "managed ke k1 d ps'" "\<forall>n<1048576. pte k1 d n = pte k d n" "only (insert d (set ps)) k k1"
    "set ps' \<subseteq> set ps" "own k1 d = own k d \<union> (set ps - set ps')" "length ps \<le> Suc (length ps')"
    "tab k d (vpn va div 1024) \<noteq> None \<longrightarrow> ps' = ps" "tabs k1 d \<subseteq> tabs k d \<union> set ps"
    using walk_ok [OF m w] by blast
  let ?v = "V2P p OR perm OR PTE_P" and ?a = "slot t (vpn va mod 1024)"
  have f: "frame_of ?v = Some p" using frame_of_make [OF V2P_aligned [OF p(1)] perm] by simp
  have g: "get_pte k1 ?a = pte k d (vpn va)" using get_entry [OF W(2)] W(5) vpn_less(1) by simp
  have n1: "frame k1 d (vpn va) = None" using W(5) n vpn_less(1) by simp
  have fr: "p \<notin> own k1 d" "p \<notin> set ps'" using W p by auto
  note E = put_entry [OF W(4,2) vpn_less(1) refl]
  have "mappages k d va PGSIZE (V2P p) perm = Done (set_pte k1 ?a ?v, 0)"
    using mappages_page [OF va(1)] W(1,3) g n by (auto simp: frame_of_def split: if_splits)
  moreover have "managed ke (set_pte k1 ?a ?v) d ps' \<and> own (set_pte k1 ?a ?v) d = insert p (own k1 d)"
    by (rule E(2) [OF va(2) n1 f p(1) fr])
  moreover have "only (insert d (tabs k d) \<union> set ps) k (set_pte k1 ?a ?v)"
    by (rule only_mono [OF only_trans [OF W(6) E(5) [of ?v]]]) (use W(11) in auto)
  moreover have "\<forall>n<1048576. pte (set_pte k1 ?a ?v) d n = (if n = vpn va then ?v else pte k d n)"
    using E(4) [of ?v] W(5) by simp
  ultimately show "\<exists>k' ps'. mappages k d va PGSIZE (V2P p) perm = Done (k', 0) \<and> managed ke k' d ps' \<and>
        (\<forall>n<1048576. pte k' d n = (if n = vpn va then V2P p OR perm OR PTE_P else pte k d n)) \<and>
        only (insert d (tabs k d) \<union> set ps) k k' \<and> set ps' \<subseteq> set ps \<and> own k' d = insert p (own k d \<union> (set ps - set ps')) \<and>
        length ps \<le> Suc (length ps') \<and> (tab k d (vpn va div 1024) \<noteq> None \<longrightarrow> ps' = ps)"
    using W(7-10) by (intro exI [of _ "set_pte k1 ?a ?v"] exI [of _ ps']) simp
qed

subsection \<open>Unmapping\<close>

lemma frame_nonzero: "KERNBASE < ke \<Longrightarrow> kfree_ok ke (P2V pa) \<Longrightarrow> pa \<noteq> 0"
  using kfree_okD(2) [of ke "P2V pa"] by (auto simp: P2V_def)

lemma kfree_only: "kfree ke k v = Done k' \<Longrightarrow> only {v} k k'"
  using kfree_mem by (auto simp: only_def)

lemma frame_of_SomeD: "frame_of e = Some p \<Longrightarrow> e AND PTE_P \<noteq> 0 \<and> p = P2V (PTE_ADDR e)"
  by (auto simp: frame_of_def split: if_splits)

lemma dealloc_page:
  assumes m: "managed ke k d ps" and n: "vpn a < 524288"
  shows "\<exists>k'. deallocuvm_page ke d a k = Done (Next k') \<and>
    managed ke k' d (case frame k d (vpn a) of None \<Rightarrow> ps | Some p \<Rightarrow> p # ps) \<and>
    (\<forall>j<1048576. pte k' d j = (if j = vpn a \<and> frame k d j \<noteq> None then 0 else pte k d j)) \<and>
    (\<forall>i<1024. tab k' d i = tab k d i) \<and> own k' d = own k d - set_option (frame k d (vpn a)) \<and>
    only (tabs k d \<union> set_option (frame k d (vpn a))) k k'"
proof (cases "frame k d (vpn a)")
  case None
  have "deallocuvm_page ke d a k = Done (Next k)"
  proof (cases "tab k d (vpn a div 1024)")
    case (Some t)
    have "get_pte k (slot t (vpn a mod 1024)) AND PTE_P = 0"
      using get_entry [OF Some] None by (auto simp: frame_of_def split: if_splits)
    then show ?thesis using walk_present [OF Some] by (simp add: deallocuvm_page_def Let_def)
  qed (simp add: deallocuvm_page_def walk_absent)
  then show ?thesis using m None by auto
next
  case (Some p)
  have ke: "KERNBASE < ke" and rep: "kmem_rep ke k ps" and s: "space ke k d" and dis: "own k d \<inter> set ps = {}"
    using m by (auto simp: managed_def)
  obtain t where t: "tab k d (vpn a div 1024) = Some t" using Some by (cases "tab k d (vpn a div 1024)") (auto simp: pte_def)
  let ?a = "slot t (vpn a mod 1024)"
  have tt: "t \<in> tabs k d" using t vpn_less(2) by (auto intro: tab_in)
  have p: "p \<in> frames k d" using Some n by (auto intro: frame_in)
  have ok: "kfree_ok ke p" "p \<notin> set ps" "p \<noteq> d" "p \<notin> tabs k d" using p s dis space_ok(5) [OF s] by (auto simp: space_def own_def)
  obtain k1 where k1: "kfree ke k p = Done k1" "kmem_rep ke k1 (p # ps)" using kfree_rep [OF rep ok(1,2)] by auto
  have O1: "only {p} k k1" by (rule kfree_only [OF k1(1)])
  have "{p} \<inter> insert d (tabs k d) = {}" using ok by auto
  note v1 = view_cong [OF s O1 this]
  have s1: "space ke k1 d" and o1: "own k1 d = own k d" using view_sets_cong [of k1 d k] v1 s by simp_all
  have t1: "tab k1 d (vpn a div 1024) = Some t" using v1(1) t vpn_less(2) by simp
  let ?k = "set_pte k1 ?a 0"
  note V = set_pte_view(1) [OF s1 t1 vpn_less(1), of _ 0] set_pte_view(2) [OF s1 t1 vpn_less(1), of _ 0] and O2 = set_pte_view(3) [OF s1 t1 vpn_less(1), of 0]
  have F1: "frame k1 d (vpn a) = Some p" using v1(2) vpn_less(1) Some by simp
  have S2: "space ke ?k d \<and> own ?k d = own k1 d - {p}" by (rule set_pte_space(3) [OF s1 V n F1 frame_of_0])
  have "kmem_rep ke ?k (p # ps)"
    using O2 tt ok dis by (intro kmem_rep_only [OF k1(2) O2]) (auto simp: own_def set_pte_def)
  then have "managed ke ?k d (p # ps)" using ke S2 o1 dis by (auto simp: managed_def)
  moreover have "deallocuvm_page ke d a k = Done (Next ?k)"
    using walk_present [OF t] get_entry [OF t] frame_of_SomeD [OF Some] k1(1) ok(1) frame_nonzero [OF ke] slot_nonzero [OF space_ok(3) [OF s tt], of "vpn a mod 1024"]
    by (auto simp: deallocuvm_page_def Let_def)
  moreover have "only (tabs k d \<union> {p}) k ?k" using only_mono [OF only_trans [OF O1 O2], of "tabs k d \<union> {p}"] tt by auto
  ultimately show ?thesis using V v1 S2 o1 Some by (intro exI [of _ ?k]) auto
qed

lemma dealloc_loop:
  assumes "managed ke k d ps" "page_aligned a" "e \<le> KERNBASE"
  shows "\<exists>k' ps'. page_loop (deallocuvm_page ke d) a e k = Done (Next k') \<and> managed ke k' d ps' \<and>
    (\<forall>j<1048576. pte k' d j = (if vpn a \<le> j \<and> 4096 * j < unat e \<and> frame k d j \<noteq> None then 0 else pte k d j)) \<and>
    (\<forall>i<1024. tab k' d i = tab k d i) \<and> own k' d \<union> set ps' = own k d \<union> set ps \<and> set ps \<subseteq> set ps' \<and>
    only (tabs k d \<union> (set ps' - set ps)) k k'"
  using assms
proof (induction "unat e - unat a" arbitrary: a k ps rule: less_induct)
  case less
  obtain q where q: "unat a = 4096 * q" using less.prems(2) by (auto simp: page_aligned_def elim: dvdE)
  show ?case
  proof (cases "a < e")
    case False
    then have "\<not> (vpn a \<le> j \<and> 4096 * j < unat e)" for j using q by (auto simp: word_less_nat_alt)
    then show ?thesis using False less.prems by (subst page_loop.simps) (auto simp: only_def)
  next
    case True
    have e: "unat e \<le> 2147483648" using less.prems(3) by (simp add: word_le_nat_alt KERNBASE_def)
    have u: "unat a < unat e" using True by (simp add: word_less_nat_alt)
    have n: "vpn a < 524288" using u e by simp
    have a': "unat (a + 4096) = unat a + 4096" "page_aligned (a + 4096)" using page_next [OF less.prems(2)] u e by auto
    obtain k1 where k1: "deallocuvm_page ke d a k = Done (Next k1)"
      "managed ke k1 d (case frame k d (vpn a) of None \<Rightarrow> ps | Some p \<Rightarrow> p # ps)"
      "\<forall>j<1048576. pte k1 d j = (if j = vpn a \<and> frame k d j \<noteq> None then 0 else pte k d j)"
      "\<forall>i<1024. tab k1 d i = tab k d i" "own k1 d = own k d - set_option (frame k d (vpn a))" "only (tabs k d \<union> set_option (frame k d (vpn a))) k k1"
      using dealloc_page [OF less.prems(1) n] by auto
    let ?ps = "case frame k d (vpn a) of None \<Rightarrow> ps | Some p \<Rightarrow> p # ps"
    have o: "own k1 d \<union> set ?ps = own k d \<union> set ps" "set ps \<subseteq> set ?ps"
      using k1(5) frame_in [OF _ n, of k d] by (auto simp: own_def split: option.splits)
    have "unat e - unat (a + 4096) < unat e - unat a" using a' u by simp
    from less.hyps [OF this k1(2) a'(2) less.prems(3)] obtain k2 ps2 where k2:
      "page_loop (deallocuvm_page ke d) (a + 4096) e k1 = Done (Next k2)" "managed ke k2 d ps2"
      "\<forall>j<1048576. pte k2 d j = (if vpn (a + 4096) \<le> j \<and> 4096 * j < unat e \<and> frame k1 d j \<noteq> None then 0 else pte k1 d j)"
      "\<forall>i<1024. tab k2 d i = tab k1 d i" "own k2 d \<union> set ps2 = own k1 d \<union> set ?ps" "set ?ps \<subseteq> set ps2" "only (tabs k1 d \<union> (set ps2 - set ?ps)) k1 k2" by auto
    have "\<not> a + 4096 < a" using a' by (simp add: word_less_nat_alt)
    then have "page_loop (deallocuvm_page ke d) a e k = Done (Next k2)"
      using True k1(1) k2(1) by (subst page_loop.simps) (simp add: PGSIZE_def)
    moreover have "pte k2 d j = (if vpn a \<le> j \<and> 4096 * j < unat e \<and> frame k d j \<noteq> None then 0 else pte k d j)" if "j < 1048576" for j
    proof (cases "j = vpn a")
      case True
      then show ?thesis using k1(3) k2(3) that a'(1) q u by simp
    next
      case False
      then have "vpn (a + 4096) \<le> j \<longleftrightarrow> vpn a \<le> j" using a'(1) q by auto
      then show ?thesis using k1(3) k2(3) that False by auto
    qed
    moreover have "only (tabs k d \<union> (set ps2 - set ps)) k k2"
    proof (rule only_mono [OF only_trans [OF k1(6) k2(7)]])
      have "tabs k1 d = tabs k d" using k1(4) by (auto simp: tabs_def)
      moreover have "set_option (frame k d (vpn a)) \<subseteq> set ?ps - set ps"
        using frame_in [OF _ n, of k d] less.prems(1) by (auto simp: managed_def own_def split: option.splits)
      ultimately show "tabs k d \<union> set_option (frame k d (vpn a)) \<union> (tabs k1 d \<union> (set ps2 - set ?ps)) \<subseteq> tabs k d \<union> (set ps2 - set ps)"
        using o(2) k2(6) by auto
    qed
    ultimately show ?thesis using k2 k1(4) o by (intro exI [of _ k2] exI [of _ ps2]) auto
  qed
qed

end
