(* ===== verification/Vm_Copy.thy ===== *)
theory Vm_Copy
  imports Vm_Space
begin

text \<open>
  Whole address spaces: giving one back to the allocator, making a new one with
  the kernel mapped, and copying one for a child process.
\<close>

subsection \<open>Freeing an address space\<close>

lemma own_no_frames:
  assumes "\<And>j. j < 524288 \<Longrightarrow> frame k d j = None" shows "own k d = insert d (tabs k d)"
  using assms by (auto simp: own_def frames_def)

lemma dealloc_footprint:
  assumes "managed ke k d ps" "page_aligned a" "e \<le> KERNBASE"
  shows "\<exists>k' ps'. page_loop (deallocuvm_page ke d) a e k = Done (Next k') \<and> managed ke k' d ps' \<and>
    (\<forall>j<1048576. pte k' d j = (if vpn a \<le> j \<and> 4096 * j < unat e \<and> frame k d j \<noteq> None then 0 else pte k d j)) \<and>
    (\<forall>i<1024. tab k' d i = tab k d i) \<and> own k' d \<union> set ps' = own k d \<union> set ps \<and> only (own k d) k k'"
proof -
  obtain k' ps' where k': "page_loop (deallocuvm_page ke d) a e k = Done (Next k')" "managed ke k' d ps'"
    "\<forall>j<1048576. pte k' d j = (if vpn a \<le> j \<and> 4096 * j < unat e \<and> frame k d j \<noteq> None then 0 else pte k d j)"
    "\<forall>i<1024. tab k' d i = tab k d i" "own k' d \<union> set ps' = own k d \<union> set ps" "only (tabs k d \<union> (set ps' - set ps)) k k'"
    using dealloc_loop [OF assms] by blast
  have "only (own k d) k k'" by (rule only_mono [OF k'(6)]) (use k'(5) in \<open>auto simp: own_def\<close>)
  with k' show ?thesis by blast
qed

lemma dealloc_all:
  assumes m: "managed ke k d ps"
  shows "\<exists>k' ps'. deallocuvm ke k d KERNBASE 0 = Done (k', 0) \<and> managed ke k' d ps' \<and> (\<forall>i<1024. tab k' d i = tab k d i) \<and>
    own k' d = insert d (tabs k d) \<and> insert d (tabs k d) \<union> set ps' = own k d \<union> set ps \<and> only (own k d) k k'"
proof -
  have z: "PGROUNDDOWN 0 = 0" "page_aligned 0" "unat KERNBASE = 2147483648" by (simp_all add: PGROUNDDOWN_def page_aligned_def KERNBASE_def)
  obtain k' ps' where k': "page_loop (deallocuvm_page ke d) 0 KERNBASE k = Done (Next k')" "managed ke k' d ps'"
    "\<forall>j<1048576. pte k' d j = (if 4096 * j < 2147483648 \<and> frame k d j \<noteq> None then 0 else pte k d j)"
    "\<forall>i<1024. tab k' d i = tab k d i" "own k' d \<union> set ps' = own k d \<union> set ps" "only (own k d) k k'"
    using dealloc_footprint [OF m z(2) order_refl] z(3) by auto
  have "frame k' d j = None" if "j < 524288" for j using k'(3) that by auto
  then have "own k' d = insert d (tabs k' d)" by (rule own_no_frames)
  moreover have "tabs k' d = tabs k d" using k'(4) by (auto simp: tabs_def)
  moreover have "deallocuvm ke k d KERNBASE 0 = Done (k', 0)" using k'(1) z(1) by (simp add: deallocuvm_def) (simp add: KERNBASE_def)
  ultimately show ?thesis using k' by auto
qed

lemma tab_inj: "space ke k d \<Longrightarrow> tab k d i = Some t \<Longrightarrow> tab k d j = Some t \<Longrightarrow> i < 1024 \<Longrightarrow> j < 1024 \<Longrightarrow> i = j"
  unfolding space_def by blast

lemma free_tables:
  assumes "kmem_rep ke k ps" "space ke k d" "insert d (tabs k d) \<inter> set ps = {}" "n \<le> 1024"
  shows "\<exists>k' ps'. each (\<lambda>i k. let e = get_pte k (d + 4 * of_nat i) in
            if e AND PTE_P \<noteq> 0 then kfree ke k (P2V (PTE_ADDR e)) else Done k) [0..<n] k = Done k' \<and>
    kmem_rep ke k' ps' \<and> set ps' = set ps \<union> {t. \<exists>i<n. tab k d i = Some t} \<and> only (tabs k d) k k'"
  using assms(4)
proof (induction n)
  case 0
  then show ?case using assms(1) by (intro exI [of _ k] exI [of _ ps]) simp
next
  case (Suc n)
  then obtain k1 ps1 where k1: "each (\<lambda>i k. let e = get_pte k (d + 4 * of_nat i) in
            if e AND PTE_P \<noteq> 0 then kfree ke k (P2V (PTE_ADDR e)) else Done k) [0..<n] k = Done k1"
    "kmem_rep ke k1 ps1" "set ps1 = set ps \<union> {t. \<exists>i<n. tab k d i = Some t}" "only (tabs k d) k k1" by auto
  have "d \<notin> tabs k d" using assms(2) by (simp add: space_def)
  then have "load32 (kmem_mem k1) (slot d n) = load32 (kmem_mem k) (slot d n)"
    using k1(4) Suc.prems space_ok(2) [OF assms(2)] by (intro load32_slot_cong) (auto simp: only_def)
  then have e: "frame_of (get_pte k1 (d + 4 * of_nat n)) = tab k d n" by (simp add: tab_def slot_def)
  show ?case
  proof (cases "tab k d n")
    case None
    then have "{t. \<exists>i<Suc n. tab k d i = Some t} = {t. \<exists>i<n. tab k d i = Some t}" by (auto simp: less_Suc_eq)
    then show ?thesis using k1 e None by (intro exI [of _ k1] exI [of _ ps1]) (auto simp: each_append frame_of_def Let_def split: if_splits)
  next
    case (Some t)
    have t: "t \<in> tabs k d" using Some Suc.prems by (auto intro: tab_in)
    have "tab k d i \<noteq> Some t" if "i < n" for i using tab_inj [OF assms(2) Some, of i] Suc.prems that by auto
    then have "t \<notin> set ps1" using k1(3) t assms(3) by auto
    then obtain k2 where k2: "kfree ke k1 t = Done k2" "kmem_rep ke k2 (t # ps1)"
      using kfree_rep [OF k1(2) space_ok(3) [OF assms(2) t]] by auto
    have "{x. \<exists>i<Suc n. tab k d i = Some x} = insert t {x. \<exists>i<n. tab k d i = Some x}" using Some by (auto simp: less_Suc_eq)
    moreover have "only (tabs k d) k k2" using only_mono [OF only_trans [OF k1(4) kfree_only [OF k2(1)]], of "tabs k d"] t by auto
    ultimately show ?thesis using k1 k2 frame_of_SomeD [of "get_pte k1 (d + 4 * of_nat n)" t] e Some
      by (intro exI [of _ k2] exI [of _ "t # ps1"]) (auto simp: each_append Let_def)
  qed
qed

text \<open>Everything an address space consists of goes back to the free list, and nothing else.\<close>

lemma freevm_all:
  assumes m: "managed ke k d ps"
  shows "\<exists>k' ps'. freevm ke k d = Done k' \<and> kmem_rep ke k' ps' \<and> set ps' = set ps \<union> own k d \<and> only (own k d) k k'"
proof -
  obtain k1 ps1 where k1: "deallocuvm ke k d KERNBASE 0 = Done (k1, 0)" "managed ke k1 d ps1" "\<forall>i<1024. tab k1 d i = tab k d i"
    "own k1 d = insert d (tabs k d)" "insert d (tabs k d) \<union> set ps1 = own k d \<union> set ps" "only (own k d) k k1"
    using dealloc_all [OF m] by auto
  have s1: "kmem_rep ke k1 ps1" "space ke k1 d" "own k1 d \<inter> set ps1 = {}" using k1(2) by (auto simp: managed_def)
  have t1: "tabs k1 d = tabs k d" using k1(3) by (auto simp: tabs_def)
  have "insert d (tabs k1 d) \<inter> set ps1 = {}" using s1(3) k1(4) t1 by auto
  from free_tables [OF s1(1,2) this order_refl] obtain k2 ps2 where k2:
    "each (\<lambda>i k. let e = get_pte k (d + 4 * of_nat i) in
            if e AND PTE_P \<noteq> 0 then kfree ke k (P2V (PTE_ADDR e)) else Done k) [0..<1024] k1 = Done k2"
    "kmem_rep ke k2 ps2" "set ps2 = set ps1 \<union> tabs k1 d" "only (tabs k1 d) k1 k2" by (auto simp: tabs_def)
  have d: "kfree_ok ke d" "d \<noteq> 0" "d \<notin> set ps2"
    using space_ok(1) [OF s1(2)] kfree_okD(5) s1 k1(4) k2(3) t1 by (auto simp: space_def own_def)
  obtain k3 where k3: "kfree ke k2 d = Done k3" "kmem_rep ke k3 (d # ps2)" using kfree_rep [OF k2(2) d(1,3)] by auto
  have "only (own k d) k k3"
    using only_mono [OF only_trans [OF only_trans [OF k1(6) k2(4)] kfree_only [OF k3(1)]], of "own k d"] t1 by (auto simp: own_def)
  moreover have "set (d # ps2) = set ps \<union> own k d" using k1(5) k2(3) t1 by (auto simp: own_def)
  ultimately show ?thesis using k1(1) k2(1) k3 d(2) by (intro exI [of _ k3] exI [of _ "d # ps2"]) (simp add: freevm_def)
qed

subsection \<open>Mapping the kernel\<close>

text \<open>\<open>k'\<close> and \<open>ps'\<close> come from \<open>k\<close> and \<open>ps\<close> by work on \<open>d\<close> that leaves its user part alone and loses no page.\<close>

definition extends :: "u32 \<Rightarrow> u32 \<Rightarrow> kmem \<Rightarrow> u32 list \<Rightarrow> kmem \<Rightarrow> u32 list \<Rightarrow> bool" where
  "extends ke d k ps k' ps' \<longleftrightarrow> managed ke k' d ps' \<and> (\<forall>j<524288. pte k' d j = pte k d j) \<and>
     own k' d \<union> set ps' = own k d \<union> set ps \<and> only (own k d \<union> set ps) k k'"

lemma extends_refl: "managed ke k d ps \<Longrightarrow> extends ke d k ps k ps"
  by (simp add: extends_def)

lemma extends_trans: "extends ke d k ps k1 ps1 \<Longrightarrow> extends ke d k1 ps1 k2 ps2 \<Longrightarrow> extends ke d k ps k2 ps2"
  using only_trans [of "own k d \<union> set ps" k k1 "own k1 d \<union> set ps1" k2] by (simp add: extends_def)

lemma kernel_entry:
  assumes m: "managed ke k d ps" and a: "524288 \<le> vpn a" and w: "tab k d (vpn a div 1024) \<noteq> None \<or> ps \<noteq> []"
  shows "\<exists>k1 t ps'. walkpgdir k d a True = (k1, slot t (vpn a mod 1024)) \<and> slot t (vpn a mod 1024) \<noteq> 0 \<and>
    get_pte k1 (slot t (vpn a mod 1024)) = pte k d (vpn a) \<and> extends ke d k ps (set_pte k1 (slot t (vpn a mod 1024)) v) ps' \<and>
    (\<forall>j<1048576. j \<noteq> vpn a \<longrightarrow> pte (set_pte k1 (slot t (vpn a mod 1024)) v) d j = pte k d j)"
proof -
  obtain k1 t ps' where W: "walkpgdir k d a True = (k1, slot t (vpn a mod 1024))" "tab k1 d (vpn a div 1024) = Some t"
    "slot t (vpn a mod 1024) \<noteq> 0" "managed ke k1 d ps'" "\<forall>n<1048576. pte k1 d n = pte k d n" "only (insert d (set ps)) k k1"
    "set ps' \<subseteq> set ps" "own k1 d = own k d \<union> (set ps - set ps')"
    using walk_ok [OF m w] by blast
  let ?k = "set_pte k1 (slot t (vpn a mod 1024)) v"
  note E = put_entry [OF W(4,2) vpn_less(1) refl]
  have "only (own k d \<union> set ps) k k1" by (rule only_mono [OF W(6)]) (auto simp: own_def)
  then have "extends ke d k ps k1 ps'" using W by (auto simp: extends_def)
  moreover have "extends ke d k1 ps' ?k ps'"
    using E(1) [OF a, of v] E(4,5) [of v] a only_mono [of "tabs k1 d" k1 ?k "own k1 d \<union> set ps'"] by (auto simp: extends_def own_def)
  ultimately have "extends ke d k ps ?k ps'" by (rule extends_trans)
  then show ?thesis using W(1,3,5) E(4) [of v] get_entry [OF W(2)] vpn_less(1) [of a] by auto
qed

lemma kernel_map_loop:
  assumes "managed ke k d ps" "page_aligned a" "KERNBASE \<le> a" "unat lastp = unat a + 4096 * n"
    "\<And>j. vpn a \<le> j \<Longrightarrow> j \<le> vpn a + n \<Longrightarrow> frame k d j = None"
  shows "\<exists>k' r ps'. mappages_loop (Suc n) k d a lastp pa perm = Done (k', r) \<and> extends ke d k ps k' ps' \<and> (r = 0 \<or> r = - 1 \<and> ps' = []) \<and>
    (\<forall>j<1048576. j < vpn a \<or> vpn a + n < j \<longrightarrow> pte k' d j = pte k d j)"
  using assms
proof (induction n arbitrary: a k ps pa)
  case (0 a k ps pa)
  have n: "524288 \<le> vpn a" using 0(3) by (simp add: word_le_nat_alt KERNBASE_def)
  have e: "a = lastp" using 0(4) by (simp add: word_unat_eq_iff)
  show ?case
  proof (cases "tab k d (vpn a div 1024) = None \<and> ps = []")
    case True
    then show ?thesis using 0(1) walk_full [of ke k d a] extends_refl [OF 0(1)] by (auto simp: managed_def)
  next
    case False
    then obtain k1 t ps1 where W: "walkpgdir k d a True = (k1, slot t (vpn a mod 1024))" "slot t (vpn a mod 1024) \<noteq> 0"
      "get_pte k1 (slot t (vpn a mod 1024)) = pte k d (vpn a)"
      "extends ke d k ps (set_pte k1 (slot t (vpn a mod 1024)) (pa OR perm OR PTE_P)) ps1"
      "\<forall>j<1048576. j \<noteq> vpn a \<longrightarrow> pte (set_pte k1 (slot t (vpn a mod 1024)) (pa OR perm OR PTE_P)) d j = pte k d j"
      using kernel_entry [OF 0(1) n, of "pa OR perm OR PTE_P"] by auto
    have "pte k d (vpn a) AND PTE_P = 0" using 0(5) [of "vpn a"] by (auto simp: frame_of_def split: if_splits)
    then show ?thesis using W e by (intro exI [of _ "set_pte k1 (slot t (vpn a mod 1024)) (pa OR perm OR PTE_P)"] exI [of _ 0] exI [of _ ps1]) (auto simp: Let_def)
  qed
next
  case (Suc n a k ps pa)
  have n: "524288 \<le> vpn a" using Suc.prems(3) by (simp add: word_le_nat_alt KERNBASE_def)
  have e: "a \<noteq> lastp" using Suc.prems(4) by auto
  have "unat a < 4294963200" using Suc.prems(4) page_aligned_top [OF Suc.prems(2)] unat_less_32 [of lastp] by simp
  note a' = page_next [OF Suc.prems(2) this]
  have a'': "KERNBASE \<le> a + 4096" "unat lastp = unat (a + 4096) + 4096 * n" "vpn (a + 4096) = Suc (vpn a)"
    using a' Suc.prems(3,4) by (simp_all add: word_le_nat_alt)
  show ?case
  proof (cases "tab k d (vpn a div 1024) = None \<and> ps = []")
    case True
    then show ?thesis using Suc.prems(1) walk_full [of ke k d a] extends_refl [OF Suc.prems(1)] by (auto simp: managed_def)
  next
    case False
    let ?v = "pa OR perm OR PTE_P"
    obtain k1 t ps1 where W: "walkpgdir k d a True = (k1, slot t (vpn a mod 1024))" "slot t (vpn a mod 1024) \<noteq> 0"
      "get_pte k1 (slot t (vpn a mod 1024)) = pte k d (vpn a)"
      and E: "extends ke d k ps (set_pte k1 (slot t (vpn a mod 1024)) ?v) ps1"
      and P: "\<forall>j<1048576. j \<noteq> vpn a \<longrightarrow> pte (set_pte k1 (slot t (vpn a mod 1024)) ?v) d j = pte k d j"
      using kernel_entry [OF Suc.prems(1) n, of ?v] False by auto
    let ?k = "set_pte k1 (slot t (vpn a mod 1024)) ?v"
    have top: "vpn a + Suc n < 1048576" using Suc.prems(4) unat_less_32 [of lastp] by auto
    have f: "frame ?k d j = None" if "vpn (a + 4096) \<le> j" "j \<le> vpn (a + 4096) + n" for j
      using Suc.prems(5) [of j] P that a'' top by auto
    have "pte k d (vpn a) AND PTE_P = 0" using Suc.prems(5) [of "vpn a"] by (auto simp: frame_of_def split: if_splits)
    then have r: "mappages_loop (Suc (Suc n)) k d a lastp pa perm = mappages_loop (Suc n) ?k d (a + 4096) lastp (pa + 4096) perm"
      using W e by (subst mappages_loop.simps) (simp add: PGSIZE_def Let_def)
    have "managed ke ?k d ps1" using E by (simp add: extends_def)
    from Suc.IH [OF this a'(2) a''(1,2) f] obtain k' r ps' where
      "mappages_loop (Suc n) ?k d (a + 4096) lastp (pa + 4096) perm = Done (k', r)" "extends ke d ?k ps1 k' ps'" "r = 0 \<or> r = - 1 \<and> ps' = []"
      "\<forall>j<1048576. j < vpn (a + 4096) \<or> vpn (a + 4096) + n < j \<longrightarrow> pte k' d j = pte ?k d j" by blast
    then show ?thesis using r P a''(3) extends_trans [OF E] by (intro exI [of _ k'] exI [of _ r] exI [of _ ps']) auto
  qed
qed

text \<open>The pages of an entry of \<^verbatim>\<open>kmap\<close>.\<close>

definition kregion :: "kmap_entry \<Rightarrow> bool" where
  "kregion e \<longleftrightarrow> KERNBASE \<le> virt e \<and> phys_end e \<noteq> phys_start e \<and> unat (virt e) + unat (phys_end e - phys_start e) \<le> 4294967296"

definition kpages :: "kmap_entry \<Rightarrow> nat set" where
  "kpages e = {unat (virt e) div 4096..(unat (virt e) + unat (phys_end e - phys_start e) - 1) div 4096}"

lemma kernel_mappages:
  assumes m: "managed ke k d ps" and e: "kregion e" and f: "\<And>j. j \<in> kpages e \<Longrightarrow> frame k d j = None"
  shows "\<exists>k' r ps'. mappages k d (virt e) (phys_end e - phys_start e) pa perm = Done (k', r) \<and> extends ke d k ps k' ps' \<and>
    (r = 0 \<or> r = - 1 \<and> ps' = []) \<and> (\<forall>j<1048576. j \<notin> kpages e \<longrightarrow> pte k' d j = pte k d j)"
proof -
  let ?s = "phys_end e - phys_start e" and ?a = "PGROUNDDOWN (virt e)"
  let ?l = "PGROUNDDOWN (virt e + ?s - 1)"
  have "?s \<noteq> 0" using e by (simp add: kregion_def)
  then have s: "0 < unat ?s" by (simp add: unat_gt_0)
  have "unat (?s - 1) = unat ?s - 1" using \<open>?s \<noteq> 0\<close> by (rule unat_dec)
  then have "unat (virt e + (?s - 1)) = unat (virt e) + (unat ?s - 1)"
    using e s by (subst unat_add_32) (auto simp: kregion_def)
  then have l: "unat (virt e + ?s - 1) = unat (virt e) + (unat ?s - 1)" by (simp add: add_diff_eq)
  have al: "page_aligned ?a" "page_aligned ?l" by simp_all
  have k: "KERNBASE \<le> ?a" using e by (auto simp: kregion_def word_le_nat_alt unat_PGROUNDDOWN KERNBASE_def)
  have le: "?a \<le> ?l" using l s by (simp add: word_le_nat_alt unat_PGROUNDDOWN div_le_mono)
  define n where "n = unat (?l - ?a) div 4096"
  have "unat (?l - ?a) = unat ?l - unat ?a" using le by (rule unat_sub)
  moreover obtain x y where xy: "unat ?l = 4096 * x" "unat ?a = 4096 * y" using al by (auto simp: page_aligned_def elim!: dvdE)
  moreover have "unat ?a \<le> unat ?l" using le by (simp add: word_le_nat_alt)
  ultimately have n: "unat ?l = unat ?a + 4096 * n" by (simp add: n_def diff_mult_distrib2 [symmetric])
  have v: "vpn ?a = unat (virt e) div 4096" "vpn ?a + n = (unat (virt e) + unat ?s - 1) div 4096"
    using n xy l s unat_PGROUNDDOWN [of "virt e"] unat_PGROUNDDOWN [of "virt e + ?s - 1"] by auto
  have f': "frame k d j = None" if "vpn ?a \<le> j" "j \<le> vpn ?a + n" for j using f [of j] that v by (simp add: kpages_def)
  have out: "j < vpn ?a \<or> vpn ?a + n < j \<longleftrightarrow> j \<notin> kpages e" for j using v by (auto simp: kpages_def)
  from kernel_map_loop [OF m al(1) k n f', of pa perm] show ?thesis
    unfolding out by (simp add: mappages_def Let_def n_def)
qed

text \<open>A directory with its tables but no user memory takes at most 1025 pages.\<close>

lemma own_card: "card (own k d) \<le> 1025 + card (frames k d)"
proof -
  have "tabs k d \<subseteq> (\<lambda>i. the (tab k d i)) ` {..<1024}" by (force simp: tabs_def)
  then have "card (tabs k d) \<le> 1024" using surj_card_le [of "{..<1024 :: nat}" "tabs k d"] by simp
  then have "card (tabs k d \<union> frames k d) \<le> 1024 + card (frames k d)" using card_Un_le [of "tabs k d" "frames k d"] by simp
  then show ?thesis by (simp add: own_def card_insert_if)
qed

fun disjoint_regions :: "kmap_entry list \<Rightarrow> bool" where
  "disjoint_regions [] \<longleftrightarrow> True"
| "disjoint_regions (e # es) \<longleftrightarrow> kregion e \<and> (\<forall>x\<in>set es. kpages e \<inter> kpages x = {}) \<and> disjoint_regions es"

lemma disjoint_regionsD: "disjoint_regions es \<Longrightarrow> x \<in> set es \<Longrightarrow> kregion x"
  by (induction es) auto

lemma map_kernel_ok:
  assumes "managed ke k d ps" "frames k d = {}" "disjoint_regions es" "\<And>e j. e \<in> set es \<Longrightarrow> j \<in> kpages e \<Longrightarrow> frame k d j = None" "kend sy = ke"
  shows "\<exists>k' r ps'. map_kernel sy es k d = Done (k', r) \<and>
    ((r = d \<and> extends ke d k ps k' ps') \<or>
     (r = 0 \<and> kmem_rep ke k' ps' \<and> set ps' = own k d \<union> set ps \<and> only (own k d \<union> set ps) k k' \<and> card (own k d \<union> set ps) \<le> 1025))"
  using assms
proof (induction es arbitrary: k ps)
  case Nil
  then show ?case using extends_refl [OF Nil(1)] by auto
next
  case (Cons e es)
  have D: "kregion e" "disjoint_regions es" "\<forall>x\<in>set es. kpages e \<inter> kpages x = {}" using Cons.prems(3) by simp_all
  have "\<exists>k' r ps'. mappages k d (virt e) (phys_end e - phys_start e) (phys_start e) (kperm e) = Done (k', r) \<and> extends ke d k ps k' ps' \<and>
    (r = 0 \<or> r = - 1 \<and> ps' = []) \<and> (\<forall>j<1048576. j \<notin> kpages e \<longrightarrow> pte k' d j = pte k d j)"
    by (rule kernel_mappages [OF Cons.prems(1) D(1)]) (use Cons.prems(4) in auto)
  then obtain k1 r1 ps1 where k1: "mappages k d (virt e) (phys_end e - phys_start e) (phys_start e) (kperm e) = Done (k1, r1)"
    and E: "extends ke d k ps k1 ps1" and r1: "r1 = 0 \<or> r1 = - 1 \<and> ps1 = []"
    and P: "\<forall>j<1048576. j \<notin> kpages e \<longrightarrow> pte k1 d j = pte k d j" by blast
  have m1: "managed ke k1 d ps1" and o1: "own k1 d \<union> set ps1 = own k d \<union> set ps" and O1: "only (own k d \<union> set ps) k k1"
    and f1: "frames k1 d = {}" using E Cons.prems(2) by (auto simp: extends_def frames_def)
  show ?case
  proof (cases "r1 < 0")
    case True
    then have "own k1 d = own k d \<union> set ps" using r1 o1 by auto
    then have c: "card (own k d \<union> set ps) \<le> 1025" using own_card [of k1 d] f1 by simp
    obtain k2 ps2 where k2: "freevm ke k1 d = Done k2" "kmem_rep ke k2 ps2" "set ps2 = set ps1 \<union> own k1 d" "only (own k1 d) k1 k2"
      using freevm_all [OF m1] by auto
    have "only (own k d \<union> set ps) k k2" using only_mono [OF only_trans [OF O1 k2(4)], of "own k d \<union> set ps"] o1 by auto
    moreover have "set ps2 = own k d \<union> set ps" using k2(3) o1 by auto
    ultimately show ?thesis using Cons.prems(5) k1 True k2(1,2) c
      by (intro exI [of _ k2] exI [of _ 0] exI [of _ ps2]) auto
  next
    case False
    have nf: "frame k1 d j = None" if "x \<in> set es" "j \<in> kpages x" for x j
    proof -
      have "kregion x" using D(2) that(1) by (rule disjoint_regionsD)
      then have "j < 1048576" using that(2) by (auto simp: kregion_def kpages_def)
      moreover have "j \<notin> kpages e" using D(3) that by blast
      ultimately show ?thesis using P that(1,2) Cons.prems(4) [of x j] by simp
    qed
    have "\<exists>k' r ps'. map_kernel sy es k1 d = Done (k', r) \<and> ((r = d \<and> extends ke d k1 ps1 k' ps') \<or>
     (r = 0 \<and> kmem_rep ke k' ps' \<and> set ps' = own k1 d \<union> set ps1 \<and> only (own k1 d \<union> set ps1) k1 k' \<and> card (own k1 d \<union> set ps1) \<le> 1025))"
      by (rule Cons.IH [OF m1 f1 D(2) _ Cons.prems(5)]) (rule nf)
    then obtain k' r ps' where "map_kernel sy es k1 d = Done (k', r)" "(r = d \<and> extends ke d k1 ps1 k' ps') \<or>
     (r = 0 \<and> kmem_rep ke k' ps' \<and> set ps' = own k1 d \<union> set ps1 \<and> only (own k1 d \<union> set ps1) k1 k' \<and> card (own k1 d \<union> set ps1) \<le> 1025)" by blast
    then show ?thesis using k1 False extends_trans [OF E] o1 only_trans [OF O1, of "own k1 d \<union> set ps1" k']
      by (intro exI [of _ k'] exI [of _ r] exI [of _ ps']) auto
  qed
qed

text \<open>
  The linker puts the kernel's data on a page boundary above its text; the frame
  buffer is a whole number of pages between the PCI window and the devices.
\<close>

definition ksyms_ok :: "ksyms \<Rightarrow> bool" where
  "ksyms_ok sy \<longleftrightarrow> KERNBASE < kend sy \<and> page_aligned (kdata sy) \<and> unat KERNLINK < unat (kdata sy) \<and>
     unat (kdata sy) < unat KERNBASE + unat PHYSTOP \<and> page_aligned (vram_size sy) \<and> 0 < unat (vram_size sy) \<and>
     unat (vram_size sy) \<le> 0x2E000000"

lemma kmap_regions:
  assumes "ksyms_ok sy" shows "disjoint_regions (kmap sy)" "e \<in> set (kmap sy) \<Longrightarrow> j \<in> kpages e \<Longrightarrow> 524288 \<le> j \<and> j < 1048576"
proof -
  obtain q where q: "unat (kdata sy) = 4096 * q" using assms by (auto simp: ksyms_ok_def page_aligned_def elim: dvdE)
  obtain w where w: "unat (vram_size sy) = 4096 * w" using assms by (auto simp: ksyms_ok_def page_aligned_def elim: dvdE)
  have k: "524544 < q" "q < 655360" "0 < w" "w \<le> 188416"
    using assms q w by (auto simp: ksyms_ok_def layout_defs)
  have d: "unat (V2P (kdata sy)) = 4096 * q - 2147483648"
    using k q by (simp add: V2P_def KERNBASE_def unat_sub word_le_nat_alt)
  have "0xFE000000 \<ge> vram_size sy" using k w by (simp add: word_le_nat_alt)
  then have v: "unat (0xFE000000 - vram_size sy) = 4261412864 - 4096 * w" using w by (simp add: unat_sub)
  have e2: "unat (V2P (kdata sy) - 0x100000) = 4096 * q - 2148532224"
    using k d by (simp add: unat_sub word_le_nat_alt)
  have e3: "unat (0x20000000 - V2P (kdata sy)) = 2684354560 - 4096 * q"
    using k d by (simp add: unat_sub word_le_nat_alt)
  have n: "V2P (kdata sy) \<noteq> 0x100000" "0x20000000 \<noteq> V2P (kdata sy)" "vram_size sy \<noteq> 0" using k d w by (auto simp: word_unat_eq_iff)
  have v0: "V2P 0x80100000 = 0x100000" by (simp add: V2P_def KERNBASE_def)
  have r: "kregion e" if "e \<in> set (kmap sy)" for e using that k q w v e2 e3 n
    by (auto simp: kmap_def kregion_def layout_defs word_le_nat_alt v0)
  then show "j \<in> kpages e \<Longrightarrow> 524288 \<le> j \<and> j < 1048576" if "e \<in> set (kmap sy)" for e j
    using r [OF that] by (auto simp: kregion_def kpages_def word_le_nat_alt KERNBASE_def)
  have p1: "(4096 * q - 1) div 4096 = q - 1" using k by (cases q) auto
  have "4261412864 - 4096 * w = 4096 * (1040384 - w)" by (simp add: diff_mult_distrib2)
  then have p2: "(4261412864 - 4096 * w) div 4096 = 1040384 - w" by simp
  have pages: "map kpages (kmap sy) = [{524288..524543}, {524544..q - 1}, {q..655359}, {1040384 - w..1040383}, {786432..851967}, {1040384..1048575}]"
    using k q w v e2 e3 p1 p2 by (simp add: kmap_def kpages_def layout_defs v0)
  show "disjoint_regions (kmap sy)"
    using r pages k by (auto simp: kmap_def)
qed

lemma setupkvm_space:
  assumes rep: "kmem_rep ke k ps" and sy: "kend sy = ke" "ksyms_ok sy"
  shows "\<exists>k' d ps'. setupkvm sy k = Done (k', d) \<and>
    ((d = 0 \<and> kmem_rep ke k' ps' \<and> set ps' = set ps \<and> only (set ps) k k' \<and> card (set ps) \<le> 1025) \<or>
     (d \<noteq> 0 \<and> managed ke k' d ps' \<and> frames k' d = {} \<and> own k' d \<union> set ps' = set ps \<and> only (set ps) k k'))"
proof (cases ps)
  case Nil
  then show ?thesis using rep kalloc_rep(1) [OF rep] by (simp add: setupkvm_def)
next
  case (Cons p qs)
  let ?k = "(fst (kalloc k))\<lparr>kmem_mem := fill (kmem_mem k) p 0 4096\<rparr>"
  have a: "snd (kalloc k) = p" "p \<noteq> 0" "kmem_rep ke (fst (kalloc k)) qs" using kalloc_rep(2) [OF rep Cons] by auto
  have p: "kfree_ok ke p" "p \<notin> set qs" using rep Cons by (auto simp: kmem_rep_def)
  have O1: "only {p} k ?k" using fill_other [OF kfree_okD(1) [OF p(1)]] by (simp add: only_def)
  have t: "tab ?k p i = None" if "i < 1024" for i using load32_fill_zero [OF kfree_okD(1) [OF p(1)] that] by (simp add: tab_def)
  have z: "pte ?k p j = 0" if "j < 1048576" for j using t [of "j div 1024"] that by (simp add: pte_def)
  have e: "tabs ?k p = {}" "frames ?k p = {}" using t z by (auto simp: tabs_def frames_def)
  then have o: "own ?k p = {p}" by (simp add: own_def)
  have "space ke ?k p" using t z p(1) e o by (simp add: space_def)
  moreover have "kmem_rep ke ?k qs" using p(2) O1 by (intro kmem_rep_only [OF a(3), of "{p}"]) (auto simp: only_def)
  moreover have "KERNBASE < ke" using sy by (simp add: ksyms_ok_def)
  ultimately have m: "managed ke ?k p qs" using o p(2) by (simp add: managed_def)
  have "setupkvm sy k = map_kernel sy (kmap sy) ?k p"
    using a by (simp add: setupkvm_def case_prod_beta PGSIZE_def Let_def) (simp add: P2V_def layout_defs)
  moreover have "\<exists>k' r ps'. map_kernel sy (kmap sy) ?k p = Done (k', r) \<and>
    ((r = p \<and> extends ke p ?k qs k' ps') \<or>
     (r = 0 \<and> kmem_rep ke k' ps' \<and> set ps' = own ?k p \<union> set qs \<and> only (own ?k p \<union> set qs) ?k k' \<and> card (own ?k p \<union> set qs) \<le> 1025))"
    by (rule map_kernel_ok [OF m e(2) kmap_regions(1) [OF sy(2)] _ sy(1)]) (use kmap_regions(2) [OF sy(2)] z in simp)
  ultimately obtain k' r ps' where k': "setupkvm sy k = Done (k', r)" "(r = p \<and> extends ke p ?k qs k' ps') \<or>
     (r = 0 \<and> kmem_rep ke k' ps' \<and> set ps' = own ?k p \<union> set qs \<and> only (own ?k p \<union> set qs) ?k k' \<and> card (own ?k p \<union> set qs) \<le> 1025)" by auto
  have O2: "only (own ?k p \<union> set qs) ?k k' \<Longrightarrow> only (set ps) k k'"
    using only_mono [OF only_trans [OF O1, of "own ?k p \<union> set qs" k'], of "set ps"] o Cons by auto
  have "frames k' p = {}" if "extends ke p ?k qs k' ps'" using that z by (auto simp: extends_def frames_def)
  then show ?thesis using k' O2 o Cons a(2) by (intro exI [of _ k'] exI [of _ r] exI [of _ ps']) (auto simp: extends_def)
qed

subsection \<open>Copying an address space\<close>

definition byte :: "kmem \<Rightarrow> u32 \<Rightarrow> nat \<Rightarrow> u8" where
  "byte k p x = kmem_mem k (p + of_nat x)"

lemma byte_page: "page_aligned p \<Longrightarrow> x < 4096 \<Longrightarrow> PGROUNDDOWN (p + of_nat x) = p"
  using in_page_iff [of p "p + of_nat x"] by (simp add: unat_of_nat)

lemma byte_only: "only S k k' \<Longrightarrow> page_aligned p \<Longrightarrow> p \<notin> S \<Longrightarrow> x < 4096 \<Longrightarrow> byte k' p x = byte k p x"
  using byte_page by (simp add: only_def byte_def)

lemma copy_frame:
  assumes "kfree_ok ke q" "kfree_ok ke p"
  shows "only {q} k (k\<lparr>kmem_mem := memmove (kmem_mem k) q p PGSIZE\<rparr>)"
    and "x < 4096 \<Longrightarrow> byte (k\<lparr>kmem_mem := memmove (kmem_mem k) q p PGSIZE\<rparr>) q x = byte k p x"
proof -
  have c: "memmove (kmem_mem k) q p PGSIZE = copied (kmem_mem k) q p 4096"
    using memmove_copied [of p PGSIZE q "kmem_mem k"] kfree_okD(4) [OF assms(1)] kfree_okD(4) [OF assms(2)] by (simp add: PGSIZE_def)
  show "only {q} k (k\<lparr>kmem_mem := memmove (kmem_mem k) q p PGSIZE\<rparr>)"
    using in_page_iff [OF kfree_okD(1) [OF assms(1)]] by (auto simp: only_def c copied_def)
  show "byte (k\<lparr>kmem_mem := memmove (kmem_mem k) q p PGSIZE\<rparr>) q x = byte k p x" if "x < 4096"
    using that by (simp add: byte_def c copied_def unat_of_nat)
qed

text \<open>
  Pages below \<open>n\<close> have been copied from \<open>src\<close> as it was in \<open>k0\<close>: same flags, a
  frame of its own, same bytes; pages from \<open>n\<close> on are not mapped yet.
\<close>

definition page_copied :: "kmem \<Rightarrow> u32 \<Rightarrow> kmem \<Rightarrow> u32 \<Rightarrow> nat \<Rightarrow> bool" where
  "page_copied k0 src k d j \<longleftrightarrow>
     (case frame k0 src j of
        None \<Rightarrow> frame k d j = None
      | Some p \<Rightarrow> \<exists>q. frame k d j = Some q \<and> PTE_FLAGS (pte k d j) = PTE_FLAGS (pte k0 src j) \<and> (\<forall>x<4096. byte k q x = byte k0 p x))"

definition copy_inv :: "u32 \<Rightarrow> kmem \<Rightarrow> u32 \<Rightarrow> u32 set \<Rightarrow> u32 \<Rightarrow> nat \<Rightarrow> kmem \<Rightarrow> u32 list \<Rightarrow> bool" where
  "copy_inv ke k0 src S d n k ps \<longleftrightarrow> managed ke k d ps \<and> own k d \<union> set ps = S \<and> only S k0 k \<and>
     (\<forall>j<524288. if j < n then page_copied k0 src k d j else frame k d j = None)"

lemma PTE_FLAGS_low: "PTE_FLAGS e AND NOT 0xFFF = 0"
  by (simp add: PTE_FLAGS_def and.assoc)

lemma PTE_FLAGS_P: "e AND PTE_P \<noteq> 0 \<Longrightarrow> PTE_FLAGS e OR PTE_P = PTE_FLAGS e"
proof -
  assume "e AND PTE_P \<noteq> 0"
  then have b: "bit e 0" by (simp add: PTE_P_def and_one_eq odd_iff_mod_2_eq_one [symmetric] bit_0)
  show ?thesis
  proof (rule bit_word_eqI)
    fix n show "bit (PTE_FLAGS e OR PTE_P) n = bit (PTE_FLAGS e) n"
      using b by (cases n) (auto simp: PTE_FLAGS_def PTE_P_def bit_simps mask_12 bit_1_iff)
  qed
qed

text \<open>Taking a page from the free list and writing to it.\<close>

lemma managed_pop:
  assumes m: "managed ke k d (q # qs)" and O: "only {q} k k'" and f: "freelist k' = freelist (fst (kalloc k))"
  shows "kalloc k = (fst (kalloc k), q)" "q \<noteq> 0" "kfree_ok ke q" "q \<notin> own k d" "q \<notin> set qs" "managed ke k' d qs" "own k' d = own k d"
    "i < 1024 \<Longrightarrow> tab k' d i = tab k d i" "j < 1048576 \<Longrightarrow> pte k' d j = pte k d j" "tabs k' d = tabs k d"
proof -
  have rep: "kmem_rep ke k (q # qs)" and s: "space ke k d" and dis: "own k d \<inter> set (q # qs) = {}" using m by (auto simp: managed_def)
  have a: "snd (kalloc k) = q" "q \<noteq> 0" "kmem_rep ke (fst (kalloc k)) qs" using kalloc_rep(2) [OF rep refl] by auto
  show "kalloc k = (fst (kalloc k), q)" "q \<noteq> 0" using a by (metis prod.collapse) (rule a(2))
  show q: "kfree_ok ke q" "q \<notin> own k d" "q \<notin> set qs" using rep dis by (auto simp: kmem_rep_def)
  have "{q} \<inter> insert d (tabs k d) = {}" using q(2) by (auto simp: own_def)
  note v = view_cong [OF s O this]
  show "i < 1024 \<Longrightarrow> tab k' d i = tab k d i" "j < 1048576 \<Longrightarrow> pte k' d j = pte k d j" by (rule v, assumption)+
  have S: "space ke k' d" "own k' d = own k d" "tabs k' d = tabs k d" using view_sets_cong [of k' d k] v s by simp_all
  show "own k' d = own k d" "tabs k' d = tabs k d" by (fact S)+
  have "kmem_rep ke k' qs" by (rule kmem_rep_only [OF a(3), of "{q}"]) (use O f q(3) in \<open>auto simp: only_def\<close>)
  then show "managed ke k' d qs" using m S dis by (auto simp: managed_def)
qed

lemma copy_abort:
  assumes m: "managed ke k d ps" and S: "own k d \<union> set ps \<subseteq> S" and O: "only S k0 k"
  shows "\<exists>k'. and_then (freevm ke k d) (\<lambda>k. Done (Return k 0)) = Done (Return k' 0) \<and>
    (\<exists>ps'. kmem_rep ke k' ps' \<and> set ps' = own k d \<union> set ps \<and> only S k0 k')"
proof -
  obtain k' ps' where k': "freevm ke k d = Done k'" "kmem_rep ke k' ps'" "set ps' = set ps \<union> own k d" "only (own k d) k k'"
    using freevm_all [OF m] by auto
  have "only S k0 k'" by (rule only_mono [OF only_trans [OF O k'(4)]]) (use S in auto)
  then show ?thesis using k' by auto
qed

lemma frames_disjoint: "managed ke k d ps \<Longrightarrow> q \<in> frames k d \<Longrightarrow> q \<notin> insert d (tabs k d) \<union> set ps \<and> page_aligned q"
  using space_ok(6) [of ke k d q] by (auto simp: managed_def space_def own_def)

lemma page_copied_keep:
  assumes "page_copied k0 src k d j" "j < 524288" "managed ke k d ps" "pte k' d j = pte k d j"
    and "only (insert d (tabs k d) \<union> set ps) k k'"
  shows "page_copied k0 src k' d j"
proof (cases "frame k0 src j")
  case (Some p)
  then obtain q where q: "frame k d j = Some q" "PTE_FLAGS (pte k d j) = PTE_FLAGS (pte k0 src j)" "\<forall>x<4096. byte k q x = byte k0 p x"
    using assms(1) by (auto simp: page_copied_def)
  have "q \<in> frames k d" using q(1) assms(2) by (rule frame_in)
  then have "\<forall>x<4096. byte k' q x = byte k q x" using byte_only [OF assms(5)] frames_disjoint [OF assms(3)] by auto
  then show ?thesis using Some q assms(4) by (simp add: page_copied_def)
qed (use assms in \<open>simp add: page_copied_def\<close>)

lemma copy_present:
  assumes src: "space ke k0 src" "own k0 src \<inter> S = {}" and inv: "copy_inv ke k0 src S d n k ps" and n: "n < 524288" "vpn a = n" "page_aligned a"
    and p: "frame k0 src n = Some p" and ps: "ps = q # qs" and fl: "fl = PTE_FLAGS (pte k0 src n)"
    and k2: "k2 = (fst (kalloc k))\<lparr>kmem_mem := memmove (kmem_mem k) q p PGSIZE\<rparr>"
  shows "(\<exists>k'. mappages k2 d a PGSIZE (V2P q) fl = Done (k', 0) \<and> (\<exists>ps'. copy_inv ke k0 src S d (Suc n) k' ps')) \<or>
    (mappages k2 d a PGSIZE (V2P q) fl = Done (k2, - 1) \<and> qs = [] \<and> managed ke k2 d qs \<and> own k2 d \<union> set qs \<subseteq> S \<and> only S k0 k2)"
proof -
  have m: "managed ke k d (q # qs)" and S: "own k d \<union> set (q # qs) = S" and O: "only S k0 k"
    and C: "\<And>j. j < n \<Longrightarrow> page_copied k0 src k d j" and N: "\<And>j. n \<le> j \<Longrightarrow> j < 524288 \<Longrightarrow> frame k d j = None"
    using inv ps n(1) by (auto simp: copy_inv_def split: if_splits)
  have pp: "p \<in> frames k0 src" using p n by (auto intro: frame_in)
  then have okp: "kfree_ok ke p" "p \<notin> S" using space_ok(5) [OF src(1)] src(2) by (auto simp: own_def)
  have okq: "kfree_ok ke q" using m by (auto simp: managed_def kmem_rep_def)
  let ?k = "k\<lparr>kmem_mem := memmove (kmem_mem k) q p PGSIZE\<rparr>"
  have same: "kmem_mem k2 = kmem_mem ?k" by (simp add: k2)
  have O2: "only {q} k k2" using copy_frame(1) [OF okq okp(1), of k] same by (simp add: only_def)
  have B2: "byte k2 q x = byte k p x" if "x < 4096" for x using copy_frame(2) [OF okq okp(1) that, of k] same by (simp add: byte_def)
  note P = managed_pop [OF m O2, unfolded k2, simplified, folded k2]
  have m2: "managed ke k2 d qs" and o2: "own k2 d = own k d" and q: "q \<notin> own k d" "q \<notin> set qs" and t2: "tabs k2 d = tabs k d"
    and P2: "\<And>j. j < 1048576 \<Longrightarrow> pte k2 d j = pte k d j" using P by auto
  have O02: "only S k0 k2" by (rule only_mono [OF only_trans [OF O O2]]) (use S in auto)
  have f2: "frame k2 d (vpn a) = None" using P2 N [of n] n by simp
  have q2: "q \<notin> own k2 d" using q o2 by simp
  have fl': "fl AND NOT 0xFFF = 0" unfolding fl by (rule PTE_FLAGS_low)
  note M = map_user_page [OF m2 n(3) _ f2 okq q2 q(2) fl']
  show ?thesis
  proof (cases "tab k2 d (vpn a div 1024) = None \<and> qs = []")
    case True
    then show ?thesis using M(1) n m2 o2 S O02 by auto
  next
    case False
    then obtain k3 ps3 where k3: "mappages k2 d a PGSIZE (V2P q) fl = Done (k3, 0)" "managed ke k3 d ps3"
      "\<forall>j<1048576. pte k3 d j = (if j = vpn a then V2P q OR fl OR PTE_P else pte k2 d j)"
      "only (insert d (tabs k2 d) \<union> set qs) k2 k3" "set ps3 \<subseteq> set qs" "own k3 d = insert q (own k2 d \<union> (set qs - set ps3))"
      using M(2) n by auto
    have S3: "own k3 d \<union> set ps3 = S" using k3(5,6) o2 S by auto
    have O3: "only S k0 k3" by (rule only_mono [OF only_trans [OF O02 k3(4)]]) (use S o2 t2 in \<open>auto simp: own_def\<close>)
    have e: "pte k0 src n AND PTE_P \<noteq> 0" using frame_of_SomeD [OF p] by simp
    have fn: "pte k3 d n = V2P q OR fl OR PTE_P" using k3(3) n by simp
    have "V2P q OR fl OR PTE_P = V2P q OR fl" using PTE_FLAGS_P [OF e] fl by (simp add: or.assoc)
    then have F: "PTE_FLAGS (pte k3 d n) = fl" using PTE_FLAGS_make [OF V2P_aligned [OF okq] fl'] fn by simp
    have G: "frame k3 d n = Some q" using fn frame_of_make [OF V2P_aligned [OF okq] fl'] by simp
    have "byte k3 q x = byte k0 p x" if "x < 4096" for x
    proof -
      have "byte k3 q x = byte k2 q x" using q q2 that t2 by (intro byte_only [OF k3(4)] kfree_okD(1) [OF okq]) (auto simp: own_def)
      moreover have "byte k p x = byte k0 p x" by (rule byte_only [OF O kfree_okD(1) [OF okp(1)] okp(2) that])
      ultimately show ?thesis using B2 [OF that] by simp
    qed
    then have new: "page_copied k0 src k3 d n" using p F G fl by (simp add: page_copied_def)
    have old: "page_copied k0 src k3 d j" if "j < n" for j
    proof -
      have "only (insert d (tabs k d) \<union> set (q # qs)) k k3" by (rule only_mono [OF only_trans [OF O2 k3(4)]]) (use t2 in auto)
      then show ?thesis using that n P2 k3(3) by (intro page_copied_keep [OF C [OF that] _ m]) auto
    qed
    have rest: "frame k3 d j = None" if "Suc n \<le> j" "j < 524288" for j using that N [of j] P2 k3(3) n by simp
    have "copy_inv ke k0 src S d (Suc n) k3 ps3"
      unfolding copy_inv_def using k3(2) S3 O3 new old rest by (auto simp: less_Suc_eq not_less)
    then show ?thesis using k3(1) by blast
  qed
qed

lemma copied_card:
  assumes src: "space ke k0 src" and inv: "copy_inv ke k0 src S d n k ps" and n: "n < 524288" "frame k0 src n \<noteq> None"
  shows "card (frames k d) < card (frames k0 src)"
proof -
  let ?J = "{j. j < n \<and> frame k0 src j \<noteq> None}" and ?f = "\<lambda>j. the (frame k0 src j)"
  have "frames k d \<subseteq> (\<lambda>j. the (frame k d j)) ` ?J"
  proof
    fix q assume "q \<in> frames k d"
    then obtain j where j: "j < 524288" "frame k d j = Some q" by (auto simp: frames_def)
    then have "j < n" "page_copied k0 src k d j" using inv by (auto simp: copy_inv_def split: if_splits)
    then have "j \<in> ?J" using j by (auto simp: page_copied_def split: option.splits)
    then show "q \<in> (\<lambda>j. the (frame k d j)) ` ?J" using j by force
  qed
  then have "card (frames k d) \<le> card ?J" by (intro surj_card_le) auto
  also have "\<dots> < card (insert n ?J)" by simp
  also have "inj_on ?f (insert n ?J)"
  proof (rule inj_onI)
    fix x y assume "x \<in> insert n ?J" "y \<in> insert n ?J" "?f x = ?f y"
    then have "frame k0 src x = frame k0 src y" "frame k0 src x \<noteq> None" "x < 524288" "y < 524288" using n by (auto simp: option.expand)
    then show "x = y" using src unfolding space_def by (metis option.exhaust)
  qed
  then have "card (insert n ?J) = card (?f ` insert n ?J)" by (simp only: card_image)
  also have "\<dots> \<le> card (frames k0 src)"
  proof (rule card_mono)
    have "?f x \<in> frames k0 src" if "x \<in> insert n ?J" for x using that n frame_in [of k0 src x "?f x"] by auto
    then show "?f ` insert n ?J \<subseteq> frames k0 src" by blast
  qed simp
  finally show ?thesis .
qed

lemma copy_step:
  assumes src: "space ke k0 src" "own k0 src \<inter> S = {}" and inv: "copy_inv ke k0 src S d n k ps" and n: "n < 524288" "vpn a = n" "page_aligned a"
  shows "(\<exists>k' ps'. copyuvm_page ke src d a k = Done (Next k') \<and> copy_inv ke k0 src S d (Suc n) k' ps') \<or>
    (\<exists>k' ps'. copyuvm_page ke src d a k = Done (Return k' 0) \<and> kmem_rep ke k' ps' \<and> set ps' \<subseteq> S \<and> only S k0 k' \<and>
       card S \<le> 1025 + card (frames k0 src))"
proof -
  have m: "managed ke k d ps" and S: "own k d \<union> set ps = S" and O: "only S k0 k" using inv by (auto simp: copy_inv_def)
  have "S \<inter> insert src (tabs k0 src) = {}" using src(2) by (auto simp: own_def)
  note v = view_cong [OF src(1) O this]
  have tk: "tab k src (vpn a div 1024) = tab k0 src (n div 1024)" and pk: "pte k src n = pte k0 src n" using v n by auto
  show ?thesis
  proof (cases "frame k0 src n")
    case None
    have "copyuvm_page ke src d a k = Done (Next k)"
    proof (cases "tab k src (vpn a div 1024)")
      case (Some t)
      have "get_pte k (slot t (vpn a mod 1024)) = pte k0 src n" using get_entry [OF Some] pk n by simp
      then show ?thesis using walk_present [OF Some] None by (auto simp: copyuvm_page_def Let_def frame_of_def split: if_splits)
    qed (simp add: copyuvm_page_def walk_absent)
    moreover have "copy_inv ke k0 src S d (Suc n) k ps"
      using inv None n(1) unfolding copy_inv_def by (auto simp: less_Suc_eq page_copied_def split: if_splits)
    ultimately show ?thesis by blast
  next
    case (Some p)
    obtain t where t: "tab k0 src (n div 1024) = Some t" using Some by (cases "tab k0 src (n div 1024)") (auto simp: pte_def)
    have tk': "tab k src (vpn a div 1024) = Some t" using tk t by simp
    let ?a = "slot t (vpn a mod 1024)"
    have g: "get_pte k ?a = pte k0 src n" using get_entry [OF tk'] pk n by simp
    have nz: "?a \<noteq> 0" using slot_nonzero [OF space_ok(3) [OF src(1) tab_in [OF t]]] n by simp
    let ?fl = "PTE_FLAGS (pte k0 src n)"
    have step: "copyuvm_page ke src d a k = (case kalloc k of (k, mem) \<Rightarrow>
        if mem = 0 then and_then (freevm ke k d) (\<lambda>k. Done (Return k 0))
        else let k = k\<lparr>kmem_mem := memmove (kmem_mem k) mem p PGSIZE\<rparr> in
          and_then (mappages k d a PGSIZE (V2P mem) ?fl) (\<lambda>(k, r).
          if r < 0 then and_then (freevm ke k d) (\<lambda>k. Done (Return k 0)) else Done (Next k)))"
      using walk_present [OF tk', of False] nz g frame_of_SomeD [OF Some] by (clarsimp simp: copyuvm_page_def Let_def)
    show ?thesis
    proof (cases ps)
      case Nil
      have "kalloc k = (k, 0)" using m Nil kalloc_rep(1) by (auto simp: managed_def)
      then have "copyuvm_page ke src d a k = and_then (freevm ke k d) (\<lambda>k. Done (Return k 0))" using step by simp
      moreover have "card S \<le> 1025 + card (frames k0 src)"
        using S Nil own_card [of k d] copied_card [OF src(1) inv n(1)] Some by simp
      ultimately show ?thesis using copy_abort [OF m _ O] S by (intro disjI2) fastforce
    next
      case (Cons q qs)
      let ?k2 = "(fst (kalloc k))\<lparr>kmem_mem := memmove (kmem_mem k) q p PGSIZE\<rparr>"
      have a: "snd (kalloc k) = q" "q \<noteq> 0" using m Cons kalloc_rep(2) [of ke k ps q qs] by (auto simp: managed_def)
      have st: "copyuvm_page ke src d a k = and_then (mappages ?k2 d a PGSIZE (V2P q) ?fl) (\<lambda>(k, r).
          if r < 0 then and_then (freevm ke k d) (\<lambda>k. Done (Return k 0)) else Done (Next k))"
        using a by (simp add: step case_prod_beta [of _ "kalloc k"] Let_def)
      from copy_present [OF src inv n Some Cons refl refl] show ?thesis
      proof (elim disjE exE conjE)
        fix k' ps' assume "mappages ?k2 d a PGSIZE (V2P q) ?fl = Done (k', 0)" "copy_inv ke k0 src S d (Suc n) k' ps'"
        then show ?thesis using st by auto
      next
        assume *: "mappages ?k2 d a PGSIZE (V2P q) ?fl = Done (?k2, - 1)" "qs = []" "managed ke ?k2 d qs" "own ?k2 d \<union> set qs \<subseteq> S" "only S k0 ?k2"
        then have "copyuvm_page ke src d a k = and_then (freevm ke ?k2 d) (\<lambda>k. Done (Return k 0))" using st by simp
        moreover have "card S \<le> 1025 + card (frames k0 src)"
          using S Cons *(2) own_card [of k d] copied_card [OF src(1) inv n(1)] Some card_Un_le [of "own k d" "{q}"] by simp
        ultimately show ?thesis using copy_abort [OF *(3-5)] *(4) by (intro disjI2) fastforce
      qed
    qed
  qed
qed

lemma copy_loop:
  assumes src: "space ke k0 src" "own k0 src \<inter> S = {}" and "copy_inv ke k0 src S d (vpn a) k ps" "page_aligned a" "a \<le> KERNBASE"
  shows "(\<exists>k' ps'. page_loop (copyuvm_page ke src d) a KERNBASE k = Done (Next k') \<and> copy_inv ke k0 src S d 524288 k' ps') \<or>
    (\<exists>k' ps'. page_loop (copyuvm_page ke src d) a KERNBASE k = Done (Return k' 0) \<and> kmem_rep ke k' ps' \<and> set ps' \<subseteq> S \<and> only S k0 k' \<and>
       card S \<le> 1025 + card (frames k0 src))"
  using assms(3-5)
proof (induction "2147483648 - unat a" arbitrary: a k ps rule: less_induct)
  case less
  have kb: "unat KERNBASE = 2147483648" by (simp add: KERNBASE_def)
  show ?case
  proof (cases "a < KERNBASE")
    case False
    then have "a = KERNBASE" using less.prems(3) by simp
    then show ?thesis using less.prems(1) kb by (subst page_loop.simps, subst page_loop.simps) auto
  next
    case True
    have u: "unat a < 2147483648" using True kb by (simp add: word_less_nat_alt)
    note a' = page_next [OF less.prems(2)]
    have v: "vpn (a + 4096) = Suc (vpn a)" "unat (a + 4096) = unat a + 4096" "page_aligned (a + 4096)" using a' u by simp_all
    obtain q where q: "unat a = 4096 * q" using less.prems(2) by (auto simp: page_aligned_def elim: dvdE)
    have le: "a + 4096 \<le> KERNBASE" using v(2) q u kb by (simp add: word_le_nat_alt)
    have nw: "\<not> a + 4096 < a" using v(2) by (simp add: word_less_nat_alt)
    have n: "vpn a < 524288" using u by simp
    from copy_step [OF src less.prems(1) n refl less.prems(2)] show ?thesis
    proof (elim disjE exE conjE)
      fix k1 ps1 assume s: "copyuvm_page ke src d a k = Done (Next k1)" "copy_inv ke k0 src S d (Suc (vpn a)) k1 ps1"
      have "page_loop (copyuvm_page ke src d) a KERNBASE k = page_loop (copyuvm_page ke src d) (a + 4096) KERNBASE k1"
        using True s(1) nw by (subst page_loop.simps) (simp add: PGSIZE_def)
      moreover have "2147483648 - unat (a + 4096) < 2147483648 - unat a" using v(2) u by simp
      ultimately show ?thesis using less.hyps [of "a + 4096" k1 ps1] s(2) v le by simp
    next
      fix k1 ps1 assume "copyuvm_page ke src d a k = Done (Return k1 0)" "kmem_rep ke k1 ps1" "set ps1 \<subseteq> S" "only S k0 k1"
        "card S \<le> 1025 + card (frames k0 src)"
      then show ?thesis using True by (intro disjI2, subst page_loop.simps) auto
    qed
  qed
qed

lemma no_frames: "frames k d = {} \<Longrightarrow> j < 524288 \<Longrightarrow> frame k d j = None"
  by (cases "frame k d j") (auto dest: frame_in)

lemma src_bytes:
  assumes "space ke k src" "own k src \<inter> S = {}" "only S k k'"
  shows "\<forall>j<1048576. pte k' src j = pte k src j" "\<forall>p\<in>frames k src. \<forall>x<4096. byte k' p x = byte k p x"
proof -
  have "S \<inter> insert src (tabs k src) = {}" using assms(2) by (auto simp: own_def)
  then show "\<forall>j<1048576. pte k' src j = pte k src j" using view_cong(2) [OF assms(1,3)] by blast
  show "\<forall>p\<in>frames k src. \<forall>x<4096. byte k' p x = byte k p x"
    using byte_only [OF assms(3)] space_ok(6) [OF assms(1)] assms(2) by (auto simp: own_def)
qed

subsection \<open>Properties\<close>

text \<open>
  C32: \<^verbatim>\<open>copyuvm\<close> gives a child its own copy of the parent's memory.  It always
  returns.  The parent's page table and memory are unchanged.  With
  \<open>length ps\<close> free pages, more than 1025 plus the number of mapped user pages,
  it succeeds: every page the parent has mapped is mapped in the child with the
  same permissions, on a frame taken from the free list (so shared with nobody),
  with the same bytes; every page the parent has not mapped yet stays lazy in the
  child; and the pages used and the pages left over are together exactly the
  pages that were free.
\<close>

theorem copyuvm_copies:
  assumes "managed ke k src ps" "kend sy = ke" "ksyms_ok sy"
  shows "\<exists>k' d ps'. copyuvm sy k src sz = Done (k', d) \<and> kmem_rep ke k' ps' \<and>
    (\<forall>j<1048576. pte k' src j = pte k src j) \<and> (\<forall>p\<in>frames k src. \<forall>x<4096. byte k' p x = byte k p x) \<and>
    (d = 0 \<and> length ps \<le> 1025 + card (frames k src) \<or>
     managed ke k' d ps' \<and> own k' d \<union> set ps' = set ps \<and> (\<forall>j<524288. page_copied k src k' d j))"
proof -
  have rep: "kmem_rep ke k ps" and s: "space ke k src" and dis: "own k src \<inter> set ps = {}" using assms(1) by (auto simp: managed_def)
  have len: "length ps = card (set ps)" using rep by (simp add: kmem_rep_def distinct_card)
  obtain k1 d ps1 where k1: "setupkvm sy k = Done (k1, d)"
    "(d = 0 \<and> kmem_rep ke k1 ps1 \<and> set ps1 = set ps \<and> only (set ps) k k1 \<and> card (set ps) \<le> 1025) \<or>
     (d \<noteq> 0 \<and> managed ke k1 d ps1 \<and> frames k1 d = {} \<and> own k1 d \<union> set ps1 = set ps \<and> only (set ps) k k1)"
    using setupkvm_space [OF rep assms(2,3)] by blast
  show ?thesis
  proof (cases "d = 0")
    case True
    then show ?thesis using k1 len src_bytes [OF s dis, of k1] by (intro exI [of _ k1] exI [of _ 0] exI [of _ ps1]) (simp add: copyuvm_def)
  next
    case False
    then have I: "copy_inv ke k src (set ps) d (vpn 0) k1 ps1" using k1(2) no_frames [of k1 d] by (auto simp: copy_inv_def)
    have c: "copyuvm sy k src sz = and_then (page_loop (copyuvm_page ke src d) 0 KERNBASE k1) (\<lambda>c.
       case c of Next k \<Rightarrow> Done (k, d) | Return k r \<Rightarrow> Done (k, r))"
      using k1(1) False assms(2) by (simp add: copyuvm_def)
    have "page_aligned 0" "0 \<le> KERNBASE" by (simp_all add: page_aligned_def)
    from copy_loop [OF s dis I this] show ?thesis
    proof (elim disjE exE conjE)
      fix k' ps' assume *: "page_loop (copyuvm_page ke src d) 0 KERNBASE k1 = Done (Next k')" "copy_inv ke k src (set ps) d 524288 k' ps'"
      then show ?thesis using c src_bytes [OF s dis, of k'] by (intro exI [of _ k'] exI [of _ d] exI [of _ ps']) (auto simp: copy_inv_def managed_def)
    next
      fix k' ps' assume "page_loop (copyuvm_page ke src d) 0 KERNBASE k1 = Done (Return k' 0)" "kmem_rep ke k' ps'" "only (set ps) k k'"
        "card (set ps) \<le> 1025 + card (frames k src)"
      then show ?thesis using c len src_bytes [OF s dis, of k'] by (intro exI [of _ k'] exI [of _ 0] exI [of _ ps']) auto
    qed
  qed
qed

definition demo_sy :: ksyms where
  "demo_sy = \<lparr>kend = 0x80300000, kdata = 0x80200000, forkret_pc = 0, trapret_pc = 0, vram_size = 0x300000, pvram_addr = 0xE0000000\<rparr>"

lemma demo_sy_ok: "ksyms_ok demo_sy" "kend demo_sy = 0x80300000"
  by (simp_all add: demo_sy_def ksyms_ok_def layout_defs page_aligned_def)

lemma fresh_memory: "\<exists>k ps. kmem_rep 0x80300000 k ps \<and> 4096 \<le> card (set ps)"
proof -
  have "kmem_rep 0x80300000 \<lparr>kmem_mem = (\<lambda>_. 0), use_lock = False, freelist = 0\<rparr> []" by (simp add: kmem_rep_def)
  from freerange_rep [OF this, of "0x80400000" "0xA0000000"] obtain k ps where
    k: "kmem_rep 0x80300000 k ps" "set ps = whole_pages 0x80400000 0xA0000000" by auto
  let ?f = "\<lambda>i :: nat. word_of_nat (2151677952 + 4096 * i) :: u32"
  have u: "unat (?f i) = 2151677952 + 4096 * i" if "i < 4096" for i using that by (intro unat_of_nat_32) simp
  have "?f ` {..<4096} \<subseteq> set ps"
  proof
    fix x assume "x \<in> ?f ` {..<4096}"
    then obtain i where i: "i < 4096" "x = ?f i" by auto
    have "(2151677952 + 4096 * i) mod 4096 = 0" by (simp add: mod_add_eq [symmetric])
    then show "x \<in> set ps" using i u [OF i(1)] unfolding k(2) i(2) whole_pages_def page_aligned_def
      by (simp add: word_le_nat_alt del: of_nat_add of_nat_mult of_nat_numeral)
  qed
  moreover have "inj_on ?f {..<4096}"
  proof (rule inj_onI)
    fix i j assume "i \<in> {..<4096}" "j \<in> {..<4096}" "?f i = ?f j"
    then show "i = j" using u [of i] u [of j] by (metis add_left_cancel lessThan_iff mult_left_cancel zero_neq_numeral)
  qed
  ultimately have "4096 \<le> card (set ps)" using card_mono [of "set ps" "?f ` {..<4096}"] by (simp add: card_image)
  with k show ?thesis by blast
qed

theorem copyuvm_copies_witness:
  "\<exists>k src k' d. setupkvm demo_sy k = Done (k', src) \<and> (\<exists>k2. copyuvm demo_sy k' src 0 = Done (k2, d) \<and> d \<noteq> 0 \<and> frames k2 d = {})"
proof -
  obtain k ps where k: "kmem_rep 0x80300000 k ps" "4096 \<le> card (set ps)" using fresh_memory by blast
  obtain k1 src ps1 where k1: "setupkvm demo_sy k = Done (k1, src)" "managed 0x80300000 k1 src ps1" "frames k1 src = {}" "own k1 src \<union> set ps1 = set ps"
    using setupkvm_space [OF k(1) demo_sy_ok(2,1)] k(2) by auto
  have "4096 \<le> card (own k1 src) + card (set ps1)" using k(2) k1(4) card_Un_le [of "own k1 src" "set ps1"] by simp
  moreover have "length ps1 = card (set ps1)" using k1(2) by (simp add: managed_def kmem_rep_def distinct_card)
  ultimately have "1025 < length ps1" using own_card [of k1 src] k1(3) by simp
  with copyuvm_copies [OF k1(2) demo_sy_ok(2,1), of 0] k1(3) obtain k2 d ps2 where
    "copyuvm demo_sy k1 src 0 = Done (k2, d)" "managed 0x80300000 k2 d ps2" "\<forall>j<524288. page_copied k1 src k2 d j" by auto
  moreover note no_frames [OF k1(3)]
  ultimately have "copyuvm demo_sy k1 src 0 = Done (k2, d)" "d \<noteq> 0" "frames k2 d = {}"
    using space_ok(1) [of "0x80300000" k2 d] kfree_okD(5) by (auto simp: managed_def frames_def page_copied_def)
  then show ?thesis using k1(1) by blast
qed

text \<open>
  C33: \<^verbatim>\<open>freevm\<close> never panics on a well-formed address space and returns exactly
  its pages to the allocator: every user frame, every page table (those of the
  kernel part too) and the directory, each once, so that a process that is
  reaped leaks no memory and frees none that it does not own.
\<close>

theorem freevm_returns_everything:
  assumes "managed ke k d ps"
  shows "\<exists>k' ps'. freevm ke k d = Done k' \<and> kmem_rep ke k' ps' \<and> set ps' = set ps \<union> own k d \<and>
    length ps' = length ps + card (own k d) \<and> (\<forall>a. PGROUNDDOWN a \<notin> own k d \<longrightarrow> kmem_mem k' a = kmem_mem k a)"
proof -
  obtain k' ps' where k': "freevm ke k d = Done k'" "kmem_rep ke k' ps'" "set ps' = set ps \<union> own k d" "only (own k d) k k'"
    using freevm_all [OF assms] by blast
  have "length ps' = card (set ps')" "length ps = card (set ps)" "set ps \<inter> own k d = {}"
    using k'(2) assms by (auto simp: kmem_rep_def managed_def distinct_card)
  then show ?thesis using k' by (auto simp: only_def card_Un_disjoint)
qed

theorem freevm_returns_everything_witness:
  "\<exists>k d k1 k2 ps2. setupkvm demo_sy k = Done (k1, d) \<and> d \<noteq> 0 \<and> freevm 0x80300000 k1 d = Done k2 \<and> kmem_rep 0x80300000 k2 ps2 \<and> 4096 \<le> length ps2"
proof -
  obtain k ps where k: "kmem_rep 0x80300000 k ps" "4096 \<le> card (set ps)" using fresh_memory by blast
  obtain k1 d ps1 where k1: "setupkvm demo_sy k = Done (k1, d)" "d \<noteq> 0" "managed 0x80300000 k1 d ps1" "own k1 d \<union> set ps1 = set ps"
    using setupkvm_space [OF k(1) demo_sy_ok(2,1)] k(2) by auto
  from freevm_returns_everything [OF k1(3)] obtain k2 ps2 where
    "freevm 0x80300000 k1 d = Done k2" "kmem_rep 0x80300000 k2 ps2" "set ps2 = set ps" using k1(4) by auto
  moreover then have "4096 \<le> length ps2" using k(2) card_length [of ps2] by simp
  ultimately show ?thesis using k1(1,2) by blast
qed

end
