(* ===== verification/Trap.thy ===== *)
theory Trap
  imports Vm_Copy Proc Syscall_Args
begin

text \<open>
  Traps, \<^verbatim>\<open>trap.c\<close>, the dispatch of system calls, \<^verbatim>\<open>syscall.c\<close>, and the
  system calls about processes, \<^verbatim>\<open>sysproc.c\<close>.  A routine that may give up the
  processor is cut where it does so, as in the process table: \<open>trap_finish\<close> says
  how \<^verbatim>\<open>trap\<close> ends.  Interrupt handlers of devices are parameters.
\<close>

record istate =
  pst :: pstate
  tickslock :: spinlock
  ticks :: u32

definition T_PGFLT :: u32 where "T_PGFLT = 14"
definition T_SYSCALL :: u32 where "T_SYSCALL = 64"
definition T_IRQ0 :: u32 where "T_IRQ0 = 32"
definition IRQ_TIMER :: u32 where "IRQ_TIMER = 0"
definition IRQ_KBD :: u32 where "IRQ_KBD = 1"
definition IRQ_COM1 :: u32 where "IRQ_COM1 = 4"
definition IRQ_IDE :: u32 where "IRQ_IDE = 14"
definition IRQ_SPURIOUS :: u32 where "IRQ_SPURIOUS = 31"

text \<open>Offsets in \<^verbatim>\<open>struct trapframe\<close>.\<close>

definition trapframe_eip :: u32 where "trapframe_eip = 56"
definition trapframe_esp :: u32 where "trapframe_esp = 68"

text \<open>
  Memory as a process sees it: below \<^verbatim>\<open>KERNBASE\<close> through its page table, where a
  page that is not mapped yet reads as zeros, because the access faults and the handler below maps a
  zeroed page; above, the kernel's direct map.  A read here is the value the access ends with when
  the handler finds memory; its effect on the page table is not part of the read.
\<close>

definition user_mem :: "kmem \<Rightarrow> u32 \<Rightarrow> mem" where
  "user_mem k d va =
     (if va < KERNBASE
      then case frame k d (vpn va) of None \<Rightarrow> 0 | Some p \<Rightarrow> byte k p (unat va mod 4096)
      else kmem_mem k va)"

definition arg :: "nat \<Rightarrow> nat \<Rightarrow> pstate \<Rightarrow> u32 option" where
  "arg i n s =
     (let p = procs s ! i
      in argint (user_mem (km s) (pgdir p)) (load32 (kmem_mem (km s)) (tf p + trapframe_esp)) n)"

subsection \<open>Page faults and the timer\<close>

definition kill_proc :: "nat \<Rightarrow> pstate \<Rightarrow> pstate" where
  "kill_proc i s = set_proc i (\<lambda>p. p\<lparr>killed := True\<rparr>) s"

text \<open>The case \<^verbatim>\<open>T_PGFLT\<close> for process \<open>i\<close> and a fault at \<open>cr2\<close>: memory is made on demand.\<close>

definition page_fault :: "u32 \<Rightarrow> u8 \<Rightarrow> u32 \<Rightarrow> nat \<Rightarrow> pstate \<Rightarrow> pstate outcome" where
  "page_fault ke a cr2 i s =
     (let va = PGROUNDDOWN cr2; d = pgdir (procs s ! i) in
      if va \<ge> KERNBASE \<or> sz (procs s ! i) = 0 then Done (kill_proc i s)
      else let pte = snd (walkpgdir (km s) d va False) in
        if pte \<noteq> 0 \<and> get_pte (km s) pte AND PTE_P \<noteq> 0 then Done (kill_proc i s)
        else let (k, mem) = kalloc (km s) in
          if mem = 0 then Done (kill_proc i (s\<lparr>km := k\<rparr>))
          else let k = k\<lparr>kmem_mem := memset (kmem_mem k) mem 0 PGSIZE\<rparr> in
            and_then (mappages k d va PGSIZE (V2P mem) (PTE_W OR PTE_U)) (\<lambda>(k, r).
            if r < 0 then and_then (kfree ke k mem) (\<lambda>k. Done (kill_proc i (s\<lparr>km := k\<rparr>)))
            else Done (lcr3 a (V2P d) (s\<lparr>km := k\<rparr>))))"

definition timer_tick :: "u8 \<Rightarrow> istate \<Rightarrow> istate outcome" where
  "timer_tick a s =
     and_then (cpuid (mach (pst s)) a) (\<lambda>c.
     if c = 0
     then and_then (acquire (mach (pst s)) (tickslock s) a) (\<lambda>(M, lk).
          let s = s\<lparr>ticks := ticks s + 1\<rparr> in
          and_then (wakeup a Chan_ticks ((pst s)\<lparr>mach := M\<rparr>)) (\<lambda>p.
          and_then (release (mach p) lk a) (\<lambda>(M, lk).
          Done (s\<lparr>pst := p\<lparr>mach := M\<rparr>, tickslock := lk\<rparr>))))
     else Done s)"

text \<open>A process with user threads continues in its thread scheduler.\<close>

definition timer_redirect :: "nat option \<Rightarrow> pstate \<Rightarrow> pstate" where
  "timer_redirect p s =
     (case p of
        None \<Rightarrow> s
      | Some i \<Rightarrow>
          let q = procs s ! i in
          if state q = RUNNING \<and> scheduler_entry q \<noteq> 0 \<and> check_thread q \<ge> 2
          then s\<lparr>km := (km s)\<lparr>kmem_mem := store32 (kmem_mem (km s)) (tf q + trapframe_eip) (scheduler_entry q)\<rparr>\<rparr>
          else s)"

subsection \<open>The dispatch\<close>

definition on_pst :: "(pstate \<Rightarrow> pstate outcome) \<Rightarrow> istate \<Rightarrow> istate outcome" where
  "on_pst f s = and_then (f (pst s)) (\<lambda>p. Done (s\<lparr>pst := p\<rparr>))"

text \<open>
  The \<^verbatim>\<open>switch\<close> of \<^verbatim>\<open>trap\<close> for any trap but a system call, for the current
  process \<open>p\<close>; \<open>user\<close> says whether the processor was in user mode, and \<open>dev\<close> is the
  handler of a device interrupt.
\<close>

definition trap_switch :: "u32 \<Rightarrow> (u32 \<Rightarrow> istate \<Rightarrow> istate outcome) \<Rightarrow> u8 \<Rightarrow> u32 \<Rightarrow> bool \<Rightarrow> u32 \<Rightarrow> nat option \<Rightarrow> istate \<Rightarrow> istate outcome" where
  "trap_switch ke dev a trapno user cr2 p s =
     (if trapno = T_IRQ0 + IRQ_TIMER
      then and_then (timer_tick a s) (on_pst (\<lambda>s. Done (timer_redirect p s)))
      else if trapno \<in> {T_IRQ0 + IRQ_IDE, T_IRQ0 + IRQ_KBD, T_IRQ0 + IRQ_COM1, T_IRQ0 + 0xB} then dev trapno s
      else if trapno = T_IRQ0 + IRQ_IDE + 1 \<or> trapno = T_IRQ0 + IRQ_SPURIOUS then Done s
      else if trapno = T_PGFLT
      then case p of None \<Rightarrow> Done s | Some i \<Rightarrow> on_pst (page_fault ke a cr2 i) s
      else case p of
          None \<Rightarrow> Panic ''trap''
        | Some i \<Rightarrow> if \<not> user then Panic ''trap'' else on_pst (\<lambda>s. Done (kill_proc i s)) s)"

datatype after = Trap_exits | Trap_yields | Trap_returns

definition trap_finish :: "u32 \<Rightarrow> bool \<Rightarrow> nat option \<Rightarrow> pstate \<Rightarrow> after" where
  "trap_finish trapno user p s =
     (case p of
        None \<Rightarrow> Trap_returns
      | Some i \<Rightarrow>
          if killed (procs s ! i) \<and> user then Trap_exits
          else if state (procs s ! i) = RUNNING \<and> trapno = T_IRQ0 + IRQ_TIMER then Trap_yields
          else Trap_returns)"

text \<open>The last test of \<^verbatim>\<open>trap\<close>, after a yield.\<close>

definition trap_after_yield :: "bool \<Rightarrow> nat \<Rightarrow> pstate \<Rightarrow> after" where
  "trap_after_yield user i s = (if killed (procs s ! i) \<and> user then Trap_exits else Trap_returns)"

text \<open>
  \<^verbatim>\<open>syscall\<close> for process \<open>i\<close>: the number is in \<^verbatim>\<open>eax\<close> of the trap frame and so is the
  result; \<open>tbl\<close> is the table \<^verbatim>\<open>syscalls\<close>.
\<close>

definition NELEM_syscalls :: int where "NELEM_syscalls = 28"

definition set_eax :: "nat \<Rightarrow> int \<Rightarrow> pstate \<Rightarrow> pstate" where
  "set_eax i r s = s\<lparr>km := (km s)\<lparr>kmem_mem := store32 (kmem_mem (km s)) (tf (procs s ! i) + trapframe_eax) (word_of_int r)\<rparr>\<rparr>"

definition syscall :: "(nat \<Rightarrow> (istate \<Rightarrow> (istate \<times> int) outcome) option) \<Rightarrow> nat \<Rightarrow> istate \<Rightarrow> istate outcome" where
  "syscall tbl i s =
     (let num = sint (load32 (kmem_mem (km (pst s))) (tf (procs (pst s) ! i) + trapframe_eax)) in
      case (if num > 0 \<and> num < NELEM_syscalls then tbl (nat num) else None) of
        Some f \<Rightarrow> and_then (f s) (\<lambda>(s, r). Done (s\<lparr>pst := set_eax i r (pst s)\<rparr>))
      | None \<Rightarrow> Done (s\<lparr>pst := set_eax i (- 1) (pst s)\<rparr>))"

text \<open>The system call case of \<^verbatim>\<open>trap\<close>, with the trap frame at \<open>f\<close>.\<close>

definition trap_syscall :: "(nat \<Rightarrow> (istate \<Rightarrow> (istate \<times> int) outcome) option) \<Rightarrow> nat \<Rightarrow> u32 \<Rightarrow> istate \<Rightarrow> (istate \<times> after) outcome" where
  "trap_syscall tbl i f s =
     (if killed (procs (pst s) ! i) then Done (s, Trap_exits)
      else let s = s\<lparr>pst := set_proc i (\<lambda>p. p\<lparr>tf := f\<rparr>) (pst s)\<rparr> in
        and_then (syscall tbl i s) (\<lambda>s.
        Done (s, if killed (procs (pst s) ! i) then Trap_exits else Trap_returns)))"

text \<open>
  \<^verbatim>\<open>trap\<close>, up to the point where it leaves the processor or returns; \<open>f\<close> is the
  address of the trap frame.  A system call without a current process reads through a null pointer.
\<close>

definition trap :: "u32 \<Rightarrow> (u32 \<Rightarrow> istate \<Rightarrow> istate outcome) \<Rightarrow> (nat \<Rightarrow> (istate \<Rightarrow> (istate \<times> int) outcome) option) \<Rightarrow>
    u8 \<Rightarrow> u32 \<Rightarrow> u32 \<Rightarrow> bool \<Rightarrow> u32 \<Rightarrow> istate \<Rightarrow> (istate \<times> after) outcome" where
  "trap ke dev tbl a f trapno user cr2 s =
     and_then (myproc_pt a (pst s)) (\<lambda>(t, p).
     let s = s\<lparr>pst := t\<rparr> in
     if trapno = T_SYSCALL
     then case p of None \<Rightarrow> Fault | Some i \<Rightarrow> trap_syscall tbl i f s
     else and_then (trap_switch ke dev a trapno user cr2 p s) (\<lambda>s.
          Done (s, trap_finish trapno user p (pst s))))"

subsection \<open>System calls about processes\<close>

definition sys_kill :: "u8 \<Rightarrow> nat \<Rightarrow> pstate \<Rightarrow> (pstate \<times> int) outcome" where
  "sys_kill a i s = (case arg i 0 s of None \<Rightarrow> Done (s, - 1) | Some n \<Rightarrow> kill a (sint n) s)"

definition sys_getpid :: "nat \<Rightarrow> pstate \<Rightarrow> pstate \<times> int" where
  "sys_getpid i s = (s, pid (procs s ! i))"

definition sys_sbrk :: "u32 \<Rightarrow> nat \<Rightarrow> pstate \<Rightarrow> (pstate \<times> int) outcome" where
  "sys_sbrk ke i s =
     (case arg i 0 s of
        None \<Rightarrow> Done (s, - 1)
      | Some n \<Rightarrow>
          let addr = sz (procs s ! i);
              grow = (\<lambda>s. (set_proc i (\<lambda>p. p\<lparr>sz := sz p + n\<rparr>) s, sint addr))
          in if sint n < 0
             then and_then (deallocuvm ke (km s) (pgdir (procs s ! i)) addr (addr + n)) (\<lambda>(k, r).
                  if r = 0 then Done (s\<lparr>km := k\<rparr>, - 1) else Done (grow (s\<lparr>km := k\<rparr>)))
             else Done (grow s))"

definition growproc :: "u32 \<Rightarrow> u8 \<Rightarrow> nat \<Rightarrow> int \<Rightarrow> pstate \<Rightarrow> (pstate \<times> int) outcome" where
  "growproc ke a i n s =
     (let z = sz (procs s ! i); d = pgdir (procs s ! i);
          finish = (\<lambda>z s. and_then (switchuvm a (Some i) (set_proc i (\<lambda>p. p\<lparr>sz := z\<rparr>) s)) (\<lambda>s. Done (s, 0)))
      in if n > 0 then finish (z + word_of_int n) s
         else if n < 0
         then if sint z + n \<le> 0
              then and_then (deallocuvm ke (km s) d KERNBASE 0) (\<lambda>(k, r). finish 0 (s\<lparr>km := k\<rparr>))
              else and_then (deallocuvm ke (km s) d z (z + word_of_int n)) (\<lambda>(k, r).
                   if r = 0 then Done (s\<lparr>km := k\<rparr>, - 1) else finish r (s\<lparr>km := k\<rparr>))
         else finish z s)"

text \<open>
  \<^verbatim>\<open>sys_sleep\<close> in three parts: up to the loop, with the argument and the
  value of \<^verbatim>\<open>ticks0\<close>; one turn of the loop, which ends asleep on the clock or with a
  result; and waking up, which takes the clock lock again.  C compares
  \<^verbatim>\<open>ticks - ticks0 < n\<close> as unsigned numbers.
\<close>

definition sys_sleep_start :: "u8 \<Rightarrow> nat \<Rightarrow> istate \<Rightarrow> (istate \<times> (u32 \<times> u32) option) outcome" where
  "sys_sleep_start a i s =
     (case arg i 0 (pst s) of
        None \<Rightarrow> Done (s, None)
      | Some n \<Rightarrow>
          and_then (acquire (mach (pst s)) (tickslock s) a) (\<lambda>(M, lk).
          Done (s\<lparr>pst := (pst s)\<lparr>mach := M\<rparr>, tickslock := lk\<rparr>, Some (n, ticks s))))"

datatype sleep_result = Sleep_returns int | Sleep_again bool

definition release_ticks :: "u8 \<Rightarrow> istate \<Rightarrow> istate outcome" where
  "release_ticks a s =
     and_then (release (mach (pst s)) (tickslock s) a) (\<lambda>(M, lk). Done (s\<lparr>pst := (pst s)\<lparr>mach := M\<rparr>, tickslock := lk\<rparr>))"

definition sys_sleep_turn :: "u8 \<Rightarrow> nat \<Rightarrow> u32 \<Rightarrow> u32 \<Rightarrow> istate \<Rightarrow> (istate \<times> sleep_result) outcome" where
  "sys_sleep_turn a i n ticks0 s =
     (if ticks s - ticks0 < n
      then if killed (procs (pst s) ! i)
        then and_then (release_ticks a s) (\<lambda>s. Done (s, Sleep_returns (- 1)))
        else and_then (sleep_enter a Chan_ticks (Other_lock (tickslock s)) (pst s)) (\<lambda>(p, lk, ena).
             Done (s\<lparr>pst := p, tickslock := (case lk of Other_lock l \<Rightarrow> l | _ \<Rightarrow> tickslock s)\<rparr>, Sleep_again ena))
      else and_then (release_ticks a s) (\<lambda>s. Done (s, Sleep_returns 0)))"

definition sys_sleep_wake :: "u8 \<Rightarrow> nat \<Rightarrow> bool \<Rightarrow> istate \<Rightarrow> istate outcome" where
  "sys_sleep_wake a i ena s =
     and_then (sleep_leave a i (Other_lock (tickslock s)) ena (pst s)) (\<lambda>(p, lk).
     Done (s\<lparr>pst := p, tickslock := (case lk of Other_lock l \<Rightarrow> l | _ \<Rightarrow> tickslock s)\<rparr>))"

definition sys_uptime :: "u8 \<Rightarrow> istate \<Rightarrow> (istate \<times> int) outcome" where
  "sys_uptime a s =
     and_then (acquire (mach (pst s)) (tickslock s) a) (\<lambda>(M, lk).
     let xticks = ticks s in
     and_then (release_ticks a (s\<lparr>pst := (pst s)\<lparr>mach := M\<rparr>, tickslock := lk\<rparr>)) (\<lambda>s.
     Done (s, sint xticks)))"

definition sys_uthread_init :: "nat \<Rightarrow> pstate \<Rightarrow> pstate \<times> int" where
  "sys_uthread_init i s =
     (case arg i 0 s of None \<Rightarrow> (s, - 1) | Some addr \<Rightarrow> (set_proc i (\<lambda>p. p\<lparr>scheduler_entry := addr\<rparr>) s, 0))"

definition sys_check_thread :: "nat \<Rightarrow> pstate \<Rightarrow> pstate \<times> int" where
  "sys_check_thread i s =
     (case arg i 0 s of None \<Rightarrow> (s, - 1)
      | Some n \<Rightarrow> (set_proc i (\<lambda>p. p\<lparr>check_thread := sint (word_of_int (check_thread p) + n)\<rparr>) s, 0))"

record pstat =
  ps_inuse :: "bool list"
  ps_pid :: "int list"
  ps_priority :: "int list"
  ps_state :: "procstate list"
  ps_ticks :: "int list list"
  ps_wait_ticks :: "int list list"

definition sizeof_pstat :: int where "sizeof_pstat = 3072"

text \<open>The loop of \<^verbatim>\<open>sys_getpinfo\<close>, as the structure it fills.\<close>

definition getpinfo :: "pstate \<Rightarrow> pstat" where
  "getpinfo s =
     \<lparr>ps_inuse = map (\<lambda>i. state (procs s ! i) \<noteq> UNUSED) [0..<NPROC],
      ps_pid = map (\<lambda>i. pid (procs s ! i)) [0..<NPROC],
      ps_priority = map (\<lambda>i. proc_priority s ! i) [0..<NPROC],
      ps_state = map (\<lambda>i. state (procs s ! i)) [0..<NPROC],
      ps_ticks = map (\<lambda>i. map (\<lambda>j. proc_ticks s ! i ! j) [0..<4]) [0..<NPROC],
      ps_wait_ticks = map (\<lambda>i. map (\<lambda>j. proc_wait_ticks s ! i ! j) [0..<4]) [0..<NPROC]\<rparr>"

text \<open>The whole call, with the address of the user's structure and what is stored there.\<close>

definition sys_getpinfo :: "u8 \<Rightarrow> nat \<Rightarrow> pstate \<Rightarrow> (pstate \<times> int \<times> (u32 \<times> pstat) option) outcome" where
  "sys_getpinfo a i s =
     (let p = procs s ! i in
      case argptr (user_mem (km s) (pgdir p)) (load32 (kmem_mem (km s)) (tf p + trapframe_esp)) 0 sizeof_pstat of
        None \<Rightarrow> Done (s, - 1, None)
      | Some ps \<Rightarrow>
          and_then (acquire_pt a s) (\<lambda>s.
          let info = getpinfo s in
          and_then (release_pt a s) (\<lambda>s. Done (s, 0, Some (ps, info)))))"

definition sys_setSchedPolicy :: "u8 \<Rightarrow> nat \<Rightarrow> pstate \<Rightarrow> (pstate \<times> int) outcome" where
  "sys_setSchedPolicy a i s =
     (case arg i 0 s of
        None \<Rightarrow> Done (s, - 1)
      | Some p \<Rightarrow>
          and_then (pushcli (mach s) a) (\<lambda>M.
          and_then (mycpu M a) (\<lambda>c.
          and_then (popcli (set_cpu c (\<lambda>cp. cp\<lparr>sched_policy := sint p\<rparr>) M) a) (\<lambda>M.
          Done (s\<lparr>mach := M\<rparr>, 0)))))"

text \<open>The lines \<^verbatim>\<open>print_user_page_table\<close> prints: page number, user or kernel, writable, frame number.\<close>

definition page_line :: "kmem \<Rightarrow> u32 \<Rightarrow> u32 \<Rightarrow> (u32 \<times> bool \<times> bool \<times> u32) list" where
  "page_line k d va =
     (let pte = snd (walkpgdir k d va False) in
      if pte = 0 then []
      else let e = get_pte k pte in
        if e AND PTE_P = 0 then []
        else [(va div PGSIZE, e AND PTE_U \<noteq> 0, e AND PTE_W \<noteq> 0, drop_bit 12 (PTE_ADDR e))])"

definition print_user_page_table :: "kmem \<Rightarrow> u32 \<Rightarrow> (u32 \<times> bool \<times> bool \<times> u32) list" where
  "print_user_page_table k d = concat (map (\<lambda>n. page_line k d (of_nat n * PGSIZE)) [0..<524288])"

definition sys_printpt :: "nat \<Rightarrow> pstate \<Rightarrow> int \<times> (u32 \<times> bool \<times> bool \<times> u32) list" where
  "sys_printpt i s =
     (case arg i 0 s of
        None \<Rightarrow> (- 1, [])
      | Some n \<Rightarrow>
          (case find_proc_by_pid (sint n) s of
             None \<Rightarrow> (- 1, [])
           | Some j \<Rightarrow> (0, print_user_page_table (km s) (pgdir (procs s ! j)))))"

end
