(* ===== verification/Trap_Fault.thy ===== *)
theory Trap_Fault
  imports Trap
begin

text \<open>
  Lazy allocation is invisible: the page fault handler of \<open>Trap\<close> always returns, takes at
  most the pages it maps from the free list, and leaves the memory the process sees unchanged.
\<close>

lemma vpn_user: "va < KERNBASE \<longleftrightarrow> vpn va < 524288"
  by (auto simp: word_less_nat_alt KERNBASE_def)

lemma vpn_PGROUNDDOWN [simp]: "vpn (PGROUNDDOWN a) = vpn a"
  by (simp add: unat_PGROUNDDOWN)

lemma PGROUNDDOWN_user: "PGROUNDDOWN a < KERNBASE \<longleftrightarrow> a < KERNBASE"
  by (simp add: vpn_user)

lemma user_perm: "(PTE_W OR PTE_U) AND NOT 0xFFF = 0"
  by (simp add: PTE_W_def PTE_U_def)

lemma user_mem_frame:
  assumes "va < KERNBASE"
    and "(case frame k' d (vpn va) of None \<Rightarrow> 0 | Some p \<Rightarrow> byte k' p (unat va mod 4096)) =
         (case frame k d (vpn va) of None \<Rightarrow> 0 | Some p \<Rightarrow> byte k p (unat va mod 4096))"
  shows "user_mem k' d va = user_mem k d va"
  using assms by (simp add: user_mem_def)

lemma user_mem_same:
  assumes s: "space ke k d" and O: "only S k k'" "S \<inter> frames k d = {}"
    and f: "pte k' d (vpn va) = pte k d (vpn va)" and va: "va < KERNBASE"
  shows "user_mem k' d va = user_mem k d va"
proof (rule user_mem_frame [OF va])
  have "byte k' p x = byte k p x" if "frame k d (vpn va) = Some p" "x < 4096" for p x
    using byte_only [OF O(1) _ _ that(2)] space_ok(6) [OF s] frame_in [OF that(1)] va O(2) by (auto simp: vpn_user)
  then show "(case frame k' d (vpn va) of None \<Rightarrow> 0 | Some p \<Rightarrow> byte k' p (unat va mod 4096)) =
      (case frame k d (vpn va) of None \<Rightarrow> 0 | Some p \<Rightarrow> byte k p (unat va mod 4096))"
    using f by (auto split: option.splits)
qed

text \<open>A page taken from the free list and cleared.\<close>

definition zeroed :: "kmem \<Rightarrow> u32 \<Rightarrow> kmem" where
  "zeroed k q = (fst (kalloc k))\<lparr>kmem_mem := memset (kmem_mem (fst (kalloc k))) q 0 PGSIZE\<rparr>"

lemma zeroed_page:
  assumes "page_aligned q"
  shows "only {q} k (zeroed k q)" "freelist (zeroed k q) = freelist (fst (kalloc k))" "x < 4096 \<Longrightarrow> byte (zeroed k q) q x = 0"
  using fill_other [OF assms] by (auto simp: zeroed_def only_def kalloc_mem PGSIZE_def byte_def fill_def unat_of_nat)

lemma fault_no_table:
  assumes m: "managed ke k d [q]" and va: "page_aligned va" "vpn va < 524288"
    and n: "tab k d (vpn va div 1024) = None"
  shows "mappages (zeroed k q) d va PGSIZE (V2P q) (PTE_W OR PTE_U) = Done (zeroed k q, - 1)"
    and "\<exists>k'. kfree ke (zeroed k q) q = Done k' \<and> managed ke k' d [q] \<and> own k' d = own k d \<and> only {q} k k' \<and>
      (\<forall>j<1048576. pte k' d j = pte k d j)"
proof -
  have al: "page_aligned q" using m kfree_okD(1) by (auto simp: managed_def kmem_rep_def)
  note z = zeroed_page [OF al, where k = k]
  note P = managed_pop [OF m z(1,2)]
  have "frame k d (vpn va) = None" using n by (simp add: pte_def frame_of_def)
  then show "mappages (zeroed k q) d va PGSIZE (V2P q) (PTE_W OR PTE_U) = Done (zeroed k q, - 1)"
    using P n va vpn_less user_perm by (intro map_user_page(1) [OF P(6) va _ P(3)]) auto
  obtain k' where k': "kfree ke (zeroed k q) q = Done k'" "kmem_rep ke k' [q]"
    using kfree_rep [OF _ P(3), of "zeroed k q" "[]"] P(6) by (auto simp: managed_def)
  have O: "only {q} (zeroed k q) k'" by (rule kfree_only [OF k'(1)])
  have s: "space ke k d" using m by (simp add: managed_def)
  have O2: "only {q} k k'" using only_trans [OF z(1) O] by simp
  have "{q} \<inter> insert d (tabs k d) = {}" using P(4) by (auto simp: own_def)
  note v = view_cong [OF s O2 this]
  have "space ke k' d" "own k' d = own k d" using view_sets_cong [of k' d k] v s by simp_all
  then show "\<exists>k'. kfree ke (zeroed k q) q = Done k' \<and> managed ke k' d [q] \<and> own k' d = own k d \<and> only {q} k k' \<and>
      (\<forall>j<1048576. pte k' d j = pte k d j)"
    using k' O2 v m by (intro exI [of _ k']) (auto simp: managed_def)
qed

lemma fault_maps:
  assumes m: "managed ke k d (q # qs)" and va: "page_aligned va" "vpn va < 524288" and n: "frame k d (vpn va) = None"
    and w: "tab k d (vpn va div 1024) \<noteq> None \<or> qs \<noteq> []"
  shows "\<exists>k' ps'. mappages (zeroed k q) d va PGSIZE (V2P q) (PTE_W OR PTE_U) = Done (k', 0) \<and> managed ke k' d ps' \<and>
    (\<forall>j<1048576. pte k' d j = (if j = vpn va then V2P q OR (PTE_W OR PTE_U) OR PTE_P else pte k d j)) \<and>
    own k' d \<union> set ps' = own k d \<union> set (q # qs) \<and> only (insert d (tabs k d) \<union> set (q # qs)) k k' \<and>
    frame k' d (vpn va) = Some q \<and> (\<forall>x<4096. byte k' q x = 0)"
proof -
  have al: "page_aligned q" using m kfree_okD(1) by (auto simp: managed_def kmem_rep_def)
  note z = zeroed_page [OF al, where k = k]
  note P = managed_pop [OF m z(1,2)]
  have n1: "frame (zeroed k q) d (vpn va) = None" using P(9) n va by simp
  have w1: "tab (zeroed k q) d (vpn va div 1024) \<noteq> None \<or> qs \<noteq> []" using w P(8) vpn_less by simp
  have q: "q \<notin> own (zeroed k q) d" using P(4,7) by simp
  from map_user_page(2) [OF P(6) va n1 P(3) q P(5) user_perm w1] obtain k' ps' where
    k': "mappages (zeroed k q) d va PGSIZE (V2P q) (PTE_W OR PTE_U) = Done (k', 0)" "managed ke k' d ps'"
    "\<forall>j<1048576. pte k' d j = (if j = vpn va then V2P q OR (PTE_W OR PTE_U) OR PTE_P else pte (zeroed k q) d j)"
    "only (insert d (tabs k d) \<union> set qs) (zeroed k q) k'" "set ps' \<subseteq> set qs" "own k' d = insert q (own k d \<union> (set qs - set ps'))"
    using P(7,10) by auto
  have "only (insert d (tabs k d) \<union> set (q # qs)) k k'"
    by (rule only_mono [OF only_trans [OF z(1) k'(4)]]) auto
  moreover have "q \<notin> insert d (tabs k d) \<union> set qs" using P(4,5) by (auto simp: own_def)
  then have "\<forall>x<4096. byte k' q x = 0" using byte_only [OF k'(4) al] z(3) by simp
  moreover have "frame k' d (vpn va) = Some q"
    using k'(3) va frame_of_make [OF V2P_aligned [OF P(3)] user_perm] by simp
  ultimately show ?thesis using k' P(9) by (intro exI [of _ k'] exI [of _ ps']) auto
qed

lemma fault_test:
  assumes "space ke k d"
  shows "(snd (walkpgdir k d va False) \<noteq> 0 \<and> get_pte k (snd (walkpgdir k d va False)) AND PTE_P \<noteq> 0) \<longleftrightarrow> frame k d (vpn va) \<noteq> None"
proof (cases "tab k d (vpn va div 1024)")
  case None
  then show ?thesis using walk_absent [OF None] by (simp add: pte_def frame_of_def)
next
  case (Some t)
  then have "slot t (vpn va mod 1024) \<noteq> 0"
    using slot_nonzero [OF space_ok(3) [OF assms tab_in [OF Some vpn_less(2)]]] by simp
  then show ?thesis using walk_present [OF Some, of False] get_entry [OF Some] by (auto simp: frame_of_def)
qed

text \<open>The pages a fault needs: one for the data and one for a missing table.\<close>

definition fault_need :: "kmem \<Rightarrow> u32 \<Rightarrow> u32 \<Rightarrow> nat" where
  "fault_need k d va = (if tab k d (vpn va div 1024) = None then 2 else 1)"

definition fault_served :: "nat \<Rightarrow> u32 \<Rightarrow> u32 list \<Rightarrow> pstate \<Rightarrow> bool" where
  "fault_served i cr2 ps s \<longleftrightarrow>
     (let d = pgdir (procs s ! i) in
      cr2 < KERNBASE \<and> sz (procs s ! i) \<noteq> 0 \<and> frame (km s) d (vpn cr2) = None \<and> fault_need (km s) d cr2 \<le> length ps)"

lemma fault_refused:
  assumes "space ke (km s) (pgdir (procs s ! i))"
    and "\<not> (cr2 < KERNBASE \<and> sz (procs s ! i) \<noteq> 0 \<and> frame (km s) (pgdir (procs s ! i)) (vpn cr2) = None)"
  shows "page_fault ke a cr2 i s = Done (kill_proc i s)"
  using assms fault_test [OF assms(1), of "PGROUNDDOWN cr2"] PGROUNDDOWN_user [of cr2]
  by (auto simp: page_fault_def Let_def not_le)

lemma fault_proceeds:
  assumes "space ke (km s) (pgdir (procs s ! i))" "cr2 < KERNBASE" "sz (procs s ! i) \<noteq> 0"
    "frame (km s) (pgdir (procs s ! i)) (vpn cr2) = None"
  shows "kalloc (km s) = (k, 0) \<Longrightarrow> page_fault ke a cr2 i s = Done (kill_proc i (s\<lparr>km := k\<rparr>))"
    and "kalloc (km s) = (fst (kalloc (km s)), q) \<Longrightarrow> q \<noteq> 0 \<Longrightarrow> page_fault ke a cr2 i s =
      and_then (mappages (zeroed (km s) q) (pgdir (procs s ! i)) (PGROUNDDOWN cr2) PGSIZE (V2P q) (PTE_W OR PTE_U)) (\<lambda>(k, r).
        if r < 0 then and_then (kfree ke k q) (\<lambda>k. Done (kill_proc i (s\<lparr>km := k\<rparr>)))
        else Done (lcr3 a (V2P (pgdir (procs s ! i))) (s\<lparr>km := k\<rparr>)))"
proof -
  have t: "\<not> (snd (walkpgdir (km s) (pgdir (procs s ! i)) (PGROUNDDOWN cr2) False) \<noteq> 0 \<and>
    get_pte (km s) (snd (walkpgdir (km s) (pgdir (procs s ! i)) (PGROUNDDOWN cr2) False)) AND PTE_P \<noteq> 0)"
    using fault_test [OF assms(1), of "PGROUNDDOWN cr2"] assms(4) by simp
  have k: "\<not> KERNBASE \<le> PGROUNDDOWN cr2" using assms(2) PGROUNDDOWN_user [of cr2] by (simp add: not_le)
  show "page_fault ke a cr2 i s = Done (kill_proc i (s\<lparr>km := k\<rparr>))" if "kalloc (km s) = (k, 0)"
    using k assms(3) that unfolding page_fault_def Let_def if_not_P [OF t] by simp
  assume q: "kalloc (km s) = (fst (kalloc (km s)), q)" "q \<noteq> 0"
  show "page_fault ke a cr2 i s =
      and_then (mappages (zeroed (km s) q) (pgdir (procs s ! i)) (PGROUNDDOWN cr2) PGSIZE (V2P q) (PTE_W OR PTE_U)) (\<lambda>(k, r).
        if r < 0 then and_then (kfree ke k q) (\<lambda>k. Done (kill_proc i (s\<lparr>km := k\<rparr>)))
        else Done (lcr3 a (V2P (pgdir (procs s ! i))) (s\<lparr>km := k\<rparr>)))"
    unfolding page_fault_def Let_def zeroed_def if_not_P [OF t]
    by (subst q(1)) (use k assms(3) q(2) in \<open>simp del: memset_fill\<close>)
qed

text \<open>What the handler promises, for the address space \<open>d\<close> of process \<open>i\<close>.\<close>

definition fault_outcome :: "u32 \<Rightarrow> u32 \<Rightarrow> nat \<Rightarrow> u32 list \<Rightarrow> pstate \<Rightarrow> pstate \<Rightarrow> bool" where
  "fault_outcome ke cr2 i ps s s' \<longleftrightarrow>
     (let d = pgdir (procs s ! i) in
      (\<exists>ps'. managed ke (km s') d ps' \<and> own (km s') d \<union> set ps' = own (km s) d \<union> set ps) \<and>
      (\<forall>va<KERNBASE. user_mem (km s') d va = user_mem (km s) d va) \<and>
      (\<forall>j<1048576. j \<noteq> vpn cr2 \<longrightarrow> pte (km s') d j = pte (km s) d j) \<and>
      (if fault_served i cr2 ps s
       then procs s' = procs s \<and> (\<exists>q\<in>set ps. pte (km s') d (vpn cr2) = V2P q OR (PTE_W OR PTE_U) OR PTE_P)
       else procs s' = upd_at i (\<lambda>p. p\<lparr>killed := True\<rparr>) (procs s) \<and> pte (km s') d (vpn cr2) = pte (km s) d (vpn cr2)))"

lemma outcome_killed:
  assumes m: "managed ke (km s) (pgdir (procs s ! i)) ps" "managed ke k (pgdir (procs s ! i)) ps"
    and k: "only (set ps) (km s) k" "own k (pgdir (procs s ! i)) = own (km s) (pgdir (procs s ! i))"
      "\<forall>j<1048576. pte k (pgdir (procs s ! i)) j = pte (km s) (pgdir (procs s ! i)) j"
    and f: "\<not> fault_served i cr2 ps s"
  shows "fault_outcome ke cr2 i ps s (kill_proc i (s\<lparr>km := k\<rparr>))"
proof -
  have s: "space ke (km s) (pgdir (procs s ! i))" and dis: "set ps \<inter> frames (km s) (pgdir (procs s ! i)) = {}"
    using m(1) by (auto simp: managed_def own_def)
  have "user_mem k (pgdir (procs s ! i)) va = user_mem (km s) (pgdir (procs s ! i)) va" if "va < KERNBASE" for va
    using user_mem_same [OF s k(1) dis _ that] k(3) vpn_less(1) by blast
  then show ?thesis using m k f vpn_less(1) [of cr2] by (auto simp: fault_outcome_def Let_def kill_proc_def)
qed

lemma outcome_served:
  assumes m: "managed ke (km s) (pgdir (procs s ! i)) (q # qs)" and f: "fault_served i cr2 (q # qs) s"
    and k: "managed ke k (pgdir (procs s ! i)) ps'"
      "\<forall>j<1048576. pte k (pgdir (procs s ! i)) j = (if j = vpn cr2 then V2P q OR (PTE_W OR PTE_U) OR PTE_P else pte (km s) (pgdir (procs s ! i)) j)"
      "own k (pgdir (procs s ! i)) \<union> set ps' = own (km s) (pgdir (procs s ! i)) \<union> set (q # qs)"
      "only (insert (pgdir (procs s ! i)) (tabs (km s) (pgdir (procs s ! i))) \<union> set (q # qs)) (km s) k"
      "frame k (pgdir (procs s ! i)) (vpn cr2) = Some q" "\<forall>x<4096. byte k q x = 0"
  shows "fault_outcome ke cr2 i (q # qs) s (lcr3 a v (s\<lparr>km := k\<rparr>))"
proof -
  let ?d = "pgdir (procs s ! i)"
  have s: "space ke (km s) ?d" and dis: "(insert ?d (tabs (km s) ?d) \<union> set (q # qs)) \<inter> frames (km s) ?d = {}"
    using m by (auto simp: managed_def own_def space_def)
  have n: "frame (km s) ?d (vpn cr2) = None" using f by (simp add: fault_served_def Let_def)
  have "user_mem k ?d va = user_mem (km s) ?d va" if va: "va < KERNBASE" for va
  proof (cases "vpn va = vpn cr2")
    case True
    then show ?thesis using n k(5,6) by (intro user_mem_frame [OF va]) simp
  next
    case False
    then show ?thesis using user_mem_same [OF s k(4) dis _ va] k(2) vpn_less(1) by simp
  qed
  then show ?thesis using k f vpn_less(1) [of cr2] by (auto simp: fault_outcome_def Let_def lcr3_def)
qed

lemma fault_allocates:
  assumes m0: "managed ke (km s) (pgdir (procs s ! i)) ps"
    and c: "cr2 < KERNBASE" "sz (procs s ! i) \<noteq> 0" "frame (km s) (pgdir (procs s ! i)) (vpn cr2) = None"
  shows "\<exists>s'. page_fault ke a cr2 i s = Done s' \<and> fault_outcome ke cr2 i ps s s'"
proof -
  let ?d = "pgdir (procs s ! i)"
  have s: "space ke (km s) ?d" and rep: "kmem_rep ke (km s) ps" using m0 by (auto simp: managed_def)
  have va: "page_aligned (PGROUNDDOWN cr2)" "vpn (PGROUNDDOWN cr2) < 524288" using c(1) vpn_user by simp_all
  note go = fault_proceeds [OF s c]
  show ?thesis
  proof (cases ps)
    case Nil
    then show ?thesis using outcome_killed [OF m0 m0, of cr2] go(1) [OF kalloc_rep(1) [OF rep]] by (auto simp: fault_served_def fault_need_def Let_def)
  next
    case (Cons q qs)
    note m = m0 [unfolded Cons]
    have "page_aligned q" using rep Cons kfree_okD(1) by (auto simp: kmem_rep_def)
    note P = managed_pop(1,2) [OF m zeroed_page(1,2) [OF this]]
    note go = go(2) [OF P]
    show ?thesis
    proof (cases "tab (km s) ?d (vpn cr2 div 1024) = None \<and> qs = []")
      case True
      then have n: "\<not> fault_served i cr2 ps s" using Cons by (simp add: fault_served_def fault_need_def Let_def)
      from True m have m1: "managed ke (km s) ?d [q]" and t: "tab (km s) ?d (vpn (PGROUNDDOWN cr2) div 1024) = None" by simp_all
      from fault_no_table(2) [OF m1 va t] obtain k where k: "kfree ke (zeroed (km s) q) q = Done k" "managed ke k ?d [q]"
        "own k ?d = own (km s) ?d" "only {q} (km s) k" "\<forall>j<1048576. pte k ?d j = pte (km s) ?d j" by auto
      then show ?thesis using go fault_no_table(1) [OF m1 va t] outcome_killed [OF m1, of k] n True Cons by simp
    next
      case False
      then have w: "tab (km s) ?d (vpn (PGROUNDDOWN cr2) div 1024) \<noteq> None \<or> qs \<noteq> []" by simp
      have f: "fault_served i cr2 (q # qs) s"
        using c False by (cases qs) (auto simp: fault_served_def fault_need_def Let_def)
      have n: "frame (km s) ?d (vpn (PGROUNDDOWN cr2)) = None" using c(3) by simp
      from fault_maps [OF m va n w] obtain k ps' where
        k: "mappages (zeroed (km s) q) ?d (PGROUNDDOWN cr2) PGSIZE (V2P q) (PTE_W OR PTE_U) = Done (k, 0)"
        "managed ke k ?d ps'"
        "\<forall>j<1048576. pte k ?d j = (if j = vpn cr2 then V2P q OR (PTE_W OR PTE_U) OR PTE_P else pte (km s) ?d j)"
        "own k ?d \<union> set ps' = own (km s) ?d \<union> set (q # qs)" "only (insert ?d (tabs (km s) ?d) \<union> set (q # qs)) (km s) k"
        "frame k ?d (vpn cr2) = Some q" "\<forall>x<4096. byte k q x = 0" by auto
      show ?thesis using go k(1) outcome_served [OF m f k(2-7)] Cons by simp
    qed
  qed
qed

text \<open>
  C34: Lazy allocation.  For a process whose address space and the free list are in order, the page
  fault handler of \<^verbatim>\<open>trap\<close> always returns, without panic, and no page is lost or
  shared: the pages of the address space and the free list together are the same before and after.
  The memory the process sees below \<^verbatim>\<open>KERNBASE\<close>, with pages not mapped yet read as zeros,
  does not change, and no other page table entry does.  The fault is served, with a writable
  user page from the free list, exactly when the address is below \<^verbatim>\<open>KERNBASE\<close>, the size of
  the process is not 0, the page is not mapped and enough free pages are left; otherwise the process
  is marked killed and the entry stays as it was.
\<close>

theorem page_fault_lazy:
  assumes "managed ke (km s) (pgdir (procs s ! i)) ps"
  shows "\<exists>s'. page_fault ke a cr2 i s = Done s' \<and> fault_outcome ke cr2 i ps s s'"
proof (cases "cr2 < KERNBASE \<and> sz (procs s ! i) \<noteq> 0 \<and> frame (km s) (pgdir (procs s ! i)) (vpn cr2) = None")
  case True
  then show ?thesis using fault_allocates [OF assms] by blast
next
  case False
  have s: "space ke (km s) (pgdir (procs s ! i))" using assms by (simp add: managed_def)
  from False have "\<not> fault_served i cr2 ps s" by (auto simp: fault_served_def Let_def)
  then show ?thesis using fault_refused [OF s False] outcome_killed [OF assms assms] by simp
qed

lemma kernel_space: "\<exists>k d ps. managed 0x80300000 k d ps \<and> frames k d = {} \<and> 2 \<le> length ps"
proof -
  obtain k ps where k: "kmem_rep 0x80300000 k ps" "4096 \<le> card (set ps)" using fresh_memory by blast
  obtain k1 d ps1 where k1: "managed 0x80300000 k1 d ps1" "frames k1 d = {}" "own k1 d \<union> set ps1 = set ps"
    using setupkvm_space [OF k(1) demo_sy_ok(2,1)] k(2) by auto
  have "4096 \<le> card (own k1 d) + card (set ps1)" using k(2) k1(3) card_Un_le [of "own k1 d" "set ps1"] by simp
  moreover have "length ps1 = card (set ps1)" using k1(1) by (simp add: managed_def kmem_rep_def distinct_card)
  ultimately have "2 \<le> length ps1" using own_card [of k1 d] k1(2) by simp
  with k1 show ?thesis by blast
qed

theorem page_fault_lazy_witness:
  "\<exists>s s' d. d = pgdir (procs s ! 0) \<and> page_fault 0x80300000 0 0x5123 0 s = Done s' \<and> frame (km s) d 5 = None \<and>
     frame (km s') d 5 \<noteq> None \<and> user_mem (km s') d 0x5123 = 0 \<and> procs s' = procs s"
proof -
  obtain k d ps where k: "managed 0x80300000 k d ps" "frames k d = {}" "2 \<le> length ps" using kernel_space by blast
  fix s0 :: pstate and p0 :: proc
  define s where "s = s0\<lparr>km := k, procs := [p0\<lparr>pgdir := d, sz := 0x6000\<rparr>]\<rparr>"
  have p: "procs s ! 0 = p0\<lparr>pgdir := d, sz := 0x6000\<rparr>" "km s = k" by (simp_all add: s_def)
  have n: "frame k d 5 = None" using no_frames [OF k(2), of 5] by simp
  have v: "vpn 0x5123 = 5" "(0x5123 :: u32) < KERNBASE" by (simp_all add: KERNBASE_def)
  have f: "fault_served 0 0x5123 ps s" using n v k(3) by (simp add: fault_served_def Let_def p fault_need_def)
  obtain s' where s': "page_fault 0x80300000 0 0x5123 0 s = Done s'" "fault_outcome 0x80300000 0x5123 0 ps s s'"
    using page_fault_lazy [of "0x80300000" s 0 ps 0 "0x5123"] k(1) p by auto
  then obtain q where q: "q \<in> set ps" "pte (km s') d 5 = V2P q OR (PTE_W OR PTE_U) OR PTE_P" "procs s' = procs s"
    "user_mem (km s') d 0x5123 = user_mem k d 0x5123"
    using f v p by (auto simp: fault_outcome_def Let_def)
  have "kfree_ok 0x80300000 q" using k(1) q(1) by (auto simp: managed_def kmem_rep_def)
  then have "frame (km s') d 5 \<noteq> None" using q(2) frame_of_make [OF V2P_aligned user_perm] by simp
  moreover have "user_mem k d 0x5123 = 0" using n v by (simp add: user_mem_def)
  ultimately show ?thesis using s'(1) q(3,4) n p by (intro exI [of _ s] exI [of _ s'] exI [of _ d]) simp
qed

end
