(* ===== verification/Sbrk.thy ===== *)
theory Sbrk
  imports Trap_Fault
begin

text \<open>
  What \<^verbatim>\<open>sys_sbrk\<close> does to the memory of a process, on every branch.
\<close>

text \<open>The pages \<^verbatim>\<open>deallocuvm\<close> visits when the size goes from \<open>z\<close> down to \<open>z'\<close>.\<close>

definition cleared :: "u32 \<Rightarrow> u32 \<Rightarrow> u32 \<Rightarrow> bool" where
  "cleared z z' va \<longleftrightarrow> z' < z \<and> PGROUNDDOWN z' \<le> va \<and> PGROUNDDOWN va < z"

lemma cleared_vpn: "cleared z z' va \<longleftrightarrow> z' < z \<and> vpn (PGROUNDDOWN z') \<le> vpn va \<and> 4096 * vpn va < unat z"
proof -
  have "PGROUNDDOWN z' \<le> va \<longleftrightarrow> vpn z' \<le> vpn va"
    by (auto simp: word_le_nat_alt unat_PGROUNDDOWN less_eq_div_iff_mult_less_eq)
  moreover have "PGROUNDDOWN va < z \<longleftrightarrow> 4096 * vpn va < unat z" by (simp add: word_less_nat_alt unat_PGROUNDDOWN mult.commute)
  ultimately show ?thesis by (simp add: cleared_def)
qed

lemma dealloc_shrink:
  assumes m: "managed ke k d ps" and z: "z' < z \<Longrightarrow> z \<le> KERNBASE"
  shows "\<exists>k' ps'. deallocuvm ke k d z z' = Done (k', if z' < z then z' else z) \<and> managed ke k' d ps' \<and>
    own k' d \<union> set ps' = own k d \<union> set ps \<and>
    (\<forall>va<KERNBASE. user_mem k' d va = (if cleared z z' va then 0 else user_mem k d va))"
proof (cases "z' < z")
  case False
  then have "deallocuvm ke k d z z' = Done (k, z)" by (simp add: deallocuvm_def not_less)
  then show ?thesis using m False by (intro exI [of _ k] exI [of _ ps]) (simp add: cleared_def)
next
  case True
  obtain k' ps' where k': "page_loop (deallocuvm_page ke d) (PGROUNDDOWN z') z k = Done (Next k')" "managed ke k' d ps'"
    "\<forall>j<1048576. pte k' d j = (if vpn (PGROUNDDOWN z') \<le> j \<and> 4096 * j < unat z \<and> frame k d j \<noteq> None then 0 else pte k d j)"
    "own k' d \<union> set ps' = own k d \<union> set ps" "only (tabs k d \<union> (set ps' - set ps)) k k'" "\<forall>i<1024. tab k' d i = tab k d i"
    using dealloc_loop [OF m PGROUNDDOWN_aligned z [OF True]] by blast
  have D: "deallocuvm ke k d z z' = Done (k', z')" using k'(1) True by (auto simp: deallocuvm_def dest: leD)
  have s: "space ke k' d" and dis: "own k' d \<inter> set ps' = {}" using k'(2) by (auto simp: managed_def)
  have t: "tabs k' d = tabs k d" using k'(6) by (auto simp: tabs_def)
  have "user_mem k' d va = (if cleared z z' va then 0 else user_mem k d va)" if va: "va < KERNBASE" for va
  proof (cases "cleared z z' va")
    case c: True
    then have "frame k' d (vpn va) = None" using k'(3) vpn_less(1) [of va] by (auto simp: cleared_vpn)
    then show ?thesis using c va by (simp add: user_mem_def)
  next
    case False
    then have p: "pte k' d (vpn va) = pte k d (vpn va)" using k'(3) vpn_less(1) [of va] True by (auto simp: cleared_vpn)
    have "byte k' q x = byte k q x" if "frame k' d (vpn va) = Some q" "x < 4096" for q x
    proof -
      have q: "q \<in> frames k' d" using frame_in [OF that(1)] va vpn_user by simp
      then have "q \<notin> tabs k d \<union> (set ps' - set ps)" using s t dis by (auto simp: space_def own_def)
      then show ?thesis using byte_only [OF k'(5) space_ok(6) [OF s q] _ that(2)] by simp
    qed
    then have "user_mem k' d va = user_mem k d va"
      using p by (intro user_mem_frame [OF va]) (simp split: option.splits)
    then show ?thesis using False by simp
  qed
  then show ?thesis using D k'(2,4) True by (intro exI [of _ k'] exI [of _ ps']) simp
qed

definition sbrk_fails :: "u32 \<Rightarrow> u32 \<Rightarrow> bool" where
  "sbrk_fails z n \<longleftrightarrow> n <s 0 \<and> (z = 0 \<or> z + n = 0)"

text \<open>A shrink whose first page is mapped to a page the allocator does not manage panics.\<close>

lemma dealloc_foreign:
  assumes m: "managed ke k d ps" and z: "z' < z" and f: "frame k d (vpn z') = Some q" "\<not> kfree_ok ke q"
  shows "deallocuvm ke k d z z' = Panic ''kfree''"
proof -
  let ?a = "PGROUNDDOWN z'"
  have a: "?a < z" "vpn ?a = vpn z'" using z by (auto simp: word_less_nat_alt unat_PGROUNDDOWN)
  obtain t where t: "tab k d (vpn z' div 1024) = Some t" using f(1) by (auto simp: pte_def frame_of_def split: option.splits)
  have "t \<in> own k d" using t vpn_less(2) [of z'] by (auto simp: own_def tabs_def)
  then have "slot t (vpn z' mod 1024) \<noteq> 0" using slot_nonzero [of ke t] m by (auto simp: managed_def space_def)
  then have "deallocuvm_page ke d ?a k = Panic ''kfree''"
    using walk_present [of k d ?a t False] t f a(2)
    by (auto simp: deallocuvm_page_def Let_def pte_def frame_of_def kfree_def split: if_splits)
  then have "page_loop (deallocuvm_page ke d) ?a z k = Panic ''kfree''" using a(1) by (subst page_loop.simps) simp
  then show ?thesis using z by (simp add: deallocuvm_def leD)
qed


text \<open>
  The page with the new end of the process: a process of size \<^verbatim>\<open>0x5C00\<close> calls
  \<^verbatim>\<open>sbrk(-0x400)\<close>; the byte at \<^verbatim>\<open>0x5105\<close>, far below the new end \<^verbatim>\<open>0x5800\<close>, is lost.
\<close>

lemma managed_data:
  assumes m: "managed ke k d ps" and O: "only {q} k k'" and q: "q \<in> frames k d" and f: "freelist k' = freelist k"
  shows "managed ke k' d ps" "n < 1048576 \<Longrightarrow> pte k' d n = pte k d n"
proof -
  have s: "space ke k d" and dis: "own k d \<inter> set ps = {}" and rep: "kmem_rep ke k ps" using m by (auto simp: managed_def)
  have "{q} \<inter> insert d (tabs k d) = {}" using s q by (auto simp: space_def)
  note v = view_cong [OF s O this]
  show "n < 1048576 \<Longrightarrow> pte k' d n = pte k d n" by (rule v(2))
  have "space ke k' d" "own k' d = own k d" using view_sets_cong [of k' d k] v s by simp_all
  moreover have "kmem_rep ke k' ps" using dis q by (intro kmem_rep_only [OF rep O _ f]) (auto simp: own_def)
  ultimately show "managed ke k' d ps" using m by (simp add: managed_def)
qed

lemma sbrk_setting:
  "\<exists>k d q ps. managed 0x80300000 k d ps \<and> frame k d 5 = Some q \<and>
     load32 (kmem_mem k) (q + 68) = 0x5100 \<and> load32 (kmem_mem k) (q + 260) = - 0x400"
proof -
  obtain k0 d ps where k0: "managed 0x80300000 k0 d ps" "frames k0 d = {}" "2 \<le> length ps" using kernel_space by blast
  then obtain q qs where ps: "ps = q # qs" "qs \<noteq> []" by (cases ps) (auto simp: Suc_le_eq)
  have n: "frame k0 d (vpn 0x5000) = None" using no_frames [OF k0(2), of 5] by simp
  have va: "page_aligned 0x5000" "vpn 0x5000 < 524288" by (simp_all add: page_aligned_def)
  from fault_maps [OF k0(1) [unfolded ps(1)] va n] ps(2) obtain k ps' where
    k: "managed 0x80300000 k d ps'" "frame k d 5 = Some q" by auto
  have q: "q \<in> frames k d" by (rule frame_in [OF k(2)]) simp
  have al: "page_aligned q" using k(1) q space_ok(6) by (auto simp: managed_def)
  let ?m = "store32 (store32 (kmem_mem k) (slot q 17) 0x5100) (slot q 65) (- 0x400)"
  let ?k = "k\<lparr>kmem_mem := ?m\<rparr>"
  have "only {q} k ?k" using store32_slot_other [OF al] by (simp add: only_def)
  note M = managed_data [OF k(1) this q]
  have "managed 0x80300000 ?k d ps'" "frame ?k d 5 = Some q" using M k(2) by simp_all
  moreover have "load32 ?m (slot q 17) = 0x5100" "load32 ?m (slot q 65) = - 0x400"
    using load32_store32_slot [OF al al, of 65 17] load32_store32_slot [OF al al, of 65 65] load32_store32_slot [OF al al, of 17 17] by simp_all
  moreover have "slot q 17 = q + 68" "slot q 65 = q + 260" by (simp_all add: slot_def)
  ultimately have "managed 0x80300000 ?k d ps' \<and> frame ?k d 5 = Some q \<and>
    load32 (kmem_mem ?k) (q + 68) = 0x5100 \<and> load32 (kmem_mem ?k) (q + 260) = - 0x400" by simp
  then show ?thesis by blast
qed

lemma load32_byte1: "m (a + 1) = ucast (drop_bit 8 (load32 m a))"
  by (rule bit_word_eqI) (auto simp: load32_def bit_simps dest: bit_imp_le_length)


end
