(* ===== verification/Printf.thy ===== *)
theory Printf
  imports Layout
begin

text \<open>
  The C library of user programs: \<^verbatim>\<open>printf.c\<close> and the string routines of
  \<^verbatim>\<open>ulib.c\<close>.  A C string is the list of its characters before the NUL.  An argument of
  \<^verbatim>\<open>printf\<close> is a word or a string, \<open>Str None\<close> the null pointer; a format that takes an
  argument that is missing or of the other kind is undefined in C.
\<close>

datatype parg = Word u32 | Str "string option"

subsection \<open>Numbers\<close>

text \<open>
  The digits of \<open>x\<close>, lowest first: the \<^verbatim>\<open>do\<close> loop of \<^verbatim>\<open>printint\<close>, which is
  called with base 10 and 16 only.
\<close>

function digit_loop :: "nat \<Rightarrow> nat \<Rightarrow> nat list" where
  "digit_loop base x = x mod base # (if x div base = 0 \<or> base < 2 then [] else digit_loop base (x div base))"
  by pat_completeness auto
termination by (relation "measure snd") (auto intro: div_less_dividend simp: div_eq_0_iff)

declare digit_loop.simps [simp del]

text \<open>\<^verbatim>\<open>printint\<close> with a table of digits; the characters come out of \<^verbatim>\<open>buf\<close> in reverse order.\<close>

definition int_text :: "string \<Rightarrow> u32 \<Rightarrow> nat \<Rightarrow> bool \<Rightarrow> string" where
  "int_text digits xx base sign =
     (let neg = (sign \<and> sint xx < 0);
          x = (if neg then - xx else xx);
          buf = map (\<lambda>d. digits ! d) (digit_loop base (unat x)) @ (if neg then ''-'' else [])
      in rev buf)"

definition upper_digits :: string where "upper_digits = ''0123456789ABCDEF''"

definition printint :: "u32 \<Rightarrow> nat \<Rightarrow> bool \<Rightarrow> string" where
  "printint xx base sign = int_text upper_digits xx base sign"

fun atoi_loop :: "u32 \<Rightarrow> string \<Rightarrow> u32" where
  "atoi_loop n [] = n"
| "atoi_loop n (c # s) =
     (if of_char CHR ''0'' \<le> (of_char c :: nat) \<and> (of_char c :: nat) \<le> of_char CHR ''9''
      then atoi_loop (n * 10 + of_char c - of_char CHR ''0'') s else n)"

definition atoi :: "string \<Rightarrow> int" where
  "atoi s = sint (atoi_loop 0 s)"

subsection \<open>Formatted output\<close>

definition emit :: "string \<Rightarrow> string outcome \<Rightarrow> string outcome" where
  "emit cs m = and_then m (\<lambda>out. Done (cs @ out))"

text \<open>The loop of \<^verbatim>\<open>printf\<close>; \<open>pct\<close> says that \<^verbatim>\<open>state\<close> is \<^verbatim>\<open>'%'\<close>.\<close>

fun printf_loop :: "bool \<Rightarrow> string \<Rightarrow> parg list \<Rightarrow> string outcome" where
  "printf_loop pct [] ap = Done []"
| "printf_loop False (c # fmt) ap =
     (if c = CHR ''%'' then printf_loop True fmt ap else emit [c] (printf_loop False fmt ap))"
| "printf_loop True (c # fmt) ap =
     (if c = CHR ''d''
      then (case ap of Word x # ap \<Rightarrow> emit (printint x 10 True) (printf_loop False fmt ap) | _ \<Rightarrow> Fault)
      else if c = CHR ''x'' \<or> c = CHR ''p''
      then (case ap of Word x # ap \<Rightarrow> emit (printint x 16 False) (printf_loop False fmt ap) | _ \<Rightarrow> Fault)
      else if c = CHR ''s''
      then (case ap of
              Str s # ap \<Rightarrow> emit (case s of None \<Rightarrow> ''(null)'' | Some s \<Rightarrow> s) (printf_loop False fmt ap)
            | _ \<Rightarrow> Fault)
      else if c = CHR ''c''
      then (case ap of Word x # ap \<Rightarrow> emit [char_of (unat x)] (printf_loop False fmt ap) | _ \<Rightarrow> Fault)
      else if c = CHR ''%'' then emit [c] (printf_loop False fmt ap)
      else emit [CHR ''%'', c] (printf_loop False fmt ap))"

definition printf :: "string \<Rightarrow> parg list \<Rightarrow> string outcome" where
  "printf fmt args = printf_loop False fmt args"

subsection \<open>Strings\<close>

fun strcmp :: "string \<Rightarrow> string \<Rightarrow> int" where
  "strcmp (a # p) (b # q) = (if a = b then strcmp p q else of_char a - of_char b)"
| "strcmp (a # p) [] = of_char a"
| "strcmp [] (b # q) = - of_char b"
| "strcmp [] [] = 0"

text \<open>
  \<^verbatim>\<open>gets\<close>: \<open>inp\<close> are the characters \<^verbatim>\<open>read\<close> still delivers, one at a time;
  \<open>room\<close> is how many more fit before the NUL.
\<close>

fun gets_loop :: "nat \<Rightarrow> string \<Rightarrow> string \<times> string" where
  "gets_loop 0 inp = ([], inp)"
| "gets_loop (Suc room) [] = ([], [])"
| "gets_loop (Suc room) (c # inp) =
     (if c = CHR 0x0A \<or> c = CHR 0x0D then ([c], inp)
      else let (s, rest) = gets_loop room inp in (c # s, rest))"

definition gets :: "nat \<Rightarrow> string \<Rightarrow> string \<times> string" where
  "gets n inp = gets_loop (n - 1) inp"

lemma gets_splits: "gets_loop n inp = (s, rest) \<Longrightarrow> inp = s @ rest \<and> length s \<le> n"
  by (induction n inp arbitrary: s rest rule: gets_loop.induct) (auto split: if_splits prod.splits)

lemma of_char_NUL: "(of_char c :: int) = 0 \<longleftrightarrow> c = CHR 0x00"
  using of_char_eq_iff [of c "CHR 0x00", where 'a = int] by simp

lemma strcmp_eq: "CHR 0x00 \<notin> set p \<Longrightarrow> CHR 0x00 \<notin> set q \<Longrightarrow> strcmp p q = 0 \<longleftrightarrow> p = q"
  by (induction p q rule: strcmp.induct) (auto simp: of_char_NUL)

subsection \<open>Reading back what was printed\<close>

definition number :: "nat \<Rightarrow> nat list \<Rightarrow> nat" where
  "number base ds = foldr (\<lambda>d n. d + base * n) ds 0"

lemma number_simps [simp]: "number base [] = 0" "number base (d # ds) = d + base * number base ds"
  by (simp_all add: number_def)

lemma digit_loop_number: "2 \<le> base \<Longrightarrow> number base (digit_loop base x) = x"
proof (induction base x rule: digit_loop.induct)
  case (1 base x)
  then show ?case by (subst digit_loop.simps) (auto simp: div_eq_0_iff)
qed

lemma digit_loop_digits: "2 \<le> base \<Longrightarrow> d \<in> set (digit_loop base x) \<Longrightarrow> d < base"
proof (induction base x rule: digit_loop.induct)
  case (1 base x)
  from 1(3) show ?case by (subst (asm) digit_loop.simps) (use 1 in \<open>auto split: if_splits\<close>)
qed

lemma digit_loop_top:
  assumes "2 \<le> base" shows "digit_loop base x \<noteq> [] \<and> (last (digit_loop base x) = 0 \<longrightarrow> x = 0)"
  using assms
proof (induction base x rule: digit_loop.induct)
  case (1 base x)
  show ?case
  proof (cases "x div base = 0")
    case True
    with 1(2) have "x < base" by (simp add: div_eq_0_iff)
    then show ?thesis using True by (subst (1 2) digit_loop.simps) simp
  next
    case False
    with 1(1) [OF _ 1(2)] 1(2) show ?thesis by (subst (1 2) digit_loop.simps) auto
  qed
qed

lemma digit_loop_length: "2 \<le> base \<Longrightarrow> x < base ^ Suc n \<Longrightarrow> length (digit_loop base x) \<le> Suc n"
proof (induction n arbitrary: x)
  case 0
  then show ?case by (subst digit_loop.simps) simp
next
  case (Suc n)
  then have "x div base < base ^ Suc n" by (simp add: less_mult_imp_div_less mult.commute)
  from Suc.IH [OF Suc.prems(1) this] show ?case by (subst digit_loop.simps) simp
qed

text \<open>The value of a text of decimal digits, highest first.\<close>

definition decimal :: "string \<Rightarrow> nat" where
  "decimal s = foldl (\<lambda>n c. 10 * n + (of_char c - 48)) 0 s"

definition is_digit :: "char \<Rightarrow> bool" where
  "is_digit c \<longleftrightarrow> 48 \<le> (of_char c :: nat) \<and> (of_char c :: nat) \<le> 57"

definition canonical :: "string \<Rightarrow> bool" where
  "canonical s \<longleftrightarrow> s \<noteq> [] \<and> list_all is_digit s \<and> (hd s = CHR ''0'' \<longrightarrow> s = ''0'')"

lemma decimal_snoc [simp]: "decimal [] = 0" "decimal (s @ [c]) = 10 * decimal s + (of_char c - 48)"
  by (simp_all add: decimal_def)

lemma digit_table:
  "list_all (\<lambda>d. (of_char (upper_digits ! d) :: nat) = 48 + d \<and> (upper_digits ! d = CHR ''0'') = (d = 0)) [0..<10]"
  by code_simp

lemma digit_char:
  assumes "d < 10"
  shows "(of_char (upper_digits ! d) :: nat) = 48 + d" "upper_digits ! d = CHR ''0'' \<longleftrightarrow> d = 0"
  using digit_table assms by (auto simp: list_all_iff)

lemma decimal_digits:
  assumes "\<forall>d\<in>set ds. d < 10"
  shows "decimal (rev (map (\<lambda>d. upper_digits ! d) ds)) = number 10 ds"
  using assms by (induction ds) (auto simp: digit_char)

lemma canonical_digits: "canonical (rev (map (\<lambda>d. upper_digits ! d) (digit_loop 10 x)))"
proof -
  let ?f = "\<lambda>d. upper_digits ! d"
  have d: "\<forall>d\<in>set (digit_loop 10 x). d < 10" using digit_loop_digits [of 10 _ x] by auto
  have n: "digit_loop 10 x \<noteq> []" "last (digit_loop 10 x) = 0 \<longrightarrow> x = 0" using digit_loop_top [of 10 x] by auto
  have "hd (rev (map ?f (digit_loop 10 x))) = ?f (last (digit_loop 10 x))" using n(1) by (simp add: hd_rev last_map)
  moreover have "?f (last (digit_loop 10 x)) = CHR ''0'' \<longrightarrow> x = 0" using n(2) digit_char(2) [OF d [rule_format, OF last_in_set [OF n(1)]]] by simp
  moreover have "list_all is_digit (rev (map ?f (digit_loop 10 x)))"
    using d digit_char(1) by (auto simp: list_all_iff is_digit_def)
  moreover have "rev (map ?f (digit_loop 10 0)) = ''0''" by (subst digit_loop.simps) (simp add: upper_digits_def)
  ultimately show ?thesis using n(1) unfolding canonical_def by auto
qed

lemma atoi_loop_digits:
  "list_all is_digit s \<Longrightarrow> atoi_loop (of_nat m) s = of_nat (foldl (\<lambda>n c. 10 * n + (of_char c - 48)) m s)"
proof (induction s arbitrary: m)
  case (Cons c s)
  have c: "48 \<le> (of_char c :: nat)" "(of_char c :: nat) \<le> 57" using Cons.prems by (auto simp: is_digit_def)
  have z: "(of_char CHR ''0'' :: nat) = 48" "(of_char CHR ''9'' :: nat) = 57" "(of_char CHR ''0'' :: u32) = 48" by (simp_all add: of_char_def)
  have "(of_char c :: u32) = of_nat (of_char c)" by (simp add: of_char_def)
  then have e: "of_nat m * 10 + of_char c - of_char CHR ''0'' = (of_nat (10 * m + (of_char c - 48)) :: u32)"
    using c z by (simp add: of_nat_diff)
  have "atoi_loop (of_nat m) (c # s) = atoi_loop (of_nat m * 10 + of_char c - of_char CHR ''0'') s" using c z by simp
  also have "\<dots> = of_nat (foldl (\<lambda>n c. 10 * n + (of_char c - 48)) (10 * m + (of_char c - 48)) s)"
    unfolding e using Cons.prems by (intro Cons.IH) simp
  finally show ?case by simp
qed simp

lemma printint_decimal:
  "sint x < 0 \<Longrightarrow> printint x 10 True = CHR ''-'' # rev (map (\<lambda>d. upper_digits ! d) (digit_loop 10 (unat (- x))))"
  "\<not> sint x < 0 \<Longrightarrow> printint x 10 True = rev (map (\<lambda>d. upper_digits ! d) (digit_loop 10 (unat x)))"
  by (simp_all add: printint_def int_text_def)

lemma sint_range: "sint (x :: u32) = (if unat x < 2147483648 then int (unat x) else int (unat x) - 4294967296)"
proof -
  have e: "uint x = int (unat x)" by (rule uint_nat)
  have s: "sint x = (uint x + 2147483648) mod 4294967296 - 2147483648"
    using int_word_sint [of "uint x", where 'a = 32] by simp
  have u: "unat x < 4294967296" using unat_less_32 [of x] by simp
  show ?thesis
  proof (cases "unat x < 2147483648")
    case True
    then have "0 \<le> uint x" "uint x < 2147483648" using e by linarith+
    then show ?thesis using mod_pos_pos_trivial [of "uint x + 2147483648" 4294967296] s True by simp
  next
    case False
    then have b: "2147483648 \<le> uint x" "uint x < 4294967296" using e u by linarith+
    have "(uint x + 2147483648) mod 4294967296 = (uint x - 2147483648 + 4294967296) mod 4294967296" by (simp add: add.commute)
    also have "\<dots> = uint x - 2147483648" unfolding mod_add_self2 using b by (intro mod_pos_pos_trivial) auto
    finally show ?thesis using False s by simp
  qed
qed

lemma unat_neg: "sint (x :: u32) < 0 \<Longrightarrow> int (unat (- x)) = - sint x"
proof -
  assume "sint x < 0"
  then have x: "\<not> unat x < 2147483648" "sint x = int (unat x) - 4294967296" by (auto simp: sint_range split: if_splits)
  have u: "unat x < 4294967296" using unat_less_32 [of x] by simp
  have "- x = of_nat (4294967296 - unat x)" using u by (simp add: of_nat_diff)
  then have "unat (- x) = 4294967296 - unat x" using x(1) by (simp add: unat_of_nat)
  then show ?thesis using x(2) u by simp
qed

text \<open>
  C36: \<^verbatim>\<open>printf("%d")\<close> prints every 32-bit integer, the least one included, as its decimal
  text: digits without leading zeros, after a minus sign exactly when the number is negative, that
  denote its absolute value; the text fits the 16 characters of \<^verbatim>\<open>buf\<close>.  For a
  number that is not negative \<^verbatim>\<open>atoi\<close> reads the text back; \<^verbatim>\<open>atoi\<close> does not know the sign.
\<close>

theorem printf_atoi_round_trip:
  "\<exists>t ds. printf ''%d'' [Word x] = Done t \<and> t = (if sint x < 0 then ''-'' else []) @ ds \<and> canonical ds \<and>
     int (decimal ds) = \<bar>sint x\<bar> \<and> length t \<le> 16 \<and> atoi t = (if sint x < 0 then 0 else sint x)"
proof -
  let ?ds = "rev (map (\<lambda>d. upper_digits ! d) (digit_loop 10 (unat (if sint x < 0 then - x else x))))"
  have t: "printint x 10 True = (if sint x < 0 then ''-'' else []) @ ?ds" using printint_decimal [of x] by simp
  have D: "decimal ?ds = unat (if sint x < 0 then - x else x)"
    using digit_loop_digits [of 10] by (subst decimal_digits) (auto simp: digit_loop_number)
  have "\<not> sint x < 0 \<Longrightarrow> int (unat x) = sint x" using unat_less_32 [of x] by (auto simp: sint_range split: if_splits)
  then have v: "int (decimal ?ds) = \<bar>sint x\<bar>" using D unat_neg [of x] by auto
  have "length (digit_loop 10 (unat (if sint x < 0 then - x else x))) \<le> Suc 9"
    by (rule digit_loop_length) (use unat_less_32 [of "if sint x < 0 then - x else x"] in auto)
  then have l: "length (printint x 10 True) \<le> 16" unfolding t by (auto split: if_splits)
  have "atoi (printint x 10 True) = (if sint x < 0 then 0 else sint x)"
  proof (cases "sint x < 0")
    case True
    then show ?thesis using t by (simp add: atoi_def of_char_def)
  next
    case False
    have "list_all is_digit ?ds" using canonical_digits by (simp only: canonical_def)
    from atoi_loop_digits [OF this, of 0] have "atoi_loop (of_nat 0) ?ds = of_nat (decimal ?ds)" unfolding decimal_def .
    also have "\<dots> = x" using D False by simp
    finally have "atoi_loop 0 (printint x 10 True) = x" using t False by simp
    then show ?thesis using False by (simp add: atoi_def)
  qed
  moreover have "printf ''%d'' [Word x] = Done (printint x 10 True)" by (simp add: printf_def emit_def)
  ultimately show ?thesis using t v l canonical_digits by blast
qed

end
