(* ===== verification/Console.thy ===== *)
theory Console
  imports Printf Proc_Effects
begin

text \<open>
  The console, \<^verbatim>\<open>console.c\<close>, with \<^verbatim>\<open>procdump\<close> of \<^verbatim>\<open>proc.c\<close>, which it calls.
  The serial port and the screen are what they have been sent: \<open>uart\<close> the
  characters given to \<^verbatim>\<open>uartputc\<close> and \<open>screen\<close> the calls of \<^verbatim>\<open>font_render\<close> and
  \<^verbatim>\<open>graphic_scroll_up\<close>, last first.  The rest of the state is that of the code: the lock, the flags,
  the position on the screen and the input buffer with its three indices, which are never reset and
  wrap at \<open>2 ^ 32\<close>.
\<close>

datatype drawing = Font_render int int int | Scroll_up int

record console =
  cpst :: pstate
  conslock :: spinlock
  locking :: bool
  panicked :: bool
  console_pos :: int
  uart :: "int list"
  screen :: "drawing list"
  ibuf :: "char list"
  ir :: u32
  iw :: u32
  ie :: u32

definition BACKSPACE :: int where "BACKSPACE = 0x100"
definition CONSOLE_HORIZONTAL_MAX :: int where "CONSOLE_HORIZONTAL_MAX = 53"
definition CONSOLE_VERTICAL_MAX :: int where "CONSOLE_VERTICAL_MAX = 20"
definition FONT_WIDTH :: int where "FONT_WIDTH = 15"
definition FONT_HEIGHT :: int where "FONT_HEIGHT = 30"
definition INPUT_BUF :: nat where "INPUT_BUF = 128"

text \<open>\<^verbatim>\<open>C(x)\<close>: the control character of a letter.\<close>

definition Ctl :: "char \<Rightarrow> char" where "Ctl x = char_of (of_char x - of_char CHR ''@'' :: nat)"

abbreviation newline :: char where "newline \<equiv> CHR 0x0A"

subsection \<open>Output\<close>

definition scroll :: "console \<Rightarrow> console" where
  "scroll s = s\<lparr>console_pos := console_pos s - CONSOLE_HORIZONTAL_MAX, screen := Scroll_up 30 # screen s\<rparr>"

definition graphic_putc :: "int \<Rightarrow> console \<Rightarrow> console" where
  "graphic_putc c s =
     (if c = of_char newline
      then let s = s\<lparr>console_pos := console_pos s + (CONSOLE_HORIZONTAL_MAX - console_pos s mod CONSOLE_HORIZONTAL_MAX)\<rparr>
        in if console_pos s \<ge> CONSOLE_VERTICAL_MAX * CONSOLE_HORIZONTAL_MAX then scroll s else s
      else if c = BACKSPACE
      then if console_pos s > 0 then s\<lparr>console_pos := console_pos s - 1\<rparr> else s
      else let s = (if console_pos s \<ge> CONSOLE_VERTICAL_MAX * CONSOLE_HORIZONTAL_MAX then scroll s else s);
               x = (console_pos s mod CONSOLE_HORIZONTAL_MAX) * FONT_WIDTH + 2;
               y = (console_pos s div CONSOLE_HORIZONTAL_MAX) * FONT_HEIGHT
        in s\<lparr>screen := Font_render x y c # screen s, console_pos := console_pos s + 1\<rparr>)"

definition uartputc :: "int \<Rightarrow> console \<Rightarrow> console" where
  "uartputc c s = s\<lparr>uart := c # uart s\<rparr>"

text \<open>After a panic \<^verbatim>\<open>consputc\<close> stops the processor.\<close>

definition consputc :: "int \<Rightarrow> console \<Rightarrow> console outcome" where
  "consputc c s =
     (if panicked s then Wait
      else let s = (if c = BACKSPACE then uartputc 8 (uartputc 32 (uartputc 8 s)) else uartputc c s)
        in Done (graphic_putc c s))"

text \<open>A \<^verbatim>\<open>char\<close> that is passed to \<^verbatim>\<open>consputc(int)\<close> is sign-extended.\<close>

definition char_int :: "char \<Rightarrow> int" where
  "char_int c = sint (of_char c :: u8)"

definition consputs :: "string \<Rightarrow> console \<Rightarrow> console outcome" where
  "consputs cs = each (\<lambda>c. consputc (char_int c)) cs"

definition lower_digits :: string where "lower_digits = ''0123456789abcdef''"

definition cons_printint :: "u32 \<Rightarrow> nat \<Rightarrow> bool \<Rightarrow> console \<Rightarrow> console outcome" where
  "cons_printint xx base sign s = consputs (int_text lower_digits xx base sign) s"

definition acquire_cons :: "u8 \<Rightarrow> console \<Rightarrow> console outcome" where
  "acquire_cons a s =
     and_then (acquire (mach (cpst s)) (conslock s) a) (\<lambda>(M, lk). Done (s\<lparr>cpst := (cpst s)\<lparr>mach := M\<rparr>, conslock := lk\<rparr>))"

definition release_cons :: "u8 \<Rightarrow> console \<Rightarrow> console outcome" where
  "release_cons a s =
     and_then (release (mach (cpst s)) (conslock s) a) (\<lambda>(M, lk). Done (s\<lparr>cpst := (cpst s)\<lparr>mach := M\<rparr>, conslock := lk\<rparr>))"

text \<open>
  The loop of \<^verbatim>\<open>cprintf\<close>.  A character of the format is masked to 8 bits before it is printed;
  a character of a string argument is not.
\<close>

fun cprintf_loop :: "string \<Rightarrow> parg list \<Rightarrow> console \<Rightarrow> console outcome" where
  "cprintf_loop [] ap s = Done s"
| "cprintf_loop (c # fmt) ap s =
     (if c \<noteq> CHR ''%'' then and_then (consputc (of_char c) s) (cprintf_loop fmt ap)
      else case fmt of
        [] \<Rightarrow> Done s
      | d # fmt \<Rightarrow>
          if d = CHR ''d''
          then (case ap of Word x # ap \<Rightarrow> and_then (cons_printint x 10 True s) (cprintf_loop fmt ap) | _ \<Rightarrow> Fault)
          else if d = CHR ''x'' \<or> d = CHR ''p''
          then (case ap of Word x # ap \<Rightarrow> and_then (cons_printint x 16 False s) (cprintf_loop fmt ap) | _ \<Rightarrow> Fault)
          else if d = CHR ''s''
          then (case ap of
                  Str t # ap \<Rightarrow> and_then (consputs (case t of None \<Rightarrow> ''(null)'' | Some t \<Rightarrow> t) s) (cprintf_loop fmt ap)
                | _ \<Rightarrow> Fault)
          else if d = CHR ''%'' then and_then (consputc (of_char d) s) (cprintf_loop fmt ap)
          else and_then (consputc (of_char CHR ''%'') s) (\<lambda>s. and_then (consputc (of_char d) s) (cprintf_loop fmt ap)))"

definition cprintf :: "u8 \<Rightarrow> string option \<Rightarrow> parg list \<Rightarrow> console \<Rightarrow> console outcome" where
  "cprintf a fmt args s =
     (let l = locking s in
      and_then (if l then acquire_cons a s else Done s) (\<lambda>s.
      case fmt of
        None \<Rightarrow> Panic ''null fmt''
      | Some fmt \<Rightarrow>
          and_then (cprintf_loop fmt args s) (\<lambda>s. if l then release_cons a s else Done s)))"

text \<open>
  \<^verbatim>\<open>panic\<close>, up to the endless loop it ends in: the state every other processor finds.  \<open>st\<close> is
  the kernel stack and \<open>v\<close> the address of the argument on it.
\<close>

definition panic :: "u8 \<Rightarrow> (u32 \<Rightarrow> u32) \<Rightarrow> u32 \<Rightarrow> string \<Rightarrow> console \<Rightarrow> console outcome" where
  "panic a st v msg s =
     (let s = s\<lparr>cpst := (cpst s)\<lparr>mach := cli (mach (cpst s)) a\<rparr>, locking := False\<rparr> in
      and_then (cprintf a (Some ''lapicid %d: panic: '') [Word (ucast a)] s) (\<lambda>s.
      and_then (cprintf a (Some msg) [] s) (\<lambda>s.
      and_then (cprintf a (Some [newline]) [] s) (\<lambda>s.
      and_then (each (\<lambda>pc. cprintf a (Some '' %p'') [Word pc]) (getcallerpcs st v) s) (\<lambda>s.
      Done (s\<lparr>panicked := True\<rparr>))))))"

subsection \<open>The process listing\<close>

definition context_ebp :: u32 where "context_ebp = 12"

fun state_name :: "procstate \<Rightarrow> string" where
  "state_name UNUSED = ''unused''"
| "state_name EMBRYO = ''embryo''"
| "state_name SLEEPING = ''sleep ''"
| "state_name RUNNABLE = ''runble''"
| "state_name RUNNING = ''run   ''"
| "state_name ZOMBIE = ''zombie''"

definition procdump_one :: "u8 \<Rightarrow> proc \<Rightarrow> console \<Rightarrow> console outcome" where
  "procdump_one a p s =
     (if state p = UNUSED then Done s
      else
        and_then (cprintf a (Some ''%d %s %s'') [Word (word_of_int (pid p)), Str (Some (state_name (state p))), Str (Some (pname p))] s) (\<lambda>s.
        and_then
          (if state p = SLEEPING
           then let m = load32 (kmem_mem (km (cpst s)));
                    pc = getcallerpcs m (m (pcontext p + context_ebp) + 8)
             in each (\<lambda>pc. cprintf a (Some '' %p'') [Word pc]) (takeWhile (\<lambda>pc. pc \<noteq> 0) pc) s
           else Done s) (\<lambda>s.
        cprintf a (Some [newline]) [] s)))"

definition procdump :: "u8 \<Rightarrow> console \<Rightarrow> console outcome" where
  "procdump a s = each (procdump_one a) (procs (cpst s)) s"

subsection \<open>Input\<close>

definition input_at :: "console \<Rightarrow> u32 \<Rightarrow> char" where
  "input_at s i = ibuf s ! (unat i mod INPUT_BUF)"

lemma consputc_frame:
  assumes "consputc c s = Done t"
  shows "cpst t = cpst s" "conslock t = conslock s" "locking t = locking s" "panicked t = panicked s"
    "ibuf t = ibuf s" "ir t = ir s" "iw t = iw s" "ie t = ie s"
  using assms by (auto simp: consputc_def graphic_putc_def uartputc_def scroll_def Let_def split: if_splits)

lemma index_down: "(e :: u32) \<noteq> w \<Longrightarrow> unat (e - 1 - w) < unat (e - w)"
  using unat_minus_one [of "e - w"] unat_gt_0 [of "e - w"] by (simp add: diff_right_commute del: unat_gt_0)

text \<open>Control-U.\<close>

function kill_line :: "console \<Rightarrow> console outcome" where
  "kill_line s =
     (if ie s \<noteq> iw s \<and> input_at s (ie s - 1) \<noteq> newline
      then and_then (consputc BACKSPACE (s\<lparr>ie := ie s - 1\<rparr>)) kill_line
      else Done s)"
  by pat_completeness auto
termination
proof (relation "measure (\<lambda>s. unat (ie s - iw s))")
  fix s t :: console
  assume "ie s \<noteq> iw s \<and> input_at s (ie s - 1) \<noteq> newline" "consputc BACKSPACE (s\<lparr>ie := ie s - 1\<rparr>) = Done t"
  then show "(t, s) \<in> measure (\<lambda>s. unat (ie s - iw s))"
    using consputc_frame(7,8) [of BACKSPACE "s\<lparr>ie := ie s - 1\<rparr>" t] index_down [of "ie s" "iw s"] by simp
qed simp

declare kill_line.simps [simp del]

definition put_char :: "u8 \<Rightarrow> char \<Rightarrow> console \<Rightarrow> console outcome" where
  "put_char a c s =
     (if c \<noteq> CHR 0x00 \<and> unat (ie s - ir s) < INPUT_BUF
      then let c = (if c = CHR 0x0D then newline else c);
               s = s\<lparr>ibuf := (ibuf s)[unat (ie s) mod INPUT_BUF := c], ie := ie s + 1\<rparr>
        in and_then (consputc (of_char c) s) (\<lambda>s.
           if c = newline \<or> c = Ctl CHR ''D'' \<or> ie s = ir s + of_nat INPUT_BUF
           then let s = s\<lparr>iw := ie s\<rparr> in and_then (wakeup a Chan_input (cpst s)) (\<lambda>p. Done (s\<lparr>cpst := p\<rparr>))
           else Done s)
      else Done s)"

text \<open>
  The loop of \<^verbatim>\<open>consoleintr\<close>: \<open>cs\<close> are the bytes \<^verbatim>\<open>getc\<close> returns before it
  returns -1; the result says whether a process listing was asked for.
\<close>

fun consoleintr_loop :: "u8 \<Rightarrow> char list \<Rightarrow> bool \<Rightarrow> console \<Rightarrow> (console \<times> bool) outcome" where
  "consoleintr_loop a [] doprocdump s = Done (s, doprocdump)"
| "consoleintr_loop a (c # cs) doprocdump s =
     (if c = Ctl CHR ''P'' then consoleintr_loop a cs True s
      else if c = Ctl CHR ''U'' then and_then (kill_line s) (consoleintr_loop a cs doprocdump)
      else if c = Ctl CHR ''H'' \<or> c = CHR 0x7F
      then if ie s \<noteq> iw s
        then and_then (consputc BACKSPACE (s\<lparr>ie := ie s - 1\<rparr>)) (consoleintr_loop a cs doprocdump)
        else consoleintr_loop a cs doprocdump s
      else and_then (put_char a c s) (consoleintr_loop a cs doprocdump))"

definition consoleintr :: "u8 \<Rightarrow> char list \<Rightarrow> console \<Rightarrow> console outcome" where
  "consoleintr a cs s =
     and_then (acquire_cons a s) (\<lambda>s.
     and_then (consoleintr_loop a cs False s) (\<lambda>(s, doprocdump).
     and_then (release_cons a s) (\<lambda>s.
     if doprocdump then procdump a s else Done s)))"

text \<open>
  \<^verbatim>\<open>consoleread\<close>, between two sleeps: the bytes copied, and how many are still wanted when
  the buffer is empty (\<open>None\<close> when the call is over).
\<close>

fun read_loop :: "nat \<Rightarrow> nat \<Rightarrow> console \<Rightarrow> console \<times> char list \<times> nat option" where
  "read_loop target 0 s = (s, [], None)"
| "read_loop target (Suc n) s =
     (if ir s = iw s then (s, [], Some (Suc n))
      else let c = input_at s (ir s); t = s\<lparr>ir := ir s + 1\<rparr> in
        if c = Ctl CHR ''D''
        then (if Suc n < target then t\<lparr>ir := ir t - 1\<rparr> else t, [], None)
        else if c = newline then (t, [c], None)
        else let (u, cs, blocked) = read_loop target n t in (u, c # cs, blocked))"

datatype console_turn = Read_returns int | Read_sleeps nat bool

text \<open>
  One turn of process \<open>i\<close> with the lock held, \<open>n\<close> bytes still wanted of \<open>target\<close>; and what comes
  before the first turn and after each sleep.  The lock of the console's inode, which \<^verbatim>\<open>consoleread\<close>
  and \<^verbatim>\<open>consolewrite\<close> give up meanwhile, is not part of this state.
\<close>

definition consoleread_turn :: "u8 \<Rightarrow> nat \<Rightarrow> nat \<Rightarrow> nat \<Rightarrow> console \<Rightarrow> (console \<times> char list \<times> console_turn) outcome" where
  "consoleread_turn a i target n s =
     (case read_loop target n s of
        (s, cs, None) \<Rightarrow>
          and_then (release_cons a s) (\<lambda>s. Done (s, cs, Read_returns (int target - (int n - int (length cs)))))
      | (s, cs, Some m) \<Rightarrow>
          if killed (procs (cpst s) ! i)
          then and_then (release_cons a s) (\<lambda>s. Done (s, cs, Read_returns (- 1)))
          else and_then (sleep_enter a Chan_input (Other_lock (conslock s)) (cpst s)) (\<lambda>(p, lk, ena).
               Done (s\<lparr>cpst := p, conslock := (case lk of Other_lock l \<Rightarrow> l | _ \<Rightarrow> conslock s)\<rparr>, cs, Read_sleeps m ena)))"

definition consoleread_start :: "u8 \<Rightarrow> nat \<Rightarrow> int \<Rightarrow> console \<Rightarrow> (console \<times> char list \<times> console_turn) outcome" where
  "consoleread_start a i n s = and_then (acquire_cons a s) (consoleread_turn a i (nat n) (nat n))"

definition consoleread_wake :: "u8 \<Rightarrow> nat \<Rightarrow> nat \<Rightarrow> nat \<Rightarrow> bool \<Rightarrow> console \<Rightarrow> (console \<times> char list \<times> console_turn) outcome" where
  "consoleread_wake a i target n ena s =
     and_then (sleep_leave a i (Other_lock (conslock s)) ena (cpst s)) (\<lambda>(p, lk).
     consoleread_turn a i target n (s\<lparr>cpst := p, conslock := (case lk of Other_lock l \<Rightarrow> l | _ \<Rightarrow> conslock s)\<rparr>))"

definition consolewrite :: "u8 \<Rightarrow> char list \<Rightarrow> int \<Rightarrow> console \<Rightarrow> (console \<times> int) outcome" where
  "consolewrite a buf n s =
     and_then (acquire_cons a s) (\<lambda>s.
     and_then (each (\<lambda>i s. and_then (at_index buf i) (\<lambda>c. consputc (of_char c) s)) [0..<nat n] s) (\<lambda>s.
     and_then (release_cons a s) (\<lambda>s.
     Done (s, n))))"

definition consoleinit :: "console \<Rightarrow> console" where
  "consoleinit s =
     (let s = s\<lparr>panicked := False, conslock := initlock ''console'' (conslock s)\<rparr>;
          s = fold (\<lambda>c. graphic_putc (char_int c)) (''Starting XV6_UEFI...'' @ [newline]) s
      in s\<lparr>locking := True\<rparr>)"

subsection \<open>The keyboard\<close>

text \<open>
  \<^verbatim>\<open>kbd.c\<close> and the tables of \<^verbatim>\<open>kbd.h\<close>: the entries up to the first
  one given by its index, then the ones given by their index; every other entry is 0.
\<close>

definition SHIFT :: u32 where "SHIFT = 1"
definition CTL :: u32 where "CTL = 2"
definition ALT :: u32 where "ALT = 4"
definition CAPSLOCK :: u32 where "CAPSLOCK = 8"
definition NUMLOCK :: u32 where "NUMLOCK = 16"
definition SCROLLLOCK :: u32 where "SCROLLLOCK = 32"
definition E0ESC :: u32 where "E0ESC = 64"
definition KBS_DIB :: u8 where "KBS_DIB = 1"

definition shiftcode :: "nat \<Rightarrow> u32" where
  "shiftcode i =
     (if i = 0x1D \<or> i = 0x9D then CTL else if i = 0x2A \<or> i = 0x36 then SHIFT else if i = 0x38 \<or> i = 0xB8 then ALT else 0)"

definition togglecode :: "nat \<Rightarrow> u32" where
  "togglecode i = (if i = 0x3A then CAPSLOCK else if i = 0x45 then NUMLOCK else if i = 0x46 then SCROLLLOCK else 0)"

definition special_keys :: "(nat \<times> char) list" where
  "special_keys =
     [(0xC8, CHR 0xE2), (0xD0, CHR 0xE3), (0xC9, CHR 0xE6), (0xD1, CHR 0xE7), (0xCB, CHR 0xE4), (0xCD, CHR 0xE5),
      (0x97, CHR 0xE0), (0xCF, CHR 0xE1), (0xD2, CHR 0xE8), (0xD3, CHR 0xE9)]"

definition keymap :: "string \<Rightarrow> (nat \<times> char) list \<Rightarrow> nat \<Rightarrow> char" where
  "keymap front indexed i =
     (if i < length front then front ! i else case map_of indexed i of Some c \<Rightarrow> c | None \<Rightarrow> CHR 0x00)"

abbreviation NO :: char where "NO \<equiv> CHR 0x00"

definition keypad :: string where "keypad = replicate 7 NO @ ''789-456+1230.'' @ replicate 4 NO"

definition normalmap :: "nat \<Rightarrow> char" where
  "normalmap = keymap
     ([NO, CHR 0x1B] @ ''1234567890-='' @ [CHR 0x08, CHR 0x09] @
      ''qwertyuiop[]'' @ [newline, NO] @ ''asdfghjkl;'' @ [CHR 0x27, CHR 0x60, NO, CHR 0x5C] @
      ''zxcvbnm,./'' @ [NO, CHR ''*'', NO, CHR '' ''] @ replicate 6 NO @ keypad)
     ([(0x9C, newline), (0xB5, CHR ''/'')] @ special_keys)"

definition shiftmap :: "nat \<Rightarrow> char" where
  "shiftmap = keymap
     ([NO, CHR 0x1B] @ ''!@#$%^&*()_+'' @ [CHR 0x08, CHR 0x09] @
      ''QWERTYUIOP{}'' @ [newline, NO] @ ''ASDFGHJKL:'' @ [CHR 0x22, CHR ''~'', NO, CHR ''|''] @
      ''ZXCVBNM<>?'' @ [NO, CHR ''*'', NO, CHR '' ''] @ replicate 6 NO @ keypad)
     ([(0x9C, newline), (0xB5, CHR ''/'')] @ special_keys)"

text \<open>\<^verbatim>\<open>C('/')\<close> is negative; stored in a \<^verbatim>\<open>uchar\<close> it is \<^verbatim>\<open>0xEF\<close>.\<close>

definition ctlmap :: "nat \<Rightarrow> char" where
  "ctlmap = keymap
     (replicate 16 NO @ map Ctl ''QWERTYUIOP'' @ [NO, NO, CHR 0x0D, NO] @ map Ctl ''ASDFGHJKL'' @ [NO, NO, NO, NO, Ctl CHR 0x5C] @
      map Ctl ''ZXCVBNM'' @ [NO, NO, CHR 0xEF, NO, NO])
     ([(0x9C, CHR 0x0D), (0xB5, CHR 0xEF)] @ special_keys)"

definition swap_case :: "char \<Rightarrow> char" where
  "swap_case c =
     (let n = (of_char c :: nat) in
      if 97 \<le> n \<and> n \<le> 122 then char_of (n - 32) else if 65 \<le> n \<and> n \<le> 90 then char_of (n + 32) else c)"

text \<open>
  \<^verbatim>\<open>kbdgetc\<close>: \<open>st\<close> and \<open>data\<close> are what the ports deliver; the result is the new value of
  \<^verbatim>\<open>shift\<close> and the character, \<open>None\<close> for -1.
\<close>

definition kbd_press :: "u32 \<Rightarrow> u8 \<Rightarrow> u32 \<times> char" where
  "kbd_press shift data =
     (let shift = shift OR shiftcode (unat data);
          shift = shift XOR togglecode (unat data);
          c = (if shift AND (CTL OR SHIFT) = 0 then normalmap
               else if shift AND (CTL OR SHIFT) = SHIFT then shiftmap else ctlmap) (unat data)
      in (shift, if shift AND CAPSLOCK \<noteq> 0 then swap_case c else c))"

definition kbdgetc :: "u8 \<Rightarrow> u8 \<Rightarrow> u32 \<Rightarrow> u32 \<times> char option" where
  "kbdgetc st data shift =
     (if st AND KBS_DIB = 0 then (shift, None)
      else if data = 0xE0 then (shift OR E0ESC, Some CHR 0x00)
      else if data AND 0x80 \<noteq> 0
      then let data = (if shift AND E0ESC \<noteq> 0 then data else data AND 0x7F)
        in (shift AND NOT (shiftcode (unat data) OR E0ESC), Some CHR 0x00)
      else let (shift, c) =
             (if shift AND E0ESC \<noteq> 0 then kbd_press (shift AND NOT E0ESC) (data OR 0x80) else kbd_press shift data)
        in (shift, Some c))"

text \<open>\<^verbatim>\<open>kbdintr\<close>: \<open>ports\<close> are the pairs the two ports deliver in turn.\<close>

fun kbd_chars :: "(u8 \<times> u8) list \<Rightarrow> u32 \<Rightarrow> u32 \<times> char list" where
  "kbd_chars [] shift = (shift, [])"
| "kbd_chars ((st, data) # ports) shift =
     (case kbdgetc st data shift of
        (shift, None) \<Rightarrow> (shift, [])
      | (shift, Some c) \<Rightarrow> let (shift, cs) = kbd_chars ports shift in (shift, c # cs))"

definition kbdintr :: "u8 \<Rightarrow> (u8 \<times> u8) list \<Rightarrow> u32 \<Rightarrow> console \<Rightarrow> (console \<times> u32) outcome" where
  "kbdintr a ports shift s =
     (case kbd_chars ports shift of (shift, cs) \<Rightarrow> and_then (consoleintr a cs s) (\<lambda>s. Done (s, shift)))"

end
