(* ===== verification/Console_Lines.thy ===== *)
theory Console_Lines
  imports Console
begin

text \<open>
  The line discipline of the console: what is typed becomes visible to readers line by line, can be
  edited until then, and is read back in order; the interrupt handler always returns and
  nothing is drawn outside the screen.
\<close>

subsection \<open>Rings with counters that wrap\<close>

text \<open>A buffer of \<open>N\<close> entries indexed by 32-bit counters modulo \<open>N\<close>.\<close>

definition ring :: "nat \<Rightarrow> 'a list \<Rightarrow> u32 \<Rightarrow> nat \<Rightarrow> 'a list" where
  "ring N buf r n = map (\<lambda>k. buf ! (unat (r + of_nat k) mod N)) [0..<n]"

locale ring_buffer =
  fixes N :: nat
  assumes N: "N dvd 2 ^ 32" "0 < N"
begin

lemma length_ring [simp]: "length (ring N buf r n) = n"
  by (simp add: ring_def)

lemma ring_0 [simp]: "ring N buf r 0 = []"
  by (simp add: ring_def)

lemma ring_index: "unat (r + of_nat k :: u32) mod N = (unat r + k) mod N"
proof -
  have "unat (r + of_nat k :: u32) = (unat r + k) mod 2 ^ 32" by (simp add: unat_word_ariths unat_of_nat mod_simps)
  then show ?thesis using N(1) by (simp only: mod_mod_cancel)
qed

lemma ring_index_distinct:
  assumes "j < k" "k < N" shows "(r + j) mod N \<noteq> (r + k) mod N"
proof
  assume "(r + j) mod N = (r + k) mod N"
  then have "N dvd (r + k) - (r + j)" using assms(1) mod_eq_dvd_iff_nat [of "r + j" "r + k" N] by simp
  then show False using assms by (auto dest: dvd_imp_le)
qed

lemma ring_put:
  assumes "length buf = N" "n < N" "e = r + of_nat n"
  shows "ring N (buf[unat e mod N := c]) r (Suc n) = ring N buf r n @ [c]"
proof -
  have "buf[(unat r + n) mod N := c] ! ((unat r + k) mod N) = buf ! ((unat r + k) mod N)" if "k < n" for k
    using ring_index_distinct [OF that assms(2)] by (metis nth_list_update_neq)
  then show ?thesis using assms N(2) by (simp add: ring_def ring_index)
qed

lemma ring_take: "m \<le> n \<Longrightarrow> ring N buf r m = take m (ring N buf r n)"
  by (simp add: ring_def take_map)

lemma ring_Suc: "ring N buf r (Suc n) = buf ! (unat r mod N) # ring N buf (r + 1) n"
  by (simp add: ring_def map_upt_Suc add.commute add.left_commute del: upt_Suc)

lemma ring_last: "ring N buf r (Suc n) = ring N buf r n @ [buf ! (unat (r + of_nat n) mod N)]"
  by (simp add: ring_def)

end

interpretation input: ring_buffer INPUT_BUF
  by unfold_locales (simp_all add: INPUT_BUF_def)

subsection \<open>The view and the invariant\<close>

definition lines :: "console \<Rightarrow> string" where
  "lines s = ring INPUT_BUF (ibuf s) (ir s) (unat (iw s - ir s))"

definition editing :: "console \<Rightarrow> string" where
  "editing s = drop (unat (iw s - ir s)) (ring INPUT_BUF (ibuf s) (ir s) (unat (ie s - ir s)))"

fun on_screen :: "drawing \<Rightarrow> bool" where
  "on_screen (Font_render x y c) \<longleftrightarrow> 0 \<le> x \<and> x \<le> 52 * FONT_WIDTH + 2 \<and> 0 \<le> y \<and> y \<le> 19 * FONT_HEIGHT"
| "on_screen (Scroll_up n) \<longleftrightarrow> n = FONT_HEIGHT"

definition drawn_ok :: "console \<Rightarrow> bool" where
  "drawn_ok s \<longleftrightarrow> 0 \<le> console_pos s \<and> console_pos s \<le> 1060 \<and> list_all on_screen (screen s)"

definition input_ok :: "console \<Rightarrow> bool" where
  "input_ok s \<longleftrightarrow> length (ibuf s) = INPUT_BUF \<and> unat (iw s - ir s) \<le> unat (ie s - ir s) \<and>
     unat (ie s - ir s) \<le> INPUT_BUF \<and> newline \<notin> set (editing s)"

definition console_ok :: "console \<Rightarrow> bool" where
  "console_ok s \<longleftrightarrow> \<not> panicked s \<and> drawn_ok s \<and> input_ok s"

text \<open>Both change together only if the input changes.\<close>

definition same_input :: "console \<Rightarrow> console \<Rightarrow> bool" where
  "same_input s t \<longleftrightarrow> ibuf t = ibuf s \<and> ir t = ir s \<and> iw t = iw s \<and> ie t = ie s"

lemma same_input_view:
  assumes "same_input s t" shows "lines t = lines s" "editing t = editing s" "input_ok t = input_ok s"
  using assms by (simp_all add: same_input_def lines_def editing_def input_ok_def)

subsection \<open>Output\<close>

lemma graphic_putc_ok:
  assumes "drawn_ok s" shows "drawn_ok (graphic_putc c s)"
proof -
  let ?p = "console_pos s"
  have p: "0 \<le> ?p" "?p \<le> 1060" "list_all on_screen (screen s)" using assms by (simp_all add: drawn_ok_def)
  have m: "0 \<le> x mod 53" "x mod 53 \<le> 52" for x :: int using pos_mod_bound [of 53 x] pos_mod_sign [of 53 x] by linarith+
  have d: "0 \<le> x div 53 \<and> x div 53 \<le> 19" if "0 \<le> x" "x < 1060" for x :: int using that by linarith
  note defs = drawn_ok_def graphic_putc_def scroll_def Let_def CONSOLE_HORIZONTAL_MAX_def CONSOLE_VERTICAL_MAX_def FONT_WIDTH_def FONT_HEIGHT_def
  consider (nl) "c = of_char newline" | (bs) "c = BACKSPACE" "c \<noteq> of_char newline" | (ch) "c \<noteq> BACKSPACE" "c \<noteq> of_char newline" by blast
  then show ?thesis
  proof cases
    case nl
    then show ?thesis using p m [of ?p] by (auto simp: defs)
  next
    case bs
    then show ?thesis using p by (auto simp: defs)
  next
    case ch
    then show ?thesis using p m [of ?p] m [of "?p - 53"] d [of ?p] d [of "?p - 53"] by (auto simp: defs)
  qed
qed

text \<open>\<open>drew s t\<close>: something was printed and nothing else happened.\<close>

definition drew :: "console \<Rightarrow> console \<Rightarrow> bool" where
  "drew s t \<longleftrightarrow> same_input s t \<and> cpst t = cpst s \<and> conslock t = conslock s \<and> locking t = locking s \<and>
     panicked t = panicked s \<and> (drawn_ok s \<longrightarrow> drawn_ok t)"

lemma drew_refl [simp]: "drew s s"
  by (simp add: drew_def same_input_def)

lemma drew_trans: "drew s t \<Longrightarrow> drew t u \<Longrightarrow> drew s u"
  by (simp add: drew_def same_input_def)

lemma drew_ok: "drew s t \<Longrightarrow> console_ok s \<Longrightarrow> console_ok t"
  using same_input_view(3) [of s t] by (simp add: drew_def console_ok_def)

lemma consputc_drew:
  assumes "\<not> panicked s"
  shows "\<exists>t. consputc c s = Done t \<and> \<not> panicked t \<and> drew s t"
proof -
  obtain t where t: "consputc c s = Done t" using assms by (simp add: consputc_def Let_def)
  note f = consputc_frame [OF t]
  have "drawn_ok (uartputc x s) = drawn_ok s" for x s by (simp add: drawn_ok_def uartputc_def)
  then have "drawn_ok s \<longrightarrow> drawn_ok t" using t assms graphic_putc_ok by (auto simp: consputc_def Let_def split: if_splits)
  then have "drew s t" using f by (simp add: drew_def same_input_def)
  with t f(4) assms show ?thesis by simp
qed

lemma each_drew:
  assumes "\<And>x u. x \<in> set xs \<Longrightarrow> \<not> panicked u \<Longrightarrow> \<exists>t. f x u = Done t \<and> \<not> panicked t \<and> drew u t" "\<not> panicked s"
  shows "\<exists>t. each f xs s = Done t \<and> \<not> panicked t \<and> drew s t"
proof -
  have "\<exists>t. each f xs s = Done t \<and> (\<not> panicked t \<and> drew s t)"
  proof (rule each_invariant)
    fix x u assume "x \<in> set xs" "\<not> panicked u \<and> drew s u"
    then show "\<exists>t. f x u = Done t \<and> \<not> panicked t \<and> drew s t" using assms(1) [of x u] drew_trans by blast
  qed (simp add: assms(2))
  then show ?thesis by blast
qed

lemma consputs_drew: "\<not> panicked s \<Longrightarrow> \<exists>t. consputs cs s = Done t \<and> \<not> panicked t \<and> drew s t"
  unfolding consputs_def using consputc_drew by (intro each_drew) auto

text \<open>Formats whose arguments are there and of the right kind.\<close>

fun fmt_ok :: "string \<Rightarrow> parg list \<Rightarrow> bool" where
  "fmt_ok [] ap \<longleftrightarrow> True"
| "fmt_ok (c # fmt) ap \<longleftrightarrow>
     (if c \<noteq> CHR ''%'' then fmt_ok fmt ap
      else case fmt of
        [] \<Rightarrow> True
      | d # fmt \<Rightarrow>
          if d = CHR ''d'' \<or> d = CHR ''x'' \<or> d = CHR ''p'' then (case ap of Word x # ap \<Rightarrow> fmt_ok fmt ap | _ \<Rightarrow> False)
          else if d = CHR ''s'' then (case ap of Str t # ap \<Rightarrow> fmt_ok fmt ap | _ \<Rightarrow> False)
          else fmt_ok fmt ap)"

text \<open>Printing something and then doing something that only prints.\<close>

lemma then_drew:
  assumes "\<exists>t. m = Done t \<and> \<not> panicked t \<and> drew s t"
    and "\<And>t. \<not> panicked t \<Longrightarrow> \<exists>u. f t = Done u \<and> \<not> panicked u \<and> drew t u"
  shows "\<exists>u. and_then m f = Done u \<and> \<not> panicked u \<and> drew s u"
  using assms drew_trans by fastforce

lemma cprintf_loop_drew:
  "fmt_ok fmt ap \<Longrightarrow> \<not> panicked s \<Longrightarrow> \<exists>t. cprintf_loop fmt ap s = Done t \<and> \<not> panicked t \<and> drew s t"
proof (induction "length fmt" arbitrary: fmt ap s rule: less_induct)
  case less
  show ?case
  proof (cases fmt)
    case (Cons c f)
    show ?thesis
    proof (cases "c = CHR ''%''")
      case False
      have "\<exists>t. and_then (consputc (of_char c) s) (cprintf_loop f ap) = Done t \<and> \<not> panicked t \<and> drew s t"
        by (intro then_drew consputc_drew less.hyps less.prems(2)) (use less.prems(1) Cons False in auto)
      then show ?thesis using Cons False by simp
    next
      case c: True
      show ?thesis
      proof (cases f)
        case f: (Cons d g)
        have l: "length g < length fmt" using Cons f by simp
        note then_go = then_drew [OF _ less.hyps [OF l]]
        consider (num) "d = CHR ''d'' \<or> d = CHR ''x'' \<or> d = CHR ''p''" | (str) "d = CHR ''s''" | (other) "d \<notin> set ''dxps''" by auto
        then show ?thesis
        proof cases
          case num
          then obtain x ap' where ap: "ap = Word x # ap'" "fmt_ok g ap'"
            using less.prems(1) Cons f c by (auto split: list.splits parg.splits)
          have "\<exists>t. and_then (cons_printint x b sg s) (cprintf_loop g ap') = Done t \<and> \<not> panicked t \<and> drew s t" for b sg
            unfolding cons_printint_def by (rule then_go [OF consputs_drew [OF less.prems(2)] ap(2)])
          then show ?thesis using num Cons f c ap by auto
        next
          case str
          then obtain x ap' where ap: "ap = Str x # ap'" "fmt_ok g ap'"
            using less.prems(1) Cons f c by (auto split: list.splits parg.splits)
          have "\<exists>t. and_then (consputs (case x of None \<Rightarrow> ''(null)'' | Some t \<Rightarrow> t) s) (cprintf_loop g ap') = Done t \<and> \<not> panicked t \<and> drew s t"
            by (rule then_go [OF consputs_drew [OF less.prems(2)] ap(2)])
          then show ?thesis using str Cons f c ap by simp
        next
          case other
          then have g: "fmt_ok g ap" using less.prems(1) Cons f c by simp
          have 1: "\<exists>u. and_then (consputc (of_char d) t) (cprintf_loop g ap) = Done u \<and> \<not> panicked u \<and> drew t u" if "\<not> panicked t" for t
            by (rule then_go [OF consputc_drew [OF that] g])
          have 2: "\<exists>u. and_then (consputc (of_char CHR ''%'') s) (\<lambda>t. and_then (consputc (of_char d) t) (cprintf_loop g ap)) = Done u \<and> \<not> panicked u \<and> drew s u"
            by (rule then_drew [OF consputc_drew [OF less.prems(2)] 1])
          show ?thesis using other 1 [OF less.prems(2)] 2 Cons f c by (cases "d = CHR ''%''") simp_all
        qed
      qed (use c Cons less.prems in simp)
    qed
  qed (use less.prems in simp)
qed

subsection \<open>Inside and outside the lock\<close>

definition outside :: "u8 \<Rightarrow> nat \<Rightarrow> console \<Rightarrow> bool" where
  "outside a c s \<longleftrightarrow> console_ok s \<and> cpu_ok (mach (cpst s)) a c \<and> locked (conslock s) = 0 \<and> locked (ptlock (cpst s)) = 0"

definition inside :: "u8 \<Rightarrow> nat \<Rightarrow> console \<Rightarrow> bool" where
  "inside a c s \<longleftrightarrow> console_ok s \<and> cpu_ok (mach (cpst s)) a c \<and> 0 < ncli (cpus (mach (cpst s)) ! c) \<and>
     locked (conslock s) \<noteq> 0 \<and> lkcpu (conslock s) = Some c \<and> locked (ptlock (cpst s)) = 0"

lemma console_ok_cong:
  "same_input s t \<Longrightarrow> panicked t = panicked s \<Longrightarrow> console_pos t = console_pos s \<Longrightarrow> screen t = screen s \<Longrightarrow> console_ok t = console_ok s"
  by (simp add: console_ok_def drawn_ok_def same_input_view(3))

lemma inside_drew: "inside a c s \<Longrightarrow> drew s t \<Longrightarrow> inside a c t"
  using drew_ok [of s t] by (simp add: inside_def drew_def)

lemma outside_drew: "outside a c s \<Longrightarrow> drew s t \<Longrightarrow> outside a c t"
  using drew_ok [of s t] by (simp add: outside_def drew_def)

lemma acquire_cons_ok:
  assumes "outside a c s" shows "\<exists>t. acquire_cons a s = Done t \<and> inside a c t \<and> same_input s t \<and> procs (cpst t) = procs (cpst s) \<and>
    ncli (cpus (mach (cpst t)) ! c) = ncli (cpus (mach (cpst s)) ! c) + 1 \<and> cproc (cpus (mach (cpst t)) ! c) = cproc (cpus (mach (cpst s)) ! c)"
proof -
  have ok: "cpu_ok (mach (cpst s)) a c" "locked (conslock s) = 0" using assms by (simp_all add: outside_def)
  obtain M l where M: "acquire (mach (cpst s)) (conslock s) a = Done (M, l)"
    "mach_eff (mach (cpst s)) M a c 1 (cproc (cpus (mach (cpst s)) ! c))" "locked l \<noteq> 0" "lkcpu l = Some c"
    using acquire_other_eff [OF ok] by blast
  let ?t = "s\<lparr>cpst := (cpst s)\<lparr>mach := M\<rparr>, conslock := l\<rparr>"
  have "cpu_ok M a c" using mach_eff_ok [OF M(2) ok(1)] ok(1) by (simp add: cpu_ok_def)
  moreover have "0 < ncli (cpus M ! c)" using M(2) ok(1) by (simp add: mach_eff_def cpu_ok_def)
  moreover have "same_input s ?t" "console_ok ?t = console_ok s" using console_ok_cong [of s ?t] by (simp_all add: same_input_def)
  ultimately show ?thesis using M assms by (simp add: acquire_cons_def inside_def outside_def mach_eff_def)
qed

lemma release_cons_ok:
  assumes "inside a c s" shows "\<exists>t. release_cons a s = Done t \<and> outside a c t \<and> same_input s t"
proof -
  have ok: "cpu_ok (mach (cpst s)) a c" "0 < ncli (cpus (mach (cpst s)) ! c)" "locked (conslock s) \<noteq> 0" "lkcpu (conslock s) = Some c"
    using assms by (simp_all add: inside_def)
  obtain M l where M: "release (mach (cpst s)) (conslock s) a = Done (M, l)"
    "mach_eff (mach (cpst s)) M a c (- 1) (cproc (cpus (mach (cpst s)) ! c))" "locked l = 0"
    using release_other_eff [OF ok] by blast
  let ?t = "s\<lparr>cpst := (cpst s)\<lparr>mach := M\<rparr>, conslock := l\<rparr>"
  have "cpu_ok M a c" using mach_eff_ok [OF M(2) ok(1)] ok(2) by simp
  moreover have "same_input s ?t" "console_ok ?t = console_ok s" using console_ok_cong [of s ?t] by (simp_all add: same_input_def)
  ultimately show ?thesis using M assms by (simp add: release_cons_def inside_def outside_def)
qed

lemma same_input_trans: "same_input s t \<Longrightarrow> same_input t u \<Longrightarrow> same_input s u"
  by (simp add: same_input_def)

lemma cprintf_ok:
  assumes s: "outside a c s" and f: "fmt_ok fmt ap"
  shows "\<exists>t. cprintf a (Some fmt) ap s = Done t \<and> outside a c t \<and> same_input s t"
proof (cases "locking s")
  case True
  obtain t where t: "acquire_cons a s = Done t" "inside a c t" "same_input s t" using acquire_cons_ok [OF s] by blast
  then have "\<not> panicked t" by (simp add: inside_def console_ok_def)
  then obtain u where u: "cprintf_loop fmt ap t = Done u" "drew t u" using cprintf_loop_drew [OF f] by blast
  obtain v where v: "release_cons a u = Done v" "outside a c v" "same_input u v" using release_cons_ok inside_drew [OF t(2) u(2)] by blast
  have "same_input s v" using t(3) u(2) v(3) by (simp add: drew_def same_input_def)
  then show ?thesis using t(1) u(1) v True by (simp add: cprintf_def)
next
  case False
  have "\<not> panicked s" using s by (simp add: outside_def console_ok_def)
  then obtain u where u: "cprintf_loop fmt ap s = Done u" "drew s u" using cprintf_loop_drew [OF f] by blast
  then show ?thesis using False outside_drew [OF s u(2)] by (simp add: cprintf_def drew_def)
qed

lemma each_outside:
  assumes "\<And>x u. outside a c u \<Longrightarrow> \<exists>t. f x u = Done t \<and> outside a c t \<and> same_input u t" "outside a c s"
  shows "\<exists>t. each f xs s = Done t \<and> outside a c t \<and> same_input s t"
proof -
  have "\<exists>t. each f xs s = Done t \<and> (outside a c t \<and> same_input s t)"
  proof (rule each_invariant)
    fix x u assume "outside a c u \<and> same_input s u"
    then show "\<exists>t. f x u = Done t \<and> outside a c t \<and> same_input s t" using assms(1) [of u x] same_input_trans by blast
  qed (simp add: assms(2) same_input_def)
  then show ?thesis by blast
qed

lemma procdump_one_ok:
  assumes "outside a c s" shows "\<exists>t. procdump_one a p s = Done t \<and> outside a c t \<and> same_input s t"
proof (cases "state p = UNUSED")
  case False
  obtain t where t: "cprintf a (Some ''%d %s %s'') [Word (word_of_int (pid p)), Str (Some (state_name (state p))), Str (Some (pname p))] s = Done t"
    "outside a c t" "same_input s t" using cprintf_ok [OF assms, of "''%d %s %s''"] by force
  let ?m = "load32 (kmem_mem (km (cpst t)))"
  let ?pc = "takeWhile (\<lambda>pc. pc \<noteq> 0) (getcallerpcs ?m (?m (pcontext p + context_ebp) + 8))"
  have "\<exists>u. each (\<lambda>pc. cprintf a (Some '' %p'') [Word pc]) ?pc t = Done u \<and> outside a c u \<and> same_input t u"
    using t(2) by (intro each_outside cprintf_ok) auto
  then obtain u where u: "(if state p = SLEEPING then each (\<lambda>pc. cprintf a (Some '' %p'') [Word pc]) ?pc t else Done t) = Done u"
    "outside a c u" "same_input t u" using t(2) by (cases "state p = SLEEPING") (auto simp: same_input_def)
  obtain v where v: "cprintf a (Some [newline]) [] u = Done v" "outside a c v" "same_input u v"
    using cprintf_ok [OF u(2), of "[newline]"] by force
  have "same_input s v" using t(3) u(3) v(3) by (simp add: same_input_def)
  then show ?thesis using False t(1) u(1) v by (cases "state p = SLEEPING") (simp_all add: procdump_one_def Let_def)
qed (use assms in \<open>simp add: procdump_one_def same_input_def\<close>)

lemma procdump_ok: "outside a c s \<Longrightarrow> \<exists>t. procdump a s = Done t \<and> outside a c t \<and> same_input s t"
  unfolding procdump_def by (rule each_outside [OF procdump_one_ok])

subsection \<open>Typing\<close>

text \<open>The line discipline: the lines readers may see, and the line being edited.\<close>

definition type_char :: "char \<Rightarrow> string \<times> string \<Rightarrow> string \<times> string" where
  "type_char c = (\<lambda>(ls, l).
     if c = Ctl CHR ''P'' then (ls, l)
     else if c = Ctl CHR ''U'' then (ls, [])
     else if c = Ctl CHR ''H'' \<or> c = CHR 0x7F then (ls, butlast l)
     else if c = CHR 0x00 \<or> length ls + length l = INPUT_BUF then (ls, l)
     else let c = (if c = CHR 0x0D then newline else c) in
       if c = newline \<or> c = Ctl CHR ''D'' \<or> Suc (length ls + length l) = INPUT_BUF then (ls @ l @ [c], []) else (ls, l @ [c]))"

lemma type_char_edit:
  "c = Ctl CHR ''P'' \<Longrightarrow> type_char c (ls, l) = (ls, l)"
  "c = Ctl CHR ''U'' \<Longrightarrow> c \<noteq> Ctl CHR ''P'' \<Longrightarrow> type_char c (ls, l) = (ls, [])"
  "c = Ctl CHR ''H'' \<or> c = CHR 0x7F \<Longrightarrow> c \<noteq> Ctl CHR ''P'' \<Longrightarrow> c \<noteq> Ctl CHR ''U'' \<Longrightarrow> type_char c (ls, l) = (ls, butlast l)"
  by (auto simp: type_char_def)

lemma view_all:
  assumes "input_ok s"
  shows "lines s @ editing s = ring INPUT_BUF (ibuf s) (ir s) (unat (ie s - ir s))"
    "length (lines s) = unat (iw s - ir s)" "length (editing s) = unat (ie s - ir s) - unat (iw s - ir s)"
proof -
  have "lines s = take (unat (iw s - ir s)) (ring INPUT_BUF (ibuf s) (ir s) (unat (ie s - ir s)))"
    unfolding lines_def using assms by (intro input.ring_take) (simp add: input_ok_def)
  then show "lines s @ editing s = ring INPUT_BUF (ibuf s) (ir s) (unat (ie s - ir s))"
    by (simp only: editing_def append_take_drop_id)
qed (simp_all add: lines_def editing_def)

lemma edit_empty: "input_ok s \<Longrightarrow> editing s = [] \<longleftrightarrow> ie s = iw s"
proof -
  assume s: "input_ok s"
  have "ie s = iw s \<longleftrightarrow> unat (ie s - ir s) = unat (iw s - ir s)"
    using word_unat_eq_iff [of "ie s - ir s" "iw s - ir s"] by auto
  then show ?thesis using view_all(3) [OF s] s by (auto simp: input_ok_def simp flip: length_0_conv)
qed

lemma erase_last:
  assumes s: "input_ok s" and n: "ie s \<noteq> iw s"
  defines "t \<equiv> s\<lparr>ie := ie s - 1\<rparr>"
  shows "input_ok t" "lines t = lines s" "editing t = butlast (editing s)" "input_at s (ie s - 1) \<noteq> newline"
proof -
  let ?d = "unat (ie s - ir s)" and ?q = "unat (iw s - ir s)"
  have q: "?q < ?d" "?d \<le> INPUT_BUF" using s edit_empty [OF s] view_all(3) [OF s] n by (auto simp: input_ok_def simp flip: length_0_conv)
  have "ie s \<noteq> ir s" using q(1) by auto
  then have d: "unat (ie s - 1 - ir s) = ?d - 1" using unat_minus_one [of "ie s - ir s"] by (auto simp: diff_right_commute)
  obtain m where m: "?d = Suc m" using q(1) by (cases ?d) auto
  have e: "ie s - 1 = ir s + of_nat m"
  proof -
    have "ie s - ir s = of_nat (Suc m)" using m by (metis of_nat_unat ucast_id)
    then show ?thesis by (simp add: algebra_simps)
  qed
  have R: "ring INPUT_BUF (ibuf s) (ir s) ?d = ring INPUT_BUF (ibuf s) (ir s) m @ [input_at s (ie s - 1)]"
    unfolding m input.ring_last by (simp add: input_at_def e)
  then have E: "editing s = editing t @ [input_at s (ie s - 1)]"
    using q m d by (simp add: editing_def t_def)
  then show "editing t = butlast (editing s)" "input_at s (ie s - 1) \<noteq> newline" using s by (auto simp: input_ok_def)
  show "lines t = lines s" by (simp add: lines_def t_def)
  show "input_ok t" using s E q d by (auto simp: input_ok_def) (simp_all add: t_def)
qed

lemma inside_input: "inside a c s \<Longrightarrow> input_ok s" "inside a c s \<Longrightarrow> \<not> panicked s"
  by (simp_all add: inside_def console_ok_def)

lemma inside_erase:
  assumes s: "inside a c s" and n: "ie s \<noteq> iw s"
  shows "\<exists>t. consputc BACKSPACE (s\<lparr>ie := ie s - 1\<rparr>) = Done t \<and> inside a c t \<and> lines t = lines s \<and> editing t = butlast (editing s)"
proof -
  let ?s = "s\<lparr>ie := ie s - 1\<rparr>"
  note e = erase_last [OF inside_input(1) [OF s] n]
  have "inside a c ?s" using s e(1) by (simp add: inside_def console_ok_def drawn_ok_def)
  then obtain t where "consputc BACKSPACE ?s = Done t" "drew ?s t" "inside a c t"
    using consputc_drew [of ?s] inside_input(2) inside_drew by blast
  then show ?thesis using e same_input_view(1,2) [of ?s t] by (auto simp: drew_def)
qed

lemma kill_line_ok:
  "inside a c s \<Longrightarrow> \<exists>t. kill_line s = Done t \<and> inside a c t \<and> lines t = lines s \<and> editing t = []"
proof (induction s rule: kill_line.induct)
  case (1 s)
  show ?case
  proof (cases "ie s = iw s")
    case True
    then show ?thesis using 1(2) edit_empty [OF inside_input(1) [OF 1(2)]] by (subst kill_line.simps) simp
  next
    case False
    then have n: "ie s \<noteq> iw s \<and> input_at s (ie s - 1) \<noteq> newline" using erase_last(4) [OF inside_input(1) [OF 1(2)]] by simp
    obtain t where t: "consputc BACKSPACE (s\<lparr>ie := ie s - 1\<rparr>) = Done t" "inside a c t" "lines t = lines s"
      using inside_erase [OF 1(2) False] by blast
    from 1(1) [OF n t(1,2)] t n show ?thesis by (subst kill_line.simps) simp
  qed
qed

lemma inside_wakeup:
  assumes "inside a c s" shows "\<exists>p. wakeup a Chan_input (cpst s) = Done p \<and> inside a c (s\<lparr>cpst := p\<rparr>)"
proof -
  have ok: "cpu_ok (mach (cpst s)) a c" "locked (ptlock (cpst s)) = 0" using assms by (simp_all add: inside_def)
  obtain p where p: "wakeup a Chan_input (cpst s) = Done p" "table_step a c (cpst s) p" using wakeup_eff [OF ok] by blast
  have e: "mach_eff (mach (cpst s)) (mach p) a c 0 (cproc (cpus (mach (cpst s)) ! c))" "locked (ptlock p) = 0"
    using p(2) by (simp_all add: table_step_def)
  have "cpu_ok (mach p) a c" using mach_eff_ok [OF e(1) ok(1)] ok(1) by (simp add: cpu_ok_def)
  moreover have "ncli (cpus (mach p) ! c) = ncli (cpus (mach (cpst s)) ! c)" using e(1) by (simp add: mach_eff_def)
  moreover have "console_ok (s\<lparr>cpst := p\<rparr>) = console_ok s" by (rule console_ok_cong) (simp_all add: same_input_def)
  ultimately show ?thesis using p(1) e(2) assms by (simp add: inside_def)
qed

lemma append_char:
  fixes c :: char
  assumes s: "input_ok s" and d: "unat (ie s - ir s) < INPUT_BUF"
  defines "t \<equiv> s\<lparr>ibuf := (ibuf s)[unat (ie s) mod INPUT_BUF := c], ie := ie s + 1\<rparr>"
  shows "unat (ie t - ir t) = Suc (unat (ie s - ir s))" "lines t = lines s" "editing t = editing s @ [c]" "length (ibuf t) = INPUT_BUF"
proof -
  let ?d = "unat (ie s - ir s)" and ?q = "unat (iw s - ir s)"
  have q: "?q \<le> ?d" "length (ibuf s) = INPUT_BUF" using s by (simp_all add: input_ok_def)
  have "unat (ie s - ir s + 1) = Suc ?d" using d unat_add_32 [of "ie s - ir s" 1] by (simp add: INPUT_BUF_def)
  then show n: "unat (ie t - ir t) = Suc ?d" by (simp add: t_def algebra_simps)
  have R: "ring INPUT_BUF (ibuf t) (ir s) (Suc ?d) = ring INPUT_BUF (ibuf s) (ir s) ?d @ [c]"
    unfolding t_def using input.ring_put [OF q(2) d, of "ie s" "ir s" c] by simp
  have "lines t = take ?q (ring INPUT_BUF (ibuf t) (ir s) (Suc ?d))"
    using input.ring_take [of ?q "Suc ?d" "ibuf t" "ir s"] q(1) by (simp add: lines_def t_def)
  also have "\<dots> = lines s" unfolding R using input.ring_take [OF q(1), of "ibuf s" "ir s"] q(1) by (simp add: lines_def)
  finally show "lines t = lines s" .
  show "editing t = editing s @ [c]" using R n q(1) by (simp add: editing_def t_def)
  show "length (ibuf t) = INPUT_BUF" using q(2) by (simp add: t_def)
qed

lemma commit_line:
  assumes "length (ibuf s) = INPUT_BUF" "unat (ie s - ir s) \<le> INPUT_BUF" "unat (iw s - ir s) \<le> unat (ie s - ir s)"
  shows "input_ok (s\<lparr>iw := ie s\<rparr>)" "lines (s\<lparr>iw := ie s\<rparr>) = lines s @ editing s" "editing (s\<lparr>iw := ie s\<rparr>) = []"
proof -
  have "lines s = take (unat (iw s - ir s)) (ring INPUT_BUF (ibuf s) (ir s) (unat (ie s - ir s)))"
    unfolding lines_def by (rule input.ring_take [OF assms(3)])
  then show "lines (s\<lparr>iw := ie s\<rparr>) = lines s @ editing s" by (simp only: editing_def append_take_drop_id) (simp add: lines_def)
  show "editing (s\<lparr>iw := ie s\<rparr>) = []" by (simp add: editing_def)
  then show "input_ok (s\<lparr>iw := ie s\<rparr>)" using assms by (simp add: input_ok_def)
qed

lemma full_iff: "ie s = ir s + of_nat INPUT_BUF \<longleftrightarrow> unat (ie s - ir s) = INPUT_BUF"
proof -
  have "unat (ie s - ir s) = INPUT_BUF \<longleftrightarrow> ie s - ir s = of_nat INPUT_BUF" by (simp add: word_unat_eq_iff INPUT_BUF_def)
  then show ?thesis by (auto simp: algebra_simps diff_eq_eq)
qed

lemma put_char_ok:
  assumes s: "inside a k s" and c: "c \<notin> {Ctl CHR ''P'', Ctl CHR ''U'', Ctl CHR ''H'', CHR 0x7F}"
  shows "\<exists>t. put_char a c s = Done t \<and> inside a k t \<and> (lines t, editing t) = type_char c (lines s, editing s)"
proof -
  note ok = inside_input [OF s]
  have len: "length (lines s) + length (editing s) = unat (ie s - ir s)" using view_all(2,3) [OF ok(1)] ok(1) by (simp add: input_ok_def)
  show ?thesis
  proof (cases "c \<noteq> CHR 0x00 \<and> unat (ie s - ir s) < INPUT_BUF")
    case False
    then have "c = CHR 0x00 \<or> length (lines s) + length (editing s) = INPUT_BUF" using len ok(1) by (auto simp: input_ok_def)
    then show ?thesis using s c False by (auto simp: put_char_def type_char_def)
  next
    case True
    define x where "x = (if c = CHR 0x0D then newline else c)"
    define u where "u = s\<lparr>ibuf := (ibuf s)[unat (ie s) mod INPUT_BUF := x], ie := ie s + 1\<rparr>"
    note A = append_char [OF ok(1), of x, folded u_def]
    have u: "unat (ie u - ir u) = Suc (unat (ie s - ir s))" "lines u = lines s" "editing u = editing s @ [x]" "length (ibuf u) = INPUT_BUF"
      "iw u = iw s" "ir u = ir s" using A True by (simp_all add: u_def)
    obtain v where v: "consputc (of_char x) u = Done v" "\<not> panicked v" "drew u v" using consputc_drew [of u] ok(2) by (auto simp: u_def)
    have V: "lines v = lines s" "editing v = editing s @ [x]" "unat (ie v - ir v) = Suc (unat (ie s - ir s))" "length (ibuf v) = INPUT_BUF"
      "iw v = iw s" "ir v = ir s" "drawn_ok v" "cpst v = cpst s" "conslock v = conslock s"
      using v(3) u same_input_view(1,2) [of u v] s by (auto simp: drew_def same_input_def u_def inside_def console_ok_def drawn_ok_def)
    have q: "unat (iw v - ir v) \<le> unat (ie v - ir v)" "unat (ie v - ir v) \<le> INPUT_BUF" using V ok(1) True by (simp_all add: input_ok_def)
    have go: "inside a k w" if "input_ok w" "\<not> panicked w" "drawn_ok w" "cpst w = cpst s" "conslock w = conslock s" for w
      using s that by (simp add: inside_def console_ok_def)
    have P: "put_char a c s = (if x = newline \<or> x = Ctl CHR ''D'' \<or> ie v = ir v + of_nat INPUT_BUF
        then and_then (wakeup a Chan_input (cpst (v\<lparr>iw := ie v\<rparr>))) (\<lambda>p. Done (v\<lparr>iw := ie v, cpst := p\<rparr>)) else Done v)"
      using True v(1) by (simp add: put_char_def Let_def x_def u_def)
    have T: "type_char c (lines s, editing s) =
        (if x = newline \<or> x = Ctl CHR ''D'' \<or> ie v = ir v + of_nat INPUT_BUF then (lines s @ editing s @ [x], []) else (lines s, editing s @ [x]))"
      using c True len V(3) by (auto simp: type_char_def full_iff x_def Let_def)
    show ?thesis
    proof (cases "x = newline \<or> x = Ctl CHR ''D'' \<or> ie v = ir v + of_nat INPUT_BUF")
      case commit: True
      let ?w = "v\<lparr>iw := ie v\<rparr>"
      note C = commit_line [OF V(4) q(2,1)]
      have "inside a k ?w" using go [of ?w] C(1) V v(2) by (simp add: drawn_ok_def)
      then obtain p where p: "wakeup a Chan_input (cpst ?w) = Done p" "inside a k (?w\<lparr>cpst := p\<rparr>)" using inside_wakeup by blast
      have "same_input ?w (?w\<lparr>cpst := p\<rparr>)" by (simp add: same_input_def)
      from same_input_view(1,2) [OF this] show ?thesis using P T C(2,3) V p commit by auto
    next
      case False
      have "input_ok v" using V q False ok(1) by (auto simp: input_ok_def)
      then show ?thesis using go [of v] V v(2) P T False by simp
    qed
  qed
qed

lemma loop_ok:
  "inside a k s \<Longrightarrow> \<exists>t b'. consoleintr_loop a cs b s = Done (t, b') \<and> inside a k t \<and> (lines t, editing t) = fold type_char cs (lines s, editing s)"
proof (induction cs arbitrary: s b)
  case (Cons c cs)
  consider (P) "c = Ctl CHR ''P''" | (U) "c = Ctl CHR ''U''" "c \<noteq> Ctl CHR ''P''"
    | (H) "c = Ctl CHR ''H'' \<or> c = CHR 0x7F" "c \<noteq> Ctl CHR ''P''" "c \<noteq> Ctl CHR ''U''"
    | (other) "c \<notin> {Ctl CHR ''P'', Ctl CHR ''U'', Ctl CHR ''H'', CHR 0x7F}" by blast
  then show ?case
  proof cases
    case P
    then show ?thesis using Cons by (simp add: type_char_edit(1))
  next
    case U
    obtain t where t: "kill_line s = Done t" "inside a k t" "lines t = lines s" "editing t = []" using kill_line_ok [OF Cons.prems] by blast
    from Cons.IH [OF t(2), of b] t type_char_edit(2) [OF U] U show ?thesis by simp
  next
    case H
    show ?thesis
    proof (cases "ie s = iw s")
      case True
      then have "editing s = []" using edit_empty [OF inside_input(1) [OF Cons.prems]] by simp
      then show ?thesis using H True Cons.IH [OF Cons.prems, of b] type_char_edit(3) [OF H] by simp
    next
      case False
      obtain t where t: "consputc BACKSPACE (s\<lparr>ie := ie s - 1\<rparr>) = Done t" "inside a k t" "lines t = lines s" "editing t = butlast (editing s)"
        using inside_erase [OF Cons.prems False] by blast
      from Cons.IH [OF t(2), of b] t H False type_char_edit(3) [OF H] show ?thesis by simp
    qed
  next
    case other
    obtain t where t: "put_char a c s = Done t" "inside a k t" "(lines t, editing t) = type_char c (lines s, editing s)"
      using put_char_ok [OF Cons.prems other] by blast
    from Cons.IH [OF t(2), of b] t other show ?thesis by simp
  qed
qed simp

lemma consoleintr_ok:
  assumes "outside a k s"
  shows "\<exists>t. consoleintr a cs s = Done t \<and> outside a k t \<and> (lines t, editing t) = fold type_char cs (lines s, editing s)"
proof -
  obtain u where u: "acquire_cons a s = Done u" "inside a k u" "same_input s u" using acquire_cons_ok [OF assms] by blast
  obtain v b where v: "consoleintr_loop a cs False u = Done (v, b)" "inside a k v" "(lines v, editing v) = fold type_char cs (lines u, editing u)"
    using loop_ok [OF u(2)] by blast
  obtain w where w: "release_cons a v = Done w" "outside a k w" "same_input v w" using release_cons_ok [OF v(2)] by blast
  obtain x where x: "procdump a w = Done x" "outside a k x" "same_input w x" using procdump_ok [OF w(2)] by blast
  note view = same_input_view(1,2) [OF u(3)] same_input_view(1,2) [OF w(3)] same_input_view(1,2) [OF x(3)]
  show ?thesis using u(1) v w x view by (cases b) (simp_all add: consoleintr_def)
qed

subsection \<open>Reading\<close>

text \<open>
  What a read of \<open>n\<close> more of \<open>target\<close> bytes takes from the lines: the bytes, the lines that are
  left and, if the lines run out, how many bytes are still wanted.  Control-D ends the read; it stays for
  the next read unless nothing was read, so that the next read returns 0 bytes.
\<close>

fun take_line :: "nat \<Rightarrow> nat \<Rightarrow> string \<Rightarrow> string \<times> string \<times> nat option" where
  "take_line target 0 ls = ([], ls, None)"
| "take_line target (Suc n) [] = ([], [], Some (Suc n))"
| "take_line target (Suc n) (c # ls) =
     (if c = Ctl CHR ''D'' then ([], if Suc n < target then c # ls else ls, None)
      else if c = newline then ([c], ls, None)
      else let (cs, rest, blocked) = take_line target n ls in (c # cs, rest, blocked))"

lemma advance:
  assumes s: "input_ok s" and n: "ir s \<noteq> iw s"
  defines "t \<equiv> s\<lparr>ir := ir s + 1\<rparr>"
  shows "input_ok t" "lines s = input_at s (ir s) # lines t" "editing t = editing s"
proof -
  let ?d = "unat (ie s - ir s)" and ?q = "unat (iw s - ir s)"
  have w: "iw s - ir s \<noteq> 0" using n by simp
  then have "?q \<noteq> 0" by (simp only: unat_eq_0 not_False_eq_True)
  then have q: "0 < ?q" "?q \<le> ?d" "?d \<le> INPUT_BUF" using s by (simp_all only: input_ok_def neq0_conv)
  have "ie s - ir s \<noteq> 0" using q(1,2) by (metis less_le_trans less_numeral_extra(3) unat_0)
  with w have m: "unat (iw t - ir t) = ?q - 1" "unat (ie t - ir t) = ?d - 1"
    using unat_minus_one [of "iw s - ir s"] unat_minus_one [of "ie s - ir s"] by (simp_all add: t_def algebra_simps)
  have R: "ring INPUT_BUF (ibuf s) (ir s) x = input_at s (ir s) # ring INPUT_BUF (ibuf s) (ir s + 1) (x - 1)" if "0 < x" for x
    using that input.ring_Suc [of "ibuf s" "ir s" "x - 1"] by (simp add: input_at_def)
  show "lines s = input_at s (ir s) # lines t" unfolding lines_def m(1) using R [OF q(1)] by (simp add: t_def)
  show E: "editing t = editing s" unfolding editing_def m using R [of ?d] q by (cases ?q) (simp_all add: t_def)
  then show "input_ok t" using s q m by (auto simp: input_ok_def) (auto simp: t_def)
qed

lemma read_loop_ok:
  assumes "input_ok s" "read_loop target n s = (t, cs, b)"
  shows "input_ok t \<and> editing t = editing s \<and> (cs, lines t, b) = take_line target n (lines s) \<and>
    t = s\<lparr>ir := ir t\<rparr>"
  using assms
proof (induction target n s arbitrary: t cs b rule: read_loop.induct)
  case (2 target n s)
  show ?case
  proof (cases "ir s = iw s")
    case True
    then show ?thesis using 2(2,3) by (auto simp: lines_def)
  next
    case False
    let ?u = "s\<lparr>ir := ir s + 1\<rparr>"
    note A = advance [OF 2(2) False]
    consider (D) "input_at s (ir s) = Ctl CHR ''D''" | (N) "input_at s (ir s) = newline" "input_at s (ir s) \<noteq> Ctl CHR ''D''"
      | (C) "input_at s (ir s) \<noteq> newline" "input_at s (ir s) \<noteq> Ctl CHR ''D''" by blast
    then show ?thesis
    proof cases
      case D
      then have "t = (if Suc n < target then s else ?u)" "cs = []" "b = None" using 2(3) False by (auto simp: Let_def)
      then show ?thesis using D A 2(2) by auto
    next
      case N
      then have "t = ?u" "cs = [input_at s (ir s)]" "b = None" using 2(3) False by (auto simp: Let_def)
      then show ?thesis using N A by auto
    next
      case C
      obtain t' cs' b' where r: "read_loop target n ?u = (t', cs', b')" by (metis prod_cases3)
      then have e: "t = t'" "cs = input_at s (ir s) # cs'" "b = b'" using 2(3) False C by (simp_all add: Let_def)
      have "input_ok t' \<and> editing t' = editing ?u \<and> (cs', lines t', b') = take_line target n (lines ?u) \<and> t' = ?u\<lparr>ir := ir t'\<rparr>"
        using 2(1) [OF False refl refl C(2,1) A(1) r] .
      then show ?thesis using A e C by (auto split: prod.splits)
    qed
  qed
qed simp

definition read_result :: "u8 \<Rightarrow> nat \<Rightarrow> nat \<Rightarrow> bool \<Rightarrow> nat \<Rightarrow> nat option \<Rightarrow> console_turn \<Rightarrow> console \<Rightarrow> bool" where
  "read_result a k i dead got b r t \<longleftrightarrow>
     (case b of
        None \<Rightarrow> r = Read_returns (int got) \<and> outside a k t
      | Some m \<Rightarrow>
          if dead then r = Read_returns (- 1) \<and> outside a k t
          else \<exists>ena. r = Read_sleeps m ena \<and> locked (conslock t) = 0 \<and> state (procs (cpst t) ! i) = SLEEPING)"

lemma consoleread_turn_ok:
  assumes s: "inside a k s" "ncli (cpus (mach (cpst s)) ! k) = 1" "cproc (cpus (mach (cpst s)) ! k) = Some i" "i < length (procs (cpst s))" and n: "n \<le> target"
  shows "\<exists>t bs r b. consoleread_turn a i target n s = Done (t, bs, r) \<and> console_ok t \<and> editing t = editing s \<and>
    (bs, lines t, b) = take_line target n (lines s) \<and> read_result a k i (killed (procs (cpst s) ! i)) (target - n + length bs) b r t"
proof -
  obtain u bs b where u: "read_loop target n s = (u, bs, b)" by (metis prod_cases3)
  have U: "input_ok u" "editing u = editing s" "(bs, lines u, b) = take_line target n (lines s)" "u = s\<lparr>ir := ir u\<rparr>"
    using read_loop_ok [OF inside_input(1) [OF s(1)] u] by auto
  have f: "cpst u = cpst s" "conslock u = conslock s" "panicked u = panicked s" "drawn_ok u = drawn_ok s"
    by (subst U(4), simp add: drawn_ok_def)+
  have I: "inside a k u" using s(1) U(1) f by (simp add: inside_def console_ok_def)
  obtain v where v: "release_cons a u = Done v" "outside a k v" "same_input u v" using release_cons_ok [OF I] by blast
  note vv = same_input_view [OF v(3)]
  show ?thesis
  proof (cases "b = None \<or> killed (procs (cpst s) ! i)")
    case True
    then obtain r where "consoleread_turn a i target n s = Done (v, bs, r)" "read_result a k i (killed (procs (cpst s) ! i)) (target - n + length bs) b r v"
      using u v f n by (cases b) (auto simp: consoleread_turn_def read_result_def of_nat_diff)
    moreover have "console_ok v" using v(2) by (simp add: outside_def)
    ultimately show ?thesis using U(2,3) vv(1,2) by auto
  next
    case False
    then obtain m where m: "b = Some m" "\<not> killed (procs (cpst s) ! i)" by auto
    have ok: "cpu_ok (mach (cpst s)) a k" "locked (ptlock (cpst s)) = 0" "locked (conslock s) \<noteq> 0" "lkcpu (conslock s) = Some k"
      using s(1) by (simp_all add: inside_def)
    obtain p l ena where p: "sleep_enter a Chan_input (Other_lock (conslock s)) (cpst s) = Done (p, Other_lock l, ena)" "locked l = 0"
      "same_table (set_proc i (\<lambda>p. p\<lparr>chan := Some Chan_input, state := SLEEPING\<rparr>) (cpst s)) p"
      using sleep_enter_other_eff [OF ok(1) s(2) ok(2-4) s(3,4)] by blast
    let ?t = "u\<lparr>cpst := p, conslock := l\<rparr>"
    have si: "same_input u ?t" by (simp add: same_input_def)
    have "console_ok ?t" using console_ok_cong [OF si] I by (simp add: inside_def)
    moreover have "state (procs p ! i) = SLEEPING" using p(3) s(4) by (simp add: same_table_def nth_upd_at)
    ultimately show ?thesis using u f p m U(2,3) same_input_view(1,2) [OF si]
      by (auto simp: consoleread_turn_def read_result_def)
  qed
qed

text \<open>The state in which processor \<open>k\<close> continues process \<open>i\<close> after a sleep: with the table lock held and the console lock free.\<close>

definition resumed :: "u8 \<Rightarrow> nat \<Rightarrow> nat \<Rightarrow> console \<Rightarrow> bool" where
  "resumed a k i s \<longleftrightarrow> console_ok s \<and> cpu_ok (mach (cpst s)) a k \<and> ncli (cpus (mach (cpst s)) ! k) = 1 \<and>
     cproc (cpus (mach (cpst s)) ! k) = Some i \<and> i < length (procs (cpst s)) \<and> holds_pt k (cpst s) \<and> locked (conslock s) = 0"

lemma consoleread_wake_ok:
  assumes s: "resumed a k i s" and n: "n \<le> target"
  shows "\<exists>t bs r b. consoleread_wake a i target n ena s = Done (t, bs, r) \<and> console_ok t \<and> editing t = editing s \<and>
    (bs, lines t, b) = take_line target n (lines s) \<and> read_result a k i (killed (procs (cpst s) ! i)) (target - n + length bs) b r t"
proof -
  have z: "console_ok s" "cpu_ok (mach (cpst s)) a k" "ncli (cpus (mach (cpst s)) ! k) = 1" "cproc (cpus (mach (cpst s)) ! k) = Some i"
    "i < length (procs (cpst s))" "holds_pt k (cpst s)" "locked (conslock s) = 0" using s by (simp_all add: resumed_def)
  obtain p l where p: "sleep_leave a i (Other_lock (conslock s)) ena (cpst s) = Done (p, Other_lock l)" "locked (ptlock p) = 0"
    "mach_eff (mach (cpst s)) (mach p) a k 0 (Some i)" "locked l \<noteq> 0" "lkcpu l = Some k"
    "same_table (set_proc i (\<lambda>p. p\<lparr>chan := None\<rparr>) (cpst s)) p"
    using sleep_leave_other_eff [OF z(2,3,6,7), of i ena] z(4) by auto
  let ?t = "s\<lparr>cpst := p, conslock := l\<rparr>"
  have si: "same_input s ?t" by (simp add: same_input_def)
  have c: "cpu_ok (mach p) a k" "ncli (cpus (mach p) ! k) = 1" "cproc (cpus (mach p) ! k) = Some i"
    using mach_eff_ok [OF p(3) z(2)] p(3) z(3) by (auto simp: mach_eff_def)
  have "console_ok ?t" using console_ok_cong [OF si] z(1) by simp
  then have I: "inside a k ?t" using p(2,4,5) c by (simp add: inside_def)
  have "length (procs p) = length (procs (cpst s))" "killed (procs p ! i) = killed (procs (cpst s) ! i)"
    using p(6) z(5) by (simp_all add: same_table_def nth_upd_at)
  then show ?thesis
    using consoleread_turn_ok [OF I, of i n target] c(2,3) z(5) n p(1) same_input_view(1,2) [OF si] by (simp add: consoleread_wake_def)
qed

subsection \<open>The keyboard\<close>

text \<open>
  The letter keys by scan code.  Without modifiers they give the small letter, with shift or caps lock the
  capital, with both the small one again, and with control the control character.
\<close>

definition letter_keys :: "(u8 \<times> char \<times> char) list" where
  "letter_keys = zip (map of_nat [0x10..<0x1A]) (zip ''qwertyuiop'' ''QWERTYUIOP'') @ zip (map of_nat [0x1E..<0x27]) (zip ''asdfghjkl'' ''ASDFGHJKL'') @
     zip (map of_nat [0x2C..<0x33]) (zip ''zxcvbnm'' ''ZXCVBNM'')"

lemma letter_keys_ok:
  "list_all (\<lambda>(k, l, u). kbdgetc 1 k 0 = (0, Some l) \<and> kbdgetc 1 k SHIFT = (SHIFT, Some u) \<and> kbdgetc 1 k CAPSLOCK = (CAPSLOCK, Some u) \<and>
     kbdgetc 1 k (SHIFT OR CAPSLOCK) = (SHIFT OR CAPSLOCK, Some l) \<and> kbdgetc 1 k CTL = (CTL, Some (Ctl u))) letter_keys"
  by code_simp

text \<open>
  C37: The console is a line discipline.  When processor \<open>k\<close> takes a keyboard or serial interrupt, in any
  state in which the invariant holds and the two locks are free, \<^verbatim>\<open>consoleintr\<close> returns, in such a
  state again (nothing is drawn outside the 53 by 20 characters of the screen), and has
  changed the input as \<open>type_char\<close> says for each character: erase and kill act on the line being
  edited only, and a line becomes readable at a newline, at control-D or when the buffer is full.
  A process that reads gets the characters of \<open>take_line\<close>: at most one line, with control-D as the
  end of the input, or goes to sleep, or returns -1 if it was killed; the line being edited is not touched.
  The same holds when it is continued after a sleep with \<open>m\<close> of the \<open>target\<close> characters still wanted.
  All this holds across the wrap of the 32-bit indices.
\<close>

theorem console_line_discipline:
  assumes "outside a k s" "ncli (cpus (mach (cpst s)) ! k) = 0" "cproc (cpus (mach (cpst s)) ! k) = Some i" "i < length (procs (cpst s))"
  shows "(\<exists>t. consoleintr a cs s = Done t \<and> outside a k t \<and> (lines t, editing t) = fold type_char cs (lines s, editing s)) \<and>
    (\<exists>t bs r b. consoleread_start a i n s = Done (t, bs, r) \<and> console_ok t \<and> editing t = editing s \<and>
       (bs, lines t, b) = take_line (nat n) (nat n) (lines s) \<and> read_result a k i (killed (procs (cpst s) ! i)) (length bs) b r t) \<and>
    (\<forall>w target m ena. resumed a k i w \<and> m \<le> target \<longrightarrow>
      (\<exists>t bs r b. consoleread_wake a i target m ena w = Done (t, bs, r) \<and> console_ok t \<and> editing t = editing w \<and>
         (bs, lines t, b) = take_line target m (lines w) \<and>
         read_result a k i (killed (procs (cpst w) ! i)) (target - m + length bs) b r t))"
proof (intro conjI)
  obtain u where u: "acquire_cons a s = Done u" "inside a k u" "same_input s u" "procs (cpst u) = procs (cpst s)"
    "ncli (cpus (mach (cpst u)) ! k) = 1" "cproc (cpus (mach (cpst u)) ! k) = Some i"
    using acquire_cons_ok [OF assms(1)] assms(2,3) by auto
  show "\<exists>t bs r b. consoleread_start a i n s = Done (t, bs, r) \<and> console_ok t \<and> editing t = editing s \<and>
       (bs, lines t, b) = take_line (nat n) (nat n) (lines s) \<and> read_result a k i (killed (procs (cpst s) ! i)) (length bs) b r t"
    using consoleread_turn_ok [OF u(2,5,6), of "nat n" "nat n"] u(1,4) same_input_view(1,2) [OF u(3)] assms(4) by (simp add: consoleread_start_def)
qed (use consoleintr_ok [OF assms(1)] consoleread_wake_ok in blast)+

text \<open>Typing \<^verbatim>\<open>lz\<close>, backspace, \<^verbatim>\<open>s\<close> and return, with the indices about to wrap.\<close>

definition typist :: pstate where
  "typist =
     \<lparr>mach = \<lparr>cpus = [\<lparr>apicid = 0, ts_esp0 = 0, started = 1, ncli = 0, intena = True, cproc = Some 0, sched_policy = 0\<rparr>],
        hw = (\<lambda>_. \<lparr>flag_if = True, cr3 = 0\<rparr>), stack_word = (\<lambda>_. 0), lk_arg = (\<lambda>_. 0)\<rparr>,
      ptlock = \<lparr>locked = 0, lkname = ''ptable'', lkcpu = None, pcs = []\<rparr>,
      procs = [\<lparr>sz = 4096, pgdir = 0, kstack = 0, state = RUNNING, pid = 1, parent = None, tf = 0, pcontext = 0, chan = None,
        killed = False, ofile = [], cwd = None, pname = ''sh'', scheduler_entry = 0, check_thread = 0\<rparr>],
      initproc = Some 0, nextpid = 2, proc_priority = [3], proc_ticks = [[0, 0, 0, 0]], proc_wait_ticks = [[0, 0, 0, 0]],
      kpgdir = 0, km = \<lparr>kmem_mem = (\<lambda>_. 0), use_lock = True, freelist = 0\<rparr>\<rparr>"

definition terminal :: console where
  "terminal =
     \<lparr>cpst = typist, conslock = \<lparr>locked = 0, lkname = ''console'', lkcpu = None, pcs = []\<rparr>, locking = True, panicked = False,
      console_pos = 0, uart = [], screen = [], ibuf = replicate 128 CHR 0x00, ir = 0xFFFFFFFE, iw = 0xFFFFFFFE, ie = 0xFFFFFFFE\<rparr>"

lemma terminal_ok: "outside 0 0 terminal" "lines terminal = []" "editing terminal = []"
  by (simp_all add: outside_def console_ok_def drawn_ok_def input_ok_def cpu_ok_def runs_on_def editing_def lines_def terminal_def typist_def INPUT_BUF_def ring_def)

theorem console_line_discipline_witness:
  "\<exists>t. consoleintr 0 [CHR ''l'', CHR ''z'', CHR 0x08, CHR ''s'', CHR 0x0D] terminal = Done t \<and> lines t = [CHR ''l'', CHR ''s'', newline] \<and> editing t = []"
proof -
  have h: "ncli (cpus (mach (cpst terminal)) ! 0) = 0" "cproc (cpus (mach (cpst terminal)) ! 0) = Some 0" "0 < length (procs (cpst terminal))"
    by (simp_all add: terminal_def typist_def)
  have "fold type_char [CHR ''l'', CHR ''z'', CHR 0x08, CHR ''s'', CHR 0x0D] ([], []) = ([CHR ''l'', CHR ''s'', newline], [])"
    by code_simp
  with conjunct1 [OF console_line_discipline [OF terminal_ok(1) h, of "[CHR ''l'', CHR ''z'', CHR 0x08, CHR ''s'', CHR 0x0D]"]] terminal_ok(2,3)
  show ?thesis by auto
qed

end
