(* ===== verification/Grep.thy ===== *)
theory Grep
  imports Printf
begin

text \<open>
  \<^verbatim>\<open>grep.c\<close>: the matcher for patterns with \<^verbatim>\<open>^ . * $\<close>, shown equivalent to the
  language of the pattern, and the loop that cuts what it reads into lines.  Strings are the characters
  before the NUL.
\<close>

subsection \<open>The matcher\<close>

fun matchhere :: "string \<Rightarrow> string \<Rightarrow> bool" and matchstar :: "char \<Rightarrow> string \<Rightarrow> string \<Rightarrow> bool" where
  "matchhere [] line \<longleftrightarrow> True"
| "matchhere (c # re) line \<longleftrightarrow>
     (if re \<noteq> [] \<and> hd re = CHR ''*'' then matchstar c (tl re) line
      else if c = CHR ''$'' \<and> re = [] then line = []
      else if line \<noteq> [] \<and> (c = CHR ''.'' \<or> c = hd line) then matchhere re (tl line)
      else False)"
| "matchstar c re line \<longleftrightarrow>
     (if matchhere re line then True
      else if line \<noteq> [] \<and> (hd line = c \<or> c = CHR ''.'') then matchstar c re (tl line)
      else False)"

declare matchstar.simps [simp del]

fun match_loop :: "string \<Rightarrow> string \<Rightarrow> bool" where
  "match_loop re line \<longleftrightarrow> (if matchhere re line then True else if line \<noteq> [] then match_loop re (tl line) else False)"

declare match_loop.simps [simp del]

definition match :: "string \<Rightarrow> string \<Rightarrow> bool" where
  "match re line \<longleftrightarrow> (if re \<noteq> [] \<and> hd re = CHR ''^'' then matchhere (tl re) line else match_loop re line)"

subsection \<open>Lines\<close>

text \<open>\<^verbatim>\<open>strchr(p, '\n')\<close> on a buffer that is closed with a NUL: the distance from \<open>p\<close>.\<close>

fun find_newline :: "string \<Rightarrow> nat option" where
  "find_newline [] = None"
| "find_newline (c # s) =
     (if c = CHR 0x00 then None else if c = CHR 0x0A then Some 0 else map_option Suc (find_newline s))"

lemma find_newline_less: "find_newline s = Some k \<Longrightarrow> k < length s"
  by (induction s arbitrary: k) (auto split: if_splits)

text \<open>The inner loop: what is written, and what is left from \<open>p\<close> on.\<close>

function scan_lines :: "string \<Rightarrow> string \<Rightarrow> string \<times> string" where
  "scan_lines pattern p =
     (case find_newline p of
        None \<Rightarrow> ([], p)
      | Some k \<Rightarrow>
          let (out, rest) = scan_lines pattern (drop (Suc k) p)
          in ((if match pattern (take k p) then take (Suc k) p else []) @ out, rest))"
  by pat_completeness auto
termination by (relation "measure (\<lambda>(r, p). length p)") (auto dest: find_newline_less)

declare scan_lines.simps [simp del]

text \<open>
  \<^verbatim>\<open>grep\<close> with the first \<^verbatim>\<open>m\<close> bytes of \<^verbatim>\<open>buf\<close> in \<open>kept\<close> and
  \<open>inp\<close> still to be read; \<open>rd\<close> is how many bytes \<^verbatim>\<open>read\<close> would deliver of what is asked for.
\<close>

function grep :: "(nat \<Rightarrow> string \<Rightarrow> nat) \<Rightarrow> string \<Rightarrow> string \<Rightarrow> string \<Rightarrow> string" where
  "grep rd pattern kept inp =
     (let want = 1024 - length kept - 1; n = min (rd want inp) (min want (length inp)) in
      if n > 0
      then let buf = kept @ take n inp; (out, p) = scan_lines pattern buf;
               kept = (if length p = length buf then [] else p)
        in out @ grep rd pattern kept (drop n inp)
      else [])"
  by pat_completeness auto
termination by (relation "measure (\<lambda>(rd, pattern, kept, inp). length inp)") auto

declare grep.simps [simp del]

text \<open>\<^verbatim>\<open>main\<close>: what is written to which descriptor; \<open>file\<close> are the files that can be opened.\<close>

fun grep_files :: "(nat \<Rightarrow> string \<Rightarrow> nat) \<Rightarrow> (string \<Rightarrow> string option) \<Rightarrow> string \<Rightarrow> string list \<Rightarrow> (nat \<times> string) list" where
  "grep_files rd file pattern [] = []"
| "grep_files rd file pattern (f # fs) =
     (case file f of
        None \<Rightarrow> [(1, ''grep: cannot open '' @ f @ [CHR 0x0A])]
      | Some inp \<Rightarrow> (1, grep rd pattern [] inp) # grep_files rd file pattern fs)"

definition grep_main :: "(nat \<Rightarrow> string \<Rightarrow> nat) \<Rightarrow> (string \<Rightarrow> string option) \<Rightarrow> string \<Rightarrow> string list \<Rightarrow> (nat \<times> string) list" where
  "grep_main rd file stdin argv =
     (case argv of
        prog # pattern # [] \<Rightarrow> [(1, grep rd pattern [] stdin)]
      | prog # pattern # fs \<Rightarrow> grep_files rd file pattern fs
      | _ \<Rightarrow> [(2, ''usage: grep pattern [file ...]'' @ [CHR 0x0A])])"

subsection \<open>The language of a pattern\<close>

text \<open>A pattern is a list of items: one character or a run of characters of a class, or the end of the text.\<close>

datatype item = One char | Star char | End

fun items :: "string \<Rightarrow> item list" where
  "items [] = []"
| "items (c # re) =
     (if re \<noteq> [] \<and> hd re = CHR ''*'' then Star c # items (tl re)
      else if c = CHR ''$'' \<and> re = [] then [End]
      else One c # items re)"

definition in_class :: "char \<Rightarrow> char \<Rightarrow> bool" where
  "in_class c x \<longleftrightarrow> c = CHR ''.'' \<or> x = c"

text \<open>The texts of the items, each with what may follow it.\<close>

inductive denotes :: "item list \<Rightarrow> string \<Rightarrow> string \<Rightarrow> bool" where
  none: "denotes [] [] v"
| one: "\<lbrakk>in_class c x; denotes is u v\<rbrakk> \<Longrightarrow> denotes (One c # is) (x # u) v"
| star: "\<lbrakk>list_all (in_class c) w; denotes is u v\<rbrakk> \<Longrightarrow> denotes (Star c # is) (w @ u) v"
| stop: "denotes [End] [] []"

inductive_cases denotes_NilE: "denotes [] u v"
inductive_cases denotes_OneE: "denotes (One c # is) u v"
inductive_cases denotes_StarE: "denotes (Star c # is) u v"
inductive_cases denotes_EndE: "denotes (End # is) u v"

definition contains :: "string \<Rightarrow> string \<Rightarrow> bool" where
  "contains re line \<longleftrightarrow>
     (if re \<noteq> [] \<and> hd re = CHR ''^'' then \<exists>u v. line = u @ v \<and> denotes (items (tl re)) u v
      else \<exists>p u v. line = p @ u @ v \<and> denotes (items re) u v)"

definition here_matches :: "string \<Rightarrow> string \<Rightarrow> bool" where
  "here_matches re line \<longleftrightarrow> (\<exists>u v. line = u @ v \<and> denotes (items re) u v)"

lemma star_matches:
  "(\<exists>u v. line = u @ v \<and> denotes (Star c # is) u v) \<longleftrightarrow>
   (\<exists>w t. line = w @ t \<and> list_all (in_class c) w \<and> (\<exists>u v. t = u @ v \<and> denotes is u v))"
  (is "?L \<longleftrightarrow> ?R")
proof
  assume ?L
  then obtain u v where u: "line = u @ v" "denotes (Star c # is) u v" by blast
  from u(2) obtain w u' where "u = w @ u'" "list_all (in_class c) w" "denotes is u' v" by (rule denotes_StarE)
  then show ?R using u(1) by (intro exI [of _ w] exI [of _ "u' @ v"]) auto
next
  assume ?R
  then obtain w u v where "line = w @ u @ v" "list_all (in_class c) w" "denotes is u v" by blast
  then show ?L by (intro exI [of _ "w @ u"] exI [of _ v]) (simp add: denotes.star)
qed

lemma one_matches:
  "(\<exists>u v. line = u @ v \<and> denotes (One c # is) u v) \<longleftrightarrow>
   line \<noteq> [] \<and> in_class c (hd line) \<and> (\<exists>u v. tl line = u @ v \<and> denotes is u v)" (is "?L \<longleftrightarrow> ?R")
proof
  assume ?L
  then obtain u v where u: "line = u @ v" "denotes (One c # is) u v" by blast
  from u(2) obtain x u' where "u = x # u'" "in_class c x" "denotes is u' v" by (rule denotes_OneE)
  then show ?R using u(1) by auto
next
  assume ?R
  then obtain x u v where "line = x # u @ v" "in_class c x" "denotes is u v" by (cases line) auto
  then show ?L by (intro exI [of _ "x # u"] exI [of _ v]) (simp add: denotes.one)
qed

definition star_here :: "char \<Rightarrow> string \<Rightarrow> string \<Rightarrow> bool" where
  "star_here c re line \<longleftrightarrow> (\<exists>w t. line = w @ t \<and> list_all (in_class c) w \<and> here_matches re t)"

lemma star_here_step:
  "star_here c re line \<longleftrightarrow> here_matches re line \<or> (line \<noteq> [] \<and> in_class c (hd line) \<and> star_here c re (tl line))" (is "?L \<longleftrightarrow> ?R")
proof
  assume ?L
  then obtain w t where w: "line = w @ t" "list_all (in_class c) w" "here_matches re t" by (auto simp: star_here_def)
  then show ?R by (cases w) (auto simp: star_here_def)
next
  assume ?R
  then show ?L
  proof (elim disjE conjE)
    assume "line \<noteq> []" "in_class c (hd line)" "star_here c re (tl line)"
    then obtain w t where "line = (hd line # w) @ t" "list_all (in_class c) (hd line # w)" "here_matches re t"
      by (cases line) (auto simp: star_here_def)
    then show ?L unfolding star_here_def by blast
  next
    assume "here_matches re line"
    then show ?L unfolding star_here_def by (intro exI [of _ "[]"] exI [of _ line]) simp
  qed
qed

lemma here_matches_Cons:
  "re \<noteq> [] \<and> hd re = CHR ''*'' \<Longrightarrow> here_matches (c # re) line \<longleftrightarrow> star_here c (tl re) line"
  "\<not> (re \<noteq> [] \<and> hd re = CHR ''*'') \<Longrightarrow> c = CHR ''$'' \<and> re = [] \<Longrightarrow> here_matches (c # re) line \<longleftrightarrow> line = []"
  "\<not> (re \<noteq> [] \<and> hd re = CHR ''*'') \<Longrightarrow> \<not> (c = CHR ''$'' \<and> re = []) \<Longrightarrow>
    here_matches (c # re) line \<longleftrightarrow> line \<noteq> [] \<and> in_class c (hd line) \<and> here_matches re (tl line)"
proof -
  show "here_matches (c # re) line \<longleftrightarrow> star_here c (tl re) line" if "re \<noteq> [] \<and> hd re = CHR ''*''"
    using that star_matches [of line c "items (tl re)"] by (simp add: here_matches_def star_here_def)
  show "here_matches (c # re) line \<longleftrightarrow> line = []" if "\<not> (re \<noteq> [] \<and> hd re = CHR ''*'')" "c = CHR ''$'' \<and> re = []"
    using that by (auto simp: here_matches_def elim: denotes_EndE intro: denotes.stop)
  assume one: "\<not> (re \<noteq> [] \<and> hd re = CHR ''*'')" "\<not> (c = CHR ''$'' \<and> re = [])"
  then have "items (c # re) = One c # items re" by auto
  then show "here_matches (c # re) line \<longleftrightarrow> line \<noteq> [] \<and> in_class c (hd line) \<and> here_matches re (tl line)"
    using one_matches [of line c "items re"] by (simp only: here_matches_def)
qed

lemma matchhere_correct:
  "matchhere re line \<longleftrightarrow> here_matches re line"
  "matchstar c re line \<longleftrightarrow> star_here c re line"
proof (induction re line and c re line rule: matchhere_matchstar.induct)
  case (1 line)
  then show ?case by (auto simp: here_matches_def intro: denotes.none)
next
  case (2 c re line)
  consider (star) "re \<noteq> [] \<and> hd re = CHR ''*''" | (stop) "\<not> (re \<noteq> [] \<and> hd re = CHR ''*'')" "c = CHR ''$'' \<and> re = []"
    | (one) "\<not> (re \<noteq> [] \<and> hd re = CHR ''*'')" "\<not> (c = CHR ''$'' \<and> re = [])" by blast
  then show ?case
  proof cases
    case star
    then show ?thesis using 2(1) here_matches_Cons(1) [OF star] by simp
  next
    case stop
    then show ?thesis using here_matches_Cons(2) [OF stop] by auto
  next
    case one
    then show ?thesis using 2(2) here_matches_Cons(3) [OF one, of line] unfolding matchhere.simps if_not_P [OF one(1)] if_not_P [OF one(2)]
      by (auto simp: in_class_def)
  qed
next
  case (3 c re line)
  then show ?case using star_here_step [of c re line] by (subst matchstar.simps) (auto simp: in_class_def)
qed

lemma match_loop_correct: "match_loop re line \<longleftrightarrow> (\<exists>p t. line = p @ t \<and> here_matches re t)"
proof (induction re line rule: match_loop.induct)
  case (1 re line)
  show ?case
  proof (cases line)
    case Nil
    then show ?thesis by (subst match_loop.simps) (simp add: matchhere_correct)
  next
    case (Cons x xs)
    have "(\<exists>p t. x # xs = p @ t \<and> here_matches re t) \<longleftrightarrow> here_matches re (x # xs) \<or> (\<exists>p t. xs = p @ t \<and> here_matches re t)"
      by (auto simp: Cons_eq_append_conv)
    then show ?thesis using 1 Cons by (subst match_loop.simps) (auto simp: matchhere_correct)
  qed
qed

lemma match_contains: "match re line \<longleftrightarrow> contains re line"
  by (auto simp: match_def contains_def matchhere_correct match_loop_correct here_matches_def)

subsection \<open>The lines of a text\<close>

abbreviation NL :: char where "NL \<equiv> CHR 0x0A"

text \<open>The lines that end in a newline, without it, and what follows the last newline.\<close>

fun split_nl :: "string \<Rightarrow> string list \<times> string" where
  "split_nl [] = ([], [])"
| "split_nl (c # s) =
     (case split_nl s of (ls, r) \<Rightarrow>
        if c = NL then ([] # ls, r) else case ls of [] \<Rightarrow> ([], c # r) | l # ls \<Rightarrow> ((c # l) # ls, r))"

definition printed :: "string \<Rightarrow> string list \<Rightarrow> string" where
  "printed pattern ls = concat (map (\<lambda>l. l @ [NL]) (filter (contains pattern) ls))"

lemma printed_simps [simp]:
  "printed pattern [] = []" "printed pattern (ls @ ls') = printed pattern ls @ printed pattern ls'"
  "printed pattern (l # ls) = (if contains pattern l then l @ [NL] else []) @ printed pattern ls"
  by (simp_all add: printed_def)

lemma split_nl_none: "NL \<notin> set s \<Longrightarrow> split_nl s = ([], s)"
  by (induction s) auto

lemma split_nl_line: "NL \<notin> set l \<Longrightarrow> split_nl (l @ NL # s) = (l # fst (split_nl s), snd (split_nl s))"
  by (induction l) (auto split: prod.splits)

lemma find_newline_none: "CHR 0x00 \<notin> set s \<Longrightarrow> find_newline s = None \<longleftrightarrow> NL \<notin> set s"
  by (induction s) auto

lemma find_newline_some:
  "find_newline s = Some k \<Longrightarrow> NL \<notin> set (take k s) \<and> s = take k s @ NL # drop (Suc k) s"
  by (induction s arbitrary: k) (auto split: if_splits)

text \<open>A text either has no newline or begins with a line.\<close>

lemma line_induct [case_names rest line]:
  assumes "\<And>s. NL \<notin> set s \<Longrightarrow> P s" "\<And>l t. NL \<notin> set l \<Longrightarrow> P t \<Longrightarrow> P (l @ NL # t)"
  shows "P s"
proof (induction "length s" arbitrary: s rule: less_induct)
  case less
  show ?case
  proof (cases "NL \<in> set s")
    case True
    then obtain l t where "s = l @ NL # t" "NL \<notin> set l" by (metis split_list_first)
    then show ?thesis using assms(2) less [of t] by simp
  qed (rule assms(1))
qed

lemma split_nl_rest: "NL \<notin> set (snd (split_nl s))" "set (snd (split_nl s)) \<subseteq> set s"
  by (induction s rule: line_induct) (auto simp: split_nl_none split_nl_line)

lemma split_nl_append: "fst (split_nl (s @ t)) = fst (split_nl s) @ fst (split_nl (snd (split_nl s) @ t))"
  by (induction s rule: line_induct) (simp_all add: split_nl_none split_nl_line)

lemma split_nl_length:
  "NL \<in> set s \<Longrightarrow> length (snd (split_nl s)) < length s"
  by (induction s rule: line_induct) (force simp: split_nl_none split_nl_line)+

lemma scan_lines_split:
  "CHR 0x00 \<notin> set s \<Longrightarrow> scan_lines pattern s = (printed pattern (fst (split_nl s)), snd (split_nl s))"
proof (induction pattern s rule: scan_lines.induct)
  case (1 pattern s)
  show ?case
  proof (cases "find_newline s")
    case None
    then show ?thesis using find_newline_none [OF 1(2)] by (subst scan_lines.simps) (simp add: split_nl_none)
  next
    case (Some k)
    let ?l = "take k s" and ?t = "drop (Suc k) s"
    have s: "NL \<notin> set ?l" "s = ?l @ NL # ?t" using find_newline_some [OF Some] by auto
    have "CHR 0x00 \<notin> set ?t" using 1(2) by (auto dest: in_set_dropD)
    from 1(1) [OF Some this] have t: "scan_lines pattern ?t = (printed pattern (fst (split_nl ?t)), snd (split_nl ?t))" .
    have "take (Suc k) s = ?l @ [NL]" using find_newline_less [OF Some] s(2) by (simp add: take_Suc_conv_app_nth) (metis append_take_drop_id id_take_nth_drop append_same_eq list.inject same_append_eq)
    then have "scan_lines pattern s = (printed pattern (?l # fst (split_nl ?t)), snd (split_nl ?t))"
      using Some t by (subst scan_lines.simps) (simp add: match_contains)
    moreover have "split_nl s = (?l # fst (split_nl ?t), snd (split_nl ?t))" using split_nl_line [OF s(1), of ?t] s(2) by simp
    ultimately show ?thesis by simp
  qed
qed

subsection \<open>The whole loop\<close>

text \<open>\<^verbatim>\<open>read\<close> delivers all that is asked for, up to the end of the file.\<close>

definition fills :: "(nat \<Rightarrow> string \<Rightarrow> nat) \<Rightarrow> bool" where
  "fills rd \<longleftrightarrow> (\<forall>want inp. min want (length inp) \<le> rd want inp)"

definition short_lines :: "string \<Rightarrow> bool" where
  "short_lines s \<longleftrightarrow> (\<forall>l\<in>set (fst (split_nl s)). length l \<le> 1022)"

lemma long_prefix:
  assumes "short_lines (s @ t)" "NL \<notin> set s" "1022 < length s" shows "NL \<notin> set t"
proof
  assume "NL \<in> set t"
  then obtain l u where t: "t = l @ NL # u" "NL \<notin> set l" by (metis split_list_first)
  then have "split_nl (s @ t) = ((s @ l) # fst (split_nl u), snd (split_nl u))" using assms(2) split_nl_line [of "s @ l" u] by simp
  then show False using assms(1,3) by (simp add: short_lines_def)
qed

lemma short_lines_rest: "short_lines (s @ t) \<Longrightarrow> short_lines (snd (split_nl s) @ t)"
  unfolding short_lines_def by (subst (asm) split_nl_append) simp

lemma grep_loop:
  assumes "fills rd" "NL \<notin> set kept" "length kept \<le> 1022" "CHR 0x00 \<notin> set (kept @ inp)" "short_lines (kept @ inp)"
  shows "grep rd pattern kept inp = printed pattern (fst (split_nl (kept @ inp)))"
  using assms
proof (induction "length inp" arbitrary: kept inp rule: less_induct)
  case less
  let ?want = "1024 - length kept - 1"
  define n where "n = min ?want (length inp)"
  define buf where "buf = kept @ take n inp"
  have n: "min (rd ?want inp) (min ?want (length inp)) = n" using less.prems(1) unfolding fills_def n_def by (intro min.absorb2) blast
  have z: "CHR 0x00 \<notin> set buf" "CHR 0x00 \<notin> set (drop n inp)" using less.prems(4) by (auto simp: buf_def dest: in_set_takeD in_set_dropD)
  have all: "kept @ inp = buf @ drop n inp" by (simp add: buf_def)
  show ?case
  proof (cases "n > 0")
    case False
    then have "inp = []" using less.prems(3) by (auto simp: n_def)
    then show ?thesis using less.prems(2) by (subst grep.simps) (simp add: split_nl_none)
  next
    case True
    let ?r = "snd (split_nl buf)"
    define kept' where "kept' = (if length ?r = length buf then [] else ?r)"
    have sc: "scan_lines pattern buf = (printed pattern (fst (split_nl buf)), ?r)" by (rule scan_lines_split [OF z(1)])
    have G: "grep rd pattern kept inp = printed pattern (fst (split_nl buf)) @ grep rd pattern kept' (drop n inp)"
      by (subst grep.simps) (simp only: Let_def n if_P [OF True] buf_def [symmetric] sc prod.case kept'_def)
    have len: "length buf \<le> 1023" using less.prems(3) by (auto simp: buf_def n_def)
    have IH: "grep rd pattern kept' (drop n inp) = printed pattern (fst (split_nl (kept' @ drop n inp)))"
      if "NL \<notin> set kept'" "length kept' \<le> 1022" "CHR 0x00 \<notin> set (kept' @ drop n inp)" "short_lines (kept' @ drop n inp)"
      by (rule less.hyps [OF _ less.prems(1) that]) (use True in \<open>simp add: n_def\<close>)
    show ?thesis
    proof (cases "NL \<in> set buf")
      case nl: True
      have k: "kept' = ?r" "length ?r < length buf" using split_nl_length [OF nl] by (simp_all add: kept'_def)
      have "grep rd pattern kept' (drop n inp) = printed pattern (fst (split_nl (?r @ drop n inp)))"
        using IH k len z split_nl_rest [of buf] short_lines_rest [of buf "drop n inp"] less.prems(5) all by auto
      then show ?thesis unfolding G all by (subst split_nl_append) simp
    next
      case False
      then have s: "split_nl buf = ([], buf)" "kept' = []" by (simp_all add: split_nl_none kept'_def)
      have d: "NL \<notin> set (drop n inp)"
      proof (cases "n = length inp")
        case False
        then have "1022 < length buf" using less.prems(3) by (auto simp: n_def buf_def)
        then show ?thesis using long_prefix [of buf "drop n inp"] \<open>NL \<notin> set buf\<close> less.prems(5) all by simp
      qed simp
      then have "grep rd pattern kept' (drop n inp) = []" using IH s(2) z(2) by (simp add: split_nl_none short_lines_def)
      moreover have "split_nl (buf @ drop n inp) = ([], buf @ drop n inp)" using False d by (intro split_nl_none) simp
      ultimately show ?thesis unfolding G all using s by simp
    qed
  qed
qed

text \<open>
  C38: \<^verbatim>\<open>grep\<close> prints exactly the lines that match.  For an input without NUL
  bytes whose lines have at most 1022 characters, read by a \<^verbatim>\<open>read\<close> that delivers what is asked for, the
  output is the lines, in order, of which some part is in the language of the pattern (at the start
  of the line after \<^verbatim>\<open>^\<close>, up to its end before \<^verbatim>\<open>$\<close>); text after the last newline is never printed.
\<close>

theorem grep_prints_matching_lines:
  assumes "fills rd" "CHR 0x00 \<notin> set inp" "\<forall>l\<in>set (fst (split_nl inp)). length l \<le> 1022"
  shows "grep rd pattern [] inp = concat (map (\<lambda>l. l @ [NL]) (filter (contains pattern) (fst (split_nl inp))))"
  using grep_loop [of rd "[]" inp pattern] assms by (simp add: short_lines_def printed_def)

theorem grep_prints_matching_lines_witness:
  "grep (\<lambda>want inp. want) ''b*c$'' [] (''abbc'' @ NL # ''cb'' @ NL # ''c'' @ [NL]) = ''abbc'' @ NL # ''c'' @ [NL]"
proof -
  let ?inp = "''abbc'' @ NL # ''cb'' @ NL # ''c'' @ [NL]"
  have s: "fst (split_nl ?inp) = [''abbc'', ''cb'', ''c'']" by code_simp
  have "match ''b*c$'' ''abbc''" "\<not> match ''b*c$'' ''cb''" "match ''b*c$'' ''c''" by code_simp+
  then have c: "filter (contains ''b*c$'') [''abbc'', ''cb'', ''c''] = [''abbc'', ''c'']" by (simp add: match_contains)
  have h: "fills (\<lambda>want inp. want)" "CHR 0x00 \<notin> set ?inp" "\<forall>l\<in>set (fst (split_nl ?inp)). length l \<le> 1022"
    unfolding s by (simp_all add: fills_def)
  show ?thesis using grep_prints_matching_lines [OF h, of "''b*c$''"] unfolding s c by simp
qed

text \<open>
  A read that stops inside a line, as reads from a pipe or the console do, loses that part of the line: with
  no newline in the buffer, \<^verbatim>\<open>m\<close> is set to 0.
\<close>

lemma short_read_loses_line:
  "grep (\<lambda>want inp. 3) ''hello'' [] (''hello'' @ [NL]) = []" "contains ''hello'' ''hello''"
proof -
  show "grep (\<lambda>want inp. 3) ''hello'' [] (''hello'' @ [NL]) = []" by code_simp
  have "match ''hello'' ''hello''" by code_simp
  then show "contains ''hello'' ''hello''" by (simp add: match_contains)
qed

end
