(* ===== verification/User_Memory.thy ===== *)
theory User_Memory
  imports Cstring Layout
begin

text \<open>
  Words in the memory of a user process: what a store changes, in terms of the addresses as
  natural numbers.
\<close>

lemma unat_minus_32: "x \<noteq> 0 \<Longrightarrow> unat (- x :: u32) = 4294967296 - unat x"
proof -
  assume "x \<noteq> 0"
  then have x: "0 < unat x" "unat x < 4294967296" using unat_less_32 [of x] by (simp_all add: unat_gt_0)
  have e: "- x = of_nat (4294967296 - unat x)" using x by (simp add: of_nat_diff)
  show ?thesis unfolding e using x by (intro unat_of_nat_32) simp
qed

lemma load32_other:
  assumes "unat a + 4 \<le> unat b \<or> unat b + 4 \<le> unat a" "unat a + 4 \<le> 4294967296" "unat b + 4 \<le> 4294967296"
  shows "load32 (store32 m a v) b = load32 m b"
proof -
  have "store32 m a v (b + of_nat j) = m (b + of_nat j)" if "j < 4" for j
  proof (rule store32_other)
    have u: "unat (b + of_nat j) = unat b + j" using that assms(3) unat_add_32 [of b "of_nat j"] by (simp add: unat_of_nat)
    show "4 \<le> unat (b + of_nat j - a)"
    proof (cases "a \<le> b + of_nat j")
      case True
      then have "unat (b + of_nat j - a) = unat b + j - unat a" using u by (simp add: unat_sub)
      then show ?thesis using assms True u that by (auto simp: word_le_nat_alt)
    next
      case False
      then have lt: "unat b + j < unat a" using u by (simp add: word_le_nat_alt)
      have "unat (a - (b + of_nat j)) = unat a - (unat b + j)" using False u by (simp add: unat_sub)
      moreover have "b + of_nat j - a = - (a - (b + of_nat j))" by simp
      ultimately have "unat (b + of_nat j - a) = 4294967296 - (unat a - (unat b + j))"
        using lt unat_minus_32 [of "a - (b + of_nat j)"] False by auto
      then show ?thesis using lt assms(2) by simp
    qed
  qed
  from this [of 0] this [of 1] this [of 2] this [of 3] show ?thesis by (simp add: load32_def)
qed

lemma store32_away:
  assumes "unat a < unat q \<or> unat q + 4 \<le> unat a" "unat q + 4 \<le> 4294967296"
  shows "store32 m q v a = m a"
proof -
  have "a \<noteq> q + of_nat j" if "j < 4" for j
  proof
    assume "a = q + of_nat j"
    then have "unat a = unat q + j" using that assms(2) unat_add_32 [of q "of_nat j"] by (simp add: unat_of_nat)
    then show False using that assms(1) by auto
  qed
  from this [of 0] this [of 1] this [of 2] this [of 3] show ?thesis by (simp add: store32_def)
qed

text \<open>Memories that agree on the addresses \<open>A\<close>.\<close>

definition same_on :: "nat set \<Rightarrow> mem \<Rightarrow> mem \<Rightarrow> bool" where
  "same_on A m m' \<longleftrightarrow> (\<forall>a. unat a \<in> A \<longrightarrow> m' a = m a)"

lemma same_onD: "same_on A m m' \<Longrightarrow> unat a \<in> A \<Longrightarrow> m' a = m a"
  by (simp add: same_on_def)

lemma same_on_refl [simp]: "same_on A m m"
  by (simp add: same_on_def)

lemma same_on_trans: "same_on A m m' \<Longrightarrow> same_on B m' m'' \<Longrightarrow> same_on (A \<inter> B) m m''"
  by (simp add: same_on_def)

lemma same_on_mono: "same_on A m m' \<Longrightarrow> B \<subseteq> A \<Longrightarrow> same_on B m m'"
  by (auto simp: same_on_def)

lemma store32_same_on: "unat q + 4 \<le> 4294967296 \<Longrightarrow> same_on (- {unat q..<unat q + 4}) m (store32 m q v)"
  by (auto simp: same_on_def not_less intro!: store32_away)

lemma load32_same_on:
  assumes "same_on A m m'" "{unat p..<unat p + 4} \<subseteq> A" "unat p + 4 \<le> 4294967296"
  shows "load32 m' p = load32 m p"
proof -
  have "m' (p + of_nat j) = m (p + of_nat j)" if "j < 4" for j
    using that assms(2,3) unat_add_32 [of p "of_nat j"] by (intro same_onD [OF assms(1)]) (auto simp: unat_of_nat)
  from this [of 0] this [of 1] this [of 2] this [of 3] show ?thesis by (simp add: load32_def)
qed

end
