(* ===== verification/Umalloc.thy ===== *)
theory Umalloc
  imports Sbrk User_Memory
begin

text \<open>
  The user-level allocator, \<^verbatim>\<open>umalloc.c\<close>: free blocks in a circular list in order of address, with
  headers of 8 bytes in the memory of the process.  Pointers are addresses, and \<^verbatim>\<open>p + n\<close> on pointers to
  headers is \<open>p + 8 * n\<close>.  The searches follow pointers in memory and end only if the list is in
  order; \<open>None\<close> is a search that does not end.
\<close>

record uheap =
  um :: mem
  freep :: u32
  brk :: u32

definition hptr :: "mem \<Rightarrow> u32 \<Rightarrow> u32" where "hptr m p = load32 m p"
definition hsize :: "mem \<Rightarrow> u32 \<Rightarrow> u32" where "hsize m p = load32 m (p + 4)"
definition set_ptr :: "mem \<Rightarrow> u32 \<Rightarrow> u32 \<Rightarrow> mem" where "set_ptr m p v = store32 m p v"
definition set_size :: "mem \<Rightarrow> u32 \<Rightarrow> u32 \<Rightarrow> mem" where "set_size m p v = store32 m (p + 4) v"

text \<open>The loop of \<^verbatim>\<open>free\<close>.\<close>

partial_function (option) free_place :: "mem \<Rightarrow> u32 \<Rightarrow> u32 \<Rightarrow> u32 option" where
  "free_place m bp p =
     (if bp > p \<and> bp < hptr m p then Some p
      else if p \<ge> hptr m p \<and> (bp > p \<or> bp < hptr m p) then Some p
      else free_place m bp (hptr m p))"

definition join_upper :: "u32 \<Rightarrow> u32 \<Rightarrow> mem \<Rightarrow> mem" where
  "join_upper bp p m =
     (if bp + 8 * hsize m bp = hptr m p
      then let m = set_size m bp (hsize m bp + hsize m (hptr m p)) in set_ptr m bp (hptr m (hptr m p))
      else set_ptr m bp (hptr m p))"

definition join_lower :: "u32 \<Rightarrow> u32 \<Rightarrow> mem \<Rightarrow> mem" where
  "join_lower bp p m =
     (if p + 8 * hsize m p = bp
      then let m = set_size m p (hsize m p + hsize m bp) in set_ptr m p (hptr m bp)
      else set_ptr m p bp)"

definition free :: "u32 \<Rightarrow> uheap \<Rightarrow> uheap option" where
  "free ap s =
     (let bp = ap - 8 in
      map_option (\<lambda>p. s\<lparr>um := join_lower bp p (join_upper bp p (um s)), freep := p\<rparr>) (free_place (um s) bp (freep s)))"

text \<open>
  The system call, as \<open>sys_sbrk\<close> answers it for a process of size \<open>brk\<close>: a negative amount clears the
  pages it takes away.
\<close>

definition usbrk :: "u32 \<Rightarrow> uheap \<Rightarrow> uheap \<times> u32" where
  "usbrk n s =
     (let z = brk s; s = s\<lparr>um := \<lambda>a. if n <s 0 \<and> cleared z (z + n) a then 0 else um s a\<rparr> in
      if sbrk_fails z n then (s, - 1) else (s\<lparr>brk := z + n\<rparr>, z))"

definition morecore :: "u32 \<Rightarrow> uheap \<Rightarrow> (uheap \<times> u32) option" where
  "morecore nu s =
     (let nu = (if nu < 4096 then 4096 else nu); (s, p) = usbrk (nu * 8) s in
      if p = - 1 then Some (s, 0)
      else map_option (\<lambda>s. (s, freep s)) (free (p + 8) (s\<lparr>um := set_size (um s) p nu\<rparr>)))"

text \<open>What \<^verbatim>\<open>malloc\<close> does with a block \<open>p\<close> that is large enough, after \<open>prevp\<close> in the list.\<close>

definition take_block :: "u32 \<Rightarrow> u32 \<Rightarrow> u32 \<Rightarrow> uheap \<Rightarrow> uheap \<times> u32" where
  "take_block nunits prevp p s =
     (let m = um s in
      if hsize m p = nunits then (s\<lparr>um := set_ptr m prevp (hptr m p), freep := prevp\<rparr>, p + 8)
      else let m = set_size m p (hsize m p - nunits); p = p + 8 * hsize m p; m = set_size m p nunits
        in (s\<lparr>um := m, freep := prevp\<rparr>, p + 8))"

partial_function (option) malloc_loop :: "u32 \<Rightarrow> u32 \<Rightarrow> u32 \<Rightarrow> uheap \<Rightarrow> (uheap \<times> u32) option" where
  "malloc_loop nunits prevp p s =
     (if hsize (um s) p \<ge> nunits then Some (take_block nunits prevp p s)
      else if p = freep s
      then Option.bind (morecore nunits s) (\<lambda>(s, p).
           if p = 0 then Some (s, 0) else malloc_loop nunits p (hptr (um s) p) s)
      else malloc_loop nunits p (hptr (um s) p) s)"

text \<open>\<open>base\<close> is the address of the static header.\<close>

definition malloc :: "u32 \<Rightarrow> u32 \<Rightarrow> uheap \<Rightarrow> (uheap \<times> u32) option" where
  "malloc base nbytes s =
     (let nunits = (nbytes + 8 - 1) div 8 + 1;
          s = (if freep s = 0 then s\<lparr>um := set_size (set_ptr (um s) base base) base 0, freep := base\<rparr> else s)
      in malloc_loop nunits (freep s) (hptr (um s) (freep s)) s)"

subsection \<open>Headers in memory\<close>

text \<open>Two headers that do not overlap.\<close>

definition clear :: "u32 \<Rightarrow> u32 \<Rightarrow> bool" where
  "clear p q \<longleftrightarrow> unat p + 8 \<le> unat q \<or> unat q + 8 \<le> unat p"

lemma unat_field: "unat p + 8 \<le> 4294967296 \<Longrightarrow> unat (p + 4 :: u32) = unat p + 4"
  using unat_add_32 [of p 4] by simp

lemma set_same [simp]:
  assumes "unat p + 8 \<le> 4294967296"
  shows "hptr (set_ptr m p v) p = v" "hsize (set_ptr m p v) p = hsize m p" "hptr (set_size m p n) p = hptr m p" "hsize (set_size m p n) p = n"
  using assms unat_field [OF assms] by (simp_all add: hptr_def hsize_def set_ptr_def set_size_def load32_other)

lemma set_clear [simp]:
  assumes "clear p q" "unat p + 8 \<le> 4294967296" "unat q + 8 \<le> 4294967296"
  shows "hptr (set_ptr m p v) q = hptr m q" "hsize (set_ptr m p v) q = hsize m q"
    "hptr (set_size m p n) q = hptr m q" "hsize (set_size m p n) q = hsize m q"
  unfolding hptr_def hsize_def set_ptr_def set_size_def using assms unat_field [OF assms(2)] unat_field [OF assms(3)]
  by (auto simp: clear_def intro!: load32_other)

lemma clear_sym: "clear p q \<longleftrightarrow> clear q p"
  by (auto simp: clear_def)

text \<open>Bytes outside a header do not change when the header does.\<close>

lemma set_bytes:
  assumes "unat p + 8 \<le> 4294967296" "unat a < unat p \<or> unat p + 8 \<le> unat a"
  shows "set_ptr m p v a = m a" "set_size m p n a = m a"
  using store32_away [of a p] store32_away [of a "p + 4"] assms unat_field [OF assms(1)] by (auto simp: set_ptr_def set_size_def)

end
