(* ===== verification/Umalloc_Heap.thy ===== *)
theory Umalloc_Heap
  imports Umalloc Printf
begin

text \<open>
  The allocator of user programs is safe: the free list stays an ordered circular list of blocks that
  overlap neither each other nor a block that is in use, both searches end, and no byte
  of a block in use is written.
\<close>

subsection \<open>Blocks\<close>

type_synonym block = "u32 \<times> nat"

definition lo :: "block \<Rightarrow> nat" where "lo b = unat (fst b)"
definition hi :: "block \<Rightarrow> nat" where "hi b = unat (fst b) + 8 * snd b"

definition apart :: "block \<Rightarrow> block \<Rightarrow> bool" where
  "apart b c \<longleftrightarrow> hi b \<le> lo c \<or> hi c \<le> lo b"

text \<open>Blocks in order of address from \<open>a\<close> on.\<close>

fun ordered :: "nat \<Rightarrow> block list \<Rightarrow> bool" where
  "ordered a [] \<longleftrightarrow> True"
| "ordered a (b # bs) \<longleftrightarrow> a \<le> lo b \<and> 1 \<le> snd b \<and> ordered (hi b) bs"

definition inside_heap :: "u32 \<Rightarrow> uheap \<Rightarrow> block \<Rightarrow> bool" where
  "inside_heap base s b \<longleftrightarrow> unat base + 8 \<le> lo b \<and> 1 \<le> snd b \<and> hi b \<le> unat (brk s) \<and> hsize (um s) (fst b) = of_nat (snd b)"

text \<open>The pointers of the headers in \<open>L\<close> form a circle.\<close>

definition cyc :: "mem \<Rightarrow> u32 list \<Rightarrow> bool" where
  "cyc m L \<longleftrightarrow> map (hptr m) L = rotate1 L"

definition heap_ok :: "u32 \<Rightarrow> uheap \<Rightarrow> block list \<Rightarrow> block set \<Rightarrow> bool" where
  "heap_ok base s fr us \<longleftrightarrow>
     base \<noteq> 0 \<and> unat base + 8 \<le> unat (brk s) \<and> unat (brk s) \<le> 2147483648 \<and> hsize (um s) base = 0 \<and>
     ordered (unat base + 8) fr \<and> cyc (um s) (base # map fst fr) \<and> freep s \<in> set (base # map fst fr) \<and>
     (\<forall>b\<in>set fr \<union> us. inside_heap base s b) \<and> (\<forall>b\<in>us. \<forall>c\<in>set fr. apart b c) \<and>
     (\<forall>b\<in>us. \<forall>c\<in>us. b \<noteq> c \<longrightarrow> apart b c)"

text \<open>The bytes behind the header of every block in use are as they were.\<close>

definition keeps :: "block set \<Rightarrow> mem \<Rightarrow> mem \<Rightarrow> bool" where
  "keeps us m m' \<longleftrightarrow> (\<forall>b\<in>us. \<forall>a. lo b + 8 \<le> unat a \<and> unat a < hi b \<longrightarrow> m' a = m a)"

lemma keeps_trans: "keeps us m m' \<Longrightarrow> keeps us m' m'' \<Longrightarrow> keeps us m m''"
  by (simp add: keeps_def)

subsection \<open>Circles\<close>

lemma cyc_Cons: "cyc m (x # xs) \<longleftrightarrow> hptr m x # map (hptr m) xs = xs @ [x]"
  by (simp add: cyc_def)

lemma cyc_rotate: "cyc m (xs @ ys) \<longleftrightarrow> cyc m (ys @ xs)"
proof -
  have "cyc m (ys @ xs)" if "cyc m (xs @ ys)" for xs ys :: "u32 list"
  proof -
    have e: "ys @ xs = rotate (length xs) (xs @ ys)" by (simp add: rotate_append)
    have "map (hptr m) (xs @ ys) = rotate1 (xs @ ys)" using that by (simp only: cyc_def)
    then show ?thesis unfolding cyc_def e rotate_map [symmetric] rotate1_rotate_swap by (rule arg_cong)
  qed
  then show ?thesis by blast
qed

lemma cyc_cong: "(\<And>x. x \<in> set L \<Longrightarrow> hptr m' x = hptr m x) \<Longrightarrow> cyc m' L = cyc m L"
  by (simp add: cyc_def cong: map_cong)

lemma cyc_inj:
  assumes "cyc m L" "distinct L" "x \<in> set L" "y \<in> set L" "hptr m x = hptr m y" shows "x = y"
proof -
  have "distinct (map (hptr m) L)" using assms(1,2) by (simp add: cyc_def)
  then show ?thesis using assms(3-5) by (auto simp: distinct_map inj_on_def)
qed

text \<open>Taking an element out of a circle, and putting one in.\<close>

lemma cyc_remove:
  assumes "cyc m (p # x # R)" "hptr m' p = hptr m x" "\<And>y. y \<in> set R \<Longrightarrow> hptr m' y = hptr m y"
  shows "cyc m' (p # R)"
  using assms by (simp add: cyc_Cons cong: map_cong)

lemma cyc_insert:
  assumes "cyc m (p # R)" "hptr m' p = x" "hptr m' x = hptr m p" "\<And>y. y \<in> set R \<Longrightarrow> hptr m' y = hptr m y"
  shows "cyc m' (p # x # R)"
  using assms by (simp add: cyc_Cons cong: map_cong)

text \<open>The next element, and that the circle is walked from any of its elements.\<close>

lemma cyc_next: "cyc m (p # R) \<Longrightarrow> hptr m p = hd (R @ [p])"
  by (cases R) (auto simp: cyc_Cons)

subsection \<open>Order\<close>

lemma ordered_mono: "ordered a bs \<Longrightarrow> a' \<le> a \<Longrightarrow> ordered a' bs"
  by (cases bs) auto

lemma ordered_append:
  "ordered a (bs @ cs) \<longleftrightarrow> ordered a bs \<and> ordered (if bs = [] then a else hi (last bs)) cs"
  by (induction bs arbitrary: a) auto

lemma ordered_bounds: "ordered a bs \<Longrightarrow> b \<in> set bs \<Longrightarrow> a \<le> lo b \<and> 1 \<le> snd b"
  by (induction bs arbitrary: a) (force simp: hi_def lo_def)+

lemma ordered_before: "ordered a (bs @ b # cs) \<Longrightarrow> c \<in> set bs \<Longrightarrow> hi c \<le> lo b"
proof (induction bs arbitrary: a)
  case (Cons x bs)
  then show ?case using ordered_bounds [of "hi x" "bs @ b # cs" b] by auto
qed simp

lemma ordered_apart: "ordered a (bs @ b # cs) \<Longrightarrow> c \<in> set (bs @ cs) \<Longrightarrow> apart b c"
proof -
  assume o: "ordered a (bs @ b # cs)" and c: "c \<in> set (bs @ cs)"
  have "hi c \<le> lo b" if "c \<in> set bs" using ordered_before [OF o that] .
  moreover have "hi b \<le> lo c" if "c \<in> set cs" using o that ordered_bounds [of "hi b" cs c] by (auto simp: ordered_append)
  ultimately show ?thesis using c by (auto simp: apart_def)
qed

lemma ordered_distinct: "ordered a bs \<Longrightarrow> distinct (map fst bs) \<and> (\<forall>p\<in>fst ` set bs. a \<le> unat p)"
proof (induction bs arbitrary: a)
  case (Cons b bs)
  then have "distinct (map fst bs)" "\<forall>p\<in>fst ` set bs. hi b \<le> unat p" "lo b < hi b" by (auto simp: lo_def hi_def)
  then show ?case using Cons.prems by (force simp: lo_def)
qed simp

lemma heap_distinct:
  assumes "ordered (unat base + 8) fr" shows "distinct (base # map fst fr)"
  using ordered_distinct [OF assms] by force

text \<open>Headers of the base and of blocks that are apart do not overlap.\<close>

lemma apart_clear: "apart b c \<Longrightarrow> 1 \<le> snd b \<Longrightarrow> 1 \<le> snd c \<Longrightarrow> clear (fst b) (fst c)"
  by (auto simp: apart_def clear_def lo_def hi_def)

lemma base_clear: "inside_heap base s b \<Longrightarrow> clear base (fst b)"
  by (auto simp: inside_heap_def clear_def lo_def)

lemma split_at:
  assumes "ordered a fr" "\<forall>c\<in>set fr. apart b c" "1 \<le> snd b"
  shows "\<exists>A C. fr = A @ C \<and> (\<forall>c\<in>set A. hi c \<le> lo b) \<and> (\<forall>c\<in>set C. hi b \<le> lo c)"
  using assms(1,2)
proof (induction fr arbitrary: a)
  case (Cons x fr)
  then obtain A C where A: "fr = A @ C" "\<forall>c\<in>set A. hi c \<le> lo b" "\<forall>c\<in>set C. hi b \<le> lo c"
    using Cons.IH [of "hi x"] by auto
  show ?case
  proof (cases "hi x \<le> lo b")
    case True
    then show ?thesis using A by (intro exI [of _ "x # A"] exI [of _ C]) auto
  next
    case False
    then have x: "hi b \<le> lo x" using Cons.prems(2) by (auto simp: apart_def)
    have "hi b \<le> lo c" if "c \<in> set fr" for c
      using ordered_bounds [of "hi x" fr c] Cons.prems(1) x that by (auto simp: hi_def lo_def)
    then show ?thesis using x by (intro exI [of _ "[]"] exI [of _ "x # fr"]) auto
  qed
qed simp

lemma apart_join:
  assumes "apart c b" "apart c d" "hi b = lo d" "1 \<le> snd c" shows "apart c (fst b, snd b + snd d)"
  using assms by (auto simp: apart_def hi_def lo_def)

lemma inside_bounds:
  assumes "inside_heap base s b" "unat (brk s) \<le> 2147483648"
  shows "unat (fst b) + 8 \<le> 4294967296" "8 * snd b \<le> 2147483648" "hi b \<le> 2147483648"
  using assms by (auto simp: inside_heap_def hi_def lo_def)

text \<open>The address right after a block.\<close>

lemma block_end:
  assumes "hi (p, n) \<le> 2147483648" shows "unat (p + 8 * of_nat n) = hi (p, n)" "unat (of_nat n :: u32) = n"
proof -
  have n: "8 * n \<le> 2147483648" using assms by (simp add: hi_def)
  have w: "8 * of_nat n = (of_nat (8 * n) :: u32)" by simp
  show "unat (p + 8 * of_nat n) = hi (p, n)"
    unfolding w using unat_add_32 [of p "of_nat (8 * n)"] unat_of_nat_32 [of "8 * n"] n assms by (simp add: hi_def)
  show "unat (of_nat n :: u32) = n" using n by (intro unat_of_nat_32) simp
qed

subsection \<open>Looking for the place of a block\<close>

lemma place_walk:
  assumes "map (hptr m) xs = tl (xs @ [z])" "\<And>x. x \<in> set xs \<Longrightarrow> free_place m bp x = free_place m bp (hptr m x)" "x \<in> set (xs @ [z])"
  shows "free_place m bp x = free_place m bp z"
  using assms
proof (induction xs arbitrary: x)
  case (Cons y xs)
  have h: "hptr m y = hd (xs @ [z])" "map (hptr m) xs = tl (xs @ [z])" using Cons.prems(1) by (cases xs; simp)+
  show ?case
  proof (cases "x = y")
    case True
    have "free_place m bp (hd (xs @ [z])) = free_place m bp z" by (rule Cons.IH [OF h(2)]) (use Cons.prems(2) in \<open>cases xs; auto\<close>)+
    then show ?thesis using Cons.prems(2) [of y] h(1) True by simp
  next
    case False
    then show ?thesis using Cons.prems by (intro Cons.IH [OF h(2)]) auto
  qed
qed simp

lemma path_next:
  assumes "map f (xs @ x # ys) = tl ((xs @ x # ys) @ [z])" shows "f x = hd (ys @ [z])"
proof -
  have "map f (xs @ x # ys) ! length xs = f x" by (simp add: nth_append)
  moreover have "tl ((xs @ x # ys) @ [z]) ! length xs = (ys @ [z]) ! 0" by (simp add: nth_tl nth_append)
  ultimately show ?thesis using assms by (simp add: hd_conv_nth)
qed

text \<open>The walk below the block, and the walk above it, around to the lowest header \<open>z\<close>.\<close>

lemma walk_below:
  assumes o: "sorted_wrt (<) (P @ [p])" and c: "map (hptr m) P = tl (P @ [p])" and bp: "p < bp" and x: "x \<in> set (P @ [p])"
  shows "free_place m bp x = free_place m bp p"
proof (rule place_walk [OF c _ x])
  fix x assume "x \<in> set P"
  then obtain P1 P2 where P: "P = P1 @ x # P2" by (auto dest: split_list)
  then have h: "hptr m x = hd (P2 @ [p])" using c path_next [of "hptr m" P1 x P2 p] by simp
  have "hptr m x \<in> set (P2 @ [p])" unfolding h by (cases P2) auto
  then have "x < hptr m x" "hptr m x \<le> p" using o P by (auto simp: sorted_wrt_append)
  then show "free_place m bp x = free_place m bp (hptr m x)" using bp by (subst free_place.simps) auto
qed

lemma walk_above:
  assumes o: "sorted_wrt (<) K" and c: "map (hptr m) K = tl (K @ [z])" and bp: "z < bp" "\<forall>x\<in>set K. bp < x" and x: "x \<in> set (K @ [z])"
  shows "free_place m bp x = free_place m bp z"
proof (rule place_walk [OF c _ x])
  fix x assume "x \<in> set K"
  then obtain K1 K2 where K: "K = K1 @ x # K2" by (auto dest: split_list)
  have h: "hptr m x = hd (K2 @ [z])" using c path_next [of "hptr m" K1 x K2 z] K by simp
  have b: "bp < x" using bp(2) K by auto
  show "free_place m bp x = free_place m bp (hptr m x)"
  proof (cases K2)
    case Nil
    then show ?thesis using h b bp(1) by (subst free_place.simps) auto
  next
    case (Cons y ys)
    then have "x < y" using o K by (auto simp: sorted_wrt_append)
    then show ?thesis using h Cons b by (subst free_place.simps) auto
  qed
qed

lemma free_place_ok:
  assumes c: "cyc m (P @ p # K)" and o: "sorted_wrt (<) (P @ [p])" "sorted_wrt (<) K"
    and bp: "p < bp" "\<forall>x\<in>set K. bp < x" and f: "f \<in> set (P @ p # K)"
  shows "free_place m bp f = Some p"
proof -
  define z where "z = hd (P @ [p])"
  have zP: "z \<in> set (P @ [p])" unfolding z_def by (cases P) auto
  then have z: "z \<le> p" using o(1) by (auto simp: sorted_wrt_append)
  have c1: "map (hptr m) P @ hptr m p # map (hptr m) K = tl (P @ [p]) @ K @ [z]"
    using c by (cases P) (simp_all add: cyc_def z_def)
  then have cP: "map (hptr m) P = tl (P @ [p])" and cK: "hptr m p # map (hptr m) K = K @ [z]"
    by (simp_all add: append_eq_append_conv)
  have pp: "free_place m bp p = Some p"
  proof (cases K)
    case Nil
    then show ?thesis using cK z bp(1) by (subst free_place.simps) (auto simp: not_less)
  next
    case (Cons y ys)
    then show ?thesis using cK bp by (subst free_place.simps) auto
  qed
  note wP = walk_below [OF o(1) cP bp(1)]
  show ?thesis
  proof (cases "f \<in> set (P @ [p])")
    case True
    then show ?thesis using wP [OF True] pp by simp
  next
    case False
    then have fK: "f \<in> set (K @ [z])" using f by simp
    have cK': "map (hptr m) K = tl (K @ [z])" using cK by (cases K) auto
    have "z < bp" using z bp(1) by simp
    from walk_above [OF o(2) cK' this bp(2) fK] wP [OF zP] pp show ?thesis by simp
  qed
qed

subsection \<open>The headers of a heap\<close>

definition headers :: "u32 \<Rightarrow> block list \<Rightarrow> block set \<Rightarrow> u32 set" where
  "headers base fr us = insert base (fst ` (set fr \<union> us))"

lemma heap_inside: "heap_ok base s fr us \<Longrightarrow> b \<in> set fr \<union> us \<Longrightarrow> inside_heap base s b"
  unfolding heap_ok_def by blast

lemma heap_blocks_apart:
  assumes "heap_ok base s fr us" "b \<in> set fr \<union> us" "c \<in> set fr \<union> us" "b \<noteq> c" shows "apart b c"
proof (cases "b \<in> set fr \<and> c \<in> set fr")
  case True
  then obtain X Y where "fr = X @ b # Y" by (meson split_list)
  then show ?thesis using ordered_apart [of "unat base + 8" X b Y c] assms True by (auto simp: heap_ok_def)
next
  case False
  have "apart b c = apart c b" by (auto simp: apart_def)
  then show ?thesis using False assms unfolding heap_ok_def by blast
qed

lemma heap_clear:
  assumes h: "heap_ok base s fr us" and x: "x \<in> headers base fr us" and y: "y \<in> headers base fr us" and n: "x \<noteq> y"
  shows "clear x y"
proof -
  have i: "inside_heap base s b" if "b \<in> set fr \<union> us" for b using h that by (simp add: heap_ok_def)
  have bb: "clear base (fst b)" if "b \<in> set fr \<union> us" for b using base_clear [OF i [OF that]] .
  have bc: "clear (fst b) (fst c)" if "b \<in> set fr \<union> us" "c \<in> set fr \<union> us" "fst b \<noteq> fst c" for b c
    using apart_clear [OF heap_blocks_apart [OF h that(1,2)]] i [OF that(1)] i [OF that(2)] that(3) by (auto simp: inside_heap_def)
  show ?thesis using x y n bb bc clear_sym unfolding headers_def by (elim insertE imageE) (metis+)
qed

lemma heap_top:
  assumes "heap_ok base s fr us" "x \<in> headers base fr us" shows "unat x + 8 \<le> 4294967296"
proof -
  have t: "unat (brk s) \<le> 2147483648" "unat base + 8 \<le> unat (brk s)" and i: "\<forall>b\<in>set fr \<union> us. inside_heap base s b"
    using assms(1) by (simp_all add: heap_ok_def)
  show ?thesis using assms(2) t inside_bounds(1) [OF bspec [OF i] t(1)] unfolding headers_def by (elim insertE imageE) auto
qed

lemma heap_nonzero:
  assumes "heap_ok base s fr us" "x \<in> headers base fr us" shows "x \<noteq> 0"
proof -
  have t: "base \<noteq> 0" and i: "\<forall>b\<in>set fr \<union> us. inside_heap base s b" using assms(1) by (simp_all add: heap_ok_def)
  have "fst b \<noteq> 0" if "b \<in> set fr \<union> us" for b using bspec [OF i that] by (auto simp: inside_heap_def lo_def)
  then show ?thesis using assms(2) t unfolding headers_def by (elim insertE imageE) simp_all
qed

text \<open>Writing the header of a block of the heap, and what other headers read then.\<close>

lemma write_header:
  assumes "heap_ok base s fr us" "x \<in> headers base fr us" "y \<in> headers base fr us"
  shows "hptr (set_ptr m x v) y = (if y = x then v else hptr m y)" "hsize (set_ptr m x v) y = hsize m y"
    "hptr (set_size m x k) y = hptr m y" "hsize (set_size m x k) y = (if y = x then k else hsize m y)"
  using heap_clear [OF assms] heap_top [OF assms(1,2)] heap_top [OF assms(1,3)] by (cases "x = y"; simp)+

subsection \<open>Freeing\<close>

lemma sorted_addresses: "ordered a bs \<Longrightarrow> sorted_wrt (<) (map fst bs)"
proof (induction bs arbitrary: a)
  case (Cons b bs)
  then have "\<forall>p\<in>fst ` set bs. fst b < p" using ordered_distinct [of "hi b" bs] by (force simp: hi_def word_less_nat_alt)
  then show ?case using Cons by auto
qed simp

lemma free_setting:
  assumes h: "heap_ok base s fr (insert (bp, n) us)"
  shows "\<exists>A C P p. fr = A @ C \<and> base # map fst A = P @ [p] \<and> (\<forall>c\<in>set A. hi c \<le> unat bp) \<and> (\<forall>c\<in>set C. hi (bp, n) \<le> lo c) \<and>
    free_place (um s) bp (freep s) = Some p \<and> cyc (um s) (p # map fst C @ P)"
proof -
  have o: "ordered (unat base + 8) fr" and b: "inside_heap base s (bp, n)" and c: "cyc (um s) (base # map fst fr)"
    and f: "freep s \<in> set (base # map fst fr)" and ap: "\<forall>c\<in>set fr. apart (bp, n) c"
    using h by (auto simp: heap_ok_def)
  obtain A C where A: "fr = A @ C" "\<forall>c\<in>set A. hi c \<le> lo (bp, n)" "\<forall>c\<in>set C. hi (bp, n) \<le> lo c"
    using split_at [OF o ap] b by (auto simp: inside_heap_def)
  obtain P p where P: "base # map fst A = P @ [p]" by (metis append_butlast_last_id list.distinct(1))
  have e: "base # map fst fr = P @ p # map fst C" using A(1) P by simp
  have oA: "ordered (unat base + 8) A" "\<exists>a. ordered a C" using o A(1) by (auto simp: ordered_append)
  have "sorted_wrt (<) (base # map fst A)" using sorted_addresses [OF oA(1)] ordered_distinct [OF oA(1)] by (force simp: word_less_nat_alt)
  then have s1: "sorted_wrt (<) (P @ [p])" "sorted_wrt (<) (map fst C)" using P sorted_addresses oA(2) by auto
  have "x < bp" if "x \<in> set (base # map fst A)" for x
    using that A(2) b ordered_bounds [OF oA(1)] by (force simp: word_less_nat_alt inside_heap_def lo_def hi_def)
  then have p: "p < bp" using P by simp
  have k: "\<forall>x\<in>set (map fst C). bp < x" using A(3) b by (force simp: word_less_nat_alt inside_heap_def lo_def hi_def)
  have "free_place (um s) bp (freep s) = Some p" using free_place_ok [OF _ s1 p k] c f e by simp
  moreover have "cyc (um s) (p # map fst C @ P)" using c e cyc_rotate [of "um s" P "p # map fst C"] by simp
  ultimately show ?thesis using A P by (auto simp: lo_def)
qed

lemma ordered_from: "ordered a C \<Longrightarrow> \<forall>c\<in>set C. b \<le> lo c \<Longrightarrow> ordered b C"
  by (cases C) auto

text \<open>
  After the upper join: the freed block has size \<open>n1\<close> and is followed by the blocks \<open>C1\<close>;
  only its own header has changed.
\<close>

definition upper_joined :: "u32 \<Rightarrow> uheap \<Rightarrow> block list \<Rightarrow> block set \<Rightarrow> u32 \<Rightarrow> nat \<Rightarrow> u32 list \<Rightarrow> u32 \<Rightarrow> mem \<Rightarrow> nat \<Rightarrow> block list \<Rightarrow> bool" where
  "upper_joined base s C us bp n P p m n1 C1 \<longleftrightarrow>
     n \<le> n1 \<and> set C1 \<subseteq> set C \<and> ordered (hi (bp, n1)) C1 \<and> hi (bp, n1) \<le> unat (brk s) \<and> hsize m bp = of_nat n1 \<and>
     hptr m bp # map (hptr (um s)) (map fst C1 @ P) = map fst C1 @ P @ [p] \<and> (\<forall>c\<in>us. apart c (bp, n1))"

lemma join_upper_ok:
  assumes h: "heap_ok base s (A @ C) (insert (bp, n) us)" and nu: "(bp, n) \<notin> us" and P: "base # map fst A = P @ [p]"
    and C: "\<forall>c\<in>set C. hi (bp, n) \<le> lo c" and cy: "cyc (um s) (p # map fst C @ P)"
  shows "\<exists>n1 C1. upper_joined base s C us bp n P p (join_upper bp p (um s)) n1 C1"
    and "x \<in> headers base (A @ C) (insert (bp, n) us) \<Longrightarrow> x \<noteq> bp \<Longrightarrow>
      hptr (join_upper bp p (um s)) x = hptr (um s) x \<and> hsize (join_upper bp p (um s)) x = hsize (um s) x"
proof -
  let ?m = "um s" and ?H = "headers base (A @ C) (insert (bp, n) us)"
  have bpH: "bp \<in> ?H" by (simp add: headers_def)
  note w = write_header [OF h bpH]
  show "hptr (join_upper bp p ?m) x = hptr ?m x \<and> hsize (join_upper bp p ?m) x = hsize ?m x" if "x \<in> ?H" "x \<noteq> bp"
    using that w by (simp add: join_upper_def Let_def)
  have b: "inside_heap base s (bp, n)" and top: "unat (brk s) \<le> 2147483648" and us: "\<forall>c\<in>us. apart c (bp, n)" "\<forall>c\<in>us. inside_heap base s c"
    using h nu heap_blocks_apart [OF h, of _ "(bp, n)"] by (auto simp: heap_ok_def)
  have e: "hsize ?m bp = of_nat n" "unat (bp + 8 * of_nat n) = hi (bp, n)" "hi (bp, n) \<le> unat (brk s)"
    using b block_end(1) [of bp n] inside_bounds(3) [OF b top] by (auto simp: inside_heap_def)
  have oC: "ordered (hi (bp, n)) C" using h C by (auto simp: heap_ok_def ordered_append intro: ordered_from)
  have c1: "hptr ?m p # map (hptr ?m) (map fst C @ P) = map fst C @ P @ [p]" using cy by (simp add: cyc_Cons)
  have keep: "upper_joined base s C us bp n P p (set_ptr ?m bp (hptr ?m p)) n C"
    using c1 e oC us(1) w(1,2) [OF bpH] by (simp add: upper_joined_def)
  show "\<exists>n1 C1. upper_joined base s C us bp n P p (join_upper bp p ?m) n1 C1"
  proof (cases "bp + 8 * hsize ?m bp = hptr ?m p")
    case False
    then show ?thesis using keep by (auto simp: join_upper_def)
  next
    case True
    then have q: "unat (hptr ?m p) = hi (bp, n)" using e by simp
    obtain c C' where Ceq: "C = c # C'"
    proof (cases C)
      case Nil
      then have "hptr ?m p = hd (P @ [p])" using c1 by (cases P) auto
      then have "hptr ?m p = base" using P by (metis list.sel(1))
      then show ?thesis using q b by (simp add: inside_heap_def hi_def lo_def)
    qed (use that in blast)
    obtain qa k where c: "c = (qa, k)" by (cases c)
    have qa: "hptr ?m p = qa" using c1 Ceq c by simp
    have qH: "qa \<in> ?H" "qa \<noteq> bp" using Ceq c q qa b by (auto simp: headers_def inside_heap_def hi_def)
    have ik: "inside_heap base s (qa, k)" "(qa, k) \<in> set (A @ C)" using h Ceq c by (auto simp: heap_ok_def)
    let ?m1 = "set_ptr (set_size ?m bp (of_nat n + of_nat k)) bp (hptr ?m qa)"
    have "p \<in> set (base # map fst A)" unfolding P by simp
    then have pH: "p \<in> ?H" by (auto simp: headers_def)
    have J: "join_upper bp p ?m = ?m1" using True e(1) qa ik(1) w(3) [OF qH(1)] w(3) [OF pH] by (simp add: join_upper_def Let_def inside_heap_def)
    have hh: "hi (bp, n + k) = hi (qa, k)" using q qa by (simp add: hi_def)
    have "apart x (bp, n + k)" if "x \<in> us" for x
    proof -
      have "apart x (qa, k)" using heap_blocks_apart [OF h, of x "(qa, k)"] that ik(2) h by (auto simp: heap_ok_def)
      then show ?thesis using apart_join [of x "(bp, n)" "(qa, k)"] us that q qa by (auto simp: lo_def inside_heap_def)
    qed
    moreover have "ordered (hi (qa, k)) C'" using oC Ceq c by simp
    moreover have "hi (qa, k) \<le> unat (brk s)" using ik(1) by (simp add: inside_heap_def)
    moreover have "hptr ?m qa # map (hptr ?m) (map fst C' @ P) = map fst C' @ P @ [p]" using c1 Ceq c qa by simp
    ultimately have "upper_joined base s C us bp n P p ?m1 (n + k) C'"
      using hh w [OF bpH] Ceq by (auto simp: upper_joined_def)
    then show ?thesis unfolding J by blast
  qed
qed

text \<open>The bytes of a block behind its header do not change when a header is written.\<close>

lemma header_away:
  assumes h: "heap_ok base s fr us" and x: "x \<in> headers base fr us" and b: "b \<in> us" and a: "lo b + 8 \<le> unat a" "unat a < hi b"
  shows "unat a < unat x \<or> unat x + 8 \<le> unat a"
proof (cases "x = base \<or> x = fst b")
  case True
  then show ?thesis using heap_inside [OF h, of b] b a by (auto simp: inside_heap_def lo_def)
next
  case False
  then obtain c where c: "c \<in> set fr \<union> us" "x = fst c" "b \<noteq> c" using x by (auto simp: headers_def)
  then show ?thesis using heap_blocks_apart [OF h _ c(1), of b] heap_inside [OF h c(1)] b a by (auto simp: apart_def inside_heap_def lo_def hi_def)
qed

lemma header_bytes:
  assumes h: "heap_ok base s fr us" and x: "x \<in> headers base fr us" and b: "b \<in> us" and a: "lo b + 8 \<le> unat a" "unat a < hi b"
  shows "set_ptr m x v a = m a" "set_size m x k a = m a"
  using header_away [OF assms] set_bytes [OF heap_top [OF h x]] by auto

lemma heap_rebuild:
  assumes h: "heap_ok base s fr us0" and us: "us \<subseteq> us0" "\<forall>b\<in>us. \<forall>c\<in>set fr'. apart b c"
    and l: "ordered (unat base + 8) fr'" "cyc m' (base # map fst fr')" "f \<in> set (base # map fst fr')"
    and z: "hsize m' base = 0" "\<forall>b\<in>us. hsize m' (fst b) = hsize (um s) (fst b)"
    and fr: "\<forall>b\<in>set fr'. hi b \<le> unat (brk s) \<and> hsize m' (fst b) = of_nat (snd b)"
  shows "heap_ok base (s\<lparr>um := m', freep := f\<rparr>) fr' us"
proof -
  have "inside_heap base (s\<lparr>um := m', freep := f\<rparr>) b" if "b \<in> us" for b
    using h us(1) z(2) that by (auto simp: heap_ok_def inside_heap_def)
  moreover have "inside_heap base (s\<lparr>um := m', freep := f\<rparr>) b" if "b \<in> set fr'" for b
    using ordered_bounds [OF l(1) that] fr that by (simp add: inside_heap_def)
  moreover have "\<forall>b\<in>us. \<forall>c\<in>us. b \<noteq> c \<longrightarrow> apart b c" using h us(1) unfolding heap_ok_def by blast
  ultimately show ?thesis using h us l z(1) by (auto simp: heap_ok_def)
qed

text \<open>Blocks at one address are one block, and no block is at the address of the base.\<close>

lemma heap_address:
  assumes h: "heap_ok base s fr us" and b: "b \<in> set fr \<union> us"
  shows "fst b \<noteq> base" "c \<in> set fr \<union> us \<Longrightarrow> fst b = fst c \<Longrightarrow> b = c"
proof -
  have i: "inside_heap base s c" if "c \<in> set fr \<union> us" for c using h that by (simp add: heap_ok_def)
  show "fst b \<noteq> base" using i [OF b] by (auto simp: inside_heap_def lo_def)
  show "b = c" if "c \<in> set fr \<union> us" "fst b = fst c"
    using heap_blocks_apart [OF h b that(1)] that(2) i [OF b] i [OF that(1)] by (auto simp: apart_def inside_heap_def lo_def hi_def)
qed

text \<open>The lower join, on the memory \<open>m1\<close> that the upper join leaves.\<close>

definition freeing :: "u32 \<Rightarrow> uheap \<Rightarrow> block list \<Rightarrow> block list \<Rightarrow> block set \<Rightarrow> u32 \<Rightarrow> nat \<Rightarrow> u32 list \<Rightarrow> u32 \<Rightarrow> mem \<Rightarrow> nat \<Rightarrow> block list \<Rightarrow> bool" where
  "freeing base s A C us bp n P p m1 n1 C1 \<longleftrightarrow>
     heap_ok base s (A @ C) (insert (bp, n) us) \<and> (bp, n) \<notin> us \<and> base # map fst A = P @ [p] \<and>
     (\<forall>c\<in>set A. hi c \<le> unat bp) \<and> (\<forall>c\<in>set C. hi (bp, n) \<le> lo c) \<and> upper_joined base s C us bp n P p m1 n1 C1 \<and>
     (\<forall>x\<in>headers base (A @ C) (insert (bp, n) us). x \<noteq> bp \<longrightarrow> hptr m1 x = hptr (um s) x \<and> hsize m1 x = hsize (um s) x)"

lemma freeing_headers:
  assumes f: "freeing base s A C us bp n P p m1 n1 C1"
  shows "p \<in> headers base (A @ C) (insert (bp, n) us)" "p \<noteq> bp" "base \<noteq> bp" "b \<in> set (A @ C) \<union> us \<Longrightarrow> fst b \<noteq> bp" "b \<in> us \<Longrightarrow> fst b \<noteq> p"
    "x \<in> set (map fst C1 @ P) \<Longrightarrow> x \<in> headers base (A @ C) (insert (bp, n) us) \<and> x \<noteq> p \<and> x \<noteq> bp"
proof -
  have h: "heap_ok base s (A @ C) (insert (bp, n) us)" and nu: "(bp, n) \<notin> us" and P: "base # map fst A = P @ [p]"
    and A: "\<forall>c\<in>set A. hi c \<le> unat bp" and C: "\<forall>c\<in>set C. hi (bp, n) \<le> lo c" and C1: "set C1 \<subseteq> set C"
    using f unfolding freeing_def upper_joined_def by blast+
  note ad = heap_address [OF h]
  have pA: "p \<in> set (base # map fst A)" unfolding P by simp
  then show "p \<in> headers base (A @ C) (insert (bp, n) us)" by (auto simp: headers_def)
  show nb: "base \<noteq> bp" using ad(1) [of "(bp, n)"] by auto
  have ab: "fst b \<noteq> bp" if "b \<in> set (A @ C) \<union> us" for b
  proof
    assume "fst b = bp"
    then have "b = (bp, n)" using ad(2) [of b "(bp, n)"] that by auto
    then show False using that nu heap_inside [OF h, of "(bp, n)"] A C by (fastforce simp: inside_heap_def hi_def lo_def)
  qed
  then show "b \<in> set (A @ C) \<union> us \<Longrightarrow> fst b \<noteq> bp" .
  show "p \<noteq> bp" using pA ab nb by auto
  have ap: "apart b c" if "b \<in> us" "c \<in> set (A @ C)" for b c using h that unfolding heap_ok_def by blast
  have "fst b \<noteq> fst c" if "b \<in> us" "c \<in> set A" for c
    using ap [of b c] ad(2) [of b c] that heap_inside [OF h, of b] by (auto simp: apart_def inside_heap_def lo_def hi_def)
  then show "b \<in> us \<Longrightarrow> fst b \<noteq> p" using pA ad(1) [of b] by auto
  have "distinct (base # map fst (A @ C))" using h heap_distinct unfolding heap_ok_def by blast
  then have d: "distinct (P @ p # map fst C)" using P by (metis append.assoc append_Cons append_Nil map_append)
  assume "x \<in> set (map fst C1 @ P)"
  then have "x \<in> fst ` set C \<or> x \<in> set P" using C1 by auto
  moreover have "x \<in> set (base # map fst A)" if "x \<in> set P" using that unfolding P by simp
  ultimately have "x \<in> fst ` set C \<or> x \<in> set (base # map fst A) \<and> x \<in> set P" by blast
  then show "x \<in> headers base (A @ C) (insert (bp, n) us) \<and> x \<noteq> p \<and> x \<noteq> bp" using d ab nb by (auto simp: headers_def)
qed

text \<open>
  A memory \<open>m'\<close> that differs from \<open>m1\<close> in the header of \<open>p\<close> is in order if its circle is and if the
  block \<open>c\<close> that takes the place of the freed one ends where the freed one does.
\<close>

lemma freeing_rebuild:
  assumes f: "freeing base s A C us bp n P p m1 n1 C1"
    and m': "\<And>x. x \<in> headers base (A @ C) (insert (bp, n) us) \<Longrightarrow> x \<noteq> p \<Longrightarrow> hsize m' x = hsize m1 x"
    and A': "set A' \<subseteq> set A" "ordered (unat base + 8) (A' @ [c])" "\<forall>b\<in>set A'. hsize m' (fst b) = hsize m1 (fst b)"
    and c: "hi c = hi (bp, n1)" "hsize m' (fst c) = of_nat (snd c)" "\<forall>b\<in>us. apart b c" and z: "hsize m' base = 0"
    and L: "base # map fst (A' @ c # C1) = P @ p # L" "cyc m' (P @ p # L)"
  shows "heap_ok base (s\<lparr>um := m', freep := p\<rparr>) (A' @ c # C1) us"
proof -
  let ?H = "headers base (A @ C) (insert (bp, n) us)"
  note fh = freeing_headers [OF f] and u = f [unfolded freeing_def upper_joined_def]
  have h: "heap_ok base s (A @ C) (insert (bp, n) us)" and same: "\<And>x. x \<in> ?H \<Longrightarrow> x \<noteq> bp \<Longrightarrow> hsize m1 x = hsize (um s) x" using u by blast+
  show ?thesis
  proof (rule heap_rebuild [OF h])
    show "us \<subseteq> insert (bp, n) us" by blast
    have "apart b c" if "b \<in> us" "c \<in> set (A @ C)" for b c using h that unfolding heap_ok_def by blast
    then show "\<forall>b\<in>us. \<forall>c\<in>set (A' @ c # C1). apart b c" using A'(1) c(3) u by auto
    show "ordered (unat base + 8) (A' @ c # C1)" using A'(2) c(1) u by (auto simp: ordered_append)
    show "\<forall>b\<in>us. hsize m' (fst b) = hsize (um s) (fst b)" using fh(4,5) m' same by (simp add: headers_def)
    have "hsize m' (fst b) = of_nat (snd b) \<and> hi b \<le> unat (brk s)" if "b \<in> set (A' @ C1)" for b
    proof -
      have b: "b \<in> set (A @ C)" "fst b \<in> ?H" using that A'(1) u by (auto simp: headers_def)
      have "hsize m' (fst b) = hsize m1 (fst b)" using A'(3) that fh(6) [of "fst b"] m' by auto
      then show ?thesis using same [OF b(2)] fh(4) [of b] b heap_inside [OF h, of b] by (auto simp: inside_heap_def)
    qed
    then show "\<forall>b\<in>set (A' @ c # C1). hi b \<le> unat (brk s) \<and> hsize m' (fst b) = of_nat (snd b)" using c u by auto
    show "cyc m' (base # map fst (A' @ c # C1))" "p \<in> set (base # map fst (A' @ c # C1))" unfolding L(1) using L(2) by simp_all
  qed (rule z)
qed

lemma freeing_circle:
  assumes f: "freeing base s A C us bp n P p m1 n1 C1"
    and m': "\<And>x. x \<in> headers base (A @ C) (insert (bp, n) us) \<Longrightarrow> x \<noteq> p \<Longrightarrow> hptr m' x = hptr m1 x"
  shows "hptr m1 bp # map (hptr m') (map fst C1 @ P) = map fst C1 @ P @ [p]"
proof -
  have "map (hptr m') (map fst C1 @ P) = map (hptr (um s)) (map fst C1 @ P)"
    by (rule map_cong [OF refl]) (use m' freeing_headers(6) [OF f] f in \<open>simp add: freeing_def\<close>)
  then show ?thesis using f unfolding freeing_def upper_joined_def by (simp only:)
qed

lemma lower_apart:
  assumes f: "freeing base s A C us bp n P p m1 n1 C1" and J: "p + 8 * hsize m1 p \<noteq> bp"
  shows "heap_ok base (s\<lparr>um := join_lower bp p m1, freep := p\<rparr>) (A @ (bp, n1) # C1) us"
proof -
  let ?m' = "set_ptr m1 p bp" and ?H = "headers base (A @ C) (insert (bp, n) us)"
  note fh = freeing_headers [OF f] and u = f [unfolded freeing_def upper_joined_def]
  have h: "heap_ok base s (A @ C) (insert (bp, n) us)" and P: "base # map fst A = P @ [p]" using u by blast+
  note w = write_header [OF h fh(1)]
  have H: "bp \<in> ?H" "base \<in> ?H" by (simp_all add: headers_def)
  have o: "ordered (unat base + 8) (A @ C)" and z: "hsize (um s) base = 0" using h unfolding heap_ok_def by blast+
  have b: "1 \<le> n" "unat base + 8 \<le> unat bp" using heap_inside [OF h, of "(bp, n)"] by (auto simp: inside_heap_def lo_def)
  have "cyc ?m' (p # bp # map fst C1 @ P)" using freeing_circle [OF f, of ?m'] w H fh(1,2) by (simp add: cyc_Cons)
  then have "cyc ?m' (P @ p # bp # map fst C1)" using cyc_rotate [of ?m' P "p # bp # map fst C1"] by simp
  moreover have "base # map fst (A @ (bp, n1) # C1) = P @ p # bp # map fst C1" using P by simp
  moreover have "ordered (unat base + 8) (A @ [(bp, n1)])" using o b u by (auto simp: ordered_append lo_def)
  moreover have "hsize ?m' base = 0" using w(2) [OF H(2)] z u H fh(3) by simp
  moreover have "\<forall>b\<in>set A. hsize ?m' (fst b) = hsize m1 (fst b)" using w(2) by (simp add: headers_def)
  ultimately have "heap_ok base (s\<lparr>um := ?m', freep := p\<rparr>) (A @ (bp, n1) # C1) us"
    using w u H by (intro freeing_rebuild [OF f, of ?m' A "(bp, n1)" "bp # map fst C1"]) simp_all
  then show ?thesis using J by (simp add: join_lower_def)
qed

lemma lower_joins:
  assumes f: "freeing base s A C us bp n P p m1 n1 C1" and J: "p + 8 * hsize m1 p = bp"
  shows "\<exists>A' k. heap_ok base (s\<lparr>um := join_lower bp p m1, freep := p\<rparr>) (A' @ (p, k + n1) # C1) us"
proof -
  note fh = freeing_headers [OF f] and u = f [unfolded freeing_def upper_joined_def]
  have h: "heap_ok base s (A @ C) (insert (bp, n) us)" and P: "base # map fst A = P @ [p]" using u by blast+
  note w = write_header [OF h fh(1)]
  let ?H = "headers base (A @ C) (insert (bp, n) us)"
  have H: "bp \<in> ?H" "base \<in> ?H" by (simp_all add: headers_def)
  have o: "ordered (unat base + 8) (A @ C)" and z: "hsize (um s) base = 0" and top: "unat (brk s) \<le> 2147483648" using h unfolding heap_ok_def by blast+
  have sp: "hsize m1 p = hsize (um s) p" "hsize m1 base = 0" using u fh(1,2,3) H(2) z by auto
  have pb: "p \<noteq> base" using J sp fh(2) by auto
  then obtain A' k where k: "A = A' @ [(p, k)]" "P = base # map fst A'" using P by (cases A rule: rev_cases) auto
  have ik: "inside_heap base s (p, k)" using heap_inside [OF h, of "(p, k)"] k by simp
  have hk: "hi (p, k) = unat bp" using J sp ik block_end(1) [OF inside_bounds(3) [OF ik top]] by (simp add: inside_heap_def)
  let ?m' = "set_ptr (set_size m1 p (of_nat k + of_nat n1)) p (hptr m1 bp)"
  have e: "join_lower bp p m1 = ?m'" using J sp ik u w(3) [OF H(1)] by (simp add: join_lower_def Let_def inside_heap_def)
  have "cyc ?m' (p # map fst C1 @ P)" using freeing_circle [OF f, of ?m'] w fh(1) by (simp add: cyc_Cons)
  then have "cyc ?m' (P @ p # map fst C1)" using cyc_rotate [of ?m' P "p # map fst C1"] by simp
  moreover have "base # map fst (A' @ (p, k + n1) # C1) = P @ p # map fst C1" using k by simp
  moreover have "ordered (unat base + 8) (A' @ [(p, k + n1)])" using o k by (auto simp: ordered_append lo_def)
  moreover have "hsize ?m' base = 0" using w [OF H(2)] sp pb by simp
  moreover have "fst b \<noteq> p" if "b \<in> set A'" for b using fh(6) [of "fst b"] that k by auto
  then have "\<forall>b\<in>set A'. hsize ?m' (fst b) = hsize m1 (fst b)" using w k by (auto simp: headers_def)
  moreover have "apart b c" if "b \<in> us" "c \<in> set (A @ C)" for b c using h that unfolding heap_ok_def by blast
  then have "\<forall>b\<in>us. apart b (p, k) \<and> 1 \<le> snd b" using k heap_inside [OF h] by (simp add: inside_heap_def)
  then have "\<forall>b\<in>us. apart b (p, k + n1)"
    using apart_join [of _ "(p, k)" "(bp, n1)"] u hk by (simp add: lo_def)
  moreover have "hi (p, k + n1) = hi (bp, n1)" using hk by (simp add: hi_def)
  ultimately have "heap_ok base (s\<lparr>um := ?m', freep := p\<rparr>) (A' @ (p, k + n1) # C1) us"
    using w fh(1) k by (intro freeing_rebuild [OF f, of ?m' A' "(p, k + n1)" "map fst C1"]) (simp_all add: subset_insertI)
  then show ?thesis unfolding e by blast
qed

lemma free_ok:
  assumes h: "heap_ok base s fr (insert (bp, n) us)" and nu: "(bp, n) \<notin> us"
  shows "\<exists>s' fr'. free (bp + 8) s = Some s' \<and> heap_ok base s' fr' us \<and> keeps us (um s) (um s') \<and> brk s' = brk s \<and>
    freep s' \<noteq> 0 \<and> (\<exists>b\<in>set fr'. n \<le> snd b)"
proof -
  obtain A C P p where A: "fr = A @ C" "base # map fst A = P @ [p]" "\<forall>c\<in>set A. hi c \<le> unat bp" "\<forall>c\<in>set C. hi (bp, n) \<le> lo c"
    "free_place (um s) bp (freep s) = Some p" "cyc (um s) (p # map fst C @ P)" using free_setting [OF h] by blast
  let ?m1 = "join_upper bp p (um s)" and ?H = "headers base fr (insert (bp, n) us)"
  let ?s' = "s\<lparr>um := join_lower bp p ?m1, freep := p\<rparr>"
  note h' = h [unfolded A(1)]
  note up = join_upper_ok [OF h' nu A(2,4,6)]
  obtain n1 C1 where U: "upper_joined base s C us bp n P p ?m1 n1 C1" using up(1) by blast
  have f: "freeing base s A C us bp n P p ?m1 n1 C1" using h' nu A(2-4) U up(2) unfolding freeing_def by blast
  have n1: "n \<le> n1" using U by (simp add: upper_joined_def)
  have "\<exists>fr'. heap_ok base ?s' fr' us \<and> (\<exists>b\<in>set fr'. n \<le> snd b)"
  proof (cases "p + 8 * hsize ?m1 p = bp")
    case True
    from lower_joins [OF f True] obtain A' k where "heap_ok base ?s' (A' @ (p, k + n1) # C1) us" by blast
    then show ?thesis using n1 by (intro exI [of _ "A' @ (p, k + n1) # C1"]) simp
  next
    case False
    then show ?thesis using lower_apart [OF f False] n1 by (intro exI [of _ "A @ (bp, n1) # C1"]) simp
  qed
  then obtain fr' where fr': "heap_ok base ?s' fr' us" "\<exists>b\<in>set fr'. n \<le> snd b" by blast
  have "p \<in> set (base # map fst A)" unfolding A(2) by simp
  then have H: "p \<in> ?H" "bp \<in> ?H" using A(1) by (auto simp: headers_def)
  have "join_lower bp p ?m1 a = um s a" if "b \<in> us" "lo b + 8 \<le> unat a" "unat a < hi b" for b a
    using header_bytes [OF h H(1) _ that(2,3)] header_bytes [OF h H(2) _ that(2,3)] that(1)
    by (simp add: join_lower_def join_upper_def Let_def)
  then have "keeps us (um s) (um ?s')" by (auto simp: keeps_def)
  moreover have "free (bp + 8) s = Some ?s'" using A(5) by (simp add: free_def Let_def)
  moreover have "p \<noteq> 0" using heap_nonzero [OF h H(1)] .
  ultimately show ?thesis using fr' by auto
qed

subsection \<open>Taking a block off the list\<close>

lemma heap_add:
  assumes h: "heap_ok base s fr us" and b: "inside_heap base s b" "\<forall>c\<in>set fr \<union> us. apart b c"
  shows "heap_ok base s fr (insert b us)"
proof -
  have "apart c b" if "c \<in> us" for c using b(2) that by (auto simp: apart_def)
  then have "\<forall>x\<in>insert b us. \<forall>y\<in>insert b us. x \<noteq> y \<longrightarrow> apart x y" using h b(2) unfolding heap_ok_def by blast
  moreover have "\<forall>x\<in>insert b us. \<forall>c\<in>set fr. apart x c" using h b(2) unfolding heap_ok_def by blast
  moreover have "\<forall>x\<in>set fr \<union> insert b us. inside_heap base s x" using h b(1) unfolding heap_ok_def by blast
  ultimately show ?thesis using h unfolding heap_ok_def by blast
qed

text \<open>What a call of \<^verbatim>\<open>malloc\<close> that gives a block of \<open>n\<close> units achieves; the process grows by at most \<open>g\<close> bytes.\<close>

definition gives :: "u32 \<Rightarrow> nat \<Rightarrow> nat \<Rightarrow> uheap \<Rightarrow> block set \<Rightarrow> uheap \<times> u32 \<Rightarrow> bool" where
  "gives base n g s us r \<longleftrightarrow> unat (brk (fst r)) \<le> unat (brk s) + g \<and> (\<exists>p fr'. snd r = p + 8 \<and> heap_ok base (fst r) fr' (insert (p, n) us) \<and> (\<forall>b\<in>us. apart (p, n) b) \<and>
     keeps us (um s) (um (fst r)))"

lemma take_exact:
  assumes h: "heap_ok base s (X @ (p, n) # Y) us" and q: "q \<in> set (base # map fst (X @ (p, n) # Y))" "hptr (um s) q = p" and n: "1 \<le> n"
  shows "gives base n 0 s us (s\<lparr>um := set_ptr (um s) q (hptr (um s) p), freep := q\<rparr>, p + 8)"
proof -
  let ?m' = "set_ptr (um s) q (hptr (um s) p)" and ?fr = "X @ (p, n) # Y"
  have o: "ordered (unat base + 8) ?fr" and c: "cyc (um s) (base # map fst ?fr)" and z: "hsize (um s) base = 0"
    and i: "\<forall>b\<in>set ?fr \<union> us. inside_heap base s b" and ap: "\<forall>b\<in>us. \<forall>c\<in>set ?fr. apart b c" using h unfolding heap_ok_def by blast+
  obtain Z x where Z: "base # map fst X = Z @ [x]" by (metis append_butlast_last_id list.distinct(1))
  have L: "base # map fst ?fr = Z @ x # p # map fst Y" using Z by simp
  have d: "distinct (Z @ x # p # map fst Y)" using heap_distinct [OF o] unfolding L .
  have c1: "cyc (um s) (x # p # map fst Y @ Z)" using c unfolding L using cyc_rotate [of "um s" Z "x # p # map fst Y"] by simp
  have "hptr (um s) x = p" using cyc_next [OF c1] by simp
  then have qx: "q = x" using cyc_inj [OF c [unfolded L] d, of q x] q unfolding L by simp
  have H: "y \<in> set (base # map fst ?fr) \<Longrightarrow> y \<in> headers base ?fr us" for y by (auto simp: headers_def)
  have x: "q \<in> headers base ?fr us" using H [OF q(1)] .
  note w = write_header [OF h x]
  have "cyc ?m' (x # map fst Y @ Z)"
  proof (rule cyc_remove [OF c1])
    show "hptr ?m' x = hptr (um s) p" using w(1) [OF x] qx by simp
    show "hptr ?m' y = hptr (um s) y" if "y \<in> set (map fst Y @ Z)" for y
    proof -
      have "y \<in> set (base # map fst ?fr)" using that unfolding L by auto
      then show ?thesis using w(1) [OF H] that d qx by auto
    qed
  qed
  then have c2: "cyc ?m' (Z @ x # map fst Y)" using cyc_rotate [of ?m' Z "x # map fst Y"] by simp
  have L2: "base # map fst (X @ Y) = Z @ x # map fst Y" using Z by simp
  have "ordered (unat base + 8) (X @ Y)" using o by (auto simp: ordered_append hi_def lo_def elim!: ordered_mono)
  moreover have "\<forall>b\<in>set (X @ Y). hi b \<le> unat (brk s) \<and> hsize ?m' (fst b) = of_nat (snd b)"
    using i w(2) by (auto simp: inside_heap_def headers_def)
  moreover have "\<forall>b\<in>us. hsize ?m' (fst b) = hsize (um s) (fst b)" "hsize ?m' base = 0" using w(2) z by (auto simp: headers_def)
  moreover have "\<forall>b\<in>us. \<forall>c\<in>set (X @ Y). apart b c" using ap by auto
  ultimately have ok: "heap_ok base (s\<lparr>um := ?m', freep := q\<rparr>) (X @ Y) us"
    using c2 qx by (intro heap_rebuild [OF h subset_refl]) (simp_all only: L2, simp_all)
  have "inside_heap base (s\<lparr>um := ?m', freep := q\<rparr>) (p, n)" using i w(2) [of p] by (auto simp: inside_heap_def headers_def)
  moreover have "\<forall>c\<in>us. apart (p, n) c" using ap by (auto simp: apart_def)
  moreover have "\<forall>c\<in>set (X @ Y) \<union> us. apart (p, n) c" using ordered_apart [OF o] \<open>\<forall>c\<in>us. apart (p, n) c\<close> by blast
  moreover have "keeps us (um s) ?m'" using header_bytes(1) [OF h x] unfolding keeps_def by blast
  ultimately show ?thesis using heap_add [OF ok] unfolding gives_def by (intro conjI exI [of _ p] exI [of _ "X @ Y"]) simp_all
qed

text \<open>A header written inside a free block, behind the header of that block.\<close>

lemma inner_clear:
  assumes h: "heap_ok base s fr us" and f: "(p, k) \<in> set fr" and a: "lo (p, k) + 8 \<le> unat q" "unat q + 8 \<le> hi (p, k)"
    and x: "x \<in> headers base fr us"
  shows "clear q x"
proof (cases "x = base \<or> x = p")
  case True
  then show ?thesis using heap_inside [OF h, of "(p, k)"] f a by (auto simp: inside_heap_def clear_def lo_def)
next
  case False
  then obtain c where c: "c \<in> set fr \<union> us" "x = fst c" using x unfolding headers_def by blast
  then have "(p, k) \<noteq> c" using False by auto
  have "1 \<le> snd c" using heap_inside [OF h c(1)] by (simp add: inside_heap_def)
  then show ?thesis using heap_blocks_apart [OF h _ c(1), of "(p, k)"] \<open>(p, k) \<noteq> c\<close> f c(2) a by (auto simp: apart_def clear_def lo_def hi_def)
qed

lemma take_split:
  assumes h: "heap_ok base s (X @ (p, k) # Y) us" and q: "q \<in> set (base # map fst (X @ (p, k) # Y))" and n: "1 \<le> n" "n < k"
    and p': "p' = p + 8 * of_nat (k - n)"
  shows "gives base n 0 s us (s\<lparr>um := set_size (set_size (um s) p (of_nat (k - n))) p' (of_nat n), freep := q\<rparr>, p' + 8)"
proof -
  let ?fr = "X @ (p, k) # Y" and ?fr' = "X @ (p, k - n) # Y"
  let ?m1 = "set_size (um s) p (of_nat (k - n))"
  let ?m' = "set_size ?m1 p' (of_nat n)" and ?H = "headers base ?fr us"
  have o: "ordered (unat base + 8) ?fr" and c: "cyc (um s) (base # map fst ?fr)" and z: "hsize (um s) base = 0" and top: "unat (brk s) \<le> 2147483648"
    and i: "\<forall>b\<in>set ?fr \<union> us. inside_heap base s b" and ap: "\<forall>b\<in>us. \<forall>c\<in>set ?fr. apart b c" using h unfolding heap_ok_def by blast+
  have ip: "inside_heap base s (p, k)" and hb: "hi (p, k) \<le> 2147483648" using i inside_bounds(3) [OF _ top] by auto
  have u: "unat p' = hi (p, k - n)" unfolding p' using hb n by (intro block_end) (auto simp: hi_def)
  have in': "lo (p, k) + 8 \<le> unat p'" "unat p' + 8 \<le> hi (p, k)" using u n by (auto simp: hi_def lo_def)
  have t: "unat p' + 8 \<le> 4294967296" using in'(2) hb by simp
  have pH: "p \<in> ?H" by (simp add: headers_def)
  note w = write_header [OF h pH]
  have rd: "hptr ?m' x = hptr (um s) x" "hsize ?m' x = (if x = p then of_nat (k - n) else hsize (um s) x)" if "x \<in> ?H" for x
    using w that set_clear(3,4) [OF inner_clear [OF h _ in' that] t heap_top [OF h that]] by simp_all
  have sp: "hi (p', n) = hi (p, k)" "hi (p, k - n) = lo (p', n)" using u n by (auto simp: hi_def lo_def)
  have ne: "fst b \<noteq> p" if "b \<in> set X \<union> set Y \<union> us" for b
  proof -
    have "apart b (p, k)"
      using ordered_apart [OF o, of b] ap that by (auto simp: apart_def)
    then show ?thesis using n heap_inside [OF h, of b] that by (auto simp: apart_def lo_def hi_def inside_heap_def)
  qed
  have "heap_ok base (s\<lparr>um := ?m', freep := q\<rparr>) ?fr' us"
  proof (rule heap_rebuild [OF h subset_refl])
    show "\<forall>b\<in>us. \<forall>c\<in>set ?fr'. apart b c" using ap by (auto simp: apart_def hi_def lo_def)
    show "ordered (unat base + 8) ?fr'" using o n by (auto simp: ordered_append hi_def lo_def elim!: ordered_mono)
    have e: "base # map fst ?fr' = base # map fst ?fr" by simp
    show "q \<in> set (base # map fst ?fr')" unfolding e using q .
    show "cyc ?m' (base # map fst ?fr')" unfolding e using c cyc_cong [of "base # map fst ?fr" ?m' "um s", OF rd(1)] by (force simp: headers_def)
    show "hsize ?m' base = 0" using rd(2) [of base] z heap_address(1) [OF h, of "(p, k)"] by (auto simp: headers_def)
    show "\<forall>b\<in>us. hsize ?m' (fst b) = hsize (um s) (fst b)" using rd(2) ne by (auto simp: headers_def)
    show "\<forall>b\<in>set ?fr'. hi b \<le> unat (brk s) \<and> hsize ?m' (fst b) = of_nat (snd b)"
      using rd(2) ne i by (auto simp: headers_def inside_heap_def hi_def)
  qed
  moreover have "inside_heap base (s\<lparr>um := ?m', freep := q\<rparr>) (p', n)"
    using ip in' sp n t by (simp add: inside_heap_def lo_def)
  moreover have "\<forall>c\<in>us. apart (p', n) c" using ap sp u by (auto simp: apart_def lo_def hi_def)
  moreover have "apart (p', n) c" if "c \<in> set ?fr'" for c
    using ordered_apart [OF o, of c] that sp u by (auto simp: apart_def lo_def hi_def)
  then have "\<forall>c\<in>set ?fr' \<union> us. apart (p', n) c" using \<open>\<forall>c\<in>us. apart (p', n) c\<close> by blast
  moreover have "?m' a = um s a" if b: "b \<in> us" "lo b + 8 \<le> unat a" "unat a < hi b" for a b
  proof -
    have "unat a < unat p' \<or> unat p' + 8 \<le> unat a" using ap b in' by (force simp: apart_def lo_def)
    then show ?thesis using header_bytes(2) [OF h pH b] set_bytes(2) [OF t] by simp
  qed
  then have "keeps us (um s) ?m'" by (auto simp: keeps_def)
  ultimately show ?thesis using heap_add [of base "s\<lparr>um := ?m', freep := q\<rparr>" ?fr' us "(p', n)"] unfolding gives_def
    by (intro conjI exI [of _ p'] exI [of _ ?fr']) simp_all
qed

lemma take_block_ok:
  assumes h: "heap_ok base s fr us" and q: "q \<in> set (base # map fst fr)" and b: "(hptr (um s) q, k) \<in> set fr" and n: "1 \<le> n" "n \<le> k"
  shows "gives base n 0 s us (take_block (of_nat n) q (hptr (um s) q) s)"
proof -
  obtain X Y where X: "fr = X @ (hptr (um s) q, k) # Y" using b by (meson split_list)
  have i: "inside_heap base s (hptr (um s) q, k)" using heap_inside [OF h] b by blast
  have top: "unat (brk s) \<le> 2147483648" using h by (simp add: heap_ok_def)
  have u: "unat (of_nat k :: u32) = k" using block_end(2) [OF inside_bounds(3) [OF i top]] .
  have un: "unat (of_nat n :: u32) = n" using n inside_bounds(2) [OF i top] by (intro unat_of_nat_32) simp
  show ?thesis
  proof (cases "n = k")
    case True
    then show ?thesis using take_exact [of base s X "hptr (um s) q" n Y us q] X h q i n by (simp add: take_block_def Let_def inside_heap_def)
  next
    case False
    have ne: "(of_nat k :: u32) \<noteq> of_nat n" using False u un by metis
    have d: "(of_nat k :: u32) - of_nat n = of_nat (k - n)" using n by (simp add: of_nat_diff)
    have t: "unat (hptr (um s) q) + 8 \<le> 4294967296" using inside_bounds(1) [OF i top] by simp
    let ?p = "hptr (um s) q" and ?p' = "hptr (um s) q + 8 * of_nat (k - n)"
    have sz: "hsize (um s) ?p = of_nat k" using i by (simp add: inside_heap_def)
    have "take_block (of_nat n) q ?p s = (s\<lparr>um := set_size (set_size (um s) ?p (of_nat (k - n))) ?p' (of_nat n), freep := q\<rparr>, ?p' + 8)"
      unfolding take_block_def Let_def sz d set_same(4) [OF t] if_not_P [OF ne] ..
    then show ?thesis using take_split [OF h [unfolded X] q [unfolded X] n(1) _ refl] n False by simp
  qed
qed

subsection \<open>Searching the list\<close>

lemma malloc_walk:
  assumes "map (hptr (um s)) (q # V) = V @ [f]" "freep s = f" "f \<notin> set V"
  shows "if \<exists>x\<in>set (V @ [f]). nu \<le> hsize (um s) x
    then \<exists>q'\<in>set (q # V). nu \<le> hsize (um s) (hptr (um s) q') \<and> malloc_loop nu q (hptr (um s) q) s = Some (take_block nu q' (hptr (um s) q') s)
    else malloc_loop nu q (hptr (um s) q) s = Option.bind (morecore nu s) (\<lambda>(s, p). if p = 0 then Some (s, 0) else malloc_loop nu p (hptr (um s) p) s)"
  using assms
proof (induction V arbitrary: q)
  case Nil
  then show ?case by (auto simp: malloc_loop.simps [of nu q])
next
  case (Cons v V)
  then have v: "hptr (um s) q = v" "v \<noteq> f" by auto
  have step: "malloc_loop nu q v s = (if nu \<le> hsize (um s) v then Some (take_block nu q v s) else malloc_loop nu v (hptr (um s) v) s)"
    using v Cons.prems(2) by (subst malloc_loop.simps) simp
  have IH: "if \<exists>x\<in>set (V @ [f]). nu \<le> hsize (um s) x
    then \<exists>q'\<in>set (v # V). nu \<le> hsize (um s) (hptr (um s) q') \<and> malloc_loop nu v (hptr (um s) v) s = Some (take_block nu q' (hptr (um s) q') s)
    else malloc_loop nu v (hptr (um s) v) s = Option.bind (morecore nu s) (\<lambda>(s, p). if p = 0 then Some (s, 0) else malloc_loop nu p (hptr (um s) p) s)"
    using Cons.prems by (intro Cons.IH) auto
  show ?case
  proof (cases "nu \<le> hsize (um s) v")
    case True
    then show ?thesis using step v by auto
  next
    case False
    then have "malloc_loop nu q (hptr (um s) q) s = malloc_loop nu v (hptr (um s) v) s" using step v(1) by simp
    then show ?thesis using IH False by (auto split: if_splits)
  qed
qed

lemma heap_circle:
  assumes "heap_ok base s fr us"
  shows "\<exists>W. map (hptr (um s)) (freep s # W) = W @ [freep s] \<and> set (freep s # W) = set (base # map fst fr) \<and> freep s \<notin> set W"
proof -
  have o: "ordered (unat base + 8) fr" and c: "cyc (um s) (base # map fst fr)" and f: "freep s \<in> set (base # map fst fr)"
    using assms unfolding heap_ok_def by blast+
  obtain U V where U: "base # map fst fr = U @ freep s # V" using f by (meson split_list)
  have "cyc (um s) (freep s # V @ U)" using c unfolding U using cyc_rotate [of "um s" U "freep s # V"] by simp
  moreover have "set (freep s # V @ U) = set (base # map fst fr)" unfolding U by auto
  moreover have "freep s \<notin> set (V @ U)" using heap_distinct [OF o] unfolding U by simp
  ultimately show ?thesis by (intro exI [of _ "V @ U"]) (simp add: cyc_Cons)
qed

lemma free_size:
  assumes h: "heap_ok base s fr us" and b: "b \<in> set fr" shows "unat (hsize (um s) (fst b)) = snd b"
proof -
  have i: "inside_heap base s b" using heap_inside [OF h] b by blast
  have top: "unat (brk s) \<le> 2147483648" using h by (simp add: heap_ok_def)
  show ?thesis using i block_end(2) [of "fst b" "snd b"] inside_bounds(3) [OF i top] by (simp add: inside_heap_def)
qed

text \<open>If a free block is large enough, the search finds one.\<close>

lemma malloc_fit:
  assumes h: "heap_ok base s fr us" and b: "b \<in> set fr" "unat nu \<le> snd b" and nu: "nu \<noteq> 0"
  shows "\<exists>r. malloc_loop nu (freep s) (hptr (um s) (freep s)) s = Some r \<and> gives base (unat nu) 0 s us r"
proof -
  obtain W where W: "map (hptr (um s)) (freep s # W) = W @ [freep s]" "set (freep s # W) = set (base # map fst fr)" "freep s \<notin> set W"
    using heap_circle [OF h] by blast
  have "fst b \<in> set (freep s # W)" unfolding W(2) using b(1) by simp
  then have "\<exists>x\<in>set (W @ [freep s]). nu \<le> hsize (um s) x"
    using b(2) free_size [OF h b(1)] by (intro bexI [of _ "fst b"]) (auto simp: word_le_nat_alt)
  then obtain q where q: "q \<in> set (freep s # W)" "nu \<le> hsize (um s) (hptr (um s) q)"
    "malloc_loop nu (freep s) (hptr (um s) (freep s)) s = Some (take_block nu q (hptr (um s) q) s)"
    using malloc_walk [OF W(1) refl W(3), of nu] by (auto split: if_splits)
  have "hptr (um s) q \<in> set (map (hptr (um s)) (freep s # W))" using q(1) by auto
  then have "hptr (um s) q \<in> set (base # map fst fr)" unfolding W(1) using W(2) by auto
  moreover have "hptr (um s) q \<noteq> base" using q(2) h nu by (auto simp: heap_ok_def word_le_nat_alt unat_eq_zero)
  ultimately obtain k where k: "(hptr (um s) q, k) \<in> set fr" by auto
  have "unat nu \<le> k" using free_size [OF h k] q(2) by (simp add: word_le_nat_alt)
  moreover have "1 \<le> unat nu" using nu by (simp add: Suc_le_eq unat_gt_0)
  ultimately have "gives base (unat nu) 0 s us (take_block (of_nat (unat nu)) q (hptr (um s) q) s)"
    using take_block_ok [OF h _ k] q(1) W(2) by blast
  then show ?thesis using q(3) by simp
qed

lemma malloc_no_fit:
  assumes h: "heap_ok base s fr us" and b: "\<forall>b\<in>set fr. snd b < unat nu" and nu: "nu \<noteq> 0"
  shows "malloc_loop nu (freep s) (hptr (um s) (freep s)) s =
    Option.bind (morecore nu s) (\<lambda>(s, p). if p = 0 then Some (s, 0) else malloc_loop nu p (hptr (um s) p) s)"
proof -
  obtain W where W: "map (hptr (um s)) (freep s # W) = W @ [freep s]" "set (freep s # W) = set (base # map fst fr)" "freep s \<notin> set W"
    using heap_circle [OF h] by blast
  have "\<not> nu \<le> hsize (um s) x" if "x \<in> set (base # map fst fr)" for x
    using that b free_size [OF h] h nu by (auto simp: word_le_nat_alt heap_ok_def unat_eq_zero)
  then have "\<not> (\<exists>x\<in>set (W @ [freep s]). nu \<le> hsize (um s) x)" using W(2) by auto
  then show ?thesis using malloc_walk [OF W(1) refl W(3), of nu] by presburger
qed

subsection \<open>More memory\<close>

lemma morecore_ok:
  assumes h: "heap_ok base s fr us" and room: "unat (brk s) + 8 * max 4096 (unat nu) \<le> 2147483648"
  shows "\<exists>s' fr'. morecore nu s = Some (s', freep s') \<and> freep s' \<noteq> 0 \<and> heap_ok base s' fr' us \<and> keeps us (um s) (um s') \<and>
    (\<exists>b\<in>set fr'. unat nu \<le> snd b) \<and> unat (brk s') = unat (brk s) + 8 * max 4096 (unat nu)"
proof -
  define N where "N = (if nu < 4096 then 4096 else nu)"
  have uN: "unat N = max 4096 (unat nu)" by (auto simp: N_def word_less_nat_alt)
  let ?s = "s\<lparr>brk := brk s + 8 * N, um := set_size (um s) (brk s) N\<rparr>"
  have u8: "unat (8 * N) = 8 * unat N" using room uN by (simp add: unat_word_ariths)
  have ub: "unat (brk s + 8 * N) = unat (brk s) + 8 * unat N" using unat_add_32 [of "brk s" "8 * N"] u8 room uN by simp
  have np: "\<not> 8 * N <s 0" "\<not> sbrk_fails (brk s) (8 * N)" "brk s \<noteq> - 1"
  proof -
    have "unat base + 8 \<le> unat (brk s)" using h by (simp add: heap_ok_def)
    then have "unat (8 * N) < 2147483648" using room uN u8 by linarith
    then show "\<not> 8 * N <s 0" by (simp add: word_sless_alt sint_range)
    then show "\<not> sbrk_fails (brk s) (8 * N)" by (simp add: sbrk_fails_def)
    have "unat (- 1 :: u32) = 4294967295" using unat_minus_32 [of 1] by simp
    then show "brk s \<noteq> - 1" using room by (cases "brk s = - 1") simp_all
  qed
  have t: "unat (brk s) + 8 \<le> 4294967296" "1 \<le> unat N" using room uN by simp_all
  have below: "hi b \<le> unat (brk s)" "1 \<le> snd b" if "b \<in> set fr \<union> us" for b using heap_inside [OF h that] by (auto simp: inside_heap_def)
  have cl: "clear (brk s) x" if "x \<in> headers base fr us" for x
  proof (cases "x = base")
    case True
    then show ?thesis using h by (simp add: heap_ok_def clear_def)
  next
    case False
    then obtain b where "b \<in> set fr \<union> us" "x = fst b" using \<open>x \<in> _\<close> unfolding headers_def by blast
    then show ?thesis using below [of b] by (simp add: clear_def hi_def)
  qed
  have rd: "hptr (um ?s) x = hptr (um s) x" "hsize (um ?s) x = hsize (um s) x" if "x \<in> headers base fr us" for x
    using set_clear(3,4) [OF cl [OF that] t(1) heap_top [OF h that]] by simp_all
  have "heap_ok base ?s fr us"
  proof -
    have "inside_heap base ?s b" if "b \<in> set fr \<union> us" for b
      using heap_inside [OF h that] rd(2) [of "fst b"] that ub by (auto simp: inside_heap_def headers_def)
    moreover have "cyc (um ?s) (base # map fst fr)" using h cyc_cong [of "base # map fst fr" "um ?s" "um s", OF rd(1)] by (auto simp: heap_ok_def headers_def)
    moreover have "hsize (um ?s) base = 0" using h rd(2) [of base] by (simp add: heap_ok_def headers_def)
    ultimately show ?thesis using h ub room uN by (simp add: heap_ok_def)
  qed
  moreover have "inside_heap base ?s (brk s, unat N)" using h t ub by (simp add: inside_heap_def heap_ok_def lo_def hi_def)
  moreover have "\<forall>c\<in>set fr \<union> us. apart (brk s, unat N) c" using below by (simp add: apart_def lo_def)
  ultimately have h2: "heap_ok base ?s fr (insert (brk s, unat N) us)" by (rule heap_add)
  have "(brk s, unat N) \<notin> us" using below(1) [of "(brk s, unat N)"] t(2) by (auto simp: hi_def)
  then obtain s' fr' where "free (brk s + 8) ?s = Some s'" "heap_ok base s' fr' us" "keeps us (um ?s) (um s')" "freep s' \<noteq> 0" "\<exists>b\<in>set fr'. unat N \<le> snd b"
    "brk s' = brk ?s" using free_ok [OF h2] by blast
  moreover have "um ?s a = um s a" if "b \<in> us" "unat a < hi b" for a b
  proof -
    have "unat a < unat (brk s)" using below(1) [of b] that by simp
    then show ?thesis using set_bytes(2) [OF t(1)] by simp
  qed
  then have "keeps us (um s) (um ?s)" unfolding keeps_def by blast
  moreover have "morecore nu s = map_option (\<lambda>s. (s, freep s)) (free (brk s + 8) ?s)"
    using np by (simp add: morecore_def usbrk_def Let_def N_def [symmetric] mult.commute)
  moreover have "\<exists>b\<in>set fr'. unat nu \<le> snd b" using \<open>\<exists>b\<in>set fr'. unat N \<le> snd b\<close> uN by auto
  ultimately show ?thesis using keeps_trans ub uN by (intro exI [of _ s'] exI [of _ fr']) auto
qed

lemma malloc_loop_ok:
  assumes h: "heap_ok base s fr us" and room: "unat (brk s) + 8 * max 4096 (unat nu) \<le> 2147483648" and nu: "nu \<noteq> 0"
  shows "\<exists>r. malloc_loop nu (freep s) (hptr (um s) (freep s)) s = Some r \<and> gives base (unat nu) (8 * max 4096 (unat nu)) s us r"
proof (cases "\<exists>b\<in>set fr. unat nu \<le> snd b")
  case True
  then show ?thesis using malloc_fit [OF h _ _ nu] by (fastforce simp: gives_def)
next
  case False
  then have "\<forall>b\<in>set fr. snd b < unat nu" by (simp add: not_le)
  note L = malloc_no_fit [OF h this nu]
  obtain s' fr' b where s': "morecore nu s = Some (s', freep s')" "freep s' \<noteq> 0" "heap_ok base s' fr' us" "keeps us (um s) (um s')"
    "b \<in> set fr'" "unat nu \<le> snd b" "unat (brk s') = unat (brk s) + 8 * max 4096 (unat nu)" using morecore_ok [OF h room] by blast
  obtain r where r: "malloc_loop nu (freep s') (hptr (um s') (freep s')) s' = Some r" "gives base (unat nu) 0 s' us r"
    using malloc_fit [OF s'(3,5,6) nu] by blast
  have "gives base (unat nu) (8 * max 4096 (unat nu)) s us r" using r(2) keeps_trans [OF s'(4)] unfolding gives_def s'(7) by auto
  then show ?thesis using L s'(1,2) r(1) by simp
qed

subsection \<open>Runs of a program\<close>

text \<open>The heap before the first call and after it.\<close>

definition heap_inv :: "u32 \<Rightarrow> uheap \<Rightarrow> block set \<Rightarrow> bool" where
  "heap_inv base s us \<longleftrightarrow> (\<exists>fr. heap_ok base s fr us) \<or>
     freep s = 0 \<and> us = {} \<and> base \<noteq> 0 \<and> unat base + 8 \<le> unat (brk s) \<and> unat (brk s) \<le> 2147483648"

text \<open>
  The units of a request as \<^verbatim>\<open>malloc\<close> computes them, and that the process can grow by them below the kernel.  The
  sum of 32 bits wraps around for the seven largest requests, which get the header alone.
\<close>

definition units :: "u32 \<Rightarrow> nat" where "units nbytes = unat ((nbytes + 8 - 1) div 8 + 1)"

lemma units_eq: "units nbytes = (if unat nbytes \<le> 4294967288 then (unat nbytes + 7) div 8 + 1 else 1)"
proof -
  have e: "nbytes + 8 - 1 = nbytes + 7" by simp
  have d: "unat (nbytes + 7) div 8 + 1 < 4294967296" using unat_less_32 [of "nbytes + 7"] by simp
  have u: "units nbytes = unat (nbytes + 7) div 8 + 1"
    unfolding units_def e using d unat_add_32 [of "(nbytes + 7) div 8" 1] by (simp add: unat_div)
  have m: "unat (nbytes + 7) = (unat nbytes + 7) mod 4294967296" by (simp add: unat_word_ariths)
  show ?thesis
  proof (cases "unat nbytes \<le> 4294967288")
    case False
    then have "(unat nbytes + 7) mod 4294967296 < 8" using unat_less_32 [of nbytes] by (auto simp: mod_if)
    then show ?thesis using False u m by simp
  qed (use u m in simp)
qed

definition room :: "u32 \<Rightarrow> uheap \<Rightarrow> bool" where
  "room nbytes s \<longleftrightarrow> unat (brk s) + 8 * max 4096 (units nbytes) \<le> 2147483648"

lemma malloc_ok:
  assumes i: "heap_inv base s us" and r: "room nbytes s"
  shows "\<exists>r. malloc base nbytes s = Some r \<and> gives base (units nbytes) (8 * max 4096 (units nbytes)) s us r"
proof -
  have u: "unat ((nbytes + 8 - 1) div 8 + 1) = units nbytes" by (simp only: units_def)
  then have nz: "(nbytes + 8 - 1) div 8 + 1 \<noteq> 0" using units_eq [of nbytes] by (metis Suc_eq_plus1 nat.distinct(1) One_nat_def unsigned_0)
  define s1 where "s1 = (if freep s = 0 then s\<lparr>um := set_size (set_ptr (um s) base base) base 0, freep := base\<rparr> else s)"
  have "\<exists>fr. heap_ok base s1 fr us \<and> keeps us (um s) (um s1)"
  proof (cases "freep s = 0")
    case False
    then show ?thesis using i by (simp add: heap_inv_def s1_def keeps_def)
  next
    case True
    have "freep s \<noteq> 0" if "heap_ok base s fr us" for fr
      using heap_nonzero [OF that, of "freep s"] that by (auto simp: heap_ok_def headers_def)
    then have "us = {}" "base \<noteq> 0" "unat base + 8 \<le> unat (brk s)" "unat (brk s) \<le> 2147483648" using i True by (auto simp: heap_inv_def)
    then have "heap_ok base s1 [] us \<and> keeps us (um s) (um s1)" using True by (simp add: heap_ok_def s1_def cyc_def keeps_def)
    then show ?thesis by blast
  qed
  then obtain fr where h: "heap_ok base s1 fr us" "keeps us (um s) (um s1)" by blast
  have b: "brk s1 = brk s" by (simp add: s1_def)
  obtain r where r': "malloc_loop ((nbytes + 8 - 1) div 8 + 1) (freep s1) (hptr (um s1) (freep s1)) s1 = Some r" "gives base (units nbytes) (8 * max 4096 (units nbytes)) s1 us r"
    using malloc_loop_ok [OF h(1) _ nz] r unfolding u room_def b by blast
  have "malloc base nbytes s = Some r" using r'(1) unfolding malloc_def Let_def s1_def .
  moreover have "gives base (units nbytes) (8 * max 4096 (units nbytes)) s us r" using r'(2) keeps_trans [OF h(2)] unfolding gives_def b by blast
  ultimately show ?thesis by blast
qed

lemma write_ok:
  assumes h: "heap_ok base s fr us" and b: "b \<in> us" and a: "lo b + 8 \<le> unat a" "unat a < hi b"
  shows "heap_ok base (s\<lparr>um := (um s)(a := v)\<rparr>) fr us"
proof -
  let ?m' = "(um s)(a := v)"
  have ld: "load32 ?m' x = load32 (um s) x" if "unat a < unat x \<or> unat x + 4 \<le> unat a" "unat x + 4 \<le> 4294967296" for x
  proof -
    have "x + of_nat j \<noteq> a" if "j < 4" for j
      using that \<open>unat a < unat x \<or> _\<close> \<open>unat x + 4 \<le> _\<close> unat_add_32 [of x "of_nat j"] by (auto simp: unat_of_nat)
    from this [of 0] this [of 1] this [of 2] this [of 3] show ?thesis by (simp add: load32_def)
  qed
  have rd: "hptr ?m' x = hptr (um s) x" "hsize ?m' x = hsize (um s) x" if "x \<in> headers base fr us" for x
  proof -
    have t: "unat x + 8 \<le> 4294967296" using heap_top [OF h that] .
    have "unat a < unat x \<or> unat x + 8 \<le> unat a" using header_away [OF h that b a] .
    then show "hptr ?m' x = hptr (um s) x" "hsize ?m' x = hsize (um s) x"
      using ld [of x] ld [of "x + 4"] t unat_field [OF t] by (auto simp: hptr_def hsize_def)
  qed
  have "inside_heap base (s\<lparr>um := ?m'\<rparr>) c" if "c \<in> set fr \<union> us" for c
    using heap_inside [OF h that] rd(2) [of "fst c"] that by (auto simp: inside_heap_def headers_def)
  moreover have "cyc ?m' (base # map fst fr)" using h cyc_cong [of "base # map fst fr" ?m' "um s", OF rd(1)] by (auto simp: heap_ok_def headers_def)
  moreover have "hsize ?m' base = 0" using h rd(2) [of base] by (simp add: heap_ok_def headers_def)
  ultimately show ?thesis using h by (simp add: heap_ok_def)
qed

text \<open>
  A program calls \<^verbatim>\<open>malloc\<close> with any argument as long as the process stays below the kernel, frees blocks that are in use,
  and writes into them.
\<close>

inductive heap_step :: "u32 \<Rightarrow> uheap \<times> block set \<Rightarrow> uheap \<times> block set \<Rightarrow> bool" for base where
  do_malloc: "room nbytes s \<Longrightarrow> malloc base nbytes s = Some (s', r) \<Longrightarrow>
    heap_step base (s, us) (s', insert (r - 8, unat (hsize (um s') (r - 8))) us)"
| do_free: "b \<in> us \<Longrightarrow> free (fst b + 8) s = Some s' \<Longrightarrow> heap_step base (s, us) (s', us - {b})"
| do_write: "b \<in> us \<Longrightarrow> lo b + 8 \<le> unat a \<Longrightarrow> unat a < hi b \<Longrightarrow> heap_step base (s, us) (s\<lparr>um := (um s)(a := v)\<rparr>, us)"

lemma gives_size:
  assumes "heap_ok base s fr (insert (p, n) us)" shows "unat (hsize (um s) p) = n"
proof -
  have i: "inside_heap base s (p, n)" using heap_inside [OF assms] by blast
  have top: "unat (brk s) \<le> 2147483648" using assms by (simp add: heap_ok_def)
  show ?thesis using i block_end(2) [OF inside_bounds(3) [OF i top]] by (simp add: inside_heap_def)
qed

lemma free_inv:
  assumes i: "heap_inv base s us" and b: "b \<in> us"
  shows "\<exists>s'. free (fst b + 8) s = Some s' \<and> heap_inv base s' (us - {b}) \<and> keeps (us - {b}) (um s) (um s')"
proof -
  obtain fr where "heap_ok base s fr us" using i b by (auto simp: heap_inv_def)
  then have h: "heap_ok base s fr (insert (fst b, snd b) (us - {b}))" using b by (simp add: insert_absorb)
  show ?thesis using free_ok [OF h] by (auto simp: heap_inv_def)
qed

lemma heap_step_inv:
  assumes "heap_step base x y" "heap_inv base (fst x) (snd x)" shows "heap_inv base (fst y) (snd y)"
  using assms
proof cases
  case (do_malloc nbytes s s' r us)
  then obtain p fr where p: "r = p + 8" "heap_ok base s' fr (insert (p, units nbytes) us)"
    using malloc_ok [of base s us nbytes] assms(2) by (auto simp: gives_def)
  then show ?thesis using do_malloc gives_size [OF p(2)] by (auto simp: heap_inv_def)
next
  case (do_free b us s s')
  then show ?thesis using free_inv [of base s us b] assms(2) by auto
next
  case (do_write b us a s v)
  then show ?thesis using write_ok [of base s _ us b a v] assms(2) by (auto simp: heap_inv_def)
qed

lemma heap_steps_inv:
  assumes "(heap_step base)\<^sup>*\<^sup>* x y" "heap_inv base (fst x) (snd x)" shows "heap_inv base (fst y) (snd y)"
  using assms by induction (auto intro: heap_step_inv)

text \<open>
  C28: The allocator of user programs is safe as long as the process stays below 2 GB.  Whatever sequence of
  \<^verbatim>\<open>malloc\<close>, \<^verbatim>\<open>free\<close> and writes into its blocks a program makes, starting from an allocator that
  has not been used and with room below 2 GB for every request, the blocks in use
  never overlap; the next \<^verbatim>\<open>malloc(nbytes)\<close> for which there is room returns (its search of the list ends), with a
  block of \<open>units nbytes\<close> units that is inside the process and overlaps no block in use; that is at least \<open>nbytes\<close> bytes
  behind the header if \<open>nbytes\<close> is at most 4294967288, and a header without any bytes for larger requests, for
  which the computation of the units wraps around; the next \<^verbatim>\<open>free\<close> of a block in use returns; and neither
  changes a byte of another block in use.
\<close>

theorem umalloc_safe:
  assumes "freep s0 = 0" "base \<noteq> 0" "unat base + 8 \<le> unat (brk s0)" "unat (brk s0) \<le> 2147483648"
    and run: "(heap_step base)\<^sup>*\<^sup>* (s0, {}) (s, us)"
  shows "(\<forall>b\<in>us. \<forall>c\<in>us. b \<noteq> c \<longrightarrow> apart b c) \<and>
    (\<forall>nbytes. room nbytes s \<longrightarrow> (\<exists>s' p. malloc base nbytes s = Some (s', p + 8) \<and>
       (if unat nbytes \<le> 4294967288 then unat nbytes + 8 \<le> 8 * units nbytes else units nbytes = 1) \<and>
       hsize (um s') p = of_nat (units nbytes) \<and> unat base + 8 \<le> lo (p, units nbytes) \<and> hi (p, units nbytes) \<le> unat (brk s') \<and>
       unat (brk s') \<le> unat (brk s) + 8 * max 4096 (units nbytes) \<and>
       (\<forall>b\<in>us. apart (p, units nbytes) b) \<and> keeps us (um s) (um s'))) \<and>
    (\<forall>b\<in>us. \<exists>s'. free (fst b + 8) s = Some s' \<and> keeps (us - {b}) (um s) (um s'))"
proof (intro conjI)
  have i: "heap_inv base s us" using heap_steps_inv [OF run] assms(1-4) by (simp add: heap_inv_def)
  show "\<forall>b\<in>us. \<forall>c\<in>us. b \<noteq> c \<longrightarrow> apart b c" using i unfolding heap_inv_def heap_ok_def by blast
  show "\<forall>b\<in>us. \<exists>s'. free (fst b + 8) s = Some s' \<and> keeps (us - {b}) (um s) (um s')" using free_inv [OF i] by blast
  have "\<exists>s' p. malloc base nbytes s = Some (s', p + 8) \<and> inside_heap base s' (p, units nbytes) \<and> unat (brk s') \<le> unat (brk s) + 8 * max 4096 (units nbytes) \<and>
    (\<forall>b\<in>us. apart (p, units nbytes) b) \<and> keeps us (um s) (um s')" if rm: "room nbytes s" for nbytes
  proof -
    obtain s' q p fr where "malloc base nbytes s = Some (s', q)" "q = p + 8" "heap_ok base s' fr (insert (p, units nbytes) us)"
      "\<forall>b\<in>us. apart (p, units nbytes) b" "keeps us (um s) (um s')" "unat (brk s') \<le> unat (brk s) + 8 * max 4096 (units nbytes)" using malloc_ok [OF i rm] by (auto simp: gives_def)
    then show ?thesis using heap_inside [of base s' fr _ "(p, units nbytes)"] by blast
  qed
  then show "\<forall>nbytes. room nbytes s \<longrightarrow> (\<exists>s' p. malloc base nbytes s = Some (s', p + 8) \<and>
       (if unat nbytes \<le> 4294967288 then unat nbytes + 8 \<le> 8 * units nbytes else units nbytes = 1) \<and>
       hsize (um s') p = of_nat (units nbytes) \<and> unat base + 8 \<le> lo (p, units nbytes) \<and> hi (p, units nbytes) \<le> unat (brk s') \<and>
       unat (brk s') \<le> unat (brk s) + 8 * max 4096 (units nbytes) \<and>
       (\<forall>b\<in>us. apart (p, units nbytes) b) \<and> keeps us (um s) (um s'))"
    by (fastforce simp: inside_heap_def units_eq)
qed

definition fresh :: uheap where
  "fresh = \<lparr>um = \<lambda>_. 0, freep = 0, brk = 0x4000\<rparr>"

text \<open>
  A program of size \<^verbatim>\<open>0x4000\<close> asks for 20 and for 100 bytes: it gets two blocks of 4 and 14 units that do
  not overlap, and can free the first.
\<close>

theorem umalloc_safe_witness:
  "\<exists>s1 p1 s2 p2 s3. malloc 0x1000 20 fresh = Some (s1, p1 + 8) \<and> malloc 0x1000 100 s1 = Some (s2, p2 + 8) \<and>
     apart (p2, 14) (p1, 4) \<and> free (p1 + 8) s2 = Some s3"
proof -
  note f = umalloc_safe [of fresh "0x1000"]
  have u: "units 20 = 4" "units 100 = 14" by (simp_all add: units_eq)
  have "room 20 fresh" by (simp add: room_def u fresh_def)
  moreover have start: "freep fresh = 0" "(0x1000 :: u32) \<noteq> 0" "unat (0x1000 :: u32) + 8 \<le> unat (brk fresh)" "unat (brk fresh) \<le> 2147483648" "brk fresh = 0x4000"
    by (simp_all add: fresh_def)
  ultimately obtain s1 p1 where 1: "malloc 0x1000 20 fresh = Some (s1, p1 + 8)" "hsize (um s1) p1 = 4" "unat (brk s1) \<le> 49152"
    using f [OF start(1-4) rtranclp.rtrancl_refl] u by fastforce
  have r1: "heap_step 0x1000 (fresh, {}) (s1, {(p1, 4)})" using do_malloc [OF \<open>room 20 fresh\<close> 1(1), of "{}"] 1(2) by simp
  have "room 100 s1" using 1(3) by (simp add: room_def u)
  then obtain s2 p2 where 2: "malloc 0x1000 100 s1 = Some (s2, p2 + 8)" "hsize (um s2) p2 = 14" "apart (p2, 14) (p1, 4)"
    using f [OF start(1-4) r_into_rtranclp [of "heap_step 0x1000", OF r1]] u by fastforce
  have "heap_step 0x1000 (s1, {(p1, 4)}) (s2, {(p2, 14), (p1, 4)})" using do_malloc [OF \<open>room 100 s1\<close> 2(1), of "{(p1, 4)}"] 2(2) by simp
  note run = rtranclp.rtrancl_into_rtrancl [OF r_into_rtranclp [of "heap_step 0x1000", OF r1] this]
  have "\<exists>s3. free (fst (p1, 4 :: nat) + 8) s2 = Some s3" using f [OF start(1-4) run] by blast
  then have "\<exists>s3. free (p1 + 8) s2 = Some s3" by simp
  then show ?thesis using 1(1) 2(1,3) by blast
qed

end
