(* ===== verification/Uthread.thy ===== *)
theory Uthread
  imports User_Memory Printf
begin

text \<open>
  User-level threads: \<^verbatim>\<open>uthread1.c\<close>, \<^verbatim>\<open>uthread2.c\<close> and \<^verbatim>\<open>uthread3.c\<close>, with the switch of
  \<^verbatim>\<open>uthread_switch.S\<close>.  The table of threads is in the memory of the process, at the address
  \<open>tab\<close> that the linker gives \<^verbatim>\<open>all_thread\<close>; a layout says where the fields of a thread are.
  The assembly is modelled instruction by instruction.  Of the C code, the assignments to the
  table and to the two pointers are modelled; the registers and the stack pointer are
  those at the call of \<^verbatim>\<open>thread_switch\<close>, which a compiler is free to choose.
\<close>

subsection \<open>The machine\<close>

record tstate =
  tmem :: mem
  current_thread :: u32
  next_thread :: u32
  eax :: u32
  ecx :: u32
  edx :: u32
  ebx :: u32
  ebp :: u32
  esi :: u32
  edi :: u32
  esp :: u32
  eip :: u32
  checks :: int
  sched_entry :: u32
  prints :: "string list"

definition push :: "u32 \<Rightarrow> tstate \<Rightarrow> tstate" where
  "push v s = s\<lparr>tmem := store32 (tmem s) (esp s - 4) v, esp := esp s - 4\<rparr>"

definition pushal :: "tstate \<Rightarrow> tstate" where
  "pushal s =
     (let p = esp s in
      push (edi s) (push (esi s) (push (ebp s) (push p (push (ebx s) (push (edx s) (push (ecx s) (push (eax s) s))))))))"

definition popal :: "tstate \<Rightarrow> tstate" where
  "popal s =
     (let m = tmem s; p = esp s in
      s\<lparr>edi := load32 m p, esi := load32 m (p + 4), ebp := load32 m (p + 8), ebx := load32 m (p + 16),
        edx := load32 m (p + 20), ecx := load32 m (p + 24), eax := load32 m (p + 28), esp := p + 32\<rparr>)"

definition ret :: "tstate \<Rightarrow> tstate" where
  "ret s = s\<lparr>eip := load32 (tmem s) (esp s), esp := esp s + 4\<rparr>"

definition thread_switch :: "tstate \<Rightarrow> tstate" where
  "thread_switch s =
     (let s = pushal s;
          s = s\<lparr>eax := current_thread s\<rparr>;
          s = s\<lparr>tmem := store32 (tmem s) (eax s) (esp s)\<rparr>;
          s = s\<lparr>eax := next_thread s\<rparr>;
          s = s\<lparr>esp := load32 (tmem s) (eax s)\<rparr>;
          s = s\<lparr>eax := next_thread s\<rparr>;
          s = s\<lparr>current_thread := eax s\<rparr>;
          s = popal s;
          s = s\<lparr>next_thread := 0\<rparr>
      in ret s)"

subsection \<open>The table of threads\<close>

definition T_FREE :: u32 where "T_FREE = 0"
definition T_RUNNING :: u32 where "T_RUNNING = 1"
definition T_RUNNABLE :: u32 where "T_RUNNABLE = 2"
definition T_WAIT :: u32 where "T_WAIT = 3"

lemmas tstate_defs = T_FREE_def T_RUNNING_def T_RUNNABLE_def T_WAIT_def

definition STACK_SIZE :: u32 where "STACK_SIZE = 8192"

text \<open>\<^verbatim>\<open>struct thread\<close>: the offsets of its fields, its size, and the number of entries of the table.\<close>

record tlayout =
  off_sp :: u32
  off_stack :: u32
  off_state :: u32
  off_tid :: u32
  off_ptid :: u32
  thread_size :: nat
  max_thread :: nat

definition layout1 :: tlayout where
  "layout1 = \<lparr>off_sp = 0, off_stack = 4, off_state = 8196, off_tid = 0, off_ptid = 0, thread_size = 8200, max_thread = 4\<rparr>"

definition layout2 :: tlayout where
  "layout2 = \<lparr>off_sp = 0, off_stack = 4, off_state = 8196, off_tid = 8200, off_ptid = 8204, thread_size = 8208, max_thread = 10\<rparr>"

definition layout3 :: tlayout where
  "layout3 = \<lparr>off_sp = 4, off_stack = 8, off_state = 8200, off_tid = 0, off_ptid = 0, thread_size = 8204, max_thread = 10\<rparr>"

definition all_thread :: "tlayout \<Rightarrow> u32 \<Rightarrow> nat \<Rightarrow> u32" where
  "all_thread L tab i = tab + of_nat (i * thread_size L)"

definition tget :: "u32 \<Rightarrow> u32 \<Rightarrow> tstate \<Rightarrow> u32" where
  "tget off t s = load32 (tmem s) (t + off)"

definition tset :: "u32 \<Rightarrow> u32 \<Rightarrow> u32 \<Rightarrow> tstate \<Rightarrow> tstate" where
  "tset off t v s = s\<lparr>tmem := store32 (tmem s) (t + off) v\<rparr>"

text \<open>The loop over the table that stops at the first entry with \<open>P\<close>: its index, or \<^verbatim>\<open>MAX_THREAD\<close>.\<close>

definition first_thread :: "tlayout \<Rightarrow> u32 \<Rightarrow> (u32 \<Rightarrow> bool) \<Rightarrow> nat" where
  "first_thread L tab P =
     (case find_index (\<lambda>i. P (all_thread L tab i)) [0..<max_thread L] of Some i \<Rightarrow> i | None \<Rightarrow> max_thread L)"

definition check_thread_call :: "int \<Rightarrow> tstate \<Rightarrow> tstate" where
  "check_thread_call op s = s\<lparr>checks := sint (word_of_int (checks s + op) :: u32)\<rparr>"

definition uthread_init_call :: "u32 \<Rightarrow> tstate \<Rightarrow> tstate" where
  "uthread_init_call entry s = s\<lparr>sched_entry := entry\<rparr>"

text \<open>
  What a timer interrupt does to the process: with a scheduler registered and \<^verbatim>\<open>check_thread\<close> at 2 or more the kernel
  overwrites the saved instruction pointer, otherwise the process goes on where it was.
\<close>

definition redirects :: "tstate \<Rightarrow> bool" where
  "redirects s \<longleftrightarrow> sched_entry s \<noteq> 0 \<and> 2 \<le> checks s"

definition user_tick :: "tstate \<Rightarrow> tstate" where
  "user_tick s = (if redirects s then s\<lparr>eip := sched_entry s\<rparr> else s)"

definition tprint :: "string \<Rightarrow> tstate \<Rightarrow> tstate" where
  "tprint msg s = s\<lparr>prints := prints s @ [msg]\<rparr>"

subsection \<open>The scheduler\<close>

text \<open>A call of the scheduler ends the process, returns, or continues another thread.\<close>

datatype turn = Exits tstate | Returns tstate | Switched tstate

text \<open>The search for the next thread, the same in the three programs.\<close>

definition look_for_thread :: "tlayout \<Rightarrow> u32 \<Rightarrow> tstate \<Rightarrow> tstate" where
  "look_for_thread L tab s =
     (let s = s\<lparr>next_thread := 0\<rparr>;
          i = first_thread L tab (\<lambda>t. tget (off_state L) t s = T_RUNNABLE \<and> t \<noteq> current_thread s);
          s = (if i < max_thread L then s\<lparr>next_thread := all_thread L tab i\<rparr> else s)
      in if i \<ge> max_thread L \<and> tget (off_state L) (current_thread s) s = T_RUNNABLE
         then s\<lparr>next_thread := current_thread s\<rparr> else s)"

text \<open>\<open>ra\<close> is the address of the instruction after the call of \<^verbatim>\<open>thread_switch\<close>.\<close>

definition switch_to_next :: "tlayout \<Rightarrow> u32 \<Rightarrow> u32 \<Rightarrow> tstate \<Rightarrow> turn" where
  "switch_to_next L tab ra s =
     (if current_thread s \<noteq> next_thread s
      then let s = tset (off_state L) (next_thread s) T_RUNNING s;
               s = (if current_thread s \<noteq> all_thread L tab 0 \<and> tget (off_state L) (current_thread s) s = T_RUNNING
                    then tset (off_state L) (current_thread s) T_RUNNABLE s else s)
           in Switched (thread_switch (push ra s))
      else Returns (s\<lparr>next_thread := 0\<rparr>))"

definition no_runnable :: string where
  "no_runnable = ''thread_schedule: no runnable threads'' @ [CHR 0x0A]"

definition thread_schedule1 :: "u32 \<Rightarrow> u32 \<Rightarrow> tstate \<Rightarrow> turn" where
  "thread_schedule1 tab ra s =
     (let s = look_for_thread layout1 tab s in
      if next_thread s = 0 then Exits (tprint no_runnable s)
      else switch_to_next layout1 tab ra s)"

definition thread_schedule2 :: "u32 \<Rightarrow> u32 \<Rightarrow> tstate \<Rightarrow> turn" where
  "thread_schedule2 tab ra s =
     (let s = look_for_thread layout2 tab s;
          s = (if next_thread s = 0 \<and> tget (off_state layout2) (current_thread s) s = T_RUNNING
               then s\<lparr>next_thread := current_thread s\<rparr> else s) in
      if next_thread s = 0 then Exits (tprint no_runnable s)
      else switch_to_next layout2 tab ra s)"

definition thread_schedule3 :: "u32 \<Rightarrow> u32 \<Rightarrow> tstate \<Rightarrow> turn" where
  "thread_schedule3 tab ra s =
     (let s = look_for_thread layout3 tab s in
      if next_thread s = 0 then Exits (tprint no_runnable s)
      else if current_thread s \<noteq> next_thread s
      then let s = tset (off_state layout3) (next_thread s) T_RUNNING s;
               s = tset (off_state layout3) (current_thread s) T_RUNNABLE s
           in Switched (thread_switch (push ra s))
      else Returns (s\<lparr>next_thread := 0\<rparr>))"

subsection \<open>Threads come and go\<close>

definition thread_init1 :: "u32 \<Rightarrow> u32 \<Rightarrow> tstate \<Rightarrow> tstate" where
  "thread_init1 tab entry s = (let s = (uthread_init_call entry s)\<lparr>current_thread := all_thread layout1 tab 0\<rparr> in tset (off_state layout1) (current_thread s) T_RUNNING s)"

definition thread_init2 :: "u32 \<Rightarrow> u32 \<Rightarrow> tstate \<Rightarrow> tstate" where
  "thread_init2 tab entry s =
     (let s = (uthread_init_call entry s)\<lparr>current_thread := all_thread layout2 tab 0\<rparr>;
          s = tset (off_state layout2) (current_thread s) T_RUNNING s;
          s = tset (off_tid layout2) (current_thread s) 0 s
      in tset (off_ptid layout2) (current_thread s) 0 s)"

definition thread_init3 :: "u32 \<Rightarrow> u32 \<Rightarrow> tstate \<Rightarrow> tstate" where
  "thread_init3 tab entry s =
     (let s = (uthread_init_call entry s)\<lparr>current_thread := all_thread layout3 tab 0\<rparr>;
          s = tset (off_state layout3) (current_thread s) T_RUNNING s
      in tset (off_tid layout3) (current_thread s) 0 s)"

text \<open>The first free slot.\<close>

definition free_slot :: "tlayout \<Rightarrow> u32 \<Rightarrow> tstate \<Rightarrow> nat" where
  "free_slot L tab s = first_thread L tab (\<lambda>t. tget (off_state L) t s = T_FREE)"

text \<open>The stack of a new thread: the address of its function where \<^verbatim>\<open>thread_switch\<close> expects a return address.\<close>

definition start_stack :: "tlayout \<Rightarrow> u32 \<Rightarrow> u32 \<Rightarrow> tstate \<Rightarrow> tstate" where
  "start_stack L t func s =
     (let s = tset (off_sp L) t (t + off_stack L + STACK_SIZE) s;
          s = tset (off_sp L) t (tget (off_sp L) t s - 4) s;
          s = s\<lparr>tmem := store32 (tmem s) (tget (off_sp L) t s) func\<rparr>
      in tset (off_sp L) t (tget (off_sp L) t s - 32) s)"

definition no_slot :: string where
  "no_slot = ''thread_create: no available slot'' @ [CHR 0x0A]"

definition thread_create1 :: "u32 \<Rightarrow> u32 \<Rightarrow> tstate \<Rightarrow> tstate" where
  "thread_create1 tab func s =
     (let i = free_slot layout1 tab s; t = all_thread layout1 tab i in
      if i = max_thread layout1 then tprint no_slot s
      else check_thread_call 1 (tset (off_state layout1) t T_RUNNABLE (start_stack layout1 t func s)))"

text \<open>\<^verbatim>\<open>uthread2.c\<close> does not test whether there is a free slot.\<close>

definition thread_create2 :: "u32 \<Rightarrow> u32 \<Rightarrow> tstate \<Rightarrow> tstate" where
  "thread_create2 tab func s =
     (let i = free_slot layout2 tab s; t = all_thread layout2 tab i;
          s = tset (off_sp layout2) t (t + off_stack layout2 + STACK_SIZE) s;
          s = tset (off_sp layout2) t (tget (off_sp layout2) t s - 4) s;
          s = tset (off_tid layout2) t (of_nat i) s;
          s = tset (off_ptid layout2) t (tget (off_tid layout2) (current_thread s) s) s;
          s = s\<lparr>tmem := store32 (tmem s) (tget (off_sp layout2) t s) func\<rparr>;
          s = tset (off_sp layout2) t (tget (off_sp layout2) t s - 32) s
      in check_thread_call 1 (tset (off_state layout2) t T_RUNNABLE s))"

definition thread_create3 :: "u32 \<Rightarrow> u32 \<Rightarrow> tstate \<Rightarrow> tstate \<times> int" where
  "thread_create3 tab func s =
     (let i = free_slot layout3 tab s; t = all_thread layout3 tab i in
      if i = max_thread layout3 then (tprint no_slot s, - 1)
      else let s = tset (off_sp layout3) t (t + off_stack layout3 + STACK_SIZE) s;
               s = tset (off_sp layout3) t (tget (off_sp layout3) t s - 4) s;
               s = tset (off_tid layout3) t (of_nat i) s;
               s = s\<lparr>tmem := store32 (tmem s) (tget (off_sp layout3) t s) func\<rparr>;
               s = tset (off_sp layout3) t (tget (off_sp layout3) t s - 32) s;
               s = tset (off_state layout3) t T_RUNNABLE s;
               s = check_thread_call 1 s
           in (s, sint (tget (off_tid layout3) t s)))"

text \<open>The end of the functions that the threads run.\<close>

definition mythread_end1 :: "u32 \<Rightarrow> u32 \<Rightarrow> tstate \<Rightarrow> turn" where
  "mythread_end1 tab ra s =
     thread_schedule1 tab ra (check_thread_call (- 1) (tset (off_state layout1) (current_thread s) T_FREE s))"

definition mythread_end2 :: "u32 \<Rightarrow> u32 \<Rightarrow> tstate \<Rightarrow> turn" where
  "mythread_end2 tab ra s =
     thread_schedule2 tab ra (check_thread_call (- 1) (tset (off_state layout2) (current_thread s) T_FREE s))"

definition mythread_end3 :: "u32 \<Rightarrow> u32 \<Rightarrow> tstate \<Rightarrow> turn" where
  "mythread_end3 tab ra s =
     thread_schedule3 tab ra (check_thread_call (- 1) (tset (off_state layout3) (current_thread s) T_FREE s))"

subsection \<open>Waiting for children (\<^verbatim>\<open>uthread2.c\<close>)\<close>

definition has_child :: "u32 \<Rightarrow> tstate \<Rightarrow> bool" where
  "has_child tab s \<longleftrightarrow>
     first_thread layout2 tab (\<lambda>t. tget (off_state layout2) t s \<noteq> T_FREE \<and>
       tget (off_ptid layout2) t s = tget (off_tid layout2) (current_thread s) s) < max_thread layout2"

text \<open>One turn of the loop of \<^verbatim>\<open>thread_join_all\<close>; \<open>None\<close> when the loop is left.\<close>

definition join_turn :: "u32 \<Rightarrow> u32 \<Rightarrow> tstate \<Rightarrow> turn option" where
  "join_turn tab ra s =
     (if \<not> has_child tab s then None
      else Some (thread_schedule2 tab ra (tset (off_state layout2) (current_thread s) T_WAIT s)))"

text \<open>The loop that wakes the first waiting thread with identifier \<open>p\<close>.\<close>

definition wake_waiting :: "u32 \<Rightarrow> u32 \<Rightarrow> tstate \<Rightarrow> tstate" where
  "wake_waiting tab p s =
     (let i = first_thread layout2 tab (\<lambda>t. tget (off_tid layout2) t s = p \<and> tget (off_state layout2) t s = T_WAIT) in
      if i < max_thread layout2 then tset (off_state layout2) (all_thread layout2 tab i) T_RUNNABLE s else s)"

definition wake_pthread :: "u32 \<Rightarrow> tstate \<Rightarrow> tstate" where
  "wake_pthread tab s =
     (let p = tget (off_ptid layout2) (current_thread s) s;
          child_alive = first_thread layout2 tab (\<lambda>t. tget (off_ptid layout2) t s = p \<and>
            tget (off_tid layout2) t s \<noteq> tget (off_tid layout2) (current_thread s) s \<and>
            tget (off_state layout2) t s \<noteq> T_FREE) < max_thread layout2
      in if \<not> child_alive then wake_waiting tab p s else s)"

definition child_thread_end :: "u32 \<Rightarrow> u32 \<Rightarrow> tstate \<Rightarrow> turn" where
  "child_thread_end tab ra s =
     (let s = wake_waiting tab (tget (off_ptid layout2) (current_thread s) s) s;
          s = tset (off_state layout2) (current_thread s) T_FREE s;
          s = check_thread_call (- 1) s
      in thread_schedule2 tab ra (wake_pthread tab s))"

subsection \<open>Suspending and resuming (\<^verbatim>\<open>uthread3.c\<close>)\<close>

definition tid_message :: "string \<Rightarrow> u32 \<Rightarrow> string \<Rightarrow> string" where
  "tid_message pre n post = pre @ int_text upper_digits n 10 True @ post @ [CHR 0x0A]"

text \<open>What follows after the scheduler returns is the message; a switch continues another thread first.\<close>

definition thread_suspend :: "u32 \<Rightarrow> u32 \<Rightarrow> u32 \<Rightarrow> tstate \<Rightarrow> turn" where
  "thread_suspend tab ra n s =
     (let i = first_thread layout3 tab (\<lambda>t. tget (off_tid layout3) t s = n); t = all_thread layout3 tab i in
      if i \<ge> max_thread layout3 then Returns (tprint (tid_message ''thread_suspend: thread with tid '' n '' not found'') s)
      else if tget (off_state layout3) t s = T_WAIT then Returns (tprint (tid_message ''thread_suspend: thread with tid '' n '' is already suspended'') s)
      else let s = tset (off_state layout3) t T_WAIT s in
        if t = current_thread s
        then (case thread_schedule3 tab ra s of Returns s \<Rightarrow> Returns (tprint (tid_message ''thread '' n '' suspended'') s) | r \<Rightarrow> r)
        else Returns (tprint (tid_message ''thread '' n '' suspended'') s))"

definition thread_resume :: "u32 \<Rightarrow> u32 \<Rightarrow> tstate \<Rightarrow> tstate" where
  "thread_resume tab n s =
     (let i = first_thread layout3 tab (\<lambda>t. tget (off_tid layout3) t s = n); t = all_thread layout3 tab i in
      if i \<ge> max_thread layout3 then tprint (tid_message ''thread_resume: thread with tid '' n '' not found'') s
      else if tget (off_state layout3) t s = T_RUNNING then tprint (tid_message ''thread_resume: thread with tid '' n '' is already running'') s
      else tprint (tid_message ''thread '' n '' resumed'') (tset (off_state layout3) t T_RUNNABLE s))"

end
