(* ===== verification/Uthread_Switch.thy ===== *)
theory Uthread_Switch
  imports Uthread
begin

text \<open>
  Threads keep their contexts.  What a thread finds when it is switched to is what it left when it
  was switched away from: the registers, the stack pointer, the return address and every byte of its
  stack above the stack pointer; a new thread starts its function on an empty stack.
\<close>

subsection \<open>The switch\<close>

definition regs :: "tstate \<Rightarrow> u32 list" where
  "regs s = [eax s, ecx s, edx s, ebx s, ebp s, esi s, edi s]"

text \<open>The words that \<^verbatim>\<open>popal\<close> loads from \<open>p\<close>.\<close>

definition frame_regs :: "mem \<Rightarrow> u32 \<Rightarrow> u32 list" where
  "frame_regs m p = map (\<lambda>k. load32 m (p + k)) [28, 24, 20, 16, 8, 4, 0]"

lemma unat_minus_const:
  "unat k \<le> unat (e :: u32) \<Longrightarrow> unat (e - k) = unat e - unat k"
  by (simp add: unat_sub word_le_nat_alt)

lemma below_load:
  assumes "unat i + 4 \<le> unat j \<or> unat j + 4 \<le> unat i" "4 \<le> unat i" "4 \<le> unat j" "unat i \<le> unat (e :: u32)" "unat j \<le> unat e"
  shows "load32 (store32 m (e - i) v) (e - j) = load32 m (e - j)"
  using assms unat_less_32 [of e] by (intro load32_other) (auto simp: unat_minus_const)

lemma below_away:
  assumes "unat a < unat e - 36 \<or> unat e \<le> unat a" "36 \<le> unat (e :: u32)" "4 \<le> unat i" "unat i \<le> 36"
  shows "store32 m (e - i) v a = m a"
  using assms unat_less_32 [of e] by (intro store32_away) (auto simp: unat_minus_const)

lemma push_frame:
  fixes ra :: u32
  assumes E: "36 \<le> unat (esp s)"
  defines "t \<equiv> pushal (push ra s)"
  shows "esp t = esp s - 36" "frame_regs (tmem t) (esp s - 36) = regs s" "load32 (tmem t) (esp s - 4) = ra"
    "same_on (- {unat (esp s) - 36..<unat (esp s)}) (tmem s) (tmem t)"
    "current_thread t = current_thread s" "next_thread t = next_thread s"
proof -
  show "esp t = esp s - 36" "current_thread t = current_thread s" "next_thread t = next_thread s"
    by (simp_all add: t_def pushal_def push_def Let_def)
  show "load32 (tmem t) (esp s - 4) = ra" using E by (simp add: t_def pushal_def push_def Let_def below_load)
  show "frame_regs (tmem t) (esp s - 36) = regs s"
    using E by (simp add: t_def pushal_def push_def Let_def frame_regs_def regs_def below_load)
  show "same_on (- {unat (esp s) - 36..<unat (esp s)}) (tmem s) (tmem t)"
    using E by (auto simp: t_def pushal_def push_def Let_def same_on_def below_away)
qed

lemma frame_same_on:
  assumes m: "same_on A m m'" and p: "{unat p..<unat p + 36} \<subseteq> A" "unat p + 36 \<le> 4294967296"
  shows "frame_regs m' p = frame_regs m p" "load32 m' (p + 32) = load32 m (p + 32)"
proof -
  have k: "load32 m' (p + k) = load32 m (p + k)" if "unat k \<le> 32" for k
  proof -
    have "unat (p + k) = unat p + unat k" using that p(2) by (intro unat_add_32) simp
    then show ?thesis using that p by (intro load32_same_on [OF m]) (simp_all add: subset_iff)
  qed
  show "frame_regs m' p = frame_regs m p" "load32 m' (p + 32) = load32 m (p + 32)" using k [of 0] k by (simp_all add: frame_regs_def)
qed

lemma switch_effect:
  fixes ra :: u32
  assumes E: "36 \<le> unat (esp s)" and c: "current_thread s = c" "unat c + 4 \<le> 4294967296"
    and n: "next_thread s = n" "unat n + 4 \<le> 4294967296" and p: "load32 (tmem s) n = p" "unat p + 36 \<le> 4294967296"
    and F: "F = {unat (esp s) - 36..<unat (esp s)}" "{unat c..<unat c + 4} \<subseteq> - F"
    and away: "{unat n..<unat n + 4} \<subseteq> - (F \<union> {unat c..<unat c + 4})" "{unat p..<unat p + 36} \<subseteq> - (F \<union> {unat c..<unat c + 4})"
  defines "s' \<equiv> thread_switch (push ra s)"
  shows "same_on (- (F \<union> {unat c..<unat c + 4})) (tmem s) (tmem s')" "load32 (tmem s') c = esp s - 36"
    "frame_regs (tmem s') (esp s - 36) = regs s" "load32 (tmem s') (esp s - 4) = ra" "current_thread s' = n"
    "regs s' = frame_regs (tmem s) p" "esp s' = p + 36" "eip s' = load32 (tmem s) (p + 32)"
proof -
  define t where "t = pushal (push ra s)"
  note t = push_frame [OF E, of ra, folded t_def]
  let ?m = "store32 (tmem t) c (esp s - 36)"
  have w: "same_on (- {unat c..<unat c + 4}) (tmem t) ?m" using store32_same_on [OF c(2)] .
  have so: "same_on (- (F \<union> {unat c..<unat c + 4})) (tmem s) ?m"
    using same_on_trans [OF t(4) w] by (rule same_on_mono) (auto simp: F)
  have ld: "load32 ?m n = p" using load32_same_on [OF so away(1) n(2)] p(1) by simp
  have m': "tmem s' = ?m" "current_thread s' = n" "regs s' = frame_regs ?m p" "esp s' = p + 36" "eip s' = load32 ?m (p + 32)"
    using t c(1) n(1) ld
    by (simp_all add: s'_def thread_switch_def Let_def t_def [symmetric] popal_def ret_def regs_def frame_regs_def)
  note fr = frame_same_on [OF so away(2) p(2)]
  show "same_on (- (F \<union> {unat c..<unat c + 4})) (tmem s) (tmem s')" using so m'(1) by simp
  show "load32 (tmem s') c = esp s - 36" using m'(1) by simp
  show "current_thread s' = n" "regs s' = frame_regs (tmem s) p" "esp s' = p + 36" "eip s' = load32 (tmem s) (p + 32)" using m' fr by simp_all
  have u: "unat (esp s - 36) = unat (esp s) - 36" using E by (simp add: unat_minus_const)
  have Fc: "{unat (esp s - 36)..<unat (esp s - 36) + 36} \<subseteq> - {unat c..<unat c + 4}" "unat (esp s - 36) + 36 \<le> 4294967296"
    using F E u unat_less_32 [of "esp s"] by auto
  have "esp s - 36 + 32 = esp s - 4" by simp
  then show "frame_regs (tmem s') (esp s - 36) = regs s" "load32 (tmem s') (esp s - 4) = ra"
    using frame_same_on [OF w Fc] t(2,3) m'(1) by (simp_all only:)
qed

subsection \<open>The threads in memory\<close>

text \<open>The layouts that fit the assembly, and a table that fits the address space.\<close>

definition good_layout :: "tlayout \<Rightarrow> bool" where
  "good_layout L \<longleftrightarrow> off_sp L = 0 \<and> off_stack L = 4 \<and> off_state L = 8196 \<and> 8200 \<le> thread_size L \<and> 1 \<le> max_thread L"

text \<open>The address of an entry, and the stack of each thread: thread 0 runs on the stack \<open>ms\<close> of the process.\<close>

definition entry :: "tlayout \<Rightarrow> u32 \<Rightarrow> nat \<Rightarrow> nat" where
  "entry L tab i = unat tab + i * thread_size L"

definition stack_lo :: "tlayout \<Rightarrow> u32 \<Rightarrow> nat \<times> nat \<Rightarrow> nat \<Rightarrow> nat" where
  "stack_lo L tab ms i = (if i = 0 then fst ms else entry L tab i + 4)"

definition stack_hi :: "tlayout \<Rightarrow> u32 \<Rightarrow> nat \<times> nat \<Rightarrow> nat \<Rightarrow> nat" where
  "stack_hi L tab ms i = (if i = 0 then snd ms else entry L tab i + 8196)"

definition placed :: "tlayout \<Rightarrow> u32 \<Rightarrow> nat \<times> nat \<Rightarrow> bool" where
  "placed L tab ms \<longleftrightarrow> good_layout L \<and> tab \<noteq> 0 \<and> entry L tab (max_thread L) \<le> 2147483648 \<and> snd ms \<le> 2147483648 \<and>
     (snd ms \<le> unat tab \<or> entry L tab (max_thread L) \<le> fst ms)"

lemma entry_le: "i < j \<Longrightarrow> entry L tab i + thread_size L \<le> entry L tab j"
  using mult_le_mono1 [of "Suc i" j "thread_size L"] by (simp add: entry_def)

lemma entry_bounds:
  assumes "placed L tab ms" "i < max_thread L"
  shows "unat tab \<le> entry L tab i" "entry L tab i + 8200 \<le> entry L tab (max_thread L)" "unat (all_thread L tab i) = entry L tab i"
    "unat (all_thread L tab i + off_state L) = entry L tab i + 8196" "unat (all_thread L tab i + off_sp L) = entry L tab i"
proof -
  have L: "good_layout L" "entry L tab (max_thread L) \<le> 2147483648" using assms(1) by (auto simp: placed_def)
  have e: "entry L tab i + thread_size L \<le> entry L tab (max_thread L)" using entry_le [OF assms(2)] .
  show b: "unat tab \<le> entry L tab i" "entry L tab i + 8200 \<le> entry L tab (max_thread L)" using e L by (auto simp: entry_def good_layout_def)
  have u: "unat (of_nat (i * thread_size L) :: u32) = i * thread_size L"
    using b L by (intro unat_of_nat_32) (simp add: entry_def)
  show a: "unat (all_thread L tab i) = entry L tab i"
    using u b L unat_add_32 [of tab "of_nat (i * thread_size L)"] by (simp add: all_thread_def entry_def)
  show "unat (all_thread L tab i + off_state L) = entry L tab i + 8196" "unat (all_thread L tab i + off_sp L) = entry L tab i"
    using a b L unat_add_32 [of "all_thread L tab i" "8196"] by (simp_all add: good_layout_def)
qed

lemma all_thread_inj: "placed L tab ms \<Longrightarrow> i < max_thread L \<Longrightarrow> j < max_thread L \<Longrightarrow> all_thread L tab i = all_thread L tab j \<Longrightarrow> i = j"
  using entry_bounds(3) [of L tab ms i] entry_bounds(3) [of L tab ms j] entry_le [of i j L tab] entry_le [of j i L tab]
  by (cases i j rule: linorder_cases) (auto simp: placed_def good_layout_def)

lemma all_thread_nonzero: "placed L tab ms \<Longrightarrow> i < max_thread L \<Longrightarrow> all_thread L tab i \<noteq> 0"
  using entry_bounds(1,3) [of L tab ms i] by (auto simp: placed_def unat_eq_zero)

text \<open>The bytes of a thread: its saved stack pointer, its state and its stack.\<close>

definition sp_bytes :: "tlayout \<Rightarrow> u32 \<Rightarrow> nat \<Rightarrow> nat set" where
  "sp_bytes L tab i = {entry L tab i..<entry L tab i + 4}"

definition state_bytes :: "tlayout \<Rightarrow> u32 \<Rightarrow> nat \<Rightarrow> nat set" where
  "state_bytes L tab i = {entry L tab i + 8196..<entry L tab i + 8200}"

definition stack_bytes :: "tlayout \<Rightarrow> u32 \<Rightarrow> nat \<times> nat \<Rightarrow> nat \<Rightarrow> nat set" where
  "stack_bytes L tab ms i = {stack_lo L tab ms i..<stack_hi L tab ms i}"

definition thread_bytes :: "tlayout \<Rightarrow> u32 \<Rightarrow> nat \<times> nat \<Rightarrow> nat \<Rightarrow> nat set" where
  "thread_bytes L tab ms i = sp_bytes L tab i \<union> state_bytes L tab i \<union> stack_bytes L tab ms i"

lemma entry_disjoint:
  assumes "placed L tab ms" "i < max_thread L" "j < max_thread L" "i \<noteq> j"
  shows "entry L tab i + 8200 \<le> entry L tab j \<or> entry L tab j + 8200 \<le> entry L tab i"
  using assms entry_le [of i j L tab] entry_le [of j i L tab] by (cases i j rule: linorder_cases) (auto simp: placed_def good_layout_def)

lemma bytes_disjoint:
  assumes "placed L tab ms" "i < max_thread L" "j < max_thread L" "i \<noteq> j"
  shows "thread_bytes L tab ms i \<inter> thread_bytes L tab ms j = {}"
  using entry_disjoint [OF assms] entry_bounds(1,2) [OF assms(1,2)] entry_bounds(1,2) [OF assms(1,3)] assms(1,4)
  by (auto simp: thread_bytes_def sp_bytes_def state_bytes_def stack_bytes_def stack_lo_def stack_hi_def placed_def split: if_splits)

lemma own_bytes_disjoint:
  assumes "placed L tab ms" "i < max_thread L"
  shows "sp_bytes L tab i \<inter> stack_bytes L tab ms i = {}" "state_bytes L tab i \<inter> stack_bytes L tab ms i = {}" "sp_bytes L tab i \<inter> state_bytes L tab i = {}"
  using entry_bounds(1,2) [OF assms] assms(1)
  by (auto simp: sp_bytes_def state_bytes_def stack_bytes_def stack_lo_def stack_hi_def placed_def split: if_splits)

subsection \<open>Contexts\<close>

text \<open>
  What a thread can observe of the machine: the registers, the stack pointer, the next instruction
  and the bytes of its stack from the stack pointer to its end \<open>hi\<close>.
\<close>

type_synonym tcontext = "u32 list \<times> u32 \<times> u32 \<times> (u32 \<Rightarrow> u8)"

definition context_of :: "nat \<Rightarrow> tstate \<Rightarrow> tcontext" where
  "context_of hi s = (regs s, esp s, eip s, \<lambda>a. if unat (esp s) \<le> unat a \<and> unat a < hi then tmem s a else 0)"

definition saved_context :: "nat \<Rightarrow> mem \<Rightarrow> u32 \<Rightarrow> tcontext" where
  "saved_context hi m p = (frame_regs m p, p + 36, load32 m (p + 32), \<lambda>a. if unat p + 36 \<le> unat a \<and> unat a < hi then m a else 0)"

definition tstat :: "tlayout \<Rightarrow> u32 \<Rightarrow> nat \<Rightarrow> tstate \<Rightarrow> u32" where
  "tstat L tab i s = tget (off_state L) (all_thread L tab i) s"

definition parked :: "tlayout \<Rightarrow> u32 \<Rightarrow> nat \<times> nat \<Rightarrow> tstate \<Rightarrow> nat \<Rightarrow> tcontext \<Rightarrow> bool" where
  "parked L tab ms s i x \<longleftrightarrow>
     (let p = tget (off_sp L) (all_thread L tab i) s in
      stack_lo L tab ms i \<le> unat p \<and> unat p + 36 \<le> stack_hi L tab ms i \<and> saved_context (stack_hi L tab ms i) (tmem s) p = x)"

text \<open>
  Thread \<open>c\<close> runs; every other thread that is runnable or waiting has its context \<open>G i\<close>
  saved on its own stack.
\<close>

definition thread_inv :: "tlayout \<Rightarrow> u32 \<Rightarrow> nat \<times> nat \<Rightarrow> tstate \<Rightarrow> nat \<Rightarrow> (nat \<Rightarrow> tcontext) \<Rightarrow> bool" where
  "thread_inv L tab ms s c G \<longleftrightarrow> c < max_thread L \<and> current_thread s = all_thread L tab c \<and>
     (\<forall>i<max_thread L. i \<noteq> c \<and> (tstat L tab i s = T_RUNNABLE \<or> tstat L tab i s = T_WAIT) \<longrightarrow> parked L tab ms s i (G i))"

lemma stack_top: "placed L tab ms \<Longrightarrow> i < max_thread L \<Longrightarrow> stack_hi L tab ms i \<le> 2147483648"
  using entry_bounds(2) [of L tab ms i] by (auto simp: stack_hi_def placed_def)

lemma stat_same_on:
  assumes "placed L tab ms" "i < max_thread L" "same_on A (tmem s) (tmem s')" "state_bytes L tab i \<subseteq> A"
  shows "tstat L tab i s' = tstat L tab i s"
  unfolding tstat_def tget_def using assms(1,4) entry_bounds(2,4) [OF assms(1,2)]
  by (intro load32_same_on [OF assms(3)]) (auto simp: state_bytes_def placed_def)

lemma sp_same_on:
  assumes "placed L tab ms" "i < max_thread L" "same_on A (tmem s) (tmem s')" "sp_bytes L tab i \<subseteq> A"
  shows "tget (off_sp L) (all_thread L tab i) s' = tget (off_sp L) (all_thread L tab i) s"
  unfolding tget_def using assms(1,4) entry_bounds(2,5) [OF assms(1,2)]
  by (intro load32_same_on [OF assms(3)]) (auto simp: sp_bytes_def placed_def)

lemma saved_same_on:
  assumes m: "same_on A m m'" "{lo..<hi} \<subseteq> A" and p: "lo \<le> unat p" "unat p + 36 \<le> hi" "hi \<le> 4294967296"
  shows "saved_context hi m' p = saved_context hi m p"
proof -
  have "m' a = m a" if "unat p + 36 \<le> unat a" "unat a < hi" for a using that m p by (intro same_onD [OF m(1)]) auto
  moreover have "{unat p..<unat p + 36} \<subseteq> A" using m(2) p by auto
  ultimately show ?thesis using frame_same_on [OF m(1), of p] p by (auto simp: saved_context_def)
qed

lemma parked_same_on:
  assumes pl: "placed L tab ms" "i < max_thread L" and m: "same_on A (tmem s) (tmem s')" "sp_bytes L tab i \<subseteq> A" "stack_bytes L tab ms i \<subseteq> A"
    and k: "parked L tab ms s i x"
  shows "parked L tab ms s' i x"
  using k sp_same_on [OF pl m(1,2)] saved_same_on [OF m(1), of "stack_lo L tab ms i" "stack_hi L tab ms i"] m(3) stack_top [OF pl]
  by (auto simp: parked_def Let_def stack_bytes_def)

text \<open>Changing the state of a thread.\<close>

lemma tset_state:
  fixes v :: u32 and s :: tstate
  assumes "placed L tab ms" "i < max_thread L"
  defines "s' \<equiv> tset (off_state L) (all_thread L tab i) v s"
  shows "same_on (- state_bytes L tab i) (tmem s) (tmem s')" "tstat L tab i s' = v"
    "j < max_thread L \<Longrightarrow> j \<noteq> i \<Longrightarrow> tstat L tab j s' = tstat L tab j s"
proof -
  have "unat (all_thread L tab i + off_state L) + 4 \<le> 4294967296" using assms(1) entry_bounds(2,4) [OF assms(1,2)] by (auto simp: placed_def)
  then show s: "same_on (- state_bytes L tab i) (tmem s) (tmem s')"
    using store32_same_on [of "all_thread L tab i + off_state L" "tmem s" v] entry_bounds(4) [OF assms(1,2)]
    by (simp add: s'_def tset_def state_bytes_def add.assoc)
  show "tstat L tab i s' = v" by (simp add: s'_def tset_def tstat_def tget_def)
  show "tstat L tab j s' = tstat L tab j s" if "j < max_thread L" "j \<noteq> i"
    using bytes_disjoint [OF assms(1,2) that(1)] that by (intro stat_same_on [OF assms(1) that(1) s]) (auto simp: thread_bytes_def)
qed

lemma tset_fields [simp]:
  "current_thread (tset off t v s) = current_thread s" "next_thread (tset off t v s) = next_thread s"
  "esp (tset off t v s) = esp s" "eip (tset off t v s) = eip s" "regs (tset off t v s) = regs s"
  by (simp_all add: tset_def regs_def)

text \<open>Marking the running thread or any other thread keeps the invariant if a thread made runnable or waiting is parked.\<close>

lemma inv_tset:
  assumes pl: "placed L tab ms" and i: "thread_inv L tab ms s c G" and j: "j < max_thread L"
    and v: "j = c \<or> v \<noteq> T_RUNNABLE \<and> v \<noteq> T_WAIT \<or> tstat L tab j s = T_WAIT"
  shows "thread_inv L tab ms (tset (off_state L) (all_thread L tab j) v s) c G"
proof -
  let ?s' = "tset (off_state L) (all_thread L tab j) v s"
  note t = tset_state [OF pl j, where v = v and s = s]
  have "parked L tab ms ?s' k (G k)" if k: "k < max_thread L" "k \<noteq> c" "tstat L tab k ?s' = T_RUNNABLE \<or> tstat L tab k ?s' = T_WAIT" for k
  proof -
    have "tstat L tab k s = T_RUNNABLE \<or> tstat L tab k s = T_WAIT" using k t(2,3) v by (cases "k = j") auto
    then have "parked L tab ms s k (G k)" using i k by (auto simp: thread_inv_def)
    moreover have "sp_bytes L tab k \<inter> state_bytes L tab j = {}" "stack_bytes L tab ms k \<inter> state_bytes L tab j = {}"
      using bytes_disjoint [OF pl k(1) j] own_bytes_disjoint [OF pl j] by (cases "k = j"; auto simp: thread_bytes_def)+
    ultimately show ?thesis by (intro parked_same_on [OF pl k(1) t(1)]) auto
  qed
  then show ?thesis using i by (auto simp: thread_inv_def)
qed

subsection \<open>From one thread to another\<close>

text \<open>What the scheduler does before the switch; \<open>b\<close> says whether the old thread becomes runnable.\<close>

definition handover :: "tlayout \<Rightarrow> u32 \<Rightarrow> nat \<Rightarrow> nat \<Rightarrow> bool \<Rightarrow> tstate \<Rightarrow> tstate" where
  "handover L tab c j b s =
     (let s = tset (off_state L) (all_thread L tab j) T_RUNNING (s\<lparr>next_thread := all_thread L tab j\<rparr>) in
      if b then tset (off_state L) (all_thread L tab c) T_RUNNABLE s else s)"

lemma handover_fields [simp]:
  "current_thread (handover L tab c j b s) = current_thread s" "next_thread (handover L tab c j b s) = all_thread L tab j"
  "esp (handover L tab c j b s) = esp s" "regs (handover L tab c j b s) = regs s"
  by (simp_all add: handover_def Let_def regs_def tset_def)

lemma handover_memory:
  assumes pl: "placed L tab ms" and c: "c < max_thread L" and j: "j < max_thread L" "j \<noteq> c"
  shows "same_on (- (state_bytes L tab j \<union> state_bytes L tab c)) (tmem s) (tmem (handover L tab c j b s))"
    "tstat L tab j (handover L tab c j b s) = T_RUNNING"
    "i < max_thread L \<Longrightarrow> i \<noteq> j \<Longrightarrow> i \<noteq> c \<Longrightarrow> tstat L tab i (handover L tab c j b s) = tstat L tab i s"
    "tstat L tab c (handover L tab c j b s) = (if b then T_RUNNABLE else tstat L tab c s)"
proof -
  let ?s = "s\<lparr>next_thread := all_thread L tab j\<rparr>"
  let ?t = "tset (off_state L) (all_thread L tab j) T_RUNNING ?s"
  note t1 = tset_state [OF pl j(1), where v = T_RUNNING and s = ?s] and t2 = tset_state [OF pl c, where v = T_RUNNABLE and s = ?t]
  have h: "handover L tab c j b s = (if b then tset (off_state L) (all_thread L tab c) T_RUNNABLE ?t else ?t)" by (simp add: handover_def Let_def)
  have "same_on (- state_bytes L tab j \<inter> - state_bytes L tab c) (tmem ?s) (tmem (handover L tab c j b s))"
    using same_on_trans [OF t1(1) t2(1)] t1(1) unfolding h by (auto elim: same_on_mono)
  then show "same_on (- (state_bytes L tab j \<union> state_bytes L tab c)) (tmem s) (tmem (handover L tab c j b s))" by (simp add: Compl_Un)
  show "tstat L tab j (handover L tab c j b s) = T_RUNNING" using t1(2) t2(3) [OF j] by (simp add: h)
  have "tstat L tab i ?s = tstat L tab i s" for i by (simp add: tstat_def tget_def)
  then show "tstat L tab i (handover L tab c j b s) = tstat L tab i s" if "i < max_thread L" "i \<noteq> j" "i \<noteq> c"
    using that t1(3) t2(3) by (simp add: h)
  show "tstat L tab c (handover L tab c j b s) = (if b then T_RUNNABLE else tstat L tab c s)"
    using t1(3) [OF c] t2(2) j(2) \<open>\<And>i. tstat L tab i ?s = tstat L tab i s\<close> by (simp add: h)
qed

text \<open>The memory and the processor after the switch from \<open>c\<close> to \<open>j\<close>, whose saved stack pointer is \<open>p\<close>.\<close>

lemma switch_facts:
  fixes ra :: u32 and b :: bool
  assumes pl: "placed L tab ms" and c: "c < max_thread L" "current_thread s = all_thread L tab c" and j: "j < max_thread L" "j \<noteq> c"
    and p: "tget (off_sp L) (all_thread L tab j) s = p" "stack_lo L tab ms j \<le> unat p" "unat p + 36 \<le> stack_hi L tab ms j"
    and sp: "stack_lo L tab ms c + 36 \<le> unat (esp s)" "unat (esp s) \<le> stack_hi L tab ms c"
    and F: "F = {unat (esp s) - 36..<unat (esp s)}"
  defines "h \<equiv> handover L tab c j b s"
  defines "s' \<equiv> thread_switch (push ra h)"
  shows "same_on (- (F \<union> sp_bytes L tab c)) (tmem h) (tmem s')"
    "same_on (- (F \<union> sp_bytes L tab c \<union> state_bytes L tab j \<union> state_bytes L tab c)) (tmem s) (tmem s')"
    "tget (off_sp L) (all_thread L tab c) s' = esp s - 36"
    "frame_regs (tmem s') (esp s - 36) = regs s" "load32 (tmem s') (esp s - 4) = ra" "current_thread s' = all_thread L tab j"
    "regs s' = frame_regs (tmem s) p" "esp s' = p + 36" "eip s' = load32 (tmem s) (p + 32)"
proof -
  note hm = handover_memory [OF pl c(1) j, where b = b and s = s, folded h_def]
  have Fs: "F \<subseteq> stack_bytes L tab ms c" using sp F by (auto simp: stack_bytes_def)
  have ps: "{unat p..<unat p + 36} \<subseteq> stack_bytes L tab ms j" using p by (auto simp: stack_bytes_def)
  have dj: "thread_bytes L tab ms j \<inter> thread_bytes L tab ms c = {}" using bytes_disjoint [OF pl j(1) c(1)] j(2) by blast
  note oc = own_bytes_disjoint [OF pl c(1)] and oj = own_bytes_disjoint [OF pl j(1)]
  have out: "sp_bytes L tab j \<subseteq> - (state_bytes L tab j \<union> state_bytes L tab c)" "stack_bytes L tab ms j \<subseteq> - (state_bytes L tab j \<union> state_bytes L tab c)"
    "sp_bytes L tab c \<subseteq> - F" "sp_bytes L tab j \<subseteq> - (F \<union> sp_bytes L tab c)" "stack_bytes L tab ms j \<subseteq> - (F \<union> sp_bytes L tab c)"
    using dj oc oj Fs unfolding thread_bytes_def by blast+
  have e: "unat (all_thread L tab c) = entry L tab c" "unat (all_thread L tab j) = entry L tab j" "off_sp L = 0" "entry L tab c + 4 \<le> 4294967296" "entry L tab j + 4 \<le> 4294967296"
    using entry_bounds(2,3) [OF pl c(1)] entry_bounds(2,3) [OF pl j(1)] pl by (auto simp: placed_def good_layout_def)
  have lp: "load32 (tmem h) (all_thread L tab j) = p" using sp_same_on [OF pl j(1) hm(1) out(1)] e(3) p(1) by (simp add: tget_def)
  have "unat p + 36 \<le> 4294967296" using stack_top [OF pl j(1)] p(3) by simp
  note sw = switch_effect [of h "all_thread L tab c" "all_thread L tab j" p F ra, unfolded e(1,2), folded sp_bytes_def s'_def,
    OF _ _ e(4) _ e(5) lp this _ out(3) out(4) subset_trans [OF ps out(5)]]
  have hf: "esp h = esp s" "current_thread h = all_thread L tab c" "next_thread h = all_thread L tab j" "regs h = regs s" "36 \<le> unat (esp s)"
    using c(2) sp(1) by (simp_all add: h_def)
  note w = sw [unfolded hf(1), OF hf(5) hf(2) hf(3) F, unfolded hf(4)]
  show "same_on (- (F \<union> sp_bytes L tab c)) (tmem h) (tmem s')" using w(1) .
  show "same_on (- (F \<union> sp_bytes L tab c \<union> state_bytes L tab j \<union> state_bytes L tab c)) (tmem s) (tmem s')"
    using same_on_trans [OF hm(1) w(1)] by (rule same_on_mono) blast
  show "tget (off_sp L) (all_thread L tab c) s' = esp s - 36" using w(2) e(3) by (simp add: tget_def)
  show "frame_regs (tmem s') (esp s - 36) = regs s" "load32 (tmem s') (esp s - 4) = ra" "current_thread s' = all_thread L tab j" "esp s' = p + 36"
    using w by auto
  show "regs s' = frame_regs (tmem s) p" "eip s' = load32 (tmem s) (p + 32)"
    using w(6,8) frame_same_on [OF hm(1) subset_trans [OF ps out(2)]] stack_top [OF pl j(1)] p(3) by simp_all
qed

lemma switch_inv:
  fixes ra :: u32 and b :: bool
  assumes pl: "placed L tab ms" and inv: "thread_inv L tab ms s c G" and j: "j < max_thread L" "j \<noteq> c" "tstat L tab j s = T_RUNNABLE"
    and sp: "stack_lo L tab ms c + 36 \<le> unat (esp s)" "unat (esp s) \<le> stack_hi L tab ms c"
  defines "s' \<equiv> thread_switch (push ra (handover L tab c j b s))"
  shows "thread_inv L tab ms s' j (G(c := context_of (stack_hi L tab ms c) (s\<lparr>eip := ra\<rparr>)))"
    "context_of (stack_hi L tab ms j) s' = G j" "tstat L tab j s' = T_RUNNING" "unat (esp s') \<le> stack_hi L tab ms j"
    "k < max_thread L \<Longrightarrow> tstat L tab k s \<noteq> T_FREE \<Longrightarrow> tstat L tab k s' \<noteq> T_FREE"
proof -
  have c: "c < max_thread L" "current_thread s = all_thread L tab c" using inv by (auto simp: thread_inv_def)
  define F where "F = {unat (esp s) - 36..<unat (esp s)}"
  define p where "p = tget (off_sp L) (all_thread L tab j) s"
  have "parked L tab ms s j (G j)" using inv j by (auto simp: thread_inv_def)
  then have p: "stack_lo L tab ms j \<le> unat p" "unat p + 36 \<le> stack_hi L tab ms j" "saved_context (stack_hi L tab ms j) (tmem s) p = G j"
    by (auto simp: parked_def p_def Let_def)
  note w = switch_facts [OF pl c j(1,2) p_def [symmetric] p(1,2) sp F_def, where b = b and ra = ra, folded s'_def]
  let ?T = "- (F \<union> sp_bytes L tab c \<union> state_bytes L tab j \<union> state_bytes L tab c)"
  have Fs: "F \<subseteq> stack_bytes L tab ms c" using sp by (auto simp: stack_bytes_def F_def)
  have dj: "thread_bytes L tab ms i \<inter> thread_bytes L tab ms k = {}" if "i < max_thread L" "k < max_thread L" "i \<noteq> k" for i k
    using bytes_disjoint [OF pl that] .
  note own = own_bytes_disjoint [OF pl]
  have top: "stack_hi L tab ms i \<le> 2147483648" if "i < max_thread L" for i using stack_top [OF pl that] .
  have up: "unat (p + 36) = unat p + 36" using unat_add_32 [of p 36] p(2) top [OF j(1)] by simp
  have "stack_bytes L tab ms j \<subseteq> ?T" using dj [OF j(1) c(1) j(2)] own [OF j(1)] Fs unfolding thread_bytes_def by blast
  then have "saved_context (stack_hi L tab ms j) (tmem s') p = saved_context (stack_hi L tab ms j) (tmem s) p"
    using saved_same_on [OF w(2), of "stack_lo L tab ms j" "stack_hi L tab ms j" p] p top [OF j(1)] by (simp add: stack_bytes_def)
  then show "context_of (stack_hi L tab ms j) s' = G j" unfolding p(3) [symmetric] using w(7-9) up by (simp add: saved_context_def context_of_def)
  show "unat (esp s') \<le> stack_hi L tab ms j" using w(8) up p(2) by simp
  have st: "tstat L tab i s' = tstat L tab i (handover L tab c j b s)" if i: "i < max_thread L" for i
  proof -
    have "state_bytes L tab i \<subseteq> - (F \<union> sp_bytes L tab c)"
      using dj [OF i c(1)] own [OF c(1)] Fs unfolding thread_bytes_def by (cases "i = c") blast+
    then show ?thesis by (rule stat_same_on [OF pl i w(1)])
  qed
  note hm = handover_memory [OF pl c(1) j(1,2), where b = b and s = s]
  show "tstat L tab j s' = T_RUNNING" using st [OF j(1)] hm(2) by simp
  show "tstat L tab k s' \<noteq> T_FREE" if "k < max_thread L" "tstat L tab k s \<noteq> T_FREE"
    using st [OF that(1)] hm(2-4) that by (cases "k = j"; cases "k = c") (auto simp: tstate_defs)
  show "thread_inv L tab ms s' j (G(c := context_of (stack_hi L tab ms c) (s\<lparr>eip := ra\<rparr>)))"
  proof -
    have ue: "unat (esp s - 36) = unat (esp s) - 36" "esp s - 36 + 36 = esp s" "esp s - 36 + 32 = esp s - 4" using sp(1) by (simp_all add: unat_minus_const)
    have "tmem s' a = tmem s a" if "unat (esp s) \<le> unat a" "unat a < stack_hi L tab ms c" for a
    proof -
      have "unat a \<in> stack_bytes L tab ms c - F" using that sp(1) by (simp add: stack_bytes_def F_def)
      then have "unat a \<in> ?T" using dj [OF j(1) c(1) j(2)] own [OF c(1)] unfolding thread_bytes_def by blast
      then show ?thesis using same_onD [OF w(2)] by blast
    qed
    then have "saved_context (stack_hi L tab ms c) (tmem s') (esp s - 36) = context_of (stack_hi L tab ms c) (s\<lparr>eip := ra\<rparr>)"
      using w(4,5) ue sp(1) by (auto simp: saved_context_def context_of_def regs_def)
    then have pc: "parked L tab ms s' c (context_of (stack_hi L tab ms c) (s\<lparr>eip := ra\<rparr>))"
      using w(3) ue sp by (simp add: parked_def Let_def)
    have "parked L tab ms s' i (G i)" if i: "i < max_thread L" "i \<noteq> j" "i \<noteq> c" "tstat L tab i s' = T_RUNNABLE \<or> tstat L tab i s' = T_WAIT" for i
    proof -
      have T: "state_bytes L tab i \<subseteq> ?T" "sp_bytes L tab i \<subseteq> ?T" "stack_bytes L tab ms i \<subseteq> ?T"
        using dj [OF i(1) j(1) i(2)] dj [OF i(1) c(1) i(3)] Fs unfolding thread_bytes_def by blast+
      then have "parked L tab ms s i (G i)" using stat_same_on [OF pl i(1) w(2) T(1)] i inv by (auto simp: thread_inv_def)
      then show ?thesis using parked_same_on [OF pl i(1) w(2) T(2,3)] by blast
    qed
    then show ?thesis using pc j w(6) by (auto simp: thread_inv_def)
  qed
qed

subsection \<open>Schedulers\<close>

text \<open>What the programs rely on: a scheduler that switches hands over to another runnable thread.\<close>

locale thread_scheduler =
  fixes L :: tlayout and sched :: "u32 \<Rightarrow> u32 \<Rightarrow> tstate \<Rightarrow> turn"
  assumes hands_over: "placed L tab ms \<Longrightarrow> c < max_thread L \<Longrightarrow> current_thread s = all_thread L tab c \<Longrightarrow> sched tab ra s = Switched s' \<Longrightarrow>
      \<exists>j b. j < max_thread L \<and> j \<noteq> c \<and> tstat L tab j s = T_RUNNABLE \<and> s' = thread_switch (push ra (handover L tab c j b s))"
    and returns: "placed L tab ms \<Longrightarrow> c < max_thread L \<Longrightarrow> current_thread s = all_thread L tab c \<Longrightarrow> sched tab ra s = Returns s' \<Longrightarrow> s' = s\<lparr>next_thread := 0\<rparr>"
begin

lemma resumes:
  assumes pl: "placed L tab ms" and inv: "thread_inv L tab ms s c G"
    and sp: "stack_lo L tab ms c + 36 \<le> unat (esp s)" "unat (esp s) \<le> stack_hi L tab ms c" and sw: "sched tab ra s = Switched s'"
  shows "\<exists>j<max_thread L. j \<noteq> c \<and> thread_inv L tab ms s' j (G(c := context_of (stack_hi L tab ms c) (s\<lparr>eip := ra\<rparr>))) \<and>
    context_of (stack_hi L tab ms j) s' = G j \<and> tstat L tab j s' = T_RUNNING \<and> unat (esp s') \<le> stack_hi L tab ms j \<and>
    (\<forall>k<max_thread L. tstat L tab k s \<noteq> T_FREE \<longrightarrow> tstat L tab k s' \<noteq> T_FREE)"
proof -
  have c: "c < max_thread L" "current_thread s = all_thread L tab c" using inv by (auto simp: thread_inv_def)
  obtain j b where j: "j < max_thread L" "j \<noteq> c" "tstat L tab j s = T_RUNNABLE" "s' = thread_switch (push ra (handover L tab c j b s))"
    using hands_over [OF pl c sw] by blast
  show ?thesis using switch_inv [OF pl inv j(1-3) sp, where ra = ra and b = b] j by blast
qed

lemma goes_on:
  assumes "placed L tab ms" "thread_inv L tab ms s c G" "sched tab ra s = Returns s'"
  shows "thread_inv L tab ms s' c G" "tmem s' = tmem s" "esp s' = esp s"
proof -
  have "s' = s\<lparr>next_thread := 0\<rparr>" using returns [OF assms(1) _ _ assms(3)] assms(2) by (auto simp: thread_inv_def)
  then show "thread_inv L tab ms s' c G" "tmem s' = tmem s" "esp s' = esp s"
    using assms(2) by (auto simp: thread_inv_def parked_def tstat_def tget_def)
qed

end

lemma first_thread_cases:
  "(\<exists>i<max_thread L. first_thread L tab P = i \<and> P (all_thread L tab i) \<and> (\<forall>k<i. \<not> P (all_thread L tab k))) \<or>
   first_thread L tab P = max_thread L \<and> (\<forall>k<max_thread L. \<not> P (all_thread L tab k))"
  by (auto simp: first_thread_def find_index_Some_iff find_index_None_nth split: option.splits)

lemma look_for_thread_cases:
  assumes pl: "placed L tab ms" and c: "c < max_thread L" "current_thread s = all_thread L tab c"
  shows "(\<exists>j<max_thread L. j \<noteq> c \<and> tstat L tab j s = T_RUNNABLE \<and> look_for_thread L tab s = s\<lparr>next_thread := all_thread L tab j\<rparr>) \<or>
    look_for_thread L tab s = s\<lparr>next_thread := all_thread L tab c\<rparr> \<or> look_for_thread L tab s = s\<lparr>next_thread := 0\<rparr>"
proof -
  let ?P = "\<lambda>t. tget (off_state L) t s = T_RUNNABLE \<and> t \<noteq> current_thread s"
  define i where "i = first_thread L tab ?P"
  have e: "look_for_thread L tab s =
    (if i < max_thread L then s\<lparr>next_thread := all_thread L tab i\<rparr>
     else if tget (off_state L) (current_thread s) s = T_RUNNABLE then s\<lparr>next_thread := current_thread s\<rparr> else s\<lparr>next_thread := 0\<rparr>)"
    by (simp add: look_for_thread_def Let_def tget_def i_def)
  show ?thesis
  proof (cases "i < max_thread L")
    case True
    then have "?P (all_thread L tab i)" using first_thread_cases [of L tab ?P] unfolding i_def by auto
    then have "i \<noteq> c" "tstat L tab i s = T_RUNNABLE" using c(2) by (auto simp: tstat_def)
    then show ?thesis using e True by auto
  next
    case False
    then show ?thesis using e c(2) by simp
  qed
qed

lemma switch_to_next_cases:
  assumes pl: "placed L tab ms" and c: "c < max_thread L" "current_thread s = all_thread L tab c"
  shows "j < max_thread L \<Longrightarrow> j \<noteq> c \<Longrightarrow>
      \<exists>b. switch_to_next L tab ra (s\<lparr>next_thread := all_thread L tab j\<rparr>) = Switched (thread_switch (push ra (handover L tab c j b s)))"
    and "switch_to_next L tab ra (s\<lparr>next_thread := all_thread L tab c\<rparr>) = Returns (s\<lparr>next_thread := 0\<rparr>)"
proof -
  show "switch_to_next L tab ra (s\<lparr>next_thread := all_thread L tab c\<rparr>) = Returns (s\<lparr>next_thread := 0\<rparr>)"
    using c by (simp add: switch_to_next_def)
  assume j: "j < max_thread L" "j \<noteq> c"
  have "all_thread L tab c \<noteq> all_thread L tab j" using all_thread_inj [OF pl c(1) j(1)] j(2) by blast
  then show "\<exists>b. switch_to_next L tab ra (s\<lparr>next_thread := all_thread L tab j\<rparr>) = Switched (thread_switch (push ra (handover L tab c j b s)))"
    using c by (auto simp: switch_to_next_def handover_def Let_def)
qed

text \<open>Both schedulers either take the thread found, or stay with the current one, or end the process.\<close>

lemma schedule_laws:
  assumes pl: "placed L tab ms" and c: "c < max_thread L" "current_thread s = all_thread L tab c"
    and r: "next_thread (look_for_thread L tab s) \<noteq> 0 \<and> r = switch_to_next L tab ra (look_for_thread L tab s) \<or>
      r = switch_to_next L tab ra (s\<lparr>next_thread := all_thread L tab c\<rparr>)"
  shows "r = Switched s' \<Longrightarrow> \<exists>j b. j < max_thread L \<and> j \<noteq> c \<and> tstat L tab j s = T_RUNNABLE \<and> s' = thread_switch (push ra (handover L tab c j b s))"
    "r = Returns s' \<Longrightarrow> s' = s\<lparr>next_thread := 0\<rparr>"
proof -
  consider j where "j < max_thread L" "j \<noteq> c" "tstat L tab j s = T_RUNNABLE" "r = switch_to_next L tab ra (s\<lparr>next_thread := all_thread L tab j\<rparr>)"
    | "r = switch_to_next L tab ra (s\<lparr>next_thread := all_thread L tab c\<rparr>)"
    using look_for_thread_cases [OF pl c] r by force
  then have "(\<exists>j b. j < max_thread L \<and> j \<noteq> c \<and> tstat L tab j s = T_RUNNABLE \<and> r = Switched (thread_switch (push ra (handover L tab c j b s)))) \<or>
    r = Returns (s\<lparr>next_thread := 0\<rparr>)"
  proof cases
    case (1 j)
    then show ?thesis using switch_to_next_cases(1) [OF pl c 1(1,2), of ra] by auto
  next
    case 2
    then show ?thesis using switch_to_next_cases(2) [OF pl c, of ra] by simp
  qed
  then show "r = Switched s' \<Longrightarrow> \<exists>j b. j < max_thread L \<and> j \<noteq> c \<and> tstat L tab j s = T_RUNNABLE \<and> s' = thread_switch (push ra (handover L tab c j b s))"
    "r = Returns s' \<Longrightarrow> s' = s\<lparr>next_thread := 0\<rparr>" by auto
qed

interpretation u1: thread_scheduler layout1 thread_schedule1
proof
  fix tab ms c s' ra and s :: tstate assume a: "placed layout1 tab ms" "c < max_thread layout1" "current_thread s = all_thread layout1 tab c"
  have e: "thread_schedule1 tab ra s = (if next_thread (look_for_thread layout1 tab s) = 0 then Exits (tprint no_runnable (look_for_thread layout1 tab s))
    else switch_to_next layout1 tab ra (look_for_thread layout1 tab s))" by (simp add: thread_schedule1_def Let_def)
  show "\<exists>j b. j < max_thread layout1 \<and> j \<noteq> c \<and> tstat layout1 tab j s = T_RUNNABLE \<and> s' = thread_switch (push ra (handover layout1 tab c j b s))"
    if "thread_schedule1 tab ra s = Switched s'" using schedule_laws(1) [OF a, of "Switched s'" ra s'] that unfolding e by (auto split: if_splits)
  show "s' = s\<lparr>next_thread := 0\<rparr>" if "thread_schedule1 tab ra s = Returns s'"
    using schedule_laws(2) [OF a, of "Returns s'" ra s'] that unfolding e by (auto split: if_splits)
qed

interpretation u2: thread_scheduler layout2 thread_schedule2
proof
  fix tab ms c s' ra and s :: tstate assume a: "placed layout2 tab ms" "c < max_thread layout2" "current_thread s = all_thread layout2 tab c"
  let ?l = "look_for_thread layout2 tab s"
  have "?l\<lparr>next_thread := current_thread ?l\<rparr> = s\<lparr>next_thread := all_thread layout2 tab c\<rparr>"
    using look_for_thread_cases [OF a] a(3) by (elim disjE exE conjE) simp_all
  then have e: "thread_schedule2 tab ra s = Exits (tprint no_runnable ?l) \<or>
    thread_schedule2 tab ra s = switch_to_next layout2 tab ra (s\<lparr>next_thread := all_thread layout2 tab c\<rparr>) \<or>
    next_thread ?l \<noteq> 0 \<and> thread_schedule2 tab ra s = switch_to_next layout2 tab ra ?l"
    using all_thread_nonzero [OF a(1,2)] by (auto simp: thread_schedule2_def Let_def)
  show "\<exists>j b. j < max_thread layout2 \<and> j \<noteq> c \<and> tstat layout2 tab j s = T_RUNNABLE \<and> s' = thread_switch (push ra (handover layout2 tab c j b s))"
    if "thread_schedule2 tab ra s = Switched s'" using schedule_laws(1) [OF a, of "Switched s'" ra s'] that e by auto
  show "s' = s\<lparr>next_thread := 0\<rparr>" if "thread_schedule2 tab ra s = Returns s'"
    using schedule_laws(2) [OF a, of "Returns s'" ra s'] that e by auto
qed

subsection \<open>A new thread\<close>

lemma field_store:
  assumes "unat a + 8208 \<le> 4294967296" "unat i \<le> 8204" "unat j \<le> 8204" "unat i + 4 \<le> unat j \<or> unat j + 4 \<le> unat i"
  shows "load32 (store32 m (a + i) v) (a + j) = load32 m (a + j :: u32)"
  using assms unat_add_32 [of a i] unat_add_32 [of a j] by (intro load32_other) auto

lemmas field_stores = field_store field_store [where i = 0, simplified] field_store [where j = 0, simplified]

lemma field_away:
  assumes "unat a + 8208 \<le> 4294967296" "unat i \<le> 8204" "unat x < unat a \<or> unat a + 8208 \<le> unat (x :: u32)"
  shows "store32 m (a + i) v x = m x"
  using assms unat_add_32 [of a i] by (intro store32_away) auto

lemmas field_aways = field_away field_away [where i = 0, simplified]

lemma layout2_fields [simp]:
  "off_sp layout2 = 0" "off_stack layout2 = 4" "off_state layout2 = 8196" "off_tid layout2 = 8200" "off_ptid layout2 = 8204"
  "thread_size layout2 = 8208" "max_thread layout2 = 10"
  by (simp_all add: layout2_def)

lemma create2_memory:
  fixes func :: u32
  assumes i: "free_slot layout2 tab s = i" and a: "all_thread layout2 tab i = a" "unat a + 8208 \<le> 4294967296"
  defines "s' \<equiv> thread_create2 tab func s"
  shows "load32 (tmem s') a = a + 8160" "load32 (tmem s') (a + 8192) = func" "load32 (tmem s') (a + 8196) = T_RUNNABLE"
    "frame_regs (tmem s') (a + 8160) = frame_regs (tmem s) (a + 8160)" "same_on (- {unat a..<unat a + 8208}) (tmem s) (tmem s')"
    "current_thread s' = current_thread s" "esp s' = esp s"
proof -
  note d = s'_def thread_create2_def Let_def i a(1) STACK_SIZE_def tset_def tget_def check_thread_call_def
  have flip: "8196 + a = a + 8196" "8192 + a = a + 8192" "8160 + a = a + 8160" "8164 + a = a + 8164"
    "8168 + a = a + 8168" "8176 + a = a + 8176" "8180 + a = a + 8180" "8184 + a = a + 8184" "8188 + a = a + 8188" by simp_all
  show "load32 (tmem s') a = a + 8160" "load32 (tmem s') (a + 8192) = func" "load32 (tmem s') (a + 8196) = T_RUNNABLE"
    "current_thread s' = current_thread s" "esp s' = esp s"
    using a(2) by (simp_all add: d field_stores flip)
  show "frame_regs (tmem s') (a + 8160) = frame_regs (tmem s) (a + 8160)" using a(2) by (simp add: d field_stores flip frame_regs_def)
  show "same_on (- {unat a..<unat a + 8208}) (tmem s) (tmem s')" using a(2) by (auto simp: d field_stores flip field_aways same_on_def)
qed

text \<open>What a new thread starts with: its function, an empty stack, and registers it must not rely on.\<close>

definition new_context :: "u32 \<Rightarrow> u32 \<Rightarrow> tstate \<Rightarrow> tcontext" where
  "new_context a func s = (frame_regs (tmem s) (a + 8160), a + 8196, func, \<lambda>_. 0)"

lemma slot_disjoint:
  assumes pl: "placed layout2 tab ms" and k: "k < 10" "i < 10" "k \<noteq> i"
  shows "thread_bytes layout2 tab ms k \<subseteq> - {entry layout2 tab i..<entry layout2 tab i + 8208}"
proof -
  have "entry layout2 tab i + 8208 \<le> entry layout2 tab k \<or> entry layout2 tab k + 8208 \<le> entry layout2 tab i"
    using entry_le [of i k layout2 tab] entry_le [of k i layout2 tab] k(3) by (cases i k rule: linorder_cases) auto
  moreover have "unat tab \<le> entry layout2 tab i" "entry layout2 tab i + 8208 \<le> entry layout2 tab 10"
    using entry_le [of i 10 layout2 tab] k(2) by (auto simp: entry_def)
  ultimately show ?thesis using pl
    by (auto simp: thread_bytes_def sp_bytes_def state_bytes_def stack_bytes_def stack_lo_def stack_hi_def placed_def split: if_splits)
qed

lemma create2_inv:
  fixes func :: u32
  assumes pl: "placed layout2 tab ms" and inv: "thread_inv layout2 tab ms s c G" and i: "free_slot layout2 tab s = i" "i < 10"
    and c: "tstat layout2 tab c s \<noteq> T_FREE" "tstat layout2 tab 0 s \<noteq> T_FREE"
  defines "s' \<equiv> thread_create2 tab func s"
  shows "thread_inv layout2 tab ms s' c (G(i := new_context (all_thread layout2 tab i) func s))" "esp s' = esp s"
    "tstat layout2 tab c s' \<noteq> T_FREE" "tstat layout2 tab 0 s' \<noteq> T_FREE"
proof -
  let ?a = "all_thread layout2 tab i" and ?S = "- {entry layout2 tab i..<entry layout2 tab i + 8208}"
  have cm: "c < 10" "current_thread s = all_thread layout2 tab c" using inv by (auto simp: thread_inv_def)
  have im: "i < max_thread layout2" using i(2) by simp
  have "tstat layout2 tab i s = T_FREE"
    using first_thread_cases [of layout2 tab "\<lambda>t. tget (off_state layout2) t s = T_FREE"] i by (auto simp: free_slot_def tstat_def)
  then have ic: "c \<noteq> i" "i \<noteq> 0" using c by (metis, metis)
  have top: "entry layout2 tab i + 8208 \<le> entry layout2 tab 10" "entry layout2 tab 10 \<le> 2147483648" "unat ?a = entry layout2 tab i"
    using entry_le [of i 10 layout2 tab] i(2) pl entry_bounds(3) [OF pl im] by (simp_all add: placed_def)
  have "unat ?a + 8208 \<le> 4294967296" using top by simp
  note m = create2_memory [OF i(1) refl this, of func, folded s'_def, unfolded top(3)]
  have out: "thread_bytes layout2 tab ms k \<subseteq> ?S" if "k < 10" "k \<noteq> i" for k using slot_disjoint [OF pl that(1) i(2) that(2)] .
  have st: "tstat layout2 tab k s' = tstat layout2 tab k s" if "k < 10" "k \<noteq> i" for k
    using out [OF that] that by (intro stat_same_on [OF pl _ m(5)]) (auto simp: thread_bytes_def)
  show "esp s' = esp s" using m(7) .
  show "tstat layout2 tab c s' \<noteq> T_FREE" "tstat layout2 tab 0 s' \<noteq> T_FREE" using st [OF cm(1) ic(1)] st [of 0] ic c by simp_all
  have u: "unat (?a + 8160) = entry layout2 tab i + 8160" using unat_add_32 [of ?a 8160] top by simp
  have "parked layout2 tab ms s' i (new_context ?a func s)"
    using m(1-4) u ic(2) by (auto simp: parked_def tget_def saved_context_def new_context_def stack_lo_def stack_hi_def add.commute fun_eq_iff)
  moreover have "parked layout2 tab ms s' k (G k)" if k: "k < 10" "k \<noteq> c" "k \<noteq> i" "tstat layout2 tab k s' = T_RUNNABLE \<or> tstat layout2 tab k s' = T_WAIT" for k
  proof -
    have "parked layout2 tab ms s k (G k)" using inv k st [OF k(1,3)] by (auto simp: thread_inv_def)
    then show ?thesis using out [OF k(1,3)] k(1) by (intro parked_same_on [OF pl _ m(5)]) (auto simp: thread_bytes_def)
  qed
  ultimately show "thread_inv layout2 tab ms s' c (G(i := new_context ?a func s))" using inv m(6) by (auto simp: thread_inv_def)
qed

end
