(* ===== verification/Uthread_Runs.thy ===== *)
theory Uthread_Runs
  imports Uthread_Switch
begin

text \<open>
  Runs of \<^verbatim>\<open>uthread2.c\<close> that no timer interrupt redirects: threads compute, create threads, wait for them, call the
  scheduler and end in any order, and every thread is continued with the context in which it called the
  scheduler.  Without a redirected interrupt nothing runs between the instructions of a call, so a call is
  one step.  At the end, what a redirected interrupt destroys, and what goes wrong in the two other programs.
\<close>

subsection \<open>What a call does before it switches\<close>

text \<open>\<open>s1\<close> differs from \<open>s\<close> in states of threads only.\<close>

definition marks :: "tlayout \<Rightarrow> u32 \<Rightarrow> tstate \<Rightarrow> tstate \<Rightarrow> bool" where
  "marks L tab s s1 \<longleftrightarrow> same_on (- (\<Union>k<max_thread L. state_bytes L tab k)) (tmem s) (tmem s1) \<and>
     regs s1 = regs s \<and> esp s1 = esp s \<and> current_thread s1 = current_thread s"

lemma marks_refl [simp]: "marks L tab s s"
  by (simp add: marks_def)

lemma marks_trans: "marks L tab s t \<Longrightarrow> marks L tab t u \<Longrightarrow> marks L tab s u"
  by (auto simp: marks_def same_on_def)

lemma marks_tset: "placed L tab ms \<Longrightarrow> k < max_thread L \<Longrightarrow> marks L tab s (tset (off_state L) (all_thread L tab k) v s)"
  using tset_state(1) [of L tab ms k s v] by (auto simp: marks_def elim!: same_on_mono)

lemma check_call_fields [simp]:
  "tmem (check_thread_call n s) = tmem s" "current_thread (check_thread_call n s) = current_thread s"
  "esp (check_thread_call n s) = esp s" "regs (check_thread_call n s) = regs s" "tget off t (check_thread_call n s) = tget off t s"
  by (simp_all add: check_thread_call_def regs_def tget_def)

lemma marks_check [simp]: "marks L tab s (check_thread_call n t) = marks L tab s t"
  by (simp add: marks_def)

lemma inv_check [simp]: "thread_inv L tab ms (check_thread_call n s) c G = thread_inv L tab ms s c G"
  by (simp add: thread_inv_def parked_def tstat_def)

lemma marks_context:
  assumes pl: "placed L tab ms" and c: "c < max_thread L" "stack_lo L tab ms c \<le> unat (esp s)" and m: "marks L tab s s1"
  shows "context_of (stack_hi L tab ms c) (s1\<lparr>eip := ra\<rparr>) = context_of (stack_hi L tab ms c) (s\<lparr>eip := ra\<rparr>)"
proof -
  have "stack_bytes L tab ms c \<inter> state_bytes L tab k = {}" if "k < max_thread L" for k
    using bytes_disjoint [OF pl c(1) that] own_bytes_disjoint [OF pl c(1)] unfolding thread_bytes_def by (cases "k = c") blast+
  then have "stack_bytes L tab ms c \<subseteq> - (\<Union>k<max_thread L. state_bytes L tab k)" by blast
  moreover have "same_on (- (\<Union>k<max_thread L. state_bytes L tab k)) (tmem s) (tmem s1)" using m by (simp only: marks_def)
  ultimately have "same_on (stack_bytes L tab ms c) (tmem s) (tmem s1)" by (rule same_on_mono [rotated])
  then have "tmem s1 a = tmem s a" if "unat (esp s) \<le> unat a" "unat a < stack_hi L tab ms c" for a
    using c(2) that by (intro same_onD) (auto simp: stack_bytes_def)
  then show ?thesis using m by (auto simp: context_of_def marks_def regs_def)
qed

text \<open>A running program: thread \<open>c\<close> runs, neither it nor thread 0 is free, and its stack has not overflowed upwards.\<close>

definition run_inv :: "u32 \<Rightarrow> nat \<times> nat \<Rightarrow> tstate \<Rightarrow> nat \<Rightarrow> (nat \<Rightarrow> tcontext) \<Rightarrow> bool" where
  "run_inv tab ms s c G \<longleftrightarrow> thread_inv layout2 tab ms s c G \<and> tstat layout2 tab c s \<noteq> T_FREE \<and> tstat layout2 tab 0 s \<noteq> T_FREE \<and>
     unat (esp s) \<le> stack_hi layout2 tab ms c"

definition prepared :: "u32 \<Rightarrow> nat \<times> nat \<Rightarrow> tstate \<Rightarrow> nat \<Rightarrow> (nat \<Rightarrow> tcontext) \<Rightarrow> tstate \<Rightarrow> bool" where
  "prepared tab ms s c G s1 \<longleftrightarrow> thread_inv layout2 tab ms s1 c G \<and> marks layout2 tab s s1 \<and> tstat layout2 tab 0 s1 \<noteq> T_FREE"

lemma prepared_tset:
  assumes pl: "placed layout2 tab ms" and p: "prepared tab ms s c G t" and k: "k < 10"
    and v: "k = c \<or> tstat layout2 tab k t = T_WAIT" "k = 0 \<Longrightarrow> v \<noteq> T_FREE"
  shows "prepared tab ms s c G (tset (off_state layout2) (all_thread layout2 tab k) v t)"
proof -
  have km: "k < max_thread layout2" using k by simp
  note t = tset_state [OF pl km, where v = v and s = t]
  have "tstat layout2 tab 0 (tset (off_state layout2) (all_thread layout2 tab k) v t) \<noteq> T_FREE"
    using t(2,3) p v(2) by (cases "k = 0") (auto simp: prepared_def)
  then show ?thesis using inv_tset [OF pl _ km, of t c G v] marks_tset [OF pl km, of t v] marks_trans p v(1) by (auto simp: prepared_def simp del: layout2_fields)
qed

lemma prepared_check [simp]: "prepared tab ms s c G (check_thread_call n t) = prepared tab ms s c G t"
  by (simp add: prepared_def tstat_def)

lemma prepared_wake:
  assumes pl: "placed layout2 tab ms" and p: "prepared tab ms s c G t"
  shows "prepared tab ms s c G (wake_waiting tab n t)"
proof -
  let ?P = "\<lambda>a. tget (off_tid layout2) a t = n \<and> tget (off_state layout2) a t = T_WAIT"
  define i where "i = first_thread layout2 tab ?P"
  have e: "wake_waiting tab n t = (if i < max_thread layout2 then tset (off_state layout2) (all_thread layout2 tab i) T_RUNNABLE t else t)"
    by (simp only: wake_waiting_def Let_def i_def)
  have "tstat layout2 tab i t = T_WAIT" if "i < max_thread layout2"
    using first_thread_cases [of layout2 tab ?P] that unfolding i_def tstat_def by auto
  then show ?thesis using e prepared_tset [OF pl p, of i T_RUNNABLE] p by (auto simp: tstate_defs)
qed

lemma prepared_current: "prepared tab ms s c G t \<Longrightarrow> current_thread t = all_thread layout2 tab c"
  by (simp add: prepared_def thread_inv_def)

subsection \<open>The calls of a thread\<close>

text \<open>
  The calls of thread \<open>c\<close> that reach the scheduler: a call of \<^verbatim>\<open>thread_schedule\<close>, a turn of \<^verbatim>\<open>thread_join_all\<close>, and the ends of the functions of the threads that \<^verbatim>\<open>main\<close> and
  \<^verbatim>\<open>mythread\<close> create.
\<close>

definition thread_calls :: "u32 \<Rightarrow> u32 \<Rightarrow> nat \<Rightarrow> tstate \<Rightarrow> turn set" where
  "thread_calls tab ra c s =
     {thread_schedule2 tab ra s} \<union> set_option (join_turn tab ra s) \<union>
     (if c = 0 then {} else {mythread_end2 tab ra s, child_thread_end tab ra s})"

lemma calls_prepared:
  assumes pl: "placed layout2 tab ms" and i: "run_inv tab ms s c G" and r: "r \<in> thread_calls tab ra c s"
  shows "\<exists>s1. r = thread_schedule2 tab ra s1 \<and> prepared tab ms s c G s1"
proof -
  have p: "prepared tab ms s c G s" and c: "c < 10" "current_thread s = all_thread layout2 tab c"
    using i by (auto simp: run_inv_def prepared_def thread_inv_def)
  have ps: "prepared tab ms s c G (tset (off_state layout2) (current_thread s) v t)" if "prepared tab ms s c G t" "c = 0 \<Longrightarrow> v \<noteq> T_FREE" for v t
    using prepared_tset [OF pl that(1) c(1)] that(2) c(2) by simp
  consider "r = thread_schedule2 tab ra s" | "join_turn tab ra s = Some r" | "c \<noteq> 0" "r = mythread_end2 tab ra s" | "c \<noteq> 0" "r = child_thread_end tab ra s"
    using r by (auto simp: thread_calls_def split: if_splits)
  then show ?thesis
  proof cases
    case 1
    then show ?thesis using p by blast
  next
    case 2
    then show ?thesis using ps [OF p, of T_WAIT] by (auto simp: join_turn_def tstate_defs split: if_splits)
  next
    case 3
    then show ?thesis using ps [OF p, of T_FREE] unfolding mythread_end2_def
      by (intro exI [of _ "check_thread_call (- 1) (tset (off_state layout2) (current_thread s) T_FREE s)"]) simp
  next
    case 4
    define t where "t = wake_waiting tab (tget (off_ptid layout2) (current_thread s) s) s"
    have pt: "prepared tab ms s c G t" unfolding t_def using prepared_wake [OF pl p] .
    have ct: "current_thread t = current_thread s" using prepared_current [OF pt] c(2) by simp
    define u where "u = check_thread_call (- 1) (tset (off_state layout2) (current_thread t) T_FREE t)"
    have pu: "prepared tab ms s c G u" unfolding u_def using ps [OF pt, of T_FREE] 4(1) ct by simp
    have "prepared tab ms s c G (wake_pthread tab u)" unfolding wake_pthread_def Let_def using prepared_wake [OF pl pu] pu by simp
    moreover have "r = thread_schedule2 tab ra (wake_pthread tab u)" using 4(2) by (simp add: child_thread_end_def Let_def t_def u_def)
    ultimately show ?thesis by blast
  qed
qed

lemma calls_resume:
  assumes pl: "placed layout2 tab ms" and i: "run_inv tab ms s c G" and r: "Switched s' \<in> thread_calls tab ra c s"
    and sp: "stack_lo layout2 tab ms c + 36 \<le> unat (esp s)"
  shows "\<exists>j<10. j \<noteq> c \<and> run_inv tab ms s' j (G(c := context_of (stack_hi layout2 tab ms c) (s\<lparr>eip := ra\<rparr>))) \<and> context_of (stack_hi layout2 tab ms j) s' = G j"
proof -
  obtain s1 where s1: "thread_schedule2 tab ra s1 = Switched s'" "prepared tab ms s c G s1" using calls_prepared [OF pl i r] by metis
  have c: "c < max_thread layout2" using i by (auto simp: run_inv_def thread_inv_def)
  have e: "esp s1 = esp s" using s1(2) by (simp add: prepared_def marks_def)
  have sp1: "stack_lo layout2 tab ms c + 36 \<le> unat (esp s1)" "unat (esp s1) \<le> stack_hi layout2 tab ms c" using sp i e by (auto simp: run_inv_def)
  have i1: "thread_inv layout2 tab ms s1 c G" "marks layout2 tab s s1" "tstat layout2 tab 0 s1 \<noteq> T_FREE" using s1(2) by (auto simp: prepared_def)
  have cx: "context_of (stack_hi layout2 tab ms c) (s1\<lparr>eip := ra\<rparr>) = context_of (stack_hi layout2 tab ms c) (s\<lparr>eip := ra\<rparr>)"
    using marks_context [OF pl c _ i1(2)] sp by simp
  show ?thesis using u2.resumes [OF pl i1(1) sp1 s1(1)] i1(3) unfolding cx run_inv_def
    by (auto simp: tstate_defs)
qed

subsection \<open>Runs\<close>

text \<open>What a running thread \<open>c\<close> does not write: the table of threads and the stack of the process, except its own stack.\<close>

definition guarded :: "u32 \<Rightarrow> nat \<times> nat \<Rightarrow> nat \<Rightarrow> nat set" where
  "guarded tab ms c = {unat tab..<entry layout2 tab 10} \<union> stack_bytes layout2 tab ms 0 - stack_bytes layout2 tab ms c"

text \<open>
  The steps of the program.  \<open>G i\<close> is the context in which thread \<open>i\<close> was left: recorded when it
  calls into the scheduler, or when it is created.
\<close>

inductive uthread2_step :: "u32 \<Rightarrow> nat \<times> nat \<Rightarrow> tstate \<times> (nat \<Rightarrow> tcontext) \<Rightarrow> tstate \<times> (nat \<Rightarrow> tcontext) \<Rightarrow> bool" for tab ms where
  computes: "\<lbrakk>c < 10; current_thread s = all_thread layout2 tab c; current_thread s' = current_thread s;
      same_on (guarded tab ms c) (tmem s) (tmem s'); unat (esp s') \<le> stack_hi layout2 tab ms c\<rbrakk>
    \<Longrightarrow> uthread2_step tab ms (s, G) (s', G)"
| creates: "\<lbrakk>free_slot layout2 tab s = i; i < 10\<rbrakk>
    \<Longrightarrow> uthread2_step tab ms (s, G) (thread_create2 tab func s, G(i := new_context (all_thread layout2 tab i) func s))"
| switches: "\<lbrakk>c < 10; current_thread s = all_thread layout2 tab c; Switched s' \<in> thread_calls tab ra c s;
      stack_lo layout2 tab ms c + 36 \<le> unat (esp s)\<rbrakk>
    \<Longrightarrow> uthread2_step tab ms (s, G) (s', G(c := context_of (stack_hi layout2 tab ms c) (s\<lparr>eip := ra\<rparr>)))"
| returns: "thread_schedule2 tab ra s = Returns s' \<Longrightarrow> uthread2_step tab ms (s, G) (s', G)"
| ticks: "\<not> redirects s \<Longrightarrow> uthread2_step tab ms (s, G) (user_tick s, G)"

lemma compute_inv:
  assumes pl: "placed layout2 tab ms" and i: "run_inv tab ms s c G" and m: "same_on (guarded tab ms c) (tmem s) (tmem s')"
    and s': "current_thread s' = current_thread s" "unat (esp s') \<le> stack_hi layout2 tab ms c"
  shows "run_inv tab ms s' c G"
proof -
  have c: "c < max_thread layout2" using i by (auto simp: run_inv_def thread_inv_def)
  have tb: "sp_bytes layout2 tab k \<subseteq> guarded tab ms c" "state_bytes layout2 tab k \<subseteq> guarded tab ms c" if k: "k < max_thread layout2" for k
    using entry_bounds(1,2) [OF pl k] bytes_disjoint [OF pl k c] own_bytes_disjoint [OF pl c]
    by (cases "k = c"; fastforce simp: guarded_def sp_bytes_def state_bytes_def thread_bytes_def)+
  have sb: "stack_bytes layout2 tab ms k \<subseteq> guarded tab ms c" if k: "k < max_thread layout2" "k \<noteq> c" for k
  proof -
    have "stack_bytes layout2 tab ms k \<subseteq> {unat tab..<entry layout2 tab 10} \<union> stack_bytes layout2 tab ms 0"
      using entry_bounds(1,2) [OF pl k(1)] by (cases "k = 0") (auto simp: stack_bytes_def stack_lo_def stack_hi_def)
    then show ?thesis using bytes_disjoint [OF pl k(1) c k(2)] by (auto simp: guarded_def thread_bytes_def)
  qed
  have st: "tstat layout2 tab k s' = tstat layout2 tab k s" if "k < max_thread layout2" for k using stat_same_on [OF pl that m tb(2) [OF that]] .
  have "parked layout2 tab ms s' k (G k)"
    if k: "k < max_thread layout2" "k \<noteq> c" "tstat layout2 tab k s' = T_RUNNABLE \<or> tstat layout2 tab k s' = T_WAIT" for k
    using parked_same_on [OF pl k(1) m tb(1) [OF k(1)] sb [OF k(1,2)]] i k st [OF k(1)] by (auto simp: run_inv_def thread_inv_def)
  then show ?thesis using i s' st [OF c] st [of 0] by (auto simp: run_inv_def thread_inv_def)
qed

lemma step_inv:
  assumes pl: "placed layout2 tab ms" and st: "uthread2_step tab ms x y" and i: "\<exists>c. run_inv tab ms (fst x) c (snd x)"
  shows "\<exists>c. run_inv tab ms (fst y) c (snd y)"
proof -
  obtain c where c: "run_inv tab ms (fst x) c (snd x)" using i by blast
  have cm: "c < 10" "current_thread (fst x) = all_thread layout2 tab c" using c by (auto simp: run_inv_def thread_inv_def)
  have same: "c' = c" if "c' < 10" "current_thread (fst x) = all_thread layout2 tab c'" for c'
    using all_thread_inj [OF pl, of c' c] that cm by simp
  from st show ?thesis
  proof cases
    case (computes c' s s' G)
    then show ?thesis using compute_inv [OF pl c] same by auto
  next
    case (creates s i G func)
    then show ?thesis using create2_inv [OF pl, of s c G i func] c by (auto simp: run_inv_def)
  next
    case (switches c' s s' ra G)
    then show ?thesis using calls_resume [OF pl c, of s' ra] same by auto
  next
    case (returns ra s s' G)
    then show ?thesis using u2.goes_on [OF pl, of s c G ra s'] c by (auto simp: run_inv_def tstat_def tget_def)
  next
    case (ticks s G)
    then show ?thesis using c by (auto simp: user_tick_def)
  qed
qed

lemma steps_inv:
  assumes "placed layout2 tab ms" "(uthread2_step tab ms)\<^sup>*\<^sup>* x y" "\<exists>c. run_inv tab ms (fst x) c (snd x)"
  shows "\<exists>c. run_inv tab ms (fst y) c (snd y)"
  using assms(2,3) by induction (auto intro: step_inv [OF assms(1)])

lemma init_states:
  assumes pl: "placed layout2 tab ms" and z: "\<forall>k<10. tstat layout2 tab k s = T_FREE" and k: "k < 10"
  shows "tstat layout2 tab k (thread_init2 tab entry_pc s) = (if k = 0 then T_RUNNING else T_FREE)"
proof -
  let ?a = "all_thread layout2 tab 0" and ?s = "(uthread_init_call entry_pc s)\<lparr>current_thread := all_thread layout2 tab 0\<rparr>"
  let ?t = "tset (off_state layout2) ?a T_RUNNING ?s"
  have 0: "0 < max_thread layout2" by simp
  have top: "entry layout2 tab 0 + 8208 \<le> entry layout2 tab 10" "entry layout2 tab 10 \<le> 2147483648" "unat ?a = entry layout2 tab 0"
    using pl entry_bounds(3) [OF pl 0] entry_le [of 0 10 layout2 tab] by (simp_all add: placed_def)
  have u: "unat (?a + 8200) = entry layout2 tab 0 + 8200" "unat (?a + 8204) = entry layout2 tab 0 + 8204"
    using top unat_add_32 [of ?a 8200] unat_add_32 [of ?a 8204] by simp_all
  let ?X = "- {entry layout2 tab 0 + 8200..<entry layout2 tab 0 + 8208}"
  have "same_on ?X (tmem ?t) (tmem (thread_init2 tab entry_pc s))"
    using u top by (auto simp: thread_init2_def Let_def tset_def same_on_def store32_away)
  moreover have "state_bytes layout2 tab k \<subseteq> ?X" if "k < 10" for k
    using entry_le [of 0 k layout2 tab] by (cases "k = 0") (auto simp: state_bytes_def)
  ultimately have st: "tstat layout2 tab k (thread_init2 tab entry_pc s) = tstat layout2 tab k ?t" if "k < 10" for k
    using that by (intro stat_same_on [OF pl]) auto
  note ts = tset_state [OF pl 0, where v = T_RUNNING and s = ?s]
  have "tstat layout2 tab k ?s = tstat layout2 tab k s" for k by (simp add: tstat_def tget_def uthread_init_call_def)
  then show ?thesis using st [OF k] ts(2,3) z k by auto
qed

lemma init_inv:
  assumes pl: "placed layout2 tab ms" and z: "\<forall>k<10. tstat layout2 tab k s = T_FREE" and e: "unat (esp s) \<le> snd ms"
  shows "run_inv tab ms (thread_init2 tab entry_pc s) 0 G"
  using init_states [OF pl z, of _ entry_pc] e
  by (auto simp: run_inv_def thread_inv_def tstate_defs thread_init2_def Let_def uthread_init_call_def tset_def stack_hi_def)

lemma schedule2_switches:
  assumes pl: "placed layout2 tab ms" and c: "c < 10" "current_thread s = all_thread layout2 tab c"
    and k: "k < 10" "k \<noteq> c" "tstat layout2 tab k s = T_RUNNABLE"
  shows "\<exists>s'. thread_schedule2 tab ra s = Switched s'"
proof -
  let ?P = "\<lambda>t. tget (off_state layout2) t s = T_RUNNABLE \<and> t \<noteq> current_thread s"
  define i where "i = first_thread layout2 tab ?P"
  have cm: "c < max_thread layout2" using c(1) by simp
  have "?P (all_thread layout2 tab k)" using k c(2) all_thread_inj [OF pl, of k c] c(1) by (auto simp: tstat_def)
  then have i: "i < max_thread layout2" "?P (all_thread layout2 tab i)"
    using first_thread_cases [of layout2 tab ?P] k(1) unfolding i_def by auto
  have e: "look_for_thread layout2 tab s = s\<lparr>next_thread := all_thread layout2 tab i\<rparr>"
    using i(1) by (simp add: look_for_thread_def Let_def tget_def i_def)
  have ic: "i \<noteq> c" using i(2) c(2) by auto
  show ?thesis using switch_to_next_cases(1) [OF pl cm c(2) i(1) ic, of ra] all_thread_nonzero [OF pl i(1)] e by (auto simp: thread_schedule2_def Let_def)
qed

lemma create2_runnable:
  assumes pl: "placed layout2 tab ms" and i: "free_slot layout2 tab s = i" "i < 10"
  shows "tstat layout2 tab i (thread_create2 tab func s) = T_RUNNABLE"
proof -
  have "unat (all_thread layout2 tab i) + 8208 \<le> 4294967296"
    using entry_le [of i 10 layout2 tab] i(2) pl entry_bounds(3) [OF pl, of i] by (simp add: placed_def)
  then show ?thesis using create2_memory(3) [OF i(1) refl] by (simp add: tstat_def tget_def)
qed

text \<open>
  C8: User threads keep their contexts across calls of the scheduler.  In every run of \<^verbatim>\<open>uthread2.c\<close> in which no
  timer interrupt redirects the process to the scheduler (threads compute on their own stacks, create
  threads while the table has a free slot, call the scheduler, wait for children, end), whenever a call reaches
  \<^verbatim>\<open>thread_switch\<close> the processor continues another thread \<open>j\<close> of the table with exactly the context it
  was left in: all registers, the stack pointer, the next instruction and every byte of
  its stack above the stack pointer are as they were when it called into the scheduler, or it starts the
  function it was created with on an empty stack.  The stack has 36 bytes to spare for the switch.
  Redirected interrupts are outside of this property: see \<open>tick_forgets_instruction\<close> below.
\<close>

theorem user_threads_keep_contexts:
  assumes "placed layout2 tab ms" "\<forall>k<10. tstat layout2 tab k s0 = T_FREE" "unat (esp s0) \<le> snd ms"
    and "(uthread2_step tab ms)\<^sup>*\<^sup>* (thread_init2 tab entry_pc s0, G0) (s, G)"
    and "c < 10" "current_thread s = all_thread layout2 tab c" "Switched s' \<in> thread_calls tab ra c s" "stack_lo layout2 tab ms c + 36 \<le> unat (esp s)"
  shows "\<exists>j<10. j \<noteq> c \<and> current_thread s' = all_thread layout2 tab j \<and> context_of (stack_hi layout2 tab ms j) s' = G j"
proof -
  obtain c' where i: "run_inv tab ms s c' G" using steps_inv [OF assms(1,4)] init_inv [OF assms(1-3)] by auto
  have "c' = c" using all_thread_inj [OF assms(1), of c' c] i assms(5,6) by (auto simp: run_inv_def thread_inv_def)
  then show ?thesis using calls_resume [OF assms(1) i, of s' ra] assms(7,8) by (auto simp: run_inv_def thread_inv_def)
qed

definition zero_state :: tstate where
  "zero_state = \<lparr>tmem = \<lambda>_. 0, current_thread = 0, next_thread = 0, eax = 0, ecx = 0, edx = 0, ebx = 0, ebp = 0, esi = 0, edi = 0,
     esp = 0x101000, eip = 0, checks = 0, sched_entry = 0, prints = []\<rparr>"

lemma zero_states: "tstat L tab k zero_state = T_FREE"
  by (simp add: tstat_def tget_def zero_state_def load32_def T_FREE_def)

text \<open>A thread is created and the main thread calls the scheduler: the new thread starts its function.\<close>

theorem user_threads_keep_contexts_witness:
  "\<exists>s'. thread_schedule2 0x4000 0x99 (thread_create2 0x4000 0x123 (thread_init2 0x4000 0x77 zero_state)) = Switched s' \<and> eip s' = 0x123"
proof -
  let ?ms = "(0x100000, 0x101000) :: nat \<times> nat" and ?G0 = "\<lambda>_ :: nat. ([] :: u32 list, 0 :: u32, 0x123 :: u32, \<lambda>_ :: u32. 0 :: u8)"
  let ?s1 = "thread_init2 0x4000 0x77 zero_state"
  let ?s2 = "thread_create2 0x4000 0x123 ?s1"
  have pl: "placed layout2 0x4000 ?ms" by (simp add: placed_def good_layout_def entry_def)
  have z: "\<forall>k<10. tstat layout2 0x4000 k zero_state = T_FREE" "unat (esp zero_state) \<le> snd ?ms" using zero_states by (simp_all add: zero_state_def)
  define i where "i = free_slot layout2 0x4000 ?s1"
  have st: "tstat layout2 0x4000 k ?s1 = (if k = 0 then T_RUNNING else T_FREE)" if "k < 10" for k using init_states [OF pl z(1) that] .
  have f: "i < 10" "tstat layout2 0x4000 i ?s1 = T_FREE"
    using first_thread_cases [of layout2 "0x4000" "\<lambda>t. tget (off_state layout2) t ?s1 = T_FREE"] st [of 1]
    unfolding i_def free_slot_def by (auto simp: tstat_def tstate_defs)
  have "T_RUNNING \<noteq> T_FREE" by (simp add: tstate_defs)
  then have i: "i < 10" "i \<noteq> 0" using f st [of i] by (auto split: if_splits)
  have r1: "run_inv 0x4000 ?ms ?s1 0 ?G0" using init_inv [OF pl z] .
  note cr = create2_inv [OF pl, of ?s1 0 ?G0 i, where func = "0x123"]
  have inv: "thread_inv layout2 0x4000 ?ms ?s1 0 ?G0" "tstat layout2 0x4000 0 ?s1 \<noteq> T_FREE" using r1 by (auto simp: run_inv_def)
  have c2: "thread_inv layout2 0x4000 ?ms ?s2 0 (?G0(i := new_context (all_thread layout2 0x4000 i) 0x123 ?s1))" "esp ?s2 = esp ?s1"
    using cr inv i(1) i_def by simp_all
  have cur: "current_thread ?s2 = all_thread layout2 0x4000 0" using c2(1) by (simp add: thread_inv_def)
  have esp: "esp ?s2 = 0x101000" using c2(2) by (simp add: thread_init2_def Let_def uthread_init_call_def tset_def zero_state_def)
  have "tstat layout2 0x4000 i ?s2 = T_RUNNABLE" using create2_runnable [OF pl i_def [symmetric] i(1)] .
  then obtain s' where s': "thread_schedule2 0x4000 0x99 ?s2 = Switched s'" using schedule2_switches [OF pl _ cur i(1)] i(2) by auto
  have run: "uthread2_step 0x4000 ?ms (?s1, ?G0) (?s2, ?G0(i := new_context (all_thread layout2 0x4000 i) 0x123 ?s1))"
    by (rule creates) (use i_def i(1) in simp_all)
  have "Switched s' \<in> thread_calls 0x4000 0x99 0 ?s2" using s' by (simp add: thread_calls_def)
  then obtain j where "context_of (stack_hi layout2 0x4000 ?ms j) s' = (?G0(i := new_context (all_thread layout2 0x4000 i) 0x123 ?s1)) j"
    using user_threads_keep_contexts [OF pl z r_into_rtranclp [of "uthread2_step 0x4000 ?ms", OF run] _ cur] esp by (auto simp: stack_lo_def)
  then have "eip s' = 0x123" by (simp add: context_of_def new_context_def split: if_splits)
  then show ?thesis using s' by blast
qed

subsection \<open>Where the programs go wrong\<close>

text \<open>
  A redirected timer interrupt forgets where the thread was: the state after it does not depend on the interrupted
  instruction.
\<close>

lemma tick_forgets_instruction: "redirects s \<Longrightarrow> user_tick (s\<lparr>eip := a\<rparr>) = user_tick (s\<lparr>eip := b\<rparr>)"
  by (simp add: user_tick_def redirects_def)

text \<open>
  An interrupt between the instructions of \<^verbatim>\<open>thread_switch\<close> that load the stack pointer \<open>p\<close> of the new thread and
  store \<^verbatim>\<open>current_thread\<close>: \<^verbatim>\<open>current_thread\<close> is still the old thread \<open>c\<close>, so the first three instructions of the next
  switch save the stack pointer of the new thread as that of the old one, whose own is lost.
\<close>

lemma tick_inside_switch:
  assumes "current_thread s = c" "esp s = p" "36 \<le> unat p"
  shows "load32 (tmem (let s = pushal (push ra s); s = s\<lparr>eax := current_thread s\<rparr> in s\<lparr>tmem := store32 (tmem s) (eax s) (esp s)\<rparr>)) c = p - 36"
  using push_frame [of s ra] assms by (simp add: Let_def)

text \<open>
  \<^verbatim>\<open>struct thread\<close> of \<^verbatim>\<open>uthread3.c\<close> begins with the identifier, and the switch takes its first word as the
  saved stack pointer: the next thread continues on a stack at address \<open>tid\<close>.
\<close>

lemma uthread3_stack_at_tid:
  assumes c: "current_thread s = c" "100 \<le> unat c" "unat c + 4 \<le> 4294967296" and n: "next_thread s = n" "unat n + 4 \<le> 4294967296"
    and d: "unat n + 4 \<le> unat c \<or> unat c + 4 \<le> unat n"
    and E: "136 \<le> unat (esp s)" "unat (esp s) \<le> unat c \<or> unat c + 4 \<le> unat (esp s) - 36" "unat (esp s) \<le> unat n \<or> unat n + 4 \<le> unat (esp s) - 36"
    and t: "unat (tget (off_tid layout3) n s) < 10"
  shows "esp (thread_switch (push ra s)) = tget (off_tid layout3) n s + 36"
proof -
  have l: "load32 (tmem s) n = tget (off_tid layout3) n s" by (simp add: tget_def layout3_def)
  show ?thesis
    by (rule switch_effect(7) [OF _ c(1,3) n l _ refl]) (use c(2) d E t in auto)
qed

text \<open>Thread 0 of \<^verbatim>\<open>uthread2.c\<close> is its own parent, so \<^verbatim>\<open>thread_join_all\<close> in \<^verbatim>\<open>main\<close> never leaves its loop.\<close>

lemma main_joins_forever:
  assumes "current_thread s = all_thread layout2 tab 0" "tstat layout2 tab 0 s \<noteq> T_FREE"
    and "tget (off_ptid layout2) (all_thread layout2 tab 0) s = tget (off_tid layout2) (all_thread layout2 tab 0) s"
  shows "join_turn tab ra s \<noteq> None"
  using first_thread_cases [of layout2 tab "\<lambda>t. tget (off_state layout2) t s \<noteq> T_FREE \<and>
    tget (off_ptid layout2) t s = tget (off_tid layout2) (current_thread s) s"] assms
  by (auto simp: join_turn_def has_child_def tstat_def dest: spec [of _ 0])

text \<open>In \<^verbatim>\<open>uthread1.c\<close> a running thread that is alone ends the process when it calls the scheduler.\<close>

lemma schedule1_alone_exits:
  assumes "\<forall>k<4. tstat layout1 tab k s \<noteq> T_RUNNABLE" "current_thread s = all_thread layout1 tab c" "tstat layout1 tab c s = T_RUNNING"
  shows "\<exists>s'. thread_schedule1 tab ra s = Exits s'"
proof -
  let ?P = "\<lambda>t. tget (off_state layout1) t s = T_RUNNABLE \<and> t \<noteq> current_thread s"
  have "first_thread layout1 tab ?P = max_thread layout1"
    using first_thread_cases [of layout1 tab ?P] assms(1) by (auto simp: tstat_def layout1_def)
  then have "next_thread (look_for_thread layout1 tab s) = 0"
    using assms(3) unfolding look_for_thread_def Let_def by (simp add: tget_def tstat_def tstate_defs assms(2))
  then show ?thesis by (simp add: thread_schedule1_def Let_def)
qed

end
