(* ===== verification/Net.thy ===== *)
theory Net
  imports Console
begin

text \<open>
  The network stack above the driver: \<^verbatim>\<open>eth.c\<close>, \<^verbatim>\<open>arp.c\<close>, \<^verbatim>\<open>ipv4.c\<close>, \<^verbatim>\<open>icmp.c\<close>, \<^verbatim>\<open>tcp.c\<close> and
  \<^verbatim>\<open>http.c\<close>.  A packet buffer is a function from offsets to bytes.  The driver is a parameter: \<open>send\<close>
  gets the bytes of a frame and the state of the driver.  A handler that builds an answer does so
  in a fresh page, whose old contents \<open>pg\<close> is a parameter as well; the code does not check that
  there is a page.
\<close>

subsection \<open>Packets\<close>

type_synonym packet = "nat \<Rightarrow> u8"

definition octets :: "packet \<Rightarrow> nat \<Rightarrow> nat \<Rightarrow> u8 list" where
  "octets b k n = map (\<lambda>i. b (k + i)) [0..<n]"

text \<open>\<^verbatim>\<open>memmove\<close> of the bytes \<open>xs\<close> to offset \<open>k\<close>.\<close>

definition blit :: "nat \<Rightarrow> u8 list \<Rightarrow> packet \<Rightarrow> packet" where
  "blit k xs b = (\<lambda>i. if k \<le> i \<and> i < k + length xs then xs ! (i - k) else b i)"

text \<open>Fields of 16 and 32 bits, in the byte order of the processor.\<close>

definition g16 :: "packet \<Rightarrow> nat \<Rightarrow> u16" where
  "g16 b k = ucast (b k) OR push_bit 8 (ucast (b (k + 1)))"

definition p16 :: "nat \<Rightarrow> u16 \<Rightarrow> packet \<Rightarrow> packet" where
  "p16 k v b = b(k := ucast v, k + 1 := ucast (drop_bit 8 v))"

definition g32 :: "packet \<Rightarrow> nat \<Rightarrow> u32" where
  "g32 b k = ucast (b k) OR push_bit 8 (ucast (b (k + 1))) OR push_bit 16 (ucast (b (k + 2))) OR push_bit 24 (ucast (b (k + 3)))"

definition p32 :: "nat \<Rightarrow> u32 \<Rightarrow> packet \<Rightarrow> packet" where
  "p32 k v b = b(k := ucast v, k + 1 := ucast (drop_bit 8 v), k + 2 := ucast (drop_bit 16 v), k + 3 := ucast (drop_bit 24 v))"

definition N2H_ushort :: "u16 \<Rightarrow> u16" where
  "N2H_ushort value = push_bit 8 (value AND 0xFF) + drop_bit 8 value"

definition H2N_ushort :: "u16 \<Rightarrow> u16" where
  "H2N_ushort value = push_bit 8 (value AND 0xFF) + drop_bit 8 value"

definition H2N_uint :: "u32 \<Rightarrow> u32" where
  "H2N_uint value = push_bit 24 (value AND 0xF) + push_bit 8 (value AND 0xF0) + drop_bit 8 (value AND 0xF00) + drop_bit 24 (value AND 0xF000)"

definition N2H_uint :: "u32 \<Rightarrow> u32" where
  "N2H_uint value = push_bit 24 (value AND 0xFF) + push_bit 8 (value AND 0xFF00) + drop_bit 8 (value AND 0xFF0000) + drop_bit 24 (value AND 0xFF000000)"

text \<open>The sizes of the headers.\<close>

definition sizeof_eth :: nat where "sizeof_eth = 14"
definition sizeof_arp :: nat where "sizeof_arp = 30"
definition sizeof_ipv4 :: nat where "sizeof_ipv4 = 20"
definition sizeof_icmp :: nat where "sizeof_icmp = 64"
definition sizeof_tcp :: nat where "sizeof_tcp = 20"

lemmas sizeofs = sizeof_eth_def sizeof_arp_def sizeof_ipv4_def sizeof_icmp_def sizeof_tcp_def

subsection \<open>The state\<close>

record arp_entry =
  arp_ip :: "u8 list"
  arp_mac :: "u8 list"
  arp_use :: u8

definition ARP_TABLE_MAX :: nat where "ARP_TABLE_MAX = 64"

record 'd net =
  mac_addr :: "u8 list"
  my_ip :: "u8 list"
  arp_table :: "arp_entry list"
  ip_id :: int
  send_id :: u16
  seq_num :: u32
  fin_flag :: int
  drv :: 'd
  says :: "string list"

type_synonym 'd driver = "u8 list \<Rightarrow> 'd \<Rightarrow> 'd \<times> int"

definition i8254_send :: "'d driver \<Rightarrow> packet \<Rightarrow> nat \<Rightarrow> 'd net \<Rightarrow> 'd net \<times> int" where
  "i8254_send send b len s = (let (d, r) = send (octets b 0 len) (drv s) in (s\<lparr>drv := d\<rparr>, r))"

definition say :: "string \<Rightarrow> 'd net \<Rightarrow> 'd net" where
  "say t s = s\<lparr>says := says s @ [t]\<rparr>"

subsection \<open>ARP\<close>

definition ARP_HARDWARE_TYPE :: u16 where "ARP_HARDWARE_TYPE = 0x0100"
definition ARP_PROTOCOL_TYPE :: u16 where "ARP_PROTOCOL_TYPE = 0x0008"
definition ARP_OPS_REQUEST :: u16 where "ARP_OPS_REQUEST = 0x0100"
definition ARP_OPS_REPLY :: u16 where "ARP_OPS_REPLY = 0x0200"
definition ARP_UPDATED_TABLE :: int where "ARP_UPDATED_TABLE = 1"
definition ARP_CREATED_REPLY :: int where "ARP_CREATED_REPLY = 2"

definition eth_header :: "u8 list \<Rightarrow> 'd net \<Rightarrow> u8 \<Rightarrow> u8 \<Rightarrow> packet \<Rightarrow> packet" where
  "eth_header dst s t0 t1 b = blit 6 (mac_addr s) (blit 0 dst (b(12 := t0, 13 := t1)))"

definition arp_header :: "u16 \<Rightarrow> u8 list \<Rightarrow> u8 list \<Rightarrow> 'd net \<Rightarrow> packet \<Rightarrow> packet" where
  "arp_header op dmac dip s b =
     (let b = p16 14 ARP_HARDWARE_TYPE b;
          b = p16 16 ARP_PROTOCOL_TYPE b;
          b = b(18 := 6);
          b = b(19 := 4);
          b = p16 20 op b;
          b = blit 32 dmac b;
          b = blit 38 dip b;
          b = blit 22 (mac_addr s) b
      in blit 28 (my_ip s) b)"

text \<open>The received packet \<open>r\<close> is the whole frame; ARP starts at offset 14.\<close>

definition arp_reply_pkt_create :: "packet \<Rightarrow> 'd net \<Rightarrow> packet \<Rightarrow> packet \<times> nat" where
  "arp_reply_pkt_create r s b =
     (let smac = octets r 22 6; sip = octets r 28 4;
          b = eth_header smac s 0x08 0x06 b
      in (arp_header ARP_OPS_REPLY smac sip s b, sizeof_eth + sizeof_arp))"

definition arp_broadcast :: "u8 \<Rightarrow> 'd net \<Rightarrow> packet \<Rightarrow> packet \<times> nat" where
  "arp_broadcast ip s b =
     (let b = eth_header (replicate 6 0xFF) s 0x08 0x06 b
      in (arp_header ARP_OPS_REQUEST (replicate 6 0) [10, 0, 1, ip] s b, sizeof_eth + sizeof_arp))"

text \<open>\<^verbatim>\<open>arp_scan\<close> asks for every address; a frame the driver does not take is sent again.\<close>

partial_function (option) send_retry :: "'d driver \<Rightarrow> packet \<Rightarrow> nat \<Rightarrow> 'd net \<Rightarrow> 'd net option" where
  "send_retry send b len s =
     (let (s, r) = i8254_send send b len s in if r = - 1 then send_retry send b len s else Some s)"

definition arp_scan :: "'d driver \<Rightarrow> packet \<Rightarrow> 'd net \<Rightarrow> 'd net option" where
  "arp_scan send pg s =
     foldl (\<lambda>t i. Option.bind t (\<lambda>s. let (b, len) = arp_broadcast (of_nat i) s pg in send_retry send b len s)) (Some s) [0..<256]"

text \<open>The loop of \<^verbatim>\<open>arp_table_search\<close> from index \<open>i\<close> on.\<close>

fun search_loop :: "u8 list \<Rightarrow> int \<Rightarrow> int \<Rightarrow> arp_entry list \<Rightarrow> int" where
  "search_loop ip i e [] = e - 1"
| "search_loop ip i e (x # xs) =
     (if arp_ip x = ip then i
      else search_loop ip (i + 1) (if arp_use x = 0 \<and> e = 1 then - i else e) xs)"

definition arp_table_search :: "u8 list \<Rightarrow> 'd net \<Rightarrow> int" where
  "arp_table_search ip s = search_loop ip 0 1 (arp_table s)"

definition print_ipv4 :: "u8 list \<Rightarrow> string" where
  "print_ipv4 ip = (let d = (\<lambda>k. int_text lower_digits (ucast (ip ! k)) 10 True) in ''IP address: '' @ d 0 @ ''.'' @ d 1 @ ''.'' @ d 2 @ ''.'' @ d 3)"

definition print_mac :: "u8 list \<Rightarrow> string" where
  "print_mac mac =
     (let x = (\<lambda>k. int_text lower_digits (ucast (mac ! k)) 16 False) in
      ''MAC address: '' @ x 0 @ '':'' @ x 1 @ '':'' @ x 2 @ '':'' @ x 3 @ '':'' @ x 4 @ '':'' @ x 5)"

definition print_arp_table :: "'d net \<Rightarrow> 'd net" where
  "print_arp_table s =
     foldl (\<lambda>t i. let e = arp_table s ! i in
         if arp_use e \<noteq> 0
         then say (''Entry Num: '' @ int_text lower_digits (of_nat i) 10 True @ '' '' @ print_ipv4 (arp_ip e) @ '' '' @ print_mac (arp_mac e) @ [newline]) t
         else t)
       s [0..<length (arp_table s)]"

definition arp_table_update :: "packet \<Rightarrow> 'd net \<Rightarrow> 'd net" where
  "arp_table_update r s =
     (let smac = octets r 22 6; sip = octets r 28 4; index = arp_table_search sip s;
          s = (if index > - 1
               then s\<lparr>arp_table := upd_at (nat index) (\<lambda>e. e\<lparr>arp_mac := smac\<rparr>) (arp_table s)\<rparr>
               else let index = - (index + 1) in
                 s\<lparr>arp_table := upd_at (nat index) (\<lambda>e. e\<lparr>arp_mac := smac, arp_ip := sip, arp_use := 1\<rparr>) (arp_table s)\<rparr>)
      in print_arp_table s)"

definition arp_proc :: "'d driver \<Rightarrow> packet \<Rightarrow> packet \<Rightarrow> 'd net \<Rightarrow> 'd net \<times> int" where
  "arp_proc send pg r s =
     (let dip = octets r 38 4; sip = octets r 28 4; op = g16 r 20 in
      if g16 r 14 \<noteq> ARP_HARDWARE_TYPE then (s, - 1)
      else if g16 r 16 \<noteq> ARP_PROTOCOL_TYPE then (s, - 1)
      else if r 18 \<noteq> 6 then (s, - 1)
      else if r 19 \<noteq> 4 then (s, - 1)
      else if my_ip s \<noteq> dip \<and> my_ip s \<noteq> sip then (s, - 1)
      else if op = ARP_OPS_REQUEST \<and> my_ip s = dip
      then let (b, len) = arp_reply_pkt_create r s pg in (fst (i8254_send send b len s), ARP_CREATED_REPLY)
      else if op = ARP_OPS_REPLY \<and> my_ip s = dip
      then (arp_table_update r (say (''ARP TABLE UPDATED'' @ [newline]) s), ARP_UPDATED_TABLE)
      else (s, - 1))"

subsection \<open>IPv4 and ICMP\<close>

definition IPV4_TYPE_ICMP :: u8 where "IPV4_TYPE_ICMP = 1"
definition IPV4_TYPE_TCP :: u8 where "IPV4_TYPE_TCP = 6"
definition ICMP_TYPE_ECHO_REQUEST :: u8 where "ICMP_TYPE_ECHO_REQUEST = 8"
definition ICMP_TYPE_ECHO_REPLY :: u8 where "ICMP_TYPE_ECHO_REPLY = 0"

text \<open>One turn of the checksum loops: add a word, most significant byte first, with end-around carry.\<close>

definition add_word :: "packet \<Rightarrow> nat \<Rightarrow> u32 \<Rightarrow> u32" where
  "add_word b k c =
     (let c = c + (push_bit 8 (ucast (b k)) + ucast (b (k + 1))) in
      if c > 0xFFFF then (c AND 0xFFFF) + 1 else c)"

definition sum_words :: "packet \<Rightarrow> nat \<Rightarrow> nat \<Rightarrow> u32" where
  "sum_words b k n = foldl (\<lambda>c i. add_word b (k + 2 * i) c) 0 [0..<n]"

definition ipv4_chksum :: "packet \<Rightarrow> nat \<Rightarrow> u16" where
  "ipv4_chksum b k = (let len = (b k AND 0xF) * 2 in ucast (NOT (sum_words b k (unat len))))"

definition icmp_chksum :: "packet \<Rightarrow> nat \<Rightarrow> u16" where
  "icmp_chksum b k = ucast (NOT (sum_words b k 32))"

text \<open>The IPv4 header of an answer to the frame \<open>r\<close>.\<close>

definition ipv4_header :: "packet \<Rightarrow> u16 \<Rightarrow> u16 \<Rightarrow> u8 \<Rightarrow> 'd net \<Rightarrow> packet \<Rightarrow> packet" where
  "ipv4_header r tlen fragment protocol s b =
     (let b = b(14 := 0x45);
          b = b(15 := 0);
          b = p16 16 (H2N_ushort tlen) b;
          b = p16 18 (send_id s) b;
          b = p16 20 (H2N_ushort fragment) b;
          b = b(22 := 255);
          b = b(23 := protocol);
          b = blit 26 (my_ip s) b;
          b = blit 30 (octets r 26 4) b;
          b = p16 24 0 b
      in p16 24 (H2N_ushort (ipv4_chksum b 14)) b)"

definition icmp_reply_pkt_create :: "packet \<Rightarrow> 'd net \<Rightarrow> packet \<Rightarrow> 'd net \<times> packet \<times> nat" where
  "icmp_reply_pkt_create r s b =
     (let k = 14 + unat ((r 14 AND 0xF) * 4);
          b = eth_header (octets r 6 6) s 0x08 0x00 b;
          b = ipv4_header r (of_nat (sizeof_ipv4 + sizeof_icmp)) 0x4000 1 s b;
          s = s\<lparr>send_id := send_id s + 1\<rparr>;
          b = b(34 := ICMP_TYPE_ECHO_REPLY);
          b = b(35 := 0);
          b = p16 38 (g16 r (k + 4)) b;
          b = p16 40 (g16 r (k + 6)) b;
          b = blit 42 (octets r (k + 8) 8) b;
          b = blit 50 (octets r (k + 16) 48) b;
          b = p16 36 0 b;
          b = p16 36 (H2N_ushort (icmp_chksum b 34)) b
      in (s, b, sizeof_eth + sizeof_ipv4 + sizeof_icmp))"

definition icmp_proc :: "'d driver \<Rightarrow> packet \<Rightarrow> packet \<Rightarrow> 'd net \<Rightarrow> 'd net" where
  "icmp_proc send pg r s =
     (let k = 14 + unat ((r 14 AND 0xF) * 4) in
      if r (k + 1) = 0
      then if r k = ICMP_TYPE_ECHO_REQUEST
           then let (s, b, len) = icmp_reply_pkt_create r s pg in fst (i8254_send send b len s)
           else s
      else s)"

subsection \<open>TCP and HTTP\<close>

definition TCP_CODEBITS_ACK :: u8 where "TCP_CODEBITS_ACK = 0x10"
definition TCP_CODEBITS_PSH :: u8 where "TCP_CODEBITS_PSH = 0x8"
definition TCP_CODEBITS_SYN :: u8 where "TCP_CODEBITS_SYN = 0x2"
definition TCP_CODEBITS_FIN :: u8 where "TCP_CODEBITS_FIN = 0x1"

definition tcp_fin :: "'d net \<Rightarrow> 'd net" where
  "tcp_fin s = s\<lparr>fin_flag := 1\<rparr>"

text \<open>\<^verbatim>\<open>http_strcpy\<close> copies up to the NUL and returns the length.\<close>

definition http_strcpy :: "nat \<Rightarrow> string \<Rightarrow> nat \<Rightarrow> packet \<Rightarrow> packet \<times> nat" where
  "http_strcpy k src start b = (blit (k + start) (map of_char src) b, length src)"

definition CRLF :: string where "CRLF = [CHR 0x0D, CHR 0x0A]"

definition http_proc :: "nat \<Rightarrow> 'd net \<Rightarrow> packet \<Rightarrow> 'd net \<times> packet \<times> nat" where
  "http_proc k s b =
     (let (b, len) = http_strcpy k (''HTTP/1.0 200 OK '' @ CRLF) 0 b;
          (b, l) = http_strcpy k (''Content-Type: text/html '' @ CRLF) len b; len = len + l;
          (b, l) = http_strcpy k (CRLF @ ''Hello World!'' @ CRLF) len b; len = len + l;
          b = (if len mod 2 \<noteq> 0 then b(k + len := 0) else b)
      in (tcp_fin s, b, len))"

text \<open>The sum over the pseudo header and the segment, the carries added once at the end.\<close>

definition tcp_chksum :: "'d net \<Rightarrow> packet \<Rightarrow> u16" where
  "tcp_chksum s b =
     (let len = N2H_ushort (g16 b 16) - of_nat sizeof_ipv4;
          dummy = my_ip s @ octets b 26 4 @ [0, IPV4_TYPE_TCP, ucast (drop_bit 8 len), ucast len];
          word = (\<lambda>f c k. c + (push_bit 8 (ucast (f k :: u8)) + ucast (f (k + 1))) :: u32);
          c = foldl (\<lambda>c i. word (\<lambda>k. dummy ! k) c (2 * i)) 0 [0..<6];
          c = foldl (\<lambda>c i. word b c (34 + 2 * i)) c [0..<unat len div 2];
          c = c + drop_bit 16 c
      in ucast (NOT c))"

definition tcp_pkt_create :: "packet \<Rightarrow> u8 \<Rightarrow> nat \<Rightarrow> 'd net \<Rightarrow> packet \<Rightarrow> 'd net \<times> packet \<times> nat" where
  "tcp_pkt_create r pkt_type payload_size s b =
     (let k = 14 + unat ((r 14 AND 0xF) * 4);
          b = eth_header (octets r 6 6) s 0x08 0x00 b;
          b = ipv4_header r (of_nat (sizeof_ipv4 + sizeof_tcp + payload_size)) 0 IPV4_TYPE_TCP s b;
          s = s\<lparr>send_id := send_id s + 1\<rparr>;
          b = p16 34 (g16 r (k + 2)) b;
          b = p16 36 (g16 r k) b;
          b = p32 38 (H2N_uint (seq_num s)) b;
          b = p32 42 (g32 r (k + 4) + push_bit 24 1) b;
          b = b(46 := 0);
          b = b(47 := 0);
          b = b(46 := 0x50);
          b = b(47 := pkt_type);
          b = p16 48 (H2N_ushort 14480) b;
          b = p16 52 0 b;
          b = p16 50 0 b;
          b = p16 50 (H2N_ushort (tcp_chksum s b + 8)) b
      in (s, b, sizeof_eth + sizeof_ipv4 + sizeof_tcp + payload_size))"

text \<open>An acknowledgement followed by the page of the web server.\<close>

definition tcp_answer :: "'d driver \<Rightarrow> packet \<Rightarrow> 'd net \<Rightarrow> packet \<Rightarrow> 'd net \<times> packet \<times> nat" where
  "tcp_answer send r s b =
     (let (s, b, len) = tcp_pkt_create r TCP_CODEBITS_ACK 0 s b;
          s = fst (i8254_send send b len s);
          (s, b, payload_size) = http_proc (sizeof_eth + sizeof_ipv4 + sizeof_tcp) s b
      in tcp_pkt_create r (TCP_CODEBITS_ACK OR TCP_CODEBITS_PSH) payload_size s b)"

definition tcp_proc :: "'d driver \<Rightarrow> packet \<Rightarrow> packet \<Rightarrow> 'd net \<Rightarrow> 'd net" where
  "tcp_proc send pg r s =
     (let k = 14 + unat ((r 14 AND 0xF) * 4); code = r (k + 13) in
      if code AND TCP_CODEBITS_SYN \<noteq> 0
      then let (s, b, len) = tcp_pkt_create r (TCP_CODEBITS_ACK OR TCP_CODEBITS_SYN) 0 s pg;
               s = fst (i8254_send send b len s)
           in s\<lparr>seq_num := seq_num s + 1\<rparr>
      else if code = TCP_CODEBITS_PSH OR TCP_CODEBITS_ACK
      then let s = (if octets r (k + 20) 3 \<noteq> map of_char ''GET'' then say (''ACK PSH'' @ [newline]) s else s);
               (s, b, len) = tcp_answer send r s pg;
               s = fst (i8254_send send b len s)
           in s\<lparr>seq_num := seq_num s + 1\<rparr>
      else if code = TCP_CODEBITS_ACK
      then if fin_flag s = 1
           then let (s, b, len) = tcp_pkt_create r TCP_CODEBITS_FIN 0 s pg;
                    s = fst (i8254_send send b len s)
                in s\<lparr>fin_flag := 0\<rparr>
           else s
      else s)"

subsection \<open>A received frame\<close>

definition ipv4_proc :: "'d driver \<Rightarrow> packet \<Rightarrow> packet \<Rightarrow> 'd net \<Rightarrow> 'd net" where
  "ipv4_proc send pg r s =
     (if ip_id s \<noteq> uint (g16 r 18) \<and> my_ip s \<noteq> octets r 26 4
      then let s = s\<lparr>ip_id := uint (g16 r 18)\<rparr> in
        if r 23 = IPV4_TYPE_ICMP then icmp_proc send pg r s
        else if r 23 = IPV4_TYPE_TCP then tcp_proc send pg r s
        else s
      else s)"

definition eth_proc :: "'d driver \<Rightarrow> packet \<Rightarrow> packet \<Rightarrow> 'd net \<Rightarrow> 'd net" where
  "eth_proc send pg r s =
     (if r 12 = 0x08 \<and> r 13 = 0x06 then fst (arp_proc send pg r s)
      else if r 12 = 0x08 \<and> r 13 = 0x00 then ipv4_proc send pg r s
      else s)"

end
