(* ===== verification/Net_Reply.thy ===== *)
theory Net_Reply
  imports Net
begin

text \<open>
  What the network stack answers: the Internet checksum verifies, echo requests and ARP requests are
  answered with the right packet, and the ARP table remembers what it is told.
\<close>

subsection \<open>The Internet checksum\<close>

definition word_at :: "packet \<Rightarrow> nat \<Rightarrow> nat" where
  "word_at b k = 256 * unat (b k) + unat (b (k + 1))"

lemma word_at_bound: "word_at b k \<le> 65535"
  using unsigned_less [of "b k", where 'a = nat] unsigned_less [of "b (k + 1)", where 'a = nat] by (simp add: word_at_def)

lemma unat_word: "unat (push_bit 8 (ucast (b k)) + ucast (b (k + 1)) :: u32) = word_at b k"
proof -
  have l: "unat (b k) < 256" "unat (b (k + 1)) < 256" using unsigned_less [where 'a = nat and 'b = 8] by simp_all
  have "unat (push_bit 8 (ucast (b k)) :: u32) = 256 * unat (b k)" using l by (simp add: push_bit_eq_mult unat_word_ariths unsigned_ucast_eq take_bit_nat_def)
  moreover have "unat (ucast (b (k + 1)) :: u32) = unat (b (k + 1))" using l by (simp add: unsigned_ucast_eq take_bit_nat_def)
  ultimately show ?thesis using l unat_add_32 [of "push_bit 8 (ucast (b k))" "ucast (b (k + 1))"] by (simp add: word_at_def)
qed

lemma mask_16: "(0xFFFF :: u32) = mask 16" by (simp add: mask_eq_exp_minus_1)

lemma unat_low16: "unat (w AND 0xFFFF :: u32) = unat w mod 65536"
  unfolding mask_16 by (simp add: take_bit_eq_mask [symmetric] unsigned_take_bit_eq take_bit_nat_def)

lemma unat_add_word:
  assumes "unat c \<le> 65535"
  shows "unat (add_word b k c) = (if unat c + word_at b k > 65535 then unat c + word_at b k - 65535 else unat c + word_at b k)"
proof -
  let ?x = "c + (push_bit 8 (ucast (b k)) + ucast (b (k + 1)))"
  have x: "unat ?x = unat c + word_at b k"
    using assms word_at_bound [of b k] unat_word [of b k] unat_add_32 [of c "push_bit 8 (ucast (b k)) + ucast (b (k + 1))"] by simp
  have "unat ?x mod 65536 = unat ?x - 65536" if "65535 < unat ?x" using that x assms word_at_bound [of b k] by (simp add: mod_if)
  then have "unat ((?x AND 0xFFFF) + 1) = unat ?x - 65535" if "65535 < unat ?x"
    using that x assms word_at_bound [of b k] unat_add_32 [of "?x AND 0xFFFF" 1] by (simp add: unat_low16)
  then show ?thesis using x by (simp add: add_word_def Let_def word_less_nat_alt)
qed

text \<open>
  What RFC 1071 asks of a block with its checksum in place: the one's complement sum of its words is
  all ones, that is, a multiple of 65535 other than 0.
\<close>

definition rfc_checksum :: "packet \<Rightarrow> nat \<Rightarrow> nat \<Rightarrow> bool" where
  "rfc_checksum b k n \<longleftrightarrow> (\<Sum>i<n. word_at b (k + 2 * i)) \<noteq> 0 \<and> (\<Sum>i<n. word_at b (k + 2 * i)) mod 65535 = 0"

text \<open>The sum with end-around carry: the sum of the words modulo 65535, and 0 only for words that are all 0.\<close>

lemma sum_words_spec:
  defines "W \<equiv> \<lambda>b k n. \<Sum>i<n. word_at b (k + 2 * i)"
  shows "unat (sum_words b k n) \<le> 65535 \<and> unat (sum_words b k n) mod 65535 = W b k n mod 65535 \<and> (unat (sum_words b k n) = 0 \<longleftrightarrow> W b k n = 0)"
proof (induction n)
  case 0
  then show ?case by (simp add: sum_words_def W_def)
next
  case (Suc n)
  let ?S = "unat (sum_words b k n)" and ?w = "word_at b (k + 2 * n)"
  have e: "unat (sum_words b k (Suc n)) = (if ?S + ?w > 65535 then ?S + ?w - 65535 else ?S + ?w)"
    using Suc unat_add_word [of "sum_words b k n" b "k + 2 * n"] by (simp add: sum_words_def)
  have "(?S + ?w) mod 65535 = W b k (Suc n) mod 65535" unfolding W_def sum.lessThan_Suc using Suc unfolding W_def by (intro mod_add_cong) auto
  moreover have "(?S + ?w - 65535) mod 65535 = (?S + ?w) mod 65535" if "?S + ?w > 65535" using that by (simp add: le_mod_geq)
  ultimately show ?case using e Suc word_at_bound [of b "k + 2 * n"] by (auto simp: W_def)
qed

lemma sum_words_cong: "(\<And>i. k \<le> i \<Longrightarrow> i < k + 2 * n \<Longrightarrow> b' i = b i) \<Longrightarrow> sum_words b' k n = sum_words b k n"
  unfolding sum_words_def by (rule foldl_cong) (auto simp: add_word_def)

lemma H2N_bytes: "(ucast (H2N_ushort v) :: u8) = ucast (drop_bit 8 v)" "(ucast (drop_bit 8 (H2N_ushort v)) :: u8) = ucast v"
proof -
  have m: "(0xFF :: u16) = mask 8" by (simp add: mask_eq_exp_minus_1)
  have "push_bit 8 (v AND 0xFF) AND drop_bit 8 v = 0" by (rule bit_word_eqI) (auto simp: bit_simps m dest: bit_imp_le_length)
  then have o: "H2N_ushort v = push_bit 8 (v AND 0xFF) OR drop_bit 8 v" unfolding H2N_ushort_def by (rule disjunctive_add_eq_or)
  show "(ucast (H2N_ushort v) :: u8) = ucast (drop_bit 8 v)" "(ucast (drop_bit 8 (H2N_ushort v)) :: u8) = ucast v"
    unfolding o m by (rule bit_word_eqI; auto simp: bit_simps dest: bit_imp_le_length)+
qed

lemma word_at_p16:
  "word_at (p16 k (H2N_ushort c) b) k = unat c"
  "j + 1 < k \<or> k + 1 < j \<Longrightarrow> word_at (p16 k v b) j = word_at b j"
proof -
  have "unat (ucast (drop_bit 8 c) :: u8) = unat c div 256" "unat (ucast c :: u8) = unat c mod 256"
    using unsigned_less [of c, where 'a = nat]
    by (simp_all add: unsigned_ucast_eq take_bit_nat_def unsigned_drop_bit_eq drop_bit_nat_def)
  then show "word_at (p16 k (H2N_ushort c) b) k = unat c" by (simp add: word_at_def p16_def H2N_bytes)
  show "word_at (p16 k v b) j = word_at b j" if "j + 1 < k \<or> k + 1 < j" using that by (auto simp: word_at_def p16_def)
qed

lemma unat_checksum:
  assumes "unat (x :: u32) \<le> 65535" shows "unat (ucast (NOT x) :: u16) = 65535 - unat x"
proof -
  have n: "(ucast (NOT x) :: u16) = NOT (ucast x)" by (rule bit_word_eqI) (simp add: bit_simps)
  have u: "unat (ucast x :: u16) = unat x" using assms by (simp add: unsigned_ucast_eq take_bit_nat_def)
  have "NOT (ucast x :: u16) = - 1 - ucast x" by (simp add: not_eq_complement)
  then have "unat (NOT (ucast x :: u16)) = unat (- 1 - ucast x :: u16)" by simp
  also have "\<dots> = unat (- 1 :: u16) - unat (ucast x :: u16)" by (rule unat_sub) simp
  finally show ?thesis using n u by (simp add: unsigned_minus_1_eq_mask mask_eq_exp_minus_1)
qed

lemma checksum_verifies:
  assumes p: "p < n" "b (k + 2 * p) = 0" "b (k + 2 * p + 1) = 0"
  shows "rfc_checksum (p16 (k + 2 * p) (H2N_ushort (ucast (NOT (sum_words b k n)))) b) k n"
proof -
  let ?S = "unat (sum_words b k n)" and ?b = "p16 (k + 2 * p) (H2N_ushort (ucast (NOT (sum_words b k n)))) b"
  let ?W = "\<lambda>b. \<Sum>i<n. word_at b (k + 2 * i)"
  note s = sum_words_spec [of b k n]
  have w: "word_at ?b (k + 2 * i) = (if i = p then 65535 - ?S else word_at b (k + 2 * i))" for i
  proof (cases "i = p")
    case True
    then show ?thesis using s unat_checksum by (simp add: word_at_p16)
  next
    case False
    then have "k + 2 * i + 1 < k + 2 * p \<or> k + 2 * p + 1 < k + 2 * i" by auto
    then show ?thesis using False by (simp add: word_at_p16)
  qed
  have "word_at b (k + 2 * p) = 0" using p by (simp add: word_at_def)
  then have "?W b = (\<Sum>i\<in>{..<n} - {p}. word_at b (k + 2 * i))" using p(1) by (simp add: sum.remove [of _ p])
  moreover have "?W ?b = (65535 - ?S) + (\<Sum>i\<in>{..<n} - {p}. word_at b (k + 2 * i))" using p(1) w by (simp add: sum.remove [of _ p])
  ultimately have W: "?W ?b = 65535 - ?S + ?W b" by simp
  have "?W ?b \<noteq> 0"
  proof
    assume "?W ?b = 0"
    then have z: "65535 - ?S = 0" "?W b = 0" unfolding W by (simp_all only: add_is_0)
    then have "?S = 0" using s by blast
    then show False using z(1) by simp
  qed
  moreover have "(65535 - ?S + ?W b) mod 65535 = (65535 - ?S + ?S) mod 65535" using s by (intro mod_add_cong) auto
  then have "?W ?b mod 65535 = 0" using s W by simp
  ultimately show ?thesis by (simp add: rfc_checksum_def)
qed

lemma rfc_checksum_cong:
  assumes "\<And>i. k \<le> i \<Longrightarrow> i < k + 2 * n \<Longrightarrow> b' i = b i" shows "rfc_checksum b' k n = rfc_checksum b k n"
proof -
  have "(\<Sum>i<n. word_at b' (k + 2 * i)) = (\<Sum>i<n. word_at b (k + 2 * i))" using assms by (intro sum.cong) (auto simp: word_at_def)
  then show ?thesis by (simp add: rfc_checksum_def)
qed

subsection \<open>Echo requests\<close>

lemma octets_blit: "octets (blit k xs b) k (length xs) = xs"
  by (rule nth_equalityI) (auto simp: octets_def blit_def)

lemma octets_eqI: "(\<And>i. i < n \<Longrightarrow> b (k + i) = b' (k' + i)) \<Longrightarrow> octets b k n = octets b' k' n"
  by (simp add: octets_def)

lemma length_octets [simp]: "length (octets b k n) = n" by (simp add: octets_def)

lemma nth_octets [simp]: "i < n \<Longrightarrow> octets b k n ! i = b (k + i)" by (simp add: octets_def)

lemma octets_list: "length xs = n \<Longrightarrow> (\<And>i. i < n \<Longrightarrow> b (k + i) = xs ! i) \<Longrightarrow> octets b k n = xs"
  by (rule nth_equalityI) (auto simp: octets_def)

lemma g16_p16: "(ucast v :: u8) = b k \<Longrightarrow> ucast (drop_bit 8 v) = b (k + 1) \<Longrightarrow> g16 b k = v"
  unfolding g16_def by (drule sym, drule sym, simp, rule bit_word_eqI) (auto simp: bit_simps dest: bit_imp_le_length)

lemma g16_bytes: "ucast (g16 b k) = b k" "ucast (drop_bit 8 (g16 b k)) = b (k + 1)"
  unfolding g16_def by (rule bit_word_eqI; auto simp: bit_simps dest: bit_imp_le_length)+

lemma ipv4_header_fields:
  fixes s :: "'d net" and r b :: packet and tlen fragment :: u16 and protocol :: u8
  assumes l: "length (my_ip s) = 4"
  defines "h \<equiv> ipv4_header r tlen fragment protocol s b"
  shows "i < 14 \<or> 34 \<le> i \<Longrightarrow> h i = b i" "h 14 = 0x45" "h 15 = 0" "h 16 = ucast (drop_bit 8 tlen)" "h 17 = ucast tlen"
    "g16 h 18 = send_id s" "h 22 = 255" "h 23 = protocol" "octets h 26 4 = my_ip s" "octets h 30 4 = octets r 26 4"
    "rfc_checksum h 14 10"
proof -
  define b0 where "b0 = p16 24 0 (blit 30 (octets r 26 4) (blit 26 (my_ip s) ((p16 20 (H2N_ushort fragment)
    (p16 18 (send_id s) (p16 16 (H2N_ushort tlen) (b(14 := 0x45, 15 := 0)))))(22 := 255, 23 := protocol))))"
  have h: "h = p16 24 (H2N_ushort (ipv4_chksum b0 14)) b0" by (simp add: h_def ipv4_header_def Let_def b0_def)
  note b = b0_def p16_def blit_def H2N_bytes l
  show "h i = b i" if "i < 14 \<or> 34 \<le> i" using that by (auto simp: h b)
  show "h 14 = 0x45" "h 15 = 0" "h 16 = ucast (drop_bit 8 tlen)" "h 17 = ucast tlen" "h 22 = 255" "h 23 = protocol"
    by (simp_all add: h b)
  show "g16 h 18 = send_id s" by (rule g16_p16) (simp_all add: h b)
  show "octets h 26 4 = my_ip s" "octets h 30 4 = octets r 26 4" by (rule octets_list; simp add: h b)+
  have "b0 14 = 0x45" "b0 24 = 0" "b0 25 = 0" by (simp_all add: b)
  then show "rfc_checksum h 14 10" using checksum_verifies [of 5 10 b0 14] by (simp add: h ipv4_chksum_def)
qed

text \<open>
  The frame that answers the echo request \<open>r\<close>: addressed to its sender, with its identifier, its sequence number and the 56
  bytes that follow in the receive buffer, whatever the length of the request.
\<close>

definition header_end :: "packet \<Rightarrow> nat" where
  "header_end r = 14 + unat ((r 14 AND 0xF) * 4)"

definition echo_reply :: "packet \<Rightarrow> 'd net \<Rightarrow> packet \<Rightarrow> bool" where
  "echo_reply r s f \<longleftrightarrow>
     octets f 0 6 = octets r 6 6 \<and> octets f 6 6 = mac_addr s \<and> f 12 = 0x08 \<and> f 13 = 0x00 \<and>
     f 14 = 0x45 \<and> f 15 = 0 \<and> word_at f 16 = 84 \<and> g16 f 18 = send_id s \<and> f 22 = 255 \<and> f 23 = 1 \<and>
     octets f 26 4 = my_ip s \<and> octets f 30 4 = octets r 26 4 \<and> rfc_checksum f 14 10 \<and>
     f 34 = 0 \<and> f 35 = 0 \<and> octets f 38 60 = octets r (header_end r + 4) 60 \<and> rfc_checksum f 34 32"

lemma icmp_reply_fields:
  fixes s :: "'d net" and r b :: packet
  assumes l: "length (mac_addr s) = 6" "length (my_ip s) = 4"
  shows "\<exists>f. icmp_reply_pkt_create r s b = (s\<lparr>send_id := send_id s + 1\<rparr>, f, 98) \<and> echo_reply r s f"
proof -
  let ?k = "header_end r"
  define e where "e = eth_header (octets r 6 6) s 0x08 0x00 b"
  define h where "h = ipv4_header r 84 0x4000 1 s e"
  define c where "c = p16 36 0 (blit 50 (octets r (?k + 16) 48) (blit 42 (octets r (?k + 8) 8)
    (p16 40 (g16 r (?k + 6)) (p16 38 (g16 r (?k + 4)) (h(34 := 0, 35 := 0))))))"
  define f where "f = p16 36 (H2N_ushort (icmp_chksum c 34)) c"
  have *: "icmp_reply_pkt_create r s b = (s\<lparr>send_id := send_id s + 1\<rparr>, f, 98)"
    by (simp add: icmp_reply_pkt_create_def Let_def sizeofs f_def c_def h_def e_def header_end_def ICMP_TYPE_ECHO_REPLY_def)
  note H = ipv4_header_fields [OF l(2), where r = r and tlen = 84 and fragment = "0x4000" and protocol = 1 and b = e, folded h_def]
  have low: "f i = h i" if "i < 34" for i using that by (simp add: f_def c_def p16_def blit_def)
  have E: "f i = e i" if "i < 14" for i using that low H(1) by simp
  have "octets f 0 6 = octets r 6 6" "octets f 6 6 = mac_addr s"
    by (rule octets_list; simp add: E l; simp add: e_def eth_header_def blit_def l)+
  moreover have "f 12 = 0x08" "f 13 = 0x00" by (simp_all add: E) (simp_all add: e_def eth_header_def blit_def l)
  moreover have "f 14 = 0x45" "f 15 = 0" "word_at f 16 = 84" "f 22 = 255" "f 23 = 1" using H(2-8) by (simp_all add: low word_at_def)
  moreover have "g16 f 18 = send_id s" using H(6) by (simp add: g16_def low)
  moreover have "octets f 26 4 = my_ip s" "octets f 30 4 = octets r 26 4" using H(9,10) octets_eqI [of 4 f 26 h 26] octets_eqI [of 4 f 30 h 30] by (simp_all add: low)
  moreover have "rfc_checksum f 14 10" using H(11) rfc_checksum_cong [of 14 10 f h] low by simp
  moreover have "f 34 = 0" "f 35 = 0" by (simp_all add: f_def c_def p16_def blit_def)
  moreover have "octets f 38 60 = octets r (?k + 4) 60"
  proof (rule octets_eqI)
    fix i :: nat assume i: "i < 60"
    consider "i = 0" | "i = 1" | "i = 2" | "i = 3" | "4 \<le> i" "i < 12" | "12 \<le> i" by linarith
    then show "f (38 + i) = r (?k + 4 + i)"
      using i by cases (simp_all add: f_def c_def p16_def blit_def g16_bytes add.assoc, simp_all add: add.commute)
  qed
  moreover have "c 36 = 0" "c 37 = 0" by (simp_all add: c_def p16_def)
  then have "rfc_checksum f 34 32" using checksum_verifies [of 1 32 c 34] by (simp add: f_def icmp_chksum_def)
  ultimately show ?thesis using * by (auto simp: echo_reply_def)
qed

text \<open>
  C39: What happens to an ICMP echo request (type 8, code 0).  It is dropped, and nothing changes, if its IPv4 identification is
  that of the last packet accepted, from whatever host, or if it carries the address of this host as its source.
  Otherwise \<^verbatim>\<open>eth_proc\<close> hands exactly one frame of 98 bytes to the driver, which is an echo reply addressed
  to the sender with the identifier and the sequence number of the request and the 56 bytes that
  follow them in the receive buffer, whatever the length of the request, and whose IPv4 and ICMP checksums
  verify in the sense of RFC 1071.  Only the identifications and the driver change, and the same frame received
  again is dropped.
\<close>

theorem echo_request_answered:
  assumes "length (mac_addr s) = 6" "length (my_ip s) = 4"
    and "r 12 = 0x08" "r 13 = 0x00" "r 23 = IPV4_TYPE_ICMP"
    and "r (header_end r) = ICMP_TYPE_ECHO_REQUEST" "r (header_end r + 1) = 0"
  shows "if ip_id s = uint (g16 r 18) \<or> octets r 26 4 = my_ip s then eth_proc send pg r s = s
    else (\<exists>f. eth_proc send pg r s =
        s\<lparr>ip_id := uint (g16 r 18), send_id := send_id s + 1, drv := fst (send (octets f 0 98) (drv s))\<rparr> \<and> echo_reply r s f) \<and>
      eth_proc send pg r (eth_proc send pg r s) = eth_proc send pg r s"
proof (cases "ip_id s = uint (g16 r 18) \<or> octets r 26 4 = my_ip s")
  case True
  then show ?thesis using assms(3,4) by (auto simp: eth_proc_def ipv4_proc_def)
next
  case False
  let ?s = "s\<lparr>ip_id := uint (g16 r 18)\<rparr>"
  obtain f where f: "icmp_reply_pkt_create r ?s pg = (?s\<lparr>send_id := send_id s + 1\<rparr>, f, 98)" "echo_reply r ?s f"
    using icmp_reply_fields [of ?s r pg] assms(1,2) by auto
  have "eth_proc send pg r s = fst (i8254_send send f 98 (?s\<lparr>send_id := send_id s + 1\<rparr>))"
    using assms f(1) False by (auto simp: eth_proc_def ipv4_proc_def icmp_proc_def Let_def header_end_def)
  then have e: "eth_proc send pg r s = s\<lparr>ip_id := uint (g16 r 18), send_id := send_id s + 1, drv := fst (send (octets f 0 98) (drv s))\<rparr>"
    by (simp add: i8254_send_def split: prod.splits)
  moreover have "echo_reply r s f" using f(2) by (simp add: echo_reply_def)
  moreover have "eth_proc send pg r (eth_proc send pg r s) = eth_proc send pg r s"
    unfolding e using assms(3,4) by (simp add: eth_proc_def ipv4_proc_def)
  ultimately show ?thesis using False by auto
qed

definition sample_net :: "u8 list list net" where
  "sample_net = \<lparr>mac_addr = [2, 0, 0, 0, 0, 1], my_ip = [10, 0, 1, 11],
     arp_table = replicate 64 \<lparr>arp_ip = [0, 0, 0, 0], arp_mac = [0, 0, 0, 0, 0, 0], arp_use = 0\<rparr>,
     ip_id = - 1, send_id = 0, seq_num = 0, fin_flag = 0, drv = [], says = []\<rparr>"

definition sample_send :: "u8 list list driver" where
  "sample_send p d = (d @ [p], 0)"

definition sample_ping :: packet where
  "sample_ping = (\<lambda>i. 0)(6 := 2, 11 := 7, 12 := 8, 14 := 0x45, 18 := 1, 23 := 1, 26 := 10, 28 := 1, 29 := 12, 34 := 8, 38 := 5, 50 := 9)"

theorem echo_request_answered_witness:
  "\<exists>f. eth_proc sample_send (\<lambda>i. 1) sample_ping sample_net =
     sample_net\<lparr>ip_id := 1, send_id := 1, drv := [octets f 0 98]\<rparr> \<and> echo_reply sample_ping sample_net f"
proof -
  have g: "g16 sample_ping 18 = 1" by (simp add: g16_def sample_ping_def)
  have k: "header_end sample_ping = 34" by (simp add: header_end_def sample_ping_def)
  have b: "octets sample_ping 26 4 = [10, 0, 1, 12]" by (simp add: octets_def sample_ping_def numeral_eq_Suc)
  have h: "length (mac_addr sample_net) = 6" "length (my_ip sample_net) = 4" "sample_ping 12 = 0x08" "sample_ping 13 = 0x00"
    "sample_ping 23 = IPV4_TYPE_ICMP" "sample_ping (header_end sample_ping) = ICMP_TYPE_ECHO_REQUEST" "sample_ping (header_end sample_ping + 1) = 0"
    unfolding k by (simp_all add: sample_net_def sample_ping_def IPV4_TYPE_ICMP_def ICMP_TYPE_ECHO_REQUEST_def)
  show ?thesis
    using echo_request_answered [OF h, where send = sample_send and pg = "\<lambda>i. 1"] unfolding g b sample_send_def by (simp add: sample_net_def)
qed

subsection \<open>ARP\<close>

text \<open>The search: the first entry with the address; failing that, the first free entry; failing that, 0.\<close>

lemma search_loop_spec:
  assumes "0 \<le> i"
  shows "search_loop ip i e xs = (case find_index (\<lambda>x. arp_ip x = ip) xs of Some j \<Rightarrow> i + int j
    | None \<Rightarrow> if e = 1 then (case find_index (\<lambda>x. arp_use x = 0) xs of Some j \<Rightarrow> - (i + int j) - 1 | None \<Rightarrow> 0) else e - 1)"
  using assms by (induction ip i e xs rule: search_loop.induct) (auto split: option.splits)

lemma arp_table_search_spec:
  "arp_table_search ip s = (case find_index (\<lambda>x. arp_ip x = ip) (arp_table s) of Some j \<Rightarrow> int j
    | None \<Rightarrow> (case find_index (\<lambda>x. arp_use x = 0) (arp_table s) of Some j \<Rightarrow> - int j - 1 | None \<Rightarrow> 0))"
  by (simp add: arp_table_search_def search_loop_spec split: option.splits)

lemma print_arp_table_table [simp]: "arp_table (print_arp_table s) = arp_table s"
proof -
  have "arp_table (foldl (\<lambda>t i. let e = tab ! i in if arp_use e \<noteq> 0
      then say (''Entry Num: '' @ int_text lower_digits (of_nat i) 10 True @ '' '' @ print_ipv4 (arp_ip e) @ '' '' @ print_mac (arp_mac e) @ [newline]) t
      else t) t xs) = arp_table t" for tab and t :: "'a net" and xs
    by (induction xs arbitrary: t) (simp_all add: Let_def say_def)
  then show ?thesis by (simp add: print_arp_table_def)
qed

lemma arp_table_update_learns:
  assumes "\<exists>e\<in>set (arp_table s). arp_ip e = octets r 28 4 \<or> arp_use e = 0"
  shows "\<exists>i<length (arp_table s). arp_table_search (octets r 28 4) (arp_table_update r s) = int i \<and>
    arp_mac (arp_table (arp_table_update r s) ! i) = octets r 22 6 \<and>
    (\<forall>j<length (arp_table s). j \<noteq> i \<longrightarrow> arp_table (arp_table_update r s) ! j = arp_table s ! j)"
proof (cases "find_index (\<lambda>x. arp_ip x = octets r 28 4) (arp_table s)")
  case (Some i)
  then have f: "find_index (\<lambda>x. arp_ip x = octets r 28 4) (upd_at i (\<lambda>e. e\<lparr>arp_mac := octets r 22 6\<rparr>) (arp_table s)) = Some i"
    by (auto simp: find_index_Some_iff nth_upd_at)
  then show ?thesis using Some find_index_less [OF Some]
    by (intro exI [of _ i]) (simp add: arp_table_update_def Let_def arp_table_search_spec nth_upd_at)
next
  case None
  then obtain i where i: "find_index (\<lambda>x. arp_use x = 0) (arp_table s) = Some i"
    using assms by (cases "find_index (\<lambda>x. arp_use x = 0) (arp_table s)") (auto simp: find_index_None_iff)
  have f: "find_index (\<lambda>x. arp_ip x = octets r 28 4)
      (upd_at i (\<lambda>e. e\<lparr>arp_mac := octets r 22 6, arp_ip := octets r 28 4, arp_use := 1\<rparr>) (arp_table s)) = Some i"
    using None find_index_less [OF i] by (auto simp: find_index_Some_iff find_index_None_nth nth_upd_at)
  then show ?thesis using None i find_index_less [OF i]
    by (intro exI [of _ i]) (simp add: arp_table_update_def Let_def arp_table_search_spec nth_upd_at)
qed

text \<open>A full table without the address: entry 0 gets the hardware address and keeps its own address.\<close>

lemma arp_table_update_full:
  assumes "\<forall>e\<in>set (arp_table s). arp_ip e \<noteq> octets r 28 4 \<and> arp_use e \<noteq> 0"
  shows "arp_table (arp_table_update r s) = upd_at 0 (\<lambda>e. e\<lparr>arp_mac := octets r 22 6\<rparr>) (arp_table s)"
proof -
  have "find_index (\<lambda>x. arp_ip x = octets r 28 4) (arp_table s) = None" "find_index (\<lambda>x. arp_use x = 0) (arp_table s) = None"
    using assms by (auto simp: find_index_None_iff)
  then show ?thesis by (simp add: arp_table_update_def Let_def arp_table_search_spec)
qed

text \<open>The frame that answers the ARP request \<open>r\<close>.\<close>

definition arp_answer :: "packet \<Rightarrow> 'd net \<Rightarrow> packet \<Rightarrow> bool" where
  "arp_answer r s f \<longleftrightarrow>
     octets f 0 6 = octets r 22 6 \<and> octets f 6 6 = mac_addr s \<and> f 12 = 0x08 \<and> f 13 = 0x06 \<and>
     octets f 14 8 = [0, 1, 8, 0, 6, 4, 0, 2] \<and> octets f 22 6 = mac_addr s \<and> octets f 28 4 = my_ip s \<and>
     octets f 32 6 = octets r 22 6 \<and> octets f 38 4 = octets r 28 4"

lemma arp_reply_fields:
  fixes s :: "'d net" and r b :: packet
  assumes l: "length (mac_addr s) = 6" "length (my_ip s) = 4"
  shows "\<exists>f. arp_reply_pkt_create r s b = (f, 44) \<and> arp_answer r s f"
proof -
  define e where "e = eth_header (octets r 22 6) s 0x08 0x06 b"
  define f where "f = arp_header ARP_OPS_REPLY (octets r 22 6) (octets r 28 4) s e"
  note F = f_def arp_header_def p16_def blit_def Let_def l
  note K = ARP_OPS_REPLY_def ARP_HARDWARE_TYPE_def ARP_PROTOCOL_TYPE_def
  have E: "f i = e i" if "i < 14" for i using that by (simp add: F)
  have "octets f 0 6 = octets r 22 6" "octets f 6 6 = mac_addr s"
    by (rule octets_list; simp add: E l; simp add: e_def eth_header_def blit_def l)+
  moreover have "f 12 = 0x08" "f 13 = 0x06" by (simp_all add: E) (simp_all add: e_def eth_header_def blit_def l)
  moreover have "f 14 = 0" "f 15 = 1" "f 16 = 8" "f 17 = 0" "f 18 = 6" "f 19 = 4" "f 20 = 0" "f 21 = 2"
    by (simp_all add: F K drop_bit_eq_div)
  then have "octets f 14 8 = [0, 1, 8, 0, 6, 4, 0, 2]" by (simp add: octets_def upt_rec)
  moreover have "octets f 22 6 = mac_addr s" "octets f 28 4 = my_ip s" "octets f 32 6 = octets r 22 6"
    "octets f 38 4 = octets r 28 4"
    by (rule octets_list; simp add: F)+
  ultimately show ?thesis by (auto simp: arp_answer_def arp_reply_pkt_create_def Let_def sizeofs f_def e_def)
qed

text \<open>
  C40: What \<^verbatim>\<open>eth_proc\<close> does with a well-formed ARP frame for this host.  A request is answered with exactly one frame, the ARP
  reply that tells the sender the hardware address, and nothing else changes.  A reply is learned: if the table
  has the sender or a free entry, \<^verbatim>\<open>arp_table_search\<close> of the sender then returns an entry with
  its hardware address, and no other entry changes.  If the table is full and does not have the sender, entry 0, which
  belongs to another host, gets the hardware address of the sender.  Other operations are ignored.
\<close>

theorem arp_frames_handled:
  fixes s :: "'d net" and send :: "'d driver" and pg r :: packet
  assumes "length (mac_addr s) = 6" "length (my_ip s) = 4" "r 12 = 0x08" "r 13 = 0x06"
    and "g16 r 14 = ARP_HARDWARE_TYPE" "g16 r 16 = ARP_PROTOCOL_TYPE" "r 18 = 6" "r 19 = 4" "octets r 38 4 = my_ip s"
  defines "sender \<equiv> octets r 28 4" and "s' \<equiv> eth_proc send pg r s"
  shows "if g16 r 20 = ARP_OPS_REQUEST then \<exists>f. s' = s\<lparr>drv := fst (send (octets f 0 44) (drv s))\<rparr> \<and> arp_answer r s f
    else if g16 r 20 = ARP_OPS_REPLY
    then if \<exists>e\<in>set (arp_table s). arp_ip e = sender \<or> arp_use e = 0
         then \<exists>i<length (arp_table s). arp_table_search sender s' = int i \<and> arp_mac (arp_table s' ! i) = octets r 22 6 \<and>
           (\<forall>j<length (arp_table s). j \<noteq> i \<longrightarrow> arp_table s' ! j = arp_table s ! j)
         else arp_table s' = upd_at 0 (\<lambda>e. e\<lparr>arp_mac := octets r 22 6\<rparr>) (arp_table s)
    else s' = s"
proof -
  have p: "s' = fst (arp_proc send pg r s)" using assms(3,4) by (simp add: s'_def eth_proc_def)
  have "s' = s\<lparr>drv := fst (send (octets f 0 44) (drv s))\<rparr>"
    if "g16 r 20 = ARP_OPS_REQUEST" "arp_reply_pkt_create r s pg = (f, 44)" for f
    using that assms(5-9) by (simp add: p arp_proc_def i8254_send_def split: prod.splits)
  then have req: "\<exists>f. s' = s\<lparr>drv := fst (send (octets f 0 44) (drv s))\<rparr> \<and> arp_answer r s f" if "g16 r 20 = ARP_OPS_REQUEST"
    using that arp_reply_fields [OF assms(1,2), of r pg] by blast
  let ?t = "say (''ARP TABLE UPDATED'' @ [newline]) s"
  have rep: "s' = arp_table_update r ?t" if "g16 r 20 = ARP_OPS_REPLY"
    using that assms(5-9) by (simp add: p arp_proc_def ARP_OPS_REQUEST_def ARP_OPS_REPLY_def)
  have t: "arp_table ?t = arp_table s" by (simp add: say_def)
  have oth: "s' = s" if "g16 r 20 \<noteq> ARP_OPS_REQUEST" "g16 r 20 \<noteq> ARP_OPS_REPLY" using that assms(5-9) by (simp add: p arp_proc_def)
  show ?thesis
    using req rep oth arp_table_update_learns [of ?t r] arp_table_update_full [of ?t r] unfolding t sender_def by auto
qed

definition sample_arp :: "u8 \<Rightarrow> packet" where
  "sample_arp op = (\<lambda>i. 0)(6 := 2, 11 := 7, 12 := 8, 13 := 6, 15 := 1, 16 := 8, 18 := 6, 19 := 4, 21 := op, 22 := 2, 27 := 7, 28 := 10, 30 := 1, 31 := 12, 38 := 10, 40 := 1, 41 := 11)"

theorem arp_frames_handled_witness:
  "(\<exists>f. eth_proc sample_send (\<lambda>i. 1) (sample_arp 1) sample_net = sample_net\<lparr>drv := [octets f 0 44]\<rparr> \<and> arp_answer (sample_arp 1) sample_net f)"
proof -
  have a: "g16 (sample_arp 1) 14 = ARP_HARDWARE_TYPE" "g16 (sample_arp 1) 16 = ARP_PROTOCOL_TYPE" "g16 (sample_arp 1) 20 = ARP_OPS_REQUEST"
    by (simp_all add: g16_def sample_arp_def ARP_HARDWARE_TYPE_def ARP_PROTOCOL_TYPE_def ARP_OPS_REQUEST_def)
  have b: "octets (sample_arp 1) 38 4 = my_ip sample_net" by (simp add: octets_def sample_arp_def sample_net_def numeral_eq_Suc)
  have c: "length (mac_addr sample_net) = 6" "length (my_ip sample_net) = 4" "sample_arp 1 12 = 0x08" "sample_arp 1 13 = 0x06" "sample_arp 1 18 = 6" "sample_arp 1 19 = 4"
    by (simp_all add: sample_net_def sample_arp_def)
  show ?thesis
    using arp_frames_handled [OF c(1-4) a(1,2) c(5,6) b, where send = sample_send and pg = "\<lambda>i. 1"] a(3)
    by (simp add: sample_send_def sample_net_def)
qed

end
