(* ===== verification/Ide.thy ===== *)
theory Ide
  imports Bio
begin

text \<open>
  The disk driver of the default kernel, \<^verbatim>\<open>ide.c\<close>: requests in a linked list, the head of the list programmed
  into the registers of the controller, an interrupt when it is done.  The controller is modelled by what the
  ATA commands are documented to do: \<open>device_done\<close> carries out the command in its registers.  \<^verbatim>\<open>iderw\<close> is cut
  where it sleeps: \<open>iderw_enter\<close> is what runs before, \<open>iderw_leaves\<close> the test that lets it return.  The debugging
  output, the lock of the queue and the wake-up of the sleeping process are not part of this state.

  The refinement: every interrupt has, for the request at the head of the queue, exactly the effect that
  \<open>iderw\<close> of the memory disk has at once.
\<close>

subsection \<open>The controller\<close>

record ide_ports =
  nsect :: u8
  lba0 :: u8
  lba1 :: u8
  lba2 :: u8
  drive :: u8
  cmd :: u8
  fifo :: block

record ide_state = bstate +
  idequeue :: "nat option"
  qnext :: "nat \<Rightarrow> nat option"
  havedisk1 :: bool
  disk0 :: "u32 \<Rightarrow> block"
  ports :: ide_ports
  err :: bool

definition SECTOR_SIZE :: nat where "SECTOR_SIZE = 512"
definition IDE_CMD_READ :: u8 where "IDE_CMD_READ = 0x20"
definition IDE_CMD_WRITE :: u8 where "IDE_CMD_WRITE = 0x30"
definition IDE_CMD_RDMUL :: u8 where "IDE_CMD_RDMUL = 0xc4"
definition IDE_CMD_WRMUL :: u8 where "IDE_CMD_WRMUL = 0xc5"

lemmas ide_defs = SECTOR_SIZE_def IDE_CMD_READ_def IDE_CMD_WRITE_def IDE_CMD_RDMUL_def IDE_CMD_WRMUL_def

text \<open>The sector and the drive that the registers select.\<close>

definition device_sector :: "ide_ports \<Rightarrow> u32" where
  "device_sector p = ucast (lba0 p) OR push_bit 8 (ucast (lba1 p)) OR push_bit 16 (ucast (lba2 p)) OR push_bit 24 (ucast (drive p AND 0x0f))"

definition drive1 :: "ide_ports \<Rightarrow> bool" where
  "drive1 p \<longleftrightarrow> bit (drive p) 4"

definition device_done :: "ide_state \<Rightarrow> ide_state" where
  "device_done s =
     (let p = ports s; n = device_sector p in
      if cmd p = IDE_CMD_WRITE
      then if drive1 p then s\<lparr>disk := (disk s)(n := fifo p), writes := writes s @ [(n, fifo p)]\<rparr>
           else s\<lparr>disk0 := (disk0 s)(n := fifo p)\<rparr>
      else if cmd p = IDE_CMD_READ
      then s\<lparr>ports := p\<lparr>fifo := if drive1 p then disk s n else disk0 s n\<rparr>\<rparr>
      else s)"

subsection \<open>The driver\<close>

text \<open>
  \<^verbatim>\<open>idewait\<close> returns when the controller is ready; what is left is the test of the error bits.  The answers of the
  status register while \<^verbatim>\<open>ideinit\<close> looks for the second disk are its argument.
\<close>

definition idewait :: "bool \<Rightarrow> ide_state \<Rightarrow> int" where
  "idewait checkerr s = (if checkerr \<and> err s then -1 else 0)"

definition ideinit :: "(nat \<Rightarrow> u8) \<Rightarrow> ide_state \<Rightarrow> ide_state" where
  "ideinit status s =
     (let s = s\<lparr>ports := (ports s)\<lparr>drive := 0xe0 OR push_bit 4 1\<rparr>\<rparr>;
          s = (if \<exists>i\<in>{..<1000}. status i \<noteq> 0 then s\<lparr>havedisk1 := True\<rparr> else s)
      in s\<lparr>ports := (ports s)\<lparr>drive := 0xe0 OR push_bit 4 0\<rparr>\<rparr>)"

definition idestart :: "nat option \<Rightarrow> ide_state \<Rightarrow> ide_state outcome" where
  "idestart p s =
     (case p of
        None \<Rightarrow> Panic ''idestart''
      | Some i \<Rightarrow>
          let b = bufs s ! i in
          if blockno b \<ge> of_nat FSSIZE then Panic ''incorrect blockno''
          else
            let sector_per_block = BSIZE div SECTOR_SIZE;
                sector = blockno b * of_nat sector_per_block;
                read_cmd = (if sector_per_block = 1 then IDE_CMD_READ else IDE_CMD_RDMUL);
                write_cmd = (if sector_per_block = 1 then IDE_CMD_WRITE else IDE_CMD_WRMUL)
            in if sector_per_block > 7 then Panic ''idestart''
               else
                 let q = (ports s)\<lparr>nsect := of_nat sector_per_block, lba0 := ucast (sector AND 0xff),
                       lba1 := ucast (drop_bit 8 sector AND 0xff), lba2 := ucast (drop_bit 16 sector AND 0xff),
                       drive := 0xe0 OR push_bit 4 (ucast (bdev b AND 1)) OR ucast (drop_bit 24 sector AND 0x0f)\<rparr>
                 in Done (s\<lparr>ports := if b_dirty b then q\<lparr>cmd := write_cmd, fifo := bdata b\<rparr> else q\<lparr>cmd := read_cmd\<rparr>\<rparr>))"

definition ideintr :: "ide_state \<Rightarrow> ide_state outcome" where
  "ideintr s =
     (case idequeue s of
        None \<Rightarrow> Done s
      | Some i \<Rightarrow>
          let s = s\<lparr>idequeue := qnext s i\<rparr>;
              s = (if \<not> b_dirty (bufs s ! i) \<and> idewait True s \<ge> 0 then set_buf i (\<lambda>b. b\<lparr>bdata := fifo (ports s)\<rparr>) s else s);
              s = set_buf i (\<lambda>b. b\<lparr>b_valid := True\<rparr>) s;
              s = set_buf i (\<lambda>b. b\<lparr>b_dirty := False\<rparr>) s
          in if idequeue s \<noteq> None then idestart (idequeue s) s else Done s)"

text \<open>The loop of \<^verbatim>\<open>iderw\<close> that looks for the end of the list, from node \<open>p\<close> on.\<close>

partial_function (option) queue_end :: "(nat \<Rightarrow> nat option) \<Rightarrow> nat \<Rightarrow> nat option" where
  "queue_end qn p = (case qn p of None \<Rightarrow> Some p | Some r \<Rightarrow> queue_end qn r)"

definition enqueue :: "nat \<Rightarrow> ide_state \<Rightarrow> ide_state outcome" where
  "enqueue i s =
     (let s = s\<lparr>qnext := (qnext s)(i := None)\<rparr> in
      case idequeue s of
        None \<Rightarrow> Done (s\<lparr>idequeue := Some i\<rparr>)
      | Some h \<Rightarrow>
          (case queue_end (qnext s) h of
             None \<Rightarrow> Wait
           | Some e \<Rightarrow> Done (s\<lparr>qnext := (qnext s)(e := Some i)\<rparr>)))"

definition iderw_enter :: "nat \<Rightarrow> ide_state \<Rightarrow> ide_state outcome" where
  "iderw_enter i s =
     (let b = bufs s ! i in
      if \<not> holdingsleep (block_lock b) then Panic ''iderw: buf not locked''
      else if b_valid b \<and> \<not> b_dirty b then Panic ''iderw: nothing to do''
      else if bdev b \<noteq> 0 \<and> \<not> havedisk1 s then Panic ''iderw: ide disk 1 not present''
      else and_then (enqueue i s) (\<lambda>s. if idequeue s = Some i then idestart (Some i) s else Done s))"

definition iderw_leaves :: "nat \<Rightarrow> ide_state \<Rightarrow> bool" where
  "iderw_leaves i s \<longleftrightarrow> b_valid (bufs s ! i) \<and> \<not> b_dirty (bufs s ! i)"

subsection \<open>The queue\<close>

text \<open>The list that starts at \<open>p\<close>.\<close>

fun request_list :: "(nat \<Rightarrow> nat option) \<Rightarrow> nat option \<Rightarrow> nat list \<Rightarrow> bool" where
  "request_list qn p [] \<longleftrightarrow> p = None"
| "request_list qn p (x # xs) \<longleftrightarrow> p = Some x \<and> request_list qn (qn x) xs"

lemma request_list_upd: "i \<notin> set xs \<Longrightarrow> request_list (qn(i := v)) p xs = request_list qn p xs"
  by (induction xs arbitrary: p) auto

lemma request_list_end: "request_list qn (Some h) (h # xs) \<Longrightarrow> queue_end qn h = Some (last (h # xs))"
proof (induction xs arbitrary: h)
  case Nil
  then show ?case by (subst queue_end.simps) simp
next
  case (Cons x xs)
  then show ?case by (subst queue_end.simps) simp
qed

lemma request_list_append:
  assumes "request_list qn p (xs @ [e])" "distinct (xs @ [e, i])" "qn i = None"
  shows "request_list (qn(e := Some i)) p (xs @ [e, i])"
  using assms by (induction xs arbitrary: p) auto

text \<open>
  The requests in the queue are those of locked buffers with work to do, and the registers hold the request at its
  head.
\<close>

definition request_ok :: "ide_state \<Rightarrow> nat \<Rightarrow> bool" where
  "request_ok s i \<longleftrightarrow> i < length (bufs s) \<and> holdingsleep (block_lock (bufs s ! i)) \<and> \<not> iderw_leaves i s \<and> bdev (bufs s ! i) = 1 \<and>
     blockno (bufs s ! i) < disksize s"

definition programmed :: "ide_state \<Rightarrow> nat \<Rightarrow> bool" where
  "programmed s i \<longleftrightarrow> device_sector (ports s) = blockno (bufs s ! i) \<and> drive1 (ports s) \<and>
     (if b_dirty (bufs s ! i) then cmd (ports s) = IDE_CMD_WRITE \<and> fifo (ports s) = bdata (bufs s ! i)
      else cmd (ports s) = IDE_CMD_READ)"

definition ide_inv :: "nat list \<Rightarrow> ide_state \<Rightarrow> bool" where
  "ide_inv q s \<longleftrightarrow> request_list (qnext s) (idequeue s) q \<and> distinct q \<and> (\<forall>i\<in>set q. request_ok s i) \<and> (q \<noteq> [] \<longrightarrow> programmed s (hd q)) \<and>
     unat (disksize s) \<le> FSSIZE \<and> havedisk1 s"

text \<open>The sector number in pieces is the sector number.\<close>

lemma sector_pieces:
  fixes n :: u32
  assumes "unat n < 2 ^ 28"
  shows "ucast (ucast (n AND 0xff) :: u8) OR push_bit 8 (ucast (ucast (drop_bit 8 n AND 0xff) :: u8)) OR
    push_bit 16 (ucast (ucast (drop_bit 16 n AND 0xff) :: u8)) OR
    push_bit 24 (ucast ((0xe0 OR push_bit 4 d OR ucast (drop_bit 24 n AND 0x0f)) AND 0x0f :: u8)) = n"
proof -
  have m: "(0xff :: u32) = mask 8" "(0x0f :: u32) = mask 4" "(0x0f :: u8) = mask 4" by (simp_all add: mask_eq_exp_minus_1)
  have e: "\<not> bit (0xe0 :: int) j" if "j < 4" for j
  proof -
    have "j = 0 \<or> j = 1 \<or> j = 2 \<or> j = 3" using that by linarith
    then show ?thesis by (auto simp: bit_iff_odd)
  qed
  have a: "ucast (ucast (x AND 0xff) :: u8) = take_bit 8 x" for x :: u32
    unfolding m by (rule bit_word_eqI) (auto simp: bit_simps)
  have h: "(0xe0 OR push_bit 4 d OR ucast (drop_bit 24 n AND 0x0f)) AND 0x0f = (ucast (drop_bit 24 n AND 0x0f) :: u8)"
    unfolding m by (rule bit_word_eqI) (auto simp: bit_simps e)
  have b: "ucast (ucast (x AND 0x0f) :: u8) = take_bit 4 x" for x :: u32
    unfolding m by (rule bit_word_eqI) (auto simp: bit_simps)
  have z: "\<not> bit n j" if "28 \<le> j" for j
  proof
    assume "bit n j"
    then have "bit (unat n) j" by (simp add: bit_unsigned_iff)
    then show False using assms that bit_take_bit_iff [of 28 "unat n" j] by (simp add: take_bit_nat_eq_self)
  qed
  show ?thesis unfolding a h b
  proof (rule bit_word_eqI)
    fix k assume k: "k < LENGTH(32)"
    consider "k < 8" | "8 \<le> k" "k < 16" | "16 \<le> k" "k < 24" | "24 \<le> k" "k < 28" | "28 \<le> k" by linarith
    then show "bit (take_bit 8 n OR push_bit 8 (take_bit 8 (drop_bit 8 n)) OR push_bit 16 (take_bit 8 (drop_bit 16 n)) OR push_bit 24 (take_bit 4 (drop_bit 24 n))) k = bit n k"
      by cases (use k z in \<open>auto simp: bit_simps\<close>)
  qed
qed

lemma idestart_programs:
  assumes "unat (blockno (bufs s ! i)) < FSSIZE" "bdev (bufs s ! i) = 1"
  shows "\<exists>p. idestart (Some i) s = Done (s\<lparr>ports := p\<rparr>) \<and> programmed (s\<lparr>ports := p\<rparr>) i"
proof -
  let ?b = "bufs s ! i" and ?n = "blockno (bufs s ! i)"
  have n: "unat ?n < 4000" "\<not> of_nat FSSIZE \<le> ?n" using assms(1) by (simp_all add: word_le_nat_alt layout_defs)
  define q where "q = (ports s)\<lparr>nsect := 1, lba0 := ucast (?n AND 0xff), lba1 := ucast (drop_bit 8 ?n AND 0xff), lba2 := ucast (drop_bit 16 ?n AND 0xff),
    drive := 0xe0 OR push_bit 4 (1 :: u8) OR ucast (drop_bit 24 ?n AND 0x0f)\<rparr>"
  define p where "p = (if b_dirty ?b then q\<lparr>cmd := IDE_CMD_WRITE, fifo := bdata ?b\<rparr> else q\<lparr>cmd := IDE_CMD_READ\<rparr>)"
  have "idestart (Some i) s = Done (s\<lparr>ports := p\<rparr>)"
    using n(2) assms(2) by (simp add: idestart_def Let_def SECTOR_SIZE_def BSIZE_def p_def q_def)
  moreover have "device_sector p = device_sector q" "drive1 p = drive1 q" by (simp_all add: p_def device_sector_def drive1_def)
  moreover have "device_sector q = ?n" unfolding device_sector_def q_def ide_ports.simps ide_ports.select_convs ide_ports.update_convs
    using sector_pieces [of ?n 1] n(1) by simp
  moreover have "drive1 q" by (simp add: drive1_def q_def bit_or_iff bit_iff_odd [of "0xe0 :: u8"] bit_push_bit_iff)
  ultimately show ?thesis by (auto simp: programmed_def p_def)
qed

text \<open>At start-up the queue is empty and the second disk has answered.\<close>

lemma ideinit_idle:
  assumes "status i \<noteq> 0" "i < 1000" "idequeue s = None" "unat (disksize s) \<le> FSSIZE"
  shows "ide_inv [] (ideinit status s)"
proof -
  have "\<exists>j\<in>{..<1000}. status j \<noteq> 0" using assms(1,2) by blast
  then show ?thesis using assms(3,4) by (simp add: ideinit_def ide_inv_def Let_def)
qed

subsection \<open>A request enters the queue\<close>

lemma ports_inv [simp]:
  "request_ok (s\<lparr>ports := p\<rparr>) i = request_ok s i" "request_ok (s\<lparr>idequeue := h\<rparr>) i = request_ok s i"
  "request_ok (s\<lparr>qnext := f\<rparr>) i = request_ok s i"
  "programmed (s\<lparr>idequeue := h\<rparr>) i = programmed s i" "programmed (s\<lparr>qnext := f\<rparr>) i = programmed s i"
  by (simp_all add: request_ok_def iderw_leaves_def programmed_def)

lemma enqueue_links:
  assumes "request_list (qnext s) (idequeue s) q" "distinct (q @ [i])"
  shows "\<exists>h f. enqueue i s = Done (s\<lparr>qnext := f, idequeue := h\<rparr>) \<and> request_list f h (q @ [i]) \<and> (q \<noteq> [] \<longrightarrow> h = idequeue s) \<and> (q = [] \<longrightarrow> h = Some i)"
proof (cases q rule: rev_cases)
  case Nil
  let ?f = "(qnext s)(i := None)"
  have "enqueue i s = Done (s\<lparr>qnext := ?f, idequeue := Some i\<rparr>)" "request_list ?f (Some i) (q @ [i])"
    using assms Nil by (simp_all add: enqueue_def)
  then show ?thesis using Nil by blast
next
  case (snoc xs e)
  let ?g = "(qnext s)(i := None)"
  let ?f = "?g(e := Some i)"
  have "q \<noteq> []" using snoc by simp
  then obtain h ys where q: "q = h # ys" by (cases q) auto
  have g: "request_list ?g (idequeue s) q" using assms request_list_upd [of i q] by simp
  have "last (h # ys) = e" using snoc unfolding q [symmetric] by simp
  then have h: "idequeue s = Some h" "queue_end ?g h = Some e" using g q request_list_end [of ?g h ys] by simp_all
  then have "enqueue i s = Done (s\<lparr>qnext := ?f, idequeue := idequeue s\<rparr>)" by (simp add: enqueue_def)
  moreover have "request_list ?f (idequeue s) (q @ [i])" using request_list_append [of ?g "idequeue s" xs e i] g snoc assms(2) by simp
  ultimately show ?thesis using snoc by blast
qed

lemma iderw_enter_queued:
  assumes "ide_inv q s" "request_ok s i" "i \<notin> set q"
  shows "\<exists>t. iderw_enter i s = Done t \<and> ide_inv (q @ [i]) t \<and> bstate.truncate t = bstate.truncate s"
proof -
  have q: "request_list (qnext s) (idequeue s) q" "distinct (q @ [i])" and f: "unat (disksize s) \<le> FSSIZE" and d: "havedisk1 s"
    using assms by (simp_all add: ide_inv_def)
  obtain h g where e: "enqueue i s = Done (s\<lparr>qnext := g, idequeue := h\<rparr>)" "request_list g h (q @ [i])" "q \<noteq> [] \<longrightarrow> h = idequeue s" "q = [] \<longrightarrow> h = Some i"
    using enqueue_links [OF q] by blast
  let ?s = "s\<lparr>qnext := g, idequeue := h\<rparr>"
  have en: "iderw_enter i s = (if h = Some i then idestart (Some i) ?s else Done ?s)"
    using assms(2) d e(1) by (auto simp: iderw_enter_def request_ok_def iderw_leaves_def Let_def)
  show ?thesis
  proof (cases "q = []")
    case True
    have "unat (blockno (bufs ?s ! i)) < FSSIZE" "bdev (bufs ?s ! i) = 1"
      using assms(2) f by (simp_all add: request_ok_def word_less_nat_alt)
    from idestart_programs [OF this] obtain p where "idestart (Some i) ?s = Done (?s\<lparr>ports := p\<rparr>)" "programmed (?s\<lparr>ports := p\<rparr>) i" by blast
    then show ?thesis using en e True assms(2) f d by (simp add: ide_inv_def bstate.truncate_def)
  next
    case False
    then have "h \<noteq> Some i" using q(1) e(3) assms(3) by (cases q) auto
    moreover have "ide_inv (q @ [i]) ?s" using assms e False by (auto simp: ide_inv_def)
    ultimately show ?thesis using en by (auto simp: bstate.truncate_def)
  qed
qed

subsection \<open>An interrupt completes the request at the head\<close>

lemma device_done_programmed:
  assumes "programmed s i"
  shows "device_done s = (if b_dirty (bufs s ! i)
    then s\<lparr>disk := (disk s)(blockno (bufs s ! i) := bdata (bufs s ! i)), writes := writes s @ [(blockno (bufs s ! i), bdata (bufs s ! i))]\<rparr>
    else s\<lparr>ports := (ports s)\<lparr>fifo := disk s (blockno (bufs s ! i))\<rparr>\<rparr>)"
  using assms by (auto simp: programmed_def device_done_def Let_def ide_defs)

lemma request_ok_cong:
  "bufs t ! i = bufs s ! i \<Longrightarrow> length (bufs t) = length (bufs s) \<Longrightarrow> disksize t = disksize s \<Longrightarrow> request_ok t i = request_ok s i"
  by (simp add: request_ok_def iderw_leaves_def)

lemma start_next:
  assumes "request_list (qnext s) (idequeue s) q" "distinct q" "\<forall>i\<in>set q. request_ok s i" "unat (disksize s) \<le> FSSIZE" "havedisk1 s"
  shows "\<exists>p. (if idequeue s \<noteq> None then idestart (idequeue s) s else Done s) = Done (s\<lparr>ports := p\<rparr>) \<and> ide_inv q (s\<lparr>ports := p\<rparr>)"
proof (cases q)
  case Nil
  then have "(if idequeue s \<noteq> None then idestart (idequeue s) s else Done s) = Done (s\<lparr>ports := ports s\<rparr>) \<and> ide_inv q (s\<lparr>ports := ports s\<rparr>)"
    using assms by (simp add: ide_inv_def)
  then show ?thesis by blast
next
  case (Cons i xs)
  have "unat (blockno (bufs s ! i)) < FSSIZE" "bdev (bufs s ! i) = 1"
    using assms Cons by (simp_all add: request_ok_def word_less_nat_alt)
  from idestart_programs [OF this] show ?thesis using assms Cons by (auto simp: ide_inv_def)
qed

text \<open>
  Without a disk error an interrupt does to the buffer and the disk what \<open>iderw\<close> of the buffer cache does, the
  process that waits for the buffer leaves its loop, and the controller works on the next request.
\<close>

lemma interrupt_serves_head:
  assumes "ide_inv (i # q) s" "\<not> err s"
  shows "\<exists>t. ideintr (device_done s) = Done t \<and> ide_inv q t \<and> \<not> err t \<and> iderw i (bstate.truncate s) = Done (bstate.truncate t) \<and> iderw_leaves i t"
proof -
  have r: "request_ok s i" "i < length (bufs s)" and h: "idequeue s = Some i" "request_list (qnext s) (qnext s i) q" "i \<notin> set q" "distinct q" "\<forall>j\<in>set q. request_ok s j"
    and pr: "programmed s i" and f: "unat (disksize s) \<le> FSSIZE" "havedisk1 s"
    using assms(1) by (auto simp: ide_inv_def request_ok_def)
  define u where "u = (if b_dirty (bufs s ! i)
    then set_buf i (\<lambda>b. b\<lparr>b_valid := True, b_dirty := False\<rparr>)
      (s\<lparr>disk := (disk s)(blockno (bufs s ! i) := bdata (bufs s ! i)), writes := writes s @ [(blockno (bufs s ! i), bdata (bufs s ! i))], idequeue := qnext s i\<rparr>)
    else set_buf i (\<lambda>b. b\<lparr>bdata := disk s (blockno (bufs s ! i)), b_valid := True, b_dirty := False\<rparr>)
      (s\<lparr>ports := (ports s)\<lparr>fifo := disk s (blockno (bufs s ! i))\<rparr>, idequeue := qnext s i\<rparr>))"
  have cl: "\<not> b_dirty b \<Longrightarrow> b\<lparr>b_dirty := False\<rparr> = b" "b\<lparr>b_dirty := False, b_valid := True\<rparr> = b\<lparr>b_valid := True, b_dirty := False\<rparr>" for b :: buf by simp_all
  have st: "ideintr (device_done s) = (if idequeue u \<noteq> None then idestart (idequeue u) u else Done u)"
    using h(1) r(2) assms(2) by (auto simp: device_done_programmed [OF pr] ideintr_def idewait_def Let_def u_def upd_at_def)
  have "request_list (qnext u) (idequeue u) q" using h(2) by (simp add: u_def)
  moreover have "\<forall>j\<in>set q. request_ok u j"
  proof
    fix j assume "j \<in> set q"
    then have "j \<noteq> i" "request_ok s j" using h by auto
    then show "request_ok u j" using request_ok_cong [of u j s] by (simp add: u_def)
  qed
  moreover have "unat (disksize u) \<le> FSSIZE" "havedisk1 u" using f by (simp_all add: u_def)
  ultimately obtain p where p: "ideintr (device_done s) = Done (u\<lparr>ports := p\<rparr>)" "ide_inv q (u\<lparr>ports := p\<rparr>)"
    using start_next [of u q] h(4) unfolding st by blast
  have "iderw i (bstate.truncate s) = Done (bstate.truncate (u\<lparr>ports := p\<rparr>))"
    using r by (auto simp: iderw_def request_ok_def iderw_leaves_def Let_def upd_at_def u_def bstate.truncate_def cl)
  moreover have "iderw_leaves i (u\<lparr>ports := p\<rparr>)" "\<not> err (u\<lparr>ports := p\<rparr>)"
    using r(2) assms(2) by (simp_all add: iderw_leaves_def u_def)
  ultimately show ?thesis using p by blast
qed

text \<open>
  Every request is served: after as many interrupts as there are requests the queue is empty, and the disk and the
  buffers are those of the requests carried out one after the other, first come first served.
\<close>

primrec interrupts :: "nat \<Rightarrow> ide_state \<Rightarrow> ide_state outcome" where
  "interrupts 0 s = Done s"
| "interrupts (Suc n) s = and_then (ideintr (device_done s)) (interrupts n)"

primrec carry_out :: "nat list \<Rightarrow> bstate \<Rightarrow> bstate outcome" where
  "carry_out [] s = Done s"
| "carry_out (i # q) s = and_then (iderw i s) (carry_out q)"

theorem queue_served_in_order:
  assumes "ide_inv q s" "\<not> err s"
  shows "\<exists>t. interrupts (length q) s = Done t \<and> ide_inv [] t \<and> carry_out q (bstate.truncate s) = Done (bstate.truncate t)"
  using assms
proof (induction q arbitrary: s)
  case (Cons i q)
  obtain u where "ideintr (device_done s) = Done u" "ide_inv q u" "\<not> err u" "iderw i (bstate.truncate s) = Done (bstate.truncate u)"
    using interrupt_serves_head [OF Cons.prems] by blast
  then show ?case using Cons.IH [of u] by simp
qed simp

text \<open>
  With a disk error the buffer of a read is marked valid all the same: the process that asked for the block finds in
  it the data of the block the buffer held before.
\<close>

theorem read_error_unnoticed:
  assumes "ide_inv [i] s" "\<not> b_dirty (bufs s ! i)"
  shows "\<exists>t. ideintr ((device_done s)\<lparr>err := True\<rparr>) = Done t \<and> iderw_leaves i t \<and> bdata (bufs t ! i) = bdata (bufs s ! i)"
proof -
  have r: "i < length (bufs s)" "idequeue s = Some i" "qnext s i = None" and pr: "programmed s i"
    using assms(1) by (auto simp: ide_inv_def request_ok_def)
  then show ?thesis using assms(2) by (simp add: device_done_programmed ideintr_def idewait_def Let_def iderw_leaves_def)
qed

end
