(* ===== verification/Spec2Isabelle.thy ===== *)
theory Spec2Isabelle
  imports Kalloc Ksystem Log_Space Fs_Dirs File_Refs Shell_Trip Sbrk Console_Lines Grep Umalloc_Heap Uthread_Runs Net_Reply Ide
begin

text \<open>
  A verification of an xv6 kernel for the PC with a multi-level feedback queue
  scheduler, lazily allocated user memory, user-level threads and a small
  network stack, and of its shell, \<^verbatim>\<open>grep\<close>, \<^verbatim>\<open>printf\<close> and \<^verbatim>\<open>malloc\<close>.  All sources are
  in \<^verbatim>\<open>src/xv6\<close>; file names below are relative to it.

  \<^bold>\<open>The program.\<close>  The page allocator (\<^verbatim>\<open>kalloc.c\<close>) hands out 4096-byte pages of
  physical memory.  Page tables and address spaces (\<^verbatim>\<open>vm.c\<close>), kernel stacks and
  pipes live in such pages.  Processors, interrupt nesting and spin locks are in
  \<^verbatim>\<open>spinlock.c\<close> and at the head of \<^verbatim>\<open>proc.c\<close>; the process table and the scheduler are
  the rest of \<^verbatim>\<open>proc.c\<close>.  Traps (\<^verbatim>\<open>trap.c\<close>) dispatch timer ticks, page faults and
  system calls (\<^verbatim>\<open>syscall.c\<close>, \<^verbatim>\<open>sysproc.c\<close>, \<^verbatim>\<open>sysfile.c\<close>).  The file system is a stack
  of layers: disk driver, buffer cache (\<^verbatim>\<open>bio.c\<close>), redo log (\<^verbatim>\<open>log.c\<close>), inodes,
  directories and paths (\<^verbatim>\<open>fs.c\<close>), open files and pipes (\<^verbatim>\<open>file.c\<close>, \<^verbatim>\<open>pipe.c\<close>).
  The console (\<^verbatim>\<open>console.c\<close>) turns key strokes into lines, and the network stack
  (\<^verbatim>\<open>eth.c\<close> to \<^verbatim>\<open>http.c\<close>) answers the frames that the Ethernet driver receives.

  \<^bold>\<open>Conventions\<close> (\<open>Prelude\<close>, \<open>Layout\<close>, \<open>Bytes\<close>, \<open>Cstring\<close>).  A routine returns an
  \<open>outcome\<close>: \<open>Done\<close> with the new state and its result, \<open>Panic\<close> with the message of
  the panic, \<open>Wait\<close> where it spins or sleeps, \<open>Fault\<close> where C leaves the behaviour
  undefined.  State is passed explicitly as a record with the fields of the C
  structures.  C integers are words of their width; the few counters that are
  mathematical integers are listed below.  \<open>Layout\<close> has the constants and macros
  of \<^verbatim>\<open>param.h\<close>, \<^verbatim>\<open>memlayout.h\<close> and \<^verbatim>\<open>mmu.h\<close>, \<open>Bytes\<close> the integers inside a block of
  the disk, \<open>Cstring\<close> byte-addressed memory and \<^verbatim>\<open>string.c\<close>.

  \<^bold>\<open>Memory.\<close>
  \<^item> \<open>Kalloc\<close>: \<^verbatim>\<open>kalloc.c\<close> with the free list in memory.  The locale \<open>page_allocator\<close>
    states what clients rely on; \<open>kmem\<close> interprets it on \<open>kalloc\<close> and \<open>kfree\<close>.  Every
    free page is handed out exactly once, and freed pages come back last first.
  \<^item> \<open>Vm\<close>, \<open>Vm_Space\<close>, \<open>Vm_Copy\<close>: \<^verbatim>\<open>vm.c\<close>.  Page tables are words in memory; \<open>Vm_Space\<close>
    reads them as a map from page numbers to entries and accounts for every page
    an address space owns.  \<^verbatim>\<open>copyuvm\<close> copies, \<^verbatim>\<open>freevm\<close> gives everything back.
  \<^item> \<open>Trap\<close>, \<open>Trap_Fault\<close>, \<open>Sbrk\<close>: the trap dispatch, the page fault handler, \<^verbatim>\<open>syscall\<close>
    and the calls of \<^verbatim>\<open>sysproc.c\<close>.  Lazy allocation does not change the memory a
    process sees; \<^verbatim>\<open>sys_sbrk\<close> is described on every branch, including the sizes
    for which it lets a process grow into the kernel and panic.

  \<^bold>\<open>Processes.\<close>
  \<^item> \<open>Spinlock\<close>: \<^verbatim>\<open>spinlock.c\<close>, sequentially, and as a step relation in which all
    processors interleave at every access to a lock word (mutual exclusion, no panic).
  \<^item> \<open>Proc\<close>, \<open>Sched\<close>: \<^verbatim>\<open>proc.c\<close>, each routine cut where it calls \<^verbatim>\<open>swtch\<close>; round robin and
    the feedback queue (highest level first, no starvation with boosting).
  \<^item> \<open>Proc_Effects\<close>, \<open>Ksystem\<close>: what each routine does to the machine, and the
    transition system of all processors.  Its invariant gives that a process runs
    on one processor, that the panics of \<^verbatim>\<open>sched\<close>, \<^verbatim>\<open>acquire\<close> and the others are
    unreachable, and that pids are unique until \<^verbatim>\<open>nextpid\<close> overflows; the relation
    \<open>kreach_no_wrap\<close> is reachability before that.

  \<^bold>\<open>Files.\<close>
  \<^item> \<open>Bio\<close>: \<^verbatim>\<open>bio.c\<close>, \<^verbatim>\<open>sleeplock.c\<close> and \<^verbatim>\<open>iderw\<close> of \<^verbatim>\<open>memide.c\<close>.  The locale \<open>block_cache\<close> is
    the interface of the cache (coherence, least recently used replacement) and
    \<open>bc\<close> its interpretation.
  \<^item> \<open>Ide\<close>: \<^verbatim>\<open>ide.c\<close>, the driver of the default kernel.  Its queue serves requests first
    come first served, and each interrupt without a disk error has on the buffers
    and the disk exactly the effect of \<open>iderw\<close> of \<open>Bio\<close>.
  \<^item> \<open>Log\<close>, \<open>Crash\<close>, \<open>Log_Space\<close>: \<^verbatim>\<open>log.c\<close>.  A crash keeps a prefix of the block writes;
    commit is atomic and recovery can itself be interrupted.  The reservation of
    \<^verbatim>\<open>begin_op\<close> suffices for a log with room for \<^verbatim>\<open>LOGSIZE\<close> blocks besides its header,
    and does not for the log that \<^verbatim>\<open>mkfs\<close> makes.
  \<^item> \<open>Fs\<close>, \<open>Fs_Blocks\<close>, \<open>Fs_Files\<close>, \<open>Fs_Names\<close>, \<open>Fs_Refs\<close>, \<open>Fs_Dirs\<close>: \<^verbatim>\<open>fs.c\<close>.  Block
    allocation, reading and writing of file contents, inodes on the disk, path
    elements, directory entries, and the reference counts of inodes.
  \<^item> \<open>Pipe\<close>, \<open>File\<close>, \<open>Syscall_Args\<close>, \<open>Sysfile\<close>, \<open>File_Refs\<close>: \<^verbatim>\<open>pipe.c\<close>, \<^verbatim>\<open>file.c\<close>, the
    argument routines of \<^verbatim>\<open>syscall.c\<close>, \<^verbatim>\<open>sysfile.c\<close>.  A pipe is a bounded queue under
    every interleaving; arguments lie below the kernel; over any sequence of
    calls, forks and exits every reference count equals the number of references.

  \<^bold>\<open>Console and network.\<close>
  \<^item> \<open>Console\<close>, \<open>Console_Lines\<close>: \<^verbatim>\<open>console.c\<close> and \<^verbatim>\<open>kbd.c\<close>.  The locale \<open>ring_buffer\<close>, with
    its interpretation \<open>input\<close>, carries the indices across their wrap; the handler
    and the reader refine an abstract line discipline.
  \<^item> \<open>Net\<close>, \<open>Net_Reply\<close>: the handlers from \<^verbatim>\<open>eth_proc\<close> to \<^verbatim>\<open>http_proc\<close>.  The sending routine
    of the driver and the old contents of the page a packet is built in are
    parameters.  Echo requests and ARP frames are answered as they should be, up
    to the deviations the theorems spell out.

  \<^bold>\<open>User programs.\<close>
  \<^item> \<open>Shell\<close>, \<open>Shell_Trip\<close>: \<^verbatim>\<open>sh.c\<close>.  The parser returns on every line, reads back what
    a printer of commands writes, and \<^verbatim>\<open>runcmd\<close> gives every program its descriptors.
  \<^item> \<open>Printf\<close>, \<open>Grep\<close>: \<^verbatim>\<open>printf.c\<close>, \<^verbatim>\<open>ulib.c\<close> and \<^verbatim>\<open>grep.c\<close>, with the language a pattern denotes.
  \<^item> \<open>User_Memory\<close>, \<open>Umalloc\<close>, \<open>Umalloc_Heap\<close>: \<^verbatim>\<open>umalloc.c\<close> in the memory of a process; no
    two blocks in use overlap and no block in use is written.
  \<^item> \<open>Uthread\<close>, \<open>Uthread_Switch\<close>, \<open>Uthread_Runs\<close>: \<^verbatim>\<open>uthread1.c\<close> to \<^verbatim>\<open>uthread3.c\<close> with
    \<^verbatim>\<open>uthread_switch.S\<close>.  The locale \<open>thread_scheduler\<close> is interpreted on the first two
    schedulers (\<open>u1\<close>, \<open>u2\<close>); threads keep their registers and stacks.

  \<^bold>\<open>Loops and bounds.\<close>  Loops over linked structures that need not end are partial
  functions into \<open>option\<close>, and the theorems show that they return: the end of the
  disk queue, the searches of \<^verbatim>\<open>free\<close> and \<^verbatim>\<open>malloc\<close>, the retries of the network.  The
  shell's parser has a depth of calls of four times the length of the line plus
  four, which \<open>parse_fuel\<close> shows to be enough; \<^verbatim>\<open>copyout\<close> has one step per byte at most.
  The heap theorem is for processes below 2 GB, above which \<^verbatim>\<open>sbrk\<close> returns addresses
  of the kernel.  A passed-over process reaches the top level after at most 980
  passes.  A thread needs 36 bytes of stack below its own use to be switched.
  Pids are 32-bit and wrap; the tick counters of processes are unbounded integers.

  \<^bold>\<open>Simplifications.\<close>  The locks of the page allocator, the buffer cache and the
  disk queue are not modelled: calls to those components are atomic.  In \<open>Bio\<close> a disk
  request is complete when \<^verbatim>\<open>iderw\<close> returns.  The controller of \<open>Ide\<close> does what the
  registers ask for, and its busy-waiting ends.  Translation look-aside buffers are
  not modelled.  Names of directory entries contain no NUL.  The runs of
  \<open>Uthread_Runs\<close> are those in which the timer does not redirect the process; what a
  redirection destroys is stated in lemmas of its own.

  \<^bold>\<open>Not modelled.\<close>  \<^verbatim>\<open>exec.c\<close>, which only composes modelled routines; the Ethernet
  driver, PCI, interrupt controllers, timers and the serial port (device
  registers); drawing of glyphs; discovery of processors and start-up; the context
  switch and trap entry in assembly, at which the process model is cut; \<^verbatim>\<open>mkfs.c\<close>,
  which runs on the host; the small user programs and the tests.
\<close>

end
